(* ===== verification/WP_Prelude.thy ===== *)
theory WP_Prelude
  imports Main "HOL-Library.Word" "HOL-Library.Char_ord" "HOL-Library.Code_Target_Nat"
begin

text \<open>
  Shared vocabulary of the development: the machine types of the Rust sources, the
  standard-library operations on bytes and slices that several components use, the
  result type of a fallible operation on a mutable state, and the generic lemmas about
  them.

  \<^item> A \<open>u8\<close> is a \<open>char\<close> of HOL, which is exactly a byte; \<open>CHR ''x''\<close> is Rust's \<open>b'x'\<close>.
  \<^item> A \<open>usize\<close> is a \<open>nat\<close>: every one modelled here is an index into (or a length of) a
    buffer that exists in memory, so it cannot overflow.
  \<^item> A \<open>u32\<close> that counts or truncates is a \<open>nat\<close> with the wrap-around written out by
    \<open>as_u32\<close> (release builds of the workspace do not check overflow).
  \<^item> A Rust \<open>char\<close> is its code point, a \<open>nat\<close>.
  \<^item> A Rust \<open>String\<close> is its UTF-8 bytes.
\<close>

unbundle bit_operations_syntax

section \<open>Machine types\<close>

type_synonym u8 = char
type_synonym usize = nat
type_synonym u32 = nat
type_synonym uchar = nat
type_synonym u64 = "64 word"
type_synonym i64 = "64 word"

definition as_u32 :: "nat \<Rightarrow> u32" where
  "as_u32 n = n mod 4294967296"

lemma as_u32_id [simp]: "n < 4294967296 \<Longrightarrow> as_u32 n = n"
  by (simp add: as_u32_def)

lemma as_u32_le: "as_u32 n \<le> n"
  by (simp add: as_u32_def)

section \<open>Byte names\<close>

abbreviation c_lf :: u8 where "c_lf \<equiv> CHR 0x0A"
abbreviation c_cr :: u8 where "c_cr \<equiv> CHR 0x0D"
abbreviation c_tab :: u8 where "c_tab \<equiv> CHR 0x09"
abbreviation c_ff :: u8 where "c_ff \<equiv> CHR 0x0C"
abbreviation c_bs :: u8 where "c_bs \<equiv> CHR 0x5C"
abbreviation c_dq :: u8 where "c_dq \<equiv> CHR 0x22"
abbreviation c_sq :: u8 where "c_sq \<equiv> CHR 0x27"

section \<open>The byte predicates of the standard library\<close>

definition byte :: "u8 \<Rightarrow> nat" where
  "byte b = of_char b"

definition in_range :: "u8 \<Rightarrow> u8 \<Rightarrow> u8 \<Rightarrow> bool" where
  "in_range lo hi b \<longleftrightarrow> byte lo \<le> byte b \<and> byte b \<le> byte hi"

definition is_ascii_digit :: "u8 \<Rightarrow> bool" where
  "is_ascii_digit b \<longleftrightarrow> in_range (CHR ''0'') (CHR ''9'') b"

definition is_ascii_lowercase :: "u8 \<Rightarrow> bool" where
  "is_ascii_lowercase b \<longleftrightarrow> in_range (CHR ''a'') (CHR ''z'') b"

definition is_ascii_uppercase :: "u8 \<Rightarrow> bool" where
  "is_ascii_uppercase b \<longleftrightarrow> in_range (CHR ''A'') (CHR ''Z'') b"

definition is_ascii_alphabetic :: "u8 \<Rightarrow> bool" where
  "is_ascii_alphabetic b \<longleftrightarrow> is_ascii_lowercase b \<or> is_ascii_uppercase b"

definition is_ascii_alphanumeric :: "u8 \<Rightarrow> bool" where
  "is_ascii_alphanumeric b \<longleftrightarrow> is_ascii_alphabetic b \<or> is_ascii_digit b"

definition is_ascii_hexdigit :: "u8 \<Rightarrow> bool" where
  "is_ascii_hexdigit b \<longleftrightarrow> is_ascii_digit b
     \<or> in_range (CHR ''a'') (CHR ''f'') b \<or> in_range (CHR ''A'') (CHR ''F'') b"

definition to_ascii_lowercase :: "u8 \<Rightarrow> u8" where
  "to_ascii_lowercase b = (if is_ascii_uppercase b then char_of (byte b + 32) else b)"

named_theorems byte_class

lemmas [byte_class] = is_ascii_digit_def is_ascii_lowercase_def is_ascii_uppercase_def
  is_ascii_alphabetic_def is_ascii_alphanumeric_def is_ascii_hexdigit_def in_range_def
  byte_def

section \<open>Slices\<close>

text \<open>\<open>slice::get(i).copied()\<close>.\<close>

definition slice_get :: "'a list \<Rightarrow> usize \<Rightarrow> 'a option" where
  "slice_get xs i = (if i < length xs then Some (xs ! i) else None)"

lemma slice_get_Some_iff: "slice_get xs i = Some x \<longleftrightarrow> i < length xs \<and> xs ! i = x"
  by (simp add: slice_get_def)

lemma slice_get_None_iff [simp]: "slice_get xs i = None \<longleftrightarrow> length xs \<le> i"
  by (auto simp: slice_get_def)

lemma slice_get_SomeD: "slice_get xs i = Some x \<Longrightarrow> i < length xs"
  by (simp add: slice_get_Some_iff)

text \<open>\<open>&xs[a..b]\<close>, for \<open>a <= b <= xs.len()\<close>.\<close>

definition slice :: "'a list \<Rightarrow> usize \<Rightarrow> usize \<Rightarrow> 'a list" where
  "slice xs a b = take (b - a) (drop a xs)"

text \<open>
  \<open>while let Some(b) = src.get(p) { if ok(b) { p += 1 } else { break } }\<close>:
  the position after the longest run of bytes satisfying \<open>ok\<close> from \<open>p\<close>.
\<close>

definition skip_while :: "('a \<Rightarrow> bool) \<Rightarrow> 'a list \<Rightarrow> usize \<Rightarrow> usize" where
  "skip_while ok xs p = p + length (takeWhile ok (drop p xs))"

lemma skip_while_unfold:
  "skip_while ok xs p =
     (case slice_get xs p of None \<Rightarrow> p
      | Some b \<Rightarrow> if ok b then skip_while ok xs (Suc p) else p)"
proof (cases "p < length xs")
  case True
  then have "drop p xs = xs ! p # drop (Suc p) xs" by (rule Cons_nth_drop_Suc [symmetric])
  with True show ?thesis by (simp add: skip_while_def slice_get_def)
next
  case False
  then show ?thesis by (simp add: skip_while_def slice_get_def)
qed

lemma skip_while_ge [simp]: "p \<le> skip_while ok xs p"
  by (simp add: skip_while_def)

lemma skip_while_le_length:
  assumes "p \<le> length xs"
  shows "skip_while ok xs p \<le> length xs"
  using length_takeWhile_le [of ok "drop p xs"] assms by (simp add: skip_while_def)

lemma skip_while_all:
  assumes "p \<le> i" "i < skip_while ok xs p"
  shows "i < length xs \<and> ok (xs ! i)"
proof -
  let ?t = "takeWhile ok (drop p xs)"
  have i: "i - p < length ?t" using assms by (simp add: skip_while_def)
  then have lt: "i - p < length (drop p xs)"
    using length_takeWhile_le [of ok "drop p xs"] by linarith
  have "?t ! (i - p) = drop p xs ! (i - p)" using i by (rule takeWhile_nth)
  moreover have "ok (?t ! (i - p))" using i nth_mem set_takeWhileD by fastforce
  ultimately show ?thesis using lt assms(1) by simp
qed

lemma skip_while_stops:
  assumes "skip_while ok xs p < length xs"
  shows "\<not> ok (xs ! skip_while ok xs p)"
proof -
  let ?n = "length (takeWhile ok (drop p xs))"
  have "?n < length (drop p xs)" using assms by (simp add: skip_while_def)
  then have "\<not> ok (drop p xs ! ?n)" by (rule nth_length_takeWhile)
  then show ?thesis using assms by (simp add: skip_while_def)
qed

lemma skip_while_progress:
  assumes "p < length xs" "ok (xs ! p)"
  shows "p < skip_while ok xs p"
proof -
  have "skip_while ok xs p = skip_while ok xs (Suc p)"
    using assms skip_while_unfold [of ok xs p] by (simp add: slice_get_def)
  moreover have "Suc p \<le> skip_while ok xs (Suc p)" by (rule skip_while_ge)
  ultimately show ?thesis by linarith
qed

section \<open>Fallible operations on a mutable state\<close>

text \<open>
  A method \<open>fn f(&mut self) -> Result<T, E>\<close> is a function from the state to its result
  (\<open>Inl\<close> the error, \<open>Inr\<close> the value) and the state it leaves, on both outcomes.
  \<open>and_then\<close> is the \<open>?\<close> operator: it stops at the first error.
\<close>

definition and_then :: "('e + 'a) \<times> 's \<Rightarrow> ('a \<Rightarrow> 's \<Rightarrow> ('e + 'b) \<times> 's) \<Rightarrow> ('e + 'b) \<times> 's" where
  "and_then r k = (case r of (Inl e, s) \<Rightarrow> (Inl e, s) | (Inr a, s) \<Rightarrow> k a s)"

lemma and_then_simps [simp]:
  "and_then (Inl e, s) k = (Inl e, s)"
  "and_then (Inr a, s) k = k a s"
  by (simp_all add: and_then_def)

lemma and_then_cong [fundef_cong]:
  "r = r' \<Longrightarrow> (\<And>a s. r' = (Inr a, s) \<Longrightarrow> k a s = k' a s) \<Longrightarrow> and_then r k = and_then r' k'"
  by (auto simp: and_then_def split: prod.splits sum.splits)

lemma and_then_Inr_iff:
  "and_then r k = (Inr b, t) \<longleftrightarrow> (\<exists>a s. r = (Inr a, s) \<and> k a s = (Inr b, t))"
  by (auto simp: and_then_def split: prod.splits sum.splits)

end
