(* ===== verification/Lex_Token.thy ===== *)
theory Lex_Token
  imports WP_Prelude
begin

text \<open>
  Tokens of the lexer: \<open>crates/weavepy-lexer/src/token.rs\<close>. Byte positions and spans, the
  token kinds, the keyword table in both directions, and string prefixes. Keyword and token
  constructors keep the source's names, with \<open>Kw_\<close> before the keywords and \<open>StringTok\<close> for
  \<open>TokenKind::String\<close>.
\<close>

section \<open>Spans\<close>

record span =
  span_start :: u32
  span_end :: u32

definition span_new :: "u32 \<Rightarrow> u32 \<Rightarrow> span" where
  "span_new a b = \<lparr>span_start = a, span_end = b\<rparr>"

definition span_no_location :: span where
  "span_no_location = span_new 4294967295 4294967295"

definition is_no_location :: "span \<Rightarrow> bool" where
  "is_no_location sp \<longleftrightarrow> sp = span_no_location"

definition span_merge :: "span \<Rightarrow> span \<Rightarrow> span" where
  "span_merge a b = \<lparr>span_start = min (span_start a) (span_start b),
                     span_end = max (span_end a) (span_end b)\<rparr>"

record escape_warning =
  ew_offset :: u32
  ew_message :: string

section \<open>Keywords\<close>

datatype (plugins only: code size) keyword =
    Kw_False | Kw_None | Kw_True | Kw_And | Kw_As | Kw_Assert | Kw_Async | Kw_Await | Kw_Break
  | Kw_Class | Kw_Continue | Kw_Def | Kw_Del | Kw_Elif | Kw_Else | Kw_Except | Kw_Finally
  | Kw_For | Kw_From | Kw_Global | Kw_If | Kw_Import | Kw_In | Kw_Is | Kw_Lambda
  | Kw_Nonlocal | Kw_Not | Kw_Or | Kw_Pass | Kw_Raise | Kw_Return | Kw_Try | Kw_While
  | Kw_With | Kw_Yield

definition keyword_table :: "(string \<times> keyword) list" where
  "keyword_table =
    [(''False'', Kw_False), (''None'', Kw_None), (''True'', Kw_True), (''and'', Kw_And),
     (''as'', Kw_As), (''assert'', Kw_Assert), (''async'', Kw_Async), (''await'', Kw_Await),
     (''break'', Kw_Break), (''class'', Kw_Class), (''continue'', Kw_Continue),
     (''def'', Kw_Def), (''del'', Kw_Del), (''elif'', Kw_Elif), (''else'', Kw_Else),
     (''except'', Kw_Except), (''finally'', Kw_Finally), (''for'', Kw_For),
     (''from'', Kw_From), (''global'', Kw_Global), (''if'', Kw_If), (''import'', Kw_Import),
     (''in'', Kw_In), (''is'', Kw_Is), (''lambda'', Kw_Lambda), (''nonlocal'', Kw_Nonlocal),
     (''not'', Kw_Not), (''or'', Kw_Or), (''pass'', Kw_Pass), (''raise'', Kw_Raise),
     (''return'', Kw_Return), (''try'', Kw_Try), (''while'', Kw_While), (''with'', Kw_With),
     (''yield'', Kw_Yield)]"

definition keyword_from_ident :: "string \<Rightarrow> keyword option" where
  "keyword_from_ident s = map_of keyword_table s"

primrec keyword_as_str :: "keyword \<Rightarrow> string" where
  "keyword_as_str Kw_False = ''False''"
| "keyword_as_str Kw_None = ''None''"
| "keyword_as_str Kw_True = ''True''"
| "keyword_as_str Kw_And = ''and''"
| "keyword_as_str Kw_As = ''as''"
| "keyword_as_str Kw_Assert = ''assert''"
| "keyword_as_str Kw_Async = ''async''"
| "keyword_as_str Kw_Await = ''await''"
| "keyword_as_str Kw_Break = ''break''"
| "keyword_as_str Kw_Class = ''class''"
| "keyword_as_str Kw_Continue = ''continue''"
| "keyword_as_str Kw_Def = ''def''"
| "keyword_as_str Kw_Del = ''del''"
| "keyword_as_str Kw_Elif = ''elif''"
| "keyword_as_str Kw_Else = ''else''"
| "keyword_as_str Kw_Except = ''except''"
| "keyword_as_str Kw_Finally = ''finally''"
| "keyword_as_str Kw_For = ''for''"
| "keyword_as_str Kw_From = ''from''"
| "keyword_as_str Kw_Global = ''global''"
| "keyword_as_str Kw_If = ''if''"
| "keyword_as_str Kw_Import = ''import''"
| "keyword_as_str Kw_In = ''in''"
| "keyword_as_str Kw_Is = ''is''"
| "keyword_as_str Kw_Lambda = ''lambda''"
| "keyword_as_str Kw_Nonlocal = ''nonlocal''"
| "keyword_as_str Kw_Not = ''not''"
| "keyword_as_str Kw_Or = ''or''"
| "keyword_as_str Kw_Pass = ''pass''"
| "keyword_as_str Kw_Raise = ''raise''"
| "keyword_as_str Kw_Return = ''return''"
| "keyword_as_str Kw_Try = ''try''"
| "keyword_as_str Kw_While = ''while''"
| "keyword_as_str Kw_With = ''with''"
| "keyword_as_str Kw_Yield = ''yield''"

section \<open>Token kinds\<close>

datatype (plugins only: code size) token_kind =
    Endmarker | Newline | Nl | Indent | Dedent | Comment
  | Name | Keyword keyword | Number | StringTok
  | LPar | RPar | LSqb | RSqb | LBrace | RBrace | Comma | Colon | Semi | Dot | Ellipsis
  | RArrow | At | AtEqual
  | Plus | Minus | Star | DoubleStar | Slash | DoubleSlash | Percent
  | Amper | Vbar | Caret | Tilde | LeftShift | RightShift
  | Less | Greater | LessEqual | GreaterEqual | EqEqual | NotEqual
  | Equal | PlusEqual | MinusEqual | StarEqual | SlashEqual | DoubleSlashEqual
  | PercentEqual | AmperEqual | VbarEqual | CaretEqual | LeftShiftEqual | RightShiftEqual
  | DoubleStarEqual | ColonEqual

definition symbolic_name :: "token_kind \<Rightarrow> string" where
  "symbolic_name k = (case k of
      Endmarker \<Rightarrow> ''ENDMARKER'' | Newline \<Rightarrow> ''NEWLINE'' | Nl \<Rightarrow> ''NL'' | Indent \<Rightarrow> ''INDENT''
    | Dedent \<Rightarrow> ''DEDENT'' | Comment \<Rightarrow> ''COMMENT'' | Name \<Rightarrow> ''NAME'' | Keyword _ \<Rightarrow> ''NAME''
    | Number \<Rightarrow> ''NUMBER'' | StringTok \<Rightarrow> ''STRING'' | _ \<Rightarrow> ''OP'')"

record token =
  tok_kind :: token_kind
  tok_span :: span

section \<open>String prefixes\<close>

record string_prefix =
  sp_raw :: bool
  sp_bytes :: bool
  sp_fstring :: bool
  sp_unicode :: bool
  sp_template :: bool

definition string_prefix_default :: string_prefix where
  "string_prefix_default = \<lparr>sp_raw = False, sp_bytes = False, sp_fstring = False,
     sp_unicode = False, sp_template = False\<rparr>"

text \<open>
  The loop over the prefix's characters, then the rejected combinations. The \<open>lang_preview\<close>
  gate (a process-wide atomic) is the argument \<open>lp\<close>. A byte above 127 is part of a
  character that no arm matches, as in the source.
\<close>

definition string_prefix_step :: "bool \<Rightarrow> string_prefix \<Rightarrow> u8 \<Rightarrow> string_prefix option" where
  "string_prefix_step lp p b = (let c = to_ascii_lowercase b in
     if c = CHR ''r'' \<and> \<not> sp_raw p then Some (p\<lparr>sp_raw := True\<rparr>)
     else if c = CHR ''b'' \<and> \<not> sp_bytes p then Some (p\<lparr>sp_bytes := True\<rparr>)
     else if c = CHR ''f'' \<and> \<not> sp_fstring p then Some (p\<lparr>sp_fstring := True\<rparr>)
     else if c = CHR ''u'' \<and> \<not> sp_unicode p then Some (p\<lparr>sp_unicode := True\<rparr>)
     else if c = CHR ''t'' \<and> \<not> sp_template p \<and> lp then Some (p\<lparr>sp_template := True\<rparr>)
     else None)"

fun string_prefix_loop :: "bool \<Rightarrow> string_prefix \<Rightarrow> u8 list \<Rightarrow> string_prefix option" where
  "string_prefix_loop lp p [] = Some p"
| "string_prefix_loop lp p (b # bs) =
     (case string_prefix_step lp p b of None \<Rightarrow> None
      | Some p' \<Rightarrow> string_prefix_loop lp p' bs)"

definition string_prefix_conflict :: "string_prefix \<Rightarrow> bool" where
  "string_prefix_conflict p \<longleftrightarrow> (sp_bytes p \<and> sp_unicode p) \<or> (sp_bytes p \<and> sp_fstring p)
     \<or> (sp_fstring p \<and> sp_unicode p) \<or> (sp_raw p \<and> sp_unicode p)
     \<or> (sp_template p \<and> (sp_bytes p \<or> sp_fstring p \<or> sp_unicode p))"

definition string_prefix_parse :: "bool \<Rightarrow> u8 list \<Rightarrow> string_prefix option" where
  "string_prefix_parse lp s = (case string_prefix_loop lp string_prefix_default s of
      None \<Rightarrow> None
    | Some p \<Rightarrow> if string_prefix_conflict p then None else Some p)"

definition interpolated :: "string_prefix \<Rightarrow> bool" where
  "interpolated p \<longleftrightarrow> sp_fstring p \<or> sp_template p"

end
