(* ===== verification/Lex_Error.thy ===== *)
theory Lex_Error
  imports WP_Prelude
begin

text \<open>
  The errors of the lexer: \<open>crates/weavepy-lexer/src/error.rs\<close>. One constructor per variant,
  the fields positional in the source's order. The display text of each variant is not
  modelled; its data is. Fields that hold a quote, bracket or prefix letter, which the
  scanner takes from a byte, are bytes.
\<close>

datatype (plugins only: code size) lex_error =
    UnterminatedString u32 u32 \<comment> \<open>pos, detected_line\<close>
  | UnterminatedStringEscapedQuote u32 u32 \<comment> \<open>pos, detected_line\<close>
  | UnterminatedTripleString u32 u32 \<comment> \<open>pos, detected_line\<close>
  | UnexpectedEofParsing u32 bool \<comment> \<open>pos, line_had_tokens\<close>
  | UnterminatedFstring u32 u8 u32 \<comment> \<open>pos, kind, detected_line\<close>
  | UnterminatedTripleFstring u32 u8 u32 \<comment> \<open>pos, kind, detected_line\<close>
  | FstringExpectingBrace u32 u8 u32 \<comment> \<open>pos, kind, field_start\<close>
  | FstringExpectingBraceOrSpec u32 u8 u32 \<comment> \<open>pos, kind, field_start\<close>
  | FstringNestedTooDeeply u32 u8 \<comment> \<open>pos, kind\<close>
  | FstringTooManyNested u32 u32 u8 \<comment> \<open>pos, field_start, kind\<close>
  | FstringMalformedNamedEscape u32 u32 u32 \<comment> \<open>pos, seg_start, seg_end\<close>
  | FstringParenMismatch u8 u8 u32 \<comment> \<open>close, opener, pos\<close>
  | FstringUnmatchedParen u8 u32 u8 \<comment> \<open>close, pos, kind\<close>
  | BracketNeverClosed u8 u32 \<comment> \<open>opener, pos\<close>
  | UnmatchedClose u8 u32 \<comment> \<open>close, pos\<close>
  | TooManyNestedParens u32 \<comment> \<open>pos\<close>
  | MismatchedClose u8 u8 "u32 option" u32 \<comment> \<open>close, opener, open_line, pos\<close>
  | FstringNewlineInSpec u32 u8 \<comment> \<open>pos, kind\<close>
  | InvalidChar uchar u32 \<comment> \<open>ch, pos\<close>
  | InvalidNonPrintable uchar u32 \<comment> \<open>ch, pos\<close>
  | InvalidToken u32 \<comment> \<open>pos\<close>
  | InconsistentIndent u32 \<comment> \<open>pos\<close>
  | UnknownDedent u32 \<comment> \<open>pos\<close>
  | TooDeepIndent u32 \<comment> \<open>pos\<close>
  | UnexpectedIndent u32 \<comment> \<open>pos\<close>
  | InvalidNumber u32 string \<comment> \<open>pos, message\<close>
  | InvalidStringPrefix u32 string \<comment> \<open>pos, prefix\<close>
  | IncompatibleStringPrefixes u32 u32 u8 u8 \<comment> \<open>pos, span_end_pos, first, second\<close>
  | StrayBackslash u32 \<comment> \<open>pos\<close>
  | UnexpectedEof u32 string \<comment> \<open>pos, message\<close>

primrec byte_offset :: "lex_error \<Rightarrow> u32" where
  "byte_offset (UnterminatedString p _) = p"
| "byte_offset (UnterminatedStringEscapedQuote p _) = p"
| "byte_offset (UnterminatedTripleString p _) = p"
| "byte_offset (UnexpectedEofParsing p _) = p"
| "byte_offset (UnterminatedFstring p _ _) = p"
| "byte_offset (UnterminatedTripleFstring p _ _) = p"
| "byte_offset (FstringExpectingBrace p _ _) = p"
| "byte_offset (FstringExpectingBraceOrSpec p _ _) = p"
| "byte_offset (FstringNestedTooDeeply p _) = p"
| "byte_offset (FstringTooManyNested p _ _) = p"
| "byte_offset (FstringMalformedNamedEscape p _ _) = p"
| "byte_offset (FstringParenMismatch _ _ p) = p"
| "byte_offset (FstringUnmatchedParen _ p _) = p"
| "byte_offset (BracketNeverClosed _ p) = p"
| "byte_offset (UnmatchedClose _ p) = p"
| "byte_offset (TooManyNestedParens p) = p"
| "byte_offset (MismatchedClose _ _ _ p) = p"
| "byte_offset (FstringNewlineInSpec p _) = p"
| "byte_offset (InvalidChar _ p) = p"
| "byte_offset (InvalidNonPrintable _ p) = p"
| "byte_offset (InvalidToken p) = p"
| "byte_offset (InconsistentIndent p) = p"
| "byte_offset (UnknownDedent p) = p"
| "byte_offset (TooDeepIndent p) = p"
| "byte_offset (UnexpectedIndent p) = p"
| "byte_offset (InvalidNumber p _) = p"
| "byte_offset (InvalidStringPrefix p _) = p"
| "byte_offset (IncompatibleStringPrefixes p _ _ _) = p"
| "byte_offset (StrayBackslash p) = p"
| "byte_offset (UnexpectedEof p _) = p"

definition byte_end_offset :: "lex_error \<Rightarrow> u32" where
  "byte_end_offset e = (case e of IncompatibleStringPrefixes _ en _ _ \<Rightarrow> en
     | _ \<Rightarrow> byte_offset e)"

end
