(* ===== verification/Lex_Utf8.thy ===== *)
theory Lex_Utf8
  imports WP_Prelude
begin

text \<open>
  UTF-8 as the scanner uses it: the standard library's \<open>std::str::from_utf8\<close> (well-formed
  sequences as in the Unicode standard's table 3-7), the encoding of a code point in a
  formatted message, the character classes of \<open>char\<close> that the scanner asks about, and
  \<open>decode_utf8\<close> of \<open>crates/weavepy-lexer/src/scanner.rs\<close>.
\<close>

section \<open>The standard library's UTF-8\<close>

definition cont :: "u8 \<Rightarrow> bool" where
  "cont b \<longleftrightarrow> 128 \<le> byte b \<and> byte b \<le> 191"

text \<open>The first scalar of a well-formed byte sequence, with its width.\<close>

definition utf8_first :: "u8 list \<Rightarrow> (uchar \<times> usize) option" where
  "utf8_first bs = (case bs of
      [] \<Rightarrow> None
    | b0 # r \<Rightarrow> (let a = byte b0 in
        if a \<le> 127 then Some (a, 1)
        else if 194 \<le> a \<and> a \<le> 223 then
          (case r of b # _ \<Rightarrow> if cont b then Some ((a - 192) * 64 + (byte b - 128), 2) else None
           | _ \<Rightarrow> None)
        else if 224 \<le> a \<and> a \<le> 239 then
          (case r of b # c # _ \<Rightarrow>
             if cont b \<and> cont c \<and> (a = 224 \<longrightarrow> 160 \<le> byte b) \<and> (a = 237 \<longrightarrow> byte b \<le> 159)
             then Some ((a - 224) * 4096 + (byte b - 128) * 64 + (byte c - 128), 3) else None
           | _ \<Rightarrow> None)
        else if 240 \<le> a \<and> a \<le> 244 then
          (case r of b # c # d # _ \<Rightarrow>
             if cont b \<and> cont c \<and> cont d \<and> (a = 240 \<longrightarrow> 144 \<le> byte b)
                \<and> (a = 244 \<longrightarrow> byte b \<le> 143)
             then Some ((a - 240) * 262144 + (byte b - 128) * 4096 + (byte c - 128) * 64
                        + (byte d - 128), 4)
             else None
           | _ \<Rightarrow> None)
        else None))"

lemma utf8_first_width: "utf8_first bs = Some (c, w) \<Longrightarrow> 0 < w \<and> w \<le> length bs"
  by (auto simp: utf8_first_def Let_def split: if_splits list.splits)

text \<open>\<open>from_utf8(bs).is_ok()\<close>, and the scalars of a valid string.\<close>

function from_utf8_ok :: "u8 list \<Rightarrow> bool" where
  "from_utf8_ok bs = (if bs = [] then True else
     (case utf8_first bs of None \<Rightarrow> False | Some (_, w) \<Rightarrow> from_utf8_ok (drop w bs)))"
  by pat_completeness auto
termination
  by (relation "measure length") (auto dest: utf8_first_width)

declare from_utf8_ok.simps [simp del]

lemma from_utf8_ok_Nil [simp]: "from_utf8_ok []"
  by (simp add: from_utf8_ok.simps)

lemma from_utf8_ok_ascii:
  assumes "byte b \<le> 127"
  shows "from_utf8_ok (b # bs) = from_utf8_ok bs"
  using assms by (simp add: from_utf8_ok.simps [of "b # bs"] utf8_first_def)

definition utf8_encode :: "uchar \<Rightarrow> u8 list" where
  "utf8_encode c = map char_of
     (if c \<le> 127 then [c]
      else if c \<le> 2047 then [192 + c div 64, 128 + c mod 64]
      else if c \<le> 65535 then [224 + c div 4096, 128 + c div 64 mod 64, 128 + c mod 64]
      else [240 + c div 262144, 128 + c div 4096 mod 64, 128 + c div 64 mod 64, 128 + c mod 64])"

section \<open>Character classes of the standard library\<close>

definition char_is_control :: "uchar \<Rightarrow> bool" where
  "char_is_control c \<longleftrightarrow> c \<le> 31 \<or> (127 \<le> c \<and> c \<le> 159)"

definition char_is_whitespace :: "uchar \<Rightarrow> bool" where
  "char_is_whitespace c \<longleftrightarrow> (9 \<le> c \<and> c \<le> 13) \<or> c = 32 \<or> c = 0x85 \<or> c = 0xA0 \<or> c = 0x1680
     \<or> (0x2000 \<le> c \<and> c \<le> 0x200A) \<or> c = 0x2028 \<or> c = 0x2029 \<or> c = 0x202F \<or> c = 0x205F
     \<or> c = 0x3000"

section \<open>\<open>decode_utf8\<close>\<close>

text \<open>
  The width comes from the leading byte's high bits; the bytes of that width must then be
  valid UTF-8, and the first character of the string they make is the result.
\<close>

definition decode_utf8 :: "u8 list \<Rightarrow> (uchar \<times> usize) option" where
  "decode_utf8 bytes = (case bytes of [] \<Rightarrow> None
    | b0 # _ \<Rightarrow> (let first = byte b0 in
       if first \<le> 127 then Some (first, 1)
       else (let width = (if first AND 0b11100000 = 0b11000000 then 2
                          else if first AND 0b11110000 = 0b11100000 then 3
                          else if first AND 0b11111000 = 0b11110000 then 4 else 0) in
         if width = 0 \<or> length bytes < width then None
         else if from_utf8_ok (take width bytes)
              then (case utf8_first (take width bytes) of None \<Rightarrow> None
                    | Some (ch, _) \<Rightarrow> Some (ch, width))
              else None)))"

lemma decode_utf8_width: "decode_utf8 bs = Some (c, w) \<Longrightarrow> 0 < w \<and> w \<le> length bs"
  by (auto simp: decode_utf8_def Let_def Suc_le_eq split: list.splits if_splits option.splits)

end
