(* ===== verification/Lex_Scanner.thy ===== *)
theory Lex_Scanner
  imports Lex_Token Lex_Error Lex_Utf8
begin

text \<open>
  The scanner's state and its basic steps: \<open>struct Scanner\<close> of
  \<open>crates/weavepy-lexer/src/scanner.rs\<close> with the cursor, the bracket stack, the escape
  warnings, and the handling of line starts (indentation), newlines and the end of input.
\<close>

section \<open>State\<close>

record scanner =
  src :: "u8 list"
  pos :: usize
  paren_depth :: u32
  open_brackets :: "(u8 \<times> usize) list"
  indents :: "u32 list"
  alt_indents :: "u32 list"
  at_line_start :: bool
  pending_dedents :: u32
  pending_indent :: "usize option"
  finished :: bool
  last_was_content :: bool
  escape_warnings :: "escape_warning list"
  fstring_level :: u32
  fstring_kinds :: "u8 list"
  outer_field_start :: "u32 option"

type_synonym 'a scan_result = "(lex_error + 'a) \<times> scanner"

text \<open>
  What the scanner takes from outside the repository and from the process: the tables of
  the crate \<open>unicode_ident\<close> and the \<open>lang_preview\<close> gate.
\<close>

record lex_env =
  is_xid_start :: "uchar \<Rightarrow> bool"
  is_xid_continue :: "uchar \<Rightarrow> bool"
  lang_preview :: bool

definition scanner_new :: "u8 list \<Rightarrow> scanner" where
  "scanner_new source = \<lparr>src = source, pos = 0, paren_depth = 0, open_brackets = [],
     indents = [0], alt_indents = [0], at_line_start = True, pending_dedents = 0,
     pending_indent = None, finished = False, last_was_content = False,
     escape_warnings = [], fstring_level = 0, fstring_kinds = [], outer_field_start = None\<rparr>"

section \<open>Cursor and tokens\<close>

definition peek :: "scanner \<Rightarrow> u8 option" where
  "peek s = slice_get (src s) (pos s)"

definition peek_at :: "scanner \<Rightarrow> usize \<Rightarrow> u8 option" where
  "peek_at s offset = slice_get (src s) (pos s + offset)"

abbreviation advance :: "usize \<Rightarrow> scanner \<Rightarrow> scanner" where
  "advance n s \<equiv> s\<lparr>pos := pos s + n\<rparr>"

definition mk_token :: "token_kind \<Rightarrow> usize \<Rightarrow> usize \<Rightarrow> token" where
  "mk_token k a b = \<lparr>tok_kind = k, tok_span = span_new (as_u32 a) (as_u32 b)\<rparr>"

definition line_of :: "scanner \<Rightarrow> usize \<Rightarrow> u32" where
  "line_of s p =
     (let en = min p (length (src s))
      in as_u32 (as_u32 (length (filter (\<lambda>b. b = c_lf) (take en (src s)))) + 1))"

definition eof_line :: "scanner \<Rightarrow> u32" where
  "eof_line s = line_of s (length (src s) - 1)"

definition cur_fstring_kind :: "scanner \<Rightarrow> u8" where
  "cur_fstring_kind s = (if fstring_kinds s = [] then CHR ''f'' else last (fstring_kinds s))"

definition is_ident_start :: "u8 \<Rightarrow> bool" where
  "is_ident_start b \<longleftrightarrow> b = CHR ''_'' \<or> is_ascii_alphabetic b"

definition is_blank :: "u8 \<Rightarrow> bool" where
  "is_blank b \<longleftrightarrow> b = CHR '' '' \<or> b = c_tab \<or> b = c_ff"

section \<open>Escape warnings\<close>

text \<open>At most two more octal digits after the first (\<open>for _ in 0..2\<close>).\<close>

fun octal_digits :: "nat \<Rightarrow> u8 list \<Rightarrow> usize \<Rightarrow> u32 \<Rightarrow> string \<Rightarrow> u32 \<times> string" where
  "octal_digits 0 bs k val digits = (val, digits)"
| "octal_digits (Suc n) bs k val digits =
     (case slice_get bs k of
        Some d \<Rightarrow> if in_range (CHR ''0'') (CHR ''7'') d
                  then octal_digits n bs (k + 1) (val * 8 + (byte d - 48)) (digits @ [d])
                  else (val, digits)
      | None \<Rightarrow> (val, digits))"

definition octal_message :: "string \<Rightarrow> string" where
  "octal_message digits = [c_dq, c_bs] @ digits @ [c_dq]
     @ '' is an invalid octal escape sequence. Such sequences will not work in the future. ''
     @ ''Did you mean '' @ [c_dq, c_bs, c_bs] @ digits @ [c_dq]
     @ ''? A raw string is also an option.''"

definition escape_message :: "string \<Rightarrow> string" where
  "escape_message esc = [c_dq, c_bs] @ esc @ [c_dq]
     @ '' is an invalid escape sequence. Such sequences will not work in the future. ''
     @ ''Did you mean '' @ [c_dq, c_bs, c_bs] @ esc @ [c_dq]
     @ ''? A raw string is also an option.''"

definition recognised_escape :: "bool \<Rightarrow> u8 \<Rightarrow> bool" where
  "recognised_escape is_bytes esc \<longleftrightarrow>
     esc \<in> {c_lf, c_cr, c_bs, c_sq, c_dq, CHR ''a'', CHR ''b'', CHR ''f'', CHR ''n'', CHR ''r'',
            CHR ''t'', CHR ''v'', CHR ''x''}
     \<or> (\<not> is_bytes \<and> esc \<in> {CHR ''u'', CHR ''U'', CHR ''N''})"

definition push_warning :: "usize \<Rightarrow> string \<Rightarrow> scanner \<Rightarrow> scanner" where
  "push_warning off msg s = s\<lparr>escape_warnings :=
     escape_warnings s @ [\<lparr>ew_offset = as_u32 off, ew_message = msg\<rparr>]\<rparr>"

definition note_invalid_escape :: "usize \<Rightarrow> bool \<Rightarrow> scanner \<Rightarrow> bool \<times> scanner" where
  "note_invalid_escape bs is_bytes s = (case slice_get (src s) (bs + 1) of
      None \<Rightarrow> (False, s)
    | Some esc \<Rightarrow>
        if in_range (CHR ''0'') (CHR ''7'') esc then
          (let (val, digits) = octal_digits 2 (src s) (bs + 2) (byte esc - 48) [esc]
           in if val > 255 then (True, push_warning bs (octal_message digits) s)
              else (False, s))
        else if recognised_escape is_bytes esc then (False, s)
        else
          (let rest = drop (bs + 1) (src s);
               esc_char = (if from_utf8_ok rest
                           then (case utf8_first rest of Some (c, _) \<Rightarrow> c | None \<Rightarrow> byte esc)
                           else byte esc)
           in (True, push_warning bs (escape_message (utf8_encode esc_char)) s)))"

section \<open>Brackets\<close>

definition MAXLEVEL :: usize where
  "MAXLEVEL = 200"

definition push_bracket :: "u8 \<Rightarrow> usize \<Rightarrow> scanner \<Rightarrow> unit scan_result" where
  "push_bracket opener start s =
     (if MAXLEVEL \<le> length (open_brackets s)
      then (Inl (TooManyNestedParens (as_u32 start)), s)
      else (Inr (), s\<lparr>paren_depth := as_u32 (paren_depth s + 1),
                      open_brackets := open_brackets s @ [(opener, start)]\<rparr>))"

definition close_of :: "u8 \<Rightarrow> u8" where
  "close_of opener = (if opener = CHR ''('' then CHR '')''
                      else if opener = CHR ''['' then CHR '']'' else CHR ''}'')"

definition close_bracket :: "u8 \<Rightarrow> usize \<Rightarrow> scanner \<Rightarrow> unit scan_result" where
  "close_bracket closer start s =
     (if open_brackets s = [] then (Inl (UnmatchedClose closer (as_u32 start)), s)
      else
        (let (opener, open_pos) = last (open_brackets s);
             s1 = s\<lparr>open_brackets := butlast (open_brackets s)\<rparr>
         in if closer \<noteq> close_of opener then
              (let ol = line_of s1 open_pos; cl = line_of s1 start
               in (Inl (MismatchedClose closer opener (if ol \<noteq> cl then Some ol else None)
                          (as_u32 start)), s1))
            else (Inr (), s1\<lparr>paren_depth := paren_depth s1 - 1\<rparr>)))"

section \<open>Line starts\<close>

text \<open>The leading whitespace: the two indentation widths and the number of bytes.\<close>

fun indent_scan :: "u8 list \<Rightarrow> u32 \<Rightarrow> u32 \<Rightarrow> usize \<Rightarrow> u32 \<times> u32 \<times> usize" where
  "indent_scan [] indent alt p = (indent, alt, p)"
| "indent_scan (b # bs) indent alt p =
     (if b = CHR '' '' then indent_scan bs (as_u32 (indent + 1)) (as_u32 (alt + 1)) (p + 1)
      else if b = c_tab
      then indent_scan bs (as_u32 ((indent div 8 + 1) * 8)) (as_u32 (alt + 1)) (p + 1)
      else if b = c_ff then indent_scan bs 0 0 (p + 1)
      else (indent, alt, p))"

text \<open>\<open>eof_after\<close>: the continuation backslash at \<open>bs\<close> ends the input.\<close>

definition after_cr :: "u8 list \<Rightarrow> usize \<Rightarrow> usize" where
  "after_cr bytes q = (if slice_get bytes q = Some c_cr then q + 1 else q)"

definition eof_after :: "u8 list \<Rightarrow> usize \<Rightarrow> u32 option" where
  "eof_after bytes bs =
     (let q = after_cr bytes (bs + 1);
          q = (if slice_get bytes q = Some c_lf then q + 1 else q)
      in if length bytes \<le> q then Some (as_u32 (bs + 1)) else None)"

text \<open>
  The probe over a chain of continuations: \<open>Inl\<close> the position of the EOF error,
  \<open>Inr (Some p)\<close> a joined line that is blank from \<open>p\<close> on, \<open>Inr None\<close> anything else.
\<close>

function blank_join_probe :: "u8 list \<Rightarrow> usize \<Rightarrow> u32 + usize option" where
  "blank_join_probe bytes probe =
     (if slice_get bytes probe \<noteq> Some c_bs then Inr None
      else (case eof_after bytes probe of
         Some p \<Rightarrow> Inl p
       | None \<Rightarrow>
          (let q = after_cr bytes (probe + 1)
           in if slice_get bytes q \<noteq> Some c_lf then Inr None
              else (let probe' = skip_while is_blank bytes (q + 1)
                    in case slice_get bytes probe' of
                         None \<Rightarrow> Inl (as_u32 (probe + 1))
                       | Some b \<Rightarrow>
                           if b = c_lf \<or> b = c_cr \<or> b = CHR ''#'' then Inr (Some probe')
                           else if b = c_bs then blank_join_probe bytes probe'
                           else Inr None))))"
  by pat_completeness auto
termination
proof (relation "measure (\<lambda>(bytes, probe). length bytes - probe)", goal_cases)
  case 1
  show ?case by simp
next
  case (2 bytes probe q probe' b)
  have "probe < q" using 2(3) by (auto simp: after_cr_def)
  also have "q < probe'" using 2(5) skip_while_ge [of "q + 1"] by (metis Suc_eq_plus1 Suc_le_eq)
  finally have "probe < probe'" .
  moreover have "probe' < length bytes" using 2(6) by (rule slice_get_SomeD)
  ultimately show ?case by simp
qed

text \<open>The dedent loop: levels deeper than \<open>indent\<close> are popped from both stacks.\<close>

function dedent_loop :: "u32 \<Rightarrow> u32 list \<Rightarrow> u32 list \<Rightarrow> u32 \<Rightarrow> u32 list \<times> u32 list \<times> u32" where
  "dedent_loop indent xs ys n =
     (if xs \<noteq> [] \<and> last xs > indent then dedent_loop indent (butlast xs) (butlast ys) (n + 1)
      else (xs, ys, n))"
  by pat_completeness auto
termination
  by (relation "measure (\<lambda>(_, xs, _, _). length xs)") auto

definition line_end_from :: "scanner \<Rightarrow> usize" where
  "line_end_from s = skip_while (\<lambda>b. b \<noteq> c_lf) (src s) (pos s)"

text \<open>
  The comparison of a content line's two widths with the stacks. (The source's
  \<open>expect("indent stack non-empty")\<close> cannot fail: \<open>scanner_inv\<close> below.)
\<close>

definition MAXINDENT :: usize where
  "MAXINDENT = 100"

definition indent_compare :: "u32 \<Rightarrow> u32 \<Rightarrow> usize \<Rightarrow> scanner \<Rightarrow> unit scan_result" where
  "indent_compare indent alt line_start s =
     (let current = last (indents s); alt_current = last (alt_indents s);
          tab_error = InconsistentIndent (as_u32 line_start)
      in if indent > current then
           if MAXINDENT \<le> length (indents s)
           then (Inl (TooDeepIndent (as_u32 (line_end_from s))), s)
           else if alt \<le> alt_current then (Inl tab_error, s)
           else (Inr (), s\<lparr>indents := indents s @ [indent], alt_indents := alt_indents s @ [alt],
                           pending_indent := Some line_start, at_line_start := False\<rparr>)
         else if indent < current then
           (let (xs, ys, dedents) = dedent_loop indent (indents s) (alt_indents s) 0;
                s1 = s\<lparr>indents := xs, alt_indents := ys\<rparr>
            in if last xs \<noteq> indent then (Inl (UnknownDedent (as_u32 (line_end_from s1))), s1)
               else if last ys \<noteq> alt then (Inl tab_error, s1)
               else (Inr (), s1\<lparr>pending_dedents := dedents, at_line_start := False\<rparr>))
         else if alt \<noteq> alt_current then (Inl tab_error, s)
         else (Inr (), s\<lparr>at_line_start := False\<rparr>))"

definition handle_line_start :: "scanner \<Rightarrow> unit scan_result" where
  "handle_line_start s =
     (let line_start = pos s;
          (indent, alt, p) = indent_scan (drop (pos s) (src s)) 0 0 (pos s);
          s1 = s\<lparr>pos := p\<rparr>
      in case peek s1 of
           None \<Rightarrow> (Inr (), s1\<lparr>at_line_start := False\<rparr>)
         | Some b \<Rightarrow>
             if b = c_lf \<or> b = c_cr \<or> b = CHR ''#'' then (Inr (), s1\<lparr>at_line_start := False\<rparr>)
             else if b = c_bs then
               (case blank_join_probe (src s1) (pos s1) of
                  Inl p' \<Rightarrow> (Inl (UnexpectedEofParsing p' (last_was_content s1)), s1)
                | Inr (Some probe) \<Rightarrow> (Inr (), s1\<lparr>pos := probe, at_line_start := False\<rparr>)
                | Inr None \<Rightarrow> indent_compare indent alt line_start s1)
             else indent_compare indent alt line_start s1)"

section \<open>Newlines and the end of input\<close>

definition handle_newline_at :: "usize \<Rightarrow> scanner \<Rightarrow> token \<times> scanner" where
  "handle_newline_at start s =
     (if paren_depth s > 0 then (mk_token Nl start (pos s), s)
      else (mk_token Newline start (pos s), s\<lparr>at_line_start := True\<rparr>))"

definition handle_newline :: "scanner \<Rightarrow> token \<times> scanner" where
  "handle_newline s = handle_newline_at (pos s) (advance 1 s)"

definition emit_endmarker :: "scanner \<Rightarrow> token \<times> scanner" where
  "emit_endmarker s =
     (if length (indents s) > 1
      then (mk_token Dedent (pos s) (pos s),
            s\<lparr>pending_dedents := as_u32 (length (indents s) - 1) - 1,
              indents := take 1 (indents s), alt_indents := take 1 (alt_indents s),
              at_line_start := False\<rparr>)
      else (mk_token Endmarker (pos s) (pos s), s\<lparr>finished := True\<rparr>))"

end
