(* ===== verification/Lex_Number.thy ===== *)
theory Lex_Number
  imports Lex_Scanner
begin

text \<open>
  Numeric literals: \<open>scan_number\<close> and \<open>verify_end_of_number\<close> of
  \<open>crates/weavepy-lexer/src/scanner.rs\<close>. The digit loops terminate because every iteration
  moves the cursor.
\<close>

section \<open>The end of a number\<close>

definition allowed_after_number :: "string list" where
  "allowed_after_number =
     [''and'', ''else'', ''for'', ''if'', ''in'', ''is'', ''not'', ''or'']"

definition is_ident_byte :: "u8 \<Rightarrow> bool" where
  "is_ident_byte b \<longleftrightarrow> b = CHR ''_'' \<or> is_ascii_alphabetic b \<or> is_ascii_digit b \<or> 128 \<le> byte b"

definition verify_end_of_number :: "string \<Rightarrow> scanner \<Rightarrow> unit scan_result" where
  "verify_end_of_number message s = (case peek s of
      None \<Rightarrow> (Inr (), s)
    | Some nxt \<Rightarrow>
        if \<not> (nxt = CHR ''_'' \<or> is_ascii_alphabetic nxt) then (Inr (), s)
        else
          (let en = skip_while is_ident_byte (src s) (pos s);
               bytes = slice (src s) (pos s) en;
               word = (if from_utf8_ok bytes then bytes else [])
           in if word \<in> set allowed_after_number then (Inr (), push_warning (pos s) message s)
              else (Inl (InvalidNumber (as_u32 (pos s - 1)) message), s)))"

section \<open>Hexadecimal, octal and binary literals\<close>

definition invalid_digit :: "u8 \<Rightarrow> string \<Rightarrow> string" where
  "invalid_digit b radix_name =
     ''invalid digit '' @ [c_sq, b, c_sq] @ '' in '' @ radix_name @ '' literal''"

text \<open>The digit run: an underscore must be followed by a digit of the radix.\<close>

function radix_run ::
  "(u8 \<Rightarrow> bool) \<Rightarrow> string \<Rightarrow> string \<Rightarrow> bool \<Rightarrow> bool \<Rightarrow> scanner \<Rightarrow> bool scan_result" where
  "radix_run valid literal_msg radix_name hex anyd s = (case peek s of
      None \<Rightarrow> (Inr anyd, s)
    | Some b \<Rightarrow>
        if b = CHR ''_'' then
          (let s1 = advance 1 s in
           case peek s1 of
             None \<Rightarrow> (Inl (InvalidNumber (as_u32 (pos s1 - 1)) literal_msg), s1)
           | Some c \<Rightarrow>
               if valid c then radix_run valid literal_msg radix_name hex anyd s1
               else if is_ascii_digit c \<and> \<not> hex then
                 (let s2 = advance 1 s1
                  in (Inl (InvalidNumber (as_u32 (pos s2 - 1)) (invalid_digit c radix_name)), s2))
               else (Inl (InvalidNumber (as_u32 (pos s1 - 1)) literal_msg), s1))
        else if valid b then radix_run valid literal_msg radix_name hex True (advance 1 s)
        else (Inr anyd, s))"
  by pat_completeness auto
termination
  by (relation "measure (\<lambda>(_, _, _, _, _, s). length (src s) - pos s)")
     (auto simp: peek_def slice_get_Some_iff)

declare radix_run.simps [simp del]

definition is_octal_digit :: "u8 \<Rightarrow> bool" where
  "is_octal_digit b \<longleftrightarrow> in_range (CHR ''0'') (CHR ''7'') b"

definition is_binary_digit :: "u8 \<Rightarrow> bool" where
  "is_binary_digit b \<longleftrightarrow> b = CHR ''0'' \<or> b = CHR ''1''"

definition radix_of :: "u8 \<Rightarrow> (u8 \<Rightarrow> bool) \<times> string \<times> string" where
  "radix_of c =
     (if c = CHR ''x'' \<or> c = CHR ''X''
      then (is_ascii_hexdigit, ''invalid hexadecimal literal'', ''hexadecimal'')
      else if c = CHR ''o'' \<or> c = CHR ''O''
      then (is_octal_digit, ''invalid octal literal'', ''octal'')
      else (is_binary_digit, ''invalid binary literal'', ''binary''))"

definition scan_radix_number :: "u8 \<Rightarrow> scanner \<Rightarrow> token scan_result" where
  "scan_radix_number radix_char s =
     (let start = pos s; hex = (radix_char = CHR ''x'' \<or> radix_char = CHR ''X'');
          (valid, literal_msg, radix_name) = radix_of radix_char
      in and_then (radix_run valid literal_msg radix_name hex False (advance 2 s)) (\<lambda>anyd s1.
         if radix_name \<noteq> ''hexadecimal'' \<and> (\<exists>b. peek s1 = Some b \<and> is_ascii_digit b)
         then (let s2 = advance 1 s1
               in (Inl (InvalidNumber (as_u32 (pos s2 - 1))
                         (invalid_digit (the (peek s1)) radix_name)), s2))
         else if \<not> anyd then (Inl (InvalidNumber (as_u32 (start + 1)) literal_msg), s1)
         else and_then (verify_end_of_number literal_msg s1) (\<lambda>_ s2.
              (Inr (mk_token Number start (pos s2)), s2))))"

section \<open>Decimal integers, floats and imaginaries\<close>

definition invalid_decimal :: string where
  "invalid_decimal = ''invalid decimal literal''"

function digit_run :: "bool \<Rightarrow> scanner \<Rightarrow> bool scan_result" where
  "digit_run anyd s = (case peek s of
      None \<Rightarrow> (Inr anyd, s)
    | Some b \<Rightarrow>
        if is_ascii_digit b then digit_run True (advance 1 s)
        else if b = CHR ''_'' \<and> anyd then
          (let s1 = advance 1 s in
           case peek s1 of
             Some c \<Rightarrow> if is_ascii_digit c then digit_run anyd s1
                       else (Inl (InvalidNumber (as_u32 (pos s1 - 1)) invalid_decimal), s1)
           | None \<Rightarrow> (Inl (InvalidNumber (as_u32 (pos s1 - 1)) invalid_decimal), s1))
        else (Inr anyd, s))"
  by pat_completeness auto
termination
  by (relation "measure (\<lambda>(_, s). length (src s) - pos s)")
     (auto simp: peek_def slice_get_Some_iff)

declare digit_run.simps [simp del]

definition consume_digit_run :: "scanner \<Rightarrow> bool scan_result" where
  "consume_digit_run s = digit_run False s"

text \<open>The fraction: whether the literal is a float so far.\<close>

definition scan_fraction :: "scanner \<Rightarrow> bool scan_result" where
  "scan_fraction s =
     (if peek s = Some (CHR ''.'')
      then and_then (consume_digit_run (advance 1 s)) (\<lambda>_ s1. (Inr True, s1))
      else (Inr False, s))"

text \<open>
  The exponent: a bare \<open>e\<close> with no sign and no digit is handed back (\<open>1.else\<close>), a sign
  without digits is an error.
\<close>

definition peek_digit :: "scanner \<Rightarrow> bool" where
  "peek_digit s = (case peek s of Some b \<Rightarrow> is_ascii_digit b | None \<Rightarrow> False)"

definition scan_exponent :: "bool \<Rightarrow> scanner \<Rightarrow> bool scan_result" where
  "scan_exponent is_float s =
     (if peek s = Some (CHR ''e'') \<or> peek s = Some (CHR ''E'') then
        (let exp_start = pos s; s1 = advance 1 s;
             signed = (peek s1 = Some (CHR ''+'') \<or> peek s1 = Some (CHR ''-''));
             s2 = (if signed then advance 1 s1 else s1)
         in if peek_digit s2
            then and_then (consume_digit_run s2) (\<lambda>_ s3. (Inr True, s3))
            else if signed then (Inl (InvalidNumber (as_u32 (pos s2 - 1)) invalid_decimal), s2)
            else (Inr is_float, s2\<lparr>pos := exp_start\<rparr>))
      else (Inr is_float, s))"

definition leading_zeros :: string where
  "leading_zeros = ''leading zeros in decimal integer literals are not permitted; ''
     @ ''use an 0o prefix for octal integers''"

definition has_leading_zero :: "u8 list \<Rightarrow> bool" where
  "has_leading_zero lexeme \<longleftrightarrow> slice_get lexeme 0 = Some (CHR ''0'')
     \<and> list_ex (in_range (CHR ''1'') (CHR ''9'')) lexeme"

definition scan_decimal_number :: "scanner \<Rightarrow> token scan_result" where
  "scan_decimal_number s =
     (let start = pos s in
      and_then (consume_digit_run s) (\<lambda>_ s1.
      let int_end = pos s1 in
      and_then (scan_fraction s1) (\<lambda>is_float s2.
      and_then (scan_exponent is_float s2) (\<lambda>is_float s3.
      let is_imaginary = (peek s3 = Some (CHR ''j'') \<or> peek s3 = Some (CHR ''J''));
          s4 = (if is_imaginary then advance 1 s3 else s3)
      in if \<not> is_float \<and> \<not> is_imaginary \<and> has_leading_zero (slice (src s4) start int_end)
         then (Inl (InvalidNumber (as_u32 start) leading_zeros), s4)
         else and_then (verify_end_of_number
                (if is_imaginary then ''invalid imaginary literal'' else invalid_decimal) s4)
              (\<lambda>_ s5. (Inr (mk_token Number start (pos s5)), s5))))))"

definition is_radix_char :: "u8 \<Rightarrow> bool" where
  "is_radix_char c \<longleftrightarrow> c \<in> {CHR ''x'', CHR ''X'', CHR ''o'', CHR ''O'', CHR ''b'', CHR ''B''}"

definition scan_number :: "scanner \<Rightarrow> token scan_result" where
  "scan_number s = (case peek_at s 1 of
      Some c \<Rightarrow> if peek s = Some (CHR ''0'') \<and> is_radix_char c
                then scan_radix_number c s else scan_decimal_number s
    | None \<Rightarrow> scan_decimal_number s)"

end
