(* ===== verification/Lex_Punct.thy ===== *)
theory Lex_Punct
  imports Lex_Scanner
begin

text \<open>
  Punctuation and operators, by longest match: \<open>scan_punct\<close> of
  \<open>crates/weavepy-lexer/src/scanner.rs\<close>.
\<close>

definition punct3 :: "u8 \<Rightarrow> u8 option \<Rightarrow> u8 option \<Rightarrow> token_kind option" where
  "punct3 b b1 b2 =
     (if b = CHR ''.'' \<and> b1 = Some (CHR ''.'') \<and> b2 = Some (CHR ''.'') then Some Ellipsis
      else if b = CHR ''*'' \<and> b1 = Some (CHR ''*'') \<and> b2 = Some (CHR ''='') then Some DoubleStarEqual
      else if b = CHR ''/'' \<and> b1 = Some (CHR ''/'') \<and> b2 = Some (CHR ''='') then Some DoubleSlashEqual
      else if b = CHR ''<'' \<and> b1 = Some (CHR ''<'') \<and> b2 = Some (CHR ''='') then Some LeftShiftEqual
      else if b = CHR ''>'' \<and> b1 = Some (CHR ''>'') \<and> b2 = Some (CHR ''='') then Some RightShiftEqual
      else None)"

definition punct2_table :: "((u8 \<times> u8) \<times> token_kind) list" where
  "punct2_table =
    [((CHR ''*'', CHR ''*''), DoubleStar), ((CHR ''/'', CHR ''/''), DoubleSlash),
     ((CHR ''<'', CHR ''<''), LeftShift), ((CHR ''>'', CHR ''>''), RightShift),
     ((CHR ''='', CHR ''=''), EqEqual), ((CHR ''!'', CHR ''=''), NotEqual),
     ((CHR ''<'', CHR ''>''), NotEqual), ((CHR ''<'', CHR ''=''), LessEqual),
     ((CHR ''>'', CHR ''=''), GreaterEqual), ((CHR ''+'', CHR ''=''), PlusEqual),
     ((CHR ''-'', CHR ''=''), MinusEqual), ((CHR ''*'', CHR ''=''), StarEqual),
     ((CHR ''/'', CHR ''=''), SlashEqual), ((CHR ''%'', CHR ''=''), PercentEqual),
     ((CHR ''&'', CHR ''=''), AmperEqual), ((CHR ''|'', CHR ''=''), VbarEqual),
     ((CHR ''^'', CHR ''=''), CaretEqual), ((CHR ''@'', CHR ''=''), AtEqual),
     ((CHR '':'', CHR ''=''), ColonEqual), ((CHR ''-'', CHR ''>''), RArrow)]"

definition punct2 :: "u8 \<Rightarrow> u8 \<Rightarrow> token_kind option" where
  "punct2 b c1 = map_of punct2_table (b, c1)"

definition open_table :: "(u8 \<times> token_kind) list" where
  "open_table = [(CHR ''('', LPar), (CHR ''['', LSqb), (CHR ''{'', LBrace)]"

definition close_table :: "(u8 \<times> token_kind) list" where
  "close_table = [(CHR '')'', RPar), (CHR '']'', RSqb), (CHR ''}'', RBrace)]"

definition punct1_table :: "(u8 \<times> token_kind) list" where
  "punct1_table =
    [(CHR '','', Comma), (CHR '':'', Colon), (CHR '';'', Semi), (CHR ''.'', Dot), (CHR ''@'', At),
     (CHR ''+'', Plus), (CHR ''-'', Minus), (CHR ''*'', Star), (CHR ''/'', Slash),
     (CHR ''%'', Percent), (CHR ''&'', Amper), (CHR ''|'', Vbar), (CHR ''^'', Caret),
     (CHR ''~'', Tilde), (CHR ''<'', Less), (CHR ''>'', Greater), (CHR ''='', Equal)]"

text \<open>A byte that starts no token: the error CPython reports for the character.\<close>

definition non_printable :: "uchar \<Rightarrow> bool" where
  "non_printable c \<longleftrightarrow> char_is_control c \<or> (char_is_whitespace c \<and> c \<noteq> 32)
     \<or> (0x200B \<le> c \<and> c \<le> 0x200F) \<or> (0x202A \<le> c \<and> c \<le> 0x202E)
     \<or> (0x2060 \<le> c \<and> c \<le> 0x2064) \<or> c = 0xFEFF"

definition bad_char_error :: "scanner \<Rightarrow> lex_error" where
  "bad_char_error s =
     (let p = as_u32 (pos s);
          ch = (case decode_utf8 (drop (pos s) (src s)) of Some (c, _) \<Rightarrow> c | None \<Rightarrow> 0xFFFD)
      in if ch \<le> 127 then (if char_is_control ch then InvalidNonPrintable ch p else InvalidToken p)
         else if non_printable ch then InvalidNonPrintable ch p
         else InvalidChar ch p)"

definition punct1 :: "u8 \<Rightarrow> scanner \<Rightarrow> token_kind scan_result" where
  "punct1 b s = (case map_of open_table b of
      Some k \<Rightarrow> and_then (push_bracket b (pos s) s) (\<lambda>_ s1. (Inr k, s1))
    | None \<Rightarrow> (case map_of close_table b of
        Some k \<Rightarrow> and_then (close_bracket b (pos s) s) (\<lambda>_ s1. (Inr k, s1))
      | None \<Rightarrow> (case map_of punct1_table b of
          Some k \<Rightarrow> (Inr k, s)
        | None \<Rightarrow> (Inl (bad_char_error s), s))))"

text \<open>
  The caller has seen a byte (\<open>expect("scan_punct with no input")\<close>); it is the argument.
\<close>

definition scan_punct :: "u8 \<Rightarrow> scanner \<Rightarrow> token scan_result" where
  "scan_punct b s =
     (let start = pos s; b1 = peek_at s 1; b2 = peek_at s 2
      in case punct3 b b1 b2 of
           Some k \<Rightarrow> (let s1 = advance 3 s in (Inr (mk_token k start (pos s1)), s1))
         | None \<Rightarrow>
             (case (case b1 of Some c1 \<Rightarrow> punct2 b c1 | None \<Rightarrow> None) of
                Some k \<Rightarrow> (let s1 = advance 2 s in (Inr (mk_token k start (pos s1)), s1))
              | None \<Rightarrow> and_then (punct1 b s) (\<lambda>k s1.
                  let s2 = advance 1 s1 in (Inr (mk_token k start (pos s2)), s2))))"

end
