(* ===== verification/Lex_String.thy ===== *)
theory Lex_String
  imports Lex_Scanner
begin

text \<open>
  String, bytes, f-string and t-string literals: \<open>scan_string\<close> and the routines it calls in
  \<open>crates/weavepy-lexer/src/scanner.rs\<close>. The five routines that find the extent of an
  f-string call each other (literal part, replacement field, format spec, nested string);
  they are modelled over a bound on the call depth, \<open>None\<close> when it runs out, and \<open>Lex_Frame\<close> shows that the
  fuel \<open>scan_string\<close> gives them is always enough. The flag \<open>warned\<close> that the source
  passes by reference is threaded: the value of a successful scan.
\<close>

section \<open>Frame of the escape warnings\<close>

lemma push_warning_simps [simp]:
  "src (push_warning p m s) = src s" "pos (push_warning p m s) = pos s"
  by (simp_all add: push_warning_def)

lemma note_invalid_escape_state:
  "snd (note_invalid_escape p i s)
     = s\<lparr>escape_warnings := escape_warnings (snd (note_invalid_escape p i s))\<rparr>"
  by (simp add: note_invalid_escape_def push_warning_def Let_def split: option.split prod.split)

lemma note_invalid_escape_frame:
  assumes "note_invalid_escape p i s = (w, s1)"
  shows "\<exists>ws. s1 = s\<lparr>escape_warnings := ws\<rparr>"
  using note_invalid_escape_state [of p i s] assms by auto

lemma note_invalid_escape_src:
  assumes "note_invalid_escape p i s = (w, s1)"
  shows "src s1 = src s" "pos s1 = pos s"
  using note_invalid_escape_frame [OF assms] by auto

text \<open>\<open>if !warned { warned = self.note_invalid_escape(..) }\<close>, at the cursor.\<close>

definition warn_once :: "bool \<Rightarrow> bool \<Rightarrow> scanner \<Rightarrow> bool \<times> scanner" where
  "warn_once warned is_bytes s =
     (if warned then (True, s) else note_invalid_escape (pos s) is_bytes s)"

lemma warn_once_frame:
  assumes "warn_once warned i s = (w, s1)"
  shows "\<exists>ws. s1 = s\<lparr>escape_warnings := ws\<rparr>"
proof (cases warned)
  case True
  then have "s1 = s\<lparr>escape_warnings := escape_warnings s\<rparr>"
    using assms by (simp add: warn_once_def)
  then show ?thesis by blast
next
  case False
  then show ?thesis using assms by (simp add: warn_once_def note_invalid_escape_frame)
qed

lemma warn_once_src:
  assumes "warn_once warned i s = (w, s1)"
  shows "src s1 = src s" "pos s1 = pos s"
  using warn_once_frame [OF assms] by auto

section \<open>Single-line and triple-quoted strings\<close>

definition escaped_end_quote :: "u8 \<Rightarrow> scanner \<Rightarrow> bool" where
  "escaped_end_quote quote s \<longleftrightarrow>
     2 \<le> pos s \<and> src s ! (pos s - 1) = quote \<and> src s ! (pos s - 2) = c_bs"

definition unterminated_single :: "usize \<Rightarrow> u8 \<Rightarrow> scanner \<Rightarrow> lex_error" where
  "unterminated_single start quote s =
     (if escaped_end_quote quote s
      then UnterminatedStringEscapedQuote (as_u32 start) (line_of s (pos s))
      else UnterminatedString (as_u32 start) (line_of s (pos s)))"

text \<open>The byte after a backslash (a CR LF pair counts as one in a non-raw string).\<close>

definition skip_escaped :: "scanner \<Rightarrow> scanner" where
  "skip_escaped s = (if peek s = None then s else advance 1 s)"

definition skip_escaped_crlf :: "scanner \<Rightarrow> scanner" where
  "skip_escaped_crlf s = (case peek s of
      None \<Rightarrow> s
    | Some nxt \<Rightarrow>
        if nxt = c_lf then advance 1 s
        else if nxt = c_cr
        then (let s1 = advance 1 s in if peek s1 = Some c_lf then advance 1 s1 else s1)
        else advance 1 s)"

lemma skip_escaped_src [simp]:
  "src (skip_escaped s) = src s" "pos s \<le> pos (skip_escaped s)"
  by (simp_all add: skip_escaped_def)

lemma skip_escaped_crlf_src [simp]:
  "src (skip_escaped_crlf s) = src s" "pos s \<le> pos (skip_escaped_crlf s)"
  by (auto simp: skip_escaped_crlf_def Let_def split: option.split)

function single_line_loop ::
  "usize \<Rightarrow> u8 \<Rightarrow> string_prefix \<Rightarrow> bool \<Rightarrow> scanner \<Rightarrow> token scan_result" where
  "single_line_loop start quote prefix warned s = (case peek s of
      None \<Rightarrow> (Inl (unterminated_single start quote s), s)
    | Some b \<Rightarrow>
        if b = c_lf \<or> b = c_cr then (Inl (unterminated_single start quote s), s)
        else if b = c_bs \<and> \<not> sp_raw prefix then
          (case warn_once warned (sp_bytes prefix) s of (w, s1) \<Rightarrow>
             single_line_loop start quote prefix w (skip_escaped_crlf (advance 1 s1)))
        else if b = c_bs then
          single_line_loop start quote prefix warned (skip_escaped (advance 1 s))
        else if b = quote then
          (let s1 = advance 1 s in (Inr (mk_token StringTok start (pos s1)), s1))
        else single_line_loop start quote prefix warned (advance 1 s))"
  by pat_completeness auto
termination
proof (relation "measure (\<lambda>(_, _, _, _, s). length (src s) - pos s)", goal_cases)
  case 1
  show ?case by simp
next
  case (2 start quote prefix warned s b w s1)
  have "pos s < pos (skip_escaped_crlf (advance 1 s1))"
    using warn_once_src [OF 2(4) [symmetric]] skip_escaped_crlf_src(2) [of "advance 1 s1"] by simp
  then show ?case using 2(1) warn_once_src [OF 2(4) [symmetric]]
    by (auto simp: peek_def slice_get_Some_iff)
next
  case (3 start quote prefix warned s b)
  have "pos s < pos (skip_escaped (advance 1 s))"
    using skip_escaped_src(2) [of "advance 1 s"] by simp
  then show ?case using 3(1) by (auto simp: peek_def slice_get_Some_iff)
next
  case (4 start quote prefix warned s b)
  then show ?case by (auto simp: peek_def slice_get_Some_iff)
qed

declare single_line_loop.simps [simp del]

definition scan_single_line_string ::
  "usize \<Rightarrow> u8 \<Rightarrow> string_prefix \<Rightarrow> scanner \<Rightarrow> token scan_result" where
  "scan_single_line_string start quote prefix s = single_line_loop start quote prefix False s"

definition closes_triple :: "u8 \<Rightarrow> scanner \<Rightarrow> bool" where
  "closes_triple quote s \<longleftrightarrow> peek_at s 1 = Some quote \<and> peek_at s 2 = Some quote"

function triple_loop ::
  "usize \<Rightarrow> u8 \<Rightarrow> string_prefix \<Rightarrow> bool \<Rightarrow> scanner \<Rightarrow> token scan_result" where
  "triple_loop start quote prefix warned s = (case peek s of
      None \<Rightarrow> (Inl (UnterminatedTripleString (as_u32 start) (eof_line s)), s)
    | Some b \<Rightarrow>
        if b = c_bs then
          (case (if \<not> sp_raw prefix then warn_once warned (sp_bytes prefix) s else (warned, s)) of
             (w, s1) \<Rightarrow> triple_loop start quote prefix w (skip_escaped (advance 1 s1)))
        else if b = quote \<and> closes_triple quote s then
          (let s1 = advance 3 s in (Inr (mk_token StringTok start (pos s1)), s1))
        else triple_loop start quote prefix warned (advance 1 s))"
  by pat_completeness auto
termination
proof (relation "measure (\<lambda>(_, _, _, _, s). length (src s) - pos s)", goal_cases)
  case 1
  show ?case by simp
next
  case (2 start quote prefix warned s b w s1)
  have eqs: "src s1 = src s" "pos s1 = pos s"
    using 2(3) warn_once_src [of warned "sp_bytes prefix" s w s1] by (auto split: if_splits)
  have "pos s < pos (skip_escaped (advance 1 s1))"
    using eqs skip_escaped_src(2) [of "advance 1 s1"] by simp
  then show ?case using 2(1) eqs by (auto simp: peek_def slice_get_Some_iff)
next
  case (3 start quote prefix warned s b)
  then show ?case by (auto simp: peek_def slice_get_Some_iff)
qed

declare triple_loop.simps [simp del]

definition scan_triple_string ::
  "usize \<Rightarrow> u8 \<Rightarrow> string_prefix \<Rightarrow> scanner \<Rightarrow> token scan_result" where
  "scan_triple_string start quote prefix s = triple_loop start quote prefix False s"

section \<open>F-strings: the pieces without nesting\<close>

definition fkind :: "string_prefix \<Rightarrow> u8" where
  "fkind prefix = (if sp_template prefix then CHR ''t'' else CHR ''f'')"

text \<open>The name of a \<open>\N{NAME}\<close> escape, from just past its brace.\<close>

definition malformed_name :: "usize \<Rightarrow> usize \<Rightarrow> scanner \<Rightarrow> lex_error" where
  "malformed_name bs body_start s =
     FstringMalformedNamedEscape (as_u32 (pos s)) (as_u32 (bs - body_start))
       (as_u32 (pos s - body_start - 1))"

function named_escape_loop ::
  "u8 \<Rightarrow> bool \<Rightarrow> usize \<Rightarrow> usize \<Rightarrow> scanner \<Rightarrow> unit scan_result" where
  "named_escape_loop quote triple bs body_start s = (case peek s of
      None \<Rightarrow> (Inl (malformed_name bs body_start s), s)
    | Some b \<Rightarrow>
        if b = CHR ''}'' then (Inr (), advance 1 s)
        else if (b = c_lf \<or> b = c_cr) \<and> \<not> triple then (Inl (malformed_name bs body_start s), s)
        else if b = quote \<and> (\<not> triple \<or> closes_triple quote s)
        then (Inl (malformed_name bs body_start s), s)
        else named_escape_loop quote triple bs body_start (advance 1 s))"
  by pat_completeness auto
termination
  by (relation "measure (\<lambda>(_, _, _, _, s). length (src s) - pos s)")
     (auto simp: peek_def slice_get_Some_iff)

declare named_escape_loop.simps [simp del]

text \<open>A plain nested string inside a replacement field, from just past its quotes.\<close>

definition unterminated_nested ::
  "u8 \<Rightarrow> u8 \<Rightarrow> usize \<Rightarrow> u8 \<Rightarrow> u32 \<Rightarrow> usize \<Rightarrow> u32 \<Rightarrow> lex_error" where
  "unterminated_nested quote outer_quote quote_pos knd field_start p line =
     (if quote = outer_quote then FstringExpectingBrace (as_u32 quote_pos) knd field_start
      else UnterminatedString (as_u32 p) line)"

function nested_plain_loop ::
  "u8 \<Rightarrow> u8 \<Rightarrow> bool \<Rightarrow> usize \<Rightarrow> u8 \<Rightarrow> u32 \<Rightarrow> scanner \<Rightarrow> unit scan_result" where
  "nested_plain_loop quote outer_quote triple quote_pos knd field_start s = (case peek s of
      None \<Rightarrow> (Inl (unterminated_nested quote outer_quote quote_pos knd field_start (pos s)
                     (eof_line s)), s)
    | Some b \<Rightarrow>
        if b = c_bs then
          nested_plain_loop quote outer_quote triple quote_pos knd field_start
            (skip_escaped (advance 1 s))
        else if b = quote then
          (if triple then
             (if closes_triple quote s then (Inr (), advance 3 s)
              else nested_plain_loop quote outer_quote triple quote_pos knd field_start (advance 1 s))
           else (Inr (), advance 1 s))
        else if (b = c_lf \<or> b = c_cr) \<and> \<not> triple then
          (Inl (unterminated_nested quote outer_quote quote_pos knd field_start (pos s)
                 (line_of s (pos s))), s)
        else nested_plain_loop quote outer_quote triple quote_pos knd field_start (advance 1 s))"
  by pat_completeness auto
termination
proof (relation "measure (\<lambda>(_, _, _, _, _, _, s). length (src s) - pos s)", goal_cases)
  case (2 quote outer_quote triple quote_pos knd field_start s b)
  have "pos s < pos (skip_escaped (advance 1 s))"
    using skip_escaped_src(2) [of "advance 1 s"] by simp
  then show ?case using 2(1) by (auto simp: peek_def slice_get_Some_iff)
qed (auto simp: peek_def slice_get_Some_iff)

declare nested_plain_loop.simps [simp del]

text \<open>
  The prefix of a nested string: the letters just before the quote, unless they are glued
  to a longer identifier.
\<close>

primrec walk_back :: "u8 list \<Rightarrow> usize \<Rightarrow> usize" where
  "walk_back bytes 0 = 0"
| "walk_back bytes (Suc n) = (if is_ascii_alphabetic (bytes ! n) then walk_back bytes n else Suc n)"

definition nested_prefix :: "bool \<Rightarrow> scanner \<Rightarrow> string_prefix" where
  "nested_prefix lp s =
     (let p = walk_back (src s) (pos s);
          glued = (p > 0 \<and> (src s ! (p - 1) = CHR ''_'' \<or> is_ascii_digit (src s ! (p - 1))));
          letters = slice (src s) p (pos s)
      in if \<not> glued \<and> p < pos s then
           (if from_utf8_ok letters
            then (case string_prefix_parse lp letters of Some q \<Rightarrow> q
                  | None \<Rightarrow> string_prefix_default)
            else string_prefix_default)
         else string_prefix_default)"

definition field_enter :: "u32 \<Rightarrow> scanner \<Rightarrow> scanner" where
  "field_enter depth s =
     (if depth = 1 \<and> fstring_level s = 1 then s\<lparr>outer_field_start := Some (as_u32 (pos s))\<rparr> else s)"

definition open_of :: "u8 \<Rightarrow> u8" where
  "open_of closer = (if closer = CHR '')'' then CHR ''(''
                     else if closer = CHR '']'' then CHR ''['' else CHR ''{'')"

text \<open>The backslash pair in a format spec's text.\<close>

definition spec_escape :: "bool \<Rightarrow> scanner \<Rightarrow> scanner" where
  "spec_escape outer_triple s = (case peek s of
      None \<Rightarrow> s
    | Some nxt \<Rightarrow>
        if nxt \<noteq> CHR ''{'' \<and> nxt \<noteq> CHR ''}'' then
          (if (nxt = c_lf \<or> nxt = c_cr) \<and> \<not> outer_triple then s else advance 1 s)
        else s)"

text \<open>The backslash pair in a literal part (a brace stays structural).\<close>

definition literal_escape :: "scanner \<Rightarrow> scanner" where
  "literal_escape s = (case peek s of
      None \<Rightarrow> s
    | Some nxt \<Rightarrow> if nxt \<noteq> CHR ''{'' \<and> nxt \<noteq> CHR ''}'' then advance 1 s else s)"

section \<open>F-strings: the mutually recursive extent scan\<close>

definition too_many_nested :: "usize \<Rightarrow> scanner \<Rightarrow> lex_error" where
  "too_many_nested start s = FstringTooManyNested (as_u32 start)
     (case outer_field_start s of Some f \<Rightarrow> f | None \<Rightarrow> as_u32 start)
     (case fstring_kinds s of k # _ \<Rightarrow> k | [] \<Rightarrow> CHR ''f'')"

definition leave_fstring :: "scanner \<Rightarrow> scanner" where
  "leave_fstring s = s\<lparr>fstring_kinds := butlast (fstring_kinds s),
                       fstring_level := fstring_level s - 1\<rparr>"

definition enter_fstring :: "string_prefix \<Rightarrow> scanner \<Rightarrow> scanner" where
  "enter_fstring prefix s = s\<lparr>fstring_level := as_u32 (fstring_level s + 1),
                              fstring_kinds := fstring_kinds s @ [fkind prefix]\<rparr>"

type_synonym 'a fuel_result = "('a scan_result) option"

text \<open>
  A call of one of the five routines, with its arguments. Each routine is given \<open>c\<close>, which
  runs a call; an iteration of a loop is the loop's routine called again. (A nested string's
  \<open>Ok(())\<close> is \<open>Inr False\<close>: its value is not used.)
\<close>

datatype (plugins only: code size) fs_call =
    Extent usize u8 bool string_prefix bool
      \<comment> \<open>start, quote, triple, prefix, warned\<close>
  | Inner usize u8 bool string_prefix usize bool
      \<comment> \<open>start, quote, triple, prefix, body_start, warned\<close>
  | Field usize u8 bool bool u32 "u8 list" bool u32 bool
      \<comment> \<open>start, outer_quote, outer_triple, outer_raw, depth, stack, in_comment, field_start, warned\<close>
  | Spec usize u8 bool bool u32 u32 bool
      \<comment> \<open>start, outer_quote, outer_triple, outer_raw, depth, field_start, warned\<close>
  | Nested u8 u32
      \<comment> \<open>outer_quote, field_start\<close>

type_synonym fs_runner = "fs_call \<Rightarrow> scanner \<Rightarrow> bool fuel_result"

text \<open>\<open>?\<close> on a result that may be out of fuel.\<close>

definition fuel_then :: "'a fuel_result \<Rightarrow> ('a \<Rightarrow> scanner \<Rightarrow> 'b fuel_result) \<Rightarrow> 'b fuel_result" where
  "fuel_then r k = (case r of None \<Rightarrow> None
     | Some (Inl e, s) \<Rightarrow> Some (Inl e, s)
     | Some (Inr a, s) \<Rightarrow> k a s)"

definition scan_fstring_extent :: "fs_runner \<Rightarrow> usize \<Rightarrow> u8 \<Rightarrow> bool \<Rightarrow> string_prefix \<Rightarrow> bool
     \<Rightarrow> scanner \<Rightarrow> bool fuel_result" where
  "scan_fstring_extent c start quote triple prefix warned s =
     (if as_u32 (fstring_level s + 1) > 150 then Some (Inl (too_many_nested start s), s)
      else (case c (Inner start quote triple prefix (pos s) warned) (enter_fstring prefix s) of
              None \<Rightarrow> None
            | Some (r, s1) \<Rightarrow> Some (r, leave_fstring s1)))"

definition scan_fstring_extent_inner :: "fs_runner \<Rightarrow> usize \<Rightarrow> u8 \<Rightarrow> bool \<Rightarrow> string_prefix \<Rightarrow> usize
     \<Rightarrow> bool \<Rightarrow> scanner \<Rightarrow> bool fuel_result" where
  "scan_fstring_extent_inner c start quote triple prefix body_start warned s =
     (let loop = (\<lambda>w. c (Inner start quote triple prefix body_start w)) in
      case peek s of
        None \<Rightarrow>
          Some (Inl (if triple then UnterminatedTripleFstring (as_u32 start) (fkind prefix) (eof_line s)
                     else UnterminatedFstring (as_u32 start) (fkind prefix) (eof_line s)), s)
      | Some b \<Rightarrow>
          if b = quote then
            (if triple then
               (if closes_triple quote s then Some (Inr warned, advance 3 s)
                else loop warned (advance 1 s))
             else Some (Inr warned, advance 1 s))
          else if (b = c_lf \<or> b = c_cr) \<and> \<not> triple then
            Some (Inl (UnterminatedFstring (as_u32 start) (fkind prefix) (line_of s (pos s))), s)
          else if b = c_bs then
            (if \<not> sp_raw prefix \<and> peek_at s 1 = Some (CHR ''N'') \<and> peek_at s 2 = Some (CHR ''{'')
             then fuel_then (Some (named_escape_loop quote triple (pos s) body_start (advance 3 s)))
                    (\<lambda>_ s1. loop warned s1)
             else (case (if \<not> sp_raw prefix then warn_once warned False s else (warned, s)) of
                     (w, s1) \<Rightarrow> loop w (literal_escape (advance 1 s1))))
          else if b = CHR ''{'' then
            (if peek_at s 1 = Some (CHR ''{'') then loop warned (advance 2 s)
             else fuel_then (c (Field start quote triple (sp_raw prefix) 1 [] False (as_u32 (pos s + 1)) warned) (field_enter 1 (advance 1 s)))
                    (\<lambda>w s1. loop w s1))
          else if b = CHR ''}'' then
            (if peek_at s 1 = Some (CHR ''}'') then loop warned (advance 2 s)
             else loop warned (advance 1 s))
          else loop warned (advance 1 s))"

definition scan_fstring_field_extent :: "fs_runner \<Rightarrow> usize \<Rightarrow> u8 \<Rightarrow> bool \<Rightarrow> bool \<Rightarrow> u32 \<Rightarrow> u8 list \<Rightarrow> bool
     \<Rightarrow> u32 \<Rightarrow> bool \<Rightarrow> scanner \<Rightarrow> bool fuel_result" where
  "scan_fstring_field_extent c start oq ot oraw depth stack in_comment field_start warned s =
     (let loop = (\<lambda>stk cmt. c (Field start oq ot oraw depth stk cmt field_start warned)) in
      case peek s of
        None \<Rightarrow>
          if in_comment
          then Some (Inl (BracketNeverClosed (if stack = [] then CHR ''{'' else last stack)
                            (as_u32 start)), s)
          else Some (Inl (BracketNeverClosed (CHR ''{'') (field_start - 1)), s)
      | Some b \<Rightarrow>
          if b = CHR ''}'' \<and> stack = [] then Some (Inr warned, advance 1 s)
          else if b = CHR '':'' \<and> stack = [] then
            (if depth \<ge> 3
             then Some (Inl (FstringNestedTooDeeply (as_u32 (pos s)) (cur_fstring_kind s)), s)
             else c (Spec start oq ot oraw depth field_start warned)
                    (advance 1 s))
          else if b = c_bs then
            (case peek_at s 1 of
               None \<Rightarrow> Some (Inl (StrayBackslash (as_u32 (pos s))), s)
             | Some d \<Rightarrow>
                 if d = c_lf then loop stack in_comment (advance 2 s)
                 else if d = c_cr then
                   (let s1 = advance 2 s
                    in loop stack in_comment (if peek s1 = Some c_lf then advance 1 s1 else s1))
                 else Some (Inl (StrayBackslash (as_u32 (pos s + 1))), s))
          else if b = CHR ''('' \<or> b = CHR ''['' \<or> b = CHR ''{'' then
            loop (stack @ [b]) in_comment (advance 1 s)
          else if b = CHR '')'' \<or> b = CHR '']'' \<or> b = CHR ''}'' then
            (if stack = []
             then Some (Inl (FstringUnmatchedParen b (as_u32 (pos s)) (cur_fstring_kind s)), s)
             else if last stack = open_of b then loop (butlast stack) in_comment (advance 1 s)
             else Some (Inl (FstringParenMismatch b (last stack) (as_u32 (pos s))), s))
          else if b = c_dq \<or> b = c_sq then
            fuel_then (c (Nested oq field_start) s) (\<lambda>_ s1. loop stack in_comment s1)
          else if b = CHR ''#'' then
            (let s1 = s\<lparr>pos := skip_while (\<lambda>d. d \<noteq> c_lf) (src s) (pos s)\<rparr>
             in loop stack (peek s1 = None) s1)
          else loop stack in_comment (advance 1 s))"

definition scan_fstring_format_spec_extent :: "fs_runner \<Rightarrow> usize \<Rightarrow> u8 \<Rightarrow> bool \<Rightarrow> bool \<Rightarrow> u32 \<Rightarrow> u32
     \<Rightarrow> bool \<Rightarrow> scanner \<Rightarrow> bool fuel_result" where
  "scan_fstring_format_spec_extent c start oq ot oraw depth field_start warned s =
     (let loop = (\<lambda>w. c (Spec start oq ot oraw depth field_start w)) in
      case peek s of
        None \<Rightarrow> Some (Inl (FstringExpectingBraceOrSpec (as_u32 start) (cur_fstring_kind s)
                            field_start), s)
      | Some b \<Rightarrow>
          if b = CHR ''}'' then Some (Inr warned, advance 1 s)
          else if b = CHR ''{'' then
            fuel_then (c (Field start oq ot oraw (depth + 1) [] False (as_u32 (pos s + 1)) warned) (field_enter (depth + 1) (advance 1 s)))
              (\<lambda>w s1. loop w s1)
          else if b = c_bs then
            (case (if \<not> oraw then warn_once warned False s else (warned, s)) of
               (w, s1) \<Rightarrow> loop w (spec_escape ot (advance 1 s1)))
          else if b = oq then
            Some (Inl (FstringExpectingBraceOrSpec (as_u32 (pos s)) (cur_fstring_kind s)
                         field_start), s)
          else if (b = c_lf \<or> b = c_cr) \<and> \<not> ot then
            Some (Inl (FstringNewlineInSpec (as_u32 (pos s)) (cur_fstring_kind s)), s)
          else loop warned (advance 1 s))"

definition scan_fstring_nested_string :: "bool \<Rightarrow> fs_runner \<Rightarrow> u8 \<Rightarrow> u32 \<Rightarrow> scanner
     \<Rightarrow> bool fuel_result" where
  "scan_fstring_nested_string lp c oq field_start s =
     (case peek s of
        None \<Rightarrow> None
      | Some quote \<Rightarrow>
          (let triple = closes_triple quote s;
               knd = cur_fstring_kind s;
               prefix = nested_prefix lp s;
               s1 = advance (if triple then 3 else 1) s
           in if interpolated prefix then
                fuel_then (c (Extent (pos s1) quote triple prefix False) s1)
                  (\<lambda>_ s2. Some (Inr False, s2))
              else fuel_then (Some (nested_plain_loop quote oq triple (pos s) knd field_start s1))
                     (\<lambda>_ s2. Some (Inr False, s2))))"

definition fs_step :: "bool \<Rightarrow> fs_runner \<Rightarrow> fs_runner" where
  "fs_step lp c call s = (case call of
      Extent start quote triple prefix warned \<Rightarrow>
        scan_fstring_extent c start quote triple prefix warned s
    | Inner start quote triple prefix body_start warned \<Rightarrow>
        scan_fstring_extent_inner c start quote triple prefix body_start warned s
    | Field start oq ot oraw depth stack in_comment field_start warned \<Rightarrow>
        scan_fstring_field_extent c start oq ot oraw depth stack in_comment field_start warned s
    | Spec start oq ot oraw depth field_start warned \<Rightarrow>
        scan_fstring_format_spec_extent c start oq ot oraw depth field_start warned s
    | Nested oq field_start \<Rightarrow> scan_fstring_nested_string lp c oq field_start s)"

text \<open>Calls nested at most \<open>n\<close> deep.\<close>

primrec fs_run :: "bool \<Rightarrow> nat \<Rightarrow> fs_runner" where
  "fs_run lp 0 call s = None"
| "fs_run lp (Suc n) call s = fs_step lp (fs_run lp n) call s"

definition fstring_fuel :: "scanner \<Rightarrow> nat" where
  "fstring_fuel s = 3 * (length (src s) - pos s) + 2"

definition scan_string :: "bool \<Rightarrow> usize \<Rightarrow> string_prefix \<Rightarrow> scanner \<Rightarrow> token fuel_result" where
  "scan_string lp start prefix s = (case peek s of
      None \<Rightarrow> None
    | Some quote \<Rightarrow>
        (let triple = closes_triple quote s;
             s1 = advance (if triple then 3 else 1) s
         in if interpolated prefix then
              fuel_then (fs_run lp (fstring_fuel s1) (Extent start quote triple prefix False) s1)
                (\<lambda>_ s2. Some (Inr (mk_token StringTok start (pos s2)), s2))
            else if triple then Some (scan_triple_string start quote prefix s1)
            else Some (scan_single_line_string start quote prefix s1)))"

end
