(* ===== verification/Lex_Main.thy ===== *)
theory Lex_Main
  imports Lex_Number Lex_Punct Lex_String
begin

text \<open>
  The scanner's dispatch and the tokenizer's loop: \<open>scan_ident_or_prefixed_string\<close>,
  \<open>next_token\<close>, \<open>tokenize_partial\<close> and its two wrappers in
  \<open>crates/weavepy-lexer/src/scanner.rs\<close>.
\<close>

section \<open>Clashing string prefixes\<close>

record prefix_flags =
  pf_b :: bool
  pf_r :: bool
  pf_u :: bool
  pf_f :: bool
  pf_t :: bool

fun prefix_flags_loop :: "prefix_flags \<Rightarrow> u8 list \<Rightarrow> prefix_flags option" where
  "prefix_flags_loop p [] = Some p"
| "prefix_flags_loop p (x # xs) = (let c = to_ascii_lowercase x in
     if c = CHR ''b'' \<and> \<not> pf_b p then prefix_flags_loop (p\<lparr>pf_b := True\<rparr>) xs
     else if c = CHR ''u'' \<and> \<not> pf_u p then prefix_flags_loop (p\<lparr>pf_u := True\<rparr>) xs
     else if c = CHR ''r'' \<and> \<not> pf_r p then prefix_flags_loop (p\<lparr>pf_r := True\<rparr>) xs
     else if c = CHR ''f'' \<and> \<not> pf_f p then prefix_flags_loop (p\<lparr>pf_f := True\<rparr>) xs
     else if c = CHR ''t'' \<and> \<not> pf_t p then prefix_flags_loop (p\<lparr>pf_t := True\<rparr>) xs
     else None)"

definition no_prefix_flags :: prefix_flags where
  "no_prefix_flags = \<lparr>pf_b = False, pf_r = False, pf_u = False, pf_f = False, pf_t = False\<rparr>"

definition clash_pairs :: "prefix_flags \<Rightarrow> (bool \<times> (u8 \<times> u8)) list" where
  "clash_pairs p =
     [(pf_u p \<and> pf_b p, (CHR ''u'', CHR ''b'')), (pf_u p \<and> pf_r p, (CHR ''u'', CHR ''r'')),
      (pf_u p \<and> pf_f p, (CHR ''u'', CHR ''f'')), (pf_u p \<and> pf_t p, (CHR ''u'', CHR ''t'')),
      (pf_b p \<and> pf_f p, (CHR ''b'', CHR ''f'')), (pf_b p \<and> pf_t p, (CHR ''b'', CHR ''t'')),
      (pf_f p \<and> pf_t p, (CHR ''f'', CHR ''t''))]"

definition incompatible_prefix_pair :: "u8 list \<Rightarrow> (u8 \<times> u8) option" where
  "incompatible_prefix_pair prefix = (case prefix_flags_loop no_prefix_flags prefix of
      None \<Rightarrow> None
    | Some p \<Rightarrow> map_option snd (find fst (clash_pairs p)))"

section \<open>Identifiers, keywords and prefixed strings\<close>

function ident_run :: "lex_env \<Rightarrow> scanner \<Rightarrow> unit scan_result" where
  "ident_run E s = (case peek s of
      None \<Rightarrow> (Inr (), s)
    | Some b \<Rightarrow>
        if is_ascii_alphanumeric b \<or> b = CHR ''_'' then ident_run E (advance 1 s)
        else if 128 \<le> byte b then
          (case decode_utf8 (drop (pos s) (src s)) of
             None \<Rightarrow> (Inl (InvalidChar 0xFFFD (as_u32 (pos s))), s)
           | Some (ch, len) \<Rightarrow>
               if is_xid_continue E ch then ident_run E (advance len s) else (Inr (), s))
        else (Inr (), s))"
  by pat_completeness auto
termination
proof (relation "measure (\<lambda>(_, s). length (src s) - pos s)", goal_cases)
  case 1
  show ?case by simp
next
  case (2 E s b)
  then show ?case by (auto simp: peek_def slice_get_Some_iff)
next
  case (3 E s b x ch len)
  then have "0 < len" using decode_utf8_width [of "drop (pos s) (src s)" ch len] by simp
  then show ?case using 3(1) by (auto simp: peek_def slice_get_Some_iff)
qed

declare ident_run.simps [simp del]

definition ident_token :: "usize \<Rightarrow> scanner \<Rightarrow> token scan_result" where
  "ident_token start s =
     (let lexeme = slice (src s) start (pos s)
      in if \<not> from_utf8_ok lexeme then (Inl (InvalidChar 0xFFFD (as_u32 start)), s)
         else (Inr (mk_token (case keyword_from_ident lexeme of Some kw \<Rightarrow> Keyword kw
                                | None \<Rightarrow> Name) start (pos s)), s))"

definition scan_ident_or_prefixed_string :: "lex_env \<Rightarrow> scanner \<Rightarrow> token fuel_result" where
  "scan_ident_or_prefixed_string E s =
     (let start = pos s in
      fuel_then (Some (ident_run E s)) (\<lambda>_ s1.
        let lexeme = slice (src s1) start (pos s1);
            prefix_str = (if from_utf8_ok lexeme then lexeme else [])
        in if peek s1 = Some c_dq \<or> peek s1 = Some c_sq then
             (case string_prefix_parse (lang_preview E) prefix_str of
                Some p \<Rightarrow> scan_string (lang_preview E) start p s1
              | None \<Rightarrow> (case incompatible_prefix_pair prefix_str of
                  Some (a, b) \<Rightarrow>
                    Some (Inl (IncompatibleStringPrefixes (as_u32 start) (as_u32 (pos s1)) a b), s1)
                | None \<Rightarrow> Some (ident_token start s1)))
           else Some (ident_token start s1)))"

section \<open>\<open>next_token\<close>\<close>

text \<open>The INDENT and DEDENT tokens queued by a line start, one per call.\<close>

definition take_queued :: "scanner \<Rightarrow> (token \<times> scanner) option" where
  "take_queued s = (case pending_indent s of
      Some ws_start \<Rightarrow> Some (mk_token Indent ws_start (pos s), s\<lparr>pending_indent := None\<rparr>)
    | None \<Rightarrow>
        if pending_dedents s > 0
        then Some (mk_token Dedent (pos s) (pos s), s\<lparr>pending_dedents := pending_dedents s - 1\<rparr>)
        else None)"

definition scan_eof :: "scanner \<Rightarrow> token option scan_result" where
  "scan_eof s =
     (if paren_depth s = 0 \<and> last_was_content s
      then (Inr (Some (mk_token Newline (pos s) (pos s))), s\<lparr>last_was_content := False\<rparr>)
      else if open_brackets s \<noteq> [] then
        (let (bracket, p) = last (open_brackets s)
         in (Inl (BracketNeverClosed bracket (as_u32 p)), s))
      else (let (t, s1) = emit_endmarker s in (Inr (Some t), s1)))"

text \<open>The error of a line continuation that ends the input.\<close>

definition continuation_eof :: "usize \<Rightarrow> scanner \<Rightarrow> lex_error" where
  "continuation_eof bs_pos s =
     (if open_brackets s \<noteq> []
      then (let (bracket, p) = last (open_brackets s) in BracketNeverClosed bracket (as_u32 p))
      else UnexpectedEofParsing (as_u32 (bs_pos + 1)) (last_was_content s))"

definition scan_continuation :: "scanner \<Rightarrow> token option scan_result" where
  "scan_continuation s =
     (let bs_pos = pos s; s1 = advance 1 s;
          s2 = (if peek s1 = Some c_cr then advance 1 s1 else s1)
      in if peek s2 = Some c_lf then
           (let s3 = advance 1 s2
            in if peek s3 = None then (Inl (continuation_eof bs_pos s3), s3) else (Inr None, s3))
         else if peek s2 = None then (Inl (continuation_eof bs_pos s2), s2)
         else (Inl (StrayBackslash (as_u32 (bs_pos + 1))), s2))"

definition some_token :: "token fuel_result \<Rightarrow> token option fuel_result" where
  "some_token r = fuel_then r (\<lambda>t s. Some (Inr (Some t), s))"

definition starts_xid :: "lex_env \<Rightarrow> scanner \<Rightarrow> bool" where
  "starts_xid E s = (case decode_utf8 (drop (pos s) (src s)) of
      Some (ch, _) \<Rightarrow> is_xid_start E ch | None \<Rightarrow> False)"

definition starts_number :: "u8 \<Rightarrow> scanner \<Rightarrow> bool" where
  "starts_number b s \<longleftrightarrow> is_ascii_digit b
     \<or> (b = CHR ''.'' \<and> (case peek_at s 1 of Some c \<Rightarrow> is_ascii_digit c | None \<Rightarrow> False))"

text \<open>The part of \<open>next_token\<close> after the line start: blanks, then the dispatch.\<close>

definition scan_content :: "lex_env \<Rightarrow> scanner \<Rightarrow> token option fuel_result" where
  "scan_content E s0 =
     (let s = s0\<lparr>pos := skip_while is_blank (src s0) (pos s0)\<rparr> in
      case peek s of
        None \<Rightarrow> Some (scan_eof s)
      | Some b \<Rightarrow>
          if b = CHR ''#'' then
            (let s1 = s\<lparr>pos := skip_while (\<lambda>c. c \<noteq> c_lf) (src s) (pos s)\<rparr>
             in Some (Inr (Some (mk_token Comment (pos s) (pos s1))), s1))
          else if b = c_lf then (let (t, s1) = handle_newline s in Some (Inr (Some t), s1))
          else if b = c_cr then
            (let s1 = advance 1 s;
                 s2 = (if peek s1 = Some c_lf then advance 1 s1 else s1);
                 (t, s3) = handle_newline_at (pos s2) s2
             in Some (Inr (Some t), s3))
          else if b = c_bs then Some (scan_continuation s)
          else if b = c_dq \<or> b = c_sq then
            some_token (scan_string (lang_preview E) (pos s) string_prefix_default s)
          else if is_ident_start b then some_token (scan_ident_or_prefixed_string E s)
          else if 128 \<le> byte b \<and> starts_xid E s then
            some_token (scan_ident_or_prefixed_string E s)
          else if starts_number b s then some_token (Some (scan_number s))
          else some_token (Some (scan_punct b s)))"

text \<open>
  The recursive call of the source after a line start that queued tokens returns at the
  queue, so it is \<open>take_queued\<close> once more.
\<close>

definition next_token :: "lex_env \<Rightarrow> scanner \<Rightarrow> token option fuel_result" where
  "next_token E s =
     (if finished s then Some (Inr None, s)
      else (case take_queued s of
        Some (t, s1) \<Rightarrow> Some (Inr (Some t), s1)
      | None \<Rightarrow>
          if at_line_start s \<and> paren_depth s = 0 then
            fuel_then (Some (handle_line_start s)) (\<lambda>_ s1.
              case take_queued s1 of
                Some (t, s2) \<Rightarrow> Some (Inr (Some t), s2)
              | None \<Rightarrow> scan_content E s1)
          else scan_content E s))"

section \<open>The tokenizer\<close>

definition is_content :: "token_kind \<Rightarrow> bool" where
  "is_content k \<longleftrightarrow> k \<notin> {Newline, Nl, Indent, Dedent, Endmarker}"

type_synonym token_result = "((token list \<times> lex_error) + token list) \<times> escape_warning list"

text \<open>
  The loop of \<open>tokenize_partial\<close>: \<open>out\<close> the tokens so far, \<open>seen\<close> whether a content token
  was seen, \<open>pend\<close> the position of an INDENT before any. \<open>None\<close> is a loop that does not end.
\<close>

partial_function (option) tokenize_loop ::
  "lex_env \<Rightarrow> scanner \<Rightarrow> token list \<Rightarrow> bool \<Rightarrow> u32 option \<Rightarrow> token_result option" where
  "tokenize_loop E s out seen pend = (case next_token E s of
      None \<Rightarrow> None
    | Some (r, s1) \<Rightarrow> (case r of
        Inl e \<Rightarrow> Some (Inl (out, e), escape_warnings s1)
      | Inr None \<Rightarrow> tokenize_loop E s1 out seen pend
      | Inr (Some tok) \<Rightarrow>
          (let k = tok_kind tok; start = span_start (tok_span tok);
               pend1 = (if \<not> seen \<and> k = Indent then Some start else pend);
               s2 = s1\<lparr>last_was_content := is_content k\<rparr>;
               counts = (is_content k \<and> k \<noteq> Comment)
           in if counts \<and> pend1 \<noteq> None then
                Some (Inl (out, UnexpectedIndent (if start > the pend1 then start - 1 else start)),
                      escape_warnings s2)
              else if k = Endmarker then Some (Inr (out @ [tok]), escape_warnings s2)
              else tokenize_loop E s2 (out @ [tok]) (seen \<or> counts) pend1)))"

definition tokenize_partial :: "lex_env \<Rightarrow> u8 list \<Rightarrow> token_result option" where
  "tokenize_partial E source = tokenize_loop E (scanner_new source) [] False None"

definition tokenize_with_escapes ::
  "lex_env \<Rightarrow> u8 list \<Rightarrow> ((lex_error + token list) \<times> escape_warning list) option" where
  "tokenize_with_escapes E source = map_option
     (\<lambda>(r, ws). (case r of Inl (_, e) \<Rightarrow> Inl e | Inr toks \<Rightarrow> Inr toks, ws))
     (tokenize_partial E source)"

definition tokenize :: "lex_env \<Rightarrow> u8 list \<Rightarrow> (lex_error + token list) option" where
  "tokenize E source = map_option fst (tokenize_with_escapes E source)"

end
