(* ===== verification/Lex_Frame.thy ===== *)
theory Lex_Frame
  imports Lex_Main
begin

text \<open>
  What the scanning routines do to the state. \<open>advances s t\<close>: the cursor has moved forward,
  not past the end, and nothing else changed but the escape warnings and the position kept
  for f-string diagnostics. Every routine that reads a literal, a name or a number keeps
  this frame, every loop terminates, and the call depth that \<open>scan_string\<close> allows the
  f-string routines is enough.
\<close>

section \<open>The frame\<close>

definition advances :: "scanner \<Rightarrow> scanner \<Rightarrow> bool" where
  "advances s t \<longleftrightarrow> (\<exists>p ws f. t = s\<lparr>pos := p, escape_warnings := ws, outer_field_start := f\<rparr>
     \<and> pos s \<le> p \<and> (pos s \<le> length (src s) \<longrightarrow> p \<le> length (src s)))"

lemma advancesI:
  assumes "t = s\<lparr>pos := p, escape_warnings := ws, outer_field_start := f\<rparr>" "pos s \<le> p"
    "pos s \<le> length (src s) \<Longrightarrow> p \<le> length (src s)"
  shows "advances s t"
  unfolding advances_def using assms by blast

lemma advances_refl [simp, intro]: "advances s s"
  by (rule advancesI [where p = "pos s" and ws = "escape_warnings s" and f = "outer_field_start s"])
     simp_all

lemma advancesE:
  assumes "advances s t"
  obtains p ws f where "t = s\<lparr>pos := p, escape_warnings := ws, outer_field_start := f\<rparr>"
    "pos s \<le> p" "pos s \<le> length (src s) \<longrightarrow> p \<le> length (src s)"
  using assms unfolding advances_def by blast

lemma advances_trans [trans]:
  assumes "advances s t" "advances t u"
  shows "advances s u"
proof -
  obtain p ws f where t: "t = s\<lparr>pos := p, escape_warnings := ws, outer_field_start := f\<rparr>"
    "pos s \<le> p" "pos s \<le> length (src s) \<longrightarrow> p \<le> length (src s)"
    using assms(1) by (rule advancesE)
  obtain p' ws' f' where u: "u = t\<lparr>pos := p', escape_warnings := ws', outer_field_start := f'\<rparr>"
    "pos t \<le> p'" "pos t \<le> length (src t) \<longrightarrow> p' \<le> length (src t)"
    using assms(2) by (rule advancesE)
  show ?thesis
    by (rule advancesI [where p = p' and ws = ws' and f = f']) (use t u in simp_all)
qed

lemma advances_src: "advances s t \<Longrightarrow> src t = src s"
  by (erule advancesE) simp

lemma advances_pos: "advances s t \<Longrightarrow> pos s \<le> pos t"
  by (erule advancesE) simp

lemma advances_level: "advances s t \<Longrightarrow> fstring_level t = fstring_level s"
  by (erule advancesE) simp

lemma advances_le: "advances s t \<Longrightarrow> pos s \<le> length (src s) \<Longrightarrow> pos t \<le> length (src t)"
  by (erule advancesE) simp

lemmas advances_dest = advances_src advances_pos advances_level advances_le

lemma peek_Some_iff: "peek s = Some b \<longleftrightarrow> pos s < length (src s) \<and> src s ! pos s = b"
  by (simp add: peek_def slice_get_Some_iff)

lemma peek_None_iff: "peek s = None \<longleftrightarrow> length (src s) \<le> pos s"
  by (simp add: peek_def)

lemma peek_at_SomeD: "peek_at s k = Some b \<Longrightarrow> pos s + k < length (src s)"
  by (simp add: peek_at_def slice_get_Some_iff)

text \<open>The cursor moved by hand.\<close>

lemma advances_pos_update:
  assumes "pos s \<le> p" "p \<le> length (src s)"
  shows "advances s (s\<lparr>pos := p\<rparr>)"
  by (rule advancesI [where ws = "escape_warnings s" and f = "outer_field_start s"])
     (use assms in simp_all)

lemma advances_1: "peek s = Some b \<Longrightarrow> advances s (advance 1 s)"
  by (rule advances_pos_update) (simp_all add: peek_Some_iff)

lemmas advances_Suc = advances_1 [simplified]

lemma advances_2: "peek_at s 1 = Some b \<Longrightarrow> advances s (advance 2 s)"
  by (rule advances_pos_update) (auto dest: peek_at_SomeD)

lemma advances_3: "peek_at s 2 = Some b \<Longrightarrow> advances s (advance 3 s)"
  by (rule advances_pos_update) (auto dest: peek_at_SomeD)

lemma advances_3_triple: "closes_triple q s \<Longrightarrow> advances s (advance 3 s)"
  by (auto simp: closes_triple_def intro: advances_3)

lemma advances_warning: "advances s (push_warning p m s)"
  by (rule advancesI [where p = "pos s" and ws = "escape_warnings (push_warning p m s)"
        and f = "outer_field_start s"]) (simp_all add: push_warning_def)

lemma advances_warn_once: "warn_once w i s = (w', t) \<Longrightarrow> advances s t"
  using warn_once_frame [of w i s w' t]
  by (auto intro: advancesI [where p = "pos s" and f = "outer_field_start s"])

lemma advances_field_enter: "advances s (field_enter d s)"
  by (rule advancesI [where p = "pos s" and ws = "escape_warnings s"
        and f = "outer_field_start (field_enter d s)"]) (simp_all add: field_enter_def)

lemma pos_field_enter [simp]: "pos (field_enter d s) = pos s"
  by (simp add: field_enter_def)

lemma advances_skip_escaped: "advances s (skip_escaped s)"
  by (cases "peek s") (simp_all add: skip_escaped_def advances_Suc)

lemma advances_if_1: "advances s (if peek s = Some b then advance 1 s else s)"
  by (simp add: advances_Suc)

lemma advances_skip_escaped_crlf: "advances s (skip_escaped_crlf s)"
proof (cases "peek s")
  case None
  then show ?thesis by (simp add: skip_escaped_crlf_def)
next
  case (Some b)
  then have "advances s (advance 1 s)" by (rule advances_1)
  moreover have "advances (advance 1 s)
      (if peek (advance 1 s) = Some c_lf then advance 1 (advance 1 s) else advance 1 s)"
    by (rule advances_if_1)
  ultimately have "advances s
      (if peek (advance 1 s) = Some c_lf then advance 1 (advance 1 s) else advance 1 s)"
    by (rule advances_trans)
  with \<open>advances s (advance 1 s)\<close> show ?thesis using Some
    by (simp add: skip_escaped_crlf_def Let_def split: if_splits)
qed

lemma advances_literal_escape: "advances s (literal_escape s)"
  by (cases "peek s") (auto simp: literal_escape_def intro: advances_Suc)

lemma advances_spec_escape: "advances s (spec_escape t s)"
  by (cases "peek s") (auto simp: spec_escape_def intro: advances_Suc)

lemma advances_skip_while:
  assumes "pos s \<le> length (src s)"
  shows "advances s (s\<lparr>pos := skip_while ok (src s) (pos s)\<rparr>)"
  by (rule advances_pos_update) (use assms skip_while_le_length in auto)

section \<open>The contract of a routine\<close>

text \<open>
  \<open>okr s r\<close>: the routine called in \<open>s\<close> returned \<open>r\<close>; it did return, and on success the
  state it leaves is an advance of \<open>s\<close>.
\<close>

definition okr :: "scanner \<Rightarrow> 'a fuel_result \<Rightarrow> bool" where
  "okr s r \<longleftrightarrow> (case r of None \<Rightarrow> False | Some (Inl _, _) \<Rightarrow> True | Some (Inr _, t) \<Rightarrow> advances s t)"

lemma okr_simps [simp]:
  "\<not> okr s None"
  "okr s (Some (Inl e, t))"
  "okr s (Some (Inr a, t)) \<longleftrightarrow> advances s t"
  by (simp_all add: okr_def)

lemma okr_back: "advances s t \<Longrightarrow> okr t r \<Longrightarrow> okr s r"
  by (auto simp: okr_def split: option.splits prod.splits sum.splits intro: advances_trans)

lemma okr_D: "okr s r \<Longrightarrow> r = Some (Inr a, t) \<Longrightarrow> advances s t"
  by simp

lemma okr_not_None: "okr s r \<Longrightarrow> r \<noteq> None"
  using okr_simps(1) by metis

lemma okr_fuel_then:
  assumes "okr s r" "\<And>a t. r = Some (Inr a, t) \<Longrightarrow> advances s t \<Longrightarrow> okr t (k a t)"
  shows "okr s (fuel_then r k)"
  using assms
  by (auto simp: fuel_then_def okr_def split: option.splits prod.splits sum.splits
      intro: advances_trans)

lemma okr_and_then:
  assumes "okr s (Some r)" "\<And>a t. r = (Inr a, t) \<Longrightarrow> advances s t \<Longrightarrow> okr t (Some (k a t))"
  shows "okr s (Some (and_then r k))"
  using assms okr_back [of s]
  by (cases r rule: prod.exhaust; cases "fst r") auto

lemma fuel_then_Some_Inr_iff:
  "fuel_then r k = Some (Inr b, u) \<longleftrightarrow> (\<exists>a t. r = Some (Inr a, t) \<and> k a t = Some (Inr b, u))"
  by (auto simp: fuel_then_def split: option.splits prod.splits sum.splits)

text \<open>
  \<open>tokr k a s r\<close>: moreover, the value is the token of kind \<open>k\<close> from \<open>a\<close> to the cursor, and
  the cursor has moved.
\<close>

definition tokr :: "token_kind \<Rightarrow> usize \<Rightarrow> scanner \<Rightarrow> token fuel_result \<Rightarrow> bool" where
  "tokr k a s r \<longleftrightarrow> okr s r
     \<and> (\<forall>t u. r = Some (Inr t, u) \<longrightarrow> t = mk_token k a (pos u) \<and> pos s < pos u)"

lemma tokr_Err [simp]: "tokr k a s (Some (Inl e, t))"
  by (simp add: tokr_def)

lemma tokr_Ret: "advances s u \<Longrightarrow> pos s < pos u \<Longrightarrow> tokr k a s (Some (Inr (mk_token k a (pos u)), u))"
  by (simp add: tokr_def)

lemma tokr_back: "advances s t \<Longrightarrow> tokr k a t r \<Longrightarrow> tokr k a s r"
  unfolding tokr_def using okr_back advances_pos by fastforce

lemma tokr_D:
  assumes "tokr k a s r" "r = Some (Inr t, u)"
  shows "t = mk_token k a (pos u)" "advances s u" "pos s < pos u"
  using assms by (auto simp: tokr_def)

lemma tokr_not_None: "tokr k a s r \<Longrightarrow> r \<noteq> None"
  unfolding tokr_def using okr_not_None by blast

section \<open>Strings\<close>

lemma tokr_single_line_loop:
  "tokr StringTok start s (Some (single_line_loop start quote prefix warned s))"
proof (induction start quote prefix warned s rule: single_line_loop.induct)
  case (1 start quote prefix warned s)
  show ?case
  proof (cases "peek s")
    case None
    then show ?thesis by (simp add: single_line_loop.simps [of _ _ _ _ s])
  next
    case (Some b)
    note IH = 1 [OF Some]
    have adv: "advances s (advance 1 s)" using Some by (rule advances_1)
    consider (nl) "b = c_lf \<or> b = c_cr" | (esc) "b = c_bs" "\<not> sp_raw prefix"
      | (raw) "b = c_bs" "sp_raw prefix" | (quote) "\<not> (b = c_lf \<or> b = c_cr)" "b \<noteq> c_bs" "b = quote"
      | (other) "\<not> (b = c_lf \<or> b = c_cr)" "b \<noteq> c_bs" "b \<noteq> quote" by blast
    then show ?thesis
    proof cases
      case nl
      then show ?thesis using Some by (simp add: single_line_loop.simps [of _ _ _ _ s])
    next
      case esc
      obtain w s1 where w: "warn_once warned (sp_bytes prefix) s = (w, s1)" by fastforce
      have "peek s1 = Some b"
        using warn_once_src [OF w] Some by (simp add: peek_def)
      then have "advances s (skip_escaped_crlf (advance 1 s1))"
        using advances_warn_once [OF w] advances_1 advances_skip_escaped_crlf advances_trans by blast
      moreover have "tokr StringTok start (skip_escaped_crlf (advance 1 s1))
          (Some (single_line_loop start quote prefix w (skip_escaped_crlf (advance 1 s1))))"
        using IH(1) esc w by simp
      ultimately show ?thesis using Some esc w
        by (simp add: single_line_loop.simps [of _ _ _ _ s] tokr_back)
    next
      case raw
      have "advances s (skip_escaped (advance 1 s))"
        using adv advances_skip_escaped advances_trans by blast
      then show ?thesis using Some raw IH(2)
        by (simp add: single_line_loop.simps [of _ _ _ _ s] tokr_back)
    next
      case quote
      then show ?thesis using Some adv
        by (simp add: single_line_loop.simps [of _ _ _ _ s] Let_def tokr_def)
    next
      case other
      then show ?thesis using Some adv IH(3)
        by (simp add: single_line_loop.simps [of _ _ _ _ s] tokr_back)
    qed
  qed
qed

lemma tokr_triple_loop:
  "tokr StringTok start s (Some (triple_loop start quote prefix warned s))"
proof (induction start quote prefix warned s rule: triple_loop.induct)
  case (1 start quote prefix warned s)
  show ?case
  proof (cases "peek s")
    case None
    then show ?thesis by (simp add: triple_loop.simps [of _ _ _ _ s])
  next
    case (Some b)
    note IH = 1 [OF Some]
    consider (esc) "b = c_bs" | (close) "b \<noteq> c_bs" "b = quote" "closes_triple quote s"
      | (other) "b \<noteq> c_bs" "\<not> (b = quote \<and> closes_triple quote s)" by blast
    then show ?thesis
    proof cases
      case esc
      obtain w s1 where w: "(if \<not> sp_raw prefix then warn_once warned (sp_bytes prefix) s
          else (warned, s)) = (w, s1)" by fastforce
      then have s1: "advances s s1" "src s1 = src s" "pos s1 = pos s"
        using advances_warn_once warn_once_src [of warned "sp_bytes prefix" s w s1]
        by (auto split: if_splits)
      then have "peek s1 = Some b" using Some by (simp add: peek_def)
      then have "advances s (skip_escaped (advance 1 s1))"
        using s1(1) advances_1 advances_skip_escaped advances_trans by blast
      then show ?thesis using Some esc w IH(1)
        by (simp add: triple_loop.simps [of _ _ _ _ s] tokr_back)
    next
      case close
      then show ?thesis using Some
        by (simp add: triple_loop.simps [of _ _ _ _ s] Let_def tokr_def advances_3_triple)
    next
      case other
      then show ?thesis using Some advances_1 [OF Some] IH(2)
        by (auto simp: triple_loop.simps [of _ _ _ _ s] intro: tokr_back)
    qed
  qed
qed

lemma okr_named_escape_loop:
  "okr s (Some (named_escape_loop quote triple bs body_start s))"
proof (induction quote triple bs body_start s rule: named_escape_loop.induct)
  case (1 quote triple bs body_start s)
  show ?case
  proof (cases "peek s")
    case None
    then show ?thesis by (simp add: named_escape_loop.simps [of _ _ _ _ s])
  next
    case (Some b)
    have adv: "advances s (advance 1 s)" using Some by (rule advances_1)
    then have "okr s (Some (named_escape_loop quote triple bs body_start (advance 1 s)))"
      if "b \<noteq> CHR ''}''" "\<not> ((b = c_lf \<or> b = c_cr) \<and> \<not> triple)"
        "\<not> (b = quote \<and> (\<not> triple \<or> closes_triple quote s))"
      using 1 [OF Some that] by (rule okr_back)
    then show ?thesis using Some adv
      by (cases triple) (auto simp: named_escape_loop.simps [of _ _ _ _ s])
  qed
qed

lemma okr_nested_plain_loop:
  "okr s (Some (nested_plain_loop quote oq triple qp knd fs s))"
proof (induction quote oq triple qp knd fs s rule: nested_plain_loop.induct)
  case (1 quote oq triple qp knd fs s)
  let ?loop = "\<lambda>t. Some (nested_plain_loop quote oq triple qp knd fs t)"
  show ?case
  proof (cases "peek s")
    case None
    then show ?thesis by (simp add: nested_plain_loop.simps [of _ _ _ _ _ _ s])
  next
    case (Some b)
    note IH = 1 [OF Some]
    have adv: "advances s (advance 1 s)" using Some by (rule advances_1)
    then have esc: "advances s (skip_escaped (advance 1 s))"
      using advances_skip_escaped advances_trans by blast
    have "okr s (?loop (skip_escaped (advance 1 s)))" if "b = c_bs"
      using esc IH(1) [OF that] by (rule okr_back)
    moreover have "okr s (?loop (advance 1 s))"
      if "b \<noteq> c_bs" "b = quote" "triple" "\<not> closes_triple quote s"
      using adv IH(2) [OF that] by (rule okr_back)
    moreover have "okr s (?loop (advance 1 s))"
      if "b \<noteq> c_bs" "b \<noteq> quote" "\<not> ((b = c_lf \<or> b = c_cr) \<and> \<not> triple)"
      using adv IH(3) [OF that] by (rule okr_back)
    ultimately show ?thesis using Some adv advances_3_triple [of quote s]
      by (simp add: nested_plain_loop.simps [of _ _ _ _ _ _ s])
  qed
qed

section \<open>F-strings: enough call depth\<close>

text \<open>\<open>okp s r\<close>: moreover, a success has moved the cursor.\<close>

definition okp :: "scanner \<Rightarrow> 'a fuel_result \<Rightarrow> bool" where
  "okp s r \<longleftrightarrow> okr s r \<and> (\<forall>a t. r = Some (Inr a, t) \<longrightarrow> pos s < pos t)"

lemma okp_okr: "okp s r \<Longrightarrow> okr s r"
  by (simp add: okp_def)

lemma okp_D: "okp s (Some (Inr a, t)) \<Longrightarrow> advances s t" "okp s (Some (Inr a, t)) \<Longrightarrow> pos s < pos t"
  by (simp_all add: okp_def)

lemma okp_Err: "okp s (Some (Inl e, t))"
  by (simp add: okp_def)

lemma okp_Ret: "advances s t \<Longrightarrow> pos s < pos t \<Longrightarrow> okp s (Some (Inr a, t))"
  by (simp add: okp_def)

lemma okp_if: "(P \<Longrightarrow> okp s a) \<Longrightarrow> (\<not> P \<Longrightarrow> okp s b) \<Longrightarrow> okp s (if P then a else b)"
  by simp

lemma okp_case_prod:
  "(\<And>w t. p = (w, t) \<Longrightarrow> okp s (f w t)) \<Longrightarrow> okp s (case p of (w, t) \<Rightarrow> f w t)"
  by (cases p) simp

lemma okp_case_option:
  "(x = None \<Longrightarrow> okp s a) \<Longrightarrow> (\<And>d. x = Some d \<Longrightarrow> okp s (f d))
     \<Longrightarrow> okp s (case x of None \<Rightarrow> a | Some d \<Rightarrow> f d)"
  by (cases x) simp_all

lemmas okp_split = okp_if okp_case_prod okp_case_option okp_Err

lemma okp_back: "advances s t \<Longrightarrow> pos s < pos t \<Longrightarrow> okr t r \<Longrightarrow> okp s r"
  using okr_back [of s t r] by (auto simp: okp_def dest!: advances_pos)

lemma okp_fuel_then_back:
  assumes "okr t r" "\<And>a u. r = Some (Inr a, u) \<Longrightarrow> advances t u \<Longrightarrow> okp s (k a u)"
  shows "okp s (fuel_then r k)"
  using assms by (auto simp: fuel_then_def okp_def okr_def split: option.splits prod.splits sum.splits)

text \<open>
  The call depth a routine needs, in terms of the bytes that are left: a routine that reads
  a byte before it calls has paid for three levels; a literal part entered at the same byte
  costs one more, and a nested string, which always consumes its quote, one less.
\<close>

definition fs_left :: "scanner \<Rightarrow> nat" where
  "fs_left s = length (src s) - pos s"

definition fs_need :: "fs_call \<Rightarrow> scanner \<Rightarrow> nat" where
  "fs_need call s = (case call of
      Extent start quote triple prefix warned \<Rightarrow> 3 * fs_left s + 2
    | Nested oq field_start \<Rightarrow> 3 * fs_left s
    | _ \<Rightarrow> 3 * fs_left s + 1)"

definition fs_sane :: "scanner \<Rightarrow> bool" where
  "fs_sane s \<longleftrightarrow> fstring_level s \<le> 150 \<and> pos s \<le> length (src s)"

definition fs_ready :: "fs_call \<Rightarrow> scanner \<Rightarrow> bool" where
  "fs_ready call s \<longleftrightarrow> fs_sane s
     \<and> (case call of Nested oq field_start \<Rightarrow> pos s < length (src s) | _ \<Rightarrow> True)"

text \<open>A body: any routine but the two that stand for a whole string.\<close>

definition fs_body :: "fs_call \<Rightarrow> bool" where
  "fs_body call = (case call of
      Extent start quote triple prefix warned \<Rightarrow> False
    | Nested oq field_start \<Rightarrow> False | _ \<Rightarrow> True)"

lemma fs_body_simps [simp]:
  "fs_body (Inner start quote triple prefix body_start warned)"
  "fs_body (Field start oq ot oraw depth stack in_comment field_start warned)"
  "fs_body (Spec start oq ot oraw depth field_start warned)"
  by (simp_all add: fs_body_def)

lemma fs_body_need: "fs_body call \<Longrightarrow> fs_need call s = 3 * fs_left s + 1"
  by (cases call) (simp_all add: fs_body_def fs_need_def)

lemma fs_body_ready: "fs_body call \<Longrightarrow> fs_ready call s \<longleftrightarrow> fs_sane s"
  by (cases call) (simp_all add: fs_body_def fs_ready_def)

lemma fs_ready_sane: "fs_ready call s \<Longrightarrow> fs_sane s"
  by (simp add: fs_ready_def)

lemma fs_sane_advances: "advances s t \<Longrightarrow> fs_sane s \<Longrightarrow> fs_sane t"
  using advances_dest [of s t] by (simp add: fs_sane_def)

lemma fs_left_less: "advances s t \<Longrightarrow> fs_sane s \<Longrightarrow> pos s < pos t \<Longrightarrow> fs_left t < fs_left s"
  using advances_dest [of s t] by (simp add: fs_sane_def fs_left_def)

text \<open>The contract of a runner \<open>c\<close> that has call depth \<open>n\<close>.\<close>

locale fs_routines =
  fixes c :: fs_runner and n :: nat
  assumes run: "fs_ready call s \<Longrightarrow> fs_need call s \<le> n \<Longrightarrow> okp s (c call s)"
begin

lemma body_ready:
  assumes "fs_body call" "fs_sane s" "3 * fs_left s \<le> n" "advances s t" "pos s < pos t"
  shows "okr t (c call t)"
proof (rule okp_okr, rule run)
  show "fs_ready call t" using assms fs_sane_advances by (simp add: fs_body_ready)
  show "fs_need call t \<le> n" using assms fs_left_less [of s t] by (simp add: fs_body_need)
qed

lemma body_call:
  assumes "fs_body call" "fs_sane s" "3 * fs_left s \<le> n" "advances s t" "pos s < pos t"
  shows "okp s (c call t)"
  using assms(4,5) body_ready [OF assms] by (rule okp_back)

text \<open>A call, then another after it has returned.\<close>

lemma body_call_then:
  assumes "fs_body call" "fs_sane s" "3 * fs_left s \<le> n" "advances s t" "pos s < pos t"
    and loop: "\<And>w u. advances s u \<Longrightarrow> pos s < pos u \<Longrightarrow> okp s (k w u)"
  shows "okp s (fuel_then (c call t) k)"
proof -
  have "okr t (c call t)" using assms(1-5) by (rule body_ready)
  then show ?thesis
  proof (rule okp_fuel_then_back)
    fix w u
    assume "advances t u"
    then have "advances s u" "pos s < pos u"
      using assms(4,5) advances_trans advances_pos [of t u] by (blast, simp)
    then show "okp s (k w u)" by (rule loop)
  qed
qed

end

text \<open>The one byte at the cursor, and what the routines skip after it.\<close>

lemma advances_after_1:
  assumes "peek s = Some b" "advances (advance 1 s) t"
  shows "advances s t" "pos s < pos t"
  using advances_trans [OF advances_1 [OF assms(1)] assms(2)] advances_pos [OF assms(2)]
  by simp_all

lemma warn_once_then:
  assumes "warn_once w i s = (w', s1)" "peek s = Some b" "advances (advance 1 s1) t"
  shows "advances s t" "pos s < pos t"
proof -
  have "peek s1 = Some b" using warn_once_src [OF assms(1)] assms(2) by (simp add: peek_def)
  from advances_after_1 [OF this assms(3)] show "advances s t" "pos s < pos t"
    using advances_warn_once [OF assms(1)] advances_trans warn_once_src(2) [OF assms(1)]
    by (blast, simp)
qed

context fs_routines
begin

lemma inner_ok:
  assumes "fs_sane s" "3 * fs_left s \<le> n"
  shows "okp s (scan_fstring_extent_inner c start quote triple prefix body_start warned s)"
proof (cases "peek s")
  case None
  then show ?thesis by (simp add: scan_fstring_extent_inner_def okp_Err)
next
  case (Some b)
  let ?loop = "\<lambda>w. c (Inner start quote triple prefix body_start w)"
  let ?field = "\<lambda>t. fuel_then (c (Field start quote triple (sp_raw prefix) 1 [] False
                      (as_u32 (pos s + 1)) warned) t) ?loop"
  have loop: "okp s (?loop w t)" if "advances s t" "pos s < pos t" for w t
    using body_call [OF _ assms that] by simp
  have next1: "okp s (?loop w (advance 1 s))" for w
    by (rule loop, rule advances_1 [OF Some]) simp
  have next2: "okp s (?loop w (advance 2 s))" if "peek_at s 1 = Some d" for w d
    by (rule loop, rule advances_2 [OF that]) simp
  have field: "okp s (?field (field_enter 1 (advance 1 s)))"
    by (rule body_call_then [OF _ assms])
       (use advances_after_1 [OF Some advances_field_enter] loop in auto)
  have named: "okp s (fuel_then (Some (named_escape_loop quote triple (pos s) body_start
      (advance 3 s))) (\<lambda>_ s1. ?loop warned s1))" if "peek_at s 2 = Some d" for d
  proof (rule okp_fuel_then_back [OF okr_named_escape_loop])
    fix a u
    assume "advances (advance 3 s) u"
    then show "okp s (?loop warned u)"
      using loop advances_trans [OF advances_3 [OF that]] advances_pos [of "advance 3 s" u] by simp
  qed
  have esc: "okp s (?loop w (literal_escape (advance 1 s1)))"
    if "(if \<not> sp_raw prefix then warn_once warned False s else (warned, s)) = (w, s1)" for w s1
    using that warn_once_then [OF _ Some advances_literal_escape]
      advances_after_1 [OF Some advances_literal_escape]
    by (intro loop) (auto split: if_splits)
  have ret1: "okp s (Some (Inr warned, advance 1 s))"
    by (rule okp_Ret, rule advances_1 [OF Some]) simp
  have ret3: "okp s (Some (Inr warned, advance 3 s))" if "closes_triple quote s"
    by (rule okp_Ret, rule advances_3_triple [OF that]) simp
  show ?thesis
    unfolding scan_fstring_extent_inner_def Let_def Some option.case
    by (intro okp_split) (use next1 next2 field named esc ret1 ret3 in blast)+
qed

lemma spec_ok:
  assumes "fs_sane s" "3 * fs_left s \<le> n"
  shows "okp s (scan_fstring_format_spec_extent c start oq ot oraw depth field_start warned s)"
proof (cases "peek s")
  case None
  then show ?thesis by (simp add: scan_fstring_format_spec_extent_def okp_Err)
next
  case (Some b)
  let ?loop = "\<lambda>w. c (Spec start oq ot oraw depth field_start w)"
  have loop: "okp s (?loop w t)" if "advances s t" "pos s < pos t" for w t
    using body_call [OF _ assms that] by simp
  have next1: "okp s (?loop w (advance 1 s))" for w
    by (rule loop, rule advances_1 [OF Some]) simp
  have field: "okp s (fuel_then (c (Field start oq ot oraw (depth + 1) [] False
      (as_u32 (pos s + 1)) warned) (field_enter (depth + 1) (advance 1 s))) ?loop)"
    by (rule body_call_then [OF _ assms])
       (use advances_after_1 [OF Some advances_field_enter] loop in auto)
  have esc: "okp s (?loop w (spec_escape ot (advance 1 s1)))"
    if "(if \<not> oraw then warn_once warned False s else (warned, s)) = (w, s1)" for w s1
    using that warn_once_then [OF _ Some advances_spec_escape]
      advances_after_1 [OF Some advances_spec_escape]
    by (intro loop) (auto split: if_splits)
  have ret1: "okp s (Some (Inr warned, advance 1 s))"
    by (rule okp_Ret, rule advances_1 [OF Some]) simp
  show ?thesis
    unfolding scan_fstring_format_spec_extent_def Let_def Some option.case
    by (intro okp_split) (use next1 field esc ret1 in blast)+
qed

lemma field_ok:
  assumes "fs_sane s" "3 * fs_left s \<le> n"
  shows "okp s (scan_fstring_field_extent c start oq ot oraw depth stack in_comment field_start
    warned s)"
proof (cases "peek s")
  case None
  then show ?thesis by (simp add: scan_fstring_field_extent_def okp_Err)
next
  case (Some b)
  let ?loop = "\<lambda>stk cmt. c (Field start oq ot oraw depth stk cmt field_start warned)"
  have loop: "okp s (?loop stk cmt t)" if "advances s t" "pos s < pos t" for stk cmt t
    using body_call [OF _ assms that] by simp
  have next1: "okp s (?loop stk cmt (advance 1 s))" for stk cmt
    by (rule loop, rule advances_1 [OF Some]) simp
  have next2: "okp s (?loop stk cmt (advance 2 s))" if "peek_at s 1 = Some d" for stk cmt d
    by (rule loop, rule advances_2 [OF that]) simp
  have next3: "okp s (?loop stk cmt
      (if peek (advance 2 s) = Some c_lf then advance 1 (advance 2 s) else advance 2 s))"
    if "peek_at s 1 = Some d" for stk cmt d
    using advances_2 [OF that] advances_trans [OF advances_2 [OF that] advances_if_1 [of _ c_lf]]
    by (intro loop) simp_all
  have spec: "okp s (c (Spec start oq ot oraw depth field_start warned) (advance 1 s))"
    by (rule body_call [OF _ assms], simp, rule advances_1 [OF Some]) simp
  have comment: "okp s (?loop stk (peek (s\<lparr>pos := skip_while (\<lambda>d. d \<noteq> c_lf) (src s) (pos s)\<rparr>) = None)
      (s\<lparr>pos := skip_while (\<lambda>d. d \<noteq> c_lf) (src s) (pos s)\<rparr>))" if "b = CHR ''#''" for stk
  proof (rule loop)
    show "advances s (s\<lparr>pos := skip_while (\<lambda>d. d \<noteq> c_lf) (src s) (pos s)\<rparr>)"
      using assms(1) by (intro advances_skip_while) (simp add: fs_sane_def)
    show "pos s < pos (s\<lparr>pos := skip_while (\<lambda>d. d \<noteq> c_lf) (src s) (pos s)\<rparr>)"
      using Some that by (simp add: skip_while_progress peek_Some_iff)
  qed
  have ret1: "okp s (Some (Inr warned, advance 1 s))"
    by (rule okp_Ret, rule advances_1 [OF Some]) simp
  have nested: "okp s (fuel_then (c (Nested oq field_start) s) (\<lambda>_ s1. ?loop stk cmt s1))" for stk cmt
  proof -
    have "okp s (c (Nested oq field_start) s)"
      by (rule run) (use assms Some in \<open>simp_all add: fs_ready_def fs_need_def peek_Some_iff\<close>)
    then show ?thesis
      by (intro okp_fuel_then_back [OF okp_okr]) (auto dest: okp_D intro!: loop)
  qed
  show ?thesis
    unfolding scan_fstring_field_extent_def Let_def Some option.case
    by (intro okp_split; (rule next1 spec ret1 nested | (rule next2 next3 comment, assumption))?)
qed

lemma extent_ok:
  assumes "fs_sane s" "3 * fs_left s + 1 \<le> n"
  shows "okp s (scan_fstring_extent c start quote triple prefix warned s)"
proof (cases "as_u32 (fstring_level s + 1) > 150")
  case True
  then show ?thesis by (simp add: scan_fstring_extent_def okp_Err)
next
  case False
  let ?call = "Inner start quote triple prefix (pos s) warned"
  let ?s = "enter_fstring prefix s"
  have sane: "fs_sane ?s" and left: "fs_left ?s = fs_left s"
    using assms(1) False by (simp_all add: fs_sane_def fs_left_def enter_fstring_def)
  have inner: "okp ?s (c ?call ?s)"
    by (rule run) (use assms(2) sane left in \<open>simp_all add: fs_body_ready fs_body_need\<close>)
  obtain r t where rt: "c ?call ?s = Some (r, t)"
    using okr_not_None [OF okp_okr [OF inner]] by auto
  have "advances s (leave_fstring t)" "pos s < pos (leave_fstring t)" if "r = Inr w" for w
  proof -
    have adv: "advances ?s t" and moved: "pos ?s < pos t"
      using inner rt that by (auto dest: okp_D)
    obtain p ws f where t: "t = ?s\<lparr>pos := p, escape_warnings := ws, outer_field_start := f\<rparr>"
      "pos ?s \<le> p" "pos ?s \<le> length (src ?s) \<longrightarrow> p \<le> length (src ?s)"
      using adv by (rule advancesE)
    have "leave_fstring t = s\<lparr>pos := p, escape_warnings := ws, outer_field_start := f\<rparr>"
      unfolding t(1) using assms(1) by (simp add: leave_fstring_def enter_fstring_def fs_sane_def)
    moreover have "pos s < p" "p \<le> length (src s)"
      using t moved sane by (simp_all add: fs_sane_def enter_fstring_def)
    ultimately show "advances s (leave_fstring t)" "pos s < pos (leave_fstring t)"
      by (auto intro!: advancesI [where p = p and ws = ws and f = f])
  qed
  then show ?thesis using False rt
    by (cases r) (auto simp: scan_fstring_extent_def okp_Err okp_Ret)
qed

lemma nested_ok:
  assumes "fs_sane s" "pos s < length (src s)" "3 * fs_left s \<le> n + 1"
  shows "okp s (scan_fstring_nested_string lp c oq field_start s)"
proof -
  obtain quote where Some: "peek s = Some quote"
    using assms(2) by (cases "peek s") (simp_all add: peek_None_iff)
  let ?t = "advance (if closes_triple quote s then 3 else 1) s"
  have adv: "advances s ?t"
    using advances_1 [OF Some] advances_3_triple [of quote s] by (cases "closes_triple quote s") simp_all
  have moved: "pos s < pos ?t" by simp
  have ext: "okr ?t (c (Extent (pos ?t) quote (closes_triple quote s) p False) ?t)" for p
    by (rule okp_okr, rule run)
       (use assms fs_sane_advances [OF adv] fs_left_less [OF adv _ moved] in
         \<open>simp_all add: fs_ready_def fs_need_def\<close>)
  have ret: "okp s (fuel_then r (\<lambda>_ s2. Some (Inr False, s2)))" if "okr ?t r" for r :: "'a fuel_result"
  proof (rule okp_fuel_then_back [OF that], rule okp_Ret)
    fix u
    assume u: "advances ?t u"
    show "advances s u" using adv u by (rule advances_trans)
    show "pos s < pos u" using moved advances_pos [OF u] by simp
  qed
  show ?thesis
    unfolding scan_fstring_nested_string_def Let_def Some option.case
    by (intro okp_if ret ext okr_nested_plain_loop)
qed

lemma step: "fs_routines (fs_step lp c) (Suc n)"
proof
  fix call s
  assume "fs_ready call s" "fs_need call s \<le> Suc n"
  then show "okp s (fs_step lp c call s)"
    by (cases call)
       (auto simp: fs_step_def fs_ready_def fs_need_def intro: inner_ok spec_ok field_ok extent_ok nested_ok)
qed

end

lemma fs_need_pos: "fs_ready call s \<Longrightarrow> 0 < fs_need call s"
  by (cases call) (auto simp: fs_need_def fs_ready_def fs_left_def)

lemma fs_run_contract: "fs_routines (fs_run lp n) n"
proof (induction n)
  case 0
  show ?case by standard (use fs_need_pos in fastforce)
next
  case (Suc n)
  have "fs_run lp (Suc n) = fs_step lp (fs_run lp n)" by (intro ext) simp
  then show ?case using fs_routines.step [OF Suc] by simp
qed

interpretation fs: fs_routines "fs_run lp n" n for lp n
  by (rule fs_run_contract)

section \<open>Strings\<close>

lemma tokr_if: "(P \<Longrightarrow> tokr k a s x) \<Longrightarrow> (\<not> P \<Longrightarrow> tokr k a s y) \<Longrightarrow> tokr k a s (if P then x else y)"
  by simp

lemma tokr_scan_string:
  assumes "peek s = Some quote" "fs_sane s"
  shows "tokr StringTok start s (scan_string lp start prefix s)"
proof -
  let ?t = "advance (if closes_triple quote s then 3 else 1) s"
  have adv: "advances s ?t"
    using advances_1 [OF assms(1)] advances_3_triple [of quote s]
    by (cases "closes_triple quote s") simp_all
  have moved: "pos s < pos ?t" by simp
  have fs: "okr ?t (fs_run lp (fstring_fuel ?t)
      (Extent start quote (closes_triple quote s) prefix False) ?t)"
    by (rule okp_okr, rule fs.run)
       (use fs_sane_advances [OF adv assms(2)] in
         \<open>simp_all add: fs_ready_def fs_need_def fstring_fuel_def fs_left_def\<close>)
  have "tokr StringTok start s (fuel_then (fs_run lp (fstring_fuel ?t)
      (Extent start quote (closes_triple quote s) prefix False) ?t)
      (\<lambda>_ s2. Some (Inr (mk_token StringTok start (pos s2)), s2)))" (is "tokr _ _ _ (fuel_then ?r ?k)")
  proof (cases "?r")
    case None
    then show ?thesis using fs by simp
  next
    case (Some v)
    obtain w u where v: "v = (w, u)" by fastforce
    show ?thesis
    proof (cases w)
      case (Inl e)
      then show ?thesis using Some v by (simp add: fuel_then_def)
    next
      case (Inr x)
      then have "advances ?t u" using fs Some v by simp
      then have "advances s u" "pos s < pos u"
        using advances_trans [OF adv] advances_pos [of ?t u] moved by (blast, simp)
      then show ?thesis using Some v Inr by (simp add: fuel_then_def tokr_Ret)
    qed
  qed
  moreover have "tokr StringTok start s (Some (scan_triple_string start quote prefix ?t))"
    "tokr StringTok start s (Some (scan_single_line_string start quote prefix ?t))"
    unfolding scan_triple_string_def scan_single_line_string_def
    using adv tokr_triple_loop tokr_single_line_loop tokr_back by blast+
  ultimately show ?thesis
    unfolding scan_string_def Let_def assms(1) option.case by (intro tokr_if)
qed

end
