(* ===== verification/Lex_Contracts.thy ===== *)
theory Lex_Contracts
  imports Lex_Frame
begin

text \<open>
  The contract between \<open>next_token\<close> and the routines that read one literal, number or name:
  in a state that satisfies the dispatch's guard the routine returns, and on success it has
  consumed exactly the bytes of the token it returns and left the rest of the state alone.
  The contract is the locale \<open>token_scanner\<close>, interpreted on the three routines.
\<close>

section \<open>Numbers\<close>

lemma okr_verify_end_of_number: "okr s (Some (verify_end_of_number m s))"
  by (auto simp: verify_end_of_number_def Let_def advances_warning split: option.split)

lemma okr_radix_run: "okr s (Some (radix_run valid lm rn hex anyd s))"
proof (induction valid lm rn hex anyd s rule: radix_run.induct)
  case (1 valid lm rn hex anyd s)
  show ?case
  proof (cases "peek s")
    case None
    then show ?thesis by (simp add: radix_run.simps [of _ _ _ _ _ s])
  next
    case (Some b)
    have adv: "advances s (advance 1 s)" using Some by (rule advances_1)
    have digit: "okr s (Some (radix_run valid lm rn hex True (advance 1 s)))"
      if "b \<noteq> CHR ''_''" "valid b"
      using adv 1(2) [OF Some that] by (rule okr_back)
    have under: "okr s (Some (radix_run valid lm rn hex anyd (advance 1 s)))"
      if "b = CHR ''_''" "peek (advance 1 s) = Some c" "valid c" for c
      using adv 1(1) [OF Some that(1) refl that(2,3)] by (rule okr_back)
    show ?thesis using Some digit under
      by (auto simp: radix_run.simps [of _ _ _ _ _ s] Let_def split: option.split)
  qed
qed

lemma okr_digit_run: "okr s (Some (digit_run anyd s))"
proof (induction anyd s rule: digit_run.induct)
  case (1 anyd s)
  show ?case
  proof (cases "peek s")
    case None
    then show ?thesis by (simp add: digit_run.simps [of _ s])
  next
    case (Some b)
    have adv: "advances s (advance 1 s)" using Some by (rule advances_1)
    have digit: "okr s (Some (digit_run True (advance 1 s)))" if "is_ascii_digit b"
      using adv 1(1) [OF Some that] by (rule okr_back)
    have under: "okr s (Some (digit_run anyd (advance 1 s)))"
      if "\<not> is_ascii_digit b" "b = CHR ''_'' \<and> anyd" "peek (advance 1 s) = Some c" "is_ascii_digit c" for c
      using adv 1(2) [OF Some that(1,2) refl that(3,4)] by (rule okr_back)
    show ?thesis using Some digit under
      by (auto simp: digit_run.simps [of _ s] Let_def split: option.split)
  qed
qed

lemma digit_run_progress:
  assumes "peek s = Some b" "is_ascii_digit b" "consume_digit_run s = (Inr v, t)"
  shows "pos s < pos t"
proof -
  have "digit_run True (advance 1 s) = (Inr v, t)"
    using assms by (simp add: consume_digit_run_def digit_run.simps [of _ s])
  then have "advances (advance 1 s) t"
    using okr_digit_run [of "advance 1 s" True] by (simp only: okr_simps)
  then show ?thesis using advances_pos by fastforce
qed

lemma okr_consume_digit_run: "okr s (Some (consume_digit_run s))"
  by (simp add: consume_digit_run_def okr_digit_run)

lemma okr_scan_fraction: "okr s (Some (scan_fraction s))"
  unfolding scan_fraction_def
  by (auto intro!: okr_and_then okr_back [OF advances_1 okr_consume_digit_run] simp del: One_nat_def)

lemma okr_scan_exponent: "okr s (Some (scan_exponent is_float s))"
proof (cases "peek s = Some (CHR ''e'') \<or> peek s = Some (CHR ''E'')")
  case True
  then obtain b where b: "peek s = Some b" by blast
  define signed where "signed = (peek (advance 1 s) = Some (CHR ''+'') \<or> peek (advance 1 s) = Some (CHR ''-''))"
  define t where "t = (if signed then advance 1 (advance 1 s) else advance 1 s)"
  have "advances (advance 1 s) t"
    using advances_1 [of "advance 1 s"] by (auto simp: t_def signed_def)
  then have adv: "advances s t" using advances_trans [OF advances_1 [OF b]] by blast
  have rewind: "t\<lparr>pos := pos s\<rparr> = s" by (simp add: t_def)
  have run: "okr s (Some (and_then (consume_digit_run t) (\<lambda>_ s3. (Inr True, s3))))"
    by (intro okr_and_then okr_back [OF adv okr_consume_digit_run]) simp
  have "scan_exponent is_float s =
     (if peek_digit t then and_then (consume_digit_run t) (\<lambda>_ s3. (Inr True, s3))
      else if signed then (Inl (InvalidNumber (as_u32 (pos t - 1)) invalid_decimal), t)
      else (Inr is_float, t\<lparr>pos := pos s\<rparr>))"
    using True by (simp only: scan_exponent_def Let_def signed_def t_def if_True)
  then show ?thesis using run rewind by simp
next
  case False
  then show ?thesis by (simp add: scan_exponent_def)
qed

text \<open>\<open>wtok\<close>: the token contract without the progress.\<close>

definition wtok :: "token_kind \<Rightarrow> usize \<Rightarrow> scanner \<Rightarrow> token fuel_result \<Rightarrow> bool" where
  "wtok k a s r \<longleftrightarrow> okr s r \<and> (\<forall>t u. r = Some (Inr t, u) \<longrightarrow> t = mk_token k a (pos u))"

lemma wtok_Err: "wtok k a s (Some (Inl e, t))"
  by (simp add: wtok_def)

lemma wtok_Ret: "advances s t \<Longrightarrow> wtok k a s (Some (Inr (mk_token k a (pos t)), t))"
  by (simp add: wtok_def)

lemma wtok_if: "(P \<Longrightarrow> wtok k a s x) \<Longrightarrow> (\<not> P \<Longrightarrow> wtok k a s y) \<Longrightarrow> wtok k a s (if P then x else y)"
  by simp

lemma wtok_back: "advances s t \<Longrightarrow> wtok k a t r \<Longrightarrow> wtok k a s r"
  using okr_back by (auto simp: wtok_def)

lemma wtok_and_then:
  assumes "okr s (Some r)" "\<And>x t. r = (Inr x, t) \<Longrightarrow> wtok k a t (Some (f x t))"
  shows "wtok k a s (Some (and_then r f))"
proof (cases r)
  case (Pair v t)
  then show ?thesis using assms wtok_back [of s t] by (cases v) (auto simp: wtok_Err)
qed

lemma tokr_wtok: "advances s t \<Longrightarrow> pos s < pos t \<Longrightarrow> wtok k a t r \<Longrightarrow> tokr k a s r"
  using okr_back [of s t r] by (auto simp: wtok_def tokr_def dest!: advances_pos)

lemma wtok_verify:
  "wtok Number a s (Some (and_then (verify_end_of_number m s)
     (\<lambda>_ s2. (Inr (mk_token Number a (pos s2)), s2))))"
  by (intro wtok_and_then okr_verify_end_of_number wtok_Ret) simp

lemma tokr_radix_number:
  assumes "peek_at s 1 = Some d"
  shows "tokr Number (pos s) s (Some (scan_radix_number c s))"
proof -
  obtain valid lm rn where r: "radix_of c = (valid, lm, rn)" by (metis prod_cases3)
  show ?thesis
    unfolding scan_radix_number_def Let_def r prod.case if_distrib [where f = Some]
    by (rule tokr_wtok [OF advances_2 [OF assms]], simp, rule wtok_and_then [OF okr_radix_run])
       (auto intro!: wtok_if wtok_verify wtok_Err)
qed

text \<open>What follows the integer part and the fraction of a decimal literal.\<close>

lemma wtok_decimal_rest:
  "wtok Number a s (Some (and_then (scan_exponent is_float s) (\<lambda>is_float s3.
      let is_imaginary = (peek s3 = Some (CHR ''j'') \<or> peek s3 = Some (CHR ''J''));
          s4 = (if is_imaginary then advance 1 s3 else s3)
      in if \<not> is_float \<and> \<not> is_imaginary \<and> has_leading_zero (slice (src s4) a int_end)
         then (Inl (InvalidNumber (as_u32 a) leading_zeros), s4)
         else and_then (verify_end_of_number
                (if is_imaginary then ''invalid imaginary literal'' else invalid_decimal) s4)
              (\<lambda>_ s5. (Inr (mk_token Number a (pos s5)), s5)))))"
proof (rule wtok_and_then [OF okr_scan_exponent])
  fix is_float t
  define im where "im = (peek t = Some (CHR ''j'') \<or> peek t = Some (CHR ''J''))"
  define u where "u = (if im then advance 1 t else t)"
  have adv: "advances t u" using advances_1 [of t] by (auto simp: u_def im_def)
  show "wtok Number a t (Some (let is_imaginary = (peek t = Some (CHR ''j'') \<or> peek t = Some (CHR ''J''));
          s4 = (if is_imaginary then advance 1 t else t)
      in if \<not> is_float \<and> \<not> is_imaginary \<and> has_leading_zero (slice (src s4) a int_end)
         then (Inl (InvalidNumber (as_u32 a) leading_zeros), s4)
         else and_then (verify_end_of_number
                (if is_imaginary then ''invalid imaginary literal'' else invalid_decimal) s4)
              (\<lambda>_ s5. (Inr (mk_token Number a (pos s5)), s5))))"
    unfolding im_def [symmetric] Let_def u_def [symmetric] if_distrib [where f = Some]
    by (intro wtok_back [OF adv] wtok_if wtok_verify wtok_Err)
qed

lemma tokr_decimal_number:
  assumes "peek s = Some b" "starts_number b s"
  shows "tokr Number (pos s) s (Some (scan_decimal_number s))"
proof (cases "is_ascii_digit b")
  case True
  show ?thesis
  proof (cases "consume_digit_run s")
    case (Pair v t)
    show ?thesis
    proof (cases v)
      case (Inl e)
      then show ?thesis using Pair by (simp add: scan_decimal_number_def)
    next
      case (Inr x)
      then have "advances s t" "pos s < pos t"
        using okr_consume_digit_run [of s] digit_run_progress [OF assms(1) True] Pair by simp_all
      then show ?thesis
        unfolding scan_decimal_number_def Pair Inr Let_def [of "pos s"] and_then_simps
        by (rule tokr_wtok)
           (simp only: Let_def [of "pos t"], rule wtok_and_then [OF okr_scan_fraction wtok_decimal_rest])
    qed
  qed
next
  case False
  then have dot: "b = CHR ''.''" using assms(2) by (simp add: starts_number_def)
  then have run: "consume_digit_run s = (Inr False, s)"
    using assms(1) False by (simp add: consume_digit_run_def digit_run.simps [of _ s])
  have frac: "scan_fraction s = and_then (consume_digit_run (advance 1 s)) (\<lambda>_ s1. (Inr True, s1))"
    using assms(1) dot by (simp add: scan_fraction_def)
  have ok: "okr (advance 1 s) (Some (and_then (consume_digit_run (advance 1 s)) (\<lambda>_ s1. (Inr True, s1 :: scanner))))"
    by (intro okr_and_then okr_consume_digit_run) simp
  show ?thesis
    unfolding scan_decimal_number_def run Let_def [of "pos s"] and_then_simps frac
    by (rule tokr_wtok [OF advances_1 [OF assms(1)]], simp, rule wtok_and_then [OF ok wtok_decimal_rest])
qed

lemma tokr_scan_number:
  assumes "peek s = Some b" "starts_number b s"
  shows "tokr Number (pos s) s (Some (scan_number s))"
  using tokr_decimal_number [OF assms] tokr_radix_number [of s]
  by (auto simp: scan_number_def split: option.split)

section \<open>Names and keywords\<close>

lemma okr_ident_run:
  assumes "pos s \<le> length (src s)"
  shows "okr s (Some (ident_run E s))"
  using assms
proof (induction E s rule: ident_run.induct)
  case (1 E s)
  show ?case
  proof (cases "peek s")
    case None
    then show ?thesis by (simp add: ident_run.simps [of _ s])
  next
    case (Some b)
    have lt: "pos s < length (src s)" using Some by (simp add: peek_Some_iff)
    have ascii: "okr s (Some (ident_run E (advance 1 s)))" if "is_ascii_alphanumeric b \<or> b = CHR ''_''"
      using advances_1 [OF Some] 1(1) [OF Some that] lt by (intro okr_back [of s "advance 1 s"]) simp_all
    have uni: "okr s (Some (ident_run E (advance w s)))"
      if "\<not> (is_ascii_alphanumeric b \<or> b = CHR ''_'')" "128 \<le> byte b"
        "decode_utf8 (drop (pos s) (src s)) = Some (ch, w)" "is_xid_continue E ch" for ch w
    proof -
      have w: "0 < w" "pos s + w \<le> length (src s)"
        using decode_utf8_width [OF that(3)] lt by (simp, simp, linarith)
      then have "advances s (advance w s)" by (intro advances_pos_update) simp_all
      moreover have "okr (advance w s) (Some (ident_run E (advance w s)))"
        using 1(2) [OF Some that(1,2,3) refl that(4)] w by simp
      ultimately show ?thesis by (rule okr_back)
    qed
    show ?thesis using Some ascii uni
      by (auto simp: ident_run.simps [of _ s] split: option.split)
  qed
qed

text \<open>
  What the dispatch has checked before it calls \<open>scan_ident_or_prefixed_string\<close>. Progress on
  a non-ASCII name needs what the Unicode standard says of its two tables: a character that
  may start an identifier may continue one.
\<close>

definition xid_sound :: "lex_env \<Rightarrow> bool" where
  "xid_sound E \<longleftrightarrow> (\<forall>c. is_xid_start E c \<longrightarrow> is_xid_continue E c)"

definition starts_ident :: "lex_env \<Rightarrow> scanner \<Rightarrow> bool" where
  "starts_ident E s = (case peek s of
      Some b \<Rightarrow> is_ident_start b \<or> (128 \<le> byte b \<and> starts_xid E s) | None \<Rightarrow> False)"

lemma ident_run_progress:
  assumes "xid_sound E" "starts_ident E s" "pos s < length (src s)" "ident_run E s = (Inr v, t)"
  shows "pos s < pos t"
proof -
  obtain b where b: "peek s = Some b" using assms(2) by (auto simp: starts_ident_def split: option.splits)
  consider (ascii) "is_ascii_alphanumeric b \<or> b = CHR ''_''"
    | (uni) "\<not> (is_ascii_alphanumeric b \<or> b = CHR ''_'')" "128 \<le> byte b" "starts_xid E s"
    using assms(2) b by (auto simp: starts_ident_def is_ident_start_def is_ascii_alphanumeric_def)
  then show ?thesis
  proof cases
    case ascii
    then have "ident_run E (advance 1 s) = (Inr v, t)"
      using assms(4) b by (simp add: ident_run.simps [of _ s])
    then have "advances (advance 1 s) t"
      using okr_ident_run [of "advance 1 s" E] assms(3) by (simp add: Suc_le_eq)
    then show ?thesis using advances_pos by fastforce
  next
    case uni
    then obtain ch w where cw: "decode_utf8 (drop (pos s) (src s)) = Some (ch, w)" "is_xid_start E ch"
      by (auto simp: starts_xid_def split: option.splits)
    have w: "0 < w" "pos s + w \<le> length (src s)"
      using decode_utf8_width [OF cw(1)] assms(3) by (simp, simp, linarith)
    have "ident_run E (advance w s) = (Inr v, t)"
      using assms(1,4) b uni cw by (simp add: ident_run.simps [of _ s] xid_sound_def)
    then have "advances (advance w s) t"
      using okr_ident_run [of "advance w s" E] w by simp
    then show ?thesis using advances_pos w(1) by fastforce
  qed
qed

lemma wtok_ident_token: "\<exists>k. k \<in> insert Name (range Keyword) \<and> wtok k a s (Some (ident_token a s))"
proof -
  define k where "k = (case keyword_from_ident (slice (src s) a (pos s)) of Some kw \<Rightarrow> Keyword kw | None \<Rightarrow> Name)"
  have "k \<in> insert Name (range Keyword)" by (simp add: k_def split: option.split)
  moreover have "wtok k a s (Some (ident_token a s))"
    unfolding ident_token_def Let_def k_def [symmetric] if_distrib [where f = Some]
    by (intro wtok_if wtok_Err wtok_Ret advances_refl)
  ultimately show ?thesis by blast
qed

definition ident_kinds :: "token_kind set" where
  "ident_kinds = insert StringTok (insert Name (range Keyword))"

lemma tokr_scan_ident:
  assumes "xid_sound E" "starts_ident E s" "fs_sane s"
  shows "\<exists>k \<in> ident_kinds. tokr k (pos s) s (scan_ident_or_prefixed_string E s)"
proof -
  have le: "pos s < length (src s)"
    using assms(2) by (auto simp: starts_ident_def peek_Some_iff split: option.splits)
  obtain v t where run: "ident_run E s = (v, t)" by fastforce
  show ?thesis
  proof (cases v)
    case (Inl e)
    then have "tokr Name (pos s) s (scan_ident_or_prefixed_string E s)"
      by (simp add: scan_ident_or_prefixed_string_def Let_def fuel_then_def run)
    then show ?thesis by (auto simp: ident_kinds_def)
  next
    case (Inr x)
    have adv: "advances s t" "pos s < pos t"
      using okr_ident_run [of s E] ident_run_progress [OF assms(1,2) le] le run Inr by simp_all
    obtain k where k: "k \<in> insert Name (range Keyword)" "wtok k (pos s) t (Some (ident_token (pos s) t))"
      using wtok_ident_token by blast
    have tok: "tokr k (pos s) s (Some (ident_token (pos s) t))" using adv k(2) by (rule tokr_wtok)
    have str: "tokr StringTok (pos s) s (scan_string (lang_preview E) (pos s) p t)"
      if "peek t = Some q" for p q
      using adv(1) tokr_scan_string [OF that fs_sane_advances [OF adv(1) assms(3)]] by (rule tokr_back)
    show ?thesis
    proof (cases "\<exists>q p. peek t = Some q \<and> scan_ident_or_prefixed_string E s
        = scan_string (lang_preview E) (pos s) p t")
      case True
      then show ?thesis using str by (auto simp: ident_kinds_def)
    next
      case False
      then have "scan_ident_or_prefixed_string E s = Some (ident_token (pos s) t)
        \<or> (\<exists>e. scan_ident_or_prefixed_string E s = Some (Inl e, t))"
        using Inr run by (auto simp: scan_ident_or_prefixed_string_def Let_def fuel_then_def
            split: if_splits option.splits)
      then show ?thesis using tok k(1) by (auto simp: ident_kinds_def)
    qed
  qed
qed

section \<open>The contract\<close>

locale token_scanner =
  fixes scan :: "scanner \<Rightarrow> token fuel_result"
    and starts :: "scanner \<Rightarrow> bool"
    and kinds :: "token_kind set"
  assumes contract: "starts s \<Longrightarrow> fs_sane s \<Longrightarrow> \<exists>k \<in> kinds. tokr k (pos s) s (scan s)"
begin

lemma returns: "starts s \<Longrightarrow> fs_sane s \<Longrightarrow> \<exists>r t. scan s = Some (r, t)"
  using contract [of s] tokr_not_None [of _ "pos s" s "scan s"] by (cases "scan s") auto

lemma one_token:
  assumes "starts s" "fs_sane s" "scan s = Some (Inr t, u)"
  shows "\<exists>k \<in> kinds. t = mk_token k (pos s) (pos u) \<and> advances s u \<and> pos s < pos u"
  using contract [OF assms(1,2)] tokr_D [OF _ assms(3)] by meson

end

definition starts_string :: "scanner \<Rightarrow> bool" where
  "starts_string s \<longleftrightarrow> peek s = Some c_dq \<or> peek s = Some c_sq"

definition starts_numeric :: "scanner \<Rightarrow> bool" where
  "starts_numeric s = (case peek s of Some b \<Rightarrow> starts_number b s | None \<Rightarrow> False)"

interpretation string_scanner: token_scanner
  "\<lambda>s. scan_string lp (pos s) string_prefix_default s" starts_string "{StringTok}" for lp
  by standard (auto simp: starts_string_def intro: tokr_scan_string)

interpretation number_scanner: token_scanner
  "\<lambda>s. Some (scan_number s)" starts_numeric "{Number}"
  by standard (auto simp: starts_numeric_def intro: tokr_scan_number split: option.splits)

interpretation ident_scanner: token_scanner
  "scan_ident_or_prefixed_string E" "\<lambda>s. xid_sound E \<and> starts_ident E s" ident_kinds for E
  by standard (auto intro: tokr_scan_ident)

end
