(* ===== verification/Lex_Steps.thy ===== *)
theory Lex_Steps
  imports Lex_Contracts
begin

text \<open>
  The tokenizer as a state machine. \<open>lex_step s o t\<close> is one move of the scanner, silent
  (\<open>o = None\<close>) or emitting a token; every successful call of \<open>next_token\<close> is a sequence of
  silent moves and one last move. \<open>lex_reach\<close> are the states the tokenizer's loop reaches,
  with the tokens emitted so far; the invariants of the machine are proved by induction on it.
\<close>

section \<open>The invariant of the state\<close>

definition scanner_inv :: "scanner \<Rightarrow> bool" where
  "scanner_inv s \<longleftrightarrow> pos s \<le> length (src s)
     \<and> indents s \<noteq> [] \<and> hd (indents s) = 0 \<and> sorted_wrt (<) (indents s)
     \<and> alt_indents s \<noteq> [] \<and> hd (alt_indents s) = 0 \<and> sorted_wrt (<) (alt_indents s)
     \<and> length (alt_indents s) = length (indents s) \<and> length (indents s) \<le> MAXINDENT
     \<and> paren_depth s = length (open_brackets s) \<and> length (open_brackets s) \<le> MAXLEVEL
     \<and> (\<forall>(b, p) \<in> set (open_brackets s). map_of open_table b \<noteq> None \<and> p < pos s)
     \<and> (at_line_start s \<longrightarrow> paren_depth s = 0)
     \<and> fstring_level s = 0 \<and> fstring_kinds s = []
     \<and> (\<forall>w. pending_indent s = Some w \<longrightarrow> w \<le> pos s)"

lemma scanner_inv_new: "scanner_inv (scanner_new source)"
  by (simp add: scanner_inv_def scanner_new_def MAXINDENT_def MAXLEVEL_def)

lemma scanner_inv_sane: "scanner_inv s \<Longrightarrow> fs_sane s"
  by (simp add: scanner_inv_def fs_sane_def)

section \<open>Layout\<close>

definition layout_byte :: "u8 \<Rightarrow> bool" where
  "layout_byte b \<longleftrightarrow> is_blank b \<or> b = c_bs \<or> b = c_cr \<or> b = c_lf"

text \<open>The bytes from the cursor to \<open>p\<close> are layout.\<close>

definition gap :: "scanner \<Rightarrow> usize \<Rightarrow> bool" where
  "gap s p \<longleftrightarrow> pos s \<le> p \<and> p \<le> length (src s) \<and> (\<forall>i. pos s \<le> i \<and> i < p \<longrightarrow> layout_byte (src s ! i))"

definition idle :: "scanner \<Rightarrow> bool" where
  "idle s \<longleftrightarrow> \<not> finished s \<and> pending_indent s = None \<and> pending_dedents s = 0"

definition dispatching :: "scanner \<Rightarrow> bool" where
  "dispatching s \<longleftrightarrow> idle s \<and> \<not> at_line_start s"

definition plain_kind :: "token_kind \<Rightarrow> bool" where
  "plain_kind k \<longleftrightarrow> is_content k \<and> k \<notin> {LPar, RPar, LSqb, RSqb, LBrace, RBrace}"

section \<open>The moves\<close>

inductive lex_step :: "scanner \<Rightarrow> token option \<Rightarrow> scanner \<Rightarrow> bool" where
  take_indent: "\<not> finished s \<Longrightarrow> pending_indent s = Some w
     \<Longrightarrow> lex_step s (Some (mk_token Indent w (pos s))) (s\<lparr>pending_indent := None\<rparr>)"
| take_dedent: "\<not> finished s \<Longrightarrow> pending_indent s = None \<Longrightarrow> pending_dedents s > 0
     \<Longrightarrow> lex_step s (Some (mk_token Dedent (pos s) (pos s)))
           (s\<lparr>pending_dedents := pending_dedents s - 1\<rparr>)"
| line_blank: "idle s \<Longrightarrow> at_line_start s \<Longrightarrow> gap s p
     \<Longrightarrow> lex_step s None (s\<lparr>pos := p, at_line_start := False\<rparr>)"
| line_indent: "idle s \<Longrightarrow> at_line_start s \<Longrightarrow> gap s p \<Longrightarrow> pos s < p
     \<Longrightarrow> indent_scan (drop (pos s) (src s)) 0 0 (pos s) = (i, a, p)
     \<Longrightarrow> last (indents s) < i \<Longrightarrow> last (alt_indents s) < a \<Longrightarrow> length (indents s) < MAXINDENT
     \<Longrightarrow> lex_step s None (s\<lparr>pos := p, indents := indents s @ [i], alt_indents := alt_indents s @ [a],
           pending_indent := Some (pos s), at_line_start := False\<rparr>)"
| line_dedent: "idle s \<Longrightarrow> at_line_start s \<Longrightarrow> gap s p
     \<Longrightarrow> indent_scan (drop (pos s) (src s)) 0 0 (pos s) = (i, a, p)
     \<Longrightarrow> i < last (indents s) \<Longrightarrow> 0 < n \<Longrightarrow> n < length (indents s)
     \<Longrightarrow> xs = take (length (indents s) - n) (indents s)
     \<Longrightarrow> ys = take (length (indents s) - n) (alt_indents s) \<Longrightarrow> last xs = i \<Longrightarrow> last ys = a
     \<Longrightarrow> lex_step s None (s\<lparr>pos := p, indents := xs, alt_indents := ys,
           pending_dedents := n, at_line_start := False\<rparr>)"
| line_same: "idle s \<Longrightarrow> at_line_start s \<Longrightarrow> gap s p
     \<Longrightarrow> indent_scan (drop (pos s) (src s)) 0 0 (pos s) = (i, a, p)
     \<Longrightarrow> last (indents s) = i \<Longrightarrow> last (alt_indents s) = a
     \<Longrightarrow> lex_step s None (s\<lparr>pos := p, at_line_start := False\<rparr>)"
| skip: "dispatching s \<Longrightarrow> gap s p \<Longrightarrow> pos s < p \<Longrightarrow> lex_step s None (s\<lparr>pos := p\<rparr>)"
| plain: "dispatching s \<Longrightarrow> plain_kind k \<Longrightarrow> advances s t \<Longrightarrow> pos s < pos t
     \<Longrightarrow> lex_step s (Some (mk_token k (pos s) (pos t))) t"
| bracket_open: "dispatching s \<Longrightarrow> peek s = Some b \<Longrightarrow> map_of open_table b = Some k
     \<Longrightarrow> length (open_brackets s) < MAXLEVEL
     \<Longrightarrow> lex_step s (Some (mk_token k (pos s) (pos s + 1)))
           (s\<lparr>paren_depth := paren_depth s + 1,
              open_brackets := open_brackets s @ [(b, pos s)], pos := pos s + 1\<rparr>)"
| bracket_close: "dispatching s \<Longrightarrow> peek s = Some b \<Longrightarrow> map_of close_table b = Some k
     \<Longrightarrow> open_brackets s = bs @ [(opener, p)] \<Longrightarrow> b = close_of opener
     \<Longrightarrow> lex_step s (Some (mk_token k (pos s) (pos s + 1)))
           (s\<lparr>paren_depth := paren_depth s - 1, open_brackets := bs, pos := pos s + 1\<rparr>)"
| newline: "dispatching s \<Longrightarrow> paren_depth s = 0 \<Longrightarrow> gap s q \<Longrightarrow> pos s < q \<Longrightarrow> pos s \<le> a \<Longrightarrow> a \<le> q
     \<Longrightarrow> lex_step s (Some (mk_token Newline a q)) (s\<lparr>pos := q, at_line_start := True\<rparr>)"
| nl: "dispatching s \<Longrightarrow> paren_depth s > 0 \<Longrightarrow> gap s q \<Longrightarrow> pos s < q \<Longrightarrow> pos s \<le> a \<Longrightarrow> a \<le> q
     \<Longrightarrow> lex_step s (Some (mk_token Nl a q)) (s\<lparr>pos := q\<rparr>)"
| eof_newline: "dispatching s \<Longrightarrow> peek s = None \<Longrightarrow> paren_depth s = 0 \<Longrightarrow> last_was_content s
     \<Longrightarrow> lex_step s (Some (mk_token Newline (pos s) (pos s))) (s\<lparr>last_was_content := False\<rparr>)"
| eof_dedent: "dispatching s \<Longrightarrow> peek s = None \<Longrightarrow> paren_depth s = 0 \<Longrightarrow> \<not> last_was_content s
     \<Longrightarrow> length (indents s) > 1
     \<Longrightarrow> lex_step s (Some (mk_token Dedent (pos s) (pos s)))
           (s\<lparr>pending_dedents := length (indents s) - 2, indents := take 1 (indents s),
              alt_indents := take 1 (alt_indents s)\<rparr>)"
| endmarker: "dispatching s \<Longrightarrow> peek s = None \<Longrightarrow> open_brackets s = [] \<Longrightarrow> \<not> last_was_content s
     \<Longrightarrow> length (indents s) = 1
     \<Longrightarrow> lex_step s (Some (mk_token Endmarker (pos s) (pos s))) (s\<lparr>finished := True\<rparr>)"

inductive_simps lex_step_silent: "lex_step s None t"
inductive_simps lex_step_emit: "lex_step s (Some k) t"

text \<open>Silent moves, then the last one.\<close>

inductive lex_call :: "scanner \<Rightarrow> token option \<Rightarrow> scanner \<Rightarrow> bool" where
  last: "lex_step s out t \<Longrightarrow> lex_call s out t"
| silent: "lex_step s None t \<Longrightarrow> lex_call t out u \<Longrightarrow> lex_call s out u"

section \<open>Moves keep the invariant\<close>

lemma sorted_wrt_take: "sorted_wrt P xs \<Longrightarrow> sorted_wrt P (take n xs)"
  by (metis append_take_drop_id sorted_wrt_append)

lemma sorted_wrt_snoc_less:
  "sorted_wrt (<) xs \<Longrightarrow> last xs < (x :: nat) \<Longrightarrow> sorted_wrt (<) (xs @ [x])"
  by (induction xs) (auto split: if_splits simp: last_in_set intro: less_trans)

lemma hd_take: "0 < n \<Longrightarrow> xs \<noteq> [] \<Longrightarrow> hd (take n xs) = hd xs"
  by (cases xs; cases n) simp_all

lemma lex_step_src: "lex_step s out t \<Longrightarrow> src t = src s"
  by (induction rule: lex_step.induct) (simp_all add: advances_src)

lemma lex_step_inv:
  assumes "lex_step s out t" "scanner_inv s"
  shows "scanner_inv t"
  using assms
proof (induction rule: lex_step.induct)
  case (line_indent s p i a)
  then show ?case
    by (auto simp: scanner_inv_def gap_def idle_def sorted_wrt_snoc_less split: prod.splits)
next
  case (line_dedent s p i a n xs ys)
  then show ?case
    by (auto simp: scanner_inv_def gap_def idle_def sorted_wrt_take hd_take split: prod.splits)
next
  case (plain s k t)
  then obtain p ws f where "t = s\<lparr>pos := p, escape_warnings := ws, outer_field_start := f\<rparr>" "pos s < p"
      "p \<le> length (src s)"
    by (auto elim!: advancesE simp: scanner_inv_def)
  then show ?case using plain by (auto simp: scanner_inv_def dispatching_def idle_def)
qed (auto simp: scanner_inv_def gap_def idle_def dispatching_def peek_Some_iff sorted_wrt_take
      hd_take split: prod.splits)

section \<open>The loops of a line start\<close>

lemma indent_scan_facts:
  assumes "indent_scan bs i a p = (i', a', q)"
  shows "p \<le> q \<and> q \<le> p + length bs \<and> (\<forall>j < q - p. is_blank (bs ! j)) \<and> (q = p \<longrightarrow> i' = i)"
  using assms
proof (induction bs i a p rule: indent_scan.induct)
  case (1 i a p)
  then show ?case by simp
next
  case (2 b bs i a p)
  have shift: "\<forall>j < q - p. is_blank ((b # bs) ! j)"
    if "\<forall>j < q - Suc p. is_blank (bs ! j)" "is_blank b"
    using that by (auto simp: nth_Cons split: nat.split)
  have step: ?case if "indent_scan bs i1 a1 (p + 1) = (i', a', q)" "is_blank b"
      "p + 1 \<le> q \<and> q \<le> p + 1 + length bs \<and> (\<forall>j < q - (p + 1). is_blank (bs ! j))
         \<and> (q = p + 1 \<longrightarrow> i' = i1)" for i1 a1
    using that(3) shift [OF _ that(2)] by simp
  consider (sp) "b = CHR '' ''" | (tab) "b = c_tab" | (ff) "b = c_ff"
    | (other) "b \<noteq> CHR '' ''" "b \<noteq> c_tab" "b \<noteq> c_ff" by blast
  then show ?case
  proof cases
    case sp
    then show ?thesis using 2(1,4) step by (simp add: is_blank_def)
  next
    case tab
    then show ?thesis using 2(2,4) step by (simp add: is_blank_def)
  next
    case ff
    then show ?thesis using 2(3,4) step by (simp add: is_blank_def)
  next
    case other
    then show ?thesis using 2(4) by simp
  qed
qed

lemma indent_scan_gap:
  assumes "indent_scan (drop (pos s) (src s)) 0 0 (pos s) = (i, a, p)" "pos s \<le> length (src s)"
  shows "gap s p" "0 < i \<Longrightarrow> pos s < p"
proof -
  note f = indent_scan_facts [OF assms(1)]
  have "layout_byte (src s ! j)" if "pos s \<le> j" "j < p" for j
  proof -
    have "is_blank (drop (pos s) (src s) ! (j - pos s))" using f that by simp
    then show ?thesis using that assms(2) by (simp add: layout_byte_def)
  qed
  then show "gap s p" using f assms(2) by (auto simp: gap_def)
  show "0 < i \<Longrightarrow> pos s < p" using f by (auto simp: le_less)
qed

lemma after_cr_cases:
  "after_cr bytes q = q \<or> (after_cr bytes q = q + 1 \<and> slice_get bytes q = Some c_cr)"
  by (simp add: after_cr_def)

lemma blank_join_probe_gap:
  assumes "blank_join_probe bytes p = Inr (Some r)"
  shows "p \<le> r \<and> r < length bytes \<and> (\<forall>i. p \<le> i \<and> i < r \<longrightarrow> layout_byte (bytes ! i))"
  using assms
proof (induction bytes p rule: blank_join_probe.induct)
  case (1 bytes p)
  define q where "q = after_cr bytes (p + 1)"
  define p' where "p' = skip_while is_blank bytes (q + 1)"
  have bs: "slice_get bytes p = Some c_bs" and eof: "eof_after bytes p = None"
    and lf: "slice_get bytes q = Some c_lf"
    using 1(2) by (auto simp: q_def Let_def split: if_splits option.splits)
  obtain b where b: "slice_get bytes p' = Some b"
    using 1(2) bs eof lf by (auto simp: q_def p'_def Let_def split: if_splits option.splits)
  have q: "p < q" "q < p'" "\<forall>i. p \<le> i \<and> i < q + 1 \<longrightarrow> layout_byte (bytes ! i)"
    using after_cr_cases [of bytes "p + 1"] bs lf skip_while_ge [of "q + 1" is_blank bytes]
    by (auto simp: q_def p'_def slice_get_Some_iff layout_byte_def le_less Suc_le_eq not_less)
       (metis Suc_lessI less_antisym not_less_iff_gr_or_eq)+
  have blanks: "\<forall>i. q + 1 \<le> i \<and> i < p' \<longrightarrow> layout_byte (bytes ! i)"
    using skip_while_all [of "q + 1" _ is_blank bytes] by (auto simp: p'_def layout_byte_def)
  have gap': "\<forall>i. p \<le> i \<and> i < p' \<longrightarrow> layout_byte (bytes ! i)"
    using q(3) blanks by (meson not_less)
  have lt: "p' < length bytes" using b by (simp add: slice_get_Some_iff)
  have eq: "blank_join_probe bytes p = (if b = c_lf \<or> b = c_cr \<or> b = CHR ''#'' then Inr (Some p')
      else if b = c_bs then blank_join_probe bytes p' else Inr None)"
    using bs eof lf b unfolding q_def p'_def by (subst blank_join_probe.simps) (simp add: Let_def)
  show ?case
  proof (cases "b = c_lf \<or> b = c_cr \<or> b = CHR ''#''")
    case True
    then have "r = p'" using 1(2) by (simp only: eq if_True sum.inject option.inject)
    then show ?thesis using q gap' lt by simp
  next
    case False
    then have "b = c_bs" and rec: "blank_join_probe bytes p' = Inr (Some r)"
      using 1(2) unfolding eq by (simp_all split: if_splits del: blank_join_probe.simps)
    then have "p' \<le> r \<and> r < length bytes \<and> (\<forall>i. p' \<le> i \<and> i < r \<longrightarrow> layout_byte (bytes ! i))"
      using 1(1) [OF _ eof q_def _ p'_def b False] bs lf by (simp add: q_def p'_def)
    then show ?thesis using q gap' by (meson le_less_trans less_imp_le not_less order_trans)
  qed
qed

lemma dedent_loop_facts:
  assumes "dedent_loop i xs ys n = (xs', ys', m)" "xs \<noteq> []" "hd xs \<le> i" "length ys = length xs"
  shows "\<exists>k. m = n + k \<and> k < length xs \<and> xs' = take (length xs - k) xs
    \<and> ys' = take (length xs - k) ys \<and> (i < last xs \<longrightarrow> 0 < k)"
  using assms
proof (induction i xs ys n rule: dedent_loop.induct)
  case (1 i xs ys n)
  show ?case
  proof (cases "i < last xs")
    case True
    then have ne: "butlast xs \<noteq> []" "hd (butlast xs) = hd xs"
      using 1(3,4) by (cases xs; cases "tl xs"; auto)+
    have rec: "dedent_loop i (butlast xs) (butlast ys) (n + 1) = (xs', ys', m)"
      using 1(2,3) True by simp
    have "\<exists>k. m = n + 1 + k \<and> k < length (butlast xs)
        \<and> xs' = take (length (butlast xs) - k) (butlast xs)
        \<and> ys' = take (length (butlast xs) - k) (butlast ys) \<and> (i < last (butlast xs) \<longrightarrow> 0 < k)"
      using 1(1) [OF _ rec ne(1)] 1(3-5) True ne by simp
    then obtain k where k: "m = n + 1 + k" "k < length xs - 1"
      "xs' = take (length xs - 1 - k) (butlast xs)" "ys' = take (length xs - 1 - k) (butlast ys)"
      by auto
    then show ?thesis using 1(5)
      by (intro exI [of _ "Suc k"]) (simp add: butlast_conv_take min_def)
  next
    case False
    then show ?thesis using 1(2-5) by (intro exI [of _ 0]) simp
  qed
qed

section \<open>\<open>next_token\<close> makes the moves\<close>

lemma indent_compare_step:
  assumes "scanner_inv s" "idle s" "at_line_start s"
    "indent_scan (drop (pos s) (src s)) 0 0 (pos s) = (i, a, p)"
    "indent_compare i a (pos s) (s\<lparr>pos := p\<rparr>) = (Inr u, t)"
  shows "lex_step s None t"
proof -
  have le: "pos s \<le> length (src s)" and ne: "indents s \<noteq> []" "hd (indents s) = 0"
    and len: "length (alt_indents s) = length (indents s)"
    using assms(1) by (simp_all add: scanner_inv_def)
  note gaps = indent_scan_gap [OF assms(4) le]
  consider (deeper) "last (indents s) < i" | (shallower) "i < last (indents s)"
    | (same) "last (indents s) = i" by linarith
  then show ?thesis
  proof cases
    case deeper
    then have "length (indents s) < MAXINDENT" "last (alt_indents s) < a"
      "t = s\<lparr>pos := p, indents := indents s @ [i], alt_indents := alt_indents s @ [a],
           pending_indent := Some (pos s), at_line_start := False\<rparr>"
      using assms(5) by (auto simp: indent_compare_def Let_def split: if_splits)
    then show ?thesis using deeper assms gaps by (auto intro: lex_step.line_indent)
  next
    case shallower
    obtain xs ys n where d: "dedent_loop i (indents s) (alt_indents s) 0 = (xs, ys, n)"
      by (metis prod_cases3)
    obtain k where k: "n = k" "k < length (indents s)" "xs = take (length (indents s) - k) (indents s)"
      "ys = take (length (indents s) - k) (alt_indents s)" "0 < k"
      using dedent_loop_facts [OF d ne(1) _ len] ne(2) shallower by auto
    have "last xs = i" "last ys = a"
      "t = s\<lparr>pos := p, indents := xs, alt_indents := ys, pending_dedents := n, at_line_start := False\<rparr>"
      using assms(5) shallower d
      by (auto simp: indent_compare_def Let_def split: if_splits simp del: dedent_loop.simps)
    then show ?thesis using shallower assms gaps k
      by (auto intro!: lex_step.line_dedent [where i = i and a = a and n = k])
  next
    case same
    then have "t = s\<lparr>pos := p, at_line_start := False\<rparr>" "last (alt_indents s) = a"
      using assms(5) by (auto simp: indent_compare_def Let_def split: if_splits)
    then show ?thesis using same assms gaps by (auto intro: lex_step.line_same)
  qed
qed

lemma gap_extend:
  assumes "gap s p" "p \<le> q" "q \<le> length (src s)" "\<forall>i. p \<le> i \<and> i < q \<longrightarrow> layout_byte (src s ! i)"
  shows "gap s q"
  unfolding gap_def
proof (intro conjI allI impI)
  show "pos s \<le> q" "q \<le> length (src s)" using assms by (simp_all add: gap_def)
  fix i
  assume "pos s \<le> i \<and> i < q"
  then show "layout_byte (src s ! i)"
    using assms(1,4) by (cases "i < p") (simp_all add: gap_def)
qed

lemma handle_line_start_step:
  assumes "scanner_inv s" "idle s" "at_line_start s" "handle_line_start s = (Inr u, t)"
  shows "lex_step s None t"
proof -
  obtain i a p where scan: "indent_scan (drop (pos s) (src s)) 0 0 (pos s) = (i, a, p)"
    by (metis prod_cases3)
  have le: "pos s \<le> length (src s)" using assms(1) by (simp add: scanner_inv_def)
  note gap = indent_scan_gap(1) [OF scan le]
  note compare = indent_compare_step [OF assms(1-3) scan]
  have blank: "lex_step s None (s\<lparr>pos := q, at_line_start := False\<rparr>)" if "gap s q" for q
    using assms(2,3) that by (rule lex_step.line_blank)
  show ?thesis
  proof (cases "peek (s\<lparr>pos := p\<rparr>)")
    case None
    then have "t = s\<lparr>pos := p, at_line_start := False\<rparr>"
      using assms(4) scan by (simp add: handle_line_start_def)
    then show ?thesis using blank [OF gap] by simp
  next
    case (Some b)
    consider (end_line) "b = c_lf \<or> b = c_cr \<or> b = CHR ''#''" | (bs) "b = c_bs"
      | (content) "\<not> (b = c_lf \<or> b = c_cr \<or> b = CHR ''#'')" "b \<noteq> c_bs" by blast
    then show ?thesis
    proof cases
      case end_line
      then have "t = s\<lparr>pos := p, at_line_start := False\<rparr>"
        using assms(4) scan Some by (auto simp: handle_line_start_def)
      then show ?thesis using blank [OF gap] by simp
    next
      case bs
      show ?thesis
      proof (cases "blank_join_probe (src s) p")
        case (Inl e)
        then show ?thesis using assms(4) scan Some bs
          by (simp add: handle_line_start_def del: blank_join_probe.simps)
      next
        case (Inr r)
        show ?thesis
        proof (cases r)
          case None
          then show ?thesis using assms(4) scan Some bs Inr compare
            by (simp add: handle_line_start_def del: blank_join_probe.simps)
        next
          case (Some q)
          then have "t = s\<lparr>pos := q, at_line_start := False\<rparr>"
            using assms(4) scan \<open>peek (s\<lparr>pos := p\<rparr>) = Some b\<close> bs Inr
            by (simp add: handle_line_start_def del: blank_join_probe.simps)
          moreover have "gap s q"
            using blank_join_probe_gap [of "src s" p q] Inr Some gap
            by (intro gap_extend [OF gap]) simp_all
          ultimately show ?thesis using blank by simp
        qed
      qed
    next
      case content
      then show ?thesis using assms(4) scan Some compare by (simp add: handle_line_start_def)
    qed
  qed
qed

lemma some_token_Some:
  "some_token r = Some (Inr out, t) \<longleftrightarrow> (\<exists>tok. out = Some tok \<and> r = Some (Inr tok, t))"
  by (auto simp: some_token_def fuel_then_def split: option.splits prod.splits sum.splits)

lemma some_token_None: "some_token r = None \<longleftrightarrow> r = None"
  by (auto simp: some_token_def fuel_then_def split: option.splits prod.splits sum.splits)

lemma plain_string: "plain_kind StringTok" and plain_number: "plain_kind Number"
  and plain_comment: "plain_kind Comment"
  by (simp_all add: plain_kind_def is_content_def)

lemma plain_ident: "k \<in> ident_kinds \<Longrightarrow> plain_kind k"
  by (auto simp: ident_kinds_def plain_kind_def is_content_def)

lemma punct3_facts: "punct3 b b1 b2 = Some k \<Longrightarrow> plain_kind k \<and> (\<exists>c. b2 = Some c)"
  by (auto simp: punct3_def plain_kind_def is_content_def split: if_splits)

lemma punct2_plain: "punct2 b c = Some k \<Longrightarrow> plain_kind k"
  unfolding punct2_def by (drule map_of_SomeD) (auto simp: punct2_table_def plain_kind_def is_content_def)

lemma punct1_plain: "map_of punct1_table b = Some k \<Longrightarrow> plain_kind k"
  by (drule map_of_SomeD) (auto simp: punct1_table_def plain_kind_def is_content_def)

lemma scan_punct_step:
  assumes "scanner_inv s" "dispatching s" "peek s = Some b" "scan_punct b s = (Inr tok, t)"
  shows "lex_step s (Some tok) t"
proof -
  have plain: "lex_step s (Some (mk_token k (pos s) (pos u))) u"
    if "plain_kind k" "advances s u" "pos s < pos u" for k u
    using assms(2) that by (rule lex_step.plain)
  show ?thesis
  proof (cases "punct3 b (peek_at s 1) (peek_at s 2)")
    case (Some k)
    then obtain c where "plain_kind k" "peek_at s 2 = Some c" using punct3_facts by blast
    then have "lex_step s (Some (mk_token k (pos s) (pos (advance 3 s)))) (advance 3 s)"
      by (intro plain advances_3) simp_all
    then show ?thesis using assms(4) Some by (simp add: scan_punct_def Let_def)
  next
    case None
    note p3 = this
    show ?thesis
    proof (cases "case peek_at s 1 of Some c1 \<Rightarrow> punct2 b c1 | None \<Rightarrow> None")
      case (Some k)
      then obtain c where c: "peek_at s 1 = Some c" "punct2 b c = Some k" by (auto split: option.splits)
      then have "lex_step s (Some (mk_token k (pos s) (pos (advance 2 s)))) (advance 2 s)"
        by (intro plain advances_2 punct2_plain) simp_all
      then show ?thesis using assms(4) p3 c by (simp add: scan_punct_def Let_def)
    next
      case None
      obtain v u where p1: "punct1 b s = (v, u)" by fastforce
      then obtain k where k: "v = Inr k" "tok = mk_token k (pos s) (pos u + 1)" "t = advance 1 u"
        using assms(4) p3 None by (cases v) (auto simp: scan_punct_def Let_def)
      consider (opn) k' where "map_of open_table b = Some k'"
        | (cls) k' where "map_of open_table b = None" "map_of close_table b = Some k'"
        | (one) k' where "map_of open_table b = None" "map_of close_table b = None"
            "map_of punct1_table b = Some k'"
        using p1 k(1) by (auto simp: punct1_def split: option.splits)
      then show ?thesis
      proof cases
        case opn
        have "length (open_brackets s) < MAXLEVEL" "paren_depth s = length (open_brackets s)" "k = k'"
          "u = s\<lparr>paren_depth := paren_depth s + 1, open_brackets := open_brackets s @ [(b, pos s)]\<rparr>"
          using p1 k(1) opn assms(1)
          by (auto simp: punct1_def push_bracket_def scanner_inv_def MAXLEVEL_def split: if_splits)
        then show ?thesis using k lex_step.bracket_open [OF assms(2,3) opn] by simp
      next
        case cls
        obtain bs opener p where last: "open_brackets s = bs @ [(opener, p)]" "b = close_of opener" "k = k'"
          "u = s\<lparr>paren_depth := paren_depth s - 1, open_brackets := bs\<rparr>"
          using p1 k(1) cls
          by (cases "open_brackets s" rule: rev_cases)
             (auto simp: punct1_def close_bracket_def Let_def split: if_splits prod.splits)
        then show ?thesis using k lex_step.bracket_close [OF assms(2,3) cls(2) last(1,2)] by simp
      next
        case one
        then have "k = k'" "u = s" using p1 k(1) by (auto simp: punct1_def)
        moreover from this one have "lex_step s (Some (mk_token k (pos s) (pos (advance 1 s)))) (advance 1 s)"
          by (intro plain advances_1 [OF assms(3)] punct1_plain) simp_all
        ultimately show ?thesis using k by simp
      qed
    qed
  qed
qed

lemma scan_eof_step:
  assumes "scanner_inv s" "dispatching s" "peek s = None" "scan_eof s = (Inr out, t)"
  shows "lex_step s out t"
proof (cases "paren_depth s = 0 \<and> last_was_content s")
  case True
  then show ?thesis using assms lex_step.eof_newline [of s] by (auto simp: scan_eof_def)
next
  case False
  have facts: "paren_depth s = length (open_brackets s)" "length (indents s) \<le> 100" "indents s \<noteq> []"
    "\<not> at_line_start s"
    using assms(1,2) by (simp_all add: scanner_inv_def MAXINDENT_def dispatching_def)
  show ?thesis
  proof (cases "open_brackets s = []")
    case True
    then have nc: "\<not> last_was_content s" "paren_depth s = 0" using False facts by simp_all
    show ?thesis
    proof (cases "length (indents s) > 1")
      case deep: True
      have "s\<lparr>at_line_start := False\<rparr> = s" using facts(4) by simp
      then have "out = Some (mk_token Dedent (pos s) (pos s))" "t = s\<lparr>pending_dedents := length (indents s) - 2,
          indents := take 1 (indents s), alt_indents := take 1 (alt_indents s)\<rparr>"
        using assms(4) True nc facts deep by (auto simp: scan_eof_def emit_endmarker_def)
      then show ?thesis using lex_step.eof_dedent [OF assms(2,3) nc(2,1) deep] by simp
    next
      case flat: False
      then have "length (indents s) = 1" using facts(3) by (cases "indents s") auto
      then show ?thesis
        using lex_step.endmarker [OF assms(2,3) True nc(1)] assms(4) True nc
        by (auto simp: scan_eof_def emit_endmarker_def)
    qed
  next
    case unclosed: False
    then show ?thesis using assms(4) False by (auto simp: scan_eof_def split: prod.splits)
  qed
qed

lemma handle_newline_at_step:
  assumes "dispatching s" "gap s q" "pos s < q" "pos s \<le> a" "a \<le> q"
    "handle_newline_at a (s\<lparr>pos := q\<rparr>) = (tok, t)"
  shows "lex_step s (Some tok) t"
proof (cases "paren_depth s > 0")
  case True
  then show ?thesis using assms lex_step.nl [OF assms(1) True assms(2-5)]
    by (simp add: handle_newline_at_def)
next
  case False
  then show ?thesis using assms lex_step.newline [OF assms(1) _ assms(2-5)]
    by (simp add: handle_newline_at_def)
qed

lemma scan_continuation_step:
  assumes "dispatching s" "peek s = Some c_bs" "scan_continuation s = (Inr out, t)"
  shows "lex_step s out t"
proof -
  define u where "u = (if peek (advance 1 s) = Some c_cr then advance 1 (advance 1 s) else advance 1 s)"
  have lf: "peek u = Some c_lf" and t: "t = advance 1 u" "out = None"
    using assms(3) unfolding u_def
    by (auto simp: scan_continuation_def Let_def split: if_splits)
  have "gap s (pos t)"
    using assms(2) lf t(1)
    by (auto simp: gap_def u_def peek_Some_iff layout_byte_def less_Suc_eq le_less split: if_splits)
  then have "lex_step s None (s\<lparr>pos := pos t\<rparr>)"
    using t(1) by (intro lex_step.skip [OF assms(1)]) (auto simp: u_def)
  moreover have "t = s\<lparr>pos := pos t\<rparr>" using t(1) by (simp add: u_def)
  ultimately show ?thesis using t by simp
qed

text \<open>The dispatch, at a byte that is not blank.\<close>

lemma skip_while_fixed: "skip_while ok xs (skip_while ok xs p) = skip_while ok xs p"
proof (cases "skip_while ok xs p < length xs")
  case True
  then show ?thesis using skip_while_stops [OF True] skip_while_unfold [of ok xs "skip_while ok xs p"]
    by (simp add: slice_get_def)
next
  case False
  then show ?thesis using skip_while_unfold [of ok xs "skip_while ok xs p"] by (simp add: slice_get_def)
qed

lemma token_scanner_step:
  assumes "dispatching s" "k \<in> ks" "\<And>k. k \<in> ks \<Longrightarrow> plain_kind k"
    "tok = mk_token k (pos s) (pos t) \<and> advances s t \<and> pos s < pos t"
  shows "lex_step s (Some tok) t"
  using lex_step.plain [OF assms(1) assms(3) [OF assms(2)], of t] assms(4) by simp

lemma scan_content_core:
  assumes "scanner_inv s" "dispatching s" "xid_sound E" "skip_while is_blank (src s) (pos s) = pos s"
    "scan_content E s = Some (Inr out, t)"
  shows "lex_step s out t"
proof (cases "peek s")
  case None
  then show ?thesis using assms scan_eof_step [OF assms(1,2) None, of out t]
    by (simp add: scan_content_def)
next
  case (Some b)
  note sane = scanner_inv_sane [OF assms(1)]
  have lt: "pos s < length (src s)" "src s ! pos s = b" using Some by (simp_all add: peek_Some_iff)
  have eq: "scan_content E s = (
          if b = CHR ''#'' then
            (let s1 = s\<lparr>pos := skip_while (\<lambda>c. c \<noteq> c_lf) (src s) (pos s)\<rparr>
             in Some (Inr (Some (mk_token Comment (pos s) (pos s1))), s1))
          else if b = c_lf then (let (t, s1) = handle_newline s in Some (Inr (Some t), s1))
          else if b = c_cr then
            (let s1 = advance 1 s;
                 s2 = (if peek s1 = Some c_lf then advance 1 s1 else s1);
                 (t, s3) = handle_newline_at (pos s2) s2
             in Some (Inr (Some t), s3))
          else if b = c_bs then Some (scan_continuation s)
          else if b = c_dq \<or> b = c_sq then
            some_token (scan_string (lang_preview E) (pos s) string_prefix_default s)
          else if is_ident_start b then some_token (scan_ident_or_prefixed_string E s)
          else if 128 \<le> byte b \<and> starts_xid E s then
            some_token (scan_ident_or_prefixed_string E s)
          else if starts_number b s then some_token (Some (scan_number s))
          else some_token (Some (scan_punct b s)))"
    unfolding scan_content_def assms(4) using Some by simp
  consider (comment) "b = CHR ''#''" | (lf) "b = c_lf" | (cr) "b = c_cr" | (bs) "b = c_bs"
    | (str) "b = c_dq \<or> b = c_sq"
    | (other) "b \<notin> {CHR ''#'', c_lf, c_cr, c_bs, c_dq, c_sq}" by blast
  then show ?thesis
  proof cases
    case comment
    let ?u = "s\<lparr>pos := skip_while (\<lambda>c. c \<noteq> c_lf) (src s) (pos s)\<rparr>"
    have "advances s ?u" using lt by (intro advances_skip_while) simp
    moreover have "pos s < pos ?u" using lt comment by (simp add: skip_while_progress)
    ultimately have "lex_step s (Some (mk_token Comment (pos s) (pos ?u))) ?u"
      using lex_step.plain [OF assms(2) plain_comment] by blast
    then show ?thesis using assms(5) comment by (simp add: eq)
  next
    case lf
    have "gap s (pos s + 1)" using lt lf by (auto simp: gap_def layout_byte_def less_Suc_eq le_less)
    then show ?thesis
      using assms(5) lf handle_newline_at_step [OF assms(2), of "pos s + 1" "pos s"]
      by (auto simp: eq handle_newline_def split: prod.splits)
  next
    case cr
    define u where "u = (if peek (advance 1 s) = Some c_lf then advance 1 (advance 1 s) else advance 1 s)"
    have u: "u = s\<lparr>pos := pos u\<rparr>" "pos s < pos u" by (simp_all add: u_def)
    have "gap s (pos u)" using lt cr
      by (auto simp: gap_def u_def layout_byte_def less_Suc_eq le_less peek_Some_iff)
    moreover obtain tok v where tv: "handle_newline_at (pos u) u = (tok, v)" by fastforce
    ultimately have "lex_step s (Some tok) v"
      using handle_newline_at_step [OF assms(2), of "pos u" "pos u"] u by simp
    moreover have "scan_content E s = (let (t, s3) = handle_newline_at (pos u) u in Some (Inr (Some t), s3))"
      unfolding eq u_def Let_def using cr by simp
    ultimately show ?thesis using assms(5) tv by simp
  next
    case bs
    then show ?thesis using assms(5) scan_continuation_step [OF assms(2)] Some by (simp add: eq)
  next
    case str
    then obtain tok where tok: "out = Some tok"
      "scan_string (lang_preview E) (pos s) string_prefix_default s = Some (Inr tok, t)"
      using assms(5) by (auto simp: eq some_token_Some)
    moreover have "starts_string s" using Some str by (auto simp: starts_string_def)
    ultimately show ?thesis
      using string_scanner.one_token [OF _ sane tok(2)] token_scanner_step [OF assms(2)] plain_string
      by blast
  next
    case other
    consider (id) "is_ident_start b \<or> (128 \<le> byte b \<and> starts_xid E s)"
      | (num) "\<not> is_ident_start b" "\<not> (128 \<le> byte b \<and> starts_xid E s)" "starts_number b s"
      | (punct) "\<not> is_ident_start b" "\<not> (128 \<le> byte b \<and> starts_xid E s)" "\<not> starts_number b s" by blast
    then show ?thesis
    proof cases
      case id
      then obtain tok where tok: "out = Some tok" "scan_ident_or_prefixed_string E s = Some (Inr tok, t)"
        using assms(5) other by (auto simp: eq some_token_Some split: if_splits)
      moreover have "starts_ident E s" using Some id by (auto simp: starts_ident_def)
      ultimately show ?thesis
        using ident_scanner.one_token [OF _ sane tok(2)] token_scanner_step [OF assms(2)] plain_ident
          assms(3) by blast
    next
      case num
      then obtain tok where tok: "out = Some tok" "Some (scan_number s) = Some (Inr tok, t)"
        using assms(5) other by (auto simp: eq some_token_Some split: if_splits)
      moreover have "starts_numeric s" using Some num by (auto simp: starts_numeric_def)
      ultimately show ?thesis
        using number_scanner.one_token [OF _ sane tok(2)] token_scanner_step [OF assms(2)] plain_number
        by blast
    next
      case punct
      then obtain tok where "out = Some tok" "scan_punct b s = (Inr tok, t)"
        using assms(5) other by (auto simp: eq some_token_Some split: if_splits)
      then show ?thesis using scan_punct_step [OF assms(1,2) Some] by simp
    qed
  qed
qed

lemma scan_content_call:
  assumes "scanner_inv s" "dispatching s" "xid_sound E" "scan_content E s = Some (Inr out, t)"
  shows "lex_call s out t"
proof -
  let ?p = "skip_while is_blank (src s) (pos s)"
  let ?u = "s\<lparr>pos := ?p\<rparr>"
  have le: "pos s \<le> length (src s)" using assms(1) by (simp add: scanner_inv_def)
  have eq: "scan_content E s = scan_content E ?u"
    by (simp add: scan_content_def skip_while_fixed)
  have gap: "gap s ?p"
    using le skip_while_all [of "pos s" _ is_blank "src s"]
    by (auto simp: gap_def skip_while_le_length layout_byte_def)
  have core: "lex_step ?u out t" if "scanner_inv ?u"
    by (rule scan_content_core [OF that _ assms(3)])
       (use assms(2,4) eq skip_while_fixed in \<open>simp_all add: dispatching_def idle_def\<close>)
  show ?thesis
  proof (cases "?p = pos s")
    case True
    then show ?thesis using core assms(1) by (simp add: lex_call.last)
  next
    case False
    then have move: "lex_step s None ?u"
      using skip_while_ge [of "pos s" is_blank "src s"]
      by (intro lex_step.skip [OF assms(2) gap]) linarith
    then show ?thesis using lex_call.silent lex_call.last core lex_step_inv [OF move assms(1)] by blast
  qed
qed

lemma take_queued_step:
  "take_queued s = Some (tok, t) \<Longrightarrow> \<not> finished s \<Longrightarrow> lex_step s (Some tok) t"
  by (auto simp: take_queued_def intro: lex_step.take_indent lex_step.take_dedent [unfolded One_nat_def]
      split: option.splits if_splits)

lemma take_queued_None: "take_queued s = None \<longleftrightarrow> pending_indent s = None \<and> pending_dedents s = 0"
  by (auto simp: take_queued_def split: option.splits)

theorem next_token_call:
  assumes "scanner_inv s" "\<not> finished s" "xid_sound E" "next_token E s = Some (Inr out, t)"
  shows "lex_call s out t"
proof (cases "take_queued s")
  case (Some r)
  then show ?thesis using assms take_queued_step
    by (cases r) (auto simp: next_token_def intro: lex_call.last)
next
  case None
  then have idle: "idle s" using assms(2) by (simp add: idle_def take_queued_None)
  have depth: "at_line_start s \<Longrightarrow> paren_depth s = 0" using assms(1) unfolding scanner_inv_def by blast
  show ?thesis
  proof (cases "at_line_start s")
    case True
    obtain v u where hl: "handle_line_start s = (v, u)" by fastforce
    then have ok: "v = Inr ()" and rest: "(case take_queued u of
                Some (tk, s2) \<Rightarrow> Some (Inr (Some tk), s2)
              | None \<Rightarrow> scan_content E u) = Some (Inr out, t)"
      using assms(2,4) None True depth by (cases v; simp add: next_token_def fuel_then_def)+
    have move: "lex_step s None u" using handle_line_start_step [OF assms(1) idle True] hl ok by simp
    then have inv: "scanner_inv u" and u: "\<not> finished u" "\<not> at_line_start u"
      using assms(1) lex_step_inv True by (blast, auto simp: lex_step_silent idle_def dispatching_def)
    have "lex_call u out t"
    proof (cases "take_queued u")
      case None
      then have "scan_content E u = Some (Inr out, t)" using rest by simp
      then show ?thesis using None scan_content_call [OF inv _ assms(3)] u
        by (simp add: dispatching_def idle_def take_queued_None)
    next
      case (Some r)
      then show ?thesis using rest take_queued_step u by (cases r) (auto intro: lex_call.last)
    qed
    then show ?thesis using move lex_call.silent by blast
  next
    case False
    then show ?thesis using assms None idle scan_content_call [OF assms(1) _ assms(3)]
      by (simp add: next_token_def dispatching_def)
  qed
qed

section \<open>Every call returns\<close>

lemma if_not_None: "(P \<Longrightarrow> x \<noteq> None) \<Longrightarrow> (\<not> P \<Longrightarrow> y \<noteq> None) \<Longrightarrow> (if P then x else y) \<noteq> None"
  by simp

lemma case_prod_not_None: "(\<And>x y. f x y \<noteq> None) \<Longrightarrow> (case p of (x, y) \<Rightarrow> f x y) \<noteq> None"
  by (cases p) simp

lemma some_token_not_None: "r \<noteq> None \<Longrightarrow> some_token r \<noteq> None"
  by (simp add: some_token_None)

lemmas not_None = if_not_None case_prod_not_None some_token_not_None option.distinct(2)

lemma scan_content_returns:
  assumes "scanner_inv s" "xid_sound E"
  shows "scan_content E s \<noteq> None"
proof -
  let ?s = "s\<lparr>pos := skip_while is_blank (src s) (pos s)\<rparr>"
  have sane: "fs_sane ?s"
    using assms(1) skip_while_le_length by (auto simp: fs_sane_def scanner_inv_def)
  show ?thesis
  proof (cases "peek ?s")
    case None
    then show ?thesis by (simp add: scan_content_def)
  next
    case (Some b)
    have str: "scan_string (lang_preview E) (pos ?s) string_prefix_default ?s \<noteq> None"
      if "b = c_dq \<or> b = c_sq"
      using string_scanner.returns [of ?s "lang_preview E"] sane Some that by (auto simp: starts_string_def)
    have ident: "scan_ident_or_prefixed_string E ?s \<noteq> None"
      if "is_ident_start b \<or> 128 \<le> byte b \<and> starts_xid E ?s"
      using ident_scanner.returns [of E ?s] sane assms(2) Some that by (auto simp: starts_ident_def)
    show ?thesis
      unfolding scan_content_def Let_def Some option.case
      by (intro not_None str ident) simp_all
  qed
qed

lemma next_token_returns:
  assumes "scanner_inv s" "\<not> finished s" "xid_sound E"
  shows "next_token E s \<noteq> None"
proof (cases "take_queued s = None \<and> at_line_start s")
  case True
  have depth: "paren_depth s = 0" using assms(1) True unfolding scanner_inv_def by blast
  have idle: "idle s" using assms(2) True by (simp add: idle_def take_queued_None)
  obtain v u where hl: "handle_line_start s = (v, u)" by fastforce
  have "scanner_inv u" if "v = Inr ()"
    using handle_line_start_step [OF assms(1) idle] lex_step_inv assms(1) hl that True by blast
  then show ?thesis
    using assms(2,3) True hl depth scan_content_returns
    by (cases v) (auto simp: next_token_def fuel_then_def split: option.split)
next
  case False
  then show ?thesis using assms scan_content_returns by (auto simp: next_token_def split: option.split)
qed

text \<open>Every move consumes: the measure of the tokenizer's loop.\<close>

definition settle :: "token option \<Rightarrow> scanner \<Rightarrow> scanner" where
  "settle out s = (case out of None \<Rightarrow> s
     | Some tok \<Rightarrow> s\<lparr>last_was_content := is_content (tok_kind tok)\<rparr>)"

lemma settle_simps [simp]:
  "settle None s = s"
  "settle (Some tok) s = s\<lparr>last_was_content := is_content (tok_kind tok)\<rparr>"
  by (simp_all add: settle_def)

lemma scanner_inv_settle [simp]: "scanner_inv (settle out s) = scanner_inv s"
  by (cases out) (simp_all add: scanner_inv_def)

definition lex_measure :: "scanner \<Rightarrow> nat" where
  "lex_measure s = 8 * (length (src s) - pos s) + 3 * length (indents s) + 2 * pending_dedents s
     + of_bool (pending_indent s \<noteq> None) + of_bool (at_line_start s) + of_bool (last_was_content s)
     + of_bool (\<not> finished s)"

lemma tok_kind_mk [simp]: "tok_kind (mk_token k a b) = k"
  by (simp add: mk_token_def)

lemma layout_not_content [simp]:
  "\<not> is_content Newline" "\<not> is_content Nl" "\<not> is_content Indent" "\<not> is_content Dedent"
  "\<not> is_content Endmarker"
  by (simp_all add: is_content_def)

lemma lex_step_measure:
  assumes "lex_step s out t" "scanner_inv s"
  shows "lex_measure (settle out t) < lex_measure s"
  using assms
proof (induction rule: lex_step.induct)
  case (plain s k t)
  obtain p ws f where t: "t = s\<lparr>pos := p, escape_warnings := ws, outer_field_start := f\<rparr>"
    "pos s \<le> p" "pos s \<le> length (src s) \<longrightarrow> p \<le> length (src s)"
    using plain(3) by (rule advancesE)
  then show ?case using plain by (auto simp: lex_measure_def scanner_inv_def)
qed (auto simp: lex_measure_def gap_def idle_def dispatching_def scanner_inv_def peek_Some_iff
      min_def split: if_splits)

lemma lex_call_facts:
  assumes "lex_call s out t" "scanner_inv s"
  shows "scanner_inv t \<and> lex_measure (settle out t) < lex_measure s"
  using assms
proof (induction rule: lex_call.induct)
  case (last s out t)
  then show ?case using lex_step_inv lex_step_measure by blast
next
  case (silent s t out u)
  then show ?case using lex_step_inv lex_step_measure [of s None t] by fastforce
qed

section \<open>Reachable states\<close>

inductive lex_reach :: "u8 list \<Rightarrow> token list \<Rightarrow> scanner \<Rightarrow> bool" for source where
  start: "lex_reach source [] (scanner_new source)"
| silent: "lex_reach source toks s \<Longrightarrow> lex_step s None t \<Longrightarrow> lex_reach source toks t"
| emit: "lex_reach source toks s \<Longrightarrow> lex_step s (Some tok) t
    \<Longrightarrow> lex_reach source (toks @ [tok]) (settle (Some tok) t)"

lemma reach_inv: "lex_reach source toks s \<Longrightarrow> scanner_inv s"
  by (induction rule: lex_reach.induct) (auto simp: scanner_inv_new simp del: settle_simps intro: lex_step_inv)

lemma reach_src: "lex_reach source toks s \<Longrightarrow> src s = source"
  by (induction rule: lex_reach.induct) (auto simp: scanner_new_def dest: lex_step_src)

definition emitted :: "token option \<Rightarrow> token list" where
  "emitted out = (case out of None \<Rightarrow> [] | Some tok \<Rightarrow> [tok])"

lemma emitted_simps [simp]: "emitted None = []" "emitted (Some tok) = [tok]"
  by (simp_all add: emitted_def)

lemma reach_call:
  assumes "lex_call s out t" "lex_reach source toks s"
  shows "lex_reach source (toks @ emitted out) (settle out t)"
  using assms
proof (induction rule: lex_call.induct)
  case (last s out t)
  then show ?case
    by (cases out) (auto intro: lex_reach.silent lex_reach.emit [unfolded settle_simps])
next
  case (silent s t out u)
  then show ?case by (blast intro: lex_reach.silent)
qed

lemma lex_step_finished:
  assumes "lex_step s out t"
  shows "\<not> finished s" "finished t \<longleftrightarrow> (\<exists>tok. out = Some tok \<and> tok_kind tok = Endmarker)"
proof -
  show "\<not> finished s" using assms by (cases) (auto simp: idle_def dispatching_def)
  show "finished t \<longleftrightarrow> (\<exists>tok. out = Some tok \<and> tok_kind tok = Endmarker)"
    using assms
  proof cases
    case (plain k)
    then show ?thesis by (auto elim!: advancesE simp: plain_kind_def dispatching_def idle_def)
  next
    case (bracket_open b k)
    then show ?thesis by (auto simp: dispatching_def idle_def open_table_def split: if_splits)
  next
    case (bracket_close b k bs opener p)
    then show ?thesis by (auto simp: dispatching_def idle_def close_table_def split: if_splits)
  qed (auto simp: idle_def dispatching_def)
qed

lemma lex_call_finished:
  "lex_call s out t \<Longrightarrow> finished t \<longleftrightarrow> (\<exists>tok. out = Some tok \<and> tok_kind tok = Endmarker)"
  by (induction rule: lex_call.induct) (simp_all add: lex_step_finished)

text \<open>What the loop can return.\<close>

definition reached :: "u8 list \<Rightarrow> (token list \<times> lex_error) + token list \<Rightarrow> bool" where
  "reached source r = (case r of
      Inl (toks, e) \<Rightarrow> \<exists>s. lex_reach source toks s \<and> \<not> finished s
    | Inr toks \<Rightarrow> \<exists>s. lex_reach source toks s \<and> finished s)"

lemma tokenize_loop_reached:
  assumes "lex_reach source toks s" "\<not> finished s" "xid_sound E"
  shows "\<exists>r ws. tokenize_loop E s toks seen pend = Some (r, ws) \<and> reached source r"
  using assms
proof (induction s arbitrary: toks seen pend rule: measure_induct_rule [where f = lex_measure])
  case (less s)
  have inv: "scanner_inv s" using less(2) by (rule reach_inv)
  obtain r t where nt: "next_token E s = Some (r, t)"
    using next_token_returns [OF inv less(3,4)] by auto
  show ?case
  proof (cases r)
    case (Inl e)
    then show ?thesis using nt less(2,3) by (subst tokenize_loop.simps) (auto simp: reached_def)
  next
    case (Inr out)
    have call: "lex_call s out t" using next_token_call [OF inv less(3,4)] nt Inr by simp
    have next': "lex_reach source (toks @ emitted out) (settle out t)"
      "lex_measure (settle out t) < lex_measure s"
      "finished (settle out t) \<longleftrightarrow> (\<exists>tok. out = Some tok \<and> tok_kind tok = Endmarker)"
      using reach_call [OF call less(2)] lex_call_facts [OF call inv] lex_call_finished [OF call]
      by (simp_all add: settle_def split: option.split)
    show ?thesis
    proof (cases out)
      case None
      then show ?thesis using less(1) [OF next'(2,1) _ less(4)] next'(3) nt Inr
        by (subst tokenize_loop.simps) simp
    next
      case (Some tok)
      note IH = less(1) [OF next'(2,1) _ less(4)]
      show ?thesis
        using IH next' nt Inr Some less(2,3)
        by (subst tokenize_loop.simps) (auto simp: reached_def Let_def)
    qed
  qed
qed

end
