(* ===== verification/Lex_Invariants.thy ===== *)
theory Lex_Invariants
  imports Lex_Steps
begin

text \<open>
  The invariants of the token stream, by induction on the reachable states of the tokenizer:
  the order of the spans, the bytes no token covers, the balance of INDENT and DEDENT, the
  nesting of brackets, where the layout tokens may stand, and the end marker.
\<close>

section \<open>Spans\<close>

abbreviation tok_start :: "token \<Rightarrow> u32" where "tok_start t \<equiv> span_start (tok_span t)"
abbreviation tok_end :: "token \<Rightarrow> u32" where "tok_end t \<equiv> span_end (tok_span t)"

lemma tok_span_mk [simp]:
  "a < 4294967296 \<Longrightarrow> tok_start (mk_token k a b) = a"
  "b < 4294967296 \<Longrightarrow> tok_end (mk_token k a b) = b"
  by (simp_all add: mk_token_def span_new_def)

text \<open>The position up to which the emitted tokens may reach.\<close>

definition frontier :: "scanner \<Rightarrow> usize" where
  "frontier s = (case pending_indent s of Some w \<Rightarrow> w | None \<Rightarrow> pos s)"

lemma advances_pending: "advances s t \<Longrightarrow> pending_indent t = pending_indent s"
  by (erule advancesE) simp

lemma advances_le_src: "advances s t \<Longrightarrow> pos s \<le> length (src s) \<Longrightarrow> pos t \<le> length (src s)"
  by (erule advancesE) simp

lemma frontier_le: "scanner_inv s \<Longrightarrow> frontier s \<le> pos s"
  by (auto simp: frontier_def scanner_inv_def split: option.split)

lemma frontier_settle [simp]: "frontier (settle out s) = frontier s"
  by (cases out) (simp_all add: frontier_def split: option.split)

lemma lex_step_silent_frontier:
  "lex_step s None t \<Longrightarrow> frontier s \<le> frontier t"
  by (auto simp: lex_step_silent frontier_def idle_def dispatching_def gap_def)

lemma frontierI:
  "tok = mk_token k a b \<Longrightarrow> frontier s \<le> a \<Longrightarrow> a \<le> b \<Longrightarrow> b \<le> frontier t \<Longrightarrow> b \<le> length (src s)
   \<Longrightarrow> \<exists>k a b. tok = mk_token k a b \<and> frontier s \<le> a \<and> a \<le> b \<and> b \<le> frontier t \<and> b \<le> length (src s)"
  by blast

lemma lex_step_frontier:
  assumes "lex_step s (Some tok) t" "scanner_inv s"
  shows "\<exists>k a b. tok = mk_token k a b \<and> frontier s \<le> a \<and> a \<le> b \<and> b \<le> frontier t \<and> b \<le> length (src s)"
  using assms(1)
proof cases
  case (take_indent w)
  then show ?thesis using assms(2)
    by (intro exI conjI) (auto simp: frontier_def scanner_inv_def)
next
  case take_dedent
  then show ?thesis using assms(2)
    by (intro exI conjI) (auto simp: frontier_def scanner_inv_def)
next
  case (plain k)
  then have "pending_indent s = None" "pending_indent t = None" "pos t \<le> length (src s)"
    using assms(2) advances_pending advances_le_src by (auto simp: dispatching_def idle_def scanner_inv_def)
  then show ?thesis using plain by (intro exI conjI) (auto simp: frontier_def)
next
  case (bracket_open b k)
  then show ?thesis
    by (intro exI conjI) (auto simp: frontier_def dispatching_def idle_def peek_Some_iff)
next
  case (bracket_close b k bs opener p)
  then show ?thesis
    by (intro exI conjI) (auto simp: frontier_def dispatching_def idle_def peek_Some_iff)
qed (rule frontierI, assumption;
      use assms(2) in \<open>force simp: frontier_def dispatching_def idle_def gap_def scanner_inv_def\<close>)+

definition before :: "token \<Rightarrow> token \<Rightarrow> bool" where
  "before a b \<longleftrightarrow> tok_end a \<le> tok_start b"

lemma reach_spans:
  assumes "lex_reach source toks s" "length source < 4294967296"
  shows "sorted_wrt before toks \<and> (\<forall>t \<in> set toks. tok_start t \<le> tok_end t \<and> tok_end t \<le> frontier s)"
  using assms
proof (induction rule: lex_reach.induct)
  case start
  show ?case by simp
next
  case (silent toks s t)
  then show ?case using lex_step_silent_frontier [of s t] by fastforce
next
  case (emit toks s tok t)
  obtain k a b where tok: "tok = mk_token k a b" "frontier s \<le> a" "a \<le> b" "b \<le> frontier t"
    "b \<le> length (src s)"
    using lex_step_frontier [OF emit(2) reach_inv [OF emit(1)]] by blast
  have "b < 4294967296" "a < 4294967296"
    using tok emit(4) reach_src [OF emit(1)] by simp_all
  then show ?case using tok emit.IH [OF emit.prems]
    by (fastforce simp: sorted_wrt_append before_def simp del: settle_simps)
qed

section \<open>No byte is lost\<close>

definition covers :: "token \<Rightarrow> usize \<Rightarrow> bool" where
  "covers t i \<longleftrightarrow> tok_start t \<le> i \<and> i < tok_end t"

lemma lex_step_covers:
  assumes "lex_step s out t" "scanner_inv s" "pos s \<le> i" "i < pos t" "length (src s) < 4294967296"
  shows "layout_byte (src s ! i) \<or> (\<exists>tok. out = Some tok \<and> covers tok i)"
  using assms(1)
proof cases
  case (plain k)
  then have "pos t \<le> length (src s)" using assms(2) advances_le_src by (simp add: scanner_inv_def)
  then show ?thesis using plain assms by (simp add: covers_def)
next
  case (bracket_open b k)
  then show ?thesis using assms by (auto simp: covers_def peek_Some_iff)
next
  case (bracket_close b k bs opener p)
  then show ?thesis using assms by (auto simp: covers_def peek_Some_iff)
qed (use assms(3,4) in \<open>auto simp: gap_def\<close>)

lemma reach_covers:
  assumes "lex_reach source toks s" "length source < 4294967296"
  shows "\<forall>i < pos s. layout_byte (source ! i) \<or> (\<exists>t \<in> set toks. covers t i)"
  using assms
proof (induction rule: lex_reach.induct)
  case start
  show ?case by (simp add: scanner_new_def)
next
  case (silent toks s t)
  then show ?case
    using lex_step_covers [OF silent(2) reach_inv [OF silent(1)]] reach_src [OF silent(1)]
    by (metis not_less option.distinct(1))
next
  case (emit toks s tok t)
  show ?case
  proof (intro allI impI)
    fix i
    assume "i < pos (settle (Some tok) t)"
    then consider "i < pos s" | "pos s \<le> i" "i < pos t" by fastforce
    then show "layout_byte (source ! i) \<or> (\<exists>t\<in>set (toks @ [tok]). covers t i)"
    proof cases
      case 1
      then show ?thesis using emit.IH [OF emit.prems] by auto
    next
      case 2
      then show ?thesis
        using lex_step_covers [OF emit(2) reach_inv [OF emit(1)] 2] reach_src [OF emit(1)] emit.prems
        by auto
    qed
  qed
qed

lemma finished_at_end:
  assumes "lex_reach source toks s"
  shows "finished s \<longrightarrow> pos s = length source \<and> indents s = [0] \<and> open_brackets s = []
     \<and> pending_indent s = None \<and> pending_dedents s = 0"
  using assms
proof (induction rule: lex_reach.induct)
  case start
  show ?case by (simp add: scanner_new_def)
next
  case (silent toks s t)
  then show ?case using lex_step_finished [OF silent(2)] by auto
next
  case (emit toks s tok t)
  have inv: "scanner_inv s" and src: "src s = source" using emit(1) reach_inv reach_src by auto
  show ?case
  proof
    assume fin: "finished (settle (Some tok) t)"
    then have "finished t" "tok_kind tok = Endmarker" using lex_step_finished [OF emit(2)] by auto
    with emit(2) show "pos (settle (Some tok) t) = length source \<and> indents (settle (Some tok) t) = [0]
      \<and> open_brackets (settle (Some tok) t) = [] \<and> pending_indent (settle (Some tok) t) = None
      \<and> pending_dedents (settle (Some tok) t) = 0"
    proof cases
      case (plain k)
      then show ?thesis using \<open>tok_kind tok = Endmarker\<close> by (simp add: plain_kind_def)
    next
      case endmarker
      then have "indents s = [0]" using inv
        by (cases "indents s") (auto simp: scanner_inv_def)
      then show ?thesis using endmarker inv src
        by (auto simp: scanner_inv_def peek_None_iff dispatching_def idle_def)
    qed (use lex_step_finished in \<open>auto simp: idle_def dispatching_def\<close>)
  qed
qed

section \<open>Indents and dedents\<close>

definition kind_count :: "token_kind \<Rightarrow> token list \<Rightarrow> nat" where
  "kind_count k toks = length (filter (\<lambda>t. tok_kind t = k) toks)"

lemma kind_count_simps [simp]:
  "kind_count k [] = 0"
  "kind_count k (xs @ ys) = kind_count k xs + kind_count k ys"
  "kind_count k [t] = of_bool (tok_kind t = k)"
  by (simp_all add: kind_count_def)

lemma plain_not_layout:
  "plain_kind k \<Longrightarrow> k \<noteq> Indent \<and> k \<noteq> Dedent \<and> k \<noteq> Newline \<and> k \<noteq> Nl \<and> k \<noteq> Endmarker"
  by (auto simp: plain_kind_def)

lemma open_table_kind: "map_of open_table b = Some k \<Longrightarrow> k \<in> {LPar, LSqb, LBrace}"
  by (auto simp: open_table_def split: if_splits)

lemma close_table_kind: "map_of close_table b = Some k \<Longrightarrow> k \<in> {RPar, RSqb, RBrace}"
  by (auto simp: close_table_def split: if_splits)

lemma advances_layout:
  assumes "advances s t"
  shows "indents t = indents s" "pending_dedents t = pending_dedents s" "open_brackets t = open_brackets s"
    "at_line_start t = at_line_start s" "last_was_content t = last_was_content s"
    "paren_depth t = paren_depth s" "finished t = finished s"
  using assms by (auto elim!: advancesE)

text \<open>Levels opened but not closed, over the emitted tokens and the queue.\<close>

definition balance :: "nat \<Rightarrow> nat \<Rightarrow> scanner \<Rightarrow> bool" where
  "balance ins des s \<longleftrightarrow>
     ins + of_bool (pending_indent s \<noteq> None) + 1 = des + pending_dedents s + length (indents s)
     \<and> (pending_indent s \<noteq> None \<longrightarrow> 2 \<le> length (indents s)) \<and> indents s \<noteq> []
     \<and> pending_dedents s + length (indents s) \<le> MAXINDENT"

lemma lex_step_balance:
  assumes "lex_step s out t" "balance ins des s"
  shows "balance (ins + kind_count Indent (emitted out)) (des + kind_count Dedent (emitted out)) t"
  using assms
proof (induction rule: lex_step.induct)
  case (plain s k t)
  then show ?case
    using plain_not_layout [OF plain(2)] by (simp add: balance_def advances_layout advances_pending)
next
  case (bracket_open s b k)
  then show ?case using open_table_kind [of b k] by (auto simp: balance_def)
next
  case (bracket_close s b k bs opener p)
  then show ?case using close_table_kind [of b k] by (auto simp: balance_def)
qed (auto simp: balance_def idle_def dispatching_def Suc_le_eq)

lemma reach_balance:
  assumes "lex_reach source toks s"
  shows "balance (kind_count Indent toks) (kind_count Dedent toks) s"
  using assms
proof (induction rule: lex_reach.induct)
  case start
  show ?case by (simp add: balance_def scanner_new_def MAXINDENT_def)
next
  case (silent toks s t)
  then show ?case using lex_step_balance by fastforce
next
  case (emit toks s tok t)
  have "balance ins des (settle out u) = balance ins des u" for ins des out u
    by (cases out) (simp_all add: balance_def)
  then show ?case using lex_step_balance [OF emit(2) emit.IH] by (simp del: settle_simps)
qed

section \<open>Brackets\<close>

text \<open>The stack of open brackets, computed from the tokens alone.\<close>

definition bracket_track :: "u8 list option \<Rightarrow> token_kind \<Rightarrow> u8 list option" where
  "bracket_track st k = (case st of None \<Rightarrow> None | Some bs \<Rightarrow>
     if k = LPar then Some (bs @ [CHR ''('']) else if k = LSqb then Some (bs @ [CHR ''[''])
     else if k = LBrace then Some (bs @ [CHR ''{''])
     else if k = RPar \<or> k = RSqb \<or> k = RBrace then
       (if bs \<noteq> [] \<and> (last bs, k) \<in> {(CHR ''('', RPar), (CHR ''['', RSqb), (CHR ''{'', RBrace)}
        then Some (butlast bs) else None)
     else Some bs)"

definition brackets_after :: "token list \<Rightarrow> u8 list option" where
  "brackets_after toks = foldl bracket_track (Some []) (map tok_kind toks)"

lemma brackets_after_simps [simp]:
  "brackets_after [] = Some []"
  "brackets_after (toks @ [t]) = bracket_track (brackets_after toks) (tok_kind t)"
  by (simp_all add: brackets_after_def)

lemma bracket_track_other [simp]:
  "k \<notin> {LPar, LSqb, LBrace, RPar, RSqb, RBrace} \<Longrightarrow> bracket_track (Some bs) k = Some bs"
  by (simp add: bracket_track_def)

lemma lex_step_brackets:
  assumes "lex_step s (Some tok) t" "scanner_inv s"
  shows "bracket_track (Some (map fst (open_brackets s))) (tok_kind tok)
    = Some (map fst (open_brackets t))"
  using assms(1)
proof cases
  case (plain k)
  then show ?thesis by (simp add: advances_layout plain_kind_def)
next
  case (bracket_open b k)
  then show ?thesis by (auto simp: open_table_def bracket_track_def split: if_splits)
next
  case (bracket_close b k bs opener p)
  have "map_of open_table opener \<noteq> None" using assms(2) bracket_close by (auto simp: scanner_inv_def)
  then show ?thesis using bracket_close
    by (auto simp: open_table_def close_table_def bracket_track_def close_of_def split: if_splits)
qed simp_all

lemma lex_step_silent_brackets: "lex_step s None t \<Longrightarrow> open_brackets t = open_brackets s"
  by (auto simp: lex_step_silent)

lemma reach_brackets:
  assumes "lex_reach source toks s"
  shows "brackets_after toks = Some (map fst (open_brackets s))"
  using assms
proof (induction rule: lex_reach.induct)
  case start
  show ?case by (simp add: scanner_new_def)
next
  case (silent toks s t)
  then show ?case using lex_step_silent_brackets by simp
next
  case (emit toks s tok t)
  then show ?case using lex_step_brackets [OF emit(2) reach_inv [OF emit(1)]] by simp
qed

section \<open>Where the layout tokens stand\<close>

text \<open>
  The queue is only filled outside brackets and after a logical line has ended, and
  \<open>last_was_content\<close> is what its name says.
\<close>

definition queue_inv :: "token list \<Rightarrow> scanner \<Rightarrow> bool" where
  "queue_inv toks s \<longleftrightarrow>
     (pending_indent s \<noteq> None \<or> pending_dedents s > 0 \<longrightarrow>
        open_brackets s = [] \<and> \<not> last_was_content s \<and> \<not> at_line_start s)
     \<and> (at_line_start s \<longrightarrow> \<not> last_was_content s)
     \<and> (last_was_content s \<longleftrightarrow> toks \<noteq> [] \<and> is_content (tok_kind (last toks)))
     \<and> (finished s \<longleftrightarrow> toks \<noteq> [] \<and> tok_kind (last toks) = Endmarker)"

lemma queue_inv_silent:
  assumes "lex_step s None t" "queue_inv toks s" "scanner_inv s"
  shows "queue_inv toks t"
proof -
  have "open_brackets s = []" if "at_line_start s"
    using assms(3) that unfolding scanner_inv_def by (metis length_0_conv)
  with assms(1) show ?thesis
    by cases (use assms(2) in \<open>auto simp: queue_inv_def idle_def dispatching_def\<close>)
qed

lemma queue_inv_emit:
  assumes "lex_step s (Some tok) t" "queue_inv toks s" "scanner_inv s"
  shows "queue_inv (toks @ [tok]) (settle (Some tok) t)"
proof -
  have fin: "finished t \<longleftrightarrow> tok_kind tok = Endmarker" using lex_step_finished [OF assms(1)] by simp
  have depth: "paren_depth s = 0 \<longleftrightarrow> open_brackets s = []" using assms(3) by (simp add: scanner_inv_def)
  from assms(1) show ?thesis
  proof cases
    case (plain k)
    then show ?thesis using assms(2) fin
      by (auto simp: queue_inv_def advances_layout advances_pending idle_def dispatching_def)
  next
    case (bracket_open b k)
    then show ?thesis using assms(2) fin by (auto simp: queue_inv_def idle_def dispatching_def)
  next
    case (bracket_close b k bs opener p)
    then show ?thesis using assms(2) fin by (auto simp: queue_inv_def idle_def dispatching_def)
  qed (use assms(2) fin depth in \<open>auto simp: queue_inv_def idle_def dispatching_def\<close>)
qed

lemma reach_queue: "lex_reach source toks s \<Longrightarrow> queue_inv toks s"
proof (induction rule: lex_reach.induct)
  case start
  show ?case by (simp add: queue_inv_def scanner_new_def)
next
  case (silent toks s t)
  then show ?case using queue_inv_silent reach_inv by blast
next
  case (emit toks s tok t)
  then show ?case using queue_inv_emit reach_inv by blast
qed

text \<open>What may stand where: the token's kind, given the state it is emitted in.\<close>

lemma lex_step_placement:
  assumes "lex_step s (Some tok) t" "queue_inv toks s" "scanner_inv s"
  shows "tok_kind tok \<in> {Newline, Indent, Dedent, Endmarker} \<Longrightarrow> open_brackets s = []"
    and "tok_kind tok = Nl \<Longrightarrow> open_brackets s \<noteq> []"
    and "tok_kind tok \<in> {Indent, Dedent, Endmarker} \<Longrightarrow> \<not> last_was_content s"
proof -
  have depth: "paren_depth s = 0 \<longleftrightarrow> open_brackets s = []" using assms(3) by (simp add: scanner_inv_def)
  note queue = assms(2) [unfolded queue_inv_def]
  show "tok_kind tok \<in> {Newline, Indent, Dedent, Endmarker} \<Longrightarrow> open_brackets s = []"
    using assms(1) depth queue
    by cases (auto dest: open_table_kind close_table_kind plain_not_layout)
  show "tok_kind tok = Nl \<Longrightarrow> open_brackets s \<noteq> []"
    using assms(1) depth queue
    by cases (auto dest: open_table_kind close_table_kind plain_not_layout)
  show "tok_kind tok \<in> {Indent, Dedent, Endmarker} \<Longrightarrow> \<not> last_was_content s"
    using assms(1) depth queue
    by cases (auto dest: open_table_kind close_table_kind plain_not_layout)
qed

text \<open>Every token was emitted in a reachable state, after the tokens before it.\<close>

lemma reach_split:
  assumes "lex_reach source toks s" "toks = xs @ tok # ys"
  shows "\<exists>u v. lex_reach source xs u \<and> lex_step u (Some tok) v"
  using assms
proof (induction arbitrary: ys rule: lex_reach.induct)
  case (emit toks s tok' t)
  show ?case
  proof (cases ys rule: rev_cases)
    case Nil
    then show ?thesis using emit by auto
  next
    case (snoc zs z)
    then show ?thesis using emit by (auto simp: append_eq_append_conv2)
  qed
qed auto

end
