(* ===== verification/Lex_Properties.thy ===== *)
theory Lex_Properties
  imports Lex_Invariants
begin

text \<open>
  The properties of the tokenizer: it returns on every input, the tokens it emits are
  ordered, cover the source, and form the layout the parser relies on; with the functional
  behaviour of the literal scanners, the keyword table and the string prefixes. The witnesses
  run the tokenizer on a small module.
\<close>

section \<open>A concrete run\<close>

declare tokenize_loop.simps [code]

text \<open>An environment without the Unicode tables, and the module \<open>if x:\n  y = (1)\n\<close>.\<close>

definition ascii_env :: lex_env where
  "ascii_env = \<lparr>is_xid_start = (\<lambda>c. False), is_xid_continue = (\<lambda>c. False), lang_preview = False\<rparr>"

lemma xid_sound_ascii_env: "xid_sound ascii_env"
  by (simp add: xid_sound_def ascii_env_def)

definition demo_source :: "u8 list" where
  "demo_source = ''if x:'' @ [c_lf] @ ''  y = (1)'' @ [c_lf]"

definition demo_tokens :: "token list" where
  "demo_tokens =
     [mk_token (Keyword Kw_If) 0 2, mk_token Name 3 4, mk_token Colon 4 5, mk_token Newline 5 6,
      mk_token Indent 6 8, mk_token Name 8 9, mk_token Equal 10 11, mk_token LPar 12 13,
      mk_token Number 13 14, mk_token RPar 14 15, mk_token Newline 15 16, mk_token Dedent 16 16,
      mk_token Endmarker 16 16]"

lemma demo_run: "tokenize_partial ascii_env demo_source = Some (Inr demo_tokens, [])"
  by code_simp

lemma demo_length: "length demo_source < 4294967296"
  by (simp add: demo_source_def)

section \<open>The tokenizer returns\<close>

definition tokens_of :: "(token list \<times> lex_error) + token list \<Rightarrow> token list" where
  "tokens_of r = (case r of Inl (toks, _) \<Rightarrow> toks | Inr toks \<Rightarrow> toks)"

lemma tokens_of_simps [simp]: "tokens_of (Inl (toks, e)) = toks" "tokens_of (Inr toks) = toks"
  by (simp_all add: tokens_of_def)

lemma tokenize_partial_reached:
  assumes "xid_sound E"
  shows "\<exists>r ws. tokenize_partial E source = Some (r, ws) \<and> reached source r"
  unfolding tokenize_partial_def
  by (rule tokenize_loop_reached [OF lex_reach.start _ assms]) (simp add: scanner_new_def)

lemma tokenize_reach:
  assumes "xid_sound E" "tokenize_partial E source = Some (r, ws)"
  obtains s where "lex_reach source (tokens_of r) s"
proof -
  obtain r' ws' where "tokenize_partial E source = Some (r', ws')" "reached source r'"
    using tokenize_partial_reached [OF assms(1)] by blast
  then have "reached source r" using assms(2) by simp
  then show thesis using that by (auto simp: reached_def split: sum.splits)
qed

lemma tokenize_success_reach:
  assumes "xid_sound E" "tokenize_partial E source = Some (Inr toks, ws)"
  obtains s where "lex_reach source toks s" "finished s"
proof -
  obtain r' ws' where "tokenize_partial E source = Some (r', ws')" "reached source r'"
    using tokenize_partial_reached [OF assms(1)] by blast
  then have "reached source (Inr toks)" using assms(2) by simp
  then show thesis using that by (auto simp: reached_def)
qed

text \<open>
  C2. On every source the tokenizer returns, with a token list or an error; no input makes
  its loop, or the mutually recursive f-string routines it calls, run forever.
\<close>

theorem tokenize_returns:
  assumes "xid_sound E"
  shows "\<exists>r ws. tokenize_partial E source = Some (r, ws)"
  using tokenize_partial_reached [OF assms] by blast

theorem tokenize_returns_witness:
  "\<exists>r ws. tokenize_partial ascii_env (CHR ''f'' # c_dq # ''{x:{y}'') = Some (r, ws)"
  by (rule tokenize_returns [OF xid_sound_ascii_env])

section \<open>Spans and coverage\<close>

text \<open>
  C15. The spans of the tokens are in source order and do not overlap, also on the tokens
  before an error: each token ends before the next begins, none ends past the source.
\<close>

theorem token_spans_ordered:
  assumes "xid_sound E" "length source < 4294967296" "tokenize_partial E source = Some (r, ws)"
  shows "sorted_wrt (\<lambda>a b. tok_end a \<le> tok_start b) (tokens_of r)
    \<and> list_all (\<lambda>t. tok_start t \<le> tok_end t \<and> tok_end t \<le> length source) (tokens_of r)"
proof -
  obtain s where s: "lex_reach source (tokens_of r) s"
    using assms(1,3) by (rule tokenize_reach)
  have "frontier s \<le> length source"
    using frontier_le [OF reach_inv [OF s]] reach_inv [OF s] reach_src [OF s] by (simp add: scanner_inv_def)
  then show ?thesis using reach_spans [OF s assms(2)]
    by (fastforce simp: before_def [abs_def] list_all_iff)
qed

theorem token_spans_ordered_witness:
  "sorted_wrt (\<lambda>a b. tok_end a \<le> tok_start b) demo_tokens
    \<and> list_all (\<lambda>t. tok_start t \<le> tok_end t \<and> tok_end t \<le> length demo_source) demo_tokens"
  using token_spans_ordered [OF xid_sound_ascii_env demo_length demo_run] by simp

text \<open>
  C12. No byte of the source is lost: a byte that is in no token's span is layout (a blank, a
  line continuation's backslash, a line break).
\<close>

theorem no_byte_lost:
  assumes "xid_sound E" "length source < 4294967296" "tokenize_partial E source = Some (Inr toks, ws)"
    "i < length source"
  shows "layout_byte (source ! i) \<or> (\<exists>t \<in> set toks. tok_start t \<le> i \<and> i < tok_end t)"
proof -
  obtain s where s: "lex_reach source toks s" "finished s"
    using assms(1,3) by (rule tokenize_success_reach)
  then have "pos s = length source" using finished_at_end by blast
  then show ?thesis using reach_covers [OF s(1) assms(2)] assms(4) by (simp add: covers_def)
qed

theorem no_byte_lost_witness:
  "layout_byte (demo_source ! 3) \<or> (\<exists>t \<in> set demo_tokens. tok_start t \<le> 3 \<and> 3 < tok_end t)"
  by (rule no_byte_lost [OF xid_sound_ascii_env demo_length demo_run]) (simp add: demo_source_def)

section \<open>Layout\<close>

lemma reach_append: "lex_reach source (xs @ ys) s \<Longrightarrow> \<exists>u. lex_reach source xs u"
  using reach_split [of source "xs @ ys" s xs] by (cases ys) auto

lemma tokenize_prefix_reach:
  assumes "xid_sound E" "tokenize_partial E source = Some (r, ws)" "tokens_of r = xs @ ys"
  obtains u where "lex_reach source xs u"
  using tokenize_reach [OF assms(1,2)] reach_append assms(3) by metis

text \<open>
  C14. INDENT and DEDENT balance: at no point of the stream have more blocks been closed than
  opened, never are more than 99 open, and a successful stream closes them all.
\<close>

theorem indents_balance:
  assumes "xid_sound E" "tokenize_partial E source = Some (r, ws)" "tokens_of r = xs @ ys"
  shows "kind_count Dedent xs \<le> kind_count Indent xs \<and> kind_count Indent xs \<le> kind_count Dedent xs + 99
    \<and> (r = Inr xs \<longrightarrow> kind_count Indent xs = kind_count Dedent xs)"
proof -
  obtain u where u: "lex_reach source xs u" using assms by (rule tokenize_prefix_reach)
  have b: "balance (kind_count Indent xs) (kind_count Dedent xs) u" by (rule reach_balance [OF u])
  have "kind_count Indent xs = kind_count Dedent xs" if "r = Inr xs"
  proof -
    obtain s where s: "lex_reach source xs s" "finished s"
      using tokenize_success_reach assms(1,2) \<open>r = Inr xs\<close> by metis
    then show ?thesis using reach_balance [OF s(1)] finished_at_end [OF s(1)] by (simp add: balance_def)
  qed
  moreover obtain m where "length (indents u) = Suc m"
    using b by (cases "indents u") (simp_all add: balance_def)
  ultimately show ?thesis using b
    by (cases "pending_indent u") (simp_all add: balance_def MAXINDENT_def)
qed

theorem indents_balance_witness:
  "kind_count Dedent demo_tokens \<le> kind_count Indent demo_tokens
    \<and> kind_count Indent demo_tokens \<le> kind_count Dedent demo_tokens + 99
    \<and> kind_count Indent demo_tokens = kind_count Dedent demo_tokens"
  using indents_balance [OF xid_sound_ascii_env demo_run, of demo_tokens "[]"] by simp

text \<open>
  C13. Brackets nest: on every prefix of the stream each closing token matches the innermost
  open bracket, at most 200 are open, and a successful stream leaves none open.
\<close>

theorem brackets_nest:
  assumes "xid_sound E" "tokenize_partial E source = Some (r, ws)" "tokens_of r = xs @ ys"
  shows "\<exists>bs. brackets_after xs = Some bs \<and> length bs \<le> 200 \<and> (r = Inr xs \<longrightarrow> bs = [])"
proof -
  obtain u where u: "lex_reach source xs u" using assms by (rule tokenize_prefix_reach)
  have "open_brackets u = []" if "r = Inr xs"
  proof -
    obtain s where s: "lex_reach source xs s" "finished s"
      using tokenize_success_reach assms(1,2) \<open>r = Inr xs\<close> by metis
    then show ?thesis using reach_brackets [OF s(1)] reach_brackets [OF u] finished_at_end [OF s(1)] by simp
  qed
  then show ?thesis using reach_brackets [OF u] reach_inv [OF u]
    by (auto simp: scanner_inv_def MAXLEVEL_def)
qed

theorem brackets_nest_witness:
  "brackets_after demo_tokens = Some []"
  using brackets_nest [OF xid_sound_ascii_env demo_run, of demo_tokens "[]"] by simp

text \<open>
  NEWLINE, INDENT, DEDENT and ENDMARKER are emitted only outside brackets, NL only inside.
\<close>

theorem layout_outside_brackets:
  assumes "xid_sound E" "tokenize_partial E source = Some (r, ws)" "tokens_of r = xs @ tok # ys"
  shows "\<exists>bs. brackets_after xs = Some bs
    \<and> (tok_kind tok \<in> {Newline, Indent, Dedent, Endmarker} \<longrightarrow> bs = [])
    \<and> (tok_kind tok = Nl \<longrightarrow> bs \<noteq> [])"
proof -
  obtain s where s: "lex_reach source (tokens_of r) s" using assms(1,2) by (rule tokenize_reach)
  obtain u v where u: "lex_reach source xs u" "lex_step u (Some tok) v"
    using reach_split [OF s assms(3)] by blast
  show ?thesis
    using reach_brackets [OF u(1)] lex_step_placement [OF u(2) reach_queue [OF u(1)] reach_inv [OF u(1)]]
    by auto
qed

theorem layout_outside_brackets_witness:
  "\<exists>bs. brackets_after (take 3 demo_tokens) = Some bs
    \<and> (tok_kind (demo_tokens ! 3) \<in> {Newline, Indent, Dedent, Endmarker} \<longrightarrow> bs = [])
    \<and> (tok_kind (demo_tokens ! 3) = Nl \<longrightarrow> bs \<noteq> [])"
  by (rule layout_outside_brackets [OF xid_sound_ascii_env demo_run, of _ _ "drop 4 demo_tokens"])
     (simp add: demo_tokens_def)

text \<open>
  A successful stream has exactly one ENDMARKER, its last token; a stream cut short by an
  error has none.
\<close>

theorem one_endmarker:
  assumes "xid_sound E" "tokenize_partial E source = Some (r, ws)"
  shows "kind_count Endmarker (tokens_of r) = (case r of Inl _ \<Rightarrow> 0 | Inr _ \<Rightarrow> 1)
    \<and> (\<forall>toks. r = Inr toks \<longrightarrow> toks \<noteq> [] \<and> tok_kind (last toks) = Endmarker)"
proof -
  have "reached source r"
    using tokenize_partial_reached [OF assms(1), of source] assms(2) by auto
  then obtain s where s: "lex_reach source (tokens_of r) s" "finished s \<longleftrightarrow> (\<exists>toks. r = Inr toks)"
    by (auto simp: reached_def split: sum.splits)
  have inner: "kind_count Endmarker xs = 0" if "lex_reach source xs u" "\<not> finished u" for xs u
    using that
  proof (induction rule: lex_reach.induct)
    case (silent toks s t)
    then show ?case using lex_step_finished(1) by blast
  next
    case (emit toks s tok t)
    then show ?case using lex_step_finished [OF emit(2)] by simp
  qed simp
  show ?thesis
  proof (cases "finished s")
    case False
    then show ?thesis using inner [OF s(1)] s(2) by (cases r) auto
  next
    case True
    then obtain xs tok where xs: "tokens_of r = xs @ [tok]" "tok_kind tok = Endmarker"
      using reach_queue [OF s(1)] by (cases "tokens_of r" rule: rev_cases) (auto simp: queue_inv_def)
    obtain u v where u: "lex_reach source xs u" "lex_step u (Some tok) v"
      using reach_split [OF s(1) xs(1)] by blast
    then have "kind_count Endmarker xs = 0" using inner lex_step_finished(1) by blast
    then show ?thesis using xs s(2) True by (cases r) auto
  qed
qed

theorem one_endmarker_witness:
  "kind_count Endmarker demo_tokens = 1 \<and> demo_tokens \<noteq> [] \<and> tok_kind (last demo_tokens) = Endmarker"
  using one_endmarker [OF xid_sound_ascii_env demo_run] by simp

text \<open>
  Every logical line is closed: a content token is never followed directly by INDENT,
  DEDENT or ENDMARKER (a NEWLINE is supplied at the end of a source that lacks one).
\<close>

theorem lines_closed:
  assumes "xid_sound E" "tokenize_partial E source = Some (r, ws)" "tokens_of r = xs @ a # b # ys"
    "is_content (tok_kind a)"
  shows "tok_kind b \<notin> {Indent, Dedent, Endmarker}"
proof -
  obtain s where s: "lex_reach source (tokens_of r) s" using assms(1,2) by (rule tokenize_reach)
  obtain u v where u: "lex_reach source (xs @ [a]) u" "lex_step u (Some b) v"
    using reach_split [OF s, of "xs @ [a]" b ys] assms(3) by auto
  have "last_was_content u" using reach_queue [OF u(1)] assms(4) by (simp add: queue_inv_def)
  then show ?thesis
    using lex_step_placement(3) [OF u(2) reach_queue [OF u(1)] reach_inv [OF u(1)]] by blast
qed

definition cut_tokens :: "token list" where
  "cut_tokens = [mk_token Name 0 1, mk_token Newline 1 1, mk_token Endmarker 1 1]"

lemma cut_run: "tokenize_partial ascii_env ''x'' = Some (Inr cut_tokens, [])"
  by code_simp

theorem lines_closed_witness:
  "tokenize_partial ascii_env ''x'' = Some (Inr cut_tokens, [])
    \<and> tok_kind (cut_tokens ! 1) \<notin> {Indent, Dedent, Endmarker}"
  using cut_run lines_closed [OF xid_sound_ascii_env cut_run, of "[]" "cut_tokens ! 0" "cut_tokens ! 1" "[cut_tokens ! 2]"]
  by (simp add: cut_tokens_def is_content_def)

section \<open>The first indentation\<close>

text \<open>A token that counts as content for the check of an unexpected indent.\<close>

definition counting :: "token \<Rightarrow> bool" where
  "counting t \<longleftrightarrow> is_content (tok_kind t) \<and> tok_kind t \<noteq> Comment"

text \<open>The INDENT an unexpected indent is reported for: the last one before any content.\<close>

definition first_indent :: "token list \<Rightarrow> u32 option" where
  "first_indent toks =
    (let indents = filter (\<lambda>t. tok_kind t = Indent) (takeWhile (\<lambda>t. \<not> counting t) toks)
     in if indents = [] then None else Some (span_start (tok_span (last indents))))"

text \<open>What the scanner yields call by call, without the check of the first indentation.\<close>

partial_function (option) scan_stream ::
  "lex_env \<Rightarrow> scanner \<Rightarrow> token list \<Rightarrow> ((token list \<times> lex_error) + token list) option" where
  "scan_stream E s out = (case next_token E s of
      None \<Rightarrow> None
    | Some (r, s1) \<Rightarrow> (case r of
        Inl e \<Rightarrow> Some (Inl (out, e))
      | Inr None \<Rightarrow> scan_stream E s1 out
      | Inr (Some tok) \<Rightarrow>
          if tok_kind tok = Endmarker then Some (Inr (out @ [tok]))
          else scan_stream E (s1\<lparr>last_was_content := is_content (tok_kind tok)\<rparr>) (out @ [tok])))"

text \<open>A stream cut before its first content token when an INDENT precedes that.\<close>

definition cut_at_indent :: "(token list \<times> lex_error) + token list \<Rightarrow> (token list \<times> lex_error) + token list" where
  "cut_at_indent r =
    (case (first_indent (tokens_of r), dropWhile (\<lambda>t. \<not> counting t) (tokens_of r)) of
       (Some p, tok # _) \<Rightarrow>
         (let start = span_start (tok_span tok)
          in Inl (takeWhile (\<lambda>t. \<not> counting t) (tokens_of r), UnexpectedIndent (if start > p then start - 1 else start)))
     | _ \<Rightarrow> r)"

lemma first_indent_snoc:
  "first_indent (toks @ [t]) =
    (if \<not> list_ex counting toks \<and> tok_kind t = Indent then Some (span_start (tok_span t)) else first_indent toks)"
proof (cases "list_ex counting toks")
  case True
  then obtain x where "x \<in> set toks" "counting x" by (auto simp: list_ex_iff)
  then show ?thesis using True by (simp add: first_indent_def takeWhile_append1)
next
  case False
  then have eqs: "takeWhile (\<lambda>t. \<not> counting t) (toks @ [t]) = toks @ takeWhile (\<lambda>t. \<not> counting t) [t]"
    "takeWhile (\<lambda>t. \<not> counting t) toks = toks"
    by (auto simp: list_ex_iff takeWhile_append2 takeWhile_eq_all_conv)
  have "tok_kind t = Indent \<Longrightarrow> \<not> counting t" by (simp add: counting_def is_content_def)
  then show ?thesis unfolding first_indent_def eqs using False
    by (simp add: Let_def)
qed

lemma cut_nothing:
  "\<not> (first_indent (tokens_of r) \<noteq> None \<and> list_ex counting (tokens_of r)) \<Longrightarrow> cut_at_indent r = r"
proof -
  assume "\<not> (first_indent (tokens_of r) \<noteq> None \<and> list_ex counting (tokens_of r))"
  then consider "first_indent (tokens_of r) = None" | "dropWhile (\<lambda>t. \<not> counting t) (tokens_of r) = []"
    by (auto simp: list_ex_iff)
  then show ?thesis
  proof cases
    case 2
    show ?thesis unfolding cut_at_indent_def 2 by (simp split: option.split)
  qed (simp add: cut_at_indent_def)
qed

text \<open>The loop's two flags are functions of the tokens so far.\<close>

definition loop_flags :: "token list \<Rightarrow> bool \<Rightarrow> u32 option \<Rightarrow> bool" where
  "loop_flags toks seen pend \<longleftrightarrow> (seen \<longleftrightarrow> list_ex counting toks)
     \<and> pend = first_indent toks \<and> \<not> (seen \<and> pend \<noteq> None)"

lemma stream_returns:
  assumes "lex_reach source toks s" "\<not> finished s" "xid_sound E"
  shows "\<exists>r ys. scan_stream E s toks = Some r \<and> tokens_of r = toks @ ys"
  using assms
proof (induction s arbitrary: toks rule: measure_induct_rule [where f = lex_measure])
  case (less s)
  have inv: "scanner_inv s" using less(2) by (rule reach_inv)
  obtain v t where nt: "next_token E s = Some (v, t)"
    using next_token_returns [OF inv less(3,4)] by auto
  show ?case
  proof (cases v)
    case (Inl e)
    then show ?thesis by (simp add: scan_stream.simps [of E s] nt)
  next
    case (Inr out)
    have call: "lex_call s out t" using next_token_call [OF inv less(3,4)] nt Inr by simp
    have next': "lex_reach source (toks @ emitted out) (settle out t)"
      "lex_measure (settle out t) < lex_measure s"
      "finished (settle out t) \<longleftrightarrow> (\<exists>tok. out = Some tok \<and> tok_kind tok = Endmarker)"
      using reach_call [OF call less(2)] lex_call_facts [OF call inv] lex_call_finished [OF call]
      by (simp_all add: settle_def split: option.split)
    have IH: "\<not> finished (settle out t) \<Longrightarrow>
        \<exists>r ys. scan_stream E (settle out t) (toks @ emitted out) = Some r \<and> tokens_of r = (toks @ emitted out) @ ys"
      using less(1) [OF next'(2,1) _ less(4)] by blast
    show ?thesis
    proof (cases out)
      case None
      then show ?thesis using IH next'(3) by (simp add: scan_stream.simps [of E s] nt Inr)
    next
      case (Some tok)
      then show ?thesis using IH next'(3)
        by (cases "tok_kind tok = Endmarker") (auto simp: scan_stream.simps [of E s] nt Inr)
    qed
  qed
qed

lemma loop_is_cut_stream:
  assumes "lex_reach source toks s" "\<not> finished s" "xid_sound E" "loop_flags toks seen pend"
  shows "map_option fst (tokenize_loop E s toks seen pend) = map_option cut_at_indent (scan_stream E s toks)"
  using assms
proof (induction s arbitrary: toks seen pend rule: measure_induct_rule [where f = lex_measure])
  case (less s)
  have inv: "scanner_inv s" using less(2) by (rule reach_inv)
  have flags: "\<not> (first_indent toks \<noteq> None \<and> list_ex counting toks)" "pend = first_indent toks" "seen = list_ex counting toks"
    using less(5) by (auto simp: loop_flags_def)
  obtain v t where nt: "next_token E s = Some (v, t)"
    using next_token_returns [OF inv less(3,4)] by auto
  note unfolds = tokenize_loop.simps [of E s] scan_stream.simps [of E s] nt option.case prod.case
  show ?case
  proof (cases v)
    case (Inl e)
    then show ?thesis using cut_nothing [of "Inl (toks, e)"] flags(1) by (simp add: unfolds)
  next
    case (Inr out)
    have call: "lex_call s out t" using next_token_call [OF inv less(3,4)] nt Inr by simp
    have next': "lex_reach source (toks @ emitted out) (settle out t)"
      "lex_measure (settle out t) < lex_measure s"
      "finished (settle out t) \<longleftrightarrow> (\<exists>tok. out = Some tok \<and> tok_kind tok = Endmarker)"
      using reach_call [OF call less(2)] lex_call_facts [OF call inv] lex_call_finished [OF call]
      by (simp_all add: settle_def split: option.split)
    note IH = less(1) [OF next'(2,1) _ less(4)]
    show ?thesis
    proof (cases out)
      case None
      then show ?thesis using IH next'(3) less(5) Inr by (simp add: unfolds)
    next
      case (Some tok)
      define pend1 where "pend1 = (if \<not> seen \<and> tok_kind tok = Indent then Some (span_start (tok_span tok)) else pend)"
      have p1: "pend1 = first_indent (toks @ [tok])" using flags by (simp add: pend1_def first_indent_snoc)
      show ?thesis
      proof (cases "counting tok \<and> pend1 \<noteq> None")
        case True
        then have k: "tok_kind tok \<noteq> Indent" "tok_kind tok \<noteq> Endmarker" by (auto simp: counting_def is_content_def)
        then obtain p where p: "pend = Some p" "pend1 = Some p" using True by (auto simp: pend1_def)
        then have none: "\<not> list_ex counting toks" using flags by auto
        have "\<not> finished (settle (Some tok) t)" using next'(3) Some k by simp
        then obtain r ys where r: "scan_stream E (settle (Some tok) t) (toks @ [tok]) = Some r" "tokens_of r = (toks @ [tok]) @ ys"
          using stream_returns [OF next'(1) _ less(4)] Some by auto
        have tw: "takeWhile (\<lambda>t. \<not> counting t) (toks @ tok # ys) = toks" "dropWhile (\<lambda>t. \<not> counting t) (toks @ tok # ys) = tok # ys"
          using none True by (auto simp: list_ex_iff takeWhile_append2 dropWhile_append2)
        have "first_indent (toks @ tok # ys) = Some p"
          using p(1) flags(2) tw(1) none unfolding first_indent_def by (metis (no_types, lifting) takeWhile_eq_all_conv list_ex_iff)
        then have "cut_at_indent r = Inl (toks, UnexpectedIndent (let start = span_start (tok_span tok) in if start > p then start - 1 else start))"
          using r(2) by (simp add: cut_at_indent_def tw Let_def)
        then show ?thesis
          using True p k r(1) Some Inr by (simp add: unfolds counting_def Let_def pend1_def [symmetric])
      next
        case False
        have go: "tokenize_loop E s toks seen pend =
            (if tok_kind tok = Endmarker then Some (Inr (toks @ [tok]), escape_warnings (settle (Some tok) t))
             else tokenize_loop E (settle (Some tok) t) (toks @ [tok]) (seen \<or> counting tok) pend1)"
          using False Some Inr by (auto simp: unfolds counting_def Let_def pend1_def)
        have fl: "loop_flags (toks @ [tok]) (seen \<or> counting tok) pend1"
          using False flags p1 by (auto simp: loop_flags_def pend1_def split: if_splits)
        show ?thesis
        proof (cases "tok_kind tok = Endmarker")
          case True
          then have "cut_at_indent (Inr (toks @ [tok])) = Inr (toks @ [tok])"
            using fl by (intro cut_nothing) (auto simp: loop_flags_def)
          then show ?thesis using True Some Inr by (simp add: go unfolds)
        next
          case e: False
          then show ?thesis using IH [of "seen \<or> counting tok" pend1] fl next'(3) Some Inr
            by (simp add: go) (simp add: unfolds)
        qed
      qed
    qed
  qed
qed

text \<open>
  C33. The tokenizer returns what the scanner yields, call by call up to its ENDMARKER or its
  error, except that the stream is cut before its first content token when an INDENT came
  earlier: the result is then the unexpected-indent error at the column before that token.
  A scanning error met before any content token stays the result.
\<close>

theorem unexpected_indent_reported:
  assumes "xid_sound E"
  shows "\<exists>r. scan_stream E (scanner_new source) [] = Some r
    \<and> map_option fst (tokenize_partial E source) = Some (cut_at_indent r)"
proof -
  have start: "lex_reach source [] (scanner_new source)" "\<not> finished (scanner_new source)"
    by (rule lex_reach.start) (simp add: scanner_new_def)
  obtain r where "scan_stream E (scanner_new source) [] = Some r"
    using stream_returns [OF start assms] by blast
  then show ?thesis
    using loop_is_cut_stream [OF start assms, of False None]
    by (simp add: tokenize_partial_def loop_flags_def first_indent_def)
qed

text \<open>An indented first statement, and an indented lexical error.\<close>

theorem unexpected_indent_reported_witness:
  "(\<exists>r. map_option fst (tokenize_partial ascii_env '' x'') = Some (cut_at_indent r))
    \<and> tokenize ascii_env '' x'' = Some (Inl (UnexpectedIndent 0))
    \<and> tokenize ascii_env ''  $'' = Some (Inl (InvalidToken 2))"
proof (intro conjI)
  show "\<exists>r. map_option fst (tokenize_partial ascii_env '' x'') = Some (cut_at_indent r)"
    using unexpected_indent_reported [OF xid_sound_ascii_env, of "'' x''"] by blast
  show "tokenize ascii_env '' x'' = Some (Inl (UnexpectedIndent 0))" by code_simp
  show "tokenize ascii_env ''  $'' = Some (Inl (InvalidToken 2))" by code_simp
qed

end
