(* ===== verification/Lex_Literals.thy ===== *)
theory Lex_Literals
  imports Lex_Properties
begin

text \<open>
  What the lexer's small components compute: the keyword table, the string prefixes, the UTF-8
  decoder, and the literal scanners on the texts they accept.
\<close>

section \<open>Keywords\<close>

lemma keyword_table_spelling: "list_all (\<lambda>(s, k). keyword_as_str k = s) keyword_table"
  by (simp add: keyword_table_def)

text \<open>
  The keyword table and the spelling of a keyword are inverse: an identifier is a
  keyword exactly when it is that keyword's spelling.
\<close>

theorem keyword_round_trip: "keyword_from_ident s = Some k \<longleftrightarrow> s = keyword_as_str k"
proof
  assume "keyword_from_ident s = Some k"
  then have "(s, k) \<in> set keyword_table" by (auto simp: keyword_from_ident_def dest: map_of_SomeD)
  then show "s = keyword_as_str k" using keyword_table_spelling by (auto simp: list_all_iff)
next
  assume "s = keyword_as_str k"
  then show "keyword_from_ident s = Some k"
    by (cases k) (simp_all add: keyword_from_ident_def keyword_table_def)
qed

section \<open>String prefixes\<close>

definition flags_of :: "string_prefix \<Rightarrow> prefix_flags" where
  "flags_of p = \<lparr>pf_b = sp_bytes p, pf_r = sp_raw p, pf_u = sp_unicode p, pf_f = sp_fstring p,
     pf_t = sp_template p\<rparr>"

lemma prefix_loops_agree:
  "map_option flags_of (string_prefix_loop True p bs) = prefix_flags_loop (flags_of p) bs"
proof (induction bs arbitrary: p)
  case Nil
  show ?case by simp
next
  case (Cons b bs)
  have upd: "flags_of (p\<lparr>sp_raw := True\<rparr>) = (flags_of p)\<lparr>pf_r := True\<rparr>"
    "flags_of (p\<lparr>sp_bytes := True\<rparr>) = (flags_of p)\<lparr>pf_b := True\<rparr>"
    "flags_of (p\<lparr>sp_fstring := True\<rparr>) = (flags_of p)\<lparr>pf_f := True\<rparr>"
    "flags_of (p\<lparr>sp_unicode := True\<rparr>) = (flags_of p)\<lparr>pf_u := True\<rparr>"
    "flags_of (p\<lparr>sp_template := True\<rparr>) = (flags_of p)\<lparr>pf_t := True\<rparr>"
    "pf_r (flags_of p) = sp_raw p" "pf_b (flags_of p) = sp_bytes p" "pf_f (flags_of p) = sp_fstring p"
    "pf_u (flags_of p) = sp_unicode p" "pf_t (flags_of p) = sp_template p"
    by (simp_all add: flags_of_def)
  consider "to_ascii_lowercase b = CHR ''r''" | "to_ascii_lowercase b = CHR ''b''"
    | "to_ascii_lowercase b = CHR ''f''" | "to_ascii_lowercase b = CHR ''u''"
    | "to_ascii_lowercase b = CHR ''t''"
    | "to_ascii_lowercase b \<notin> {CHR ''r'', CHR ''b'', CHR ''f'', CHR ''u'', CHR ''t''}" by blast
  then show ?case
    by cases (simp_all add: string_prefix_step_def Let_def Cons upd)
qed

lemma conflict_iff_clash: "string_prefix_conflict p \<longleftrightarrow> find fst (clash_pairs (flags_of p)) \<noteq> None"
  by (auto simp: string_prefix_conflict_def clash_pairs_def flags_of_def)

text \<open>
  The two analyses of a string prefix agree: (with the preview gate on) a prefix is
  rejected exactly when it is no run of distinct prefix letters or a clashing pair is
  reported for it.
\<close>

theorem prefix_rejected_iff_reported:
  "string_prefix_parse True p = None \<longleftrightarrow>
     prefix_flags_loop no_prefix_flags p = None \<or> (\<exists>pair. incompatible_prefix_pair p = Some pair)"
proof -
  have init: "flags_of string_prefix_default = no_prefix_flags"
    by (simp add: flags_of_def string_prefix_default_def no_prefix_flags_def)
  have loops: "prefix_flags_loop no_prefix_flags p
      = map_option flags_of (string_prefix_loop True string_prefix_default p)"
    using prefix_loops_agree [of string_prefix_default p] init by simp
  show ?thesis
    unfolding string_prefix_parse_def incompatible_prefix_pair_def loops
    by (cases "string_prefix_loop True string_prefix_default p")
       (auto simp: conflict_iff_clash)
qed

section \<open>UTF-8\<close>

definition lead_width :: "nat \<Rightarrow> nat" where
  "lead_width a = (if a AND 0b11100000 = 0b11000000 then 2
     else if a AND 0b11110000 = 0b11100000 then 3
     else if a AND 0b11111000 = 0b11110000 then 4 else 0)"

definition lead_width_range :: "nat \<Rightarrow> nat" where
  "lead_width_range a = (if 192 \<le> a \<and> a \<le> 223 then 2 else if 224 \<le> a \<and> a \<le> 239 then 3
     else if 240 \<le> a \<and> a \<le> 247 then 4 else 0)"

lemma lead_width_table: "list_all (\<lambda>a. lead_width a = lead_width_range a) [0..<256]"
  by code_simp

lemma byte_less: "byte b < 256"
  by (simp add: byte_def)

lemma lead_width: "lead_width (byte b) = lead_width_range (byte b)"
  using lead_width_table byte_less [of b] by (simp add: list_all_iff)

lemma from_utf8_ok_one:
  assumes "utf8_first bs = Some (c, w)" "length bs = w"
  shows "from_utf8_ok bs"
  using assms utf8_first_width [OF assms(1)] by (simp add: from_utf8_ok.simps [of bs])

lemma utf8_first_lead:
  "utf8_first (b # bs) = Some (c, w) \<Longrightarrow> \<not> byte b \<le> 127 \<Longrightarrow> w = lead_width_range (byte b)"
  by (auto simp: utf8_first_def lead_width_range_def Let_def split: if_splits list.splits)

text \<open>Only the bytes of the character matter.\<close>

lemma utf8_first_shape:
  assumes "utf8_first bs = Some (c, w)"
  shows "\<exists>b0 r. bs = b0 # r \<and> (byte b0 \<le> 127 \<and> w = 1
     \<or> 194 \<le> byte b0 \<and> byte b0 \<le> 223 \<and> w = 2
     \<or> 224 \<le> byte b0 \<and> byte b0 \<le> 239 \<and> w = 3
     \<or> 240 \<le> byte b0 \<and> byte b0 \<le> 244 \<and> w = 4)"
  using assms by (cases bs) (auto simp: utf8_first_def Let_def split: if_splits list.splits)

lemma take_Suc_eqD:
  "take (Suc n) ys = take (Suc n) (b # r) \<Longrightarrow> \<exists>ys'. ys = b # ys' \<and> take n ys' = take n r"
  by (cases ys) simp_all

lemma utf8_first_cong:
  assumes "utf8_first bs = Some (c, w)" "take w ys = take w bs"
  shows "utf8_first ys = Some (c, w)"
proof -
  have w: "w \<le> length bs" using utf8_first_width [OF assms(1)] by simp
  obtain b0 r where bs: "bs = b0 # r" and k: "byte b0 \<le> 127 \<and> w = 1
     \<or> 194 \<le> byte b0 \<and> byte b0 \<le> 223 \<and> w = 2
     \<or> 224 \<le> byte b0 \<and> byte b0 \<le> 239 \<and> w = 3
     \<or> 240 \<le> byte b0 \<and> byte b0 \<le> 244 \<and> w = 4"
    using utf8_first_shape [OF assms(1)] by blast
  then have "0 < w" by auto
  then obtain m where m: "w = Suc m" by (cases w) auto
  then obtain r' where ys: "ys = b0 # r'" "take m r' = take m r"
    using assms(2) bs take_Suc_eqD [of m ys b0 r] by auto
  consider "byte b0 \<le> 127" "w = 1" | b1 r1 where "194 \<le> byte b0" "byte b0 \<le> 223" "w = 2" "r = b1 # r1"
    | b1 b2 r1 where "224 \<le> byte b0" "byte b0 \<le> 239" "w = 3" "r = b1 # b2 # r1"
    | b1 b2 b3 r1 where "240 \<le> byte b0" "byte b0 \<le> 244" "w = 4" "r = b1 # b2 # b3 # r1"
    using k w bs by (cases r; cases "tl r"; cases "tl (tl r)") auto
  then show ?thesis
  proof cases
    case 1
    then show ?thesis using assms(1) bs ys by (simp add: utf8_first_def)
  next
    case 2
    then obtain r1' where "r' = b1 # r1'" using ys m by (cases r') auto
    then show ?thesis using assms(1) bs ys 2 by (simp add: utf8_first_def)
  next
    case 3
    then obtain r1' where "r' = b1 # b2 # r1'" using ys m by (cases r'; cases "tl r'") auto
    then show ?thesis using assms(1) bs ys 3 by (simp add: utf8_first_def)
  next
    case 4
    then obtain r1' where "r' = b1 # b2 # b3 # r1'"
      using ys m by (cases r'; cases "tl r'"; cases "tl (tl r')") auto
    then show ?thesis using assms(1) bs ys 4 by (simp add: utf8_first_def)
  qed
qed

lemma utf8_first_take: "utf8_first bs = Some (c, w) \<Longrightarrow> utf8_first (take w bs) = Some (c, w)"
  by (erule utf8_first_cong) simp

lemma utf8_first_append: "utf8_first bs = Some (c, w) \<Longrightarrow> utf8_first (bs @ xs) = Some (c, w)"
  using utf8_first_width [of bs c w] by (auto elim: utf8_first_cong)

text \<open>
  The scanner's decoder, which takes the width from the leading byte's bits, decodes a
  character exactly when the standard's table has one there, and the same character.
\<close>

theorem decode_utf8_standard: "decode_utf8 bs = utf8_first bs"
proof (cases bs)
  case Nil
  then show ?thesis by (simp add: decode_utf8_def utf8_first_def)
next
  case (Cons b r)
  show ?thesis
  proof (cases "byte b \<le> 127")
    case True
    then show ?thesis using Cons by (simp add: decode_utf8_def utf8_first_def)
  next
    case False
    define w where "w = lead_width_range (byte b)"
    have dec: "decode_utf8 bs = (if w = 0 \<or> length bs < w then None
        else if from_utf8_ok (take w bs)
             then (case utf8_first (take w bs) of None \<Rightarrow> None | Some (ch, _) \<Rightarrow> Some (ch, w)) else None)"
      using False Cons lead_width [of b]
      by (simp add: decode_utf8_def w_def lead_width_def [symmetric] Let_def split: option.split)
    show ?thesis
    proof (cases "utf8_first bs")
      case None
      have "utf8_first (take w bs) = None"
        using utf8_first_append [of "take w bs" _ _ "drop w bs"] None
        by (cases "utf8_first (take w bs)") auto
      then show ?thesis using None dec by simp
    next
      case (Some cw)
      obtain c w' where cw: "utf8_first bs = Some (c, w')" using Some by (cases cw) simp
      then have "w' = w" "0 < w'" "w' \<le> length bs"
        using utf8_first_lead [of b r c w'] utf8_first_width [OF cw] Cons False by (simp_all add: w_def)
      then show ?thesis
        using dec cw utf8_first_take [OF cw] from_utf8_ok_one [of "take w bs" c w] by simp
    qed
  qed
qed

section \<open>Strings and f-strings\<close>

text \<open>
  \<open>scan_string\<close> always returns, whatever follows the quote: its loops end and the
  five routines of an f-string never nest deeper than the fuel it gives them. On success the
  token runs from \<open>start\<close> to the cursor, which has moved and stays in the source, and the
  f-string nesting state is what it was.
\<close>

theorem scan_string_contract:
  assumes "peek s = Some quote" "fstring_level s \<le> 150"
  shows "\<exists>r u. scan_string lp start prefix s = Some (r, u)
    \<and> (\<forall>tok. r = Inr tok \<longrightarrow> tok = mk_token StringTok start (pos u) \<and> pos s < pos u
         \<and> pos u \<le> length (src s) \<and> src u = src s
         \<and> fstring_level u = fstring_level s \<and> fstring_kinds u = fstring_kinds s)"
proof -
  have sane: "fs_sane s" using assms by (auto simp: fs_sane_def peek_Some_iff)
  have tok: "tokr StringTok start s (scan_string lp start prefix s)"
    using assms(1) sane by (rule tokr_scan_string)
  then obtain r u where ru: "scan_string lp start prefix s = Some (r, u)"
    using tokr_not_None [OF tok] by auto
  have "tok' = mk_token StringTok start (pos u) \<and> pos s < pos u
         \<and> pos u \<le> length (src s) \<and> src u = src s
         \<and> fstring_level u = fstring_level s \<and> fstring_kinds u = fstring_kinds s" if "r = Inr tok'" for tok'
  proof -
    have "advances s u" "tok' = mk_token StringTok start (pos u)" "pos s < pos u"
      using tokr_D [OF tok] ru that by auto
    moreover have "pos s \<le> length (src s)" using assms(1) by (simp add: peek_Some_iff)
    ultimately show ?thesis by (auto elim!: advancesE)
  qed
  then show ?thesis using ru by blast
qed

definition fstring_demo :: "u8 list" where
  "fstring_demo = [c_dq] @ ''a{b:{c}}{d[1]}'' @ [c_dq]"

theorem scan_string_contract_witness:
  "peek (scanner_new fstring_demo) = Some c_dq
   \<and> (\<exists>r u. scan_string False 0 (string_prefix_default\<lparr>sp_fstring := True\<rparr>) (scanner_new fstring_demo)
        = Some (r, u)
     \<and> (\<forall>tok. r = Inr tok \<longrightarrow> tok = mk_token StringTok 0 (pos u) \<and> pos (scanner_new fstring_demo) < pos u
         \<and> pos u \<le> length (src (scanner_new fstring_demo)) \<and> src u = src (scanner_new fstring_demo)
         \<and> fstring_level u = fstring_level (scanner_new fstring_demo)
         \<and> fstring_kinds u = fstring_kinds (scanner_new fstring_demo)))"
proof
  show p: "peek (scanner_new fstring_demo) = Some c_dq" by (simp add: peek_def scanner_new_def fstring_demo_def slice_get_def)
  show "\<exists>r u. scan_string False 0 (string_prefix_default\<lparr>sp_fstring := True\<rparr>) (scanner_new fstring_demo)
        = Some (r, u)
     \<and> (\<forall>tok. r = Inr tok \<longrightarrow> tok = mk_token StringTok 0 (pos u) \<and> pos (scanner_new fstring_demo) < pos u
         \<and> pos u \<le> length (src (scanner_new fstring_demo)) \<and> src u = src (scanner_new fstring_demo)
         \<and> fstring_level u = fstring_level (scanner_new fstring_demo)
         \<and> fstring_kinds u = fstring_kinds (scanner_new fstring_demo))"
    by (rule scan_string_contract [OF p]) (simp add: scanner_new_def)
qed

section \<open>The text at the cursor\<close>

text \<open>\<open>at s w r\<close>: the source from the cursor on is \<open>w\<close>, then \<open>r\<close>.\<close>

definition at :: "scanner \<Rightarrow> u8 list \<Rightarrow> u8 list \<Rightarrow> bool" where
  "at s w r \<longleftrightarrow> (\<exists>pre. length pre = pos s \<and> src s = pre @ w @ r)"

lemma at_peek: "at s w r \<Longrightarrow> peek s = slice_get (w @ r) 0"
  by (auto simp: at_def peek_def slice_get_def nth_append)

lemma at_peek_at: "at s w r \<Longrightarrow> peek_at s n = slice_get (w @ r) n"
  by (auto simp: at_def peek_at_def slice_get_def nth_append)

lemma at_advance: "at s (v @ w) r \<Longrightarrow> at (s\<lparr>pos := pos s + length v\<rparr>) w r"
  unfolding at_def by (metis append.assoc length_append scanner.select_convs(1,2) scanner.surjective scanner.update_convs(2))

lemma at_slice: "at s w r \<Longrightarrow> slice (src s) (pos s) (pos s + length w) = w"
  by (auto simp: at_def slice_def)

lemma at_skip_while:
  assumes "at s w r" "list_all ok w" "r = [] \<or> \<not> ok (hd r)"
  shows "skip_while ok (src s) (pos s) = pos s + length w"
proof -
  have "takeWhile ok (w @ r) = w" using assms(2,3) by (cases r) (auto simp: list_all_iff)
  then show ?thesis using assms(1) by (auto simp: skip_while_def at_def)
qed

section \<open>Decimal integers\<close>

lemma digit_run_at:
  assumes "at s ds r" "list_all is_ascii_digit ds" "r = [] \<or> \<not> is_ascii_digit (hd r) \<and> hd r \<noteq> CHR ''_''"
  shows "digit_run v s = (Inr (v \<or> ds \<noteq> []), s\<lparr>pos := pos s + length ds\<rparr>)"
  using assms(1,2)
proof (induction ds arbitrary: s v)
  case Nil
  then show ?case using assms(3) at_peek [OF Nil(1)]
    by (cases r) (simp_all add: digit_run.simps [of _ s] slice_get_def)
next
  case (Cons d ds)
  have "at (s\<lparr>pos := pos s + length [d]\<rparr>) ds r" by (rule at_advance) (use Cons(2) in simp)
  then have "digit_run True (s\<lparr>pos := pos s + 1\<rparr>) = (Inr True, s\<lparr>pos := pos s + 1 + length ds\<rparr>)"
    using Cons(1) [of "s\<lparr>pos := pos s + 1\<rparr>" True] Cons(3) by simp
  then show ?case using at_peek [OF Cons(2)] Cons(3)
    by (simp add: digit_run.simps [of _ s] slice_get_def)
qed

lemma digit_not_radix: "is_ascii_digit d \<Longrightarrow> \<not> is_radix_char d"
  by (auto simp: byte_class is_radix_char_def of_char_def)

text \<open>What cannot follow a decimal integer without changing its meaning.\<close>

definition ends_integer :: "u8 list \<Rightarrow> bool" where
  "ends_integer r \<longleftrightarrow> r = [] \<or> \<not> is_ascii_alphanumeric (hd r) \<and> hd r \<noteq> CHR ''_'' \<and> hd r \<noteq> CHR ''.''"

lemma alphabetic_e: "is_ascii_alphabetic (CHR ''e'')" "is_ascii_alphabetic (CHR ''E'')"
  "is_ascii_alphabetic (CHR ''j'')" "is_ascii_alphabetic (CHR ''J'')"
  by (simp_all add: byte_class)

lemma radix_alphabetic: "is_radix_char c \<Longrightarrow> is_ascii_alphabetic c"
  by (auto simp: byte_class is_radix_char_def)

text \<open>
  A run of decimal digits without a leading zero (zeros alone are allowed), followed by
  nothing that continues a number or an identifier, is one NUMBER token, read to its last digit.
\<close>

theorem scan_number_integer:
  assumes "at s ds r" "ds \<noteq> []" "list_all is_ascii_digit ds" "\<not> has_leading_zero ds" "ends_integer r"
  shows "scan_number s = (Inr (mk_token Number (pos s) (pos s + length ds)),
    s\<lparr>pos := pos s + length ds\<rparr>)"
proof -
  let ?t = "s\<lparr>pos := pos s + length ds\<rparr>"
  have rest: "at ?t [] r" using at_advance [of s ds "[]" r] assms(1) by simp
  have peek_end: "peek ?t = (case r of [] \<Rightarrow> None | b # _ \<Rightarrow> Some b)"
    using at_peek [OF rest] by (cases r) (simp_all add: slice_get_def)
  have stop: "r = [] \<or> \<not> is_ascii_digit (hd r) \<and> hd r \<noteq> CHR ''_''"
    using assms(5) by (auto simp: ends_integer_def is_ascii_alphanumeric_def)
  have run: "consume_digit_run s = (Inr True, ?t)"
    using digit_run_at [OF assms(1,3) stop, of False] assms(2) by (simp add: consume_digit_run_def)
  have sl: "slice (src s) (pos s) (pos s + length ds) = ds" by (rule at_slice [OF assms(1)])
  have notalpha: "\<not> is_ascii_alphabetic (hd r) \<and> hd r \<noteq> CHR ''_'' \<and> hd r \<noteq> CHR ''.''" if "r \<noteq> []"
    using assms(5) that by (auto simp: ends_integer_def is_ascii_alphanumeric_def)
  have np: "peek ?t \<noteq> Some (CHR ''.'')" "peek ?t \<noteq> Some (CHR ''e'')" "peek ?t \<noteq> Some (CHR ''E'')"
    "peek ?t \<noteq> Some (CHR ''j'')" "peek ?t \<noteq> Some (CHR ''J'')"
    using notalpha peek_end alphabetic_e by (cases r; fastforce)+
  have frac: "scan_fraction ?t = (Inr False, ?t)" using np by (simp add: scan_fraction_def)
  have expo: "scan_exponent False ?t = (Inr False, ?t)" using np by (simp add: scan_exponent_def)
  have verify: "verify_end_of_number m ?t = (Inr (), ?t)" for m
    using notalpha peek_end by (cases r) (simp_all add: verify_end_of_number_def)
  have "scan_decimal_number s = (Inr (mk_token Number (pos s) (pos s + length ds)), ?t)"
    unfolding scan_decimal_number_def run Let_def and_then_simps frac expo
    using np(4,5) sl assms(4) verify by simp
  moreover have "\<not> (\<exists>c. peek_at s 1 = Some c \<and> is_radix_char c)"
  proof (cases ds)
    case Nil
    then show ?thesis using assms(2) by simp
  next
    case (Cons d es)
    then show ?thesis
      using at_peek_at [OF assms(1), of 1] assms(3) digit_not_radix radix_alphabetic notalpha
      by (cases es; cases r) (auto simp: slice_get_def)
  qed
  ultimately show ?thesis by (auto simp: scan_number_def split: option.split)
qed

theorem scan_number_integer_witness:
  "scan_number (scanner_new ''120+x'') = (Inr (mk_token Number 0 3), (scanner_new ''120+x'')\<lparr>pos := 3\<rparr>)"
  using scan_number_integer [of "scanner_new ''120+x''" "''120''" "''+x''"]
  by (simp add: at_def scanner_new_def ends_integer_def has_leading_zero_def slice_get_def byte_class)

section \<open>Identifiers\<close>

lemma ident_run_at:
  assumes "at s w r" "list_all (\<lambda>b. is_ascii_alphanumeric b \<or> b = CHR ''_'') w"
    "r = [] \<or> \<not> is_ascii_alphanumeric (hd r) \<and> hd r \<noteq> CHR ''_'' \<and> byte (hd r) < 128"
  shows "ident_run E s = (Inr (), s\<lparr>pos := pos s + length w\<rparr>)"
  using assms(1,2)
proof (induction w arbitrary: s)
  case Nil
  then show ?case using assms(3) at_peek [OF Nil(1)]
    by (cases r) (auto simp: ident_run.simps [of _ s] slice_get_def)
next
  case (Cons d ds)
  have "at (s\<lparr>pos := pos s + length [d]\<rparr>) ds r" by (rule at_advance) (use Cons(2) in simp)
  then have "ident_run E (s\<lparr>pos := pos s + 1\<rparr>) = (Inr (), s\<lparr>pos := pos s + 1 + length ds\<rparr>)"
    using Cons(1) [of "s\<lparr>pos := pos s + 1\<rparr>"] Cons(3) by simp
  then show ?case using at_peek [OF Cons(2)] Cons(3)
    by (auto simp: ident_run.simps [of _ s] slice_get_def)
qed

lemma from_utf8_ok_all_ascii: "list_all (\<lambda>b. byte b \<le> 127) bs \<Longrightarrow> from_utf8_ok bs"
  by (induction bs) (simp_all add: from_utf8_ok_ascii)

lemma alphanumeric_ascii: "is_ascii_alphanumeric b \<or> b = CHR ''_'' \<Longrightarrow> byte b \<le> 127"
  by (auto simp: byte_class)

text \<open>
  A run of ASCII letters, digits and underscores that no byte continues and no quote
  follows is one token, read to its last byte: the keyword it spells, or a NAME.
\<close>

theorem scan_ident_ascii:
  assumes "at s w r" "w \<noteq> []" "list_all (\<lambda>b. is_ascii_alphanumeric b \<or> b = CHR ''_'') w"
    "r = [] \<or> \<not> is_ascii_alphanumeric (hd r) \<and> hd r \<notin> {CHR ''_'', c_dq, c_sq} \<and> byte (hd r) < 128"
  shows "scan_ident_or_prefixed_string E s = Some (Inr (mk_token
      (case keyword_from_ident w of Some kw \<Rightarrow> Keyword kw | None \<Rightarrow> Name) (pos s) (pos s + length w)),
    s\<lparr>pos := pos s + length w\<rparr>)"
proof -
  let ?t = "s\<lparr>pos := pos s + length w\<rparr>"
  have stop: "r = [] \<or> \<not> is_ascii_alphanumeric (hd r) \<and> hd r \<noteq> CHR ''_'' \<and> byte (hd r) < 128"
    using assms(4) by auto
  have rest: "at ?t [] r" using at_advance [of s w "[]" r] assms(1) by simp
  have noquote: "peek ?t \<noteq> Some c_dq" "peek ?t \<noteq> Some c_sq"
    using at_peek [OF rest] assms(4) by (cases r; auto simp: slice_get_def)+
  have ascii: "list_all (\<lambda>b. byte b \<le> 127) w"
    using assms(3) alphanumeric_ascii by (auto simp: list_all_iff)
  show ?thesis
    using ident_run_at [OF assms(1,3) stop, of E] noquote at_slice [OF assms(1)]
      from_utf8_ok_all_ascii [OF ascii]
    by (simp add: scan_ident_or_prefixed_string_def fuel_then_def ident_token_def Let_def)
qed

theorem scan_ident_ascii_witness:
  "scan_ident_or_prefixed_string ascii_env (scanner_new ''while('')
     = Some (Inr (mk_token (Keyword Kw_While) 0 5), (scanner_new ''while('')\<lparr>pos := 5\<rparr>)"
  using scan_ident_ascii [of "scanner_new ''while(''" "''while''" "''(''" ascii_env]
  by (simp add: at_def scanner_new_def byte_class keyword_from_ident_def keyword_table_def)

end
