(* ===== verification/Dict_Slots.thy ===== *)
theory Dict_Slots
  imports WP_Prelude "HOL-Library.Multiset"
begin

text \<open>
  Slot words and linear probing, for the dict's hash table
  (\<open>crates/weavepy-vm/src/dictmap.rs\<close>): a slot packs an entry's index plus one with the high
  half of the mixed hash, whose top bits are its home. The probing invariant says that no
  empty slot lies between a slot's home and its place; it is stated on the words alone, so
  every operation's effect on it is a fact about lists of words.
\<close>

section \<open>Slot words\<close>

definition MIX :: u64 where
  "MIX = 0x9E3779B97F4A7C15"

definition IX_MASK :: u64 where
  "IX_MASK = 0xFFFFFFFF"

definition mix :: "i64 \<Rightarrow> u64" where
  "mix hash = hash * MIX"

text \<open>\<open>(m & !IX_MASK) | (i as u64 + 1)\<close>.\<close>

definition slot_word :: "u64 \<Rightarrow> usize \<Rightarrow> u64" where
  "slot_word m i = (m AND NOT IX_MASK) OR word_of_nat (i + 1)"

text \<open>\<open>s & IX_MASK\<close> (an index plus one), and \<open>s >> shift\<close>.\<close>

definition slot_ix :: "u64 \<Rightarrow> nat" where
  "slot_ix s = unat (s AND IX_MASK)"

definition home :: "nat \<Rightarrow> u64 \<Rightarrow> nat" where
  "home sh s = unat (drop_bit sh s)"

lemma IX_MASK_mask: "IX_MASK = mask 32"
  by (simp add: IX_MASK_def mask_eq_exp_minus_1)

definition index_ok :: "nat \<Rightarrow> bool" where
  "index_ok i \<longleftrightarrow> i + 1 < 4294967296"

lemma not_bit_index: "index_ok i \<Longrightarrow> 32 \<le> n \<Longrightarrow> \<not> bit (Suc i) n"
proof -
  assume "index_ok i" "32 \<le> n"
  then have "Suc i < 2 ^ 32" "(2::nat) ^ 32 \<le> 2 ^ n"
    by (simp add: index_ok_def, intro power_increasing) simp_all
  then have "Suc i div 2 ^ n = 0" by simp
  then show ?thesis by (simp add: bit_iff_odd)
qed

lemma bit_slot_word:
  assumes "index_ok i"
  shows "bit (slot_word m i) n \<longleftrightarrow> (if n < 32 then bit (Suc i) n else bit m n)"
proof (cases "n < 64")
  case True
  then show ?thesis using not_bit_index [OF assms, of n]
    by (cases "n < 32") (simp_all add: slot_word_def IX_MASK_mask bit_simps del: of_nat_Suc)
next
  case False
  then show ?thesis using bit_imp_le_length [of "slot_word m i" n] bit_imp_le_length [of m n] by auto
qed

lemma bit_IX_MASK [simp]: "bit IX_MASK n \<longleftrightarrow> n < 32"
  by (auto simp: IX_MASK_mask bit_simps)

lemma slot_ix_slot_word [simp]:
  assumes "index_ok i"
  shows "slot_ix (slot_word m i) = i + 1"
proof -
  have "slot_word m i AND IX_MASK = word_of_nat (Suc i)"
  proof (rule bit_word_eqI)
    fix n :: nat
    assume "n < LENGTH(64)"
    then show "bit (slot_word m i AND IX_MASK) n = bit (word_of_nat (Suc i) :: u64) n"
      using not_bit_index [OF assms, of n]
      by (auto simp: bit_slot_word [OF assms] bit_simps simp del: of_nat_Suc)
  qed
  moreover have "unat (word_of_nat (Suc i) :: u64) = Suc i"
    using assms by (simp add: index_ok_def unsigned_of_nat take_bit_nat_eq_self del: of_nat_Suc)
  ultimately show ?thesis by (simp add: slot_ix_def del: of_nat_Suc)
qed

lemma slot_ix_zero [simp]: "slot_ix 0 = 0"
  by (simp add: slot_ix_def)

lemma slot_word_nonzero [simp]: "index_ok i \<Longrightarrow> slot_word m i \<noteq> 0"
  using slot_ix_slot_word [of i m] slot_ix_zero by (metis Suc_eq_plus1 nat.distinct(1))

lemma home_slot_word [simp]:
  assumes "index_ok i" "32 \<le> sh"
  shows "home sh (slot_word m i) = home sh m"
proof -
  have "drop_bit sh (slot_word m i) = drop_bit sh m"
    by (rule bit_word_eqI) (use assms in \<open>simp add: bit_simps bit_slot_word [OF assms(1)]\<close>)
  then show ?thesis by (simp add: home_def)
qed

lemma home_less: "sh \<le> 64 \<Longrightarrow> home sh m < 2 ^ (64 - sh)"
proof -
  assume sh: "sh \<le> 64"
  have "unat m < 2 ^ 64" using unsigned_less [of m] by simp
  also have "(2::nat) ^ 64 = 2 ^ (64 - sh) * 2 ^ sh" using sh by (simp flip: power_add)
  finally have "unat m div 2 ^ sh < 2 ^ (64 - sh)" by (simp add: less_mult_imp_div_less)
  then show ?thesis by (simp only: home_def unat_drop_bit_eq) (simp only: drop_bit_eq_div)
qed

text \<open>A slot of the probed hash passes the comparison of the high halves.\<close>

lemma slot_word_match [simp]:
  assumes "index_ok i"
  shows "(slot_word m i XOR m) \<le> IX_MASK"
proof -
  have "slot_word m i XOR m = (slot_word m i XOR m) AND IX_MASK"
    by (rule bit_word_eqI) (use assms in \<open>auto simp: bit_simps bit_slot_word [OF assms]\<close>)
  then show ?thesis by (metis word_and_le1)
qed

text \<open>Repointing a slot, and taking one off its index.\<close>

lemma slot_word_repoint:
  assumes "index_ok i" "index_ok j"
  shows "slot_word (slot_word m i) j = slot_word m j"
  by (rule bit_word_eqI) (simp add: bit_slot_word [OF assms(1)] bit_slot_word [OF assms(2)])

lemma slot_word_add:
  assumes "index_ok i"
  shows "slot_word m i = (m AND NOT IX_MASK) + word_of_nat (Suc i)"
proof -
  have "(m AND NOT IX_MASK) AND word_of_nat (Suc i) = 0"
    by (rule bit_word_eqI)
       (use not_bit_index [OF assms] in \<open>auto simp: bit_simps simp del: of_nat_Suc\<close>)
  then have "(m AND NOT IX_MASK) + word_of_nat (Suc i) = (m AND NOT IX_MASK) OR word_of_nat (Suc i)"
    by (rule disjunctive_add_eq_or)
  then show ?thesis by (simp add: slot_word_def)
qed

lemma slot_word_pred:
  assumes "index_ok (Suc i)"
  shows "slot_word m (Suc i) - 1 = slot_word m i"
proof -
  have "index_ok i" using assms by (simp add: index_ok_def)
  then show ?thesis using assms by (simp add: slot_word_add)
qed

section \<open>Walking the table\<close>

text \<open>\<open>(pos + 1) & mask\<close>, and \<open>next.wrapping_sub(home) & mask\<close>.\<close>

definition next_slot :: "nat \<Rightarrow> nat \<Rightarrow> nat" where
  "next_slot n p = (p + 1) AND (n - 1)"

definition wrapping_sub :: "usize \<Rightarrow> usize \<Rightarrow> usize" where
  "wrapping_sub a b = (if b \<le> a then a - b else a + 18446744073709551616 - b)"

text \<open>The steps from \<open>a\<close> forward to \<open>b\<close> around a table of \<open>n\<close> slots.\<close>

definition cdist :: "nat \<Rightarrow> nat \<Rightarrow> nat \<Rightarrow> nat" where
  "cdist n a b = (if a \<le> b then b - a else b + n - a)"

definition table_size :: "nat \<Rightarrow> bool" where
  "table_size n \<longleftrightarrow> (\<exists>k. 4 \<le> k \<and> k \<le> 32 \<and> n = 2 ^ k)"

lemma and_mask_mod: "table_size n \<Longrightarrow> a AND (n - 1) = a mod n"
proof -
  assume "table_size n"
  then obtain k where k: "n = 2 ^ k" by (auto simp: table_size_def)
  have "a AND (2 ^ k - 1) = take_bit k a"
    by (simp only: take_bit_eq_mask mask_eq_exp_minus_1)
  then show ?thesis by (simp only: k take_bit_eq_mod)
qed

lemma table_size_pos: "table_size n \<Longrightarrow> 16 \<le> n"
proof -
  assume "table_size n"
  then obtain k where "4 \<le> k" "n = 2 ^ k" by (auto simp: table_size_def)
  moreover from this have "(2::nat) ^ 4 \<le> 2 ^ k" by (intro power_increasing) simp_all
  ultimately show ?thesis by simp
qed

lemma next_slot_eq:
  assumes "table_size n" "p < n"
  shows "next_slot n p = (if p + 1 = n then 0 else p + 1)"
proof (cases "p + 1 = n")
  case True
  then show ?thesis unfolding next_slot_def and_mask_mod [OF assms(1)] by simp
next
  case False
  then have "p + 1 < n" using assms(2) by simp
  then show ?thesis unfolding next_slot_def and_mask_mod [OF assms(1)] by simp
qed

lemma next_slot_less: "table_size n \<Longrightarrow> p < n \<Longrightarrow> next_slot n p < n"
  by (simp add: next_slot_eq)

lemma wrapping_sub_cdist:
  assumes "table_size n" "a < n" "b < n"
  shows "wrapping_sub a b AND (n - 1) = cdist n b a"
proof (cases "b \<le> a")
  case True
  then show ?thesis unfolding and_mask_mod [OF assms(1)]
    using assms by (simp add: wrapping_sub_def cdist_def)
next
  case False
  obtain k where k: "k \<le> 32" "n = 2 ^ k" using assms(1) by (auto simp: table_size_def)
  have "(2::nat) ^ 64 = 2 ^ k * 2 ^ (64 - k)" using k(1) by (simp flip: power_add)
  then obtain m where m: "(18446744073709551616::nat) = n * m" using k(2) by auto
  then have "0 < m" using zero_less_iff_neq_zero by fastforce
  then obtain l where "m = Suc l" by (cases m) auto
  then have "a + 18446744073709551616 - b = (a + n - b) + n * l" using m assms(3) by simp
  then have "(a + 18446744073709551616 - b) mod n = (a + n - b) mod n" by simp
  also have "\<dots> = a + n - b" using False assms by simp
  finally show ?thesis unfolding and_mask_mod [OF assms(1)]
    using False by (simp add: wrapping_sub_def cdist_def)
qed

lemma cdist_next:
  assumes "table_size n" "p < n" "e < n" "p \<noteq> e"
  shows "cdist n p e = Suc (cdist n (next_slot n p) e)"
  using assms by (auto simp: cdist_def next_slot_eq)

lemma cdist_less: "a < n \<Longrightarrow> b < n \<Longrightarrow> cdist n a b < n"
  by (cases "a \<le> b") (auto simp: cdist_def)

lemma cdist_self [simp]: "cdist n a a = 0"
  by (simp add: cdist_def)

lemma cdist_0_iff: "a < n \<Longrightarrow> b < n \<Longrightarrow> cdist n a b = 0 \<longleftrightarrow> a = b"
  by (auto simp: cdist_def)

text \<open>Induction along the walk from a slot to \<open>e\<close>.\<close>

lemma walk_induct [consumes 3, case_names step]:
  assumes "table_size n" "e < n" "p < n"
    and "\<And>p. p < n \<Longrightarrow> (p \<noteq> e \<Longrightarrow> P (next_slot n p)) \<Longrightarrow> P p"
  shows "P p"
  using assms(3)
proof (induction "cdist n p e" arbitrary: p)
  case 0
  then have "p = e" using assms(2) by (simp add: cdist_0_iff)
  then show ?case using assms(4) 0 by blast
next
  case (Suc d)
  show ?case
  proof (rule assms(4) [OF Suc(3)])
    assume "p \<noteq> e"
    then show "P (next_slot n p)"
      using Suc cdist_next [OF assms(1) Suc(3) assms(2)] next_slot_less [OF assms(1) Suc(3)] by simp
  qed
qed

section \<open>The probing invariant\<close>

definition probe_ok :: "nat \<Rightarrow> u64 list \<Rightarrow> bool" where
  "probe_ok sh slots \<longleftrightarrow> (\<forall>p < length slots. slots ! p \<noteq> 0 \<longrightarrow>
     (\<forall>q < length slots. cdist (length slots) (home sh (slots ! p)) q
        < cdist (length slots) (home sh (slots ! p)) p \<longrightarrow> slots ! q \<noteq> 0))"

lemma probe_okD:
  "probe_ok sh slots \<Longrightarrow> r < length slots \<Longrightarrow> slots ! r \<noteq> 0 \<Longrightarrow> q < length slots
   \<Longrightarrow> cdist (length slots) (home sh (slots ! r)) q < cdist (length slots) (home sh (slots ! r)) r
   \<Longrightarrow> slots ! q \<noteq> 0"
  unfolding probe_ok_def by blast

definition homes_ok :: "nat \<Rightarrow> u64 list \<Rightarrow> bool" where
  "homes_ok sh slots \<longleftrightarrow> table_size (length slots) \<and> sh \<le> 64 \<and> 32 \<le> sh \<and> length slots = 2 ^ (64 - sh)"

lemma homes_ok_size: "homes_ok sh slots \<Longrightarrow> table_size (length slots)"
  unfolding homes_ok_def by blast

lemma homes_ok_less: "homes_ok sh slots \<Longrightarrow> home sh s < length slots"
  using home_less [of sh s] by (simp add: homes_ok_def)

lemma homes_ok_update [simp]: "homes_ok sh (slots[p := s]) = homes_ok sh slots"
  by (simp add: homes_ok_def)

text \<open>The first empty slot from a home, if there is one at all.\<close>

definition first_free :: "u64 list \<Rightarrow> nat \<Rightarrow> nat \<Rightarrow> bool" where
  "first_free slots h p \<longleftrightarrow> p < length slots \<and> slots ! p = 0
     \<and> (\<forall>q < length slots. cdist (length slots) h q < cdist (length slots) h p \<longrightarrow> slots ! q \<noteq> 0)"

lemma first_free_exists:
  assumes "p < length slots" "slots ! p = 0"
  shows "\<exists>e. first_free slots h e"
proof -
  obtain e where e: "e < length slots \<and> slots ! e = 0"
    "\<forall>q. q < length slots \<and> slots ! q = 0 \<longrightarrow> cdist (length slots) h e \<le> cdist (length slots) h q"
    using ex_has_least_nat [of "\<lambda>p. p < length slots \<and> slots ! p = 0" p "cdist (length slots) h"] assms
    by blast
  then show ?thesis unfolding first_free_def by (meson not_less)
qed

lemma first_free_next:
  assumes "first_free slots p e" "table_size (length slots)" "p < length slots" "p \<noteq> e"
  shows "first_free slots (next_slot (length slots) p) e" "slots ! p \<noteq> 0"
proof -
  note e = assms(1) [unfolded first_free_def]
  show "slots ! p \<noteq> 0" using e assms(3,4) cdist_0_iff by (metis cdist_self gr_zeroI)
  show "first_free slots (next_slot (length slots) p) e"
    unfolding first_free_def
  proof (intro conjI allI impI)
    fix q
    assume q: "q < length slots"
      "cdist (length slots) (next_slot (length slots) p) q < cdist (length slots) (next_slot (length slots) p) e"
    then have "cdist (length slots) p q < cdist (length slots) p e"
      using cdist_next [OF assms(2,3) _ assms(4)] e cdist_next [OF assms(2,3) q(1)]
      by (cases "q = p") auto
    then show "slots ! q \<noteq> 0" using e q(1) by blast
  qed (use e in auto)
qed

text \<open>Filling the first free slot of a word's home.\<close>

lemma probe_ok_insert:
  assumes "probe_ok sh slots" "first_free slots (home sh s) p" "s \<noteq> 0"
  shows "probe_ok sh (slots[p := s])"
proof -
  have p: "p < length slots" "\<forall>q < length slots. cdist (length slots) (home sh s) q
      < cdist (length slots) (home sh s) p \<longrightarrow> slots ! q \<noteq> 0"
    using assms(2) by (simp_all add: first_free_def)
  show ?thesis
    unfolding probe_ok_def length_list_update
  proof (intro allI impI)
    fix r q
    assume r: "r < length slots" "slots[p := s] ! r \<noteq> 0" and q: "q < length slots"
      "cdist (length slots) (home sh (slots[p := s] ! r)) q < cdist (length slots) (home sh (slots[p := s] ! r)) r"
    show "slots[p := s] ! q \<noteq> 0"
    proof (cases "q = p")
      case True
      then show ?thesis using assms(3) p(1) by simp
    next
      case False
      have "slots ! q \<noteq> 0"
      proof (cases "r = p")
        case True
        then show ?thesis using p q by simp
      next
        case False
        then have eq: "slots[p := s] ! r = slots ! r" by simp
        show ?thesis by (rule probe_okD [OF assms(1) r(1) r(2) [unfolded eq] q(1) q(2) [unfolded eq]])
      qed
      then show ?thesis using False by simp
    qed
  qed
qed

text \<open>Changing a word without moving its home.\<close>

lemma probe_ok_change:
  assumes "probe_ok sh slots" "slots ! p \<noteq> 0" "s \<noteq> 0" "home sh s = home sh (slots ! p)"
  shows "probe_ok sh (slots[p := s])"
  unfolding probe_ok_def length_list_update
proof (intro allI impI)
  fix r q
  assume r: "r < length slots" "slots[p := s] ! r \<noteq> 0" and q: "q < length slots"
    "cdist (length slots) (home sh (slots[p := s] ! r)) q < cdist (length slots) (home sh (slots[p := s] ! r)) r"
  have old: "slots ! r \<noteq> 0" "home sh (slots[p := s] ! r) = home sh (slots ! r)"
    using r assms(2,4) by (cases "r = p"; simp)+
  have "slots ! q \<noteq> 0" by (rule probe_okD [OF assms(1) r(1) old(1) q(1) q(2) [unfolded old(2)]])
  then show "slots[p := s] ! q \<noteq> 0" using assms(3) q(1) by (cases "q = p") auto
qed

lemma probe_ok_replicate [simp]: "probe_ok sh (replicate n 0)"
  by (simp add: probe_ok_def)

section \<open>The loops over the slots\<close>

text \<open>
  The source's loops have no bound of their own; \<open>None\<close> is one that does not end. Each
  starts at a home and walks; \<open>free_loop\<close> is the search of an empty slot in \<open>rebuild_slots\<close>,
  \<open>insert_unique_hashed\<close> and \<open>replace_index_unique\<close>.
\<close>

partial_function (option) free_loop :: "u64 list \<Rightarrow> nat \<Rightarrow> nat option" where
  "free_loop slots p =
     (if slots ! p = 0 then Some p else free_loop slots (next_slot (length slots) p))"

partial_function (option) slot_of_loop :: "u64 list \<Rightarrow> nat \<Rightarrow> nat \<Rightarrow> nat option" where
  "slot_of_loop slots want p =
     (if slot_ix (slots ! p) = want then Some p
      else slot_of_loop slots want (next_slot (length slots) p))"

text \<open>\<open>erase_slot\<close>, from the hole \<open>p\<close>, looking at \<open>q\<close>.\<close>

partial_function (option) erase_loop :: "nat \<Rightarrow> u64 list \<Rightarrow> nat \<Rightarrow> nat \<Rightarrow> u64 list option" where
  "erase_loop sh slots p q =
     (let s = slots ! q; n = length slots
      in if s = 0 then Some (slots[p := 0])
         else (let hm = home (64 - (64 - sh)) s
               in if (wrapping_sub q p AND (n - 1)) \<le> (wrapping_sub q hm AND (n - 1))
                  then erase_loop sh (slots[p := s]) q (next_slot n q)
                  else erase_loop sh slots p (next_slot n q)))"

lemma free_loop_first:
  assumes "table_size (length slots)" "p < length slots" "first_free slots p e"
  shows "free_loop slots p = Some e"
proof -
  have e: "e < length slots" using assms(3) by (simp add: first_free_def)
  show ?thesis using assms(1) e assms(2,3)
  proof (induction p rule: walk_induct)
    case (step p)
    show ?case
    proof (cases "p = e")
      case True
      then show ?thesis using step(3) by (subst free_loop.simps) (simp add: first_free_def)
    next
      case False
      then show ?thesis using first_free_next [OF step(3) assms(1) step(1) False] step(2)
        by (subst free_loop.simps) simp
    qed
  qed
qed

lemma slot_of_loop_found:
  assumes "table_size (length slots)" "p < length slots" "e < length slots" "slot_ix (slots ! e) = want"
    "\<forall>q < length slots. slot_ix (slots ! q) = want \<longrightarrow> q = e"
  shows "slot_of_loop slots want p = Some e"
  using assms(1,3,2)
proof (induction p rule: walk_induct)
  case (step p)
  show ?case
  proof (cases "p = e")
    case True
    then show ?thesis using assms(4) by (subst slot_of_loop.simps) simp
  next
    case False
    then have "slot_ix (slots ! p) \<noteq> want" using assms(5) step(1) by blast
    then show ?thesis using step(2) False by (subst slot_of_loop.simps) simp
  qed
qed

text \<open>
  The invariant of \<open>erase_loop\<close>: the table \<open>A\<close> with the hole empty keeps the probing
  invariant but for the hole itself, which words at or after \<open>q\<close> may still need.
\<close>

definition hole_inv :: "nat \<Rightarrow> u64 list \<Rightarrow> nat \<Rightarrow> nat \<Rightarrow> bool" where
  "hole_inv sh A p q \<longleftrightarrow> p < length A \<and> q < length A \<and> p \<noteq> q \<and> A ! p = 0
     \<and> (\<forall>r < length A. 0 < cdist (length A) p r \<and> cdist (length A) p r < cdist (length A) p q \<longrightarrow> A ! r \<noteq> 0)
     \<and> (\<forall>r < length A. A ! r \<noteq> 0 \<longrightarrow> (\<forall>t < length A.
          cdist (length A) (home sh (A ! r)) t < cdist (length A) (home sh (A ! r)) r \<longrightarrow>
          A ! t \<noteq> 0 \<or> (t = p \<and> cdist (length A) p q \<le> cdist (length A) p r)))"

lemma hole_invD:
  assumes "hole_inv sh A p q" "r < length A" "A ! r \<noteq> 0" "t < length A"
    "cdist (length A) (home sh (A ! r)) t < cdist (length A) (home sh (A ! r)) r"
  shows "A ! t \<noteq> 0 \<or> (t = p \<and> cdist (length A) p q \<le> cdist (length A) p r)"
  using assms unfolding hole_inv_def by blast

lemma cdist_tri:
  "a < n \<Longrightarrow> b < n \<Longrightarrow> c < n \<Longrightarrow> cdist n a b \<le> cdist n a c \<Longrightarrow> cdist n a c = cdist n a b + cdist n b c"
  by (auto simp: cdist_def split: if_splits)

lemma cdist_tri':
  "a < n \<Longrightarrow> b < n \<Longrightarrow> c < n \<Longrightarrow> cdist n b c \<le> cdist n a c \<Longrightarrow> cdist n a c = cdist n a b + cdist n b c"
  by (auto simp: cdist_def split: if_splits)

lemma cdist_le: "a < n \<Longrightarrow> b < n \<Longrightarrow> c < n \<Longrightarrow> cdist n a c \<le> cdist n a b + cdist n b c"
  by (auto simp: cdist_def split: if_splits)

lemma cdist_inj: "a < n \<Longrightarrow> b < n \<Longrightarrow> c < n \<Longrightarrow> cdist n a b = cdist n a c \<Longrightarrow> b = c"
  by (auto simp: cdist_def split: if_splits)

lemma cdist_to_next:
  "table_size n \<Longrightarrow> p < n \<Longrightarrow> q < n \<Longrightarrow> Suc (cdist n p q) < n \<Longrightarrow> cdist n p (next_slot n q) = Suc (cdist n p q)"
  by (auto simp: cdist_def next_slot_eq split: if_splits)

lemma hole_inv_start:
  assumes "homes_ok sh slots" "probe_ok sh slots" "p < length slots"
  shows "hole_inv sh (slots[p := 0]) p (next_slot (length slots) p)"
proof -
  let ?n = "length slots"
  have n: "table_size ?n" using assms(1) by (rule homes_ok_size)
  have one: "cdist ?n p (next_slot ?n p) = 1"
    using cdist_to_next [OF n assms(3,3)] table_size_pos [OF n] by simp
  then have neq: "p \<noteq> next_slot ?n p" by auto
  have "slots[p := 0] ! t \<noteq> 0 \<or> (t = p \<and> 1 \<le> cdist ?n p r)"
    if r: "r < ?n" "slots[p := 0] ! r \<noteq> 0" and t: "t < ?n"
      "cdist ?n (home sh (slots[p := 0] ! r)) t < cdist ?n (home sh (slots[p := 0] ! r)) r" for r t
  proof -
    have "r \<noteq> p" using r by auto
    then have eq: "slots[p := 0] ! r = slots ! r" by simp
    have "slots ! t \<noteq> 0"
      by (rule probe_okD [OF assms(2) r(1) r(2) [unfolded eq] t(1) t(2) [unfolded eq]])
    moreover have "1 \<le> cdist ?n p r"
      using \<open>r \<noteq> p\<close> cdist_0_iff [OF assms(3) r(1)] by simp
    ultimately show ?thesis by (cases "t = p") simp_all
  qed
  then show ?thesis using assms(3) neq one next_slot_less [OF n assms(3)]
    by (auto simp: hole_inv_def)
qed

lemma hole_inv_end:
  assumes "hole_inv sh A p q" "homes_ok sh A" "A ! q = 0"
  shows "probe_ok sh A"
  unfolding probe_ok_def
proof (intro allI impI)
  fix r t
  assume r: "r < length A" "A ! r \<noteq> 0" and t: "t < length A"
    "cdist (length A) (home sh (A ! r)) t < cdist (length A) (home sh (A ! r)) r"
  have pq: "p < length A" "q < length A" "p \<noteq> q" using assms(1) by (simp_all add: hole_inv_def)
  have h: "home sh (A ! r) < length A" using assms(2) by (rule homes_ok_less)
  show "A ! t \<noteq> 0"
  proof (rule ccontr)
    assume "\<not> A ! t \<noteq> 0"
    then have tp: "t = p" and le: "cdist (length A) p q \<le> cdist (length A) p r"
      using hole_invD [OF assms(1) r t] by auto
    have "r \<noteq> q" using r(2) assms(3) by auto
    then have less: "cdist (length A) p q < cdist (length A) p r"
      using le cdist_inj [OF pq(1) pq(2) r(1)] by (auto simp: le_less)
    have "cdist (length A) (home sh (A ! r)) r = cdist (length A) (home sh (A ! r)) p + cdist (length A) p r"
      using cdist_tri [OF h pq(1) r(1)] t(2) tp by simp
    then have "cdist (length A) (home sh (A ! r)) q < cdist (length A) (home sh (A ! r)) r"
      using cdist_le [OF h pq(1) pq(2)] less by simp
    then show False using hole_invD [OF assms(1) r pq(2)] assms(3) pq(3) by simp
  qed
qed

lemma hole_inv_keep:
  assumes "hole_inv sh A p q" "homes_ok sh A" "A ! q \<noteq> 0" "e < length A" "e \<noteq> p" "A ! e = 0"
    "cdist (length A) (home sh (A ! q)) q < cdist (length A) p q"
  shows "hole_inv sh A p (next_slot (length A) q)"
proof -
  let ?n = "length A"
  have n: "table_size ?n" using assms(2) by (rule homes_ok_size)
  have pq: "p < ?n" "q < ?n" "p \<noteq> q" "A ! p = 0" using assms(1) by (simp_all add: hole_inv_def)
  have between: "A ! r \<noteq> 0" if "r < ?n" "0 < cdist ?n p r" "cdist ?n p r < cdist ?n p q" for r
    using assms(1) that unfolding hole_inv_def by blast
  have h: "home sh (A ! q) < ?n" using assms(2) by (rule homes_ok_less)
  have "\<not> cdist ?n p e < cdist ?n p q"
    using between [OF assms(4)] assms(5,6) cdist_0_iff [OF pq(1) assms(4)] by auto
  moreover have "cdist ?n p e \<noteq> cdist ?n p q"
    using cdist_inj [OF pq(1) assms(4) pq(2)] assms(3,6) by auto
  ultimately have "Suc (cdist ?n p q) < ?n" using cdist_less [OF pq(1) assms(4)] by simp
  then have step: "cdist ?n p (next_slot ?n q) = Suc (cdist ?n p q)" by (rule cdist_to_next [OF n pq(1,2)])
  have "p \<noteq> next_slot ?n q" using step by auto
  moreover have "A ! r \<noteq> 0" if "r < ?n" "0 < cdist ?n p r" "cdist ?n p r < Suc (cdist ?n p q)" for r
    using between [OF that(1,2)] that(3) cdist_inj [OF pq(1) that(1) pq(2)] assms(3)
    by (auto simp: less_Suc_eq)
  moreover have "A ! t \<noteq> 0 \<or> (t = p \<and> Suc (cdist ?n p q) \<le> cdist ?n p r)"
    if r: "r < ?n" "A ! r \<noteq> 0" and t: "t < ?n"
      "cdist ?n (home sh (A ! r)) t < cdist ?n (home sh (A ! r)) r" for r t
  proof (cases "A ! t = 0")
    case True
    then have tp: "t = p" "cdist ?n p q \<le> cdist ?n p r" using hole_invD [OF assms(1) r t] by auto
    have "r \<noteq> q"
      using cdist_tri [OF h pq(1) pq(2)] t(2) tp(1) assms(7) by auto
    then have "cdist ?n p q \<noteq> cdist ?n p r" using cdist_inj [OF pq(1) pq(2) r(1)] by auto
    then show ?thesis using tp by simp
  qed simp
  ultimately show ?thesis
    using pq next_slot_less [OF n pq(2)] unfolding hole_inv_def step by blast
qed

lemma hole_inv_move:
  assumes "hole_inv sh A p q" "homes_ok sh A" "A ! q \<noteq> 0"
    "cdist (length A) p q \<le> cdist (length A) (home sh (A ! q)) q"
  shows "hole_inv sh (A[p := A ! q, q := 0]) q (next_slot (length A) q)"
proof -
  let ?n = "length A" and ?B = "A[p := A ! q, q := 0]"
  have n: "table_size ?n" using assms(2) by (rule homes_ok_size)
  have pq: "p < ?n" "q < ?n" "p \<noteq> q" "A ! p = 0" using assms(1) by (simp_all add: hole_inv_def)
  have h: "home sh (A ! q) < ?n" using assms(2) by (rule homes_ok_less)
  have one: "cdist ?n q (next_slot ?n q) = 1"
    using cdist_to_next [OF n pq(2,2)] table_size_pos [OF n] by simp
  then have "q \<noteq> next_slot ?n q" by auto
  moreover have "?B ! t \<noteq> 0 \<or> (t = q \<and> 1 \<le> cdist ?n q r)"
    if r: "r < ?n" "?B ! r \<noteq> 0" and t: "t < ?n"
      "cdist ?n (home sh (?B ! r)) t < cdist ?n (home sh (?B ! r)) r" for r t
  proof (cases "r = p")
    case True
    then have rB: "?B ! r = A ! q" using pq by simp
    have split: "cdist ?n (home sh (A ! q)) q = cdist ?n (home sh (A ! q)) p + cdist ?n p q"
      by (rule cdist_tri' [OF h pq(1) pq(2) assms(4)])
    have lt: "cdist ?n (home sh (A ! q)) t < cdist ?n (home sh (A ! q)) p" using t(2) rB True by simp
    then have "A ! t \<noteq> 0" using hole_invD [OF assms(1) pq(2) assms(3) t(1)] split by auto
    moreover have "t \<noteq> p" "t \<noteq> q" using lt split by auto
    ultimately show ?thesis by simp
  next
    case False
    have rq: "r \<noteq> q" using r(2) pq by auto
    have rB: "?B ! r = A ! r" using rq False by simp
    have "A ! t \<noteq> 0 \<or> t = p"
      using hole_invD [OF assms(1) r(1) r(2) [unfolded rB] t(1) t(2) [unfolded rB]] by blast
    moreover have "1 \<le> cdist ?n q r" using rq cdist_0_iff [OF pq(2) r(1)] by simp
    ultimately show ?thesis using pq assms(3) by (cases "t = q"; cases "t = p") auto
  qed
  ultimately show ?thesis
    using pq next_slot_less [OF n pq(2)] one by (auto simp: hole_inv_def)
qed

lemma mset_move:
  assumes "p < length A" "q < length A" "A ! p = (0 :: u64)" "p \<noteq> q"
  shows "mset (A[p := A ! q, q := 0]) = mset A"
proof -
  have "mset (A[p := A ! q, q := A ! p]) = mset A" by (rule mset_swap [OF assms(2,1)])
  then show ?thesis using assms(3) by simp
qed

text \<open>The loop's array differs from the table with the hole empty only in the hole.\<close>

lemma erase_loop_ok:
  assumes "table_size n" "e < n" "q < n"
    "length slots = n" "homes_ok sh slots" "hole_inv sh (slots[p := 0]) p q" "e \<noteq> p" "slots ! e = 0"
  shows "\<exists>t. erase_loop sh slots p q = Some t \<and> length t = n \<and> probe_ok sh t
    \<and> mset t = mset (slots[p := 0])"
  using assms
proof (induction q arbitrary: slots p rule: walk_induct)
  case (step q)
  note len = step(3) and homes = step(4) and inv = step(5) and e = step(6,7)
  let ?A = "slots[p := 0]"
  have pq: "p < n" "q < n" "p \<noteq> q" using inv len by (simp_all add: hole_inv_def)
  have Aq: "?A ! q = slots ! q" using pq by simp
  have homesA: "homes_ok sh ?A" using homes by simp
  have sh: "64 - (64 - sh) = sh" using homes by (simp add: homes_ok_def)
  show ?case
  proof (cases "slots ! q = 0")
    case True
    then have "probe_ok sh ?A" using hole_inv_end [OF inv homesA] Aq by simp
    then show ?thesis using True len by (subst erase_loop.simps) (simp add: Let_def)
  next
    case False
    have eq: "q \<noteq> e" using False e by auto
    have hq: "home sh (slots ! q) < n" using homes_ok_less [OF homes] len by simp
    have dists: "wrapping_sub q p AND (n - 1) = cdist n p q"
      "wrapping_sub q (home sh (slots ! q)) AND (n - 1) = cdist n (home sh (slots ! q)) q"
      using wrapping_sub_cdist assms(1) pq hq by auto
    show ?thesis
    proof (cases "cdist n p q \<le> cdist n (home sh (slots ! q)) q")
      case True
      let ?B = "slots[p := slots ! q]"
      have hole: "?B[q := 0] = ?A[p := ?A ! q, q := 0]" using Aq by simp
      have "hole_inv sh (?B[q := 0]) q (next_slot n q)"
        using hole_inv_move [OF inv homesA] Aq False True len unfolding hole by simp
      moreover have "?B ! e = 0" using e by simp
      ultimately obtain t where t: "erase_loop sh ?B q (next_slot n q) = Some t" "length t = n"
        "probe_ok sh t" "mset t = mset (?B[q := 0])"
        using step(2) [OF eq, of ?B q] len homes eq by auto
      moreover have "mset (?B[q := 0]) = mset ?A"
        using mset_move [of p ?A q] pq len unfolding hole by simp
      ultimately show ?thesis using True False len dists sh
        by (subst erase_loop.simps) (simp add: Let_def)
    next
      case keep: False
      have "hole_inv sh ?A p (next_slot n q)"
        using hole_inv_keep [OF inv homesA, of e] Aq False keep len e assms(2) by simp
      then obtain t where t: "erase_loop sh slots p (next_slot n q) = Some t" "length t = n"
        "probe_ok sh t" "mset t = mset ?A"
        using step(2) [OF eq, of slots p] len homes e by auto
      then show ?thesis using keep False len dists sh
        by (subst erase_loop.simps) (simp add: Let_def)
    qed
  qed
qed

text \<open>The whole of \<open>erase_slot\<close>: what remains is the other slots, still in probing order.\<close>

lemma erase_slot_ok:
  assumes "homes_ok sh slots" "probe_ok sh slots" "p < length slots" "e < length slots" "e \<noteq> p"
    "slots ! e = 0"
  shows "\<exists>t. erase_loop sh slots p (next_slot (length slots) p) = Some t \<and> length t = length slots
    \<and> probe_ok sh t \<and> mset t = mset (slots[p := 0])"
  by (rule erase_loop_ok [OF homes_ok_size [OF assms(1)] assms(4) _ refl assms(1)
        hole_inv_start [OF assms(1-3)] assms(5,6)])
     (rule next_slot_less [OF homes_ok_size [OF assms(1)] assms(3)])

end
