(* ===== verification/Dict_Table.thy ===== *)
theory Dict_Table
  imports Dict_Slots
begin

text \<open>
  The insertion-ordered hash table behind every Python \<open>dict\<close> and \<open>set\<close>: \<open>Table\<close> of
  \<open>crates/weavepy-vm/src/dictmap.rs\<close>, one definition per method. A method that can panic or
  whose loop need not end returns an option, \<open>None\<close> for either. What the table asks of a key
  (its Python hash, its equality, the two native shortcuts) is code outside this file: the
  record \<open>key_ops\<close> is a parameter, and \<open>lawful_keys\<close> is what the table relies on.
\<close>

section \<open>Keys and state\<close>

record 'k key_ops =
  key_hash :: "'k \<Rightarrow> i64"
  key_eq :: "'k \<Rightarrow> 'k \<Rightarrow> bool"
  key_eq_unhashed :: "'k \<Rightarrow> 'k \<Rightarrow> bool option"
  key_native :: "'k \<Rightarrow> (i64 \<times> ('k \<Rightarrow> bool option)) option"

definition lawful_keys :: "'k key_ops \<Rightarrow> bool" where
  "lawful_keys ko \<longleftrightarrow> equivp (key_eq ko)
     \<and> (\<forall>x y. key_eq ko x y \<longrightarrow> key_hash ko x = key_hash ko y)
     \<and> (\<forall>x y b. key_eq_unhashed ko x y = Some b \<longrightarrow> b = key_eq ko x y)
     \<and> (\<forall>x h f. key_native ko x = Some (h, f) \<longrightarrow>
          h = key_hash ko x \<and> (\<forall>y b. f y = Some b \<longrightarrow> b = key_eq ko x y))"

record ('k, 'v) bucket =
  bk_hash :: i64
  bk_key :: 'k
  bk_value :: 'v

record ('k, 'v) table =
  entries :: "('k, 'v) bucket list"
  slots :: "u64 list"
  shift :: nat

definition SMALL :: usize where
  "SMALL = 8"

definition mk_bucket :: "i64 \<Rightarrow> 'k \<Rightarrow> 'v \<Rightarrow> ('k, 'v) bucket" where
  "mk_bucket h k v = \<lparr>bk_hash = h, bk_key = k, bk_value = v\<rparr>"

definition table_new :: "('k, 'v) table" where
  "table_new = \<lparr>entries = [], slots = [], shift = 64\<rparr>"

section \<open>Sizes\<close>

function next_pow2_from :: "nat \<Rightarrow> nat \<Rightarrow> nat" where
  "next_pow2_from p n = (if p = 0 \<or> n \<le> p then p else next_pow2_from (2 * p) n)"
  by pat_completeness auto
termination
  by (relation "measure (\<lambda>(p, n). n - p)") auto

declare next_pow2_from.simps [simp del]

definition next_power_of_two :: "nat \<Rightarrow> nat" where
  "next_power_of_two n = next_pow2_from 1 n"

definition slots_for :: "usize \<Rightarrow> usize" where
  "slots_for n = next_power_of_two (max n (SMALL + 1) * 3 div 2 + 1)"

fun trailing_zeros :: "nat \<Rightarrow> nat" where
  "trailing_zeros n = (if n = 0 then 64 else if odd n then 0 else Suc (trailing_zeros (n div 2)))"

declare trailing_zeros.simps [simp del]

section \<open>The slot table\<close>

fun fill_slots :: "nat \<Rightarrow> ('k, 'v) bucket list \<Rightarrow> nat \<Rightarrow> u64 list \<Rightarrow> u64 list option" where
  "fill_slots sh [] i sl = Some sl"
| "fill_slots sh (b # bs) i sl =
     (let m = mix (bk_hash b) in
      case free_loop sl (home sh m) of
        None \<Rightarrow> None
      | Some p \<Rightarrow> fill_slots sh bs (i + 1) (sl[p := slot_word m i]))"

definition rebuild_slots :: "usize \<Rightarrow> ('k, 'v) table \<Rightarrow> ('k, 'v) table option" where
  "rebuild_slots n t =
     (if n \<le> 4294967296 \<and> length (entries t) < 4294967295
      then (let sh = 64 - trailing_zeros n
            in map_option (\<lambda>sl. t\<lparr>slots := sl, shift := sh\<rparr>)
                 (fill_slots sh (entries t) 0 (replicate n 0)))
      else None)"

definition reindex :: "('k, 'v) table \<Rightarrow> ('k, 'v) table option" where
  "reindex t = (if slots t = [] then Some t else rebuild_slots (length (slots t)) t)"

definition with_capacity :: "usize \<Rightarrow> ('k, 'v) table option" where
  "with_capacity n = (if n > SMALL then rebuild_slots (slots_for n) table_new else Some table_new)"

definition from_unique_hashed :: "usize \<Rightarrow> (usize \<Rightarrow> i64 \<times> 'k \<times> 'v) \<Rightarrow> ('k, 'v) table option" where
  "from_unique_hashed n entry =
     (let es = map (\<lambda>i. case entry i of (h, k, v) \<Rightarrow> mk_bucket h k v) [0..<n];
          t = \<lparr>entries = es, slots = [], shift = 64\<rparr>
      in if length es > SMALL then rebuild_slots (slots_for (length es)) t else Some t)"

text \<open>\<open>usize::MAX\<close> bounds the saturating sum; the entry vector has been grown before.\<close>

definition reserve_slots :: "usize \<Rightarrow> ('k, 'v) table \<Rightarrow> ('k, 'v) table option" where
  "reserve_slots additional t =
     (let want = min (length (entries t) + additional) 18446744073709551615
      in if want > SMALL \<and> want * 3 > length (slots t) * 2
         then rebuild_slots (slots_for want) t else Some t)"

definition shrink_to_fit :: "('k, 'v) table \<Rightarrow> ('k, 'v) table option" where
  "shrink_to_fit t =
     (if length (entries t) \<le> SMALL then Some (t\<lparr>slots := [], shift := 64\<rparr>)
      else if slots_for (length (entries t)) < length (slots t)
      then rebuild_slots (slots_for (length (entries t))) t else Some t)"

definition table_clear :: "('k, 'v) table \<Rightarrow> ('k, 'v) table" where
  "table_clear t = t\<lparr>entries := [], slots := map (\<lambda>_. 0) (slots t)\<rparr>"

section \<open>Probing\<close>

text \<open>\<open>Result<usize, usize>\<close>: \<open>Inr\<close> the position found, \<open>Inl\<close> the empty slot of a miss.\<close>

fun scan_entries :: "('k, 'v) bucket list \<Rightarrow> usize \<Rightarrow> i64 \<Rightarrow> ('k \<Rightarrow> bool) \<Rightarrow> usize option" where
  "scan_entries [] i hash eq = None"
| "scan_entries (b # bs) i hash eq =
     (if bk_hash b = hash \<and> eq (bk_key b) then Some i else scan_entries bs (i + 1) hash eq)"

partial_function (option) find_loop ::
  "('k, 'v) bucket list \<Rightarrow> u64 list \<Rightarrow> i64 \<Rightarrow> ('k \<Rightarrow> bool) \<Rightarrow> usize \<Rightarrow> (usize + usize) option" where
  "find_loop es sl hash eq p =
     (let s = sl ! p
      in if s = 0 then Some (Inl p)
         else (let ix = slot_ix s - 1; b = es ! ix
               in if (s XOR mix hash) \<le> IX_MASK \<and> bk_hash b = hash \<and> eq (bk_key b)
                  then Some (Inr ix)
                  else find_loop es sl hash eq (next_slot (length sl) p)))"

definition find_hashed :: "i64 \<Rightarrow> ('k \<Rightarrow> bool) \<Rightarrow> ('k, 'v) table \<Rightarrow> (usize + usize) option" where
  "find_hashed hash eq t =
     (if slots t = [] then
        (case scan_entries (entries t) 0 hash eq of Some i \<Rightarrow> Some (Inr i) | None \<Rightarrow> Some (Inl 0))
      else find_loop (entries t) (slots t) hash eq (home (shift t) (mix hash)))"

definition slot_of :: "i64 \<Rightarrow> usize \<Rightarrow> ('k, 'v) table \<Rightarrow> usize option" where
  "slot_of hash ix t = slot_of_loop (slots t) (ix + 1) (home (shift t) (mix hash))"

definition erase_slot :: "usize \<Rightarrow> ('k, 'v) table \<Rightarrow> ('k, 'v) table option" where
  "erase_slot p t = map_option (\<lambda>sl. t\<lparr>slots := sl\<rparr>)
     (erase_loop (shift t) (slots t) p (next_slot (length (slots t)) p))"

definition repoint :: "i64 \<Rightarrow> usize \<Rightarrow> usize \<Rightarrow> ('k, 'v) table \<Rightarrow> ('k, 'v) table option" where
  "repoint hash a b t = map_option
     (\<lambda>p. t\<lparr>slots := (slots t)[p := slot_word (slots t ! p) b]\<rparr>) (slot_of hash a t)"

section \<open>Lookups\<close>

fun scan_unhashed :: "('k, 'v) bucket list \<Rightarrow> usize \<Rightarrow> ('k \<Rightarrow> bool option) \<Rightarrow> usize option option" where
  "scan_unhashed [] i eq = Some None"
| "scan_unhashed (b # bs) i eq = (case eq (bk_key b) of
      None \<Rightarrow> None
    | Some hit \<Rightarrow> if hit then Some (Some i) else scan_unhashed bs (i + 1) eq)"

definition found :: "(usize + usize) option \<Rightarrow> usize option option" where
  "found r = map_option (\<lambda>r. case r of Inl _ \<Rightarrow> None | Inr i \<Rightarrow> Some i) r"

definition get_index_of :: "'k key_ops \<Rightarrow> 'k \<Rightarrow> ('k, 'v) table \<Rightarrow> usize option option" where
  "get_index_of ko k t =
     (if slots t = [] \<and> entries t = [] then Some None
      else (case (if slots t = [] then scan_unhashed (entries t) 0 (key_eq_unhashed ko k) else None) of
          Some r \<Rightarrow> Some r
        | None \<Rightarrow> found (find_hashed (key_hash ko k) (key_eq ko k) t)))"

definition table_get :: "'k key_ops \<Rightarrow> 'k \<Rightarrow> ('k, 'v) table \<Rightarrow> 'v option option" where
  "table_get ko k t = map_option (map_option (\<lambda>i. bk_value (entries t ! i))) (get_index_of ko k t)"

definition get_full :: "'k key_ops \<Rightarrow> 'k \<Rightarrow> ('k, 'v) table \<Rightarrow> (usize \<times> 'k \<times> 'v) option option" where
  "get_full ko k t = map_option (map_option
     (\<lambda>i. (i, bk_key (entries t ! i), bk_value (entries t ! i)))) (get_index_of ko k t)"

definition contains_key :: "'k key_ops \<Rightarrow> 'k \<Rightarrow> ('k, 'v) table \<Rightarrow> bool option" where
  "contains_key ko k t = map_option (\<lambda>r. r \<noteq> None) (get_index_of ko k t)"

text \<open>
  \<open>find_native\<close>: the comparison may be undecided, and then so is the lookup (the inner
  \<open>None\<close>).
\<close>

fun scan_native :: "('k, 'v) bucket list \<Rightarrow> usize \<Rightarrow> i64 \<Rightarrow> ('k \<Rightarrow> bool option)
     \<Rightarrow> (usize + usize) option" where
  "scan_native [] i hash eq = Some (Inl 0)"
| "scan_native (b # bs) i hash eq =
     (if bk_hash b = hash then
        (case eq (bk_key b) of None \<Rightarrow> None
         | Some hit \<Rightarrow> if hit then Some (Inr i) else scan_native bs (i + 1) hash eq)
      else scan_native bs (i + 1) hash eq)"

partial_function (option) native_loop ::
  "('k, 'v) bucket list \<Rightarrow> u64 list \<Rightarrow> i64 \<Rightarrow> ('k \<Rightarrow> bool option) \<Rightarrow> usize
     \<Rightarrow> (usize + usize) option option" where
  "native_loop es sl hash eq p =
     (let s = sl ! p
      in if s = 0 then Some (Some (Inl p))
         else (let ix = slot_ix s - 1; b = es ! ix
               in if (s XOR mix hash) \<le> IX_MASK \<and> bk_hash b = hash
                  then (case eq (bk_key b) of
                      None \<Rightarrow> Some None
                    | Some hit \<Rightarrow>
                        if hit then Some (Some (Inr ix))
                        else native_loop es sl hash eq (next_slot (length sl) p))
                  else native_loop es sl hash eq (next_slot (length sl) p)))"

definition find_native ::
  "i64 \<Rightarrow> ('k \<Rightarrow> bool option) \<Rightarrow> ('k, 'v) table \<Rightarrow> (usize + usize) option option" where
  "find_native hash eq t =
     (if slots t = [] then Some (scan_native (entries t) 0 hash eq)
      else native_loop (entries t) (slots t) hash eq (home (shift t) (mix hash)))"

text \<open>\<open>find_object_hashing\<close>: a lookup by the native comparison, for the keys that have one.\<close>

definition find_object_hashing ::
  "'k key_ops \<Rightarrow> 'k \<Rightarrow> ('k, 'v) table \<Rightarrow> (i64 \<times> (usize + usize)) option option" where
  "find_object_hashing ko k t = (case key_native ko k of
      None \<Rightarrow> Some None
    | Some (h, eq) \<Rightarrow> map_option (map_option (Pair h)) (find_native h eq t))"

definition find_by_hash :: "i64 \<Rightarrow> ('k \<Rightarrow> bool) \<Rightarrow> ('k, 'v) table \<Rightarrow> usize option option" where
  "find_by_hash hash eq t = found (find_hashed hash eq t)"

definition hash_at :: "usize \<Rightarrow> ('k, 'v) table \<Rightarrow> i64 option" where
  "hash_at i t = map_option bk_hash (slice_get (entries t) i)"

definition get_index :: "usize \<Rightarrow> ('k, 'v) table \<Rightarrow> ('k \<times> 'v) option" where
  "get_index i t = map_option (\<lambda>b. (bk_key b, bk_value b)) (slice_get (entries t) i)"

section \<open>Insertion\<close>

definition push_growing :: "('k, 'v) bucket \<Rightarrow> ('k, 'v) table \<Rightarrow> (usize \<times> ('k, 'v) table) option" where
  "push_growing b t =
     (let i = length (entries t)
      in if i < 4294967294
         then map_option (Pair i)
           (rebuild_slots (if slots t = [] then slots_for (i + 1) else length (slots t) * 2)
              (t\<lparr>entries := entries t @ [b]\<rparr>))
         else None)"

definition push_at :: "usize \<Rightarrow> i64 \<Rightarrow> 'k \<Rightarrow> 'v \<Rightarrow> ('k, 'v) table \<Rightarrow> (usize \<times> ('k, 'v) table) option" where
  "push_at p hash k v t =
     (let i = length (entries t); b = mk_bucket hash k v
      in if slots t = [] \<and> i < SMALL then Some (i, t\<lparr>entries := entries t @ [b]\<rparr>)
         else if slots t \<noteq> [] \<and> (i + 1) * 3 \<le> length (slots t) * 2 \<and> i < 4294967294
         then Some (i, t\<lparr>slots := (slots t)[p := slot_word (mix hash) i], entries := entries t @ [b]\<rparr>)
         else push_growing b t)"

definition replace_value :: "usize \<Rightarrow> 'v \<Rightarrow> ('k, 'v) table \<Rightarrow> ('k, 'v) table" where
  "replace_value i v t = t\<lparr>entries := (entries t)[i := (entries t ! i)\<lparr>bk_value := v\<rparr>]\<rparr>"

text \<open>The entry's position, the replaced value, the table.\<close>

definition put_at :: "(usize + usize) \<Rightarrow> i64 \<Rightarrow> 'k \<Rightarrow> 'v \<Rightarrow> ('k, 'v) table
     \<Rightarrow> (usize \<times> 'v option \<times> ('k, 'v) table) option" where
  "put_at r hash k v t = (case r of
      Inr i \<Rightarrow> Some (i, Some (bk_value (entries t ! i)), replace_value i v t)
    | Inl p \<Rightarrow> map_option (\<lambda>(i, t'). (i, None, t')) (push_at p hash k v t))"

definition insert_hashed :: "'k key_ops \<Rightarrow> i64 \<Rightarrow> 'k \<Rightarrow> 'v \<Rightarrow> ('k, 'v) table
     \<Rightarrow> (usize \<times> 'v option \<times> ('k, 'v) table) option" where
  "insert_hashed ko hash k v t = (case find_hashed hash (key_eq ko k) t of
      None \<Rightarrow> None | Some r \<Rightarrow> put_at r hash k v t)"

definition insert_full :: "'k key_ops \<Rightarrow> 'k \<Rightarrow> 'v \<Rightarrow> ('k, 'v) table
     \<Rightarrow> (usize \<times> 'v option \<times> ('k, 'v) table) option" where
  "insert_full ko k v t = (case find_object_hashing ko k t of
      None \<Rightarrow> None
    | Some (Some (hash, r)) \<Rightarrow> put_at r hash k v t
    | Some None \<Rightarrow> insert_hashed ko (key_hash ko k) k v t)"

definition insert_unique_hashed :: "i64 \<Rightarrow> 'k \<Rightarrow> 'v \<Rightarrow> ('k, 'v) table
     \<Rightarrow> (usize \<times> ('k, 'v) table) option" where
  "insert_unique_hashed hash k v t =
     (if slots t = [] then push_at 0 hash k v t
      else (case free_loop (slots t) (home (shift t) (mix hash)) of
          None \<Rightarrow> None | Some p \<Rightarrow> push_at p hash k v t))"

text \<open>
  \<open>push_native\<close>: an append at a known empty slot, refused (\<open>False\<close>) when it would grow the
  entry vector, whose capacity is \<open>cap\<close>, or the slots.
\<close>

definition push_native :: "usize \<Rightarrow> usize \<Rightarrow> i64 \<Rightarrow> 'k \<Rightarrow> 'v \<Rightarrow> ('k, 'v) table \<Rightarrow> bool \<times> ('k, 'v) table" where
  "push_native cap p hash k v t =
     (let i = length (entries t); b = mk_bucket hash k v
      in if i = cap then (False, t)
         else if slots t = [] then
           (if i \<ge> SMALL then (False, t) else (True, t\<lparr>entries := entries t @ [b]\<rparr>))
         else if (i + 1) * 3 > length (slots t) * 2 \<or> i \<ge> 4294967294 then (False, t)
         else (True, t\<lparr>slots := (slots t)[p := slot_word (mix hash) i], entries := entries t @ [b]\<rparr>))"

section \<open>Removal\<close>

definition remove_nth :: "nat \<Rightarrow> 'a list \<Rightarrow> 'a list" where
  "remove_nth i xs = take i xs @ drop (Suc i) xs"

text \<open>\<open>for j in i..n-1 { repoint(h_j, j + 1, j) }\<close>, over the entries after the removal.\<close>

fun repoint_down :: "usize list \<Rightarrow> ('k, 'v) table \<Rightarrow> ('k, 'v) table option" where
  "repoint_down [] t = Some t"
| "repoint_down (j # js) t = (case repoint (bk_hash (entries t ! j)) (j + 1) j t of
      None \<Rightarrow> None | Some t' \<Rightarrow> repoint_down js t')"

definition slot_down :: "nat \<Rightarrow> u64 \<Rightarrow> u64" where
  "slot_down lim s = (if slot_ix s > lim then s - 1 else s)"

definition shift_remove_index :: "usize \<Rightarrow> ('k, 'v) table \<Rightarrow> (('k \<times> 'v) option \<times> ('k, 'v) table) option" where
  "shift_remove_index i t =
     (let n = length (entries t); b = entries t ! i; out = Some (bk_key b, bk_value b)
      in if i \<ge> n then Some (None, t)
         else if slots t = [] then Some (out, t\<lparr>entries := remove_nth i (entries t)\<rparr>)
         else (case slot_of (bk_hash b) i t of None \<Rightarrow> None | Some p \<Rightarrow>
           (case erase_slot p t of None \<Rightarrow> None | Some t1 \<Rightarrow>
             (let t2 = t1\<lparr>entries := remove_nth i (entries t1)\<rparr>; moved = n - 1 - i
              in if moved * 4 \<le> length (slots t2)
                 then map_option (Pair out) (repoint_down [i..<n - 1] t2)
                 else Some (out, t2\<lparr>slots := map (slot_down (i + 1)) (slots t2)\<rparr>)))))"

definition swap_remove_nth :: "nat \<Rightarrow> 'a list \<Rightarrow> 'a list" where
  "swap_remove_nth i xs = butlast (xs[i := last xs])"

definition swap_remove_index :: "usize \<Rightarrow> ('k, 'v) table \<Rightarrow> (('k \<times> 'v) option \<times> ('k, 'v) table) option" where
  "swap_remove_index i t =
     (let n = length (entries t); b = entries t ! i; out = Some (bk_key b, bk_value b)
      in if i \<ge> n then Some (None, t)
         else (case (if slots t = [] then Some t
                     else (case slot_of (bk_hash b) i t of None \<Rightarrow> None | Some p \<Rightarrow>
                       (case erase_slot p t of None \<Rightarrow> None | Some t1 \<Rightarrow>
                         if i \<noteq> n - 1 then repoint (bk_hash (entries t1 ! (n - 1))) (n - 1) i t1
                         else Some t1))) of
             None \<Rightarrow> None
           | Some t2 \<Rightarrow> Some (out, t2\<lparr>entries := swap_remove_nth i (entries t2)\<rparr>)))"

definition replace_index_unique :: "usize \<Rightarrow> i64 \<Rightarrow> 'k \<Rightarrow> 'v \<Rightarrow> ('k, 'v) table
     \<Rightarrow> (('k \<times> 'v) option \<times> ('k, 'v) table) option" where
  "replace_index_unique i hash k v t =
     (let b = entries t ! i; out = Some (bk_key b, bk_value b); b' = mk_bucket hash k v
      in if i \<ge> length (entries t) then Some (None, t)
         else if slots t = [] then Some (out, t\<lparr>entries := (entries t)[i := b']\<rparr>)
         else (case slot_of (bk_hash b) i t of None \<Rightarrow> None | Some p \<Rightarrow>
           (case erase_slot p t of None \<Rightarrow> None | Some t1 \<Rightarrow>
             (let m = mix hash in
              case free_loop (slots t1) (home (shift t1) m) of None \<Rightarrow> None | Some q \<Rightarrow>
                Some (out, t1\<lparr>slots := (slots t1)[q := slot_word m i],
                              entries := (entries t1)[i := b']\<rparr>)))))"

definition table_pop :: "('k, 'v) table \<Rightarrow> (('k \<times> 'v) option \<times> ('k, 'v) table) option" where
  "table_pop t =
     (let n = length (entries t); b = last (entries t)
      in if n = 0 then Some (None, t)
         else (case (if slots t = [] then Some t
                     else (case slot_of (bk_hash (entries t ! (n - 1))) (n - 1) t of None \<Rightarrow> None
                       | Some p \<Rightarrow> erase_slot p t)) of
             None \<Rightarrow> None
           | Some t1 \<Rightarrow> Some (Some (bk_key b, bk_value b), t1\<lparr>entries := butlast (entries t1)\<rparr>)))"

definition shift_remove_full :: "'k key_ops \<Rightarrow> 'k \<Rightarrow> ('k, 'v) table
     \<Rightarrow> ((usize \<times> 'k \<times> 'v) option \<times> ('k, 'v) table) option" where
  "shift_remove_full ko k t = (case get_index_of ko k t of
      None \<Rightarrow> None
    | Some None \<Rightarrow> Some (None, t)
    | Some (Some i) \<Rightarrow> map_option (\<lambda>(r, t'). (map_option (Pair i) r, t')) (shift_remove_index i t))"

definition shift_remove :: "'k key_ops \<Rightarrow> 'k \<Rightarrow> ('k, 'v) table \<Rightarrow> ('v option \<times> ('k, 'v) table) option" where
  "shift_remove ko k t = map_option (\<lambda>(r, t'). (map_option (\<lambda>(i, k, v). v) r, t')) (shift_remove_full ko k t)"

definition swap_remove :: "'k key_ops \<Rightarrow> 'k \<Rightarrow> ('k, 'v) table \<Rightarrow> ('v option \<times> ('k, 'v) table) option" where
  "swap_remove ko k t = (case get_index_of ko k t of
      None \<Rightarrow> None
    | Some None \<Rightarrow> Some (None, t)
    | Some (Some i) \<Rightarrow> map_option (\<lambda>(r, t'). (map_option snd r, t')) (swap_remove_index i t))"

section \<open>Bulk changes\<close>

text \<open>\<open>retain\<close>: the predicate may also change the value.\<close>

definition retain_entry :: "('k \<Rightarrow> 'v \<Rightarrow> bool \<times> 'v) \<Rightarrow> ('k, 'v) bucket \<Rightarrow> ('k, 'v) bucket option" where
  "retain_entry keep b = (case keep (bk_key b) (bk_value b) of
      (r, v) \<Rightarrow> if r then Some (b\<lparr>bk_value := v\<rparr>) else None)"

definition table_retain :: "('k \<Rightarrow> 'v \<Rightarrow> bool \<times> 'v) \<Rightarrow> ('k, 'v) table \<Rightarrow> ('k, 'v) table option" where
  "table_retain keep t =
     (let t' = t\<lparr>entries := List.map_filter (retain_entry keep) (entries t)\<rparr>
      in if length (entries t') \<noteq> length (entries t) then reindex t' else Some t')"

definition table_truncate :: "usize \<Rightarrow> ('k, 'v) table \<Rightarrow> ('k, 'v) table option" where
  "table_truncate n t =
     (if n < length (entries t) then reindex (t\<lparr>entries := take n (entries t)\<rparr>) else Some t)"

text \<open>\<open>split_off\<close> (which panics past the end): the table, and the tail's.\<close>

definition split_off :: "usize \<Rightarrow> ('k, 'v) table \<Rightarrow> (('k, 'v) table \<times> ('k, 'v) table) option" where
  "split_off at t =
     (if at > length (entries t) then None
      else (case reindex (t\<lparr>entries := take at (entries t)\<rparr>) of None \<Rightarrow> None | Some t' \<Rightarrow>
        (let out = \<lparr>entries = drop at (entries t), slots = [], shift = 64\<rparr>
         in map_option (Pair t') (if length (entries out) > SMALL
              then rebuild_slots (slots_for (length (entries out))) out else Some out))))"

definition table_drain :: "usize \<Rightarrow> usize \<Rightarrow> ('k, 'v) table
     \<Rightarrow> (('k \<times> 'v) list \<times> ('k, 'v) table) option" where
  "table_drain a b t =
     (if a > b \<or> b > length (entries t) then None
      else map_option (Pair (map (\<lambda>b. (bk_key b, bk_value b)) (slice (entries t) a b)))
             (reindex (t\<lparr>entries := take a (entries t) @ drop b (entries t)\<rparr>)))"

definition table_reverse :: "('k, 'v) table \<Rightarrow> ('k, 'v) table option" where
  "table_reverse t = reindex (t\<lparr>entries := rev (entries t)\<rparr>)"

definition table_swap_indices :: "usize \<Rightarrow> usize \<Rightarrow> ('k, 'v) table \<Rightarrow> ('k, 'v) table option" where
  "table_swap_indices a b t =
     (if a = b then Some t
      else if a \<ge> length (entries t) \<or> b \<ge> length (entries t) then None
      else (let es = (entries t)[a := entries t ! b, b := entries t ! a]
            in if slots t = [] then Some (t\<lparr>entries := es\<rparr>)
               else (case (slot_of (bk_hash (entries t ! a)) a t, slot_of (bk_hash (entries t ! b)) b t) of
                   (Some pa, Some pb) \<Rightarrow>
                     (let sl = (slots t)[pa := slot_word (slots t ! pa) b]
                      in Some (t\<lparr>slots := sl[pb := slot_word (sl ! pb) a], entries := es\<rparr>))
                 | _ \<Rightarrow> None)))"

end
