(* ===== verification/Dict_Inv.thy ===== *)
theory Dict_Inv
  imports Dict_Table
begin

text \<open>
  The invariant of the dict's table and what the internal routines (\<open>find_hashed\<close>,
  \<open>slot_of\<close>, \<open>erase_slot\<close>, \<open>repoint\<close>, \<open>rebuild_slots\<close>) do under it. \<open>slots_hold sl D g\<close>: the
  nonempty slots are one word for each index of \<open>D\<close>, made of the mixed hash \<open>g\<close> gives it.
\<close>

section \<open>Sizes\<close>

lemma next_pow2_from_facts:
  assumes "p = 2 ^ j"
  shows "\<exists>k \<ge> j. next_pow2_from p n = 2 ^ k \<and> n \<le> 2 ^ k \<and> (k = j \<or> 2 ^ (k - 1) < n)"
  using assms
proof (induction p n arbitrary: j rule: next_pow2_from.induct)
  case (1 p n)
  show ?case
  proof (cases "n \<le> p")
    case True
    then show ?thesis using 1(2)
      by (intro exI [of _ j]) (simp add: next_pow2_from.simps [of "2 ^ j"])
  next
    case False
    then obtain k where k: "Suc j \<le> k" "next_pow2_from (2 * p) n = 2 ^ k" "n \<le> 2 ^ k"
      "k = Suc j \<or> 2 ^ (k - 1) < n"
      using 1(1) [of "Suc j"] 1(2) by auto
    have "k = j \<or> 2 ^ (k - 1) < n" using k(4) False 1(2) by auto
    then show ?thesis using k False 1(2)
      by (intro exI [of _ k]) (simp add: next_pow2_from.simps [of "2 ^ j"])
  qed
qed

lemma slots_for_facts:
  "\<exists>k \<ge> 4. slots_for n = 2 ^ k \<and> n * 3 \<le> slots_for n * 2 \<and> (n * 3 < 8589934590 \<longrightarrow> k \<le> 32)"
proof -
  let ?m = "max n (SMALL + 1) * 3 div 2 + 1"
  obtain k where k: "slots_for n = 2 ^ k" "?m \<le> 2 ^ k" "k = 0 \<or> 2 ^ (k - 1) < ?m"
    using next_pow2_from_facts [of 1 0 ?m] by (auto simp: slots_for_def next_power_of_two_def)
  have "14 \<le> ?m" by (simp add: SMALL_def)
  then have "\<not> k < 4"
  proof (intro notI)
    assume "14 \<le> ?m" "k < 4"
    then have "(2::nat) ^ k \<le> 2 ^ 3" by (intro power_increasing) simp_all
    then show False using k(2) \<open>14 \<le> ?m\<close> by simp
  qed
  moreover have "n * 3 \<le> 2 ^ k * 2"
  proof -
    have "n * 3 \<le> max n (SMALL + 1) * 3" by simp
    also have "\<dots> \<le> 2 * ?m" by simp
    finally show ?thesis using k(2) by simp
  qed
  moreover have "k \<le> 32" if "n * 3 < 8589934590"
  proof (rule ccontr)
    assume "\<not> k \<le> 32"
    then have "(2::nat) ^ 32 \<le> 2 ^ (k - 1)" by (intro power_increasing) simp_all
    then have "4294967296 < ?m" using k(3) \<open>\<not> k \<le> 32\<close> by auto
    moreover have "max n (SMALL + 1) * 3 < 8589934590" using that by (simp add: SMALL_def max_def)
    ultimately show False by linarith
  qed
  ultimately show ?thesis using k(1) by (intro exI [of _ k]) auto
qed

lemma trailing_zeros_pow2: "trailing_zeros (2 ^ k) = k"
  by (induction k) (simp_all add: trailing_zeros.simps [of "2 ^ _"] trailing_zeros.simps [of "Suc 0"] trailing_zeros.simps [of "2 * _"])

section \<open>What the slots hold\<close>

definition nzm :: "u64 list \<Rightarrow> u64 multiset" where
  "nzm sl = filter_mset (\<lambda>s. s \<noteq> 0) (mset sl)"

definition slots_hold :: "u64 list \<Rightarrow> nat set \<Rightarrow> (nat \<Rightarrow> u64) \<Rightarrow> bool" where
  "slots_hold sl D g \<longleftrightarrow> finite D \<and> (\<forall>i \<in> D. index_ok i)
     \<and> nzm sl = image_mset (\<lambda>i. slot_word (g i) i) (mset_set D)"

lemma nzm_replicate [simp]: "nzm (replicate n 0) = {#}"
  by (simp add: nzm_def)

lemma nzm_update:
  "p < length sl \<Longrightarrow> nzm (sl[p := s])
     = nzm sl - (if sl ! p = 0 then {#} else {#sl ! p#}) + (if s = 0 then {#} else {#s#})"
  by (simp add: nzm_def mset_update)

lemma mem_nzm: "s \<in># nzm sl \<longleftrightarrow> s \<noteq> 0 \<and> (\<exists>p < length sl. sl ! p = s)"
  by (auto simp: nzm_def in_set_conv_nth)

lemma hold_index_ok: "slots_hold sl D g \<Longrightarrow> i \<in> D \<Longrightarrow> index_ok i"
  by (simp add: slots_hold_def)

lemma hold_slot:
  assumes "slots_hold sl D g" "p < length sl" "sl ! p \<noteq> 0"
  obtains i where "i \<in> D" "sl ! p = slot_word (g i) i"
proof -
  have "sl ! p \<in># nzm sl" using assms(2,3) by (auto simp: mem_nzm)
  then show thesis using assms(1) that by (auto simp: slots_hold_def)
qed

lemma hold_ex:
  assumes "slots_hold sl D g" "i \<in> D"
  shows "\<exists>p < length sl. sl ! p = slot_word (g i) i"
proof -
  have "slot_word (g i) i \<in># nzm sl" using assms by (simp add: slots_hold_def)
  then show ?thesis by (simp add: mem_nzm)
qed

lemma hold_inj: "slots_hold sl D g \<Longrightarrow> inj_on (\<lambda>i. slot_word (g i) i) D"
  by (rule inj_onI) (metis add_right_cancel hold_index_ok slot_ix_slot_word)

lemma hold_unique:
  assumes "slots_hold sl D g" "p < length sl" "q < length sl" "sl ! p \<noteq> 0"
    "slot_ix (sl ! p) = slot_ix (sl ! q)"
  shows "p = q"
proof (rule ccontr)
  assume "p \<noteq> q"
  obtain i where i: "i \<in> D" "sl ! p = slot_word (g i) i" using assms(1,2,4) by (rule hold_slot)
  have "sl ! q \<noteq> 0" using i assms(5) hold_index_ok [OF assms(1)] by auto
  then obtain j where j: "j \<in> D" "sl ! q = slot_word (g j) j" using assms(1,3) hold_slot by blast
  have "i = j" using i j assms(5) hold_index_ok [OF assms(1)] by simp
  then have eq: "sl ! q = sl ! p" using i j by simp
  have "count (nzm sl) (sl ! p) = 1"
    using i assms(1) hold_inj [OF assms(1)]
    by (simp add: slots_hold_def image_mset_mset_set)
  moreover have "count (nzm sl) (sl ! p) = length (filter ((=) (sl ! p)) sl)"
    using assms(4) by (simp add: nzm_def count_mset count_list_eq_length_filter)
  ultimately have "card {k. k < length sl \<and> sl ! p = sl ! k} = 1"
    by (simp add: length_filter_conv_card)
  then obtain x where "{k. k < length sl \<and> sl ! p = sl ! k} = {x}"
    by (rule card_1_singletonE)
  then have "p = x" "q = x" using assms(2,3) eq by (metis (mono_tags, lifting) mem_Collect_eq singletonD)+
  then show False using \<open>p \<noteq> q\<close> by simp
qed

lemma hold_free:
  assumes "slots_hold sl D g" "card D < length sl"
  shows "\<exists>p < length sl. sl ! p = 0"
proof (rule ccontr)
  assume "\<not> ?thesis"
  then have "nzm sl = mset sl" by (auto simp: nzm_def filter_mset_eq_conv in_set_conv_nth)
  then have "length sl = card D" using assms(1) by (simp add: slots_hold_def flip: size_mset)
  then show False using assms(2) by simp
qed

lemma hold_cong:
  assumes "slots_hold sl D g" "\<And>i. i \<in> D \<Longrightarrow> g i = g' i"
  shows "slots_hold sl D g'"
  using assms by (auto simp: slots_hold_def intro!: image_mset_cong)

lemma hold_insert:
  assumes "slots_hold sl D g" "i \<notin> D" "index_ok i" "p < length sl" "sl ! p = 0"
  shows "slots_hold (sl[p := slot_word m i]) (insert i D) (g(i := m))"
proof -
  have "image_mset (\<lambda>j. slot_word ((g(i := m)) j) j) (mset_set D) = image_mset (\<lambda>j. slot_word (g j) j) (mset_set D)"
    using assms(1,2) by (intro image_mset_cong) (auto simp: slots_hold_def)
  then show ?thesis using assms by (simp add: slots_hold_def nzm_update)
qed

lemma hold_remove:
  assumes "slots_hold sl D g" "i \<in> D" "p < length sl" "sl ! p = slot_word (g i) i"
  shows "slots_hold (sl[p := 0]) (D - {i}) g"
proof -
  have "mset_set D = add_mset i (mset_set (D - {i}))"
    using assms(1,2) by (simp add: slots_hold_def mset_set.remove)
  then show ?thesis using assms by (simp add: slots_hold_def nzm_update)
qed

lemma hold_mset: "mset sl = mset sl' \<Longrightarrow> slots_hold sl D g = slots_hold sl' D g"
  by (simp add: slots_hold_def nzm_def)

section \<open>The table's invariant\<close>

definition entry_mix :: "('k, 'v) bucket list \<Rightarrow> nat \<Rightarrow> u64" where
  "entry_mix es i = mix (bk_hash (es ! i))"

definition slots_inv :: "('k, 'v) bucket list \<Rightarrow> nat \<Rightarrow> u64 list \<Rightarrow> bool" where
  "slots_inv es sh sl \<longleftrightarrow> homes_ok sh sl \<and> probe_ok sh sl
     \<and> slots_hold sl {..<length es} (entry_mix es)"

text \<open>A small table has no slots; a larger one is at most two thirds full.\<close>

definition table_inv :: "('k, 'v) table \<Rightarrow> bool" where
  "table_inv t \<longleftrightarrow> (if slots t = [] then length (entries t) \<le> SMALL
     else slots_inv (entries t) (shift t) (slots t)
       \<and> length (entries t) * 3 \<le> length (slots t) * 2 \<and> length (entries t) < 4294967295)"

lemma table_inv_new [simp]: "table_inv table_new"
  by (simp add: table_inv_def table_new_def SMALL_def)

lemma slots_invD:
  assumes "slots_inv es sh sl"
  shows "homes_ok sh sl" "probe_ok sh sl" "slots_hold sl {..<length es} (entry_mix es)"
    "32 \<le> sh" "sh \<le> 64" "length sl = 2 ^ (64 - sh)" "table_size (length sl)"
  using assms unfolding slots_inv_def homes_ok_def by blast+

lemma index_ok_less: "i < n \<Longrightarrow> n < 4294967296 \<Longrightarrow> index_ok i"
  by (simp add: index_ok_def)

text \<open>Filling the free slot of one more word keeps the three parts of the invariant.\<close>

lemma fill_one:
  assumes "homes_ok sh sl" "probe_ok sh sl" "slots_hold sl D g" "card D < length sl"
    "i \<notin> D" "index_ok i"
  obtains p where "free_loop sl (home sh m) = Some p" "p < length sl" "sl ! p = 0"
    "first_free sl (home sh m) p"
    "probe_ok sh (sl[p := slot_word m i])"
    "slots_hold (sl[p := slot_word m i]) (insert i D) (g(i := m))"
proof -
  have h: "home sh m < length sl" using assms(1) by (rule homes_ok_less)
  have sh: "32 \<le> sh" using assms(1) by (simp add: homes_ok_def)
  obtain p where ff: "first_free sl (home sh m) p"
    using hold_free [OF assms(3,4)] first_free_exists by blast
  then have p: "p < length sl" "sl ! p = 0" by (simp_all add: first_free_def)
  have "free_loop sl (home sh m) = Some p"
    by (rule free_loop_first [OF homes_ok_size [OF assms(1)] h ff])
  moreover have "probe_ok sh (sl[p := slot_word m i])"
    by (rule probe_ok_insert [OF assms(2)]) (simp_all add: assms(6) sh ff)
  ultimately show thesis
    using that p ff hold_insert [OF assms(3,5,6) p] by blast
qed

lemma fill_slots_ok:
  assumes "homes_ok sh sl" "probe_ok sh sl" "slots_hold sl {..<i} g"
    "i + length bs < length sl" "i + length bs < 4294967296"
  shows "\<exists>sl'. fill_slots sh bs i sl = Some sl' \<and> length sl' = length sl \<and> probe_ok sh sl'
    \<and> slots_hold sl' {..<i + length bs} (\<lambda>j. if j < i then g j else mix (bk_hash (bs ! (j - i))))"
  using assms
proof (induction bs arbitrary: i sl g)
  case Nil
  then show ?case by (auto intro: hold_cong)
next
  case (Cons b bs)
  have ok: "index_ok i" "i \<notin> {..<i}" "card {..<i} < length sl"
    using Cons(5,6) by (simp_all add: index_ok_def)
  obtain p where p: "free_loop sl (home sh (mix (bk_hash b))) = Some p" "p < length sl"
    "probe_ok sh (sl[p := slot_word (mix (bk_hash b)) i])"
    "slots_hold (sl[p := slot_word (mix (bk_hash b)) i]) (insert i {..<i}) (g(i := mix (bk_hash b)))"
    by (rule fill_one [OF Cons(2-4) ok(3,2,1)]) blast
  let ?sl = "sl[p := slot_word (mix (bk_hash b)) i]" and ?g = "g(i := mix (bk_hash b))"
  have hold: "slots_hold ?sl {..<i + 1} ?g" using p(4) by (simp only: lessThan_Suc Suc_eq_plus1 [symmetric])
  have homes: "homes_ok sh ?sl" and lens: "i + 1 + length bs < length ?sl" "i + 1 + length bs < 4294967296"
    using Cons(2,5,6) by simp_all
  obtain sl' where sl': "fill_slots sh bs (i + 1) ?sl = Some sl'" "length sl' = length sl"
    "probe_ok sh sl'" "slots_hold sl' {..<i + 1 + length bs}
       (\<lambda>j. if j < i + 1 then ?g j else mix (bk_hash (bs ! (j - (i + 1)))))"
    using Cons(1) [OF homes p(3) hold lens] by (auto simp only: length_list_update)
  have "slots_hold sl' {..<i + length (b # bs)}
      (\<lambda>j. if j < i then g j else mix (bk_hash ((b # bs) ! (j - i))))"
    by (rule hold_cong [where g = "\<lambda>j. if j < i + 1 then ?g j else mix (bk_hash (bs ! (j - (i + 1))))"])
       (use sl'(4) in \<open>auto simp: nth_Cons' less_Suc_eq\<close>)
  then show ?case using p(1) sl' by (simp add: Let_def)
qed

lemma homes_ok_length: "length sl = length sl' \<Longrightarrow> homes_ok sh sl = homes_ok sh sl'"
  by (simp add: homes_ok_def)

lemma homes_ok_replicate: "4 \<le> k \<Longrightarrow> k \<le> 32 \<Longrightarrow> homes_ok (64 - k) (replicate (2 ^ k) 0)"
  by (auto simp: homes_ok_def table_size_def)

text \<open>\<open>rebuild_slots\<close>: the slots are re-derived; the entries stay.\<close>

lemma rebuild_slots_ok:
  assumes "n = 2 ^ k" "4 \<le> k" "k \<le> 32" "length (entries t) * 3 \<le> n * 2"
    "length (entries t) < 4294967295"
  shows "\<exists>sl. rebuild_slots n t = Some (t\<lparr>slots := sl, shift := 64 - k\<rparr>) \<and> length sl = n
    \<and> slots_inv (entries t) (64 - k) sl"
proof -
  have n: "n \<le> 4294967296"
    using power_increasing [of k 32 "2::nat"] assms(1,3) by simp
  have pos: "0 < n" using assms(1) by simp
  then have lt: "length (entries t) < n" using assms(4) by linarith
  have homes: "homes_ok (64 - k) (replicate n 0)"
    using homes_ok_replicate assms(1-3) by simp
  have "slots_hold (replicate n 0) {..<0} (\<lambda>_. 0)" by (simp add: slots_hold_def)
  then obtain sl where sl: "fill_slots (64 - k) (entries t) 0 (replicate n 0) = Some sl" "length sl = n"
    "probe_ok (64 - k) sl" "slots_hold sl {..<length (entries t)} (\<lambda>j. mix (bk_hash (entries t ! j)))"
    using fill_slots_ok [OF homes probe_ok_replicate, of 0 "\<lambda>_. 0" "entries t"] lt assms(5) by auto
  have "homes_ok (64 - k) sl" using homes sl(2) homes_ok_length [of sl "replicate n 0"] by simp
  then have "slots_inv (entries t) (64 - k) sl"
    using sl by (simp add: slots_inv_def entry_mix_def [abs_def])
  then show ?thesis using sl n assms(1,5)
    by (intro exI [of _ sl]) (simp add: rebuild_slots_def trailing_zeros_pow2)
qed

lemma rebuild_inv:
  assumes "n = 2 ^ k" "4 \<le> k" "k \<le> 32" "length (entries t) * 3 \<le> n * 2"
    "length (entries t) < 4294967295"
  shows "\<exists>t'. rebuild_slots n t = Some t' \<and> table_inv t' \<and> entries t' = entries t"
proof -
  obtain sl where sl: "rebuild_slots n t = Some (t\<lparr>slots := sl, shift := 64 - k\<rparr>)" "length sl = n"
    "slots_inv (entries t) (64 - k) sl"
    using rebuild_slots_ok [OF assms] by blast
  moreover have "0 < n" using assms(1) by simp
  then have "sl \<noteq> []" using sl(2) by auto
  ultimately show ?thesis using assms(4,5) by (simp add: table_inv_def)
qed

lemma rebuild_for:
  assumes "length (entries t) \<le> n" "n < 2147483648"
  shows "\<exists>t'. rebuild_slots (slots_for n) t = Some t' \<and> table_inv t' \<and> entries t' = entries t"
proof -
  obtain k where k: "4 \<le> k" "slots_for n = 2 ^ k" "n * 3 \<le> slots_for n * 2" "k \<le> 32"
    using slots_for_facts [of n] assms(2) by auto
  have "length (entries t) * 3 \<le> slots_for n * 2" using k(3) assms(1) by linarith
  then show ?thesis by (rule rebuild_inv [OF k(2,1,4)]) (use assms in simp)
qed

section \<open>Finding, erasing and repointing a slot\<close>

lemma scan_entries_ok:
  "case scan_entries bs i h eq of
     None \<Rightarrow> \<forall>b \<in> set bs. \<not> (bk_hash b = h \<and> eq (bk_key b))
   | Some j \<Rightarrow> i \<le> j \<and> j < i + length bs \<and> bk_hash (bs ! (j - i)) = h \<and> eq (bk_key (bs ! (j - i)))"
proof (induction bs arbitrary: i)
  case Nil
  show ?case by simp
next
  case (Cons b bs)
  then show ?case using Cons [of "i + 1"]
    by (auto simp: nth_Cons' split: option.split_asm option.split)
qed

text \<open>The walk of \<open>find_loop\<close> ends at a matching entry or at the first free slot.\<close>

lemma find_loop_walk:
  assumes "table_size (length sl)" "slots_hold sl {..<length es} (entry_mix es)" "e < length sl"
    "p < length sl" "first_free sl p e"
  shows "\<exists>r. find_loop es sl h eq p = Some r \<and> (case r of
      Inr i \<Rightarrow> i < length es \<and> bk_hash (es ! i) = h \<and> eq (bk_key (es ! i))
    | Inl q \<Rightarrow> q = e \<and> (\<forall>x < length sl. cdist (length sl) p x < cdist (length sl) p e \<longrightarrow>
        (\<forall>i < length es. sl ! x = slot_word (entry_mix es i) i \<longrightarrow>
           \<not> (bk_hash (es ! i) = h \<and> eq (bk_key (es ! i))))))"
  using assms(1,3,4,5)
proof (induction p rule: walk_induct)
  case (step p)
  have e: "e < length sl" "sl ! e = 0" using step(3) by (simp_all add: first_free_def)
  show ?case
  proof (cases "p = e")
    case True
    then show ?thesis using e by (subst find_loop.simps) simp
  next
    case False
    have nz: "sl ! p \<noteq> 0" using first_free_next(2) [OF step(3) assms(1) step(1) False] .
    obtain i where i: "i < length es" "sl ! p = slot_word (entry_mix es i) i"
      using hold_slot [OF assms(2) step(1) nz] by auto
    have ok: "index_ok i" using hold_index_ok [OF assms(2)] i(1) by simp
    have ix: "slot_ix (sl ! p) - 1 = i" using i(2) ok by simp
    let ?hit = "bk_hash (es ! i) = h \<and> eq (bk_key (es ! i))"
    have cmp: "?hit \<Longrightarrow> (sl ! p XOR mix h) \<le> IX_MASK"
      using i(2) slot_word_match [OF ok] by (auto simp: entry_mix_def)
    show ?thesis
    proof (cases ?hit)
      case True
      then show ?thesis using nz ix cmp i(1) by (subst find_loop.simps) (simp add: Let_def)
    next
      case miss: False
      have rec: "find_loop es sl h eq p = find_loop es sl h eq (next_slot (length sl) p)"
        using nz ix miss by (subst find_loop.simps) (auto simp: Let_def)
      have covered: "x = p \<or> cdist (length sl) (next_slot (length sl) p) x
          < cdist (length sl) (next_slot (length sl) p) e"
        if "x < length sl" "cdist (length sl) p x < cdist (length sl) p e" for x
        using that cdist_next [OF assms(1) step(1) that(1)] cdist_next [OF assms(1) step(1) e(1) False]
        by (cases "x = p") auto
      have here: "\<not> (bk_hash (es ! j) = h \<and> eq (bk_key (es ! j)))"
        if "j < length es" "sl ! p = slot_word (entry_mix es j) j" for j
        using miss ix that hold_index_ok [OF assms(2)] by auto
      have "\<exists>r. find_loop es sl h eq (next_slot (length sl) p) = Some r \<and> (case r of
          Inr i \<Rightarrow> i < length es \<and> bk_hash (es ! i) = h \<and> eq (bk_key (es ! i))
        | Inl q \<Rightarrow> q = e \<and> (\<forall>x < length sl. cdist (length sl) (next_slot (length sl) p) x
             < cdist (length sl) (next_slot (length sl) p) e \<longrightarrow>
            (\<forall>i < length es. sl ! x = slot_word (entry_mix es i) i \<longrightarrow>
               \<not> (bk_hash (es ! i) = h \<and> eq (bk_key (es ! i))))))"
        using step(2) [OF False] first_free_next(1) [OF step(3) assms(1) step(1) False] by blast
      then obtain r where r: "find_loop es sl h eq (next_slot (length sl) p) = Some r" "case r of
          Inr i \<Rightarrow> i < length es \<and> bk_hash (es ! i) = h \<and> eq (bk_key (es ! i))
        | Inl q \<Rightarrow> q = e \<and> (\<forall>x < length sl. cdist (length sl) (next_slot (length sl) p) x
             < cdist (length sl) (next_slot (length sl) p) e \<longrightarrow>
            (\<forall>i < length es. sl ! x = slot_word (entry_mix es i) i \<longrightarrow>
               \<not> (bk_hash (es ! i) = h \<and> eq (bk_key (es ! i)))))"
        by blast
      show ?thesis
      proof (cases r)
        case (Inl q)
        have "\<not> (bk_hash (es ! j) = h \<and> eq (bk_key (es ! j)))"
          if "x < length sl" "cdist (length sl) p x < cdist (length sl) p e" "j < length es"
            "sl ! x = slot_word (entry_mix es j) j" for x j
          using covered [OF that(1,2)] here [OF that(3)] r(2) that Inl by auto
        then show ?thesis using rec r Inl by simp
      next
        case (Inr q)
        then show ?thesis using rec r by simp
      qed
    qed
  qed
qed

text \<open>
  \<open>find_hashed\<close> finds an entry exactly when one matches; a miss is the slot where the
  entry would go.
\<close>

definition find_spec :: "i64 \<Rightarrow> ('k \<Rightarrow> bool) \<Rightarrow> ('k, 'v) table \<Rightarrow> (usize + usize) \<Rightarrow> bool" where
  "find_spec h eq t r = (case r of
      Inr i \<Rightarrow> i < length (entries t) \<and> bk_hash (entries t ! i) = h \<and> eq (bk_key (entries t ! i))
    | Inl p \<Rightarrow> (\<forall>i < length (entries t). \<not> (bk_hash (entries t ! i) = h \<and> eq (bk_key (entries t ! i))))
        \<and> (slots t \<noteq> [] \<longrightarrow> first_free (slots t) (home (shift t) (mix h)) p))"

lemma table_inv_slots:
  assumes "table_inv t" "slots t \<noteq> []"
  shows "slots_inv (entries t) (shift t) (slots t)" "length (entries t) < length (slots t)"
    "length (entries t) * 3 \<le> length (slots t) * 2" "length (entries t) < 4294967295"
proof -
  show "slots_inv (entries t) (shift t) (slots t)" "length (entries t) * 3 \<le> length (slots t) * 2"
    "length (entries t) < 4294967295"
    using assms by (simp_all add: table_inv_def)
  moreover have "0 < length (slots t)" using assms(2) by simp
  ultimately show "length (entries t) < length (slots t)" by linarith
qed

lemma find_hashed_ok:
  assumes "table_inv t"
  shows "\<exists>r. find_hashed h eq t = Some r \<and> find_spec h eq t r"
proof (cases "slots t = []")
  case True
  then show ?thesis using scan_entries_ok [where bs = "entries t" and i = 0 and h = h and eq = eq]
    by (cases "scan_entries (entries t) 0 h eq")
       (auto simp: find_hashed_def find_spec_def dest: nth_mem)
next
  case False
  let ?es = "entries t" and ?sl = "slots t" and ?p = "home (shift t) (mix h)"
  note inv = table_inv_slots [OF assms False]
  note parts = slots_invD [OF inv(1)]
  obtain z where "z < length ?sl" "?sl ! z = 0"
    using hold_free [OF parts(3)] inv(2) by auto
  then obtain e where ff: "first_free ?sl ?p e"
    using first_free_exists [of z ?sl ?p] by blast
  then have e: "e < length ?sl" by (simp add: first_free_def)
  obtain r where r: "find_loop ?es ?sl h eq ?p = Some r" and hit: "case r of
      Inr i \<Rightarrow> i < length ?es \<and> bk_hash (?es ! i) = h \<and> eq (bk_key (?es ! i))
    | Inl q \<Rightarrow> q = e \<and> (\<forall>x < length ?sl. cdist (length ?sl) ?p x < cdist (length ?sl) ?p e \<longrightarrow>
        (\<forall>i < length ?es. ?sl ! x = slot_word (entry_mix ?es i) i \<longrightarrow>
           \<not> (bk_hash (?es ! i) = h \<and> eq (bk_key (?es ! i)))))"
    using find_loop_walk [OF parts(7,3) e homes_ok_less [OF parts(1)] ff] by blast
  have "find_spec h eq t r"
  proof (cases r)
    case (Inl q)
    have "\<not> (bk_hash (?es ! i) = h \<and> eq (bk_key (?es ! i)))" if i: "i < length ?es" for i
    proof
      assume match: "bk_hash (?es ! i) = h \<and> eq (bk_key (?es ! i))"
      obtain x where x: "x < length ?sl" "?sl ! x = slot_word (entry_mix ?es i) i"
        using hold_ex [OF parts(3)] i by auto
      have ok: "index_ok i" using hold_index_ok [OF parts(3)] i by simp
      have "home (shift t) (?sl ! x) = ?p"
        using x(2) ok parts(4) match by (simp add: entry_mix_def)
      then have "?sl ! q \<noteq> 0" if "x < length ?sl" "cdist (length ?sl) ?p q < cdist (length ?sl) ?p x" "q < length ?sl" for q
        using probe_okD [OF parts(2) x(1) _ that(3)] that(2) x(2) ok by simp
      then have "\<not> cdist (length ?sl) ?p e < cdist (length ?sl) ?p x"
        using ff x(1) by (auto simp: first_free_def)
      moreover have "e \<noteq> x" using ff x(2) ok by (auto simp: first_free_def)
      then have "cdist (length ?sl) ?p e \<noteq> cdist (length ?sl) ?p x"
        using cdist_inj [OF homes_ok_less [OF parts(1)] e x(1)] by blast
      ultimately have "cdist (length ?sl) ?p x < cdist (length ?sl) ?p e" by linarith
      then show False using hit Inl x i match by auto
    qed
    then show ?thesis using Inl hit ff by (simp add: find_spec_def)
  next
    case (Inr i)
    then show ?thesis using hit by (simp add: find_spec_def)
  qed
  then show ?thesis using r False by (simp add: find_hashed_def)
qed

lemma slot_of_ok:
  assumes "homes_ok (shift t) (slots t)" "slots_hold (slots t) D g" "i \<in> D"
  obtains p where "slot_of h i t = Some p" "p < length (slots t)" "slots t ! p = slot_word (g i) i"
proof -
  obtain p where p: "p < length (slots t)" "slots t ! p = slot_word (g i) i"
    using hold_ex [OF assms(2,3)] by blast
  have ok: "index_ok i" using hold_index_ok [OF assms(2,3)] .
  have "q = p" if "q < length (slots t)" "slot_ix (slots t ! q) = i + 1" for q
    using hold_unique [OF assms(2) p(1) that(1)] p(2) ok that(2) by simp
  then have "slot_of h i t = Some p"
    unfolding slot_of_def
    by (intro slot_of_loop_found [OF homes_ok_size [OF assms(1)] homes_ok_less [OF assms(1)] p(1)])
       (use p(2) ok in auto)
  then show thesis using that p by blast
qed

lemma erase_ok:
  assumes "homes_ok (shift t) (slots t)" "probe_ok (shift t) (slots t)" "slots_hold (slots t) D g"
    "i \<in> D" "p < length (slots t)" "slots t ! p = slot_word (g i) i" "card D < length (slots t)"
  obtains sl where "erase_slot p t = Some (t\<lparr>slots := sl\<rparr>)" "length sl = length (slots t)"
    "probe_ok (shift t) sl" "slots_hold sl (D - {i}) g"
proof -
  obtain e where e: "e < length (slots t)" "slots t ! e = 0"
    using hold_free [OF assms(3,7)] by blast
  have "e \<noteq> p" using e assms(6) hold_index_ok [OF assms(3,4)] by auto
  then obtain sl where sl: "erase_loop (shift t) (slots t) p (next_slot (length (slots t)) p) = Some sl"
    "length sl = length (slots t)" "probe_ok (shift t) sl" "mset sl = mset ((slots t)[p := 0])"
    using erase_slot_ok [OF assms(1,2,5) e(1) _ e(2)] by blast
  have "slots_hold sl (D - {i}) g"
    using hold_remove [OF assms(3-6)] hold_mset [OF sl(4)] by blast
  then show thesis using that sl by (simp add: erase_slot_def)
qed

lemma hold_repoint:
  assumes "slots_hold sl D g" "i \<in> D" "j \<notin> D" "index_ok j" "p < length sl" "sl ! p = slot_word (g i) i"
  shows "slots_hold (sl[p := slot_word (sl ! p) j]) (insert j (D - {i})) (g(j := g i))"
proof -
  have "slot_word (sl ! p) j = slot_word (g i) j"
    using assms(4,6) slot_word_repoint [OF hold_index_ok [OF assms(1,2)]] by simp
  moreover have "slots_hold ((sl[p := 0])[p := slot_word (g i) j]) (insert j (D - {i})) (g(j := g i))"
    by (rule hold_insert [OF hold_remove [OF assms(1,2,5,6)]]) (use assms in auto)
  ultimately show ?thesis by simp
qed

lemma repoint_ok:
  assumes "homes_ok (shift t) (slots t)" "probe_ok (shift t) (slots t)" "slots_hold (slots t) D g"
    "i \<in> D" "j \<notin> D" "index_ok j"
  obtains sl where "repoint h i j t = Some (t\<lparr>slots := sl\<rparr>)" "length sl = length (slots t)"
    "probe_ok (shift t) sl" "slots_hold sl (insert j (D - {i})) (g(j := g i))"
proof -
  obtain p where p: "slot_of h i t = Some p" "p < length (slots t)" "slots t ! p = slot_word (g i) i"
    using slot_of_ok [OF assms(1,3,4)] by blast
  let ?sl = "(slots t)[p := slot_word (slots t ! p) j]"
  have ok: "index_ok i" using hold_index_ok [OF assms(3,4)] .
  have "32 \<le> shift t" using assms(1) by (simp add: homes_ok_def)
  then have "probe_ok (shift t) ?sl"
    by (intro probe_ok_change [OF assms(2)]) (use p(3) ok assms(6) in simp_all)
  then show thesis
    using that [of ?sl] p hold_repoint [OF assms(3-6) p(2,3)] by (simp add: repoint_def)
qed

end
