(* ===== verification/Dict_Ops.thy ===== *)
theory Dict_Ops
  imports Dict_Inv
begin

text \<open>
  Every operation of the dict's table that changes it: on a table that satisfies the
  invariant it returns (its loops end, nothing panics below \<open>2 ^ 31\<close> entries), the invariant
  holds again, and the entries are what the operation's contract says.
\<close>

section \<open>Appending\<close>

lemma slots_inv_append:
  assumes "slots_inv es sh sl" "first_free sl (home sh (mix (bk_hash b))) p" "length es < 4294967295"
  shows "slots_inv (es @ [b]) sh (sl[p := slot_word (mix (bk_hash b)) (length es)])"
proof -
  note parts = slots_invD [OF assms(1)]
  have ok: "index_ok (length es)" using assms(3) by (simp add: index_ok_def)
  have p: "p < length sl" "sl ! p = 0" using assms(2) by (simp_all add: first_free_def)
  have "probe_ok sh (sl[p := slot_word (mix (bk_hash b)) (length es)])"
    by (rule probe_ok_insert [OF parts(2)]) (simp_all add: ok parts(4) assms(2))
  moreover have "slots_hold (sl[p := slot_word (mix (bk_hash b)) (length es)])
      (insert (length es) {..<length es}) ((entry_mix es)(length es := mix (bk_hash b)))"
    by (rule hold_insert [OF parts(3)]) (simp_all add: ok p)
  then have "slots_hold (sl[p := slot_word (mix (bk_hash b)) (length es)]) {..<length (es @ [b])}
      (entry_mix (es @ [b]))"
    unfolding lessThan_Suc [symmetric]
    by (auto simp: entry_mix_def nth_append less_Suc_eq intro: hold_cong)
  ultimately show ?thesis using parts(1) by (simp add: slots_inv_def)
qed

lemma push_growing_ok:
  assumes "table_inv t" "length (entries t) < 2147483647"
    "slots t = [] \<or> (length (entries t) + 1) * 3 > length (slots t) * 2"
  shows "\<exists>t'. push_growing b t = Some (length (entries t), t') \<and> table_inv t'
    \<and> entries t' = entries t @ [b]"
proof -
  let ?n = "length (entries t)" and ?t = "t\<lparr>entries := entries t @ [b]\<rparr>"
  have "\<exists>t'. rebuild_slots (if slots t = [] then slots_for (?n + 1) else length (slots t) * 2) ?t = Some t'
      \<and> table_inv t' \<and> entries t' = entries ?t"
  proof (cases "slots t = []")
    case True
    then show ?thesis using rebuild_for [of ?t "?n + 1"] assms(2) by simp
  next
    case False
    note inv = table_inv_slots [OF assms(1) False]
    note parts = slots_invD [OF inv(1)]
    obtain j where j: "4 \<le> j" "length (slots t) = 2 ^ j" using parts(7) by (auto simp: table_size_def)
    have "j \<le> 31"
    proof (rule ccontr)
      assume "\<not> j \<le> 31"
      then have "(2::nat) ^ 32 \<le> 2 ^ j" by (intro power_increasing) simp_all
      then show False using assms(2,3) False j(2) by simp
    qed
    have "16 \<le> length (slots t)" using table_size_pos [OF parts(7)] .
    then have "length (entries ?t) * 3 \<le> length (slots t) * 2 * 2" using inv(3) by simp
    then show ?thesis
      using rebuild_inv [of "length (slots t) * 2" "j + 1" ?t] j \<open>j \<le> 31\<close> assms(2) False by simp
  qed
  then show ?thesis using assms(2) by (auto simp: push_growing_def Let_def)
qed

text \<open>\<open>push_at\<close>, at the slot of a miss.\<close>

lemma push_at_ok:
  assumes "table_inv t" "length (entries t) < 2147483647"
    "slots t \<noteq> [] \<Longrightarrow> first_free (slots t) (home (shift t) (mix h)) p"
  shows "\<exists>t'. push_at p h k v t = Some (length (entries t), t') \<and> table_inv t'
    \<and> entries t' = entries t @ [mk_bucket h k v]"
proof -
  let ?n = "length (entries t)" and ?b = "mk_bucket h k v"
  have hash: "bk_hash ?b = h" by (simp add: mk_bucket_def)
  consider (small) "slots t = []" "?n < SMALL"
    | (fits) "slots t \<noteq> []" "(?n + 1) * 3 \<le> length (slots t) * 2"
    | (grow) "\<not> (slots t = [] \<and> ?n < SMALL)" "slots t = [] \<or> \<not> (?n + 1) * 3 \<le> length (slots t) * 2"
    by blast
  then show ?thesis
  proof cases
    case small
    then show ?thesis by (simp add: push_at_def table_inv_def)
  next
    case fits
    have "slots_inv (entries t @ [?b]) (shift t) ((slots t)[p := slot_word (mix h) ?n])"
      using slots_inv_append [OF table_inv_slots(1) [OF assms(1) fits(1)], of ?b p] assms(2,3) fits(1) hash
      by simp
    then show ?thesis using fits assms(2) by (auto simp: push_at_def table_inv_def Let_def)
  next
    case grow
    then have "push_at p h k v t = push_growing ?b t" by (auto simp: push_at_def Let_def)
    then show ?thesis using push_growing_ok [OF assms(1,2), of ?b] grow(2) by auto
  qed
qed

lemma find_spec_free:
  "find_spec h eq t (Inl p) \<Longrightarrow> slots t \<noteq> [] \<Longrightarrow> first_free (slots t) (home (shift t) (mix h)) p"
  by (simp add: find_spec_def)

lemma insert_unique_ok:
  assumes "table_inv t" "length (entries t) < 2147483647"
  shows "\<exists>t'. insert_unique_hashed h k v t = Some (length (entries t), t') \<and> table_inv t'
    \<and> entries t' = entries t @ [mk_bucket h k v]"
proof (cases "slots t = []")
  case True
  then show ?thesis using push_at_ok [OF assms, of h 0] by (simp add: insert_unique_hashed_def)
next
  case False
  note inv = table_inv_slots [OF assms(1) False]
  note parts = slots_invD [OF inv(1)]
  obtain z where "z < length (slots t)" "slots t ! z = 0"
    using hold_free [OF parts(3)] inv(2) by auto
  then obtain e where ff: "first_free (slots t) (home (shift t) (mix h)) e"
    using first_free_exists by blast
  then have "free_loop (slots t) (home (shift t) (mix h)) = Some e"
    by (rule free_loop_first [OF parts(7) homes_ok_less [OF parts(1)]])
  then show ?thesis using push_at_ok [OF assms, of h e] ff False by (simp add: insert_unique_hashed_def)
qed

section \<open>Replacing a value\<close>

lemma entry_mix_cong:
  assumes "length es' = length es" "\<And>i. i < length es \<Longrightarrow> bk_hash (es' ! i) = bk_hash (es ! i)"
  shows "slots_inv es' sh sl = slots_inv es sh sl"
proof -
  have "slots_hold sl {..<length es} (entry_mix es') = slots_hold sl {..<length es} (entry_mix es)"
    using assms by (auto simp: entry_mix_def intro: hold_cong)
  then show ?thesis using assms(1) by (simp add: slots_inv_def)
qed

lemma replace_value_ok:
  assumes "table_inv t" "i < length (entries t)"
  shows "table_inv (replace_value i v t)"
proof -
  have "slots_inv (entries (replace_value i v t)) (shift t) (slots t)
      = slots_inv (entries t) (shift t) (slots t)"
    by (rule entry_mix_cong) (use assms(2) in \<open>auto simp: replace_value_def nth_list_update\<close>)
  then show ?thesis using assms by (simp add: table_inv_def replace_value_def)
qed

section \<open>Removing the last entry, and any entry\<close>

text \<open>Erasing the slot of entry \<open>i\<close>: the words of the other entries remain.\<close>

lemma erase_entry:
  assumes "slots_inv (entries t) (shift t) (slots t)" "length (entries t) < length (slots t)"
    "i < length (entries t)"
  obtains p sl where "slot_of h i t = Some p" "erase_slot p t = Some (t\<lparr>slots := sl\<rparr>)"
    "length sl = length (slots t)" "homes_ok (shift t) sl" "probe_ok (shift t) sl"
    "slots_hold sl ({..<length (entries t)} - {i}) (entry_mix (entries t))"
proof -
  note parts = slots_invD [OF assms(1)]
  obtain p where p: "slot_of h i t = Some p" "p < length (slots t)"
    "slots t ! p = slot_word (entry_mix (entries t) i) i"
    using slot_of_ok [OF parts(1,3)] assms(3) by blast
  obtain sl where sl: "erase_slot p t = Some (t\<lparr>slots := sl\<rparr>)" "length sl = length (slots t)"
    "probe_ok (shift t) sl" "slots_hold sl ({..<length (entries t)} - {i}) (entry_mix (entries t))"
    using erase_ok [OF parts(1-3) _ p(2,3)] assms(2,3) by auto
  have "homes_ok (shift t) sl" using parts(1) homes_ok_length [OF sl(2)] by simp
  then show thesis using that p(1) sl by blast
qed

lemma pop_ok:
  assumes "table_inv t" "entries t = es @ [b]"
  shows "\<exists>t'. table_pop t = Some (Some (bk_key b, bk_value b), t') \<and> table_inv t' \<and> entries t' = es"
proof (cases "slots t = []")
  case True
  then show ?thesis using assms by (simp add: table_pop_def table_inv_def)
next
  case False
  note inv = table_inv_slots [OF assms(1) False]
  obtain p sl where sl: "slot_of (bk_hash b) (length es) t = Some p" "erase_slot p t = Some (t\<lparr>slots := sl\<rparr>)"
    "length sl = length (slots t)" "homes_ok (shift t) sl" "probe_ok (shift t) sl"
    "slots_hold sl ({..<length (entries t)} - {length es}) (entry_mix (entries t))"
    using erase_entry [OF inv(1,2), of "length es"] assms(2) by auto
  have "slots_hold sl {..<length es} (entry_mix es)"
    by (rule hold_cong [where g = "entry_mix (entries t)"])
       (use sl(6) assms(2) in \<open>auto simp: entry_mix_def nth_append lessThan_Suc\<close>)
  then have "slots_inv es (shift t) sl" using sl by (simp add: slots_inv_def)
  moreover have "sl \<noteq> []" using sl(3) False by auto
  ultimately show ?thesis using sl False inv assms(2)
    by (auto simp: table_pop_def Let_def table_inv_def)
qed

text \<open>Renumbering the entries in the slots.\<close>

lemma nzm_map:
  assumes "f 0 = 0" "\<And>s. s \<in># nzm sl \<Longrightarrow> f s \<noteq> 0"
  shows "nzm (map f sl) = image_mset f (nzm sl)"
  using assms(2)
proof (induction sl)
  case (Cons s sl)
  have "\<And>x. x \<in># nzm sl \<Longrightarrow> f x \<noteq> 0" using Cons(2) by (simp add: nzm_def)
  then show ?case using Cons assms(1) by (auto simp: nzm_def)
qed (simp add: nzm_def)

lemma hold_renumber:
  assumes "slots_hold sl D g" "inj_on r D" "f 0 = 0"
    "\<And>k. k \<in> D \<Longrightarrow> index_ok (r k) \<and> f (slot_word (g k) k) = slot_word (g k) (r k) \<and> g' (r k) = g k"
  shows "slots_hold (map f sl) (r ` D) g'"
proof -
  have nzm: "nzm sl = image_mset (\<lambda>i. slot_word (g i) i) (mset_set D)" and fin: "finite D"
    using assms(1) by (simp_all add: slots_hold_def)
  have "nzm (map f sl) = image_mset f (nzm sl)"
    by (rule nzm_map [of f, OF assms(3)]) (use nzm fin assms(4) in auto)
  also have "\<dots> = image_mset (\<lambda>k. slot_word (g' (r k)) (r k)) (mset_set D)"
    unfolding nzm multiset.map_comp using assms(4) fin by (intro image_mset_cong) simp
  also have "\<dots> = image_mset (\<lambda>i. slot_word (g' i) i) (mset_set (r ` D))"
    using image_mset_mset_set [OF assms(2)] by (simp flip: image_mset_mset_set [OF assms(2)] add: multiset.map_comp comp_def)
  finally show ?thesis using fin assms(4) by (auto simp: slots_hold_def)
qed

lemma probe_ok_map:
  assumes "probe_ok sh sl" "f 0 = 0" "\<And>s. s \<in> set sl \<Longrightarrow> s \<noteq> 0 \<Longrightarrow> f s \<noteq> 0 \<and> home sh (f s) = home sh s"
  shows "probe_ok sh (map f sl)"
  unfolding probe_ok_def length_map
proof (intro allI impI)
  fix p q
  assume p: "p < length sl" "map f sl ! p \<noteq> 0" and q: "q < length sl"
    "cdist (length sl) (home sh (map f sl ! p)) q < cdist (length sl) (home sh (map f sl ! p)) p"
  have nz: "sl ! p \<noteq> 0" using p assms(2) by auto
  have "home sh (map f sl ! p) = home sh (sl ! p)" using assms(3) [OF nth_mem [OF p(1)] nz] p(1) by simp
  then have "sl ! q \<noteq> 0" by (intro probe_okD [OF assms(1) p(1) nz q(1)]) (use q(2) in simp)
  then show "map f sl ! q \<noteq> 0" using assms(3) q(1) by simp
qed

lemma renumber_ok:
  assumes "homes_ok sh sl" "probe_ok sh sl" "slots_hold sl D g" "inj_on r D" "f 0 = 0"
    "\<And>k. k \<in> D \<Longrightarrow> index_ok (r k) \<and> f (slot_word (g k) k) = slot_word (g k) (r k) \<and> g' (r k) = g k"
  shows "homes_ok sh (map f sl)" "probe_ok sh (map f sl)" "slots_hold (map f sl) (r ` D) g'"
proof -
  show "homes_ok sh (map f sl)" using assms(1) homes_ok_length [of "map f sl" sl] by simp
  show "slots_hold (map f sl) (r ` D) g'" using assms(3-6) by (rule hold_renumber)
  have sh: "32 \<le> sh" using assms(1) by (simp add: homes_ok_def)
  show "probe_ok sh (map f sl)"
  proof (rule probe_ok_map [of sh sl f, OF assms(2,5)])
    fix s
    assume s: "s \<in> set sl" "s \<noteq> 0"
    then obtain p where "p < length sl" "sl ! p = s" by (auto simp: in_set_conv_nth)
    then obtain k where k: "k \<in> D" "s = slot_word (g k) k" using hold_slot [OF assms(3)] s(2) by metis
    then show "f s \<noteq> 0 \<and> home sh (f s) = home sh s"
      using assms(6) [OF k(1)] hold_index_ok [OF assms(3) k(1)] sh by simp
  qed
qed

section \<open>\<open>shift_remove_index\<close>\<close>

lemma length_remove_nth: "i < length xs \<Longrightarrow> length (remove_nth i xs) = length xs - 1"
  by (simp add: remove_nth_def)

lemma nth_remove_nth:
  "i < length xs \<Longrightarrow> k < length xs - 1 \<Longrightarrow> remove_nth i xs ! k = (if k < i then xs ! k else xs ! (k + 1))"
  by (auto simp: remove_nth_def nth_append)

lemma repoint_down_ok:
  assumes "j \<le> m" "homes_ok (shift t) (slots t)" "probe_ok (shift t) (slots t)"
    "slots_hold (slots t) ({..m} - {j}) g" "m < 4294967295"
  shows "\<exists>sl. repoint_down [j..<m] t = Some (t\<lparr>slots := sl\<rparr>) \<and> length sl = length (slots t)
    \<and> probe_ok (shift t) sl \<and> slots_hold sl {..<m} (\<lambda>k. if k < j then g k else g (k + 1))"
  using assms
proof (induction "m - j" arbitrary: j t g)
  case 0
  then have "{..m} - {j} = {..<m}" "j = m" by auto
  then show ?case using 0 by (intro exI [of _ "slots t"]) (auto intro: hold_cong)
next
  case (Suc d)
  have jm: "j < m" using Suc(2) by simp
  then have upt: "[j..<m] = j # [Suc j..<m]" by (simp add: upt_conv_Cons)
  have in_D: "j + 1 \<in> {..m} - {j}" "j \<notin> {..m} - {j}" "index_ok j"
    using jm Suc(7) by (auto simp: index_ok_def)
  obtain sl where sl: "repoint (bk_hash (entries t ! j)) (j + 1) j t = Some (t\<lparr>slots := sl\<rparr>)"
    "length sl = length (slots t)" "probe_ok (shift t) sl"
    "slots_hold sl (insert j ({..m} - {j} - {j + 1})) (g(j := g (j + 1)))"
    by (rule repoint_ok [OF Suc(4-6) in_D]) blast
  have D: "insert j ({..m} - {j} - {j + 1}) = {..m} - {Suc j}" using jm by auto
  let ?t = "t\<lparr>slots := sl\<rparr>" and ?g = "g(j := g (j + 1))"
  have homes: "homes_ok (shift ?t) (slots ?t)" using Suc(4) homes_ok_length [OF sl(2)] by simp
  have "\<exists>sl'. repoint_down [Suc j..<m] ?t = Some (?t\<lparr>slots := sl'\<rparr>) \<and> length sl' = length (slots ?t)
    \<and> probe_ok (shift ?t) sl' \<and> slots_hold sl' {..<m} (\<lambda>k. if k < Suc j then ?g k else ?g (k + 1))"
  proof (rule Suc(1) [of "Suc j" ?t ?g])
    show "slots_hold (slots ?t) ({..m} - {Suc j}) ?g" using sl(4) unfolding D by simp
  qed (use Suc(2) jm homes sl(3) Suc(7) in simp_all)
  then obtain sl' where sl': "repoint_down [Suc j..<m] ?t = Some (t\<lparr>slots := sl'\<rparr>)"
    "length sl' = length sl" "probe_ok (shift t) sl'"
    "slots_hold sl' {..<m} (\<lambda>k. if k < Suc j then ?g k else ?g (k + 1))" by auto
  have "slots_hold sl' {..<m} (\<lambda>k. if k < j then g k else g (k + 1))"
    by (rule hold_cong [OF sl'(4)]) (auto simp: less_Suc_eq)
  then show ?case using sl(1,2) sl'(1-3) upt by (intro exI [of _ sl']) simp
qed

lemma slot_down_slot_word:
  assumes "index_ok k" "k \<noteq> i"
  shows "slot_down (i + 1) (slot_word m k) = slot_word m (if k < i then k else k - 1)"
  using assms slot_word_pred [of "k - 1" m] by (auto simp: slot_down_def)

lemma shift_remove_index_ok:
  assumes "table_inv t" "i < length (entries t)"
  shows "\<exists>t'. shift_remove_index i t
      = Some (Some (bk_key (entries t ! i), bk_value (entries t ! i)), t') \<and> table_inv t'
    \<and> entries t' = remove_nth i (entries t)"
proof (cases "slots t = []")
  case True
  then show ?thesis using assms
    by (simp add: shift_remove_index_def table_inv_def length_remove_nth Let_def)
next
  case False
  let ?n = "length (entries t)" and ?es = "remove_nth i (entries t)"
  note inv = table_inv_slots [OF assms(1) False]
  obtain p sl where sl: "slot_of (bk_hash (entries t ! i)) i t = Some p" "erase_slot p t = Some (t\<lparr>slots := sl\<rparr>)"
    "length sl = length (slots t)" "homes_ok (shift t) sl" "probe_ok (shift t) sl"
    "slots_hold sl ({..<?n} - {i}) (entry_mix (entries t))"
    using erase_entry [OF inv(1,2) assms(2)] by blast
  have len: "length ?es = ?n - 1" using assms(2) by (rule length_remove_nth)
  have mixes: "entry_mix ?es k = (if k < i then entry_mix (entries t) k else entry_mix (entries t) (k + 1))"
    if "k < ?n - 1" for k
    using nth_remove_nth [OF assms(2) that] by (simp add: entry_mix_def)
  have finish: "table_inv u"
    if "entries u = ?es" "shift u = shift t" "length (slots u) = length sl" "homes_ok (shift t) (slots u)"
      "probe_ok (shift t) (slots u)" "slots_hold (slots u) {..<?n - 1} (entry_mix ?es)" for u :: "('a, 'b) table"
  proof -
    have "slots u \<noteq> []" using that(3) sl(3) False by auto
    then show ?thesis using that sl(3) inv len by (auto simp: table_inv_def slots_inv_def)
  qed
  let ?t2 = "t\<lparr>slots := sl, entries := ?es\<rparr>"
  show ?thesis
  proof (cases "(?n - 1 - i) * 4 \<le> length sl")
    case True
    have "{..<?n} - {i} = {..?n - 1} - {i}" using assms(2) by auto
    then have hold: "slots_hold (slots ?t2) ({..?n - 1} - {i}) (entry_mix (entries t))"
      using sl(6) by simp
    have "\<exists>sl'. repoint_down [i..<?n - 1] ?t2 = Some (?t2\<lparr>slots := sl'\<rparr>) \<and> length sl' = length (slots ?t2)
      \<and> probe_ok (shift ?t2) sl' \<and> slots_hold sl' {..<?n - 1}
         (\<lambda>k. if k < i then entry_mix (entries t) k else entry_mix (entries t) (k + 1))"
      by (rule repoint_down_ok [OF _ _ _ hold]) (use assms(2) sl(4,5) inv(4) in simp_all)
    then obtain sl' where sl': "repoint_down [i..<?n - 1] ?t2 = Some (?t2\<lparr>slots := sl'\<rparr>)" "length sl' = length sl"
      "probe_ok (shift t) sl'" "slots_hold sl' {..<?n - 1}
         (\<lambda>k. if k < i then entry_mix (entries t) k else entry_mix (entries t) (k + 1))"
      by (elim exE conjE) simp
    have "slots_hold sl' {..<?n - 1} (entry_mix ?es)"
      by (rule hold_cong [OF sl'(4)]) (use mixes in simp)
    then have "table_inv (?t2\<lparr>slots := sl'\<rparr>)"
      by (intro finish) (use sl' sl(4) homes_ok_length [OF sl'(2)] in simp_all)
    then show ?thesis using sl' sl(1-4) True assms(2) False
      by (simp add: shift_remove_index_def Let_def)
  next
    case all: False
    let ?f = "slot_down (i + 1)" and ?r = "\<lambda>k. if k < i then k else k - 1"
    have inj: "inj_on ?r ({..<?n} - {i})" by (auto simp: inj_on_def split: if_splits)
    have step: "index_ok (?r k) \<and> ?f (slot_word (entry_mix (entries t) k) k) = slot_word (entry_mix (entries t) k) (?r k)
        \<and> entry_mix ?es (?r k) = entry_mix (entries t) k" if "k \<in> {..<?n} - {i}" for k
      using slot_down_slot_word [of k i] mixes [of "?r k"] that assms(2) inv(4)
      by (auto simp: index_ok_def)
    note ren = renumber_ok [where f = ?f and r = ?r, OF sl(4-6) inj _ step]
    have range: "?r ` ({..<?n} - {i}) = {..<?n - 1}"
    proof (intro equalityI subsetI)
      fix k assume "k \<in> {..<?n - 1}"
      then show "k \<in> ?r ` ({..<?n} - {i})"
        by (intro image_eqI [of _ _ "if k < i then k else k + 1"]) auto
    qed (use assms(2) in auto)
    have "slot_down (i + 1) 0 = 0" by (simp add: slot_down_def)
    with ren range have "table_inv (?t2\<lparr>slots := map ?f sl\<rparr>)"
      by (intro finish) (simp_all add: homes_ok_length [of "map ?f sl" sl] sl(4))
    then show ?thesis using sl(1-3) all assms(2) False
      by (simp add: shift_remove_index_def Let_def)
  qed
qed

end
