(* ===== verification/Dict_Bulk.thy ===== *)
theory Dict_Bulk
  imports Dict_Ops
begin

text \<open>
  The remaining operations that change the dict's table: the unordered removal, the
  replacement of an entry, the swaps, and the operations that re-derive the slots in bulk.
\<close>

section \<open>\<open>swap_remove_index\<close>\<close>

lemma length_swap_remove_nth [simp]: "length (swap_remove_nth i xs) = length xs - 1"
  by (simp add: swap_remove_nth_def)

lemma nth_swap_remove_nth:
  assumes "i < length xs" "k < length xs - 1"
  shows "swap_remove_nth i xs ! k = (if k = i then xs ! (length xs - 1) else xs ! k)"
proof -
  have "xs \<noteq> []" using assms(1) by auto
  then show ?thesis using assms by (simp add: swap_remove_nth_def nth_butlast last_conv_nth)
qed

lemma swap_remove_index_ok:
  assumes "table_inv t" "i < length (entries t)"
  shows "\<exists>t'. swap_remove_index i t
      = Some (Some (bk_key (entries t ! i), bk_value (entries t ! i)), t') \<and> table_inv t'
    \<and> entries t' = swap_remove_nth i (entries t)"
proof (cases "slots t = []")
  case True
  then show ?thesis using assms by (simp add: swap_remove_index_def table_inv_def Let_def)
next
  case False
  let ?n = "length (entries t)" and ?es = "swap_remove_nth i (entries t)"
  note inv = table_inv_slots [OF assms(1) False]
  obtain p sl where sl: "slot_of (bk_hash (entries t ! i)) i t = Some p" "erase_slot p t = Some (t\<lparr>slots := sl\<rparr>)"
    "length sl = length (slots t)" "homes_ok (shift t) sl" "probe_ok (shift t) sl"
    "slots_hold sl ({..<?n} - {i}) (entry_mix (entries t))"
    using erase_entry [OF inv(1,2) assms(2)] by blast
  have mixes: "entry_mix ?es k = (if k = i then entry_mix (entries t) (?n - 1) else entry_mix (entries t) k)"
    if "k < ?n - 1" for k
    using nth_swap_remove_nth [OF assms(2) that] by (simp add: entry_mix_def)
  have "\<exists>sl'. (if i \<noteq> ?n - 1 then repoint (bk_hash (entries t ! (?n - 1))) (?n - 1) i (t\<lparr>slots := sl\<rparr>)
        else Some (t\<lparr>slots := sl\<rparr>)) = Some (t\<lparr>slots := sl'\<rparr>) \<and> length sl' = length sl
      \<and> probe_ok (shift t) sl' \<and> slots_hold sl' {..<?n - 1} (entry_mix ?es)"
  proof (cases "i = ?n - 1")
    case True
    then have "{..<?n} - {i} = {..<?n - 1}" by auto
    then have "slots_hold sl {..<?n - 1} (entry_mix (entries t))" using sl(6) by simp
    then have "slots_hold sl {..<?n - 1} (entry_mix ?es)"
      by (rule hold_cong) (use mixes True in auto)
    then show ?thesis using True sl(5) by auto
  next
    case moved: False
    have in_D: "?n - 1 \<in> {..<?n} - {i}" "i \<notin> {..<?n} - {i}" "index_ok i"
      using assms(2) moved inv(4) by (auto simp: index_ok_def)
    obtain sl' where sl': "repoint (bk_hash (entries t ! (?n - 1))) (?n - 1) i (t\<lparr>slots := sl\<rparr>) = Some (t\<lparr>slots := sl'\<rparr>)"
      "length sl' = length sl" "probe_ok (shift t) sl'"
      "slots_hold sl' (insert i ({..<?n} - {i} - {?n - 1})) ((entry_mix (entries t))(i := entry_mix (entries t) (?n - 1)))"
      using repoint_ok [of "t\<lparr>slots := sl\<rparr>", OF _ _ _ in_D] sl(4-6) by auto
    have "insert i ({..<?n} - {i} - {?n - 1}) = {..<?n - 1}" using moved assms(2) by auto
    then have hold: "slots_hold sl' {..<?n - 1} ((entry_mix (entries t))(i := entry_mix (entries t) (?n - 1)))"
      using sl'(4) by simp
    have "slots_hold sl' {..<?n - 1} (entry_mix ?es)"
      by (rule hold_cong [OF hold]) (use mixes in auto)
    then show ?thesis using moved sl' by auto
  qed
  then obtain sl' where sl': "(if i \<noteq> ?n - 1 then repoint (bk_hash (entries t ! (?n - 1))) (?n - 1) i (t\<lparr>slots := sl\<rparr>)
        else Some (t\<lparr>slots := sl\<rparr>)) = Some (t\<lparr>slots := sl'\<rparr>)" "length sl' = length sl"
      "probe_ok (shift t) sl'" "slots_hold sl' {..<?n - 1} (entry_mix ?es)" by blast
  have "swap_remove_index i t = Some (Some (bk_key (entries t ! i), bk_value (entries t ! i)),
      t\<lparr>slots := sl', entries := ?es\<rparr>)"
    using assms(2) False sl(1,2) sl'(1)
    by (cases "i = ?n - 1") (auto simp: swap_remove_index_def Let_def)
  moreover have "homes_ok (shift t) sl'" using sl(4) homes_ok_length [OF sl'(2)] by simp
  moreover have "sl' \<noteq> []" using sl'(2) sl(3) False by auto
  moreover have "(?n - 1) * 3 \<le> length (slots t) * 2" "?n - 1 < 4294967295" using inv(3,4) by linarith+
  ultimately show ?thesis using sl'(2-4) sl(3) by (simp add: table_inv_def slots_inv_def)
qed

section \<open>\<open>replace_index_unique\<close>\<close>

lemma replace_index_unique_ok:
  assumes "table_inv t" "i < length (entries t)"
  shows "\<exists>t'. replace_index_unique i h k v t
      = Some (Some (bk_key (entries t ! i), bk_value (entries t ! i)), t') \<and> table_inv t'
    \<and> entries t' = (entries t)[i := mk_bucket h k v]"
proof (cases "slots t = []")
  case True
  then show ?thesis using assms by (simp add: replace_index_unique_def table_inv_def Let_def)
next
  case False
  let ?n = "length (entries t)" and ?es = "(entries t)[i := mk_bucket h k v]"
  note inv = table_inv_slots [OF assms(1) False]
  obtain p sl where sl: "slot_of (bk_hash (entries t ! i)) i t = Some p" "erase_slot p t = Some (t\<lparr>slots := sl\<rparr>)"
    "length sl = length (slots t)" "homes_ok (shift t) sl" "probe_ok (shift t) sl"
    "slots_hold sl ({..<?n} - {i}) (entry_mix (entries t))"
    using erase_entry [OF inv(1,2) assms(2)] by blast
  have side: "card ({..<?n} - {i}) < length sl" "i \<notin> {..<?n} - {i}" "index_ok i"
    using assms(2) inv(2,4) sl(3) by (auto simp: index_ok_def)
  obtain q where q: "free_loop sl (home (shift t) (mix h)) = Some q"
    "probe_ok (shift t) (sl[q := slot_word (mix h) i])"
    "slots_hold (sl[q := slot_word (mix h) i]) (insert i ({..<?n} - {i})) ((entry_mix (entries t))(i := mix h))"
    by (rule fill_one [OF sl(4-6) side]) blast
  have "insert i ({..<?n} - {i}) = {..<?n}" using assms(2) by auto
  then have hold: "slots_hold (sl[q := slot_word (mix h) i]) {..<?n} ((entry_mix (entries t))(i := mix h))"
    using q(3) by simp
  have "slots_hold (sl[q := slot_word (mix h) i]) {..<?n} (entry_mix ?es)"
    by (rule hold_cong [OF hold]) (auto simp: entry_mix_def mk_bucket_def nth_list_update)
  then have "slots_inv ?es (shift t) (sl[q := slot_word (mix h) i])"
    using q(2) sl(4) homes_ok_length [of "sl[q := slot_word (mix h) i]" sl] by (simp add: slots_inv_def)
  moreover have "replace_index_unique i h k v t = Some (Some (bk_key (entries t ! i), bk_value (entries t ! i)),
      t\<lparr>slots := sl[q := slot_word (mix h) i], entries := ?es\<rparr>)"
    using assms(2) False sl(1,2) q(1) by (simp add: replace_index_unique_def Let_def)
  moreover have "sl \<noteq> []" using sl(3) False by auto
  ultimately show ?thesis using inv sl(3) by (simp add: table_inv_def)
qed

section \<open>Bulk operations\<close>

text \<open>Re-deriving the slots for any shorter or reordered list of entries.\<close>

lemma reindex_ok:
  assumes "table_inv t" "length es \<le> length (entries t)"
  shows "\<exists>t'. reindex (t\<lparr>entries := es\<rparr>) = Some t' \<and> table_inv t' \<and> entries t' = es"
proof (cases "slots t = []")
  case True
  then show ?thesis using assms by (simp add: reindex_def table_inv_def)
next
  case False
  note inv = table_inv_slots [OF assms(1) False]
  note parts = slots_invD [OF inv(1)]
  have "4 \<le> 64 - shift t" using parts(6) table_size_pos [OF parts(7)]
    by (metis (no_types, lifting) parts(7) table_size_def power_inject_exp one_less_numeral_iff semiring_norm(76))
  then have "\<exists>t'. rebuild_slots (length (slots t)) (t\<lparr>entries := es\<rparr>) = Some t' \<and> table_inv t'
      \<and> entries t' = entries (t\<lparr>entries := es\<rparr>)"
    by (intro rebuild_inv [OF parts(6)]) (use parts(4) inv(3,4) assms(2) in simp_all)
  then show ?thesis using False by (simp add: reindex_def)
qed

lemma truncate_ok:
  assumes "table_inv t"
  shows "\<exists>t'. table_truncate n t = Some t' \<and> table_inv t' \<and> entries t' = take n (entries t)"
  using assms reindex_ok [OF assms, of "take n (entries t)"] by (auto simp: table_truncate_def)

lemma reverse_ok:
  assumes "table_inv t"
  shows "\<exists>t'. table_reverse t = Some t' \<and> table_inv t' \<and> entries t' = rev (entries t)"
  using reindex_ok [OF assms, of "rev (entries t)"] by (simp add: table_reverse_def)

lemma drain_ok:
  assumes "table_inv t" "a \<le> b" "b \<le> length (entries t)"
  shows "\<exists>t'. table_drain a b t
      = Some (map (\<lambda>b. (bk_key b, bk_value b)) (slice (entries t) a b), t') \<and> table_inv t'
    \<and> entries t' = take a (entries t) @ drop b (entries t)"
  using reindex_ok [OF assms(1), of "take a (entries t) @ drop b (entries t)"] assms(2,3)
  by (auto simp: table_drain_def)

lemma clear_ok:
  assumes "table_inv t"
  shows "table_inv (table_clear t)" "entries (table_clear t) = []"
proof -
  have zero: "map (\<lambda>_. 0) (slots t) = replicate (length (slots t)) 0" by (rule map_replicate_const)
  show "table_inv (table_clear t)"
  proof (cases "slots t = []")
    case False
    note parts = slots_invD [OF table_inv_slots(1) [OF assms False]]
    have "homes_ok (shift t) (replicate (length (slots t)) 0)"
      using parts(1) homes_ok_length [of "replicate (length (slots t)) 0" "slots t"] by simp
    then have "slots_inv (entries (table_clear t)) (shift t) (replicate (length (slots t)) 0)"
      using probe_ok_replicate by (simp add: slots_inv_def slots_hold_def table_clear_def)
    then show ?thesis by (simp add: table_inv_def table_clear_def zero)
  qed (simp add: table_clear_def table_inv_def)
qed (simp add: table_clear_def)

lemma length_map_filter: "length (List.map_filter f es) \<le> length es"
proof (induction es)
  case (Cons e es)
  then show ?case by (cases "f e") (simp_all add: map_filter_simps)
qed (simp add: map_filter_simps)

lemma map_filter_full:
  "length (List.map_filter f es) = length es \<Longrightarrow> i < length es \<Longrightarrow> f (es ! i) = Some (List.map_filter f es ! i)"
proof (induction es arbitrary: i)
  case (Cons e es)
  show ?case
  proof (cases "f e")
    case None
    then show ?thesis using Cons(2) length_map_filter [of f es] by (simp add: map_filter_simps)
  next
    case (Some c)
    then show ?thesis using Cons by (cases i) (simp_all add: map_filter_simps)
  qed
qed simp

lemma retain_entry_hash: "retain_entry keep b = Some c \<Longrightarrow> bk_hash c = bk_hash b"
  by (auto simp: retain_entry_def split: prod.splits if_splits)

lemma retain_ok:
  assumes "table_inv t"
  shows "\<exists>t'. table_retain keep t = Some t' \<and> table_inv t'
    \<and> entries t' = List.map_filter (retain_entry keep) (entries t)"
proof (cases "length (List.map_filter (retain_entry keep) (entries t)) = length (entries t)")
  case True
  have "slots_inv (List.map_filter (retain_entry keep) (entries t)) (shift t) (slots t)
      = slots_inv (entries t) (shift t) (slots t)"
    by (rule entry_mix_cong) (use True retain_entry_hash map_filter_full [OF True] in blast)+
  then show ?thesis using True assms by (simp add: table_retain_def table_inv_def Let_def)
next
  case False
  then show ?thesis using reindex_ok [OF assms length_map_filter] by (simp add: table_retain_def Let_def)
qed

lemma rebuild_small:
  "length (entries t) < 2147483648 \<Longrightarrow> \<exists>t'. (if length (entries t) > SMALL
      then rebuild_slots (slots_for (length (entries t))) t else Some (t\<lparr>slots := []\<rparr>)) = Some t'
    \<and> table_inv t' \<and> entries t' = entries t"
  using rebuild_for [of t "length (entries t)"] by (auto simp: table_inv_def)

lemma split_off_ok:
  assumes "table_inv t" "at \<le> length (entries t)" "length (entries t) < 2147483648"
  shows "\<exists>t' u. split_off at t = Some (t', u) \<and> table_inv t' \<and> table_inv u
    \<and> entries t' = take at (entries t) \<and> entries u = drop at (entries t)"
proof -
  obtain t' where t': "reindex (t\<lparr>entries := take at (entries t)\<rparr>) = Some t'" "table_inv t'"
    "entries t' = take at (entries t)"
    using reindex_ok [OF assms(1), of "take at (entries t)"] by auto
  let ?u = "\<lparr>entries = drop at (entries t), slots = [], shift = 64\<rparr>"
  have "length (entries ?u) < 2147483648" using assms(3) by simp
  from rebuild_small [OF this] obtain u where "(if length (entries ?u) > SMALL then rebuild_slots (slots_for (length (entries ?u))) ?u
      else Some (?u\<lparr>slots := []\<rparr>)) = Some u" "table_inv u" "entries u = entries ?u"
    by blast
  then show ?thesis using t' assms(2) by (simp add: split_off_def Let_def split: if_splits)
qed

lemma shrink_ok:
  assumes "table_inv t" "length (entries t) < 2147483648"
  shows "\<exists>t'. shrink_to_fit t = Some t' \<and> table_inv t' \<and> entries t' = entries t"
  using assms rebuild_for [of t "length (entries t)"]
  by (auto simp: shrink_to_fit_def table_inv_def)

lemma reserve_slots_ok:
  assumes "table_inv t" "length (entries t) + n < 2147483648"
  shows "\<exists>t'. reserve_slots n t = Some t' \<and> table_inv t' \<and> entries t' = entries t"
  using assms rebuild_for [of t "length (entries t) + n"]
  by (auto simp: reserve_slots_def Let_def)

lemma from_unique_hashed_ok:
  assumes "n < 2147483648"
  shows "\<exists>t'. from_unique_hashed n f = Some t' \<and> table_inv t'
    \<and> entries t' = map (\<lambda>i. case f i of (h, k, v) \<Rightarrow> mk_bucket h k v) [0..<n]"
proof -
  let ?t = "\<lparr>entries = map (\<lambda>i. case f i of (h, k, v) \<Rightarrow> mk_bucket h k v) [0..<n], slots = [], shift = 64\<rparr>"
  show ?thesis using rebuild_small [of ?t] assms by (auto simp: from_unique_hashed_def Let_def)
qed

lemma with_capacity_ok:
  assumes "n < 2147483648"
  shows "\<exists>t'. with_capacity n = Some t' \<and> table_inv t' \<and> entries t' = []"
  using rebuild_for [of table_new n] assms
  by (auto simp: with_capacity_def) (simp_all add: table_new_def)

section \<open>Moving entries\<close>

lemma swap_indices_ok:
  assumes "table_inv t" "a < length (entries t)" "b < length (entries t)"
  shows "\<exists>t'. table_swap_indices a b t = Some t' \<and> table_inv t'
    \<and> entries t' = (entries t)[a := entries t ! b, b := entries t ! a]"
proof -
  let ?n = "length (entries t)" and ?es = "(entries t)[a := entries t ! b, b := entries t ! a]"
    and ?g = "entry_mix (entries t)"
  consider (same) "a = b" | (small) "a \<noteq> b" "slots t = []" | (slots) "a \<noteq> b" "slots t \<noteq> []" by blast
  then show ?thesis
  proof cases
    case same
    then show ?thesis using assms by (simp add: table_swap_indices_def)
  next
    case small
    then show ?thesis using assms by (simp add: table_swap_indices_def table_inv_def Let_def)
  next
    case slots
    note inv = table_inv_slots [OF assms(1) slots(2)]
    note parts = slots_invD [OF inv(1)]
    obtain p where p: "slot_of (bk_hash (entries t ! a)) a t = Some p" "p < length (slots t)"
      "slots t ! p = slot_word (?g a) a"
      using slot_of_ok [OF parts(1,3)] assms(2) by blast
    obtain q where q: "slot_of (bk_hash (entries t ! b)) b t = Some q" "q < length (slots t)"
      "slots t ! q = slot_word (?g b) b"
      using slot_of_ok [OF parts(1,3)] assms(3) by blast
    have ok: "index_ok a" "index_ok b" using hold_index_ok [OF parts(3)] assms(2,3) by auto
    have "p \<noteq> q"
    proof
      assume "p = q"
      then have "slot_ix (slot_word (?g a) a) = slot_ix (slot_word (?g b) b)" using p(3) q(3) by simp
      then show False using ok slots(1) by simp
    qed
    let ?sl = "(slots t)[p := slot_word (?g a) b]"
    let ?sl2 = "?sl[q := slot_word (?g b) a]"
    have words: "slot_word (slots t ! p) b = slot_word (?g a) b" "slot_word (?sl ! q) a = slot_word (?g b) a"
      using p(3) q(3) ok \<open>p \<noteq> q\<close> by (simp_all add: slot_word_repoint)
    have run: "table_swap_indices a b t = Some (t\<lparr>slots := ?sl2, entries := ?es\<rparr>)"
      using assms(2,3) slots p(1) q(1) words by (simp add: table_swap_indices_def Let_def)
    have probe1: "probe_ok (shift t) ?sl"
      by (rule probe_ok_change [OF parts(2)]) (use p(3) ok parts(4) in simp_all)
    have probe: "probe_ok (shift t) ?sl2"
      by (rule probe_ok_change [OF probe1]) (use q(3) ok parts(4) \<open>p \<noteq> q\<close> in simp_all)
    have "slots_hold ((slots t)[p := 0]) ({..<?n} - {a}) ?g"
      by (rule hold_remove [OF parts(3)]) (use assms(2) p in simp_all)
    then have "slots_hold ((slots t)[p := 0, q := 0]) ({..<?n} - {a} - {b}) ?g"
      by (rule hold_remove) (use assms(3) slots(1) q \<open>p \<noteq> q\<close> in simp_all)
    then have "slots_hold ((slots t)[p := 0, q := 0, p := slot_word (?g a) b])
        (insert b ({..<?n} - {a} - {b})) (?g(b := ?g a))"
      by (rule hold_insert) (use ok p(2) \<open>p \<noteq> q\<close> in simp_all)
    then have "slots_hold ((slots t)[p := 0, q := 0, p := slot_word (?g a) b, q := slot_word (?g b) a])
        (insert a (insert b ({..<?n} - {a} - {b}))) (?g(b := ?g a, a := ?g b))"
      by (rule hold_insert) (use ok q(2) slots(1) \<open>p \<noteq> q\<close> in simp_all)
    moreover have "(slots t)[p := 0, q := 0, p := slot_word (?g a) b, q := slot_word (?g b) a] = ?sl2"
      using \<open>p \<noteq> q\<close> by (simp add: list_update_swap [of p q])
    moreover have "insert a (insert b ({..<?n} - {a} - {b})) = {..<?n}" using assms(2,3) by auto
    ultimately have hold: "slots_hold ?sl2 {..<?n} (?g(b := ?g a, a := ?g b))" by simp
    have "slots_hold ?sl2 {..<?n} (entry_mix ?es)"
      by (rule hold_cong [OF hold]) (use assms(2,3) slots(1) in \<open>auto simp: entry_mix_def nth_list_update\<close>)
    then have "slots_inv ?es (shift t) ?sl2"
      using probe parts(1) homes_ok_length [of ?sl2 "slots t"] by (simp add: slots_inv_def)
    then show ?thesis using run slots(2) inv by (simp add: table_inv_def)
  qed
qed

end
