(* ===== verification/Dict_Map.thy ===== *)
theory Dict_Map
  imports Dict_Bulk
begin

text \<open>
  What the interpreter calls: the entry API of a dict, \<open>SetMap\<close> (the table behind \<open>set\<close> and
  \<open>frozenset\<close>) with its set operations, bulk construction, \<open>move_index\<close>, and the byte
  comparison of key strings (\<open>crates/weavepy-vm/src/dictmap.rs\<close>).
\<close>

section \<open>Entries\<close>

text \<open>\<open>Entry\<close>: an occupied position, or an absent key with its hash and the slot it would take.\<close>

datatype 'k dict_entry = Occupied usize | Vacant 'k i64 usize

definition entry :: "'k key_ops \<Rightarrow> 'k \<Rightarrow> ('k, 'v) table \<Rightarrow> 'k dict_entry option" where
  "entry ko k t = (case find_hashed (key_hash ko k) (key_eq ko k) t of
      None \<Rightarrow> None
    | Some (Inr i) \<Rightarrow> Some (Occupied i)
    | Some (Inl p) \<Rightarrow> Some (Vacant k (key_hash ko k) p))"

definition entry_index :: "'k dict_entry \<Rightarrow> ('k, 'v) table \<Rightarrow> usize" where
  "entry_index e t = (case e of Occupied i \<Rightarrow> i | Vacant _ _ _ \<Rightarrow> length (entries t))"

text \<open>\<open>or_insert\<close> leaves a reference to the value: here the entry's position.\<close>

definition vacant_insert :: "'k \<Rightarrow> i64 \<Rightarrow> usize \<Rightarrow> 'v \<Rightarrow> ('k, 'v) table \<Rightarrow> (usize \<times> ('k, 'v) table) option" where
  "vacant_insert k hash p v t = push_at p hash k v t"

definition or_insert :: "'k dict_entry \<Rightarrow> 'v \<Rightarrow> ('k, 'v) table \<Rightarrow> (usize \<times> ('k, 'v) table) option" where
  "or_insert e v t = (case e of
      Occupied i \<Rightarrow> Some (i, t)
    | Vacant k hash p \<Rightarrow> vacant_insert k hash p v t)"

definition occupied_insert :: "usize \<Rightarrow> 'v \<Rightarrow> ('k, 'v) table \<Rightarrow> 'v \<times> ('k, 'v) table" where
  "occupied_insert i v t = (bk_value (entries t ! i), replace_value i v t)"

definition occupied_remove :: "usize \<Rightarrow> ('k, 'v) table \<Rightarrow> (('k \<times> 'v) \<times> ('k, 'v) table) option" where
  "occupied_remove i t = (case shift_remove_index i t of
      Some (Some kv, t') \<Rightarrow> Some (kv, t') | _ \<Rightarrow> None)"

text \<open>\<open>setdefault\<close> through the entry API, and \<open>insert\<close>.\<close>

definition get_or_insert :: "'k key_ops \<Rightarrow> 'k \<Rightarrow> 'v \<Rightarrow> ('k, 'v) table \<Rightarrow> (usize \<times> ('k, 'v) table) option" where
  "get_or_insert ko k v t = (case entry ko k t of None \<Rightarrow> None | Some e \<Rightarrow> or_insert e v t)"

definition table_insert :: "'k key_ops \<Rightarrow> 'k \<Rightarrow> 'v \<Rightarrow> ('k, 'v) table \<Rightarrow> ('v option \<times> ('k, 'v) table) option" where
  "table_insert ko k v t = map_option snd (insert_full ko k v t)"

section \<open>Construction in bulk\<close>

fun insert_all :: "'k key_ops \<Rightarrow> ('k \<times> 'v) list \<Rightarrow> ('k, 'v) table \<Rightarrow> ('k, 'v) table option" where
  "insert_all ko [] t = Some t"
| "insert_all ko ((k, v) # kvs) t = (case table_insert ko k v t of
      None \<Rightarrow> None | Some (_, t') \<Rightarrow> insert_all ko kvs t')"

text \<open>\<open>lo\<close> is the iterator's lower size bound.\<close>

definition table_extend :: "'k key_ops \<Rightarrow> usize \<Rightarrow> ('k \<times> 'v) list \<Rightarrow> ('k, 'v) table \<Rightarrow> ('k, 'v) table option" where
  "table_extend ko lo kvs t =
     (case reserve_slots (if entries t = [] then lo else (lo + 1) div 2) t of
        None \<Rightarrow> None | Some t' \<Rightarrow> insert_all ko kvs t')"

definition from_iter :: "'k key_ops \<Rightarrow> usize \<Rightarrow> ('k \<times> 'v) list \<Rightarrow> ('k, 'v) table option" where
  "from_iter ko lo kvs = table_extend ko lo kvs table_new"

section \<open>\<open>move_index\<close>\<close>

text \<open>\<open>rotate_left(1)\<close> of \<open>xs[a..=b]\<close>, \<open>rotate_right(1)\<close> of it, for \<open>a <= b < xs.len()\<close>.\<close>

definition rotate_left1 :: "usize \<Rightarrow> usize \<Rightarrow> 'a list \<Rightarrow> 'a list" where
  "rotate_left1 a b xs = take a xs @ drop (a + 1) (take (b + 1) xs) @ [xs ! a] @ drop (b + 1) xs"

definition rotate_right1 :: "usize \<Rightarrow> usize \<Rightarrow> 'a list \<Rightarrow> 'a list" where
  "rotate_right1 a b xs = take a xs @ [xs ! b] @ drop a (take b xs) @ drop (b + 1) xs"

definition move_entries :: "usize \<Rightarrow> usize \<Rightarrow> 'a list \<Rightarrow> 'a list" where
  "move_entries a b xs = (if a < b then rotate_left1 a b xs else rotate_right1 b a xs)"

definition moved_index :: "usize \<Rightarrow> usize \<Rightarrow> usize \<Rightarrow> usize" where
  "moved_index a b k = (if k = a then b else if a < b then k - 1 else k + 1)"

fun locate_all :: "usize list \<Rightarrow> ('k, 'v) table \<Rightarrow> usize list option" where
  "locate_all [] t = Some []"
| "locate_all (k # ks) t = (case slot_of (bk_hash (entries t ! k)) k t of
      None \<Rightarrow> None | Some p \<Rightarrow> map_option (Cons p) (locate_all ks t))"

fun renumber_at :: "(usize \<Rightarrow> usize) \<Rightarrow> (usize \<times> usize) list \<Rightarrow> u64 list \<Rightarrow> u64 list" where
  "renumber_at r [] sl = sl"
| "renumber_at r ((k, p) # kps) sl = renumber_at r kps (sl[p := slot_word (sl ! p) (r k)])"

definition move_index :: "usize \<Rightarrow> usize \<Rightarrow> ('k, 'v) table \<Rightarrow> ('k, 'v) table option" where
  "move_index a b t =
     (if \<not> (a < length (entries t) \<and> b < length (entries t)) then None
      else if a = b then Some t
      else if slots t = [] then Some (t\<lparr>entries := move_entries a b (entries t)\<rparr>)
      else (let ks = [min a b..<max a b + 1]
            in map_option (\<lambda>ps. t\<lparr>slots := renumber_at (moved_index a b) (zip ks ps) (slots t),
                                  entries := move_entries a b (entries t)\<rparr>)
                 (locate_all ks t)))"

section \<open>Sets\<close>

type_synonym 'k set_map = "('k, unit) table"

definition set_find :: "'k key_ops \<Rightarrow> 'k \<Rightarrow> 'k set_map \<Rightarrow> usize option option" where
  "set_find ko k s = (if entries s = [] then Some None else get_index_of ko k s)"

definition set_contains :: "'k key_ops \<Rightarrow> 'k \<Rightarrow> 'k set_map \<Rightarrow> bool option" where
  "set_contains ko k s = map_option (\<lambda>r. r \<noteq> None) (set_find ko k s)"

definition set_get :: "'k key_ops \<Rightarrow> 'k \<Rightarrow> 'k set_map \<Rightarrow> 'k option option" where
  "set_get ko k s = map_option (map_option (\<lambda>i. bk_key (entries s ! i))) (set_find ko k s)"

definition set_put_at :: "(usize + usize) \<Rightarrow> i64 \<Rightarrow> 'k \<Rightarrow> 'k set_map \<Rightarrow> (usize \<times> bool \<times> 'k set_map) option" where
  "set_put_at r hash k s = (case r of
      Inr i \<Rightarrow> Some (i, False, s)
    | Inl p \<Rightarrow> map_option (\<lambda>(i, s'). (i, True, s')) (push_at p hash k () s))"

definition set_insert_hashed :: "'k key_ops \<Rightarrow> i64 \<Rightarrow> 'k \<Rightarrow> 'k set_map \<Rightarrow> (usize \<times> bool \<times> 'k set_map) option" where
  "set_insert_hashed ko hash k s = (case find_hashed hash (key_eq ko k) s of
      None \<Rightarrow> None | Some r \<Rightarrow> set_put_at r hash k s)"

definition set_insert_full :: "'k key_ops \<Rightarrow> 'k \<Rightarrow> 'k set_map \<Rightarrow> (usize \<times> bool \<times> 'k set_map) option" where
  "set_insert_full ko k s = (case find_object_hashing ko k s of
      None \<Rightarrow> None
    | Some (Some (hash, r)) \<Rightarrow> set_put_at r hash k s
    | Some None \<Rightarrow> set_insert_hashed ko (key_hash ko k) k s)"

definition set_insert :: "'k key_ops \<Rightarrow> 'k \<Rightarrow> 'k set_map \<Rightarrow> (bool \<times> 'k set_map) option" where
  "set_insert ko k s = map_option snd (set_insert_full ko k s)"

definition set_take :: "(usize \<Rightarrow> 'k set_map \<Rightarrow> (('k \<times> unit) option \<times> 'k set_map) option)
     \<Rightarrow> 'k key_ops \<Rightarrow> 'k \<Rightarrow> 'k set_map \<Rightarrow> ('k option \<times> 'k set_map) option" where
  "set_take rem ko k s = (case set_find ko k s of
      None \<Rightarrow> None
    | Some None \<Rightarrow> Some (None, s)
    | Some (Some i) \<Rightarrow> map_option (\<lambda>(r, s'). (map_option fst r, s')) (rem i s))"

definition set_swap_take :: "'k key_ops \<Rightarrow> 'k \<Rightarrow> 'k set_map \<Rightarrow> ('k option \<times> 'k set_map) option" where
  "set_swap_take ko k s = set_take swap_remove_index ko k s"

definition set_shift_take :: "'k key_ops \<Rightarrow> 'k \<Rightarrow> 'k set_map \<Rightarrow> ('k option \<times> 'k set_map) option" where
  "set_shift_take ko k s = set_take shift_remove_index ko k s"

definition set_swap_remove :: "'k key_ops \<Rightarrow> 'k \<Rightarrow> 'k set_map \<Rightarrow> (bool \<times> 'k set_map) option" where
  "set_swap_remove ko k s = map_option (\<lambda>(r, s'). (r \<noteq> None, s')) (set_swap_take ko k s)"

definition set_pop :: "'k set_map \<Rightarrow> ('k option \<times> 'k set_map) option" where
  "set_pop s = map_option (\<lambda>(r, s'). (map_option fst r, s')) (table_pop s)"

text \<open>The lazy set operations, as the list of keys they yield; \<open>None\<close> if a lookup panics.\<close>

definition set_keys :: "'k set_map \<Rightarrow> 'k list" where
  "set_keys s = map bk_key (entries s)"

fun filter_keys :: "('k \<Rightarrow> bool option) \<Rightarrow> 'k list \<Rightarrow> 'k list option" where
  "filter_keys p [] = Some []"
| "filter_keys p (k # ks) = (case p k of None \<Rightarrow> None | Some b \<Rightarrow>
     map_option (\<lambda>r. if b then k # r else r) (filter_keys p ks))"

fun all_keys :: "('k \<Rightarrow> bool option) \<Rightarrow> 'k list \<Rightarrow> bool option" where
  "all_keys p [] = Some True"
| "all_keys p (k # ks) = (case p k of None \<Rightarrow> None | Some b \<Rightarrow>
     if b then all_keys p ks else Some False)"

definition set_difference :: "'k key_ops \<Rightarrow> 'k set_map \<Rightarrow> 'k set_map \<Rightarrow> 'k list option" where
  "set_difference ko s other = filter_keys (\<lambda>k. map_option Not (set_contains ko k other)) (set_keys s)"

definition set_intersection :: "'k key_ops \<Rightarrow> 'k set_map \<Rightarrow> 'k set_map \<Rightarrow> 'k list option" where
  "set_intersection ko s other = filter_keys (\<lambda>k. set_contains ko k other) (set_keys s)"

definition set_union :: "'k key_ops \<Rightarrow> 'k set_map \<Rightarrow> 'k set_map \<Rightarrow> 'k list option" where
  "set_union ko s other = map_option ((@) (set_keys s)) (set_difference ko other s)"

definition set_symmetric_difference :: "'k key_ops \<Rightarrow> 'k set_map \<Rightarrow> 'k set_map \<Rightarrow> 'k list option" where
  "set_symmetric_difference ko s other = (case set_difference ko s other of
      None \<Rightarrow> None | Some ks \<Rightarrow> map_option ((@) ks) (set_difference ko other s))"

definition set_is_subset :: "'k key_ops \<Rightarrow> 'k set_map \<Rightarrow> 'k set_map \<Rightarrow> bool option" where
  "set_is_subset ko s other =
     (if length (entries s) \<le> length (entries other)
      then all_keys (\<lambda>k. set_contains ko k other) (set_keys s) else Some False)"

definition set_is_disjoint :: "'k key_ops \<Rightarrow> 'k set_map \<Rightarrow> 'k set_map \<Rightarrow> bool option" where
  "set_is_disjoint ko s other =
     (let (small, big) = (if length (entries s) \<le> length (entries other) then (s, other) else (other, s))
      in all_keys (\<lambda>k. map_option Not (set_contains ko k big)) (set_keys small))"

definition set_eq :: "'k key_ops \<Rightarrow> 'k set_map \<Rightarrow> 'k set_map \<Rightarrow> bool option" where
  "set_eq ko s other =
     (if length (entries s) = length (entries other)
      then all_keys (\<lambda>k. set_contains ko k other) (set_keys s) else Some False)"

section \<open>Byte equality of key strings\<close>

text \<open>A little-endian load of a word's bytes from position \<open>p\<close> of a slice.\<close>

fun le_nat :: "u8 list \<Rightarrow> nat" where
  "le_nat [] = 0"
| "le_nat (b # bs) = byte b + 256 * le_nat bs"

definition load16 :: "u8 list \<Rightarrow> usize \<Rightarrow> 16 word" where
  "load16 bs p = word_of_nat (le_nat (slice bs p (p + 2)))"

definition load32 :: "u8 list \<Rightarrow> usize \<Rightarrow> 32 word" where
  "load32 bs p = word_of_nat (le_nat (slice bs p (p + 4)))"

definition load64 :: "u8 list \<Rightarrow> usize \<Rightarrow> u64" where
  "load64 bs p = word_of_nat (le_nat (slice bs p (p + 8)))"

definition key_bytes_eq :: "u8 list \<Rightarrow> u8 list \<Rightarrow> bool" where
  "key_bytes_eq a b =
     (let n = length a
      in if n \<noteq> length b then False
         else if n \<ge> 8 then
           (if n > 16 then a = b
            else ((load64 a 0 XOR load64 b 0) OR (load64 a (n - 8) XOR load64 b (n - 8))) = 0)
         else if n \<ge> 4 then
           ((load32 a 0 XOR load32 b 0) OR (load32 a (n - 4) XOR load32 b (n - 4))) = 0
         else if n \<ge> 2 then
           ((load16 a 0 XOR load16 b 0) OR (load16 a (n - 2) XOR load16 b (n - 2))) = 0
         else n = 0 \<or> a ! 0 = b ! 0)"

definition key_bytes_eq_native :: "u8 list \<Rightarrow> u8 list \<Rightarrow> bool option" where
  "key_bytes_eq_native a b =
     (if length a \<noteq> length b then Some False
      else if length a \<le> 16 then Some (key_bytes_eq a b) else Some (a = b))"

end
