(* ===== verification/Dict_Spec.thy ===== *)
theory Dict_Spec
  imports WP_Prelude "HOL-Library.Multiset"
begin

text \<open>
  What a dict promises, apart from any table. The ordered map is a list of key-value pairs
  in insertion order, compared by the keys' equality: \<open>al_get\<close>, \<open>al_put\<close> (which keeps the
  position and the key of an entry already present) and \<open>al_del\<close>. The locale \<open>assoc_store\<close>
  is the interface of a mutable map, \<open>ordered_map\<close> that of a map that also keeps the order;
  what a client can rely on over a sequence of operations is proved in them once.
\<close>

section \<open>Association lists under an equality\<close>

fun al_get :: "('k \<Rightarrow> 'k \<Rightarrow> bool) \<Rightarrow> 'k \<Rightarrow> ('k \<times> 'v) list \<Rightarrow> 'v option" where
  "al_get eq k [] = None"
| "al_get eq k ((k', v) # xs) = (if eq k k' then Some v else al_get eq k xs)"

fun al_put :: "('k \<Rightarrow> 'k \<Rightarrow> bool) \<Rightarrow> 'k \<Rightarrow> 'v \<Rightarrow> ('k \<times> 'v) list \<Rightarrow> ('k \<times> 'v) list" where
  "al_put eq k v [] = [(k, v)]"
| "al_put eq k v ((k', v') # xs) = (if eq k k' then (k', v) # xs else (k', v') # al_put eq k v xs)"

fun al_del :: "('k \<Rightarrow> 'k \<Rightarrow> bool) \<Rightarrow> 'k \<Rightarrow> ('k \<times> 'v) list \<Rightarrow> ('k \<times> 'v) list" where
  "al_del eq k [] = []"
| "al_del eq k ((k', v') # xs) = (if eq k k' then xs else (k', v') # al_del eq k xs)"

fun al_index :: "('k \<Rightarrow> 'k \<Rightarrow> bool) \<Rightarrow> 'k \<Rightarrow> ('k \<times> 'v) list \<Rightarrow> nat option" where
  "al_index eq k [] = None"
| "al_index eq k ((k', v') # xs) = (if eq k k' then Some 0 else map_option Suc (al_index eq k xs))"

definition al_distinct :: "('k \<Rightarrow> 'k \<Rightarrow> bool) \<Rightarrow> ('k \<times> 'v) list \<Rightarrow> bool" where
  "al_distinct eq xs \<longleftrightarrow> sorted_wrt (\<lambda>a b. \<not> eq (fst a) (fst b)) xs"

lemma al_distinct_Nil [simp]: "al_distinct eq []"
  by (simp add: al_distinct_def)

lemma al_distinct_Cons: "al_distinct eq (x # xs) \<longleftrightarrow> (\<forall>y \<in> set xs. \<not> eq (fst x) (fst y)) \<and> al_distinct eq xs"
  by (simp add: al_distinct_def)

lemma al_distinct_append:
  "al_distinct eq (xs @ ys) \<longleftrightarrow> al_distinct eq xs \<and> al_distinct eq ys
     \<and> (\<forall>x \<in> set xs. \<forall>y \<in> set ys. \<not> eq (fst x) (fst y))"
  by (auto simp: al_distinct_def sorted_wrt_append)

lemma al_get_None: "al_get eq k xs = None \<longleftrightarrow> (\<forall>x \<in> set xs. \<not> eq k (fst x))"
  by (induction eq k xs rule: al_get.induct) auto

lemma al_index_None: "al_index eq k xs = None \<longleftrightarrow> (\<forall>x \<in> set xs. \<not> eq k (fst x))"
  by (induction eq k xs rule: al_index.induct) auto

lemma al_index_Some: "al_index eq k xs = Some i \<Longrightarrow> i < length xs \<and> eq k (fst (xs ! i))"
  by (induction eq k xs arbitrary: i rule: al_index.induct) (auto split: if_splits)

lemma al_get_index: "al_get eq k xs = map_option (\<lambda>i. snd (xs ! i)) (al_index eq k xs)"
  by (induction eq k xs rule: al_get.induct) (auto simp: option.map_comp comp_def)

lemma al_put_index:
  "al_put eq k v xs = (case al_index eq k xs of
      Some i \<Rightarrow> xs[i := (fst (xs ! i), v)] | None \<Rightarrow> xs @ [(k, v)])"
  by (induction eq k v xs rule: al_put.induct) (auto split: option.splits)

lemma al_del_index:
  "al_del eq k xs = (case al_index eq k xs of
      Some i \<Rightarrow> take i xs @ drop (Suc i) xs | None \<Rightarrow> xs)"
  by (induction eq k xs rule: al_del.induct) (auto split: option.splits)

text \<open>Among distinct keys the index found is the only one.\<close>

lemma al_index_unique:
  assumes "equivp eq" "al_distinct eq xs" "i < length xs" "eq k (fst (xs ! i))"
  shows "al_index eq k xs = Some i"
  using assms(2-4)
proof (induction xs arbitrary: i)
  case (Cons x xs)
  obtain k' v' where x: "x = (k', v')" by (cases x)
  show ?case
  proof (cases i)
    case (Suc j)
    then have j: "j < length xs" "eq k (fst (xs ! j))" using Cons(3,4) by simp_all
    have "\<not> eq k k'"
    proof
      assume "eq k k'"
      then have "eq k' (fst (xs ! j))"
        using equivp_transp [OF assms(1) equivp_symp [OF assms(1)]] j(2) by blast
      then show False using Cons(2) j(1) x by (auto simp: al_distinct_Cons)
    qed
    then show ?thesis using Cons(1) [of j] Cons(2) j Suc x by (simp add: al_distinct_Cons)
  qed (use Cons(4) x in simp)
qed simp

text \<open>Equal keys are equal to the same keys.\<close>

lemma eq_swap:
  assumes "equivp eq" "eq k k'"
  shows "eq k y = eq k' y" "eq y k = eq y k'"
  using assms(2) equivp_symp [OF assms(1)] equivp_transp [OF assms(1)] by blast+

lemma al_get_Some:
  "al_get eq k xs = Some v \<Longrightarrow> \<exists>i < length xs. eq k (fst (xs ! i)) \<and> snd (xs ! i) = v"
  by (auto simp: al_get_index dest: al_index_Some)

lemma al_get_cong:
  assumes "equivp eq" "eq k k'"
  shows "al_get eq k xs = al_get eq k' xs"
proof (induction xs)
  case (Cons x xs)
  then show ?case using eq_swap(1) [OF assms] by (cases x) simp
qed simp

lemma al_get_put:
  assumes "equivp eq"
  shows "al_get eq k' (al_put eq k v xs) = (if eq k k' then Some v else al_get eq k' xs)"
proof (induction xs)
  case Nil
  then show ?case using equivp_symp [OF assms, of k k'] equivp_symp [OF assms, of k' k] by auto
next
  case (Cons x xs)
  obtain y w where x: "x = (y, w)" by (cases x)
  show ?case
  proof (cases "eq k y")
    case True
    have "eq k k' = eq k' y"
      using eq_swap [OF assms True] equivp_symp [OF assms, of k' y] equivp_symp [OF assms, of y k'] by auto
    then show ?thesis using True x by simp
  next
    case False
    then have "eq k k' \<Longrightarrow> \<not> eq k' y" using eq_swap(1) [OF assms] by blast
    then show ?thesis using False Cons x by auto
  qed
qed

lemma al_get_del:
  assumes "equivp eq" "al_distinct eq xs"
  shows "al_get eq k' (al_del eq k xs) = (if eq k k' then None else al_get eq k' xs)"
  using assms(2)
proof (induction xs)
  case (Cons x xs)
  obtain y w where x: "x = (y, w)" by (cases x)
  show ?case
  proof (cases "eq k y")
    case True
    then have none: "al_get eq y xs = None" using Cons(2) x by (auto simp: al_distinct_Cons al_get_None)
    have "eq k k' = eq k' y"
      using eq_swap [OF assms(1) True] equivp_symp [OF assms(1), of k' y]
        equivp_symp [OF assms(1), of y k'] by auto
    then show ?thesis using True none x al_get_cong [OF assms(1), of k' y xs] by auto
  next
    case False
    then have "eq k k' \<Longrightarrow> \<not> eq k' y" using eq_swap(1) [OF assms(1)] by blast
    then show ?thesis using False Cons x by (auto simp: al_distinct_Cons)
  qed
qed simp

lemma length_al_put: "length (al_put eq k v xs) = (if al_get eq k xs = None then length xs + 1 else length xs)"
  by (induction eq k v xs rule: al_put.induct) auto

lemma length_al_del: "length (al_del eq k xs) = (if al_get eq k xs = None then length xs else length xs - 1)"
proof (induction eq k xs rule: al_del.induct)
  case (2 eq k k' v' xs)
  have "0 < length xs" if "al_get eq k xs \<noteq> None" using that by (cases xs) auto
  then show ?case using 2 by auto
qed simp

section \<open>Histories of operations\<close>

datatype (plugins only: code size) ('k, 'v) map_op = Get 'k | Put 'k 'v | Del 'k

text \<open>Running a history on an implementation: the outputs in order, and the final state.\<close>

fun run_ops :: "('k \<Rightarrow> 't \<Rightarrow> 'v option option) \<Rightarrow> ('k \<Rightarrow> 'v \<Rightarrow> 't \<Rightarrow> ('v option \<times> 't) option)
     \<Rightarrow> ('k \<Rightarrow> 't \<Rightarrow> ('v option \<times> 't) option) \<Rightarrow> ('k, 'v) map_op list \<Rightarrow> 't \<Rightarrow> ('v option list \<times> 't) option" where
  "run_ops lookup put del [] t = Some ([], t)"
| "run_ops lookup put del (c # cs) t =
     (case (case c of Get k \<Rightarrow> map_option (\<lambda>r. (r, t)) (lookup k t)
                    | Put k v \<Rightarrow> put k v t
                    | Del k \<Rightarrow> del k t) of
        None \<Rightarrow> None
      | Some (r, t') \<Rightarrow> map_option (\<lambda>(rs, t''). (r # rs, t'')) (run_ops lookup put del cs t'))"

text \<open>The same history on an association list.\<close>

fun al_step :: "('k \<Rightarrow> 'k \<Rightarrow> bool) \<Rightarrow> ('k, 'v) map_op \<Rightarrow> ('k \<times> 'v) list \<Rightarrow> ('k \<times> 'v) list" where
  "al_step eq (Get k) xs = xs"
| "al_step eq (Put k v) xs = al_put eq k v xs"
| "al_step eq (Del k) xs = al_del eq k xs"

fun op_key :: "('k, 'v) map_op \<Rightarrow> 'k" where
  "op_key (Get k) = k"
| "op_key (Put k v) = k"
| "op_key (Del k) = k"

fun al_run :: "('k \<Rightarrow> 'k \<Rightarrow> bool) \<Rightarrow> ('k, 'v) map_op list \<Rightarrow> ('k \<times> 'v) list
     \<Rightarrow> 'v option list \<times> ('k \<times> 'v) list" where
  "al_run eq [] xs = ([], xs)"
| "al_run eq (c # cs) xs = (case al_run eq cs (al_step eq c xs) of
      (rs, ys) \<Rightarrow> (al_get eq (op_key c) xs # rs, ys))"

lemma length_al_step: "length (al_step eq c xs) \<le> length xs + 1"
  by (cases c) (auto simp: length_al_put length_al_del)

section \<open>The interfaces\<close>

text \<open>
  A store of values by key: a lookup, an insertion that returns the value it replaces, a
  removal that returns the value removed. \<open>view t k\<close> is the value of \<open>k\<close> in \<open>t\<close>.
\<close>

locale assoc_store =
  fixes inv :: "'t \<Rightarrow> bool" and keq :: "'k \<Rightarrow> 'k \<Rightarrow> bool" and view :: "'t \<Rightarrow> 'k \<Rightarrow> 'v option"
    and count :: "'t \<Rightarrow> nat" and cap :: nat
    and lookup :: "'k \<Rightarrow> 't \<Rightarrow> 'v option option"
    and put :: "'k \<Rightarrow> 'v \<Rightarrow> 't \<Rightarrow> ('v option \<times> 't) option"
    and del :: "'k \<Rightarrow> 't \<Rightarrow> ('v option \<times> 't) option"
  assumes lookup_law: "inv t \<Longrightarrow> lookup k t = Some (view t k)"
    and put_law: "inv t \<Longrightarrow> count t < cap \<Longrightarrow> \<exists>t'. put k v t = Some (view t k, t') \<and> inv t'
      \<and> view t' = (\<lambda>k'. if keq k k' then Some v else view t k') \<and> count t' \<le> count t + 1"
    and del_law: "inv t \<Longrightarrow> \<exists>t'. del k t = Some (view t k, t') \<and> inv t'
      \<and> view t' = (\<lambda>k'. if keq k k' then None else view t k') \<and> count t' \<le> count t"
begin

text \<open>What a lookup returns after an insertion and after a removal.\<close>

lemma lookup_put:
  assumes "inv t" "count t < cap"
  shows "\<exists>r t'. put k v t = Some (r, t') \<and> inv t'
    \<and> lookup k' t' = (if keq k k' then Some (Some v) else lookup k' t)"
  using put_law [OF assms, of k v] lookup_law assms(1) by fastforce

lemma lookup_del:
  assumes "inv t"
  shows "\<exists>r t'. del k t = Some (r, t') \<and> inv t'
    \<and> lookup k' t' = (if keq k k' then Some None else lookup k' t)"
  using del_law [OF assms, of k] lookup_law assms by fastforce

text \<open>A history with room for its insertions runs to its end.\<close>

lemma run_total:
  "inv t \<Longrightarrow> count t + length cs \<le> cap \<Longrightarrow>
     \<exists>rs t'. run_ops lookup put del cs t = Some (rs, t') \<and> inv t' \<and> length rs = length cs"
proof (induction cs arbitrary: t)
  case (Cons c cs)
  have room: "count t < cap" using Cons(3) by simp
  have "\<exists>r t'. (case c of Get k \<Rightarrow> map_option (\<lambda>r. (r, t)) (lookup k t)
      | Put k v \<Rightarrow> put k v t | Del k \<Rightarrow> del k t) = Some (r, t') \<and> inv t' \<and> count t' \<le> count t + 1"
  proof (cases c)
    case (Get k)
    then show ?thesis using lookup_law [OF Cons(2)] Cons(2) by simp
  next
    case (Put k v)
    then show ?thesis using put_law [OF Cons(2) room, of k v] by fastforce
  next
    case (Del k)
    then show ?thesis using del_law [OF Cons(2), of k] by fastforce
  qed
  then obtain r t' where step: "(case c of Get k \<Rightarrow> map_option (\<lambda>r. (r, t)) (lookup k t)
      | Put k v \<Rightarrow> put k v t | Del k \<Rightarrow> del k t) = Some (r, t')" "inv t'" "count t' \<le> count t + 1"
    by blast
  then obtain rs t'' where "run_ops lookup put del cs t' = Some (rs, t'')" "inv t''" "length rs = length cs"
    using Cons(1) [of t'] Cons(3) by auto
  then show ?case using step by simp
qed simp

end

text \<open>An ordered map: the operations are those of the association list of its items.\<close>

locale ordered_map =
  fixes inv :: "'t \<Rightarrow> bool" and keq :: "'k \<Rightarrow> 'k \<Rightarrow> bool" and items :: "'t \<Rightarrow> ('k \<times> 'v) list" and cap :: nat
    and lookup :: "'k \<Rightarrow> 't \<Rightarrow> 'v option option"
    and put :: "'k \<Rightarrow> 'v \<Rightarrow> 't \<Rightarrow> ('v option \<times> 't) option"
    and del :: "'k \<Rightarrow> 't \<Rightarrow> ('v option \<times> 't) option"
  assumes eq_law: "inv t \<Longrightarrow> equivp keq"
    and distinct_law: "inv t \<Longrightarrow> al_distinct keq (items t)"
    and lookup_items: "inv t \<Longrightarrow> lookup k t = Some (al_get keq k (items t))"
    and put_items: "inv t \<Longrightarrow> length (items t) < cap \<Longrightarrow> \<exists>t'. put k v t = Some (al_get keq k (items t), t')
      \<and> inv t' \<and> items t' = al_put keq k v (items t)"
    and del_items: "inv t \<Longrightarrow> \<exists>t'. del k t = Some (al_get keq k (items t), t')
      \<and> inv t' \<and> items t' = al_del keq k (items t)"

sublocale ordered_map \<subseteq> store: assoc_store inv keq "\<lambda>t k. al_get keq k (items t)" "\<lambda>t. length (items t)" cap lookup put del
proof unfold_locales
  fix t k v
  assume inv: "inv t"
  show "lookup k t = Some (al_get keq k (items t))" by (rule lookup_items [OF inv])
  show "\<exists>t'. put k v t = Some (al_get keq k (items t), t') \<and> inv t'
      \<and> (\<lambda>k. al_get keq k (items t')) = (\<lambda>k'. if keq k k' then Some v else al_get keq k' (items t))
      \<and> length (items t') \<le> length (items t) + 1" if "length (items t) < cap"
    using put_items [OF inv that, of k v]
    by (auto simp: length_al_put fun_eq_iff al_get_put [OF eq_law [OF inv]])
  show "\<exists>t'. del k t = Some (al_get keq k (items t), t') \<and> inv t'
      \<and> (\<lambda>k. al_get keq k (items t')) = (\<lambda>k'. if keq k k' then None else al_get keq k' (items t))
      \<and> length (items t') \<le> length (items t)"
    using del_items [OF inv, of k]
    by (auto simp: length_al_del fun_eq_iff al_get_del [OF eq_law [OF inv] distinct_law [OF inv]])
qed

context ordered_map begin

text \<open>Any history is the history on the association list.\<close>

lemma run_refines:
  "inv t \<Longrightarrow> length (items t) + length cs \<le> cap \<Longrightarrow>
     \<exists>t'. run_ops lookup put del cs t = Some (fst (al_run keq cs (items t)), t') \<and> inv t'
       \<and> items t' = snd (al_run keq cs (items t))"
proof (induction cs arbitrary: t)
  case (Cons c cs)
  have room: "length (items t) < cap" using Cons(3) by simp
  have "\<exists>t'. (case c of Get k \<Rightarrow> map_option (\<lambda>r. (r, t)) (lookup k t)
      | Put k v \<Rightarrow> put k v t | Del k \<Rightarrow> del k t) = Some (al_get keq (op_key c) (items t), t') \<and> inv t'
      \<and> items t' = al_step keq c (items t)"
    using lookup_items [OF Cons(2)] put_items [OF Cons(2) room] del_items [OF Cons(2)] Cons(2)
    by (cases c) simp_all
  then obtain t' where step: "(case c of Get k \<Rightarrow> map_option (\<lambda>r. (r, t)) (lookup k t)
      | Put k v \<Rightarrow> put k v t | Del k \<Rightarrow> del k t) = Some (al_get keq (op_key c) (items t), t')" "inv t'"
      "items t' = al_step keq c (items t)" by blast
  have "length (items t') + length cs \<le> cap"
    using length_al_step [of keq c "items t"] step(3) Cons(3) by simp
  then obtain t'' where "run_ops lookup put del cs t' = Some (fst (al_run keq cs (items t')), t'')" "inv t''"
    "items t'' = snd (al_run keq cs (items t'))"
    using Cons(1) [OF step(2)] by blast
  then show ?case using step by (simp add: split_beta)
qed simp

end

text \<open>A set of keys: what a membership test, an insertion and a removal tell and change.\<close>

locale key_set =
  fixes inv :: "'t \<Rightarrow> bool" and keq :: "'k \<Rightarrow> 'k \<Rightarrow> bool" and member :: "'t \<Rightarrow> 'k \<Rightarrow> bool"
    and count :: "'t \<Rightarrow> nat" and cap :: nat
    and test :: "'k \<Rightarrow> 't \<Rightarrow> bool option"
    and add :: "'k \<Rightarrow> 't \<Rightarrow> (bool \<times> 't) option"
    and drop_key :: "'k \<Rightarrow> 't \<Rightarrow> (bool \<times> 't) option"
  assumes test_law: "inv t \<Longrightarrow> test k t = Some (member t k)"
    and add_law: "inv t \<Longrightarrow> count t < cap \<Longrightarrow> \<exists>t'. add k t = Some (\<not> member t k, t') \<and> inv t'
      \<and> member t' = (\<lambda>k'. keq k k' \<or> member t k')
      \<and> count t' = (if member t k then count t else count t + 1)"
    and drop_law: "inv t \<Longrightarrow> \<exists>t'. drop_key k t = Some (member t k, t') \<and> inv t'
      \<and> member t' = (\<lambda>k'. \<not> keq k k' \<and> member t k')
      \<and> count t' = (if member t k then count t - 1 else count t)"
begin

lemma add_test:
  assumes "inv t" "count t < cap" "keq k k"
  shows "\<exists>b t' t''. add k t = Some (b, t') \<and> test k t' = Some True
    \<and> drop_key k t' = Some (True, t'') \<and> test k t'' = Some False"
proof -
  obtain t' where t': "add k t = Some (\<not> member t k, t')" "inv t'" "member t' = (\<lambda>k'. keq k k' \<or> member t k')"
    using add_law [OF assms(1,2)] by blast
  obtain t'' where "drop_key k t' = Some (member t' k, t'')" "inv t''" "member t'' = (\<lambda>k'. \<not> keq k k' \<and> member t' k')"
    using drop_law [OF t'(2)] by blast
  then show ?thesis using t' test_law assms(3) by simp
qed

end

end
