(* ===== verification/Dict_Refine.thy ===== *)
theory Dict_Refine
  imports Dict_Map Dict_Spec
begin

text \<open>
  The table is an ordered map. \<open>dict_inv ko t\<close> is the invariant of a dict whose keys behave as
  \<open>ko\<close> says (the table's own invariant, every stored hash the key's hash, no two equal keys),
  \<open>items t\<close> its abstraction; \<open>dict\<close>, \<open>bag\<close> and \<open>pyset\<close> interpret the interfaces of \<open>Dict_Spec\<close>
  on the code's operations.
\<close>

section \<open>The invariant of a dict\<close>

definition items :: "('k, 'v) table \<Rightarrow> ('k \<times> 'v) list" where
  "items t = map (\<lambda>b. (bk_key b, bk_value b)) (entries t)"

definition dict_inv :: "'k key_ops \<Rightarrow> ('k, 'v) table \<Rightarrow> bool" where
  "dict_inv ko t \<longleftrightarrow> lawful_keys ko \<and> table_inv t
     \<and> list_all (\<lambda>b. bk_hash b = key_hash ko (bk_key b)) (entries t)
     \<and> al_distinct (key_eq ko) (items t)"

lemma length_items [simp]: "length (items t) = length (entries t)"
  by (simp add: items_def)

lemma items_nth [simp]:
  "i < length (entries t) \<Longrightarrow> items t ! i = (bk_key (entries t ! i), bk_value (entries t ! i))"
  by (simp add: items_def)

lemma dict_invD:
  assumes "dict_inv ko t"
  shows "lawful_keys ko" "table_inv t" "al_distinct (key_eq ko) (items t)" "equivp (key_eq ko)"
    "\<And>i. i < length (entries t) \<Longrightarrow> bk_hash (entries t ! i) = key_hash ko (bk_key (entries t ! i))"
  using assms by (auto simp: dict_inv_def lawful_keys_def list_all_length)

lemma dict_inv_new [simp]: "lawful_keys ko \<Longrightarrow> dict_inv ko table_new"
  by (simp add: dict_inv_def items_def) (simp add: table_new_def)

lemma al_distinct_iff:
  assumes "equivp eq"
  shows "al_distinct eq xs \<longleftrightarrow> (\<forall>i < length xs. \<forall>j < length xs. eq (fst (xs ! i)) (fst (xs ! j)) \<longrightarrow> i = j)"
proof (intro iffI allI impI)
  fix i j
  assume d: "al_distinct eq xs" and ij: "i < length xs" "j < length xs" "eq (fst (xs ! i)) (fst (xs ! j))"
  have no: "\<not> eq (fst (xs ! a)) (fst (xs ! b))" if "a < b" "b < length xs" for a b
    using d that unfolding al_distinct_def sorted_wrt_iff_nth_less by blast
  show "i = j"
    using no [of i j] no [of j i] ij equivp_symp [OF assms ij(3)] by (cases i j rule: linorder_cases) auto
next
  assume inj: "\<forall>i < length xs. \<forall>j < length xs. eq (fst (xs ! i)) (fst (xs ! j)) \<longrightarrow> i = j"
  have "\<not> eq (fst (xs ! i)) (fst (xs ! j))" if "i < j" "j < length xs" for i j
    using inj that less_trans [OF that] by blast
  then show "al_distinct eq xs" unfolding al_distinct_def sorted_wrt_iff_nth_less by blast
qed

text \<open>A table whose entries carry keys of another's, no two the same one, is a dict too.\<close>

lemma dict_inv_embed:
  assumes "dict_inv ko t" "table_inv t'" "inj_on f {..<length (entries t')}"
    "\<And>i. i < length (entries t') \<Longrightarrow> f i < length (entries t)
      \<and> bk_key (entries t' ! i) = bk_key (entries t ! f i) \<and> bk_hash (entries t' ! i) = bk_hash (entries t ! f i)"
  shows "dict_inv ko t'"
proof -
  note inv = dict_invD [OF assms(1)]
  have "al_distinct (key_eq ko) (items t')"
    unfolding al_distinct_iff [OF inv(4)] length_items
  proof (intro allI impI)
    fix i j
    assume ij: "i < length (entries t')" "j < length (entries t')"
      "key_eq ko (fst (items t' ! i)) (fst (items t' ! j))"
    then have "key_eq ko (fst (items t ! f i)) (fst (items t ! f j))" using assms(4) by simp
    then have "f i = f j" using inv(3) assms(4) ij(1,2) unfolding al_distinct_iff [OF inv(4)] by simp
    then show "i = j" using assms(3) ij by (simp add: inj_on_def)
  qed
  then show ?thesis using inv assms(2,4) by (simp add: dict_inv_def list_all_length)
qed

section \<open>Lookups\<close>

lemma al_index_SomeI:
  assumes "dict_inv ko t" "i < length (entries t)" "key_eq ko k (bk_key (entries t ! i))"
  shows "al_index (key_eq ko) k (items t) = Some i"
  using al_index_unique [OF dict_invD(4,3) [OF assms(1)]] assms by simp

lemma al_index_NoneI:
  "\<forall>i < length (entries t). \<not> eq k (bk_key (entries t ! i)) \<Longrightarrow> al_index eq k (items t) = None"
  by (auto simp: al_index_None in_set_conv_nth)

lemma find_spec_index:
  assumes "dict_inv ko t" "find_spec (key_hash ko k) (key_eq ko k) t r"
  shows "al_index (key_eq ko) k (items t) = (case r of Inl p \<Rightarrow> None | Inr i \<Rightarrow> Some i)"
proof (cases r)
  case (Inl p)
  have "\<not> key_eq ko k (bk_key (entries t ! i))" if i: "i < length (entries t)" for i
  proof
    assume eq: "key_eq ko k (bk_key (entries t ! i))"
    then have "key_hash ko k = key_hash ko (bk_key (entries t ! i))"
      using dict_invD(1) [OF assms(1)] unfolding lawful_keys_def by blast
    then show False using assms(2) Inl eq i dict_invD(5) [OF assms(1) i] by (simp add: find_spec_def)
  qed
  then have "al_index (key_eq ko) k (items t) = None" by (intro al_index_NoneI) blast
  then show ?thesis using Inl by simp
next
  case (Inr i)
  then show ?thesis using assms(2) al_index_SomeI [OF assms(1)] by (simp add: find_spec_def)
qed

lemma find_key_ok:
  assumes "dict_inv ko t"
  obtains r where "find_hashed (key_hash ko k) (key_eq ko k) t = Some r"
    "find_spec (key_hash ko k) (key_eq ko k) t r"
    "al_index (key_eq ko) k (items t) = (case r of Inl p \<Rightarrow> None | Inr i \<Rightarrow> Some i)"
proof -
  obtain r where r: "find_hashed (key_hash ko k) (key_eq ko k) t = Some r"
    "find_spec (key_hash ko k) (key_eq ko k) t r"
    using find_hashed_ok [OF dict_invD(2) [OF assms], of "key_hash ko k" "key_eq ko k"] by blast
  from that [OF r find_spec_index [OF assms r(2)]] show thesis .
qed

lemma scan_unhashed_ok:
  assumes "\<And>y b. f y = Some b \<Longrightarrow> b = eq k y"
  shows "scan_unhashed bs i f = Some r \<Longrightarrow>
    r = map_option ((+) i) (al_index eq k (map (\<lambda>b. (bk_key b, bk_value b)) bs))"
proof (induction bs arbitrary: i)
  case (Cons b bs)
  show ?case
  proof (cases "f (bk_key b)")
    case None
    then show ?thesis using Cons(2) by simp
  next
    case (Some hit)
    then have hit: "hit = eq k (bk_key b)" by (rule assms)
    show ?thesis
    proof (cases hit)
      case True
      then show ?thesis using Cons(2) Some hit by simp
    next
      case False
      then have "r = map_option ((+) (i + 1)) (al_index eq k (map (\<lambda>b. (bk_key b, bk_value b)) bs))"
        by (intro Cons(1)) (use Cons(2) Some in simp)
      then show ?thesis using False hit
        by (cases "al_index eq k (map (\<lambda>b. (bk_key b, bk_value b)) bs)") simp_all
    qed
  qed
qed simp

lemma get_index_of_ok:
  assumes "dict_inv ko t"
  shows "get_index_of ko k t = Some (al_index (key_eq ko) k (items t))"
proof -
  obtain r where r: "find_hashed (key_hash ko k) (key_eq ko k) t = Some r"
    "al_index (key_eq ko) k (items t) = (case r of Inl p \<Rightarrow> None | Inr i \<Rightarrow> Some i)"
    by (rule find_key_ok [OF assms])
  have found: "found (Some r) = Some (al_index (key_eq ko) k (items t))"
    unfolding r(2) by (simp add: found_def)
  have law: "b = key_eq ko k y" if "key_eq_unhashed ko k y = Some b" for y b
    using dict_invD(1) [OF assms] that unfolding lawful_keys_def by blast
  have unhashed: "x = al_index (key_eq ko) k (items t)"
    if scan: "scan_unhashed (entries t) 0 (key_eq_unhashed ko k) = Some x" for x
  proof -
    have "x = map_option ((+) 0) (al_index (key_eq ko) k (items t))"
      unfolding items_def
      by (rule scan_unhashed_ok [where f = "key_eq_unhashed ko k" and eq = "key_eq ko" and k = k, OF _ scan])
         (rule law)
    then show ?thesis by (cases "al_index (key_eq ko) k (items t)") simp_all
  qed
  show ?thesis
  proof (cases "slots t = [] \<and> entries t = []")
    case True
    then show ?thesis by (simp add: get_index_of_def items_def)
  next
    case False
    show ?thesis
    proof (cases "if slots t = [] then scan_unhashed (entries t) 0 (key_eq_unhashed ko k) else None")
      case None
      then show ?thesis using False r(1) found by (simp only: get_index_of_def if_False option.case)
    next
      case (Some x)
      then have "x = al_index (key_eq ko) k (items t)" using unhashed by (simp split: if_splits)
      then show ?thesis using False Some by (simp only: get_index_of_def if_False option.case)
    qed
  qed
qed

lemma table_get_ok: "dict_inv ko t \<Longrightarrow> table_get ko k t = Some (al_get (key_eq ko) k (items t))"
  using al_index_Some [of "key_eq ko" k "items t"]
  by (cases "al_index (key_eq ko) k (items t)") (simp_all add: table_get_def get_index_of_ok al_get_index)

section \<open>The native lookup\<close>

lemma scan_native_ok:
  assumes "\<And>y b. f y = Some b \<Longrightarrow> b = eq y"
  shows "scan_native bs i h f = Some r \<Longrightarrow>
    r = (case scan_entries bs i h eq of Some j \<Rightarrow> Inr j | None \<Rightarrow> Inl 0)"
proof (induction bs arbitrary: i)
  case (Cons b bs)
  consider (other) "bk_hash b \<noteq> h" | (hit) "bk_hash b = h" "f (bk_key b) = Some True"
    | (miss) "bk_hash b = h" "f (bk_key b) = Some False"
    using Cons(2) by (auto split: option.splits if_splits)
  then show ?case
  proof cases
    case other
    then show ?thesis using Cons(1) [of "i + 1"] Cons(2) by simp
  next
    case hit
    then have "eq (bk_key b)" using assms by blast
    then show ?thesis using Cons(2) hit by simp
  next
    case miss
    then have "\<not> eq (bk_key b)" using assms by blast
    then show ?thesis using Cons(1) [of "i + 1"] Cons(2) miss by simp
  qed
qed simp

lemma native_loop_ok:
  assumes "\<forall>y b. f y = Some b \<longrightarrow> b = eq y" "find_loop es sl h eq p = Some r"
  shows "\<exists>q. native_loop es sl h f p = Some q \<and> (q = None \<or> q = Some r)"
proof -
  have "(\<forall>y b. f y = Some b \<longrightarrow> b = eq y) \<longrightarrow>
      (\<exists>q. native_loop es sl h f p = Some q \<and> (q = None \<or> q = Some r))"
  proof (rule find_loop.raw_induct [where P = "\<lambda>es sl h eq p r. (\<forall>y b. f y = Some b \<longrightarrow> b = eq y) \<longrightarrow>
      (\<exists>q. native_loop es sl h f p = Some q \<and> (q = None \<or> q = Some r))", OF _ assms(2)], intro impI)
    fix loop and es :: "('a, 'b) bucket list" and sl h and eq :: "'a \<Rightarrow> bool" and p r
    let ?b = "es ! (slot_ix (sl ! p) - 1)"
    assume IH: "\<And>es sl h eq p r. loop es sl h eq p = Some r \<Longrightarrow> (\<forall>y b. f y = Some b \<longrightarrow> b = eq y) \<longrightarrow>
        (\<exists>q. native_loop es sl h f p = Some q \<and> (q = None \<or> q = Some r))"
      and body: "(let s = sl ! p in if s = 0 then Some (Inl p)
         else (let ix = slot_ix s - 1; b = es ! ix
               in if (s XOR mix h) \<le> IX_MASK \<and> bk_hash b = h \<and> eq (bk_key b) then Some (Inr ix)
                  else loop es sl h eq (next_slot (length sl) p))) = Some r"
      and law: "\<forall>y b. f y = Some b \<longrightarrow> b = eq y"
    consider (empty) "sl ! p = 0" | (other) "sl ! p \<noteq> 0" "\<not> ((sl ! p XOR mix h) \<le> IX_MASK \<and> bk_hash ?b = h)"
      | (same) "sl ! p \<noteq> 0" "(sl ! p XOR mix h) \<le> IX_MASK" "bk_hash ?b = h" by blast
    then show "\<exists>q. native_loop es sl h f p = Some q \<and> (q = None \<or> q = Some r)"
    proof cases
      case empty
      then show ?thesis using body by (simp add: native_loop.simps [of es sl h f p])
    next
      case other
      then have "loop es sl h eq (next_slot (length sl) p) = Some r" using body by (auto simp: Let_def split: if_splits)
      then show ?thesis using IH [of es sl h eq] law other
        by (auto simp: native_loop.simps [of es sl h f p] Let_def)
    next
      case same
      show ?thesis
      proof (cases "f (bk_key ?b)")
        case None
        then show ?thesis using same by (simp add: native_loop.simps [of es sl h f p] Let_def)
      next
        case (Some hit)
        then have hit: "hit = eq (bk_key ?b)" using law by blast
        show ?thesis
        proof (cases hit)
          case True
          then show ?thesis using same Some hit body by (simp add: native_loop.simps [of es sl h f p] Let_def)
        next
          case False
          then have "loop es sl h eq (next_slot (length sl) p) = Some r" using same hit body by (simp add: Let_def)
          then show ?thesis using IH [of es sl h eq] law same Some False
            by (simp add: native_loop.simps [of es sl h f p] Let_def)
        qed
      qed
    qed
  qed
  then show ?thesis using assms(1) by blast
qed

lemma find_native_ok:
  assumes "\<forall>y b. f y = Some b \<longrightarrow> b = eq y" "find_hashed h eq t = Some r"
  shows "\<exists>q. find_native h f t = Some q \<and> (q = None \<or> q = Some r)"
proof (cases "slots t = []")
  case True
  then show ?thesis using scan_native_ok [of f eq "entries t" 0 h] assms
    by (cases "scan_native (entries t) 0 h f")
       (auto simp: find_native_def find_hashed_def split: option.splits)
next
  case False
  then show ?thesis using native_loop_ok [where eq = eq, OF assms(1)] assms(2)
    by (simp add: find_native_def find_hashed_def)
qed

text \<open>The native path of an insertion finds what the general one finds.\<close>

lemma insert_full_hashed:
  assumes "dict_inv ko t"
  shows "insert_full ko k v t = insert_hashed ko (key_hash ko k) k v t"
proof (cases "key_native ko k")
  case None
  then show ?thesis by (simp add: insert_full_def find_object_hashing_def)
next
  case (Some hf)
  obtain h f where hf: "hf = (h, f)" by (cases hf)
  have law: "h = key_hash ko k" "\<forall>y b. f y = Some b \<longrightarrow> b = key_eq ko k y"
    using dict_invD(1) [OF assms] Some hf unfolding lawful_keys_def by blast+
  obtain r where r: "find_hashed (key_hash ko k) (key_eq ko k) t = Some r"
    by (rule find_key_ok [OF assms])
  obtain q where "find_native h f t = Some q" "q = None \<or> q = Some r"
    using find_native_ok [where eq = "key_eq ko k", OF law(2)] r law(1) by blast
  then show ?thesis using Some hf law(1) r
    by (auto simp: insert_full_def insert_hashed_def find_object_hashing_def)
qed

section \<open>Insertion and removal\<close>

lemma items_replace:
  "i < length (entries t) \<Longrightarrow> items (replace_value i v t) = (items t)[i := (fst (items t ! i), v)]"
  by (simp add: items_def replace_value_def map_update)

lemma dict_inv_replace:
  assumes "dict_inv ko t" "i < length (entries t)"
  shows "dict_inv ko (replace_value i v t)"
  by (rule dict_inv_embed [OF assms(1) replace_value_ok [OF dict_invD(2) [OF assms(1)] assms(2)], of id])
     (use assms(2) in \<open>auto simp: replace_value_def nth_list_update\<close>)

text \<open>Appending a key that no entry equals.\<close>

lemma dict_inv_append:
  assumes "dict_inv ko t" "al_index (key_eq ko) k (items t) = None" "table_inv t'"
    "entries t' = entries t @ [mk_bucket (key_hash ko k) k v]"
  shows "dict_inv ko t'" "items t' = items t @ [(k, v)]"
proof -
  show app: "items t' = items t @ [(k, v)]" using assms(4) by (simp add: items_def mk_bucket_def)
  have "\<not> key_eq ko (fst x) k" if "x \<in> set (items t)" for x
    using assms(2) that equivp_symp [OF dict_invD(4) [OF assms(1)]] by (auto simp: al_index_None)
  then have "al_distinct (key_eq ko) (items t @ [(k, v)])"
    using dict_invD(3) [OF assms(1)] by (simp add: al_distinct_append al_distinct_Cons)
  then show "dict_inv ko t'"
    using assms app by (simp add: dict_inv_def mk_bucket_def)
qed

lemma push_found_slot:
  assumes "dict_inv ko t" "length (entries t) < 2147483647"
    "find_spec (key_hash ko k) (key_eq ko k) t (Inl p)"
  shows "\<exists>t'. push_at p (key_hash ko k) k v t = Some (length (entries t), t') \<and> dict_inv ko t'
    \<and> items t' = items t @ [(k, v)]"
proof -
  obtain t' where t': "push_at p (key_hash ko k) k v t = Some (length (entries t), t')" "table_inv t'"
    "entries t' = entries t @ [mk_bucket (key_hash ko k) k v]"
    using push_at_ok [OF dict_invD(2) [OF assms(1)] assms(2), of "key_hash ko k" p]
      find_spec_free [OF assms(3)] by blast
  have "al_index (key_eq ko) k (items t) = None" using find_spec_index [OF assms(1,3)] by simp
  from dict_inv_append [OF assms(1) this t'(2,3)] t'(1) show ?thesis by blast
qed

lemma insert_hashed_ok:
  assumes "dict_inv ko t" "length (entries t) < 2147483647"
  shows "\<exists>i t'. insert_hashed ko (key_hash ko k) k v t = Some (i, al_get (key_eq ko) k (items t), t')
    \<and> dict_inv ko t' \<and> items t' = al_put (key_eq ko) k v (items t)
    \<and> al_index (key_eq ko) k (items t') = Some i"
proof -
  obtain r where r: "find_hashed (key_hash ko k) (key_eq ko k) t = Some r"
    "find_spec (key_hash ko k) (key_eq ko k) t r"
    "al_index (key_eq ko) k (items t) = (case r of Inl p \<Rightarrow> None | Inr i \<Rightarrow> Some i)"
    by (rule find_key_ok [OF assms(1)])
  show ?thesis
  proof (cases r)
    case (Inl p)
    obtain t' where t': "push_at p (key_hash ko k) k v t = Some (length (entries t), t')" "dict_inv ko t'"
      "items t' = items t @ [(k, v)]"
      using push_found_slot [OF assms, of k p] r(2) Inl by blast
    have "length (entries t') = length (entries t) + 1" using arg_cong [OF t'(3), of length] by simp
    then have "al_index (key_eq ko) k (items t') = Some (length (entries t))"
      using dict_invD(4) [OF assms(1)] t'(3)
      by (intro al_index_unique [OF _ dict_invD(3) [OF t'(2)]]) (simp_all add: nth_append equivp_reflp)
    then show ?thesis using t' r Inl
      by (simp add: insert_hashed_def put_at_def al_get_index al_put_index)
  next
    case (Inr i)
    then have i: "i < length (entries t)" "key_eq ko k (bk_key (entries t ! i))"
      using r(2) by (simp_all add: find_spec_def)
    have "dict_inv ko (replace_value i v t)" by (rule dict_inv_replace [OF assms(1) i(1)])
    moreover from this have "al_index (key_eq ko) k (items (replace_value i v t)) = Some i"
      by (rule al_index_SomeI) (use i in \<open>simp_all add: replace_value_def\<close>)
    ultimately show ?thesis using i r Inr
      by (simp add: insert_hashed_def put_at_def al_get_index al_put_index items_replace)
  qed
qed

lemma table_insert_ok:
  assumes "dict_inv ko t" "length (entries t) < 2147483647"
  shows "\<exists>t'. table_insert ko k v t = Some (al_get (key_eq ko) k (items t), t')
    \<and> dict_inv ko t' \<and> items t' = al_put (key_eq ko) k v (items t)"
  using insert_hashed_ok [OF assms, of k v] insert_full_hashed [OF assms(1), of k v]
  by (auto simp: table_insert_def)

lemma items_remove_nth: "entries t' = remove_nth i (entries t) \<Longrightarrow> items t' = take i (items t) @ drop (Suc i) (items t)"
  by (simp add: items_def remove_nth_def take_map drop_map)

lemma shift_remove_index_dict:
  assumes "dict_inv ko t" "i < length (entries t)"
  shows "\<exists>t'. shift_remove_index i t = Some (Some (items t ! i), t') \<and> dict_inv ko t'
    \<and> items t' = take i (items t) @ drop (Suc i) (items t)"
proof -
  obtain t' where t': "shift_remove_index i t = Some (Some (bk_key (entries t ! i), bk_value (entries t ! i)), t')"
    "table_inv t'" "entries t' = remove_nth i (entries t)"
    using shift_remove_index_ok [OF dict_invD(2) [OF assms(1)] assms(2)] by blast
  have "dict_inv ko t'"
  proof (rule dict_inv_embed [OF assms(1) t'(2), of "\<lambda>k. if k < i then k else k + 1"])
    show "inj_on (\<lambda>k. if k < i then k else k + 1) {..<length (entries t')}"
      by (auto simp: inj_on_def split: if_splits)
    fix k
    assume "k < length (entries t')"
    then have k: "k < length (entries t) - 1" using t'(3) length_remove_nth [OF assms(2)] by simp
    then show "(if k < i then k else k + 1) < length (entries t)
        \<and> bk_key (entries t' ! k) = bk_key (entries t ! (if k < i then k else k + 1))
        \<and> bk_hash (entries t' ! k) = bk_hash (entries t ! (if k < i then k else k + 1))"
      using t'(3) nth_remove_nth [OF assms(2) k] less_diff_conv [THEN iffD1, OF k] by simp
  qed
  then show ?thesis using t' items_remove_nth [OF t'(3)] assms(2) by simp
qed

lemma shift_remove_ok:
  assumes "dict_inv ko t"
  shows "\<exists>t'. shift_remove ko k t = Some (al_get (key_eq ko) k (items t), t')
    \<and> dict_inv ko t' \<and> items t' = al_del (key_eq ko) k (items t)"
proof (cases "al_index (key_eq ko) k (items t)")
  case None
  then show ?thesis using assms get_index_of_ok [OF assms, of k]
    by (simp add: shift_remove_def shift_remove_full_def al_get_index al_del_index)
next
  case (Some i)
  then have i: "i < length (entries t)" using al_index_Some by fastforce
  then show ?thesis using shift_remove_index_dict [OF assms i] get_index_of_ok [OF assms, of k] Some
    by (auto simp: shift_remove_def shift_remove_full_def al_get_index al_del_index)
qed

lemma swap_remove_index_dict:
  assumes "dict_inv ko t" "i < length (entries t)"
  shows "\<exists>t'. swap_remove_index i t = Some (Some (items t ! i), t') \<and> dict_inv ko t'
    \<and> items t' = swap_remove_nth i (items t)"
proof -
  obtain t' where t': "swap_remove_index i t = Some (Some (bk_key (entries t ! i), bk_value (entries t ! i)), t')"
    "table_inv t'" "entries t' = swap_remove_nth i (entries t)"
    using swap_remove_index_ok [OF dict_invD(2) [OF assms(1)] assms(2)] by blast
  have "dict_inv ko t'"
  proof (rule dict_inv_embed [OF assms(1) t'(2), of "\<lambda>k. if k = i then length (entries t) - 1 else k"])
    show "inj_on (\<lambda>k. if k = i then length (entries t) - 1 else k) {..<length (entries t')}"
      using t'(3) by (auto simp: inj_on_def split: if_splits)
    fix k
    assume "k < length (entries t')"
    then have k: "k < length (entries t) - 1" using t'(3) by simp
    moreover have "length (entries t) - 1 < length (entries t)" using assms(2) by linarith
    ultimately show "(if k = i then length (entries t) - 1 else k) < length (entries t)
        \<and> bk_key (entries t' ! k) = bk_key (entries t ! (if k = i then length (entries t) - 1 else k))
        \<and> bk_hash (entries t' ! k) = bk_hash (entries t ! (if k = i then length (entries t) - 1 else k))"
      using t'(3) nth_swap_remove_nth [OF assms(2) k] less_diff_conv [THEN iffD1, OF k] by simp
  qed
  moreover have "entries t \<noteq> []" using assms(2) by auto
  then have "items t' = swap_remove_nth i (items t)"
    using t'(3) by (simp add: items_def swap_remove_nth_def map_butlast map_update last_map)
  ultimately show ?thesis using t' assms(2) by auto
qed

text \<open>The unordered removal leaves the other keys' values.\<close>

lemma al_get_NoneI: "(\<And>j. j < length xs \<Longrightarrow> \<not> eq k (fst (xs ! j))) \<Longrightarrow> al_get eq k xs = None"
  by (metis al_get_None in_set_conv_nth)

lemma al_get_swap_remove:
  assumes "equivp eq" "al_distinct eq xs" "al_distinct eq (swap_remove_nth i xs)" "i < length xs"
  shows "al_get eq k (swap_remove_nth i xs) = (if eq k (fst (xs ! i)) then None else al_get eq k xs)"
proof -
  let ?ys = "swap_remove_nth i xs"
  have last: "length xs - 1 < length xs" using assms(4) by linarith
  have inj: "a = b" if "a < length xs" "b < length xs" "eq k (fst (xs ! a))" "eq k (fst (xs ! b))" for a b
    using al_index_unique [OF assms(1,2)] that by (metis option.inject)
  have get: "al_get eq k zs = Some (snd (zs ! j))"
    if "al_distinct eq zs" "j < length zs" "eq k (fst (zs ! j))" for zs :: "('a \<times> 'b) list" and j
    using al_index_unique [OF assms(1) that] by (simp add: al_get_index)
  consider (hit) "eq k (fst (xs ! i))" | (other) j where "j < length xs" "j \<noteq> i" "eq k (fst (xs ! j))"
    | (none) "\<forall>j < length xs. \<not> eq k (fst (xs ! j))" using assms(4) by blast
  then show ?thesis
  proof cases
    case hit
    have "\<not> eq k (fst (?ys ! j))" if "j < length ?ys" for j
    proof -
      have j: "j < length xs - 1" using that by simp
      show ?thesis
        unfolding nth_swap_remove_nth [OF assms(4) j]
        using inj [of i j] inj [of i "length xs - 1"] hit j last less_diff_conv [THEN iffD1, OF j] assms(4) by auto
    qed
    then have "al_get eq k ?ys = None" by (rule al_get_NoneI)
    then show ?thesis using hit by simp
  next
    case (other j)
    have "\<not> eq k (fst (xs ! i))" using inj other assms(4) by blast
    moreover have "al_get eq k ?ys = Some (snd (xs ! j))"
    proof (cases "j = length xs - 1")
      case True
      then have i: "i < length xs - 1" using other assms(4) by simp
      have "?ys ! i = xs ! j" using nth_swap_remove_nth [OF assms(4) i] True by simp
      then show ?thesis using get [OF assms(3), of i] i other(3) by simp
    next
      case False
      then have j: "j < length xs - 1" using other by simp
      have "?ys ! j = xs ! j" using nth_swap_remove_nth [OF assms(4) j] other(2) by simp
      then show ?thesis using get [OF assms(3), of j] j other(3) by simp
    qed
    ultimately show ?thesis using get [OF assms(2) other(1,3)] by simp
  next
    case none
    have "\<not> eq k (fst (?ys ! j))" if "j < length ?ys" for j
    proof -
      have j: "j < length xs - 1" using that by simp
      show ?thesis unfolding nth_swap_remove_nth [OF assms(4) j] using none less_diff_conv [THEN iffD1, OF j] assms(4) by auto
    qed
    then have "al_get eq k ?ys = None" by (rule al_get_NoneI)
    moreover have "al_get eq k xs = None" by (rule al_get_NoneI) (use none in blast)
    ultimately show ?thesis by simp
  qed
qed

end
