(* ===== verification/Dict_Interp.thy ===== *)
theory Dict_Interp
  imports Dict_Refine
begin

text \<open>
  The interfaces of \<open>Dict_Spec\<close> interpreted on the code: a dict (\<open>dict\<close>), a table whose removal
  does not keep the order (\<open>bag\<close>) and a set (\<open>pyset\<close>); and the operations on two sets.
\<close>

section \<open>Maps\<close>

interpretation dict: ordered_map "dict_inv ko" "key_eq ko" items 2147483647
    "table_get ko" "table_insert ko" "shift_remove ko" for ko :: "'k key_ops"
proof unfold_locales
  fix t :: "('k, 'v) table" and k v
  assume inv: "dict_inv ko t"
  show "equivp (key_eq ko)" "al_distinct (key_eq ko) (items t)"
    "table_get ko k t = Some (al_get (key_eq ko) k (items t))"
    using dict_invD [OF inv] table_get_ok [OF inv] by blast+
  show "\<exists>t'. table_insert ko k v t = Some (al_get (key_eq ko) k (items t), t') \<and> dict_inv ko t'
      \<and> items t' = al_put (key_eq ko) k v (items t)" if "length (items t) < 2147483647"
    using table_insert_ok [OF inv, of k v] that by simp
  show "\<exists>t'. shift_remove ko k t = Some (al_get (key_eq ko) k (items t), t') \<and> dict_inv ko t'
      \<and> items t' = al_del (key_eq ko) k (items t)"
    by (rule shift_remove_ok [OF inv])
qed

text \<open>What a removal that moves the last entry tells and changes.\<close>

lemma swap_taken:
  assumes "dict_inv ko t" "al_index (key_eq ko) k (items t) = Some i"
  shows "\<exists>t'. swap_remove_index i t = Some (Some (items t ! i), t') \<and> dict_inv ko t'
    \<and> (\<forall>k'. al_get (key_eq ko) k' (items t') = (if key_eq ko k k' then None else al_get (key_eq ko) k' (items t)))
    \<and> length (entries t') = length (entries t) - 1"
proof -
  have i: "key_eq ko k (fst (items t ! i))" "i < length (entries t)"
    using al_index_Some [OF assms(2)] unfolding length_items by blast+
  obtain t' where t': "swap_remove_index i t = Some (Some (items t ! i), t')" "dict_inv ko t'"
    "items t' = swap_remove_nth i (items t)"
    using swap_remove_index_dict [OF assms(1) i(2)] by blast
  have eq: "equivp (key_eq ko)" using dict_invD(4) [OF assms(1)] .
  have get: "al_get (key_eq ko) k' (items t') = (if key_eq ko k' (fst (items t ! i)) then None
      else al_get (key_eq ko) k' (items t))" for k'
    unfolding t'(3)
    by (rule al_get_swap_remove [OF eq dict_invD(3) [OF assms(1)]])
       (use dict_invD(3) [OF t'(2)] t'(3) i in simp_all)
  have "key_eq ko k' (fst (items t ! i)) = key_eq ko k k'" for k'
    using eq_swap(2) [OF eq i(1), of k'] equivp_symp [OF eq, of k k'] equivp_symp [OF eq, of k' k] by blast
  moreover have "length (entries t') = length (entries t) - 1"
    using arg_cong [OF t'(3), of length] by simp
  ultimately show ?thesis using t'(1,2) get by simp
qed

interpretation bag: assoc_store "dict_inv ko" "key_eq ko" "\<lambda>t k. al_get (key_eq ko) k (items t)"
    "\<lambda>t. length (items t)" 2147483647 "table_get ko" "table_insert ko" "swap_remove ko" for ko :: "'k key_ops"
proof unfold_locales
  fix t :: "('k, 'v) table" and k v
  assume inv: "dict_inv ko t"
  show "table_get ko k t = Some (al_get (key_eq ko) k (items t))" by (rule dict.store.lookup_law [OF inv])
  show "\<exists>t'. table_insert ko k v t = Some (al_get (key_eq ko) k (items t), t') \<and> dict_inv ko t'
      \<and> (\<lambda>k. al_get (key_eq ko) k (items t')) = (\<lambda>k'. if key_eq ko k k' then Some v else al_get (key_eq ko) k' (items t))
      \<and> length (items t') \<le> length (items t) + 1" if "length (items t) < 2147483647"
    by (rule dict.store.put_law [OF inv that])
  show "\<exists>t'. swap_remove ko k t = Some (al_get (key_eq ko) k (items t), t') \<and> dict_inv ko t'
      \<and> (\<lambda>k. al_get (key_eq ko) k (items t')) = (\<lambda>k'. if key_eq ko k k' then None else al_get (key_eq ko) k' (items t))
      \<and> length (items t') \<le> length (items t)"
  proof (cases "al_index (key_eq ko) k (items t)")
    case None
    then have none: "al_get (key_eq ko) k (items t) = None" by (simp add: al_get_index)
    then have "al_get (key_eq ko) k' (items t) = None" if "key_eq ko k k'" for k'
      using al_get_cong [OF dict_invD(4) [OF inv] that] by metis
    then show ?thesis using None none inv get_index_of_ok [OF inv, of k]
      by (auto simp: swap_remove_def fun_eq_iff)
  next
    case (Some i)
    moreover obtain a b where "items t ! i = (a, b)" by (cases "items t ! i")
    ultimately show ?thesis using swap_taken [OF inv Some] get_index_of_ok [OF inv, of k]
      by (auto simp: swap_remove_def al_get_index [of _ k] fun_eq_iff)
  qed
qed

section \<open>Sets\<close>

definition member_of :: "'k key_ops \<Rightarrow> 'k set_map \<Rightarrow> 'k \<Rightarrow> bool" where
  "member_of ko s k \<longleftrightarrow> al_get (key_eq ko) k (items s) \<noteq> None"

lemma member_of_index: "member_of ko s k \<longleftrightarrow> al_index (key_eq ko) k (items s) \<noteq> None"
  by (simp add: member_of_def al_get_index)

lemma member_of_iff: "member_of ko s k \<longleftrightarrow> (\<exists>x \<in> set (set_keys s). key_eq ko k x)"
  by (auto simp: member_of_def al_get_None items_def set_keys_def)

lemma set_find_ok:
  assumes "dict_inv ko s"
  shows "set_find ko k s = Some (al_index (key_eq ko) k (items s))"
  using get_index_of_ok [OF assms] by (auto simp: set_find_def items_def)

lemma set_contains_ok: "dict_inv ko s \<Longrightarrow> set_contains ko k s = Some (member_of ko s k)"
  by (simp add: set_contains_def set_find_ok member_of_index)

lemma set_insert_hashed_eq:
  assumes "dict_inv ko s"
  shows "set_insert_full ko k s = set_insert_hashed ko (key_hash ko k) k s"
proof (cases "key_native ko k")
  case None
  then show ?thesis by (simp add: set_insert_full_def find_object_hashing_def)
next
  case (Some hf)
  obtain h f where hf: "hf = (h, f)" by (cases hf)
  have law: "h = key_hash ko k" "\<forall>y b. f y = Some b \<longrightarrow> b = key_eq ko k y"
    using dict_invD(1) [OF assms] Some hf unfolding lawful_keys_def by blast+
  obtain r where r: "find_hashed (key_hash ko k) (key_eq ko k) s = Some r"
    by (rule find_key_ok [OF assms])
  obtain q where "find_native h f s = Some q" "q = None \<or> q = Some r"
    using find_native_ok [where eq = "key_eq ko k", OF law(2)] r law(1) by blast
  then show ?thesis using Some hf law(1) r
    by (auto simp: set_insert_full_def set_insert_hashed_def find_object_hashing_def)
qed

interpretation pyset: key_set "dict_inv ko" "key_eq ko" "member_of ko" "\<lambda>s. length (entries s)" 2147483647
    "set_contains ko" "set_insert ko" "set_swap_remove ko" for ko :: "'k key_ops"
proof unfold_locales
  fix s :: "'k set_map" and k
  assume inv: "dict_inv ko s"
  have eq: "equivp (key_eq ko)" using dict_invD(4) [OF inv] .
  have mem_eq: "member_of ko s k' = member_of ko s k" if "key_eq ko k k'" for k'
    using al_get_cong [OF eq that, of "items s"] by (simp add: member_of_def)
  show "set_contains ko k s = Some (member_of ko s k)" by (rule set_contains_ok [OF inv])
  show "\<exists>s'. set_insert ko k s = Some (\<not> member_of ko s k, s') \<and> dict_inv ko s'
      \<and> member_of ko s' = (\<lambda>k'. key_eq ko k k' \<or> member_of ko s k')
      \<and> length (entries s') = (if member_of ko s k then length (entries s) else length (entries s) + 1)"
    if room: "length (entries s) < 2147483647"
  proof -
    obtain r where r: "find_hashed (key_hash ko k) (key_eq ko k) s = Some r"
      "find_spec (key_hash ko k) (key_eq ko k) s r"
      "al_index (key_eq ko) k (items s) = (case r of Inl p \<Rightarrow> None | Inr i \<Rightarrow> Some i)"
      by (rule find_key_ok [OF inv])
    show ?thesis
    proof (cases r)
      case (Inl p)
      obtain s' where s': "push_at p (key_hash ko k) k () s = Some (length (entries s), s')" "dict_inv ko s'"
        "items s' = items s @ [(k, ())]"
        using push_found_slot [OF inv room, of k p] r(2) Inl by blast
      have "length (entries s') = length (entries s) + 1" using arg_cong [OF s'(3), of length] by simp
      moreover have "member_of ko s' k' = (key_eq ko k k' \<or> member_of ko s k')" for k'
        using equivp_symp [OF eq, of k k'] equivp_symp [OF eq, of k' k] s'(3)
        by (auto simp: member_of_def al_get_None)
      moreover have "\<not> member_of ko s k" using r(3) Inl by (simp add: member_of_index)
      ultimately show ?thesis using s' r(1) Inl
        by (simp add: set_insert_def set_insert_hashed_eq [OF inv] set_insert_hashed_def set_put_at_def fun_eq_iff)
    next
      case (Inr i)
      then have "member_of ko s k" using r(3) by (simp add: member_of_index)
      then show ?thesis using r(1) Inr inv mem_eq
        by (auto simp: set_insert_def set_insert_hashed_eq [OF inv] set_insert_hashed_def set_put_at_def)
    qed
  qed
  show "\<exists>s'. set_swap_remove ko k s = Some (member_of ko s k, s') \<and> dict_inv ko s'
      \<and> member_of ko s' = (\<lambda>k'. \<not> key_eq ko k k' \<and> member_of ko s k')
      \<and> length (entries s') = (if member_of ko s k then length (entries s) - 1 else length (entries s))"
  proof (cases "al_index (key_eq ko) k (items s)")
    case None
    then show ?thesis using inv mem_eq set_find_ok [OF inv, of k]
      by (auto simp: set_swap_remove_def set_swap_take_def set_take_def member_of_index fun_eq_iff)
  next
    case (Some i)
    then have "member_of ko s k" by (simp add: member_of_index)
    moreover obtain s' where s': "swap_remove_index i s = Some (Some (items s ! i), s')" "dict_inv ko s'"
      "\<forall>k'. al_get (key_eq ko) k' (items s') = (if key_eq ko k k' then None else al_get (key_eq ko) k' (items s))"
      "length (entries s') = length (entries s) - 1"
      using swap_taken [OF inv Some] by blast
    ultimately show ?thesis using Some set_find_ok [OF inv, of k]
      by (auto simp: set_swap_remove_def set_swap_take_def set_take_def member_of_def fun_eq_iff)
  qed
qed

end
