(* ===== verification/Dict_Properties.thy ===== *)
theory Dict_Properties
  imports Dict_Interp
begin

text \<open>
  The properties of the dict and set tables, each with an application at concrete keys:
  \<open>int_keys\<close> are machine integers, hashed to themselves and compared natively, as the
  interpreter's \<open>IntEq\<close> does.
\<close>

section \<open>Concrete keys\<close>

definition int_keys :: "i64 key_ops" where
  "int_keys = \<lparr>key_hash = (\<lambda>k. k), key_eq = (=), key_eq_unhashed = (\<lambda>_ _. None),
     key_native = (\<lambda>k. Some (k, \<lambda>y. Some (y = k)))\<rparr>"

lemma lawful_int_keys [simp]: "lawful_keys int_keys"
  by (auto simp: lawful_keys_def int_keys_def identity_equivp)

lemma dict_inv_int_new [simp]: "dict_inv int_keys table_new"
  by simp

lemma items_new [simp]: "items table_new = []" "entries table_new = []"
  by (simp_all add: items_def table_new_def)

lemma int_keys_eq [simp]: "key_eq int_keys = (=)"
  by (simp add: int_keys_def)

text \<open>A dict of twenty integers, too many for a table without slots.\<close>

definition big_entry :: "usize \<Rightarrow> i64 \<times> i64 \<times> nat" where
  "big_entry i = (word_of_nat i, word_of_nat i, i)"

lemma big_dict: "\<exists>t. from_unique_hashed 20 big_entry = Some t
    \<and> dict_inv int_keys t \<and> items t = map (\<lambda>i. (word_of_nat i :: i64, i)) [0..<20]"
proof -
  obtain t where t: "from_unique_hashed 20 big_entry = Some t" "table_inv t"
    "entries t = map (\<lambda>i. case big_entry i of (h, k, v) \<Rightarrow> mk_bucket h k v) [0..<20]"
    using from_unique_hashed_ok [of 20 big_entry] by auto
  have items: "items t = map (\<lambda>i. (word_of_nat i :: i64, i)) [0..<20]"
    using t(3) by (simp add: items_def mk_bucket_def big_entry_def)
  have "al_distinct (key_eq int_keys) (items t)"
    unfolding items by (simp add: int_keys_def al_distinct_def upt_conv_Cons)
  moreover have "list_all (\<lambda>b. bk_hash b = key_hash int_keys (bk_key b)) (entries t)"
    unfolding t(3) by (simp add: int_keys_def mk_bucket_def big_entry_def list_all_iff)
  ultimately show ?thesis using t(1,2) items by (simp add: dict_inv_def)
qed

lemma big_dict_length:
  assumes "items t = map (\<lambda>i. (word_of_nat i :: i64, i)) [0..<20]"
  shows "length (entries t) = 20"
  using arg_cong [OF assms, of length] by simp

section \<open>The operations on two sets\<close>

lemma filter_keys_ok: "(\<And>k. p k = Some (q k)) \<Longrightarrow> filter_keys p ks = Some (filter q ks)"
  by (induction ks) simp_all

lemma all_keys_ok: "(\<And>k. p k = Some (q k)) \<Longrightarrow> all_keys p ks = Some (list_all q ks)"
  by (induction ks) simp_all

lemma set_difference_ok:
  "dict_inv ko u \<Longrightarrow> set_difference ko s u = Some (filter (\<lambda>k. \<not> member_of ko u k) (set_keys s))"
  unfolding set_difference_def by (rule filter_keys_ok) (simp add: set_contains_ok)

text \<open>A set all of whose keys another one has is no larger; as large, it is the same set.\<close>

lemma members_index:
  assumes "dict_inv ko s" "dict_inv ko u" "\<And>k. k \<in> set (set_keys s) \<Longrightarrow> member_of ko u k"
  obtains f where "inj_on f {..<length (entries s)}" "f ` {..<length (entries s)} \<subseteq> {..<length (entries u)}"
    "\<And>i. i < length (entries s) \<Longrightarrow> key_eq ko (bk_key (entries s ! i)) (bk_key (entries u ! f i))"
proof -
  have eq: "equivp (key_eq ko)" using dict_invD(4) [OF assms(1)] .
  have "\<forall>i. \<exists>j. i < length (entries s) \<longrightarrow> j < length (entries u)
      \<and> key_eq ko (bk_key (entries s ! i)) (bk_key (entries u ! j))"
  proof (intro allI)
    fix i
    show "\<exists>j. i < length (entries s) \<longrightarrow> j < length (entries u)
        \<and> key_eq ko (bk_key (entries s ! i)) (bk_key (entries u ! j))"
    proof (cases "i < length (entries s)")
      case True
      then have "member_of ko u (bk_key (entries s ! i))" using assms(3) by (simp add: set_keys_def)
      then show ?thesis by (fastforce simp: member_of_iff set_keys_def in_set_conv_nth)
    qed simp
  qed
  then obtain f where f: "\<And>i. i < length (entries s) \<Longrightarrow> f i < length (entries u)
      \<and> key_eq ko (bk_key (entries s ! i)) (bk_key (entries u ! f i))" by metis
  have "inj_on f {..<length (entries s)}"
  proof (rule inj_onI)
    fix i j
    assume ij: "i \<in> {..<length (entries s)}" "j \<in> {..<length (entries s)}" "f i = f j"
    then have "key_eq ko (bk_key (entries u ! f i)) (bk_key (entries s ! j))"
      using f [of j] equivp_symp [OF eq] by simp
    then have "key_eq ko (bk_key (entries s ! i)) (bk_key (entries s ! j))"
      using f [of i] ij(1) equivp_transp [OF eq] by blast
    then show "i = j" using dict_invD(3) [OF assms(1)] ij(1,2) unfolding al_distinct_iff [OF eq] by simp
  qed
  then show thesis using that f by blast
qed

lemma set_same_members:
  assumes "dict_inv ko s" "dict_inv ko u" "length (entries s) = length (entries u)"
    "\<And>k. k \<in> set (set_keys s) \<Longrightarrow> member_of ko u k"
  shows "member_of ko s = member_of ko u"
proof (rule ext)
  fix k
  have eq: "equivp (key_eq ko)" using dict_invD(4) [OF assms(1)] .
  obtain f where f: "inj_on f {..<length (entries s)}" "f ` {..<length (entries s)} \<subseteq> {..<length (entries u)}"
    "\<And>i. i < length (entries s) \<Longrightarrow> key_eq ko (bk_key (entries s ! i)) (bk_key (entries u ! f i))"
    using members_index [OF assms(1,2,4)] by blast
  have surj: "f ` {..<length (entries s)} = {..<length (entries u)}"
    using f(1,2) assms(3) by (intro card_subset_eq) (simp_all add: card_image)
  show "member_of ko s k = member_of ko u k"
  proof
    assume "member_of ko s k"
    then obtain x where x: "x \<in> set (set_keys s)" "key_eq ko k x" unfolding member_of_iff by blast
    obtain y where "y \<in> set (set_keys u)" "key_eq ko x y"
      using assms(4) [OF x(1)] unfolding member_of_iff by blast
    then show "member_of ko u k" using equivp_transp [OF eq x(2)] unfolding member_of_iff by blast
  next
    assume "member_of ko u k"
    then obtain j where j: "j < length (entries u)" "key_eq ko k (bk_key (entries u ! j))"
      by (auto simp: member_of_iff set_keys_def in_set_conv_nth)
    then obtain i where i: "i < length (entries s)" "f i = j" using surj by (metis imageE lessThan_iff)
    have "key_eq ko k (bk_key (entries s ! i))"
      using equivp_transp [OF eq j(2) equivp_symp [OF eq f(3) [OF i(1), unfolded i(2)]]] .
    then show "member_of ko s k" using i(1) unfolding member_of_iff set_keys_def by auto
  qed
qed

lemma members_length:
  assumes "dict_inv ko s" "dict_inv ko u" "\<And>k. k \<in> set (set_keys s) \<Longrightarrow> member_of ko u k"
  shows "length (entries s) \<le> length (entries u)"
proof -
  obtain f where f: "inj_on f {..<length (entries s)}" "f ` {..<length (entries s)} \<subseteq> {..<length (entries u)}"
    by (rule members_index [OF assms])
  have "card (f ` {..<length (entries s)}) \<le> card {..<length (entries u)}" by (rule card_mono) (use f in auto)
  then show ?thesis using f(1) by (simp add: card_image)
qed

lemma member_of_self: "dict_inv ko s \<Longrightarrow> k \<in> set (set_keys s) \<Longrightarrow> member_of ko s k"
  using equivp_reflp [OF dict_invD(4)] by (fastforce simp: member_of_iff)

section \<open>Operations in bulk\<close>

lemma reverse_dict:
  assumes "dict_inv ko t"
  shows "\<exists>t'. table_reverse t = Some t' \<and> dict_inv ko t' \<and> items t' = rev (items t)"
proof -
  obtain t' where t': "table_reverse t = Some t'" "table_inv t'" "entries t' = rev (entries t)"
    using reverse_ok [OF dict_invD(2) [OF assms]] by blast
  have "dict_inv ko t'"
    by (rule dict_inv_embed [OF assms t'(2), of "\<lambda>i. length (entries t) - Suc i"])
       (use t'(3) in \<open>auto simp: inj_on_def rev_nth\<close>)
  then show ?thesis using t' by (simp add: items_def rev_map)
qed

lemma part_dict:
  assumes "dict_inv ko t" "table_inv t'" "entries t' = take m (drop n (entries t))"
  shows "dict_inv ko t'" "items t' = take m (drop n (items t))"
proof -
  show "dict_inv ko t'"
    by (rule dict_inv_embed [OF assms(1,2), of "\<lambda>i. n + i"]) (use assms(3) in \<open>auto simp: inj_on_def\<close>)
  show "items t' = take m (drop n (items t))" using assms(3) by (simp add: items_def take_map drop_map)
qed

lemma truncate_dict:
  assumes "dict_inv ko t"
  shows "\<exists>t'. table_truncate n t = Some t' \<and> dict_inv ko t' \<and> items t' = take n (items t)"
  using truncate_ok [OF dict_invD(2) [OF assms], of n] part_dict [OF assms, of _ n 0] by auto

lemma split_off_dict:
  assumes "dict_inv ko t" "n \<le> length (entries t)" "length (entries t) < 2147483648"
  shows "\<exists>t' u. split_off n t = Some (t', u) \<and> dict_inv ko t' \<and> dict_inv ko u
    \<and> items t' = take n (items t) \<and> items u = drop n (items t)"
proof -
  obtain t' u where t': "split_off n t = Some (t', u)" "table_inv t'" "table_inv u"
    "entries t' = take n (entries t)" "entries u = drop n (entries t)"
    using split_off_ok [OF dict_invD(2) [OF assms(1)] assms(2,3)] by blast
  show ?thesis
    using t'(1) part_dict [OF assms(1) t'(2), of n 0] part_dict [OF assms(1) t'(3), of "length (entries t)" n] t'(4,5)
    by simp
qed

lemma swap_indices_dict:
  assumes "dict_inv ko t" "a < length (entries t)" "b < length (entries t)"
  shows "\<exists>t'. table_swap_indices a b t = Some t' \<and> dict_inv ko t'
    \<and> items t' = (items t)[a := items t ! b, b := items t ! a]"
proof -
  obtain t' where t': "table_swap_indices a b t = Some t'" "table_inv t'"
    "entries t' = (entries t)[a := entries t ! b, b := entries t ! a]"
    using swap_indices_ok [OF dict_invD(2) [OF assms(1)] assms(2,3)] by blast
  have "dict_inv ko t'"
    by (rule dict_inv_embed [OF assms(1) t'(2), of "\<lambda>i. if i = b then a else if i = a then b else i"])
       (use t'(3) assms(2,3) in \<open>auto simp: inj_on_def nth_list_update split: if_splits\<close>)
  then show ?thesis using t' assms(2,3) by (simp add: items_def map_update)
qed

section \<open>Properties\<close>

text \<open>
  C1. Any sequence of lookups, insertions and removals (\<open>del\<close>) on a dict, with room for its
  insertions, returns what the same sequence returns on a list of pairs in insertion order,
  and leaves the dict with that list's items in that order: an insertion keeps the position
  and the key of an entry already present, a removal closes the gap.
\<close>

theorem dict_history:
  assumes "dict_inv ko t" "length (items t) + length cs \<le> 2147483647"
  shows "\<exists>t'. run_ops (table_get ko) (table_insert ko) (shift_remove ko) cs t
      = Some (fst (al_run (key_eq ko) cs (items t)), t') \<and> dict_inv ko t'
    \<and> items t' = snd (al_run (key_eq ko) cs (items t))"
  using assms by (rule dict.run_refines)

definition history :: "(i64, nat) map_op list" where
  "history = [Put 5 1, Put 7 2, Get 5, Put 5 3, Del 7, Get 7, Put 7 4]"

theorem dict_history_witness:
  "\<exists>t'. run_ops (table_get int_keys) (table_insert int_keys) (shift_remove int_keys) history table_new
    = Some ([None, None, Some 1, Some 1, Some 2, None, None], t') \<and> dict_inv int_keys t'
    \<and> items t' = [(5, 3), (7, 4)]"
proof -
  have "al_run (key_eq int_keys) history [] = ([None, None, Some 1, Some 1, Some 2, None, None], [(5, 3), (7, 4)])"
    by (simp add: history_def)
  moreover have "length history = 7" by (simp add: history_def)
  ultimately show ?thesis using dict_history [of int_keys table_new history] by simp
qed

text \<open>
  C16. A lookup in a table that satisfies its invariant ends, whatever the keys' equality
  answers (a user's \<open>__eq__\<close> may be anything), and tells whether an entry of that hash that
  the equality accepts is there; on a miss with slots it returns the first free slot of the
  probe sequence, the one the next insertion of that hash must use.
\<close>

theorem lookup_total:
  assumes "table_inv t"
  shows "\<exists>r. find_hashed h eq t = Some r \<and> (case r of
      Inr i \<Rightarrow> i < length (entries t) \<and> bk_hash (entries t ! i) = h \<and> eq (bk_key (entries t ! i))
    | Inl p \<Rightarrow> (\<nexists>i. i < length (entries t) \<and> bk_hash (entries t ! i) = h \<and> eq (bk_key (entries t ! i)))
        \<and> (slots t = [] \<or> first_free (slots t) (home (shift t) (mix h)) p))"
  using find_hashed_ok [OF assms, of h eq] unfolding find_spec_def by (fastforce split: sum.splits)

theorem lookup_total_witness:
  "\<exists>(t :: (i64, nat) table) r. length (entries t) = 20 \<and> find_hashed 3 (\<lambda>k. k = 3) t = Some r"
proof -
  obtain t :: "(i64, nat) table" where t: "dict_inv int_keys t" "length (entries t) = 20"
    using big_dict big_dict_length by blast
  then show ?thesis using lookup_total [OF dict_invD(2) [OF t(1)], of 3 "\<lambda>k. k = 3"] by blast
qed

text \<open>
  An insertion through the native path (integers, short strings, classes) does what the
  general path does: same position, same replaced value, same table.
\<close>

theorem native_insert_agrees:
  assumes "dict_inv ko t"
  shows "insert_full ko k v t = insert_hashed ko (key_hash ko k) k v t"
  using assms by (rule insert_full_hashed)

theorem native_insert_agrees_witness:
  "\<exists>t. length (entries t) = 20 \<and> insert_full int_keys 4 9 t = insert_hashed int_keys (key_hash int_keys 4) 4 (9 :: nat) t"
proof -
  obtain t where t: "dict_inv int_keys t" "items t = map (\<lambda>i. (word_of_nat i :: i64, i)) [0..<20]"
    using big_dict by blast
  show ?thesis using native_insert_agrees [OF t(1), of 4 9] big_dict_length [OF t(2)] by blast
qed

text \<open>
  C28. The operations that reorder or drop entries in bulk (\<open>reverse\<close>, \<open>truncate\<close>,
  \<open>swap_indices\<close>, \<open>split_off\<close>) return, re-derive a consistent slot table, and their items are
  the list operation's.
\<close>

theorem reordering_keeps_dict:
  assumes "dict_inv ko t" "a < length (entries t)" "b < length (entries t)" "length (entries t) < 2147483648"
  shows "(\<exists>t'. table_reverse t = Some t' \<and> dict_inv ko t' \<and> items t' = rev (items t))
    \<and> (\<exists>t'. table_truncate a t = Some t' \<and> dict_inv ko t' \<and> items t' = take a (items t))
    \<and> (\<exists>t'. table_swap_indices a b t = Some t' \<and> dict_inv ko t'
         \<and> items t' = (items t)[a := items t ! b, b := items t ! a])
    \<and> (\<exists>t' u. split_off a t = Some (t', u) \<and> dict_inv ko t' \<and> dict_inv ko u
         \<and> items t' = take a (items t) \<and> items u = drop a (items t))"
  using assms by (intro conjI reverse_dict truncate_dict swap_indices_dict split_off_dict) simp_all

theorem reordering_keeps_dict_witness:
  "\<exists>t t1. items t = map (\<lambda>i. (word_of_nat i :: i64, i)) [0..<20] \<and> table_reverse t = Some t1
    \<and> items t1 = rev (items t) \<and> dict_inv int_keys t1"
proof -
  obtain t where t: "dict_inv int_keys t" "items t = map (\<lambda>i. (word_of_nat i :: i64, i)) [0..<20]"
    using big_dict by blast
  show ?thesis using reordering_keeps_dict [OF t(1), of 3 5] big_dict_length [OF t(2)] t(2) by auto
qed

text \<open>
  C26. A removal that moves the last entry into the gap (\<open>swap_remove\<close>) returns the removed
  value, and afterwards exactly the removed key (and those equal to it) is gone.
\<close>

theorem swap_remove_forgets_one:
  assumes "dict_inv ko t"
  shows "\<exists>r t'. swap_remove ko k t = Some (r, t') \<and> dict_inv ko t'
    \<and> table_get ko k' t' = (if key_eq ko k k' then Some None else table_get ko k' t)"
  using assms by (rule bag.lookup_del)

theorem swap_remove_forgets_one_witness:
  "\<exists>t r t'. items t = map (\<lambda>i. (word_of_nat i :: i64, i)) [0..<20]
    \<and> swap_remove int_keys 3 t = Some (r, t') \<and> table_get int_keys 3 t' = Some None"
proof -
  obtain t where t: "dict_inv int_keys t" "items t = map (\<lambda>i. (word_of_nat i :: i64, i)) [0..<20]"
    using big_dict by blast
  show ?thesis using swap_remove_forgets_one [OF t(1), of 3 3] t(2) by auto
qed

text \<open>
  C25. Set equality (equal sizes, and every key of one in the other) tells exactly whether the
  two sets have the same members, and \<open>issubset\<close> whether one's are the other's.
\<close>

theorem set_eq_decides:
  assumes "dict_inv ko s" "dict_inv ko u"
  shows "set_eq ko s u = Some (member_of ko s = member_of ko u)
    \<and> set_is_subset ko s u = Some (member_of ko s \<le> member_of ko u)"
proof -
  have eq: "equivp (key_eq ko)" using dict_invD(4) [OF assms(1)] .
  have all: "all_keys (\<lambda>k. set_contains ko k u) (set_keys s) = Some (list_all (member_of ko u) (set_keys s))"
    by (rule all_keys_ok) (rule set_contains_ok [OF assms(2)])
  have sub: "member_of ko s \<le> member_of ko u" if all: "list_all (member_of ko u) (set_keys s)"
  proof (intro predicate1I)
    fix k
    assume "member_of ko s k"
    then obtain x where x: "x \<in> set (set_keys s)" "key_eq ko k x" unfolding member_of_iff by blast
    then obtain y where "y \<in> set (set_keys u)" "key_eq ko x y"
      using all unfolding list_all_iff member_of_iff by blast
    then show "member_of ko u k" using equivp_transp [OF eq x(2)] unfolding member_of_iff by blast
  qed
  have keys: "list_all (member_of ko u) (set_keys s)" if "member_of ko s \<le> member_of ko u"
    using that member_of_self [OF assms(1)] by (auto simp: list_all_iff)
  have small: "length (entries s) \<le> length (entries u)" if "list_all (member_of ko u) (set_keys s)"
    using members_length [OF assms] that by (simp add: list_all_iff)
  have "set_is_subset ko s u = Some (member_of ko s \<le> member_of ko u)"
    using all sub keys small by (auto simp: set_is_subset_def)
  moreover have "set_eq ko s u = Some (member_of ko s = member_of ko u)"
  proof (cases "length (entries s) = length (entries u)")
    case True
    then have "list_all (member_of ko u) (set_keys s) = (member_of ko s = member_of ko u)"
      using set_same_members [OF assms True] keys by (auto simp: list_all_iff)
    then show ?thesis using all True by (simp add: set_eq_def)
  next
    case False
    have "member_of ko s \<noteq> member_of ko u"
    proof
      assume same: "member_of ko s = member_of ko u"
      have "length (entries s) \<le> length (entries u)" "length (entries u) \<le> length (entries s)"
        using members_length [OF assms] members_length [OF assms(2,1)]
          member_of_self [OF assms(1)] member_of_self [OF assms(2)] same by auto
      then show False using False by simp
    qed
    then show ?thesis using False by (simp add: set_eq_def)
  qed
  ultimately show ?thesis by simp
qed

lemma set_of_two:
  "\<exists>s. set_insert int_keys a table_new = Some (True, s) \<and> dict_inv int_keys s \<and> member_of int_keys s = (\<lambda>k. a = k)"
  using pyset.add_law [of int_keys table_new a] by (auto simp: member_of_def)

theorem set_eq_decides_witness:
  "\<exists>s. set_insert int_keys 7 table_new = Some (True, s) \<and> set_eq int_keys s table_new = Some False
    \<and> set_is_subset int_keys table_new s = Some True"
proof -
  obtain s where s: "set_insert int_keys 7 table_new = Some (True, s)" "dict_inv int_keys s"
    "member_of int_keys s = (\<lambda>k. 7 = k)"
    using set_of_two by blast
  have none: "member_of int_keys table_new = (\<lambda>k. False)" by (simp add: member_of_def fun_eq_iff)
  show ?thesis
    using set_eq_decides [OF s(2) dict_inv_int_new] set_eq_decides [OF dict_inv_int_new s(2)] s(1)
    by (auto simp: s(3) none fun_eq_iff le_fun_def)
qed

text \<open>
  C30. The lazy set operations yield exactly the keys of the mathematical operation, each
  once, in the order of the sets: difference and intersection in the first set's order, a
  union the first set's keys and then the second's that it lacks.
\<close>

theorem set_algebra:
  assumes "dict_inv ko s" "dict_inv ko u"
  shows "set_difference ko s u = Some (filter (\<lambda>k. \<not> member_of ko u k) (set_keys s))
    \<and> set_intersection ko s u = Some (filter (member_of ko u) (set_keys s))
    \<and> set_union ko s u = Some (set_keys s @ filter (\<lambda>k. \<not> member_of ko s k) (set_keys u))
    \<and> set_symmetric_difference ko s u = Some (filter (\<lambda>k. \<not> member_of ko u k) (set_keys s)
        @ filter (\<lambda>k. \<not> member_of ko s k) (set_keys u))
    \<and> set_is_disjoint ko s u = Some (\<nexists>k. member_of ko s k \<and> member_of ko u k)"
proof -
  have eq: "equivp (key_eq ko)" using dict_invD(4) [OF assms(1)] .
  have inter: "set_intersection ko s u = Some (filter (member_of ko u) (set_keys s))"
    unfolding set_intersection_def by (rule filter_keys_ok) (simp add: set_contains_ok assms)
  have disjoint: "all_keys (\<lambda>k. map_option Not (set_contains ko k big)) (set_keys small)
      = Some (\<nexists>k. member_of ko small k \<and> member_of ko big k)"
    if inv: "dict_inv ko small" "dict_inv ko big" for small big
  proof -
    have "member_of ko big x = member_of ko big k" if "key_eq ko k x" for k x
      using al_get_cong [OF eq that, of "items big"] by (simp add: member_of_def)
    then have "list_all (\<lambda>k. \<not> member_of ko big k) (set_keys small) = (\<nexists>k. member_of ko small k \<and> member_of ko big k)"
      using member_of_self [OF inv(1)] unfolding list_all_iff member_of_iff [of ko small] by metis
    then show ?thesis
      using all_keys_ok [of "\<lambda>k. map_option Not (set_contains ko k big)" "\<lambda>k. \<not> member_of ko big k"]
      by (simp add: set_contains_ok inv)
  qed
  then have "set_is_disjoint ko s u = Some (\<nexists>k. member_of ko s k \<and> member_of ko u k)"
    using disjoint [OF assms] disjoint [OF assms(2,1)] by (auto simp: set_is_disjoint_def)
  then show ?thesis
    using inter set_difference_ok [OF assms(2)] set_difference_ok [OF assms(1)]
    by (simp add: set_union_def set_symmetric_difference_def)
qed

theorem set_algebra_witness:
  "\<exists>s. set_insert int_keys 7 table_new = Some (True, s)
    \<and> set_is_disjoint int_keys s s = Some (\<nexists>k. member_of int_keys s k)"
proof -
  obtain s where s: "set_insert int_keys 7 table_new = Some (True, s)" "dict_inv int_keys s"
    using set_of_two by blast
  show ?thesis using set_algebra [OF s(2) s(2)] s(1) by auto
qed

lemma insert_all_ok:
  "dict_inv ko t \<Longrightarrow> length (entries t) + length kvs \<le> 2147483647 \<Longrightarrow>
     \<exists>t'. insert_all ko kvs t = Some t' \<and> dict_inv ko t'
       \<and> items t' = foldl (\<lambda>xs (k, v). al_put (key_eq ko) k v xs) (items t) kvs"
proof (induction kvs arbitrary: t)
  case (Cons kv kvs)
  obtain k v where kv: "kv = (k, v)" by (cases kv)
  obtain t' where t': "table_insert ko k v t = Some (al_get (key_eq ko) k (items t), t')" "dict_inv ko t'"
    "items t' = al_put (key_eq ko) k v (items t)"
    using table_insert_ok [OF Cons(2), of k v] Cons(3) by auto
  have "length (entries t') \<le> length (entries t) + 1"
    using arg_cong [OF t'(3), of length] by (simp add: length_al_put split: if_splits)
  then show ?case using Cons(1) [OF t'(2)] Cons(3) t' kv by simp
qed simp

text \<open>
  \<open>extend\<close> (and \<open>from_iter\<close>, on the empty table) inserts the pairs in order: a later value
  of an equal key replaces the earlier one in its place, whatever the iterator's size hint
  made the table reserve.
\<close>

theorem extend_is_fold:
  assumes "dict_inv ko t" "length (entries t) + length kvs \<le> 2147483647" "length (entries t) + lo < 2147483648"
  shows "\<exists>t'. table_extend ko lo kvs t = Some t' \<and> dict_inv ko t'
    \<and> items t' = foldl (\<lambda>xs (k, v). al_put (key_eq ko) k v xs) (items t) kvs"
proof -
  let ?n = "if entries t = [] then lo else (lo + 1) div 2"
  have "(lo + 1) div 2 \<le> lo" by linarith
  then have "?n \<le> lo" by simp
  then obtain t' where t': "reserve_slots ?n t = Some t'" "table_inv t'" "entries t' = entries t"
    using reserve_slots_ok [OF dict_invD(2) [OF assms(1)], of ?n] assms(3) by auto
  have "dict_inv ko t'" using assms(1) t'(2,3) by (simp add: dict_inv_def items_def)
  from insert_all_ok [OF this, of kvs] show ?thesis
    using assms(2) t' by (auto simp: table_extend_def items_def)
qed

theorem extend_is_fold_witness:
  "\<exists>t'. from_iter int_keys 3 [(1, ''a''), (2, ''b''), (1, ''c'')] = Some t' \<and> items t' = [(1, ''c''), (2, ''b'')]"
  using extend_is_fold [of int_keys table_new "[(1, ''a''), (2, ''b''), (1, ''c'')]" 3]
  by (auto simp: from_iter_def)

text \<open>
  The entry API: \<open>entry(key).or_insert(default)\<close> gives the position of the key, inserting
  it at the end with the default only when it is absent; a value already there stays.
\<close>

theorem or_insert_keeps:
  assumes "dict_inv ko t" "length (entries t) < 2147483647"
  shows "\<exists>i t'. get_or_insert ko k v t = Some (i, t') \<and> dict_inv ko t'
    \<and> al_index (key_eq ko) k (items t') = Some i
    \<and> items t' = (if al_get (key_eq ko) k (items t) = None then items t @ [(k, v)] else items t)"
proof -
  obtain r where r: "find_hashed (key_hash ko k) (key_eq ko k) t = Some r"
    "find_spec (key_hash ko k) (key_eq ko k) t r"
    "al_index (key_eq ko) k (items t) = (case r of Inl p \<Rightarrow> None | Inr i \<Rightarrow> Some i)"
    by (rule find_key_ok [OF assms(1)])
  show ?thesis
  proof (cases r)
    case (Inl p)
    obtain t' where t': "push_at p (key_hash ko k) k v t = Some (length (entries t), t')" "dict_inv ko t'"
      "items t' = items t @ [(k, v)]"
      using push_found_slot [OF assms, of k p] r(2) Inl by blast
    have "length (entries t') = length (entries t) + 1" using arg_cong [OF t'(3), of length] by simp
    then have "al_index (key_eq ko) k (items t') = Some (length (entries t))"
      using dict_invD(4) [OF assms(1)] t'(3)
      by (intro al_index_unique [OF _ dict_invD(3) [OF t'(2)]]) (simp_all add: nth_append equivp_reflp)
    then show ?thesis using r Inl t'
      by (simp add: get_or_insert_def entry_def or_insert_def vacant_insert_def al_get_index)
  next
    case (Inr i)
    then show ?thesis using r assms(1) by (simp add: get_or_insert_def entry_def or_insert_def al_get_index)
  qed
qed

theorem or_insert_keeps_witness:
  "\<exists>i t t'. items t = map (\<lambda>i. (word_of_nat i :: i64, i)) [0..<20]
    \<and> get_or_insert int_keys 50 9 t = Some (i, t') \<and> dict_inv int_keys t'"
proof -
  obtain t where t: "dict_inv int_keys t" "items t = map (\<lambda>i. (word_of_nat i :: i64, i)) [0..<20]"
    using big_dict by blast
  show ?thesis using or_insert_keeps [OF t(1), of 50 9] big_dict_length [OF t(2)] t(2) by auto
qed

end
