(* ===== verification/Dict_Bytes.thy ===== *)
theory Dict_Bytes
  imports Dict_Map
begin

text \<open>
  \<open>key_bytes_eq\<close>, the comparison of key strings by overlapping word loads
  (\<open>crates/weavepy-vm/src/dictmap.rs\<close>), is equality of the byte strings.
\<close>

lemma le_nat_less: "le_nat bs < 256 ^ length bs"
proof (induction bs)
  case (Cons b bs)
  have "byte b < 256" by (simp add: byte_def)
  then show ?case using Cons by simp
qed simp

lemma byte_inj: "byte a = byte b \<longleftrightarrow> a = b"
  by (metis byte_def char_of_char)

lemma le_nat_inj: "length as = length bs \<Longrightarrow> le_nat as = le_nat bs \<Longrightarrow> as = bs"
proof (induction as bs rule: list_induct2)
  case (Cons a as b bs)
  have ab: "byte a < 256" "byte b < 256" by (simp_all add: byte_def)
  have eq: "byte a + 256 * le_nat as = byte b + 256 * le_nat bs" using Cons(3) by simp
  have "byte a = byte b" using arg_cong [OF eq, of "\<lambda>n. n mod 256"] ab by simp
  then show ?case using eq Cons(2) by (simp add: byte_inj)
qed simp

lemma load_inj:
  assumes "length as = length bs" "8 * length as = LENGTH('l)"
    "(word_of_nat (le_nat as) :: 'l::len word) = word_of_nat (le_nat bs)"
  shows "as = bs"
proof -
  have "(256::nat) ^ length as = 2 ^ LENGTH('l)"
    using assms(2) power_mult [of "2::nat" 8 "length as"] by simp
  then have "le_nat as < 2 ^ LENGTH('l)" "le_nat bs < 2 ^ LENGTH('l)"
    using le_nat_less [of as] le_nat_less [of bs] assms(1) by simp_all
  then have "le_nat as = le_nat bs"
    using assms(3) by (simp add: word_of_nat_eq_iff take_bit_nat_eq_self)
  then show ?thesis by (rule le_nat_inj [OF assms(1)])
qed

lemma xor_or_zero: "(x XOR y) OR (v XOR w) = 0 \<longleftrightarrow> x = y \<and> v = (w :: 'l::len word)"
proof
  assume zero: "(x XOR y) OR (v XOR w) = 0"
  have "bit ((x XOR y) OR (v XOR w)) n = False" for n unfolding zero by simp
  then show "x = y \<and> v = w" by (auto simp: bit_eq_iff bit_simps)
qed simp

text \<open>Two loads that meet or overlap cover a string.\<close>

lemma slice_cover:
  assumes "length a = length b" "k \<le> length a" "length a \<le> 2 * k"
    "slice a 0 k = slice b 0 k" "slice a (length a - k) (length a - k + k) = slice b (length b - k) (length b - k + k)"
  shows "a = b"
proof (rule nth_equalityI)
  fix i
  assume i: "i < length a"
  show "a ! i = b ! i"
  proof (cases "i < k")
    case True
    have "take k a ! i = take k b ! i" using assms(4) by (simp add: slice_def)
    then show ?thesis using True by simp
  next
    case False
    have "drop (length a - k) a = drop (length a - k) b"
      using assms(1,2,5) by (simp add: slice_def)
    then have "drop (length a - k) a ! (i - (length a - k)) = drop (length a - k) b ! (i - (length a - k))" by simp
    then show ?thesis using False i assms(1-3) by simp
  qed
qed (rule assms(1))

lemma load_inj':
  fixes f :: "u8 list \<Rightarrow> usize \<Rightarrow> 'l::len word"
  assumes "\<And>bs p. f bs p = word_of_nat (le_nat (slice bs p (p + k)))" "8 * k = LENGTH('l)"
    "length a = length b" "k \<le> length a" "length a \<le> 2 * k"
  shows "((f a 0 XOR f b 0) OR (f a (length a - k) XOR f b (length a - k))) = 0 \<longleftrightarrow> a = b"
proof
  assume "((f a 0 XOR f b 0) OR (f a (length a - k) XOR f b (length a - k))) = 0"
  then have eq: "f a 0 = f b 0" "f a (length a - k) = f b (length a - k)" by (simp_all only: xor_or_zero)
  have len: "length (slice c p (p + k)) = k" if "p + k \<le> length c" for c :: "u8 list" and p
    using that by (simp add: slice_def)
  have "slice a 0 (0 + k) = slice b 0 (0 + k)"
    by (rule load_inj [where 'l = 'l]) (use eq(1) assms len [of 0 a] len [of 0 b] in simp_all)
  moreover have "slice a (length a - k) (length a - k + k) = slice b (length a - k) (length a - k + k)"
    by (rule load_inj [where 'l = 'l])
       (use eq(2) assms len [of "length a - k" a] len [of "length a - k" b] in simp_all)
  ultimately show "a = b" using slice_cover [OF assms(3-5)] assms(3) by simp
qed simp

lemma key_bytes_eq_eq: "key_bytes_eq a b = (a = b)"
proof (cases "length a = length b")
  case len: True
  consider "length a > 16" | "8 \<le> length a" "length a \<le> 16" | "4 \<le> length a" "length a < 8"
    | "2 \<le> length a" "length a < 4" | "length a = 1" | "length a = 0" by linarith
  then show ?thesis
  proof cases
    case 2
    then show ?thesis using load_inj' [of load64 8 a b, OF load64_def] len by (simp add: key_bytes_eq_def Let_def)
  next
    case 3
    then show ?thesis using load_inj' [of load32 4 a b, OF load32_def] len by (simp add: key_bytes_eq_def Let_def)
  next
    case 4
    then show ?thesis using load_inj' [of load16 2 a b, OF load16_def] len by (simp add: key_bytes_eq_def Let_def)
  next
    case 5
    then obtain x y where "a = [x]" "b = [y]" using len by (metis One_nat_def length_0_conv length_Suc_conv)
    then show ?thesis by (simp add: key_bytes_eq_def)
  qed (use len in \<open>auto simp: key_bytes_eq_def\<close>)
qed (auto simp: key_bytes_eq_def)

lemma key_bytes_eq_native_eq: "key_bytes_eq_native a b = Some (a = b)"
  by (auto simp: key_bytes_eq_native_def key_bytes_eq_eq)

text \<open>
  C29. The comparison of key strings by a few overlapping word loads is equality of the byte
  strings, at every length; so the native comparison of two strings never answers wrong.
\<close>

theorem key_bytes_eq_slices: "key_bytes_eq a b = (a = b) \<and> key_bytes_eq_native a b = Some (a = b)"
  by (simp add: key_bytes_eq_eq key_bytes_eq_native_eq)

end
