(* ===== verification/Dict_Keys.thy ===== *)
theory Dict_Keys
  imports Dict_Bytes Dict_Interp
begin

text \<open>
  The native probes of \<open>crates/weavepy-vm/src/dictmap.rs\<close>: which keys hash and compare without
  running Python code (\<open>StrEq\<close>, \<open>IntEq\<close>, \<open>TypeEq\<close>, \<open>find_object_native\<close>), and the unhashed
  comparison of a new string. An object is cut down to what these routines look at; what
  Python's own \<open>hash\<close> and \<open>==\<close> do, and the bytes of the string at an address, are the
  parameter \<open>P\<close>.
\<close>

section \<open>Objects and Python's hash and equality\<close>

text \<open>A string is its address and whether its hash has been computed, a class its address.\<close>

datatype 'o obj = PyStr nat bool | PyWStr 'o | PyInt i64 | PyType nat | PyOther 'o

record 'o py =
  py_hash :: "'o obj \<Rightarrow> i64"
  py_eq :: "'o obj \<Rightarrow> 'o obj \<Rightarrow> bool"
  py_bytes :: "nat \<Rightarrow> u8 list"
  py_str_hash :: "u8 list \<Rightarrow> i64"

section \<open>The native comparisons\<close>

definition str_eq :: "'o py \<Rightarrow> nat \<Rightarrow> 'o obj \<Rightarrow> bool option" where
  "str_eq P p stored = (case stored of
      PyStr q _ \<Rightarrow> if p = q then Some True else key_bytes_eq_native (py_bytes P p) (py_bytes P q)
    | _ \<Rightarrow> None)"

definition int_eq :: "i64 \<Rightarrow> 'o obj \<Rightarrow> bool option" where
  "int_eq i stored = (case stored of PyInt j \<Rightarrow> Some (j = i) | _ \<Rightarrow> None)"

definition type_eq :: "nat \<Rightarrow> 'o obj \<Rightarrow> bool option" where
  "type_eq p stored = (case stored of
      PyType q \<Rightarrow> if p = q then Some True else None | _ \<Rightarrow> None)"

text \<open>
  \<open>find_object_hashing\<close>'s choice: a \<open>str\<close> (whose hash is computed first and cached), or a
  machine \<open>int\<close> below the hash modulus.
\<close>

definition object_native :: "'o py \<Rightarrow> 'o obj \<Rightarrow> (i64 \<times> ('o obj \<Rightarrow> bool option)) option" where
  "object_native P k = (case k of
      PyStr p _ \<Rightarrow> Some (py_str_hash P (py_bytes P p), str_eq P p)
    | PyInt i \<Rightarrow> if i < 2305843009213693951 then Some (i, int_eq i) else None
    | _ \<Rightarrow> None)"

text \<open>\<open>probe_eq_unhashed\<close>: a string whose hash is not known compares with the stored strings.\<close>

definition object_unhashed :: "'o py \<Rightarrow> 'o obj \<Rightarrow> 'o obj \<Rightarrow> bool option" where
  "object_unhashed P k stored = (case k of
      PyStr p known \<Rightarrow> if known then None else (case stored of
          PyStr q _ \<Rightarrow> Some (py_bytes P p = py_bytes P q)
        | PyWStr _ \<Rightarrow> Some False
        | _ \<Rightarrow> None)
    | _ \<Rightarrow> None)"

definition object_keys :: "'o py \<Rightarrow> 'o obj key_ops" where
  "object_keys P = \<lparr>key_hash = py_hash P, key_eq = py_eq P,
     key_eq_unhashed = object_unhashed P, key_native = object_native P\<rparr>"

text \<open>\<open>find_type_native\<close>: \<open>h\<close> is the class's identity hash.\<close>

definition find_type_native :: "i64 \<Rightarrow> nat \<Rightarrow> ('o obj, 'v) table \<Rightarrow> (usize + usize) option option" where
  "find_type_native h p t = find_native h (type_eq p) t"

section \<open>The native probes agree with Python\<close>

text \<open>
  What Python promises of \<open>hash\<close> and \<open>==\<close> on keys: an equivalence that the hash respects,
  strings are equal by their bytes and never equal to a wide string, machine integers by
  value, and a string's and a small integer's hash are what the interpreter computes.
\<close>

definition python_laws :: "'o py \<Rightarrow> bool" where
  "python_laws P \<longleftrightarrow> equivp (py_eq P)
     \<and> (\<forall>x y. py_eq P x y \<longrightarrow> py_hash P x = py_hash P y)
     \<and> (\<forall>p k q l. py_eq P (PyStr p k) (PyStr q l) = (py_bytes P p = py_bytes P q))
     \<and> (\<forall>p k w. \<not> py_eq P (PyStr p k) (PyWStr w))
     \<and> (\<forall>i j. py_eq P (PyInt i) (PyInt j) = (i = j))
     \<and> (\<forall>p k. py_hash P (PyStr p k) = py_str_hash P (py_bytes P p))
     \<and> (\<forall>i. i < 2305843009213693951 \<longrightarrow> py_hash P (PyInt i) = i)"

lemma str_eq_agrees: "python_laws P \<Longrightarrow> str_eq P p y = Some b \<Longrightarrow> b = py_eq P (PyStr p k) y"
  by (auto simp: python_laws_def str_eq_def key_bytes_eq_native_eq split: obj.splits if_splits)

lemma int_eq_agrees: "python_laws P \<Longrightarrow> int_eq i y = Some b \<Longrightarrow> b = py_eq P (PyInt i) y"
  by (auto simp: python_laws_def int_eq_def split: obj.splits)

lemma unhashed_agrees: "python_laws P \<Longrightarrow> object_unhashed P k y = Some b \<Longrightarrow> b = py_eq P k y"
  by (auto simp: python_laws_def object_unhashed_def split: obj.splits if_splits)

text \<open>
  C27. With keys whose equality and hash are Python's, the native shortcuts (comparing a new
  string without hashing it, strings by address and then bytes, small integers by value) never
  contradict Python: the dict's table may rely on them.
\<close>

theorem native_probes_lawful:
  assumes "python_laws P"
  shows "lawful_keys (object_keys P)"
proof -
  have native: "h = py_hash P x \<and> (\<forall>y b. f y = Some b \<longrightarrow> b = py_eq P x y)"
    if "object_native P x = Some (h, f)" for x h f
  proof (cases x)
    case (PyStr p k)
    then have "h = py_hash P x" "f = str_eq P p"
      using that assms by (auto simp: object_native_def python_laws_def)
    then show ?thesis using str_eq_agrees [OF assms] PyStr by blast
  next
    case (PyInt i)
    then have "h = py_hash P x" "f = int_eq i"
      using that assms by (auto simp: object_native_def python_laws_def split: if_splits)
    then show ?thesis using int_eq_agrees [OF assms] PyInt by blast
  qed (use that in \<open>simp_all add: object_native_def\<close>)
  have "equivp (py_eq P)" "\<forall>x y. py_eq P x y \<longrightarrow> py_hash P x = py_hash P y"
    using assms unfolding python_laws_def by blast+
  then show ?thesis
    unfolding lawful_keys_def object_keys_def using unhashed_agrees [OF assms] native by simp
qed

text \<open>Strings at even addresses are \<open>a\<close>, at odd ones \<open>b\<close>.\<close>

definition demo_bytes :: "nat \<Rightarrow> u8 list" where
  "demo_bytes p = (if even p then ''a'' else ''b'')"

fun demo_value :: "unit obj \<Rightarrow> u8 list + unit obj" where
  "demo_value (PyStr p k) = Inl (demo_bytes p)"
| "demo_value x = Inr x"

definition demo_py :: "unit py" where
  "demo_py = \<lparr>py_hash = (\<lambda>x. case x of PyInt i \<Rightarrow> i | _ \<Rightarrow> 0),
     py_eq = (\<lambda>x y. demo_value x = demo_value y), py_bytes = demo_bytes, py_str_hash = (\<lambda>bs. 0)\<rparr>"

lemma demo_value_hash: "demo_value x = demo_value y \<Longrightarrow> py_hash demo_py x = py_hash demo_py y"
  by (cases x; cases y) (simp_all add: demo_py_def)

theorem native_probes_lawful_witness:
  "lawful_keys (object_keys demo_py) \<and> object_unhashed demo_py (PyStr 0 False) (PyStr 2 True) = Some True
    \<and> object_native demo_py (PyStr 0 True) \<noteq> None"
proof -
  have "python_laws demo_py"
    unfolding python_laws_def
  proof (intro conjI)
    show "equivp (py_eq demo_py)"
      by (rule equivpI) (auto simp: demo_py_def reflp_def symp_def transp_def)
    show "\<forall>x y. py_eq demo_py x y \<longrightarrow> py_hash demo_py x = py_hash demo_py y"
    proof (intro allI impI)
      fix x y
      assume "py_eq demo_py x y"
      then have "demo_value x = demo_value y" by (simp add: demo_py_def)
      then show "py_hash demo_py x = py_hash demo_py y" by (rule demo_value_hash)
    qed
  qed (simp_all add: demo_py_def)
  from native_probes_lawful [OF this] show ?thesis
    by (simp add: object_unhashed_def object_native_def demo_py_def demo_bytes_def)
qed

end
