(* ===== verification/Sort_Model.thy ===== *)
theory Sort_Model
  imports WP_Prelude "HOL-Library.Multiset"
begin

text \<open>
  The list sort: \<open>crates/weavepy-vm/src/timsort.rs\<close>, CPython's timsort with the powersort merge
  policy. The slice being sorted is a list, updated by the block moves the code makes
  (\<open>ptr::copy\<close> and friends). A comparison runs Python code: it has a state of its own and may
  fail, and nothing is assumed of its answers. Every routine is total: its loops are
  recursions on indices, whatever the comparator answers.
\<close>

section \<open>State\<close>

type_synonym ('a, 's, 'e) comparator = "'a \<Rightarrow> 'a \<Rightarrow> 's \<Rightarrow> ('e + bool) \<times> 's"

record run =
  run_base :: nat
  run_len :: nat
  run_power :: nat

text \<open>\<open>MergeState\<close>: the list, the comparator's state, the galloping threshold, the runs.\<close>

record ('a, 's) merge_state =
  ms_arr :: "'a list"
  ms_cmp :: 's
  ms_gallop :: nat
  ms_pending :: "run list"

definition MIN_GALLOP :: nat where
  "MIN_GALLOP = 7"

definition MAX_MINRUN :: nat where
  "MAX_MINRUN = 64"

definition less_than :: "('a, 's, 'e) comparator \<Rightarrow> 'a \<Rightarrow> 'a \<Rightarrow> ('a, 's) merge_state
     \<Rightarrow> ('e + bool) \<times> ('a, 's) merge_state" where
  "less_than lt a b m = (case lt a b (ms_cmp m) of (r, s) \<Rightarrow> (r, m\<lparr>ms_cmp := s\<rparr>))"

section \<open>Block moves\<close>

text \<open>\<open>ptr::copy(base + from, base + to, k)\<close> inside the list, and a block from elsewhere.\<close>

definition write_at :: "nat \<Rightarrow> 'a list \<Rightarrow> 'a list \<Rightarrow> 'a list" where
  "write_at i ys xs = take i xs @ ys @ drop (i + length ys) xs"

definition copy_within :: "nat \<Rightarrow> nat \<Rightarrow> nat \<Rightarrow> 'a list \<Rightarrow> 'a list" where
  "copy_within a b k xs = write_at b (slice xs a (a + k)) xs"

definition reverse_range :: "nat \<Rightarrow> nat \<Rightarrow> ('a, 's) merge_state \<Rightarrow> ('a, 's) merge_state" where
  "reverse_range lo n m = m\<lparr>ms_arr := write_at lo (rev (slice (ms_arr m) lo (lo + n))) (ms_arr m)\<rparr>"

section \<open>\<open>compute_minrun\<close> and \<open>powerloop\<close>\<close>

function minrun_loop :: "nat \<Rightarrow> nat \<Rightarrow> nat" where
  "minrun_loop r n = (if n \<ge> MAX_MINRUN then minrun_loop (r OR (n AND 1)) (n div 2) else n + r)"
  by pat_completeness auto
termination
  by (relation "measure snd") (auto simp: MAX_MINRUN_def)

declare minrun_loop.simps [simp del]

definition compute_minrun :: "nat \<Rightarrow> nat" where
  "compute_minrun n = minrun_loop 0 n"

partial_function (option) power_loop :: "nat \<Rightarrow> nat \<Rightarrow> nat \<Rightarrow> nat \<Rightarrow> nat option" where
  "power_loop result a b n =
     (let result = result + 1
      in if a \<ge> n then power_loop result (2 * (a - n)) (2 * (b - n)) n
         else if b \<ge> n then Some result
         else power_loop result (2 * a) (2 * b) n)"

definition powerloop :: "nat \<Rightarrow> nat \<Rightarrow> nat \<Rightarrow> nat \<Rightarrow> nat option" where
  "powerloop s1 n1 n2 n = (let a = 2 * s1 + n1; b = a + n1 + n2 in power_loop 0 a b n)"

section \<open>\<open>binarysort\<close>\<close>

text \<open>Where the pivot \<open>a[ok]\<close> belongs in \<open>a[..ok]\<close>; the list starts at \<open>lo\<close>.\<close>

function pivot_search :: "('a, 's, 'e) comparator \<Rightarrow> nat \<Rightarrow> nat \<Rightarrow> nat \<Rightarrow> nat \<Rightarrow> ('a, 's) merge_state
     \<Rightarrow> ('e + nat) \<times> ('a, 's) merge_state" where
  "pivot_search lt lo ok l r m =
     (if l < r then
        (let mid = (l + r) div 2
         in and_then (less_than lt (ms_arr m ! (lo + ok)) (ms_arr m ! (lo + mid)) m) (\<lambda>b m'.
              if b then pivot_search lt lo ok l mid m' else pivot_search lt lo ok (mid + 1) r m'))
      else (Inr l, m))"
  by pat_completeness auto
termination
  by (relation "measure (\<lambda>(lt, lo, ok, l, r, m). r - l)") auto

declare pivot_search.simps [simp del]

definition insert_pivot :: "nat \<Rightarrow> nat \<Rightarrow> nat \<Rightarrow> ('a, 's) merge_state \<Rightarrow> ('a, 's) merge_state" where
  "insert_pivot lo l ok m = (let xs = ms_arr m
     in m\<lparr>ms_arr := (copy_within (lo + l) (lo + l + 1) (ok - l) xs)[lo + l := xs ! (lo + ok)]\<rparr>)"

function binary_loop :: "('a, 's, 'e) comparator \<Rightarrow> nat \<Rightarrow> nat \<Rightarrow> nat \<Rightarrow> ('a, 's) merge_state
     \<Rightarrow> ('e + unit) \<times> ('a, 's) merge_state" where
  "binary_loop lt lo n ok m =
     (if ok < n then and_then (pivot_search lt lo ok 0 ok m) (\<lambda>l m'.
        binary_loop lt lo n (ok + 1) (insert_pivot lo l ok m'))
      else (Inr (), m))"
  by pat_completeness auto
termination
  by (relation "measure (\<lambda>(lt, lo, n, ok, m). n - ok)") auto

declare binary_loop.simps [simp del]

definition binarysort :: "('a, 's, 'e) comparator \<Rightarrow> nat \<Rightarrow> nat \<Rightarrow> nat \<Rightarrow> ('a, 's) merge_state
     \<Rightarrow> ('e + unit) \<times> ('a, 's) merge_state" where
  "binarysort lt lo n ok m = binary_loop lt lo n (max ok 1) m"

section \<open>\<open>count_run\<close>\<close>

definition next_smaller :: "('a, 's, 'e) comparator \<Rightarrow> nat \<Rightarrow> nat \<Rightarrow> ('a, 's) merge_state
     \<Rightarrow> ('e + bool) \<times> ('a, 's) merge_state" where
  "next_smaller lt lo n m = less_than lt (ms_arr m ! (lo + n)) (ms_arr m ! (lo + n - 1)) m"

definition next_larger :: "('a, 's, 'e) comparator \<Rightarrow> nat \<Rightarrow> nat \<Rightarrow> ('a, 's) merge_state
     \<Rightarrow> ('e + bool) \<times> ('a, 's) merge_state" where
  "next_larger lt lo n m = less_than lt (ms_arr m ! (lo + n - 1)) (ms_arr m ! (lo + n)) m"

function asc_run :: "('a, 's, 'e) comparator \<Rightarrow> nat \<Rightarrow> nat \<Rightarrow> nat \<Rightarrow> ('a, 's) merge_state
     \<Rightarrow> ('e + nat) \<times> ('a, 's) merge_state" where
  "asc_run lt lo avail n m =
     (if n < avail then and_then (next_smaller lt lo n m) (\<lambda>b m'.
        if b then (Inr n, m') else asc_run lt lo avail (n + 1) m')
      else (Inr n, m))"
  by pat_completeness auto
termination
  by (relation "measure (\<lambda>(lt, lo, avail, n, m). avail - n)") auto

declare asc_run.simps [simp del]

text \<open>The descending run: its length, and the length less one of the equal run at its end.\<close>

definition flip_equal :: "nat \<Rightarrow> nat \<Rightarrow> nat \<Rightarrow> ('a, 's) merge_state \<Rightarrow> ('a, 's) merge_state" where
  "flip_equal lo n neq m =
     (if neq > 0 then reverse_range (lo + n - (neq + 1)) (neq + 1) m else m)"

function desc_run :: "('a, 's, 'e) comparator \<Rightarrow> nat \<Rightarrow> nat \<Rightarrow> nat \<Rightarrow> nat \<Rightarrow> ('a, 's) merge_state
     \<Rightarrow> ('e + nat \<times> nat) \<times> ('a, 's) merge_state" where
  "desc_run lt lo avail n neq m =
     (if n < avail then and_then (next_smaller lt lo n m) (\<lambda>smaller m'.
        if smaller then desc_run lt lo avail (n + 1) 0 (flip_equal lo n neq m')
        else and_then (next_larger lt lo n m') (\<lambda>larger m''.
          if larger then (Inr (n, neq), m'') else desc_run lt lo avail (n + 1) (neq + 1) m''))
      else (Inr (n, neq), m))"
  by pat_completeness auto
termination
  by (relation "measure (\<lambda>(lt, lo, avail, n, neq, m). avail - n)") auto

declare desc_run.simps [simp del]

text \<open>Whether an ascending prefix of length \<open>n\<close> rose; an all-equal one is reversed.\<close>

definition prefix_rose :: "('a, 's, 'e) comparator \<Rightarrow> nat \<Rightarrow> nat \<Rightarrow> ('a, 's) merge_state
     \<Rightarrow> ('e + bool) \<times> ('a, 's) merge_state" where
  "prefix_rose lt lo n m =
     (if n > 1 then and_then (less_than lt (ms_arr m ! lo) (ms_arr m ! (lo + n - 1)) m) (\<lambda>b m'.
        if b then (Inr True, m') else (Inr False, reverse_range lo n m'))
      else (Inr False, m))"

definition count_run :: "('a, 's, 'e) comparator \<Rightarrow> nat \<Rightarrow> nat \<Rightarrow> ('a, 's) merge_state
     \<Rightarrow> ('e + nat) \<times> ('a, 's) merge_state" where
  "count_run lt lo avail m =
     and_then (asc_run lt lo avail 1 m) (\<lambda>n m1.
       if n = avail then (Inr n, m1)
       else and_then (prefix_rose lt lo n m1) (\<lambda>rose m2.
         if rose then (Inr n, m2)
         else and_then (desc_run lt lo avail (n + 1) 0 m2) (\<lambda>(n', neq) m3.
           asc_run lt lo avail n' (reverse_range lo n' (flip_equal lo n' neq m3)))))"

section \<open>Galloping\<close>

text \<open>
  \<open>gallop_left\<close> and \<open>gallop_right\<close> search for the end of the prefix on which a test holds:
  \<open>a[i] < key\<close> for the one, \<open>not key < a[i]\<close> for the other. Both are \<open>gallop\<close> for their test.
\<close>

type_synonym ('a, 's, 'e) probe_test = "nat \<Rightarrow> ('a, 's) merge_state \<Rightarrow> ('e + bool) \<times> ('a, 's) merge_state"

function gallop_up :: "('a, 's, 'e) probe_test \<Rightarrow> nat \<Rightarrow> nat \<Rightarrow> nat \<Rightarrow> nat \<Rightarrow> ('a, 's) merge_state
     \<Rightarrow> ('e + nat \<times> nat) \<times> ('a, 's) merge_state" where
  "gallop_up p hint maxofs lastofs ofs m =
     (if ofs < maxofs then and_then (p (hint + ofs) m) (\<lambda>b m'.
        if b then gallop_up p hint maxofs ofs (2 * ofs + 1) m' else (Inr (lastofs, ofs), m'))
      else (Inr (lastofs, ofs), m))"
  by pat_completeness auto
termination
  by (relation "measure (\<lambda>(p, hint, maxofs, lastofs, ofs, m). maxofs - ofs)") auto

function gallop_down :: "('a, 's, 'e) probe_test \<Rightarrow> nat \<Rightarrow> nat \<Rightarrow> nat \<Rightarrow> nat \<Rightarrow> ('a, 's) merge_state
     \<Rightarrow> ('e + nat \<times> nat) \<times> ('a, 's) merge_state" where
  "gallop_down p hint maxofs lastofs ofs m =
     (if ofs < maxofs then and_then (p (hint - ofs) m) (\<lambda>b m'.
        if b then (Inr (lastofs, ofs), m') else gallop_down p hint maxofs ofs (2 * ofs + 1) m')
      else (Inr (lastofs, ofs), m))"
  by pat_completeness auto
termination
  by (relation "measure (\<lambda>(p, hint, maxofs, lastofs, ofs, m). maxofs - ofs)") auto

function gallop_search :: "('a, 's, 'e) probe_test \<Rightarrow> nat \<Rightarrow> nat \<Rightarrow> ('a, 's) merge_state
     \<Rightarrow> ('e + nat) \<times> ('a, 's) merge_state" where
  "gallop_search p lastofs ofs m =
     (if lastofs < ofs then
        (let mid = lastofs + (ofs - lastofs) div 2
         in and_then (p mid m) (\<lambda>b m'.
              if b then gallop_search p (mid + 1) ofs m' else gallop_search p lastofs mid m'))
      else (Inr ofs, m))"
  by pat_completeness auto
termination
  by (relation "measure (\<lambda>(p, lastofs, ofs, m). ofs - lastofs)") auto

declare gallop_up.simps [simp del] gallop_down.simps [simp del] gallop_search.simps [simp del]

definition gallop :: "('a, 's, 'e) probe_test \<Rightarrow> nat \<Rightarrow> nat \<Rightarrow> ('a, 's) merge_state
     \<Rightarrow> ('e + nat) \<times> ('a, 's) merge_state" where
  "gallop p n hint m = and_then (p hint m) (\<lambda>b m1.
     if b then and_then (gallop_up p hint (n - hint) 0 1 m1) (\<lambda>(lastofs, ofs) m2.
       gallop_search p (lastofs + hint + 1) (min ofs (n - hint) + hint) m2)
     else and_then (gallop_down p hint (hint + 1) 0 1 m1) (\<lambda>(lastofs, ofs) m2.
       gallop_search p (hint + 1 - min ofs (hint + 1)) (hint - lastofs) m2))"

definition gallop_left :: "('a, 's, 'e) comparator \<Rightarrow> 'a \<Rightarrow> (nat \<Rightarrow> 'a) \<Rightarrow> nat \<Rightarrow> nat
     \<Rightarrow> ('a, 's) merge_state \<Rightarrow> ('e + nat) \<times> ('a, 's) merge_state" where
  "gallop_left lt key at n hint m = gallop (\<lambda>i. less_than lt (at i) key) n hint m"

definition gallop_right :: "('a, 's, 'e) comparator \<Rightarrow> 'a \<Rightarrow> (nat \<Rightarrow> 'a) \<Rightarrow> nat \<Rightarrow> nat
     \<Rightarrow> ('a, 's) merge_state \<Rightarrow> ('e + nat) \<times> ('a, 's) merge_state" where
  "gallop_right lt key at n hint m =
     gallop (\<lambda>i m. and_then (less_than lt key (at i) m) (\<lambda>b m'. (Inr (\<not> b), m'))) n hint m"

end
