(* ===== verification/Sort_Gallop.thy ===== *)
theory Sort_Gallop
  imports Sort_Model
begin

text \<open>
  What a comparison may change, and what the galloping search finds: with any comparator an
  index within bounds, with a test that holds on a prefix the end of that prefix.
\<close>

section \<open>Outcomes\<close>

text \<open>\<open>E\<close> holds of the state when an error was returned, \<open>Q\<close> of the value and the state else.\<close>

definition outcome :: "('x \<Rightarrow> bool) \<Rightarrow> ('v \<Rightarrow> 'x \<Rightarrow> bool) \<Rightarrow> ('e + 'v) \<times> 'x \<Rightarrow> bool" where
  "outcome E Q r = (case r of (Inl e, Y) \<Rightarrow> E Y | (Inr v, Y) \<Rightarrow> Q v Y)"

lemma outcome_simps [simp]:
  "outcome E Q (Inl e, Y) = E Y" "outcome E Q (Inr v, Y) = Q v Y"
  by (simp_all add: outcome_def)

lemma outcome_and_then:
  assumes "outcome E P r" "\<And>v Y. r = (Inr v, Y) \<Longrightarrow> P v Y \<Longrightarrow> outcome E Q (k v Y)"
  shows "outcome E Q (and_then r k)"
  using assms by (cases r; cases "fst r") auto

lemma outcome_weaken:
  assumes "outcome E P r" "\<And>Y. E Y \<Longrightarrow> E' Y" "\<And>v Y. P v Y \<Longrightarrow> Q v Y"
  shows "outcome E' Q r"
  using assms by (cases r; cases "fst r") auto

text \<open>Only the comparator's own state changed.\<close>

definition cmp_only :: "('a, 's) merge_state \<Rightarrow> ('a, 's) merge_state \<Rightarrow> bool" where
  "cmp_only m m' \<longleftrightarrow> m' = m\<lparr>ms_cmp := ms_cmp m'\<rparr>"

lemma cmp_only_refl [simp]: "cmp_only m m"
  by (simp add: cmp_only_def)

lemma cmp_only_fields:
  "cmp_only m m' \<Longrightarrow> ms_arr m' = ms_arr m \<and> ms_gallop m' = ms_gallop m \<and> ms_pending m' = ms_pending m"
  by (cases m; cases m') (simp add: cmp_only_def)

lemma cmp_only_iff:
  "cmp_only m m' \<longleftrightarrow> ms_arr m' = ms_arr m \<and> ms_gallop m' = ms_gallop m \<and> ms_pending m' = ms_pending m"
  by (cases m; cases m') (auto simp: cmp_only_def)

lemma cmp_only_trans: "cmp_only m m' \<Longrightarrow> cmp_only m' m'' \<Longrightarrow> cmp_only m m''"
  by (simp add: cmp_only_iff)

text \<open>
  The comparator answers by the relation \<open>r\<close> whenever \<open>C\<close> holds. With \<open>C\<close> false nothing is
  said of it, so that one proof serves the consistent and the arbitrary comparator.
\<close>

definition answers :: "('a, 's, 'e) comparator \<Rightarrow> bool \<Rightarrow> ('a \<Rightarrow> 'a \<Rightarrow> bool) \<Rightarrow> bool" where
  "answers lt C r \<longleftrightarrow> (\<forall>a b s v s'. C \<longrightarrow> lt a b s = (Inr v, s') \<longrightarrow> v = r a b)"

lemma answersD: "answers lt C r \<Longrightarrow> C \<Longrightarrow> lt a b s = (Inr v, s') \<Longrightarrow> v = r a b"
  unfolding answers_def by blast

lemma less_than_outcome:
  assumes "answers lt C r"
  shows "outcome (cmp_only m) (\<lambda>v m'. cmp_only m m' \<and> (C \<longrightarrow> v = r a b)) (less_than lt a b m)"
proof (cases "lt a b (ms_cmp m)")
  case (Pair res s')
  then show ?thesis using answersD [OF assms] by (cases res) (auto simp: less_than_def cmp_only_iff)
qed

section \<open>The galloping search\<close>

definition tells :: "('a, 's, 'e) probe_test \<Rightarrow> bool \<Rightarrow> (nat \<Rightarrow> bool) \<Rightarrow> nat \<Rightarrow> bool" where
  "tells p C P n \<longleftrightarrow> (\<forall>i m. i < n \<longrightarrow> outcome (cmp_only m) (\<lambda>v m'. cmp_only m m' \<and> (C \<longrightarrow> v = P i)) (p i m))"

lemma tellsD:
  assumes "tells p C P n" "i < n" "cmp_only m0 m"
  shows "outcome (cmp_only m0) (\<lambda>v m'. cmp_only m0 m' \<and> (C \<longrightarrow> v = P i)) (p i m)"
proof (rule outcome_weaken)
  show "outcome (cmp_only m) (\<lambda>v m'. cmp_only m m' \<and> (C \<longrightarrow> v = P i)) (p i m)"
    using assms by (simp add: tells_def)
qed (auto intro: cmp_only_trans [OF assms(3)])

lemma gallop_up_outcome:
  assumes p: "tells p C P n" and "hint < n" "cmp_only m0 m" "lastofs < ofs" "lastofs < n - hint"
    "C \<longrightarrow> P (hint + lastofs)"
  shows "outcome (cmp_only m0) (\<lambda>(l, u) m'. cmp_only m0 m' \<and> l < u \<and> l < n - hint
      \<and> (C \<longrightarrow> P (hint + l) \<and> (u < n - hint \<longrightarrow> \<not> P (hint + u))))
    (gallop_up p hint (n - hint) lastofs ofs m)"
  using assms(3-)
proof (induction "n - hint - ofs" arbitrary: lastofs ofs m rule: less_induct)
  case less
  show ?case
  proof (cases "ofs < n - hint")
    case True
    have "outcome (cmp_only m0) (\<lambda>v m'. cmp_only m0 m' \<and> (C \<longrightarrow> v = P (hint + ofs))) (p (hint + ofs) m)"
      using True by (intro tellsD [OF p] less(2)) simp
    then show ?thesis
      unfolding gallop_up.simps [of p hint "n - hint" lastofs ofs m] if_P [OF True]
      by (rule outcome_and_then) (use True less in auto)
  next
    case False
    then show ?thesis
      unfolding gallop_up.simps [of p hint "n - hint" lastofs ofs m] if_not_P [OF False] using less by simp
  qed
qed

lemma gallop_down_outcome:
  assumes p: "tells p C P n" and "hint < n" "cmp_only m0 m" "lastofs < ofs" "lastofs \<le> hint"
    "C \<longrightarrow> \<not> P (hint - lastofs)"
  shows "outcome (cmp_only m0) (\<lambda>(l, u) m'. cmp_only m0 m' \<and> l < u \<and> l \<le> hint
      \<and> (C \<longrightarrow> \<not> P (hint - l) \<and> (u \<le> hint \<longrightarrow> P (hint - u))))
    (gallop_down p hint (hint + 1) lastofs ofs m)"
  using assms(3-)
proof (induction "hint + 1 - ofs" arbitrary: lastofs ofs m rule: less_induct)
  case less
  show ?case
  proof (cases "ofs < hint + 1")
    case True
    have "outcome (cmp_only m0) (\<lambda>v m'. cmp_only m0 m' \<and> (C \<longrightarrow> v = P (hint - ofs))) (p (hint - ofs) m)"
      using \<open>hint < n\<close> by (intro tellsD [OF p] less(2)) simp
    then show ?thesis
      unfolding gallop_down.simps [of p hint "hint + 1" lastofs ofs m] if_P [OF True]
      by (rule outcome_and_then) (use True less in auto)
  next
    case False
    then show ?thesis
      unfolding gallop_down.simps [of p hint "hint + 1" lastofs ofs m] if_not_P [OF False] using less by simp
  qed
qed

text \<open>\<open>k\<close> is where the prefix of \<open>P\<close> ends.\<close>

definition ends_at :: "(nat \<Rightarrow> bool) \<Rightarrow> nat \<Rightarrow> nat \<Rightarrow> bool" where
  "ends_at P n k \<longleftrightarrow> (\<forall>i<k. P i) \<and> (\<forall>i. k \<le> i \<longrightarrow> i < n \<longrightarrow> \<not> P i)"

definition prefix_test :: "(nat \<Rightarrow> bool) \<Rightarrow> nat \<Rightarrow> bool" where
  "prefix_test P n \<longleftrightarrow> (\<forall>i j. i \<le> j \<longrightarrow> j < n \<longrightarrow> P j \<longrightarrow> P i)"

lemma gallop_search_outcome:
  assumes p: "tells p C P n" and mono: "C \<Longrightarrow> prefix_test P n" and "u \<le> n" "cmp_only m0 m" "l \<le> u"
    "C \<longrightarrow> (\<forall>i<l. P i) \<and> (\<forall>i. u \<le> i \<longrightarrow> i < n \<longrightarrow> \<not> P i)"
  shows "outcome (cmp_only m0) (\<lambda>k m'. cmp_only m0 m' \<and> k \<le> n \<and> (C \<longrightarrow> ends_at P n k)) (gallop_search p l u m)"
  using assms(3-)
proof (induction "u - l" arbitrary: l u m rule: less_induct)
  case less
  show ?case
  proof (cases "l < u")
    case True
    let ?mid = "l + (u - l) div 2"
    have mid: "l \<le> ?mid" "?mid < u" using True by (linarith, (simp add: less_diff_conv2))
    have "outcome (cmp_only m0) (\<lambda>v m'. cmp_only m0 m' \<and> (C \<longrightarrow> v = P ?mid)) (p ?mid m)"
      using mid less(2) by (intro tellsD [OF p] less(3)) simp
    then show ?thesis
      unfolding gallop_search.simps [of p l u m] if_P [OF True] Let_def
    proof (rule outcome_and_then)
      fix v Y
      assume post: "cmp_only m0 Y \<and> (C \<longrightarrow> v = P ?mid)"
      show "outcome (cmp_only m0) (\<lambda>k m'. cmp_only m0 m' \<and> k \<le> n \<and> (C \<longrightarrow> ends_at P n k))
        (if v then gallop_search p (?mid + 1) u Y else gallop_search p l ?mid Y)"
      proof (cases v)
        case True
        have "\<forall>i<?mid + 1. P i" if C
        proof (intro allI impI)
          fix i assume "i < ?mid + 1"
          then show "P i" using mono [OF that] mid less(2) post True that
            unfolding prefix_test_def by (metis Suc_eq_plus1 less_Suc_eq_le order.strict_trans2)
        qed
        then show ?thesis using True mid less post by auto
      next
        case False
        have "\<forall>i. ?mid \<le> i \<longrightarrow> i < n \<longrightarrow> \<not> P i" if C
          using mono [OF that] post False that unfolding prefix_test_def by blast
        then show ?thesis using False mid less post by auto
      qed
    qed
  next
    case False
    then show ?thesis
      unfolding gallop_search.simps [of p l u m] if_not_P [OF False] using less by (simp add: ends_at_def)
  qed
qed

lemma gallop_outcome:
  assumes p: "tells p C P n" and mono: "C \<Longrightarrow> prefix_test P n" and hint: "hint < n"
  shows "outcome (cmp_only m) (\<lambda>k m'. cmp_only m m' \<and> k \<le> n \<and> (C \<longrightarrow> ends_at P n k)) (gallop p n hint m)"
  unfolding gallop_def
proof (rule outcome_and_then [OF tellsD [OF p hint cmp_only_refl]])
  fix v m1
  assume post: "cmp_only m m1 \<and> (C \<longrightarrow> v = P hint)"
  have below: "\<forall>i<Suc j. P i" if "C" "j < n" "P j" for j
    using mono [OF that(1)] that unfolding prefix_test_def by (metis less_Suc_eq_le)
  have above: "\<forall>i. j \<le> i \<longrightarrow> i < n \<longrightarrow> \<not> P i" if "C" "\<not> P j" for j
    using mono [OF that(1)] that unfolding prefix_test_def by blast
  let ?Q = "\<lambda>k m'. cmp_only m m' \<and> k \<le> n \<and> (C \<longrightarrow> ends_at P n k)"
  have search_up: "outcome (cmp_only m) ?Q (gallop_search p (l + hint + 1) (min u (n - hint) + hint) m2)"
    if "cmp_only m m2" "l < u" "l < n - hint" "C \<longrightarrow> P (hint + l) \<and> (u < n - hint \<longrightarrow> \<not> P (hint + u))" for l u m2
  proof (rule gallop_search_outcome [OF p mono])
    show "C \<longrightarrow> (\<forall>i<l + hint + 1. P i) \<and> (\<forall>i. min u (n - hint) + hint \<le> i \<longrightarrow> i < n \<longrightarrow> \<not> P i)"
    proof (intro impI conjI)
      assume C
      show "\<forall>i<l + hint + 1. P i" using below [of "hint + l"] that \<open>C\<close> by (simp add: add.commute)
      show "\<forall>i. min u (n - hint) + hint \<le> i \<longrightarrow> i < n \<longrightarrow> \<not> P i"
        using above [of "hint + u"] that \<open>C\<close> by (cases "u < n - hint") (simp_all add: add.commute min_def)
    qed
  qed (use that hint in auto)
  have search_down: "outcome (cmp_only m) ?Q (gallop_search p (hint + 1 - min u (hint + 1)) (hint - l) m2)"
    if "cmp_only m m2" "l < u" "l \<le> hint" "C \<longrightarrow> \<not> P (hint - l) \<and> (u \<le> hint \<longrightarrow> P (hint - u))" for l u m2
  proof (rule gallop_search_outcome [OF p mono])
    show "C \<longrightarrow> (\<forall>i<hint + 1 - min u (hint + 1). P i) \<and> (\<forall>i. hint - l \<le> i \<longrightarrow> i < n \<longrightarrow> \<not> P i)"
    proof (intro impI conjI)
      assume C
      show "\<forall>i<hint + 1 - min u (hint + 1). P i"
        using below [of "hint - u"] that hint \<open>C\<close> by (cases "u \<le> hint") (simp_all add: Suc_diff_le)
      show "\<forall>i. hint - l \<le> i \<longrightarrow> i < n \<longrightarrow> \<not> P i" using above [of "hint - l"] that \<open>C\<close> by simp
    qed
  qed (use that hint in auto)
  show "outcome (cmp_only m) ?Q
    (if v then and_then (gallop_up p hint (n - hint) 0 1 m1) (\<lambda>(lastofs, ofs) m2.
       gallop_search p (lastofs + hint + 1) (min ofs (n - hint) + hint) m2)
     else and_then (gallop_down p hint (hint + 1) 0 1 m1) (\<lambda>(lastofs, ofs) m2.
       gallop_search p (hint + 1 - min ofs (hint + 1)) (hint - lastofs) m2))"
  proof (cases v)
    case True
    have "outcome (cmp_only m) (\<lambda>(l, u) m'. cmp_only m m' \<and> l < u \<and> l < n - hint
      \<and> (C \<longrightarrow> P (hint + l) \<and> (u < n - hint \<longrightarrow> \<not> P (hint + u)))) (gallop_up p hint (n - hint) 0 1 m1)"
      using hint post True by (intro gallop_up_outcome [OF p]) auto
    then show ?thesis unfolding if_P [OF True]
    proof (rule outcome_and_then, goal_cases)
      case (1 lu m2)
      obtain l u where lu: "lu = (l, u)" by (cases lu)
      show ?case using 1(2) unfolding lu prod.case by (elim conjE) (rule search_up)
    qed
  next
    case False
    have "outcome (cmp_only m) (\<lambda>(l, u) m'. cmp_only m m' \<and> l < u \<and> l \<le> hint
      \<and> (C \<longrightarrow> \<not> P (hint - l) \<and> (u \<le> hint \<longrightarrow> P (hint - u)))) (gallop_down p hint (hint + 1) 0 1 m1)"
      using hint post False by (intro gallop_down_outcome [OF p]) auto
    then show ?thesis unfolding if_not_P [OF False]
    proof (rule outcome_and_then, goal_cases)
      case (1 lu m2)
      obtain l u where lu: "lu = (l, u)" by (cases lu)
      show ?case using 1(2) unfolding lu prod.case by (elim conjE) (rule search_down)
    qed
  qed
qed

text \<open>\<open>at\<close> is sorted: its elements come in the order \<open>r\<close> allows.\<close>

definition sorted_at :: "('a \<Rightarrow> 'a \<Rightarrow> bool) \<Rightarrow> (nat \<Rightarrow> 'a) \<Rightarrow> nat \<Rightarrow> bool" where
  "sorted_at r el n \<longleftrightarrow> (\<forall>i j. i < j \<longrightarrow> j < n \<longrightarrow> \<not> r (el j) (el i))"

text \<open>Strict weak orders: what a consistent \<open><\<close> is.\<close>

definition strict_weak :: "('a \<Rightarrow> 'a \<Rightarrow> bool) \<Rightarrow> bool" where
  "strict_weak r \<longleftrightarrow> (\<forall>a. \<not> r a a) \<and> (\<forall>a b. r a b \<longrightarrow> \<not> r b a) \<and> (\<forall>a b c. \<not> r a b \<longrightarrow> \<not> r b c \<longrightarrow> \<not> r a c)"

lemma strict_weakD:
  assumes "strict_weak r"
  shows "\<not> r a a" "r a b \<Longrightarrow> \<not> r b a" "\<not> r a b \<Longrightarrow> \<not> r b c \<Longrightarrow> \<not> r a c"
    "r a b \<Longrightarrow> \<not> r c b \<Longrightarrow> r a c" "\<not> r b a \<Longrightarrow> r b c \<Longrightarrow> r a c" "r a b \<Longrightarrow> r b c \<Longrightarrow> r a c"
  using assms unfolding strict_weak_def by blast+

lemma gallop_left_outcome:
  assumes "answers lt C r" "C \<Longrightarrow> strict_weak r" "C \<Longrightarrow> sorted_at r el n" "hint < n"
  shows "outcome (cmp_only m) (\<lambda>k m'. cmp_only m m' \<and> k \<le> n \<and> (C \<longrightarrow> ends_at (\<lambda>i. r (el i) key) n k))
    (gallop_left lt key el n hint m)"
  unfolding gallop_left_def
proof (rule gallop_outcome [OF _ _ assms(4)])
  show "tells (\<lambda>i. less_than lt (el i) key) C (\<lambda>i. r (el i) key) n"
    by (simp add: tells_def less_than_outcome [OF assms(1)])
  show "prefix_test (\<lambda>i. r (el i) key) n" if C
    using assms(3) [OF that] strict_weakD [OF assms(2) [OF that]]
    unfolding prefix_test_def sorted_at_def by (metis le_eq_less_or_eq)
qed

lemma gallop_right_outcome:
  assumes "answers lt C r" "C \<Longrightarrow> strict_weak r" "C \<Longrightarrow> sorted_at r el n" "hint < n"
  shows "outcome (cmp_only m) (\<lambda>k m'. cmp_only m m' \<and> k \<le> n \<and> (C \<longrightarrow> ends_at (\<lambda>i. \<not> r key (el i)) n k))
    (gallop_right lt key el n hint m)"
  unfolding gallop_right_def
proof (rule gallop_outcome [OF _ _ assms(4)])
  show "tells (\<lambda>i m. and_then (less_than lt key (el i) m) (\<lambda>b m'. (Inr (\<not> b), m'))) C (\<lambda>i. \<not> r key (el i)) n"
    unfolding tells_def by (intro allI impI outcome_and_then [OF less_than_outcome [OF assms(1)]]) simp
  show "prefix_test (\<lambda>i. \<not> r key (el i)) n" if C
    using assms(3) [OF that] strict_weakD [OF assms(2) [OF that]]
    unfolding prefix_test_def sorted_at_def by (metis le_eq_less_or_eq)
qed

end
