(* ===== verification/Sort_Merge.thy ===== *)
theory Sort_Merge
  imports Sort_Gallop
begin

text \<open>
  The two merges of \<open>crates/weavepy-vm/src/timsort.rs\<close>. A merge parks one run in scratch
  space; the \<open>Hole\<close> says which of the parked elements are left and where they belong, and
  moves them there when the merge is left, by a return or by a failed comparison.
\<close>

section \<open>\<open>merge_lo\<close>\<close>

text \<open>
  The first run is parked: \<open>lo_len\<close> elements of the scratch list from \<open>lo_src\<close> belong at
  \<open>lo_dest\<close>; \<open>lo_nb\<close> elements of the second run are left, from \<open>lo_b\<close>.
\<close>

record 'a lo_hole =
  lo_tmp :: "'a list"
  lo_src :: nat
  lo_dest :: nat
  lo_len :: nat
  lo_b :: nat
  lo_nb :: nat

type_synonym ('a, 's) lo_state = "'a lo_hole \<times> ('a, 's) merge_state"

fun lo_take_b :: "nat \<Rightarrow> ('a, 's) lo_state \<Rightarrow> ('a, 's) lo_state" where
  "lo_take_b k (L, m) =
     (L\<lparr>lo_dest := lo_dest L + k, lo_b := lo_b L + k, lo_nb := lo_nb L - k\<rparr>,
      m\<lparr>ms_arr := copy_within (lo_b L) (lo_dest L) k (ms_arr m)\<rparr>)"

fun lo_take_a :: "nat \<Rightarrow> ('a, 's) lo_state \<Rightarrow> ('a, 's) lo_state" where
  "lo_take_a k (L, m) =
     (L\<lparr>lo_src := lo_src L + k, lo_dest := lo_dest L + k, lo_len := lo_len L - k\<rparr>,
      m\<lparr>ms_arr := write_at (lo_dest L) (slice (lo_tmp L) (lo_src L) (lo_src L + k)) (ms_arr m)\<rparr>)"

fun lo_drop :: "('a, 's) lo_state \<Rightarrow> ('a, 's) merge_state" where
  "lo_drop (L, m) = m\<lparr>ms_arr := write_at (lo_dest L)
     (slice (lo_tmp L) (lo_src L) (lo_src L + lo_len L)) (ms_arr m)\<rparr>"

text \<open>An operation on the merge state, beside a hole.\<close>

definition beside :: "'h \<Rightarrow> ('e + 'b) \<times> ('a, 's) merge_state \<Rightarrow> ('e + 'b) \<times> ('h \<times> ('a, 's) merge_state)" where
  "beside h r = (fst r, (h, snd r))"

definition lo_b_wins :: "('a, 's, 'e) comparator \<Rightarrow> ('a, 's) lo_state \<Rightarrow> ('e + bool) \<times> ('a, 's) lo_state" where
  "lo_b_wins lt X = (case X of (L, m) \<Rightarrow>
     beside L (less_than lt (ms_arr m ! lo_b L) (lo_tmp L ! lo_src L) m))"

definition lo_finish :: "('a, 's) lo_state \<Rightarrow> ('e + bool) \<times> ('a, 's) lo_state" where
  "lo_finish X = (Inr True, lo_take_b (lo_nb (fst X)) X)"

text \<open>
  One element at a time until one run wins \<open>g\<close> times in a row. A loop returns \<open>True\<close> when the
  merge is over, \<open>False\<close> when the loop was left by \<open>break\<close>.
\<close>

function lo_pairs :: "('a, 's, 'e) comparator \<Rightarrow> nat \<Rightarrow> nat \<Rightarrow> nat \<Rightarrow> ('a, 's) lo_state
     \<Rightarrow> ('e + bool) \<times> ('a, 's) lo_state" where
  "lo_pairs lt g acount bcount X = and_then (lo_b_wins lt X) (\<lambda>b X1.
     if b then
       (let X2 = lo_take_b 1 X1
        in if lo_nb (fst X2) = 0 then (Inr True, X2)
           else if bcount + 1 \<ge> g then (Inr False, X2)
           else lo_pairs lt g 0 (bcount + 1) X2)
     else
       (let X2 = lo_take_a 1 X1
        in if lo_len (fst X2) = 1 then lo_finish X2
           else if acount + 1 \<ge> g then (Inr False, X2)
           else lo_pairs lt g (acount + 1) 0 X2))"
  by pat_completeness auto
termination
  by (relation "measures [\<lambda>(lt, g, a, b, X). lo_len (fst X) + lo_nb (fst X), \<lambda>(lt, g, a, b, X). g - a]")
     (auto simp: lo_b_wins_def beside_def split: prod.splits)

declare lo_pairs.simps [simp del]

definition set_gallop :: "nat \<Rightarrow> 'h \<times> ('a, 's) merge_state \<Rightarrow> 'h \<times> ('a, 's) merge_state" where
  "set_gallop g X = (fst X, (snd X)\<lparr>ms_gallop := g\<rparr>)"

definition lo_gallop_a :: "('a, 's, 'e) comparator \<Rightarrow> ('a, 's) lo_state \<Rightarrow> ('e + nat) \<times> ('a, 's) lo_state" where
  "lo_gallop_a lt X = (case X of (L, m) \<Rightarrow>
     beside L (gallop_right lt (ms_arr m ! lo_b L) (\<lambda>i. lo_tmp L ! (lo_src L + i)) (lo_len L) 0 m))"

definition lo_gallop_b :: "('a, 's, 'e) comparator \<Rightarrow> ('a, 's) lo_state \<Rightarrow> ('e + nat) \<times> ('a, 's) lo_state" where
  "lo_gallop_b lt X = (case X of (L, m) \<Rightarrow>
     beside L (gallop_left lt (lo_tmp L ! lo_src L) (\<lambda>i. ms_arr m ! (lo_b L + i)) (lo_nb L) 0 m))"

text \<open>
  A round of galloping: a block of the first run and one element of the second, then a block
  of the second run and one element of the first. It may end the merge, leave the galloping
  mode, or go on.
\<close>

datatype gallop_exit = Merged | Leave | Again

definition lo_second :: "('a, 's, 'e) comparator \<Rightarrow> nat \<Rightarrow> ('a, 's) lo_state
     \<Rightarrow> ('e + gallop_exit) \<times> ('a, 's) lo_state" where
  "lo_second lt acount X = and_then (lo_gallop_b lt X) (\<lambda>bcount X1.
     let X2 = (if bcount > 0 then lo_take_b bcount X1 else X1)
     in if bcount > 0 \<and> lo_nb (fst X2) = 0 then (Inr Merged, X2)
        else (let X3 = lo_take_a 1 X2
              in if lo_len (fst X3) = 1 then (Inr Merged, lo_take_b (lo_nb (fst X3)) X3)
                 else (Inr (if acount < MIN_GALLOP \<and> bcount < MIN_GALLOP then Leave else Again), X3)))"

definition lo_round :: "('a, 's, 'e) comparator \<Rightarrow> ('a, 's) lo_state
     \<Rightarrow> ('e + gallop_exit) \<times> ('a, 's) lo_state" where
  "lo_round lt X = and_then (lo_gallop_a lt X) (\<lambda>acount X1.
     let X2 = (if acount > 0 then lo_take_a acount X1 else X1)
     in if acount > 0 \<and> lo_len (fst X2) = 1 then (Inr Merged, lo_take_b (lo_nb (fst X2)) X2)
        else if acount > 0 \<and> lo_len (fst X2) = 0 then (Inr Merged, X2)
        else (let X3 = lo_take_b 1 X2
              in if lo_nb (fst X3) = 0 then (Inr Merged, X3) else lo_second lt acount X3))"

lemma lo_take_nb [simp]:
  "lo_nb (fst (lo_take_b k X)) = lo_nb (fst X) - k" "lo_nb (fst (lo_take_a k X)) = lo_nb (fst X)"
  by (cases X; simp)+

lemma lo_gallop_fst:
  "lo_gallop_a lt X = (r, Y) \<Longrightarrow> fst Y = fst X" "lo_gallop_b lt X = (r, Y) \<Longrightarrow> fst Y = fst X"
  by (auto simp: lo_gallop_a_def lo_gallop_b_def beside_def split: prod.splits)

lemma lo_round_decreases:
  assumes "lo_round lt X = (Inr g, Y)" "g \<noteq> Merged"
  shows "lo_nb (fst Y) < lo_nb (fst X)"
  using assms
  by (auto simp: lo_round_def lo_second_def and_then_Inr_iff Let_def split: if_splits dest!: lo_gallop_fst)

text \<open>Galloping; the threshold reached, with \<open>True\<close> when the merge is over.\<close>

function lo_gallops :: "('a, 's, 'e) comparator \<Rightarrow> nat \<Rightarrow> ('a, 's) lo_state
     \<Rightarrow> ('e + bool \<times> nat) \<times> ('a, 's) lo_state" where
  "lo_gallops lt g X =
     (let g = g - (if g > 1 then 1 else 0)
      in and_then (lo_round lt (set_gallop g X)) (\<lambda>out X1. case out of
           Merged \<Rightarrow> (Inr (True, g), X1)
         | Leave \<Rightarrow> (Inr (False, g), X1)
         | Again \<Rightarrow> lo_gallops lt g X1))"
  by pat_completeness auto
termination
  by (relation "measure (\<lambda>(lt, g, X). lo_nb (fst X))")
     (auto simp: set_gallop_def dest: lo_round_decreases)

declare lo_gallops.simps [simp del]

text \<open>
  Rules for the loops: \<open>I\<close> holds whenever a loop is entered or left by \<open>break\<close>, \<open>F\<close> when the
  merge is over, \<open>E\<close> when a comparison failed.
\<close>

lemma lo_pairs_rule:
  assumes "\<And>X. I X \<Longrightarrow> outcome E (\<lambda>b. if b then B else A) (lo_b_wins lt X)"
    and "\<And>X. B X \<Longrightarrow> (if lo_nb (fst (lo_take_b 1 X)) = 0 then F else I) (lo_take_b 1 X)"
    and "\<And>X. A X \<Longrightarrow> if lo_len (fst (lo_take_a 1 X)) = 1
      then F (lo_take_b (lo_nb (fst (lo_take_a 1 X))) (lo_take_a 1 X)) else I (lo_take_a 1 X)"
    and "I X"
  shows "outcome E (\<lambda>fin. if fin then F else I) (lo_pairs lt g acount bcount X)"
  using assms(4)
proof (induction lt \<equiv> lt g acount bcount X rule: lo_pairs.induct)
  case (1 g acount bcount X)
  show ?case
    unfolding lo_pairs.simps [of lt g acount bcount X]
  proof (rule outcome_and_then [OF assms(1) [OF 1(3)]])
    fix b Y
    assume run: "lo_b_wins lt X = (Inr b, Y)" and post: "(if b then B else A) Y"
    show "outcome E (\<lambda>fin. if fin then F else I)
      (if b then let X2 = lo_take_b 1 Y
         in if lo_nb (fst X2) = 0 then (Inr True, X2)
            else if g \<le> bcount + 1 then (Inr False, X2) else lo_pairs lt g 0 (bcount + 1) X2
       else let X2 = lo_take_a 1 Y
         in if lo_len (fst X2) = 1 then lo_finish X2
            else if g \<le> acount + 1 then (Inr False, X2) else lo_pairs lt g (acount + 1) 0 X2)"
    proof (cases b)
      case True
      then have "(if lo_nb (fst (lo_take_b 1 Y)) = 0 then F else I) (lo_take_b 1 Y)"
        using post assms(2) by simp
      then show ?thesis using True 1(1) [OF run True refl] by (auto simp: Let_def split: if_splits)
    next
      case False
      then have "if lo_len (fst (lo_take_a 1 Y)) = 1
        then F (lo_take_b (lo_nb (fst (lo_take_a 1 Y))) (lo_take_a 1 Y)) else I (lo_take_a 1 Y)"
        using post assms(3) [of Y] by simp
      then show ?thesis using False 1(2) [OF run False refl]
        by (simp add: Let_def lo_finish_def del: One_nat_def split: if_splits)
    qed
  qed
qed

lemma lo_round_rule:
  assumes "\<And>X. I X \<Longrightarrow> outcome E GA (lo_gallop_a lt X)"
    and "\<And>k X. GA k X \<Longrightarrow> 0 < k \<Longrightarrow> if lo_len (fst (lo_take_a k X)) = 1
      then F (lo_take_b (lo_nb (fst (lo_take_a k X))) (lo_take_a k X))
      else if lo_len (fst (lo_take_a k X)) = 0 then F (lo_take_a k X) else M (lo_take_a k X)"
    and "\<And>X. GA 0 X \<Longrightarrow> M X"
    and "\<And>X. M X \<Longrightarrow> (if lo_nb (fst (lo_take_b 1 X)) = 0 then F else N) (lo_take_b 1 X)"
    and "\<And>X. N X \<Longrightarrow> outcome E GB (lo_gallop_b lt X)"
    and "\<And>k X. GB k X \<Longrightarrow> 0 < k \<Longrightarrow> (if lo_nb (fst (lo_take_b k X)) = 0 then F else K) (lo_take_b k X)"
    and "\<And>X. GB 0 X \<Longrightarrow> K X"
    and "\<And>X. K X \<Longrightarrow> if lo_len (fst (lo_take_a 1 X)) = 1
      then F (lo_take_b (lo_nb (fst (lo_take_a 1 X))) (lo_take_a 1 X)) else I (lo_take_a 1 X)"
    and "I X"
  shows "outcome E (\<lambda>out. if out = Merged then F else I) (lo_round lt X)"
proof -
  have second: "outcome E (\<lambda>out. if out = Merged then F else I) (lo_second lt acount X)" if "N X" for acount X
    unfolding lo_second_def
  proof (rule outcome_and_then [OF assms(5) [OF that]])
    fix k Y
    assume GB: "GB k Y"
    let ?Z = "if k > 0 then lo_take_b k Y else Y"
    have K: "K ?Z" if "\<not> (k > 0 \<and> lo_nb (fst ?Z) = 0)"
      using that assms(6) [OF GB] assms(7) [of Y] GB by (cases k) (auto split: if_splits)
    show "outcome E (\<lambda>out. if out = Merged then F else I) (let X2 = ?Z
       in if k > 0 \<and> lo_nb (fst X2) = 0 then (Inr Merged, X2)
          else (let X3 = lo_take_a 1 X2
              in if lo_len (fst X3) = 1 then (Inr Merged, lo_take_b (lo_nb (fst X3)) X3)
                 else (Inr (if acount < MIN_GALLOP \<and> k < MIN_GALLOP then Leave else Again), X3)))"
    proof (cases "k > 0 \<and> lo_nb (fst ?Z) = 0")
      case True
      then have "F ?Z" using assms(6) [OF GB] by (auto simp del: lo_take_nb)
      then show ?thesis unfolding Let_def if_P [OF True] by simp
    next
      case False
      then show ?thesis using assms(8) [OF K [OF False]] by (auto simp: Let_def split: if_splits)
    qed
  qed
  show ?thesis
    unfolding lo_round_def
  proof (rule outcome_and_then [OF assms(1) [OF assms(9)]])
    fix k Y
    assume GA: "GA k Y"
    let ?Z = "if k > 0 then lo_take_a k Y else Y"
    show "outcome E (\<lambda>out. if out = Merged then F else I) (let X2 = ?Z
       in if k > 0 \<and> lo_len (fst X2) = 1 then (Inr Merged, lo_take_b (lo_nb (fst X2)) X2)
          else if k > 0 \<and> lo_len (fst X2) = 0 then (Inr Merged, X2)
          else (let X3 = lo_take_b 1 X2
                in if lo_nb (fst X3) = 0 then (Inr Merged, X3) else lo_second lt k X3))"
    proof (cases "k > 0 \<and> lo_len (fst ?Z) \<le> 1")
      case True
      then show ?thesis using assms(2) [OF GA] by (auto simp: Let_def le_Suc_eq split: if_splits)
    next
      case False
      then have "M ?Z" using assms(2) [OF GA] assms(3) [of Y] GA by (cases k) (auto split: if_splits)
      then have "(if lo_nb (fst (lo_take_b 1 ?Z)) = 0 then F else N) (lo_take_b 1 ?Z)" by (rule assms(4))
      then show ?thesis using False second by (auto simp: Let_def split: if_splits)
    qed
  qed
qed

lemma lo_gallops_rule:
  assumes round: "\<And>X. I X \<Longrightarrow> outcome E (\<lambda>out. if out = Merged then F else I) (lo_round lt X)"
    and set: "\<And>g X. I X \<Longrightarrow> I (set_gallop g X)"
    and "I X"
  shows "outcome E (\<lambda>(fin, _). if fin then F else I) (lo_gallops lt g X)"
  using assms(3)
proof (induction lt \<equiv> lt g X rule: lo_gallops.induct)
  case (1 g X)
  show ?case
    unfolding lo_gallops.simps [of lt g X] Let_def
  proof (rule outcome_and_then [OF round [OF set [OF 1(2)]]])
    fix out Y
    assume "lo_round lt (set_gallop (g - (if 1 < g then 1 else 0)) X) = (Inr out, Y)"
      "(if out = Merged then F else I) Y"
    then show "outcome E (\<lambda>(fin, _). if fin then F else I) (case out of
        Merged \<Rightarrow> (Inr (True, g - (if 1 < g then 1 else 0)), Y)
      | Leave \<Rightarrow> (Inr (False, g - (if 1 < g then 1 else 0)), Y)
      | Again \<Rightarrow> lo_gallops lt (g - (if 1 < g then 1 else 0)) Y)"
      using 1(1) [OF refl] by (cases out) auto
  qed
qed

lemma lo_pairs_nb:
  assumes "lo_pairs lt g a b X = (Inr fin, Y)"
  shows "lo_nb (fst Y) \<le> lo_nb (fst X)"
proof -
  let ?I = "\<lambda>Y. lo_nb (fst Y) \<le> lo_nb (fst X)"
  have "outcome (\<lambda>_. True) (\<lambda>fin. if fin then ?I else ?I) (lo_pairs lt g a b X)"
    by (rule lo_pairs_rule [where A = ?I and B = ?I])
      (auto simp: outcome_def lo_b_wins_def beside_def split: prod.splits sum.splits)
  then show ?thesis using assms by simp
qed

lemma lo_gallops_decreases:
  assumes "lo_gallops lt g X = (Inr (False, g'), Y)"
  shows "lo_nb (fst Y) < lo_nb (fst X)"
  using assms
proof (induction lt g X rule: lo_gallops.induct)
  case (1 lt g X)
  let ?g = "g - (if 1 < g then 1 else 0)"
  have start: "lo_nb (fst (set_gallop h X)) = lo_nb (fst X)" for h by (simp add: set_gallop_def)
  obtain out Z where round: "lo_round lt (set_gallop ?g X) = (Inr out, Z)"
    and rest: "(case out of Merged \<Rightarrow> (Inr (True, ?g), Z) | Leave \<Rightarrow> (Inr (False, ?g), Z)
      | Again \<Rightarrow> lo_gallops lt ?g Z) = (Inr (False, g'), Y)"
    using 1(2) unfolding lo_gallops.simps [of lt g X] Let_def and_then_Inr_iff by blast
  show ?case
  proof (cases out)
    case Merged
    then show ?thesis using rest by simp
  next
    case Leave
    then show ?thesis using rest lo_round_decreases [OF round] start by simp
  next
    case Again
    then have "lo_nb (fst Y) < lo_nb (fst Z)" using rest 1(1) [OF refl round] by simp
    then show ?thesis using Again lo_round_decreases [OF round] start by simp
  qed
qed

text \<open>The outer loop, \<open>g\<close> being \<open>min_gallop\<close>; then the whole merge.\<close>

function lo_loop :: "('a, 's, 'e) comparator \<Rightarrow> nat \<Rightarrow> ('a, 's) lo_state \<Rightarrow> ('e + unit) \<times> ('a, 's) lo_state" where
  "lo_loop lt g X = and_then (lo_pairs lt g 0 0 X) (\<lambda>fin X1.
     if fin then (Inr (), X1)
     else and_then (lo_gallops lt (g + 1) X1) (\<lambda>v X2. case v of (fin, g') \<Rightarrow>
       if fin then (Inr (), X2) else lo_loop lt (g' + 1) (set_gallop (g' + 1) X2)))"
  by pat_completeness auto
termination
  by (relation "measure (\<lambda>(lt, g, X). lo_nb (fst X))")
     (auto simp: set_gallop_def dest!: lo_pairs_nb lo_gallops_decreases)

declare lo_loop.simps [simp del]

definition lo_park :: "nat \<Rightarrow> nat \<Rightarrow> nat \<Rightarrow> ('a, 's) merge_state \<Rightarrow> ('a, 's) lo_state" where
  "lo_park sa na nb m =
     (\<lparr>lo_tmp = slice (ms_arr m) sa (sa + na), lo_src = 0, lo_dest = sa, lo_len = na,
       lo_b = sa + na, lo_nb = nb\<rparr>, m)"

definition lo_run :: "('a, 's, 'e) comparator \<Rightarrow> ('a, 's) lo_state \<Rightarrow> ('e + unit) \<times> ('a, 's) lo_state" where
  "lo_run lt X =
     (if lo_nb (fst X) = 0 then (Inr (), X)
      else if lo_len (fst X) = 1 then (Inr (), lo_take_b (lo_nb (fst X)) X)
      else lo_loop lt (ms_gallop (snd X)) X)"

definition merge_lo :: "('a, 's, 'e) comparator \<Rightarrow> nat \<Rightarrow> nat \<Rightarrow> nat \<Rightarrow> ('a, 's) merge_state
     \<Rightarrow> ('e + unit) \<times> ('a, 's) merge_state" where
  "merge_lo lt sa na nb m =
     (case lo_run lt (lo_take_b 1 (lo_park sa na nb m)) of (r, X) \<Rightarrow> (r, lo_drop X))"

lemma lo_loop_rule:
  assumes pairs: "\<And>g X. I X \<Longrightarrow> outcome E (\<lambda>fin. if fin then F else I) (lo_pairs lt g 0 0 X)"
    and gallops: "\<And>g X. I X \<Longrightarrow> outcome E (\<lambda>(fin, _). if fin then F else I) (lo_gallops lt g X)"
    and set: "\<And>g X. I X \<Longrightarrow> I (set_gallop g X)"
    and "I X"
  shows "outcome E (\<lambda>_. F) (lo_loop lt g X)"
  using assms(4)
proof (induction lt \<equiv> lt g X rule: lo_loop.induct)
  case (1 g X)
  show ?case
    unfolding lo_loop.simps [of lt g X]
  proof (rule outcome_and_then [OF pairs [OF 1(2)]])
    fix fin Y
    assume Y: "lo_pairs lt g 0 0 X = (Inr fin, Y)" "(if fin then F else I) Y"
    show "outcome E (\<lambda>_. F) (if fin then (Inr (), Y)
      else and_then (lo_gallops lt (g + 1) Y) (\<lambda>v X2. case v of (fin, g') \<Rightarrow>
        if fin then (Inr (), X2) else lo_loop lt (g' + 1) (set_gallop (g' + 1) X2)))"
    proof (cases fin)
      case True
      then show ?thesis using Y by simp
    next
      case False
      then have I: "I Y" using Y by simp
      have "outcome E (\<lambda>_. F) (and_then (lo_gallops lt (g + 1) Y) (\<lambda>v X2. case v of (fin, g') \<Rightarrow>
        if fin then (Inr (), X2) else lo_loop lt (g' + 1) (set_gallop (g' + 1) X2)))"
        by (rule outcome_and_then [OF gallops [OF I]])
          (use 1(1) [OF Y(1) False _ refl] set in \<open>auto split: if_splits prod.splits\<close>)
      then show ?thesis using False by simp
    qed
  qed
qed

end
