(* ===== verification/Sort_MergeHi.thy ===== *)
theory Sort_MergeHi
  imports Sort_Merge
begin

text \<open>
  \<open>merge_hi\<close> of \<open>crates/weavepy-vm/src/timsort.rs\<close>: the mirror image of \<open>merge_lo\<close>, from the
  top of the span, with the second run parked.
\<close>

section \<open>Moves\<close>

text \<open>
  \<open>hi_len\<close> elements of the scratch list are left, and belong at \<open>hi_dest\<close>, just above the
  \<open>hi_na\<close> elements left of the first run.
\<close>

record 'a hi_hole =
  hi_tmp :: "'a list"
  hi_base :: nat
  hi_dest :: nat
  hi_len :: nat
  hi_na :: nat

type_synonym ('a, 's) hi_state = "'a hi_hole \<times> ('a, 's) merge_state"

fun hi_take_a :: "nat \<Rightarrow> ('a, 's) hi_state \<Rightarrow> ('a, 's) hi_state" where
  "hi_take_a k (H, m) =
     (H\<lparr>hi_na := hi_na H - k, hi_dest := hi_base H + (hi_na H - k)\<rparr>,
      m\<lparr>ms_arr := copy_within (hi_base H + (hi_na H - k)) (hi_base H + (hi_na H - k + hi_len H)) k
        (ms_arr m)\<rparr>)"

fun hi_take_b :: "nat \<Rightarrow> ('a, 's) hi_state \<Rightarrow> ('a, 's) hi_state" where
  "hi_take_b k (H, m) =
     (H\<lparr>hi_len := hi_len H - k\<rparr>,
      m\<lparr>ms_arr := write_at (hi_base H + (hi_na H + hi_len H - k))
        (slice (hi_tmp H) (hi_len H - k) (hi_len H)) (ms_arr m)\<rparr>)"

fun hi_drop :: "('a, 's) hi_state \<Rightarrow> ('a, 's) merge_state" where
  "hi_drop (H, m) = m\<lparr>ms_arr := write_at (hi_dest H) (slice (hi_tmp H) 0 (hi_len H)) (ms_arr m)\<rparr>"

definition hi_b_wins :: "('a, 's, 'e) comparator \<Rightarrow> ('a, 's) hi_state \<Rightarrow> ('e + bool) \<times> ('a, 's) hi_state" where
  "hi_b_wins lt X = (case X of (H, m) \<Rightarrow>
     beside H (less_than lt (hi_tmp H ! (hi_len H - 1)) (ms_arr m ! (hi_base H + (hi_na H - 1))) m))"

definition hi_gallop_a :: "('a, 's, 'e) comparator \<Rightarrow> ('a, 's) hi_state \<Rightarrow> ('e + nat) \<times> ('a, 's) hi_state" where
  "hi_gallop_a lt X = (case X of (H, m) \<Rightarrow> beside H (and_then
     (gallop_right lt (hi_tmp H ! (hi_len H - 1)) (\<lambda>i. ms_arr m ! (hi_base H + i)) (hi_na H) (hi_na H - 1) m)
     (\<lambda>k m'. (Inr (hi_na H - k), m'))))"

definition hi_gallop_b :: "('a, 's, 'e) comparator \<Rightarrow> ('a, 's) hi_state \<Rightarrow> ('e + nat) \<times> ('a, 's) hi_state" where
  "hi_gallop_b lt X = (case X of (H, m) \<Rightarrow> beside H (and_then
     (gallop_left lt (ms_arr m ! (hi_base H + (hi_na H - 1))) (\<lambda>i. hi_tmp H ! i) (hi_len H) (hi_len H - 1) m)
     (\<lambda>k m'. (Inr (hi_len H - k), m'))))"

lemma hi_take_na [simp]:
  "hi_na (fst (hi_take_a k X)) = hi_na (fst X) - k" "hi_na (fst (hi_take_b k X)) = hi_na (fst X)"
  "hi_len (fst (hi_take_a k X)) = hi_len (fst X)" "hi_len (fst (hi_take_b k X)) = hi_len (fst X) - k"
  by (cases X; simp)+

lemma hi_gallop_fst:
  "hi_gallop_a lt X = (r, Y) \<Longrightarrow> fst Y = fst X" "hi_gallop_b lt X = (r, Y) \<Longrightarrow> fst Y = fst X"
  by (auto simp: hi_gallop_a_def hi_gallop_b_def beside_def split: prod.splits)

section \<open>Loops\<close>

definition hi_finish :: "('a, 's) hi_state \<Rightarrow> ('a, 's) hi_state" where
  "hi_finish X = hi_take_a (hi_na (fst X)) X"

function hi_pairs :: "('a, 's, 'e) comparator \<Rightarrow> nat \<Rightarrow> nat \<Rightarrow> nat \<Rightarrow> ('a, 's) hi_state
     \<Rightarrow> ('e + bool) \<times> ('a, 's) hi_state" where
  "hi_pairs lt g acount bcount X = and_then (hi_b_wins lt X) (\<lambda>b X1.
     if b then
       (let X2 = hi_take_a 1 X1
        in if hi_na (fst X2) = 0 then (Inr True, X2)
           else if acount + 1 \<ge> g then (Inr False, X2)
           else hi_pairs lt g (acount + 1) 0 X2)
     else
       (let X2 = hi_take_b 1 X1
        in if hi_len (fst X2) = 1 then (Inr True, hi_finish X2)
           else if bcount + 1 \<ge> g then (Inr False, X2)
           else hi_pairs lt g 0 (bcount + 1) X2))"
  by pat_completeness auto
termination
  by (relation "measures [\<lambda>(lt, g, a, b, X). hi_len (fst X) + hi_na (fst X), \<lambda>(lt, g, a, b, X). g - b]")
     (auto simp: hi_b_wins_def beside_def split: prod.splits)

declare hi_pairs.simps [simp del]

definition hi_second :: "('a, 's, 'e) comparator \<Rightarrow> nat \<Rightarrow> ('a, 's) hi_state
     \<Rightarrow> ('e + gallop_exit) \<times> ('a, 's) hi_state" where
  "hi_second lt acount X = and_then (hi_gallop_b lt X) (\<lambda>bcount X1.
     let X2 = (if bcount > 0 then hi_take_b bcount X1 else X1)
     in if bcount > 0 \<and> hi_len (fst X2) = 1 then (Inr Merged, hi_finish X2)
        else if bcount > 0 \<and> hi_len (fst X2) = 0 then (Inr Merged, X2)
        else (let X3 = hi_take_a 1 X2
              in if hi_na (fst X3) = 0 then (Inr Merged, X3)
                 else (Inr (if acount < MIN_GALLOP \<and> bcount < MIN_GALLOP then Leave else Again), X3)))"

definition hi_round :: "('a, 's, 'e) comparator \<Rightarrow> ('a, 's) hi_state
     \<Rightarrow> ('e + gallop_exit) \<times> ('a, 's) hi_state" where
  "hi_round lt X = and_then (hi_gallop_a lt X) (\<lambda>acount X1.
     let X2 = (if acount > 0 then hi_take_a acount X1 else X1)
     in if acount > 0 \<and> hi_na (fst X2) = 0 then (Inr Merged, X2)
        else (let X3 = hi_take_b 1 X2
              in if hi_len (fst X3) = 1 then (Inr Merged, hi_finish X3) else hi_second lt acount X3))"

lemma hi_gallop_na:
  "hi_gallop_a lt X = (r, Y) \<Longrightarrow> hi_na (fst Y) = hi_na (fst X)"
  "hi_gallop_b lt X = (r, Y) \<Longrightarrow> hi_na (fst Y) = hi_na (fst X)"
  by (simp_all add: hi_gallop_fst)

lemma hi_second_decreases:
  assumes "hi_second lt k X = (Inr g, Y)" "g \<noteq> Merged"
  shows "hi_na (fst Y) < hi_na (fst X)"
proof -
  obtain j Z where "hi_gallop_b lt X = (Inr j, Z)" and
    rest: "g \<noteq> Merged \<Longrightarrow> Y = hi_take_a 1 (if j > 0 then hi_take_b j Z else Z) \<and> hi_na (fst Y) \<noteq> 0"
    using assms(1) unfolding hi_second_def and_then_Inr_iff Let_def by (fastforce split: if_splits)
  then show ?thesis using assms(2) hi_gallop_na(2) [of lt X] by (auto split: if_splits)
qed

lemma hi_round_decreases:
  assumes "hi_round lt X = (Inr g, Y)" "g \<noteq> Merged"
  shows "hi_na (fst Y) < hi_na (fst X)"
proof -
  obtain j Z where Z: "hi_gallop_a lt X = (Inr j, Z)"
    and rest: "(let X2 = (if j > 0 then hi_take_a j Z else Z)
     in if j > 0 \<and> hi_na (fst X2) = 0 then (Inr Merged, X2)
        else (let X3 = hi_take_b 1 X2
              in if hi_len (fst X3) = 1 then (Inr Merged, hi_finish X3) else hi_second lt j X3)) = (Inr g, Y)"
    using assms(1) unfolding hi_round_def and_then_Inr_iff by auto
  let ?Z = "hi_take_b 1 (if j > 0 then hi_take_a j Z else Z)"
  have "hi_second lt j ?Z = (Inr g, Y)"
    using rest assms(2) unfolding Let_def by (simp only: split: if_splits) auto
  then have "hi_na (fst Y) < hi_na (fst ?Z)" using assms(2) by (rule hi_second_decreases)
  then show ?thesis using hi_gallop_na(1) [OF Z] by (auto split: if_splits)
qed

function hi_gallops :: "('a, 's, 'e) comparator \<Rightarrow> nat \<Rightarrow> ('a, 's) hi_state
     \<Rightarrow> ('e + bool \<times> nat) \<times> ('a, 's) hi_state" where
  "hi_gallops lt g X =
     (let g = g - (if g > 1 then 1 else 0)
      in and_then (hi_round lt (set_gallop g X)) (\<lambda>out X1. case out of
           Merged \<Rightarrow> (Inr (True, g), X1)
         | Leave \<Rightarrow> (Inr (False, g), X1)
         | Again \<Rightarrow> hi_gallops lt g X1))"
  by pat_completeness auto
termination
  by (relation "measure (\<lambda>(lt, g, X). hi_na (fst X))")
     (auto simp: set_gallop_def dest: hi_round_decreases)

declare hi_gallops.simps [simp del]

section \<open>Rules\<close>

lemma hi_pairs_rule:
  assumes "\<And>X. I X \<Longrightarrow> outcome E (\<lambda>b. if b then A else B) (hi_b_wins lt X)"
    and "\<And>X. A X \<Longrightarrow> (if hi_na (fst (hi_take_a 1 X)) = 0 then F else I) (hi_take_a 1 X)"
    and "\<And>X. B X \<Longrightarrow> if hi_len (fst (hi_take_b 1 X)) = 1
      then F (hi_finish (hi_take_b 1 X)) else I (hi_take_b 1 X)"
    and "I X"
  shows "outcome E (\<lambda>fin. if fin then F else I) (hi_pairs lt g acount bcount X)"
  using assms(4)
proof (induction lt \<equiv> lt g acount bcount X rule: hi_pairs.induct)
  case (1 g acount bcount X)
  show ?case
    unfolding hi_pairs.simps [of lt g acount bcount X]
  proof (rule outcome_and_then [OF assms(1) [OF 1(3)]])
    fix b Y
    assume run: "hi_b_wins lt X = (Inr b, Y)" and post: "(if b then A else B) Y"
    show "outcome E (\<lambda>fin. if fin then F else I)
      (if b then let X2 = hi_take_a 1 Y
         in if hi_na (fst X2) = 0 then (Inr True, X2)
            else if g \<le> acount + 1 then (Inr False, X2) else hi_pairs lt g (acount + 1) 0 X2
       else let X2 = hi_take_b 1 Y
         in if hi_len (fst X2) = 1 then (Inr True, hi_finish X2)
            else if g \<le> bcount + 1 then (Inr False, X2) else hi_pairs lt g 0 (bcount + 1) X2)"
    proof (cases b)
      case True
      then have "(if hi_na (fst (hi_take_a 1 Y)) = 0 then F else I) (hi_take_a 1 Y)"
        using post assms(2) by simp
      then show ?thesis using True 1(1) [OF run True refl] by (auto simp: Let_def split: if_splits)
    next
      case False
      then have "if hi_len (fst (hi_take_b 1 Y)) = 1
        then F (hi_finish (hi_take_b 1 Y)) else I (hi_take_b 1 Y)"
        using post assms(3) [of Y] by simp
      then show ?thesis using False 1(2) [OF run False refl]
        by (simp add: Let_def del: One_nat_def split: if_splits)
    qed
  qed
qed

lemma hi_second_rule:
  assumes "\<And>X. N X \<Longrightarrow> outcome E GB (hi_gallop_b lt X)"
    and "\<And>k X. GB k X \<Longrightarrow> 0 < k \<Longrightarrow> if hi_len (fst (hi_take_b k X)) = 1
      then F (hi_finish (hi_take_b k X))
      else if hi_len (fst (hi_take_b k X)) = 0 then F (hi_take_b k X) else K (hi_take_b k X)"
    and "\<And>X. GB 0 X \<Longrightarrow> K X"
    and "\<And>X. K X \<Longrightarrow> (if hi_na (fst (hi_take_a 1 X)) = 0 then F else I) (hi_take_a 1 X)"
    and "N X"
  shows "outcome E (\<lambda>out. if out = Merged then F else I) (hi_second lt acount X)"
  unfolding hi_second_def
proof (rule outcome_and_then [OF assms(1) [OF assms(5)]])
  fix k Y
  assume GB: "GB k Y"
  let ?Z = "if k > 0 then hi_take_b k Y else Y"
  show "outcome E (\<lambda>out. if out = Merged then F else I) (let X2 = ?Z
     in if k > 0 \<and> hi_len (fst X2) = 1 then (Inr Merged, hi_finish X2)
        else if k > 0 \<and> hi_len (fst X2) = 0 then (Inr Merged, X2)
        else (let X3 = hi_take_a 1 X2
              in if hi_na (fst X3) = 0 then (Inr Merged, X3)
                 else (Inr (if acount < MIN_GALLOP \<and> k < MIN_GALLOP then Leave else Again), X3)))"
  proof (cases "k > 0 \<and> hi_len (fst ?Z) \<le> 1")
    case True
    then have "if hi_len (fst ?Z) = 1 then F (hi_finish ?Z) else F ?Z"
      using assms(2) [OF GB] by (auto simp del: hi_take_na split: if_splits)
    then show ?thesis using True by (auto simp: Let_def le_Suc_eq split: if_splits)
  next
    case False
    then have "K ?Z" using assms(2) [OF GB] assms(3) [of Y] GB by (cases k) (auto split: if_splits)
    then have "(if hi_na (fst (hi_take_a 1 ?Z)) = 0 then F else I) (hi_take_a 1 ?Z)" by (rule assms(4))
    then show ?thesis using False by (auto simp: Let_def split: if_splits)
  qed
qed

lemma hi_round_rule:
  assumes second: "\<And>k X. N X \<Longrightarrow> outcome E (\<lambda>out. if out = Merged then F else I) (hi_second lt k X)"
    and "\<And>X. I X \<Longrightarrow> outcome E GA (hi_gallop_a lt X)"
    and "\<And>k X. GA k X \<Longrightarrow> 0 < k \<Longrightarrow> (if hi_na (fst (hi_take_a k X)) = 0 then F else M) (hi_take_a k X)"
    and "\<And>X. GA 0 X \<Longrightarrow> M X"
    and "\<And>X. M X \<Longrightarrow> if hi_len (fst (hi_take_b 1 X)) = 1
      then F (hi_finish (hi_take_b 1 X)) else N (hi_take_b 1 X)"
    and "I X"
  shows "outcome E (\<lambda>out. if out = Merged then F else I) (hi_round lt X)"
  unfolding hi_round_def
proof (rule outcome_and_then [OF assms(2) [OF assms(6)]])
  fix k Y
  assume GA: "GA k Y"
  let ?Z = "if k > 0 then hi_take_a k Y else Y"
  show "outcome E (\<lambda>out. if out = Merged then F else I) (let X2 = ?Z
     in if k > 0 \<and> hi_na (fst X2) = 0 then (Inr Merged, X2)
        else (let X3 = hi_take_b 1 X2
              in if hi_len (fst X3) = 1 then (Inr Merged, hi_finish X3) else hi_second lt k X3))"
  proof (cases "k > 0 \<and> hi_na (fst ?Z) = 0")
    case True
    then have "F ?Z" using assms(3) [OF GA] by (auto simp del: hi_take_na)
    then show ?thesis unfolding Let_def if_P [OF True] by simp
  next
    case False
    then have "M ?Z" using assms(3) [OF GA] assms(4) [of Y] GA by (cases k) (auto split: if_splits)
    then have post: "if hi_len (fst (hi_take_b 1 ?Z)) = 1
      then F (hi_finish (hi_take_b 1 ?Z)) else N (hi_take_b 1 ?Z)" by (rule assms(5))
    show ?thesis
    proof (cases "hi_len (fst (hi_take_b 1 ?Z)) = 1")
      case True
      then show ?thesis unfolding Let_def if_not_P [OF False] if_P [OF True] using post by simp
    next
      case len: False
      then have "N (hi_take_b 1 ?Z)" using post by simp
      then show ?thesis unfolding Let_def if_not_P [OF False] if_not_P [OF len] by (rule second)
    qed
  qed
qed

lemma hi_gallops_rule:
  assumes round: "\<And>X. I X \<Longrightarrow> outcome E (\<lambda>out. if out = Merged then F else I) (hi_round lt X)"
    and set: "\<And>g X. I X \<Longrightarrow> I (set_gallop g X)"
    and "I X"
  shows "outcome E (\<lambda>(fin, _). if fin then F else I) (hi_gallops lt g X)"
  using assms(3)
proof (induction lt \<equiv> lt g X rule: hi_gallops.induct)
  case (1 g X)
  let ?g = "g - (if 1 < g then 1 else 0)"
  show ?case
    unfolding hi_gallops.simps [of lt g X] Let_def
  proof (rule outcome_and_then [OF round [OF set [OF 1(2)]]])
    fix out Y
    assume "hi_round lt (set_gallop ?g X) = (Inr out, Y)" "(if out = Merged then F else I) Y"
    then show "outcome E (\<lambda>(fin, _). if fin then F else I) (case out of
        Merged \<Rightarrow> (Inr (True, ?g), Y) | Leave \<Rightarrow> (Inr (False, ?g), Y) | Again \<Rightarrow> hi_gallops lt ?g Y)"
      using 1(1) [OF refl] by (cases out) auto
  qed
qed

lemma hi_pairs_na:
  assumes "hi_pairs lt g a b X = (Inr fin, Y)"
  shows "hi_na (fst Y) \<le> hi_na (fst X)"
proof -
  let ?I = "\<lambda>Y. hi_na (fst Y) \<le> hi_na (fst X)"
  have "outcome (\<lambda>_. True) (\<lambda>fin. if fin then ?I else ?I) (hi_pairs lt g a b X)"
    by (rule hi_pairs_rule [where A = ?I and B = ?I])
      (auto simp: outcome_def hi_b_wins_def hi_finish_def beside_def split: prod.splits sum.splits)
  then show ?thesis using assms by simp
qed

lemma hi_gallops_decreases:
  assumes "hi_gallops lt g X = (Inr (False, g'), Y)"
  shows "hi_na (fst Y) < hi_na (fst X)"
  using assms
proof (induction lt g X rule: hi_gallops.induct)
  case (1 lt g X)
  let ?g = "g - (if 1 < g then 1 else 0)"
  have start: "hi_na (fst (set_gallop h X)) = hi_na (fst X)" for h by (simp add: set_gallop_def)
  obtain out Z where round: "hi_round lt (set_gallop ?g X) = (Inr out, Z)"
    and rest: "(case out of Merged \<Rightarrow> (Inr (True, ?g), Z) | Leave \<Rightarrow> (Inr (False, ?g), Z)
      | Again \<Rightarrow> hi_gallops lt ?g Z) = (Inr (False, g'), Y)"
    using 1(2) unfolding hi_gallops.simps [of lt g X] Let_def and_then_Inr_iff by blast
  have "out \<noteq> Merged" using rest by auto
  then have "hi_na (fst Z) < hi_na (fst X)" using hi_round_decreases [OF round] start by simp
  moreover have "hi_na (fst Y) \<le> hi_na (fst Z)"
    using rest 1(1) [OF refl round] by (cases out) auto
  ultimately show ?case by simp
qed

section \<open>\<open>merge_hi\<close>\<close>

function hi_loop :: "('a, 's, 'e) comparator \<Rightarrow> nat \<Rightarrow> ('a, 's) hi_state \<Rightarrow> ('e + unit) \<times> ('a, 's) hi_state" where
  "hi_loop lt g X = and_then (hi_pairs lt g 0 0 X) (\<lambda>fin X1.
     if fin then (Inr (), X1)
     else and_then (hi_gallops lt (g + 1) X1) (\<lambda>v X2. case v of (fin, g') \<Rightarrow>
       if fin then (Inr (), X2) else hi_loop lt (g' + 1) (set_gallop (g' + 1) X2)))"
  by pat_completeness auto
termination
  by (relation "measure (\<lambda>(lt, g, X). hi_na (fst X))")
     (auto simp: set_gallop_def dest!: hi_pairs_na hi_gallops_decreases)

declare hi_loop.simps [simp del]

definition hi_park :: "nat \<Rightarrow> nat \<Rightarrow> nat \<Rightarrow> ('a, 's) merge_state \<Rightarrow> ('a, 's) hi_state" where
  "hi_park sa na nb m =
     (\<lparr>hi_tmp = slice (ms_arr m) (sa + na) (sa + na + nb), hi_base = sa, hi_dest = sa + na,
       hi_len = nb, hi_na = na\<rparr>, m)"

definition hi_run :: "('a, 's, 'e) comparator \<Rightarrow> ('a, 's) hi_state \<Rightarrow> ('e + unit) \<times> ('a, 's) hi_state" where
  "hi_run lt X =
     (if hi_na (fst X) = 0 then (Inr (), X)
      else if hi_len (fst X) = 1 then (Inr (), hi_finish X)
      else hi_loop lt (ms_gallop (snd X)) X)"

definition merge_hi :: "('a, 's, 'e) comparator \<Rightarrow> nat \<Rightarrow> nat \<Rightarrow> nat \<Rightarrow> ('a, 's) merge_state
     \<Rightarrow> ('e + unit) \<times> ('a, 's) merge_state" where
  "merge_hi lt sa na nb m =
     (case hi_run lt (hi_take_a 1 (hi_park sa na nb m)) of (r, X) \<Rightarrow> (r, hi_drop X))"

lemma hi_loop_rule:
  assumes pairs: "\<And>g X. I X \<Longrightarrow> outcome E (\<lambda>fin. if fin then F else I) (hi_pairs lt g 0 0 X)"
    and gallops: "\<And>g X. I X \<Longrightarrow> outcome E (\<lambda>(fin, _). if fin then F else I) (hi_gallops lt g X)"
    and set: "\<And>g X. I X \<Longrightarrow> I (set_gallop g X)"
    and "I X"
  shows "outcome E (\<lambda>_. F) (hi_loop lt g X)"
  using assms(4)
proof (induction lt \<equiv> lt g X rule: hi_loop.induct)
  case (1 g X)
  show ?case
    unfolding hi_loop.simps [of lt g X]
  proof (rule outcome_and_then [OF pairs [OF 1(2)]])
    fix fin Y
    assume Y: "hi_pairs lt g 0 0 X = (Inr fin, Y)" "(if fin then F else I) Y"
    let ?rest = "\<lambda>v X2. case v of (fin, g') \<Rightarrow>
        if fin then (Inr (), X2) else hi_loop lt (g' + 1) (set_gallop (g' + 1) X2)"
    have "outcome E (\<lambda>_. F) (and_then (hi_gallops lt (g + 1) Y) ?rest)" if "\<not> fin"
      by (rule outcome_and_then [OF gallops])
        (use that Y 1(1) [OF Y(1) that _ refl] set in \<open>auto split: if_splits prod.splits\<close>)
    then show "outcome E (\<lambda>_. F) (if fin then (Inr (), Y) else and_then (hi_gallops lt (g + 1) Y) ?rest)"
      using Y by (cases fin) simp_all
  qed
qed

end
