(* ===== verification/Sort_Main.thy ===== *)
theory Sort_Main
  imports Sort_MergeHi
begin

text \<open>
  The top of \<open>crates/weavepy-vm/src/timsort.rs\<close>: runs are found, extended to the minimum run
  length, put on the stack of pending runs, and merged in the order of the powersort tree.
\<close>

section \<open>\<open>merge_at\<close>\<close>

definition remove_run :: "nat \<Rightarrow> run list \<Rightarrow> run list" where
  "remove_run i rs = take i rs @ drop (i + 1) rs"

definition join_runs :: "nat \<Rightarrow> ('a, 's) merge_state \<Rightarrow> ('a, 's) merge_state" where
  "join_runs i m = (let rs = ms_pending m; ra = rs ! i; rb = rs ! (i + 1)
     in m\<lparr>ms_pending := remove_run (i + 1) (rs[i := ra\<lparr>run_len := run_len ra + run_len rb\<rparr>])\<rparr>)"

text \<open>The merge of the span \<open>na\<close> from \<open>sa\<close> with the span \<open>nb\<close> from \<open>sb\<close>, which follows it.\<close>

definition merge_spans :: "('a, 's, 'e) comparator \<Rightarrow> nat \<Rightarrow> nat \<Rightarrow> nat \<Rightarrow> nat \<Rightarrow> ('a, 's) merge_state
     \<Rightarrow> ('e + unit) \<times> ('a, 's) merge_state" where
  "merge_spans lt sa na sb nb m =
     and_then (gallop_right lt (ms_arr m ! sb) (\<lambda>j. ms_arr m ! (sa + j)) na 0 m) (\<lambda>k m1.
       let sa = sa + k; na = na - k
       in if na = 0 then (Inr (), m1)
          else and_then (gallop_left lt (ms_arr m1 ! (sa + na - 1)) (\<lambda>j. ms_arr m1 ! (sb + j)) nb (nb - 1) m1)
            (\<lambda>nb m2. if nb = 0 then (Inr (), m2)
               else if na \<le> nb then merge_lo lt sa na nb m2 else merge_hi lt sa na nb m2))"

definition merge_at :: "('a, 's, 'e) comparator \<Rightarrow> nat \<Rightarrow> ('a, 's) merge_state
     \<Rightarrow> ('e + unit) \<times> ('a, 's) merge_state" where
  "merge_at lt i m = (let ra = ms_pending m ! i; rb = ms_pending m ! (i + 1)
     in merge_spans lt (run_base ra) (run_len ra) (run_base rb) (run_len rb) (join_runs i m))"

section \<open>The stack of runs is changed by \<open>merge_at\<close> alone\<close>

definition keeps :: "run list \<Rightarrow> ('e + 'b) \<times> ('a, 's) merge_state \<Rightarrow> bool" where
  "keeps ps res \<longleftrightarrow> ms_pending (snd res) = ps"

lemma keeps_pair [simp]: "keeps ps (v, m) \<longleftrightarrow> ms_pending m = ps"
  by (simp add: keeps_def)

lemma keeps_and_then:
  assumes "keeps ps res" "\<And>v m. ms_pending m = ps \<Longrightarrow> keeps ps (k v m)"
  shows "keeps ps (and_then res k)"
  using assms by (cases res; cases "fst res") auto

lemma keeps_less_than: "ms_pending m = ps \<Longrightarrow> keeps ps (less_than lt a b m)"
  by (simp add: less_than_def split: prod.split)

lemma keeps_gallop_up:
  assumes "\<And>i m. ms_pending m = ps \<Longrightarrow> keeps ps (p i m)" "ms_pending m = ps"
  shows "keeps ps (gallop_up p hint maxofs lastofs ofs m)"
  using assms(2)
proof (induction "maxofs - ofs" arbitrary: lastofs ofs m rule: less_induct)
  case less
  show ?case
    using less assms(1) by (subst gallop_up.simps) (auto intro!: keeps_and_then)
qed

lemma keeps_gallop_down:
  assumes "\<And>i m. ms_pending m = ps \<Longrightarrow> keeps ps (p i m)" "ms_pending m = ps"
  shows "keeps ps (gallop_down p hint maxofs lastofs ofs m)"
  using assms(2)
proof (induction "maxofs - ofs" arbitrary: lastofs ofs m rule: less_induct)
  case less
  show ?case
    using less assms(1) by (subst gallop_down.simps) (auto intro!: keeps_and_then)
qed

lemma keeps_gallop_search:
  assumes "\<And>i m. ms_pending m = ps \<Longrightarrow> keeps ps (p i m)" "ms_pending m = ps"
  shows "keeps ps (gallop_search p l u m)"
  using assms(2)
proof (induction "u - l" arbitrary: l u m rule: less_induct)
  case less
  show ?case
    using less assms(1) by (subst gallop_search.simps) (auto simp: Let_def intro!: keeps_and_then)
qed

lemma keeps_gallop:
  assumes "\<And>i m. ms_pending m = ps \<Longrightarrow> keeps ps (p i m)" "ms_pending m = ps"
  shows "keeps ps (gallop p n hint m)"
  unfolding gallop_def using assms
  by (auto intro!: keeps_and_then keeps_gallop_up keeps_gallop_down keeps_gallop_search split: prod.splits)

lemma keeps_gallops:
  assumes "ms_pending m = ps"
  shows "keeps ps (gallop_left lt key el n hint m)" "keeps ps (gallop_right lt key el n hint m)"
  unfolding gallop_left_def gallop_right_def
  by (auto intro!: keeps_gallop keeps_and_then keeps_less_than assms)

abbreviation (input) stack_is where
  "stack_is ps X \<equiv> ms_pending (snd X) = ps"

lemma keeps_beside:
  "keeps ps res \<Longrightarrow> outcome (stack_is ps) (\<lambda>_. stack_is ps) (beside h res)"
  by (simp add: keeps_def outcome_def beside_def split: sum.split)

lemma keeps_merge_lo:
  assumes "ms_pending m = ps"
  shows "keeps ps (merge_lo lt sa na nb m)"
proof -
  let ?I = "stack_is ps"
  have take: "?I (lo_take_a k X) = ?I X" "?I (lo_take_b k X) = ?I X" for k X by (cases X; simp)+
  have set: "?I X \<Longrightarrow> ?I (set_gallop g X)" for g X by (simp add: set_gallop_def)
  have ops: "outcome ?I (\<lambda>_. ?I) (lo_b_wins lt X)" "outcome ?I (\<lambda>_. ?I) (lo_gallop_a lt X)"
    "outcome ?I (\<lambda>_. ?I) (lo_gallop_b lt X)" if "?I X" for X
    using that unfolding lo_b_wins_def lo_gallop_a_def lo_gallop_b_def
    by (cases X; simp add: keeps_beside keeps_less_than keeps_gallops)+
  have pairs: "outcome ?I (\<lambda>fin. if fin then ?I else ?I) (lo_pairs lt g a b X)" if "?I X" for g a b X
    by (rule lo_pairs_rule [where A = ?I and B = ?I]) (simp_all add: take ops that)
  have round: "outcome ?I (\<lambda>out. if out = Merged then ?I else ?I) (lo_round lt X)" if "?I X" for X
    by (rule lo_round_rule [where GA = "\<lambda>_. ?I" and GB = "\<lambda>_. ?I" and M = ?I and N = ?I and K = ?I])
      (simp_all add: take ops that)
  have "outcome ?I (\<lambda>_. ?I) (lo_loop lt g X)" if "?I X" for g X
    by (rule lo_loop_rule [OF pairs lo_gallops_rule [OF round set] set that])
  then have "outcome ?I (\<lambda>_. ?I) (lo_run lt X)" if "?I X" for X
    using that by (simp add: lo_run_def take)
  from this [of "lo_take_b 1 (lo_park sa na nb m)"] assms show ?thesis
    unfolding merge_lo_def by (auto simp: take lo_park_def outcome_def split: prod.splits sum.splits)
qed

lemma keeps_merge_hi:
  assumes "ms_pending m = ps"
  shows "keeps ps (merge_hi lt sa na nb m)"
proof -
  let ?I = "stack_is ps"
  have take: "?I (hi_take_a k X) = ?I X" "?I (hi_take_b k X) = ?I X" "?I (hi_finish X) = ?I X" for k X
    by (cases X; simp add: hi_finish_def)+
  have set: "?I X \<Longrightarrow> ?I (set_gallop g X)" for g X by (simp add: set_gallop_def)
  have ops: "outcome ?I (\<lambda>_. ?I) (hi_b_wins lt X)" "outcome ?I (\<lambda>_. ?I) (hi_gallop_a lt X)"
    "outcome ?I (\<lambda>_. ?I) (hi_gallop_b lt X)" if "?I X" for X
    using that unfolding hi_b_wins_def hi_gallop_a_def hi_gallop_b_def
    by (cases X; simp add: keeps_beside keeps_less_than keeps_gallops keeps_and_then)+
  have pairs: "outcome ?I (\<lambda>fin. if fin then ?I else ?I) (hi_pairs lt g a b X)" if "?I X" for g a b X
    by (rule hi_pairs_rule [where A = ?I and B = ?I]) (simp_all add: take ops that)
  have second: "outcome ?I (\<lambda>out. if out = Merged then ?I else ?I) (hi_second lt k X)" if "?I X" for k X
    by (rule hi_second_rule [where GB = "\<lambda>_. ?I" and N = ?I and K = ?I]) (simp_all add: take ops that)
  have round: "outcome ?I (\<lambda>out. if out = Merged then ?I else ?I) (hi_round lt X)" if "?I X" for X
    by (rule hi_round_rule [where GA = "\<lambda>_. ?I" and M = ?I and N = ?I, OF second])
      (simp_all add: take ops that)
  have "outcome ?I (\<lambda>_. ?I) (hi_loop lt g X)" if "?I X" for g X
    by (rule hi_loop_rule [OF pairs hi_gallops_rule [OF round set] set that])
  then have "outcome ?I (\<lambda>_. ?I) (hi_run lt X)" if "?I X" for X
    using that by (simp add: hi_run_def take)
  from this [of "hi_take_a 1 (hi_park sa na nb m)"] assms show ?thesis
    unfolding merge_hi_def by (auto simp: take hi_park_def outcome_def split: prod.splits sum.splits)
qed

lemma keeps_merge_spans:
  assumes "ms_pending m = ps"
  shows "keeps ps (merge_spans lt sa na sb nb m)"
  unfolding merge_spans_def Let_def using assms
  by (auto intro!: keeps_and_then keeps_gallops keeps_merge_lo keeps_merge_hi)

lemma merge_at_pending: "ms_pending (snd (merge_at lt i m)) = ms_pending (join_runs i m)"
  using keeps_merge_spans [OF refl] unfolding merge_at_def Let_def keeps_def by metis

lemma merge_at_shrinks:
  assumes "i + 1 < length (ms_pending m)"
  shows "length (ms_pending (snd (merge_at lt i m))) < length (ms_pending m)"
  using assms by (simp add: merge_at_pending join_runs_def remove_run_def Let_def)

section \<open>Collapsing the stack\<close>

text \<open>Runs deeper in the powersort tree than the new one are merged.\<close>

function collapse :: "('a, 's, 'e) comparator \<Rightarrow> nat \<Rightarrow> ('a, 's) merge_state
     \<Rightarrow> ('e + unit) \<times> ('a, 's) merge_state" where
  "collapse lt pw m = (let ps = ms_pending m; n = length ps
     in if n > 1 \<and> run_power (ps ! (n - 2)) > pw
        then and_then (merge_at lt (n - 2) m) (\<lambda>_ m'. collapse lt pw m')
        else (Inr (), m))"
  by pat_completeness auto
termination
proof (relation "measure (\<lambda>(lt, pw, m). length (ms_pending m))")
  fix lt :: "('a, 's, 'e) comparator" and pw m ps n v m'
  assume step: "ps = ms_pending m" "n = length ps" "n > 1 \<and> run_power (ps ! (n - 2)) > pw"
    "merge_at lt (n - 2) m = (Inr v, m')"
  then have "1 < n" "n = length (ms_pending m)" by simp_all
  then have "n - 2 + 1 < length (ms_pending m)" by linarith
  from merge_at_shrinks [OF this, of lt] step
  show "((lt, pw, m'), (lt, pw, m)) \<in> measure (\<lambda>(lt, pw, m). length (ms_pending m))" by simp
qed simp

declare collapse.simps [simp del]

definition set_top_power :: "nat \<Rightarrow> ('a, 's) merge_state \<Rightarrow> ('a, 's) merge_state" where
  "set_top_power pw m = (let ps = ms_pending m; last = length ps - 1
     in m\<lparr>ms_pending := ps[last := (ps ! last)\<lparr>run_power := pw\<rparr>]\<rparr>)"

text \<open>\<open>None\<close> stands for a \<open>powerloop\<close> that does not end.\<close>

definition found_new_run :: "('a, 's, 'e) comparator \<Rightarrow> nat \<Rightarrow> ('a, 's) merge_state
     \<Rightarrow> (('e + unit) \<times> ('a, 's) merge_state) option" where
  "found_new_run lt n2 m =
     (if ms_pending m = [] then Some (Inr (), m)
      else (let top = last (ms_pending m)
            in case powerloop (run_base top) (run_len top) n2 (length (ms_arr m)) of
                 None \<Rightarrow> None
               | Some pw \<Rightarrow> Some (and_then (collapse lt pw m) (\<lambda>_ m'. (Inr (), set_top_power pw m')))))"

definition force_index :: "run list \<Rightarrow> nat" where
  "force_index ps = (let n = length ps - 2
     in if n > 0 \<and> run_len (ps ! (n - 1)) < run_len (ps ! (n + 1)) then n - 1 else n)"

function merge_force_collapse :: "('a, 's, 'e) comparator \<Rightarrow> ('a, 's) merge_state
     \<Rightarrow> ('e + unit) \<times> ('a, 's) merge_state" where
  "merge_force_collapse lt m =
     (if length (ms_pending m) > 1
      then and_then (merge_at lt (force_index (ms_pending m)) m) (\<lambda>_ m'. merge_force_collapse lt m')
      else (Inr (), m))"
  by pat_completeness auto
termination
proof (relation "measure (\<lambda>(lt, m). length (ms_pending m))")
  fix lt :: "('a, 's, 'e) comparator" and m v m'
  assume "length (ms_pending m) > 1" "merge_at lt (force_index (ms_pending m)) m = (Inr v, m')"
  moreover from this have "force_index (ms_pending m) + 1 < length (ms_pending m)"
    by (auto simp: force_index_def Let_def)
  ultimately show "((lt, m'), (lt, m)) \<in> measure (\<lambda>(lt, m). length (ms_pending m))"
    using merge_at_shrinks [of "force_index (ms_pending m)" m lt] by simp
qed simp

declare merge_force_collapse.simps [simp del]

section \<open>\<open>sort\<close>\<close>

text \<open>The next run, brought to the minimum length.\<close>

definition next_run :: "('a, 's, 'e) comparator \<Rightarrow> nat \<Rightarrow> nat \<Rightarrow> nat \<Rightarrow> ('a, 's) merge_state
     \<Rightarrow> ('e + nat) \<times> ('a, 's) merge_state" where
  "next_run lt minrun lo nremaining m =
     and_then (count_run lt lo nremaining m) (\<lambda>run m1.
       if run < minrun then
         (let force = min nremaining minrun
          in and_then (binarysort lt lo force run m1) (\<lambda>_ m2. (Inr force, m2)))
       else (Inr run, m1))"

definition push_run :: "nat \<Rightarrow> nat \<Rightarrow> ('a, 's) merge_state \<Rightarrow> ('a, 's) merge_state" where
  "push_run lo n m = m\<lparr>ms_pending := ms_pending m @ [\<lparr>run_base = lo, run_len = n, run_power = 0\<rparr>]\<rparr>"

lemma asc_run_ge:
  assumes "asc_run lt lo avail n m = (Inr k, m')"
  shows "n \<le> k"
  using assms
proof (induction "avail - n" arbitrary: n m rule: less_induct)
  case less
  show ?case
  proof (cases "n < avail")
    case True
    then obtain b m1 where "(if b then (Inr n, m1) else asc_run lt lo avail (n + 1) m1) = (Inr k, m')"
      using less(2) unfolding asc_run.simps [of lt lo avail n m] by (auto simp: and_then_Inr_iff)
    moreover have "avail - (n + 1) < avail - n" using True by linarith
    ultimately show ?thesis using less(1) [of "n + 1" m1] by (cases b) auto
  next
    case False
    then show ?thesis using less(2) unfolding asc_run.simps [of lt lo avail n m] by simp
  qed
qed

lemma desc_run_ge:
  assumes "desc_run lt lo avail n neq m = (Inr (k, j), m')"
  shows "n \<le> k"
  using assms
proof (induction "avail - n" arbitrary: n neq m rule: less_induct)
  case less
  show ?case
  proof (cases "n < avail")
    case True
    have step: "n \<le> k" if "desc_run lt lo avail (Suc n) q m1 = (Inr (k, j), m')" for q m1
    proof -
      have "avail - Suc n < avail - n" using True by linarith
      from less(1) [OF this that] show ?thesis by simp
    qed
    show ?thesis
      using less(2) True unfolding desc_run.simps [of lt lo avail n neq m]
      by (auto simp: and_then_Inr_iff split: if_splits dest: step)
  next
    case False
    then show ?thesis using less(2) unfolding desc_run.simps [of lt lo avail n neq m] by simp
  qed
qed

lemma count_run_pos:
  assumes "count_run lt lo avail m = (Inr k, m')"
  shows "0 < k"
proof -
  obtain n m1 where n: "asc_run lt lo avail 1 m = (Inr n, m1)" and
    rest: "(if n = avail then (Inr n, m1)
       else and_then (prefix_rose lt lo n m1) (\<lambda>rose m2.
         if rose then (Inr n, m2)
         else and_then (desc_run lt lo avail (n + 1) 0 m2) (\<lambda>(n', neq) m3.
           asc_run lt lo avail n' (reverse_range lo n' (flip_equal lo n' neq m3))))) = (Inr k, m')"
    using assms unfolding count_run_def and_then_Inr_iff by blast
  have "1 \<le> n" using asc_run_ge [OF n] .
  then show ?thesis using rest
    by (fastforce simp: and_then_Inr_iff split: if_splits prod.splits dest!: desc_run_ge asc_run_ge)
qed

lemma next_run_pos:
  assumes "next_run lt minrun lo nremaining m = (Inr k, m')" "0 < nremaining"
  shows "0 < k"
  using assms unfolding next_run_def and_then_Inr_iff Let_def
  by (auto simp: and_then_Inr_iff split: if_splits dest!: count_run_pos)

function sort_loop :: "('a, 's, 'e) comparator \<Rightarrow> nat \<Rightarrow> nat \<Rightarrow> nat \<Rightarrow> ('a, 's) merge_state
     \<Rightarrow> (('e + unit) \<times> ('a, 's) merge_state) option" where
  "sort_loop lt minrun lo nremaining m =
     (if nremaining > 0 then
        (case next_run lt minrun lo nremaining m of
           (Inl e, m1) \<Rightarrow> Some (Inl e, m1)
         | (Inr run, m1) \<Rightarrow>
             (case found_new_run lt run m1 of
                None \<Rightarrow> None
              | Some (Inl e, m2) \<Rightarrow> Some (Inl e, m2)
              | Some (Inr _, m2) \<Rightarrow> sort_loop lt minrun (lo + run) (nremaining - run) (push_run lo run m2)))
      else Some (merge_force_collapse lt m))"
  by pat_completeness auto
termination
  by (relation "measure (\<lambda>(lt, minrun, lo, nremaining, m). nremaining)") (auto dest!: next_run_pos [OF sym])

declare sort_loop.simps [simp del]

definition timsort :: "('a, 's, 'e) comparator \<Rightarrow> 'a list \<Rightarrow> 's \<Rightarrow> (('e + unit) \<times> ('a, 's) merge_state) option" where
  "timsort lt xs s =
     (let n = length xs; m = \<lparr>ms_arr = xs, ms_cmp = s, ms_gallop = MIN_GALLOP, ms_pending = []\<rparr>
      in if n < 2 then Some (Inr (), m) else sort_loop lt (compute_minrun n) 0 n m)"

end
