(* ===== verification/Sort_Spec.thy ===== *)
theory Sort_Spec
  imports Sort_Gallop
begin

text \<open>
  What a merge and a sort have to compute: the stable merge of two lists and the stable sorted
  rearrangement of a list, for a strict weak order \<open>r\<close>; and the bookkeeping of an unfinished
  merge, from the front (\<open>front\<close>) and from the back (\<open>back_of\<close>).
\<close>

section \<open>Sortedness and stability\<close>

definition ordered :: "('a \<Rightarrow> 'a \<Rightarrow> bool) \<Rightarrow> 'a list \<Rightarrow> bool" where
  "ordered r xs \<longleftrightarrow> sorted_wrt (\<lambda>a b. \<not> r b a) xs"

definition tied :: "('a \<Rightarrow> 'a \<Rightarrow> bool) \<Rightarrow> 'a \<Rightarrow> 'a \<Rightarrow> bool" where
  "tied r a b \<longleftrightarrow> \<not> r a b \<and> \<not> r b a"

text \<open>The elements tied with any one element come in the same order in both lists.\<close>

definition stable_eq :: "('a \<Rightarrow> 'a \<Rightarrow> bool) \<Rightarrow> 'a list \<Rightarrow> 'a list \<Rightarrow> bool" where
  "stable_eq r xs ys \<longleftrightarrow> (\<forall>a. filter (tied r a) xs = filter (tied r a) ys)"

lemma ordered_simps [simp]:
  "ordered r []" "ordered r [x]"
  "ordered r (x # xs) \<longleftrightarrow> (\<forall>y\<in>set xs. \<not> r y x) \<and> ordered r xs"
  "ordered r (xs @ ys) \<longleftrightarrow> ordered r xs \<and> ordered r ys \<and> (\<forall>x\<in>set xs. \<forall>y\<in>set ys. \<not> r y x)"
  by (auto simp: ordered_def sorted_wrt_append)

lemma ordered_take_drop: "ordered r xs \<Longrightarrow> ordered r (take k xs) \<and> ordered r (drop k xs)"
  using ordered_simps(4) [of r "take k xs" "drop k xs"] by simp

lemma ordered_nth: "ordered r xs \<Longrightarrow> i < j \<Longrightarrow> j < length xs \<Longrightarrow> \<not> r (xs ! j) (xs ! i)"
  unfolding ordered_def by (rule sorted_wrt_nth_less)

lemma ordered_hd: "ordered r xs \<Longrightarrow> strict_weak r \<Longrightarrow> y \<in> set xs \<Longrightarrow> \<not> r y (hd xs)"
  by (cases xs) (auto dest: strict_weakD(1))

lemma ordered_last: "ordered r xs \<Longrightarrow> strict_weak r \<Longrightarrow> y \<in> set xs \<Longrightarrow> \<not> r (last xs) y"
  by (cases xs rule: rev_cases) (auto dest: strict_weakD(1))

lemma stable_eq_refl [simp]: "stable_eq r xs xs"
  by (simp add: stable_eq_def)

lemma stable_eq_sym: "stable_eq r xs ys \<Longrightarrow> stable_eq r ys xs"
  by (simp add: stable_eq_def)

lemma stable_eq_trans: "stable_eq r xs ys \<Longrightarrow> stable_eq r ys zs \<Longrightarrow> stable_eq r xs zs"
  by (simp add: stable_eq_def)

lemma stable_eq_append: "stable_eq r xs xs' \<Longrightarrow> stable_eq r ys ys' \<Longrightarrow> stable_eq r (xs @ ys) (xs' @ ys')"
  by (simp add: stable_eq_def)

lemma stable_eq_swap:
  assumes "strict_weak r" "\<And>x y. x \<in> set xs \<Longrightarrow> y \<in> set ys \<Longrightarrow> \<not> tied r x y"
  shows "stable_eq r (xs @ ys) (ys @ xs)"
proof -
  have "filter (tied r a) xs = [] \<or> filter (tied r a) ys = []" for a
  proof (rule ccontr)
    assume "\<not> ?thesis"
    then obtain x y where "x \<in> set xs" "y \<in> set ys" "tied r a x" "tied r a y"
      by (auto simp: filter_empty_conv)
    then have "tied r x y" using strict_weakD(3) [OF assms(1)] unfolding tied_def by blast
    then show False using assms(2) \<open>x \<in> set xs\<close> \<open>y \<in> set ys\<close> by blast
  qed
  then show ?thesis unfolding stable_eq_def filter_append by (metis append_Nil append_Nil2)
qed

section \<open>Merging\<close>

fun merge :: "('a \<Rightarrow> 'a \<Rightarrow> bool) \<Rightarrow> 'a list \<Rightarrow> 'a list \<Rightarrow> 'a list" where
  "merge r (a # as) (b # bs) = (if r b a then b # merge r (a # as) bs else a # merge r as (b # bs))"
| "merge r as [] = as"
| "merge r [] bs = bs"

lemma merge_nil [simp]: "merge r [] ys = ys" "merge r xs [] = xs"
  by (cases ys; simp) (cases xs; simp)

lemma merge_mset [simp]: "mset (merge r xs ys) = mset xs + mset ys"
  by (induction r xs ys rule: merge.induct) auto

lemma merge_set [simp]: "set (merge r xs ys) = set xs \<union> set ys"
  by (metis merge_mset set_mset_mset set_mset_union)

text \<open>Blocks that are wholly before or after each other merge apart.\<close>

lemma merge_all_left: "\<forall>a\<in>set as. \<forall>b\<in>set bs. \<not> r b a \<Longrightarrow> merge r as bs = as @ bs"
  by (induction r as bs rule: merge.induct) auto

lemma merge_blocks:
  assumes "\<forall>a\<in>set as. \<forall>b\<in>set bs'. \<not> r b a" "\<forall>b\<in>set bs. \<forall>a\<in>set as'. r b a"
  shows "merge r (as @ as') (bs @ bs') = merge r as bs @ merge r as' bs'"
  using assms
proof (induction "length as + length bs" arbitrary: as bs rule: less_induct)
  case less
  show ?case
  proof (cases as)
    case Nil
    then show ?thesis using less(2,3) less(1) [of "[]" "tl bs"] by (cases bs; cases as') auto
  next
    case (Cons a as1)
    show ?thesis
    proof (cases bs)
      case Nil
      then show ?thesis using less(2,3) Cons less(1) [of as1 "[]"] by (cases bs') auto
    next
      case (Cons b bs1)
      then show ?thesis using less(2,3) \<open>as = a # as1\<close> less(1) [of as1 bs] less(1) [of as bs1] by simp
    qed
  qed
qed

lemma merge_ordered:
  assumes swo: "strict_weak r" and "ordered r xs" "ordered r ys"
  shows "ordered r (merge r xs ys)"
  using assms(2,3)
proof (induction xs arbitrary: ys)
  case (Cons a as)
  note outer = Cons
  from Cons.prems(2) show ?case
  proof (induction ys)
    case (Cons b bs)
    show ?case
    proof (cases "r b a")
      case True
      have "\<forall>y\<in>set (a # as) \<union> set bs. \<not> r y b"
      proof
        fix y assume "y \<in> set (a # as) \<union> set bs"
        then consider "y = a" | "\<not> r y a" | "\<not> r y b" using outer(2) Cons.prems by auto
        then show "\<not> r y b"
          by cases (use strict_weakD(2) [OF swo True] strict_weakD(6) [OF swo _ True] in blast)+
      qed
      then show ?thesis using True Cons.IH Cons.prems by simp
    next
      case False
      have "\<forall>y\<in>set as \<union> set (b # bs). \<not> r y a"
        using outer(2) Cons.prems False strict_weakD(3) [OF swo] by auto
      then show ?thesis using False outer(1) [of "b # bs"] outer(2) Cons.prems by simp
    qed
  qed (use outer in simp)
qed simp

lemma merge_stable:
  assumes swo: "strict_weak r" and "ordered r xs"
  shows "stable_eq r (merge r xs ys) (xs @ ys)"
  using assms(2)
proof (induction xs arbitrary: ys)
  case (Cons a as)
  note outer = Cons
  show ?case
  proof (induction ys)
    case (Cons b bs)
    show ?case
    proof (cases "r b a")
      case True
      have "r b x" if "x \<in> set (a # as)" for x
      proof (cases "x = a")
        case False
        then have "\<not> r x a" using that outer(2) by simp
        then show ?thesis by (rule strict_weakD(4) [OF swo True])
      qed (use True in simp)
      then have "stable_eq r ([b] @ (a # as)) ((a # as) @ [b])"
        by (intro stable_eq_swap [OF swo]) (simp add: tied_def)
      then have "stable_eq r (([b] @ (a # as)) @ bs) (((a # as) @ [b]) @ bs)"
        by (rule stable_eq_append) simp
      moreover have "stable_eq r ([b] @ merge r (a # as) bs) ([b] @ (a # as @ bs))"
        using Cons by (intro stable_eq_append) simp_all
      ultimately have "stable_eq r ([b] @ merge r (a # as) bs) (((a # as) @ [b]) @ bs)"
        by (simp add: stable_eq_def)
      then show ?thesis using True by simp
    next
      case False
      then show ?thesis using outer(1) [of "b # bs"] outer(2) by (simp add: stable_eq_def)
    qed
  qed simp
qed simp

section \<open>Unfinished merges\<close>

text \<open>
  From the front: \<open>M\<close> is merged, \<open>as\<close> and \<open>bs\<close> are left, and the last of \<open>as\<close> comes last.
\<close>

definition front :: "('a \<Rightarrow> 'a \<Rightarrow> bool) \<Rightarrow> 'a list \<Rightarrow> 'a list \<Rightarrow> 'a list \<Rightarrow> 'a list \<Rightarrow> bool" where
  "front r R M as bs \<longleftrightarrow> strict_weak r \<and> ordered r as \<and> ordered r bs \<and> as \<noteq> []
     \<and> (\<forall>b\<in>set bs. r b (last as)) \<and> R = M @ merge r as bs"

lemma front_take_a:
  assumes "front r R M as bs" "k < length as" "bs \<noteq> []" "\<forall>i<k. \<not> r (hd bs) (as ! i)"
  shows "front r R (M @ take k as) (drop k as) bs"
proof -
  have swo: "strict_weak r" using assms(1) by (simp add: front_def)
  have "\<not> r b a" if "a \<in> set (take k as)" "b \<in> set bs" for a b
  proof -
    have "\<not> r (hd bs) a" using that(1) assms(4) by (auto simp: in_set_conv_nth)
    moreover have "\<not> r b (hd bs)" using assms(1) that(2) ordered_hd [OF _ swo] by (auto simp: front_def)
    ultimately show ?thesis using strict_weakD(3) [OF swo] by blast
  qed
  then have "merge r (take k as @ drop k as) ([] @ bs) = merge r (take k as) [] @ merge r (drop k as) bs"
    by (intro merge_blocks) simp_all
  then show ?thesis using assms(1,2) by (simp add: front_def ordered_take_drop)
qed

lemma front_take_b:
  assumes "front r R M as bs" "k \<le> length bs" "\<forall>i<k. r (bs ! i) (hd as)"
  shows "front r R (M @ take k bs) as (drop k bs)"
proof -
  have swo: "strict_weak r" using assms(1) by (simp add: front_def)
  have "r b a" if "a \<in> set as" "b \<in> set (take k bs)" for a b
  proof (rule strict_weakD(4) [OF swo])
    show "r b (hd as)" using that(2) assms(3) by (auto simp: in_set_conv_nth)
    show "\<not> r a (hd as)" using assms(1) that(1) ordered_hd [OF _ swo] by (auto simp: front_def)
  qed
  then have "merge r ([] @ as) (take k bs @ drop k bs) = merge r [] (take k bs) @ merge r as (drop k bs)"
    by (intro merge_blocks) simp_all
  then show ?thesis using assms(1) by (auto simp: front_def ordered_take_drop dest: in_set_dropD)
qed

lemma front_one:
  assumes "front r R M [a] bs"
  shows "R = M @ bs @ [a]"
proof -
  have "merge r ([] @ [a]) (bs @ []) = merge r [] bs @ merge r [a] []"
    using assms by (intro merge_blocks) (simp_all add: front_def)
  then show ?thesis using assms by (simp add: front_def)
qed

lemma front_none: "front r R M as [] \<Longrightarrow> R = M @ as"
  by (simp add: front_def)

lemma front_last:
  assumes "front r R M as bs" "bs \<noteq> []" "k \<le> length as" "\<forall>i<k. \<not> r (hd bs) (as ! i)"
  shows "k < length as"
proof (rule ccontr)
  assume "\<not> ?thesis"
  then have "\<not> r (hd bs) (last as)" using assms by (auto simp: front_def last_conv_nth)
  then show False using assms(1,2) by (simp add: front_def)
qed

text \<open>From the back: \<open>M\<close> is merged, and the first of \<open>bs\<close> comes first.\<close>

definition back_of :: "('a \<Rightarrow> 'a \<Rightarrow> bool) \<Rightarrow> 'a list \<Rightarrow> 'a list \<Rightarrow> 'a list \<Rightarrow> 'a list \<Rightarrow> bool" where
  "back_of r R as bs M \<longleftrightarrow> strict_weak r \<and> ordered r as \<and> ordered r bs \<and> bs \<noteq> []
     \<and> (\<forall>a\<in>set as. r (hd bs) a) \<and> R = merge r as bs @ M"

lemma back_take_a:
  assumes "back_of r R as bs M" "k \<le> length as" "\<forall>i. k \<le> i \<longrightarrow> i < length as \<longrightarrow> r (last bs) (as ! i)"
  shows "back_of r R (take k as) bs (drop k as @ M)"
proof -
  have swo: "strict_weak r" using assms(1) by (simp add: back_of_def)
  have "r b a" if "b \<in> set bs" "a \<in> set (drop k as)" for a b
  proof (rule strict_weakD(5) [OF swo])
    show "r (last bs) a" using that(2) assms(2,3) by (auto simp: in_set_conv_nth)
    show "\<not> r (last bs) b" using assms(1) that(1) ordered_last [OF _ swo] by (auto simp: back_of_def)
  qed
  then have "merge r (take k as @ drop k as) (bs @ []) = merge r (take k as) bs @ merge r (drop k as) []"
    by (intro merge_blocks) simp_all
  then show ?thesis using assms(1) by (auto simp: back_of_def ordered_take_drop dest: in_set_takeD)
qed

lemma back_take_b:
  assumes "back_of r R as bs M" "0 < k" "k \<le> length bs" "as \<noteq> []"
    "\<forall>i. k \<le> i \<longrightarrow> i < length bs \<longrightarrow> \<not> r (bs ! i) (last as)"
  shows "back_of r R as (take k bs) (drop k bs @ M)"
proof -
  have swo: "strict_weak r" using assms(1) by (simp add: back_of_def)
  have "\<not> r b a" if "b \<in> set (drop k bs)" "a \<in> set as" for a b
  proof -
    have "\<not> r b (last as)" using that(1) assms(3,5) by (auto simp: in_set_conv_nth)
    moreover have "\<not> r (last as) a" using assms(1) that(2) ordered_last [OF _ swo] by (auto simp: back_of_def)
    ultimately show ?thesis using strict_weakD(3) [OF swo] by blast
  qed
  then have "merge r (as @ []) (take k bs @ drop k bs) = merge r as (take k bs) @ merge r [] (drop k bs)"
    by (intro merge_blocks) simp_all
  then show ?thesis using assms(1,2) by (auto simp: back_of_def ordered_take_drop)
qed

lemma back_one:
  assumes "back_of r R as [b] M"
  shows "R = b # as @ M"
proof -
  have "merge r ([] @ as) ([b] @ []) = merge r [] [b] @ merge r as []"
    using assms by (intro merge_blocks) (simp_all add: back_of_def)
  then show ?thesis using assms by (simp add: back_of_def)
qed

lemma back_none: "back_of r R [] bs M \<Longrightarrow> R = bs @ M"
  by (simp add: back_of_def)

lemma back_first:
  assumes "back_of r R as bs M" "as \<noteq> []" "k \<le> length bs" "\<forall>i. k \<le> i \<longrightarrow> i < length bs \<longrightarrow> \<not> r (bs ! i) (last as)"
  shows "0 < k"
proof (rule ccontr)
  assume "\<not> ?thesis"
  then have "\<not> r (hd bs) (last as)" using assms by (auto simp: back_of_def hd_conv_nth)
  then show False using assms(1,2) by (simp add: back_of_def)
qed

end
