(* ===== verification/Sort_Runs.thy ===== *)
theory Sort_Runs
  imports Sort_Spec
begin

text \<open>
  \<open>binarysort\<close> and \<open>count_run\<close> are correct: whatever the comparator answers they rearrange
  their span, and with a consistent one the rearrangement is stable and what they promise to
  be sorted is sorted.
\<close>

section \<open>Spans\<close>

text \<open>The span between \<open>pre\<close> and \<open>post\<close> holds the elements of \<open>U\<close>, and \<open>P\<close> holds of it.\<close>

definition within :: "run list \<Rightarrow> 'a list \<Rightarrow> 'a list \<Rightarrow> 'a multiset \<Rightarrow> ('a list \<Rightarrow> bool) \<Rightarrow> ('a, 's) merge_state \<Rightarrow> bool" where
  "within ps pre post U P m \<longleftrightarrow>
     ms_pending m = ps \<and> (\<exists>zs. ms_arr m = pre @ zs @ post \<and> mset zs = U \<and> P zs)"

lemma withinI: "ms_pending m = ps \<Longrightarrow> ms_arr m = pre @ zs @ post \<Longrightarrow> mset zs = U \<Longrightarrow> P zs \<Longrightarrow> within ps pre post U P m"
  unfolding within_def by blast

lemma within_weaken: "within ps pre post U P m \<Longrightarrow> (\<And>zs. P zs \<Longrightarrow> Q zs) \<Longrightarrow> within ps pre post U Q m"
  unfolding within_def by blast

lemma within_compare: "within ps pre post U P m \<Longrightarrow> cmp_only m m' \<Longrightarrow> within ps pre post U P m'"
  by (auto simp: within_def cmp_only_iff)

lemma span_nth: "length pre = lo \<Longrightarrow> i < length zs \<Longrightarrow> (pre @ zs @ post) ! (lo + i) = zs ! i"
  by (auto simp: nth_append)

lemma mset_split: "mset (take n xs) + mset (drop n xs) = mset xs"
  by (simp flip: mset_append)

section \<open>\<open>binarysort\<close>\<close>

lemma pivot_search_gallop:
  assumes "ms_arr m = xs" "l \<le> u"
  shows "pivot_search lt lo ok l u m
    = gallop_search (\<lambda>i m. and_then (less_than lt (xs ! (lo + ok)) (xs ! (lo + i)) m) (\<lambda>b m'. (Inr (\<not> b), m'))) l u m"
  using assms
proof (induction "u - l" arbitrary: l u m rule: less_induct)
  case less
  let ?p = "\<lambda>i m. and_then (less_than lt (xs ! (lo + ok)) (xs ! (lo + i)) m) (\<lambda>b m'. (Inr (\<not> b), m'))"
  show ?case
  proof (cases "l < u")
    case True
    have mid: "l + (u - l) div 2 = (l + u) div 2" using True by linarith
    obtain res m' where res: "less_than lt (xs ! (lo + ok)) (xs ! (lo + (l + u) div 2)) m = (res, m')"
      by (rule prod.exhaust)
    have "ms_arr m' = xs" using res less(2) by (auto simp: less_than_def split: prod.splits)
    moreover have "u - ((l + u) div 2 + 1) < u - l" "(l + u) div 2 - l < u - l" using True by linarith+
    ultimately show ?thesis
      using True res less(2,3) less(1) [of u "(l + u) div 2 + 1" m'] less(1) [of "(l + u) div 2" l m']
      by (cases res) (simp_all add: pivot_search.simps [of lt lo ok l u] gallop_search.simps [of _ l u] mid Let_def)
  next
    case False
    then show ?thesis using less(3)
      by (subst pivot_search.simps, subst gallop_search.simps) simp
  qed
qed

lemma insert_pivot_moves:
  assumes "ms_arr m = pre @ us @ ys @ v # ws" "lo = length pre" "l = length us" "ok = l + length ys"
  shows "ms_arr (insert_pivot lo l ok m) = pre @ us @ v # ys @ ws"
proof -
  have "slice (ms_arr m) (lo + l) (lo + l + (ok - l)) = ys"
    by (simp add: assms slice_def)
  moreover have "ms_arr m ! (lo + ok) = v"
    by (simp add: assms nth_append)
  ultimately show ?thesis
    by (cases ys) (simp_all add: insert_pivot_def copy_within_def write_at_def Let_def assms list_update_append)
qed

lemma stable_insert:
  assumes swo: "strict_weak r" and "\<And>y. y \<in> set ys \<Longrightarrow> r x y"
  shows "stable_eq r (us @ [x] @ ys @ vs) (us @ ys @ [x] @ vs)"
proof -
  have "stable_eq r ([x] @ ys) (ys @ [x])"
    by (rule stable_eq_swap [OF swo]) (use assms(2) in \<open>auto simp: tied_def\<close>)
  then have "stable_eq r (us @ ([x] @ ys) @ vs) (us @ (ys @ [x]) @ vs)"
    by (rule stable_eq_append [OF stable_eq_refl stable_eq_append [OF _ stable_eq_refl]])
  then show ?thesis by simp
qed

lemma ordered_insert:
  assumes swo: "strict_weak r" and "ordered r (us @ ys)"
    and "\<And>u. u \<in> set us \<Longrightarrow> \<not> r x u" "\<And>y. y \<in> set ys \<Longrightarrow> r x y"
  shows "ordered r (us @ [x] @ ys)"
  using assms(2-) strict_weakD(2) [OF swo] by auto

text \<open>One element is inserted into the sorted prefix.\<close>

definition prefix_sorted :: "bool \<Rightarrow> ('a \<Rightarrow> 'a \<Rightarrow> bool) \<Rightarrow> 'a list \<Rightarrow> nat \<Rightarrow> 'a list \<Rightarrow> bool" where
  "prefix_sorted C r xs n zs \<longleftrightarrow> (C \<longrightarrow> ordered r (take n zs) \<and> stable_eq r zs xs)"

lemma pivot_search_outcome:
  assumes lt: "answers lt C r" and swo: "C \<Longrightarrow> strict_weak r" and arr: "ms_arr m = pre @ zs @ post"
    and ok: "ok < length zs" and sorted: "C \<Longrightarrow> ordered r (take ok zs)"
  shows "outcome (cmp_only m) (\<lambda>l m'. cmp_only m m' \<and> l \<le> ok
      \<and> (C \<longrightarrow> ends_at (\<lambda>i. \<not> r (zs ! ok) (zs ! i)) ok l)) (pivot_search lt (length pre) ok 0 ok m)"
proof -
  have el: "ms_arr m ! (length pre + i) = zs ! i" if "i \<le> ok" for i
    using that ok by (simp add: arr nth_append)
  show ?thesis
    unfolding pivot_search_gallop [OF refl le0]
  proof (rule gallop_search_outcome [where n = ok])
    show "tells (\<lambda>i ma. and_then (less_than lt (ms_arr m ! (length pre + ok)) (ms_arr m ! (length pre + i)) ma)
        (\<lambda>b m'. (Inr (\<not> b), m'))) C (\<lambda>i. \<not> r (zs ! ok) (zs ! i)) ok"
      unfolding tells_def
      by (intro allI impI outcome_and_then [OF less_than_outcome [OF lt]]) (simp add: el)
    show "prefix_test (\<lambda>i. \<not> r (zs ! ok) (zs ! i)) ok" if C
      unfolding prefix_test_def
    proof (intro allI impI)
      fix i j assume ij: "i \<le> j" "j < ok" "\<not> r (zs ! ok) (zs ! j)"
      then have "\<not> r (zs ! j) (zs ! i)"
        using ordered_nth [OF sorted [OF that], of i j] strict_weakD(1) [OF swo [OF that]] ok
        by (cases "i = j") simp_all
      then show "\<not> r (zs ! ok) (zs ! i)" using ij(3) strict_weakD(3) [OF swo [OF that]] by blast
    qed
  qed simp_all
qed

lemma insert_pivot_sorted:
  assumes swo: "C \<Longrightarrow> strict_weak r" and arr: "ms_arr m = pre @ zs @ post"
    and ok: "ok < length zs" and l: "l \<le> ok" "C \<longrightarrow> ends_at (\<lambda>i. \<not> r (zs ! ok) (zs ! i)) ok l"
    and P: "prefix_sorted C r xs ok zs"
  shows "within (ms_pending m) pre post (mset zs) (prefix_sorted C r xs (ok + 1))
    (insert_pivot (length pre) l ok m)"
proof -
  let ?us = "take l zs" and ?ys = "drop l (take ok zs)" and ?v = "zs ! ok" and ?ws = "drop (ok + 1) zs"
  have parts: "take ok zs = ?us @ ?ys" using l(1) by (metis append_take_drop_id min.absorb1 take_take)
  have zs: "zs = ?us @ ?ys @ ?v # ?ws"
    using id_take_nth_drop [OF ok] parts by (metis Suc_eq_plus1 append.assoc)
  have new: "ms_arr (insert_pivot (length pre) l ok m) = pre @ (?us @ [?v] @ ?ys @ ?ws) @ post"
    using insert_pivot_moves [of m pre ?us ?ys ?v "?ws @ post" "length pre" l ok] arr zs ok l(1) by simp
  show ?thesis
  proof (rule withinI [OF _ new])
    show "mset (?us @ [?v] @ ?ys @ ?ws) = mset zs" by (subst (5) zs) simp
    show "prefix_sorted C r xs (ok + 1) (?us @ [?v] @ ?ys @ ?ws)"
      unfolding prefix_sorted_def
    proof (intro impI conjI)
      assume C
      have us: "\<not> r ?v u" if "u \<in> set ?us" for u
        using that l \<open>C\<close> by (auto simp: ends_at_def in_set_conv_nth)
      have ys: "r ?v y" if "y \<in> set ?ys" for y
        using that l \<open>C\<close> by (auto simp: ends_at_def in_set_conv_nth)
      have "take (ok + 1) (?us @ [?v] @ ?ys @ ?ws) = ?us @ [?v] @ ?ys" using l(1) ok by (simp add: take_Cons')
      moreover have "ordered r (?us @ ?ys)" using P \<open>C\<close> by (simp add: prefix_sorted_def flip: parts)
      ultimately show "ordered r (take (ok + 1) (?us @ [?v] @ ?ys @ ?ws))"
        using ordered_insert [OF swo [OF \<open>C\<close>] _ us ys] by (simp only: simp_thms)
      have "stable_eq r (?us @ [?v] @ ?ys @ ?ws) (?us @ ?ys @ [?v] @ ?ws)"
        by (rule stable_insert [OF swo [OF \<open>C\<close>] ys])
      then show "stable_eq r (?us @ [?v] @ ?ys @ ?ws) xs"
        using zs P \<open>C\<close> unfolding prefix_sorted_def by (metis append_Cons append_Nil stable_eq_trans)
    qed
  qed (simp add: insert_pivot_def Let_def)
qed

lemma binary_loop_outcome:
  assumes lt: "answers lt C r" and swo: "C \<Longrightarrow> strict_weak r" and n: "n \<le> size U"
    and "within ps pre post U (prefix_sorted C r xs ok) m" "ok \<le> n"
  shows "outcome (within ps pre post U (\<lambda>_. True)) (\<lambda>_. within ps pre post U (prefix_sorted C r xs n))
    (binary_loop lt (length pre) n ok m)"
  using assms(4,5)
proof (induction "n - ok" arbitrary: ok m rule: less_induct)
  case less
  show ?case
  proof (cases "ok < n")
    case True
    obtain zs where zs: "ms_pending m = ps" "ms_arr m = pre @ zs @ post" "mset zs = U" "prefix_sorted C r xs ok zs"
      using less(2) unfolding within_def by blast
    have ok: "ok < length zs" using True n zs(3) size_mset [of zs] by simp
    have sorted: "C \<Longrightarrow> ordered r (take ok zs)" using zs(4) by (simp add: prefix_sorted_def)
    have search: "outcome (within ps pre post U (\<lambda>_. True)) (\<lambda>l m'. cmp_only m m' \<and> l \<le> ok
      \<and> (C \<longrightarrow> ends_at (\<lambda>i. \<not> r (zs ! ok) (zs ! i)) ok l)) (pivot_search lt (length pre) ok 0 ok m)"
      by (rule outcome_weaken [OF pivot_search_outcome [OF lt swo zs(2) ok sorted]])
        (auto intro: within_weaken [OF within_compare [OF less(2)]])
    show ?thesis
      unfolding binary_loop.simps [of lt "length pre" n ok m] if_P [OF True]
    proof (rule outcome_and_then [OF search])
      fix l m'
      assume post: "cmp_only m m' \<and> l \<le> ok \<and> (C \<longrightarrow> ends_at (\<lambda>i. \<not> r (zs ! ok) (zs ! i)) ok l)"
      then have m': "ms_arr m' = pre @ zs @ post" "ms_pending m' = ps" using zs by (simp_all add: cmp_only_iff)
      have "within ps pre post U (prefix_sorted C r xs (ok + 1)) (insert_pivot (length pre) l ok m')"
        using insert_pivot_sorted [where l = l and xs = xs, OF swo m'(1) ok] post zs(3,4) m'(2) by simp
      moreover have "n - (ok + 1) < n - ok" "ok + 1 \<le> n" using True by linarith+
      ultimately show "outcome (within ps pre post U (\<lambda>_. True)) (\<lambda>_. within ps pre post U (prefix_sorted C r xs n))
        (binary_loop lt (length pre) n (ok + 1) (insert_pivot (length pre) l ok m'))"
        by (intro less(1))
    qed
  next
    case False
    then show ?thesis
      using less(2,3) unfolding binary_loop.simps [of lt "length pre" n ok m] by simp
  qed
qed

lemma binarysort_outcome:
  assumes lt: "answers lt C r" and swo: "C \<Longrightarrow> strict_weak r" and n: "0 < n" "n \<le> size U"
    and "within ps pre post U (prefix_sorted C r xs ok) m" "ok \<le> n"
  shows "outcome (within ps pre post U (\<lambda>_. True)) (\<lambda>_. within ps pre post U (prefix_sorted C r xs n))
    (binarysort lt (length pre) n ok m)"
proof -
  have "within ps pre post U (prefix_sorted C r xs (max ok 1)) m"
  proof (rule within_weaken [OF assms(5)])
    show "prefix_sorted C r xs (max ok 1) zs" if "prefix_sorted C r xs ok zs" for zs
      using that by (cases ok; cases zs) (auto simp: prefix_sorted_def max_def)
  qed
  then show ?thesis unfolding binarysort_def using n assms(6) by (intro binary_loop_outcome [OF lt swo]) auto
qed

end
