(* ===== verification/Sort_Count.thy ===== *)
theory Sort_Count
  imports Sort_Runs
begin

text \<open>
  \<open>count_run\<close> is correct. A descending run is made ascending by reversal; the equal runs inside
  it are reversed on the way, so that the reversal puts them back in their order.
\<close>

section \<open>Ascending runs\<close>

lemma ordered_snoc:
  assumes swo: "strict_weak r" and "ordered r (take n zs)" "0 < n" "n < length zs" "\<not> r (zs ! n) (zs ! (n - 1))"
  shows "ordered r (take (n + 1) zs)"
proof -
  have "last (take n zs) = zs ! (n - 1)" using assms(3,4) by (subst last_conv_nth) auto
  then have "\<not> r (zs ! n) y" if "y \<in> set (take n zs)" for y
    using ordered_last [OF assms(2) swo that] assms(5) strict_weakD(3) [OF swo] by metis
  then show ?thesis using assms(2,4) by (simp add: take_Suc_conv_app_nth)
qed

lemma next_smaller_outcome:
  assumes lt: "answers lt C r" and arr: "ms_arr m = pre @ zs @ post" and n: "0 < n" "n < length zs"
  shows "outcome (cmp_only m) (\<lambda>v m'. cmp_only m m' \<and> (C \<longrightarrow> v = r (zs ! n) (zs ! (n - 1)))) (next_smaller lt (length pre) n m)"
    "outcome (cmp_only m) (\<lambda>v m'. cmp_only m m' \<and> (C \<longrightarrow> v = r (zs ! (n - 1)) (zs ! n))) (next_larger lt (length pre) n m)"
proof -
  have at: "ms_arr m ! (length pre + n) = zs ! n" "ms_arr m ! (length pre + n - 1) = zs ! (n - 1)"
    using n by (cases n; simp add: arr nth_append)+
  show "outcome (cmp_only m) (\<lambda>v m'. cmp_only m m' \<and> (C \<longrightarrow> v = r (zs ! n) (zs ! (n - 1)))) (next_smaller lt (length pre) n m)"
    unfolding next_smaller_def at by (rule less_than_outcome [OF lt])
  show "outcome (cmp_only m) (\<lambda>v m'. cmp_only m m' \<and> (C \<longrightarrow> v = r (zs ! (n - 1)) (zs ! n))) (next_larger lt (length pre) n m)"
    unfolding next_larger_def at by (rule less_than_outcome [OF lt])
qed

lemma asc_run_outcome:
  assumes lt: "answers lt C r" and swo: "C \<Longrightarrow> strict_weak r" and arr: "ms_arr m0 = pre @ zs @ post"
    and "avail \<le> length zs" and "cmp_only m0 m" "0 < n" "n \<le> avail" "C \<longrightarrow> ordered r (take n zs)"
  shows "outcome (cmp_only m0) (\<lambda>k m'. cmp_only m0 m' \<and> n \<le> k \<and> k \<le> avail
      \<and> (C \<longrightarrow> ordered r (take k zs) \<and> (k < avail \<longrightarrow> r (zs ! k) (zs ! (k - 1))))) (asc_run lt (length pre) avail n m)"
  using assms(5-)
proof (induction "avail - n" arbitrary: n m rule: less_induct)
  case less
  let ?E = "cmp_only m0"
  show ?case
  proof (cases "n < avail")
    case True
    have arr': "ms_arr m = pre @ zs @ post" using arr less(2) by (simp add: cmp_only_iff)
    have "outcome ?E (\<lambda>v m'. ?E m' \<and> (C \<longrightarrow> v = r (zs ! n) (zs ! (n - 1)))) (next_smaller lt (length pre) n m)"
      by (rule outcome_weaken [OF next_smaller_outcome(1) [OF lt arr']])
        (use True less(2,3) assms(4) in \<open>auto intro: cmp_only_trans\<close>)
    then show ?thesis
      unfolding asc_run.simps [of lt "length pre" avail n m] if_P [OF True]
    proof (rule outcome_and_then)
      fix v m'
      assume post: "?E m' \<and> (C \<longrightarrow> v = r (zs ! n) (zs ! (n - 1)))"
      show "outcome ?E (\<lambda>k m'. ?E m' \<and> n \<le> k \<and> k \<le> avail
        \<and> (C \<longrightarrow> ordered r (take k zs) \<and> (k < avail \<longrightarrow> r (zs ! k) (zs ! (k - 1)))))
        (if v then (Inr n, m') else asc_run lt (length pre) avail (n + 1) m')"
      proof (cases v)
        case False
        have "C \<longrightarrow> ordered r (take (n + 1) zs)"
          using False post ordered_snoc [OF swo] less(3,5) True assms(4) by auto
        moreover have "avail - (n + 1) < avail - n" using True by linarith
        ultimately have "outcome ?E (\<lambda>k m'. ?E m' \<and> n + 1 \<le> k \<and> k \<le> avail
          \<and> (C \<longrightarrow> ordered r (take k zs) \<and> (k < avail \<longrightarrow> r (zs ! k) (zs ! (k - 1)))))
          (asc_run lt (length pre) avail (n + 1) m')"
          using post True by (intro less(1)) simp_all
        then show ?thesis unfolding if_not_P [OF False] by (rule outcome_weaken) simp_all
      qed (use post less(4,5) in simp)
    qed
  next
    case False
    then show ?thesis using less(2-) unfolding asc_run.simps [of lt "length pre" avail n m] by simp
  qed
qed

section \<open>Reversals\<close>

lemma reverse_range_moves:
  assumes "ms_arr m = pre @ us @ ys @ ws" "lo = length pre + length us"
  shows "ms_arr (reverse_range lo (length ys) m) = pre @ us @ rev ys @ ws"
    "ms_pending (reverse_range lo (length ys) m) = ms_pending m"
  by (simp_all add: reverse_range_def assms slice_def write_at_def)

lemma flip_equal_moves:
  assumes "ms_arr m = pre @ D @ E @ ws" "length (D @ E) = n" "length E = neq + 1"
  shows "ms_arr (flip_equal (length pre) n neq m) = pre @ D @ rev E @ ws"
    "ms_pending (flip_equal (length pre) n neq m) = ms_pending m"
proof -
  have lo: "length pre + n - (neq + 1) = length pre + length D" using assms(2,3) by simp
  have flip: "flip_equal (length pre) n neq m
      = (if neq > 0 then reverse_range (length pre + length D) (length E) m else m)"
    by (simp only: flip_equal_def lo assms(3))
  have single: "neq = 0 \<Longrightarrow> rev E = E" using assms(3) by (cases E; cases "tl E") auto
  show "ms_arr (flip_equal (length pre) n neq m) = pre @ D @ rev E @ ws"
    "ms_pending (flip_equal (length pre) n neq m) = ms_pending m"
    unfolding flip using reverse_range_moves [OF assms(1) refl] single assms(1) by (cases "neq = 0"; simp)+
qed

section \<open>Descending runs\<close>

text \<open>
  \<open>D @ E\<close> has replaced the first elements \<open>os\<close> of the span: \<open>E\<close> is the equal run at the end,
  still in its order; reversing it and then everything gives the sorted, stable \<open>E @ rev D\<close>.
\<close>

definition descending :: "('a \<Rightarrow> 'a \<Rightarrow> bool) \<Rightarrow> 'a list \<Rightarrow> 'a list \<Rightarrow> 'a list \<Rightarrow> bool" where
  "descending r os D E \<longleftrightarrow> (\<forall>x\<in>set E. \<forall>y\<in>set E. \<not> r x y) \<and> (\<forall>x\<in>set E. \<forall>y\<in>set D. r x y)
     \<and> ordered r (rev D) \<and> stable_eq r (E @ rev D) os"

lemma descending_result:
  assumes "strict_weak r" "descending r os D E"
  shows "ordered r (E @ rev D)" "stable_eq r (E @ rev D) os"
proof -
  have "ordered r xs" if "\<forall>x\<in>set xs. \<forall>y\<in>set xs. \<not> r x y" for xs using that by (induction xs) auto
  then show "ordered r (E @ rev D)" using assms strict_weakD(2) [OF assms(1)]
    unfolding descending_def by simp
  show "stable_eq r (E @ rev D) os" using assms(2) by (simp add: descending_def)
qed

lemma descending_smaller:
  assumes swo: "strict_weak r" and desc: "descending r os D E" and ne: "E \<noteq> []" and x: "r x (last E)"
  shows "descending r (os @ [x]) (D @ rev E) [x]"
proof -
  have less: "r x y" if "y \<in> set (E @ rev D)" for y
  proof (cases "y \<in> set E")
    case True
    then have "\<not> r y (last E)" using desc ne by (simp add: descending_def)
    then show ?thesis using x strict_weakD(4) [OF swo] by blast
  next
    case False
    then have "r (last E) y" using desc ne that by (simp add: descending_def)
    then show ?thesis using x strict_weakD(6) [OF swo] by blast
  qed
  have "stable_eq r ([x] @ (E @ rev D)) ((E @ rev D) @ [x])"
    by (rule stable_eq_swap [OF swo]) (use less in \<open>auto simp: tied_def\<close>)
  moreover have "stable_eq r ((E @ rev D) @ [x]) (os @ [x])"
    by (rule stable_eq_append [OF descending_result(2) [OF swo desc] stable_eq_refl])
  ultimately have "stable_eq r ([x] @ rev (D @ rev E)) (os @ [x])"
    by (simp only: rev_append rev_rev_ident) (rule stable_eq_trans)
  moreover have "\<forall>y\<in>set (D @ rev E). r x y" using less by auto
  moreover have "ordered r (rev (D @ rev E))" using descending_result(1) [OF swo desc] by simp
  moreover have "\<not> r x x" by (rule strict_weakD(1) [OF swo])
  ultimately show ?thesis unfolding descending_def by simp
qed

lemma descending_tied:
  assumes swo: "strict_weak r" and desc: "descending r os D E" and ne: "E \<noteq> []" and x: "tied r x (last E)"
  shows "descending r (os @ [x]) D (E @ [x])"
proof -
  have less: "r x y" if "y \<in> set D" for y
    using desc ne that x strict_weakD(5) [OF swo, of "last E" x y] by (simp add: descending_def tied_def)
  have tie: "\<not> r x y \<and> \<not> r y x" if "y \<in> set E" for y
    using desc ne that x strict_weakD(3) [OF swo] unfolding descending_def tied_def by (meson last_in_set)
  have "stable_eq r (E @ [x] @ rev D @ []) (E @ rev D @ [x] @ [])"
    by (rule stable_insert [OF swo]) (use less in simp)
  moreover have "stable_eq r ((E @ rev D) @ [x]) (os @ [x])"
    by (rule stable_eq_append [OF descending_result(2) [OF swo desc] stable_eq_refl])
  ultimately have "stable_eq r ((E @ [x]) @ rev D) (os @ [x])"
    by (simp add: stable_eq_def)
  then show ?thesis using desc less tie strict_weakD(1) [OF swo] unfolding descending_def by auto
qed

text \<open>The loop state of the descending run: the span is \<open>D @ E\<close> and the untouched rest.\<close>

definition desc_at :: "bool \<Rightarrow> ('a \<Rightarrow> 'a \<Rightarrow> bool) \<Rightarrow> 'a list \<Rightarrow> nat \<Rightarrow> nat \<Rightarrow> 'a list \<Rightarrow> bool" where
  "desc_at C r xs n neq zs \<longleftrightarrow> (\<exists>D E. zs = D @ E @ drop n xs \<and> length (D @ E) = n \<and> length E = neq + 1
     \<and> (C \<longrightarrow> descending r (take n xs) D E))"

lemma desc_at_smaller:
  assumes swo: "C \<Longrightarrow> strict_weak r" and m: "within ps pre post U (desc_at C r xs n neq) m" "n < length xs"
    and x: "\<And>zs. C \<Longrightarrow> ms_arr m = pre @ zs @ post \<Longrightarrow> r (zs ! n) (zs ! (n - 1))"
  shows "within ps pre post U (desc_at C r xs (n + 1) 0) (flip_equal (length pre) n neq m)"
proof -
  obtain zs where zs: "ms_pending m = ps" "ms_arr m = pre @ zs @ post" "mset zs = U" "desc_at C r xs n neq zs"
    using m(1) unfolding within_def by blast
  obtain D E where DE: "zs = D @ E @ drop n xs" "length (D @ E) = n" "length E = neq + 1"
    "C \<longrightarrow> descending r (take n xs) D E" using zs(4) unfolding desc_at_def by blast
  have ne: "E \<noteq> []" using DE(3) by auto
  have rest: "drop n xs = xs ! n # drop (n + 1) xs" using m(2) by (simp add: Cons_nth_drop_Suc)
  have "zs ! n = xs ! n" "zs ! (n - 1) = last E"
    using DE(1,2) ne rest by (auto simp: nth_append last_conv_nth)
  then have "descending r (take n xs @ [xs ! n]) (D @ rev E) [xs ! n]" if C
    using descending_smaller [OF swo _ ne] DE(4) x [OF _ zs(2)] that by simp
  then have desc: "C \<longrightarrow> descending r (take (n + 1) xs) (D @ rev E) [xs ! n]"
    using m(2) by (simp add: take_Suc_conv_app_nth)
  have arr: "ms_arr m = pre @ D @ E @ (drop n xs @ post)" using zs(2) DE(1) by simp
  show ?thesis
  proof (rule withinI)
    show "ms_arr (flip_equal (length pre) n neq m) = pre @ ((D @ rev E) @ [xs ! n] @ drop (n + 1) xs) @ post"
      using flip_equal_moves(1) [OF arr DE(2,3)] rest by simp
    show "ms_pending (flip_equal (length pre) n neq m) = ps" using flip_equal_moves(2) [OF arr DE(2,3)] zs(1) by simp
    show "mset ((D @ rev E) @ [xs ! n] @ drop (n + 1) xs) = U" using zs(3) DE(1) rest by simp
    show "desc_at C r xs (n + 1) 0 ((D @ rev E) @ [xs ! n] @ drop (n + 1) xs)"
      unfolding desc_at_def using DE(2) desc by (intro exI [of _ "D @ rev E"] exI [of _ "[xs ! n]"]) simp
  qed
qed

lemma desc_at_tied:
  assumes swo: "C \<Longrightarrow> strict_weak r" and m: "within ps pre post U (desc_at C r xs n neq) m" "n < length xs"
    and x: "\<And>zs. C \<Longrightarrow> ms_arr m = pre @ zs @ post \<Longrightarrow> tied r (zs ! n) (zs ! (n - 1))"
  shows "within ps pre post U (desc_at C r xs (n + 1) (neq + 1)) m"
proof -
  obtain zs where zs: "ms_pending m = ps" "ms_arr m = pre @ zs @ post" "mset zs = U" "desc_at C r xs n neq zs"
    using m(1) unfolding within_def by blast
  obtain D E where DE: "zs = D @ E @ drop n xs" "length (D @ E) = n" "length E = neq + 1"
    "C \<longrightarrow> descending r (take n xs) D E" using zs(4) unfolding desc_at_def by blast
  have ne: "E \<noteq> []" using DE(3) by auto
  have rest: "drop n xs = xs ! n # drop (n + 1) xs" using m(2) by (simp add: Cons_nth_drop_Suc)
  have "zs ! n = xs ! n" "zs ! (n - 1) = last E"
    using DE(1,2) ne rest by (auto simp: nth_append last_conv_nth)
  then have "descending r (take n xs @ [xs ! n]) D (E @ [xs ! n])" if C
    using descending_tied [OF swo _ ne] DE(4) x [OF _ zs(2)] that by simp
  then have "desc_at C r xs (n + 1) (neq + 1) zs"
    unfolding desc_at_def using DE rest m(2)
    by (intro exI [of _ D] exI [of _ "E @ [xs ! n]"]) (simp add: take_Suc_conv_app_nth)
  then show ?thesis using zs by (intro withinI)
qed

lemma desc_run_outcome:
  assumes lt: "answers lt C r" and swo: "C \<Longrightarrow> strict_weak r" and avail: "avail \<le> length xs"
    and "within ps pre post U (desc_at C r xs n neq) m" "n \<le> avail"
  shows "outcome (within ps pre post U (\<lambda>_. True))
    (\<lambda>v m'. case v of (n', neq') \<Rightarrow> n' \<le> avail \<and> within ps pre post U (desc_at C r xs n' neq') m')
    (desc_run lt (length pre) avail n neq m)"
  using assms(4,5)
proof (induction "avail - n" arbitrary: n neq m rule: less_induct)
  case less
  let ?E = "within ps pre post U (\<lambda>_. True)"
  let ?Q = "\<lambda>v m'. case v of (n', neq') \<Rightarrow> n' \<le> avail \<and> within ps pre post U (desc_at C r xs n' neq') m'"
  show ?case
  proof (cases "n < avail")
    case True
    obtain zs where zs: "ms_arr m = pre @ zs @ post" "desc_at C r xs n neq zs"
      using less(2) unfolding within_def by blast
    have n: "0 < n" "n < length zs" "n < length xs" using zs(2) True avail by (auto simp: desc_at_def)
    have dec: "avail - (n + 1) < avail - n" "n + 1 \<le> avail" using True by linarith+
    have fail: "?E m'" if "cmp_only m m'" for m'
      by (rule within_weaken [OF within_compare [OF less(2) that]]) simp
    show ?thesis
      unfolding desc_run.simps [of lt "length pre" avail n neq m] if_P [OF True]
    proof (rule outcome_and_then [OF outcome_weaken [OF next_smaller_outcome(1) [OF lt zs(1) n(1,2)] fail]])
      fix smaller m'
      assume post: "cmp_only m m' \<and> (C \<longrightarrow> smaller = r (zs ! n) (zs ! (n - 1)))"
      then have m': "within ps pre post U (desc_at C r xs n neq) m'" "ms_arr m' = pre @ zs @ post"
        using within_compare [OF less(2)] zs(1) by (auto simp: cmp_only_iff)
      show "outcome ?E ?Q (if smaller then desc_run lt (length pre) avail (n + 1) 0 (flip_equal (length pre) n neq m')
        else and_then (next_larger lt (length pre) n m') (\<lambda>larger m''.
          if larger then (Inr (n, neq), m'') else desc_run lt (length pre) avail (n + 1) (neq + 1) m''))"
      proof (cases smaller)
        case True
        have "within ps pre post U (desc_at C r xs (n + 1) 0) (flip_equal (length pre) n neq m')"
          by (rule desc_at_smaller [OF swo m'(1) n(3)]) (use post True m'(2) in simp_all)
        then show ?thesis unfolding if_P [OF True] using dec by (intro less(1))
      next
        case False
        have fail': "?E m''" if "cmp_only m' m''" for m''
          by (rule within_weaken [OF within_compare [OF m'(1) that]]) simp
        show ?thesis unfolding if_not_P [OF False]
        proof (rule outcome_and_then [OF outcome_weaken [OF next_smaller_outcome(2) [OF lt m'(2) n(1,2)] fail']])
          fix larger m''
          assume post': "cmp_only m' m'' \<and> (C \<longrightarrow> larger = r (zs ! (n - 1)) (zs ! n))"
          then have m'': "within ps pre post U (desc_at C r xs n neq) m''" "ms_arr m'' = pre @ zs @ post"
            using within_compare [OF m'(1)] m'(2) by (auto simp: cmp_only_iff)
          have "within ps pre post U (desc_at C r xs (n + 1) (neq + 1)) m''" if "\<not> larger"
            by (rule desc_at_tied [OF swo m''(1) n(3)]) (use that post post' False m''(2) in \<open>auto simp: tied_def\<close>)
          then show "outcome ?E ?Q (if larger then (Inr (n, neq), m'')
            else desc_run lt (length pre) avail (n + 1) (neq + 1) m'')"
            using m''(1) less(3) dec less(1) [of "n + 1" "neq + 1" m''] by (cases larger) simp_all
        qed
      qed
    qed
  next
    case False
    then show ?thesis using less(2,3) unfolding desc_run.simps [of lt "length pre" avail n neq m] by simp
  qed
qed

section \<open>The run\<close>

lemma ordered_ends_tied:
  assumes swo: "strict_weak r" and "ordered r xs" "xs \<noteq> []" "\<not> r (hd xs) (last xs)"
  shows "\<forall>x\<in>set xs. \<forall>y\<in>set xs. \<not> r x y"
proof (intro ballI)
  fix x y assume "x \<in> set xs" "y \<in> set xs"
  then have "\<not> r x (hd xs)" "\<not> r (last xs) y"
    using assms(2) ordered_hd [OF _ swo] ordered_last [OF _ swo] by auto
  then show "\<not> r x y" using assms(4) strict_weakD(3) [OF swo] by blast
qed

text \<open>After an ascending prefix that did not rise, its reversal and the next, smaller element.\<close>

lemma desc_at_start:
  assumes swo: "C \<Longrightarrow> strict_weak r" and n: "0 < n" "n < length xs"
    and tie: "C \<longrightarrow> (\<forall>x\<in>set (take n xs). \<forall>y\<in>set (take n xs). \<not> r x y) \<and> r (xs ! n) (xs ! (n - 1))"
  shows "desc_at C r xs (n + 1) 0 (rev (take n xs) @ drop n xs)"
proof -
  have "last (take n xs) = xs ! (n - 1)" using n by (subst last_conv_nth) auto
  then have "descending r (take n xs @ [xs ! n]) ([] @ rev (take n xs)) [xs ! n]" if C
    using n tie that by (intro descending_smaller [OF swo]) (auto simp: descending_def)
  then show ?thesis
    unfolding desc_at_def using n
    by (intro exI [of _ "rev (take n xs)"] exI [of _ "[xs ! n]"]) (auto simp: take_Suc_conv_app_nth Cons_nth_drop_Suc)
qed

lemma prefix_rose_outcome:
  assumes lt: "answers lt C r" and swo: "C \<Longrightarrow> strict_weak r" and arr: "ms_arr m = pre @ xs @ post"
    and n: "0 < n" "n < length xs" and ord: "C \<longrightarrow> ordered r (take n xs) \<and> r (xs ! n) (xs ! (n - 1))"
  shows "outcome (cmp_only m) (\<lambda>rose m'. if rose then cmp_only m m'
      else within (ms_pending m) pre post (mset xs) (desc_at C r xs (n + 1) 0) m') (prefix_rose lt (length pre) n m)"
proof -
  have ne: "take n xs \<noteq> []" using n by auto
  have ends: "hd (take n xs) = xs ! 0" "last (take n xs) = xs ! (n - 1)"
    using n ne by (simp_all add: hd_conv_nth last_conv_nth)
  have rev: "within (ms_pending m) pre post (mset xs) (desc_at C r xs (n + 1) 0) (reverse_range (length pre) n m')"
    if "cmp_only m m'" "C \<longrightarrow> \<not> r (xs ! 0) (xs ! (n - 1))" for m'
  proof -
    have arr': "ms_arr m' = pre @ [] @ take n xs @ (drop n xs @ post)" using that(1) arr by (simp add: cmp_only_iff)
    have desc: "desc_at C r xs (n + 1) 0 (rev (take n xs) @ drop n xs)"
      using desc_at_start [OF swo n] ordered_ends_tied [OF swo _ ne] ord that(2) ends by simp
    have len: "length (take n xs) = n" using n by simp
    show ?thesis
      using reverse_range_moves [OF arr' refl] that(1) desc unfolding len
      by (intro withinI) (auto simp: cmp_only_iff mset_split)
  qed
  show ?thesis
  proof (cases "n > 1")
    case True
    have "length pre + n - 1 = length pre + (n - 1)" "n - 1 < length xs" using n by linarith+
    then have at: "ms_arr m ! length pre = xs ! 0" "ms_arr m ! (length pre + n - 1) = xs ! (n - 1)"
      using span_nth [OF refl, of "n - 1" xs pre post] arr by (cases xs; simp)+
    show ?thesis
      unfolding prefix_rose_def if_P [OF True] at
      by (rule outcome_and_then [OF less_than_outcome [OF lt]], rename_tac v Y, case_tac v) (use rev in simp_all)
  next
    case False
    then have "n = 1" using n by simp
    have "desc_at C r xs (n + 1) 0 (rev (take n xs) @ drop n xs)"
      using desc_at_start [OF swo n] ordered_ends_tied [OF swo _ ne] ord ends strict_weakD(1) [OF swo] \<open>n = 1\<close> by simp
    moreover have "rev (take n xs) @ drop n xs = xs" using \<open>n = 1\<close> n(2) by (cases xs) auto
    ultimately have "within (ms_pending m) pre post (mset xs) (desc_at C r xs (n + 1) 0) m"
      using arr by (intro withinI) auto
    then show ?thesis unfolding prefix_rose_def if_not_P [OF False] by simp
  qed
qed

text \<open>The reversal of a descending run.\<close>

lemma desc_at_finish:
  assumes swo: "C \<Longrightarrow> strict_weak r" and m: "within ps pre post U (desc_at C r xs n neq) m" and n: "n \<le> length xs"
  shows "within ps pre post U (\<lambda>zs. length zs = length xs \<and> prefix_sorted C r xs n zs)
    (reverse_range (length pre) n (flip_equal (length pre) n neq m))"
proof -
  obtain zs where zs: "ms_pending m = ps" "ms_arr m = pre @ zs @ post" "mset zs = U" "desc_at C r xs n neq zs"
    using m unfolding within_def by blast
  obtain D E where DE: "zs = D @ E @ drop n xs" "length (D @ E) = n" "length E = neq + 1"
    "C \<longrightarrow> descending r (take n xs) D E" using zs(4) unfolding desc_at_def by blast
  have arr: "ms_arr m = pre @ D @ E @ (drop n xs @ post)" using zs(2) DE(1) by simp
  note flip = flip_equal_moves [OF arr DE(2,3)]
  have "ms_arr (flip_equal (length pre) n neq m) = pre @ [] @ (D @ rev E) @ (drop n xs @ post)"
    using flip(1) by simp
  note rev = reverse_range_moves [OF this refl]
  have len: "length (D @ rev E) = n" using DE(2) by simp
  have "stable_eq r ((E @ rev D) @ drop n xs) (take n xs @ drop n xs)" if C
    using descending_result(2) [OF swo] DE(4) that by (intro stable_eq_append) auto
  then have "prefix_sorted C r xs n (E @ rev D @ drop n xs)"
    using descending_result(1) [OF swo] DE(2,4) by (auto simp: prefix_sorted_def)
  then show ?thesis
    using rev flip(2) zs(1,3) DE(1,2) n unfolding len
    by (intro withinI [where zs = "E @ rev D @ drop n xs"]) (auto simp: add.commute)
qed

lemma asc_run_within:
  assumes lt: "answers lt C r" and swo: "C \<Longrightarrow> strict_weak r" and n: "0 < n" "n \<le> avail" "avail \<le> size U"
    and m: "within ps pre post U (prefix_sorted C r xs n) m"
  shows "outcome (within ps pre post U (\<lambda>_. True))
    (\<lambda>k m'. 0 < k \<and> k \<le> avail \<and> within ps pre post U (prefix_sorted C r xs k) m') (asc_run lt (length pre) avail n m)"
proof -
  obtain zs where zs: "ms_pending m = ps" "ms_arr m = pre @ zs @ post" "mset zs = U" "prefix_sorted C r xs n zs"
    using m unfolding within_def by blast
  have len: "avail \<le> length zs" using n(3) zs(3) size_mset [of zs] by simp
  have fail: "within ps pre post U (\<lambda>_. True) m'" if "cmp_only m m'" for m'
    by (rule within_weaken [OF within_compare [OF m that]]) simp
  have fin: "within ps pre post U (prefix_sorted C r xs k) m'" if "cmp_only m m'" "C \<longrightarrow> ordered r (take k zs)" for k m'
    using that zs by (intro withinI [of _ _ _ zs]) (auto simp: cmp_only_iff prefix_sorted_def)
  show ?thesis
    by (rule outcome_weaken [OF asc_run_outcome [OF lt swo zs(2) len cmp_only_refl n(1,2)] fail])
      (use zs(4) n fin in \<open>auto simp: prefix_sorted_def\<close>)
qed

lemma count_run_outcome:
  fixes lt :: "('a, 's, 'e) comparator"
  assumes lt: "answers lt C r" and swo: "C \<Longrightarrow> strict_weak r" and arr: "ms_arr m = pre @ xs @ post"
    and avail: "0 < avail" "avail \<le> length xs"
  shows "outcome (within (ms_pending m) pre post (mset xs) (\<lambda>_. True))
    (\<lambda>k m'. 0 < k \<and> k \<le> avail \<and> within (ms_pending m) pre post (mset xs) (prefix_sorted C r xs k) m')
    (count_run lt (length pre) avail m)"
proof -
  let ?E = "within (ms_pending m) pre post (mset xs) (\<lambda>_. True)"
  let ?Q = "\<lambda>k m'. 0 < k \<and> k \<le> avail \<and> within (ms_pending m) pre post (mset xs) (prefix_sorted C r xs k) m'"
  have same: "within (ms_pending m) pre post (mset xs) P m'" if "cmp_only m m'" "P xs" for m' P
    using that arr by (intro withinI) (auto simp: cmp_only_iff)
  have one: "C \<longrightarrow> ordered r (take 1 xs)" by (cases xs) auto
  show ?thesis
    unfolding count_run_def
  proof (rule outcome_and_then [OF outcome_weaken [OF asc_run_outcome [OF lt swo arr avail(2) cmp_only_refl _ _ one] same]])
    fix n m1
    assume post: "cmp_only m m1 \<and> 1 \<le> n \<and> n \<le> avail
      \<and> (C \<longrightarrow> ordered r (take n xs) \<and> (n < avail \<longrightarrow> r (xs ! n) (xs ! (n - 1))))"
    have sorted: "prefix_sorted C r xs n xs" using post by (simp add: prefix_sorted_def)
    have arr1: "ms_arr m1 = pre @ xs @ post" "ms_pending m1 = ms_pending m" using post arr by (auto simp: cmp_only_iff)
    show "outcome ?E ?Q (if n = avail then (Inr n, m1)
       else and_then (prefix_rose lt (length pre) n m1) (\<lambda>rose m2.
         if rose then (Inr n, m2)
         else and_then (desc_run lt (length pre) avail (n + 1) 0 m2) (\<lambda>(n', neq) m3.
           asc_run lt (length pre) avail n' (reverse_range (length pre) n' (flip_equal (length pre) n' neq m3)))))"
    proof (cases "n = avail")
      case True
      then show ?thesis using post same sorted by simp
    next
      case False
      then have n: "0 < n" "n < length xs" "n < avail" using post avail by auto
      have fail: "?E m'" if "cmp_only m1 m'" for m' by (rule same) (use that post cmp_only_trans in auto)
      have ord: "C \<longrightarrow> ordered r (take n xs) \<and> r (xs ! n) (xs ! (n - 1))" using post n by simp
      show ?thesis
        unfolding if_not_P [OF False]
      proof (rule outcome_and_then [OF outcome_weaken [OF prefix_rose_outcome [OF lt swo arr1(1) n(1,2) ord] fail]])
        fix rose m2
        assume rose: "if rose then cmp_only m1 m2
          else within (ms_pending m1) pre post (mset xs) (desc_at C r xs (n + 1) 0) m2"
        show "outcome ?E ?Q (if rose then (Inr n, m2)
         else and_then (desc_run lt (length pre) avail (n + 1) 0 m2) (\<lambda>(n', neq) m3.
           asc_run lt (length pre) avail n' (reverse_range (length pre) n' (flip_equal (length pre) n' neq m3))))"
        proof (cases rose)
          case True
          then have "cmp_only m m2" using rose post cmp_only_trans by auto
          from same [OF this, of "prefix_sorted C r xs n"] show ?thesis using True sorted n by simp
        next
          case False
          then have "within (ms_pending m) pre post (mset xs) (desc_at C r xs (n + 1) 0) m2"
            using rose arr1(2) by simp
          from desc_run_outcome [OF lt swo avail(2) this] n(3)
          have desc: "outcome ?E (\<lambda>v m'. case v of (n', neq') \<Rightarrow> n' \<le> avail
              \<and> within (ms_pending m) pre post (mset xs) (desc_at C r xs n' neq') m') (desc_run lt (length pre) avail (n + 1) 0 m2)"
            by simp
          show ?thesis unfolding if_not_P [OF False]
          proof (rule outcome_and_then [OF desc])
            fix v and m3 :: "('a, 's) merge_state"
            assume v: "case v of (n', neq') \<Rightarrow> n' \<le> avail
              \<and> within (ms_pending m) pre post (mset xs) (desc_at C r xs n' neq') m3"
            obtain n' neq where [simp]: "v = (n', neq)" by (cases v)
            have m3: "n' \<le> avail" "within (ms_pending m) pre post (mset xs) (desc_at C r xs n' neq) m3" using v by auto
            have "0 < n'" using m3(2) by (auto simp: within_def desc_at_def)
            have "within (ms_pending m) pre post (mset xs) (prefix_sorted C r xs n')
              (reverse_range (length pre) n' (flip_equal (length pre) n' neq m3))"
              by (rule within_weaken [OF desc_at_finish [OF swo m3(2)]]) (use m3(1) avail in auto)
            from asc_run_within [OF lt swo \<open>0 < n'\<close> m3(1) _ this] avail
            show "outcome ?E ?Q ((case v of (n', neq) \<Rightarrow> \<lambda>m3.
              asc_run lt (length pre) avail n' (reverse_range (length pre) n' (flip_equal (length pre) n' neq m3))) m3)"
              by simp
          qed
        qed
      qed
    qed
  qed (use avail in auto)
qed

end
