(* ===== verification/Sort_Lo.thy ===== *)
theory Sort_Lo
  imports Sort_Merge Sort_Spec
begin

text \<open>
  \<open>merge_lo\<close> is correct: the list, its gap and the scratch space always hold the merged prefix
  and the rests of the two runs, whatever the comparator answers; with a consistent one the
  merged prefix is that of the stable merge.
\<close>

section \<open>The list during a merge\<close>

text \<open>\<open>M\<close> is merged, \<open>as\<close> is parked, \<open>bs\<close> is in place; \<open>ps\<close> is the stack of runs.\<close>

definition lo_rep :: "run list \<Rightarrow> 'a list \<Rightarrow> 'a list \<Rightarrow> ('a, 's) lo_state \<Rightarrow> 'a list \<Rightarrow> 'a list \<Rightarrow> 'a list \<Rightarrow> bool" where
  "lo_rep ps pre post X M as bs \<longleftrightarrow> (case X of (L, m) \<Rightarrow>
     ms_pending m = ps
     \<and> (\<exists>G. ms_arr m = pre @ M @ G @ bs @ post \<and> length G = length as)
     \<and> drop (lo_src L) (lo_tmp L) = as \<and> lo_len L = length as
     \<and> lo_dest L = length pre + length M \<and> lo_b L = lo_dest L + length as \<and> lo_nb L = length bs)"

lemma write_at_block:
  "length pre = i \<Longrightarrow> length old = length new \<Longrightarrow> write_at i new (pre @ old @ post) = pre @ new @ post"
  by (auto simp: write_at_def)

lemma lo_rep_take_a:
  assumes "lo_rep ps pre post X M as bs" "k \<le> length as"
  shows "lo_rep ps pre post (lo_take_a k X) (M @ take k as) (drop k as) bs"
proof -
  obtain L m where X: "X = (L, m)" by (cases X)
  obtain G where G: "ms_arr m = pre @ M @ G @ bs @ post" "length G = length as"
    using assms(1) by (auto simp: lo_rep_def X)
  have "slice (lo_tmp L) (lo_src L) (lo_src L + k) = take k as"
    using assms(1) by (simp add: slice_def lo_rep_def X)
  moreover have "write_at (lo_dest L) (take k as) ((pre @ M) @ take k G @ (drop k G @ bs @ post))
     = (pre @ M) @ take k as @ (drop k G @ bs @ post)"
    using assms G by (intro write_at_block) (simp_all add: lo_rep_def X)
  then have "write_at (lo_dest L) (take k as) (ms_arr m) = pre @ (M @ take k as) @ drop k G @ bs @ post"
    by (simp add: G append_assoc [symmetric] del: append_assoc)
  ultimately show ?thesis
    using assms G by (auto simp: lo_rep_def X drop_drop [symmetric] add.commute simp del: drop_drop)
qed

lemma lo_rep_take_b:
  assumes "lo_rep ps pre post X M as bs" "k \<le> length bs"
  shows "lo_rep ps pre post (lo_take_b k X) (M @ take k bs) as (drop k bs)"
proof -
  obtain L m where X: "X = (L, m)" by (cases X)
  obtain G where G: "ms_arr m = pre @ M @ G @ bs @ post" "length G = length as"
    using assms(1) by (auto simp: lo_rep_def X)
  let ?old = "G @ take k bs"
  have "slice (ms_arr m) (lo_b L) (lo_b L + k) = take k bs"
    using assms G by (simp add: slice_def lo_rep_def X)
  moreover have "write_at (lo_dest L) (take k bs) ((pre @ M) @ take k ?old @ (drop k ?old @ drop k bs @ post))
     = (pre @ M) @ take k bs @ (drop k ?old @ drop k bs @ post)"
    using assms G by (intro write_at_block) (simp_all add: lo_rep_def X)
  moreover have "(pre @ M) @ take k ?old @ (drop k ?old @ drop k bs @ post) = ms_arr m"
    by (metis G(1) append.assoc append_take_drop_id)
  ultimately have "copy_within (lo_b L) (lo_dest L) k (ms_arr m) = pre @ (M @ take k bs) @ drop k ?old @ drop k bs @ post"
    by (simp add: copy_within_def)
  moreover have "length (drop k ?old) = length as" using assms(2) G(2) by simp
  ultimately show ?thesis using assms by (auto simp: lo_rep_def X intro!: exI [of _ "drop k ?old"])
qed

lemma lo_rep_drop:
  assumes "lo_rep ps pre post X M as bs"
  shows "ms_arr (lo_drop X) = pre @ (M @ as @ bs) @ post" "ms_pending (lo_drop X) = ps"
proof -
  obtain L m where X: "X = (L, m)" by (cases X)
  obtain G where G: "ms_arr m = pre @ M @ G @ bs @ post" "length G = length as"
    using assms by (auto simp: lo_rep_def X)
  have "write_at (lo_dest L) as ((pre @ M) @ G @ (bs @ post)) = (pre @ M) @ as @ (bs @ post)"
    using assms G(2) by (intro write_at_block) (simp_all add: lo_rep_def X)
  then show "ms_arr (lo_drop X) = pre @ (M @ as @ bs) @ post" "ms_pending (lo_drop X) = ps"
    using assms G(1) by (auto simp: lo_rep_def X slice_def)
qed

lemma lo_rep_compare:
  assumes "lo_rep ps pre post (L, m) M as bs" "cmp_only m m'"
  shows "lo_rep ps pre post (L, m') M as bs"
  using assms by (auto simp: lo_rep_def cmp_only_iff)

lemma lo_rep_set_gallop: "lo_rep ps pre post X M as bs \<Longrightarrow> lo_rep ps pre post (set_gallop g X) M as bs"
  by (cases X) (simp add: lo_rep_def set_gallop_def)

text \<open>What the code reads of the runs.\<close>

lemma lo_rep_read:
  assumes "lo_rep ps pre post (L, m) M as bs"
  shows "i < length bs \<Longrightarrow> ms_arr m ! (lo_b L + i) = bs ! i"
    "bs \<noteq> [] \<Longrightarrow> ms_arr m ! lo_b L = hd bs"
    "i < length as \<Longrightarrow> lo_tmp L ! (lo_src L + i) = as ! i"
    "as \<noteq> [] \<Longrightarrow> lo_tmp L ! lo_src L = hd as"
    "lo_len L = length as" "lo_nb L = length bs"
proof -
  obtain G where G: "ms_arr m = pre @ M @ G @ bs @ post" "length G = length as"
    using assms by (auto simp: lo_rep_def)
  have b: "lo_b L = length pre + (length M + length G)" using assms G by (simp add: lo_rep_def)
  show el: "ms_arr m ! (lo_b L + i) = bs ! i" if "i < length bs" for i
    using that by (simp add: G(1) b nth_append)
  show "ms_arr m ! lo_b L = hd bs" if "bs \<noteq> []" using that el [of 0] by (simp add: hd_conv_nth)
  have as: "as = drop (lo_src L) (lo_tmp L)" using assms by (simp add: lo_rep_def)
  show ea: "lo_tmp L ! (lo_src L + i) = as ! i" if "i < length as" for i
    using that by (auto simp: as)
  show "lo_tmp L ! lo_src L = hd as" if "as \<noteq> []" using that ea [of 0] by (simp add: hd_conv_nth)
qed (use assms in \<open>simp_all add: lo_rep_def\<close>)

section \<open>Correctness\<close>

text \<open>The elements are those of \<open>U\<close>, and \<open>P\<close> holds of the three lists.\<close>

definition lo_all :: "run list \<Rightarrow> 'a list \<Rightarrow> 'a list \<Rightarrow> 'a multiset \<Rightarrow> ('a list \<Rightarrow> 'a list \<Rightarrow> 'a list \<Rightarrow> bool)
     \<Rightarrow> ('a, 's) lo_state \<Rightarrow> bool" where
  "lo_all ps pre post U P X \<longleftrightarrow>
     (\<exists>M as bs. lo_rep ps pre post X M as bs \<and> mset M + mset as + mset bs = U \<and> P M as bs)"

text \<open>Both runs are left; the merge is over; the galloping found \<open>k\<close>.\<close>

definition both_left :: "bool \<Rightarrow> ('a \<Rightarrow> 'a \<Rightarrow> bool) \<Rightarrow> 'a list \<Rightarrow> 'a list \<Rightarrow> 'a list \<Rightarrow> 'a list \<Rightarrow> bool" where
  "both_left C r R M as bs \<longleftrightarrow> length as > 1 \<and> bs \<noteq> [] \<and> (C \<longrightarrow> front r R M as bs)"

definition lo_over :: "bool \<Rightarrow> 'a list \<Rightarrow> 'a list \<Rightarrow> 'a list \<Rightarrow> 'a list \<Rightarrow> bool" where
  "lo_over C R M as bs \<longleftrightarrow> (C \<longrightarrow> R = M @ as @ bs)"

lemma lo_all_weaken:
  "lo_all ps pre post U P X \<Longrightarrow> (\<And>M as bs. P M as bs \<Longrightarrow> Q M as bs) \<Longrightarrow> lo_all ps pre post U Q X"
  unfolding lo_all_def by blast

lemma lo_all_take_a:
  assumes "lo_all ps pre post U P X"
    and "\<And>M as bs. P M as bs \<Longrightarrow> k \<le> length as \<and> Q (M @ take k as) (drop k as) bs"
  shows "lo_all ps pre post U Q (lo_take_a k X)"
proof -
  obtain M as bs where *: "lo_rep ps pre post X M as bs" "mset M + mset as + mset bs = U" "P M as bs"
    using assms(1) unfolding lo_all_def by blast
  have "mset (take k as) + mset (drop k as) = mset as" by (simp flip: mset_append)
  then show ?thesis using lo_rep_take_a [OF *(1)] assms(2) [OF *(3)] *(2)
    unfolding lo_all_def by (metis (no_types, lifting) mset_append add.assoc)
qed

lemma lo_all_take_b:
  assumes "lo_all ps pre post U P X"
    and "\<And>M as bs. P M as bs \<Longrightarrow> k \<le> length bs \<and> Q (M @ take k bs) as (drop k bs)"
  shows "lo_all ps pre post U Q (lo_take_b k X)"
proof -
  obtain M as bs where *: "lo_rep ps pre post X M as bs" "mset M + mset as + mset bs = U" "P M as bs"
    using assms(1) unfolding lo_all_def by blast
  have "mset (take k bs) + mset (drop k bs) = mset bs" by (simp flip: mset_append)
  then have "mset (M @ take k bs) + mset as + mset (drop k bs) = U"
    using *(2) by (simp add: add.assoc add.left_commute)
  then show ?thesis using lo_rep_take_b [OF *(1)] assms(2) [OF *(3)]
    unfolding lo_all_def by blast
qed

text \<open>Dispatch on the lengths, as the code does after a move.\<close>

lemma lo_all_lengths:
  assumes "lo_all ps pre post U P X"
  shows "lo_all ps pre post U (\<lambda>M as bs. P M as bs \<and> length as = lo_len (fst X) \<and> length bs = lo_nb (fst X)) X"
proof -
  obtain M as bs where *: "lo_rep ps pre post X M as bs" "mset M + mset as + mset bs = U" "P M as bs"
    using assms unfolding lo_all_def by blast
  then have "length as = lo_len (fst X)" "length bs = lo_nb (fst X)" by (auto simp: lo_rep_def)
  then show ?thesis using * unfolding lo_all_def by blast
qed

lemma lo_all_finish:
  assumes "lo_all ps pre post U P X" "lo_len (fst X) = 1" "\<And>M as bs. P M as bs \<Longrightarrow> C \<Longrightarrow> front r R M as bs"
  shows "lo_all ps pre post U (lo_over C R) (lo_take_b (lo_nb (fst X)) X)"
proof (rule lo_all_take_b [OF lo_all_lengths [OF assms(1)]])
  fix M as bs
  assume *: "P M as bs \<and> length as = lo_len (fst X) \<and> length bs = lo_nb (fst X)"
  then obtain a where a: "as = [a]" using assms(2) by (metis One_nat_def length_0_conv length_Suc_conv)
  have "C \<longrightarrow> R = M @ bs @ [a]" using assms(3) * front_one unfolding a by fast
  then show "lo_nb (fst X) \<le> length bs \<and> lo_over C R (M @ take (lo_nb (fst X)) bs) as (drop (lo_nb (fst X)) bs)"
    using * a by (simp add: lo_over_def)
qed

lemma lo_all_end:
  assumes "lo_all ps pre post U P X" "lo_nb (fst X) = 0" "\<And>M as bs. P M as bs \<Longrightarrow> C \<Longrightarrow> front r R M as bs"
  shows "lo_all ps pre post U (lo_over C R) X"
proof (rule lo_all_weaken [OF lo_all_lengths [OF assms(1)]])
  fix M as bs
  assume *: "P M as bs \<and> length as = lo_len (fst X) \<and> length bs = lo_nb (fst X)"
  then have "bs = []" using assms(2) by simp
  then show "lo_over C R M as bs" using * assms(3) front_none unfolding lo_over_def by fastforce
qed

text \<open>A comparison or a search, beside a hole.\<close>

lemma lo_all_beside:
  assumes "lo_rep ps pre post (L, m) M as bs" "mset M + mset as + mset bs = U"
    and "outcome (cmp_only m) (\<lambda>v m'. cmp_only m m' \<and> S v) res" "\<And>v. S v \<Longrightarrow> Q v M as bs"
  shows "outcome (lo_all ps pre post U (\<lambda>_ _ _. True)) (\<lambda>v. lo_all ps pre post U (Q v)) (beside L res)"
proof -
  obtain out m' where res: "res = (out, m')" by (cases res)
  show ?thesis
  proof (cases out)
    case (Inl e)
    then have "lo_rep ps pre post (L, m') M as bs" using assms(3) lo_rep_compare [OF assms(1)] by (simp add: res)
    then show ?thesis using Inl assms(2) by (auto simp: res beside_def lo_all_def)
  next
    case (Inr v)
    then have "lo_rep ps pre post (L, m') M as bs" "Q v M as bs"
      using assms(3,4) lo_rep_compare [OF assms(1)] by (auto simp: res)
    then show ?thesis using Inr assms(2) by (auto simp: res beside_def lo_all_def)
  qed
qed

lemma lo_compare_outcome:
  assumes lt: "answers lt C r" and "lo_all ps pre post U (both_left C r R) X"
  shows "outcome (lo_all ps pre post U (\<lambda>_ _ _. True))
    (\<lambda>v. lo_all ps pre post U (\<lambda>M as bs. both_left C r R M as bs \<and> (C \<longrightarrow> v = r (hd bs) (hd as)))) (lo_b_wins lt X)"
proof -
  obtain L m where X: "X = (L, m)" by (cases X)
  obtain M as bs where *: "lo_rep ps pre post (L, m) M as bs" "mset M + mset as + mset bs = U" "both_left C r R M as bs"
    using assms(2) unfolding lo_all_def X by blast
  have ne: "as \<noteq> []" "bs \<noteq> []" using *(3) by (auto simp: both_left_def)
  show ?thesis
    unfolding lo_b_wins_def X prod.case lo_rep_read(2) [OF *(1) ne(2)] lo_rep_read(4) [OF *(1) ne(1)]
    by (rule lo_all_beside [OF *(1,2) less_than_outcome [OF lt]]) (use *(3) in simp)
qed

lemma lo_gallop_a_outcome:
  assumes lt: "answers lt C r" and "lo_all ps pre post U (both_left C r R) X"
  shows "outcome (lo_all ps pre post U (\<lambda>_ _ _. True))
    (\<lambda>k. lo_all ps pre post U (\<lambda>M as bs. both_left C r R M as bs \<and> k \<le> length as
       \<and> (C \<longrightarrow> ends_at (\<lambda>i. \<not> r (hd bs) (as ! i)) (length as) k))) (lo_gallop_a lt X)"
proof -
  obtain L m where X: "X = (L, m)" by (cases X)
  obtain M as bs where *: "lo_rep ps pre post (L, m) M as bs" "mset M + mset as + mset bs = U" "both_left C r R M as bs"
    using assms(2) unfolding lo_all_def X by blast
  have ne: "as \<noteq> []" "bs \<noteq> []" and ord: "C \<Longrightarrow> strict_weak r \<and> ordered r as"
    using *(3) by (auto simp: both_left_def front_def)
  note read = lo_rep_read [OF *(1)]
  have el: "lo_tmp L ! (lo_src L + i) = as ! i" if "i < length as" for i using that by (rule read(3))
  have "outcome (cmp_only m) (\<lambda>k m'. cmp_only m m' \<and> k \<le> length as
      \<and> (C \<longrightarrow> ends_at (\<lambda>i. \<not> r (hd bs) (lo_tmp L ! (lo_src L + i))) (length as) k))
    (gallop_right lt (hd bs) (\<lambda>i. lo_tmp L ! (lo_src L + i)) (length as) 0 m)"
    using ord ne by (intro gallop_right_outcome [OF lt]) (auto simp: sorted_at_def el dest: ordered_nth)
  then show ?thesis
    unfolding lo_gallop_a_def X prod.case read(2) [OF ne(2)] read(5)
    by (rule lo_all_beside [OF *(1,2)]) (use *(3) in \<open>auto simp: ends_at_def el\<close>)
qed

text \<open>The second search starts when the first element of the second run is known to win.\<close>

lemma lo_gallop_b_outcome:
  assumes lt: "answers lt C r" and "lo_all ps pre post U (both_left C r R) X"
  shows "outcome (lo_all ps pre post U (\<lambda>_ _ _. True))
    (\<lambda>k. lo_all ps pre post U (\<lambda>M as bs. both_left C r R M as bs \<and> k \<le> length bs
       \<and> (C \<longrightarrow> ends_at (\<lambda>i. r (bs ! i) (hd as)) (length bs) k))) (lo_gallop_b lt X)"
proof -
  obtain L m where X: "X = (L, m)" by (cases X)
  obtain M as bs where *: "lo_rep ps pre post (L, m) M as bs" "mset M + mset as + mset bs = U" "both_left C r R M as bs"
    using assms(2) unfolding lo_all_def X by blast
  have ne: "as \<noteq> []" "bs \<noteq> []" and ord: "C \<Longrightarrow> strict_weak r \<and> ordered r bs"
    using *(3) by (auto simp: both_left_def front_def)
  note read = lo_rep_read [OF *(1)]
  have el: "ms_arr m ! (lo_b L + i) = bs ! i" if "i < length bs" for i using that by (rule read(1))
  have "outcome (cmp_only m) (\<lambda>k m'. cmp_only m m' \<and> k \<le> length bs
      \<and> (C \<longrightarrow> ends_at (\<lambda>i. r (ms_arr m ! (lo_b L + i)) (hd as)) (length bs) k))
    (gallop_left lt (hd as) (\<lambda>i. ms_arr m ! (lo_b L + i)) (length bs) 0 m)"
    using ord ne by (intro gallop_left_outcome [OF lt]) (auto simp: sorted_at_def el dest: ordered_nth)
  then show ?thesis
    unfolding lo_gallop_b_def X prod.case read(4) [OF ne(1)] read(6)
    by (rule lo_all_beside [OF *(1,2)]) (use *(3) in \<open>auto simp: ends_at_def el\<close>)
qed

text \<open>
  A block of either run is taken, then the code looks at what is left; \<open>T\<close> is what is known of
  the rests with a consistent comparator.
\<close>

definition left_with :: "bool \<Rightarrow> ('a \<Rightarrow> 'a \<Rightarrow> bool) \<Rightarrow> 'a list \<Rightarrow> ('a list \<Rightarrow> 'a list \<Rightarrow> bool) \<Rightarrow> 'a list \<Rightarrow> 'a list \<Rightarrow> 'a list \<Rightarrow> bool" where
  "left_with C r R T M as bs \<longleftrightarrow> both_left C r R M as bs \<and> (C \<longrightarrow> T as bs)"

lemma lo_block_b:
  assumes "lo_all ps pre post U (\<lambda>M as bs. both_left C r R M as bs \<and> k \<le> length bs
      \<and> (C \<longrightarrow> (\<forall>i<k. r (bs ! i) (hd as)) \<and> (k < length bs \<longrightarrow> T as (drop k bs)))) X"
  shows "(if lo_nb (fst (lo_take_b k X)) = 0 then lo_all ps pre post U (lo_over C R)
    else lo_all ps pre post U (left_with C r R T)) (lo_take_b k X)"
proof -
  have *: "lo_all ps pre post U (\<lambda>M as bs. length as > 1 \<and> (C \<longrightarrow> front r R M as bs \<and> (bs \<noteq> [] \<longrightarrow> T as bs)))
    (lo_take_b k X)"
    by (rule lo_all_take_b [OF assms]) (auto simp: both_left_def intro: front_take_b)
  show ?thesis
  proof (cases "lo_nb (fst (lo_take_b k X)) = 0")
    case True
    then show ?thesis using lo_all_end [OF * True, of C r R] by simp
  next
    case False
    have "lo_all ps pre post U (left_with C r R T) (lo_take_b k X)"
      by (rule lo_all_weaken [OF lo_all_lengths [OF *]]) (use False in \<open>auto simp: left_with_def both_left_def\<close>)
    then show ?thesis using False by simp
  qed
qed

lemma lo_block_a:
  assumes "lo_all ps pre post U (\<lambda>M as bs. both_left C r R M as bs \<and> k \<le> length as
      \<and> (C \<longrightarrow> (\<forall>i<k. \<not> r (hd bs) (as ! i)) \<and> (k < length as \<longrightarrow> T (drop k as) bs))) X"
  shows "if lo_len (fst (lo_take_a k X)) = 1
    then lo_all ps pre post U (lo_over C R) (lo_take_b (lo_nb (fst (lo_take_a k X))) (lo_take_a k X))
    else if lo_len (fst (lo_take_a k X)) = 0 then lo_all ps pre post U (lo_over C R) (lo_take_a k X)
    else lo_all ps pre post U (left_with C r R T) (lo_take_a k X)"
proof -
  have *: "lo_all ps pre post U (\<lambda>M as bs. bs \<noteq> [] \<and> (C \<longrightarrow> as \<noteq> [] \<and> front r R M as bs \<and> T as bs)) (lo_take_a k X)"
  proof (rule lo_all_take_a [OF assms])
    fix M as bs
    assume h: "both_left C r R M as bs \<and> k \<le> length as
      \<and> (C \<longrightarrow> (\<forall>i<k. \<not> r (hd bs) (as ! i)) \<and> (k < length as \<longrightarrow> T (drop k as) bs))"
    then have "k < length as" if C using that front_last [of r R M as bs k] by (auto simp: both_left_def)
    then show "k \<le> length as \<and> bs \<noteq> [] \<and> (C \<longrightarrow> drop k as \<noteq> []
        \<and> front r R (M @ take k as) (drop k as) bs \<and> T (drop k as) bs)"
      using h by (auto simp: both_left_def intro: front_take_a)
  qed
  show ?thesis
  proof (cases "lo_len (fst (lo_take_a k X)) \<le> 1")
    case True
    have "lo_all ps pre post U (lo_over C R) (lo_take_a k X)" if "lo_len (fst (lo_take_a k X)) = 0"
      by (rule lo_all_weaken [OF lo_all_lengths [OF *]]) (use that in \<open>auto simp: lo_over_def\<close>)
    then show ?thesis using True lo_all_finish [OF *, of C r R] by (auto simp: le_Suc_eq)
  next
    case False
    have "lo_all ps pre post U (left_with C r R T) (lo_take_a k X)"
      by (rule lo_all_weaken [OF lo_all_lengths [OF *]]) (use False in \<open>auto simp: left_with_def both_left_def\<close>)
    then show ?thesis using False by simp
  qed
qed

text \<open>The loops.\<close>

lemma hd_long: "Suc 0 < length xs \<Longrightarrow> hd xs = xs ! 0"
  by (cases xs) simp_all

abbreviation (input) lo_inv where
  "lo_inv ps pre post U C r R \<equiv> lo_all ps pre post U (both_left C r R)"

abbreviation (input) lo_done where
  "lo_done ps pre post U C R \<equiv> lo_all ps pre post U (lo_over C R)"

abbreviation (input) lo_fail where
  "lo_fail ps pre post U \<equiv> lo_all ps pre post U (\<lambda>_ _ _. True)"

lemma lo_left_with: "lo_all ps pre post U (left_with C r R T) X \<Longrightarrow> lo_inv ps pre post U C r R X"
  by (erule lo_all_weaken) (simp add: left_with_def)

lemma lo_step_b:
  assumes "lo_all ps pre post U (left_with C r R (\<lambda>as bs. r (hd bs) (hd as))) X"
  shows "(if lo_nb (fst (lo_take_b 1 X)) = 0 then lo_done ps pre post U C R else lo_inv ps pre post U C r R) (lo_take_b 1 X)"
proof -
  have "lo_all ps pre post U (\<lambda>M as bs. both_left C r R M as bs \<and> 1 \<le> length bs
      \<and> (C \<longrightarrow> (\<forall>i<1. r (bs ! i) (hd as)) \<and> (1 < length bs \<longrightarrow> True))) X"
    by (rule lo_all_weaken [OF assms]) (auto simp: left_with_def both_left_def hd_conv_nth Suc_le_eq)
  from lo_block_b [OF this] show ?thesis by (simp add: lo_left_with [where T = "\<lambda>_ _. True"] split: if_splits)
qed

lemma lo_step_a:
  assumes "lo_all ps pre post U (left_with C r R (\<lambda>as bs. \<not> r (hd bs) (hd as))) X"
  shows "if lo_len (fst (lo_take_a 1 X)) = 1
    then lo_done ps pre post U C R (lo_take_b (lo_nb (fst (lo_take_a 1 X))) (lo_take_a 1 X))
    else lo_inv ps pre post U C r R (lo_take_a 1 X)"
proof -
  have start: "lo_all ps pre post U (\<lambda>M as bs. both_left C r R M as bs \<and> 1 \<le> length as
      \<and> (C \<longrightarrow> (\<forall>i<1. \<not> r (hd bs) (as ! i)) \<and> (1 < length as \<longrightarrow> True))) X"
    by (rule lo_all_weaken [OF assms]) (auto simp: left_with_def both_left_def hd_conv_nth hd_long)
  have "lo_len (fst (lo_take_a 1 X)) \<noteq> 0"
    using assms by (cases X) (auto simp: lo_all_def lo_rep_def left_with_def both_left_def)
  with lo_block_a [OF start] show ?thesis by (simp add: lo_left_with [where T = "\<lambda>_ _. True"] split: if_splits)
qed

lemma lo_pairs_correct:
  fixes lt :: "('a, 's, 'e) comparator"
  assumes lt: "answers lt C r" and "lo_inv ps pre post U C r R X"
  shows "outcome (lo_fail ps pre post U) (\<lambda>fin. if fin then lo_done ps pre post U C R else lo_inv ps pre post U C r R)
    (lo_pairs lt g acount bcount X)"
proof (rule lo_pairs_rule [OF _ lo_step_b lo_step_a assms(2)])
  fix X :: "('a, 's) lo_state"
  assume "lo_inv ps pre post U C r R X"
  from lo_compare_outcome [OF lt this]
  show "outcome (lo_fail ps pre post U) (\<lambda>b. if b then lo_all ps pre post U (left_with C r R (\<lambda>as bs. r (hd bs) (hd as)))
      else lo_all ps pre post U (left_with C r R (\<lambda>as bs. \<not> r (hd bs) (hd as)))) (lo_b_wins lt X)"
    by (rule outcome_weaken) (auto simp: left_with_def elim!: lo_all_weaken)
qed

lemma lo_round_correct:
  fixes lt :: "('a, 's, 'e) comparator"
  assumes lt: "answers lt C r" and "lo_inv ps pre post U C r R X"
  shows "outcome (lo_fail ps pre post U)
    (\<lambda>out. if out = Merged then lo_done ps pre post U C R else lo_inv ps pre post U C r R) (lo_round lt X)"
proof (rule lo_round_rule [OF lo_gallop_a_outcome [OF lt] _ _ lo_step_b lo_gallop_b_outcome [OF lt] _ _ lo_step_a assms(2)])
  fix k and X :: "('a, 's) lo_state"
  assume a: "lo_all ps pre post U (\<lambda>M as bs. both_left C r R M as bs \<and> k \<le> length as
     \<and> (C \<longrightarrow> ends_at (\<lambda>i. \<not> r (hd bs) (as ! i)) (length as) k)) X"
  have "lo_all ps pre post U (\<lambda>M as bs. both_left C r R M as bs \<and> k \<le> length as
      \<and> (C \<longrightarrow> (\<forall>i<k. \<not> r (hd bs) (as ! i)) \<and> (k < length as \<longrightarrow> r (hd bs) (hd (drop k as))))) X"
    by (rule lo_all_weaken [OF a]) (auto simp: ends_at_def hd_drop_conv_nth)
  from lo_block_a [OF this]
  show "if lo_len (fst (lo_take_a k X)) = 1
    then lo_done ps pre post U C R (lo_take_b (lo_nb (fst (lo_take_a k X))) (lo_take_a k X))
    else if lo_len (fst (lo_take_a k X)) = 0 then lo_done ps pre post U C R (lo_take_a k X)
    else lo_all ps pre post U (left_with C r R (\<lambda>as bs. r (hd bs) (hd as))) (lo_take_a k X)" .
next
  fix X :: "('a, 's) lo_state"
  assume a: "lo_all ps pre post U (\<lambda>M as bs. both_left C r R M as bs \<and> 0 \<le> length as
     \<and> (C \<longrightarrow> ends_at (\<lambda>i. \<not> r (hd bs) (as ! i)) (length as) 0)) X"
  show "lo_all ps pre post U (left_with C r R (\<lambda>as bs. r (hd bs) (hd as))) X"
    by (rule lo_all_weaken [OF a]) (auto simp: ends_at_def left_with_def both_left_def hd_conv_nth hd_long dest: Suc_lessD)
next
  fix k and X :: "('a, 's) lo_state"
  assume a: "lo_all ps pre post U (\<lambda>M as bs. both_left C r R M as bs \<and> k \<le> length bs
     \<and> (C \<longrightarrow> ends_at (\<lambda>i. r (bs ! i) (hd as)) (length bs) k)) X"
  have "lo_all ps pre post U (\<lambda>M as bs. both_left C r R M as bs \<and> k \<le> length bs
      \<and> (C \<longrightarrow> (\<forall>i<k. r (bs ! i) (hd as)) \<and> (k < length bs \<longrightarrow> \<not> r (hd (drop k bs)) (hd as)))) X"
    by (rule lo_all_weaken [OF a]) (auto simp: ends_at_def hd_drop_conv_nth)
  from lo_block_b [OF this]
  show "(if lo_nb (fst (lo_take_b k X)) = 0 then lo_done ps pre post U C R
    else lo_all ps pre post U (left_with C r R (\<lambda>as bs. \<not> r (hd bs) (hd as)))) (lo_take_b k X)" .
next
  fix X :: "('a, 's) lo_state"
  assume a: "lo_all ps pre post U (\<lambda>M as bs. both_left C r R M as bs \<and> 0 \<le> length bs
     \<and> (C \<longrightarrow> ends_at (\<lambda>i. r (bs ! i) (hd as)) (length bs) 0)) X"
  show "lo_all ps pre post U (left_with C r R (\<lambda>as bs. \<not> r (hd bs) (hd as))) X"
    by (rule lo_all_weaken [OF a]) (auto simp: ends_at_def left_with_def both_left_def hd_conv_nth hd_long dest: Suc_lessD)
qed

lemma lo_loop_correct:
  fixes lt :: "('a, 's, 'e) comparator"
  assumes lt: "answers lt C r" and "lo_inv ps pre post U C r R X"
  shows "outcome (lo_fail ps pre post U) (\<lambda>_. lo_done ps pre post U C R) (lo_loop lt g X)"
proof -
  have set: "lo_inv ps pre post U C r R (set_gallop g X)" if "lo_inv ps pre post U C r R X"
    for g and X :: "('a, 's) lo_state"
    using that lo_rep_set_gallop unfolding lo_all_def by blast
  show ?thesis
    by (rule lo_loop_rule [OF lo_pairs_correct [OF lt] lo_gallops_rule [OF lo_round_correct [OF lt] set] set assms(2)])
qed

text \<open>
  The merge of two adjacent blocks: the first of the second run wins against the first of the
  first, the last of the first run against the last of the second.
\<close>

lemma lo_run_correct:
  assumes lt: "answers lt C r" and X: "lo_all ps pre post U (\<lambda>M as bs. as \<noteq> [] \<and> (C \<longrightarrow> front r R M as bs)) X"
  shows "outcome (lo_fail ps pre post U) (\<lambda>_. lo_done ps pre post U C R) (lo_run lt X)"
proof -
  have front: "as \<noteq> [] \<and> (C \<longrightarrow> front r R M as bs) \<Longrightarrow> C \<Longrightarrow> front r R M as bs" for M as bs by simp
  have loop: "lo_inv ps pre post U C r R X" if "lo_nb (fst X) \<noteq> 0" "lo_len (fst X) \<noteq> 1"
    by (rule lo_all_weaken [OF lo_all_lengths [OF X]])
      (use that in \<open>auto simp: both_left_def simp flip: length_greater_0_conv\<close>)
  show ?thesis
    using lo_all_end [OF X _ front] lo_all_finish [OF X _ front] lo_loop_correct [OF lt loop]
    by (simp add: lo_run_def)
qed

lemma merge_lo_correct:
  assumes lt: "answers lt C r" and arr: "ms_arr m = pre @ as @ bs @ post" and ne: "as \<noteq> []" "bs \<noteq> []"
    and ord: "C \<Longrightarrow> strict_weak r \<and> ordered r as \<and> ordered r bs \<and> r (hd bs) (hd as) \<and> r (last bs) (last as)"
  shows "outcome
    (\<lambda>m'. ms_pending m' = ms_pending m \<and> (\<exists>S. ms_arr m' = pre @ S @ post \<and> mset S = mset (as @ bs)))
    (\<lambda>_ m'. ms_pending m' = ms_pending m
       \<and> (\<exists>S. ms_arr m' = pre @ S @ post \<and> mset S = mset (as @ bs) \<and> (C \<longrightarrow> S = merge r as bs)))
    (merge_lo lt (length pre) (length as) (length bs) m)"
proof -
  let ?X = "lo_park (length pre) (length as) (length bs) m"
  let ?U = "mset as + mset bs" and ?R = "merge r as bs"
  have rep: "lo_rep (ms_pending m) pre post ?X [] as bs"
    using arr by (simp add: lo_rep_def lo_park_def slice_def)
  have first: "r (bs ! 0) (hd as)" if C using ord [OF that] ne by (simp add: hd_conv_nth)
  have "front r ?R [] as bs" if C
  proof -
    have "r b (last as)" if "b \<in> set bs" for b
      using ord [OF \<open>C\<close>] strict_weakD(5) [of r "last bs" b "last as"] ordered_last [of r bs b] that by blast
    then show ?thesis using ord [OF that] ne by (simp add: front_def)
  qed
  then have "C \<longrightarrow> front r ?R [hd bs] as (tl bs)"
    using front_take_b [of r ?R "[]" as bs 1] first ne(2) by (cases bs) auto
  then have "lo_all (ms_pending m) pre post ?U (\<lambda>M as bs. as \<noteq> [] \<and> (C \<longrightarrow> front r ?R M as bs)) (lo_take_b 1 ?X)"
    using lo_rep_take_b [OF rep, of 1] ne unfolding lo_all_def
    by (intro exI [of _ "[hd bs]"] exI [of _ as] exI [of _ "tl bs"]) (cases bs; simp)
  from lo_run_correct [OF lt this]
  have *: "outcome (lo_fail (ms_pending m) pre post ?U) (\<lambda>_. lo_done (ms_pending m) pre post ?U C ?R)
    (lo_run lt (lo_take_b 1 ?X))" .
  obtain out Y where run: "lo_run lt (lo_take_b 1 ?X) = (out, Y)" by (rule prod.exhaust)
  have drop: "\<exists>M as' bs'. ms_arr (lo_drop Y) = pre @ (M @ as' @ bs') @ post \<and> ms_pending (lo_drop Y) = ms_pending m
      \<and> mset (M @ as' @ bs') = mset (as @ bs) \<and> P M as' bs'"
    if "lo_all (ms_pending m) pre post ?U P Y" for P
    using that lo_rep_drop unfolding lo_all_def mset_append by (metis add.assoc)
  show ?thesis
  proof (cases out)
    case (Inl e)
    then have "lo_fail (ms_pending m) pre post ?U Y" using * run by simp
    from drop [OF this] show ?thesis unfolding merge_lo_def run prod.case Inl outcome_simps by blast
  next
    case (Inr v)
    then have "lo_done (ms_pending m) pre post ?U C ?R Y" using * run by simp
    from drop [OF this] show ?thesis
      unfolding merge_lo_def run prod.case Inr outcome_simps lo_over_def by metis
  qed
qed

end
