(* ===== verification/Sort_Hi.thy ===== *)
theory Sort_Hi
  imports Sort_MergeHi Sort_Lo
begin

text \<open>
  \<open>merge_hi\<close> is correct: as for \<open>merge_lo\<close>, with the merged elements at the top of the span and
  the gap just below them.
\<close>

section \<open>The list during a merge\<close>

definition hi_rep :: "run list \<Rightarrow> 'a list \<Rightarrow> 'a list \<Rightarrow> ('a, 's) hi_state \<Rightarrow> 'a list \<Rightarrow> 'a list \<Rightarrow> 'a list \<Rightarrow> bool" where
  "hi_rep ps pre post X as bs M \<longleftrightarrow> (case X of (H, m) \<Rightarrow>
     ms_pending m = ps
     \<and> (\<exists>G. ms_arr m = pre @ as @ G @ M @ post \<and> length G = length bs)
     \<and> take (length bs) (hi_tmp H) = bs \<and> hi_len H = length bs
     \<and> hi_base H = length pre \<and> hi_na H = length as \<and> hi_dest H = length pre + length as)"

lemma hi_rep_take_a:
  assumes "hi_rep ps pre post X as bs M" "k \<le> length as"
  shows "hi_rep ps pre post (hi_take_a k X) (take (length as - k) as) bs (drop (length as - k) as @ M)"
proof -
  obtain H m where X: "X = (H, m)" by (cases X)
  obtain G where G: "ms_arr m = pre @ as @ G @ M @ post" "length G = length bs"
    using assms(1) by (auto simp: hi_rep_def X)
  let ?n = "length as - k" and ?l = "length bs"
  let ?rest = "drop ?n as" and ?old = "drop ?n as @ G"
  have move: "slice (ms_arr m) (length pre + ?n) (length pre + ?n + k) = ?rest"
    using assms(2) G by (simp add: slice_def)
  have split: "ms_arr m = (pre @ take ?n as @ take ?l ?old) @ drop ?l ?old @ (M @ post)"
    by (metis G(1) append.assoc append_take_drop_id)
  have "write_at (length pre + (?n + ?l)) ?rest (ms_arr m) = (pre @ take ?n as @ take ?l ?old) @ ?rest @ (M @ post)"
    unfolding split using assms(2) G(2) by (intro write_at_block) simp_all
  then have "copy_within (length pre + ?n) (length pre + (?n + ?l)) k (ms_arr m)
     = pre @ take ?n as @ take ?l ?old @ (?rest @ M) @ post"
    by (simp add: copy_within_def move)
  moreover have "length (take ?l ?old) = ?l" using G(2) by simp
  ultimately show ?thesis
    using assms unfolding hi_rep_def X by (auto intro!: exI [of _ "take ?l ?old"])
qed

lemma hi_rep_take_b:
  assumes "hi_rep ps pre post X as bs M" "k \<le> length bs"
  shows "hi_rep ps pre post (hi_take_b k X) as (take (length bs - k) bs) (drop (length bs - k) bs @ M)"
proof -
  obtain H m where X: "X = (H, m)" by (cases X)
  obtain G where G: "ms_arr m = pre @ as @ G @ M @ post" "length G = length bs"
    using assms(1) by (auto simp: hi_rep_def X)
  let ?n = "length bs - k"
  have bs: "bs = take (length bs) (hi_tmp H)" and len: "hi_len H = length bs"
    using assms(1) by (simp_all add: hi_rep_def X)
  have scratch: "slice (hi_tmp H) (hi_len H - k) (hi_len H) = drop ?n bs"
    unfolding len by (subst (3) bs) (simp add: slice_def drop_take)
  have split: "ms_arr m = (pre @ as @ take ?n G) @ drop ?n G @ (M @ post)"
    by (simp add: G(1))
  have "write_at (length pre + (length as + length bs - k)) (drop ?n bs) (ms_arr m)
     = (pre @ as @ take ?n G) @ drop ?n bs @ (M @ post)"
    unfolding split using assms(2) G(2) by (intro write_at_block) simp_all
  moreover have "take ?n (hi_tmp H) = take ?n bs" by (subst (2) bs) simp
  ultimately show ?thesis
    using assms G(2) scratch unfolding hi_rep_def X by (auto intro!: exI [of _ "take ?n G"])
qed

lemma hi_rep_drop:
  assumes "hi_rep ps pre post X as bs M"
  shows "ms_arr (hi_drop X) = pre @ (as @ bs @ M) @ post" "ms_pending (hi_drop X) = ps"
proof -
  obtain H m where X: "X = (H, m)" by (cases X)
  obtain G where G: "ms_arr m = pre @ as @ G @ M @ post" "length G = length bs"
    using assms by (auto simp: hi_rep_def X)
  have "write_at (hi_dest H) bs ((pre @ as) @ G @ (M @ post)) = (pre @ as) @ bs @ (M @ post)"
    using assms G(2) by (intro write_at_block) (simp_all add: hi_rep_def X)
  then show "ms_arr (hi_drop X) = pre @ (as @ bs @ M) @ post" "ms_pending (hi_drop X) = ps"
    using assms G(1) by (auto simp: hi_rep_def X slice_def)
qed

lemma hi_rep_compare:
  assumes "hi_rep ps pre post (H, m) as bs M" "cmp_only m m'"
  shows "hi_rep ps pre post (H, m') as bs M"
  using assms by (auto simp: hi_rep_def cmp_only_iff)

lemma hi_rep_set_gallop: "hi_rep ps pre post X as bs M \<Longrightarrow> hi_rep ps pre post (set_gallop g X) as bs M"
  by (cases X) (simp add: hi_rep_def set_gallop_def)

lemma hi_rep_read:
  assumes "hi_rep ps pre post (H, m) as bs M"
  shows "i < length as \<Longrightarrow> ms_arr m ! (hi_base H + i) = as ! i"
    "as \<noteq> [] \<Longrightarrow> ms_arr m ! (hi_base H + (hi_na H - 1)) = last as"
    "i < length bs \<Longrightarrow> hi_tmp H ! i = bs ! i"
    "bs \<noteq> [] \<Longrightarrow> hi_tmp H ! (hi_len H - 1) = last bs"
    "hi_len H = length bs" "hi_na H = length as"
proof -
  obtain G where G: "ms_arr m = pre @ as @ G @ M @ post" using assms by (auto simp: hi_rep_def)
  have fields: "hi_base H = length pre" "hi_na H = length as" "hi_len H = length bs"
    using assms by (simp_all add: hi_rep_def)
  show el: "ms_arr m ! (hi_base H + i) = as ! i" if "i < length as" for i
    using that by (simp add: G fields nth_append)
  show "ms_arr m ! (hi_base H + (hi_na H - 1)) = last as" if "as \<noteq> []"
    using that el [of "length as - 1"] by (simp add: fields last_conv_nth)
  have bs: "bs = take (length bs) (hi_tmp H)" using assms by (simp add: hi_rep_def)
  show eb: "hi_tmp H ! i = bs ! i" if "i < length bs" for i using that by (subst (1) bs) simp
  show "hi_tmp H ! (hi_len H - 1) = last bs" if "bs \<noteq> []"
    using that eb [of "length bs - 1"] by (simp add: fields last_conv_nth)
qed (use assms in \<open>simp_all add: hi_rep_def\<close>)

section \<open>Correctness\<close>

definition hi_all :: "run list \<Rightarrow> 'a list \<Rightarrow> 'a list \<Rightarrow> 'a multiset \<Rightarrow> ('a list \<Rightarrow> 'a list \<Rightarrow> 'a list \<Rightarrow> bool)
     \<Rightarrow> ('a, 's) hi_state \<Rightarrow> bool" where
  "hi_all ps pre post U P X \<longleftrightarrow>
     (\<exists>as bs M. hi_rep ps pre post X as bs M \<and> mset as + mset bs + mset M = U \<and> P as bs M)"

definition hi_both :: "bool \<Rightarrow> ('a \<Rightarrow> 'a \<Rightarrow> bool) \<Rightarrow> 'a list \<Rightarrow> 'a list \<Rightarrow> 'a list \<Rightarrow> 'a list \<Rightarrow> bool" where
  "hi_both C r R as bs M \<longleftrightarrow> length bs > 1 \<and> as \<noteq> [] \<and> (C \<longrightarrow> back_of r R as bs M)"

definition hi_over :: "bool \<Rightarrow> 'a list \<Rightarrow> 'a list \<Rightarrow> 'a list \<Rightarrow> 'a list \<Rightarrow> bool" where
  "hi_over C R as bs M \<longleftrightarrow> (C \<longrightarrow> R = as @ bs @ M)"

definition hi_left_with :: "bool \<Rightarrow> ('a \<Rightarrow> 'a \<Rightarrow> bool) \<Rightarrow> 'a list \<Rightarrow> ('a list \<Rightarrow> 'a list \<Rightarrow> bool) \<Rightarrow> 'a list \<Rightarrow> 'a list \<Rightarrow> 'a list \<Rightarrow> bool" where
  "hi_left_with C r R T as bs M \<longleftrightarrow> hi_both C r R as bs M \<and> (C \<longrightarrow> T as bs)"

abbreviation (input) hi_inv where
  "hi_inv ps pre post U C r R \<equiv> hi_all ps pre post U (hi_both C r R)"

abbreviation (input) hi_done where
  "hi_done ps pre post U C R \<equiv> hi_all ps pre post U (hi_over C R)"

abbreviation (input) hi_fail where
  "hi_fail ps pre post U \<equiv> hi_all ps pre post U (\<lambda>_ _ _. True)"

lemma hi_all_weaken:
  "hi_all ps pre post U P X \<Longrightarrow> (\<And>as bs M. P as bs M \<Longrightarrow> Q as bs M) \<Longrightarrow> hi_all ps pre post U Q X"
  unfolding hi_all_def by blast

lemma hi_left_with: "hi_all ps pre post U (hi_left_with C r R T) X \<Longrightarrow> hi_inv ps pre post U C r R X"
  by (erule hi_all_weaken) (simp add: hi_left_with_def)

lemma mset_take_drop: "mset (take k xs) + (mset (drop k xs) + U) = mset xs + U"
  by (simp add: add.assoc [symmetric] flip: mset_append)

lemma hi_all_take_a:
  assumes "hi_all ps pre post U P X"
    and "\<And>as bs M. P as bs M \<Longrightarrow> k \<le> length as \<and> Q (take (length as - k) as) bs (drop (length as - k) as @ M)"
  shows "hi_all ps pre post U Q (hi_take_a k X)"
proof -
  obtain as bs M where *: "hi_rep ps pre post X as bs M" "mset as + mset bs + mset M = U" "P as bs M"
    using assms(1) unfolding hi_all_def by blast
  have "mset (take (length as - k) as) + mset bs + mset (drop (length as - k) as @ M) = U"
    using *(2) mset_take_drop [of "length as - k" as "mset bs + mset M"] by (simp add: ac_simps)
  then show ?thesis using hi_rep_take_a [OF *(1)] assms(2) [OF *(3)] unfolding hi_all_def by blast
qed

lemma hi_all_take_b:
  assumes "hi_all ps pre post U P X"
    and "\<And>as bs M. P as bs M \<Longrightarrow> k \<le> length bs \<and> Q as (take (length bs - k) bs) (drop (length bs - k) bs @ M)"
  shows "hi_all ps pre post U Q (hi_take_b k X)"
proof -
  obtain as bs M where *: "hi_rep ps pre post X as bs M" "mset as + mset bs + mset M = U" "P as bs M"
    using assms(1) unfolding hi_all_def by blast
  have "mset as + mset (take (length bs - k) bs) + mset (drop (length bs - k) bs @ M) = U"
    using *(2) mset_take_drop [of "length bs - k" bs "mset as + mset M"] by (simp add: ac_simps)
  then show ?thesis using hi_rep_take_b [OF *(1)] assms(2) [OF *(3)] unfolding hi_all_def by blast
qed

lemma hi_all_lengths:
  assumes "hi_all ps pre post U P X"
  shows "hi_all ps pre post U (\<lambda>as bs M. P as bs M \<and> length as = hi_na (fst X) \<and> length bs = hi_len (fst X)) X"
proof -
  obtain as bs M where *: "hi_rep ps pre post X as bs M" "mset as + mset bs + mset M = U" "P as bs M"
    using assms unfolding hi_all_def by blast
  then have "length as = hi_na (fst X)" "length bs = hi_len (fst X)" by (auto simp: hi_rep_def)
  then show ?thesis using * unfolding hi_all_def by blast
qed

lemma hi_all_finish:
  assumes "hi_all ps pre post U P X" "hi_len (fst X) = 1" "\<And>as bs M. P as bs M \<Longrightarrow> C \<Longrightarrow> back_of r R as bs M"
  shows "hi_done ps pre post U C R (hi_finish X)"
  unfolding hi_finish_def
proof (rule hi_all_take_a [OF hi_all_lengths [OF assms(1)]])
  fix as bs M
  assume *: "P as bs M \<and> length as = hi_na (fst X) \<and> length bs = hi_len (fst X)"
  then obtain b where b: "bs = [b]" using assms(2) by (metis One_nat_def length_0_conv length_Suc_conv)
  have "C \<longrightarrow> R = b # as @ M" using assms(3) * back_one unfolding b by fast
  then show "hi_na (fst X) \<le> length as \<and> hi_over C R (take (length as - hi_na (fst X)) as) bs
      (drop (length as - hi_na (fst X)) as @ M)"
    using * b by (simp add: hi_over_def)
qed

lemma hi_all_end:
  assumes "hi_all ps pre post U P X" "hi_na (fst X) = 0" "\<And>as bs M. P as bs M \<Longrightarrow> C \<Longrightarrow> back_of r R as bs M"
  shows "hi_done ps pre post U C R X"
proof (rule hi_all_weaken [OF hi_all_lengths [OF assms(1)]])
  fix as bs M
  assume *: "P as bs M \<and> length as = hi_na (fst X) \<and> length bs = hi_len (fst X)"
  then have "as = []" using assms(2) by simp
  then show "hi_over C R as bs M" using * assms(3) back_none unfolding hi_over_def by fastforce
qed

text \<open>A comparison or a search, beside a hole.\<close>

lemma hi_all_beside:
  assumes "hi_rep ps pre post (H, m) as bs M" "mset as + mset bs + mset M = U"
    and "outcome (cmp_only m) (\<lambda>v m'. cmp_only m m' \<and> S v) res" "\<And>v. S v \<Longrightarrow> Q v as bs M"
  shows "outcome (hi_fail ps pre post U) (\<lambda>v. hi_all ps pre post U (Q v)) (beside H res)"
proof -
  obtain out m' where res: "res = (out, m')" by (cases res)
  show ?thesis
  proof (cases out)
    case (Inl e)
    then have "hi_rep ps pre post (H, m') as bs M" using assms(3) hi_rep_compare [OF assms(1)] by (simp add: res)
    then show ?thesis using Inl assms(2) by (auto simp: res beside_def hi_all_def)
  next
    case (Inr v)
    then have "hi_rep ps pre post (H, m') as bs M" "Q v as bs M"
      using assms(3,4) hi_rep_compare [OF assms(1)] by (auto simp: res)
    then show ?thesis using Inr assms(2) by (auto simp: res beside_def hi_all_def)
  qed
qed

lemma hi_compare_outcome:
  assumes lt: "answers lt C r" and "hi_inv ps pre post U C r R X"
  shows "outcome (hi_fail ps pre post U)
    (\<lambda>v. hi_all ps pre post U (\<lambda>as bs M. hi_both C r R as bs M \<and> (C \<longrightarrow> v = r (last bs) (last as)))) (hi_b_wins lt X)"
proof -
  obtain H m where X: "X = (H, m)" by (cases X)
  obtain as bs M where *: "hi_rep ps pre post (H, m) as bs M" "mset as + mset bs + mset M = U" "hi_both C r R as bs M"
    using assms(2) unfolding hi_all_def X by blast
  have ne: "as \<noteq> []" "bs \<noteq> []" using *(3) by (auto simp: hi_both_def)
  show ?thesis
    unfolding hi_b_wins_def X prod.case hi_rep_read(2) [OF *(1) ne(1)] hi_rep_read(4) [OF *(1) ne(2)]
    by (rule hi_all_beside [OF *(1,2) less_than_outcome [OF lt]]) (use *(3) in simp)
qed

text \<open>The searches return how many elements are above the end of the prefix.\<close>

lemma outcome_above:
  assumes "outcome E (\<lambda>k m'. E m' \<and> k \<le> n \<and> (C \<longrightarrow> ends_at P n k)) res"
  shows "outcome E (\<lambda>k m'. E m' \<and> k \<le> n \<and> (C \<longrightarrow> ends_at P n (n - k)))
    (and_then res (\<lambda>k m'. (Inr (n - k), m')))"
  by (rule outcome_and_then [OF assms]) auto

lemma hi_gallop_a_outcome:
  assumes lt: "answers lt C r" and "hi_inv ps pre post U C r R X"
  shows "outcome (hi_fail ps pre post U)
    (\<lambda>k. hi_all ps pre post U (\<lambda>as bs M. hi_both C r R as bs M \<and> k \<le> length as
       \<and> (C \<longrightarrow> ends_at (\<lambda>i. \<not> r (last bs) (as ! i)) (length as) (length as - k)))) (hi_gallop_a lt X)"
proof -
  obtain H m where X: "X = (H, m)" by (cases X)
  obtain as bs M where *: "hi_rep ps pre post (H, m) as bs M" "mset as + mset bs + mset M = U" "hi_both C r R as bs M"
    using assms(2) unfolding hi_all_def X by blast
  have ne: "as \<noteq> []" "bs \<noteq> []" and ord: "C \<Longrightarrow> strict_weak r \<and> ordered r as"
    using *(3) by (auto simp: hi_both_def back_of_def)
  note read = hi_rep_read [OF *(1)]
  have el: "ms_arr m ! (hi_base H + i) = as ! i" if "i < length as" for i using that by (rule read(1))
  have "outcome (cmp_only m) (\<lambda>k m'. cmp_only m m' \<and> k \<le> length as
      \<and> (C \<longrightarrow> ends_at (\<lambda>i. \<not> r (last bs) (ms_arr m ! (hi_base H + i))) (length as) k))
    (gallop_right lt (last bs) (\<lambda>i. ms_arr m ! (hi_base H + i)) (length as) (length as - 1) m)"
    using ord ne by (intro gallop_right_outcome [OF lt]) (auto simp: sorted_at_def el dest: ordered_nth)
  from outcome_above [OF this] show ?thesis
    unfolding hi_gallop_a_def X prod.case read(4) [OF ne(2)] read(6)
    by (rule hi_all_beside [OF *(1,2)]) (use *(3) in \<open>auto simp: ends_at_def el\<close>)
qed

lemma hi_gallop_b_outcome:
  assumes lt: "answers lt C r" and "hi_inv ps pre post U C r R X"
  shows "outcome (hi_fail ps pre post U)
    (\<lambda>k. hi_all ps pre post U (\<lambda>as bs M. hi_both C r R as bs M \<and> k \<le> length bs
       \<and> (C \<longrightarrow> ends_at (\<lambda>i. r (bs ! i) (last as)) (length bs) (length bs - k)))) (hi_gallop_b lt X)"
proof -
  obtain H m where X: "X = (H, m)" by (cases X)
  obtain as bs M where *: "hi_rep ps pre post (H, m) as bs M" "mset as + mset bs + mset M = U" "hi_both C r R as bs M"
    using assms(2) unfolding hi_all_def X by blast
  have ne: "as \<noteq> []" "bs \<noteq> []" and ord: "C \<Longrightarrow> strict_weak r \<and> ordered r bs"
    using *(3) by (auto simp: hi_both_def back_of_def)
  note read = hi_rep_read [OF *(1)]
  have el: "hi_tmp H ! i = bs ! i" if "i < length bs" for i using that by (rule read(3))
  have "outcome (cmp_only m) (\<lambda>k m'. cmp_only m m' \<and> k \<le> length bs
      \<and> (C \<longrightarrow> ends_at (\<lambda>i. r (hi_tmp H ! i) (last as)) (length bs) k))
    (gallop_left lt (last as) (\<lambda>i. hi_tmp H ! i) (length bs) (length bs - 1) m)"
    using ord ne by (intro gallop_left_outcome [OF lt]) (auto simp: sorted_at_def el dest: ordered_nth)
  from outcome_above [OF this] show ?thesis
    unfolding hi_gallop_b_def X prod.case read(2) [OF ne(1)] read(5)
    by (rule hi_all_beside [OF *(1,2)]) (use *(3) in \<open>auto simp: ends_at_def el\<close>)
qed

text \<open>Blocks.\<close>

lemma hi_block_a:
  assumes "hi_all ps pre post U (\<lambda>as bs M. hi_both C r R as bs M \<and> k \<le> length as
      \<and> (C \<longrightarrow> (\<forall>i. length as - k \<le> i \<longrightarrow> i < length as \<longrightarrow> r (last bs) (as ! i))
          \<and> (k < length as \<longrightarrow> T (take (length as - k) as) bs))) X"
  shows "(if hi_na (fst (hi_take_a k X)) = 0 then hi_done ps pre post U C R
    else hi_all ps pre post U (hi_left_with C r R T)) (hi_take_a k X)"
proof -
  have *: "hi_all ps pre post U (\<lambda>as bs M. length bs > 1 \<and> (C \<longrightarrow> back_of r R as bs M \<and> (as \<noteq> [] \<longrightarrow> T as bs)))
    (hi_take_a k X)"
    by (rule hi_all_take_a [OF assms]) (auto simp: hi_both_def intro: back_take_a)
  show ?thesis
  proof (cases "hi_na (fst (hi_take_a k X)) = 0")
    case True
    then show ?thesis using hi_all_end [OF * True, of C r R] by simp
  next
    case False
    have "hi_all ps pre post U (hi_left_with C r R T) (hi_take_a k X)"
      by (rule hi_all_weaken [OF hi_all_lengths [OF *]]) (use False in \<open>auto simp: hi_left_with_def hi_both_def\<close>)
    then show ?thesis using False by simp
  qed
qed

lemma hi_block_b:
  assumes "hi_all ps pre post U (\<lambda>as bs M. hi_both C r R as bs M \<and> k \<le> length bs
      \<and> (C \<longrightarrow> (\<forall>i. length bs - k \<le> i \<longrightarrow> i < length bs \<longrightarrow> \<not> r (bs ! i) (last as))
          \<and> (k < length bs \<longrightarrow> T as (take (length bs - k) bs)))) X"
  shows "if hi_len (fst (hi_take_b k X)) = 1 then hi_done ps pre post U C R (hi_finish (hi_take_b k X))
    else if hi_len (fst (hi_take_b k X)) = 0 then hi_done ps pre post U C R (hi_take_b k X)
    else hi_all ps pre post U (hi_left_with C r R T) (hi_take_b k X)"
proof -
  have *: "hi_all ps pre post U (\<lambda>as bs M. as \<noteq> [] \<and> (C \<longrightarrow> bs \<noteq> [] \<and> back_of r R as bs M \<and> T as bs)) (hi_take_b k X)"
  proof (rule hi_all_take_b [OF assms])
    fix as bs M
    assume h: "hi_both C r R as bs M \<and> k \<le> length bs
      \<and> (C \<longrightarrow> (\<forall>i. length bs - k \<le> i \<longrightarrow> i < length bs \<longrightarrow> \<not> r (bs ! i) (last as))
          \<and> (k < length bs \<longrightarrow> T as (take (length bs - k) bs)))"
    then have "0 < length bs - k" if C using that back_first [of r R as bs M "length bs - k"] by (auto simp: hi_both_def)
    then show "k \<le> length bs \<and> as \<noteq> [] \<and> (C \<longrightarrow> take (length bs - k) bs \<noteq> []
        \<and> back_of r R as (take (length bs - k) bs) (drop (length bs - k) bs @ M) \<and> T as (take (length bs - k) bs))"
      using h by (auto simp: hi_both_def intro: back_take_b)
  qed
  show ?thesis
  proof (cases "hi_len (fst (hi_take_b k X)) \<le> 1")
    case True
    have "hi_done ps pre post U C R (hi_take_b k X)" if "hi_len (fst (hi_take_b k X)) = 0"
      by (rule hi_all_weaken [OF hi_all_lengths [OF *]]) (use that in \<open>auto simp: hi_over_def\<close>)
    then show ?thesis using True hi_all_finish [OF *, of C r R] by (auto simp: le_Suc_eq)
  next
    case False
    have "hi_all ps pre post U (hi_left_with C r R T) (hi_take_b k X)"
      by (rule hi_all_weaken [OF hi_all_lengths [OF *]]) (use False in \<open>auto simp: hi_left_with_def hi_both_def\<close>)
    then show ?thesis using False by (simp del: hi_take_na)
  qed
qed

lemma last_only: "length xs - Suc 0 \<le> i \<Longrightarrow> i < length xs \<Longrightarrow> xs ! i = last xs"
proof -
  assume "length xs - Suc 0 \<le> i" "i < length xs"
  then have "i = length xs - 1" "xs \<noteq> []" by auto
  then show "xs ! i = last xs" by (simp add: last_conv_nth)
qed

lemma hi_step_a:
  assumes "hi_all ps pre post U (hi_left_with C r R (\<lambda>as bs. r (last bs) (last as))) X"
  shows "(if hi_na (fst (hi_take_a 1 X)) = 0 then hi_done ps pre post U C R else hi_inv ps pre post U C r R) (hi_take_a 1 X)"
proof -
  have "hi_all ps pre post U (\<lambda>as bs M. hi_both C r R as bs M \<and> 1 \<le> length as
      \<and> (C \<longrightarrow> (\<forall>i. length as - 1 \<le> i \<longrightarrow> i < length as \<longrightarrow> r (last bs) (as ! i)) \<and> (1 < length as \<longrightarrow> True))) X"
    by (rule hi_all_weaken [OF assms]) (auto simp: hi_left_with_def hi_both_def last_only Suc_le_eq)
  from hi_block_a [OF this] show ?thesis by (simp add: hi_left_with [where T = "\<lambda>_ _. True"] split: if_splits)
qed

lemma hi_step_b:
  assumes "hi_all ps pre post U (hi_left_with C r R (\<lambda>as bs. \<not> r (last bs) (last as))) X"
  shows "if hi_len (fst (hi_take_b 1 X)) = 1 then hi_done ps pre post U C R (hi_finish (hi_take_b 1 X))
    else hi_inv ps pre post U C r R (hi_take_b 1 X)"
proof -
  have start: "hi_all ps pre post U (\<lambda>as bs M. hi_both C r R as bs M \<and> 1 \<le> length bs
      \<and> (C \<longrightarrow> (\<forall>i. length bs - 1 \<le> i \<longrightarrow> i < length bs \<longrightarrow> \<not> r (bs ! i) (last as)) \<and> (1 < length bs \<longrightarrow> True))) X"
    by (rule hi_all_weaken [OF assms]) (auto simp: hi_left_with_def hi_both_def last_only)
  have "hi_len (fst (hi_take_b 1 X)) \<noteq> 0"
    using assms by (cases X) (auto simp: hi_all_def hi_rep_def hi_left_with_def hi_both_def)
  with hi_block_b [OF start] show ?thesis by (simp add: hi_left_with [where T = "\<lambda>_ _. True"] split: if_splits)
qed

text \<open>The loops.\<close>

lemma hi_pairs_correct:
  fixes lt :: "('a, 's, 'e) comparator"
  assumes lt: "answers lt C r" and "hi_inv ps pre post U C r R X"
  shows "outcome (hi_fail ps pre post U) (\<lambda>fin. if fin then hi_done ps pre post U C R else hi_inv ps pre post U C r R)
    (hi_pairs lt g acount bcount X)"
proof (rule hi_pairs_rule [OF _ hi_step_a hi_step_b assms(2)])
  fix X :: "('a, 's) hi_state"
  assume "hi_inv ps pre post U C r R X"
  from hi_compare_outcome [OF lt this]
  show "outcome (hi_fail ps pre post U) (\<lambda>b. if b then hi_all ps pre post U (hi_left_with C r R (\<lambda>as bs. r (last bs) (last as)))
      else hi_all ps pre post U (hi_left_with C r R (\<lambda>as bs. \<not> r (last bs) (last as)))) (hi_b_wins lt X)"
    by (rule outcome_weaken) (auto simp: hi_left_with_def elim!: hi_all_weaken)
qed

lemma last_take: "0 < k \<Longrightarrow> k \<le> length xs \<Longrightarrow> last (take k xs) = xs ! (k - 1)"
  by (subst last_conv_nth) (auto simp: min_def)

lemma hi_second_correct:
  fixes lt :: "('a, 's, 'e) comparator"
  assumes lt: "answers lt C r" and "hi_inv ps pre post U C r R X"
  shows "outcome (hi_fail ps pre post U)
    (\<lambda>out. if out = Merged then hi_done ps pre post U C R else hi_inv ps pre post U C r R) (hi_second lt acount X)"
proof (rule hi_second_rule [where I = "hi_inv ps pre post U C r R" and F = "hi_done ps pre post U C R" and N = "hi_inv ps pre post U C r R", OF hi_gallop_b_outcome [OF lt] _ _ hi_step_a assms(2)])
  fix k and X :: "('a, 's) hi_state"
  assume b: "hi_all ps pre post U (\<lambda>as bs M. hi_both C r R as bs M \<and> k \<le> length bs
     \<and> (C \<longrightarrow> ends_at (\<lambda>i. r (bs ! i) (last as)) (length bs) (length bs - k))) X"
  have "hi_all ps pre post U (\<lambda>as bs M. hi_both C r R as bs M \<and> k \<le> length bs
      \<and> (C \<longrightarrow> (\<forall>i. length bs - k \<le> i \<longrightarrow> i < length bs \<longrightarrow> \<not> r (bs ! i) (last as))
          \<and> (k < length bs \<longrightarrow> r (last (take (length bs - k) bs)) (last as)))) X"
    by (rule hi_all_weaken [OF b]) (auto simp: ends_at_def last_take)
  from hi_block_b [OF this]
  show "if hi_len (fst (hi_take_b k X)) = 1 then hi_done ps pre post U C R (hi_finish (hi_take_b k X))
    else if hi_len (fst (hi_take_b k X)) = 0 then hi_done ps pre post U C R (hi_take_b k X)
    else hi_all ps pre post U (hi_left_with C r R (\<lambda>as bs. r (last bs) (last as))) (hi_take_b k X)" .
next
  fix X :: "('a, 's) hi_state"
  assume b: "hi_all ps pre post U (\<lambda>as bs M. hi_both C r R as bs M \<and> 0 \<le> length bs
     \<and> (C \<longrightarrow> ends_at (\<lambda>i. r (bs ! i) (last as)) (length bs) (length bs - 0))) X"
  show "hi_all ps pre post U (hi_left_with C r R (\<lambda>as bs. r (last bs) (last as))) X"
  proof (rule hi_all_weaken [OF b])
    fix as bs M
    assume h: "hi_both C r R as bs M \<and> 0 \<le> length bs
      \<and> (C \<longrightarrow> ends_at (\<lambda>i. r (bs ! i) (last as)) (length bs) (length bs - 0))"
    then have "bs \<noteq> []" by (auto simp: hi_both_def)
    then show "hi_left_with C r R (\<lambda>as bs. r (last bs) (last as)) as bs M"
      using h by (simp add: hi_left_with_def ends_at_def last_conv_nth)
  qed
qed

lemma hi_round_correct:
  fixes lt :: "('a, 's, 'e) comparator"
  assumes lt: "answers lt C r" and "hi_inv ps pre post U C r R X"
  shows "outcome (hi_fail ps pre post U)
    (\<lambda>out. if out = Merged then hi_done ps pre post U C R else hi_inv ps pre post U C r R) (hi_round lt X)"
proof (rule hi_round_rule [where I = "hi_inv ps pre post U C r R" and F = "hi_done ps pre post U C R" and N = "hi_inv ps pre post U C r R", OF hi_second_correct [OF lt] hi_gallop_a_outcome [OF lt] _ _ hi_step_b assms(2)])
  fix k and X :: "('a, 's) hi_state"
  assume a: "hi_all ps pre post U (\<lambda>as bs M. hi_both C r R as bs M \<and> k \<le> length as
     \<and> (C \<longrightarrow> ends_at (\<lambda>i. \<not> r (last bs) (as ! i)) (length as) (length as - k))) X"
  have "hi_all ps pre post U (\<lambda>as bs M. hi_both C r R as bs M \<and> k \<le> length as
      \<and> (C \<longrightarrow> (\<forall>i. length as - k \<le> i \<longrightarrow> i < length as \<longrightarrow> r (last bs) (as ! i))
          \<and> (k < length as \<longrightarrow> \<not> r (last bs) (last (take (length as - k) as))))) X"
    by (rule hi_all_weaken [OF a]) (auto simp: ends_at_def last_take)
  from hi_block_a [OF this]
  show "(if hi_na (fst (hi_take_a k X)) = 0 then hi_done ps pre post U C R
    else hi_all ps pre post U (hi_left_with C r R (\<lambda>as bs. \<not> r (last bs) (last as)))) (hi_take_a k X)" .
next
  fix X :: "('a, 's) hi_state"
  assume a: "hi_all ps pre post U (\<lambda>as bs M. hi_both C r R as bs M \<and> 0 \<le> length as
     \<and> (C \<longrightarrow> ends_at (\<lambda>i. \<not> r (last bs) (as ! i)) (length as) (length as - 0))) X"
  show "hi_all ps pre post U (hi_left_with C r R (\<lambda>as bs. \<not> r (last bs) (last as))) X"
    by (rule hi_all_weaken [OF a]) (auto simp: ends_at_def hi_left_with_def hi_both_def last_conv_nth)
qed

lemma hi_loop_correct:
  fixes lt :: "('a, 's, 'e) comparator"
  assumes lt: "answers lt C r" and "hi_inv ps pre post U C r R X"
  shows "outcome (hi_fail ps pre post U) (\<lambda>_. hi_done ps pre post U C R) (hi_loop lt g X)"
proof -
  have set: "hi_inv ps pre post U C r R (set_gallop g X)" if "hi_inv ps pre post U C r R X"
    for g and X :: "('a, 's) hi_state"
    using that hi_rep_set_gallop unfolding hi_all_def by blast
  show ?thesis
    by (rule hi_loop_rule [OF hi_pairs_correct [OF lt] hi_gallops_rule [OF hi_round_correct [OF lt] set] set assms(2)])
qed

lemma hi_run_correct:
  assumes lt: "answers lt C r" and X: "hi_all ps pre post U (\<lambda>as bs M. bs \<noteq> [] \<and> (C \<longrightarrow> back_of r R as bs M)) X"
  shows "outcome (hi_fail ps pre post U) (\<lambda>_. hi_done ps pre post U C R) (hi_run lt X)"
proof -
  have bk: "bs \<noteq> [] \<and> (C \<longrightarrow> back_of r R as bs M) \<Longrightarrow> C \<Longrightarrow> back_of r R as bs M" for as bs M by simp
  have loop: "hi_inv ps pre post U C r R X" if "hi_na (fst X) \<noteq> 0" "hi_len (fst X) \<noteq> 1"
    by (rule hi_all_weaken [OF hi_all_lengths [OF X]])
      (use that in \<open>auto simp: hi_both_def simp flip: length_greater_0_conv\<close>)
  show ?thesis
    using hi_all_end [OF X _ bk] hi_all_finish [OF X _ bk] hi_loop_correct [OF lt loop]
    by (simp add: hi_run_def)
qed

lemma merge_hi_correct:
  assumes lt: "answers lt C r" and arr: "ms_arr m = pre @ as @ bs @ post" and ne: "as \<noteq> []" "bs \<noteq> []"
    and ord: "C \<Longrightarrow> strict_weak r \<and> ordered r as \<and> ordered r bs \<and> r (hd bs) (hd as) \<and> r (last bs) (last as)"
  shows "outcome
    (\<lambda>m'. ms_pending m' = ms_pending m \<and> (\<exists>S. ms_arr m' = pre @ S @ post \<and> mset S = mset (as @ bs)))
    (\<lambda>_ m'. ms_pending m' = ms_pending m
       \<and> (\<exists>S. ms_arr m' = pre @ S @ post \<and> mset S = mset (as @ bs) \<and> (C \<longrightarrow> S = merge r as bs)))
    (merge_hi lt (length pre) (length as) (length bs) m)"
proof -
  let ?X = "hi_park (length pre) (length as) (length bs) m"
  let ?U = "mset as + mset bs" and ?R = "merge r as bs"
  have rep: "hi_rep (ms_pending m) pre post ?X as bs []"
    using arr by (simp add: hi_rep_def hi_park_def slice_def)
  have "back_of r ?R as bs []" if C
  proof -
    have "r (hd bs) a" if "a \<in> set as" for a
      using ord [OF \<open>C\<close>] strict_weakD(4) [of r "hd bs" "hd as" a] ordered_hd [of r as a] that by blast
    then show ?thesis using ord [OF that] ne by (simp add: back_of_def)
  qed
  moreover have "\<forall>i. length as - 1 \<le> i \<longrightarrow> i < length as \<longrightarrow> r (last bs) (as ! i)" if C
    using ord [OF that] last_only [of as] by simp
  ultimately have "back_of r ?R (take (length as - 1) as) bs (drop (length as - 1) as @ [])" if C
    using that ne(1) by (intro back_take_a) simp_all
  then have "C \<longrightarrow> back_of r ?R (butlast as) bs [last as]"
    using ne(1) by (cases as rule: rev_cases) simp_all
  then have "hi_all (ms_pending m) pre post ?U (\<lambda>as bs M. bs \<noteq> [] \<and> (C \<longrightarrow> back_of r ?R as bs M)) (hi_take_a 1 ?X)"
    using hi_rep_take_a [OF rep, of 1] ne unfolding hi_all_def
    by (intro exI [of _ "butlast as"] exI [of _ bs] exI [of _ "[last as]"]) (cases as rule: rev_cases; simp)
  from hi_run_correct [OF lt this]
  have *: "outcome (hi_fail (ms_pending m) pre post ?U) (\<lambda>_. hi_done (ms_pending m) pre post ?U C ?R)
    (hi_run lt (hi_take_a 1 ?X))" .
  obtain out Y where run: "hi_run lt (hi_take_a 1 ?X) = (out, Y)" by (rule prod.exhaust)
  have drop: "\<exists>as' bs' M. ms_arr (hi_drop Y) = pre @ (as' @ bs' @ M) @ post \<and> ms_pending (hi_drop Y) = ms_pending m
      \<and> mset (as' @ bs' @ M) = mset (as @ bs) \<and> P as' bs' M"
    if "hi_all (ms_pending m) pre post ?U P Y" for P
    using that hi_rep_drop unfolding hi_all_def mset_append by (metis add.assoc)
  show ?thesis
  proof (cases out)
    case (Inl e)
    then have "hi_fail (ms_pending m) pre post ?U Y" using * run by simp
    from drop [OF this] show ?thesis unfolding merge_hi_def run prod.case Inl outcome_simps by blast
  next
    case (Inr v)
    then have "hi_done (ms_pending m) pre post ?U C ?R Y" using * run by simp
    from drop [OF this] show ?thesis
      unfolding merge_hi_def run prod.case Inr outcome_simps hi_over_def by metis
  qed
qed

end
