(* ===== verification/Sort_Power.thy ===== *)
theory Sort_Power
  imports Sort_Model
begin

text \<open>
  \<open>powerloop\<close> ends and returns the powersort depth.
\<close>

lemma power_loop_returns:
  assumes "a < b" "b < 2 * n"
  shows "\<exists>p. power_loop result a b n = Some p"
  using assms
proof (induction "2 * n - (b - a)" arbitrary: result a b rule: less_induct)
  case less
  show ?case
  proof (cases "a \<ge> n")
    case True
    have "2 * n - (2 * (b - n) - 2 * (a - n)) < 2 * n - (b - a)" using less(2,3) True by linarith
    moreover have "2 * (a - n) < 2 * (b - n)" "2 * (b - n) < 2 * n" using less(2,3) True by linarith+
    ultimately show ?thesis using less(1) True by (subst power_loop.simps) (simp add: Let_def)
  next
    case a: False
    show ?thesis
    proof (cases "b \<ge> n")
      case True
      then show ?thesis using a by (subst power_loop.simps) (simp add: Let_def)
    next
      case False
      have "2 * n - (2 * b - 2 * a) < 2 * n - (b - a)" using less(2,3) False by linarith
      moreover have "2 * a < 2 * b" "2 * b < 2 * n" using less(2) False by linarith+
      ultimately show ?thesis using less(1) a False by (subst power_loop.simps) (simp add: Let_def)
    qed
  qed
qed

text \<open>
  The first binary digit in which \<open>a / 2n\<close> and \<open>b / 2n\<close> differ: the depth of the node of the
  powersort tree between the midpoints of the two runs.
\<close>

definition digits_differ :: "nat \<Rightarrow> nat \<Rightarrow> nat \<Rightarrow> nat \<Rightarrow> bool" where
  "digits_differ a b n k \<longleftrightarrow> (2 ^ k * a) div (2 * n) \<noteq> (2 ^ k * b) div (2 * n)"

lemma digits_shift:
  fixes n a :: nat
  assumes "n \<le> a"
  shows "(2 ^ k * (2 * (a - n))) div (2 * n) = (2 ^ Suc k * a) div (2 * n) - 2 ^ k"
proof -
  have "2 ^ Suc k * a = 2 ^ k * (2 * (a - n)) + 2 ^ k * (2 * n)"
    using assms by (simp add: algebra_simps diff_mult_distrib2)
  moreover have "(2 ^ k * (2 * (a - n)) + 2 ^ k * (2 * n)) div (2 * n) = (2 ^ k * (2 * (a - n))) div (2 * n) + 2 ^ k" if "0 < n"
    using that div_mult_self1 [of "2 * n" "2 ^ k * (2 * (a - n))" "2 ^ k"] by simp
  ultimately show ?thesis by (cases "n = 0") simp_all
qed

lemma power_loop_first:
  assumes "a < b" "b < 2 * n" "power_loop result a b n = Some p"
  shows "\<exists>d>0. p = result + d \<and> digits_differ a b n d \<and> (\<forall>k<d. \<not> digits_differ a b n k)"
  using assms
proof (induction "2 * n - (b - a)" arbitrary: result a b rule: less_induct)
  case less
  have zero: "\<not> digits_differ a b n 0" using less(2,3) by (simp add: digits_differ_def)
  have extend: ?case if d: "0 < d" "p = Suc result + d" "digits_differ a b n (Suc d)" "\<forall>k<d. \<not> digits_differ a b n (Suc k)" for d
  proof (intro exI [of _ "Suc d"] conjI allI impI)
    show "\<not> digits_differ a b n k" if "k < Suc d" for k using that d(4) zero by (cases k) simp_all
  qed (use d in simp_all)
  show ?case
  proof (cases "a \<ge> n")
    case True
    have shift: "digits_differ (2 * (a - n)) (2 * (b - n)) n k \<Longrightarrow> digits_differ a b n (Suc k)"
      "\<not> digits_differ (2 * (a - n)) (2 * (b - n)) n k \<Longrightarrow> \<not> digits_differ a b n (Suc k)" for k
    proof -
      have "2 ^ k \<le> (2 ^ Suc k * a) div (2 * n)" "2 ^ k \<le> (2 ^ Suc k * b) div (2 * n)"
        using True less(2,3) by (simp_all add: less_eq_div_iff_mult_less_eq mult.left_commute)
      then show "digits_differ (2 * (a - n)) (2 * (b - n)) n k \<Longrightarrow> digits_differ a b n (Suc k)"
        "\<not> digits_differ (2 * (a - n)) (2 * (b - n)) n k \<Longrightarrow> \<not> digits_differ a b n (Suc k)"
        using True less(2) unfolding digits_differ_def by (simp_all only: digits_shift) linarith+
    qed
    have "2 * n - (2 * (b - n) - 2 * (a - n)) < 2 * n - (b - a)" "2 * (a - n) < 2 * (b - n)" "2 * (b - n) < 2 * n"
      using less(2,3) True by linarith+
    moreover have "power_loop (Suc result) (2 * (a - n)) (2 * (b - n)) n = Some p"
      using less(4) True by (subst (asm) power_loop.simps) (simp add: Let_def)
    ultimately show ?thesis using less(1) [of "2 * (b - n)" "2 * (a - n)" "Suc result"] shift extend by blast
  next
    case a: False
    show ?thesis
    proof (cases "b \<ge> n")
      case True
      then have "p = result + 1" using less(4) a by (subst (asm) power_loop.simps) (simp add: Let_def)
      moreover have "digits_differ a b n 1"
      proof -
        have "(2 * a) div (2 * n) = 0" "(2 * b) div (2 * n) = 1" using a True less(3) by (simp_all add: div_nat_eqI)
        then show ?thesis by (simp add: digits_differ_def)
      qed
      ultimately show ?thesis using zero by (intro exI [of _ 1]) simp
    next
      case False
      have shift: "digits_differ (2 * a) (2 * b) n k = digits_differ a b n (Suc k)" for k
        by (simp add: digits_differ_def mult.assoc mult.left_commute)
      have "2 * n - (2 * b - 2 * a) < 2 * n - (b - a)" "2 * a < 2 * b" "2 * b < 2 * n"
        using less(2,3) False by linarith+
      moreover have "power_loop (Suc result) (2 * a) (2 * b) n = Some p"
        using less(4) a False by (subst (asm) power_loop.simps) (simp add: Let_def)
      ultimately show ?thesis using less(1) [of "2 * b" "2 * a" "Suc result"] extend unfolding shift by blast
    qed
  qed
qed

end
