(* ===== verification/Sort_Correct.thy ===== *)
theory Sort_Correct
  imports Sort_Main Sort_Count Sort_Hi Sort_Power
begin

text \<open>
  The sort as a whole: the merge of two spans, the stack of runs, and the loop over the runs.
\<close>

section \<open>Merging two runs\<close>

lemma merge_either:
  assumes lt: "answers lt C r" and arr: "ms_arr m = pre @ as @ bs @ post" and ne: "as \<noteq> []" "bs \<noteq> []"
    and ord: "C \<Longrightarrow> strict_weak r \<and> ordered r as \<and> ordered r bs \<and> r (hd bs) (hd as) \<and> r (last bs) (last as)"
  shows "outcome (within (ms_pending m) pre post (mset (as @ bs)) (\<lambda>_. True))
    (\<lambda>_. within (ms_pending m) pre post (mset (as @ bs)) (\<lambda>S. C \<longrightarrow> S = merge r as bs))
    (if length as \<le> length bs then merge_lo lt (length pre) (length as) (length bs) m
     else merge_hi lt (length pre) (length as) (length bs) m)"
  using merge_lo_correct [OF assms] merge_hi_correct [OF assms]
  by (auto elim!: outcome_weaken simp: within_def)

lemma merge_spans_outcome:
  fixes lt :: "('a, 's, 'e) comparator"
  assumes lt: "answers lt C r" and arr: "ms_arr m = pre @ as @ bs @ post" and ne: "as \<noteq> []" "bs \<noteq> []"
    and ord: "C \<Longrightarrow> strict_weak r \<and> ordered r as \<and> ordered r bs"
  shows "outcome (within (ms_pending m) pre post (mset (as @ bs)) (\<lambda>_. True))
    (\<lambda>_. within (ms_pending m) pre post (mset (as @ bs)) (\<lambda>S. C \<longrightarrow> S = merge r as bs))
    (merge_spans lt (length pre) (length as) (length pre + length as) (length bs) m)"
proof -
  let ?E = "within (ms_pending m) pre post (mset (as @ bs)) (\<lambda>_. True)"
  let ?Q = "\<lambda>_. within (ms_pending m) pre post (mset (as @ bs)) (\<lambda>S. C \<longrightarrow> S = merge r as bs)"
  have swo: "C \<Longrightarrow> strict_weak r" using ord by simp
  have same: "within (ms_pending m) pre post (mset (as @ bs)) P m'" if "cmp_only m m'" "P (as @ bs)" for P m'
    using that arr by (intro withinI [where zs = "as @ bs"]) (auto simp: cmp_only_iff)
  have a: "ms_arr m ! (length pre + i) = as ! i" if "i < length as" for i using that by (simp add: arr nth_append)
  have b: "ms_arr m ! (length pre + length as + i) = bs ! i" if "i < length bs" for i
    using that by (simp add: arr nth_append)
  have key: "ms_arr m ! (length pre + length as) = hd bs" using b [of 0] ne(2) by (simp add: hd_conv_nth)
  have "outcome (cmp_only m) (\<lambda>k m'. cmp_only m m' \<and> k \<le> length as
      \<and> (C \<longrightarrow> ends_at (\<lambda>i. \<not> r (hd bs) (ms_arr m ! (length pre + i))) (length as) k))
    (gallop_right lt (hd bs) (\<lambda>j. ms_arr m ! (length pre + j)) (length as) 0 m)"
    using ord ne by (intro gallop_right_outcome [OF lt]) (auto simp: sorted_at_def a dest: ordered_nth)
  then have "outcome ?E (\<lambda>k m'. cmp_only m m' \<and> k \<le> length as
      \<and> (C \<longrightarrow> ends_at (\<lambda>i. \<not> r (hd bs) (as ! i)) (length as) k))
    (gallop_right lt (hd bs) (\<lambda>j. ms_arr m ! (length pre + j)) (length as) 0 m)"
    by (rule outcome_weaken) (auto simp: ends_at_def a same simp del: mset_append)
  then show ?thesis
    unfolding merge_spans_def key
  proof (rule outcome_and_then)
    fix k and m1 :: "('a, 's) merge_state"
    assume k: "cmp_only m m1 \<and> k \<le> length as \<and> (C \<longrightarrow> ends_at (\<lambda>i. \<not> r (hd bs) (as ! i)) (length as) k)"
    let ?as = "drop k as" and ?pre = "pre @ take k as"
    have skip: "merge r as bs = take k as @ merge r ?as bs" if C
    proof -
      have "\<not> r y x" if "x \<in> set (take k as)" "y \<in> set bs" for x y
        using that k \<open>C\<close> strict_weakD(3) [OF swo [OF \<open>C\<close>], of y "hd bs" x] ordered_hd [OF _ swo [OF \<open>C\<close>]] ord [OF \<open>C\<close>]
        by (auto simp: ends_at_def in_set_conv_nth)
      then show ?thesis using merge_blocks [of "take k as" bs r "[]" ?as] by simp
    qed
    have arr1: "ms_arr m1 = ?pre @ ?as @ bs @ post" "ms_pending m1 = ms_pending m" using k arr by (auto simp: cmp_only_iff)
    show "outcome ?E ?Q (let sa = length pre + k; na = length as - k
      in if na = 0 then (Inr (), m1)
         else and_then (gallop_left lt (ms_arr m1 ! (sa + na - 1)) (\<lambda>j. ms_arr m1 ! (length pre + length as + j))
             (length bs) (length bs - 1) m1)
           (\<lambda>nb m2. if nb = 0 then (Inr (), m2)
             else if na \<le> nb then merge_lo lt sa na nb m2 else merge_hi lt sa na nb m2))"
    proof (cases "length as - k = 0")
      case True
      then have "C \<longrightarrow> as @ bs = merge r as bs" using skip by simp
      then show ?thesis using True k same [of m1 "\<lambda>S. C \<longrightarrow> S = merge r as bs"] by (simp add: Let_def del: mset_append)
    next
      case False
      have last_a: "ms_arr m1 ! (length pre + k + (length as - k) - 1) = last as"
      proof -
        have "length pre + k + (length as - k) - 1 = length pre + (length as - 1)" using False k ne(1) by simp
        then show ?thesis using a [of "length as - 1"] k ne(1) by (simp add: cmp_only_iff last_conv_nth)
      qed
      have b1: "ms_arr m1 ! (length pre + length as + i) = bs ! i" if "i < length bs" for i
        using b [OF that] k by (simp add: cmp_only_iff)
      have "outcome (cmp_only m1) (\<lambda>j m'. cmp_only m1 m' \<and> j \<le> length bs
          \<and> (C \<longrightarrow> ends_at (\<lambda>i. r (ms_arr m1 ! (length pre + length as + i)) (last as)) (length bs) j))
        (gallop_left lt (last as) (\<lambda>j. ms_arr m1 ! (length pre + length as + j)) (length bs) (length bs - 1) m1)"
        using ord ne by (intro gallop_left_outcome [OF lt]) (auto simp: sorted_at_def b1 dest: ordered_nth)
      then have search: "outcome ?E (\<lambda>j m'. cmp_only m1 m' \<and> j \<le> length bs
          \<and> (C \<longrightarrow> ends_at (\<lambda>i. r (bs ! i) (last as)) (length bs) j))
        (gallop_left lt (last as) (\<lambda>j. ms_arr m1 ! (length pre + length as + j)) (length bs) (length bs - 1) m1)"
        using k cmp_only_trans by (elim outcome_weaken) (auto simp: ends_at_def b1 simp del: mset_append intro!: same)
      have "outcome ?E ?Q (and_then
          (gallop_left lt (last as) (\<lambda>j. ms_arr m1 ! (length pre + length as + j)) (length bs) (length bs - 1) m1)
          (\<lambda>nb m2. if nb = 0 then (Inr (), m2)
             else if length as - k \<le> nb then merge_lo lt (length pre + k) (length as - k) nb m2
             else merge_hi lt (length pre + k) (length as - k) nb m2))"
      proof (rule outcome_and_then [OF search])
        fix j and m2 :: "('a, 's) merge_state"
        assume j: "cmp_only m1 m2 \<and> j \<le> length bs \<and> (C \<longrightarrow> ends_at (\<lambda>i. r (bs ! i) (last as)) (length bs) j)"
        have m2: "ms_arr m2 = ?pre @ ?as @ take j bs @ (drop j bs @ post)" "ms_pending m2 = ms_pending m"
          using j arr1 by (auto simp: cmp_only_iff)
        have rest: "merge r as bs = take k as @ merge r ?as (take j bs) @ drop j bs" if C
        proof -
          have "\<not> r y x" if "x \<in> set ?as" "y \<in> set (drop j bs)" for x y
          proof -
            have "\<not> r y (last as)" using that(2) j \<open>C\<close> by (auto simp: ends_at_def in_set_conv_nth)
            moreover have "\<not> r (last as) x"
              using ordered_last [OF _ swo [OF \<open>C\<close>]] ord [OF \<open>C\<close>] that(1) by (auto dest: in_set_dropD)
            ultimately show ?thesis using strict_weakD(3) [OF swo [OF \<open>C\<close>]] by blast
          qed
          then have "merge r (?as @ []) (take j bs @ drop j bs) = merge r ?as (take j bs) @ merge r [] (drop j bs)"
            by (intro merge_blocks) simp_all
          then show ?thesis using skip [OF that] by simp
        qed
        show "outcome ?E ?Q (if j = 0 then (Inr (), m2)
           else if length as - k \<le> j then merge_lo lt (length pre + k) (length as - k) j m2
           else merge_hi lt (length pre + k) (length as - k) j m2)"
        proof (cases "j = 0")
          case True
          have "C \<longrightarrow> as @ bs = merge r as bs" using rest True by simp
          then show ?thesis using True k j cmp_only_trans [of m m1 m2] same [of m2 "\<lambda>S. C \<longrightarrow> S = merge r as bs"]
            by (simp del: mset_append)
        next
          case pos: False
          have ne': "?as \<noteq> []" "take j bs \<noteq> []" using False pos ne by auto
          have len: "length ?pre = length pre + k" "length ?as = length as - k" "length (take j bs) = j"
            using k j by simp_all
          have "strict_weak r \<and> ordered r ?as \<and> ordered r (take j bs) \<and> r (hd (take j bs)) (hd ?as)
            \<and> r (last (take j bs)) (last ?as)" if C
          proof -
            have "hd (take j bs) = hd bs" "hd ?as = as ! k" "last ?as = last as" "last (take j bs) = bs ! (j - 1)"
              using pos ne' False j last_take [of j bs] by (simp_all add: hd_drop_conv_nth hd_conv_nth)
            moreover have "r (hd bs) (as ! k)" "r (bs ! (j - 1)) (last as)"
              using k j pos False that by (auto simp: ends_at_def)
            ultimately show ?thesis using ord [OF that] by (simp add: ordered_take_drop)
          qed
          from merge_either [OF lt m2(1) ne' this] show ?thesis
            unfolding if_not_P [OF pos] len
          proof (rule outcome_weaken)
            fix v Y
            assume "within (ms_pending m2) ?pre (drop j bs @ post) (mset (?as @ take j bs)) (\<lambda>S. C \<longrightarrow> S = merge r ?as (take j bs)) Y"
            then obtain S where S: "ms_pending Y = ms_pending m" "ms_arr Y = pre @ (take k as @ S @ drop j bs) @ post"
              "mset S = mset (?as @ take j bs)" "C \<longrightarrow> S = merge r ?as (take j bs)"
              unfolding within_def m2(2) by auto
            show "within (ms_pending m) pre post (mset (as @ bs)) (\<lambda>S. C \<longrightarrow> S = merge r as bs) Y"
            proof (rule withinI [OF S(1,2)])
              show "mset (take k as @ S @ drop j bs) = mset (as @ bs)"
                using S(3) by (simp add: mset_split [of k as, symmetric] mset_split [of j bs, symmetric] ac_simps)
              show "C \<longrightarrow> take k as @ S @ drop j bs = merge r as bs" using S(4) rest by simp
            qed
          next
            fix Y
            assume "within (ms_pending m2) ?pre (drop j bs @ post) (mset (?as @ take j bs)) (\<lambda>_. True) Y"
            then obtain S where S: "ms_pending Y = ms_pending m" "ms_arr Y = pre @ (take k as @ S @ drop j bs) @ post"
              "mset S = mset (?as @ take j bs)" unfolding within_def m2(2) by auto
            show "within (ms_pending m) pre post (mset (as @ bs)) (\<lambda>_. True) Y"
            proof (rule withinI [OF S(1,2)])
              show "mset (take k as @ S @ drop j bs) = mset (as @ bs)"
                using S(3) by (simp add: mset_split [of k as, symmetric] mset_split [of j bs, symmetric] ac_simps)
            qed simp
          qed
        qed
      qed
      then show ?thesis using False last_a by (simp add: Let_def del: mset_append)
    qed
  qed
qed

end
