(* ===== verification/Sort_Stack.thy ===== *)
theory Sort_Stack
  imports Sort_Correct
begin

text \<open>
  The stack of pending runs describes a partition of the sorted part of the list into blocks,
  through every merge, every collapse and the loop of \<open>sort\<close>.
\<close>

section \<open>The stack\<close>

fun layout :: "nat \<Rightarrow> 'a list list \<Rightarrow> (nat \<times> nat) list" where
  "layout lo [] = []"
| "layout lo (b # bs) = (lo, length b) # layout (lo + length b) bs"

definition run_span :: "run \<Rightarrow> nat \<times> nat" where
  "run_span p = (run_base p, run_len p)"

lemma layout_append: "layout lo (bs @ cs) = layout lo bs @ layout (lo + length (concat bs)) cs"
  by (induction bs arbitrary: lo) (simp_all add: add.assoc)

lemma length_layout [simp]: "length (layout lo bs) = length bs"
  by (induction bs arbitrary: lo) simp_all

text \<open>
  The list holds the blocks of the stack, then the rest; with a consistent comparator the
  blocks are sorted and the whole is a stable rearrangement of \<open>xs\<close>.
\<close>

definition stacked :: "bool \<Rightarrow> ('a \<Rightarrow> 'a \<Rightarrow> bool) \<Rightarrow> 'a list \<Rightarrow> 'a list list \<Rightarrow> 'a list \<Rightarrow> ('a, 's) merge_state \<Rightarrow> bool" where
  "stacked C r xs blocks rest m \<longleftrightarrow> ms_arr m = concat blocks @ rest
     \<and> map run_span (ms_pending m) = layout 0 blocks \<and> (\<forall>b\<in>set blocks. b \<noteq> [])
     \<and> mset (ms_arr m) = mset xs \<and> (C \<longrightarrow> (\<forall>b\<in>set blocks. ordered r b) \<and> stable_eq r (ms_arr m) xs)"

definition permuted :: "'a list \<Rightarrow> ('a, 's) merge_state \<Rightarrow> bool" where
  "permuted xs m \<longleftrightarrow> mset (ms_arr m) = mset xs"

lemma stacked_split:
  assumes "stacked C r xs blocks rest m" "i + 1 < length (ms_pending m)"
  obtains us as bs vs where "blocks = us @ as # bs # vs" "length us = i"
proof -
  have "length blocks = length (ms_pending m)"
    using assms(1) length_map [of run_span "ms_pending m"] by (simp add: stacked_def)
  then have len: "i < length blocks" "Suc i < length blocks" using assms(2) by simp_all
  show ?thesis
  proof (rule that)
    show "blocks = take i blocks @ blocks ! i # blocks ! Suc i # drop (Suc (Suc i)) blocks"
      using len by (simp add: Cons_nth_drop_Suc)
    show "length (take i blocks) = i" using len by simp
  qed
qed

lemma stacked_pending:
  assumes "stacked C r xs (us @ as # bs # vs) rest m"
  obtains ps p q qs where "ms_pending m = ps @ p # q # qs" "length ps = length us"
    "map run_span ps = layout 0 us" "run_span p = (length (concat us), length as)"
    "run_span q = (length (concat us) + length as, length bs)"
    "map run_span qs = layout (length (concat us) + length as + length bs) vs"
proof -
  have "map run_span (ms_pending m) = layout 0 us @ (length (concat us), length as)
      # (length (concat us) + length as, length bs) # layout (length (concat us) + length as + length bs) vs"
    using assms by (simp add: stacked_def layout_append)
  then obtain ps rs where *: "ms_pending m = ps @ rs" "map run_span ps = layout 0 us"
    "map run_span rs = (length (concat us), length as)
      # (length (concat us) + length as, length bs) # layout (length (concat us) + length as + length bs) vs"
    by (auto simp: map_eq_append_conv)
  have "length ps = length us" using arg_cong [OF *(2), of length] by simp
  then show ?thesis using that * by (auto simp: map_eq_Cons_conv)
qed

lemma join_runs_pending:
  assumes "ms_pending m = ps @ p # q # qs" "i = length ps"
  shows "ms_pending (join_runs i m) = ps @ p\<lparr>run_len := run_len p + run_len q\<rparr> # qs"
    "ms_arr (join_runs i m) = ms_arr m"
  using assms by (simp_all add: join_runs_def remove_run_def Let_def nth_append list_update_append)

lemma stable_block:
  assumes "stable_eq r S T" "stable_eq r (us @ T @ vs) xs"
  shows "stable_eq r (us @ S @ vs) xs"
  by (rule stable_eq_trans [OF _ assms(2)])
    (intro stable_eq_append [OF stable_eq_refl] stable_eq_append [OF assms(1) stable_eq_refl])

lemma merge_at_outcome:
  fixes lt :: "('a, 's, 'e) comparator"
  assumes lt: "answers lt C r" and swo: "C \<Longrightarrow> strict_weak r" and m: "stacked C r xs blocks rest m"
    and i: "i + 1 < length (ms_pending m)"
  shows "outcome (permuted xs) (\<lambda>_ m'. \<exists>blocks'. stacked C r xs blocks' rest m') (merge_at lt i m)"
proof -
  obtain us as bs vs where split: "blocks = us @ as # bs # vs" "length us = i"
    using stacked_split [OF m i] .
  obtain ps p q qs where pend: "ms_pending m = ps @ p # q # qs" "length ps = length us"
    "map run_span ps = layout 0 us" "run_span p = (length (concat us), length as)"
    "run_span q = (length (concat us) + length as, length bs)"
    "map run_span qs = layout (length (concat us) + length as + length bs) vs"
    using stacked_pending [OF m [unfolded split(1)]] .
  let ?pre = "concat us" and ?post = "concat vs @ rest"
  let ?p = "p\<lparr>run_len := run_len p + run_len q\<rparr>"
  note joined = join_runs_pending [OF pend(1), of i]
  have i_ps: "i = length ps" using pend(2) split(2) by simp
  have arr: "ms_arr (join_runs i m) = ?pre @ as @ bs @ ?post"
    using m joined(2) [OF i_ps] by (simp add: stacked_def split(1))
  have ne: "as \<noteq> []" "bs \<noteq> []" using m by (auto simp: stacked_def split(1))
  have ord: "C \<Longrightarrow> strict_weak r \<and> ordered r as \<and> ordered r bs" using m swo by (auto simp: stacked_def split(1))
  have spans: "merge_at lt i m = merge_spans lt (length ?pre) (length as) (length ?pre + length as) (length bs) (join_runs i m)"
    using pend(1,2,4,5) i_ps by (simp add: merge_at_def Let_def nth_append run_span_def)
  have whole: "mset (?pre @ as @ bs @ ?post) = mset xs" "C \<longrightarrow> stable_eq r (?pre @ (as @ bs) @ ?post) xs"
    using m by (auto simp: stacked_def split(1))
  have keep: "stacked C r xs (us @ S # vs) rest m'"
    if "ms_pending m' = ps @ ?p # qs" "ms_arr m' = ?pre @ S @ ?post" "mset S = mset (as @ bs)"
      "C \<longrightarrow> S = merge r as bs" for S and m' :: "('a, 's) merge_state"
  proof -
    have len: "length S = length as + length bs" using arg_cong [OF that(3), of size] by simp
    have span: "run_span ?p = (length ?pre, length S)" using pend(4,5) len by (simp add: run_span_def)
    have "stable_eq r (?pre @ S @ ?post) xs" "ordered r S" if C
      using whole(2) ord [OF that] that \<open>C \<longrightarrow> S = merge r as bs\<close>
      by (auto intro: stable_block merge_stable merge_ordered)
    moreover have "\<forall>b\<in>set us \<union> set vs. b \<noteq> [] \<and> (C \<longrightarrow> ordered r b)" using m by (auto simp: stacked_def split(1))
    moreover have "S \<noteq> []" using len ne by auto
    ultimately show ?thesis
      using that(1-3) whole(1) span pend(3,6) len by (auto simp: stacked_def layout_append add.assoc)
  qed
  show ?thesis
    unfolding spans
  proof (rule outcome_weaken [OF merge_spans_outcome [OF lt arr ne ord]])
    fix Y :: "('a, 's) merge_state"
    assume "within (ms_pending (join_runs i m)) ?pre ?post (mset (as @ bs)) (\<lambda>_. True) Y"
    then show "permuted xs Y" using whole(1) by (auto simp: within_def permuted_def add.assoc)
  next
    fix v and Y :: "('a, 's) merge_state"
    assume "within (ms_pending (join_runs i m)) ?pre ?post (mset (as @ bs)) (\<lambda>S. C \<longrightarrow> S = merge r as bs) Y"
    then show "\<exists>blocks'. stacked C r xs blocks' rest Y"
      using keep joined(1) [OF i_ps] unfolding within_def by metis
  qed
qed

section \<open>Collapsing\<close>

lemma collapse_outcome:
  assumes lt: "answers lt C r" and swo: "C \<Longrightarrow> strict_weak r" and "stacked C r xs blocks rest m"
  shows "outcome (permuted xs) (\<lambda>_ m'. \<exists>blocks'. stacked C r xs blocks' rest m') (collapse lt pw m)"
  using assms(3)
proof (induction "length (ms_pending m)" arbitrary: m blocks rule: less_induct)
  case less
  let ?n = "length (ms_pending m)"
  show ?case
  proof (cases "?n > 1 \<and> run_power (ms_pending m ! (?n - 2)) > pw")
    case True
    then have i: "?n - 2 + 1 < length (ms_pending m)" by linarith
    show ?thesis
      unfolding collapse.simps [of lt pw m] Let_def if_P [OF True]
    proof (rule outcome_and_then [OF merge_at_outcome [OF lt swo less(2) i]])
      fix v m'
      assume "merge_at lt (?n - 2) m = (Inr v, m')" "\<exists>blocks'. stacked C r xs blocks' rest m'"
      then show "outcome (permuted xs) (\<lambda>_ m'. \<exists>blocks'. stacked C r xs blocks' rest m') (collapse lt pw m')"
        using less(1) merge_at_shrinks [OF i, of lt] by auto
    qed
  next
    case False
    then show ?thesis using less(2) unfolding collapse.simps [of lt pw m] Let_def if_not_P [OF False] by auto
  qed
qed

lemma merge_force_collapse_outcome:
  assumes lt: "answers lt C r" and swo: "C \<Longrightarrow> strict_weak r" and "stacked C r xs blocks rest m"
  shows "outcome (permuted xs) (\<lambda>_ m'. \<exists>blocks'. stacked C r xs blocks' rest m' \<and> length (ms_pending m') \<le> 1)
    (merge_force_collapse lt m)"
  using assms(3)
proof (induction "length (ms_pending m)" arbitrary: m blocks rule: less_induct)
  case less
  let ?i = "force_index (ms_pending m)"
  show ?case
  proof (cases "length (ms_pending m) > 1")
    case True
    then have i: "?i + 1 < length (ms_pending m)" by (auto simp: force_index_def Let_def)
    show ?thesis
      unfolding merge_force_collapse.simps [of lt m] if_P [OF True]
    proof (rule outcome_and_then [OF merge_at_outcome [OF lt swo less(2) i]])
      fix v m'
      assume "merge_at lt ?i m = (Inr v, m')" "\<exists>blocks'. stacked C r xs blocks' rest m'"
      then show "outcome (permuted xs) (\<lambda>_ m'. \<exists>blocks'. stacked C r xs blocks' rest m' \<and> length (ms_pending m') \<le> 1)
        (merge_force_collapse lt m')"
        using less(1) merge_at_shrinks [OF i, of lt] by auto
    qed
  next
    case False
    then show ?thesis using less(2) unfolding merge_force_collapse.simps [of lt m] if_not_P [OF False] by auto
  qed
qed

section \<open>\<open>sort\<close>\<close>

lemma stacked_length:
  assumes "stacked C r xs blocks rest m"
  shows "length (concat blocks) + length rest = length xs" "length (ms_arr m) = length xs"
proof -
  show len: "length (ms_arr m) = length xs" using assms unfolding stacked_def by (intro mset_eq_length) blast
  have "ms_arr m = concat blocks @ rest" using assms by (simp add: stacked_def)
  then show "length (concat blocks) + length rest = length xs" using len by (simp del: length_concat)
qed

lemma next_run_outcome:
  fixes lt :: "('a, 's, 'e) comparator"
  assumes lt: "answers lt C r" and swo: "C \<Longrightarrow> strict_weak r" and m: "stacked C r xs blocks rest m" and ne: "rest \<noteq> []"
  shows "outcome (permuted xs) (\<lambda>k m'. 0 < k \<and> k \<le> length rest
      \<and> (\<exists>rest'. stacked C r xs blocks rest' m' \<and> length rest' = length rest \<and> (C \<longrightarrow> ordered r (take k rest'))))
    (next_run lt minrun (length (concat blocks)) (length rest) m)"
proof -
  let ?pre = "concat blocks"
  let ?E = "within (ms_pending m) ?pre [] (mset rest) (\<lambda>_. True)"
  let ?Q = "\<lambda>k m'. 0 < k \<and> k \<le> length rest \<and> within (ms_pending m) ?pre [] (mset rest) (prefix_sorted C r rest k) m'"
  have arr: "ms_arr m = ?pre @ rest @ []" using m by (simp add: stacked_def)
  have len: "0 < length rest" using ne by simp
  have run: "outcome ?E ?Q (next_run lt minrun (length ?pre) (length rest) m)"
    unfolding next_run_def
  proof (rule outcome_and_then [OF count_run_outcome [OF lt swo arr len order_refl]])
    fix k and m1 :: "('a, 's) merge_state"
    assume k: "?Q k m1"
    show "outcome ?E ?Q (if k < minrun then let force = min (length rest) minrun
        in and_then (binarysort lt (length ?pre) force k m1) (\<lambda>_ m2. (Inr force, m2))
      else (Inr k, m1))"
    proof (cases "k < minrun")
      case True
      let ?f = "min (length rest) minrun"
      have sort: "outcome ?E (\<lambda>_. within (ms_pending m) ?pre [] (mset rest) (prefix_sorted C r rest ?f))
        (binarysort lt (length ?pre) ?f k m1)"
        using k True len by (intro binarysort_outcome [OF lt swo, where ok = k]) auto
      show ?thesis
        unfolding if_P [OF True] Let_def
        by (rule outcome_and_then [OF sort]) (use True k len in auto)
    qed (use k in simp)
  qed
  show ?thesis
  proof (rule outcome_weaken [OF run])
    fix Y :: "('a, 's) merge_state"
    assume "?E Y"
    then show "permuted xs Y" using m by (auto simp: within_def permuted_def stacked_def)
  next
    fix k and Y :: "('a, 's) merge_state"
    assume k: "?Q k Y"
    then obtain zs where zs: "ms_pending Y = ms_pending m" "ms_arr Y = ?pre @ zs" "mset zs = mset rest"
      "prefix_sorted C r rest k zs" unfolding within_def by auto
    have "stacked C r xs blocks zs Y"
    proof -
      have "stable_eq r (?pre @ zs @ []) xs" if C
        by (rule stable_block [of r zs rest]) (use m zs(4) that in \<open>auto simp: stacked_def prefix_sorted_def\<close>)
      then show ?thesis using m zs by (auto simp: stacked_def)
    qed
    moreover have "length zs = length rest" using arg_cong [OF zs(3), of size] by simp
    ultimately show "0 < k \<and> k \<le> length rest \<and> (\<exists>rest'. stacked C r xs blocks rest' Y
        \<and> length rest' = length rest \<and> (C \<longrightarrow> ordered r (take k rest')))"
      using k zs(4) by (auto simp: prefix_sorted_def)
  qed
qed

lemma found_new_run_outcome:
  fixes lt :: "('a, 's, 'e) comparator"
  assumes lt: "answers lt C r" and swo: "C \<Longrightarrow> strict_weak r" and m: "stacked C r xs blocks rest m"
    and n2: "0 < n2" "n2 \<le> length rest"
  shows "\<exists>res. found_new_run lt n2 m = Some res
    \<and> outcome (permuted xs) (\<lambda>_ m'. \<exists>blocks'. stacked C r xs blocks' rest m') res"
proof (cases "ms_pending m = []")
  case True
  then show ?thesis using m by (auto simp: found_new_run_def)
next
  case False
  let ?top = "last (ms_pending m)"
  obtain bs b where blocks: "blocks = bs @ [b]"
    using False m by (cases blocks rule: rev_cases) (auto simp: stacked_def)
  have "map run_span (ms_pending m) = layout 0 bs @ [(length (concat bs), length b)]"
    using m by (simp add: stacked_def blocks layout_append)
  then have "run_span ?top = (length (concat bs), length b)" using False by (metis last_map last_snoc)
  then have top: "run_base ?top = length (concat bs)" "run_len ?top = length b" by (simp_all add: run_span_def)
  have "0 < length b" using m by (simp add: stacked_def blocks)
  moreover have "length (concat bs) + length b + n2 \<le> length (ms_arr m)"
    using stacked_length [OF m] n2(2) by (simp add: blocks)
  ultimately obtain pw where pw: "powerloop (run_base ?top) (run_len ?top) n2 (length (ms_arr m)) = Some pw"
    using power_loop_returns [of "2 * run_base ?top + run_len ?top"
        "2 * run_base ?top + run_len ?top + run_len ?top + n2" "length (ms_arr m)" 0] n2(1) top
    by (auto simp: powerloop_def Let_def)
  have set_top: "stacked C r xs blocks' rest (set_top_power p m')" if "stacked C r xs blocks' rest m'"
    for p blocks' and m' :: "('a, 's) merge_state"
  proof -
    have "map run_span (ps[i := (ps ! i)\<lparr>run_power := p\<rparr>]) = map run_span ps" for ps :: "run list" and i
      by (cases "i < length ps") (auto intro!: nth_equalityI simp: nth_list_update run_span_def list_update_beyond)
    then have "map run_span (ms_pending (set_top_power p m')) = map run_span (ms_pending m')"
      by (simp add: set_top_power_def Let_def)
    moreover have "ms_arr (set_top_power p m') = ms_arr m'" by (simp add: set_top_power_def Let_def)
    ultimately have "stacked C r xs blocks' rest (set_top_power p m') = stacked C r xs blocks' rest m'"
      unfolding stacked_def by (simp only:)
    then show ?thesis using that by simp
  qed
  have "outcome (permuted xs) (\<lambda>_ m'. \<exists>blocks'. stacked C r xs blocks' rest m')
    (and_then (collapse lt pw m) (\<lambda>_ m'. (Inr (), set_top_power pw m')))"
    by (rule outcome_and_then [OF collapse_outcome [OF lt swo m]]) (auto intro: set_top)
  then show ?thesis using False pw by (auto simp: found_new_run_def Let_def)
qed

lemma push_run_stacked:
  assumes m: "stacked C r xs blocks rest m" and k: "0 < k" "k \<le> length rest" "C \<longrightarrow> ordered r (take k rest)"
  shows "stacked C r xs (blocks @ [take k rest]) (drop k rest) (push_run (length (concat blocks)) k m)"
  using assms by (auto simp: stacked_def push_run_def layout_append run_span_def)

lemma sort_loop_outcome:
  fixes lt :: "('a, 's, 'e) comparator"
  assumes lt: "answers lt C r" and swo: "C \<Longrightarrow> strict_weak r" and "stacked C r xs blocks rest m"
  shows "\<exists>res. sort_loop lt minrun (length (concat blocks)) (length rest) m = Some res
    \<and> outcome (permuted xs) (\<lambda>_ m'. \<exists>blocks'. stacked C r xs blocks' [] m' \<and> length (ms_pending m') \<le> 1) res"
  using assms(3)
proof (induction "length rest" arbitrary: blocks rest m rule: less_induct)
  case less
  let ?lo = "length (concat blocks)" and ?F = "\<lambda>m'. \<exists>blocks'. stacked C r xs blocks' [] m' \<and> length (ms_pending m') \<le> 1"
  show ?case
  proof (cases "rest = []")
    case True
    then show ?thesis
      using merge_force_collapse_outcome [OF lt swo less(2)] by (subst sort_loop.simps) simp
  next
    case False
    obtain out m1 where run: "next_run lt minrun ?lo (length rest) m = (out, m1)" by (rule prod.exhaust)
    note ran = next_run_outcome [OF lt swo less(2) False, where minrun = minrun, unfolded run]
    show ?thesis
    proof (cases out)
      case (Inl e)
      then show ?thesis using ran run False by (subst sort_loop.simps) simp
    next
      case (Inr k)
      then obtain rest' where k: "0 < k" "k \<le> length rest" "stacked C r xs blocks rest' m1" "length rest' = length rest"
        "C \<longrightarrow> ordered r (take k rest')" using ran by auto
      obtain res where found: "found_new_run lt k m1 = Some res"
        "outcome (permuted xs) (\<lambda>_ m'. \<exists>blocks'. stacked C r xs blocks' rest' m') res"
        using found_new_run_outcome [OF lt swo k(3) k(1)] k(2,4) by auto
      obtain out2 m2 where res: "res = (out2, m2)" by (cases res)
      show ?thesis
      proof (cases out2)
        case (Inl e)
        then show ?thesis using found res run \<open>out = Inr k\<close> False by (subst sort_loop.simps) simp
      next
        case (Inr u)
        then obtain blocks' where m2: "stacked C r xs blocks' rest' m2" using found(2) res by auto
        have lo: "length (concat blocks') = ?lo"
          using stacked_length [OF m2] stacked_length [OF k(3)] by simp
        let ?m3 = "push_run ?lo k m2"
        have "stacked C r xs (blocks' @ [take k rest']) (drop k rest') ?m3"
          using push_run_stacked [OF m2 k(1)] k(2,4,5) lo by simp
        moreover have "length (drop k rest') < length rest" using k False by simp
        ultimately have "\<exists>res. sort_loop lt minrun (length (concat (blocks' @ [take k rest']))) (length (drop k rest')) ?m3 = Some res
          \<and> outcome (permuted xs) (\<lambda>_. ?F) res" by (rule less(1) [rotated])
        moreover have "length (concat (blocks' @ [take k rest'])) = ?lo + k" using lo k(2,4) by simp
        ultimately show ?thesis
          using found(1) res run \<open>out = Inr k\<close> Inr False k(4) by (subst sort_loop.simps) simp
      qed
    qed
  qed
qed

theorem timsort_outcome:
  fixes lt :: "('a, 's, 'e) comparator"
  assumes lt: "answers lt C r" and swo: "C \<Longrightarrow> strict_weak r"
  shows "\<exists>res. timsort lt xs s = Some res \<and> outcome (permuted xs)
    (\<lambda>_ m'. permuted xs m' \<and> (C \<longrightarrow> ordered r (ms_arr m') \<and> stable_eq r (ms_arr m') xs)) res"
proof -
  let ?m = "\<lparr>ms_arr = xs, ms_cmp = s, ms_gallop = MIN_GALLOP, ms_pending = []\<rparr>"
  show ?thesis
  proof (cases "length xs < 2")
    case True
    then have "ordered r xs" by (cases xs; cases "tl xs") auto
    then show ?thesis using True by (simp add: timsort_def permuted_def)
  next
    case False
    have "stacked C r xs [] xs ?m" by (simp add: stacked_def)
    from sort_loop_outcome [OF lt swo this, where minrun = "compute_minrun (length xs)"]
    obtain res where res: "sort_loop lt (compute_minrun (length xs)) 0 (length xs) ?m = Some res"
      "outcome (permuted xs) (\<lambda>_ m'. \<exists>blocks'. stacked C r xs blocks' [] m' \<and> length (ms_pending m') \<le> 1) res" by auto
    have "outcome (permuted xs) (\<lambda>_ m'. permuted xs m' \<and> (C \<longrightarrow> ordered r (ms_arr m') \<and> stable_eq r (ms_arr m') xs)) res"
    proof (rule outcome_weaken [OF res(2)])
      fix v and Y :: "('a, 's) merge_state"
      assume "\<exists>blocks'. stacked C r xs blocks' [] Y \<and> length (ms_pending Y) \<le> 1"
      then obtain blocks where b: "stacked C r xs blocks [] Y" "length (ms_pending Y) \<le> 1" by blast
      have "length (map run_span (ms_pending Y)) = length blocks" using b(1) by (simp only: stacked_def length_layout)
      then have "length blocks \<le> 1" using b(2) by simp
      then have "blocks = [] \<or> (\<exists>b. blocks = [b])" by (cases blocks) auto
      then show "permuted xs Y \<and> (C \<longrightarrow> ordered r (ms_arr Y) \<and> stable_eq r (ms_arr Y) xs)"
        using b(1) by (auto simp: stacked_def permuted_def)
    qed
    then show ?thesis using res(1) False by (simp add: timsort_def Let_def)
  qed
qed

end
