(* ===== verification/Sort_Properties.thy ===== *)
theory Sort_Properties
  imports Sort_Stack
begin

text \<open>
  The properties of the list sort.
\<close>

section \<open>The reference sort\<close>

text \<open>Insertion from the right: the stable sort, and the only one.\<close>

fun place :: "('a \<Rightarrow> 'a \<Rightarrow> bool) \<Rightarrow> 'a \<Rightarrow> 'a list \<Rightarrow> 'a list" where
  "place r x [] = [x]"
| "place r x (y # ys) = (if r y x then y # place r x ys else x # y # ys)"

definition stable_sort :: "('a \<Rightarrow> 'a \<Rightarrow> bool) \<Rightarrow> 'a list \<Rightarrow> 'a list" where
  "stable_sort r xs = foldr (place r) xs []"

lemma set_place: "set (place r x ys) = insert x (set ys)"
  by (induction ys) auto

lemma place_ordered: "strict_weak r \<Longrightarrow> ordered r ys \<Longrightarrow> ordered r (place r x ys)"
proof (induction ys)
  case (Cons y ys)
  have "\<not> r z x" if "\<not> r y x" "z \<in> set ys" for z
    using Cons.prems that strict_weakD(3) [OF Cons.prems(1), of z y x] by simp
  moreover have "\<not> r x y" if "r y x" using that by (rule strict_weakD(2) [OF Cons.prems(1)])
  ultimately show ?case using Cons.IH [OF Cons.prems(1)] Cons.prems(2) by (simp add: set_place)
qed simp

lemma place_stable: "strict_weak r \<Longrightarrow> stable_eq r (place r x ys) (x # ys)"
proof (induction ys)
  case (Cons y ys)
  show ?case
  proof (cases "r y x")
    case True
    have "stable_eq r ([y] @ place r x ys) ([y] @ x # ys)" using Cons by (intro stable_eq_append) simp_all
    moreover have "stable_eq r ([] @ [y] @ [x] @ ys) ([] @ [x] @ [y] @ ys)"
      by (rule stable_insert [OF Cons.prems]) (use True in simp)
    ultimately show ?thesis using True by (simp add: stable_eq_def)
  qed simp
qed simp

lemma stable_sort_correct:
  assumes "strict_weak r"
  shows "ordered r (stable_sort r xs)" "stable_eq r (stable_sort r xs) xs"
proof (induction xs)
  case (Cons x xs)
  { case 1 show ?case using Cons(1) place_ordered [OF assms] by (simp add: stable_sort_def) }
  { case 2
    have "stable_eq r ([x] @ stable_sort r xs) ([x] @ xs)" using Cons(2) by (intro stable_eq_append) simp_all
    then show ?case using place_stable [OF assms, of x "stable_sort r xs"]
      by (simp add: stable_sort_def stable_eq_def) }
qed (simp_all add: stable_sort_def)

lemma ordered_unique:
  assumes swo: "strict_weak r"
  shows "ordered r xs \<Longrightarrow> ordered r ys \<Longrightarrow> stable_eq r xs ys \<Longrightarrow> xs = ys"
proof (induction xs arbitrary: ys)
  case Nil
  have "y \<notin> set ys" for y
  proof
    assume "y \<in> set ys"
    then have "y \<in> set (filter (tied r y) ys)" using strict_weakD(1) [OF swo] by (simp add: tied_def)
    moreover have "filter (tied r y) ys = []" using Nil(3) by (simp add: stable_eq_def)
    ultimately show False by simp
  qed
  then show ?case by (cases ys) auto
next
  case (Cons x xs)
  have mem: "z \<in> set (x # xs) \<longleftrightarrow> z \<in> set ys" for z
  proof -
    have "z \<in> set zs \<longleftrightarrow> z \<in> set (filter (tied r z) zs)" for zs using strict_weakD(1) [OF swo] by (simp add: tied_def)
    then show ?thesis using Cons.prems(3) unfolding stable_eq_def by metis
  qed
  then obtain y ys' where ys: "ys = y # ys'" by (cases ys) auto
  have "\<not> r x y" using ordered_hd [OF Cons.prems(2) swo, of x] mem by (auto simp: ys)
  moreover have "\<not> r y x" using ordered_hd [OF Cons.prems(1) swo, of y] mem by (auto simp: ys)
  ultimately have tie: "tied r x y" by (simp add: tied_def)
  have "filter (tied r x) (x # xs) = filter (tied r x) ys" using Cons.prems(3) by (simp add: stable_eq_def)
  moreover have "tied r x x" using strict_weakD(1) [OF swo] by (simp add: tied_def)
  ultimately have "x = y" using tie by (simp add: ys)
  moreover have "stable_eq r xs ys'"
    unfolding stable_eq_def
  proof
    fix a
    have "filter (tied r a) (x # xs) = filter (tied r a) (x # ys')"
      using Cons.prems(3) \<open>x = y\<close> by (simp only: ys stable_eq_def)
    then show "filter (tied r a) xs = filter (tied r a) ys'" by (simp split: if_splits)
  qed
  ultimately show ?case using Cons by (simp add: ys)
qed

lemma outcome_snd:
  assumes "outcome E Q res" "\<And>Y. E Y \<Longrightarrow> S Y" "\<And>v Y. Q v Y \<Longrightarrow> S Y"
  shows "S (snd res)"
  using assms by (cases res; cases "fst res") auto

section \<open>The properties\<close>

text \<open>C3. Whatever the comparison answers, and even when it fails, the sort returns, and the list
  holds a permutation of its input.\<close>

theorem sort_permutes: "\<exists>out m. timsort lt xs s = Some (out, m) \<and> mset (ms_arr m) = mset xs"
proof -
  have "answers lt False (\<lambda>_ _. False)" by (simp add: answers_def)
  from timsort_outcome [OF this, of xs s]
  obtain res where "timsort lt xs s = Some res" "outcome (permuted xs) (\<lambda>_. permuted xs) res" by auto
  then show ?thesis by (cases res; cases "fst res") (auto simp: permuted_def)
qed

text \<open>C5. With a comparison that answers by a strict weak order, a sort that is not cut short by an
  error leaves the stable sorted rearrangement of its input.\<close>

theorem sort_is_stable_sort:
  assumes "strict_weak r" "answers lt True r" "timsort lt xs s = Some (Inr (), m)"
  shows "ms_arr m = stable_sort r xs"
proof -
  have "ordered r (ms_arr m)" "stable_eq r (ms_arr m) xs"
    using timsort_outcome [OF assms(2), of xs s] assms(1,3) by auto
  then show ?thesis
    using stable_sort_correct [OF assms(1), of xs] ordered_unique [OF assms(1)]
    by (meson stable_eq_sym stable_eq_trans)
qed

definition by_key :: "(nat \<times> nat, nat, unit) comparator" where
  "by_key a b s = (Inr (fst a < fst b), s + 1)"

lemma by_key_order: "strict_weak (\<lambda>a b. fst a < fst (b :: nat \<times> nat))" "answers by_key True (\<lambda>a b. fst a < fst b)"
  by (auto simp: strict_weak_def answers_def by_key_def)

lemma by_key_run:
  "map_option (\<lambda>(out, m). (out, ms_arr m)) (timsort by_key [(2, 0), (1, 1), (2, 2), (1, 3)] 0)
    = Some (Inr (), [(1, 1), (1, 3), (2, 0), (2, 2)])"
  by code_simp

theorem sort_is_stable_sort_witness:
  "\<exists>m. timsort by_key [(2, 0), (1, 1), (2, 2), (1, 3)] 0 = Some (Inr (), m)
    \<and> ms_arr m = stable_sort (\<lambda>a b. fst a < fst b) [(2, 0), (1, 1), (2, 2), (1, 3)]"
proof -
  obtain m where "timsort by_key [(2, 0), (1, 1), (2, 2), (1, 3)] 0 = Some (Inr (), m)"
    using by_key_run by (auto split: prod.splits)
  then show ?thesis using sort_is_stable_sort [OF by_key_order] by blast
qed

text \<open>C31. A merge that a failing comparison cuts short, like one that ends, leaves a permutation of
  the two runs in their span and the rest of the list as it was: the drop of the hole puts the
  parked elements back.\<close>

theorem merge_keeps_elements:
  assumes "ms_arr m = pre @ as @ bs @ post" "as \<noteq> []" "bs \<noteq> []"
    and "res = merge_lo lt (length pre) (length as) (length bs) m \<or> res = merge_hi lt (length pre) (length as) (length bs) m"
  shows "\<exists>S. ms_arr (snd res) = pre @ S @ post \<and> mset S = mset (as @ bs)"
proof -
  have any: "answers lt False (\<lambda>_ _. False)" by (simp add: answers_def)
  let ?E = "\<lambda>m'. \<exists>S. ms_arr m' = pre @ S @ post \<and> mset S = mset (as @ bs)"
  have "?E (snd (merge_lo lt (length pre) (length as) (length bs) m))"
    by (rule outcome_snd [OF merge_lo_correct [OF any assms(1-3)]]) blast+
  moreover have "?E (snd (merge_hi lt (length pre) (length as) (length bs) m))"
    by (rule outcome_snd [OF merge_hi_correct [OF any assms(1-3)]]) blast+
  ultimately show ?thesis using assms(4) by blast
qed

text \<open>A comparator that fails on its third call.\<close>

definition third_fails :: "(nat \<times> nat, nat, unit) comparator" where
  "third_fails a b s = (if s \<ge> 2 then (Inl (), s) else (Inr (fst a < fst b), s + 1))"

definition two_runs :: "(nat \<times> nat, nat) merge_state" where
  "two_runs = \<lparr>ms_arr = [(3, 0), (5, 1), (9, 2), (1, 3), (4, 4), (6, 5)], ms_cmp = 0, ms_gallop = 7, ms_pending = []\<rparr>"

definition run_a :: "(nat \<times> nat) list" where
  "run_a = [(3, 0), (5, 1), (9, 2)]"

definition run_b :: "(nat \<times> nat) list" where
  "run_b = [(1, 3), (4, 4), (6, 5)]"

lemma two_runs_arr: "ms_arr two_runs = [] @ run_a @ run_b @ []" "run_a \<noteq> []" "run_b \<noteq> []"
  "length run_a = 3" "length run_b = 3"
  by (simp_all add: two_runs_def run_a_def run_b_def)

theorem merge_keeps_elements_witness:
  "(\<exists>S. ms_arr (snd (merge_lo third_fails 0 3 3 two_runs)) = S \<and> mset S = mset (run_a @ run_b))
    \<and> fst (merge_lo third_fails 0 3 3 two_runs) = Inl ()"
proof
  show "\<exists>S. ms_arr (snd (merge_lo third_fails 0 3 3 two_runs)) = S \<and> mset S = mset (run_a @ run_b)"
    using merge_keeps_elements [OF two_runs_arr(1-3) disjI1, OF refl, of third_fails] by (simp add: two_runs_arr)
  show "fst (merge_lo third_fails 0 3 3 two_runs) = Inl ()" by code_simp
qed

text \<open>C32. The merge of two adjacent sorted runs, by \<open>merge_lo\<close> or \<open>merge_hi\<close> after the elements in
  place are skipped, is the stable merge, in place.\<close>

theorem merge_is_stable_merge:
  assumes "strict_weak r" "answers lt True r" "ms_arr m = pre @ as @ bs @ post" "as \<noteq> []" "bs \<noteq> []"
    and "ordered r as" "ordered r bs"
    and "merge_spans lt (length pre) (length as) (length pre + length as) (length bs) m = (Inr (), m')"
  shows "ms_arr m' = pre @ merge r as bs @ post"
  using merge_spans_outcome [OF assms(2-5)] assms(1,6-8) by (simp add: within_def)

theorem merge_is_stable_merge_witness:
  "\<exists>m'. merge_spans by_key 0 3 3 3 two_runs = (Inr (), m')
    \<and> ms_arr m' = [(1, 3), (3, 0), (4, 4), (5, 1), (6, 5), (9, 2)]"
proof -
  have "fst (merge_spans by_key 0 3 3 3 two_runs) = Inr ()" by code_simp
  then obtain m' where run: "merge_spans by_key 0 3 3 3 two_runs = (Inr (), m')" by (metis prod.collapse)
  have "ms_arr m' = [] @ merge (\<lambda>a b. fst a < fst b) run_a run_b @ []"
    by (rule merge_is_stable_merge [OF by_key_order two_runs_arr(1-3)])
      (use run in \<open>simp_all add: two_runs_arr(4,5), simp_all add: run_a_def run_b_def\<close>)
  then show ?thesis using run by (simp add: run_a_def run_b_def)
qed

lemma ends_at_takeWhile:
  assumes "ends_at (\<lambda>i. P (ys ! i)) (length ys) k" "k \<le> length ys"
  shows "k = length (takeWhile P ys)"
proof -
  have "takeWhile P ys = take k ys"
    by (rule takeWhile_eq_take_P_nth) (use assms(1) in \<open>auto simp: ends_at_def\<close>)
  then show ?thesis using assms(2) by simp
qed

text \<open>\<open>gallop_left\<close> finds, from any hint, how many elements of a sorted run are less than the
  key; \<open>gallop_right\<close> how many are not greater. Neither moves an element.\<close>

theorem gallop_finds:
  assumes "strict_weak r" "answers lt True r" "ordered r ys" "hint < length ys"
  shows "(gallop_left lt key ((!) ys) (length ys) hint m = (Inr k, m') \<longrightarrow>
      k = length (takeWhile (\<lambda>y. r y key) ys) \<and> ms_arr m' = ms_arr m)
    \<and> (gallop_right lt key ((!) ys) (length ys) hint m = (Inr k, m') \<longrightarrow>
      k = length (takeWhile (\<lambda>y. \<not> r key y) ys) \<and> ms_arr m' = ms_arr m)"
proof -
  have sorted: "sorted_at r ((!) ys) (length ys)" using assms(3) by (auto simp: sorted_at_def dest: ordered_nth)
  show ?thesis
    using gallop_left_outcome [OF assms(2,1) sorted assms(4), of m key]
      gallop_right_outcome [OF assms(2,1) sorted assms(4), of m key]
      ends_at_takeWhile [of "\<lambda>y. r y key" ys k] ends_at_takeWhile [of "\<lambda>y. \<not> r key y" ys k]
    by (auto simp: cmp_only_iff)
qed

theorem gallop_finds_witness:
  "gallop_right by_key (4, 9) ((!) run_b) (length run_b) 1 two_runs = (Inr 2, two_runs\<lparr>ms_cmp := 2\<rparr>)
    \<and> 2 = length (takeWhile (\<lambda>y. \<not> fst (4, 9 :: nat) < fst y) run_b)"
proof -
  have run: "gallop_right by_key (4, 9) ((!) run_b) (length run_b) 1 two_runs = (Inr 2, two_runs\<lparr>ms_cmp := 2\<rparr>)"
    by code_simp
  have "ordered (\<lambda>a b. fst a < fst b) run_b" "1 < length run_b" by (simp_all add: run_b_def)
  from gallop_finds [OF by_key_order this, of "(4, 9)" two_runs 2 "two_runs\<lparr>ms_cmp := 2\<rparr>"] run show ?thesis by simp
qed

text \<open>\<open>count_run\<close> finds a run of at least one element, within the rest of the list, and leaves it
  ascending, the rest of the list a stable rearrangement.\<close>

theorem count_run_ascends:
  assumes "strict_weak r" "answers lt True r" "ms_arr m = pre @ xs" "xs \<noteq> []"
    and "count_run lt (length pre) (length xs) m = (Inr k, m')"
  shows "\<exists>ys. ms_arr m' = pre @ ys \<and> 0 < k \<and> k \<le> length ys \<and> ordered r (take k ys) \<and> stable_eq r ys xs \<and> mset ys = mset xs"
proof -
  have "ms_arr m = pre @ xs @ []" "0 < length xs" using assms(3,4) by simp_all
  from count_run_outcome [OF assms(2,1) this order_refl] assms(5)
  obtain ys where ys: "ms_arr m' = pre @ ys" "mset ys = mset xs" "prefix_sorted True r xs k ys" "0 < k" "k \<le> length xs"
    by (auto simp: within_def)
  then show ?thesis using mset_eq_length [OF ys(2)] by (auto simp: prefix_sorted_def)
qed

text \<open>A descending run with a tie in it.\<close>

definition falling :: "(nat \<times> nat, nat) merge_state" where
  "falling = \<lparr>ms_arr = [(7, 0), (5, 1), (5, 2), (2, 3), (9, 4)], ms_cmp = 0, ms_gallop = 7, ms_pending = []\<rparr>"

lemma falling_length: "length (ms_arr falling) = 5" "ms_arr falling \<noteq> []"
  by (simp_all add: falling_def)

theorem count_run_ascends_witness:
  "\<exists>m'. count_run by_key 0 5 falling = (Inr 5, m') \<and> mset (ms_arr m') = mset (ms_arr falling)
    \<and> ordered (\<lambda>a b. fst a < fst b) (take 5 (ms_arr m'))"
proof -
  have "fst (count_run by_key 0 5 falling) = Inr 5" by code_simp
  then obtain m' where run: "count_run by_key 0 5 falling = (Inr 5, m')" by (metis prod.collapse)
  have "\<exists>ys. ms_arr m' = [] @ ys \<and> 0 < (5::nat) \<and> 5 \<le> length ys \<and> ordered (\<lambda>a b. fst a < fst b) (take 5 ys)
      \<and> stable_eq (\<lambda>a b. fst a < fst b) ys (ms_arr falling) \<and> mset ys = mset (ms_arr falling)"
    by (rule count_run_ascends [OF by_key_order, where m = falling and pre = "[]" and xs = "ms_arr falling"])
      (use run in \<open>simp_all add: falling_length\<close>)
  then show ?thesis using run by auto
qed

lemma minrun_loop_rounds:
  assumes "r \<le> 1"
  shows "\<exists>k. minrun_loop r n = n div 2 ^ k + (if r = 1 \<or> n mod 2 ^ k \<noteq> 0 then 1 else 0)
    \<and> n div 2 ^ k < 64 \<and> (if n < 64 then k = 0 else 32 \<le> n div 2 ^ k)"
  using assms
proof (induction r n rule: minrun_loop.induct)
  case (1 r n)
  show ?case
  proof (cases "n < 64")
    case True
    then show ?thesis using 1(2) by (auto simp: minrun_loop.simps [of r n] MAX_MINRUN_def intro!: exI [of _ 0])
  next
    case False
    let ?r = "r OR (n AND 1)"
    have bit: "?r = (if r = 1 \<or> odd n then 1 else 0)"
      using 1(2) by (cases "r = 0") (auto simp: and_one_eq le_Suc_eq mod_2_eq_odd)
    then have "?r \<le> 1" by simp
    then obtain k where k: "minrun_loop ?r (n div 2) = n div 2 div 2 ^ k + (if ?r = 1 \<or> n div 2 mod 2 ^ k \<noteq> 0 then 1 else 0)"
      "n div 2 div 2 ^ k < 64" "if n div 2 < 64 then k = 0 else 32 \<le> n div 2 div 2 ^ k"
      using 1(1) False by (auto simp: MAX_MINRUN_def)
    have split: "n mod 2 ^ Suc k = 2 * (n div 2 mod 2 ^ k) + n mod 2" "n div 2 ^ Suc k = n div 2 div 2 ^ k"
      by (simp_all add: mod_mult2_eq div_mult2_eq)
    have "32 \<le> n div 2 div 2 ^ k" using k(3) False by (auto split: if_splits)
    moreover have "minrun_loop r n = minrun_loop ?r (n div 2)"
      using False by (simp add: minrun_loop.simps [of r n] MAX_MINRUN_def)
    ultimately show ?thesis
      using k(1,2) bit False unfolding split [symmetric]
      by (intro exI [of _ "Suc k"]) (auto simp: split(1) mod_2_eq_odd simp del: power_Suc)
  qed
qed

text \<open>The minimum run length: the length itself below 64, else a number \<open>d\<close> from 32 to 64 such that
  \<open>n\<close> is at most \<open>d\<close> times a power of two, and more than \<open>d - 1\<close> times that power.\<close>

theorem compute_minrun_rounds_up:
  "if n < 64 then compute_minrun n = n
   else 32 \<le> compute_minrun n \<and> compute_minrun n \<le> 64
     \<and> (\<exists>k. n \<le> compute_minrun n * 2 ^ k \<and> (compute_minrun n - 1) * 2 ^ k < n)"
proof -
  obtain k where k: "compute_minrun n = n div 2 ^ k + (if n mod 2 ^ k \<noteq> 0 then 1 else 0)"
    "n div 2 ^ k < 64" "if n < 64 then k = 0 else 32 \<le> n div 2 ^ k"
    using minrun_loop_rounds [of 0 n] by (auto simp: compute_minrun_def)
  have n: "n = n div 2 ^ k * 2 ^ k + n mod 2 ^ k" "n mod 2 ^ k < 2 ^ k"
    by (rule div_mult_mod_eq [symmetric]) simp
  show ?thesis
  proof (cases "n < 64")
    case False
    let ?q = "n div 2 ^ k" and ?d = "compute_minrun n"
    have q: "32 \<le> ?q" "?q < 64" using k False by auto
    have "n \<le> ?d * 2 ^ k"
    proof (cases "n mod 2 ^ k = 0")
      case True
      then show ?thesis using n(1) k(1) by simp
    next
      case False
      then have "?d * 2 ^ k = ?q * 2 ^ k + 2 ^ k" using k(1) by (simp add: algebra_simps)
      then show ?thesis using n by linarith
    qed
    moreover have "(?d - 1) * 2 ^ k < n"
    proof (cases "n mod 2 ^ k = 0")
      case True
      then have "(?d - 1) * 2 ^ k = ?q * 2 ^ k - 2 ^ k" using k(1) by (simp add: diff_mult_distrib)
      moreover have "2 ^ k \<le> ?q * 2 ^ k" using q(1) by simp
      ultimately show ?thesis using n(1) True by (metis False add.right_neutral diff_less less_le_trans linorder_not_le not_less_zero zero_less_numeral zero_less_power)
    next
      case False
      then have "(?d - 1) * 2 ^ k = ?q * 2 ^ k" using k(1) by simp
      then show ?thesis using n(1) False by linarith
    qed
    ultimately have "\<exists>k. n \<le> ?d * 2 ^ k \<and> (?d - 1) * 2 ^ k < n" by blast
    moreover have "32 \<le> ?d" "?d \<le> 64" using q k(1) by simp_all
    ultimately show ?thesis using False by simp
  qed (use k in simp)
qed

text \<open>The comment of \<open>compute_minrun\<close> says the quotient is strictly less than a power of two; for
  a length that is itself a power of two it is one.\<close>

lemma minrun_of_power: "compute_minrun 64 = 32 \<and> 64 div compute_minrun 64 = 2 ^ 1 \<and> 64 mod compute_minrun 64 = (0 :: nat)"
  by code_simp

text \<open>\<open>powerloop\<close> ends, and returns the number of the first binary digit in which the midpoints of
  the two runs, as fractions of the list, differ.\<close>

theorem powerloop_first_digit:
  assumes "0 < n1" "0 < n2" "s1 + n1 + n2 \<le> n"
  shows "\<exists>p>0. powerloop s1 n1 n2 n = Some p \<and> digits_differ (2 * s1 + n1) (2 * (s1 + n1) + n2) n p
    \<and> (\<forall>k<p. \<not> digits_differ (2 * s1 + n1) (2 * (s1 + n1) + n2) n k)"
proof -
  let ?a = "2 * s1 + n1" and ?b = "2 * (s1 + n1) + n2"
  have ab: "?a < ?b" "?b < 2 * n" using assms by simp_all
  obtain p where p: "power_loop 0 ?a ?b n = Some p" using power_loop_returns [OF ab] by blast
  moreover have "powerloop s1 n1 n2 n = power_loop 0 ?a ?b n"
    by (simp add: powerloop_def Let_def algebra_simps)
  ultimately show ?thesis using power_loop_first [OF ab p] by auto
qed

theorem powerloop_first_digit_witness:
  "\<exists>p>0. powerloop 0 5 3 16 = Some p \<and> digits_differ 5 13 16 p \<and> (\<forall>k<p. \<not> digits_differ 5 13 16 k)"
  using powerloop_first_digit [of 5 3 0 16] by simp

end
