(* ===== verification/Code_Op.thy ===== *)
theory Code_Op
  imports WP_Prelude
begin

text \<open>
  The CPython 3.14 opcodes of the wire format (the module \<open>op\<close> of
  \<open>crates/weavepy-compiler/src/cpython_code.rs\<close>) and the predicates on them. An
  opcode is a \<open>u8\<close>, an \<open>8 word\<close>; \<open>op_NAME\<close> is the constant \<open>op::NAME\<close>, an
  abbreviation so that simplification sees the number.
\<close>

type_synonym w8 = "8 word"
type_synonym w32 = "32 word"

section \<open>Opcode numbers\<close>

abbreviation (input) op_CACHE :: w8 where "op_CACHE \<equiv> 0"
abbreviation (input) op_BINARY_SLICE :: w8 where "op_BINARY_SLICE \<equiv> 1"
abbreviation (input) op_BUILD_TEMPLATE :: w8 where "op_BUILD_TEMPLATE \<equiv> 2"
abbreviation (input) op_CALL_FUNCTION_EX :: w8 where "op_CALL_FUNCTION_EX \<equiv> 4"
abbreviation (input) op_CHECK_EG_MATCH :: w8 where "op_CHECK_EG_MATCH \<equiv> 5"
abbreviation (input) op_CHECK_EXC_MATCH :: w8 where "op_CHECK_EXC_MATCH \<equiv> 6"
abbreviation (input) op_CLEANUP_THROW :: w8 where "op_CLEANUP_THROW \<equiv> 7"
abbreviation (input) op_DELETE_SUBSCR :: w8 where "op_DELETE_SUBSCR \<equiv> 8"
abbreviation (input) op_END_FOR :: w8 where "op_END_FOR \<equiv> 9"
abbreviation (input) op_END_SEND :: w8 where "op_END_SEND \<equiv> 10"
abbreviation (input) op_EXIT_INIT_CHECK :: w8 where "op_EXIT_INIT_CHECK \<equiv> 11"
abbreviation (input) op_FORMAT_SIMPLE :: w8 where "op_FORMAT_SIMPLE \<equiv> 12"
abbreviation (input) op_FORMAT_WITH_SPEC :: w8 where "op_FORMAT_WITH_SPEC \<equiv> 13"
abbreviation (input) op_GET_AITER :: w8 where "op_GET_AITER \<equiv> 14"
abbreviation (input) op_GET_ANEXT :: w8 where "op_GET_ANEXT \<equiv> 15"
abbreviation (input) op_GET_ITER :: w8 where "op_GET_ITER \<equiv> 16"
abbreviation (input) op_RESERVED :: w8 where "op_RESERVED \<equiv> 17"
abbreviation (input) op_GET_LEN :: w8 where "op_GET_LEN \<equiv> 18"
abbreviation (input) op_GET_YIELD_FROM_ITER :: w8 where "op_GET_YIELD_FROM_ITER \<equiv> 19"
abbreviation (input) op_INTERPRETER_EXIT :: w8 where "op_INTERPRETER_EXIT \<equiv> 20"
abbreviation (input) op_LOAD_BUILD_CLASS :: w8 where "op_LOAD_BUILD_CLASS \<equiv> 21"
abbreviation (input) op_LOAD_LOCALS :: w8 where "op_LOAD_LOCALS \<equiv> 22"
abbreviation (input) op_MAKE_FUNCTION :: w8 where "op_MAKE_FUNCTION \<equiv> 23"
abbreviation (input) op_MATCH_KEYS :: w8 where "op_MATCH_KEYS \<equiv> 24"
abbreviation (input) op_MATCH_MAPPING :: w8 where "op_MATCH_MAPPING \<equiv> 25"
abbreviation (input) op_MATCH_SEQUENCE :: w8 where "op_MATCH_SEQUENCE \<equiv> 26"
abbreviation (input) op_NOP :: w8 where "op_NOP \<equiv> 27"
abbreviation (input) op_NOT_TAKEN :: w8 where "op_NOT_TAKEN \<equiv> 28"
abbreviation (input) op_POP_EXCEPT :: w8 where "op_POP_EXCEPT \<equiv> 29"
abbreviation (input) op_POP_ITER :: w8 where "op_POP_ITER \<equiv> 30"
abbreviation (input) op_POP_TOP :: w8 where "op_POP_TOP \<equiv> 31"
abbreviation (input) op_PUSH_EXC_INFO :: w8 where "op_PUSH_EXC_INFO \<equiv> 32"
abbreviation (input) op_PUSH_NULL :: w8 where "op_PUSH_NULL \<equiv> 33"
abbreviation (input) op_RETURN_GENERATOR :: w8 where "op_RETURN_GENERATOR \<equiv> 34"
abbreviation (input) op_RETURN_VALUE :: w8 where "op_RETURN_VALUE \<equiv> 35"
abbreviation (input) op_SETUP_ANNOTATIONS :: w8 where "op_SETUP_ANNOTATIONS \<equiv> 36"
abbreviation (input) op_STORE_SLICE :: w8 where "op_STORE_SLICE \<equiv> 37"
abbreviation (input) op_STORE_SUBSCR :: w8 where "op_STORE_SUBSCR \<equiv> 38"
abbreviation (input) op_TO_BOOL :: w8 where "op_TO_BOOL \<equiv> 39"
abbreviation (input) op_UNARY_INVERT :: w8 where "op_UNARY_INVERT \<equiv> 40"
abbreviation (input) op_UNARY_NEGATIVE :: w8 where "op_UNARY_NEGATIVE \<equiv> 41"
abbreviation (input) op_UNARY_NOT :: w8 where "op_UNARY_NOT \<equiv> 42"
abbreviation (input) op_WITH_EXCEPT_START :: w8 where "op_WITH_EXCEPT_START \<equiv> 43"
abbreviation (input) op_BINARY_OP :: w8 where "op_BINARY_OP \<equiv> 44"
abbreviation (input) op_BUILD_INTERPOLATION :: w8 where "op_BUILD_INTERPOLATION \<equiv> 45"
abbreviation (input) op_BUILD_LIST :: w8 where "op_BUILD_LIST \<equiv> 46"
abbreviation (input) op_BUILD_MAP :: w8 where "op_BUILD_MAP \<equiv> 47"
abbreviation (input) op_BUILD_SET :: w8 where "op_BUILD_SET \<equiv> 48"
abbreviation (input) op_BUILD_SLICE :: w8 where "op_BUILD_SLICE \<equiv> 49"
abbreviation (input) op_BUILD_STRING :: w8 where "op_BUILD_STRING \<equiv> 50"
abbreviation (input) op_BUILD_TUPLE :: w8 where "op_BUILD_TUPLE \<equiv> 51"
abbreviation (input) op_CALL :: w8 where "op_CALL \<equiv> 52"
abbreviation (input) op_CALL_INTRINSIC_1 :: w8 where "op_CALL_INTRINSIC_1 \<equiv> 53"
abbreviation (input) op_CALL_INTRINSIC_2 :: w8 where "op_CALL_INTRINSIC_2 \<equiv> 54"
abbreviation (input) op_CALL_KW :: w8 where "op_CALL_KW \<equiv> 55"
abbreviation (input) op_COMPARE_OP :: w8 where "op_COMPARE_OP \<equiv> 56"
abbreviation (input) op_CONTAINS_OP :: w8 where "op_CONTAINS_OP \<equiv> 57"
abbreviation (input) op_CONVERT_VALUE :: w8 where "op_CONVERT_VALUE \<equiv> 58"
abbreviation (input) op_COPY :: w8 where "op_COPY \<equiv> 59"
abbreviation (input) op_COPY_FREE_VARS :: w8 where "op_COPY_FREE_VARS \<equiv> 60"
abbreviation (input) op_DELETE_ATTR :: w8 where "op_DELETE_ATTR \<equiv> 61"
abbreviation (input) op_DELETE_DEREF :: w8 where "op_DELETE_DEREF \<equiv> 62"
abbreviation (input) op_DELETE_FAST :: w8 where "op_DELETE_FAST \<equiv> 63"
abbreviation (input) op_DELETE_GLOBAL :: w8 where "op_DELETE_GLOBAL \<equiv> 64"
abbreviation (input) op_DELETE_NAME :: w8 where "op_DELETE_NAME \<equiv> 65"
abbreviation (input) op_DICT_MERGE :: w8 where "op_DICT_MERGE \<equiv> 66"
abbreviation (input) op_DICT_UPDATE :: w8 where "op_DICT_UPDATE \<equiv> 67"
abbreviation (input) op_END_ASYNC_FOR :: w8 where "op_END_ASYNC_FOR \<equiv> 68"
abbreviation (input) op_EXTENDED_ARG :: w8 where "op_EXTENDED_ARG \<equiv> 69"
abbreviation (input) op_FOR_ITER :: w8 where "op_FOR_ITER \<equiv> 70"
abbreviation (input) op_GET_AWAITABLE :: w8 where "op_GET_AWAITABLE \<equiv> 71"
abbreviation (input) op_IMPORT_FROM :: w8 where "op_IMPORT_FROM \<equiv> 72"
abbreviation (input) op_IMPORT_NAME :: w8 where "op_IMPORT_NAME \<equiv> 73"
abbreviation (input) op_IS_OP :: w8 where "op_IS_OP \<equiv> 74"
abbreviation (input) op_JUMP_BACKWARD :: w8 where "op_JUMP_BACKWARD \<equiv> 75"
abbreviation (input) op_JUMP_BACKWARD_NO_INTERRUPT :: w8 where "op_JUMP_BACKWARD_NO_INTERRUPT \<equiv> 76"
abbreviation (input) op_JUMP_FORWARD :: w8 where "op_JUMP_FORWARD \<equiv> 77"
abbreviation (input) op_LIST_APPEND :: w8 where "op_LIST_APPEND \<equiv> 78"
abbreviation (input) op_LIST_EXTEND :: w8 where "op_LIST_EXTEND \<equiv> 79"
abbreviation (input) op_LOAD_ATTR :: w8 where "op_LOAD_ATTR \<equiv> 80"
abbreviation (input) op_LOAD_COMMON_CONSTANT :: w8 where "op_LOAD_COMMON_CONSTANT \<equiv> 81"
abbreviation (input) op_LOAD_CONST :: w8 where "op_LOAD_CONST \<equiv> 82"
abbreviation (input) op_LOAD_DEREF :: w8 where "op_LOAD_DEREF \<equiv> 83"
abbreviation (input) op_LOAD_FAST :: w8 where "op_LOAD_FAST \<equiv> 84"
abbreviation (input) op_LOAD_FAST_AND_CLEAR :: w8 where "op_LOAD_FAST_AND_CLEAR \<equiv> 85"
abbreviation (input) op_LOAD_FAST_BORROW :: w8 where "op_LOAD_FAST_BORROW \<equiv> 86"
abbreviation (input) op_LOAD_FAST_BORROW_LOAD_FAST_BORROW :: w8 where "op_LOAD_FAST_BORROW_LOAD_FAST_BORROW \<equiv> 87"
abbreviation (input) op_LOAD_FAST_CHECK :: w8 where "op_LOAD_FAST_CHECK \<equiv> 88"
abbreviation (input) op_LOAD_FAST_LOAD_FAST :: w8 where "op_LOAD_FAST_LOAD_FAST \<equiv> 89"
abbreviation (input) op_LOAD_FROM_DICT_OR_DEREF :: w8 where "op_LOAD_FROM_DICT_OR_DEREF \<equiv> 90"
abbreviation (input) op_LOAD_FROM_DICT_OR_GLOBALS :: w8 where "op_LOAD_FROM_DICT_OR_GLOBALS \<equiv> 91"
abbreviation (input) op_LOAD_GLOBAL :: w8 where "op_LOAD_GLOBAL \<equiv> 92"
abbreviation (input) op_LOAD_NAME :: w8 where "op_LOAD_NAME \<equiv> 93"
abbreviation (input) op_LOAD_SMALL_INT :: w8 where "op_LOAD_SMALL_INT \<equiv> 94"
abbreviation (input) op_LOAD_SPECIAL :: w8 where "op_LOAD_SPECIAL \<equiv> 95"
abbreviation (input) op_LOAD_SUPER_ATTR :: w8 where "op_LOAD_SUPER_ATTR \<equiv> 96"
abbreviation (input) op_MAKE_CELL :: w8 where "op_MAKE_CELL \<equiv> 97"
abbreviation (input) op_MAP_ADD :: w8 where "op_MAP_ADD \<equiv> 98"
abbreviation (input) op_MATCH_CLASS :: w8 where "op_MATCH_CLASS \<equiv> 99"
abbreviation (input) op_POP_JUMP_IF_FALSE :: w8 where "op_POP_JUMP_IF_FALSE \<equiv> 100"
abbreviation (input) op_POP_JUMP_IF_NONE :: w8 where "op_POP_JUMP_IF_NONE \<equiv> 101"
abbreviation (input) op_POP_JUMP_IF_NOT_NONE :: w8 where "op_POP_JUMP_IF_NOT_NONE \<equiv> 102"
abbreviation (input) op_POP_JUMP_IF_TRUE :: w8 where "op_POP_JUMP_IF_TRUE \<equiv> 103"
abbreviation (input) op_RAISE_VARARGS :: w8 where "op_RAISE_VARARGS \<equiv> 104"
abbreviation (input) op_RERAISE :: w8 where "op_RERAISE \<equiv> 105"
abbreviation (input) op_SEND :: w8 where "op_SEND \<equiv> 106"
abbreviation (input) op_SET_ADD :: w8 where "op_SET_ADD \<equiv> 107"
abbreviation (input) op_SET_FUNCTION_ATTRIBUTE :: w8 where "op_SET_FUNCTION_ATTRIBUTE \<equiv> 108"
abbreviation (input) op_SET_UPDATE :: w8 where "op_SET_UPDATE \<equiv> 109"
abbreviation (input) op_STORE_ATTR :: w8 where "op_STORE_ATTR \<equiv> 110"
abbreviation (input) op_STORE_DEREF :: w8 where "op_STORE_DEREF \<equiv> 111"
abbreviation (input) op_STORE_FAST :: w8 where "op_STORE_FAST \<equiv> 112"
abbreviation (input) op_STORE_FAST_LOAD_FAST :: w8 where "op_STORE_FAST_LOAD_FAST \<equiv> 113"
abbreviation (input) op_STORE_FAST_STORE_FAST :: w8 where "op_STORE_FAST_STORE_FAST \<equiv> 114"
abbreviation (input) op_STORE_GLOBAL :: w8 where "op_STORE_GLOBAL \<equiv> 115"
abbreviation (input) op_STORE_NAME :: w8 where "op_STORE_NAME \<equiv> 116"
abbreviation (input) op_SWAP :: w8 where "op_SWAP \<equiv> 117"
abbreviation (input) op_UNPACK_EX :: w8 where "op_UNPACK_EX \<equiv> 118"
abbreviation (input) op_UNPACK_SEQUENCE :: w8 where "op_UNPACK_SEQUENCE \<equiv> 119"
abbreviation (input) op_YIELD_VALUE :: w8 where "op_YIELD_VALUE \<equiv> 120"
abbreviation (input) op_RESUME :: w8 where "op_RESUME \<equiv> 128"

section \<open>Inline caches and jumps\<close>

definition cache_entries :: "w8 \<Rightarrow> usize" where
  "cache_entries cp_op =
    (if cp_op = op_LOAD_ATTR then 9
     else if cp_op = op_BINARY_OP then 5
     else if cp_op \<in> {op_LOAD_GLOBAL, op_STORE_ATTR} then 4
     else if cp_op \<in> {op_CALL, op_CALL_KW, op_TO_BOOL} then 3
     else if cp_op \<in> {op_UNPACK_SEQUENCE, op_COMPARE_OP, op_CONTAINS_OP, op_FOR_ITER,
            op_STORE_SUBSCR, op_SEND, op_JUMP_BACKWARD, op_POP_JUMP_IF_TRUE,
            op_POP_JUMP_IF_FALSE, op_POP_JUMP_IF_NONE, op_POP_JUMP_IF_NOT_NONE,
            op_LOAD_SUPER_ATTR} then 1
     else 0)"

definition is_rel_jump :: "w8 \<Rightarrow> bool" where
  "is_rel_jump cp_op \<longleftrightarrow> cp_op \<in> {op_FOR_ITER, op_JUMP_BACKWARD,
     op_JUMP_BACKWARD_NO_INTERRUPT, op_JUMP_FORWARD, op_POP_JUMP_IF_FALSE,
     op_POP_JUMP_IF_TRUE, op_POP_JUMP_IF_NONE, op_POP_JUMP_IF_NOT_NONE, op_SEND}"

definition is_backward_jump :: "w8 \<Rightarrow> bool" where
  "is_backward_jump cp_op \<longleftrightarrow> cp_op \<in> {op_JUMP_BACKWARD, op_JUMP_BACKWARD_NO_INTERRUPT}"

definition is_conditional_jump :: "w8 \<Rightarrow> bool" where
  "is_conditional_jump cp_op \<longleftrightarrow> cp_op \<in> {op_POP_JUMP_IF_FALSE, op_POP_JUMP_IF_TRUE,
     op_POP_JUMP_IF_NONE, op_POP_JUMP_IF_NOT_NONE}"

definition is_unknown_opcode :: "w8 \<Rightarrow> bool" where
  "is_unknown_opcode cp_op \<longleftrightarrow>
     (121 \<le> cp_op \<and> cp_op \<le> 127) \<or> (212 \<le> cp_op \<and> cp_op \<le> 233)"

text \<open>\<open>co_code.iter().step_by(2).copied().find(is_unknown_opcode)\<close>: the even bytes.\<close>

fun step_by_2 :: "'a list \<Rightarrow> 'a list" where
  "step_by_2 [] = []"
| "step_by_2 [x] = [x]"
| "step_by_2 (x # _ # xs) = x # step_by_2 xs"

definition first_unknown_opcode :: "w8 list \<Rightarrow> w8 option" where
  "first_unknown_opcode co_code = find is_unknown_opcode (step_by_2 co_code)"

section \<open>Sub-operations\<close>

definition NB_SUBSCR :: w32 where "NB_SUBSCR = 26"
definition NB_INPLACE_OFFSET :: w32 where "NB_INPLACE_OFFSET = 13"
definition END_SEND_OFFSET :: usize where "END_SEND_OFFSET = 5"
definition INTRINSIC_IMPORT_STAR :: w32 where "INTRINSIC_IMPORT_STAR = 2"
definition INTRINSIC_STOPITERATION_ERROR :: w32 where "INTRINSIC_STOPITERATION_ERROR = 3"
definition INTRINSIC_ASYNC_GEN_WRAP :: w32 where "INTRINSIC_ASYNC_GEN_WRAP = 4"
definition INTRINSIC_UNARY_POSITIVE :: w32 where "INTRINSIC_UNARY_POSITIVE = 5"
definition INTRINSIC_LIST_TO_TUPLE :: w32 where "INTRINSIC_LIST_TO_TUPLE = 6"
definition INTRINSIC_PREP_RERAISE_STAR :: w32 where "INTRINSIC_PREP_RERAISE_STAR = 1"

lemmas subop_defs = NB_SUBSCR_def NB_INPLACE_OFFSET_def INTRINSIC_IMPORT_STAR_def
  INTRINSIC_STOPITERATION_ERROR_def INTRINSIC_ASYNC_GEN_WRAP_def
  INTRINSIC_UNARY_POSITIVE_def INTRINSIC_LIST_TO_TUPLE_def INTRINSIC_PREP_RERAISE_STAR_def

section \<open>Facts\<close>

lemma cache_entries_le: "cache_entries cp_op \<le> 9"
  by (simp add: cache_entries_def)

lemma backward_is_rel: "is_backward_jump cp_op \<Longrightarrow> is_rel_jump cp_op"
  by (auto simp: is_backward_jump_def is_rel_jump_def)

lemma conditional_is_forward:
  "is_conditional_jump cp_op \<Longrightarrow> is_rel_jump cp_op \<and> \<not> is_backward_jump cp_op"
  by (auto simp: is_conditional_jump_def is_rel_jump_def is_backward_jump_def)

end
