(* ===== verification/Code_Instr.thy ===== *)
theory Code_Instr
  imports Code_Op
begin

text \<open>
  The compiler's own instructions (\<open>crates/weavepy-compiler/src/bytecode.rs\<close>) and the
  code object they belong to (\<open>CodeObject\<close> of \<open>crates/weavepy-compiler/src/lib.rs\<close>), as far
  as the wire codec reads them.

  The \<open>OpCode\<close> enum has 132 variants; the datatype groups them by the sections of the
  enum's own comments, in the enum's order. \<open>O_Name\<close> is the variant \<open>O::Name\<close> of the sources.
\<close>

section \<open>Opcodes and instructions\<close>

datatype var_op =
   Nop | Resume | LoadConst | LoadName | LoadGlobal | LoadFast | LoadFastAndClear
    | StoreFast | StoreGlobal | StoreName | DeleteFast | DeleteGlobal | DeleteName
    | LoadDeref | StoreDeref | MakeCell | LoadClosure | CopyFreeVars | PushNull

datatype attr_op =
   LoadAttr | LoadMethodAttr | LoadSuperAttr | StoreAttr | DeleteAttr | BinarySubscr
    | StoreSubscr | DeleteSubscr

datatype arith_op =
   BinaryOp | UnaryOp | CompareOp | IsOp | ContainsOp | PopTop | CopyTop | Swap

datatype call_op =
   Call | CallSelf | CallKw | CallEx | ReturnValue

datatype flow_op =
   PopJumpIfFalse | PopJumpIfTrue | PopJumpIfNone | PopJumpIfNotNone | JumpForward
    | JumpBackward | GetIter | ForIter | EndFor

datatype container_op =
   BuildList | BuildTuple | BuildSet | BuildMap | BuildString | ListAppend | ListExtend
    | ListToTuple | SetAdd | SetUpdate | MapAdd | UnpackSequence | UnpackEx | DictUpdate
    | SetupAnnotations

datatype func_op =
   MakeFunction | SetFunctionAttribute | BuildSlice | LoadBuildClass | LoadLocals
    | LoadClassdictOrDeref | LoadClassdictOrGlobal

datatype exc_op =
   RaiseVarargs | CheckExcMatch | CheckEGMatch | PushExcInfo | PopExcept | Reraise
    | PrepReraiseStar | LoadCommonConstant | LoadSpecial | WithExceptStart

datatype import_op =
   ImportName | ImportFrom | ImportStar | FormatValue | ConvertValue | ToBool

datatype gen_op =
   YieldValue | GetYieldFromIter | ReturnGenerator | Send | EndSend | GetAwaitable
    | GetAiter | GetAnext | EndAsyncFor

datatype pattern_op =
   MatchSequence | MatchMapping | MatchClass | MatchKeys | GetLen | PrintExpr | DeleteDeref
    | CleanupThrow | StopIterationError | AsyncGenWrap | CallIntrinsic1 | CallIntrinsic2
    | BuildInterpolation | BuildTemplate

datatype added_op =
   LoadSmallInt | NotTaken | PopIter | BinarySlice | StoreSlice

datatype refined_op =
   LoadFastBorrow | LoadFastCheck | LoadGlobalPushNull | LoadFastLoadFast
    | LoadFastBorrowLoadFastBorrow | LoadClosureBorrow | StoreFastLoadFast
    | StoreFastStoreFast

datatype pseudo_op =
   Jump | JumpNoInterrupt | JumpIfFalse | JumpIfTrue | SetupFinally | SetupCleanup
    | SetupWith | PopBlock | StoreFastMaybeNull

datatype OpCode =
    Var var_op | Attr attr_op | Arith arith_op | Calling call_op | Flow flow_op
    | Container container_op | Func func_op | Exc exc_op | Import import_op | Gen gen_op
    | Pattern pattern_op | Added added_op | Refined refined_op | Pseudo pseudo_op

abbreviation O_Nop :: OpCode where "O_Nop \<equiv> Var Nop"
abbreviation O_Resume :: OpCode where "O_Resume \<equiv> Var Resume"
abbreviation O_LoadConst :: OpCode where "O_LoadConst \<equiv> Var LoadConst"
abbreviation O_LoadName :: OpCode where "O_LoadName \<equiv> Var LoadName"
abbreviation O_LoadGlobal :: OpCode where "O_LoadGlobal \<equiv> Var LoadGlobal"
abbreviation O_LoadFast :: OpCode where "O_LoadFast \<equiv> Var LoadFast"
abbreviation O_LoadFastAndClear :: OpCode where "O_LoadFastAndClear \<equiv> Var LoadFastAndClear"
abbreviation O_StoreFast :: OpCode where "O_StoreFast \<equiv> Var StoreFast"
abbreviation O_StoreGlobal :: OpCode where "O_StoreGlobal \<equiv> Var StoreGlobal"
abbreviation O_StoreName :: OpCode where "O_StoreName \<equiv> Var StoreName"
abbreviation O_DeleteFast :: OpCode where "O_DeleteFast \<equiv> Var DeleteFast"
abbreviation O_DeleteGlobal :: OpCode where "O_DeleteGlobal \<equiv> Var DeleteGlobal"
abbreviation O_DeleteName :: OpCode where "O_DeleteName \<equiv> Var DeleteName"
abbreviation O_LoadDeref :: OpCode where "O_LoadDeref \<equiv> Var LoadDeref"
abbreviation O_StoreDeref :: OpCode where "O_StoreDeref \<equiv> Var StoreDeref"
abbreviation O_MakeCell :: OpCode where "O_MakeCell \<equiv> Var MakeCell"
abbreviation O_LoadClosure :: OpCode where "O_LoadClosure \<equiv> Var LoadClosure"
abbreviation O_CopyFreeVars :: OpCode where "O_CopyFreeVars \<equiv> Var CopyFreeVars"
abbreviation O_PushNull :: OpCode where "O_PushNull \<equiv> Var PushNull"
abbreviation O_LoadAttr :: OpCode where "O_LoadAttr \<equiv> Attr LoadAttr"
abbreviation O_LoadMethodAttr :: OpCode where "O_LoadMethodAttr \<equiv> Attr LoadMethodAttr"
abbreviation O_LoadSuperAttr :: OpCode where "O_LoadSuperAttr \<equiv> Attr LoadSuperAttr"
abbreviation O_StoreAttr :: OpCode where "O_StoreAttr \<equiv> Attr StoreAttr"
abbreviation O_DeleteAttr :: OpCode where "O_DeleteAttr \<equiv> Attr DeleteAttr"
abbreviation O_BinarySubscr :: OpCode where "O_BinarySubscr \<equiv> Attr BinarySubscr"
abbreviation O_StoreSubscr :: OpCode where "O_StoreSubscr \<equiv> Attr StoreSubscr"
abbreviation O_DeleteSubscr :: OpCode where "O_DeleteSubscr \<equiv> Attr DeleteSubscr"
abbreviation O_BinaryOp :: OpCode where "O_BinaryOp \<equiv> Arith BinaryOp"
abbreviation O_UnaryOp :: OpCode where "O_UnaryOp \<equiv> Arith UnaryOp"
abbreviation O_CompareOp :: OpCode where "O_CompareOp \<equiv> Arith CompareOp"
abbreviation O_IsOp :: OpCode where "O_IsOp \<equiv> Arith IsOp"
abbreviation O_ContainsOp :: OpCode where "O_ContainsOp \<equiv> Arith ContainsOp"
abbreviation O_PopTop :: OpCode where "O_PopTop \<equiv> Arith PopTop"
abbreviation O_CopyTop :: OpCode where "O_CopyTop \<equiv> Arith CopyTop"
abbreviation O_Swap :: OpCode where "O_Swap \<equiv> Arith Swap"
abbreviation O_Call :: OpCode where "O_Call \<equiv> Calling Call"
abbreviation O_CallSelf :: OpCode where "O_CallSelf \<equiv> Calling CallSelf"
abbreviation O_CallKw :: OpCode where "O_CallKw \<equiv> Calling CallKw"
abbreviation O_CallEx :: OpCode where "O_CallEx \<equiv> Calling CallEx"
abbreviation O_ReturnValue :: OpCode where "O_ReturnValue \<equiv> Calling ReturnValue"
abbreviation O_PopJumpIfFalse :: OpCode where "O_PopJumpIfFalse \<equiv> Flow PopJumpIfFalse"
abbreviation O_PopJumpIfTrue :: OpCode where "O_PopJumpIfTrue \<equiv> Flow PopJumpIfTrue"
abbreviation O_PopJumpIfNone :: OpCode where "O_PopJumpIfNone \<equiv> Flow PopJumpIfNone"
abbreviation O_PopJumpIfNotNone :: OpCode where "O_PopJumpIfNotNone \<equiv> Flow PopJumpIfNotNone"
abbreviation O_JumpForward :: OpCode where "O_JumpForward \<equiv> Flow JumpForward"
abbreviation O_JumpBackward :: OpCode where "O_JumpBackward \<equiv> Flow JumpBackward"
abbreviation O_GetIter :: OpCode where "O_GetIter \<equiv> Flow GetIter"
abbreviation O_ForIter :: OpCode where "O_ForIter \<equiv> Flow ForIter"
abbreviation O_EndFor :: OpCode where "O_EndFor \<equiv> Flow EndFor"
abbreviation O_BuildList :: OpCode where "O_BuildList \<equiv> Container BuildList"
abbreviation O_BuildTuple :: OpCode where "O_BuildTuple \<equiv> Container BuildTuple"
abbreviation O_BuildSet :: OpCode where "O_BuildSet \<equiv> Container BuildSet"
abbreviation O_BuildMap :: OpCode where "O_BuildMap \<equiv> Container BuildMap"
abbreviation O_BuildString :: OpCode where "O_BuildString \<equiv> Container BuildString"
abbreviation O_ListAppend :: OpCode where "O_ListAppend \<equiv> Container ListAppend"
abbreviation O_ListExtend :: OpCode where "O_ListExtend \<equiv> Container ListExtend"
abbreviation O_ListToTuple :: OpCode where "O_ListToTuple \<equiv> Container ListToTuple"
abbreviation O_SetAdd :: OpCode where "O_SetAdd \<equiv> Container SetAdd"
abbreviation O_SetUpdate :: OpCode where "O_SetUpdate \<equiv> Container SetUpdate"
abbreviation O_MapAdd :: OpCode where "O_MapAdd \<equiv> Container MapAdd"
abbreviation O_UnpackSequence :: OpCode where "O_UnpackSequence \<equiv> Container UnpackSequence"
abbreviation O_UnpackEx :: OpCode where "O_UnpackEx \<equiv> Container UnpackEx"
abbreviation O_DictUpdate :: OpCode where "O_DictUpdate \<equiv> Container DictUpdate"
abbreviation O_SetupAnnotations :: OpCode where "O_SetupAnnotations \<equiv> Container SetupAnnotations"
abbreviation O_MakeFunction :: OpCode where "O_MakeFunction \<equiv> Func MakeFunction"
abbreviation O_SetFunctionAttribute :: OpCode where "O_SetFunctionAttribute \<equiv> Func SetFunctionAttribute"
abbreviation O_BuildSlice :: OpCode where "O_BuildSlice \<equiv> Func BuildSlice"
abbreviation O_LoadBuildClass :: OpCode where "O_LoadBuildClass \<equiv> Func LoadBuildClass"
abbreviation O_LoadLocals :: OpCode where "O_LoadLocals \<equiv> Func LoadLocals"
abbreviation O_LoadClassdictOrDeref :: OpCode where "O_LoadClassdictOrDeref \<equiv> Func LoadClassdictOrDeref"
abbreviation O_LoadClassdictOrGlobal :: OpCode where "O_LoadClassdictOrGlobal \<equiv> Func LoadClassdictOrGlobal"
abbreviation O_RaiseVarargs :: OpCode where "O_RaiseVarargs \<equiv> Exc RaiseVarargs"
abbreviation O_CheckExcMatch :: OpCode where "O_CheckExcMatch \<equiv> Exc CheckExcMatch"
abbreviation O_CheckEGMatch :: OpCode where "O_CheckEGMatch \<equiv> Exc CheckEGMatch"
abbreviation O_PushExcInfo :: OpCode where "O_PushExcInfo \<equiv> Exc PushExcInfo"
abbreviation O_PopExcept :: OpCode where "O_PopExcept \<equiv> Exc PopExcept"
abbreviation O_Reraise :: OpCode where "O_Reraise \<equiv> Exc Reraise"
abbreviation O_PrepReraiseStar :: OpCode where "O_PrepReraiseStar \<equiv> Exc PrepReraiseStar"
abbreviation O_LoadCommonConstant :: OpCode where "O_LoadCommonConstant \<equiv> Exc LoadCommonConstant"
abbreviation O_LoadSpecial :: OpCode where "O_LoadSpecial \<equiv> Exc LoadSpecial"
abbreviation O_WithExceptStart :: OpCode where "O_WithExceptStart \<equiv> Exc WithExceptStart"
abbreviation O_ImportName :: OpCode where "O_ImportName \<equiv> Import ImportName"
abbreviation O_ImportFrom :: OpCode where "O_ImportFrom \<equiv> Import ImportFrom"
abbreviation O_ImportStar :: OpCode where "O_ImportStar \<equiv> Import ImportStar"
abbreviation O_FormatValue :: OpCode where "O_FormatValue \<equiv> Import FormatValue"
abbreviation O_ConvertValue :: OpCode where "O_ConvertValue \<equiv> Import ConvertValue"
abbreviation O_ToBool :: OpCode where "O_ToBool \<equiv> Import ToBool"
abbreviation O_YieldValue :: OpCode where "O_YieldValue \<equiv> Gen YieldValue"
abbreviation O_GetYieldFromIter :: OpCode where "O_GetYieldFromIter \<equiv> Gen GetYieldFromIter"
abbreviation O_ReturnGenerator :: OpCode where "O_ReturnGenerator \<equiv> Gen ReturnGenerator"
abbreviation O_Send :: OpCode where "O_Send \<equiv> Gen Send"
abbreviation O_EndSend :: OpCode where "O_EndSend \<equiv> Gen EndSend"
abbreviation O_GetAwaitable :: OpCode where "O_GetAwaitable \<equiv> Gen GetAwaitable"
abbreviation O_GetAiter :: OpCode where "O_GetAiter \<equiv> Gen GetAiter"
abbreviation O_GetAnext :: OpCode where "O_GetAnext \<equiv> Gen GetAnext"
abbreviation O_EndAsyncFor :: OpCode where "O_EndAsyncFor \<equiv> Gen EndAsyncFor"
abbreviation O_MatchSequence :: OpCode where "O_MatchSequence \<equiv> Pattern MatchSequence"
abbreviation O_MatchMapping :: OpCode where "O_MatchMapping \<equiv> Pattern MatchMapping"
abbreviation O_MatchClass :: OpCode where "O_MatchClass \<equiv> Pattern MatchClass"
abbreviation O_MatchKeys :: OpCode where "O_MatchKeys \<equiv> Pattern MatchKeys"
abbreviation O_GetLen :: OpCode where "O_GetLen \<equiv> Pattern GetLen"
abbreviation O_PrintExpr :: OpCode where "O_PrintExpr \<equiv> Pattern PrintExpr"
abbreviation O_DeleteDeref :: OpCode where "O_DeleteDeref \<equiv> Pattern DeleteDeref"
abbreviation O_CleanupThrow :: OpCode where "O_CleanupThrow \<equiv> Pattern CleanupThrow"
abbreviation O_StopIterationError :: OpCode where "O_StopIterationError \<equiv> Pattern StopIterationError"
abbreviation O_AsyncGenWrap :: OpCode where "O_AsyncGenWrap \<equiv> Pattern AsyncGenWrap"
abbreviation O_CallIntrinsic1 :: OpCode where "O_CallIntrinsic1 \<equiv> Pattern CallIntrinsic1"
abbreviation O_CallIntrinsic2 :: OpCode where "O_CallIntrinsic2 \<equiv> Pattern CallIntrinsic2"
abbreviation O_BuildInterpolation :: OpCode where "O_BuildInterpolation \<equiv> Pattern BuildInterpolation"
abbreviation O_BuildTemplate :: OpCode where "O_BuildTemplate \<equiv> Pattern BuildTemplate"
abbreviation O_LoadSmallInt :: OpCode where "O_LoadSmallInt \<equiv> Added LoadSmallInt"
abbreviation O_NotTaken :: OpCode where "O_NotTaken \<equiv> Added NotTaken"
abbreviation O_PopIter :: OpCode where "O_PopIter \<equiv> Added PopIter"
abbreviation O_BinarySlice :: OpCode where "O_BinarySlice \<equiv> Added BinarySlice"
abbreviation O_StoreSlice :: OpCode where "O_StoreSlice \<equiv> Added StoreSlice"
abbreviation O_LoadFastBorrow :: OpCode where "O_LoadFastBorrow \<equiv> Refined LoadFastBorrow"
abbreviation O_LoadFastCheck :: OpCode where "O_LoadFastCheck \<equiv> Refined LoadFastCheck"
abbreviation O_LoadGlobalPushNull :: OpCode where "O_LoadGlobalPushNull \<equiv> Refined LoadGlobalPushNull"
abbreviation O_LoadFastLoadFast :: OpCode where "O_LoadFastLoadFast \<equiv> Refined LoadFastLoadFast"
abbreviation O_LoadFastBorrowLoadFastBorrow :: OpCode where "O_LoadFastBorrowLoadFastBorrow \<equiv> Refined LoadFastBorrowLoadFastBorrow"
abbreviation O_LoadClosureBorrow :: OpCode where "O_LoadClosureBorrow \<equiv> Refined LoadClosureBorrow"
abbreviation O_StoreFastLoadFast :: OpCode where "O_StoreFastLoadFast \<equiv> Refined StoreFastLoadFast"
abbreviation O_StoreFastStoreFast :: OpCode where "O_StoreFastStoreFast \<equiv> Refined StoreFastStoreFast"
abbreviation O_Jump :: OpCode where "O_Jump \<equiv> Pseudo Jump"
abbreviation O_JumpNoInterrupt :: OpCode where "O_JumpNoInterrupt \<equiv> Pseudo JumpNoInterrupt"
abbreviation O_JumpIfFalse :: OpCode where "O_JumpIfFalse \<equiv> Pseudo JumpIfFalse"
abbreviation O_JumpIfTrue :: OpCode where "O_JumpIfTrue \<equiv> Pseudo JumpIfTrue"
abbreviation O_SetupFinally :: OpCode where "O_SetupFinally \<equiv> Pseudo SetupFinally"
abbreviation O_SetupCleanup :: OpCode where "O_SetupCleanup \<equiv> Pseudo SetupCleanup"
abbreviation O_SetupWith :: OpCode where "O_SetupWith \<equiv> Pseudo SetupWith"
abbreviation O_PopBlock :: OpCode where "O_PopBlock \<equiv> Pseudo PopBlock"
abbreviation O_StoreFastMaybeNull :: OpCode where "O_StoreFastMaybeNull \<equiv> Pseudo StoreFastMaybeNull"

record instruction =
  ins_op :: OpCode
  ins_arg :: w32

abbreviation Instr :: "OpCode \<Rightarrow> w32 \<Rightarrow> instruction" where
  "Instr op arg \<equiv> \<lparr>ins_op = op, ins_arg = arg\<rparr>"

section \<open>Operator kinds\<close>

datatype BinOpKind =
    Add | Sub | Mult | Div | FloorDiv | Mod | Pow | LShift | RShift | BitOr | BitXor | BitAnd
  | MatMult

datatype CompareKind = Lt | LtE | Eq | NotEq | Gt | GtE

datatype UnaryKind = UPos | UNeg | UNot | UInvert

definition BINARY_OP_INPLACE_FLAG :: w32 where "BINARY_OP_INPLACE_FLAG = 0x100"
definition COMPARE_OP_TO_BOOL_FLAG :: w32 where "COMPARE_OP_TO_BOOL_FLAG = 0x10"

fun binop_as_arg :: "BinOpKind \<Rightarrow> w32" where
  "binop_as_arg Add = 0"
| "binop_as_arg Sub = 1"
| "binop_as_arg Mult = 2"
| "binop_as_arg Div = 3"
| "binop_as_arg FloorDiv = 4"
| "binop_as_arg Mod = 5"
| "binop_as_arg Pow = 6"
| "binop_as_arg LShift = 7"
| "binop_as_arg RShift = 8"
| "binop_as_arg BitOr = 9"
| "binop_as_arg BitXor = 10"
| "binop_as_arg BitAnd = 11"
| "binop_as_arg MatMult = 12"

definition binop_from_arg :: "w32 \<Rightarrow> BinOpKind option" where
  "binop_from_arg arg =
    (if arg = 0 then Some Add else if arg = 1 then Some Sub else if arg = 2 then Some Mult
     else if arg = 3 then Some Div else if arg = 4 then Some FloorDiv else if arg = 5 then Some Mod
     else if arg = 6 then Some Pow else if arg = 7 then Some LShift else if arg = 8 then Some RShift
     else if arg = 9 then Some BitOr else if arg = 10 then Some BitXor
     else if arg = 11 then Some BitAnd else if arg = 12 then Some MatMult else None)"

fun compare_as_arg :: "CompareKind \<Rightarrow> w32" where
  "compare_as_arg Lt = 0"
| "compare_as_arg LtE = 1"
| "compare_as_arg Eq = 2"
| "compare_as_arg NotEq = 3"
| "compare_as_arg Gt = 4"
| "compare_as_arg GtE = 5"

definition compare_from_arg :: "w32 \<Rightarrow> CompareKind option" where
  "compare_from_arg arg =
    (let k = arg AND NOT COMPARE_OP_TO_BOOL_FLAG in
     if k = 0 then Some Lt else if k = 1 then Some LtE else if k = 2 then Some Eq
     else if k = 3 then Some NotEq else if k = 4 then Some Gt else if k = 5 then Some GtE else None)"

fun unary_as_arg :: "UnaryKind \<Rightarrow> w32" where
  "unary_as_arg UPos = 0"
| "unary_as_arg UNeg = 1"
| "unary_as_arg UNot = 2"
| "unary_as_arg UInvert = 3"

definition unary_from_arg :: "w32 \<Rightarrow> UnaryKind option" where
  "unary_from_arg arg =
    (if arg = 0 then Some UPos else if arg = 1 then Some UNeg else if arg = 2 then Some UNot
     else if arg = 3 then Some UInvert else None)"

text \<open>The \<open>_nb_ops\<close> index of an operator, and its inverse.\<close>

fun binop_to_nb :: "BinOpKind \<Rightarrow> w32" where
  "binop_to_nb Add = 0"
| "binop_to_nb BitAnd = 1"
| "binop_to_nb FloorDiv = 2"
| "binop_to_nb LShift = 3"
| "binop_to_nb MatMult = 4"
| "binop_to_nb Mult = 5"
| "binop_to_nb Mod = 6"
| "binop_to_nb BitOr = 7"
| "binop_to_nb Pow = 8"
| "binop_to_nb RShift = 9"
| "binop_to_nb Sub = 10"
| "binop_to_nb Div = 11"
| "binop_to_nb BitXor = 12"

definition nb_to_binop :: "w32 \<Rightarrow> BinOpKind option" where
  "nb_to_binop nb =
    (if nb = 0 then Some Add else if nb = 1 then Some BitAnd else if nb = 2 then Some FloorDiv
     else if nb = 3 then Some LShift else if nb = 4 then Some MatMult else if nb = 5 then Some Mult
     else if nb = 6 then Some Mod else if nb = 7 then Some BitOr else if nb = 8 then Some Pow
     else if nb = 9 then Some RShift else if nb = 10 then Some Sub
     else if nb = 11 then Some Div else if nb = 12 then Some BitXor else None)"

section \<open>Wire marks\<close>

definition PLAIN :: w8 where "PLAIN = 0"
definition BORROW :: w8 where "BORROW = 1"
definition CHECK :: w8 where "CHECK = 2"
definition FUSE_HEAD :: w8 where "FUSE_HEAD = 4"
definition FUSE_TAIL :: w8 where "FUSE_TAIL = 8"

lemmas mark_defs = PLAIN_def BORROW_def CHECK_def FUSE_HEAD_def FUSE_TAIL_def

section \<open>Code objects\<close>

text \<open>
  A constant, with its variants; the codec only asks whether it is a tuple and of how many
  items. Floats are their bit patterns and a nested code object is opaque.
\<close>

datatype 'c const_value =
    C_None | C_Bool bool | C_Int "64 word" | C_BigInt int | C_Float "64 word"
  | C_Complex "64 word" "64 word" | C_Str string | C_WStr "w32 list" | C_Bytes "w8 list"
  | C_Tuple "'c const_value list" | C_FrozenSet "'c const_value list" | C_Code 'c | C_Ellipsis
  | C_Slice "'c const_value" "'c const_value" "'c const_value" | C_Unmarshallable

text \<open>The columns are \<open>i32\<close>, read with \<open>sint\<close>; \<open>-1\<close> is an unknown column.\<close>

record ColSpan =
  cs_end_lineno :: w32
  cs_col :: w32
  cs_end_col :: w32

definition colspan_default :: ColSpan where
  "colspan_default = \<lparr>cs_end_lineno = 0, cs_col = - 1, cs_end_col = - 1\<rparr>"

record ExcHandler =
  eh_start :: w32
  eh_end :: w32
  eh_handler :: w32
  eh_depth :: w32
  eh_push_lasti :: bool

definition HANDLER_DEPTH_SENTINEL :: w32 where "HANDLER_DEPTH_SENTINEL = - 1"
definition HANDLER_DEPTH_ANCHOR_FLAG :: w32 where "HANDLER_DEPTH_ANCHOR_FLAG = 0x80000000"

record 'c CodeObject =
  co_name :: string
  co_arg_count :: w32
  co_posonly_count :: w32
  co_kwonly_count :: w32
  co_has_varargs :: bool
  co_has_varkeywords :: bool
  co_stacksize :: "w32 option"
  co_instructions :: "instruction list"
  co_constants :: "'c const_value list"
  co_varnames :: "string list"
  co_freevars :: "string list"
  co_cellvars :: "string list"
  co_exception_table :: "ExcHandler list"
  co_linetable :: "w32 list"
  co_coltable :: "ColSpan list"
  co_wire_marks :: "w8 list"
  co_hidden_locals :: "string list"
  co_no_interrupt_jumps :: "w32 list"

text \<open>\<open>xs.get(i).copied().unwrap_or(d)\<close>.\<close>

definition get_or :: "'a list \<Rightarrow> nat \<Rightarrow> 'a \<Rightarrow> 'a" where
  "get_or xs i d = (if i < length xs then xs ! i else d)"

lemma get_or_simps [simp]:
  "i < length xs \<Longrightarrow> get_or xs i d = xs ! i"
  "length xs \<le> i \<Longrightarrow> get_or xs i d = d"
  by (simp_all add: get_or_def)

text \<open>The number of names of a keyword tuple, if constant \<open>i\<close> is a tuple.\<close>

definition tuple_len :: "'c const_value list \<Rightarrow> nat \<Rightarrow> nat option" where
  "tuple_len cs i =
    (if i < length cs then (case cs ! i of C_Tuple names \<Rightarrow> Some (length names) | _ \<Rightarrow> None) else None)"

section \<open>Round trips of the kinds\<close>

lemma binop_from_as [simp]: "binop_from_arg (binop_as_arg k) = Some k"
  by (cases k) (simp_all add: binop_from_arg_def)

lemma compare_from_as [simp]: "compare_from_arg (compare_as_arg k) = Some k"
  by (cases k) (simp_all add: compare_from_arg_def COMPARE_OP_TO_BOOL_FLAG_def)

lemma unary_from_as [simp]: "unary_from_arg (unary_as_arg k) = Some k"
  by (cases k) (simp_all add: unary_from_arg_def)

lemma nb_to_of [simp]: "nb_to_binop (binop_to_nb k) = Some k"
  by (cases k) (simp_all add: nb_to_binop_def)

lemma binop_to_nb_less: "binop_to_nb k < NB_INPLACE_OFFSET"
  by (cases k) (simp_all add: NB_INPLACE_OFFSET_def)

end
