(* ===== verification/Code_Map.thy ===== *)
theory Code_Map
  imports Code_Instr
begin

text \<open>
  The two translation tables of \<open>crates/weavepy-compiler/src/cpython_code.rs\<close>:
  \<open>map_to_cpython\<close> from the compiler's instructions to CPython's, \<open>map_from_cpython\<close> back,
  and the two maps between deref indices (cell variables, then free variables) and the
  slots of \<open>localsplus\<close> that they use (\<open>DerefSlots\<close> and \<open>SlotMap\<close>).
\<close>

definition sat_sub :: "w32 \<Rightarrow> w32 \<Rightarrow> w32" where
  "sat_sub a b = (if b \<le> a then a - b else 0)"

section \<open>Deref indices to slots\<close>

text \<open>\<open>xs.iter().position(p)\<close>.\<close>

fun position_of :: "('a \<Rightarrow> bool) \<Rightarrow> 'a list \<Rightarrow> nat option" where
  "position_of P [] = None"
| "position_of P (x # xs) = (if P x then Some 0 else map_option Suc (position_of P xs))"

fun cell_slots :: "string list \<Rightarrow> w32 \<Rightarrow> string list \<Rightarrow> w32 list \<times> w32" where
  "cell_slots varnames nxt [] = ([], nxt)"
| "cell_slots varnames nxt (c # cs) =
    (case position_of (\<lambda>v. v = c) varnames of
       Some p \<Rightarrow> (let (rest, n) = cell_slots varnames nxt cs in (word_of_nat p # rest, n))
     | None \<Rightarrow> (let (rest, n) = cell_slots varnames (nxt + 1) cs in (nxt # rest, n)))"

fun free_slots :: "w32 \<Rightarrow> string list \<Rightarrow> w32 list" where
  "free_slots nxt [] = []"
| "free_slots nxt (_ # fs) = nxt # free_slots (nxt + 1) fs"

definition deref_slots_from_code :: "'c CodeObject \<Rightarrow> w32 list" where
  "deref_slots_from_code code =
    (let nlocals = word_of_nat (length (co_varnames code));
         (cells, nxt) = cell_slots (co_varnames code) nlocals (co_cellvars code)
     in cells @ free_slots nxt (co_freevars code))"

definition deref_slot :: "w32 list \<Rightarrow> w32 \<Rightarrow> w32" where
  "deref_slot slots deref = get_or slots (unat deref) (word_of_nat (length slots) + deref)"

section \<open>To CPython\<close>

record MappedOp =
  mo_op :: w8
  mo_arg :: w32

definition binary_op_arg :: "w32 \<Rightarrow> w32" where
  "binary_op_arg arg =
    (let inplace = (arg AND BINARY_OP_INPLACE_FLAG \<noteq> 0) in
     case binop_from_arg (arg AND 0xFF) of
       None \<Rightarrow> arg
     | Some k \<Rightarrow> binop_to_nb k + (if inplace then NB_INPLACE_OFFSET else 0))"

definition compare_mask :: "w32 \<Rightarrow> w32" where
  "compare_mask kind =
    (if kind = 0 then 2
     else if kind = 1 then 2 OR 8
     else if kind = 2 then 8
     else if kind = 3 then 1 OR 2 OR 4
     else if kind = 4 then 4
     else if kind = 5 then 4 OR 8
     else 0)"

definition compare_op_arg :: "w32 \<Rightarrow> w32" where
  "compare_op_arg arg =
    (let kind = arg AND NOT COMPARE_OP_TO_BOOL_FLAG; to_bool = arg AND COMPARE_OP_TO_BOOL_FLAG
     in push_bit 5 kind OR to_bool OR compare_mask kind)"

text \<open>
  The flowgraph's pseudo-operations never reach the encoder; the sources panic
  (\<open>unreachable!\<close>) on one, which is \<open>None\<close> here.
\<close>

definition wire_of :: "OpCode \<Rightarrow> w32 \<Rightarrow> w32 list \<Rightarrow> (w8 \<times> w32) option" where
  "wire_of opc arg slots =
    (case opc of
        O_Nop \<Rightarrow> Some (op_NOP, 0)
      | O_Resume \<Rightarrow> Some (op_RESUME, arg)
      | O_LoadConst \<Rightarrow> Some (op_LOAD_CONST, arg)
      | O_LoadName \<Rightarrow> Some (op_LOAD_NAME, arg)
      | O_LoadGlobal \<Rightarrow> Some (op_LOAD_GLOBAL, push_bit 1 arg)
      | O_LoadFast \<Rightarrow> Some (op_LOAD_FAST, arg)
      | O_LoadFastBorrow \<Rightarrow> Some (op_LOAD_FAST_BORROW, arg)
      | O_LoadClosureBorrow \<Rightarrow> Some (op_LOAD_FAST_BORROW, deref_slot slots arg)
      | O_LoadFastCheck \<Rightarrow> Some (op_LOAD_FAST_CHECK, arg)
      | O_LoadFastLoadFast \<Rightarrow> Some (op_LOAD_FAST_LOAD_FAST, arg)
      | O_LoadFastBorrowLoadFastBorrow \<Rightarrow> Some (op_LOAD_FAST_BORROW_LOAD_FAST_BORROW, arg)
      | O_StoreFastLoadFast \<Rightarrow> Some (op_STORE_FAST_LOAD_FAST, arg)
      | O_StoreFastStoreFast \<Rightarrow> Some (op_STORE_FAST_STORE_FAST, arg)
      | O_LoadGlobalPushNull \<Rightarrow> Some (op_LOAD_GLOBAL, push_bit 1 arg OR 1)
      | O_LoadLocals \<Rightarrow> Some (op_LOAD_LOCALS, 0)
      | O_LoadFastAndClear \<Rightarrow> Some (op_LOAD_FAST_AND_CLEAR, arg)
      | O_StoreFast \<Rightarrow> Some (op_STORE_FAST, arg)
      | O_StoreGlobal \<Rightarrow> Some (op_STORE_GLOBAL, arg)
      | O_StoreName \<Rightarrow> Some (op_STORE_NAME, arg)
      | O_DeleteFast \<Rightarrow> Some (op_DELETE_FAST, arg)
      | O_DeleteGlobal \<Rightarrow> Some (op_DELETE_GLOBAL, arg)
      | O_DeleteName \<Rightarrow> Some (op_DELETE_NAME, arg)
      | O_LoadDeref \<Rightarrow> Some (op_LOAD_DEREF, deref_slot slots arg)
      | O_StoreDeref \<Rightarrow> Some (op_STORE_DEREF, deref_slot slots arg)
      | O_DeleteDeref \<Rightarrow> Some (op_DELETE_DEREF, deref_slot slots arg)
      | O_MakeCell \<Rightarrow> Some (op_MAKE_CELL, deref_slot slots arg)
      | O_CopyFreeVars \<Rightarrow> Some (op_COPY_FREE_VARS, arg)
      | O_LoadClosure \<Rightarrow> Some (op_LOAD_FAST, deref_slot slots arg)
      | O_LoadAttr \<Rightarrow> Some (op_LOAD_ATTR, push_bit 1 arg)
      | O_LoadMethodAttr \<Rightarrow> Some (op_LOAD_ATTR, push_bit 1 arg OR 1)
      | O_LoadSuperAttr \<Rightarrow> Some (op_LOAD_SUPER_ATTR, arg)
      | O_PushNull \<Rightarrow> Some (op_PUSH_NULL, 0)
      | O_StoreAttr \<Rightarrow> Some (op_STORE_ATTR, arg)
      | O_DeleteAttr \<Rightarrow> Some (op_DELETE_ATTR, arg)
      | O_BinarySubscr \<Rightarrow> Some (op_BINARY_OP, NB_SUBSCR)
      | O_BinarySlice \<Rightarrow> Some (op_BINARY_SLICE, 0)
      | O_StoreSubscr \<Rightarrow> Some (op_STORE_SUBSCR, 0)
      | O_StoreSlice \<Rightarrow> Some (op_STORE_SLICE, 0)
      | O_DeleteSubscr \<Rightarrow> Some (op_DELETE_SUBSCR, 0)
      | O_BinaryOp \<Rightarrow> Some (op_BINARY_OP, binary_op_arg arg)
      | O_UnaryOp \<Rightarrow> Some (case unary_from_arg arg of
            Some UNeg \<Rightarrow> (op_UNARY_NEGATIVE, 0)
          | Some UNot \<Rightarrow> (op_UNARY_NOT, 0)
          | Some UInvert \<Rightarrow> (op_UNARY_INVERT, 0)
          | _ \<Rightarrow> (op_CALL_INTRINSIC_1, INTRINSIC_UNARY_POSITIVE))
      | O_CompareOp \<Rightarrow> Some (op_COMPARE_OP, compare_op_arg arg)
      | O_IsOp \<Rightarrow> Some (op_IS_OP, arg)
      | O_ContainsOp \<Rightarrow> Some (op_CONTAINS_OP, arg)
      | O_PopTop \<Rightarrow> Some (op_POP_TOP, 0)
      | O_CopyTop \<Rightarrow> Some (op_COPY, max arg 1)
      | O_Swap \<Rightarrow> Some (op_SWAP, arg)
      | O_Call \<Rightarrow> Some (op_CALL, arg)
      | O_CallSelf \<Rightarrow> Some (op_CALL, sat_sub arg 1)
      | O_CallKw \<Rightarrow> Some (op_CALL_KW, arg)
      | O_CallEx \<Rightarrow> Some (op_CALL_FUNCTION_EX, 0)
      | O_ReturnValue \<Rightarrow> Some (op_RETURN_VALUE, 0)
      | O_PopJumpIfFalse \<Rightarrow> Some (op_POP_JUMP_IF_FALSE, arg)
      | O_PopJumpIfTrue \<Rightarrow> Some (op_POP_JUMP_IF_TRUE, arg)
      | O_PopJumpIfNone \<Rightarrow> Some (op_POP_JUMP_IF_NONE, arg)
      | O_PopJumpIfNotNone \<Rightarrow> Some (op_POP_JUMP_IF_NOT_NONE, arg)
      | O_JumpForward \<Rightarrow> Some (op_JUMP_FORWARD, arg)
      | O_JumpBackward \<Rightarrow> Some (op_JUMP_BACKWARD, arg)
      | O_GetIter \<Rightarrow> Some (op_GET_ITER, 0)
      | O_ForIter \<Rightarrow> Some (op_FOR_ITER, arg)
      | O_EndFor \<Rightarrow> Some (op_END_FOR, 0)
      | O_BuildList \<Rightarrow> Some (op_BUILD_LIST, arg)
      | O_BuildTuple \<Rightarrow> Some (op_BUILD_TUPLE, arg)
      | O_BuildSet \<Rightarrow> Some (op_BUILD_SET, arg)
      | O_BuildMap \<Rightarrow> Some (op_BUILD_MAP, arg)
      | O_BuildString \<Rightarrow> Some (op_BUILD_STRING, arg)
      | O_ListAppend \<Rightarrow> Some (op_LIST_APPEND, arg)
      | O_ListExtend \<Rightarrow> Some (op_LIST_EXTEND, arg)
      | O_ListToTuple \<Rightarrow> Some (op_CALL_INTRINSIC_1, INTRINSIC_LIST_TO_TUPLE)
      | O_SetAdd \<Rightarrow> Some (op_SET_ADD, arg)
      | O_SetUpdate \<Rightarrow> Some (op_SET_UPDATE, arg)
      | O_MapAdd \<Rightarrow> Some (op_MAP_ADD, arg)
      | O_UnpackSequence \<Rightarrow> Some (op_UNPACK_SEQUENCE, arg)
      | O_UnpackEx \<Rightarrow> Some (op_UNPACK_EX, (drop_bit 8 arg AND 0xFF) OR push_bit 8 (arg AND 0xFF))
      | O_DictUpdate \<Rightarrow> Some (if arg AND 1 \<noteq> 0 then (op_DICT_MERGE, drop_bit 1 arg + 1)
                   else (op_DICT_UPDATE, drop_bit 1 arg + 1))
      | O_SetupAnnotations \<Rightarrow> Some (op_SETUP_ANNOTATIONS, 0)
      | O_MakeFunction \<Rightarrow> Some (op_MAKE_FUNCTION, arg)
      | O_SetFunctionAttribute \<Rightarrow> Some (op_SET_FUNCTION_ATTRIBUTE, arg)
      | O_BuildSlice \<Rightarrow> Some (op_BUILD_SLICE, arg)
      | O_LoadBuildClass \<Rightarrow> Some (op_LOAD_BUILD_CLASS, 0)
      | O_LoadClassdictOrDeref \<Rightarrow> Some (op_LOAD_FROM_DICT_OR_DEREF, deref_slot slots arg)
      | O_LoadClassdictOrGlobal \<Rightarrow> Some (op_LOAD_FROM_DICT_OR_GLOBALS, arg)
      | O_RaiseVarargs \<Rightarrow> Some (op_RAISE_VARARGS, arg)
      | O_CheckExcMatch \<Rightarrow> Some (op_CHECK_EXC_MATCH, 0)
      | O_CheckEGMatch \<Rightarrow> Some (op_CHECK_EG_MATCH, 0)
      | O_PushExcInfo \<Rightarrow> Some (op_PUSH_EXC_INFO, 0)
      | O_PopExcept \<Rightarrow> Some (op_POP_EXCEPT, 0)
      | O_Reraise \<Rightarrow> Some (op_RERAISE, arg)
      | O_LoadSpecial \<Rightarrow> Some (op_LOAD_SPECIAL, arg)
      | O_LoadCommonConstant \<Rightarrow> Some (op_LOAD_COMMON_CONSTANT, arg)
      | O_WithExceptStart \<Rightarrow> Some (op_WITH_EXCEPT_START, 0)
      | O_ImportName \<Rightarrow> Some (op_IMPORT_NAME, arg)
      | O_ImportFrom \<Rightarrow> Some (op_IMPORT_FROM, arg)
      | O_ImportStar \<Rightarrow> Some (op_CALL_INTRINSIC_1, INTRINSIC_IMPORT_STAR)
      | O_PrepReraiseStar \<Rightarrow> Some (op_CALL_INTRINSIC_2, INTRINSIC_PREP_RERAISE_STAR)
      | O_CleanupThrow \<Rightarrow> Some (op_CLEANUP_THROW, 0)
      | O_StopIterationError \<Rightarrow> Some (op_CALL_INTRINSIC_1, INTRINSIC_STOPITERATION_ERROR)
      | O_AsyncGenWrap \<Rightarrow> Some (op_CALL_INTRINSIC_1, INTRINSIC_ASYNC_GEN_WRAP)
      | O_CallIntrinsic1 \<Rightarrow> Some (op_CALL_INTRINSIC_1, arg)
      | O_CallIntrinsic2 \<Rightarrow> Some (op_CALL_INTRINSIC_2, arg)
      | O_BuildInterpolation \<Rightarrow> Some (op_BUILD_INTERPOLATION, arg)
      | O_BuildTemplate \<Rightarrow> Some (op_BUILD_TEMPLATE, 0)
      | O_LoadSmallInt \<Rightarrow> Some (op_LOAD_SMALL_INT, arg)
      | O_NotTaken \<Rightarrow> Some (op_NOT_TAKEN, 0)
      | O_PopIter \<Rightarrow> Some (op_POP_ITER, 0)
      | O_FormatValue \<Rightarrow> Some (if arg AND 0x04 \<noteq> 0 then (op_FORMAT_WITH_SPEC, 0) else (op_FORMAT_SIMPLE, 0))
      | O_ConvertValue \<Rightarrow> Some (op_CONVERT_VALUE, arg)
      | O_ToBool \<Rightarrow> Some (op_TO_BOOL, 0)
      | O_YieldValue \<Rightarrow> Some (op_YIELD_VALUE, arg)
      | O_GetYieldFromIter \<Rightarrow> Some (op_GET_YIELD_FROM_ITER, 0)
      | O_ReturnGenerator \<Rightarrow> Some (op_RETURN_GENERATOR, 0)
      | O_Send \<Rightarrow> Some (op_SEND, arg)
      | O_EndSend \<Rightarrow> Some (op_END_SEND, 0)
      | O_GetAwaitable \<Rightarrow> Some (op_GET_AWAITABLE, arg)
      | O_GetAiter \<Rightarrow> Some (op_GET_AITER, 0)
      | O_GetAnext \<Rightarrow> Some (op_GET_ANEXT, 0)
      | O_EndAsyncFor \<Rightarrow> Some (op_END_ASYNC_FOR, 0)
      | O_MatchSequence \<Rightarrow> Some (op_MATCH_SEQUENCE, 0)
      | O_MatchMapping \<Rightarrow> Some (op_MATCH_MAPPING, 0)
      | O_MatchClass \<Rightarrow> Some (op_MATCH_CLASS, arg)
      | O_MatchKeys \<Rightarrow> Some (op_MATCH_KEYS, 0)
      | O_GetLen \<Rightarrow> Some (op_GET_LEN, 0)
      | O_PrintExpr \<Rightarrow> Some (op_NOP, 0)
      | Pseudo _ \<Rightarrow> None)"

definition map_to_cpython :: "instruction \<Rightarrow> w32 list \<Rightarrow> MappedOp option" where
  "map_to_cpython ins slots =
    map_option (\<lambda>(cp_op, arg). \<lparr>mo_op = cp_op, mo_arg = arg\<rparr>) (wire_of (ins_op ins) (ins_arg ins) slots)"

section \<open>Slots to deref indices\<close>

definition CO_FAST_ARG_POS :: w8 where "CO_FAST_ARG_POS = 0x02"
definition CO_FAST_ARG_KW :: w8 where "CO_FAST_ARG_KW = 0x04"
definition CO_FAST_ARG_VAR :: w8 where "CO_FAST_ARG_VAR = 0x08"
definition CO_FAST_HIDDEN :: w8 where "CO_FAST_HIDDEN = 0x10"
definition CO_FAST_LOCAL :: w8 where "CO_FAST_LOCAL = 0x20"
definition CO_FAST_CELL :: w8 where "CO_FAST_CELL = 0x40"
definition CO_FAST_FREE :: w8 where "CO_FAST_FREE = 0x80"

lemmas kind_defs = CO_FAST_ARG_POS_def CO_FAST_ARG_KW_def CO_FAST_ARG_VAR_def
  CO_FAST_HIDDEN_def CO_FAST_LOCAL_def CO_FAST_CELL_def CO_FAST_FREE_def

record SlotMap =
  sm_nlocals :: w32
  sm_deref_of_slot :: "w32 option list"

text \<open>One numbering pass: every kind byte with the flag gets the next index.\<close>

fun number_kinds :: "w8 \<Rightarrow> w32 \<Rightarrow> w8 list \<Rightarrow> w32 option list \<Rightarrow> w32 option list \<times> w32" where
  "number_kinds flag nxt (k # ks) (d # ds) =
    (if k AND flag \<noteq> 0
     then (let (rest, n) = number_kinds flag (nxt + 1) ks ds in (Some nxt # rest, n))
     else (let (rest, n) = number_kinds flag nxt ks ds in (d # rest, n)))"
| "number_kinds flag nxt _ ds = (ds, nxt)"

definition slots_from_kinds :: "w8 list \<Rightarrow> SlotMap" where
  "slots_from_kinds kinds =
    (let nlocals = word_of_nat (length (filter (\<lambda>k. k AND CO_FAST_LOCAL \<noteq> 0) kinds));
         (cells, nxt) = number_kinds CO_FAST_CELL 0 kinds (replicate (length kinds) None);
         (all_slots, _) = number_kinds CO_FAST_FREE nxt kinds cells
     in \<lparr>sm_nlocals = nlocals, sm_deref_of_slot = all_slots\<rparr>)"

fun place_cells :: "string list \<Rightarrow> w32 \<Rightarrow> nat \<Rightarrow> string list \<Rightarrow> w32 option list \<Rightarrow> w32 option list \<times> w32" where
  "place_cells varnames next_slot i [] ds = (ds, next_slot)"
| "place_cells varnames next_slot i (c # cs) ds =
    (case position_of (\<lambda>v. v = c) varnames of
       Some p \<Rightarrow> place_cells varnames next_slot (Suc i) cs (ds[p := Some (word_of_nat i)])
     | None \<Rightarrow> place_cells varnames (next_slot + 1) (Suc i) cs
                 (ds[unat next_slot := Some (word_of_nat i)]))"

fun place_frees :: "nat \<Rightarrow> nat \<Rightarrow> nat \<Rightarrow> w32 option list \<Rightarrow> w32 option list" where
  "place_frees at0 d 0 ds = ds"
| "place_frees at0 d (Suc n) ds = place_frees (Suc at0) (Suc d) n (ds[at0 := Some (word_of_nat d)])"

definition slots_from_code_vars :: "string list \<Rightarrow> string list \<Rightarrow> string list \<Rightarrow> SlotMap" where
  "slots_from_code_vars varnames cellvars freevars =
    (let nlocals = word_of_nat (length varnames);
         nslots = length varnames + length freevars
                  + length (filter (\<lambda>c. c \<notin> set varnames) cellvars);
         (ds, next_slot) = place_cells varnames nlocals 0 cellvars (replicate nslots None)
     in \<lparr>sm_nlocals = nlocals,
         sm_deref_of_slot = place_frees (unat next_slot) (length cellvars) (length freevars) ds\<rparr>)"

definition slot_deref :: "SlotMap \<Rightarrow> w32 \<Rightarrow> w32" where
  "slot_deref sm slot =
    (case get_or (sm_deref_of_slot sm) (unat slot) None of
       Some d \<Rightarrow> d
     | None \<Rightarrow> sat_sub slot (sm_nlocals sm))"

definition is_cellish :: "SlotMap \<Rightarrow> w32 \<Rightarrow> bool" where
  "is_cellish sm slot =
    (if unat slot < length (sm_deref_of_slot sm)
     then sm_deref_of_slot sm ! unat slot \<noteq> None
     else sm_nlocals sm \<le> slot)"

section \<open>From CPython\<close>

definition binop_unwire :: "w32 \<Rightarrow> (OpCode \<times> w32) option" where
  "binop_unwire arg =
    (let (nb, flag) = (if NB_INPLACE_OFFSET \<le> arg then (arg - NB_INPLACE_OFFSET, BINARY_OP_INPLACE_FLAG)
                       else (arg, 0))
     in map_option (\<lambda>k. (O_BinaryOp, binop_as_arg k OR flag)) (nb_to_binop nb))"

definition intrinsic_unwire :: "w32 \<Rightarrow> OpCode \<times> w32" where
  "intrinsic_unwire arg =
    (if arg = INTRINSIC_UNARY_POSITIVE then (O_UnaryOp, unary_as_arg UPos)
     else if arg = INTRINSIC_LIST_TO_TUPLE then (O_ListToTuple, 0)
     else if arg = INTRINSIC_STOPITERATION_ERROR then (O_StopIterationError, 0)
     else if arg = INTRINSIC_ASYNC_GEN_WRAP then (O_AsyncGenWrap, 0)
     else if arg = INTRINSIC_IMPORT_STAR then (O_ImportStar, 0)
     else (O_CallIntrinsic1, arg))"

definition map_from_cpython :: "w8 \<Rightarrow> w32 \<Rightarrow> SlotMap \<Rightarrow> (OpCode \<times> w32) option" where
  "map_from_cpython cp_op arg slots =
    (if cp_op = op_NOP then Some (O_Nop, 0)
     else if cp_op = op_RESUME then Some (O_Resume, arg)
     else if cp_op = op_LOAD_CONST then Some (O_LoadConst, arg)
     else if cp_op = op_LOAD_NAME then Some (O_LoadName, arg)
     else if cp_op = op_LOAD_GLOBAL then Some (O_LoadGlobal, drop_bit 1 arg)
     else if cp_op \<in> {op_LOAD_FAST, op_LOAD_FAST_BORROW, op_LOAD_FAST_CHECK} then (if is_cellish slots arg then Some (O_LoadClosure, slot_deref slots arg)
         else Some (O_LoadFast, arg))
     else if cp_op = op_LOAD_LOCALS then Some (O_LoadLocals, 0)
     else if cp_op = op_LOAD_FAST_AND_CLEAR then Some (O_LoadFastAndClear, arg)
     else if cp_op = op_STORE_FAST then Some (O_StoreFast, arg)
     else if cp_op = op_STORE_GLOBAL then Some (O_StoreGlobal, arg)
     else if cp_op = op_STORE_NAME then Some (O_StoreName, arg)
     else if cp_op = op_DELETE_FAST then Some (O_DeleteFast, arg)
     else if cp_op = op_DELETE_GLOBAL then Some (O_DeleteGlobal, arg)
     else if cp_op = op_DELETE_NAME then Some (O_DeleteName, arg)
     else if cp_op = op_LOAD_DEREF then Some (O_LoadDeref, slot_deref slots arg)
     else if cp_op = op_STORE_DEREF then Some (O_StoreDeref, slot_deref slots arg)
     else if cp_op = op_DELETE_DEREF then Some (O_DeleteDeref, slot_deref slots arg)
     else if cp_op = op_MAKE_CELL then Some (O_MakeCell, slot_deref slots arg)
     else if cp_op = op_COPY_FREE_VARS then Some (O_CopyFreeVars, arg)
     else if cp_op = op_LOAD_ATTR \<and> arg AND 1 \<noteq> 0 then Some (O_LoadMethodAttr, drop_bit 1 arg)
     else if cp_op = op_LOAD_ATTR then Some (O_LoadAttr, drop_bit 1 arg)
     else if cp_op = op_LOAD_SUPER_ATTR then Some (O_LoadSuperAttr, arg)
     else if cp_op = op_STORE_ATTR then Some (O_StoreAttr, arg)
     else if cp_op = op_DELETE_ATTR then Some (O_DeleteAttr, arg)
     else if cp_op = op_BINARY_SLICE then Some (O_BinarySlice, 0)
     else if cp_op = op_STORE_SLICE then Some (O_StoreSlice, 0)
     else if cp_op = op_STORE_SUBSCR then Some (O_StoreSubscr, 0)
     else if cp_op = op_DELETE_SUBSCR then Some (O_DeleteSubscr, 0)
     else if cp_op = op_BINARY_OP \<and> arg = NB_SUBSCR then Some (O_BinarySubscr, 0)
     else if cp_op = op_BINARY_OP then binop_unwire arg
     else if cp_op = op_UNARY_NEGATIVE then Some (O_UnaryOp, unary_as_arg UNeg)
     else if cp_op = op_UNARY_NOT then Some (O_UnaryOp, unary_as_arg UNot)
     else if cp_op = op_UNARY_INVERT then Some (O_UnaryOp, unary_as_arg UInvert)
     else if cp_op = op_CALL_INTRINSIC_1 then Some (intrinsic_unwire arg)
     else if cp_op = op_CALL_INTRINSIC_2 \<and> arg = INTRINSIC_PREP_RERAISE_STAR then Some (O_PrepReraiseStar, 0)
     else if cp_op = op_CALL_INTRINSIC_2 then Some (O_CallIntrinsic2, arg)
     else if cp_op = op_CLEANUP_THROW then Some (O_CleanupThrow, 0)
     else if cp_op = op_BUILD_INTERPOLATION then Some (O_BuildInterpolation, arg)
     else if cp_op = op_BUILD_TEMPLATE then Some (O_BuildTemplate, 0)
     else if cp_op = op_LOAD_COMMON_CONSTANT then Some (O_LoadCommonConstant, arg)
     else if cp_op = op_LOAD_SPECIAL then Some (O_LoadSpecial, arg)
     else if cp_op = op_LOAD_SMALL_INT then Some (O_LoadSmallInt, arg)
     else if cp_op = op_NOT_TAKEN then Some (O_NotTaken, 0)
     else if cp_op = op_POP_ITER then Some (O_PopIter, 0)
     else if cp_op = op_COMPARE_OP then map_option (\<lambda>k. (O_CompareOp, compare_as_arg k OR (arg AND COMPARE_OP_TO_BOOL_FLAG)))
         (compare_from_arg (drop_bit 5 arg))
     else if cp_op = op_IS_OP then Some (O_IsOp, arg)
     else if cp_op = op_CONTAINS_OP then Some (O_ContainsOp, arg)
     else if cp_op = op_POP_TOP then Some (O_PopTop, 0)
     else if cp_op = op_COPY then Some (O_CopyTop, arg)
     else if cp_op = op_SWAP then Some (O_Swap, arg)
     else if cp_op = op_CALL then Some (O_Call, arg)
     else if cp_op = op_CALL_KW then Some (O_CallKw, arg)
     else if cp_op = op_CALL_FUNCTION_EX then Some (O_CallEx, 0)
     else if cp_op = op_PUSH_NULL then Some (O_PushNull, 0)
     else if cp_op = op_RETURN_VALUE then Some (O_ReturnValue, 0)
     else if cp_op = op_POP_JUMP_IF_FALSE then Some (O_PopJumpIfFalse, arg)
     else if cp_op = op_POP_JUMP_IF_TRUE then Some (O_PopJumpIfTrue, arg)
     else if cp_op = op_POP_JUMP_IF_NONE then Some (O_PopJumpIfNone, arg)
     else if cp_op = op_POP_JUMP_IF_NOT_NONE then Some (O_PopJumpIfNotNone, arg)
     else if cp_op = op_JUMP_FORWARD then Some (O_JumpForward, arg)
     else if cp_op \<in> {op_JUMP_BACKWARD, op_JUMP_BACKWARD_NO_INTERRUPT} then Some (O_JumpBackward, arg)
     else if cp_op = op_GET_ITER then Some (O_GetIter, 0)
     else if cp_op = op_FOR_ITER then Some (O_ForIter, arg)
     else if cp_op = op_END_FOR then Some (O_EndFor, 0)
     else if cp_op = op_BUILD_LIST then Some (O_BuildList, arg)
     else if cp_op = op_BUILD_TUPLE then Some (O_BuildTuple, arg)
     else if cp_op = op_BUILD_SET then Some (O_BuildSet, arg)
     else if cp_op = op_BUILD_MAP then Some (O_BuildMap, arg)
     else if cp_op = op_SETUP_ANNOTATIONS then Some (O_SetupAnnotations, 0)
     else if cp_op = op_BUILD_STRING then Some (O_BuildString, arg)
     else if cp_op = op_LIST_APPEND then Some (O_ListAppend, arg)
     else if cp_op = op_LIST_EXTEND then Some (O_ListExtend, arg)
     else if cp_op = op_SET_ADD then Some (O_SetAdd, arg)
     else if cp_op = op_SET_UPDATE then Some (O_SetUpdate, arg)
     else if cp_op = op_MAP_ADD then Some (O_MapAdd, arg)
     else if cp_op = op_UNPACK_SEQUENCE then Some (O_UnpackSequence, arg)
     else if cp_op = op_UNPACK_EX then Some (O_UnpackEx, push_bit 8 (arg AND 0xFF) OR (drop_bit 8 arg AND 0xFF))
     else if cp_op = op_DICT_UPDATE then Some (O_DictUpdate, push_bit 1 (sat_sub arg 1))
     else if cp_op = op_DICT_MERGE then Some (O_DictUpdate, push_bit 1 (sat_sub arg 1) OR 1)
     else if cp_op = op_MAKE_FUNCTION then Some (O_MakeFunction, arg)
     else if cp_op = op_SET_FUNCTION_ATTRIBUTE then Some (O_SetFunctionAttribute, arg)
     else if cp_op = op_BUILD_SLICE then Some (O_BuildSlice, arg)
     else if cp_op = op_LOAD_BUILD_CLASS then Some (O_LoadBuildClass, 0)
     else if cp_op = op_LOAD_FROM_DICT_OR_DEREF then Some (O_LoadClassdictOrDeref, slot_deref slots arg)
     else if cp_op = op_LOAD_FROM_DICT_OR_GLOBALS then Some (O_LoadClassdictOrGlobal, arg)
     else if cp_op = op_RAISE_VARARGS then Some (O_RaiseVarargs, arg)
     else if cp_op = op_CHECK_EXC_MATCH then Some (O_CheckExcMatch, 0)
     else if cp_op = op_CHECK_EG_MATCH then Some (O_CheckEGMatch, 0)
     else if cp_op = op_PUSH_EXC_INFO then Some (O_PushExcInfo, 0)
     else if cp_op = op_POP_EXCEPT then Some (O_PopExcept, 0)
     else if cp_op = op_RERAISE then Some (O_Reraise, arg)
     else if cp_op = op_WITH_EXCEPT_START then Some (O_WithExceptStart, 0)
     else if cp_op = op_IMPORT_NAME then Some (O_ImportName, arg)
     else if cp_op = op_IMPORT_FROM then Some (O_ImportFrom, arg)
     else if cp_op = op_FORMAT_SIMPLE then Some (O_FormatValue, 0)
     else if cp_op = op_FORMAT_WITH_SPEC then Some (O_FormatValue, 0x04)
     else if cp_op = op_CONVERT_VALUE then Some (O_ConvertValue, arg)
     else if cp_op = op_TO_BOOL then Some (O_ToBool, 0)
     else if cp_op = op_YIELD_VALUE then Some (O_YieldValue, arg)
     else if cp_op = op_GET_YIELD_FROM_ITER then Some (O_GetYieldFromIter, 0)
     else if cp_op = op_RETURN_GENERATOR then Some (O_ReturnGenerator, 0)
     else if cp_op = op_SEND then Some (O_Send, arg)
     else if cp_op = op_END_SEND then Some (O_EndSend, 0)
     else if cp_op = op_GET_AWAITABLE then Some (O_GetAwaitable, arg)
     else if cp_op = op_GET_AITER then Some (O_GetAiter, 0)
     else if cp_op = op_GET_ANEXT then Some (O_GetAnext, 0)
     else if cp_op = op_END_ASYNC_FOR then Some (O_EndAsyncFor, 0)
     else if cp_op = op_MATCH_SEQUENCE then Some (O_MatchSequence, 0)
     else if cp_op = op_MATCH_MAPPING then Some (O_MatchMapping, 0)
     else if cp_op = op_MATCH_CLASS then Some (O_MatchClass, arg)
     else if cp_op = op_MATCH_KEYS then Some (O_MatchKeys, 0)
     else if cp_op = op_GET_LEN then Some (O_GetLen, 0)
     else None)"

end
