(* ===== verification/Code_Varint.thy ===== *)
theory Code_Varint
  imports Code_Op
begin

text \<open>
  The two variable-length integer formats of the side tables
  (\<open>crates/weavepy-compiler/src/cpython_code.rs\<close>): the little-endian one of the location
  table, with its signed form, and the big-endian one of the exception table. Both use
  groups of six bits with \<open>0x40\<close> as the continuation flag. Shifts and sums are those of
  release builds: a shift amount counts modulo 32 and sums wrap.
\<close>

section \<open>The location format\<close>

lemma unat_drop6: "unat (drop_bit 6 v :: w32) = unat v div 64"
  using unat_drop_bit_eq [of 6 v] by (simp add: drop_bit_nat_def)

lemma drop6_less: "v \<noteq> 0 \<Longrightarrow> unat (drop_bit 6 v :: w32) < unat v"
  using unat_gt_0 [of v] by (simp only: unat_drop6) simp

function push_loc_varint :: "w32 \<Rightarrow> w8 \<Rightarrow> w8 list" where
  "push_loc_varint val first_mask =
    (let b = ucast (val AND 0x3F);
         val' = drop_bit 6 val;
         b' = (if val' \<noteq> 0 then b OR 0x40 else b) OR first_mask
     in b' # (if val' = 0 then [] else push_loc_varint val' 0))"
  by pat_completeness auto
termination
proof (relation "measure (\<lambda>(val, _). unat val)", goal_cases)
  case (2 val first_mask b val' b')
  then have "val \<noteq> 0" by auto
  then have "unat (drop_bit 6 val) < unat val" by (rule drop6_less)
  with 2 show ?case by simp
qed simp

declare push_loc_varint.simps [simp del]

definition zigzag :: "w32 \<Rightarrow> w32" where
  "zigzag val = (if sint val < 0 then push_bit 1 (- val) OR 1 else push_bit 1 val)"

definition push_loc_svarint :: "w32 \<Rightarrow> w8 \<Rightarrow> w8 list" where
  "push_loc_svarint val first_mask = push_loc_varint (zigzag val) first_mask"

function read_loc_loop :: "w8 list \<Rightarrow> nat \<Rightarrow> w32 \<Rightarrow> nat \<Rightarrow> w32 \<times> nat" where
  "read_loc_loop table pos val shift =
    (if pos < length table
     then let b = table ! pos; val' = val OR push_bit (shift mod 32) (ucast (b AND 0x3F))
          in if b AND 0x40 = 0 then (val', Suc pos) else read_loc_loop table (Suc pos) val' (shift + 6)
     else (val, pos))"
  by pat_completeness auto
termination by (relation "measure (\<lambda>(table, pos, _, _). length table - pos)") auto

declare read_loc_loop.simps [simp del]

definition read_loc_varint :: "w8 list \<Rightarrow> nat \<Rightarrow> w32 \<times> nat" where
  "read_loc_varint table pos = read_loc_loop table pos 0 0"

definition unzigzag :: "w32 \<Rightarrow> w32" where
  "unzigzag v = (if v AND 1 \<noteq> 0 then - drop_bit 1 v else drop_bit 1 v)"

definition read_loc_svarint :: "w8 list \<Rightarrow> nat \<Rightarrow> w32 \<times> nat" where
  "read_loc_svarint table pos = (let (v, pos') = read_loc_varint table pos in (unzigzag v, pos'))"

section \<open>The exception format\<close>

text \<open>The groups, least significant first; the sources keep them in an array of six.\<close>

function exc_groups :: "w32 \<Rightarrow> w8 list" where
  "exc_groups v = ucast (v AND 0x3F) # (if drop_bit 6 v = 0 then [] else exc_groups (drop_bit 6 v))"
  by pat_completeness auto
termination
proof (relation "measure unat", goal_cases)
  case (2 v)
  then have "v \<noteq> 0" by auto
  then show ?case by (simp add: drop6_less del: drop_bit_eq_div)
qed simp

declare exc_groups.simps [simp del]

text \<open>The bytes, from the last group to the first.\<close>

fun exc_bytes :: "w8 list \<Rightarrow> w8 list" where
  "exc_bytes [] = []"
| "exc_bytes [g] = [g]"
| "exc_bytes (g # gs) = (g OR 0x40) # exc_bytes gs"

definition push_exc_varint :: "w32 \<Rightarrow> w8 \<Rightarrow> w8 list" where
  "push_exc_varint val first_mask =
    (case exc_bytes (rev (exc_groups val)) of
       [] \<Rightarrow> []
     | b # bs \<Rightarrow> (b OR first_mask) # bs)"

function read_exc_loop :: "w8 list \<Rightarrow> nat \<Rightarrow> w32 \<Rightarrow> w32 \<times> nat" where
  "read_exc_loop table pos val =
    (if pos < length table
     then let b = table ! pos; val' = push_bit 6 val OR ucast (b AND 0x3F)
          in if b AND 0x40 = 0 then (val', Suc pos) else read_exc_loop table (Suc pos) val'
     else (val, pos))"
  by pat_completeness auto
termination by (relation "measure (\<lambda>(table, pos, _). length table - pos)") auto

declare read_exc_loop.simps [simp del]

definition read_exc_field :: "w8 list \<Rightarrow> nat \<Rightarrow> w32 \<times> nat" where
  "read_exc_field table pos = read_exc_loop table pos 0"

section \<open>Bytes at a position\<close>

definition bytes_at :: "w8 list \<Rightarrow> nat \<Rightarrow> w8 list \<Rightarrow> bool" where
  "bytes_at table pos bs \<longleftrightarrow> (\<exists>rest. drop pos table = bs @ rest \<and> pos \<le> length table)"

lemma bytes_at_Cons:
  "bytes_at table pos (b # bs) \<longleftrightarrow> pos < length table \<and> table ! pos = b \<and> bytes_at table (Suc pos) bs"
proof (cases "pos < length table")
  case True
  then have "drop pos table = table ! pos # drop (Suc pos) table" by (simp add: Cons_nth_drop_Suc)
  with True show ?thesis by (auto simp: bytes_at_def)
qed (auto simp: bytes_at_def)

lemma bytes_at_append:
  "bytes_at table pos (xs @ ys) \<longleftrightarrow> bytes_at table pos xs \<and> bytes_at table (pos + length xs) ys"
proof (induction xs arbitrary: pos)
  case Nil
  then show ?case by (auto simp: bytes_at_def)
qed (simp add: bytes_at_Cons)

lemma bytes_at_whole: "bytes_at (xs @ ys) (length xs) ys"
  by (simp add: bytes_at_def)

lemma bytes_at_length: "bytes_at table pos bs \<Longrightarrow> pos + length bs \<le> length table"
  by (auto simp: bytes_at_def dest: arg_cong [where f = length])

section \<open>Reading back\<close>

lemma mask_bits [simp]: "bit (63 :: int) n \<longleftrightarrow> n < 6" "bit (64 :: int) n \<longleftrightarrow> n = 6"
proof -
  have m: "(63 :: int) = mask 6" "(64 :: int) = 2 ^ 6" by (simp_all add: mask_eq_exp_minus_1)
  show "bit (63 :: int) n \<longleftrightarrow> n < 6" unfolding m by (simp only: bit_mask_iff) simp
  show "bit (64 :: int) n \<longleftrightarrow> n = 6" unfolding m by (simp only: bit_exp_iff) auto
qed

lemma low6: "ucast (ucast (v AND 0x3F :: w32) AND 0x3F :: w8) = v AND (0x3F :: w32)"
  by (rule bit_word_eqI) (auto simp: bit_simps)

lemma low6': "ucast (ucast (v AND 0x3F :: w32) :: w8) = v AND (0x3F :: w32)"
  by (rule bit_word_eqI) (auto simp: bit_simps)

lemma group_low: "ucast (v AND 0x3F :: w32) AND 0x3F = (ucast (v AND 0x3F) :: w8)"
  by (rule bit_word_eqI) (auto simp: bit_simps)

lemma or_flag_low: "g AND 0x3F = g \<Longrightarrow> (g OR 0x40 :: w8) AND 0x3F = g"
proof -
  have "(g OR 0x40 :: w8) AND 0x3F = g AND 0x3F"
    by (rule bit_word_eqI) (auto simp: bit_simps)
  then show "g AND 0x3F = g \<Longrightarrow> ?thesis" by simp
qed

lemma or_flag_set: "(g OR 0x40 :: w8) AND 0x40 \<noteq> 0"
proof -
  have "bit ((g OR 0x40 :: w8) AND 0x40) 6" by (simp add: bit_simps)
  then show ?thesis by (metis bit_0_eq bot_apply bot_bool_def)
qed

lemma low_flag: "g AND 0x3F = g \<Longrightarrow> (g :: w8) AND 0x40 = 0"
proof -
  have "(g AND 0x3F) AND 0x40 = (0 :: w8)"
    by (rule bit_word_eqI) (auto simp: bit_simps)
  then show "g AND 0x3F = g \<Longrightarrow> ?thesis" by simp
qed

lemmas group_bits = low6 low6' group_low or_flag_low [OF group_low] or_flag_set low_flag [OF group_low]

lemma split6: "(v AND 0x3F) OR push_bit 6 (drop_bit 6 v) = (v :: w32)"
proof (rule bit_word_eqI)
  fix n assume "n < LENGTH(32)"
  then show "bit ((v AND 0x3F) OR push_bit 6 (drop_bit 6 v)) n \<longleftrightarrow> bit v n"
    by (cases "n < 6") (simp_all add: bit_simps)
qed

lemma read_loc_push:
  assumes "bytes_at table pos (push_loc_varint v 0)" "shift < 32" "unat v < 2 ^ (32 - shift)"
  shows "read_loc_loop table pos acc shift
    = (acc OR push_bit shift v, pos + length (push_loc_varint v 0))"
  using assms
proof (induction "unat v" arbitrary: v pos acc shift rule: less_induct)
  case (less v)
  note enc = push_loc_varint.simps [of v 0]
  have mod: "shift mod 32 = shift" using less.prems(2) by simp
  show ?case
  proof (cases "drop_bit 6 v = 0")
    case True
    then have v: "v AND 0x3F = v" using split6 [of v] by simp
    from True have e: "push_loc_varint v 0 = [ucast (v AND 0x3F)]" by (simp add: enc)
    with less.prems(1) have "pos < length table" "table ! pos = ucast (v AND 0x3F)"
      by (simp_all add: bytes_at_Cons)
    then have "read_loc_loop table pos acc shift = (acc OR push_bit shift (v AND 0x3F), Suc pos)"
      by (simp add: read_loc_loop.simps [of table pos] mod group_bits)
    then show ?thesis unfolding v by (simp add: e)
  next
    case False
    let ?v = "drop_bit 6 v" and ?acc = "acc OR push_bit shift (v AND 0x3F)"
    have e: "push_loc_varint v 0 = (ucast (v AND 0x3F) OR 0x40) # push_loc_varint ?v 0"
      using False by (simp add: enc)
    with less.prems(1) have at: "pos < length table" "table ! pos = ucast (v AND 0x3F) OR 0x40"
        "bytes_at table (Suc pos) (push_loc_varint ?v 0)"
      by (simp_all add: bytes_at_Cons)
    have dv: "unat ?v = unat v div 64" by (rule unat_drop6)
    have "unat ?v \<noteq> 0" using False by (simp only: unat_eq_0 not_False_eq_True)
    then have big: "64 \<le> unat v" unfolding dv by simp
    then have "unat ?v < unat v" unfolding dv by simp
    have e64: "(2::nat) ^ 6 = 64" by simp
    have "(2::nat) ^ 6 < 2 ^ (32 - shift)" unfolding e64 by (rule le_less_trans [OF big less.prems(3)])
    then have "6 < 32 - shift" by (rule power_less_imp_less_exp [rotated]) simp
    then have s: "shift + 6 < 32" and e32: "32 - shift = (32 - (shift + 6)) + 6" by simp_all
    have "(2::nat) ^ (32 - shift) = 2 ^ (32 - (shift + 6)) * 64" unfolding e32 power_add by simp
    then have "unat ?v < 2 ^ (32 - (shift + 6))"
      using less.prems(3) unfolding dv by (simp only: less_mult_imp_div_less)
    from less.hyps [OF \<open>unat ?v < unat v\<close> at(3) s this]
    have "read_loc_loop table (Suc pos) ?acc (shift + 6)
        = (?acc OR push_bit (shift + 6) ?v, Suc pos + length (push_loc_varint ?v 0))" .
    moreover have "push_bit shift v = push_bit shift ((v AND 0x3F) OR push_bit 6 ?v)"
      by (simp only: split6)
    then have "?acc OR push_bit (shift + 6) ?v = acc OR push_bit shift v"
      by (simp only: push_bit_or push_bit_push_bit or.assoc)
    ultimately show ?thesis
      using at(1, 2) by (simp add: e read_loc_loop.simps [of table pos] mod group_bits)
  qed
qed

lemma read_loc_varint_push:
  "bytes_at table pos (push_loc_varint v 0) \<Longrightarrow>
    read_loc_varint table pos = (v, pos + length (push_loc_varint v 0))"
  using read_loc_push [of table pos v 0 0] unsigned_less [of v] by (simp add: read_loc_varint_def)

lemma shift1:
  assumes "\<not> bit v 31"
  shows "drop_bit 1 (push_bit 1 v) = (v :: w32)" "drop_bit 1 (push_bit 1 v OR 1) = (v :: w32)"
proof -
  have "\<not> bit v n" if "n < 32" "31 \<le> n" for n using assms that by (cases "n = 31") auto
  then have b: "bit v n \<Longrightarrow> n < 31" for n using bit_imp_le_length [of v n] not_le by force
  show "drop_bit 1 (push_bit 1 v) = v" "drop_bit 1 (push_bit 1 v OR 1) = v"
    by (rule bit_word_eqI; auto simp: bit_simps simp del: push_bit_Suc dest: b)+
qed

lemma push1_odd: "push_bit 1 v AND 1 = (0 :: w32)" "(push_bit 1 v OR 1) AND 1 = (1 :: w32)"
  by (rule bit_word_eqI; auto simp: bit_simps simp del: push_bit_Suc)+

lemma sint_top: "sint (v :: w32) < 0 \<longleftrightarrow> bit v 31"
  using bit_last_iff [of v] by simp

lemma top_bit: "bit (v :: w32) 31 \<longleftrightarrow> 2 ^ 31 \<le> unat v"
proof -
  have "bit v 31 \<longleftrightarrow> bit (unat v) 31" by (simp add: bit_unsigned_iff)
  also have "\<dots> \<longleftrightarrow> odd (unat v div 2 ^ 31)" by (rule bit_iff_odd)
  also have "\<dots> \<longleftrightarrow> 2 ^ 31 \<le> unat v"
  proof (cases "2 ^ 31 \<le> unat v")
    case True
    moreover have "unat v < 2 * 2 ^ 31" using unsigned_less [of v] by simp
    ultimately have "unat v div 2 ^ 31 = 1" by (simp add: div_nat_eqI)
    with True show ?thesis by simp
  qed simp
  finally show ?thesis .
qed

lemma half_sum:
  "(a + b) mod 4294967296 = 0 \<Longrightarrow> a < 4294967296 \<Longrightarrow> b < 4294967296 \<Longrightarrow>
    2147483648 \<le> a \<Longrightarrow> 2147483648 \<le> b \<Longrightarrow> a = (2147483648 :: nat)"
  using mod_less [of "a + b - 4294967296" 4294967296] le_mod_geq [of 4294967296 "a + b"] by linarith

lemma unzigzag_zigzag:
  assumes "v \<noteq> 0x80000000"
  shows "unzigzag (zigzag v) = v"
proof (cases "bit v 31")
  case True
  have "\<not> bit (- v) 31"
  proof
    assume "bit (- v) 31"
    with True have big: "2 ^ 31 \<le> unat v" "2 ^ 31 \<le> unat (- v)" by (simp_all add: top_bit)
    have "unat (v + - v) = (unat v + unat (- v)) mod 2 ^ 32" using unat_word_ariths(1) [of v "- v"] by simp
    moreover have "unat (v + - v) = 0" by (simp only: add.right_inverse unat_0)
    ultimately have "(unat v + unat (- v)) mod 2 ^ 32 = 0" by simp
    moreover have "unat v < 2 ^ 32" "unat (- v) < 2 ^ 32"
      using unsigned_less [of v] unsigned_less [of "- v"] by simp_all
    ultimately have "unat v = 2 ^ 31" using big half_sum [of "unat v" "unat (- v)"] by simp
    then have "v = word_of_nat (2 ^ 31)" by (metis of_nat_unat ucast_id)
    then have "v = 0x80000000" by simp
    with assms show False ..
  qed
  then show ?thesis using True
    by (simp add: zigzag_def unzigzag_def sint_top shift1 push1_odd del: One_nat_def)
next
  case False
  then show ?thesis
    by (simp add: zigzag_def unzigzag_def sint_top shift1 push1_odd del: One_nat_def)
qed

lemma read_loc_svarint_push:
  "bytes_at table pos (push_loc_svarint v 0) \<Longrightarrow> v \<noteq> 0x80000000 \<Longrightarrow>
    read_loc_svarint table pos = (v, pos + length (push_loc_svarint v 0))"
  by (simp add: read_loc_svarint_def push_loc_svarint_def read_loc_varint_push unzigzag_zigzag)

text \<open>What the groups say, most significant first.\<close>

fun exc_value :: "w32 \<Rightarrow> w8 list \<Rightarrow> w32" where
  "exc_value acc [] = acc"
| "exc_value acc (g # gs) = exc_value (push_bit 6 acc OR ucast g) gs"

lemma read_exc_bytes:
  assumes "bytes_at table pos (exc_bytes gs)" "gs \<noteq> []" "\<forall>g \<in> set gs. g AND 0x3F = g"
  shows "read_exc_loop table pos acc = (exc_value acc gs, pos + length gs)"
  using assms
proof (induction gs arbitrary: pos acc rule: exc_bytes.induct)
  case (2 g)
  then show ?case by (simp add: bytes_at_Cons read_exc_loop.simps [of table pos] or_flag_low or_flag_set low_flag)
next
  case (3 g g' gs)
  then show ?case by (simp add: bytes_at_Cons read_exc_loop.simps [of table pos] or_flag_low or_flag_set low_flag)
qed simp

lemma exc_value_snoc: "exc_value acc (gs @ [g]) = push_bit 6 (exc_value acc gs) OR ucast g"
  by (induction gs arbitrary: acc) simp_all

lemma exc_value_groups: "exc_value 0 (rev (exc_groups v)) = v"
proof (induction v rule: exc_groups.induct)
  case (1 v)
  show ?case
  proof (cases "drop_bit 6 v = 0")
    case True
    then have "exc_value 0 (rev (exc_groups v)) = v AND 0x3F"
      by (simp add: exc_groups.simps [of v] group_bits)
    then show ?thesis using split6 [of v] True by simp
  next
    case False
    then show ?thesis using 1 split6 [of v]
      by (simp add: exc_groups.simps [of v] exc_value_snoc group_bits or.commute)
  qed
qed

text \<open>The mark of an entry's first byte is masked away by the reader.\<close>

lemma mark_bits: "((b OR 0x80) AND 0x3F :: w8) = b AND 0x3F" "((b OR 0x80) AND 0x40 :: w8) = b AND 0x40"
proof -
  have m: "bit (128 :: int) n \<longleftrightarrow> n = 7" for n
    using bit_exp_iff [of 7 n, where 'a = int] by auto
  show "((b OR 0x80) AND 0x3F :: w8) = b AND 0x3F" "((b OR 0x80) AND 0x40 :: w8) = b AND 0x40"
    by (rule bit_word_eqI; auto simp: bit_simps m)+
qed

lemma groups_low: "\<forall>g \<in> set (exc_groups v). g AND 0x3F = g"
  by (induction v rule: exc_groups.induct) (simp add: exc_groups.simps group_low)

lemma groups_nonempty: "exc_groups v \<noteq> []"
  by (simp add: exc_groups.simps)

lemma read_exc_marked:
  assumes "exc_bytes gs = b # bs" "bytes_at table pos ((b OR m) # bs)" "m \<in> {0, 0x80}"
    "\<forall>g \<in> set gs. g AND 0x3F = g"
  shows "read_exc_loop table pos acc = (exc_value acc gs, pos + length gs)"
proof (cases gs rule: exc_bytes.cases)
  case 1
  then show ?thesis using assms by simp
next
  case (2 g)
  then show ?thesis using assms
    by (auto simp: bytes_at_Cons read_exc_loop.simps [of table pos] mark_bits low_flag)
next
  case (3 g g' gs')
  then have b: "b = g OR 0x40" "bs = exc_bytes (g' # gs')" using assms(1) by auto
  have "bytes_at table (Suc pos) (exc_bytes (g' # gs'))" using assms(2) b by (simp add: bytes_at_Cons)
  from read_exc_bytes [OF this, of "push_bit 6 acc OR ucast g"]
  have "read_exc_loop table (Suc pos) (push_bit 6 acc OR ucast g)
      = (exc_value acc gs, pos + length gs)" using assms(4) 3 by simp
  moreover have "(b OR m) AND 0x3F = g" "(b OR m) AND 0x40 \<noteq> 0"
    using assms(3, 4) 3 by (auto simp: b mark_bits or_flag_low or_flag_set)
  ultimately show ?thesis
    using assms(2) by (simp add: bytes_at_Cons read_exc_loop.simps [of table pos])
qed

lemma length_push_exc: "length (push_exc_varint v m) = length (exc_groups v)"
proof -
  have "length (exc_bytes gs) = length gs" for gs by (induction gs rule: exc_bytes.induct) simp_all
  then have "length (exc_bytes (rev (exc_groups v))) = length (exc_groups v)" by simp
  then show ?thesis by (cases "exc_bytes (rev (exc_groups v))") (auto simp: push_exc_varint_def)
qed

lemma read_exc_field_push:
  assumes "bytes_at table pos (push_exc_varint v m)" "m \<in> {0, 0x80}"
  shows "read_exc_field table pos = (v, pos + length (push_exc_varint v m))"
proof -
  obtain b bs where e: "exc_bytes (rev (exc_groups v)) = b # bs"
    using length_push_exc [of v m] groups_nonempty [of v]
    by (cases "exc_bytes (rev (exc_groups v))") (auto simp: push_exc_varint_def)
  with assms(1) have "bytes_at table pos ((b OR m) # bs)" by (simp add: push_exc_varint_def)
  from read_exc_marked [OF e this assms(2), of 0] groups_low [of v] show ?thesis
    by (simp add: read_exc_field_def exc_value_groups length_push_exc)
qed

end
