(* ===== verification/Code_Loc.thy ===== *)
theory Code_Loc
  imports Code_Map Code_Varint
begin

text \<open>
  The location table (\<open>crates/weavepy-compiler/src/cpython_code.rs\<close>): the position of an
  instruction (\<open>position_at\<close>), the encoder (\<open>encode_linetable\<close> and \<open>LocationEncoder\<close>), the wire
  instructions a decoder recovers (\<open>DecodedRaw\<close>) and the decoder (\<open>decode_linetable\<close>).
  An \<open>i32\<close> is a 32-bit word read with \<open>sint\<close>; sums wrap as in release builds.
\<close>

section \<open>Positions\<close>

record Position =
  p_lineno :: w32
  p_end_lineno :: w32
  p_col :: "w32 option"
  p_end_col :: "w32 option"

definition code_firstlineno :: "'c CodeObject \<Rightarrow> w32" where
  "code_firstlineno code =
    (if co_name code = ''<module>'' then 1
     else case find (\<lambda>l. 0 < l) (co_linetable code) of Some l \<Rightarrow> l | None \<Rightarrow> 1)"

definition module_resume_col :: ColSpan where
  "module_resume_col = \<lparr>cs_end_lineno = 1, cs_col = 0, cs_end_col = 0\<rparr>"

definition module_resume_at :: "'c CodeObject \<Rightarrow> nat \<Rightarrow> bool" where
  "module_resume_at code i \<longleftrightarrow>
    co_name code = ''<module>'' \<and> get_or (co_linetable code) i 1 = 0 \<and>
    (i < length (co_coltable code) \<and> co_coltable code ! i = module_resume_col
     \<or> i < length (co_instructions code) \<and> ins_op (co_instructions code ! i) = O_Resume \<and>
       (\<forall>x \<in> set (take i (co_instructions code)).
          ins_op x \<in> {O_MakeCell, O_CopyFreeVars, O_ReturnGenerator, O_PopTop}))"

definition known_col :: "w32 \<Rightarrow> w32 option" where
  "known_col c = (if 0 \<le> sint c then Some c else None)"

definition position_at :: "'c CodeObject \<Rightarrow> nat \<Rightarrow> w32 \<Rightarrow> Position" where
  "position_at code i firstlineno =
    (if module_resume_at code i
     then \<lparr>p_lineno = 0, p_end_lineno = 1, p_col = Some 0, p_end_col = Some 0\<rparr>
     else
       let raw = get_or (co_linetable code) i firstlineno;
           line = (if raw = 0 then - 1 else raw);
           cs = get_or (co_coltable code) i colspan_default;
           end_lineno = (if cs_end_lineno cs \<noteq> 0 then cs_end_lineno cs else line)
       in \<lparr>p_lineno = line, p_end_lineno = end_lineno,
           p_col = known_col (cs_col cs), p_end_col = known_col (cs_end_col cs)\<rparr>)"

section \<open>The encoder\<close>

definition CODE_SHORT0 :: w8 where "CODE_SHORT0 = 0"
definition CODE_ONE_LINE0 :: w8 where "CODE_ONE_LINE0 = 10"
definition CODE_NO_COLUMNS :: w8 where "CODE_NO_COLUMNS = 13"
definition CODE_LONG :: w8 where "CODE_LONG = 14"
definition CODE_NONE :: w8 where "CODE_NONE = 15"

lemmas loc_codes = CODE_SHORT0_def CODE_ONE_LINE0_def CODE_NO_COLUMNS_def CODE_LONG_def CODE_NONE_def

record LocationEncoder =
  le_out :: "w8 list"
  le_lineno :: w32

definition le_push :: "w8 list \<Rightarrow> LocationEncoder \<Rightarrow> LocationEncoder" where
  "le_push bs enc = enc\<lparr>le_out := le_out enc @ bs\<rparr>"

definition first_byte :: "w8 \<Rightarrow> nat \<Rightarrow> w8" where
  "first_byte code n = 0x80 OR push_bit 3 code OR word_of_nat (n - 1)"

definition i32_max0 :: "w32 \<Rightarrow> w32" where
  "i32_max0 x = (if sint x < 0 then 0 else x)"

definition col_i32 :: "w32 option \<Rightarrow> w32" where
  "col_i32 c = (case c of None \<Rightarrow> - 1 | Some c \<Rightarrow> c)"

definition emit_long :: "Position \<Rightarrow> nat \<Rightarrow> w32 \<Rightarrow> w32 \<Rightarrow> w32 \<Rightarrow> LocationEncoder \<Rightarrow> LocationEncoder" where
  "emit_long loc isize line_delta column end_column enc =
    (le_push ([first_byte CODE_LONG isize]
       @ push_loc_svarint line_delta 0
       @ push_loc_varint (i32_max0 (p_end_lineno loc - p_lineno loc)) 0
       @ push_loc_varint (column + 1) 0
       @ push_loc_varint (end_column + 1) 0) enc)\<lparr>le_lineno := p_lineno loc\<rparr>"

definition emit_entry :: "Position \<Rightarrow> nat \<Rightarrow> LocationEncoder \<Rightarrow> LocationEncoder" where
  "emit_entry loc isize enc =
    (if sint (p_lineno loc) < 0 then le_push [first_byte CODE_NONE isize] enc
     else
       let line_delta = p_lineno loc - le_lineno enc;
           column = col_i32 (p_col loc);
           end_column = col_i32 (p_end_col loc)
       in if sint column < 0 \<or> sint end_column < 0 then
            (if p_end_lineno loc = p_lineno loc \<or> p_end_lineno loc = - 1
             then (le_push ([first_byte CODE_NO_COLUMNS isize] @ push_loc_svarint line_delta 0) enc)
                    \<lparr>le_lineno := p_lineno loc\<rparr>
             else emit_long loc isize line_delta column end_column enc)
          else if p_end_lineno loc = p_lineno loc then
            (if line_delta = 0 \<and> sint column < 80 \<and> sint (end_column - column) < 16
                \<and> sint column \<le> sint end_column
             then le_push [first_byte (CODE_SHORT0 + ucast (drop_bit 3 column)) isize,
                           push_bit 4 (ucast (column AND 7)) OR ucast (end_column - column)] enc
             else if 0 \<le> sint line_delta \<and> sint line_delta < 3 \<and> sint column < 128
                     \<and> sint end_column < 128
             then (le_push [first_byte (CODE_ONE_LINE0 + ucast line_delta) isize,
                            ucast column, ucast end_column] enc)\<lparr>le_lineno := p_lineno loc\<rparr>
             else emit_long loc isize line_delta column end_column enc)
          else emit_long loc isize line_delta column end_column enc)"

function emit_chunks :: "Position \<Rightarrow> nat \<Rightarrow> LocationEncoder \<Rightarrow> LocationEncoder" where
  "emit_chunks loc isize enc =
    (if 8 < isize then emit_chunks loc (isize - 8) (emit_entry loc 8 enc)
     else emit_entry loc isize enc)"
  by pat_completeness auto
termination by (relation "measure (\<lambda>(_, isize, _). isize)") auto

declare emit_chunks.simps [simp del]

definition emit_location :: "Position \<Rightarrow> nat \<Rightarrow> LocationEncoder \<Rightarrow> LocationEncoder" where
  "emit_location loc isize enc = (if isize = 0 then enc else emit_chunks loc isize enc)"

text \<open>
  The loop over the instructions that take space on the wire, given by their position and
  their number of code units; \<open>run\<close> and \<open>sz\<close> are the pending run.
\<close>

definition flush_run :: "Position option \<Rightarrow> nat \<Rightarrow> LocationEncoder \<Rightarrow> LocationEncoder" where
  "flush_run run sz enc = (case run of None \<Rightarrow> enc | Some loc \<Rightarrow> emit_location loc sz enc)"

fun linetable_loop ::
    "(Position \<times> nat) list \<Rightarrow> Position option \<Rightarrow> nat \<Rightarrow> LocationEncoder \<Rightarrow> LocationEncoder" where
  "linetable_loop [] run sz enc = flush_run run sz enc"
| "linetable_loop ((pos, units) # rest) run sz enc =
    (if run \<noteq> Some pos
     then linetable_loop rest (Some pos) units (flush_run run sz enc)
     else linetable_loop rest run (sz + units) enc)"

definition located_units ::
    "'c CodeObject \<Rightarrow> nat list \<Rightarrow> MappedOp list \<Rightarrow> bool list \<Rightarrow> w32 \<Rightarrow> (Position \<times> nat) list" where
  "located_units code ext mapped zero_width firstlineno =
    map (\<lambda>i. (position_at code i firstlineno, ext ! i + 1 + cache_entries (mo_op (mapped ! i))))
      (filter (\<lambda>i. \<not> zero_width ! i) [0..<length (co_instructions code)])"

definition encode_locations :: "(Position \<times> nat) list \<Rightarrow> w32 \<Rightarrow> w8 list" where
  "encode_locations items firstlineno =
    le_out (linetable_loop items None 0 \<lparr>le_out = [], le_lineno = firstlineno\<rparr>)"

definition encode_linetable ::
    "'c CodeObject \<Rightarrow> nat list \<Rightarrow> MappedOp list \<Rightarrow> bool list \<Rightarrow> w32 \<Rightarrow> w8 list" where
  "encode_linetable code ext mapped zero_width firstlineno =
    encode_locations (located_units code ext mapped zero_width firstlineno) firstlineno"

section \<open>Decoded wire instructions\<close>

record DecodedRaw =
  dr_op :: w8
  dr_arg :: w32
  dr_start :: nat
  dr_size :: nat

definition raw_expansion :: "w8 \<Rightarrow> w32 \<Rightarrow> nat" where
  "raw_expansion cp_op arg =
    (if cp_op \<in> {op_LOAD_FAST_LOAD_FAST, op_LOAD_FAST_BORROW_LOAD_FAST_BORROW,
        op_STORE_FAST_LOAD_FAST, op_STORE_FAST_STORE_FAST} then 2
     else if cp_op = op_LOAD_GLOBAL \<and> arg AND 1 \<noteq> 0 then 2
     else 1)"

definition raw_expansions :: "DecodedRaw list \<Rightarrow> nat list" where
  "raw_expansions raws = map (\<lambda>r. raw_expansion (dr_op r) (dr_arg r)) raws"

section \<open>The decoder\<close>

text \<open>
  The state of the \<open>emit\<close> closure: the lines and spans so far and the instructions not yet
  placed (the sources keep the index of the first).
\<close>

record loc_out =
  lo_lines :: "w32 list"
  lo_cols :: "ColSpan list"
  lo_raws :: "DecodedRaw list"

definition place_raw :: "w32 \<Rightarrow> ColSpan \<Rightarrow> DecodedRaw \<Rightarrow> loc_out \<Rightarrow> loc_out" where
  "place_raw line span r st =
    st\<lparr>lo_lines := lo_lines st @ replicate (raw_expansion (dr_op r) (dr_arg r)) line,
       lo_cols := lo_cols st @ replicate (raw_expansion (dr_op r) (dr_arg r)) span\<rparr>"

function emit_lines :: "w32 \<Rightarrow> ColSpan \<Rightarrow> nat \<Rightarrow> loc_out \<Rightarrow> loc_out" where
  "emit_lines line span end_unit st =
    (case lo_raws st of
       [] \<Rightarrow> st
     | r # rest \<Rightarrow>
        if dr_start r < end_unit
        then emit_lines line span end_unit (place_raw line span r (st\<lparr>lo_raws := rest\<rparr>))
        else st)"
  by pat_completeness auto
termination
  by (relation "measure (\<lambda>(_, _, _, st). length (lo_raws st))") (auto simp: place_raw_def)

declare emit_lines.simps [simp del]

text \<open>One entry after its first byte: the line delta, the span and the next position.\<close>

definition read_long :: "w8 list \<Rightarrow> nat \<Rightarrow> w32 \<Rightarrow> w32 \<times> ColSpan \<times> nat" where
  "read_long table pos line =
    (let (d, pos1) = read_loc_svarint table pos;
         (end_line_delta, pos2) = read_loc_varint table pos1;
         (col, pos3) = read_loc_varint table pos2;
         (end_col, pos4) = read_loc_varint table pos3
     in (d, \<lparr>cs_end_lineno = i32_max0 (line + d + end_line_delta),
             cs_col = col - 1, cs_end_col = end_col - 1\<rparr>, pos4))"

definition read_one_line :: "w8 \<Rightarrow> w8 list \<Rightarrow> nat \<Rightarrow> w32 \<Rightarrow> w32 \<times> ColSpan \<times> nat" where
  "read_one_line code table pos line =
    (let d = ucast code - 10
     in (d, \<lparr>cs_end_lineno = i32_max0 (line + d),
             cs_col = ucast (get_or table pos 0 AND 0x7F),
             cs_end_col = ucast (get_or table (pos + 1) 0 AND 0x7F)\<rparr>, pos + 2))"

definition read_short :: "w8 \<Rightarrow> w8 list \<Rightarrow> nat \<Rightarrow> w32 \<Rightarrow> w32 \<times> ColSpan \<times> nat" where
  "read_short code table pos line =
    (let b = get_or table pos 0; col = push_bit 3 (ucast code) OR ucast (drop_bit 4 b)
     in (0, \<lparr>cs_end_lineno = i32_max0 line, cs_col = col,
             cs_end_col = col + ucast (b AND 0x0F)\<rparr>, pos + 1))"

definition read_entry :: "w8 \<Rightarrow> w8 list \<Rightarrow> nat \<Rightarrow> w32 \<Rightarrow> w32 \<times> ColSpan \<times> nat" where
  "read_entry code table pos line =
    (if code = 13 then (let (d, pos1) = read_loc_svarint table pos in (d, colspan_default, pos1))
     else if code = 14 then read_long table pos line
     else if 10 \<le> code \<and> code \<le> 12 then read_one_line code table pos line
     else read_short code table pos line)"

lemma read_loc_loop_ge: "pos \<le> snd (read_loc_loop table pos val shift)"
  by (induction table pos val shift rule: read_loc_loop.induct)
    (subst read_loc_loop.simps, auto simp: Let_def intro: Suc_leD)

lemma read_varint_ge: "pos \<le> snd (read_loc_varint table pos)" "pos \<le> snd (read_loc_svarint table pos)"
  using read_loc_loop_ge [of pos table 0 0]
  by (auto simp: read_loc_varint_def read_loc_svarint_def split: prod.splits)

lemma read_entry_ge: "read_entry code table pos line = (d, span, pos') \<Longrightarrow> pos \<le> pos'"
  using read_varint_ge
  by (auto simp: read_entry_def read_long_def read_one_line_def read_short_def Let_def
      split: prod.splits if_splits) (metis le_trans snd_conv)+

text \<open>\<open>usize::MAX\<close>: every unit lies below it.\<close>

definition USIZE_MAX :: nat where "USIZE_MAX = 18446744073709551615"

function linetable_read ::
    "w8 list \<Rightarrow> w32 \<Rightarrow> nat \<Rightarrow> nat \<Rightarrow> w32 \<Rightarrow> loc_out \<Rightarrow> loc_out" where
  "linetable_read table firstlineno unit pos line st =
    (if length table \<le> pos then emit_lines firstlineno colspan_default USIZE_MAX st
     else
       let first = table ! pos
       in if first AND 0x80 = 0 then emit_lines firstlineno colspan_default USIZE_MAX st
          else
            let code = drop_bit 3 first AND 0x0F;
                unit' = unit + (unat (first AND 0x07) + 1)
            in if code = 15
               then linetable_read table firstlineno unit' (Suc pos) line
                      (emit_lines 0 colspan_default unit' st)
               else
                 (case read_entry code table (Suc pos) line of
                    (delta, span, pos') \<Rightarrow>
                      linetable_read table firstlineno unit' pos' (line + delta)
                        (emit_lines (i32_max0 (line + delta)) span unit' st)))"
  by pat_completeness auto
termination
  by (relation "measure (\<lambda>(table, _, _, pos, _, _). length table - pos)")
    (auto dest!: sym [of "(_, _, _)"] read_entry_ge)

declare linetable_read.simps [simp del]

definition decode_linetable ::
    "w8 list \<Rightarrow> DecodedRaw list \<Rightarrow> w32 \<Rightarrow> w32 list \<times> ColSpan list" where
  "decode_linetable table raws firstlineno =
    (let st = linetable_read table firstlineno 0 0 firstlineno
                \<lparr>lo_lines = [], lo_cols = [], lo_raws = raws\<rparr>
     in (lo_lines st, lo_cols st))"

end
