(* ===== verification/Code_Exc.thy ===== *)
theory Code_Exc
  imports Code_Loc
begin

text \<open>
  The exception table (\<open>crates/weavepy-compiler/src/cpython_code.rs\<close>): the encoder paints an
  owner on every code unit and writes the runs of equal owners; the decoder reads the
  entries back and maps their code units to instruction indices.
\<close>

section \<open>The encoder\<close>

text \<open>The owner of a unit: target unit, depth, and the \<open>lasti\<close> flag.\<close>

type_synonym exc_owner = "w32 \<times> w32 \<times> bool"

text \<open>\<open>for slot in &mut owner[from..to] { *slot = Some(k) }\<close>; \<open>None\<close> is the slice panic.\<close>

definition paint_slice :: "nat \<Rightarrow> nat \<Rightarrow> exc_owner \<Rightarrow> exc_owner option list \<Rightarrow> exc_owner option list option" where
  "paint_slice lo hi k owner =
    (if lo \<le> hi \<and> hi \<le> length owner
     then Some (take lo owner @ replicate (hi - lo) (Some k) @ drop hi owner)
     else None)"

text \<open>\<open>starts[i]\<close> and \<open>starts[i + 1]\<close> panic past the end too.\<close>

fun paint_instrs :: "nat list \<Rightarrow> exc_owner \<Rightarrow> nat list \<Rightarrow> exc_owner option list \<Rightarrow> exc_owner option list option" where
  "paint_instrs starts k [] owner = Some owner"
| "paint_instrs starts k (i # is) owner =
    (if length starts \<le> Suc i then None
     else case paint_slice (starts ! i) (starts ! Suc i) k owner of
       None \<Rightarrow> None
     | Some owner' \<Rightarrow> paint_instrs starts k is owner')"

definition handler_owner :: "nat list \<Rightarrow> ExcHandler \<Rightarrow> exc_owner" where
  "handler_owner starts h =
    (word_of_nat (get_or starts (unat (eh_handler h)) 0), eh_depth h, eh_push_lasti h)"

fun paint_handlers ::
    "nat list \<Rightarrow> nat \<Rightarrow> ExcHandler list \<Rightarrow> exc_owner option list \<Rightarrow> exc_owner option list option" where
  "paint_handlers starts n [] owner = Some owner"
| "paint_handlers starts n (h # hs) owner =
    (case paint_instrs starts (handler_owner starts h)
            [unat (eh_start h)..<min (unat (eh_end h)) n] owner of
       None \<Rightarrow> None
     | Some owner' \<Rightarrow> paint_handlers starts n hs owner')"

definition exc_entry :: "nat \<Rightarrow> nat \<Rightarrow> exc_owner \<Rightarrow> w8 list" where
  "exc_entry start len k =
    (case k of (target, depth, lasti) \<Rightarrow>
       push_exc_varint (word_of_nat start) 0x80
       @ push_exc_varint (word_of_nat len) 0
       @ push_exc_varint target 0
       @ push_exc_varint (push_bit 1 depth OR (if lasti then 1 else 0)) 0)"

text \<open>\<open>while u < total && owner[u] == Some(k) { u += 1 }\<close>.\<close>

definition run_end :: "exc_owner option list \<Rightarrow> exc_owner \<Rightarrow> nat \<Rightarrow> nat" where
  "run_end owner k u = u + length (takeWhile (\<lambda>x. x = Some k) (drop u owner))"

lemma run_end_gt: "u < length owner \<Longrightarrow> owner ! u = Some k \<Longrightarrow> u < run_end owner k u"
  by (simp add: run_end_def flip: Cons_nth_drop_Suc)

function exc_runs :: "exc_owner option list \<Rightarrow> nat \<Rightarrow> (nat \<times> nat \<times> exc_owner) list" where
  "exc_runs owner u =
    (if length owner \<le> u then []
     else case owner ! u of
       None \<Rightarrow> exc_runs owner (Suc u)
     | Some k \<Rightarrow> (u, run_end owner k u - u, k) # exc_runs owner (run_end owner k u))"
  by pat_completeness auto
termination
proof (relation "measure (\<lambda>(owner, u). length owner - u)", goal_cases)
  case (3 owner u k)
  then have "u < run_end owner k u" by (auto intro: run_end_gt)
  then show ?case using 3 by (simp add: diff_less_mono2)
qed auto

declare exc_runs.simps [simp del]

definition encode_owners :: "exc_owner option list \<Rightarrow> w8 list" where
  "encode_owners owner = concat (map (\<lambda>(start, len, k). exc_entry start len k) (exc_runs owner 0))"

definition unit_owners :: "'c CodeObject \<Rightarrow> nat list \<Rightarrow> exc_owner option list option" where
  "unit_owners code starts =
    (let n = length (co_instructions code)
     in paint_handlers starts n (co_exception_table code) (replicate (get_or starts n 0) None))"

definition encode_exception_table :: "'c CodeObject \<Rightarrow> nat list \<Rightarrow> w8 list option" where
  "encode_exception_table code starts = map_option encode_owners (unit_owners code starts)"

section \<open>The decoder\<close>

text \<open>
  \<open>raws.binary_search_by_key(&unit, |r| r.start_unit).unwrap_or(raws.len())\<close>. The starts
  increase strictly (lemma \<open>decode_raws_sorted\<close> of \<open>Code_Wire\<close>), where the search finds the index
  of the one instruction that starts at the unit, if there is one.
\<close>

definition raw_at_unit :: "DecodedRaw list \<Rightarrow> nat \<Rightarrow> nat" where
  "raw_at_unit raws unit =
    (case position_of (\<lambda>r. dr_start r = unit) raws of Some i \<Rightarrow> i | None \<Rightarrow> length raws)"

fun first_from :: "nat \<Rightarrow> nat list \<Rightarrow> nat list" where
  "first_from cur [] = [cur]"
| "first_from cur (e # es) = cur # first_from (cur + e) es"

definition raw_first_instr :: "nat list \<Rightarrow> nat list" where
  "raw_first_instr expansions = first_from 0 expansions"

definition map_unit :: "DecodedRaw list \<Rightarrow> nat \<Rightarrow> w32" where
  "map_unit raws unit =
    (let first = raw_first_instr (raw_expansions raws)
     in word_of_nat (get_or first (raw_at_unit raws unit) (last first)))"

definition decode_handler :: "DecodedRaw list \<Rightarrow> w32 \<Rightarrow> w32 \<Rightarrow> w32 \<Rightarrow> w32 \<Rightarrow> ExcHandler" where
  "decode_handler raws start_unit len target dl =
    \<lparr>eh_start = map_unit raws (unat start_unit),
     eh_end = map_unit raws (unat start_unit + unat len),
     eh_handler = map_unit raws (unat target),
     eh_depth = drop_bit 1 dl,
     eh_push_lasti = (dl AND 1 \<noteq> 0)\<rparr>"

lemma read_exc_loop_ge: "pos \<le> snd (read_exc_loop table pos val)"
  by (induction table pos val rule: read_exc_loop.induct)
    (subst read_exc_loop.simps, auto simp: Let_def intro: Suc_leD)

lemma read_exc_field_gt: "pos < length table \<Longrightarrow> pos < snd (read_exc_field table pos)"
  using read_exc_loop_ge [of "Suc pos" table]
  by (auto simp: read_exc_field_def read_exc_loop.simps [of table pos] Let_def Suc_le_eq)

lemma read_exc_field_ge: "pos \<le> snd (read_exc_field table pos)"
  by (simp add: read_exc_field_def read_exc_loop_ge)

function exc_entries :: "w8 list \<Rightarrow> DecodedRaw list \<Rightarrow> nat \<Rightarrow> ExcHandler list" where
  "exc_entries table raws pos =
    (if length table \<le> pos then []
     else
       case read_exc_field table pos of (start_unit, pos1) \<Rightarrow>
         if length table \<le> pos1 then []
         else
           case read_exc_field table pos1 of (len, pos2) \<Rightarrow>
           case read_exc_field table pos2 of (target, pos3) \<Rightarrow>
           case read_exc_field table pos3 of (dl, pos4) \<Rightarrow>
             let h = decode_handler raws start_unit len target dl
             in (if eh_start h < eh_end h then [h] else []) @ exc_entries table raws pos4)"
  by pat_completeness auto
termination
proof (relation "measure (\<lambda>(table, _, pos). length table - pos)")
  fix table :: "w8 list" and pos start_unit pos1 len pos2 target pos3 dl pos4
    and raws :: "DecodedRaw list"
  assume "\<not> length table \<le> pos" "(start_unit, pos1) = read_exc_field table pos"
    "(len, pos2) = read_exc_field table pos1" "(target, pos3) = read_exc_field table pos2"
    "(dl, pos4) = read_exc_field table pos3"
  then have "pos < pos1" "pos1 \<le> pos2" "pos2 \<le> pos3" "pos3 \<le> pos4"
    using read_exc_field_gt [of pos table] read_exc_field_ge [of _ table] by (metis not_le snd_conv)+
  then have "pos < pos4" by simp
  with \<open>\<not> length table \<le> pos\<close>
  show "((table, raws, pos4), table, raws, pos) \<in> measure (\<lambda>(table, _, pos). length table - pos)"
    by simp
qed simp

declare exc_entries.simps [simp del]

definition decode_exception_table :: "w8 list \<Rightarrow> DecodedRaw list \<Rightarrow> ExcHandler list" where
  "decode_exception_table table raws = exc_entries table raws 0"

end
