(* ===== verification/Code_Stack.thy ===== *)
theory Code_Stack
  imports Code_Map
begin

text \<open>
  Operand-stack effects (\<open>crates/weavepy-compiler/src/cpython_code.rs\<close>): the pops and
  pushes of a wire opcode (\<open>cp_stack_shape\<close>), those of an instruction through its wire
  form (\<open>stack_shape\<close>), and the fallthrough and jump effects the depth analysis uses
  (\<open>stack_effects\<close>). The effects are \<open>i64\<close>; the sums of the sources stay far inside their
  range, so they are integers here.
\<close>

section \<open>The wire opcodes\<close>

definition cp_stack_shape :: "w8 \<Rightarrow> w32 \<Rightarrow> nat \<times> nat" where
  "cp_stack_shape cp_op arg =
    (let a = unat arg in
     if cp_op = op_BINARY_SLICE then (3, 1)
     else if cp_op = op_BUILD_TEMPLATE then (2, 1)
     else if cp_op = op_CALL_FUNCTION_EX then (4, 1)
     else if cp_op \<in> {op_CHECK_EG_MATCH, op_CHECK_EXC_MATCH} then (2, 2)
     else if cp_op = op_CLEANUP_THROW then (3, 2)
     else if cp_op = op_DELETE_SUBSCR then (2, 0)
     else if cp_op = op_END_FOR then (1, 0)
     else if cp_op = op_END_SEND then (2, 1)
     else if cp_op = op_FORMAT_SIMPLE then (1, 1)
     else if cp_op = op_FORMAT_WITH_SPEC then (2, 1)
     else if cp_op \<in> {op_GET_AITER, op_GET_ITER, op_GET_YIELD_FROM_ITER, op_GET_AWAITABLE}
            then (1, 1)
     else if cp_op \<in> {op_GET_ANEXT, op_GET_LEN, op_MATCH_MAPPING, op_MATCH_SEQUENCE} then
            (1, 2)
     else if cp_op \<in> {op_LOAD_BUILD_CLASS, op_LOAD_LOCALS, op_PUSH_NULL,
            op_RETURN_GENERATOR} then (0, 1)
     else if cp_op = op_MAKE_FUNCTION then (1, 1)
     else if cp_op = op_MATCH_KEYS then (2, 3)
     else if cp_op \<in> {op_NOP, op_NOT_TAKEN, op_SETUP_ANNOTATIONS, op_RESUME,
            op_EXTENDED_ARG} then (0, 0)
     else if cp_op \<in> {op_POP_EXCEPT, op_POP_ITER, op_POP_TOP} then (1, 0)
     else if cp_op = op_PUSH_EXC_INFO then (1, 2)
     else if cp_op = op_RETURN_VALUE then (1, 1)
     else if cp_op = op_STORE_SLICE then (4, 0)
     else if cp_op = op_STORE_SUBSCR then (3, 0)
     else if cp_op \<in> {op_TO_BOOL, op_UNARY_INVERT, op_UNARY_NEGATIVE, op_UNARY_NOT} then (1,
            1)
     else if cp_op = op_WITH_EXCEPT_START then (5, 6)
     else if cp_op = op_BINARY_OP then (2, 1)
     else if cp_op = op_BUILD_INTERPOLATION then (2 + (a AND 1), 1)
     else if cp_op \<in> {op_BUILD_LIST, op_BUILD_SET, op_BUILD_SLICE, op_BUILD_STRING,
            op_BUILD_TUPLE} then (a, 1)
     else if cp_op = op_BUILD_MAP then (a * 2, 1)
     else if cp_op = op_CALL then (2 + a, 1)
     else if cp_op = op_CALL_INTRINSIC_1 then (1, 1)
     else if cp_op = op_CALL_INTRINSIC_2 then (2, 1)
     else if cp_op = op_CALL_KW then (3 + a, 1)
     else if cp_op \<in> {op_COMPARE_OP, op_CONTAINS_OP, op_IS_OP} then (2, 1)
     else if cp_op = op_CONVERT_VALUE then (1, 1)
     else if cp_op = op_COPY then (max a 1, max a 1 + 1)
     else if cp_op \<in> {op_COPY_FREE_VARS, op_MAKE_CELL} then (0, 0)
     else if cp_op = op_DELETE_ATTR then (1, 0)
     else if cp_op \<in> {op_DELETE_DEREF, op_DELETE_FAST, op_DELETE_GLOBAL, op_DELETE_NAME}
            then (0, 0)
     else if cp_op = op_DICT_MERGE then (4 + a, 3 + a)
     else if cp_op \<in> {op_DICT_UPDATE, op_LIST_APPEND, op_LIST_EXTEND, op_SET_ADD,
            op_SET_UPDATE} then (1 + a, a)
     else if cp_op = op_END_ASYNC_FOR then (2, 0)
     else if cp_op = op_FOR_ITER then (1, 2)
     else if cp_op = op_IMPORT_FROM then (1, 2)
     else if cp_op = op_IMPORT_NAME then (2, 1)
     else if cp_op \<in> {op_JUMP_BACKWARD, op_JUMP_BACKWARD_NO_INTERRUPT, op_JUMP_FORWARD} then
            (0, 0)
     else if cp_op = op_LOAD_ATTR then (1, 1 + (a AND 1))
     else if cp_op \<in> {op_LOAD_COMMON_CONSTANT, op_LOAD_CONST, op_LOAD_DEREF, op_LOAD_FAST,
            op_LOAD_FAST_AND_CLEAR, op_LOAD_FAST_BORROW, op_LOAD_FAST_CHECK, op_LOAD_NAME,
            op_LOAD_SMALL_INT} then (0, 1)
     else if cp_op \<in> {op_LOAD_FAST_BORROW_LOAD_FAST_BORROW, op_LOAD_FAST_LOAD_FAST} then (0,
            2)
     else if cp_op \<in> {op_LOAD_FROM_DICT_OR_DEREF, op_LOAD_FROM_DICT_OR_GLOBALS} then (1, 1)
     else if cp_op = op_LOAD_GLOBAL then (0, 1 + (a AND 1))
     else if cp_op = op_LOAD_SPECIAL then (1, 2)
     else if cp_op = op_LOAD_SUPER_ATTR then (3, 1 + (a AND 1))
     else if cp_op = op_MAP_ADD then (2 + a, a)
     else if cp_op = op_MATCH_CLASS then (3, 1)
     else if cp_op \<in> {op_POP_JUMP_IF_FALSE, op_POP_JUMP_IF_NONE, op_POP_JUMP_IF_NOT_NONE,
            op_POP_JUMP_IF_TRUE} then (1, 0)
     else if cp_op = op_RAISE_VARARGS then (a, 0)
     else if cp_op = op_RERAISE then (1 + a, a)
     else if cp_op = op_SEND then (2, 2)
     else if cp_op = op_SET_FUNCTION_ATTRIBUTE then (2, 1)
     else if cp_op = op_STORE_ATTR then (2, 0)
     else if cp_op \<in> {op_STORE_DEREF, op_STORE_FAST, op_STORE_GLOBAL, op_STORE_NAME} then
            (1, 0)
     else if cp_op = op_STORE_FAST_LOAD_FAST then (1, 1)
     else if cp_op = op_STORE_FAST_STORE_FAST then (2, 0)
     else if cp_op = op_SWAP then (max a 2, max a 2)
     else if cp_op = op_UNPACK_EX then (1, 1 + (a AND 0xFF) + drop_bit 8 a)
     else if cp_op = op_UNPACK_SEQUENCE then (1, a)
     else if cp_op = op_YIELD_VALUE then (1, 1)
     else (0, 0))"

text \<open>\<open>None\<close> is the panic of \<open>map_to_cpython\<close>, reached by no pseudo-operation listed.\<close>

definition stack_shape :: "OpCode \<Rightarrow> w32 \<Rightarrow> (nat \<times> nat) option" where
  "stack_shape opc arg =
    (case opc of
        O_Jump \<Rightarrow> Some (0, 0)
      | O_JumpNoInterrupt \<Rightarrow> Some (0, 0)
      | O_PopBlock \<Rightarrow> Some (0, 0)
      | O_Nop \<Rightarrow> Some (0, 0)
      | O_JumpIfFalse \<Rightarrow> Some (1, 1)
      | O_JumpIfTrue \<Rightarrow> Some (1, 1)
      | O_SetupFinally \<Rightarrow> Some (0, 1)
      | O_SetupWith \<Rightarrow> Some (0, 1)
      | O_SetupCleanup \<Rightarrow> Some (0, 2)
      | O_StoreFastMaybeNull \<Rightarrow> Some (1, 0)
      | O_PrintExpr \<Rightarrow> Some (1, 0)
      | _ \<Rightarrow> map_option (\<lambda>m. cp_stack_shape (mo_op m) (mo_arg m)) (map_to_cpython (Instr opc arg) []))"

section \<open>The instructions\<close>

definition count_ones :: "w32 \<Rightarrow> nat" where
  "count_ones w = length (filter (bit w) [0..<32])"

definition fall_effect :: "OpCode \<Rightarrow> w32 \<Rightarrow> int" where
  "fall_effect opc arg =
    (let a = int (unat arg) in
     case opc of
        O_SetupFinally \<Rightarrow> 0
      | O_SetupCleanup \<Rightarrow> 0
      | O_SetupWith \<Rightarrow> 0
      | O_PopBlock \<Rightarrow> 0
      | O_Jump \<Rightarrow> 0
      | O_JumpNoInterrupt \<Rightarrow> 0
      | O_JumpIfFalse \<Rightarrow> 0
      | O_JumpIfTrue \<Rightarrow> 0
      | O_StoreFastLoadFast \<Rightarrow> 0
      | O_LoadGlobalPushNull \<Rightarrow> 2
      | O_LoadFastLoadFast \<Rightarrow> 2
      | O_LoadFastBorrowLoadFastBorrow \<Rightarrow> 2
      | O_StoreFastStoreFast \<Rightarrow> - 2
      | O_StoreFastMaybeNull \<Rightarrow> - 1
      | O_LoadConst \<Rightarrow> 1
      | O_LoadName \<Rightarrow> 1
      | O_LoadGlobal \<Rightarrow> 1
      | O_LoadFast \<Rightarrow> 1
      | O_LoadFastBorrow \<Rightarrow> 1
      | O_LoadFastCheck \<Rightarrow> 1
      | O_LoadFastAndClear \<Rightarrow> 1
      | O_LoadDeref \<Rightarrow> 1
      | O_LoadClosure \<Rightarrow> 1
      | O_LoadClosureBorrow \<Rightarrow> 1
      | O_LoadLocals \<Rightarrow> 1
      | O_LoadBuildClass \<Rightarrow> 1
      | O_LoadCommonConstant \<Rightarrow> 1
      | O_LoadSmallInt \<Rightarrow> 1
      | O_LoadSpecial \<Rightarrow> 1
      | O_PushNull \<Rightarrow> 1
      | O_LoadMethodAttr \<Rightarrow> 1
      | O_CopyTop \<Rightarrow> 1
      | O_MatchSequence \<Rightarrow> 1
      | O_MatchMapping \<Rightarrow> 1
      | O_MatchKeys \<Rightarrow> 1
      | O_GetLen \<Rightarrow> 1
      | O_GetAnext \<Rightarrow> 1
      | O_ImportFrom \<Rightarrow> 1
      | O_WithExceptStart \<Rightarrow> 1
      | O_ReturnGenerator \<Rightarrow> 1
      | O_PushExcInfo \<Rightarrow> 1
      | O_PopTop \<Rightarrow> - 1
      | O_PopIter \<Rightarrow> - 1
      | O_StoreName \<Rightarrow> - 1
      | O_StoreGlobal \<Rightarrow> - 1
      | O_StoreFast \<Rightarrow> - 1
      | O_StoreDeref \<Rightarrow> - 1
      | O_ReturnValue \<Rightarrow> - 1
      | O_PopJumpIfFalse \<Rightarrow> - 1
      | O_PopJumpIfTrue \<Rightarrow> - 1
      | O_PopJumpIfNone \<Rightarrow> - 1
      | O_PopJumpIfNotNone \<Rightarrow> - 1
      | O_PrintExpr \<Rightarrow> - 1
      | O_ImportName \<Rightarrow> - 1
      | O_DeleteAttr \<Rightarrow> - 1
      | O_BinaryOp \<Rightarrow> - 1
      | O_CompareOp \<Rightarrow> - 1
      | O_IsOp \<Rightarrow> - 1
      | O_ContainsOp \<Rightarrow> - 1
      | O_BinarySubscr \<Rightarrow> - 1
      | O_ListAppend \<Rightarrow> - 1
      | O_SetAdd \<Rightarrow> - 1
      | O_SetUpdate \<Rightarrow> - 1
      | O_ListExtend \<Rightarrow> - 1
      | O_DictUpdate \<Rightarrow> - 1
      | O_EndSend \<Rightarrow> - 1
      | O_SetFunctionAttribute \<Rightarrow> - 1
      | O_PopExcept \<Rightarrow> - 1
      | O_CleanupThrow \<Rightarrow> - 1
      | O_PrepReraiseStar \<Rightarrow> - 1
      | O_CallIntrinsic2 \<Rightarrow> - 1
      | O_StoreAttr \<Rightarrow> - 2
      | O_MatchClass \<Rightarrow> - 2
      | O_DeleteSubscr \<Rightarrow> - 2
      | O_MapAdd \<Rightarrow> - 2
      | O_EndAsyncFor \<Rightarrow> - 2
      | O_BuildSlice \<Rightarrow> 1 - a
      | O_BinarySlice \<Rightarrow> - 2
      | O_StoreSlice \<Rightarrow> - 4
      | O_LoadSuperAttr \<Rightarrow> (1 + (a AND 1)) - 3
      | O_StoreSubscr \<Rightarrow> - 3
      | O_Call \<Rightarrow> - a - 1
      | O_CallSelf \<Rightarrow> - a
      | O_CallKw \<Rightarrow> - a - 2
      | O_CallEx \<Rightarrow> - 3
      | O_MakeFunction \<Rightarrow> - int (count_ones arg)
      | O_BuildList \<Rightarrow> 1 - a
      | O_BuildTuple \<Rightarrow> 1 - a
      | O_BuildSet \<Rightarrow> 1 - a
      | O_BuildString \<Rightarrow> 1 - a
      | O_BuildMap \<Rightarrow> 1 - 2 * a
      | O_UnpackSequence \<Rightarrow> a - 1
      | O_UnpackEx \<Rightarrow> int (unat (drop_bit 8 arg AND 0xFF)) + int (unat (arg AND 0xFF))
      | O_FormatValue \<Rightarrow> (if arg AND 0x04 \<noteq> 0 then - 1 else 0)
      | O_BuildInterpolation \<Rightarrow> (if arg AND 1 \<noteq> 0 then - 2 else - 1)
      | O_BuildTemplate \<Rightarrow> - 1
      | O_RaiseVarargs \<Rightarrow> - a
      | O_Reraise \<Rightarrow> - 1
      | O_ForIter \<Rightarrow> 1
      | O_EndFor \<Rightarrow> - 1
      | _ \<Rightarrow> 0)"

definition jump_effect :: "OpCode \<Rightarrow> int" where
  "jump_effect opc =
    (case opc of
        O_PopJumpIfFalse \<Rightarrow> - 1
      | O_PopJumpIfTrue \<Rightarrow> - 1
      | O_PopJumpIfNone \<Rightarrow> - 1
      | O_PopJumpIfNotNone \<Rightarrow> - 1
      | O_ForIter \<Rightarrow> 1
      | O_Send \<Rightarrow> 0
      | O_SetupFinally \<Rightarrow> 1
      | O_SetupWith \<Rightarrow> 1
      | O_SetupCleanup \<Rightarrow> 2
      | _ \<Rightarrow> 0)"

definition stack_effects :: "OpCode \<Rightarrow> w32 \<Rightarrow> int \<times> int" where
  "stack_effects opc arg = (fall_effect opc arg, jump_effect opc)"

text \<open>\<open>CallKw\<close> also pops one value for each name of the tuple loaded just before it.\<close>

definition kw_names :: "'c CodeObject \<Rightarrow> nat \<Rightarrow> nat" where
  "kw_names code i =
    (if 0 < i \<and> ins_op (co_instructions code ! (i - 1)) = O_LoadConst
     then (case tuple_len (co_constants code) (unat (ins_arg (co_instructions code ! (i - 1)))) of
             Some n \<Rightarrow> n | None \<Rightarrow> 0)
     else 0)"

definition stack_effects_at :: "'c CodeObject \<Rightarrow> nat \<Rightarrow> instruction \<Rightarrow> int \<times> int" where
  "stack_effects_at code i ins =
    (let (effect, jump) = stack_effects (ins_op ins) (ins_arg ins)
     in if ins_op ins = O_CallKw then (effect - int (kw_names code i), jump) else (effect, jump))"

end
