(* ===== verification/Code_Depth.thy ===== *)
theory Code_Depth
  imports Code_Stack
begin

text \<open>
  The operand-stack depth analysis of \<open>crates/weavepy-compiler/src/cpython_code.rs\<close>:
  \<open>compute_stacksize\<close>, \<open>compute_startdepths\<close> and the linear estimate the first falls back on.
  Both walk the instruction stream with a worklist. The sources repeat the walk in the
  two functions, the first also tracking the deepest point; here it is one definition
  that tracks it, and \<open>compute_startdepths\<close> ignores it. The worklist is a stack whose top
  is the head of the list. The budget of the sources is the fuel: when it runs out the
  walk stops and says so.
\<close>

section \<open>The walk\<close>

record walk =
  wk_depths :: "int list"
  wk_list :: "nat list"
  wk_max :: int

definition push_depth :: "nat \<Rightarrow> int \<Rightarrow> walk \<Rightarrow> walk" where
  "push_depth i depth st =
    (if i < length (wk_depths st) \<and> wk_depths st ! i < depth
     then st\<lparr>wk_depths := (wk_depths st)[i := depth], wk_list := i # wk_list st\<rparr>
     else st)"

definition raise_max :: "int \<Rightarrow> walk \<Rightarrow> walk" where
  "raise_max d st = st\<lparr>wk_max := max (wk_max st) d\<rparr>"

definition ends_block :: "OpCode \<Rightarrow> bool" where
  "ends_block opc \<longleftrightarrow> opc \<in> {O_ReturnValue, O_RaiseVarargs, O_Reraise}"

definition branches :: "OpCode \<Rightarrow> bool" where
  "branches opc \<longleftrightarrow> opc \<in> {O_PopJumpIfFalse, O_PopJumpIfTrue, O_PopJumpIfNone,
     O_PopJumpIfNotNone, O_ForIter, O_Send}"

definition forward_target :: "nat \<Rightarrow> w32 \<Rightarrow> nat" where
  "forward_target i arg = unat (word_of_nat i + 1 + arg)"

definition backward_target :: "nat \<Rightarrow> w32 \<Rightarrow> nat" where
  "backward_target i arg = unat (sat_sub (word_of_nat i + 1) arg)"

text \<open>The inner loop: one run of fallthrough from \<open>i\<close>, entered at \<open>depth\<close>.\<close>

function walk_block :: "'c CodeObject \<Rightarrow> nat \<Rightarrow> int \<Rightarrow> walk \<Rightarrow> walk" where
  "walk_block code i depth st =
    (if length (co_instructions code) \<le> i then st
     else
       let ins = co_instructions code ! i;
           (effect, jump) = stack_effects_at code i ins
       in if ins_op ins = O_JumpForward then push_depth (forward_target i (ins_arg ins)) depth st
          else if ins_op ins = O_JumpBackward then push_depth (backward_target i (ins_arg ins)) depth st
          else if ends_block (ins_op ins) then st
          else
            let st1 = (if branches (ins_op ins)
                       then push_depth (forward_target i (ins_arg ins)) (depth + jump)
                              (raise_max (depth + jump) st)
                       else st);
                st2 = raise_max (depth + effect) st1;
                depth' = max 0 (depth + effect)
            in if length (co_instructions code) \<le> Suc i then st2
               else if depth' \<le> wk_depths st2 ! Suc i then st2
               else walk_block code (Suc i) depth'
                      (st2\<lparr>wk_depths := (wk_depths st2)[Suc i := depth']\<rparr>))"
  by pat_completeness auto
termination
  by (relation "measure (\<lambda>(code, i, _, _). length (co_instructions code) - i)") auto

declare walk_block.simps [simp del]

text \<open>The outer loop; \<open>False\<close> says that the budget ran out with work left.\<close>

fun drain :: "'c CodeObject \<Rightarrow> nat \<Rightarrow> walk \<Rightarrow> bool \<times> nat \<times> walk" where
  "drain code budget st =
    (case wk_list st of
       [] \<Rightarrow> (True, budget, st)
     | start # rest \<Rightarrow>
        (case budget of
           0 \<Rightarrow> (False, 0, st)
         | Suc b \<Rightarrow> drain code b (walk_block code start (wk_depths st ! start) (st\<lparr>wk_list := rest\<rparr>))))"

declare drain.simps [simp del]

definition walk_budget :: "'c CodeObject \<Rightarrow> nat" where
  "walk_budget code = 64 * length (co_instructions code) + 1024"

definition walk_start :: "'c CodeObject \<Rightarrow> walk" where
  "walk_start code = push_depth 0 0
     \<lparr>wk_depths = replicate (length (co_instructions code)) (- 1), wk_list = [], wk_max = 1\<rparr>"

definition anchored :: "ExcHandler \<Rightarrow> bool" where
  "anchored h \<longleftrightarrow> eh_depth h AND HANDLER_DEPTH_ANCHOR_FLAG \<noteq> 0"

definition handler_entry :: "ExcHandler \<Rightarrow> int" where
  "handler_entry h = int (unat (eh_depth h)) + 1 + (if eh_push_lasti h then 1 else 0)"

definition seed_handler :: "ExcHandler \<Rightarrow> walk \<Rightarrow> walk" where
  "seed_handler h st =
    (if anchored h then st
     else push_depth (unat (eh_handler h)) (handler_entry h) (raise_max (handler_entry h) st))"

section \<open>The stack size\<close>

fun linear_scan :: "'c CodeObject \<Rightarrow> nat \<Rightarrow> instruction list \<Rightarrow> int \<Rightarrow> int \<Rightarrow> int" where
  "linear_scan code i [] depth mx = mx"
| "linear_scan code i (ins # rest) depth mx =
    (let depth' = max 0 (depth + fst (stack_effects_at code i ins))
     in linear_scan code (Suc i) rest depth' (max mx depth'))"

text \<open>\<open>u32::try_from(d).unwrap_or(u32::MAX)\<close>.\<close>

definition u32_of_depth :: "int \<Rightarrow> w32" where
  "u32_of_depth d = (if 0 \<le> d \<and> d < 2 ^ 32 then word_of_int d else - 1)"

definition linear_stacksize_estimate :: "'c CodeObject \<Rightarrow> w32" where
  "linear_stacksize_estimate code = u32_of_depth (linear_scan code 0 (co_instructions code) 0 1)"

definition stack_walk :: "'c CodeObject \<Rightarrow> bool \<times> nat \<times> walk" where
  "stack_walk code =
    drain code (walk_budget code) (fold seed_handler (co_exception_table code) (walk_start code))"

definition compute_stacksize :: "'c CodeObject \<Rightarrow> w32" where
  "compute_stacksize code =
    (if co_instructions code = [] then 1
     else case stack_walk code of
       (True, _, st) \<Rightarrow> u32_of_depth (wk_max st)
     | (False, _, _) \<Rightarrow> linear_stacksize_estimate code)"

section \<open>The entry depths\<close>

text \<open>
  A handler whose depth is a sentinel is seeded once the depth it is anchored at is
  known.
\<close>

definition anchor_at :: "ExcHandler \<Rightarrow> nat" where
  "anchor_at h =
    (if eh_depth h = HANDLER_DEPTH_SENTINEL then unat (eh_start h)
     else unat (eh_depth h AND NOT HANDLER_DEPTH_ANCHOR_FLAG))"

definition seed_anchored :: "ExcHandler \<Rightarrow> walk \<times> bool \<Rightarrow> walk \<times> bool" where
  "seed_anchored h acc =
    (let (st, seeded) = acc; s = get_or (wk_depths st) (anchor_at h) (- 1);
         handler = unat (eh_handler h); entry = s + 1 + (if eh_push_lasti h then 1 else 0)
     in if anchored h \<and> 0 \<le> s \<and> handler < length (wk_depths st) \<and> wk_depths st ! handler < entry
        then (push_depth handler entry st, True)
        else (st, seeded))"

lemma seed_anchored_list:
  "snd (fold seed_anchored hs (st, b)) \<Longrightarrow> \<not> b \<Longrightarrow> wk_list (fst (fold seed_anchored hs (st, b))) \<noteq> []"
proof -
  have "snd (fold seed_anchored hs acc) \<longrightarrow> (snd acc \<longrightarrow> wk_list (fst acc) \<noteq> [])
      \<longrightarrow> wk_list (fst (fold seed_anchored hs acc)) \<noteq> []" for acc
  proof (induction hs arbitrary: acc)
    case (Cons h hs)
    have "snd acc \<longrightarrow> wk_list (fst acc) \<noteq> [] \<Longrightarrow>
        snd (seed_anchored h acc) \<longrightarrow> wk_list (fst (seed_anchored h acc)) \<noteq> []"
      by (auto simp: seed_anchored_def push_depth_def Let_def split: prod.splits if_splits)
    then show ?case using Cons.IH [of "seed_anchored h acc"] by simp
  qed simp
  then show "snd (fold seed_anchored hs (st, b)) \<Longrightarrow> \<not> b \<Longrightarrow>
      wk_list (fst (fold seed_anchored hs (st, b))) \<noteq> []" by fastforce
qed

lemma drain_budget: "drain code budget st = (r, budget', st') \<Longrightarrow> budget' \<le> budget"
proof (induction budget arbitrary: st)
  case 0
  then show ?case by (auto simp: drain.simps [of code 0 st] split: list.splits)
next
  case (Suc b)
  then show ?case by (force simp: drain.simps [of code "Suc b" st] split: list.splits)
qed

lemma drain_uses:
  assumes "drain code budget st = (True, budget', st')" "wk_list st \<noteq> []"
  shows "budget' < budget"
proof (cases budget)
  case 0
  then show ?thesis using assms by (auto simp: drain.simps [of code 0 st] split: list.splits)
next
  case (Suc b)
  obtain start rest where l: "wk_list st = start # rest" using assms(2) by (cases "wk_list st") auto
  with assms(1) Suc have "drain code b (walk_block code start (wk_depths st ! start) (st\<lparr>wk_list := rest\<rparr>))
      = (True, budget', st')" by (simp add: drain.simps [of code "Suc b" st])
  from drain_budget [OF this] Suc show ?thesis by simp
qed

function startdepths_loop :: "'c CodeObject \<Rightarrow> nat \<Rightarrow> walk \<Rightarrow> walk" where
  "startdepths_loop code budget st =
    (case drain code budget st of
       (False, _, st') \<Rightarrow> st'
     | (True, budget', st') \<Rightarrow>
        (let (st2, seeded) = fold seed_anchored (co_exception_table code) (st', False)
         in if seeded then startdepths_loop code budget' st2 else st2))"
  by pat_completeness auto
termination
proof (relation "measure (\<lambda>(code, budget, st). 2 * budget + (if wk_list st = [] then 1 else 0))",
    goal_cases)
  case (2 code budget st r y budget' st' x st2 seeded)
  then have d: "drain code budget st = (True, budget', st')" by simp
  from 2 have "wk_list st2 \<noteq> []"
    using seed_anchored_list [of "co_exception_table code" st' False] by (metis fst_conv snd_conv)
  then show ?case using drain_budget [OF d] drain_uses [OF d] by auto
qed simp

declare startdepths_loop.simps [simp del]

definition seed_plain :: "ExcHandler \<Rightarrow> walk \<Rightarrow> walk" where
  "seed_plain h st =
    (if anchored h then st else push_depth (unat (eh_handler h)) (handler_entry h) st)"

definition compute_startdepths :: "'c CodeObject \<Rightarrow> int list" where
  "compute_startdepths code =
    (if co_instructions code = [] then []
     else wk_depths (startdepths_loop code (walk_budget code)
            (fold seed_plain (co_exception_table code) (walk_start code))))"

end
