(* ===== verification/Code_Wire.thy ===== *)
theory Code_Wire
  imports Code_Exc Code_Depth
begin

text \<open>
  The assembler of \<open>crates/weavepy-compiler/src/cpython_code.rs\<close> (\<open>encode\<close>): the wire marks
  and superinstructions, the layout of code units with its fixpoint over \<open>EXTENDED_ARG\<close>
  prefixes and jump operands, the code units with their positions, and the splitting of a
  code-unit stream back into wire instructions (\<open>decode_raws\<close>).
\<close>

section \<open>The local slots\<close>

definition arg_kinds :: "'c CodeObject \<Rightarrow> w8 list" where
  "arg_kinds code =
    replicate (unat (co_posonly_count code)) CO_FAST_ARG_POS
    @ replicate (unat (sat_sub (co_arg_count code) (co_posonly_count code))) (CO_FAST_ARG_POS OR CO_FAST_ARG_KW)
    @ replicate (unat (co_kwonly_count code)) CO_FAST_ARG_KW
    @ replicate (if co_has_varargs code then 1 else 0) (CO_FAST_ARG_VAR OR CO_FAST_ARG_POS)
    @ replicate (if co_has_varkeywords code then 1 else 0) (CO_FAST_ARG_VAR OR CO_FAST_ARG_KW)"

definition local_kind :: "'c CodeObject \<Rightarrow> nat \<Rightarrow> string \<Rightarrow> w8" where
  "local_kind code i v =
    (let k0 = CO_FAST_LOCAL OR get_or (arg_kinds code) i 0;
         k1 = (if v \<in> set (co_hidden_locals code) then k0 OR CO_FAST_HIDDEN else k0)
     in if v \<in> set (co_cellvars code) then k1 OR CO_FAST_CELL else k1)"

definition build_localsplus :: "'c CodeObject \<Rightarrow> string list \<times> w8 list" where
  "build_localsplus code =
    (let cells = filter (\<lambda>c. c \<notin> set (co_varnames code)) (co_cellvars code)
     in (co_varnames code @ cells @ co_freevars code,
         map (\<lambda>i. local_kind code i (co_varnames code ! i)) [0..<length (co_varnames code)]
         @ replicate (length cells) CO_FAST_CELL
         @ replicate (length (co_freevars code)) CO_FAST_FREE))"

section \<open>Marks and superinstructions\<close>

definition wire_mark :: "'c CodeObject \<Rightarrow> nat \<Rightarrow> w8" where
  "wire_mark code i = get_or (co_wire_marks code) i PLAIN"

definition fuse_pair :: "w8 \<Rightarrow> instruction \<Rightarrow> instruction \<Rightarrow> (w8 \<times> w32) option" where
  "fuse_pair m head tail =
    (let small = (ins_arg head < 16 \<and> ins_arg tail < 16); packed = push_bit 4 (ins_arg head) OR ins_arg tail
     in if ins_op head = O_LoadGlobal \<and> ins_op tail = O_PushNull
        then Some (op_LOAD_GLOBAL, push_bit 1 (ins_arg head) OR 1)
        else if ins_op head = O_LoadFast \<and> ins_op tail = O_LoadFast \<and> small
        then Some (if m AND BORROW \<noteq> 0 then op_LOAD_FAST_BORROW_LOAD_FAST_BORROW
                   else op_LOAD_FAST_LOAD_FAST, packed)
        else if ins_op head = O_StoreFast \<and> ins_op tail = O_LoadFast \<and> small
        then Some (op_STORE_FAST_LOAD_FAST, packed)
        else if ins_op head = O_StoreFast \<and> ins_op tail = O_StoreFast \<and> small
        then Some (op_STORE_FAST_STORE_FAST, packed)
        else None)"

definition set_op :: "nat \<Rightarrow> w8 \<Rightarrow> MappedOp list \<Rightarrow> MappedOp list" where
  "set_op i c mapped = mapped[i := (mapped ! i)\<lparr>mo_op := c\<rparr>]"

text \<open>One step of the marking loop over the mapped instructions and the zero-width flags.\<close>

definition mark_step ::
    "'c CodeObject \<Rightarrow> nat \<Rightarrow> MappedOp list \<times> bool list \<Rightarrow> MappedOp list \<times> bool list" where
  "mark_step code i acc =
    (let (mapped, zero_width) = acc; m = wire_mark code i; ins = co_instructions code ! i
     in if m AND FUSE_HEAD \<noteq> 0 then
          (if Suc i < length (co_instructions code) then
             (case fuse_pair m ins (co_instructions code ! Suc i) of
                Some (cp_op, arg) \<Rightarrow>
                  (mapped[i := \<lparr>mo_op = cp_op, mo_arg = arg\<rparr>], zero_width[Suc i := True])
              | None \<Rightarrow> acc)
           else acc)
        else if m AND FUSE_TAIL = 0 \<and> ins_op ins \<in> {O_LoadFast, O_LoadClosure} then
          (if m AND BORROW \<noteq> 0 then (set_op i op_LOAD_FAST_BORROW mapped, zero_width)
           else if m AND CHECK \<noteq> 0 then (set_op i op_LOAD_FAST_CHECK mapped, zero_width)
           else acc)
        else acc)"

definition no_interrupt_step :: "w32 \<Rightarrow> MappedOp list \<Rightarrow> MappedOp list" where
  "no_interrupt_step j mapped =
    (if unat j < length mapped \<and> mo_op (mapped ! unat j) = op_JUMP_BACKWARD
     then set_op (unat j) op_JUMP_BACKWARD_NO_INTERRUPT mapped else mapped)"

text \<open>A keyword call's operand on the wire counts the keyword values too.\<close>

definition call_kw_step :: "'c CodeObject \<Rightarrow> nat \<Rightarrow> MappedOp list \<Rightarrow> MappedOp list" where
  "call_kw_step code i mapped =
    (if ins_op (co_instructions code ! i) = O_CallKw
        \<and> ins_op (co_instructions code ! (i - 1)) = O_LoadConst
     then (case tuple_len (co_constants code) (unat (ins_arg (co_instructions code ! (i - 1)))) of
             Some names \<Rightarrow>
               mapped[i := (mapped ! i)\<lparr>mo_arg := mo_arg (mapped ! i) + word_of_nat names\<rparr>]
           | None \<Rightarrow> mapped)
     else mapped)"

definition wire_ops :: "'c CodeObject \<Rightarrow> (MappedOp list \<times> bool list) option" where
  "wire_ops code =
    (let n = length (co_instructions code); slots = deref_slots_from_code code
     in case those (map (\<lambda>ins. map_to_cpython ins slots) (co_instructions code)) of
          None \<Rightarrow> None
        | Some mapped0 \<Rightarrow>
            (let (mapped1, zero_width) = fold (mark_step code) [0..<n] (mapped0, replicate n False);
                 mapped2 = fold no_interrupt_step (co_no_interrupt_jumps code) mapped1;
                 mapped3 = fold (call_kw_step code) [1..<n] mapped2
             in Some (mapped3, zero_width)))"

section \<open>The layout\<close>

definition ext_count :: "w32 \<Rightarrow> nat" where
  "ext_count arg =
    (if arg \<le> 0xFF then 0 else if arg \<le> 0xFFFF then 1 else if arg \<le> 0x00FFFFFF then 2 else 3)"

definition args_target_delta :: "instruction \<Rightarrow> nat" where
  "args_target_delta ins = unat (ins_arg ins)"

text \<open>The \<open>SEND\<close> of the dance that the \<open>END_ASYNC_FOR\<close> at \<open>i\<close> closes.\<close>

definition send_range :: "'c CodeObject \<Rightarrow> ExcHandler \<Rightarrow> nat list" where
  "send_range code h = [unat (eh_start h)..<min (unat (eh_end h)) (length (co_instructions code))]"

definition send_in_range :: "'c CodeObject \<Rightarrow> ExcHandler \<Rightarrow> nat option" where
  "send_in_range code h = find (\<lambda>k. ins_op (co_instructions code ! k) = O_Send) (send_range code h)"

fun find_map :: "('a \<Rightarrow> 'b option) \<Rightarrow> 'a list \<Rightarrow> 'b option" where
  "find_map f [] = None"
| "find_map f (x # xs) = (case f x of Some y \<Rightarrow> Some y | None \<Rightarrow> find_map f xs)"

definition eaf_send :: "'c CodeObject \<Rightarrow> MappedOp list \<Rightarrow> nat \<Rightarrow> nat option" where
  "eaf_send code mapped i =
    (if mo_op (mapped ! i) \<noteq> op_END_ASYNC_FOR then None
     else find_map (send_in_range code)
       (filter (\<lambda>h. unat (eh_handler h) = i) (co_exception_table code)))"

text \<open>What stays fixed while the layout is computed.\<close>

record layout_input =
  li_deltas :: "nat list"
  li_ops :: "MappedOp list"
  li_zero :: "bool list"
  li_send :: "nat option list"

abbreviation li_len :: "layout_input \<Rightarrow> nat" where "li_len inp \<equiv> length (li_ops inp)"

abbreviation li_op :: "layout_input \<Rightarrow> nat \<Rightarrow> w8" where "li_op inp i \<equiv> mo_op (li_ops inp ! i)"

definition layout_input_of :: "'c CodeObject \<Rightarrow> MappedOp list \<Rightarrow> bool list \<Rightarrow> layout_input" where
  "layout_input_of code mapped zero_width =
    \<lparr>li_deltas = map args_target_delta (co_instructions code), li_ops = mapped, li_zero = zero_width,
     li_send = map (eaf_send code mapped) [0..<length mapped]\<rparr>"

definition target_idx :: "layout_input \<Rightarrow> nat \<Rightarrow> nat" where
  "target_idx inp i =
    min (li_len inp)
      (if is_backward_jump (li_op inp i) then Suc i - li_deltas inp ! i else Suc i + li_deltas inp ! i)"

fun cp_index_from :: "nat \<Rightarrow> bool list \<Rightarrow> nat list" where
  "cp_index_from k [] = [k]"
| "cp_index_from k (zw # zs) = k # cp_index_from (if zw then k else Suc k) zs"

definition seed_ext :: "layout_input \<Rightarrow> nat \<Rightarrow> nat" where
  "seed_ext inp i =
    (let cp_index = cp_index_from 0 (li_zero inp)
     in if li_zero inp ! i then 0
        else if li_op inp i = op_END_ASYNC_FOR
        then ext_count (word_of_nat (case li_send inp ! i of None \<Rightarrow> 0 | Some send \<Rightarrow> cp_index ! send))
        else if is_rel_jump (li_op inp i) then ext_count (word_of_nat (cp_index ! target_idx inp i))
        else ext_count (mo_arg (li_ops inp ! i)))"

definition unit_size :: "layout_input \<Rightarrow> nat list \<Rightarrow> nat \<Rightarrow> nat" where
  "unit_size inp ext i =
    (if li_zero inp ! i then 0 else ext ! i + 1 + cache_entries (li_op inp i))"

fun offsets_from :: "nat \<Rightarrow> nat list \<Rightarrow> nat list" where
  "offsets_from off [] = [off]"
| "offsets_from off (w # ws) = off # offsets_from (off + w) ws"

definition layout_starts :: "layout_input \<Rightarrow> nat list \<Rightarrow> nat list" where
  "layout_starts inp ext = offsets_from 0 (map (unit_size inp ext) [0..<li_len inp])"

text \<open>
  The operand the layout gives instruction \<open>i\<close>; \<open>None\<close> leaves the mapped one. Each
  instruction reads its own \<open>EXTENDED_ARG\<close> count and the starts, which an iteration computes
  before it changes any count, so the loop of the sources is a map. Subtraction on \<open>nat\<close>
  saturates.
\<close>

definition resolved_arg :: "layout_input \<Rightarrow> nat list \<Rightarrow> nat list \<Rightarrow> nat \<Rightarrow> w32 option" where
  "resolved_arg inp starts ext i =
    (if li_op inp i = op_END_ASYNC_FOR then
       Some (word_of_nat
         (case li_send inp ! i of
            None \<Rightarrow> 0
          | Some send \<Rightarrow> starts ! i + ext ! i + 1 - starts ! send - END_SEND_OFFSET))
     else if \<not> is_rel_jump (li_op inp i) \<or> li_zero inp ! i then None
     else
       let next_unit = starts ! i + ext ! i + 1 + cache_entries (li_op inp i);
           target_unit = starts ! target_idx inp i
       in Some (word_of_nat
            (if is_backward_jump (li_op inp i) then next_unit - target_unit else target_unit - next_unit)))"

definition relax_args :: "layout_input \<Rightarrow> nat list \<Rightarrow> nat list \<Rightarrow> w32 list \<Rightarrow> w32 list" where
  "relax_args inp starts ext args =
    map (\<lambda>i. case resolved_arg inp starts ext i of Some a \<Rightarrow> a | None \<Rightarrow> args ! i) [0..<li_len inp]"

definition relax_ext :: "layout_input \<Rightarrow> nat list \<Rightarrow> nat list \<Rightarrow> nat list" where
  "relax_ext inp starts ext =
    map (\<lambda>i. case resolved_arg inp starts ext i of Some a \<Rightarrow> ext_count a | None \<Rightarrow> ext ! i)
      [0..<li_len inp]"

record layout =
  la_starts :: "nat list"
  la_ext :: "nat list"
  la_args :: "w32 list"

text \<open>At most \<open>rounds\<close> rounds, sixteen in the sources; the loop ends early when nothing changes.\<close>

fun layout_rounds :: "layout_input \<Rightarrow> nat \<Rightarrow> layout \<Rightarrow> layout" where
  "layout_rounds inp 0 la = la"
| "layout_rounds inp (Suc rounds) la =
    (let starts = layout_starts inp (la_ext la);
         args = relax_args inp starts (la_ext la) (la_args la);
         ext = relax_ext inp starts (la_ext la);
         la' = \<lparr>la_starts = starts, la_ext = ext, la_args = args\<rparr>
     in if ext = la_ext la then la' else layout_rounds inp rounds la')"

definition layout_seed :: "layout_input \<Rightarrow> layout" where
  "layout_seed inp =
    \<lparr>la_starts = replicate (Suc (li_len inp)) 0, la_ext = map (seed_ext inp) [0..<li_len inp],
     la_args = map mo_arg (li_ops inp)\<rparr>"

definition layout_of :: "layout_input \<Rightarrow> layout" where
  "layout_of inp = layout_rounds inp 16 (layout_seed inp)"

section \<open>Code units\<close>

definition ext_byte :: "w32 \<Rightarrow> nat \<Rightarrow> w8" where
  "ext_byte arg k = ucast (drop_bit (8 * k) arg AND 0xFF)"

definition ext_units :: "w32 \<Rightarrow> nat \<Rightarrow> w8 list" where
  "ext_units arg ext = concat (map (\<lambda>k. [op_EXTENDED_ARG, ext_byte arg k]) (rev [1..<Suc ext]))"

definition emit_units :: "w8 \<Rightarrow> w32 \<Rightarrow> nat \<Rightarrow> w8 list" where
  "emit_units cp_op arg ext =
    ext_units arg ext @ [cp_op, ucast (arg AND 0xFF)]
    @ concat (replicate (cache_entries cp_op) [op_CACHE, 0])"

record emitted_code =
  ec_code :: "w8 list"
  ec_positions :: "Position list"
  ec_offsets :: "w32 list"

definition emit_step ::
    "'c CodeObject \<Rightarrow> layout_input \<Rightarrow> layout \<Rightarrow> w32 \<Rightarrow> nat \<Rightarrow> emitted_code \<Rightarrow> emitted_code" where
  "emit_step code inp la firstlineno i st =
    (if li_zero inp ! i then
       st\<lparr>ec_offsets := ec_offsets st @ [if ec_offsets st = [] then 0 else last (ec_offsets st)]\<rparr>
     else
       let pos = position_at code i firstlineno; cp_op = li_op inp i
       in \<lparr>ec_code = ec_code st @ emit_units cp_op (la_args la ! i) (la_ext la ! i),
           ec_positions = ec_positions st
             @ replicate (la_ext la ! i) pos @ [pos] @ replicate (cache_entries cp_op) pos,
           ec_offsets = ec_offsets st
             @ [word_of_nat (length (ec_code st @ ext_units (la_args la ! i) (la_ext la ! i)) div 2)]\<rparr>)"

definition emit_all :: "'c CodeObject \<Rightarrow> layout_input \<Rightarrow> layout \<Rightarrow> w32 \<Rightarrow> emitted_code" where
  "emit_all code inp la firstlineno =
    fold (emit_step code inp la firstlineno) [0..<li_len inp]
      \<lparr>ec_code = [], ec_positions = [], ec_offsets = []\<rparr>"

section \<open>The encoder\<close>

record CpythonCode =
  cc_co_code :: "w8 list"
  cc_co_linetable :: "w8 list"
  cc_co_exceptiontable :: "w8 list"
  cc_localsplusnames :: "string list"
  cc_localspluskinds :: "w8 list"
  cc_stacksize :: w32
  cc_firstlineno :: w32
  cc_positions :: "Position list"
  cc_inst_offsets :: "w32 list"

text \<open>
  The indices that depend on the code: of the instructions an \<open>END_ASYNC_FOR\<close> searches for its
  \<open>SEND\<close>, and of the targets of jumps in \<open>cp_index\<close> and \<open>starts\<close>, both with an entry more than
  there are instructions. Past the end each of them is a panic.
\<close>

definition reads_in_range :: "'c CodeObject \<Rightarrow> layout_input \<Rightarrow> bool" where
  "reads_in_range code inp \<longleftrightarrow> (\<forall>i < li_len inp.
     (li_op inp i = op_END_ASYNC_FOR \<longrightarrow>
        (\<forall>h \<in> set (co_exception_table code). unat (eh_handler h) = i \<longrightarrow>
          (\<forall>k \<in> set (send_range code h). k < length (co_instructions code)))
        \<and> (case li_send inp ! i of None \<Rightarrow> True | Some send \<Rightarrow> send \<le> li_len inp))
     \<and> (is_rel_jump (li_op inp i) \<and> \<not> li_zero inp ! i \<longrightarrow> target_idx inp i \<le> li_len inp))"

text \<open>\<open>None\<close> is a panic.\<close>

definition encode :: "'c CodeObject \<Rightarrow> CpythonCode option" where
  "encode code =
    (case wire_ops code of
       None \<Rightarrow> None
     | Some (mapped, zero_width) \<Rightarrow>
        (let inp = layout_input_of code mapped zero_width;
             la = layout_of inp;
             firstlineno = code_firstlineno code;
             em = emit_all code inp la firstlineno;
             (names, kinds) = build_localsplus code
         in if \<not> reads_in_range code inp then None
            else case encode_exception_table code (la_starts la) of
              None \<Rightarrow> None
            | Some exceptiontable \<Rightarrow>
                Some \<lparr>cc_co_code = ec_code em,
                  cc_co_linetable = encode_linetable code (la_ext la) mapped zero_width firstlineno,
                  cc_co_exceptiontable = exceptiontable,
                  cc_localsplusnames = names,
                  cc_localspluskinds = kinds,
                  cc_stacksize = (case co_stacksize code of Some s \<Rightarrow> s | None \<Rightarrow> compute_stacksize code),
                  cc_firstlineno = firstlineno,
                  cc_positions = ec_positions em,
                  cc_inst_offsets = ec_offsets em\<rparr>))"

definition cpython_lasti :: "'c CodeObject \<Rightarrow> w32 \<Rightarrow> w32 option" where
  "cpython_lasti code weavepy_index =
    map_option (\<lambda>cp.
      if unat weavepy_index < length (cc_inst_offsets cp)
      then cc_inst_offsets cp ! unat weavepy_index * 2 else weavepy_index * 2) (encode code)"

section \<open>Splitting the units\<close>

record raw_state =
  rs_raws :: "DecodedRaw list"
  rs_pending :: w32
  rs_start :: "nat option"

definition widen_last :: "DecodedRaw list \<Rightarrow> DecodedRaw list" where
  "widen_last raws =
    (if raws = [] then [] else butlast raws @ [(last raws)\<lparr>dr_size := dr_size (last raws) + 1\<rparr>])"

function raws_loop :: "w8 list \<Rightarrow> nat \<Rightarrow> raw_state \<Rightarrow> DecodedRaw list" where
  "raws_loop co_code unit st =
    (if length co_code div 2 \<le> unit then rs_raws st
     else
       let cp_op = co_code ! (unit * 2); argbyte = ucast (co_code ! (unit * 2 + 1)) :: w32
       in if cp_op = op_EXTENDED_ARG then
            raws_loop co_code (unit + 1)
              (st\<lparr>rs_start := (case rs_start st of None \<Rightarrow> Some unit | Some s \<Rightarrow> Some s),
                  rs_pending := push_bit 8 (rs_pending st) OR argbyte\<rparr>)
          else if cp_op = op_CACHE then
            raws_loop co_code (unit + 1) (st\<lparr>rs_raws := widen_last (rs_raws st)\<rparr>)
          else
            let start = (case rs_start st of None \<Rightarrow> unit | Some s \<Rightarrow> s); ncache = cache_entries cp_op
            in raws_loop co_code (unit + (1 + ncache))
                 \<lparr>rs_raws = rs_raws st @ [\<lparr>dr_op = cp_op,
                    dr_arg = push_bit 8 (rs_pending st) OR argbyte, dr_start = start,
                    dr_size = (unit - start) + 1 + ncache\<rparr>],
                  rs_pending = 0, rs_start = None\<rparr>)"
  by pat_completeness auto
termination
  by (relation "measure (\<lambda>(co_code, unit, _). length co_code div 2 - unit)") auto

declare raws_loop.simps [simp del]

definition decode_raws :: "w8 list \<Rightarrow> DecodedRaw list" where
  "decode_raws co_code = raws_loop co_code 0 \<lparr>rs_raws = [], rs_pending = 0, rs_start = None\<rparr>"

end
