(* ===== verification/Code_Decode.thy ===== *)
theory Code_Decode
  imports Code_Wire
begin

text \<open>
  The decoder of \<open>crates/weavepy-compiler/src/cpython_code.rs\<close>: wire instructions back to the
  compiler's instructions and marks (\<open>decode_instructions\<close>), and the whole code object
  (\<open>decode\<close>, \<open>decode_full\<close>).
\<close>

section \<open>Instructions\<close>

record decode_state =
  ds_out :: "instruction list"
  ds_marks :: "w8 list"
  ds_plain_shared :: "w32 list"
  ds_loop_tail :: bool

definition shared_local :: "SlotMap \<Rightarrow> w32 \<Rightarrow> bool" where
  "shared_local slots slot \<longleftrightarrow> slot < sm_nlocals slots \<and> is_cellish slots slot"

text \<open>\<open>plain_shared.remove(plain_shared.iter().rposition(|&s| s == slot)?)\<close>.\<close>

definition end_region :: "w32 \<Rightarrow> w32 list \<Rightarrow> w32 list" where
  "end_region slot plain_shared = rev (remove1 slot (rev plain_shared))"

definition next_loop_tail :: "w8 \<Rightarrow> bool \<Rightarrow> bool" where
  "next_loop_tail cp_op loop_tail =
    (if cp_op \<in> {op_END_FOR, op_POP_ITER} then True
     else if cp_op \<in> {op_SWAP, op_STORE_FAST, op_STORE_FAST_STORE_FAST, op_POP_TOP, op_NOP} then loop_tail
     else False)"

definition next_plain_shared ::
    "DecodedRaw list \<Rightarrow> SlotMap \<Rightarrow> nat \<Rightarrow> bool \<Rightarrow> w32 list \<Rightarrow> w32 list" where
  "next_plain_shared raws slots idx after_swap shared =
    (let r = raws ! idx;
         makes_cell = (Suc idx < length raws \<and> dr_op (raws ! Suc idx) = op_MAKE_CELL
                       \<and> dr_arg (raws ! Suc idx) = dr_arg r)
     in if dr_op r = op_LOAD_FAST_AND_CLEAR \<and> shared_local slots (dr_arg r) \<and> \<not> makes_cell
        then shared @ [dr_arg r]
        else if dr_op r = op_STORE_FAST \<and> after_swap then end_region (dr_arg r) shared
        else if dr_op r \<in> {op_STORE_FAST_STORE_FAST, op_STORE_FAST_LOAD_FAST} \<and> after_swap then
          (let shared1 = end_region (drop_bit 4 (dr_arg r)) shared
           in if dr_op r = op_STORE_FAST_STORE_FAST then end_region (dr_arg r AND 0x0F) shared1 else shared1)
        else shared)"

text \<open>The fused wire forms, as their two halves and the extra mark of the first.\<close>

definition unfuse :: "DecodedRaw \<Rightarrow> (instruction \<times> instruction \<times> w8) option" where
  "unfuse r =
    (let a1 = drop_bit 4 (dr_arg r); a2 = dr_arg r AND 0x0F
     in if dr_op r = op_LOAD_GLOBAL \<and> dr_arg r AND 1 \<noteq> 0
        then Some (Instr O_LoadGlobal (drop_bit 1 (dr_arg r)), Instr O_PushNull 0, PLAIN)
        else if dr_op r = op_LOAD_FAST_LOAD_FAST
        then Some (Instr O_LoadFast a1, Instr O_LoadFast a2, PLAIN)
        else if dr_op r = op_LOAD_FAST_BORROW_LOAD_FAST_BORROW
        then Some (Instr O_LoadFast a1, Instr O_LoadFast a2, BORROW)
        else if dr_op r = op_STORE_FAST_LOAD_FAST
        then Some (Instr O_StoreFast a1, Instr O_LoadFast a2, PLAIN)
        else if dr_op r = op_STORE_FAST_STORE_FAST
        then Some (Instr O_StoreFast a1, Instr O_StoreFast a2, PLAIN)
        else None)"

definition plain_mark :: "w8 \<Rightarrow> w8" where
  "plain_mark cp_op =
    (if cp_op = op_LOAD_FAST_BORROW then BORROW
     else if cp_op = op_LOAD_FAST_CHECK then CHECK
     else PLAIN)"

definition call_kw_internal_arg :: "'c const_value list \<Rightarrow> instruction list \<Rightarrow> w32 \<Rightarrow> w32" where
  "call_kw_internal_arg constants out arg =
    (let nkw = (if out \<noteq> [] \<and> ins_op (last out) = O_LoadConst
                then (case tuple_len constants (unat (ins_arg (last out))) of
                        Some names \<Rightarrow> word_of_nat names | None \<Rightarrow> 0)
                else 0)
     in sat_sub arg nkw)"

definition instr_of_raw :: "DecodedRaw list \<Rightarrow> nat \<Rightarrow> nat" where
  "instr_of_raw raws raw_idx =
    (let first = raw_first_instr (raw_expansions raws) in get_or first raw_idx (last first))"

text \<open>The internal operand of the decoded instruction \<open>(opc, arg)\<close>.\<close>

definition internal_arg :: "DecodedRaw list \<Rightarrow> nat \<Rightarrow> w32 \<Rightarrow> w32" where
  "internal_arg raws idx arg =
    (let r = raws ! idx; self_idx = instr_of_raw raws idx
     in if is_rel_jump (dr_op r) then
          (let next_unit = dr_start r + dr_size r;
               target_unit = (if is_backward_jump (dr_op r) then next_unit - unat (dr_arg r)
                              else next_unit + unat (dr_arg r));
               target = instr_of_raw raws (raw_at_unit raws target_unit)
           in word_of_nat (if is_backward_jump (dr_op r) then Suc self_idx - target
                           else target - Suc self_idx))
        else if dr_op r = op_PUSH_EXC_INFO \<and> dr_arg r \<noteq> 0
        then word_of_nat (instr_of_raw raws (raw_at_unit raws (unat (dr_arg r))))
        else arg)"

definition decode_step ::
    "DecodedRaw list \<Rightarrow> SlotMap \<Rightarrow> 'c const_value list \<Rightarrow> nat \<Rightarrow> decode_state \<Rightarrow> decode_state option" where
  "decode_step raws slots constants idx st =
    (let r = raws ! idx;
         in_tail = ds_loop_tail st;
         after_swap = (in_tail \<or> 0 < idx \<and> dr_op (raws ! (idx - 1)) = op_SWAP);
         st1 = st\<lparr>ds_loop_tail := next_loop_tail (dr_op r) in_tail,
                  ds_plain_shared := next_plain_shared raws slots idx after_swap (ds_plain_shared st)\<rparr>
     in case unfuse r of
          Some (i1, i2, extra) \<Rightarrow>
            Some (st1\<lparr>ds_out := ds_out st @ [i1, i2],
                      ds_marks := ds_marks st @ [FUSE_HEAD OR extra, FUSE_TAIL]\<rparr>)
        | None \<Rightarrow>
            (let put = (\<lambda>ins. st1\<lparr>ds_out := ds_out st @ [ins],
                                 ds_marks := ds_marks st @ [plain_mark (dr_op r)]\<rparr>)
             in if dr_op r = op_CALL then Some (put (Instr O_Call (dr_arg r)))
                else if dr_op r = op_CALL_KW
                then Some (put (Instr O_CallKw (call_kw_internal_arg constants (ds_out st) (dr_arg r))))
                else
                  (case (if dr_op r \<in> {op_LOAD_FAST, op_LOAD_FAST_BORROW, op_LOAD_FAST_CHECK}
                            \<and> dr_arg r \<in> set (ds_plain_shared st1)
                         then Some (O_LoadFast, dr_arg r)
                         else map_from_cpython (dr_op r) (dr_arg r) slots) of
                     None \<Rightarrow> None
                   | Some (opc, arg) \<Rightarrow> Some (put (Instr opc (internal_arg raws idx arg))))))"

fun decode_from ::
    "DecodedRaw list \<Rightarrow> SlotMap \<Rightarrow> 'c const_value list \<Rightarrow> nat list \<Rightarrow> decode_state \<Rightarrow> decode_state option" where
  "decode_from raws slots constants [] st = Some st"
| "decode_from raws slots constants (idx # rest) st =
    (case decode_step raws slots constants idx st of
       None \<Rightarrow> None
     | Some st' \<Rightarrow> decode_from raws slots constants rest st')"

definition decode_instructions ::
    "DecodedRaw list \<Rightarrow> SlotMap \<Rightarrow> 'c const_value list \<Rightarrow> (instruction list \<times> w8 list) option" where
  "decode_instructions raws slots constants =
    map_option (\<lambda>st. (ds_out st, ds_marks st))
      (decode_from raws slots constants [0..<length raws]
        \<lparr>ds_out = [], ds_marks = [], ds_plain_shared = [], ds_loop_tail = False\<rparr>)"

definition decode :: "w8 list \<Rightarrow> SlotMap \<Rightarrow> 'c const_value list \<Rightarrow> instruction list option" where
  "decode co_code slots constants =
    map_option fst (decode_instructions (decode_raws co_code) slots constants)"

section \<open>Code objects\<close>

record DecodedCode =
  dc_instructions :: "instruction list"
  dc_linetable :: "w32 list"
  dc_coltable :: "ColSpan list"
  dc_exception_table :: "ExcHandler list"
  dc_varnames :: "string list"
  dc_cellvars :: "string list"
  dc_freevars :: "string list"
  dc_hidden_locals :: "string list"
  dc_no_interrupt_jumps :: "w32 list"
  dc_wire_marks :: "w8 list"

definition names_of_kind :: "w8 \<Rightarrow> string list \<Rightarrow> w8 list \<Rightarrow> string list" where
  "names_of_kind flag names kinds = map fst (filter (\<lambda>(_, k). k AND flag \<noteq> 0) (zip names kinds))"

definition no_interrupt_indices :: "DecodedRaw list \<Rightarrow> w32 list" where
  "no_interrupt_indices raws =
    map (\<lambda>idx. word_of_nat (raw_first_instr (raw_expansions raws) ! idx))
      (filter (\<lambda>idx. dr_op (raws ! idx) = op_JUMP_BACKWARD_NO_INTERRUPT) [0..<length raws])"

definition decode_full ::
    "w8 list \<Rightarrow> w8 list \<Rightarrow> w8 list \<Rightarrow> string list \<Rightarrow> w8 list \<Rightarrow> w32 \<Rightarrow> 'c const_value list
      \<Rightarrow> DecodedCode option" where
  "decode_full co_code linetable exceptiontable localsplusnames localspluskinds firstlineno constants =
    (let slots = slots_from_kinds localspluskinds; raws = decode_raws co_code
     in case decode_instructions raws slots constants of
          None \<Rightarrow> None
        | Some (instructions, marks) \<Rightarrow>
            (let (lines, cols) = decode_linetable linetable raws firstlineno
             in Some \<lparr>dc_instructions = instructions,
                  dc_linetable = lines,
                  dc_coltable = cols,
                  dc_exception_table = decode_exception_table exceptiontable raws,
                  dc_varnames = names_of_kind CO_FAST_LOCAL localsplusnames localspluskinds,
                  dc_cellvars = names_of_kind CO_FAST_CELL localsplusnames localspluskinds,
                  dc_freevars = names_of_kind CO_FAST_FREE localsplusnames localspluskinds,
                  dc_hidden_locals = map fst (filter (\<lambda>(_, k). k AND CO_FAST_LOCAL \<noteq> 0
                    \<and> k AND CO_FAST_HIDDEN \<noteq> 0) (zip localsplusnames localspluskinds)),
                  dc_no_interrupt_jumps = no_interrupt_indices raws,
                  dc_wire_marks = (if \<forall>m \<in> set marks. m = PLAIN then [] else marks)\<rparr>))"

end
