(* ===== verification/Code_Units.thy ===== *)
theory Code_Units
  imports Code_Decode
begin

text \<open>
  Splitting an emitted code-unit stream recovers its wire instructions: the operand behind
  its \<open>EXTENDED_ARG\<close> prefix, the unit where the instruction starts and the number of its
  units. Only \<open>EXTENDED_ARG\<close> and \<open>CACHE\<close> cannot be instructions of their own.
\<close>

section \<open>The bytes of an operand\<close>

lemma mask8_bits [simp]: "bit (255 :: int) n \<longleftrightarrow> n < 8"
proof -
  have m: "(255 :: int) = mask 8" by (simp add: mask_eq_exp_minus_1)
  show ?thesis unfolding m by (simp only: bit_mask_iff) simp
qed

lemma low8: "ucast (ucast (v AND 0xFF :: w32) :: w8) = v AND (0xFF :: w32)"
  by (rule bit_word_eqI) (auto simp: bit_simps)

lemma shift_in: "push_bit 8 (drop_bit (8 + m) v) OR (drop_bit m v AND 0xFF) = drop_bit m (v :: w32)"
proof (rule bit_word_eqI)
  fix n assume "n < LENGTH(32)"
  then show "bit (push_bit 8 (drop_bit (8 + m) v) OR (drop_bit m v AND 0xFF)) n \<longleftrightarrow> bit (drop_bit m v) n"
    by (cases "n < 8") (auto simp: bit_simps add_ac)
qed

lemma ext_units_Suc: "ext_units arg (Suc e) = [op_EXTENDED_ARG, ext_byte arg (Suc e)] @ ext_units arg e"
  by (simp add: ext_units_def)

lemma length_ext_units: "length (ext_units arg e) = 2 * e"
  by (induction e) (simp_all add: ext_units_Suc, simp add: ext_units_def)

lemma length_emit_units: "length (emit_units c arg e) = 2 * (e + 1 + cache_entries c)"
proof -
  have "length (concat (replicate n [op_CACHE, 0])) = 2 * n" for n by (induction n) simp_all
  then show ?thesis by (simp add: emit_units_def length_ext_units)
qed

text \<open>The count of prefixes is the one the operand needs.\<close>

definition ext_fits :: "w32 \<Rightarrow> nat \<Rightarrow> bool" where
  "ext_fits arg ext \<longleftrightarrow> drop_bit (8 * Suc ext) arg = 0"

lemma drop_zero: "unat (v :: w32) < 2 ^ n \<Longrightarrow> drop_bit n v = 0"
  by (metis div_less drop_bit_eq_div unat_drop_bit_eq unat_eq_0)

lemma ext_count_fits: "ext_fits arg (ext_count arg)"
proof -
  have "unat arg < 2 ^ (8 * Suc (ext_count arg))"
    using unsigned_less [of arg]
    by (auto simp: ext_count_def word_le_nat_alt not_le)
  then show ?thesis unfolding ext_fits_def by (rule drop_zero)
qed

section \<open>The loop\<close>

lemma raws_loop_op:
  assumes "bytes_at code (2 * u) (ext_units arg e @ [c, ucast (arg AND 0xFF)])"
    "c \<noteq> op_EXTENDED_ARG" "c \<noteq> op_CACHE" "drop_bit (8 * Suc e) arg = rs_pending st"
  shows "raws_loop code u st = raws_loop code (u + e + 1 + cache_entries c)
    \<lparr>rs_raws = rs_raws st @ [\<lparr>dr_op = c, dr_arg = arg,
        dr_start = (case rs_start st of None \<Rightarrow> u | Some s \<Rightarrow> s),
        dr_size = (u + e - (case rs_start st of None \<Rightarrow> u | Some s \<Rightarrow> s)) + 1 + cache_entries c\<rparr>],
     rs_pending = 0, rs_start = None\<rparr>"
  using assms
proof (induction e arbitrary: u st)
  case 0
  then have at: "2 * u < length code" "code ! (2 * u) = c" "Suc (2 * u) < length code"
      "code ! Suc (2 * u) = ucast (arg AND 0xFF)"
    by (simp_all add: ext_units_def bytes_at_Cons)
  then have u: "\<not> length code div 2 \<le> u" by linarith
  have "push_bit 8 (rs_pending st) OR (arg AND 0xFF) = arg"
    using shift_in [of 0 arg] 0(4) by simp
  then show ?case
    using at u 0(2, 3) by (simp add: raws_loop.simps [of code u st] mult.commute [of u 2] low8 Let_def)
next
  case (Suc e)
  then have at: "2 * u < length code" "code ! (2 * u) = op_EXTENDED_ARG" "Suc (2 * u) < length code"
      "code ! Suc (2 * u) = ext_byte arg (Suc e)"
      "bytes_at code (2 * Suc u) (ext_units arg e @ [c, ucast (arg AND 0xFF)])"
    by (simp_all add: ext_units_Suc bytes_at_Cons)
  then have u: "\<not> length code div 2 \<le> u" by linarith
  let ?st = "st\<lparr>rs_start := (case rs_start st of None \<Rightarrow> Some u | Some s \<Rightarrow> Some s),
      rs_pending := push_bit 8 (rs_pending st) OR ucast (ext_byte arg (Suc e))\<rparr>"
  have p: "drop_bit (8 * Suc e) arg = rs_pending ?st"
    using shift_in [of "8 * Suc e" arg] Suc.prems(4) by (simp add: ext_byte_def low8)
  have "raws_loop code u st = raws_loop code (Suc u) ?st"
    using at u by (simp add: raws_loop.simps [of code u st] mult.commute [of u 2] Let_def)
  then show ?case using Suc.IH [OF at(5) Suc.prems(2, 3) p] by (simp split: option.split)
qed

text \<open>The wire instructions of a stream: opcode, operand, number of prefixes.\<close>

type_synonym wire_ins = "w8 \<times> w32 \<times> nat"

definition wire_ok :: "wire_ins \<Rightarrow> bool" where
  "wire_ok w = (case w of (c, arg, ext) \<Rightarrow> c \<noteq> op_EXTENDED_ARG \<and> c \<noteq> op_CACHE \<and> ext_fits arg ext)"

definition wire_bytes :: "wire_ins list \<Rightarrow> w8 list" where
  "wire_bytes ws = concat (map (\<lambda>(c, arg, ext). emit_units c arg ext) ws)"

definition wire_size :: "wire_ins \<Rightarrow> nat" where
  "wire_size w = (case w of (c, arg, ext) \<Rightarrow> ext + 1 + cache_entries c)"

fun wire_raws :: "nat \<Rightarrow> wire_ins list \<Rightarrow> DecodedRaw list" where
  "wire_raws u [] = []"
| "wire_raws u ((c, arg, ext) # ws) =
    \<lparr>dr_op = c, dr_arg = arg, dr_start = u, dr_size = ext + 1 + cache_entries c\<rparr>
    # wire_raws (u + (ext + 1 + cache_entries c)) ws"

lemma raws_loop_wire:
  assumes "bytes_at code (2 * u) (wire_bytes ws)" "length code = 2 * u + length (wire_bytes ws)"
    "\<forall>w \<in> set ws. wire_ok w"
  shows "raws_loop code u \<lparr>rs_raws = acc, rs_pending = 0, rs_start = None\<rparr> = acc @ wire_raws u ws"
  using assms
proof (induction ws arbitrary: u acc)
  case Nil
  then show ?case by (simp add: raws_loop.simps wire_bytes_def)
next
  case (Cons w ws)
  obtain c arg ext where w: "w = (c, arg, ext)" by (cases w)
  let ?u = "u + (ext + 1 + cache_entries c)"
  have b: "wire_bytes (w # ws) = emit_units c arg ext @ wire_bytes ws" by (simp add: wire_bytes_def w)
  then have at: "bytes_at code (2 * u) (emit_units c arg ext)" "bytes_at code (2 * ?u) (wire_bytes ws)"
    using Cons.prems(1) by (simp_all add: bytes_at_append length_emit_units algebra_simps)
  from at(1) have "bytes_at code (2 * u) (ext_units arg ext @ [c, ucast (arg AND 0xFF)])"
    unfolding emit_units_def append_assoc [symmetric] bytes_at_append by blast
  moreover have "length code = 2 * ?u + length (wire_bytes ws)"
    using Cons.prems(2) b by (simp add: length_emit_units algebra_simps)
  moreover have "c \<noteq> op_EXTENDED_ARG" "c \<noteq> op_CACHE" "drop_bit (8 * Suc ext) arg = 0"
    using Cons.prems(3) by (simp_all add: wire_ok_def w ext_fits_def)
  ultimately show ?case
    using Cons.IH [OF at(2)] Cons.prems(3)
      raws_loop_op [of code u arg ext c "\<lparr>rs_raws = acc, rs_pending = 0, rs_start = None\<rparr>"]
    by (simp add: w add_ac)
qed

lemma decode_raws_wire:
  "\<forall>w \<in> set ws. wire_ok w \<Longrightarrow> decode_raws (wire_bytes ws) = wire_raws 0 ws"
  using raws_loop_wire [of "wire_bytes ws" 0 ws "[]"] bytes_at_whole [of "[]" "wire_bytes ws"]
  by (simp add: decode_raws_def)

section \<open>Starts\<close>

lemma wire_raws_ge: "r \<in> set (wire_raws u ws) \<Longrightarrow> u \<le> dr_start r"
  by (induction u ws rule: wire_raws.induct) fastforce+

lemma wire_raws_sorted: "sorted_wrt (\<lambda>a b. dr_start a < dr_start b) (wire_raws u ws)"
  by (induction u ws rule: wire_raws.induct) (auto dest!: wire_raws_ge)

lemma length_wire_raws [simp]: "length (wire_raws u ws) = length ws"
  by (induction u ws rule: wire_raws.induct) simp_all

lemma wire_raws_nth:
  "k < length ws \<Longrightarrow> wire_raws u ws ! k =
    (case ws ! k of (c, arg, ext) \<Rightarrow>
      \<lparr>dr_op = c, dr_arg = arg, dr_start = u + sum_list (map wire_size (take k ws)),
       dr_size = ext + 1 + cache_entries c\<rparr>)"
proof (induction u ws arbitrary: k rule: wire_raws.induct)
  case (2 u c arg ext ws)
  then show ?case
    by (cases k) (auto simp: wire_size_def add_ac split: prod.split)
qed simp

text \<open>The starts of any decoded stream increase strictly.\<close>

definition raws_below :: "nat \<Rightarrow> raw_state \<Rightarrow> bool" where
  "raws_below u st \<longleftrightarrow>
    sorted_wrt (\<lambda>a b. dr_start a < dr_start b) (rs_raws st) \<and>
    (\<forall>r \<in> set (rs_raws st). dr_start r < (case rs_start st of None \<Rightarrow> u | Some s \<Rightarrow> s)) \<and>
    (\<forall>s. rs_start st = Some s \<longrightarrow> s \<le> u)"

lemma raws_loop_sorted:
  "raws_below u st \<Longrightarrow> sorted_wrt (\<lambda>a b. dr_start a < dr_start b) (raws_loop code u st)"
proof (induction code u st rule: raws_loop.induct)
  case (1 code u st)
  have widen: "raws_below (u + 1) (st\<lparr>rs_raws := widen_last (rs_raws st)\<rparr>)"
  proof (cases "rs_raws st" rule: rev_cases)
    case Nil
    then show ?thesis using 1(4) by (auto simp: raws_below_def widen_last_def)
  next
    case (snoc rs r)
    then show ?thesis
      using 1(4) by (auto simp: raws_below_def widen_last_def sorted_wrt_append split: option.splits)
  qed
  have prefix: "raws_below (u + 1) (st\<lparr>rs_start := (case rs_start st of None \<Rightarrow> Some u | Some s \<Rightarrow> Some s),
      rs_pending := p\<rparr>)" for p
    using 1(4) by (auto simp: raws_below_def split: option.splits)
  have whole: "raws_below (u + (1 + n)) \<lparr>rs_raws = rs_raws st @ [\<lparr>dr_op = c, dr_arg = a,
      dr_start = (case rs_start st of None \<Rightarrow> u | Some s \<Rightarrow> s), dr_size = z\<rparr>],
      rs_pending = 0, rs_start = None\<rparr>" for n c a z
    using 1(4) by (fastforce simp: raws_below_def sorted_wrt_append split: option.splits)
  show ?case
  proof (cases "length code div 2 \<le> u")
    case True
    then show ?thesis using 1(4) by (simp add: raws_loop.simps [of code u st] raws_below_def)
  next
    case False
    show ?thesis
      using 1(1) [OF False refl refl _ prefix] 1(2) [OF False refl refl _ _ widen]
        1(3) [OF False refl refl _ _ refl refl whole] False
      by (simp add: raws_loop.simps [of code u st] Let_def)
  qed
qed

lemma decode_raws_sorted: "sorted_wrt (\<lambda>a b. dr_start a < dr_start b) (decode_raws code)"
  unfolding decode_raws_def by (rule raws_loop_sorted) (simp add: raws_below_def)

end
