(* ===== verification/Code_Lines.thy ===== *)
theory Code_Lines
  imports Code_Units
begin

text \<open>
  The location table read back: one lemma per entry form, then chunks, runs and the whole
  table. What survives of a position is \<open>seen_line\<close> and \<open>seen_span\<close>: a missing line reads
  as 0, the columns of an entry without columns as unknown, and a span that would end
  before it starts ends on its own line.
\<close>

section \<open>What survives\<close>

definition seen_line :: "Position \<Rightarrow> w32" where
  "seen_line p = i32_max0 (p_lineno p)"

definition seen_span :: "Position \<Rightarrow> ColSpan" where
  "seen_span p =
    (let column = col_i32 (p_col p); end_column = col_i32 (p_end_col p)
     in if sint (p_lineno p) < 0 then colspan_default
        else if (sint column < 0 \<or> sint end_column < 0)
                \<and> (p_end_lineno p = p_lineno p \<or> p_end_lineno p = - 1) then colspan_default
        else \<lparr>cs_end_lineno = i32_max0 (p_lineno p + i32_max0 (p_end_lineno p - p_lineno p)),
              cs_col = column, cs_end_col = end_column\<rparr>)"

section \<open>Signed words\<close>

lemma sint_nonneg: "0 \<le> sint (v :: w32) \<longleftrightarrow> unat v < 2 ^ 31"
  using sint_top [of v] top_bit [of v] by linarith

lemma sint_unat: "0 \<le> sint (v :: w32) \<Longrightarrow> sint v = int (unat v)"
proof -
  assume "0 \<le> sint v"
  then have "int (unat v) < int (2 ^ 31)" by (simp only: sint_nonneg of_nat_less_iff)
  moreover have e: "int (unat v) = uint v" by simp
  ultimately have "uint v < int (2 ^ 31)" by (simp only: e)
  then have "uint v < 2 ^ 31" by simp
  moreover have "- (2 ^ 31) \<le> uint v" by (rule order_trans [OF _ unsigned_greater_eq]) simp
  ultimately have "signed_take_bit 31 (uint v) = uint v" by (intro signed_take_bit_int_eq_self) simp_all
  then show ?thesis by (simp add: sint_uint)
qed

lemma sint_less_unat: "0 \<le> sint (v :: w32) \<Longrightarrow> sint v < int k \<longleftrightarrow> unat v < k"
  by (simp only: sint_unat of_nat_less_iff)

lemma i32_max0_nonneg: "0 \<le> sint v \<Longrightarrow> i32_max0 v = v"
  by (simp add: i32_max0_def)

lemma delta_ok:
  assumes "0 \<le> sint (a :: w32)" "0 \<le> sint (b :: w32)"
  shows "a - b \<noteq> 0x80000000"
proof
  assume "a - b = 0x80000000"
  then have "a = b + 0x80000000" by (simp add: algebra_simps)
  then have "unat a = (unat b + 2147483648) mod 4294967296"
    using unat_word_ariths(1) [of b "0x80000000"] by simp
  with assms show False by (simp add: sint_nonneg)
qed

lemma low_bits: "unat (v :: 'a::len word) < 2 ^ n \<Longrightarrow> v AND mask n = v"
proof -
  assume "unat v < 2 ^ n"
  then have "unat (take_bit n v) = unat v" by (simp add: unsigned_take_bit_eq take_bit_nat_eq_self)
  then have "take_bit n v = v" by (simp only: word_unat_eq_iff)
  then show ?thesis by (simp add: take_bit_eq_mask)
qed

lemma low_masks:
  "unat (v :: w32) < 8 \<Longrightarrow> v AND 7 = v" "unat (v :: w32) < 16 \<Longrightarrow> v AND 15 = v"
  "unat (v :: w32) < 128 \<Longrightarrow> v AND 127 = v" "unat (c :: w8) < 16 \<Longrightarrow> c AND 15 = c"
  "unat (c :: w8) < 8 \<Longrightarrow> c AND 7 = c"
  using low_bits [of v 3] low_bits [of v 4] low_bits [of v 7] low_bits [of c 4] low_bits [of c 3]
  by (simp_all add: mask_eq_exp_minus_1)

section \<open>The first byte\<close>

lemma more_mask_bits [simp]: "bit (7 :: int) n \<longleftrightarrow> n < 3" "bit (15 :: int) n \<longleftrightarrow> n < 4"
  "bit (127 :: int) n \<longleftrightarrow> n < 7" "bit (128 :: int) n \<longleftrightarrow> n = 7"
  "bit (16 :: int) n \<longleftrightarrow> n = 4"
proof -
  have m: "(7 :: int) = mask 3" "(15 :: int) = mask 4" "(127 :: int) = mask 7" "(128 :: int) = 2 ^ 7"
    "(16 :: int) = 2 ^ 4"
    by (simp_all add: mask_eq_exp_minus_1)
  show "bit (7 :: int) n \<longleftrightarrow> n < 3" unfolding m by (simp only: bit_mask_iff) simp
  show "bit (15 :: int) n \<longleftrightarrow> n < 4" unfolding m by (simp only: bit_mask_iff) simp
  show "bit (127 :: int) n \<longleftrightarrow> n < 7" unfolding m by (simp only: bit_mask_iff) simp
  show "bit (128 :: int) n \<longleftrightarrow> n = 7" unfolding m by (simp only: bit_exp_iff) auto
  show "bit (16 :: int) n \<longleftrightarrow> n = 4" unfolding m by (simp only: bit_exp_iff) auto
qed

lemma first_byte_bits:
  assumes "code AND 15 = code" "x AND 7 = (x :: w8)"
  shows "(0x80 OR push_bit 3 code OR x) AND 0x80 \<noteq> 0"
    "drop_bit 3 (0x80 OR push_bit 3 code OR x) AND 0x0F = code"
    "(0x80 OR push_bit 3 code OR x) AND 7 = x"
proof -
  have "bit ((0x80 OR push_bit 3 code OR x) AND 0x80) 7" by (simp add: bit_simps)
  then show "(0x80 OR push_bit 3 code OR x) AND 0x80 \<noteq> 0" by (metis bit_0_eq bot_apply bot_bool_def)
  have "drop_bit 3 (0x80 OR push_bit 3 (code AND 15) OR (x AND 7)) AND 0x0F = code AND 15"
    by (rule bit_word_eqI) (auto simp: bit_simps)
  then show "drop_bit 3 (0x80 OR push_bit 3 code OR x) AND 0x0F = code" using assms by simp
  have "(0x80 OR push_bit 3 code OR (x AND 7)) AND 7 = x AND 7"
    by (rule bit_word_eqI) (auto simp: bit_simps)
  then show "(0x80 OR push_bit 3 code OR x) AND 7 = x" using assms by simp
qed

lemma first_byte_reads:
  assumes "unat code < 16" "1 \<le> n" "n \<le> 8"
  shows "first_byte code n AND 0x80 \<noteq> 0" "drop_bit 3 (first_byte code n) AND 0x0F = code"
    "unat (first_byte code n AND 0x07) + 1 = n"
proof -
  have x: "unat (word_of_nat (n - 1) :: w8) = n - 1" using assms(3) by (simp add: unsigned_of_nat take_bit_nat_eq_self)
  then have "unat (word_of_nat (n - 1) :: w8) < 8" using assms(2, 3) by simp
  note b = first_byte_bits [OF low_masks(4) [OF assms(1)] low_masks(5) [OF this]]
  show "first_byte code n AND 0x80 \<noteq> 0" "drop_bit 3 (first_byte code n) AND 0x0F = code"
    "unat (first_byte code n AND 0x07) + 1 = n"
    using b x assms(2) by (simp_all only: first_byte_def) simp_all
qed

section \<open>Columns\<close>

lemma short_col:
  assumes "unat (column :: w32) < 128" "unat (d :: w32) < 16"
  defines "b \<equiv> push_bit 4 (ucast (column AND 7)) OR ucast d :: w8"
  shows "push_bit 3 (ucast (ucast (drop_bit 3 column) :: w8)) OR ucast (drop_bit 4 b) = column"
    "ucast (b AND 0x0F) = d"
proof -
  have c: "column AND 127 = column" and d: "d AND 15 = d" using assms(1, 2) low_masks by blast+
  have "push_bit 3 (ucast (ucast (drop_bit 3 (column AND 127)) :: w8))
      OR ucast (drop_bit 4 (push_bit 4 (ucast ((column AND 127) AND 7)) OR ucast (d AND 15) :: w8))
      = column AND 127"
  proof (rule bit_word_eqI)
    fix n assume n: "n < LENGTH(32)"
    show "bit (push_bit 3 (ucast (ucast (drop_bit 3 (column AND 127)) :: w8) :: w32)
        OR ucast (drop_bit 4 (push_bit 4 (ucast ((column AND 127) AND 7)) OR ucast (d AND 15) :: w8))) n
        = bit (column AND 127) n"
      using n by (cases "n < 3") (auto simp: bit_simps)
  qed
  then show "push_bit 3 (ucast (ucast (drop_bit 3 column) :: w8)) OR ucast (drop_bit 4 b) = column"
    by (simp only: c d b_def)
  have "ucast ((push_bit 4 (ucast (column AND 7)) OR ucast (d AND 15) :: w8) AND 0x0F) = d AND 15"
    by (rule bit_word_eqI) (auto simp: bit_simps)
  then show "ucast (b AND 0x0F) = d" by (simp only: d b_def)
qed

lemma byte_col: "unat (v :: w32) < 128 \<Longrightarrow> ucast ((ucast v :: w8) AND 0x7F) = v"
proof -
  assume "unat v < 128"
  then have v: "v AND 127 = v" by (rule low_masks(3))
  have "ucast ((ucast (v AND 127) :: w8) AND 0x7F) = v AND 127"
    by (rule bit_word_eqI) (auto simp: bit_simps)
  then show ?thesis by (simp only: v)
qed

section \<open>One entry\<close>

lemma linetable_read_first:
  assumes "pos < length table" "table ! pos = first_byte code n" "unat code < 16" "1 \<le> n" "n \<le> 8"
  shows "code = 15 \<Longrightarrow> linetable_read table f unit pos line st
      = linetable_read table f (unit + n) (Suc pos) line (emit_lines 0 colspan_default (unit + n) st)"
    "code \<noteq> 15 \<Longrightarrow> read_entry code table (Suc pos) line = (delta, span, pos') \<Longrightarrow>
      linetable_read table f unit pos line st
      = linetable_read table f (unit + n) pos' (line + delta)
          (emit_lines (i32_max0 (line + delta)) span (unit + n) st)"
proof -
  note b = first_byte_reads [OF assms(3, 4, 5)]
  show "code = 15 \<Longrightarrow> linetable_read table f unit pos line st
      = linetable_read table f (unit + n) (Suc pos) line (emit_lines 0 colspan_default (unit + n) st)"
    "code \<noteq> 15 \<Longrightarrow> read_entry code table (Suc pos) line = (delta, span, pos') \<Longrightarrow>
      linetable_read table f unit pos line st
      = linetable_read table f (unit + n) pos' (line + delta)
          (emit_lines (i32_max0 (line + delta)) span (unit + n) st)"
    using assms(1, 2) b by (simp_all add: linetable_read.simps [of table f unit pos] Let_def)
qed

text \<open>\<open>enc'\<close> extends \<open>enc\<close> by bytes that read as one run of \<open>n\<close> units at \<open>p\<close>.\<close>

definition reads_back :: "LocationEncoder \<Rightarrow> LocationEncoder \<Rightarrow> nat \<Rightarrow> Position \<Rightarrow> bool" where
  "reads_back enc enc' n p \<longleftrightarrow>
    (\<exists>bs. le_out enc' = le_out enc @ bs \<and> 0 \<le> sint (le_lineno enc') \<and>
      (\<forall>table f unit pos st. bytes_at table pos bs \<longrightarrow>
        linetable_read table f unit pos (le_lineno enc) st
        = linetable_read table f (unit + n) (pos + length bs) (le_lineno enc')
            (emit_lines (seen_line p) (seen_span p) (unit + n) st)))"

lemma reads_backI:
  assumes "le_out enc' = le_out enc @ first_byte code n # bs" "unat code < 16" "code \<noteq> 15"
    "1 \<le> n" "n \<le> 8" "0 \<le> sint (p_lineno p)" "le_lineno enc' = p_lineno p"
    "\<And>table pos. bytes_at table (Suc pos) bs \<Longrightarrow>
      read_entry code table (Suc pos) (le_lineno enc)
      = (p_lineno p - le_lineno enc, seen_span p, Suc pos + length bs)"
  shows "reads_back enc enc' n p"
  unfolding reads_back_def
proof (intro exI [of _ "first_byte code n # bs"] conjI allI impI)
  fix table f unit pos st
  assume "bytes_at table pos (first_byte code n # bs)"
  then have at: "pos < length table" "table ! pos = first_byte code n" "bytes_at table (Suc pos) bs"
    by (simp_all add: bytes_at_Cons)
  show "linetable_read table f unit pos (le_lineno enc) st
      = linetable_read table f (unit + n) (pos + length (first_byte code n # bs)) (le_lineno enc')
          (emit_lines (seen_line p) (seen_span p) (unit + n) st)"
    using linetable_read_first(2) [OF at(1, 2) assms(2, 4, 5, 3) assms(8) [OF at(3)]] assms(7)
    by (simp add: seen_line_def)
qed (use assms in simp_all)

lemma entry_none:
  assumes "sint (p_lineno p) < 0" "1 \<le> n" "n \<le> 8" "0 \<le> sint (le_lineno enc)"
  shows "reads_back enc (emit_entry p n enc) n p"
  unfolding reads_back_def
proof (intro exI [of _ "[first_byte CODE_NONE n]"] conjI allI impI)
  fix table f unit pos st
  assume "bytes_at table pos [first_byte CODE_NONE n]"
  then have at: "pos < length table" "table ! pos = first_byte CODE_NONE n"
    by (simp_all add: bytes_at_Cons)
  have "linetable_read table f unit pos (le_lineno enc) st
      = linetable_read table f (unit + n) (Suc pos) (le_lineno enc) (emit_lines 0 colspan_default (unit + n) st)"
    by (rule linetable_read_first(1) [OF at _ assms(2, 3)]) (simp_all add: CODE_NONE_def)
  moreover have "seen_line p = 0" "seen_span p = colspan_default"
    using assms(1) by (simp_all add: seen_line_def i32_max0_def seen_span_def)
  ultimately show "linetable_read table f unit pos (le_lineno enc) st
      = linetable_read table f (unit + n) (pos + length [first_byte CODE_NONE n])
          (le_lineno (emit_entry p n enc)) (emit_lines (seen_line p) (seen_span p) (unit + n) st)"
    using assms(1) by (simp add: emit_entry_def le_push_def)
qed (use assms in \<open>simp_all add: emit_entry_def le_push_def\<close>)

lemma entry_no_columns:
  assumes "0 \<le> sint (p_lineno p)" "1 \<le> n" "n \<le> 8" "0 \<le> sint (le_lineno enc)"
    "sint (col_i32 (p_col p)) < 0 \<or> sint (col_i32 (p_end_col p)) < 0"
    "p_end_lineno p = p_lineno p \<or> p_end_lineno p = - 1"
  shows "reads_back enc (emit_entry p n enc) n p"
proof (rule reads_backI [where code = CODE_NO_COLUMNS
      and bs = "push_loc_svarint (p_lineno p - le_lineno enc) 0"])
  show "read_entry CODE_NO_COLUMNS table (Suc pos) (le_lineno enc)
      = (p_lineno p - le_lineno enc, seen_span p,
         Suc pos + length (push_loc_svarint (p_lineno p - le_lineno enc) 0))"
    if "bytes_at table (Suc pos) (push_loc_svarint (p_lineno p - le_lineno enc) 0)" for table pos
    using read_loc_svarint_push [OF that delta_ok [OF assms(1, 4)]] assms
    by (simp add: read_entry_def CODE_NO_COLUMNS_def seen_span_def)
qed (use assms in \<open>auto simp: emit_entry_def le_push_def CODE_NO_COLUMNS_def\<close>)

lemma entry_long:
  assumes "0 \<le> sint (p_lineno p)" "1 \<le> n" "n \<le> 8" "0 \<le> sint (le_lineno enc)"
    "(sint (col_i32 (p_col p)) < 0 \<or> sint (col_i32 (p_end_col p)) < 0) \<Longrightarrow>
      \<not> (p_end_lineno p = p_lineno p \<or> p_end_lineno p = - 1)"
  shows "reads_back enc (emit_long p n (p_lineno p - le_lineno enc) (col_i32 (p_col p))
      (col_i32 (p_end_col p)) enc) n p"
proof -
  let ?d = "p_lineno p - le_lineno enc" and ?e = "i32_max0 (p_end_lineno p - p_lineno p)"
  let ?c = "col_i32 (p_col p)" and ?ec = "col_i32 (p_end_col p)"
  let ?bs = "push_loc_svarint ?d 0 @ push_loc_varint ?e 0 @ push_loc_varint (?c + 1) 0
      @ push_loc_varint (?ec + 1) 0"
  show ?thesis
  proof (rule reads_backI [where code = CODE_LONG and bs = ?bs])
    fix table pos
    assume "bytes_at table (Suc pos) ?bs"
    then have at: "bytes_at table (Suc pos) (push_loc_svarint ?d 0)"
        "bytes_at table (Suc pos + length (push_loc_svarint ?d 0)) (push_loc_varint ?e 0)"
        "bytes_at table (Suc pos + length (push_loc_svarint ?d 0) + length (push_loc_varint ?e 0))
          (push_loc_varint (?c + 1) 0)"
        "bytes_at table (Suc pos + length (push_loc_svarint ?d 0) + length (push_loc_varint ?e 0)
          + length (push_loc_varint (?c + 1) 0)) (push_loc_varint (?ec + 1) 0)"
      by (simp_all only: bytes_at_append)
    show "read_entry CODE_LONG table (Suc pos) (le_lineno enc) = (?d, seen_span p, Suc pos + length ?bs)"
      using read_loc_svarint_push [OF at(1) delta_ok [OF assms(1, 4)]] read_loc_varint_push [OF at(2)]
        read_loc_varint_push [OF at(3)] read_loc_varint_push [OF at(4)] assms(1, 5)
      by (auto simp: read_entry_def CODE_LONG_def read_long_def seen_span_def Let_def)
  qed (use assms in \<open>simp_all add: emit_long_def le_push_def CODE_LONG_def\<close>)
qed

text \<open>The two compact forms.\<close>

lemma span_same_line:
  assumes "0 \<le> sint (p_lineno p)" "p_end_lineno p = p_lineno p"
    "0 \<le> sint (col_i32 (p_col p))" "0 \<le> sint (col_i32 (p_end_col p))"
  shows "seen_span p = \<lparr>cs_end_lineno = i32_max0 (p_lineno p), cs_col = col_i32 (p_col p),
    cs_end_col = col_i32 (p_end_col p)\<rparr>"
  using assms by (simp add: seen_span_def i32_max0_def)

lemma unat_diff_small:
  assumes "0 \<le> sint (a :: w32)" "0 \<le> sint (b :: w32)" "sint a \<le> sint b" "sint (b - a) < 16"
  shows "unat (b - a) < 16"
proof -
  have "int (unat a) \<le> int (unat b)"
    using assms(3) by (simp only: sint_unat [OF assms(1)] sint_unat [OF assms(2)])
  then have "unat a \<le> unat b" by (simp only: of_nat_le_iff)
  then have "unat (b - a) = unat b - unat a" by (intro unat_sub) (simp add: word_le_nat_alt)
  then have "0 \<le> sint (b - a)" using assms(2) by (simp add: sint_nonneg)
  then show ?thesis using assms(4) sint_less_unat [of "b - a" 16] by simp
qed

lemma short_code:
  assumes "unat (c :: w32) < 80"
  shows "unat (CODE_SHORT0 + ucast (drop_bit 3 c)) < 10"
proof -
  have "unat (drop_bit 3 c) = unat c div 8" using unat_drop_bit_eq [of 3 c] by (simp add: drop_bit_nat_def)
  then have "unat (drop_bit 3 c) < 10" using assms by (simp only: less_mult_imp_div_less)
  then show ?thesis by (simp add: CODE_SHORT0_def unsigned_ucast_eq take_bit_nat_eq_self)
qed

lemma entry_short:
  assumes "0 \<le> sint (p_lineno p)" "1 \<le> n" "n \<le> 8" "p_end_lineno p = p_lineno p"
    "0 \<le> sint (col_i32 (p_col p))" "0 \<le> sint (col_i32 (p_end_col p))"
    "p_lineno p = le_lineno enc" "sint (col_i32 (p_col p)) < 80"
    "sint (col_i32 (p_end_col p) - col_i32 (p_col p)) < 16"
    "sint (col_i32 (p_col p)) \<le> sint (col_i32 (p_end_col p))"
  shows "reads_back enc (emit_entry p n enc) n p"
proof -
  let ?c = "col_i32 (p_col p)" and ?ec = "col_i32 (p_end_col p)"
  let ?code = "CODE_SHORT0 + ucast (drop_bit 3 ?c)"
  let ?b = "push_bit 4 (ucast (?c AND 7)) OR ucast (?ec - ?c) :: w8"
  have small: "unat ?c < 80" "unat (?ec - ?c) < 16"
    using assms(5, 8) sint_less_unat [of ?c 80] unat_diff_small [OF assms(5, 6, 10, 9)] by simp_all
  have code: "unat ?code < 10" by (rule short_code [OF small(1)])
  then have "\<not> 10 \<le> ?code" "?code \<noteq> 13" "?code \<noteq> 14" "?code \<noteq> 15"
    by (auto simp: word_le_nat_alt)
  note codes = this
  have "\<not> sint (p_lineno p) < 0" "\<not> (sint ?c < 0 \<or> sint ?ec < 0)" "p_lineno p - le_lineno enc = 0"
    using assms(1, 5, 6, 7) by simp_all
  then have e: "emit_entry p n enc = le_push [first_byte ?code n, ?b] enc"
    using assms(4, 8, 9, 10) unfolding emit_entry_def Let_def by (simp only: if_False if_True simp_thms)
  show ?thesis
    unfolding e
  proof (rule reads_backI [where code = ?code and bs = "[?b]"])
    fix table pos
    assume "bytes_at table (Suc pos) [?b]"
    then have "get_or table (Suc pos) 0 = ?b" by (simp add: bytes_at_Cons)
    moreover have "unat ?c < 128" using small by simp
    note col = short_col [OF this small(2)]
    ultimately have "read_short ?code table (Suc pos) (le_lineno enc)
        = (0, seen_span p, Suc pos + length [?b])"
      using col span_same_line [OF assms(1, 4, 5, 6)] assms(7)
      by (simp add: read_short_def CODE_SHORT0_def)
    then show "read_entry ?code table (Suc pos) (le_lineno enc)
        = (p_lineno p - le_lineno enc, seen_span p, Suc pos + length [?b])"
      using codes assms(7) by (simp add: read_entry_def)
  qed (use assms(1, 2, 3, 7) code codes in \<open>simp_all add: le_push_def\<close>)
qed

lemma one_line_code:
  "(code :: w8) = 10 \<and> d = 0 \<or> code = 11 \<and> d = 1 \<or> code = 12 \<and> d = 2 \<Longrightarrow>
    code \<noteq> 13 \<and> code \<noteq> 14 \<and> code \<noteq> 15 \<and> 10 \<le> code \<and> code \<le> 12 \<and> unat code < 16
    \<and> ucast code - 10 = (d :: w32)"
  by auto

lemma entry_one_line:
  assumes "0 \<le> sint (p_lineno p)" "1 \<le> n" "n \<le> 8" "p_end_lineno p = p_lineno p"
    "0 \<le> sint (col_i32 (p_col p))" "0 \<le> sint (col_i32 (p_end_col p))"
    "0 \<le> sint (p_lineno p - le_lineno enc)" "sint (p_lineno p - le_lineno enc) < 3"
    "sint (col_i32 (p_col p)) < 128" "sint (col_i32 (p_end_col p)) < 128"
  shows "reads_back enc
    ((le_push [first_byte (CODE_ONE_LINE0 + ucast (p_lineno p - le_lineno enc)) n,
       ucast (col_i32 (p_col p)), ucast (col_i32 (p_end_col p))] enc)\<lparr>le_lineno := p_lineno p\<rparr>) n p"
proof -
  let ?c = "col_i32 (p_col p)" and ?ec = "col_i32 (p_end_col p)" and ?d = "p_lineno p - le_lineno enc"
  have small: "unat ?c < 128" "unat ?ec < 128" "unat ?d < 3"
    using assms(5-10) sint_less_unat [of ?c 128] sint_less_unat [of ?ec 128] sint_less_unat [of ?d 3]
    by simp_all
  have "unat ?d = 0 \<or> unat ?d = 1 \<or> unat ?d = 2" using small(3) by linarith
  then have d: "?d = 0 \<or> ?d = 1 \<or> ?d = 2" by (simp only: word_unat_eq_iff) simp
  let ?code = "CODE_ONE_LINE0 + ucast ?d :: w8"
  have code: "?code = 10 \<and> ?d = 0 \<or> ?code = 11 \<and> ?d = 1 \<or> ?code = 12 \<and> ?d = 2"
    using d by (auto simp: CODE_ONE_LINE0_def)
  note codes = one_line_code [OF this]
  show ?thesis
  proof (rule reads_backI [where code = ?code and bs = "[ucast ?c, ucast ?ec]"])
    fix table pos
    assume "bytes_at table (Suc pos) [ucast ?c, ucast ?ec]"
    then have g: "get_or table (Suc pos) 0 = ucast ?c" "get_or table (Suc (Suc pos)) 0 = ucast ?ec"
      by (simp_all add: bytes_at_Cons)
    show "read_entry ?code table (Suc pos) (le_lineno enc)
        = (?d, seen_span p, Suc pos + length [ucast ?c, ucast ?ec :: w8])"
    proof -
      have "read_entry ?code table (Suc pos) (le_lineno enc) = read_one_line ?code table (Suc pos) (le_lineno enc)"
        using codes by (simp only: read_entry_def if_False if_True simp_thms)
      also have "\<dots> = (?d, seen_span p, Suc pos + length [ucast ?c, ucast ?ec :: w8])"
        using codes by (simp add: read_one_line_def g byte_col small span_same_line [OF assms(1, 4, 5, 6)])
      finally show ?thesis .
    qed
  qed (use assms(1, 2, 3) codes in \<open>simp_all add: le_push_def\<close>)
qed

theorem entry_reads:
  assumes "1 \<le> n" "n \<le> 8" "0 \<le> sint (le_lineno enc)"
  shows "reads_back enc (emit_entry p n enc) n p"
proof (cases "sint (p_lineno p) < 0")
  case True
  then show ?thesis using entry_none assms by blast
next
  case False
  note nl = this
  then have line: "0 \<le> sint (p_lineno p)" by simp
  let ?c = "col_i32 (p_col p)" and ?ec = "col_i32 (p_end_col p)" and ?d = "p_lineno p - le_lineno enc"
  show ?thesis
  proof (cases "sint ?c < 0 \<or> sint ?ec < 0")
    case True
    then show ?thesis
      using entry_no_columns [OF line assms] entry_long [OF line assms] line
      by (cases "p_end_lineno p = p_lineno p \<or> p_end_lineno p = - 1") (auto simp: emit_entry_def Let_def)
  next
    case cols: False
    consider "p_end_lineno p \<noteq> p_lineno p"
      | "p_end_lineno p = p_lineno p" "?d = 0 \<and> sint ?c < 80 \<and> sint (?ec - ?c) < 16 \<and> sint ?c \<le> sint ?ec"
      | "p_end_lineno p = p_lineno p" "\<not> (?d = 0 \<and> sint ?c < 80 \<and> sint (?ec - ?c) < 16 \<and> sint ?c \<le> sint ?ec)"
        "0 \<le> sint ?d \<and> sint ?d < 3 \<and> sint ?c < 128 \<and> sint ?ec < 128"
      | "p_end_lineno p = p_lineno p" "\<not> (?d = 0 \<and> sint ?c < 80 \<and> sint (?ec - ?c) < 16 \<and> sint ?c \<le> sint ?ec)"
        "\<not> (0 \<le> sint ?d \<and> sint ?d < 3 \<and> sint ?c < 128 \<and> sint ?ec < 128)"
      by blast
    then show ?thesis
    proof cases
      case 1
      then have "emit_entry p n enc = emit_long p n ?d ?c ?ec enc"
        using line cols by (simp add: emit_entry_def Let_def)
      then show ?thesis using entry_long [OF line assms] cols by simp
    next
      case 2
      then have "p_lineno p = le_lineno enc" by simp
      then show ?thesis
        using entry_short [OF line assms(1, 2) 2(1)] cols 2(2) by simp
    next
      case 3
      then have "emit_entry p n enc = (le_push [first_byte (CODE_ONE_LINE0 + ucast ?d) n,
          ucast ?c, ucast ?ec] enc)\<lparr>le_lineno := p_lineno p\<rparr>"
        using nl cols unfolding emit_entry_def Let_def by (simp only: if_False if_True simp_thms)
      then show ?thesis using entry_one_line [OF line assms(1, 2) 3(1)] cols 3(3) by simp
    next
      case 4
      then have "emit_entry p n enc = emit_long p n ?d ?c ?ec enc"
        using nl cols unfolding emit_entry_def Let_def by (simp only: if_False if_True simp_thms)
      then show ?thesis using entry_long [OF line assms] cols by simp
    qed
  qed
qed

section \<open>Runs\<close>

lemma emit_lines_again:
  "e1 \<le> e2 \<Longrightarrow> emit_lines l s e2 (emit_lines l s e1 st) = emit_lines l s e2 st"
proof (induction l s e1 st rule: emit_lines.induct)
  case (1 l s e1 st)
  show ?case
  proof (cases "lo_raws st")
    case Nil
    then show ?thesis by (simp add: emit_lines.simps [of l s e1 st])
  next
    case (Cons r rest)
    then show ?thesis
      using 1 by (auto simp: emit_lines.simps [of l s e1 st] emit_lines.simps [of l s e2 st])
  qed
qed

text \<open>The state after the runs \<open>items\<close> from \<open>unit\<close>.\<close>

fun place_items :: "nat \<Rightarrow> (Position \<times> nat) list \<Rightarrow> loc_out \<Rightarrow> loc_out" where
  "place_items unit [] st = st"
| "place_items unit ((p, n) # items) st =
    place_items (unit + n) items (emit_lines (seen_line p) (seen_span p) (unit + n) st)"

text \<open>\<open>enc'\<close> extends \<open>enc\<close> by the runs \<open>items\<close>.\<close>

definition runs_back :: "LocationEncoder \<Rightarrow> LocationEncoder \<Rightarrow> (Position \<times> nat) list \<Rightarrow> bool" where
  "runs_back enc enc' items \<longleftrightarrow>
    (\<exists>bs. le_out enc' = le_out enc @ bs \<and> 0 \<le> sint (le_lineno enc') \<and>
      (\<forall>table f unit pos st. bytes_at table pos bs \<longrightarrow>
        linetable_read table f unit pos (le_lineno enc) st
        = linetable_read table f (unit + sum_list (map snd items)) (pos + length bs) (le_lineno enc')
            (place_items unit items st)))"

lemma place_items_append:
  "place_items unit (xs @ ys) st = place_items (unit + sum_list (map snd xs)) ys (place_items unit xs st)"
  by (induction unit xs st rule: place_items.induct) (simp_all add: add_ac)

lemma runs_back_Nil: "0 \<le> sint (le_lineno enc) \<Longrightarrow> runs_back enc enc []"
  by (auto simp: runs_back_def intro: exI [of _ "[]"])

lemma runs_back_append:
  assumes "runs_back enc enc1 xs" "runs_back enc1 enc2 ys"
  shows "runs_back enc enc2 (xs @ ys)"
proof -
  obtain b1 where b1: "le_out enc1 = le_out enc @ b1"
      "\<And>table f unit pos st. bytes_at table pos b1 \<Longrightarrow>
        linetable_read table f unit pos (le_lineno enc) st
        = linetable_read table f (unit + sum_list (map snd xs)) (pos + length b1) (le_lineno enc1)
            (place_items unit xs st)"
    using assms(1) unfolding runs_back_def by blast
  obtain b2 where b2: "le_out enc2 = le_out enc1 @ b2" "0 \<le> sint (le_lineno enc2)"
      "\<And>table f unit pos st. bytes_at table pos b2 \<Longrightarrow>
        linetable_read table f unit pos (le_lineno enc1) st
        = linetable_read table f (unit + sum_list (map snd ys)) (pos + length b2) (le_lineno enc2)
            (place_items unit ys st)"
    using assms(2) unfolding runs_back_def by blast
  show ?thesis
    unfolding runs_back_def
  proof (intro exI [of _ "b1 @ b2"] conjI allI impI)
    fix table f unit pos st
    assume "bytes_at table pos (b1 @ b2)"
    then have "bytes_at table pos b1" "bytes_at table (pos + length b1) b2"
      by (simp_all add: bytes_at_append)
    then show "linetable_read table f unit pos (le_lineno enc) st
        = linetable_read table f (unit + sum_list (map snd (xs @ ys))) (pos + length (b1 @ b2))
            (le_lineno enc2) (place_items unit (xs @ ys) st)"
      by (simp add: b1(2) b2(3) place_items_append add_ac)
  qed (simp_all add: b1 b2)
qed

text \<open>A run may be cut into chunks.\<close>

lemma runs_back_join:
  "runs_back enc enc' ((p, m) # (p, n) # items) \<longleftrightarrow> runs_back enc enc' ((p, m + n) # items)"
  by (simp add: runs_back_def emit_lines_again add_ac)

lemma emit_chunks_back:
  "1 \<le> n \<Longrightarrow> 0 \<le> sint (le_lineno enc) \<Longrightarrow> runs_back enc (emit_chunks p n enc) [(p, n)]"
proof (induction p n enc rule: emit_chunks.induct)
  case (1 p n enc)
  have entry: "runs_back enc (emit_entry p m enc) [(p, m)]" if "1 \<le> m" "m \<le> 8" for m
    using entry_reads [OF that 1(3), of p] by (simp add: runs_back_def reads_back_def)
  show ?case
  proof (cases "8 < n")
    case True
    have e: "runs_back enc (emit_entry p 8 enc) [(p, 8)]" by (rule entry) simp_all
    then have "0 \<le> sint (le_lineno (emit_entry p 8 enc))" by (auto simp: runs_back_def)
    then have "runs_back (emit_entry p 8 enc) (emit_chunks p (n - 8) (emit_entry p 8 enc)) [(p, n - 8)]"
      using 1(1) True by simp
    from runs_back_append [OF e this] have "runs_back enc (emit_chunks p n enc) [(p, 8), (p, n - 8)]"
      using True by (simp add: emit_chunks.simps [of p n])
    then show ?thesis using True by (simp add: runs_back_join)
  next
    case False
    then show ?thesis using entry [of n] 1(2) by (simp add: emit_chunks.simps [of p n])
  qed
qed

lemma emit_location_back:
  "1 \<le> n \<Longrightarrow> 0 \<le> sint (le_lineno enc) \<Longrightarrow> runs_back enc (emit_location p n enc) [(p, n)]"
  using emit_chunks_back [of n enc p] by (simp add: emit_location_def)

lemma linetable_loop_back:
  assumes "\<forall>x \<in> set items. 1 \<le> snd x" "0 \<le> sint (le_lineno enc)" "1 \<le> sz"
  shows "runs_back enc (linetable_loop items (Some p) sz enc) ((p, sz) # items)"
  using assms
proof (induction items arbitrary: p sz enc)
  case Nil
  then show ?case by (simp add: flush_run_def emit_location_back)
next
  case (Cons x items)
  obtain q n where x: "x = (q, n)" by (cases x)
  show ?case
  proof (cases "q = p")
    case True
    then show ?thesis
      using Cons.IH [of enc "sz + n" p] Cons.prems by (simp add: x runs_back_join)
  next
    case False
    have first: "runs_back enc (emit_location p sz enc) [(p, sz)]"
      using Cons.prems by (intro emit_location_back) simp_all
    then have "0 \<le> sint (le_lineno (emit_location p sz enc))" by (auto simp: runs_back_def)
    with Cons.IH [of "emit_location p sz enc" n q] Cons.prems
    have "runs_back (emit_location p sz enc)
        (linetable_loop items (Some q) n (emit_location p sz enc)) ((q, n) # items)"
      by (simp add: x)
    from runs_back_append [OF first this] show ?thesis using False by (simp add: x flush_run_def)
  qed
qed

section \<open>The whole table\<close>

definition lines_of :: "(Position \<times> nat) list \<Rightarrow> wire_ins list \<Rightarrow> w32 list" where
  "lines_of items ws =
    concat (map2 (\<lambda>(p, _) (c, arg, _). replicate (raw_expansion c arg) (seen_line p)) items ws)"

definition spans_of :: "(Position \<times> nat) list \<Rightarrow> wire_ins list \<Rightarrow> ColSpan list" where
  "spans_of items ws =
    concat (map2 (\<lambda>(p, _) (c, arg, _). replicate (raw_expansion c arg) (seen_span p)) items ws)"

lemma emit_lines_stop: "\<forall>r \<in> set (lo_raws st). e \<le> dr_start r \<Longrightarrow> emit_lines l s e st = st"
  by (cases "lo_raws st") (simp_all add: emit_lines.simps [of l s e st])

lemma emit_lines_one:
  assumes "lo_raws st = r # rest" "dr_start r < e" "\<forall>r' \<in> set rest. e \<le> dr_start r'"
  shows "emit_lines l s e st = place_raw l s r (st\<lparr>lo_raws := rest\<rparr>)"
proof -
  have "emit_lines l s e (place_raw l s r (st\<lparr>lo_raws := rest\<rparr>)) = place_raw l s r (st\<lparr>lo_raws := rest\<rparr>)"
    using assms(3) by (intro emit_lines_stop) (simp add: place_raw_def)
  then show ?thesis using assms(1, 2) by (simp add: emit_lines.simps [of l s e st])
qed

lemma place_items_wire:
  assumes "lo_raws st = wire_raws u ws" "map snd items = map wire_size ws"
  shows "place_items u items st = \<lparr>lo_lines = lo_lines st @ lines_of items ws,
    lo_cols = lo_cols st @ spans_of items ws, lo_raws = []\<rparr>"
  using assms
proof (induction ws arbitrary: u items st)
  case Nil
  then show ?case by (simp add: lines_of_def spans_of_def)
next
  case (Cons w ws)
  obtain c arg ext where w: "w = (c, arg, ext)" by (cases w)
  obtain p rest where items: "items = (p, wire_size w) # rest" "map snd rest = map wire_size ws"
    using Cons.prems(2) by (cases items) auto
  let ?u = "u + wire_size w"
  let ?r = "\<lparr>dr_op = c, dr_arg = arg, dr_start = u, dr_size = wire_size w\<rparr>"
  have raws: "lo_raws st = ?r # wire_raws ?u ws" using Cons.prems(1) by (simp add: w wire_size_def)
  have "emit_lines (seen_line p) (seen_span p) ?u st
      = place_raw (seen_line p) (seen_span p) ?r (st\<lparr>lo_raws := wire_raws ?u ws\<rparr>)"
    by (rule emit_lines_one [OF raws]) (auto simp: w wire_size_def dest: wire_raws_ge)
  then show ?case
    using Cons.IH [of "place_raw (seen_line p) (seen_span p) ?r (st\<lparr>lo_raws := wire_raws ?u ws\<rparr>)" ?u rest]
      items
    by (simp add: place_raw_def lines_of_def spans_of_def w)
qed

lemma decode_linetable_back:
  assumes "\<forall>x \<in> set items. 1 \<le> snd x" "map snd items = map wire_size ws" "0 \<le> sint f"
  shows "decode_linetable (encode_locations items f) (wire_raws 0 ws) f
    = (lines_of items ws, spans_of items ws)"
proof (cases items)
  case Nil
  then show ?thesis
    using assms(2) by (simp add: decode_linetable_def encode_locations_def flush_run_def
        linetable_read.simps emit_lines.simps lines_of_def spans_of_def)
next
  case (Cons x rest)
  obtain p n where x: "x = (p, n)" by (cases x)
  let ?enc = "\<lparr>le_out = [], le_lineno = f\<rparr>"
  let ?st = "\<lparr>lo_lines = [], lo_cols = [], lo_raws = wire_raws 0 ws\<rparr>"
  have "runs_back ?enc (linetable_loop rest (Some p) n ?enc) items"
    using linetable_loop_back [of rest ?enc n p] assms(1, 3) by (simp add: Cons x)
  then obtain enc' where t: "linetable_loop items None 0 ?enc = enc'"
      "bytes_at (le_out enc') 0 (le_out enc') \<Longrightarrow> linetable_read (le_out enc') f 0 0 f ?st
        = linetable_read (le_out enc') f (sum_list (map snd items)) (length (le_out enc'))
            (le_lineno enc') (place_items 0 items ?st)"
    by (fastforce simp: runs_back_def Cons x flush_run_def)
  have "linetable_read (le_out enc') f 0 0 f ?st = emit_lines f colspan_default USIZE_MAX (place_items 0 items ?st)"
    using t(2) bytes_at_whole [of "[]" "le_out enc'"]
    by (simp add: linetable_read.simps [of "le_out enc'" f _ "length (le_out enc')"])
  then show ?thesis
    using place_items_wire [of ?st 0 ws items] assms(2)
    by (simp add: decode_linetable_def encode_locations_def t(1) emit_lines.simps)
qed

end
