(* ===== verification/Code_Encode.thy ===== *)
theory Code_Encode
  imports Code_Lines
begin

text \<open>
  What the encoder emits, seen as a list of wire instructions: the operations it can write,
  the operand and the prefix count that agree, the bytes, the positions and the offsets.
\<close>

section \<open>The operations\<close>

definition good_op :: "w8 \<Rightarrow> bool" where
  "good_op c \<longleftrightarrow> c \<noteq> op_EXTENDED_ARG \<and> c \<noteq> op_CACHE \<and> \<not> is_unknown_opcode c"

lemmas opcode_sorts = var_op.split_asm attr_op.split_asm arith_op.split_asm call_op.split_asm
  flow_op.split_asm container_op.split_asm func_op.split_asm exc_op.split_asm import_op.split_asm
  gen_op.split_asm pattern_op.split_asm added_op.split_asm refined_op.split_asm

lemma one_known: "\<not> (121 :: w8) \<le> 1" "\<not> (212 :: w8) \<le> 1"
  by (simp_all add: word_le_nat_alt)

lemma wire_of_good: "wire_of opc arg slots = Some (c, a) \<Longrightarrow> good_op c"
  unfolding wire_of_def good_op_def is_unknown_opcode_def
  by (cases opc; simp) (auto simp: one_known split: opcode_sorts option.splits UnaryKind.splits if_splits)

lemma map_to_good: "map_to_cpython ins slots = Some m \<Longrightarrow> good_op (mo_op m)"
  by (auto simp: map_to_cpython_def dest: wire_of_good)

definition ops_good :: "MappedOp list \<Rightarrow> bool" where
  "ops_good mapped \<longleftrightarrow> (\<forall>m \<in> set mapped. good_op (mo_op m))"

lemma ops_good_update: "ops_good mapped \<Longrightarrow> good_op (mo_op m) \<Longrightarrow> ops_good (mapped[i := m])"
  by (auto simp: ops_good_def dest: set_update_subset_insert [THEN subsetD])

lemma good_constants:
  "good_op op_LOAD_GLOBAL" "good_op op_LOAD_FAST_BORROW_LOAD_FAST_BORROW" "good_op op_LOAD_FAST_LOAD_FAST"
  "good_op op_STORE_FAST_LOAD_FAST" "good_op op_STORE_FAST_STORE_FAST" "good_op op_LOAD_FAST_BORROW"
  "good_op op_LOAD_FAST_CHECK" "good_op op_JUMP_BACKWARD_NO_INTERRUPT"
  by (simp_all add: good_op_def is_unknown_opcode_def)

lemma fuse_pair_good: "fuse_pair m a b = Some (c, arg) \<Longrightarrow> good_op c"
  by (auto simp: fuse_pair_def Let_def good_constants split: if_splits)

lemma set_op_good: "ops_good mapped \<Longrightarrow> good_op c \<Longrightarrow> ops_good (set_op i c mapped)"
  by (simp add: set_op_def ops_good_update)

lemma mark_step_good: "ops_good (fst acc) \<Longrightarrow> ops_good (fst (mark_step code i acc))"
  using set_op_good good_constants
  by (auto simp: mark_step_def Let_def split: prod.splits option.splits
      intro!: ops_good_update dest: fuse_pair_good)

lemma mark_step_length:
  "length (fst (mark_step code i acc)) = length (fst acc)"
  "length (snd (mark_step code i acc)) = length (snd acc)"
  by (auto simp: mark_step_def Let_def set_op_def split: prod.splits option.splits)

lemma fold_keeps: "(\<And>x s. x \<in> set xs \<Longrightarrow> P s \<Longrightarrow> P (f x s)) \<Longrightarrow> P s \<Longrightarrow> P (fold f xs s)"
  by (induction xs arbitrary: s) auto

lemma marks_fold:
  "ops_good mapped \<Longrightarrow> fold (mark_step code) is (mapped, zw) = (mapped', zw') \<Longrightarrow>
    ops_good mapped' \<and> length mapped' = length mapped \<and> length zw' = length zw"
  using fold_keeps [of "is" "\<lambda>acc. ops_good (fst acc) \<and> length (fst acc) = length mapped
      \<and> length (snd acc) = length zw" "mark_step code" "(mapped, zw)"]
  by (simp add: mark_step_good mark_step_length)

lemma no_interrupt_good:
  "ops_good mapped \<Longrightarrow> ops_good (no_interrupt_step j mapped)"
  "length (no_interrupt_step j mapped) = length mapped"
  by (simp_all add: no_interrupt_step_def set_op_good good_constants) (simp add: set_op_def)

lemma call_kw_good:
  "i < length mapped \<Longrightarrow> ops_good mapped \<Longrightarrow> ops_good (call_kw_step code i mapped)"
  "length (call_kw_step code i mapped) = length mapped"
proof -
  assume i: "i < length mapped" and g: "ops_good mapped"
  then have "good_op (mo_op (mapped ! i))" by (simp add: ops_good_def)
  then have "ops_good (mapped[i := (mapped ! i)\<lparr>mo_arg := a\<rparr>])" for a
    using g by (intro ops_good_update) simp_all
  then show "ops_good (call_kw_step code i mapped)" using g by (simp add: call_kw_step_def split: option.split)
next
  show "length (call_kw_step code i mapped) = length mapped" by (simp add: call_kw_step_def split: option.split)
qed

lemma those_map:
  "those (map f xs) = Some ys \<Longrightarrow> length ys = length xs \<and> (\<forall>i < length xs. f (xs ! i) = Some (ys ! i))"
proof (induction xs arbitrary: ys)
  case (Cons x xs)
  then show ?case by (auto simp: nth_Cons split: option.splits nat.splits)
qed simp

lemma wire_ops_good:
  assumes "wire_ops code = Some (mapped, zw)"
  shows "ops_good mapped" "length mapped = length (co_instructions code)"
    "length zw = length (co_instructions code)"
proof -
  let ?n = "length (co_instructions code)"
  obtain m0 where m0: "those (map (\<lambda>ins. map_to_cpython ins (deref_slots_from_code code))
      (co_instructions code)) = Some m0"
    using assms by (auto simp: wire_ops_def Let_def split: option.splits)
  obtain m1 zw1 where m1: "fold (mark_step code) [0..<?n] (m0, replicate ?n False) = (m1, zw1)" by force
  let ?m2 = "fold no_interrupt_step (co_no_interrupt_jumps code) m1"
  have e: "mapped = fold (call_kw_step code) [1..<?n] ?m2" "zw = zw1"
    using assms m0 m1 by (simp_all add: wire_ops_def)
  have g0: "ops_good m0" "length m0 = ?n"
    using those_map [OF m0] by (auto simp: ops_good_def in_set_conv_nth) (metis map_to_good)
  then have g1: "ops_good m1" "length m1 = ?n" "length zw1 = ?n"
    using marks_fold [OF g0(1) m1] by simp_all
  have g2: "ops_good ?m2 \<and> length ?m2 = ?n"
    by (rule fold_keeps) (use g1 in \<open>simp_all add: no_interrupt_good\<close>)
  have "ops_good mapped \<and> length mapped = ?n"
    unfolding e by (rule fold_keeps) (use g2 in \<open>simp_all add: call_kw_good\<close>)
  then show "ops_good mapped" "length mapped = ?n" "length zw = ?n" using g1 e by simp_all
qed

section \<open>Operands and prefixes\<close>

definition lone_arg :: "layout_input \<Rightarrow> nat \<Rightarrow> bool" where
  "lone_arg inp i \<longleftrightarrow> li_op inp i \<noteq> op_END_ASYNC_FOR \<and> (\<not> is_rel_jump (li_op inp i) \<or> li_zero inp ! i)"

lemma resolved_None: "resolved_arg inp starts ext i = None \<longleftrightarrow> lone_arg inp i"
  by (simp add: resolved_arg_def lone_arg_def Let_def)

text \<open>Every instruction that takes space has the prefixes its operand needs.\<close>

definition ext_agrees :: "layout_input \<Rightarrow> (nat \<Rightarrow> bool) \<Rightarrow> layout \<Rightarrow> bool" where
  "ext_agrees inp Q la \<longleftrightarrow> length (la_ext la) = li_len inp \<and> length (la_args la) = li_len inp \<and>
    (\<forall>i < li_len inp. Q i \<and> \<not> li_zero inp ! i \<longrightarrow> la_ext la ! i = ext_count (la_args la ! i))"

lemma seed_agrees: "ext_agrees inp (lone_arg inp) (layout_seed inp)"
  by (simp add: ext_agrees_def layout_seed_def seed_ext_def lone_arg_def Let_def)

lemma round_agrees:
  assumes "ext_agrees inp (lone_arg inp) la"
  shows "ext_agrees inp (\<lambda>_. True) \<lparr>la_starts = starts, la_ext = relax_ext inp starts (la_ext la),
    la_args = relax_args inp starts (la_ext la) (la_args la)\<rparr>"
  using assms
  by (auto simp: ext_agrees_def relax_ext_def relax_args_def
      dest: resolved_None [THEN iffD1] split: option.split)

lemma rounds_agree:
  "ext_agrees inp (lone_arg inp) la \<Longrightarrow> 0 < rounds \<Longrightarrow> ext_agrees inp (\<lambda>_. True) (layout_rounds inp rounds la)"
proof (induction inp rounds la rule: layout_rounds.induct)
  case (2 inp rounds la)
  let ?la = "\<lparr>la_starts = layout_starts inp (la_ext la),
    la_ext = relax_ext inp (layout_starts inp (la_ext la)) (la_ext la),
    la_args = relax_args inp (layout_starts inp (la_ext la)) (la_ext la) (la_args la)\<rparr>"
  have now: "ext_agrees inp (\<lambda>_. True) ?la" by (rule round_agrees [OF 2(2)])
  then have "ext_agrees inp (lone_arg inp) ?la" by (simp add: ext_agrees_def)
  with 2(1) now show ?case by (cases rounds) (auto simp: Let_def)
qed simp

lemma layout_agrees: "ext_agrees inp (\<lambda>_. True) (layout_of inp)"
  unfolding layout_of_def by (rule rounds_agree [OF seed_agrees]) simp

section \<open>The emitted stream\<close>

definition shown :: "layout_input \<Rightarrow> nat list" where
  "shown inp = filter (\<lambda>i. \<not> li_zero inp ! i) [0..<li_len inp]"

definition wire_at :: "layout_input \<Rightarrow> layout \<Rightarrow> nat \<Rightarrow> wire_ins" where
  "wire_at inp la i = (li_op inp i, la_args la ! i, la_ext la ! i)"

definition emitted_wire :: "layout_input \<Rightarrow> layout \<Rightarrow> wire_ins list" where
  "emitted_wire inp la = map (wire_at inp la) (shown inp)"

lemma emit_fold:
  "ec_code (fold (emit_step code inp la f) is st)
     = ec_code st @ wire_bytes (map (wire_at inp la) (filter (\<lambda>i. \<not> li_zero inp ! i) is))
   \<and> ec_positions (fold (emit_step code inp la f) is st)
     = ec_positions st @ concat (map (\<lambda>i. replicate (wire_size (wire_at inp la i)) (position_at code i f))
         (filter (\<lambda>i. \<not> li_zero inp ! i) is))
   \<and> length (ec_offsets (fold (emit_step code inp la f) is st)) = length (ec_offsets st) + length is"
proof (induction "is" arbitrary: st)
  case (Cons i "is")
  have "replicate a p @ [p] @ replicate c p = replicate (a + 1 + c) p" for a c and p :: Position
    by (simp add: replicate_app_Cons_same replicate_add)
  then show ?case
    using Cons [of "emit_step code inp la f i st"]
    by (simp add: emit_step_def wire_bytes_def wire_at_def wire_size_def Let_def)
qed (simp add: wire_bytes_def)

lemma emit_all_code:
  "ec_code (emit_all code inp la f) = wire_bytes (emitted_wire inp la)"
  "ec_positions (emit_all code inp la f)
     = concat (map (\<lambda>i. replicate (wire_size (wire_at inp la i)) (position_at code i f)) (shown inp))"
  "length (ec_offsets (emit_all code inp la f)) = li_len inp"
  using emit_fold [of code inp la f "[0..<li_len inp]" "\<lparr>ec_code = [], ec_positions = [], ec_offsets = []\<rparr>"]
  by (simp_all add: emit_all_def emitted_wire_def shown_def)

text \<open>Everything about one call of the encoder.\<close>

definition encoding ::
    "'c CodeObject \<Rightarrow> CpythonCode \<Rightarrow> layout_input \<Rightarrow> layout \<Rightarrow> bool" where
  "encoding code cp inp la \<longleftrightarrow>
    (\<exists>mapped zw. wire_ops code = Some (mapped, zw) \<and> inp = layout_input_of code mapped zw
      \<and> la = layout_of inp \<and> encode code = Some cp)"

lemma encodingE:
  assumes "encode code = Some cp"
  obtains inp la where "encoding code cp inp la"
  using assms unfolding encoding_def by (auto simp: encode_def Let_def split: option.splits prod.splits if_splits)

lemma encoding_facts:
  assumes "encoding code cp inp la"
  shows "cc_co_code cp = wire_bytes (emitted_wire inp la)"
    "cc_positions cp = concat (map (\<lambda>i. replicate (wire_size (wire_at inp la i))
       (position_at code i (code_firstlineno code))) (shown inp))"
    "length (cc_inst_offsets cp) = length (co_instructions code)"
    "cc_co_linetable cp = encode_locations (map (\<lambda>i. (position_at code i (code_firstlineno code),
       wire_size (wire_at inp la i))) (shown inp)) (code_firstlineno code)"
    "cc_firstlineno cp = code_firstlineno code"
    "encode_exception_table code (la_starts la) = Some (cc_co_exceptiontable cp)"
    "li_len inp = length (co_instructions code)"
    "\<forall>w \<in> set (emitted_wire inp la). wire_ok w \<and> good_op (fst w)"
proof -
  obtain mapped zw where m: "wire_ops code = Some (mapped, zw)" "inp = layout_input_of code mapped zw"
      "la = layout_of inp" "encode code = Some cp"
    using assms by (auto simp: encoding_def)
  note g = wire_ops_good [OF m(1)]
  have sel: "li_ops inp = mapped" "li_zero inp = zw" by (simp_all add: m(2) layout_input_of_def)
  show "li_len inp = length (co_instructions code)" by (simp add: sel g)
  have em: "cc_co_code cp = ec_code (emit_all code inp la (code_firstlineno code))"
      "cc_positions cp = ec_positions (emit_all code inp la (code_firstlineno code))"
      "cc_inst_offsets cp = ec_offsets (emit_all code inp la (code_firstlineno code))"
      "cc_co_linetable cp = encode_linetable code (la_ext la) mapped zw (code_firstlineno code)"
      "cc_firstlineno cp = code_firstlineno code"
      "encode_exception_table code (la_starts la) = Some (cc_co_exceptiontable cp)"
    using m by (auto simp: encode_def Let_def split: option.splits prod.splits if_splits)
  show "cc_co_code cp = wire_bytes (emitted_wire inp la)"
    "cc_positions cp = concat (map (\<lambda>i. replicate (wire_size (wire_at inp la i))
       (position_at code i (code_firstlineno code))) (shown inp))"
    "length (cc_inst_offsets cp) = length (co_instructions code)"
    by (simp_all add: em emit_all_code sel g)
  show "cc_co_linetable cp = encode_locations (map (\<lambda>i. (position_at code i (code_firstlineno code),
       wire_size (wire_at inp la i))) (shown inp)) (code_firstlineno code)"
    by (simp add: em encode_linetable_def located_units_def shown_def wire_at_def wire_size_def sel g)
  show "cc_firstlineno cp = code_firstlineno code"
    "encode_exception_table code (la_starts la) = Some (cc_co_exceptiontable cp)" by (simp_all add: em)
  show "\<forall>w \<in> set (emitted_wire inp la). wire_ok w \<and> good_op (fst w)"
  proof
    fix w assume "w \<in> set (emitted_wire inp la)"
    then obtain i where i: "i < li_len inp" "\<not> li_zero inp ! i" "w = wire_at inp la i"
      by (auto simp: emitted_wire_def shown_def)
    then have "good_op (li_op inp i)" using g(1) by (simp add: ops_good_def sel)
    moreover have "la_ext la ! i = ext_count (la_args la ! i)"
      using layout_agrees [of inp] i by (simp add: ext_agrees_def m(3))
    ultimately show "wire_ok w \<and> good_op (fst w)"
      by (simp add: i(3) wire_at_def wire_ok_def good_op_def ext_count_fits)
  qed
qed

lemma encoding_raws:
  "encoding code cp inp la \<Longrightarrow> decode_raws (cc_co_code cp) = wire_raws 0 (emitted_wire inp la)"
  using encoding_facts(1, 8) decode_raws_wire by metis

text \<open>
  The wire operations the marking passes produce, instruction by instruction: which pairs
  are fused, which of the two takes no space, and how the operation and operand of every
  other instruction relate to the translation table.
\<close>

section \<open>The marking loop\<close>

definition fused :: "'c CodeObject \<Rightarrow> nat \<Rightarrow> bool" where
  "fused code i \<longleftrightarrow> wire_mark code i AND FUSE_HEAD \<noteq> 0 \<and> Suc i < length (co_instructions code) \<and>
     fuse_pair (wire_mark code i) (co_instructions code ! i) (co_instructions code ! Suc i) \<noteq> None"

definition marked_op :: "'c CodeObject \<Rightarrow> nat \<Rightarrow> MappedOp \<Rightarrow> MappedOp" where
  "marked_op code i m =
    (let mark = wire_mark code i; ins = co_instructions code ! i
     in if fused code i
        then (case the (fuse_pair mark ins (co_instructions code ! Suc i)) of (c, a) \<Rightarrow> \<lparr>mo_op = c, mo_arg = a\<rparr>)
        else if mark AND FUSE_HEAD = 0 \<and> mark AND FUSE_TAIL = 0 \<and> ins_op ins \<in> {O_LoadFast, O_LoadClosure}
        then (if mark AND BORROW \<noteq> 0 then m\<lparr>mo_op := op_LOAD_FAST_BORROW\<rparr>
              else if mark AND CHECK \<noteq> 0 then m\<lparr>mo_op := op_LOAD_FAST_CHECK\<rparr> else m)
        else m)"

lemma mark_step_eq:
  assumes "i < length (co_instructions code)" "length m = length (co_instructions code)"
  shows "mark_step code i (m, z) =
    (m[i := marked_op code i (m ! i)], if fused code i then z[Suc i := True] else z)"
  using assms
  by (auto simp: mark_step_def marked_op_def fused_def set_op_def Let_def split: option.splits)

lemma mark_fold:
  assumes "length m0 = length (co_instructions code)" "k \<le> length (co_instructions code)"
  shows "\<exists>m z. fold (mark_step code) [0..<k] (m0, replicate (length (co_instructions code)) False) = (m, z)
    \<and> length m = length m0 \<and> length z = length m0
    \<and> (\<forall>i < length m0. m ! i = (if i < k then marked_op code i (m0 ! i) else m0 ! i))
    \<and> (\<forall>i < length m0. z ! i \<longleftrightarrow> 0 < i \<and> i \<le> k \<and> fused code (i - 1))"
  using assms(2)
proof (induction k)
  case 0
  then show ?case using assms(1) by auto
next
  case (Suc k)
  then obtain m z where IH: "fold (mark_step code) [0..<k] (m0, replicate (length (co_instructions code)) False) = (m, z)"
      "length m = length m0" "length z = length m0"
      "\<forall>i < length m0. m ! i = (if i < k then marked_op code i (m0 ! i) else m0 ! i)"
      "\<forall>i < length m0. z ! i \<longleftrightarrow> 0 < i \<and> i \<le> k \<and> fused code (i - 1)" by auto
  have step: "mark_step code k (m, z) = (m[k := marked_op code k (m ! k)], if fused code k then z[Suc k := True] else z)"
    using Suc.prems IH(2) assms(1) by (intro mark_step_eq) simp_all
  have small: "k < length m0" using Suc.prems assms(1) by simp
  have "\<forall>i < length m0. (if fused code k then z[Suc k := True] else z) ! i
      \<longleftrightarrow> 0 < i \<and> i \<le> Suc k \<and> fused code (i - 1)"
  proof (intro allI impI)
    fix i assume i: "i < length m0"
    have "(if fused code k then z[Suc k := True] else z) ! i \<longleftrightarrow> i = Suc k \<and> fused code k \<or> z ! i"
      using i IH(3) by (cases "i = Suc k") simp_all
    then show "(if fused code k then z[Suc k := True] else z) ! i
        \<longleftrightarrow> 0 < i \<and> i \<le> Suc k \<and> fused code (i - 1)"
      using i IH(5) by (auto simp: le_Suc_eq)
  qed
  moreover have "\<forall>i < length m0. m[k := marked_op code k (m ! k)] ! i
      = (if i < Suc k then marked_op code i (m0 ! i) else m0 ! i)"
    using IH(2, 4) small by (auto simp: nth_list_update less_Suc_eq)
  ultimately show ?case using IH step by simp
qed

section \<open>The later passes\<close>

definition jump_variant :: "MappedOp \<Rightarrow> MappedOp \<Rightarrow> bool" where
  "jump_variant m m' \<longleftrightarrow> m' = m \<or> mo_op m = op_JUMP_BACKWARD \<and> m' = m\<lparr>mo_op := op_JUMP_BACKWARD_NO_INTERRUPT\<rparr>"

lemma no_interrupt_fold:
  "length (fold no_interrupt_step js m) = length m \<and>
    (\<forall>i < length m. jump_variant (m ! i) (fold no_interrupt_step js m ! i))"
proof (induction js arbitrary: m)
  case Nil
  then show ?case by (simp add: jump_variant_def)
next
  case (Cons j js)
  have "jump_variant (m ! i) (no_interrupt_step j m ! i)" if "i < length m" for i
    using that by (auto simp: no_interrupt_step_def set_op_def jump_variant_def nth_list_update)
  moreover have "jump_variant a b \<Longrightarrow> jump_variant b c \<Longrightarrow> jump_variant a c" for a b c
    by (auto simp: jump_variant_def)
  ultimately show ?case
    using Cons.IH [of "no_interrupt_step j m"] by (simp add: no_interrupt_good(2)) blast
qed

definition kw_extra :: "'c CodeObject \<Rightarrow> nat \<Rightarrow> w32" where
  "kw_extra code i =
    (if ins_op (co_instructions code ! i) = O_CallKw then word_of_nat (kw_names code i) else 0)"

lemma call_kw_step_eq:
  "0 < i \<Longrightarrow> i < length m \<Longrightarrow> call_kw_step code i m = m[i := (m ! i)\<lparr>mo_arg := mo_arg (m ! i) + kw_extra code i\<rparr>]"
  by (auto simp: call_kw_step_def kw_extra_def kw_names_def split: option.split)

lemma call_kw_fold:
  "k \<le> length m \<Longrightarrow> length (fold (call_kw_step code) [1..<k] m) = length m \<and>
    (\<forall>i < length m. fold (call_kw_step code) [1..<k] m ! i
      = (if i < k then (m ! i)\<lparr>mo_arg := mo_arg (m ! i) + kw_extra code i\<rparr> else m ! i))"
proof (induction k)
  case 0
  then show ?case by simp
next
  case (Suc k)
  show ?case
  proof (cases "k = 0")
    case True
    have "kw_extra code 0 = 0" by (simp add: kw_extra_def kw_names_def)
    with True show ?thesis by simp
  next
    case False
    then show ?thesis
      using Suc by (auto simp: call_kw_step_eq nth_list_update less_Suc_eq)
  qed
qed

section \<open>All passes\<close>

lemma wire_ops_at:
  assumes "wire_ops code = Some (mapped, zw)"
  shows "\<exists>m0. those (map (\<lambda>ins. map_to_cpython ins (deref_slots_from_code code)) (co_instructions code)) = Some m0
    \<and> (\<forall>i < length (co_instructions code). \<exists>m. jump_variant (marked_op code i (m0 ! i)) m
        \<and> mapped ! i = m\<lparr>mo_arg := mo_arg m + kw_extra code i\<rparr>)
    \<and> (\<forall>i < length (co_instructions code). zw ! i \<longleftrightarrow> 0 < i \<and> fused code (i - 1))"
proof -
  let ?n = "length (co_instructions code)"
  obtain m0 where m0: "those (map (\<lambda>ins. map_to_cpython ins (deref_slots_from_code code))
      (co_instructions code)) = Some m0"
    using assms by (auto simp: wire_ops_def Let_def split: option.splits)
  have l0: "length m0 = ?n" using those_map [OF m0] by simp
  obtain m1 zw1 where m1: "fold (mark_step code) [0..<?n] (m0, replicate ?n False) = (m1, zw1)"
      "length m1 = ?n" "\<forall>i < ?n. m1 ! i = marked_op code i (m0 ! i)"
      "\<forall>i < ?n. zw1 ! i \<longleftrightarrow> 0 < i \<and> fused code (i - 1)"
    using mark_fold [OF l0 order_refl] l0 by auto
  let ?m2 = "fold no_interrupt_step (co_no_interrupt_jumps code) m1"
  have e: "mapped = fold (call_kw_step code) [1..<?n] ?m2" "zw = zw1"
    using assms m0 m1 by (simp_all add: wire_ops_def)
  have m2: "length ?m2 = ?n" "\<forall>i < ?n. jump_variant (m1 ! i) (?m2 ! i)"
    using no_interrupt_fold [of "co_no_interrupt_jumps code" m1] m1(2) by simp_all
  have "\<forall>i < ?n. mapped ! i = (?m2 ! i)\<lparr>mo_arg := mo_arg (?m2 ! i) + kw_extra code i\<rparr>"
    using call_kw_fold [of ?n ?m2 code] m2(1) unfolding e by simp
  with m0 m1 m2 e(2) show ?thesis by metis
qed

end
