(* ===== verification/Code_Settled.thy ===== *)
theory Code_Settled
  imports Code_Encode
begin

text \<open>
  A settled layout: the offsets the operands were computed from are those of the emitted
  code. There every instruction that takes space starts, in the decoded stream, at its
  offset, the decoder numbers the instructions as the encoder had them, and a jump operand
  leads to its target.
\<close>

section \<open>The layout loop\<close>

definition settled :: "layout_input \<Rightarrow> layout \<Rightarrow> bool" where
  "settled inp la \<longleftrightarrow> la_starts la = layout_starts inp (la_ext la)"

lemma rounds_shape:
  assumes "0 < rounds"
  shows "\<exists>ext0 args0. layout_rounds inp rounds la =
    \<lparr>la_starts = layout_starts inp ext0, la_ext = relax_ext inp (layout_starts inp ext0) ext0,
     la_args = relax_args inp (layout_starts inp ext0) ext0 args0\<rparr>"
  using assms
proof (induction inp rounds la rule: layout_rounds.induct)
  case (2 inp rounds la)
  show ?case
  proof (cases "relax_ext inp (layout_starts inp (la_ext la)) (la_ext la) = la_ext la \<or> rounds = 0")
    case True
    then show ?thesis by (cases rounds) (auto simp: Let_def)
  next
    case False
    then show ?thesis using 2(1) by (simp add: Let_def)
  qed
qed simp

section \<open>Offsets\<close>

lemma offsets_nth: "i \<le> length ws \<Longrightarrow> offsets_from off ws ! i = off + sum_list (take i ws)"
proof (induction off ws arbitrary: i rule: offsets_from.induct)
  case (2 off w ws)
  then show ?case by (cases i) simp_all
qed simp

lemma length_offsets [simp]: "length (offsets_from off ws) = Suc (length ws)"
  by (induction off ws rule: offsets_from.induct) simp_all

lemma layout_starts_nth:
  "i \<le> li_len inp \<Longrightarrow> layout_starts inp ext ! i = sum_list (map (unit_size inp ext) [0..<i])"
  by (simp add: layout_starts_def offsets_nth take_map)

lemma length_layout_starts [simp]: "length (layout_starts inp ext) = Suc (li_len inp)"
  by (simp add: layout_starts_def)

lemma layout_starts_Suc:
  "i < li_len inp \<Longrightarrow> layout_starts inp ext ! Suc i = layout_starts inp ext ! i + unit_size inp ext i"
  by (simp add: layout_starts_nth)

lemma same_starts_same_ext:
  assumes "layout_starts inp e1 = layout_starts inp e2" "i < li_len inp" "\<not> li_zero inp ! i"
  shows "e1 ! i = e2 ! i"
proof -
  have "layout_starts inp e1 ! i + unit_size inp e1 i = layout_starts inp e1 ! i + unit_size inp e2 i"
    using layout_starts_Suc [OF assms(2), of e1] layout_starts_Suc [OF assms(2), of e2] assms(1) by simp
  then show ?thesis using assms(3) by (simp add: unit_size_def)
qed

text \<open>The operands of a settled layout.\<close>

lemma settled_args:
  assumes "settled inp (layout_of inp)" "i < li_len inp" "\<not> li_zero inp ! i"
    "is_rel_jump (li_op inp i)"
  defines "la \<equiv> layout_of inp"
  defines "nxt \<equiv> la_starts la ! i + wire_size (wire_at inp la i)"
  shows "la_args la ! i = word_of_nat
    (if is_backward_jump (li_op inp i) then nxt - la_starts la ! target_idx inp i
     else la_starts la ! target_idx inp i - nxt)"
proof -
  obtain ext0 args0 where la: "la = \<lparr>la_starts = layout_starts inp ext0,
      la_ext = relax_ext inp (layout_starts inp ext0) ext0,
      la_args = relax_args inp (layout_starts inp ext0) ext0 args0\<rparr>"
    using rounds_shape [of 16 inp "layout_seed inp"] by (auto simp: la_def layout_of_def)
  then have "layout_starts inp ext0 = layout_starts inp (la_ext la)"
    using assms(1) by (simp add: settled_def la_def)
  from same_starts_same_ext [OF this assms(2, 3)] have e: "ext0 ! i = la_ext la ! i" .
  have "li_op inp i \<noteq> op_END_ASYNC_FOR" using assms(4) by (auto simp: is_rel_jump_def)
  then have "resolved_arg inp (layout_starts inp ext0) ext0 i = Some (word_of_nat
      (if is_backward_jump (li_op inp i) then nxt - layout_starts inp ext0 ! target_idx inp i
       else layout_starts inp ext0 ! target_idx inp i - nxt))"
    using assms(3, 4) e by (simp add: resolved_arg_def Let_def nxt_def wire_size_def wire_at_def la add_ac)
  then show ?thesis using assms(2) by (simp add: la relax_args_def)
qed

lemma lone_args:
  assumes "i < li_len inp" "lone_arg inp i"
  shows "la_args (layout_of inp) ! i = mo_arg (li_ops inp ! i)"
proof -
  have none: "resolved_arg inp starts ext i = None" for starts ext
    using assms(2) by (simp add: resolved_None)
  have "la_args (layout_rounds inp r la) ! i = la_args la ! i" for r la
    by (induction r arbitrary: la) (use assms(1) in \<open>simp_all add: Let_def relax_args_def none\<close>)
  then show ?thesis using assms(1) by (simp add: layout_of_def layout_seed_def)
qed

section \<open>Ranks\<close>

text \<open>The number of instructions before \<open>i\<close> that take space.\<close>

definition rank :: "layout_input \<Rightarrow> nat \<Rightarrow> nat" where
  "rank inp i = length (filter (\<lambda>k. \<not> li_zero inp ! k) [0..<i])"

lemma shown_split:
  assumes "i < li_len inp" "\<not> li_zero inp ! i"
  shows "shown inp = filter (\<lambda>k. \<not> li_zero inp ! k) [0..<i] @ i # filter (\<lambda>k. \<not> li_zero inp ! k) [Suc i..<li_len inp]"
proof -
  have "[0..<li_len inp] = [0..<i] @ i # [Suc i..<li_len inp]"
    using assms(1) upt_add_eq_append [of 0 i "li_len inp - i"] by (simp add: upt_conv_Cons)
  then show ?thesis using assms(2) by (simp add: shown_def)
qed

lemma take_shown: "i \<le> li_len inp \<Longrightarrow> take (rank inp i) (shown inp) = filter (\<lambda>k. \<not> li_zero inp ! k) [0..<i]"
proof -
  assume "i \<le> li_len inp"
  then have "[0..<li_len inp] = [0..<i] @ [i..<li_len inp]"
    using upt_add_eq_append [of 0 i "li_len inp - i"] by simp
  then show ?thesis by (simp add: shown_def rank_def)
qed

lemma rank_less: "i < li_len inp \<Longrightarrow> \<not> li_zero inp ! i \<Longrightarrow> rank inp i < length (shown inp)"
  by (simp add: shown_split [of i inp] rank_def)

lemma shown_rank: "i < li_len inp \<Longrightarrow> \<not> li_zero inp ! i \<Longrightarrow> shown inp ! rank inp i = i"
  by (simp add: shown_split [of i inp] rank_def nth_append)

lemma rank_Suc:
  "rank inp (Suc i) = (if li_zero inp ! i then rank inp i else Suc (rank inp i))"
  by (simp add: rank_def)

lemma rank_all: "rank inp (li_len inp) = length (shown inp)"
  by (simp add: rank_def shown_def)

text \<open>The start of the decoded instruction of \<open>i\<close> is the offset of \<open>i\<close>.\<close>

lemma units_before:
  "sum_list (map wire_size (map (wire_at inp la) (filter (\<lambda>k. \<not> li_zero inp ! k) xs)))
    = sum_list (map (unit_size inp (la_ext la)) xs)"
  by (induction xs) (simp_all add: unit_size_def wire_size_def wire_at_def)

lemma start_of_rank:
  assumes "settled inp la" "i \<le> li_len inp"
  shows "sum_list (map wire_size (take (rank inp i) (emitted_wire inp la))) = la_starts la ! i"
  using assms units_before [of inp la "[0..<i]"]
  by (simp add: emitted_wire_def take_map take_shown settled_def layout_starts_nth)

section \<open>Numbering\<close>

lemma position_of_sorted:
  assumes "sorted_wrt (\<lambda>a b. key a < (key b :: nat)) rs" "k < length rs"
  shows "position_of (\<lambda>r. key r = key (rs ! k)) rs = Some k"
  using assms
proof (induction rs arbitrary: k)
  case (Cons r rs)
  show ?case
  proof (cases k)
    case (Suc j)
    then have "key r < key (rs ! j)" using Cons.prems by simp
    then have "key r \<noteq> key (rs ! j)" by simp
    then show ?thesis using Cons Suc by simp
  qed simp
qed simp

lemma position_of_None: "\<forall>x \<in> set xs. \<not> P x \<Longrightarrow> position_of P xs = None"
  by (induction xs) simp_all

lemma first_from_nth: "k \<le> length es \<Longrightarrow> first_from cur es ! k = cur + sum_list (take k es)"
proof (induction cur es arbitrary: k rule: first_from.induct)
  case (2 cur e es)
  then show ?case by (cases k) simp_all
qed simp

lemma length_first_from [simp]: "length (first_from cur es) = Suc (length es)"
  by (induction cur es rule: first_from.induct) simp_all

text \<open>
  The pairs are well fused: a fused operation stands for two instructions, the second of
  which takes no space, and every other for one.
\<close>

definition well_fused :: "layout_input \<Rightarrow> layout \<Rightarrow> bool" where
  "well_fused inp la \<longleftrightarrow>
    (\<forall>i < li_len inp. li_zero inp ! i \<longrightarrow> 0 < i \<and> \<not> li_zero inp ! (i - 1)) \<and>
    (\<forall>i < li_len inp. \<not> li_zero inp ! i \<longrightarrow>
      raw_expansion (li_op inp i) (la_args la ! i)
        = (if Suc i < li_len inp \<and> li_zero inp ! Suc i then 2 else 1))"

abbreviation wire_expansion :: "wire_ins \<Rightarrow> nat" where
  "wire_expansion w \<equiv> raw_expansion (fst w) (fst (snd w))"

lemma expansions_wire: "raw_expansions (wire_raws u ws) = map wire_expansion ws"
  by (induction u ws rule: wire_raws.induct) (simp_all add: raw_expansions_def)

definition at_boundary :: "layout_input \<Rightarrow> nat \<Rightarrow> bool" where
  "at_boundary inp i \<longleftrightarrow> i \<le> li_len inp \<and> (i < li_len inp \<longrightarrow> \<not> li_zero inp ! i)"

lemma expansions_before:
  assumes "well_fused inp la" "at_boundary inp i"
  shows "sum_list (map (\<lambda>k. wire_expansion (wire_at inp la k)) (filter (\<lambda>k. \<not> li_zero inp ! k) [0..<i])) = i"
  using assms(2)
proof (induction i rule: less_induct)
  case (less i)
  show ?case
  proof (cases i)
    case (Suc j)
    then have j: "j < li_len inp" using less.prems by (simp add: at_boundary_def)
    show ?thesis
    proof (cases "li_zero inp ! j")
      case False
      then have "at_boundary inp j" using j by (simp add: at_boundary_def)
      moreover have "raw_expansion (li_op inp j) (la_args la ! j) = 1"
        using assms(1) less.prems False j Suc by (simp add: well_fused_def at_boundary_def)
      ultimately show ?thesis using less.IH [of j] Suc False by (simp add: wire_at_def)
    next
      case True
      then obtain k where k: "j = Suc k" "\<not> li_zero inp ! k"
        using assms(1) j by (cases j) (auto simp: well_fused_def)
      then have "at_boundary inp k" using j by (simp add: at_boundary_def)
      moreover have "raw_expansion (li_op inp k) (la_args la ! k) = 2"
        using assms(1) k j True by (simp add: well_fused_def)
      ultimately show ?thesis using less.IH [of k] Suc True k by (simp add: wire_at_def)
    qed
  qed simp
qed

lemma first_of_rank:
  assumes "well_fused inp la" "at_boundary inp i"
  shows "raw_first_instr (raw_expansions (wire_raws 0 (emitted_wire inp la))) ! rank inp i = i"
proof -
  have "rank inp i \<le> length (shown inp)"
    using assms(2) rank_less [of i inp] rank_all [of inp]
    by (cases "i < li_len inp") (auto simp: at_boundary_def)
  then show ?thesis
    using expansions_before [OF assms] assms(2)
    by (simp add: raw_first_instr_def expansions_wire first_from_nth emitted_wire_def take_map
        take_shown at_boundary_def comp_def)
qed

lemma instr_of_rank:
  assumes "well_fused inp la" "at_boundary inp i"
  shows "instr_of_raw (wire_raws 0 (emitted_wire inp la)) (rank inp i) = i"
proof -
  let ?first = "raw_first_instr (raw_expansions (wire_raws 0 (emitted_wire inp la)))"
  have "length ?first = Suc (length (shown inp))"
    by (simp add: raw_first_instr_def expansions_wire emitted_wire_def)
  moreover have "rank inp i \<le> length (shown inp)"
    using assms(2) rank_less [of i inp] rank_all [of inp]
    by (cases "i < li_len inp") (auto simp: at_boundary_def)
  ultimately show ?thesis using first_of_rank [OF assms] by (simp add: instr_of_raw_def)
qed

text \<open>The unit where \<open>i\<close> starts is found again.\<close>

lemma raw_at_start:
  assumes "settled inp la" "at_boundary inp i"
  shows "raw_at_unit (wire_raws 0 (emitted_wire inp la)) (la_starts la ! i) = rank inp i"
proof (cases "i < li_len inp")
  case True
  let ?raws = "wire_raws 0 (emitted_wire inp la)"
  have r: "rank inp i < length ?raws"
    using True assms(2) rank_less [of i inp] by (simp add: at_boundary_def emitted_wire_def)
  have "dr_start (?raws ! rank inp i) = la_starts la ! i"
    using r start_of_rank [OF assms(1), of i] True by (simp add: wire_raws_nth split: prod.split)
  with position_of_sorted [OF wire_raws_sorted r] show ?thesis by (simp add: raw_at_unit_def)
next
  case False
  then have i: "i = li_len inp" using assms(2) by (simp add: at_boundary_def)
  let ?ws = "emitted_wire inp la"
  have len: "length ?ws = rank inp i" by (simp add: i rank_all emitted_wire_def)
  have "\<forall>r \<in> set (wire_raws 0 ?ws). dr_start r \<noteq> la_starts la ! i"
  proof
    fix r assume "r \<in> set (wire_raws 0 ?ws)"
    then obtain k where k: "k < length ?ws" "r = wire_raws 0 ?ws ! k" by (auto simp: in_set_conv_nth)
    have "map wire_size ?ws = map wire_size (take k ?ws) @ wire_size (?ws ! k) # map wire_size (drop (Suc k) ?ws)"
      using arg_cong [OF id_take_nth_drop [OF k(1)], of "map wire_size"] by simp
    then have "sum_list (map wire_size ?ws) = sum_list (map wire_size (take k ?ws)) + (wire_size (?ws ! k)
        + sum_list (map wire_size (drop (Suc k) ?ws)))"
      by (metis sum_list.Cons sum_list_append)
    moreover have "0 < wire_size (?ws ! k)" by (simp add: wire_size_def split: prod.split)
    moreover have "dr_start r = sum_list (map wire_size (take k ?ws))"
      using k by (simp add: wire_raws_nth split: prod.split)
    moreover have "sum_list (map wire_size ?ws) = la_starts la ! i"
      using start_of_rank [OF assms(1), of i] i len by simp
    ultimately show "dr_start r \<noteq> la_starts la ! i" by simp
  qed
  then show ?thesis by (simp add: raw_at_unit_def position_of_None len)
qed

end
