(* ===== verification/Code_Back.thy ===== *)
theory Code_Back
  imports Code_Settled
begin

text \<open>
  Decoding inverts encoding, for code objects whose instructions each survive the two
  translation tables: the layout, the prefixes, the jump operands and the fused pairs add
  no loss of their own once the layout has settled.
\<close>

section \<open>Canonical code\<close>

definition unwires :: "'c CodeObject \<Rightarrow> SlotMap \<Rightarrow> instruction \<Rightarrow> bool" where
  "unwires code slots ins \<longleftrightarrow>
    (case wire_of (ins_op ins) (ins_arg ins) (deref_slots_from_code code) of
       None \<Rightarrow> False
     | Some (c, a) \<Rightarrow> map_from_cpython c a slots = Some (ins_op ins, ins_arg ins))"

definition is_jump :: "OpCode \<Rightarrow> bool" where
  "is_jump opc \<longleftrightarrow> branches opc \<or> opc = O_JumpForward \<or> opc = O_JumpBackward"

definition jump_target :: "'c CodeObject \<Rightarrow> nat \<Rightarrow> nat" where
  "jump_target code i =
    (let ins = co_instructions code ! i
     in if ins_op ins = O_JumpBackward then Suc i - unat (ins_arg ins) else Suc i + unat (ins_arg ins))"

definition boundary :: "'c CodeObject \<Rightarrow> nat \<Rightarrow> bool" where
  "boundary code t \<longleftrightarrow> t \<le> length (co_instructions code) \<and>
    (0 < t \<and> t < length (co_instructions code) \<longrightarrow> \<not> fused code (t - 1))"

definition pair_ok :: "'c CodeObject \<Rightarrow> nat \<Rightarrow> bool" where
  "pair_ok code i \<longleftrightarrow>
    (ins_op (co_instructions code ! i) = O_LoadGlobal \<longrightarrow>
       unat (ins_arg (co_instructions code ! i)) < 2 ^ 31 \<and> ins_arg (co_instructions code ! Suc i) = 0)"

definition lone_at :: "'c CodeObject \<Rightarrow> nat \<Rightarrow> bool" where
  "lone_at code i \<longleftrightarrow> \<not> fused code i \<and> \<not> (0 < i \<and> fused code (i - 1))"

definition instr_ok :: "'c CodeObject \<Rightarrow> SlotMap \<Rightarrow> nat \<Rightarrow> bool" where
  "instr_ok code slots i \<longleftrightarrow>
    (let ins = co_instructions code ! i
     in (case ins_op ins of Refined _ \<Rightarrow> False | _ \<Rightarrow> True) \<and>
        (fused code i \<longrightarrow> \<not> fused code (Suc i) \<and> pair_ok code i) \<and>
        (ins_op ins = O_LoadFastAndClear \<longrightarrow> \<not> shared_local slots (ins_arg ins)) \<and>
        (ins_op ins = O_CallKw \<longrightarrow> unat (ins_arg ins) + kw_names code i < 2 ^ 32) \<and>
        (is_jump (ins_op ins) \<longrightarrow> boundary code (jump_target code i) \<and>
           (ins_op ins = O_JumpBackward \<longrightarrow> unat (ins_arg ins) \<le> Suc i)))"

definition canonical :: "'c CodeObject \<Rightarrow> SlotMap \<Rightarrow> bool" where
  "canonical code slots \<longleftrightarrow>
    (\<forall>i < length (co_instructions code). instr_ok code slots i \<and>
       (lone_at code i \<longrightarrow> unwires code slots (co_instructions code ! i)))"

section \<open>Facts about the tables\<close>

lemma unfused_expansion:
  assumes "wire_of opc arg slots = Some (c, a)" "\<forall>r. opc \<noteq> Refined r"
  shows "c \<notin> {op_LOAD_FAST_LOAD_FAST, op_LOAD_FAST_BORROW_LOAD_FAST_BORROW,
      op_STORE_FAST_LOAD_FAST, op_STORE_FAST_STORE_FAST}"
    "c = op_LOAD_GLOBAL \<Longrightarrow> opc = O_LoadGlobal \<and> a = push_bit 1 arg"
  using assms unfolding wire_of_def
  by (cases opc; simp; auto split: opcode_sorts option.splits UnaryKind.splits if_splits)+

lemma jump_wire:
  assumes "wire_of opc arg slots = Some (c, a)" "\<forall>r. opc \<noteq> Refined r"
  shows "is_rel_jump c \<longleftrightarrow> is_jump opc" "is_backward_jump c \<longleftrightarrow> opc = O_JumpBackward"
    "c = op_JUMP_BACKWARD \<longleftrightarrow> opc = O_JumpBackward"
    "c = op_CALL_KW \<longleftrightarrow> opc = O_CallKw" "c = op_PUSH_EXC_INFO \<Longrightarrow> a = 0"
    "c = op_END_ASYNC_FOR \<Longrightarrow> opc = O_EndAsyncFor"
    "c = op_LOAD_FAST \<longleftrightarrow> opc = O_LoadFast \<or> opc = O_LoadClosure"
    "c = op_LOAD_FAST_AND_CLEAR \<Longrightarrow> opc = O_LoadFastAndClear \<and> a = arg"
    "c \<noteq> op_JUMP_BACKWARD_NO_INTERRUPT" "c \<noteq> op_LOAD_FAST_BORROW" "c \<noteq> op_LOAD_FAST_CHECK"
  using assms unfolding wire_of_def is_rel_jump_def is_backward_jump_def is_jump_def branches_def
  by (cases opc; simp; auto split: opcode_sorts option.splits UnaryKind.splits if_splits)+

text \<open>The operation on the wire and the one of the table.\<close>

definition op_variant :: "w8 \<Rightarrow> w8 \<Rightarrow> bool" where
  "op_variant c0 c \<longleftrightarrow> c = c0 \<or> c0 = op_LOAD_FAST \<and> c \<in> {op_LOAD_FAST_BORROW, op_LOAD_FAST_CHECK}
     \<or> c0 = op_JUMP_BACKWARD \<and> c = op_JUMP_BACKWARD_NO_INTERRUPT"

lemma variant_table:
  "map_from_cpython op_LOAD_FAST_BORROW a slots = map_from_cpython op_LOAD_FAST a slots"
  "map_from_cpython op_LOAD_FAST_CHECK a slots = map_from_cpython op_LOAD_FAST a slots"
  "map_from_cpython op_JUMP_BACKWARD_NO_INTERRUPT a slots = map_from_cpython op_JUMP_BACKWARD a slots"
  by (simp_all add: map_from_cpython_def)

lemma variant_map: "op_variant c0 c \<Longrightarrow> map_from_cpython c a slots = map_from_cpython c0 a slots"
  by (auto simp: op_variant_def variant_table)

lemma variant_jump:
  "op_variant c0 c \<Longrightarrow> is_rel_jump c = is_rel_jump c0" "op_variant c0 c \<Longrightarrow> is_backward_jump c = is_backward_jump c0"
  by (auto simp: op_variant_def is_rel_jump_def is_backward_jump_def)

text \<open>The operand of a jump does not matter to the table.\<close>

lemma jump_table:
  "map_from_cpython op_FOR_ITER a slots = Some (O_ForIter, a)"
  "map_from_cpython op_JUMP_BACKWARD a slots = Some (O_JumpBackward, a)"
  "map_from_cpython op_JUMP_BACKWARD_NO_INTERRUPT a slots = Some (O_JumpBackward, a)"
  "map_from_cpython op_JUMP_FORWARD a slots = Some (O_JumpForward, a)"
  "map_from_cpython op_POP_JUMP_IF_FALSE a slots = Some (O_PopJumpIfFalse, a)"
  "map_from_cpython op_POP_JUMP_IF_TRUE a slots = Some (O_PopJumpIfTrue, a)"
  "map_from_cpython op_POP_JUMP_IF_NONE a slots = Some (O_PopJumpIfNone, a)"
  "map_from_cpython op_POP_JUMP_IF_NOT_NONE a slots = Some (O_PopJumpIfNotNone, a)"
  "map_from_cpython op_SEND a slots = Some (O_Send, a)"
  by (simp_all add: map_from_cpython_def)

lemma map_jump:
  "is_rel_jump c \<Longrightarrow> map_from_cpython c a slots = Some (opc, b) \<Longrightarrow> map_from_cpython c a' slots = Some (opc, a')"
  by (auto simp: is_rel_jump_def jump_table)

lemma map_async: "map_from_cpython op_END_ASYNC_FOR a slots = Some (O_EndAsyncFor, 0)"
  by (simp add: map_from_cpython_def)

section \<open>The wire operation of an instruction\<close>

lemma not_refined: "canonical code slots \<Longrightarrow> i < length (co_instructions code) \<Longrightarrow>
    \<forall>r. ins_op (co_instructions code ! i) \<noteq> Refined r"
proof
  fix r assume "canonical code slots" "i < length (co_instructions code)"
  then have "instr_ok code slots i" by (simp add: canonical_def)
  then show "ins_op (co_instructions code ! i) \<noteq> Refined r" by (auto simp: instr_ok_def Let_def)
qed

lemma encoding_zero:
  assumes "encoding code cp inp la" "i < length (co_instructions code)"
  shows "li_zero inp ! i \<longleftrightarrow> 0 < i \<and> fused code (i - 1)"
  using assms wire_ops_at by (fastforce simp: encoding_def layout_input_of_def)

lemma encoding_op:
  assumes "encoding code cp inp la" "i < length (co_instructions code)" "\<not> fused code i"
  shows "\<exists>c0 a0. wire_of (ins_op (co_instructions code ! i)) (ins_arg (co_instructions code ! i))
      (deref_slots_from_code code) = Some (c0, a0)
    \<and> (op_variant c0 (li_op inp i)
       \<or> ins_op (co_instructions code ! i) \<in> {O_LoadFast, O_LoadClosure} \<and> li_op inp i \<in> {op_LOAD_FAST_BORROW, op_LOAD_FAST_CHECK})
    \<and> mo_arg (li_ops inp ! i) = a0 + kw_extra code i"
proof -
  obtain mapped zw where m: "wire_ops code = Some (mapped, zw)" "li_ops inp = mapped"
    using assms(1) by (auto simp: encoding_def layout_input_of_def)
  obtain m0 m where m0: "those (map (\<lambda>ins. map_to_cpython ins (deref_slots_from_code code)) (co_instructions code)) = Some m0"
      "jump_variant (marked_op code i (m0 ! i)) m" "mapped ! i = m\<lparr>mo_arg := mo_arg m + kw_extra code i\<rparr>"
    using wire_ops_at [OF m(1)] assms(2) by blast
  from those_map [OF m0(1)] assms(2) have "map_to_cpython (co_instructions code ! i) (deref_slots_from_code code) = Some (m0 ! i)"
    by simp
  then have w: "wire_of (ins_op (co_instructions code ! i)) (ins_arg (co_instructions code ! i))
      (deref_slots_from_code code) = Some (mo_op (m0 ! i), mo_arg (m0 ! i))"
    by (cases "m0 ! i") (auto simp: map_to_cpython_def)
  have "mo_arg m = mo_arg (m0 ! i)" using m0(2) assms(3)
    by (auto simp: jump_variant_def marked_op_def Let_def)
  moreover have "op_variant (mo_op (m0 ! i)) (mo_op m)
      \<or> ins_op (co_instructions code ! i) \<in> {O_LoadFast, O_LoadClosure} \<and> mo_op m \<in> {op_LOAD_FAST_BORROW, op_LOAD_FAST_CHECK}"
    using m0(2) assms(3) by (auto simp: jump_variant_def marked_op_def Let_def op_variant_def split: if_splits)
  ultimately show ?thesis using w m(2) m0(3) by auto
qed

lemma encoding_plain:
  assumes "encoding code cp inp la" "canonical code slots" "i < length (co_instructions code)" "\<not> fused code i"
  shows "\<exists>c0 a0. wire_of (ins_op (co_instructions code ! i)) (ins_arg (co_instructions code ! i))
      (deref_slots_from_code code) = Some (c0, a0)
    \<and> op_variant c0 (li_op inp i) \<and> mo_arg (li_ops inp ! i) = a0 + kw_extra code i"
proof -
  obtain c0 a0 where w: "wire_of (ins_op (co_instructions code ! i)) (ins_arg (co_instructions code ! i))
      (deref_slots_from_code code) = Some (c0, a0)" "mo_arg (li_ops inp ! i) = a0 + kw_extra code i"
      "op_variant c0 (li_op inp i)
       \<or> ins_op (co_instructions code ! i) \<in> {O_LoadFast, O_LoadClosure} \<and> li_op inp i \<in> {op_LOAD_FAST_BORROW, op_LOAD_FAST_CHECK}"
    using encoding_op [OF assms(1, 3, 4)] by blast
  then have "op_variant c0 (li_op inp i)"
    using jump_wire(7) [OF w(1) not_refined [OF assms(2, 3)]] by (auto simp: op_variant_def)
  with w show ?thesis by blast
qed

lemma encoding_fused:
  assumes "encoding code cp inp la" "i < length (co_instructions code)" "fused code i"
  obtains c a where "fuse_pair (wire_mark code i) (co_instructions code ! i) (co_instructions code ! Suc i) = Some (c, a)"
    "li_op inp i = c" "mo_arg (li_ops inp ! i) = a"
proof -
  obtain mapped zw where m: "wire_ops code = Some (mapped, zw)" "li_ops inp = mapped"
    using assms(1) by (auto simp: encoding_def layout_input_of_def)
  obtain m0 m where m0: "jump_variant (marked_op code i (m0 ! i)) m" "mapped ! i = m\<lparr>mo_arg := mo_arg m + kw_extra code i\<rparr>"
    using wire_ops_at [OF m(1)] assms(2) by blast
  obtain c a where f: "fuse_pair (wire_mark code i) (co_instructions code ! i) (co_instructions code ! Suc i) = Some (c, a)"
    using assms(3) by (auto simp: fused_def)
  then have "c \<noteq> op_JUMP_BACKWARD" "kw_extra code i = 0"
    by (auto simp: fuse_pair_def Let_def kw_extra_def split: if_splits)
  then have "li_op inp i = c" "mo_arg (li_ops inp ! i) = a"
    using m0 m(2) f assms(3) by (auto simp: jump_variant_def marked_op_def)
  with f that show thesis by blast
qed

section \<open>The pairs are well fused\<close>

lemma canonicalD: "canonical code slots \<Longrightarrow> i < length (co_instructions code) \<Longrightarrow> instr_ok code slots i"
  by (simp add: canonical_def)

lemma no_two_fused:
  "canonical code slots \<Longrightarrow> fused code i \<Longrightarrow> \<not> fused code (Suc i)"
  using canonicalD [of code slots i] by (auto simp: fused_def instr_ok_def Let_def)

lemma encoding_layout: "encoding code cp inp la \<Longrightarrow> la = layout_of inp"
  by (auto simp: encoding_def)

lemma encoding_len: "encoding code cp inp la \<Longrightarrow> li_len inp = length (co_instructions code)"
  by (rule encoding_facts(7))

lemma fused_arg:
  assumes "encoding code cp inp la" "i < length (co_instructions code)" "fused code i"
    "fuse_pair (wire_mark code i) (co_instructions code ! i) (co_instructions code ! Suc i) = Some (c, a)"
  shows "li_op inp i = c" "la_args la ! i = a"
proof -
  have m: "li_op inp i = c" "mo_arg (li_ops inp ! i) = a"
    using encoding_fused [OF assms(1-3)] assms(4) by auto
  then have "lone_arg inp i"
    using assms(4) by (auto simp: lone_arg_def is_rel_jump_def fuse_pair_def Let_def split: if_splits)
  then show "li_op inp i = c" "la_args la ! i = a"
    using m lone_args [of i inp] assms(2) encoding_len [OF assms(1)] encoding_layout [OF assms(1)] by simp_all
qed

lemma plain_arg:
  assumes "encoding code cp inp la" "canonical code slots" "i < length (co_instructions code)" "\<not> fused code i"
    "\<not> is_jump (ins_op (co_instructions code ! i))" "ins_op (co_instructions code ! i) \<noteq> O_EndAsyncFor"
  shows "\<exists>c0 a0. wire_of (ins_op (co_instructions code ! i)) (ins_arg (co_instructions code ! i))
      (deref_slots_from_code code) = Some (c0, a0)
    \<and> op_variant c0 (li_op inp i) \<and> la_args la ! i = a0 + kw_extra code i"
proof -
  obtain c0 a0 where w: "wire_of (ins_op (co_instructions code ! i)) (ins_arg (co_instructions code ! i))
      (deref_slots_from_code code) = Some (c0, a0)"
      "op_variant c0 (li_op inp i)" "mo_arg (li_ops inp ! i) = a0 + kw_extra code i"
    using encoding_plain [OF assms(1-4)] by blast
  note j = jump_wire [OF w(1) not_refined [OF assms(2, 3)]]
  have "lone_arg inp i"
    using j(1, 6) variant_jump(1) [OF w(2)] assms(5, 6) w(2) by (auto simp: lone_arg_def op_variant_def)
  then have "la_args la ! i = a0 + kw_extra code i"
    using w(3) lone_args [of i inp] assms(3) encoding_len [OF assms(1)] encoding_layout [OF assms(1)] by simp
  with w show ?thesis by blast
qed

lemma even_shift: "push_bit 1 (v :: w32) AND 1 = 0"
  by (rule bit_word_eqI) (auto simp: bit_simps bit_double_iff [of v, simplified mult.commute])

lemma canonical_fused:
  assumes "encoding code cp inp la" "canonical code slots"
  shows "well_fused inp la"
proof -
  note len = encoding_len [OF assms(1)]
  have zero: "0 < i \<and> \<not> li_zero inp ! (i - 1)" if "i < li_len inp" "li_zero inp ! i" for i
  proof -
    have i: "0 < i" "fused code (i - 1)" using encoding_zero [OF assms(1), of i] that len by simp_all
    then have "\<not> (0 < i - 1 \<and> fused code (i - 1 - 1))"
      using no_two_fused [OF assms(2)] by (cases "i - 1") auto
    then show ?thesis using encoding_zero [OF assms(1), of "i - 1"] i(1) that(1) len by simp
  qed
  have expand: "raw_expansion (li_op inp i) (la_args la ! i) = (if Suc i < li_len inp \<and> li_zero inp ! Suc i then 2 else 1)"
    if i: "i < li_len inp" "\<not> li_zero inp ! i" for i
  proof (cases "fused code i")
    case True
    then obtain c a where f: "fuse_pair (wire_mark code i) (co_instructions code ! i) (co_instructions code ! Suc i) = Some (c, a)"
      by (auto simp: fused_def)
    have "raw_expansion c a = 2"
      using f by (auto simp: fuse_pair_def raw_expansion_def Let_def bit.conj_disj_distrib2 even_shift split: if_splits)
    moreover have "Suc i < li_len inp" using True len by (simp add: fused_def)
    moreover have "li_zero inp ! Suc i" using True encoding_zero [OF assms(1), of "Suc i"] len \<open>Suc i < li_len inp\<close> by simp
    ultimately show ?thesis using fused_arg [OF assms(1) _ True f] i(1) len by simp
  next
    case False
    have n: "i < length (co_instructions code)" using i(1) len by simp
    obtain c0 a0 where w: "wire_of (ins_op (co_instructions code ! i)) (ins_arg (co_instructions code ! i))
        (deref_slots_from_code code) = Some (c0, a0)" "op_variant c0 (li_op inp i)"
      using encoding_plain [OF assms n False] by blast
    note nr = not_refined [OF assms(2) n]
    have lg: "la_args la ! i AND 1 = 0" if g: "c0 = op_LOAD_GLOBAL"
    proof -
      have o: "ins_op (co_instructions code ! i) = O_LoadGlobal \<and> a0 = push_bit 1 (ins_arg (co_instructions code ! i))"
        using unfused_expansion(2) [OF w(1) nr g] .
      then have "la_args la ! i = a0 + kw_extra code i"
        using plain_arg [OF assms n False] w(1) by (auto simp: is_jump_def branches_def)
      then show ?thesis using o even_shift by (simp add: kw_extra_def)
    qed
    have "raw_expansion (li_op inp i) (la_args la ! i) = 1"
      using unfused_expansion(1) [OF w(1) nr] w(2) lg by (auto simp: raw_expansion_def op_variant_def)
    moreover have "\<not> (Suc i < li_len inp \<and> li_zero inp ! Suc i)"
      using False encoding_zero [OF assms(1), of "Suc i"] len by simp
    ultimately show ?thesis by simp
  qed
  show ?thesis unfolding well_fused_def using zero expand by blast
qed

lemma boundary_iff:
  "encoding code cp inp la \<Longrightarrow> at_boundary inp t \<longleftrightarrow> boundary code t"
  using encoding_zero [of code cp inp la t] encoding_len [of code cp inp la]
  by (auto simp: at_boundary_def boundary_def)

section \<open>The operand of a jump\<close>

lemma rank_at_boundary:
  "at_boundary inp i \<Longrightarrow> rank inp i \<le> length (shown inp)"
  using rank_less [of i inp] rank_all [of inp] by (cases "i < li_len inp") (auto simp: at_boundary_def)

lemma raw_of_rank:
  assumes "settled inp la" "i < li_len inp" "\<not> li_zero inp ! i"
  shows "wire_raws 0 (emitted_wire inp la) ! rank inp i =
    \<lparr>dr_op = li_op inp i, dr_arg = la_args la ! i, dr_start = la_starts la ! i,
     dr_size = wire_size (wire_at inp la i)\<rparr>"
proof -
  have r: "rank inp i < length (emitted_wire inp la)"
    using rank_less [OF assms(2, 3)] by (simp add: emitted_wire_def)
  moreover have "emitted_wire inp la ! rank inp i = wire_at inp la i"
    using rank_less [OF assms(2, 3)] shown_rank [OF assms(2, 3)] by (simp add: emitted_wire_def)
  ultimately show ?thesis
    using start_of_rank [OF assms(1), of i] assms(2)
    by (simp add: wire_raws_nth wire_at_def wire_size_def)
qed

lemma starts_mono:
  assumes "settled inp la" "a \<le> b" "b \<le> li_len inp"
  shows "la_starts la ! a \<le> la_starts la ! b"
  using assms(2, 3)
proof (induction b rule: dec_induct)
  case (step k)
  then show ?case
    using assms(1) layout_starts_Suc [of k inp "la_ext la"] by (simp add: settled_def)
qed simp

text \<open>All code units are below \<open>2 ^ 32\<close>.\<close>

lemma starts_total:
  assumes "settled inp la" "encoding code cp inp la"
  shows "2 * la_starts la ! li_len inp = length (cc_co_code cp)"
proof -
  have "length (wire_bytes ws) = 2 * sum_list (map wire_size ws)" for ws
    by (induction ws) (auto simp: wire_bytes_def wire_size_def length_emit_units)
  moreover have "take (rank inp (li_len inp)) (emitted_wire inp la) = emitted_wire inp la"
    by (simp add: rank_all emitted_wire_def)
  ultimately show ?thesis
    using start_of_rank [OF assms(1), of "li_len inp"] encoding_facts(1) [OF assms(2)] by simp
qed

lemma internal_of_rank:
  assumes enc: "encoding code cp inp la" and can: "canonical code slots" and set: "settled inp la"
    and small: "length (cc_co_code cp) < 2 ^ 33"
    and i: "i < length (co_instructions code)" "\<not> li_zero inp ! i" "\<not> fused code i"
    and jump: "is_jump (ins_op (co_instructions code ! i))"
  shows "internal_arg (wire_raws 0 (emitted_wire inp la)) (rank inp i) b = ins_arg (co_instructions code ! i)"
proof -
  let ?ins = "co_instructions code ! i"
  let ?raws = "wire_raws 0 (emitted_wire inp la)"
  define nxt where "nxt = la_starts la ! i + wire_size (wire_at inp la i)"
  define t where "t = jump_target code i"
  note len = encoding_len [OF enc]
  note wf = canonical_fused [OF enc can]
  have la: "la = layout_of inp" by (rule encoding_layout [OF enc])
  have n: "i < li_len inp" using i(1) len by simp
  obtain c0 a0 where w: "wire_of (ins_op ?ins) (ins_arg ?ins) (deref_slots_from_code code) = Some (c0, a0)"
      "op_variant c0 (li_op inp i)" using encoding_plain [OF enc can i(1, 3)] by blast
  note jw = jump_wire [OF w(1) not_refined [OF can i(1)]]
  have rel: "is_rel_jump (li_op inp i)" "is_backward_jump (li_op inp i) \<longleftrightarrow> ins_op ?ins = O_JumpBackward"
    using jw(1, 2) variant_jump [OF w(2)] jump by simp_all
  have b: "boundary code t" "ins_op ?ins = O_JumpBackward \<Longrightarrow> unat (ins_arg ?ins) \<le> Suc i"
    using canonicalD [OF can i(1)] jump by (auto simp: instr_ok_def Let_def t_def)
  then have ab: "at_boundary inp t" using boundary_iff [OF enc] by simp
  then have tl: "t \<le> li_len inp" by (simp add: at_boundary_def)
  have "li_deltas inp ! i = unat (ins_arg ?ins)"
    using enc i(1) by (auto simp: encoding_def layout_input_of_def args_target_delta_def)
  then have tgt: "target_idx inp i = t"
    using tl rel(2) by (auto simp: target_idx_def t_def jump_target_def Let_def min_def split: if_splits)
  have next_is: "nxt = la_starts la ! Suc i"
    using set n i(2) layout_starts_Suc [OF n, of "la_ext la"]
    by (simp add: nxt_def settled_def unit_size_def wire_size_def wire_at_def)
  have arg: "la_args la ! i = word_of_nat (if is_backward_jump (li_op inp i) then nxt - la_starts la ! t
      else la_starts la ! t - nxt)"
    using settled_args [OF set [unfolded la] n i(2) rel(1)] unfolding la [symmetric] nxt_def [symmetric] tgt .
  have bound: "la_starts la ! k < 2 ^ 32" if "k \<le> li_len inp" for k
    using starts_total [OF set enc] starts_mono [OF set that order_refl] small by simp
  have un: "unat (la_args la ! i) = (if is_backward_jump (li_op inp i) then nxt - la_starts la ! t
      else la_starts la ! t - nxt)"
    unfolding arg using bound [OF tl] bound [of "Suc i"] n next_is
    by (simp add: unsigned_of_nat take_bit_nat_eq_self)
  note raw = raw_of_rank [OF set n i(2)]
  have self: "instr_of_raw ?raws (rank inp i) = i"
    using instr_of_rank [OF wf, of i] n i(2) by (simp add: at_boundary_def)
  have there: "instr_of_raw ?raws (raw_at_unit ?raws (la_starts la ! t)) = t"
    using raw_at_start [OF set ab] instr_of_rank [OF wf ab] by simp
  show ?thesis
  proof (cases "ins_op ?ins = O_JumpBackward")
    case True
    then have "t \<le> Suc i" by (simp add: t_def jump_target_def Let_def)
    then have "la_starts la ! t \<le> nxt" using starts_mono [OF set, of t "Suc i"] n next_is by simp
    then have "nxt - unat (la_args la ! i) = la_starts la ! t" using un rel(2) True by simp
    moreover have "Suc i - t = unat (ins_arg ?ins)" using True b(2) by (simp add: t_def jump_target_def Let_def)
    ultimately show ?thesis using True rel raw self there
      by (simp add: internal_arg_def Let_def nxt_def)
  next
    case False
    then have "Suc i \<le> t" by (simp add: t_def jump_target_def Let_def)
    then have "nxt \<le> la_starts la ! t" using starts_mono [OF set, of "Suc i" t] tl next_is by simp
    then have "nxt + unat (la_args la ! i) = la_starts la ! t" using un rel(2) False by simp
    moreover have "t - Suc i = unat (ins_arg ?ins)" using False by (simp add: t_def jump_target_def Let_def)
    ultimately show ?thesis using False rel raw self there
      by (simp add: internal_arg_def Let_def nxt_def)
  qed
qed

section \<open>One step of the decoder\<close>

text \<open>A pair is taken apart again.\<close>

lemma high_bit: "drop_bit m (v :: w32) = 0 \<Longrightarrow> \<not> bit v (m + k)"
proof -
  assume "drop_bit m v = 0"
  then have "\<not> bit (drop_bit m v) k" by simp
  then show ?thesis by (simp add: bit_drop_bit_eq)
qed

lemma packed_parts:
  assumes "(a :: w32) < 16" "b < 16"
  shows "drop_bit 4 (push_bit 4 a OR b) = a" "(push_bit 4 a OR b) AND 0x0F = b"
proof -
  have a: "\<not> bit a (4 + k)" "\<not> bit b (4 + k)" for k
  proof -
    have z: "drop_bit 4 a = 0" "drop_bit 4 b = 0"
      using assms by (auto intro!: drop_zero simp: word_less_nat_alt)
    show "\<not> bit a (4 + k)" "\<not> bit b (4 + k)"
      using high_bit [OF z(1), of k] high_bit [OF z(2), of k] by simp_all
  qed
  have m: "(0x0F :: w32) = mask 4" by (simp add: mask_eq_exp_minus_1)
  show "drop_bit 4 (push_bit 4 a OR b) = a"
  proof (rule bit_word_eqI)
    fix n assume "n < LENGTH(32)"
    then show "bit (drop_bit 4 (push_bit 4 a OR b)) n \<longleftrightarrow> bit a n"
      using a(1) [of "n - 4"] a(2) [of n] by (cases "n < 4") (auto simp: bit_simps)
  qed
  show "(push_bit 4 a OR b) AND 0x0F = b"
    unfolding m
  proof (rule bit_word_eqI)
    fix n assume "n < LENGTH(32)"
    show "bit ((push_bit 4 a OR b) AND mask 4) n \<longleftrightarrow> bit b n"
      using a(2) [of "n - 4"] by (cases "n < 4") (auto simp: bit_simps)
  qed
qed

lemma global_parts:
  assumes "unat (a :: w32) < 2 ^ 31"
  shows "drop_bit 1 (push_bit 1 a OR 1) = a" "(push_bit 1 a OR 1) AND 1 = 1"
proof -
  have top: "\<not> bit a 31"
    using high_bit [OF drop_zero [OF assms], of 0] by simp
  show "drop_bit 1 (push_bit 1 a OR 1) = a"
  proof (rule bit_word_eqI)
    fix n assume "n < LENGTH(32)"
    then show "bit (drop_bit 1 (push_bit 1 a OR 1)) n \<longleftrightarrow> bit a n"
      using top by (cases "n = 31") (auto simp: bit_simps bit_double_iff [of a, simplified mult.commute])
  qed
  show "(push_bit 1 a OR 1) AND 1 = 1"
    by (simp only: bit.conj_disj_distrib2 even_shift) simp
qed

lemma instr_eq: "Instr (ins_op x) (ins_arg x) = x"
  by simp

lemma unfuse_pair:
  assumes "fuse_pair m a b = Some (dr_op r, dr_arg r)"
    "ins_op a = O_LoadGlobal \<longrightarrow> unat (ins_arg a) < 2 ^ 31 \<and> ins_arg b = 0"
  shows "\<exists>e. unfuse r = Some (a, b, e)"
proof (cases "ins_op a = O_LoadGlobal")
  case True
  then have "dr_op r = op_LOAD_GLOBAL" "dr_arg r = push_bit 1 (ins_arg a) OR 1" "ins_op b = O_PushNull"
    using assms(1) by (auto simp: fuse_pair_def Let_def split: if_splits)
  then show ?thesis
    using assms(2) True global_parts [of "ins_arg a"] instr_eq [of a] instr_eq [of b]
    by (simp add: unfuse_def)
next
  case False
  then have "ins_arg a < 16" "ins_arg b < 16" "dr_arg r = push_bit 4 (ins_arg a) OR ins_arg b"
      "dr_op r \<noteq> op_LOAD_GLOBAL"
    using assms(1) by (auto simp: fuse_pair_def Let_def split: if_splits)
  moreover note packed_parts [OF this(1, 2)]
  ultimately show ?thesis
    using assms(1) False instr_eq [of a] instr_eq [of b]
    by (auto simp: fuse_pair_def unfuse_def Let_def split: if_splits)
qed

lemma unfuse_lone:
  "dr_op r \<notin> {op_LOAD_FAST_LOAD_FAST, op_LOAD_FAST_BORROW_LOAD_FAST_BORROW,
      op_STORE_FAST_LOAD_FAST, op_STORE_FAST_STORE_FAST} \<Longrightarrow>
    (dr_op r = op_LOAD_GLOBAL \<Longrightarrow> dr_arg r AND 1 = 0) \<Longrightarrow> unfuse r = None"
  by (simp add: unfuse_def Let_def)

lemma raw_expansion_one:
  "raw_expansion c a = 1 \<Longrightarrow> dr_op r = c \<Longrightarrow> dr_arg r = a \<Longrightarrow> unfuse r = None"
  by (rule unfuse_lone) (auto simp: raw_expansion_def split: if_splits)

lemma no_region:
  assumes "dr_op (raws ! idx) = op_LOAD_FAST_AND_CLEAR \<Longrightarrow> \<not> shared_local slots (dr_arg (raws ! idx))"
  shows "next_plain_shared raws slots idx s [] = []"
  using assms by (auto simp: next_plain_shared_def end_region_def Let_def)

text \<open>The instruction a lone wire instruction stands for.\<close>

definition lone_back ::
    "DecodedRaw list \<Rightarrow> SlotMap \<Rightarrow> 'c const_value list \<Rightarrow> instruction list \<Rightarrow> nat \<Rightarrow> instruction option" where
  "lone_back raws slots constants out idx =
    (let r = raws ! idx
     in if dr_op r = op_CALL then Some (Instr O_Call (dr_arg r))
        else if dr_op r = op_CALL_KW
        then Some (Instr O_CallKw (call_kw_internal_arg constants out (dr_arg r)))
        else (case map_from_cpython (dr_op r) (dr_arg r) slots of
                None \<Rightarrow> None | Some (opc, arg) \<Rightarrow> Some (Instr opc (internal_arg raws idx arg))))"

lemma decode_step_lone:
  assumes "dr_op (raws ! idx) = op_LOAD_FAST_AND_CLEAR \<Longrightarrow> \<not> shared_local slots (dr_arg (raws ! idx))"
    "ds_plain_shared st = []" "unfuse (raws ! idx) = None"
    "lone_back raws slots constants (ds_out st) idx = Some ins"
  shows "\<exists>st'. decode_step raws slots constants idx st = Some st' \<and> ds_out st' = ds_out st @ [ins]
    \<and> ds_plain_shared st' = []"
  using assms(2-4) no_region [of raws idx slots, OF assms(1)]
  by (auto simp: decode_step_def lone_back_def Let_def split: option.splits if_splits prod.splits)

lemma decode_step_pair:
  assumes "dr_op (raws ! idx) = op_LOAD_FAST_AND_CLEAR \<Longrightarrow> \<not> shared_local slots (dr_arg (raws ! idx))"
    "ds_plain_shared st = []" "unfuse (raws ! idx) = Some (a, b, e)"
  shows "\<exists>st'. decode_step raws slots constants idx st = Some st' \<and> ds_out st' = ds_out st @ [a, b]
    \<and> ds_plain_shared st' = []"
  using assms(2-3) no_region [of raws idx slots, OF assms(1)] by (simp add: decode_step_def Let_def)

lemma lone_table:
  "map_from_cpython op_CALL a slots = Some (O_Call, a)"
  "map_from_cpython op_CALL_KW a slots = Some (O_CallKw, a)"
  by (simp_all add: map_from_cpython_def)

lemma call_kw_back:
  assumes "unat arg + kw_names code i < 2 ^ 32" "i < length (co_instructions code)"
  shows "call_kw_internal_arg (co_constants code) (take i (co_instructions code))
    (arg + word_of_nat (kw_names code i)) = arg"
proof -
  let ?out = "take i (co_instructions code)"
  have "last ?out = co_instructions code ! (i - 1)" if "0 < i"
    using that assms(2) by (cases i) (simp_all add: take_Suc_conv_app_nth)
  moreover have "?out \<noteq> [] \<longleftrightarrow> 0 < i" using assms(2) by auto
  ultimately have "call_kw_internal_arg (co_constants code) ?out x = sat_sub x (word_of_nat (kw_names code i))" for x
    by (auto simp: call_kw_internal_arg_def kw_names_def Let_def split: option.split)
  moreover have "(word_of_nat (kw_names code i) :: w32) \<le> arg + word_of_nat (kw_names code i)"
    using assms(1) by (simp add: word_le_nat_alt unat_word_ariths unsigned_of_nat take_bit_nat_eq_self)
  ultimately show ?thesis by (simp add: sat_sub_def)
qed

lemma lone_back_ok:
  assumes enc: "encoding code cp inp la" and can: "canonical code slots" and set: "settled inp la"
    and small: "length (cc_co_code cp) < 2 ^ 33"
    and i: "i < length (co_instructions code)" "\<not> li_zero inp ! i" "\<not> fused code i"
  shows "lone_back (wire_raws 0 (emitted_wire inp la)) slots (co_constants code)
    (take i (co_instructions code)) (rank inp i) = Some (co_instructions code ! i)"
proof -
  let ?ins = "co_instructions code ! i"
  let ?raws = "wire_raws 0 (emitted_wire inp la)"
  have n: "i < li_len inp" using i(1) encoding_len [OF enc] by simp
  note raw = raw_of_rank [OF set n i(2)]
  note nr = not_refined [OF can i(1)]
  obtain c0 a0 where w: "wire_of (ins_op ?ins) (ins_arg ?ins) (deref_slots_from_code code) = Some (c0, a0)"
      "op_variant c0 (li_op inp i)" using encoding_plain [OF enc can i(1, 3)] by blast
  note jw = jump_wire [OF w(1) nr]
  have un: "map_from_cpython c0 a0 slots = Some (ins_op ?ins, ins_arg ?ins)"
    using can i encoding_zero [OF enc i(1)] w(1)
    by (auto simp: canonical_def lone_at_def unwires_def)
  have mapc: "map_from_cpython (li_op inp i) x slots = map_from_cpython c0 x slots" for x
    by (rule variant_map [OF w(2)])
  consider (jump) "is_jump (ins_op ?ins)" | (async) "ins_op ?ins = O_EndAsyncFor"
    | (lone) "\<not> is_jump (ins_op ?ins)" "ins_op ?ins \<noteq> O_EndAsyncFor" by blast
  then show ?thesis
  proof cases
    case jump
    then have rel: "is_rel_jump c0" "is_rel_jump (li_op inp i)" using jw(1) variant_jump(1) [OF w(2)] by simp_all
    then have "li_op inp i \<notin> {op_CALL, op_CALL_KW}" by (auto simp: is_rel_jump_def)
    then show ?thesis
      using raw mapc map_jump [OF rel(1) un] internal_of_rank [OF enc can set small i jump]
      by (simp add: lone_back_def Let_def)
  next
    case async
    then have c0: "c0 = op_END_ASYNC_FOR" using w(1) by (simp add: wire_of_def)
    then have c: "li_op inp i = op_END_ASYNC_FOR" using w(2) by (simp add: op_variant_def)
    have "ins_arg ?ins = 0" using un async by (simp add: c0 map_async)
    then show ?thesis
      using raw c async map_async instr_eq [of ?ins]
      by (simp add: lone_back_def internal_arg_def is_rel_jump_def Let_def)
  next
    case lone
    obtain arg: "la_args la ! i = a0 + kw_extra code i"
      using plain_arg [OF enc can i(1, 3) lone] w(1) by auto
    have norel: "\<not> is_rel_jump (li_op inp i)" using lone(1) jw(1) variant_jump(1) [OF w(2)] by simp
    show ?thesis
    proof (cases "ins_op ?ins = O_CallKw")
      case True
      then have c: "c0 = op_CALL_KW" "li_op inp i = op_CALL_KW"
        using jw(4) w(2) by (auto simp: op_variant_def)
      then have "a0 = ins_arg ?ins" using un by (simp add: lone_table)
      moreover have "unat (ins_arg ?ins) + kw_names code i < 2 ^ 32"
        using canonicalD [OF can i(1)] True by (simp add: instr_ok_def Let_def)
      ultimately show ?thesis
        using raw c arg True call_kw_back [OF _ i(1)] instr_eq [of ?ins]
        by (simp add: lone_back_def Let_def kw_extra_def)
    next
      case False
      then have a: "la_args la ! i = a0" using arg by (simp add: kw_extra_def)
      have c: "li_op inp i \<noteq> op_CALL_KW" using False jw(4) w(2) by (auto simp: op_variant_def)
      have int: "internal_arg ?raws (rank inp i) x = x" for x
        using raw norel a jw(5) w(2) by (auto simp: internal_arg_def Let_def op_variant_def)
      show ?thesis
      proof (cases "li_op inp i = op_CALL")
        case True
        then have "c0 = op_CALL" using w(2) by (auto simp: op_variant_def)
        then have "ins_op ?ins = O_Call \<and> ins_arg ?ins = a0" using un by (simp add: lone_table)
        then show ?thesis using raw True a instr_eq [of ?ins] by (simp add: lone_back_def Let_def)
      next
        case False
        then show ?thesis using raw c a mapc un int by (simp add: lone_back_def Let_def)
      qed
    qed
  qed
qed

section \<open>The decoder\<close>

lemma clear_plain:
  assumes enc: "encoding code cp inp la" and can: "canonical code slots"
    and i: "i < length (co_instructions code)" "\<not> fused code i"
    and c: "li_op inp i = op_LOAD_FAST_AND_CLEAR"
  shows "\<not> shared_local slots (la_args la ! i)"
proof -
  let ?ins = "co_instructions code ! i"
  obtain c0 a0 where w: "wire_of (ins_op ?ins) (ins_arg ?ins) (deref_slots_from_code code) = Some (c0, a0)"
      "op_variant c0 (li_op inp i)" using encoding_plain [OF enc can i] by blast
  then have "c0 = op_LOAD_FAST_AND_CLEAR" using c by (auto simp: op_variant_def)
  then have o: "ins_op ?ins = O_LoadFastAndClear \<and> a0 = ins_arg ?ins"
    using jump_wire(8) [OF w(1) not_refined [OF can i(1)]] by simp
  then have "la_args la ! i = ins_arg ?ins"
    using plain_arg [OF enc can i] w(1) by (simp add: is_jump_def branches_def kw_extra_def)
  then show ?thesis using o canonicalD [OF can i(1)] by (simp add: instr_ok_def Let_def)
qed

lemma decode_step_ok:
  assumes enc: "encoding code cp inp la" and can: "canonical code slots" and set: "settled inp la"
    and small: "length (cc_co_code cp) < 2 ^ 33"
    and i: "i < length (co_instructions code)" "\<not> li_zero inp ! i"
    and st: "ds_out st = take i (co_instructions code)" "ds_plain_shared st = []"
  shows "\<exists>st'. decode_step (wire_raws 0 (emitted_wire inp la)) slots (co_constants code) (rank inp i) st = Some st'
    \<and> ds_out st' = take (if fused code i then Suc (Suc i) else Suc i) (co_instructions code)
    \<and> ds_plain_shared st' = []"
proof (cases "fused code i")
  case True
  let ?raws = "wire_raws 0 (emitted_wire inp la)"
  have n: "i < li_len inp" using i(1) encoding_len [OF enc] by simp
  obtain c a where f: "fuse_pair (wire_mark code i) (co_instructions code ! i) (co_instructions code ! Suc i) = Some (c, a)"
    using True by (auto simp: fused_def)
  have "pair_ok code i" using canonicalD [OF can i(1)] True by (simp add: instr_ok_def Let_def)
  then obtain e where "unfuse (?raws ! rank inp i) = Some (co_instructions code ! i, co_instructions code ! Suc i, e)"
    using unfuse_pair [of "wire_mark code i" "co_instructions code ! i" "co_instructions code ! Suc i" "?raws ! rank inp i"]
      raw_of_rank [OF set n i(2)] fused_arg [OF enc i(1) True f] f
    by (auto simp: pair_ok_def)
  moreover have "li_op inp i \<noteq> op_LOAD_FAST_AND_CLEAR"
    using fused_arg [OF enc i(1) True f] f by (auto simp: fuse_pair_def Let_def split: if_splits)
  ultimately show ?thesis
    using decode_step_pair [of ?raws "rank inp i" slots, OF _ st(2)] raw_of_rank [OF set n i(2)]
      True st(1) by (fastforce simp: take_Suc_conv_app_nth fused_def)
next
  case False
  let ?raws = "wire_raws 0 (emitted_wire inp la)"
  have n: "i < li_len inp" using i(1) encoding_len [OF enc] by simp
  have no_clear: "dr_op (?raws ! rank inp i) = op_LOAD_FAST_AND_CLEAR \<Longrightarrow>
      \<not> shared_local slots (dr_arg (?raws ! rank inp i))"
    using clear_plain [OF enc can i(1) False] raw_of_rank [OF set n i(2)] by simp
  have "raw_expansion (li_op inp i) (la_args la ! i) = 1"
    using canonical_fused [OF enc can] n i(2) False encoding_zero [OF enc, of "Suc i"] encoding_len [OF enc]
    by (simp add: well_fused_def)
  then have "unfuse (?raws ! rank inp i) = None"
    by (rule raw_expansion_one) (simp_all add: raw_of_rank [OF set n i(2)])
  from decode_step_lone [OF no_clear st(2) this] lone_back_ok [OF enc can set small i False] show ?thesis
    using False i(1) st(1) by (auto simp: take_Suc_conv_app_nth)
qed

lemma decode_from_ok:
  assumes enc: "encoding code cp inp la" and can: "canonical code slots" and set: "settled inp la"
    and small: "length (cc_co_code cp) < 2 ^ 33"
  shows "at_boundary inp i \<Longrightarrow> ds_out st = take i (co_instructions code) \<Longrightarrow> ds_plain_shared st = [] \<Longrightarrow>
    \<exists>st'. decode_from (wire_raws 0 (emitted_wire inp la)) slots (co_constants code)
      [rank inp i..<length (shown inp)] st = Some st' \<and> ds_out st' = co_instructions code"
proof (induction "li_len inp - i" arbitrary: i st rule: less_induct)
  case less
  note len = encoding_len [OF enc]
  show ?case
  proof (cases "i < li_len inp")
    case False
    then have "i = li_len inp" using less.prems(1) by (simp add: at_boundary_def)
    then show ?thesis using less.prems(2) len rank_all [of inp] by simp
  next
    case True
    then have z: "\<not> li_zero inp ! i" using less.prems(1) by (simp add: at_boundary_def)
    define j where "j = (if fused code i then Suc (Suc i) else Suc i)"
    have n: "i < length (co_instructions code)" using True len by simp
    obtain st' where st': "decode_step (wire_raws 0 (emitted_wire inp la)) slots (co_constants code) (rank inp i) st = Some st'"
        "ds_out st' = take j (co_instructions code)" "ds_plain_shared st' = []"
      using decode_step_ok [OF enc can set small n z less.prems(2, 3)] by (auto simp: j_def)
    have zs: "li_zero inp ! Suc i \<longleftrightarrow> fused code i" if "Suc i < li_len inp"
      using encoding_zero [OF enc, of "Suc i"] that len by simp
    have b: "at_boundary inp j" and r: "rank inp j = Suc (rank inp i)"
    proof -
      have fl: "fused code i \<Longrightarrow> Suc i < li_len inp" using len by (simp add: fused_def)
      show "at_boundary inp j"
        using True zs fl no_two_fused [OF can, of i] encoding_zero [OF enc, of "Suc (Suc i)"] len
        by (auto simp: at_boundary_def j_def)
      show "rank inp j = Suc (rank inp i)"
        using z zs fl by (auto simp: j_def rank_Suc)
    qed
    have "li_len inp - j < li_len inp - i" using True by (auto simp: j_def)
    from less.hyps [OF this b st'(2, 3)] show ?thesis
      using st'(1) r rank_less [OF True z] by (simp add: upt_conv_Cons)
  qed
qed

lemma decode_encode:
  assumes "encoding code cp inp la" "canonical code slots" "settled inp la" "length (cc_co_code cp) < 2 ^ 33"
  shows "decode (cc_co_code cp) slots (co_constants code) = Some (co_instructions code)"
proof -
  have "at_boundary inp 0" using encoding_zero [OF assms(1), of 0] encoding_len [OF assms(1)]
    by (auto simp: at_boundary_def)
  then obtain st' where "decode_from (wire_raws 0 (emitted_wire inp la)) slots (co_constants code)
      [rank inp 0..<length (shown inp)] \<lparr>ds_out = [], ds_marks = [], ds_plain_shared = [], ds_loop_tail = False\<rparr> = Some st'"
      "ds_out st' = co_instructions code"
    using decode_from_ok [OF assms, of 0 "\<lparr>ds_out = [], ds_marks = [], ds_plain_shared = [], ds_loop_tail = False\<rparr>"]
    by (simp only: decode_state.simps) auto
  moreover have "rank inp 0 = 0" by (simp add: rank_def)
  ultimately show ?thesis
    using encoding_raws [OF assms(1)]
    by (simp add: decode_def decode_instructions_def emitted_wire_def)
qed

end
