(* ===== verification/Code_Table.thy ===== *)
theory Code_Table
  imports Code_Back
begin

text \<open>
  The two translation tables invert each other on every operand a compiled program can
  carry: the numbering of the cells and free variables by slot (\<open>SlotMap\<close>) is the inverse of
  the numbering of the slots by cell (\<open>DerefSlots\<close>), and each operation that names a wire
  operation of its own keeps its operand.
\<close>

section \<open>Slots\<close>

definition slots_of :: "'c CodeObject \<Rightarrow> SlotMap" where
  "slots_of code = slots_from_code_vars (co_varnames code) (co_cellvars code) (co_freevars code)"

definition own_cells :: "'c CodeObject \<Rightarrow> string list" where
  "own_cells code = filter (\<lambda>c. c \<notin> set (co_varnames code)) (co_cellvars code)"

definition names_fit :: "'c CodeObject \<Rightarrow> bool" where
  "names_fit code \<longleftrightarrow> distinct (co_varnames code) \<and> distinct (co_cellvars code) \<and>
    length (co_varnames code) + length (co_cellvars code) + length (co_freevars code) < 2 ^ 32"

text \<open>The slots as plain numbers.\<close>

fun cell_places :: "string list \<Rightarrow> nat \<Rightarrow> string list \<Rightarrow> nat list" where
  "cell_places varnames nxt [] = []"
| "cell_places varnames nxt (c # cs) =
    (case position_of (\<lambda>v. v = c) varnames of
       Some p \<Rightarrow> p # cell_places varnames nxt cs
     | None \<Rightarrow> nxt # cell_places varnames (Suc nxt) cs)"

abbreviation fresh :: "string list \<Rightarrow> string list \<Rightarrow> nat" where
  "fresh varnames cs \<equiv> length (filter (\<lambda>c. c \<notin> set varnames) cs)"

lemma position_of_Some:
  "position_of P xs = Some p \<Longrightarrow> p < length xs \<and> P (xs ! p)"
  by (induction xs arbitrary: p) (auto split: if_splits)

lemma position_of_name: "position_of (\<lambda>v. v = c) vs = None \<longleftrightarrow> c \<notin> set vs"
  by (induction vs) auto

lemma position_found:
  "c \<in> set vs \<Longrightarrow> \<exists>p. position_of (\<lambda>v. v = c) vs = Some p \<and> p < length vs \<and> vs ! p = c"
  using position_of_name [of c vs] position_of_Some [of "\<lambda>v. v = c" vs] by (metis option.exhaust)

lemma length_cell_places [simp]: "length (cell_places vs nxt cs) = length cs"
  by (induction vs nxt cs rule: cell_places.induct) (auto split: option.split)

lemma cell_places_range:
  "x \<in> set (cell_places vs nxt cs) \<Longrightarrow>
    (x < length vs \<and> vs ! x \<in> set cs) \<or> (nxt \<le> x \<and> x < nxt + fresh vs cs)"
proof (induction vs nxt cs rule: cell_places.induct)
  case (2 vs nxt c cs)
  show ?case
  proof (cases "position_of (\<lambda>v. v = c) vs")
    case None
    then have "c \<notin> set vs" by (simp add: position_of_name)
    then show ?thesis using 2 None by (auto split: if_splits)
  next
    case (Some p)
    then have "p < length vs \<and> vs ! p = c" using position_of_Some [OF Some] by simp
    then show ?thesis using 2 Some by (auto simp: position_of_name)
  qed
qed simp

lemma cell_places_distinct:
  "distinct cs \<Longrightarrow> length vs \<le> nxt \<Longrightarrow> distinct (cell_places vs nxt cs)"
proof (induction vs nxt cs rule: cell_places.induct)
  case (2 vs nxt c cs)
  show ?case
  proof (cases "position_of (\<lambda>v. v = c) vs")
    case None
    then have "nxt \<notin> set (cell_places vs (Suc nxt) cs)"
      using cell_places_range [of nxt vs "Suc nxt" cs] 2(4) by auto
    then show ?thesis using 2 None by simp
  next
    case (Some p)
    then have p: "p < length vs \<and> vs ! p = c" using position_of_Some [OF Some] by simp
    then have "p \<notin> set (cell_places vs nxt cs)"
      using cell_places_range [of p vs nxt cs] 2(3, 4) by auto
    then show ?thesis using 2 Some by simp
  qed
qed simp

lemma cell_slots_places:
  "cell_slots vs (word_of_nat nxt) cs =
    (map word_of_nat (cell_places vs nxt cs), word_of_nat (nxt + fresh vs cs))"
proof (induction vs nxt cs rule: cell_places.induct)
  case (2 vs nxt c cs)
  show ?case
  proof (cases "position_of (\<lambda>v. v = c) vs")
    case None
    then have "c \<notin> set vs" by (simp add: position_of_name)
    moreover have "(word_of_nat nxt :: w32) + 1 = word_of_nat (Suc nxt)" by simp
    ultimately show ?thesis using 2(1) [OF None] None by (simp add: add.commute)
  next
    case (Some p)
    then have "c \<in> set vs" using position_of_name [of c vs] by auto
    then show ?thesis using 2(2) [OF Some] Some by simp
  qed
qed simp

lemma free_slots_map: "free_slots (word_of_nat nxt) fs = map word_of_nat [nxt..<nxt + length fs]"
proof (induction fs arbitrary: nxt)
  case (Cons f fs)
  have "[nxt..<nxt + length (f # fs)] = nxt # [Suc nxt..<Suc nxt + length fs]"
    by (simp add: upt_conv_Cons del: upt_Suc)
  then show ?case using Cons [of "Suc nxt"] by (simp add: add.commute del: upt_Suc)
qed simp

lemma free_slots_sum: "free_slots (word_of_nat a + word_of_nat b) fs = map word_of_nat [a + b..<a + b + length fs]"
  using free_slots_map [of "a + b"] by simp

definition all_places :: "'c CodeObject \<Rightarrow> nat list" where
  "all_places code =
    (let n = length (co_varnames code); m = n + fresh (co_varnames code) (co_cellvars code)
     in cell_places (co_varnames code) n (co_cellvars code) @ [m..<m + length (co_freevars code)])"

lemma deref_slots_places: "deref_slots_from_code code = map word_of_nat (all_places code)"
  by (simp add: deref_slots_from_code_def all_places_def cell_slots_places free_slots_sum Let_def)

section \<open>The inverse numbering\<close>

fun puts :: "w32 option list \<Rightarrow> nat \<Rightarrow> nat list \<Rightarrow> w32 option list" where
  "puts ds k [] = ds"
| "puts ds k (p # ps) = puts (ds[p := Some (word_of_nat k)]) (Suc k) ps"

lemma puts_append: "puts ds k (ps @ qs) = puts (puts ds k ps) (k + length ps) qs"
  by (induction ds k ps rule: puts.induct) simp_all

lemma length_puts [simp]: "length (puts ds k ps) = length ds"
  by (induction ds k ps rule: puts.induct) simp_all

lemma puts_other: "x \<notin> set ps \<Longrightarrow> puts ds k ps ! x = ds ! x"
  by (induction ds k ps rule: puts.induct) simp_all

lemma puts_nth:
  "distinct ps \<Longrightarrow> \<forall>p \<in> set ps. p < length ds \<Longrightarrow> j < length ps \<Longrightarrow>
    puts ds k ps ! (ps ! j) = Some (word_of_nat (k + j))"
proof (induction ds k ps arbitrary: j rule: puts.induct)
  case (2 ds k p ps)
  then show ?case by (cases j) (simp_all add: puts_other)
qed simp

lemma place_cells_puts:
  "nxt + fresh vs cs < 2 ^ 32 \<Longrightarrow> place_cells vs (word_of_nat nxt) k cs ds =
    (puts ds k (cell_places vs nxt cs), word_of_nat (nxt + fresh vs cs))"
proof (induction vs nxt cs arbitrary: k ds rule: cell_places.induct)
  case (2 vs nxt c cs)
  show ?case
  proof (cases "position_of (\<lambda>v. v = c) vs")
    case None
    then have "c \<notin> set vs" by (simp add: position_of_name)
    moreover have "(word_of_nat nxt :: w32) + 1 = word_of_nat (Suc nxt)" by simp
    moreover have "unat (word_of_nat nxt :: w32) = nxt"
      using 2(3) by (simp add: unsigned_of_nat take_bit_nat_eq_self)
    ultimately show ?thesis using 2(1) [OF None] 2(3) None by (simp add: add.commute)
  next
    case (Some p)
    then have "c \<in> set vs" using position_of_name [of c vs] by auto
    then show ?thesis using 2(2) [OF Some] 2(3) Some by simp
  qed
qed simp

lemma place_frees_puts: "place_frees at0 d n ds = puts ds d [at0..<at0 + n]"
proof (induction at0 d n ds rule: place_frees.induct)
  case (2 at0 d n ds)
  have "[at0..<at0 + Suc n] = at0 # [Suc at0..<Suc at0 + n]" by (simp add: upt_conv_Cons del: upt_Suc)
  then show ?case using 2 by (simp del: upt_Suc)
qed simp

lemma fresh_le: "fresh vs cs \<le> length cs"
  by (rule length_filter_le)

lemma all_places_ok:
  assumes "names_fit code"
  shows "distinct (all_places code)" "length (all_places code) = length (co_cellvars code) + length (co_freevars code)"
    "\<forall>p \<in> set (all_places code). p < length (co_varnames code) + length (co_freevars code)
       + fresh (co_varnames code) (co_cellvars code)"
proof -
  have "distinct (cell_places (co_varnames code) (length (co_varnames code)) (co_cellvars code))"
    using assms by (simp add: names_fit_def cell_places_distinct)
  then show "distinct (all_places code)"
    by (fastforce simp: all_places_def Let_def dest: cell_places_range)
  show "\<forall>p \<in> set (all_places code). p < length (co_varnames code) + length (co_freevars code)
      + fresh (co_varnames code) (co_cellvars code)"
    by (fastforce simp: all_places_def Let_def dest: cell_places_range)
qed (simp add: all_places_def Let_def)

lemma slots_of_puts:
  assumes "names_fit code"
  shows "slots_of code = \<lparr>sm_nlocals = word_of_nat (length (co_varnames code)),
    sm_deref_of_slot = puts (replicate (length (co_varnames code) + length (co_freevars code)
       + fresh (co_varnames code) (co_cellvars code)) None) 0 (all_places code)\<rparr>"
proof -
  let ?n = "length (co_varnames code)" and ?f = "fresh (co_varnames code) (co_cellvars code)"
  have small: "?n + ?f < 2 ^ 32"
    using assms fresh_le [of "co_varnames code" "co_cellvars code"]
    unfolding names_fit_def by linarith
  then have u: "unat (word_of_nat ?n + word_of_nat ?f :: w32) = ?n + ?f"
    by (simp add: unsigned_of_nat take_bit_nat_eq_self flip: of_nat_add)
  show ?thesis
    using place_cells_puts [OF small] u
    by (simp add: slots_of_def slots_from_code_vars_def all_places_def place_frees_puts puts_append Let_def)
qed

lemma slot_round_trip:
  assumes "names_fit code" "unat d < length (co_cellvars code) + length (co_freevars code)"
  shows "get_or (sm_deref_of_slot (slots_of code)) (unat (deref_slot (deref_slots_from_code code) d)) None = Some d"
proof -
  note ok = all_places_ok [OF assms(1)]
  let ?p = "all_places code ! unat d"
  let ?n = "length (co_varnames code) + length (co_freevars code) + fresh (co_varnames code) (co_cellvars code)"
  have p: "?p < ?n" using ok assms(2) by simp
  moreover have "?n < 2 ^ 32"
    using assms(1) fresh_le [of "co_varnames code" "co_cellvars code"]
    unfolding names_fit_def by linarith
  ultimately have "unat (deref_slot (deref_slots_from_code code) d) = ?p"
    using ok(2) assms(2) by (simp add: deref_slot_def get_or_def deref_slots_places unsigned_of_nat take_bit_nat_eq_self)
  moreover have "puts (replicate ?n None) 0 (all_places code) ! ?p = Some (word_of_nat (0 + unat d))"
    by (rule puts_nth [OF ok(1)]) (use ok(2, 3) assms(2) in simp_all)
  ultimately show ?thesis using p by (simp add: slots_of_puts [OF assms(1)] get_or_def)
qed

lemma plain_slot:
  assumes "names_fit code" "unat v < length (co_varnames code)" "co_varnames code ! unat v \<notin> set (co_cellvars code)"
  shows "\<not> is_cellish (slots_of code) v"
proof -
  have "unat v \<notin> set (all_places code)"
    using assms(2, 3) by (auto simp: all_places_def Let_def dest: cell_places_range)
  then show ?thesis using assms(2) by (simp add: slots_of_puts [OF assms(1)] is_cellish_def puts_other)
qed

section \<open>Operands\<close>

text \<open>The operations whose operand is not written.\<close>

definition no_operand :: "OpCode \<Rightarrow> bool" where
  "no_operand opc \<longleftrightarrow> opc \<in> {O_Nop, O_LoadLocals, O_PushNull, O_BinarySubscr, O_BinarySlice,
    O_StoreSubscr, O_StoreSlice, O_DeleteSubscr, O_PopTop, O_CallEx, O_ReturnValue, O_GetIter,
    O_EndFor, O_ListToTuple, O_SetupAnnotations, O_LoadBuildClass, O_CheckExcMatch, O_CheckEGMatch,
    O_PushExcInfo, O_PopExcept, O_WithExceptStart, O_ImportStar, O_PrepReraiseStar, O_CleanupThrow,
    O_StopIterationError, O_AsyncGenWrap, O_BuildTemplate, O_NotTaken, O_PopIter, O_ToBool,
    O_GetYieldFromIter, O_ReturnGenerator, O_EndSend, O_GetAiter, O_GetAnext, O_EndAsyncFor,
    O_MatchSequence, O_MatchMapping, O_MatchKeys, O_GetLen}"

definition is_deref :: "OpCode \<Rightarrow> bool" where
  "is_deref opc \<longleftrightarrow> opc \<in> {O_LoadDeref, O_StoreDeref, O_DeleteDeref, O_MakeCell, O_LoadClosure,
    O_LoadClassdictOrDeref}"

definition keeps_operand :: "'c CodeObject \<Rightarrow> instruction \<Rightarrow> bool" where
  "keeps_operand code ins \<longleftrightarrow>
    (let opc = ins_op ins; arg = ins_arg ins
     in if no_operand opc then arg = 0
        else if is_deref opc then unat arg < length (co_cellvars code) + length (co_freevars code)
        else case opc of
            O_LoadFast \<Rightarrow> unat arg < length (co_varnames code)
              \<and> co_varnames code ! unat arg \<notin> set (co_cellvars code)
          | O_LoadGlobal \<Rightarrow> unat arg < 2 ^ 31
          | O_LoadAttr \<Rightarrow> unat arg < 2 ^ 31
          | O_LoadMethodAttr \<Rightarrow> unat arg < 2 ^ 31
          | O_BinaryOp \<Rightarrow> unat arg < 13 \<or> 256 \<le> unat arg \<and> unat arg < 269
          | O_UnaryOp \<Rightarrow> unat arg < 4
          | O_CompareOp \<Rightarrow> unat arg < 6 \<or> 16 \<le> unat arg \<and> unat arg < 22
          | O_CopyTop \<Rightarrow> 0 < arg
          | O_UnpackEx \<Rightarrow> unat arg < 2 ^ 16
          | O_FormatValue \<Rightarrow> arg = 0 \<or> arg = 4
          | O_CallIntrinsic1 \<Rightarrow> arg \<notin> {INTRINSIC_UNARY_POSITIVE, INTRINSIC_LIST_TO_TUPLE,
              INTRINSIC_STOPITERATION_ERROR, INTRINSIC_ASYNC_GEN_WRAP, INTRINSIC_IMPORT_STAR}
          | O_CallIntrinsic2 \<Rightarrow> arg \<noteq> INTRINSIC_PREP_RERAISE_STAR
          | O_CallSelf \<Rightarrow> False
          | O_PrintExpr \<Rightarrow> False
          | Refined _ \<Rightarrow> False
          | Pseudo _ \<Rightarrow> False
          | _ \<Rightarrow> True)"

lemma bit_twice: "bit (a * 2 :: w32) n \<longleftrightarrow> 0 < n \<and> n < 32 \<and> bit a (n - 1)"
  by (auto simp: bit_double_iff [of a, simplified mult.commute])

lemma in_range: "m \<le> unat v \<Longrightarrow> unat v < n \<Longrightarrow> v \<in> set (map word_of_nat [m..<n])"
  by (auto intro: image_eqI [of _ _ "unat v"])

lemma shift_back: "unat (a :: w32) < 2 ^ 31 \<Longrightarrow> drop_bit 1 (push_bit 1 a) = a"
proof (rule bit_word_eqI)
  fix n assume a: "unat a < 2 ^ 31" and "n < LENGTH(32)"
  then show "bit (drop_bit 1 (push_bit 1 a)) n \<longleftrightarrow> bit a n"
    using high_bit [OF drop_zero [OF a], of 0]
    by (cases "n = 31") (auto simp: bit_simps bit_twice)
qed

lemma swap_bytes:
  assumes m: "\<And>k. bit (m :: w32) k \<longleftrightarrow> k < 8" and "unat (a :: w32) < 2 ^ 16"
  shows "push_bit 8 (((drop_bit 8 a AND m) OR push_bit 8 (a AND m)) AND m)
    OR (drop_bit 8 ((drop_bit 8 a AND m) OR push_bit 8 (a AND m)) AND m) = a"
proof (rule bit_word_eqI)
  fix n assume n: "n < LENGTH(32)"
  have high: "16 \<le> n \<Longrightarrow> \<not> bit a n" using high_bit [OF drop_zero [OF assms(2)], of "n - 16"] by simp
  consider "n < 8" | "8 \<le> n" "n < 16" | "16 \<le> n" by linarith
  then show "bit (push_bit 8 (((drop_bit 8 a AND m) OR push_bit 8 (a AND m)) AND m)
      OR (drop_bit 8 ((drop_bit 8 a AND m) OR push_bit 8 (a AND m)) AND m)) n \<longleftrightarrow> bit a n"
    by cases (use n high in \<open>auto simp: bit_simps m\<close>)
qed

lemma byte_mask: "bit (0xFF :: w32) k \<longleftrightarrow> k < 8"
  by (auto simp: bit_simps dest: bit_imp_le_length)

lemmas unpack_back = swap_bytes [OF byte_mask]

lemma dict_back:
  "push_bit 1 (sat_sub (drop_bit 1 (a :: w32) + 1) 1) OR (a AND 1) = a"
proof -
  have "unat a < 2 ^ 32" using unsigned_less [of a] by simp
  then have "drop_bit 1 (unat a) < 2 ^ 31" by (simp add: drop_bit_eq_div)
  then have "unat (drop_bit 1 a) < 2 ^ 31" by (simp only: unat_drop_bit_eq)
  then have "sat_sub (drop_bit 1 a + 1) 1 = drop_bit 1 a"
    by (simp add: sat_sub_def word_le_nat_alt unat_word_ariths)
  moreover have "push_bit 1 (drop_bit 1 a) OR (a AND 1) = a"
  proof (rule bit_word_eqI)
    fix n assume n: "n < LENGTH(32)"
    then show "bit (push_bit 1 (drop_bit 1 a) OR (a AND 1)) n \<longleftrightarrow> bit a n"
      by (cases n) (auto simp: bit_simps bit_twice)
  qed
  ultimately show ?thesis by simp
qed

section \<open>The table\<close>

lemma deref_back:
  assumes "names_fit code" "unat d < length (co_cellvars code) + length (co_freevars code)"
  shows "slot_deref (slots_of code) (deref_slot (deref_slots_from_code code) d) = d"
    "is_cellish (slots_of code) (deref_slot (deref_slots_from_code code) d)"
  using slot_round_trip [OF assms] by (auto simp: slot_deref_def is_cellish_def get_or_def split: if_splits)

lemma unwires_deref:
  assumes "names_fit code" "is_deref opc" "unat arg < length (co_cellvars code) + length (co_freevars code)"
  shows "unwires code (slots_of code) (Instr opc arg)"
  using assms(2) deref_back [OF assms(1, 3)]
  by (auto simp: is_deref_def unwires_def wire_of_def map_from_cpython_def)

lemma unwires_bare: "no_operand opc \<Longrightarrow> unwires code slots (Instr opc 0)"
  unfolding no_operand_def
  by (elim insertE emptyE) (simp_all add: unwires_def wire_of_def map_from_cpython_def intrinsic_unwire_def
      INTRINSIC_UNARY_POSITIVE_def INTRINSIC_LIST_TO_TUPLE_def INTRINSIC_STOPITERATION_ERROR_def
      INTRINSIC_ASYNC_GEN_WRAP_def INTRINSIC_IMPORT_STAR_def INTRINSIC_PREP_RERAISE_STAR_def)

lemma unwires_local:
  assumes "names_fit code" "unat arg < length (co_varnames code)"
    "co_varnames code ! unat arg \<notin> set (co_cellvars code)"
  shows "unwires code (slots_of code) (Instr O_LoadFast arg)"
  using plain_slot [OF assms] by (simp add: unwires_def wire_of_def map_from_cpython_def)

lemma unwires_shifted:
  assumes "unat arg < 2 ^ 31"
  shows "unwires code slots (Instr O_LoadGlobal arg)" "unwires code slots (Instr O_LoadAttr arg)"
    "unwires code slots (Instr O_LoadMethodAttr arg)"
  using shift_back [OF assms] global_parts [OF assms] even_shift [of arg]
  by (simp_all add: unwires_def wire_of_def map_from_cpython_def del: push_bit_Suc)

lemma unwires_binary:
  assumes "unat arg < 13 \<or> 256 \<le> unat arg \<and> unat arg < 269"
  shows "unwires code slots (Instr O_BinaryOp arg)"
proof -
  have "arg \<in> set (map word_of_nat [0..<13]) \<or> arg \<in> set (map word_of_nat [256..<269])"
    using assms in_range [of 0 arg 13] in_range [of 256 arg 269] by blast
  then show ?thesis
    by (simp add: upt_rec) (elim disjE; simp add: unwires_def wire_of_def binary_op_arg_def binop_from_arg_def
      BINARY_OP_INPLACE_FLAG_def NB_INPLACE_OFFSET_def NB_SUBSCR_def map_from_cpython_def binop_unwire_def
      nb_to_binop_def word_le_nat_alt)
qed

lemma unwires_unary:
  assumes "unat arg < 4"
  shows "unwires code slots (Instr O_UnaryOp arg)"
proof -
  have "arg \<in> set (map word_of_nat [0..<4])" using in_range [of 0 arg 4] assms by simp
  then show ?thesis
    by (simp add: upt_rec) (elim disjE; simp add: unwires_def wire_of_def unary_from_arg_def map_from_cpython_def
      intrinsic_unwire_def)
qed

lemma unwires_compare:
  assumes "unat arg < 6 \<or> 16 \<le> unat arg \<and> unat arg < 22"
  shows "unwires code slots (Instr O_CompareOp arg)"
proof -
  have "arg \<in> set (map word_of_nat [0..<6]) \<or> arg \<in> set (map word_of_nat [16..<22])"
    using assms in_range [of 0 arg 6] in_range [of 16 arg 22] by blast
  then show ?thesis
    by (simp add: upt_rec) (elim disjE; simp add: unwires_def wire_of_def compare_op_arg_def compare_mask_def
      COMPARE_OP_TO_BOOL_FLAG_def map_from_cpython_def compare_from_arg_def)
qed

text \<open>The operations whose operand is copied both ways.\<close>

definition copies_operand :: "OpCode \<Rightarrow> bool" where
  "copies_operand opc \<longleftrightarrow> opc \<in> {O_Resume, O_LoadConst, O_LoadName, O_LoadFastAndClear, O_StoreFast,
    O_StoreGlobal, O_StoreName, O_DeleteFast, O_DeleteGlobal, O_DeleteName, O_CopyFreeVars,
    O_LoadSuperAttr, O_StoreAttr, O_DeleteAttr, O_IsOp, O_ContainsOp, O_Swap, O_Call, O_CallKw,
    O_PopJumpIfFalse, O_PopJumpIfTrue, O_PopJumpIfNone, O_PopJumpIfNotNone, O_JumpForward,
    O_JumpBackward, O_ForIter, O_BuildList, O_BuildTuple, O_BuildSet, O_BuildMap, O_BuildString,
    O_ListAppend, O_ListExtend, O_SetAdd, O_SetUpdate, O_MapAdd, O_UnpackSequence, O_MakeFunction,
    O_SetFunctionAttribute, O_BuildSlice, O_LoadClassdictOrGlobal, O_RaiseVarargs, O_Reraise,
    O_LoadSpecial, O_LoadCommonConstant, O_ImportName, O_ImportFrom, O_BuildInterpolation,
    O_LoadSmallInt, O_ConvertValue, O_YieldValue, O_Send, O_GetAwaitable, O_MatchClass}"

lemma unwires_copied: "copies_operand opc \<Longrightarrow> unwires code slots (Instr opc arg)"
  unfolding copies_operand_def
  by (elim insertE emptyE) (simp_all add: unwires_def wire_of_def map_from_cpython_def)

lemma at_least_one: "0 < (arg :: w32) \<Longrightarrow> max arg 1 = arg"
  by (simp add: max_def word_le_nat_alt word_less_nat_alt word_unat_eq_iff)

lemma unwires_rest:
  "0 < arg \<Longrightarrow> unwires code slots (Instr O_CopyTop arg)"
  "unat arg < 2 ^ 16 \<Longrightarrow> unwires code slots (Instr O_UnpackEx arg)"
  "arg = 0 \<or> arg = 4 \<Longrightarrow> unwires code slots (Instr O_FormatValue arg)"
  "arg \<notin> {INTRINSIC_UNARY_POSITIVE, INTRINSIC_LIST_TO_TUPLE, INTRINSIC_STOPITERATION_ERROR,
     INTRINSIC_ASYNC_GEN_WRAP, INTRINSIC_IMPORT_STAR} \<Longrightarrow> unwires code slots (Instr O_CallIntrinsic1 arg)"
  "arg \<noteq> INTRINSIC_PREP_RERAISE_STAR \<Longrightarrow> unwires code slots (Instr O_CallIntrinsic2 arg)"
  using unpack_back [of arg] at_least_one [of arg]
  by (auto simp: unwires_def wire_of_def map_from_cpython_def intrinsic_unwire_def)

lemma one_bit: "(a :: w32) AND 1 = 0 \<or> a AND 1 = 1"
  by (simp add: and_one_eq mod2_eq_if)

lemma unwires_dict: "unwires code slots (Instr O_DictUpdate arg)"
  using dict_back [of arg] one_bit [of arg]
  by (auto simp: unwires_def wire_of_def map_from_cpython_def)

lemma keeps_operand_unwires:
  assumes "names_fit code" "keeps_operand code ins"
  shows "unwires code (slots_of code) ins"
proof -
  obtain opc arg where i: "ins = Instr opc arg" by (cases ins) auto
  consider (bare) "no_operand opc" | (deref) "is_deref opc" | (copied) "copies_operand opc"
    | (rest) "\<not> no_operand opc" "\<not> is_deref opc" "\<not> copies_operand opc" by blast
  then show ?thesis
  proof cases
    case bare
    then show ?thesis using assms(2) unwires_bare by (simp add: i keeps_operand_def)
  next
    case deref
    then have "\<not> no_operand opc" by (auto simp: is_deref_def no_operand_def)
    then show ?thesis using assms(2) unwires_deref [OF assms(1)] deref by (simp add: i keeps_operand_def)
  next
    case copied
    then show ?thesis by (simp add: i unwires_copied)
  next
    case rest
    have "opc \<in> {O_LoadFast, O_LoadGlobal, O_LoadAttr, O_LoadMethodAttr, O_BinaryOp, O_UnaryOp, O_CompareOp,
        O_CopyTop, O_UnpackEx, O_FormatValue, O_CallIntrinsic1, O_CallIntrinsic2, O_DictUpdate}"
      using rest assms(2)
      by (cases opc; auto simp: i keeps_operand_def no_operand_def is_deref_def copies_operand_def split: opcode_sorts)
        (metis flow_op.exhaust, metis func_op.exhaust, metis exc_op.exhaust, metis gen_op.exhaust, metis added_op.exhaust)
    then show ?thesis
      using rest(1, 2) assms(2)
      by (auto simp: i keeps_operand_def intro!: unwires_local [OF assms(1)] unwires_shifted unwires_binary
          unwires_unary unwires_compare unwires_rest unwires_dict)
  qed
qed

section \<open>Regular code\<close>

text \<open>
  The code objects both translations carry over whole: every instruction that stands alone
  keeps its operand, the fused pairs do not overlap, the jumps lead to instruction boundaries,
  and no comprehension saves a local that is also a cell.
\<close>

definition regular :: "'c CodeObject \<Rightarrow> bool" where
  "regular code \<longleftrightarrow> names_fit code \<and>
    (\<forall>i < length (co_instructions code). instr_ok code (slots_of code) i \<and>
       (lone_at code i \<longrightarrow> keeps_operand code (co_instructions code ! i)))"

lemma regular_canonical: "regular code \<Longrightarrow> canonical code (slots_of code)"
  by (simp add: regular_def canonical_def keeps_operand_unwires)

definition layout_settles :: "'c CodeObject \<Rightarrow> bool" where
  "layout_settles code \<longleftrightarrow>
    (case wire_ops code of
       None \<Rightarrow> False
     | Some (mapped, zero_width) \<Rightarrow>
         settled (layout_input_of code mapped zero_width) (layout_of (layout_input_of code mapped zero_width)))"

lemma settles_settled: "encoding code cp inp la \<Longrightarrow> layout_settles code \<Longrightarrow> settled inp la"
  by (auto simp: encoding_def layout_settles_def)

section \<open>Short code settles\<close>

lemma ext_count_le: "ext_count a \<le> 3"
  by (simp add: ext_count_def)

lemma ext_count_small: "k \<le> 255 \<Longrightarrow> ext_count (word_of_nat k) = 0"
  by (simp add: ext_count_def word_le_nat_alt unsigned_of_nat take_bit_nat_eq_self)

text \<open>The code units of a layout with three prefixes on every instruction.\<close>

definition most_units :: "MappedOp list \<Rightarrow> nat" where
  "most_units mapped = sum_list (map (\<lambda>m. 4 + cache_entries (mo_op m)) mapped)"

lemma starts_most:
  assumes "\<forall>k < li_len inp. \<not> li_zero inp ! k \<longrightarrow> ext ! k \<le> 3" "i \<le> li_len inp"
  shows "layout_starts inp ext ! i \<le> most_units (take i (li_ops inp))"
  using assms(2)
proof (induction i)
  case (Suc i)
  have "unit_size inp ext i \<le> 4 + cache_entries (li_op inp i)"
    using assms(1) Suc.prems by (simp add: unit_size_def)
  then show ?case
    using Suc layout_starts_Suc [of i inp ext] by (simp add: take_Suc_conv_app_nth most_units_def)
qed (simp add: layout_starts_nth most_units_def)

lemma most_take: "most_units (take i ops) \<le> most_units ops"
  by (metis append_take_drop_id le_add1 map_append most_units_def sum_list_append)

lemma resolved_small:
  assumes "\<forall>k < li_len inp. ext ! k \<le> 3" "most_units (li_ops inp) \<le> 240" "i < li_len inp"
    "resolved_arg inp (layout_starts inp ext) ext i = Some a"
  shows "ext_count a = 0"
proof -
  have s: "layout_starts inp ext ! k \<le> 240" if "k \<le> li_len inp" for k
    using starts_most [of inp ext k] assms(1) that most_take [of k "li_ops inp"] assms(2) by simp
  have c: "cache_entries (li_op inp i) \<le> 9" by (rule cache_entries_le)
  have t: "target_idx inp i \<le> li_len inp" by (simp add: target_idx_def)
  have e: "ext ! i \<le> 3" using assms(1, 3) by simp
  have small: "k \<le> 255 \<Longrightarrow> a = word_of_nat k \<Longrightarrow> ext_count a = 0" for k by (simp add: ext_count_small)
  let ?starts = "layout_starts inp ext"
  let ?next = "?starts ! i + ext ! i + 1 + cache_entries (li_op inp i)"
  have n: "?next \<le> 255" using s [of i] c e assms(3) by simp
  consider (async) "li_op inp i = op_END_ASYNC_FOR"
    | (jump) "li_op inp i \<noteq> op_END_ASYNC_FOR" "is_rel_jump (li_op inp i)" "\<not> li_zero inp ! i"
    using assms(4) by (auto simp: resolved_arg_def split: if_splits)
  then show ?thesis
  proof cases
    case async
    show ?thesis
    proof (cases "li_send inp ! i")
      case None
      then show ?thesis using async assms(4) small [of 0] by (simp add: resolved_arg_def)
    next
      case (Some send)
      then have "a = word_of_nat (?starts ! i + ext ! i + 1 - ?starts ! send - END_SEND_OFFSET)"
        using async assms(4) by (simp add: resolved_arg_def)
      then show ?thesis using n by (intro small) simp_all
    qed
  next
    case jump
    then have a: "a = word_of_nat (if is_backward_jump (li_op inp i) then ?next - ?starts ! target_idx inp i
        else ?starts ! target_idx inp i - ?next)"
      using assms(4) by (auto simp: resolved_arg_def Let_def)
    show ?thesis using n s [OF t] by (intro small [OF _ a]) auto
  qed
qed

lemma relax_small:
  assumes "\<forall>k < li_len inp. ext ! k \<le> 3" "most_units (li_ops inp) \<le> 240" "i < li_len inp"
  shows "relax_ext inp (layout_starts inp ext) ext ! i = (if lone_arg inp i then ext ! i else 0)"
proof (cases "resolved_arg inp (layout_starts inp ext) ext i")
  case None
  then show ?thesis using assms(3) resolved_None [of inp "layout_starts inp ext" ext i] by (simp add: relax_ext_def)
next
  case (Some a)
  moreover from Some have "\<not> lone_arg inp i" using resolved_None by (metis option.distinct(1))
  ultimately show ?thesis using resolved_small [OF assms Some] assms(3) by (simp add: relax_ext_def)
qed

lemma short_layout_settles:
  assumes "most_units (li_ops inp) \<le> 240"
  shows "settled inp (layout_of inp)"
proof -
  define ext0 where "ext0 = la_ext (layout_seed inp)"
  define ext1 where "ext1 = relax_ext inp (layout_starts inp ext0) ext0"
  have b0: "\<forall>k < li_len inp. ext0 ! k \<le> 3"
    by (simp add: ext0_def layout_seed_def seed_ext_def Let_def ext_count_le)
  have e1: "ext1 ! i = (if lone_arg inp i then ext0 ! i else 0)" if "i < li_len inp" for i
    unfolding ext1_def by (rule relax_small [OF b0 assms that])
  then have b1: "\<forall>k < li_len inp. ext1 ! k \<le> 3" using b0 by simp
  have "relax_ext inp (layout_starts inp ext1) ext1 = ext1"
  proof (rule nth_equalityI)
    fix i assume "i < length (relax_ext inp (layout_starts inp ext1) ext1)"
    then have "i < li_len inp" by (simp add: relax_ext_def)
    then show "relax_ext inp (layout_starts inp ext1) ext1 ! i = ext1 ! i"
      using relax_small [OF b1 assms] e1 by simp
  qed (simp add: relax_ext_def ext1_def)
  then have "settled inp (layout_rounds inp (Suc (Suc r)) (layout_seed inp))" for r
    by (simp add: settled_def Let_def ext0_def [symmetric] ext1_def [symmetric])
  from this [of 14] show ?thesis by (simp add: layout_of_def)
qed

text \<open>
  The location table and the exception table of a code object decoded against its own code
  units: every instruction has the line, the span and the handler it was compiled with.
\<close>

section \<open>Locations\<close>

text \<open>The second instruction of a fused pair has the position of the first.\<close>

definition located_at :: "'c CodeObject \<Rightarrow> nat \<Rightarrow> nat" where
  "located_at code i = (if 0 < i \<and> fused code (i - 1) then i - 1 else i)"

definition position_of_instr :: "'c CodeObject \<Rightarrow> nat \<Rightarrow> Position" where
  "position_of_instr code i = position_at code (located_at code i) (code_firstlineno code)"

lemma spread_before:
  assumes "well_fused inp la" "at_boundary inp i"
  shows "concat (map (\<lambda>k. replicate (wire_expansion (wire_at inp la k)) (g k)) (filter (\<lambda>k. \<not> li_zero inp ! k) [0..<i]))
    = map (\<lambda>j. g (if li_zero inp ! j then j - 1 else j)) [0..<i]"
  using assms(2)
proof (induction i rule: less_induct)
  case (less i)
  show ?case
  proof (cases i)
    case (Suc j)
    then have j: "j < li_len inp" using less.prems by (simp add: at_boundary_def)
    show ?thesis
    proof (cases "li_zero inp ! j")
      case False
      then have "at_boundary inp j" using j by (simp add: at_boundary_def)
      moreover have "raw_expansion (li_op inp j) (la_args la ! j) = 1"
        using assms(1) less.prems False j Suc by (simp add: well_fused_def at_boundary_def)
      ultimately show ?thesis using less.IH [of j] Suc False by (simp add: wire_at_def)
    next
      case True
      then obtain k where k: "j = Suc k" "\<not> li_zero inp ! k"
        using assms(1) j by (cases j) (auto simp: well_fused_def)
      then have "at_boundary inp k" using j by (simp add: at_boundary_def)
      moreover have "raw_expansion (li_op inp k) (la_args la ! k) = 2"
        using assms(1) k j True by (simp add: well_fused_def)
      ultimately show ?thesis using less.IH [of k] Suc True k by (simp add: wire_at_def numeral_2_eq_2)
    qed
  qed simp
qed

lemma spread_all:
  assumes "well_fused inp la"
  shows "concat (map (\<lambda>k. replicate (wire_expansion (wire_at inp la k)) (g k)) (shown inp))
    = map (\<lambda>j. g (if li_zero inp ! j then j - 1 else j)) [0..<li_len inp]"
  using spread_before [OF assms, of "li_len inp" g] by (simp add: shown_def at_boundary_def)

lemma spread_items:
  "concat (map2 (\<lambda>(p, _) (c, arg, _). replicate (raw_expansion c arg) (f p))
      (map (\<lambda>i. (pos i, wire_size (wire_at inp la i))) (shown inp)) (emitted_wire inp la))
    = concat (map (\<lambda>k. replicate (wire_expansion (wire_at inp la k)) (f (pos k))) (shown inp))"
  by (simp add: emitted_wire_def zip_map_map zip_same_conv_map comp_def case_prod_beta)

lemma positions_all:
  assumes "encoding code cp inp la"
  shows "map (\<lambda>j. f (position_at code (if li_zero inp ! j then j - 1 else j) (code_firstlineno code))) [0..<li_len inp]
    = map (\<lambda>i. f (position_of_instr code i)) [0..<length (co_instructions code)]"
  using encoding_zero [OF assms] encoding_len [OF assms]
  by (auto simp: position_of_instr_def located_at_def)

theorem lines_survive:
  assumes enc: "encoding code cp inp la" and can: "canonical code slots"
    and first: "0 \<le> sint (code_firstlineno code)"
  shows "decode_linetable (cc_co_linetable cp) (decode_raws (cc_co_code cp)) (cc_firstlineno cp)
    = (map (\<lambda>i. seen_line (position_of_instr code i)) [0..<length (co_instructions code)],
       map (\<lambda>i. seen_span (position_of_instr code i)) [0..<length (co_instructions code)])"
proof -
  let ?pos = "\<lambda>i. position_at code i (code_firstlineno code)"
  let ?items = "map (\<lambda>i. (?pos i, wire_size (wire_at inp la i))) (shown inp)"
  note facts = encoding_facts [OF enc]
  have "decode_linetable (cc_co_linetable cp) (decode_raws (cc_co_code cp)) (cc_firstlineno cp)
      = (lines_of ?items (emitted_wire inp la), spans_of ?items (emitted_wire inp la))"
    unfolding facts(4, 5) encoding_raws [OF enc]
    by (rule decode_linetable_back) (auto simp: emitted_wire_def wire_size_def first split: prod.split)
  then show ?thesis
    using spread_all [OF canonical_fused [OF enc can], of "\<lambda>k. seen_line (?pos k)"]
      spread_all [OF canonical_fused [OF enc can], of "\<lambda>k. seen_span (?pos k)"]
      positions_all [OF enc, of seen_line] positions_all [OF enc, of seen_span]
    unfolding lines_of_def spans_of_def spread_items by simp
qed

end
