(* ===== verification/Code_Handlers.thy ===== *)
theory Code_Handlers
  imports Code_Table
begin

text \<open>
  The exception table read back: every instruction of the decoded code has the handler that
  covers it in the original, with the same depth and \<open>lasti\<close> flag. Among handlers that
  cover the same instruction the last one wins, in both tables.
\<close>

section \<open>Painting\<close>

definition covers :: "nat \<Rightarrow> ExcHandler \<Rightarrow> bool" where
  "covers i h \<longleftrightarrow> unat (eh_start h) \<le> i \<and> i < unat (eh_end h)"

definition handler_at :: "ExcHandler list \<Rightarrow> nat \<Rightarrow> ExcHandler option" where
  "handler_at hs i = find (covers i) (rev hs)"

definition in_unit :: "nat list \<Rightarrow> nat \<Rightarrow> nat \<Rightarrow> bool" where
  "in_unit starts u i \<longleftrightarrow> starts ! i \<le> u \<and> u < starts ! Suc i"

lemma paint_slice_nth:
  "paint_slice lo hi k owner = Some owner' \<Longrightarrow> u < length owner \<Longrightarrow>
    length owner' = length owner \<and> owner' ! u = (if lo \<le> u \<and> u < hi then Some k else owner ! u)"
  by (auto simp: paint_slice_def nth_append min_def split: if_splits)

lemma paint_instrs_nth:
  "paint_instrs starts k is owner = Some owner' \<Longrightarrow> u < length owner \<Longrightarrow>
    length owner' = length owner \<and> owner' ! u = (if \<exists>i \<in> set is. in_unit starts u i then Some k else owner ! u)"
proof (induction starts k "is" owner rule: paint_instrs.induct)
  case (2 starts k i "is" owner)
  then obtain owner1 where o: "\<not> length starts \<le> Suc i" "paint_slice (starts ! i) (starts ! Suc i) k owner = Some owner1"
      "paint_instrs starts k is owner1 = Some owner'" by (auto split: option.splits if_splits)
  note p = paint_slice_nth [OF o(2) 2(3)]
  from 2(1) [OF o] p 2(3) show ?case by (auto simp: in_unit_def)
qed simp

lemma in_unit_unique:
  assumes "\<And>a b. a \<le> b \<Longrightarrow> b \<le> n \<Longrightarrow> starts ! a \<le> starts ! b" "i < n" "j < n" "in_unit starts u i" "in_unit starts u j"
  shows "i = j"
proof (rule linorder_cases [of i j])
  assume "i < j"
  then show ?thesis using assms(1) [of "Suc i" j] assms(3-5) by (simp add: in_unit_def)
next
  assume "j < i"
  then show ?thesis using assms(1) [of "Suc j" i] assms(2, 4, 5) by (simp add: in_unit_def)
qed simp

lemma find_append: "find P (xs @ ys) = (case find P xs of None \<Rightarrow> find P ys | Some x \<Rightarrow> Some x)"
  by (induction xs) simp_all

lemma paint_handlers_nth:
  assumes mono: "\<And>a b. a \<le> b \<Longrightarrow> b \<le> n \<Longrightarrow> starts ! a \<le> starts ! b"
    and i: "i < n" "in_unit starts u i"
  shows "paint_handlers starts n hs owner = Some owner' \<Longrightarrow> u < length owner \<Longrightarrow>
    length owner' = length owner \<and> owner' ! u =
      (case handler_at hs i of Some h \<Rightarrow> Some (handler_owner starts h) | None \<Rightarrow> owner ! u)"
proof (induction hs arbitrary: owner)
  case (Cons h hs)
  obtain owner1 where o: "paint_instrs starts (handler_owner starts h)
        [unat (eh_start h)..<min (unat (eh_end h)) n] owner = Some owner1"
      "paint_handlers starts n hs owner1 = Some owner'"
    using Cons.prems(1) by (auto split: option.splits)
  have "(\<exists>j \<in> set [unat (eh_start h)..<min (unat (eh_end h)) n]. in_unit starts u j) \<longleftrightarrow> covers i h"
  proof -
    have "covers i h" if j: "j \<in> {unat (eh_start h)..<min (unat (eh_end h)) n}" "in_unit starts u j" for j
    proof -
      have "j < n" using j(1) by simp
      from mono i(1) this i(2) j(2) have "i = j" by (rule in_unit_unique)
      then show ?thesis using j(1) by (simp add: covers_def)
    qed
    moreover have "covers i h \<Longrightarrow> i \<in> {unat (eh_start h)..<min (unat (eh_end h)) n}"
      using i(1) by (simp add: covers_def)
    ultimately show ?thesis using i(2) unfolding set_upt by blast
  qed
  then have p: "length owner1 = length owner" "owner1 ! u = (if covers i h then Some (handler_owner starts h) else owner ! u)"
    using paint_instrs_nth [OF o(1) Cons.prems(2)] by simp_all
  have "length owner' = length owner1 \<and> owner' ! u =
      (case handler_at hs i of Some h \<Rightarrow> Some (handler_owner starts h) | None \<Rightarrow> owner1 ! u)"
    using Cons.IH [OF o(2)] Cons.prems(2) p(1) by simp
  moreover have "handler_at (h # hs) i = (case handler_at hs i of None \<Rightarrow> if covers i h then Some h else None | Some x \<Rightarrow> Some x)"
    by (simp add: handler_at_def find_append split: option.split)
  ultimately show ?case using p by (simp split: option.split)
qed (simp add: handler_at_def)

section \<open>Runs\<close>

definition run_ok :: "exc_owner option list \<Rightarrow> nat \<times> nat \<times> exc_owner \<Rightarrow> bool" where
  "run_ok owner run \<longleftrightarrow> (case run of (s, l, k) \<Rightarrow> 0 < l \<and> s + l \<le> length owner \<and>
     (\<forall>v. s \<le> v \<and> v < s + l \<longrightarrow> owner ! v = Some k) \<and>
     (s = 0 \<or> owner ! (s - 1) \<noteq> Some k) \<and> (s + l = length owner \<or> owner ! (s + l) \<noteq> Some k))"

lemma run_end_ok:
  assumes "u < length owner" "owner ! u = Some k" "u = 0 \<or> owner ! (u - 1) \<noteq> Some k"
  shows "run_ok owner (u, run_end owner k u - u, k)"
proof -
  let ?run = "takeWhile (\<lambda>x. x = Some k) (drop u owner)"
  have len: "length ?run \<le> length owner - u" by (metis length_drop length_takeWhile_le)
  have gt: "u < run_end owner k u" by (rule run_end_gt [OF assms(1, 2)])
  have "owner ! v = Some k" if "u \<le> v" "v < run_end owner k u" for v
  proof -
    have v: "v - u < length ?run" using that by (simp add: run_end_def)
    have "?run ! (v - u) \<in> set ?run" using v by (rule nth_mem)
    then have "?run ! (v - u) = Some k" by (auto dest: set_takeWhileD)
    then show ?thesis using takeWhile_nth [OF v] that(1) v len by simp
  qed
  moreover have "run_end owner k u = length owner \<or> owner ! run_end owner k u \<noteq> Some k"
  proof (cases "length ?run < length (drop u owner)")
    case True
    then show ?thesis using nth_length_takeWhile [OF True] assms(1) by (simp add: run_end_def)
  qed (use len assms(1) in \<open>simp add: run_end_def\<close>)
  ultimately show ?thesis using gt len assms(1, 3) by (auto simp: run_ok_def run_end_def)
qed

definition run_covers :: "nat \<Rightarrow> nat \<times> nat \<times> exc_owner \<Rightarrow> bool" where
  "run_covers v run \<longleftrightarrow> (case run of (s, l, k) \<Rightarrow> s \<le> v \<and> v < s + l)"

lemma exc_runs_ok:
  "(u = 0 \<or> length owner \<le> u \<or> owner ! u = None \<or> owner ! (u - 1) \<noteq> owner ! u) \<Longrightarrow>
    (\<forall>run \<in> set (exc_runs owner u). run_ok owner run) \<and>
    (\<forall>v. u \<le> v \<and> v < length owner \<and> owner ! v \<noteq> None \<longrightarrow> (\<exists>run \<in> set (exc_runs owner u). run_covers v run))"
proof (induction owner u rule: exc_runs.induct)
  case (1 owner u)
  show ?case
  proof (cases "length owner \<le> u")
    case True
    then show ?thesis by (simp add: exc_runs.simps [of owner u])
  next
    case False
    then have u: "u < length owner" by simp
    show ?thesis
    proof (cases "owner ! u")
      case None
      then have r: "exc_runs owner u = exc_runs owner (Suc u)" using False by (simp add: exc_runs.simps [of owner u])
      have IH: "(\<forall>run \<in> set (exc_runs owner (Suc u)). run_ok owner run) \<and>
          (\<forall>v. Suc u \<le> v \<and> v < length owner \<and> owner ! v \<noteq> None \<longrightarrow>
             (\<exists>run \<in> set (exc_runs owner (Suc u)). run_covers v run))"
        by (rule 1(1) [OF False None]) (metis None diff_Suc_1)
      have "Suc u \<le> v" if "u \<le> v" "owner ! v \<noteq> None" for v
        using that None by (metis Suc_leI le_neq_implies_less)
      then show ?thesis unfolding r using IH by blast
    next
      case (Some k)
      let ?e = "run_end owner k u"
      have gt: "u < ?e" by (rule run_end_gt [OF u Some])
      have ok: "run_ok owner (u, ?e - u, k)" using run_end_ok [OF u Some] 1(3) Some False by auto
      then have last: "owner ! (?e - 1) = Some k" "?e = length owner \<or> owner ! ?e \<noteq> Some k"
        using gt by (auto simp: run_ok_def)
      have r: "exc_runs owner u = (u, ?e - u, k) # exc_runs owner ?e"
        using False Some by (simp add: exc_runs.simps [of owner u])
      have IH: "(\<forall>run \<in> set (exc_runs owner ?e). run_ok owner run) \<and>
          (\<forall>v. ?e \<le> v \<and> v < length owner \<and> owner ! v \<noteq> None \<longrightarrow>
             (\<exists>run \<in> set (exc_runs owner ?e). run_covers v run))"
        by (rule 1(2) [OF False Some]) (use last in auto)
      have "run_covers v (u, ?e - u, k)" if "u \<le> v" "v < ?e" for v
        using that by (simp add: run_covers_def)
      then show ?thesis unfolding r using IH ok by (metis list.set_intros(1, 2) not_le set_ConsD)
    qed
  qed
qed

section \<open>Entries\<close>

definition flag_word :: "w32 \<Rightarrow> bool \<Rightarrow> w32" where
  "flag_word depth lasti = push_bit 1 depth OR (if lasti then 1 else 0)"

definition entry_back :: "DecodedRaw list \<Rightarrow> nat \<times> nat \<times> exc_owner \<Rightarrow> ExcHandler" where
  "entry_back raws run = (case run of (s, l, target, depth, lasti) \<Rightarrow>
     decode_handler raws (word_of_nat s) (word_of_nat l) target (flag_word depth lasti))"

lemma exc_entries_back:
  "bytes_at table pos (concat (map (\<lambda>(s, l, k). exc_entry s l k) runs)) \<Longrightarrow>
    length table = pos + length (concat (map (\<lambda>(s, l, k). exc_entry s l k) runs)) \<Longrightarrow>
    exc_entries table raws pos = filter (\<lambda>h. eh_start h < eh_end h) (map (entry_back raws) runs)"
proof (induction runs arbitrary: pos)
  case Nil
  then show ?case by (simp add: exc_entries.simps)
next
  case (Cons run runs)
  obtain s l target depth lasti where run: "run = (s, l, target, depth, lasti)" by (cases run)
  let ?rest = "concat (map (\<lambda>(s, l, k). exc_entry s l k) runs)"
  let ?b1 = "push_exc_varint (word_of_nat s) 0x80" and ?b2 = "push_exc_varint (word_of_nat l) 0"
  let ?b3 = "push_exc_varint target 0" and ?b4 = "push_exc_varint (flag_word depth lasti) 0"
  let ?p1 = "pos + length ?b1"
  let ?p2 = "?p1 + length ?b2"
  let ?p3 = "?p2 + length ?b3"
  let ?p4 = "?p3 + length ?b4"
  have e: "exc_entry s l (target, depth, lasti) = ?b1 @ ?b2 @ ?b3 @ ?b4"
    by (simp add: exc_entry_def flag_word_def)
  have at: "bytes_at table pos ?b1" "bytes_at table ?p1 ?b2" "bytes_at table ?p2 ?b3" "bytes_at table ?p3 ?b4"
      "bytes_at table ?p4 ?rest"
    using Cons.prems(1) by (simp_all add: run e bytes_at_append add.assoc)
  have len: "length table = ?p4 + length ?rest" using Cons.prems(2) by (simp add: run e)
  have "length ?b1 > 0" "length ?b2 > 0" by (simp_all add: length_push_exc groups_nonempty)
  then have "\<not> length table \<le> pos" "\<not> length table \<le> ?p1" using len by linarith+
  then have "exc_entries table raws pos =
      (let h = entry_back raws run in (if eh_start h < eh_end h then [h] else []) @ exc_entries table raws ?p4)"
    using read_exc_field_push [OF at(1)] read_exc_field_push [OF at(2)] read_exc_field_push [OF at(3)]
      read_exc_field_push [OF at(4)]
    by (simp add: exc_entries.simps [of table raws pos] entry_back_def run)
  then show ?case using Cons.IH [OF at(5) len] by (simp add: Let_def)
qed

lemma flag_word_back:
  assumes "unat (d :: w32) < 2 ^ 31"
  shows "drop_bit 1 (flag_word d lasti) = d" "flag_word d lasti AND 1 \<noteq> 0 \<longleftrightarrow> lasti"
  using global_parts [OF assms] shift_back [OF assms] even_shift [of d]
  by (simp_all add: flag_word_def del: push_bit_Suc One_nat_def)

section \<open>Handlers\<close>

definition handler_target :: "ExcHandler \<Rightarrow> w32 \<times> w32 \<times> bool" where
  "handler_target h = (eh_handler h, eh_depth h, eh_push_lasti h)"

definition handlers_ok :: "'c CodeObject \<Rightarrow> bool" where
  "handlers_ok code \<longleftrightarrow> length (co_instructions code) < 2 ^ 32 \<and>
    (\<forall>h \<in> set (co_exception_table code). unat (eh_depth h) < 2 ^ 31 \<and> boundary code (unat (eh_handler h)))"

lemma handler_at_in: "handler_at hs i = Some h \<Longrightarrow> h \<in> set hs \<and> covers i h"
  by (auto simp: handler_at_def find_Some_iff) (metis nth_mem set_rev length_rev)

lemma handler_at_none: "handler_at hs i = None \<longleftrightarrow> (\<forall>h \<in> set hs. \<not> covers i h)"
  by (auto simp: handler_at_def find_None_iff)

lemma map_unit_start:
  assumes "settled inp la" "well_fused inp la" "at_boundary inp i"
  shows "map_unit (wire_raws 0 (emitted_wire inp la)) (la_starts la ! i) = word_of_nat i"
  using raw_at_start [OF assms(1, 3)] instr_of_rank [OF assms(2, 3)]
  by (simp add: map_unit_def instr_of_raw_def Let_def)

lemma unit_of:
  assumes "settled inp la" "u < la_starts la ! li_len inp"
  obtains i where "i < li_len inp" "in_unit (la_starts la) u i" "\<not> li_zero inp ! i"
proof -
  have "\<exists>i < k. in_unit (la_starts la) u i" if "k \<le> li_len inp" "u < la_starts la ! k" for k
    using that
  proof (induction k)
    case 0
    then show ?case using assms(1) by (simp add: settled_def layout_starts_nth)
  next
    case (Suc k)
    then show ?case by (cases "u < la_starts la ! k") (auto simp: in_unit_def less_Suc_eq)
  qed
  then obtain i where i: "i < li_len inp" "in_unit (la_starts la) u i" using assms(2) by blast
  moreover have "\<not> li_zero inp ! i"
    using i assms(1) layout_starts_Suc [OF i(1), of "la_ext la"]
    by (auto simp: in_unit_def settled_def unit_size_def)
  ultimately show thesis by (rule that)
qed

text \<open>The owners of one encoding.\<close>

definition owners :: "'c CodeObject \<Rightarrow> layout_input \<Rightarrow> layout \<Rightarrow> exc_owner option list \<Rightarrow> bool" where
  "owners code inp la owner \<longleftrightarrow> length owner = la_starts la ! li_len inp \<and>
    (\<forall>i u. i < li_len inp \<and> in_unit (la_starts la) u i \<longrightarrow>
       owner ! u = map_option (handler_owner (la_starts la)) (handler_at (co_exception_table code) i))"

lemma length_starts: "settled inp la \<Longrightarrow> length (la_starts la) = Suc (li_len inp)"
  by (simp add: settled_def)

lemma paint_length:
  "paint_instrs starts k is owner = Some owner' \<Longrightarrow> length owner' = length owner"
proof (induction starts k "is" owner rule: paint_instrs.induct)
  case (2 starts k i "is" owner)
  then show ?case by (auto simp: paint_slice_def split: option.splits if_splits)
qed simp

lemma paint_handlers_length:
  "paint_handlers starts n hs owner = Some owner' \<Longrightarrow> length owner' = length owner"
  by (induction hs arbitrary: owner) (auto dest: paint_length split: option.splits)

lemma encoding_owners:
  assumes "encoding code cp inp la" "settled inp la"
  obtains owner where "owners code inp la owner" "cc_co_exceptiontable cp = encode_owners owner"
proof -
  note facts = encoding_facts [OF assms(1)]
  let ?starts = "la_starts la"
  obtain owner where o: "unit_owners code ?starts = Some owner" "cc_co_exceptiontable cp = encode_owners owner"
    using facts(6) by (auto simp: encode_exception_table_def)
  have p: "paint_handlers ?starts (li_len inp) (co_exception_table code)
      (replicate (?starts ! li_len inp) None) = Some owner"
    using o(1) facts(7) length_starts [OF assms(2)] by (simp add: unit_owners_def Let_def get_or_def)
  note len = paint_handlers_length [OF p]
  have "owner ! u = map_option (handler_owner ?starts) (handler_at (co_exception_table code) i)"
    if i: "i < li_len inp" "in_unit ?starts u i" for i u
  proof -
    have "?starts ! Suc i \<le> ?starts ! li_len inp" using starts_mono [OF assms(2), of "Suc i"] i(1) by simp
    then have u: "u < ?starts ! li_len inp" using i(2) by (simp add: in_unit_def)
    have "length owner = length (replicate (?starts ! li_len inp) (None :: exc_owner option)) \<and> owner ! u =
      (case handler_at (co_exception_table code) i of Some h \<Rightarrow> Some (handler_owner ?starts h)
       | None \<Rightarrow> replicate (?starts ! li_len inp) None ! u)"
      by (rule paint_handlers_nth [OF _ i p]) (use starts_mono [OF assms(2)] u in simp_all)
    then show ?thesis using u by (simp split: option.split)
  qed
  then have "owners code inp la owner" using len by (simp add: owners_def)
  then show thesis using o(2) by (rule that)
qed

section \<open>The table read back\<close>

text \<open>A run covers whole instructions, and reads back as the handler that owns them.\<close>

lemma run_bounds:
  assumes set: "settled inp la" and own: "owners code inp la owner" and run: "run_ok owner (s, l, k)"
  obtains a b where "a < b" "b \<le> li_len inp" "at_boundary inp a" "at_boundary inp b"
    "s = la_starts la ! a" "s + l = la_starts la ! b"
proof -
  let ?starts = "la_starts la"
  have r: "0 < l" "s + l \<le> ?starts ! li_len inp" "\<And>v. s \<le> v \<Longrightarrow> v < s + l \<Longrightarrow> owner ! v = Some k"
      "s = 0 \<or> owner ! (s - 1) \<noteq> Some k" "s + l = ?starts ! li_len inp \<or> owner ! (s + l) \<noteq> Some k"
    using run own by (auto simp: run_ok_def owners_def)
  have same: "owner ! u = owner ! v" if "i < li_len inp" "in_unit ?starts u i" "in_unit ?starts v i" for i u v
    using own that by (simp add: owners_def)
  obtain a where a: "a < li_len inp" "in_unit ?starts s a" "\<not> li_zero inp ! a"
    using unit_of [OF set, of s] r(1, 2) by auto
  have sa: "s = ?starts ! a"
  proof (rule ccontr)
    assume "s \<noteq> ?starts ! a"
    then have s: "in_unit ?starts (s - 1) a" "s \<noteq> 0" using a(2) by (auto simp: in_unit_def)
    then show False using same [OF a(1) s(1) a(2)] r(1, 3, 4) by simp
  qed
  obtain b where b: "b \<le> li_len inp" "at_boundary inp b" "s + l = ?starts ! b"
  proof (cases "s + l = ?starts ! li_len inp")
    case True
    then show thesis using that [of "li_len inp"] by (simp add: at_boundary_def)
  next
    case False
    then obtain b where b: "b < li_len inp" "in_unit ?starts (s + l) b" "\<not> li_zero inp ! b"
      using unit_of [OF set, of "s + l"] r(2) by auto
    have "s + l = ?starts ! b"
    proof (rule ccontr)
      assume "s + l \<noteq> ?starts ! b"
      then have "in_unit ?starts (s + l - 1) b" using b(2) r(1) by (auto simp: in_unit_def)
      from same [OF b(1) this b(2)] have "owner ! (s + l) = Some k" using r(1) r(3) [of "s + l - 1"] by simp
      then show False using r(5) False by simp
    qed
    then show thesis using that [of b] b by (simp add: at_boundary_def)
  qed
  have "a < b"
  proof (rule ccontr)
    assume "\<not> a < b"
    then have "?starts ! b \<le> ?starts ! a" using starts_mono [OF set, of b a] a(1) by simp
    then show False using sa b(3) r(1) by simp
  qed
  then show thesis using that a b sa by (simp add: at_boundary_def)
qed

lemma small_word: "k < 2 ^ 32 \<Longrightarrow> unat (word_of_nat k :: w32) = k"
  by (simp add: unsigned_of_nat take_bit_nat_eq_self)

lemma run_back:
  assumes enc: "encoding code cp inp la" and can: "canonical code slots" and set: "settled inp la"
    and hok: "handlers_ok code" and small: "length (cc_co_code cp) < 2 ^ 33"
    and own: "owners code inp la owner" and run: "run_ok owner run"
  defines "h \<equiv> entry_back (wire_raws 0 (emitted_wire inp la)) run"
  obtains a b where "a < b" "b \<le> li_len inp" "at_boundary inp a" "at_boundary inp b"
    "\<And>v. run_covers v run \<longleftrightarrow> la_starts la ! a \<le> v \<and> v < la_starts la ! b"
    "eh_start h = word_of_nat a" "eh_end h = word_of_nat b"
    "\<And>i v. i < li_len inp \<Longrightarrow> in_unit (la_starts la) v i \<Longrightarrow> run_covers v run \<Longrightarrow>
       map_option handler_target (handler_at (co_exception_table code) i) = Some (handler_target h)"
proof -
  let ?starts = "la_starts la"
  obtain s l target depth lasti where r: "run = (s, l, target, depth, lasti)" by (cases run)
  note len = encoding_len [OF enc]
  note wf = canonical_fused [OF enc can]
  obtain a b where ab: "a < b" "b \<le> li_len inp" "at_boundary inp a" "at_boundary inp b"
      "s = ?starts ! a" "s + l = ?starts ! b"
    using run_bounds [OF set own run [unfolded r]] by blast
  have bound: "?starts ! k < 2 ^ 32" if "k \<le> li_len inp" for k
    using starts_total [OF set enc] starts_mono [OF set that order_refl] small by simp
  have un: "unat (word_of_nat s :: w32) = s" "unat (word_of_nat s :: w32) + unat (word_of_nat l :: w32) = ?starts ! b"
    using bound [OF ab(2)] ab(6) by (simp_all add: small_word)
  have start: "eh_start h = word_of_nat a" "eh_end h = word_of_nat b"
    using map_unit_start [OF set wf ab(3)] map_unit_start [OF set wf ab(4)] un ab(5)
    by (simp_all add: h_def entry_back_def r decode_handler_def)
  have cov: "run_covers v run \<longleftrightarrow> ?starts ! a \<le> v \<and> v < ?starts ! b" for v
    using ab(5, 6) by (simp add: run_covers_def r)
  have target: "map_option handler_target (handler_at (co_exception_table code) i) = Some (handler_target h)"
    if i: "i < li_len inp" "in_unit ?starts v i" "run_covers v run" for i v
  proof -
    have "owner ! v = Some (target, depth, lasti)" using run i(3) by (simp add: run_ok_def run_covers_def r)
    then obtain g where g: "handler_at (co_exception_table code) i = Some g"
        "handler_owner ?starts g = (target, depth, lasti)"
      using own i(1, 2) by (auto simp: owners_def)
    have gi: "unat (eh_depth g) < 2 ^ 31" "at_boundary inp (unat (eh_handler g))"
      using handler_at_in [OF g(1)] hok boundary_iff [OF enc] by (auto simp: handlers_ok_def)
    then have hl: "unat (eh_handler g) \<le> li_len inp" by (simp add: at_boundary_def)
    then have t: "unat target = ?starts ! unat (eh_handler g)"
      using g(2) bound [OF hl] length_starts [OF set] by (auto simp: handler_owner_def get_or_def small_word)
    have "eh_handler h = eh_handler g"
      using map_unit_start [OF set wf gi(2)] t by (simp add: h_def entry_back_def r decode_handler_def)
    moreover have "eh_depth h = eh_depth g" "eh_push_lasti h = eh_push_lasti g"
      using g(2) flag_word_back [OF gi(1)] by (auto simp: h_def entry_back_def r decode_handler_def handler_owner_def)
    ultimately show ?thesis using g(1) by (simp add: handler_target_def)
  qed
  show thesis by (rule that [OF ab(1-4) cov start target])
qed

lemma span_at:
  assumes enc: "encoding code cp inp la" and can: "canonical code slots" and set: "settled inp la"
    and ab: "at_boundary inp a" "at_boundary inp b" and i: "i < li_len inp"
  defines "j \<equiv> located_at code i"
  shows "in_unit (la_starts la) (la_starts la ! j) j \<and> j < li_len inp \<and>
    (a \<le> i \<and> i < b \<longleftrightarrow> la_starts la ! a \<le> la_starts la ! j \<and> la_starts la ! j < la_starts la ! b)"
proof -
  let ?starts = "la_starts la"
  note len = encoding_len [OF enc]
  have z: "li_zero inp ! i \<longleftrightarrow> 0 < i \<and> fused code (i - 1)" using encoding_zero [OF enc] i len by simp
  have wf: "\<And>k. k < li_len inp \<Longrightarrow> li_zero inp ! k \<Longrightarrow> 0 < k \<and> \<not> li_zero inp ! (k - 1)"
    using canonical_fused [OF enc can] by (simp add: well_fused_def)
  have j: "j < li_len inp" "\<not> li_zero inp ! j" "j \<le> i" "i \<le> Suc j" "i = Suc j \<Longrightarrow> li_zero inp ! i"
    using z wf [OF i] i by (auto simp: j_def located_at_def)
  have up: "?starts ! j < ?starts ! Suc j"
    using layout_starts_Suc [OF j(1), of "la_ext la"] set j(2) by (simp add: settled_def unit_size_def)
  have an: "a \<le> i \<longleftrightarrow> a \<le> j" using ab(1) j(3-5) i by (auto simp: at_boundary_def le_Suc_eq)
  have bn: "i < b \<longleftrightarrow> j < b" using ab(2) j(3-5) i
    by (cases "b = Suc j") (auto simp: at_boundary_def le_Suc_eq)
  have "a \<le> j \<longleftrightarrow> ?starts ! a \<le> ?starts ! j"
  proof
    assume "?starts ! a \<le> ?starts ! j"
    then have "\<not> ?starts ! Suc j \<le> ?starts ! a" using up by simp
    then have "\<not> Suc j \<le> a" using starts_mono [OF set, of "Suc j" a] ab(1) by (auto simp: at_boundary_def)
    then show "a \<le> j" by simp
  qed (use starts_mono [OF set, of a j] j(1) in simp)
  moreover have "j < b \<longleftrightarrow> ?starts ! j < ?starts ! b"
  proof
    assume "j < b"
    then show "?starts ! j < ?starts ! b" using up starts_mono [OF set, of "Suc j" b] ab(2) by (simp add: at_boundary_def)
  next
    assume "?starts ! j < ?starts ! b"
    then have "\<not> ?starts ! b \<le> ?starts ! j" by simp
    then show "j < b" using starts_mono [OF set, of b j] j(1) by (metis less_imp_le_nat not_le)
  qed
  ultimately show ?thesis using up j(1) an bn by (simp add: in_unit_def)
qed

theorem handlers_survive:
  assumes enc: "encoding code cp inp la" and can: "canonical code slots" and set: "settled inp la"
    and hok: "handlers_ok code" and small: "length (cc_co_code cp) < 2 ^ 33"
    and i: "i < length (co_instructions code)"
  shows "map_option handler_target
      (handler_at (decode_exception_table (cc_co_exceptiontable cp) (decode_raws (cc_co_code cp))) i)
    = map_option handler_target (handler_at (co_exception_table code) (located_at code i))"
proof -
  let ?raws = "wire_raws 0 (emitted_wire inp la)" and ?j = "located_at code i" and ?starts = "la_starts la"
  note len = encoding_len [OF enc]
  have n: "i < li_len inp" using i len by simp
  obtain owner where own: "owners code inp la owner" "cc_co_exceptiontable cp = encode_owners owner"
    using encoding_owners [OF enc set] by blast
  let ?runs = "exc_runs owner 0"
  note runs = exc_runs_ok [of 0 owner, OF disjI1, OF refl]
  have dec: "decode_exception_table (cc_co_exceptiontable cp) ?raws
      = filter (\<lambda>h. eh_start h < eh_end h) (map (entry_back ?raws) ?runs)"
    using exc_entries_back [of "encode_owners owner" 0 ?runs ?raws] bytes_at_whole [of "[]" "encode_owners owner"]
    by (simp add: decode_exception_table_def own(2) encode_owners_def)
  have covers: "eh_start (entry_back ?raws run) < eh_end (entry_back ?raws run) \<and>
      (covers i (entry_back ?raws run) \<longleftrightarrow> run_covers (?starts ! ?j) run) \<and>
      (run_covers (?starts ! ?j) run \<longrightarrow>
        map_option handler_target (handler_at (co_exception_table code) ?j) = Some (handler_target (entry_back ?raws run)))"
    if run: "run \<in> set ?runs" for run
  proof -
    have ok: "run_ok owner run" using runs run by blast
    obtain a b where ab: "a < b" "b \<le> li_len inp" "at_boundary inp a" "at_boundary inp b"
        "\<And>v. run_covers v run \<longleftrightarrow> ?starts ! a \<le> v \<and> v < ?starts ! b"
        "eh_start (entry_back ?raws run) = word_of_nat a" "eh_end (entry_back ?raws run) = word_of_nat b"
        "\<And>i v. i < li_len inp \<Longrightarrow> in_unit ?starts v i \<Longrightarrow> run_covers v run \<Longrightarrow>
          map_option handler_target (handler_at (co_exception_table code) i) = Some (handler_target (entry_back ?raws run))"
      using run_back [OF enc can set hok small own(1) ok] by blast
    have u: "unat (word_of_nat a :: w32) = a" "unat (word_of_nat b :: w32) = b"
      using ab(1, 2) hok len by (simp_all add: small_word handlers_ok_def)
    note sp = span_at [OF enc can set ab(3, 4) n]
    have "covers i (entry_back ?raws run) \<longleftrightarrow> run_covers (?starts ! ?j) run"
      using sp ab(5) u by (simp add: covers_def ab(6, 7))
    moreover have "eh_start (entry_back ?raws run) < eh_end (entry_back ?raws run)"
      using ab(1) u by (simp add: ab(6, 7) word_less_nat_alt)
    ultimately show ?thesis using ab(8) [of ?j "?starts ! ?j"] sp by blast
  qed
  show ?thesis
  proof (cases "handler_at (decode_exception_table (cc_co_exceptiontable cp) ?raws) i")
    case (Some h)
    then obtain run where "run \<in> set ?runs" "h = entry_back ?raws run" "covers i h"
      using handler_at_in [OF Some] by (auto simp: dec)
    then show ?thesis using covers [of run] Some encoding_raws [OF enc] by auto
  next
    case None
    have "handler_at (co_exception_table code) ?j = None"
    proof (rule ccontr)
      assume a: "handler_at (co_exception_table code) ?j \<noteq> None"
      have j: "in_unit ?starts (?starts ! ?j) ?j" "?j < li_len inp"
        using span_at [OF enc can set _ _ n, of "li_len inp" "li_len inp"] by (simp_all add: at_boundary_def)
      then have "owner ! (?starts ! ?j) \<noteq> None" using own(1) a by (simp add: owners_def)
      moreover have "?starts ! ?j < length owner"
        using j own(1) starts_mono [OF set, of "Suc ?j" "li_len inp"] by (simp add: owners_def in_unit_def)
      ultimately obtain run where "run \<in> set ?runs" "run_covers (?starts ! ?j) run" using runs le0 by blast
      then show False using covers [of run] None by (auto simp: handler_at_none dec)
    qed
    then show ?thesis using None encoding_raws [OF enc] by simp
  qed
qed

text \<open>
  The encoder never panics on code without the flowgraph's pseudo-operations: every
  operation has a wire form, and the painting of the exception table stays inside the code
  units, since the offsets of every layout ascend. The size of the code of a short layout.
\<close>

section \<open>Wire forms\<close>

definition is_pseudo :: "OpCode \<Rightarrow> bool" where
  "is_pseudo opc = (case opc of Pseudo _ \<Rightarrow> True | _ \<Rightarrow> False)"

lemma wire_of_None: "wire_of opc arg slots = None \<longleftrightarrow> is_pseudo opc"
  unfolding wire_of_def is_pseudo_def
  by (cases opc; simp split: var_op.split attr_op.split arith_op.split call_op.split flow_op.split
      container_op.split func_op.split exc_op.split import_op.split gen_op.split pattern_op.split
      added_op.split refined_op.split)

lemma those_None: "those xs = None \<longleftrightarrow> None \<in> set xs"
proof (induction xs)
  case (Cons x xs)
  then show ?case by (cases x) (auto split: option.splits)
qed simp

lemma wire_ops_None: "wire_ops code = None \<longleftrightarrow> (\<exists>ins \<in> set (co_instructions code). is_pseudo (ins_op ins))"
proof -
  have "wire_ops code = None \<longleftrightarrow>
      those (map (\<lambda>ins. map_to_cpython ins (deref_slots_from_code code)) (co_instructions code)) = None"
    by (auto simp: wire_ops_def Let_def split: option.split prod.split)
  also have "\<dots> \<longleftrightarrow> (\<exists>ins \<in> set (co_instructions code). is_pseudo (ins_op ins))"
  proof -
    have "map_to_cpython ins slots = None \<longleftrightarrow> is_pseudo (ins_op ins)" for ins slots
      by (simp add: map_to_cpython_def wire_of_None)
    moreover have "None \<in> f ` A \<longleftrightarrow> (\<exists>x \<in> A. f x = None)" for f :: "instruction \<Rightarrow> MappedOp option" and A
      by (auto intro: sym)
    ultimately show ?thesis by (simp add: those_None)
  qed
  finally show ?thesis .
qed

section \<open>Painting\<close>

lemma layout_starts_mono:
  assumes "a \<le> b" "b \<le> li_len inp"
  shows "layout_starts inp ext ! a \<le> layout_starts inp ext ! b"
  using assms
proof (induction b rule: dec_induct)
  case (step k)
  then show ?case using layout_starts_Suc [of k inp ext] by simp
qed simp

lemma paint_instrs_total:
  assumes "\<And>i. i \<in> set is \<Longrightarrow> Suc i < length starts \<and> starts ! i \<le> starts ! Suc i \<and> starts ! Suc i \<le> length owner"
  shows "paint_instrs starts k is owner \<noteq> None"
  using assms
proof (induction starts k "is" owner rule: paint_instrs.induct)
  case (2 starts k i "is" owner)
  then have r: "\<not> length starts \<le> Suc i" by (auto simp: not_le)
  from 2(2) have "starts ! i \<le> starts ! Suc i" "starts ! Suc i \<le> length owner" by simp_all
  then have p: "paint_slice (starts ! i) (starts ! Suc i) k owner
      = Some (take (starts ! i) owner @ replicate (starts ! Suc i - starts ! i) (Some k) @ drop (starts ! Suc i) owner)"
    by (simp add: paint_slice_def)
  have len: "length owner' = length owner" if "paint_slice (starts ! i) (starts ! Suc i) k owner = Some owner'" for owner'
    using that by (auto simp: paint_slice_def split: if_splits)
  have "paint_instrs starts k is (take (starts ! i) owner @ replicate (starts ! Suc i - starts ! i) (Some k)
      @ drop (starts ! Suc i) owner) \<noteq> None"
    by (rule 2(1) [OF r p]) (simp only: len [OF p] 2(2) list.set_intros(2))
  then show ?case using p r by simp
qed simp

lemma paint_handlers_total:
  assumes "n < length starts" "\<And>i. i < n \<Longrightarrow> starts ! i \<le> starts ! Suc i \<and> starts ! Suc i \<le> length owner"
  shows "paint_handlers starts n hs owner \<noteq> None"
  using assms
proof (induction hs arbitrary: owner)
  case (Cons h hs)
  have "paint_instrs starts (handler_owner starts h) [unat (eh_start h)..<min (unat (eh_end h)) n] owner \<noteq> None"
    by (rule paint_instrs_total) (use Cons.prems in auto)
  then obtain owner' where p: "paint_instrs starts (handler_owner starts h)
      [unat (eh_start h)..<min (unat (eh_end h)) n] owner = Some owner'" by blast
  then show ?case using Cons paint_length [OF p] by simp
qed simp

lemma layout_has_starts: "\<exists>ext. la_starts (layout_of inp) = layout_starts inp ext"
  using rounds_shape [of 16 inp "layout_seed inp"] by (auto simp: layout_of_def)

text \<open>No index of the encoder is out of range.\<close>

lemma find_map_Some: "find_map f xs = Some y \<Longrightarrow> \<exists>x \<in> set xs. f x = Some y"
  by (induction xs) (auto split: option.splits)

lemma eaf_send_less: "eaf_send code mapped i = Some send \<Longrightarrow> send < length (co_instructions code)"
proof -
  assume "eaf_send code mapped i = Some send"
  then obtain h where "find (\<lambda>k. ins_op (co_instructions code ! k) = O_Send) (send_range code h) = Some send"
    by (auto simp: eaf_send_def send_in_range_def split: if_splits dest!: find_map_Some)
  then have "send \<in> set (send_range code h)" by (auto simp: find_Some_iff)
  then show ?thesis by (simp add: send_range_def)
qed

lemma reads_in_range_input:
  assumes "length mapped = length (co_instructions code)"
  shows "reads_in_range code (layout_input_of code mapped zw)"
  using assms eaf_send_less [of code mapped]
  by (auto simp: reads_in_range_def layout_input_of_def send_range_def target_idx_def less_imp_le
    split: option.split)

lemma encode_None: "encode code = None \<longleftrightarrow> (\<exists>ins \<in> set (co_instructions code). is_pseudo (ins_op ins))"
proof (cases "wire_ops code")
  case None
  then show ?thesis using wire_ops_None [of code] by (simp add: encode_def)
next
  case (Some mz)
  obtain mapped zw where m: "wire_ops code = Some (mapped, zw)" using Some by (cases mz) auto
  let ?inp = "layout_input_of code mapped zw"
  obtain ext where ext: "la_starts (layout_of ?inp) = layout_starts ?inp ext" using layout_has_starts by blast
  have n: "li_len ?inp = length (co_instructions code)"
    using wire_ops_good(2) [OF m] by (simp add: layout_input_of_def)
  have "encode_exception_table code (layout_starts ?inp ext) \<noteq> None"
    using paint_handlers_total [of "length (co_instructions code)" "layout_starts ?inp ext"
        "replicate (layout_starts ?inp ext ! length (co_instructions code)) None" "co_exception_table code"]
      layout_starts_mono [of _ _ ?inp ext] n
    by (simp add: encode_exception_table_def unit_owners_def Let_def get_or_def Suc_le_eq)
  moreover have "reads_in_range code ?inp" using wire_ops_good(2) [OF m] by (intro reads_in_range_input) simp
  ultimately have "encode code \<noteq> None" using m ext by (auto simp: encode_def Let_def split: option.split prod.split)
  then show ?thesis using Some wire_ops_None [of code] by simp
qed

section \<open>Sizes\<close>

lemma layout_ext_le: "i < li_len inp \<Longrightarrow> \<not> li_zero inp ! i \<Longrightarrow> la_ext (layout_of inp) ! i \<le> 3"
  using layout_agrees [of inp] by (simp add: ext_agrees_def ext_count_le)

lemma short_code_length:
  assumes "encoding code cp inp la" "settled inp la"
  shows "length (cc_co_code cp) \<le> 2 * most_units (li_ops inp)"
proof -
  have "la_starts la ! li_len inp \<le> most_units (take (li_len inp) (li_ops inp))"
    using starts_most [of inp "la_ext la" "li_len inp"] layout_ext_le [of _ inp] assms(2) encoding_layout [OF assms(1)]
    by (simp add: settled_def)
  then show ?thesis using starts_total [OF assms(2, 1)] by simp
qed

lemma short_encoding:
  assumes "wire_ops code = Some (mapped, zero_width)" "most_units mapped \<le> 240"
  shows "layout_settles code" "encode code = Some cp \<Longrightarrow> length (cc_co_code cp) \<le> 480"
proof -
  let ?inp = "layout_input_of code mapped zero_width"
  have s: "settled ?inp (layout_of ?inp)"
    by (rule short_layout_settles) (simp add: layout_input_of_def assms(2))
  then show "layout_settles code" using assms(1) by (simp add: layout_settles_def)
  assume "encode code = Some cp"
  then have "encoding code cp ?inp (layout_of ?inp)" using assms(1) by (simp add: encoding_def)
  from short_code_length [OF this s] assms(2) show "length (cc_co_code cp) \<le> 480"
    by (simp add: layout_input_of_def)
qed

section \<open>Code that fits a byte\<close>

text \<open>
  Jumps start without a prefix when the instructions are few, so the first layout is no longer
  than the last; below 256 code units every distance then fits a byte and nothing changes.
\<close>

lemma cp_index_nth: "i \<le> length zs \<Longrightarrow> cp_index_from k zs ! i = k + length (filter Not (take i zs))"
proof (induction k zs arbitrary: i rule: cp_index_from.induct)
  case (2 k z zs)
  then show ?case by (cases i) auto
qed simp

lemma shown_le_units:
  assumes "length (li_zero inp) = li_len inp"
  shows "i \<le> li_len inp \<Longrightarrow> length (filter Not (take i (li_zero inp))) \<le> layout_starts inp ext ! i"
proof (induction i)
  case (Suc i)
  then show ?case
    using assms layout_starts_Suc [of i inp ext] by (simp add: take_Suc_conv_app_nth unit_size_def)
qed simp

lemma layout_starts_upto: "i \<le> li_len inp \<Longrightarrow> layout_starts inp ext ! i \<le> layout_starts inp ext ! li_len inp"
  using layout_starts_mono [of i "li_len inp" inp ext] by simp

lemma lone_ext:
  assumes "i < li_len inp" "lone_arg inp i"
  shows "la_ext (layout_of inp) ! i = seed_ext inp i"
proof -
  have none: "resolved_arg inp starts ext i = None" for starts ext
    using assms(2) by (simp add: resolved_None)
  have "la_ext (layout_rounds inp r la) ! i = la_ext la ! i" for r la
    by (induction r arbitrary: la) (use assms(1) in \<open>simp_all add: Let_def relax_ext_def none\<close>)
  then show ?thesis using assms(1) by (simp add: layout_of_def layout_seed_def)
qed

lemma seed_small:
  assumes "length (li_zero inp) = li_len inp" "layout_starts inp ext ! li_len inp \<le> 255"
    "i < li_len inp" "\<not> lone_arg inp i" "\<And>send. li_send inp ! i = Some send \<Longrightarrow> send \<le> li_len inp"
  shows "seed_ext inp i = 0"
proof -
  have "cp_index_from 0 (li_zero inp) ! k \<le> 255" if "k \<le> li_len inp" for k
    using that assms(1, 2) shown_le_units [OF assms(1) that, of ext] layout_starts_upto [OF that, of ext]
    by (simp add: cp_index_nth)
  then show ?thesis
    using assms(4, 5) ext_count_small [of 0]
    by (auto simp: seed_ext_def Let_def lone_arg_def target_idx_def ext_count_small split: option.splits)
qed

lemma fits_byte_settles:
  assumes l: "length (li_zero inp) = li_len inp" and b: "layout_starts inp (la_ext (layout_of inp)) ! li_len inp \<le> 255"
    and send: "\<And>i send. i < li_len inp \<Longrightarrow> li_send inp ! i = Some send \<Longrightarrow> send \<le> li_len inp"
  shows "settled inp (layout_of inp)"
proof -
  define ext where "ext = la_ext (layout_seed inp)"
  let ?starts = "layout_starts inp ext"
  have nth: "ext ! i = seed_ext inp i" if "i < li_len inp" for i using that by (simp add: ext_def layout_seed_def)
  have zero: "ext ! i = 0" if "i < li_len inp" "\<not> lone_arg inp i" for i
    using seed_small [OF l b that send [OF that(1)]] nth [OF that(1)] by simp
  have size: "unit_size inp ext i \<le> unit_size inp (la_ext (layout_of inp)) i" if "i < li_len inp" for i
    using zero [OF that] lone_ext [OF that] nth [OF that] by (cases "lone_arg inp i") (simp_all add: unit_size_def)
  have "?starts ! li_len inp \<le> layout_starts inp (la_ext (layout_of inp)) ! li_len inp"
    unfolding layout_starts_nth [OF order_refl] by (rule sum_list_mono) (use size in simp)
  then have s: "?starts ! k \<le> 255" if "k \<le> li_len inp" for k
    using b layout_starts_upto [OF that, of ext] by simp
  have "ext_count a = ext ! i" if i: "i < li_len inp" "resolved_arg inp ?starts ext i = Some a" for i a
  proof -
    have nl: "\<not> lone_arg inp i" using i(2) resolved_None by (metis option.distinct(1))
    have "ext_count a = 0"
    proof (cases "li_op inp i = op_END_ASYNC_FOR")
      case True
      define k where "k = (case li_send inp ! i of None \<Rightarrow> 0
        | Some send \<Rightarrow> ?starts ! i + ext ! i + 1 - ?starts ! send - END_SEND_OFFSET)"
      have k: "a = word_of_nat k" "k \<le> ?starts ! i"
        using True i(2) zero [OF i(1) nl]
        by (cases "li_send inp ! i"; simp add: resolved_arg_def k_def END_SEND_OFFSET_def)+
      then have "k \<le> 255" using s [of i] i(1) by simp
      then show ?thesis unfolding k(1) by (rule ext_count_small)
    next
      case False
      then have j: "is_rel_jump (li_op inp i)" "\<not> li_zero inp ! i"
        using i(2) by (auto simp: resolved_arg_def split: if_splits)
      have nxt: "?starts ! i + ext ! i + 1 + cache_entries (li_op inp i) = ?starts ! Suc i"
        using layout_starts_Suc [OF i(1), of ext] j(2) by (simp add: unit_size_def)
      have "?starts ! target_idx inp i \<le> 255" by (rule s) (simp add: target_idx_def)
      moreover have "?starts ! Suc i \<le> 255" by (rule s) (use i(1) in simp)
      ultimately show ?thesis using i(2) False j unfolding resolved_arg_def Let_def nxt
        by (auto intro!: ext_count_small split: if_splits)
    qed
    then show ?thesis using zero [OF i(1) nl] by simp
  qed
  then have "relax_ext inp ?starts ext = ext"
    by (intro nth_equalityI) (auto simp: relax_ext_def ext_def layout_seed_def split: option.splits)
  then have "layout_rounds inp 16 (layout_seed inp) =
      \<lparr>la_starts = ?starts, la_ext = ext, la_args = relax_args inp ?starts ext (la_args (layout_seed inp))\<rparr>"
    by (simp add: numeral_eq_Suc Let_def ext_def [symmetric])
  then show ?thesis by (simp add: layout_of_def settled_def)
qed

end
