(* ===== verification/Code_Sound.thy ===== *)
theory Code_Sound
  imports Code_Depth
begin

text \<open>
  The stack walk is sound: the depths an execution can have at an instruction, as the
  inductive relation \<open>at_depth\<close>, never exceed those the walk records, nor the deepest
  point it reports. The worklist invariant is that every instruction already entered is
  either waiting or has passed its depth on.
\<close>

section \<open>The depths of an execution\<close>

abbreviation code_len :: "'c CodeObject \<Rightarrow> nat" where
  "code_len code \<equiv> length (co_instructions code)"

abbreviation op_at :: "'c CodeObject \<Rightarrow> nat \<Rightarrow> OpCode" where
  "op_at code i \<equiv> ins_op (co_instructions code ! i)"

abbreviation effect_at :: "'c CodeObject \<Rightarrow> nat \<Rightarrow> int" where
  "effect_at code i \<equiv> fst (stack_effects_at code i (co_instructions code ! i))"

abbreviation jump_at :: "'c CodeObject \<Rightarrow> nat \<Rightarrow> int" where
  "jump_at code i \<equiv> snd (stack_effects_at code i (co_instructions code ! i))"

abbreviation forward_at :: "'c CodeObject \<Rightarrow> nat \<Rightarrow> nat" where
  "forward_at code i \<equiv> forward_target i (ins_arg (co_instructions code ! i))"

abbreviation backward_at :: "'c CodeObject \<Rightarrow> nat \<Rightarrow> nat" where
  "backward_at code i \<equiv> backward_target i (ins_arg (co_instructions code ! i))"

definition falls :: "OpCode \<Rightarrow> bool" where
  "falls opc \<longleftrightarrow> opc \<noteq> O_JumpForward \<and> opc \<noteq> O_JumpBackward \<and> \<not> ends_block opc"

inductive at_depth :: "'c CodeObject \<Rightarrow> nat \<Rightarrow> int \<Rightarrow> bool" for code where
  entry: "0 < code_len code \<Longrightarrow> at_depth code 0 0"
| handler: "h \<in> set (co_exception_table code) \<Longrightarrow> \<not> anchored h \<Longrightarrow> unat (eh_handler h) < code_len code \<Longrightarrow>
    at_depth code (unat (eh_handler h)) (handler_entry h)"
| fall: "at_depth code i d \<Longrightarrow> falls (op_at code i) \<Longrightarrow> Suc i < code_len code \<Longrightarrow>
    at_depth code (Suc i) (max 0 (d + effect_at code i))"
| forward: "at_depth code i d \<Longrightarrow> op_at code i = O_JumpForward \<Longrightarrow> forward_at code i < code_len code \<Longrightarrow>
    at_depth code (forward_at code i) d"
| backward: "at_depth code i d \<Longrightarrow> op_at code i = O_JumpBackward \<Longrightarrow> backward_at code i < code_len code \<Longrightarrow>
    at_depth code (backward_at code i) d"
| branch: "at_depth code i d \<Longrightarrow> branches (op_at code i) \<Longrightarrow> forward_at code i < code_len code \<Longrightarrow>
    0 \<le> d + jump_at code i \<Longrightarrow> at_depth code (forward_at code i) (d + jump_at code i)"

section \<open>The worklist invariant\<close>

definition walk_le :: "walk \<Rightarrow> walk \<Rightarrow> bool" where
  "walk_le st st' \<longleftrightarrow> length (wk_depths st') = length (wk_depths st) \<and> wk_max st \<le> wk_max st' \<and>
    (\<forall>i < length (wk_depths st). wk_depths st ! i \<le> wk_depths st' ! i)"

lemma nth_update_in: "j < length xs \<Longrightarrow> xs[i := x] ! j = (if i = j then x else xs ! j)"
  by simp

lemma walk_le_refl [simp]: "walk_le st st"
  by (simp add: walk_le_def)

lemma walk_le_trans [trans]: "walk_le a b \<Longrightarrow> walk_le b c \<Longrightarrow> walk_le a c"
  by (force simp: walk_le_def)

lemma push_depth_le: "walk_le st (push_depth i d st)"
  by (auto simp: walk_le_def push_depth_def nth_update_in)

lemma raise_max_le: "walk_le st (raise_max d st)"
  by (auto simp: walk_le_def raise_max_def)

lemma push_depth_reaches: "i < length (wk_depths st) \<Longrightarrow> d \<le> wk_depths (push_depth i d st) ! i"
  by (auto simp: push_depth_def)

lemma set_depth_le: "wk_depths st ! i < d \<Longrightarrow> walk_le st (st\<lparr>wk_depths := (wk_depths st)[i := d]\<rparr>)"
  by (auto simp: walk_le_def nth_update_in)

definition passed_on :: "'c CodeObject \<Rightarrow> walk \<Rightarrow> nat \<Rightarrow> int \<Rightarrow> bool" where
  "passed_on code st i d \<longleftrightarrow>
    (op_at code i = O_JumpForward \<and> forward_at code i < code_len code
       \<longrightarrow> d \<le> wk_depths st ! forward_at code i) \<and>
    (op_at code i = O_JumpBackward \<and> backward_at code i < code_len code
       \<longrightarrow> d \<le> wk_depths st ! backward_at code i) \<and>
    (branches (op_at code i)
       \<longrightarrow> d + jump_at code i \<le> wk_max st \<and>
          (forward_at code i < code_len code \<longrightarrow> d + jump_at code i \<le> wk_depths st ! forward_at code i)) \<and>
    (falls (op_at code i)
       \<longrightarrow> d + effect_at code i \<le> wk_max st \<and>
          (Suc i < code_len code \<longrightarrow> max 0 (d + effect_at code i) \<le> wk_depths st ! Suc i))"

lemma passed_on_le:
  "passed_on code st i d \<Longrightarrow> walk_le st st' \<Longrightarrow> length (wk_depths st) = code_len code \<Longrightarrow> passed_on code st' i d"
  unfolding passed_on_def walk_le_def by (auto intro: order_trans)

text \<open>Every entered instruction outside \<open>out\<close> waits in the list or has passed its depth on.\<close>

definition settled_but :: "'c CodeObject \<Rightarrow> nat set \<Rightarrow> walk \<Rightarrow> bool" where
  "settled_but code out st \<longleftrightarrow> length (wk_depths st) = code_len code \<and>
    (\<forall>j < code_len code. - 1 \<le> wk_depths st ! j) \<and>
    (\<forall>j < code_len code. 0 \<le> wk_depths st ! j \<longrightarrow>
       j \<in> out \<or> j \<in> set (wk_list st) \<or> passed_on code st j (wk_depths st ! j))"

lemma settled_push: "settled_but code out st \<Longrightarrow> settled_but code out (push_depth i d st)"
proof -
  assume s: "settled_but code out st"
  note le = push_depth_le [of st i d]
  have keep: "passed_on code (push_depth i d st) j e" if "passed_on code st j e" for j e
    using passed_on_le [OF that le] s by (simp add: settled_but_def)
  show ?thesis
  proof (cases "i < length (wk_depths st) \<and> wk_depths st ! i < d")
    case True
    then have p: "push_depth i d st = st\<lparr>wk_depths := (wk_depths st)[i := d], wk_list := i # wk_list st\<rparr>"
      by (simp add: push_depth_def)
    have "- 1 \<le> d" using s True by (fastforce simp: settled_but_def)
    then show ?thesis using s keep unfolding settled_but_def p by (auto simp: nth_update_in)
  qed (use s in \<open>auto simp: push_depth_def\<close>)
qed

lemma settled_raise: "settled_but code out st \<Longrightarrow> settled_but code out (raise_max d st)"
proof -
  assume s: "settled_but code out st"
  have keep: "passed_on code (raise_max d st) j e" if "passed_on code st j e" for j e
    using passed_on_le [OF that raise_max_le] s by (simp add: settled_but_def)
  then show ?thesis using s by (auto simp: settled_but_def raise_max_def)
qed

definition handled :: "'c CodeObject \<Rightarrow> walk \<Rightarrow> nat \<Rightarrow> bool" where
  "handled code st i \<longleftrightarrow> i \<in> set (wk_list st) \<or> passed_on code st i (wk_depths st ! i)"

lemma settled_done:
  "settled_but code {i} st \<Longrightarrow> handled code st i \<Longrightarrow> settled_but code {} st"
  by (auto simp: settled_but_def handled_def)

lemma settled_next:
  assumes "settled_but code {i} st" "handled code (st\<lparr>wk_depths := (wk_depths st)[Suc i := d]\<rparr>) i"
    "wk_depths st ! Suc i < d" "0 \<le> d"
  shows "settled_but code {Suc i} (st\<lparr>wk_depths := (wk_depths st)[Suc i := d]\<rparr>)"
proof -
  let ?st = "st\<lparr>wk_depths := (wk_depths st)[Suc i := d]\<rparr>"
  have keep: "passed_on code ?st j e" if "passed_on code st j e" for j e
    using passed_on_le [OF that set_depth_le [OF assms(3)]] assms(1) by (simp add: settled_but_def)
  show ?thesis
    using assms(1, 2, 4) keep by (auto simp: settled_but_def handled_def nth_update_in)
qed

text \<open>What a push to \<open>t\<close> does to the instruction itself.\<close>

lemma push_self: "i \<in> set (wk_list (push_depth t d st)) \<or> wk_depths (push_depth t d st) ! i = wk_depths st ! i"
  by (cases "t = i") (auto simp: push_depth_def)

lemma jump_handled:
  assumes "op_at code i = O_JumpForward \<and> t = forward_at code i \<or> op_at code i = O_JumpBackward \<and> t = backward_at code i"
    "length (wk_depths st) = code_len code"
  shows "handled code (push_depth t (wk_depths st ! i) st) i"
  using push_self [of i t "wk_depths st ! i" st] push_depth_reaches [of t st "wk_depths st ! i"] assms
  by (auto simp: handled_def passed_on_def branches_def falls_def)

definition branched :: "'c CodeObject \<Rightarrow> nat \<Rightarrow> int \<Rightarrow> walk \<Rightarrow> walk" where
  "branched code i depth st = raise_max (depth + effect_at code i)
    (if branches (op_at code i)
     then push_depth (forward_at code i) (depth + jump_at code i) (raise_max (depth + jump_at code i) st) else st)"

lemma branched_le: "walk_le st (branched code i depth st)"
  using walk_le_trans [OF raise_max_le walk_le_trans [OF push_depth_le raise_max_le]] raise_max_le
  by (simp add: branched_def)

lemma branched_settled: "settled_but code out st \<Longrightarrow> settled_but code out (branched code i depth st)"
  by (simp add: branched_def settled_push settled_raise)

lemma branched_handled:
  assumes "falls (op_at code i)" "length (wk_depths st) = code_len code" "depth = wk_depths st ! i"
    "walk_le (branched code i depth st) st'" "wk_list st' = wk_list (branched code i depth st)"
    "i \<in> set (wk_list st') \<or> wk_depths st' ! i = wk_depths (branched code i depth st) ! i"
    "Suc i < code_len code \<Longrightarrow> max 0 (depth + effect_at code i) \<le> wk_depths st' ! Suc i"
  shows "handled code st' i"
proof (cases "i \<in> set (wk_list st')")
  case False
  let ?st1 = "raise_max (depth + jump_at code i) st"
  have d: "wk_depths st' ! i = depth"
    using False assms(3, 5, 6) push_self [of i "forward_at code i" "depth + jump_at code i" ?st1]
    by (auto simp: branched_def raise_max_def split: if_splits)
  have jump: "depth + jump_at code i \<le> wk_max st'"
      "forward_at code i < code_len code \<Longrightarrow> depth + jump_at code i \<le> wk_depths st' ! forward_at code i"
    if b: "branches (op_at code i)"
  proof -
    have "depth + jump_at code i \<le> wk_max (branched code i depth st)"
      using b by (auto simp: branched_def raise_max_def push_depth_def)
    then show "depth + jump_at code i \<le> wk_max st'" using assms(4) by (simp add: walk_le_def)
    assume f: "forward_at code i < code_len code"
    then have "depth + jump_at code i \<le> wk_depths (branched code i depth st) ! forward_at code i"
      using b assms(2) push_depth_reaches [of "forward_at code i" ?st1 "depth + jump_at code i"]
      by (simp add: branched_def raise_max_def)
    moreover have "length (wk_depths (branched code i depth st)) = code_len code"
      using branched_le [of st code i depth] assms(2) by (simp add: walk_le_def)
    ultimately show "depth + jump_at code i \<le> wk_depths st' ! forward_at code i"
      using assms(4) f by (fastforce simp: walk_le_def)
  qed
  have "depth + effect_at code i \<le> wk_max st'"
    using assms(4) by (auto simp: walk_le_def branched_def raise_max_def)
  then show ?thesis
    using assms(1, 7) d jump by (auto simp: handled_def passed_on_def falls_def)
qed (simp add: handled_def)

lemma walk_block_settled:
  "settled_but code {i} st \<Longrightarrow> depth = wk_depths st ! i \<Longrightarrow> settled_but code {} (walk_block code i depth st)
    \<and> walk_le st (walk_block code i depth st)"
proof (induction "code_len code - i" arbitrary: i depth st rule: less_induct)
  case less
  let ?ins = "co_instructions code ! i"
  show ?case
  proof (cases "code_len code \<le> i")
    case True
    then show ?thesis using less.prems(1) by (auto simp: walk_block.simps [of code i] settled_but_def)
  next
    case False
    then have i: "i < code_len code" and len: "length (wk_depths st) = code_len code"
      using less.prems(1) by (simp_all add: settled_but_def)
    note unf = walk_block.simps [of code i depth st] Let_def split_beta
    consider (jf) "ins_op ?ins = O_JumpForward" | (jb) "ins_op ?ins = O_JumpBackward" | (done') "ends_block (ins_op ?ins)"
      | (go) "falls (ins_op ?ins)" by (auto simp: falls_def)
    then show ?thesis
    proof cases
      case jf
      then have "walk_block code i depth st = push_depth (forward_at code i) depth st" using False by (simp add: unf)
      then show ?thesis
        using settled_done [OF settled_push [OF less.prems(1)] jump_handled] jf len less.prems(2) push_depth_le by auto
    next
      case jb
      then have "walk_block code i depth st = push_depth (backward_at code i) depth st" using False by (simp add: unf)
      then show ?thesis
        using settled_done [OF settled_push [OF less.prems(1)] jump_handled] jb len less.prems(2) push_depth_le by auto
    next
      case done'
      then have "walk_block code i depth st = st" using False by (auto simp: unf ends_block_def)
      moreover have "handled code st i"
        using done' by (auto simp: handled_def passed_on_def ends_block_def branches_def falls_def)
      ultimately show ?thesis using settled_done [OF less.prems(1)] by simp
    next
      case go
      let ?st2 = "branched code i depth st"
      define d where "d = max 0 (depth + effect_at code i)"
      let ?st3 = "?st2\<lparr>wk_depths := (wk_depths ?st2)[Suc i := d]\<rparr>"
      have w: "walk_block code i depth st =
          (if code_len code \<le> Suc i \<or> d \<le> wk_depths ?st2 ! Suc i then ?st2 else walk_block code (Suc i) d ?st3)"
        using go False by (simp add: unf branched_def falls_def d_def)
      note s2 = branched_settled [OF less.prems(1), of i depth]
      show ?thesis
      proof (cases "code_len code \<le> Suc i \<or> d \<le> wk_depths ?st2 ! Suc i")
        case True
        then have "handled code ?st2 i"
          by (intro branched_handled [OF go len less.prems(2)]) (auto simp: d_def)
        then show ?thesis using True w settled_done [OF s2] branched_le by simp
      next
        case rec: False
        then have le3: "walk_le ?st2 ?st3" by (intro set_depth_le) simp
        have "handled code ?st3 i"
          using rec s2 by (intro branched_handled [OF go len less.prems(2) le3]) (auto simp: d_def settled_but_def)
        then have s3: "settled_but code {Suc i} ?st3"
          using rec by (intro settled_next [OF s2]) (auto simp: d_def)
        have "d = wk_depths ?st3 ! Suc i" using rec s2 by (simp add: settled_but_def)
        then have "settled_but code {} (walk_block code (Suc i) d ?st3) \<and> walk_le ?st3 (walk_block code (Suc i) d ?st3)"
          using less.hyps [OF _ s3] i by simp
        then show ?thesis using rec w walk_le_trans [OF branched_le walk_le_trans [OF le3]] by auto
      qed
    qed
  qed
qed

section \<open>The whole walk\<close>

lemma drain_settled:
  "settled_but code {} st \<Longrightarrow> drain code budget st = (ok, b, st') \<Longrightarrow>
    walk_le st st' \<and> (ok \<longrightarrow> wk_list st' = [] \<and> settled_but code {} st')"
proof (induction budget arbitrary: st)
  case 0
  then show ?case by (auto simp: drain.simps [of code 0 st] split: list.splits)
next
  case (Suc budget)
  show ?case
  proof (cases "wk_list st")
    case Nil
    then show ?thesis using Suc.prems by (auto simp: drain.simps [of code "Suc budget" st])
  next
    case (Cons start rest)
    let ?st = "st\<lparr>wk_list := rest\<rparr>"
    have "passed_on code ?st j d = passed_on code st j d" for j d by (simp add: passed_on_def)
    then have "settled_but code {start} ?st" using Suc.prems(1) Cons by (auto simp: settled_but_def)
    then have w: "settled_but code {} (walk_block code start (wk_depths st ! start) ?st)"
        "walk_le ?st (walk_block code start (wk_depths st ! start) ?st)"
      using walk_block_settled [of code start ?st] by simp_all
    have "drain code budget (walk_block code start (wk_depths st ! start) ?st) = (ok, b, st')"
      using Suc.prems(2) Cons by (simp add: drain.simps [of code "Suc budget" st])
    note IH = Suc.IH [OF w(1) this]
    have "walk_le ?st st'" using walk_le_trans [OF w(2)] IH by blast
    then have "walk_le st st'" by (simp add: walk_le_def)
    then show ?thesis using IH by blast
  qed
qed

lemma seeds_settled:
  "settled_but code {} st \<Longrightarrow> settled_but code {} (fold seed_handler hs st) \<and> walk_le st (fold seed_handler hs st)"
proof (induction hs arbitrary: st)
  case (Cons h hs)
  have "settled_but code {} (seed_handler h st)" "walk_le st (seed_handler h st)"
    using Cons.prems walk_le_trans [OF raise_max_le push_depth_le]
    by (auto simp: seed_handler_def settled_push settled_raise)
  then show ?case using Cons.IH [of "seed_handler h st"] walk_le_trans by auto
qed simp

lemma seed_handler_reaches:
  assumes "h \<in> set hs" "\<not> anchored h" "unat (eh_handler h) < length (wk_depths st)" "settled_but code {} st"
  shows "handler_entry h \<le> wk_depths (fold seed_handler hs st) ! unat (eh_handler h)
    \<and> handler_entry h \<le> wk_max (fold seed_handler hs st)"
  using assms
proof (induction hs arbitrary: st)
  case (Cons g hs)
  have s: "settled_but code {} (seed_handler g st)" using Cons.prems(4)
    by (auto simp: seed_handler_def settled_push settled_raise)
  have le: "length (wk_depths (seed_handler g st)) = length (wk_depths st)"
    by (simp add: seed_handler_def push_depth_def raise_max_def)
  show ?case
  proof (cases "h \<in> set hs")
    case True
    then show ?thesis using Cons.IH [OF True Cons.prems(2) _ s] Cons.prems(3) le by simp
  next
    case False
    then have g: "g = h" using Cons.prems(1) by simp
    have "handler_entry h \<le> wk_depths (seed_handler h st) ! unat (eh_handler h)"
      "handler_entry h \<le> wk_max (seed_handler h st)"
      using Cons.prems(2, 3) push_depth_reaches [of "unat (eh_handler h)" "raise_max (handler_entry h) st"]
      by (auto simp: seed_handler_def raise_max_def push_depth_def)
    then show ?thesis
      using seeds_settled [OF s, of hs] Cons.prems(3) le by (fastforce simp: g walk_le_def)
  qed
qed simp

lemma start_settled: "settled_but code {} (walk_start code)"
  unfolding walk_start_def by (rule settled_push) (simp add: settled_but_def)

theorem walk_sound:
  assumes "stack_walk code = (True, b, st)" "at_depth code i d"
  shows "i < code_len code \<and> 0 \<le> d \<and> d \<le> wk_depths st ! i \<and> d \<le> wk_max st"
proof -
  let ?seeds = "fold seed_handler (co_exception_table code) (walk_start code)"
  have seeds: "settled_but code {} ?seeds" "walk_le (walk_start code) ?seeds"
    using seeds_settled [OF start_settled [of code], of "co_exception_table code"] by simp_all
  have dr: "walk_le ?seeds st" "wk_list st = []" "settled_but code {} st"
    using drain_settled [OF seeds(1)] assms(1) by (simp_all add: stack_walk_def)
  have le: "walk_le (walk_start code) st" using walk_le_trans [OF seeds(2) dr(1)] .
  have len: "length (wk_depths st) = code_len code" using dr(3) by (simp add: settled_but_def)
  have passed: "passed_on code st j e" if "j < code_len code" "0 \<le> e" "e \<le> wk_depths st ! j" for j e
  proof -
    have "passed_on code st j (wk_depths st ! j)" using dr(2, 3) that by (simp add: settled_but_def)
    then show ?thesis using that(3) by (auto simp: passed_on_def)
  qed
  from assms(2) show ?thesis
  proof induction
    case entry
    have "length (wk_depths (walk_start code)) = code_len code" "0 \<le> wk_depths (walk_start code) ! 0"
        "1 \<le> wk_max (walk_start code)"
      using entry by (auto simp: walk_start_def push_depth_def)
    then show ?case using le entry by (fastforce simp: walk_le_def)
  next
    case (handler h)
    have "length (wk_depths (walk_start code)) = code_len code" by (simp add: walk_start_def push_depth_def)
    then have "handler_entry h \<le> wk_depths ?seeds ! unat (eh_handler h)" "handler_entry h \<le> wk_max ?seeds"
      using seed_handler_reaches [OF handler(1, 2) _ start_settled [of code]] handler(3) by simp_all
    moreover have "length (wk_depths ?seeds) = code_len code" using seeds(1) by (simp add: settled_but_def)
    ultimately have "handler_entry h \<le> wk_depths st ! unat (eh_handler h)" "handler_entry h \<le> wk_max st"
      using dr(1) handler(3) by (fastforce simp: walk_le_def)+
    then show ?case using handler(3) by (simp add: handler_entry_def)
  next
    case (fall i d)
    then have p: "passed_on code st i d" using passed by simp
    have "wk_max (walk_start code) = 1" by (simp add: walk_start_def push_depth_def)
    then have "1 \<le> wk_max st" using le by (simp add: walk_le_def)
    then show ?case using p fall by (auto simp: passed_on_def)
  next
    case (forward i d)
    then show ?case using passed [of i d] by (auto simp: passed_on_def)
  next
    case (backward i d)
    then show ?case using passed [of i d] by (auto simp: passed_on_def)
  next
    case (branch i d)
    then show ?case using passed [of i d] by (auto simp: passed_on_def)
  qed
qed

end
