(* ===== verification/Code_Effects.thy ===== *)
theory Code_Effects
  imports Code_Back
begin

text \<open>
  The two tables of stack effects agree: what an instruction does to the depth
  (\<open>fall_effect\<close>) is what its wire form pushes and pops (\<open>cp_stack_shape\<close>).
\<close>

definition wire_effect :: "w8 \<Rightarrow> w32 \<Rightarrow> int" where
  "wire_effect c a = (case cp_stack_shape c a of (pops, pushes) \<Rightarrow> int pushes - int pops)"

text \<open>
  The instructions whose effect is not that of their wire form: \<open>ReturnValue\<close> ends the frame,
  \<open>PrintExpr\<close> is written as a \<open>NOP\<close>, \<open>MakeFunction\<close> with flags pops what CPython sets with
  separate instructions, and \<open>CallSelf\<close> counts its receiver.
\<close>

definition own_effect :: "instruction \<Rightarrow> bool" where
  "own_effect ins \<longleftrightarrow> ins_op ins = O_ReturnValue \<or> ins_op ins = O_PrintExpr
    \<or> (ins_op ins = O_MakeFunction \<and> ins_arg ins \<noteq> 0) \<or> (ins_op ins = O_CallSelf \<and> ins_arg ins = 0)"

lemma unat_even: "unat (push_bit 1 (v :: w32)) AND 1 = 0"
proof -
  have "unat (push_bit 1 v AND 1) = 0" by (simp only: even_shift) simp
  then show ?thesis by (simp only: unsigned_and_eq) simp
qed

lemma unat_odd: "unat (push_bit 1 (v :: w32) OR 1) AND 1 = 1"
proof -
  have "(push_bit 1 v OR 1) AND 1 = 1" by (simp only: bit.conj_disj_distrib2 even_shift) simp
  then have "unat ((push_bit 1 v OR 1) AND 1) = 1" by simp
  then show ?thesis by (simp only: unsigned_and_eq) simp
qed

lemma count_ones_0: "count_ones 0 = 0"
  by (simp add: count_ones_def)

lemma effect_shifted:
  "wire_effect op_LOAD_GLOBAL (push_bit 1 v) = 1" "wire_effect op_LOAD_GLOBAL (push_bit 1 v OR 1) = 2"
  "wire_effect op_LOAD_ATTR (push_bit 1 v) = 0" "wire_effect op_LOAD_ATTR (push_bit 1 v OR 1) = 1"
  unfolding wire_effect_def cp_stack_shape_def Let_def unat_even unat_odd by simp_all

lemma packed_bytes:
  assumes m: "\<And>k. bit (m :: w32) k \<longleftrightarrow> k < 8"
  shows "((drop_bit 8 v AND m) OR push_bit 8 (v AND m)) AND m = drop_bit 8 v AND m"
    "drop_bit 8 ((drop_bit 8 v AND m) OR push_bit 8 (v AND m)) = v AND m"
  by (rule bit_word_eqI, auto simp: bit_simps m)+

lemma mask_byte: "bit (0xFF :: w32) k \<longleftrightarrow> k < 8"
  by (auto simp: bit_simps dest: bit_imp_le_length)

lemma effect_packed:
  "wire_effect op_UNPACK_EX ((drop_bit 8 v AND 0xFF) OR push_bit 8 (v AND 0xFF))
    = int (unat (drop_bit 8 v AND 0xFF)) + int (unat (v AND 0xFF))"
proof -
  let ?x = "(drop_bit 8 v AND 0xFF) OR push_bit 8 (v AND 0xFF) :: w32"
  note b = packed_bytes [OF mask_byte, of v]
  have "unat ?x AND 0xFF = unat (?x AND 0xFF)" by (simp only: unsigned_and_eq) simp
  moreover have "drop_bit 8 (unat ?x) = unat (drop_bit 8 ?x)" by (simp only: unat_drop_bit_eq)
  ultimately show ?thesis unfolding wire_effect_def cp_stack_shape_def Let_def b by simp
qed

lemma effect_low:
  "wire_effect op_LOAD_SUPER_ATTR v = (1 + (int (unat v) AND 1)) - 3"
  "wire_effect op_BUILD_INTERPOLATION v = (if v AND 1 \<noteq> 0 then - 2 else - 1)"
proof -
  show "wire_effect op_LOAD_SUPER_ATTR v = (1 + (int (unat v) AND 1)) - 3"
    by (simp add: wire_effect_def cp_stack_shape_def Let_def and_one_eq zmod_int)
  have "unat v AND 1 = unat (v AND 1)" by (simp only: unsigned_and_eq) simp
  then show "wire_effect op_BUILD_INTERPOLATION v = (if v AND 1 \<noteq> 0 then - 2 else - 1)"
    by (auto simp: wire_effect_def cp_stack_shape_def Let_def and_one_eq mod2_eq_if)
qed

lemma sub_one: "0 < (v :: w32) \<Longrightarrow> int (unat (sat_sub v 1)) = int (unat v) - 1"
proof -
  assume v: "0 < v"
  then have "1 \<le> v" by (simp add: word_le_nat_alt word_less_nat_alt)
  then show ?thesis using v by (simp add: sat_sub_def unat_sub word_less_nat_alt of_nat_diff)
qed

lemmas shape_defs = fall_effect_def wire_effect_def cp_stack_shape_def Let_def

definition special :: "OpCode \<Rightarrow> bool" where
  "special opc \<longleftrightarrow> opc \<in> {O_LoadGlobal, O_LoadGlobalPushNull, O_LoadAttr, O_LoadMethodAttr, O_UnpackEx,
    O_LoadSuperAttr, O_BuildInterpolation, O_CallSelf, O_MakeFunction, O_ReturnValue, O_PrintExpr}"

lemma effects_var:
  "wire_of (Var v) arg slots = Some (c, a) \<Longrightarrow> \<not> special (Var v) \<Longrightarrow> fall_effect (Var v) arg = wire_effect c a"
  by (cases v; auto simp: special_def wire_of_def split: option.splits UnaryKind.splits if_splits; simp add: shape_defs)

lemma effects_attr:
  "wire_of (Attr v) arg slots = Some (c, a) \<Longrightarrow> \<not> special (Attr v) \<Longrightarrow> fall_effect (Attr v) arg = wire_effect c a"
  by (cases v; auto simp: special_def wire_of_def split: option.splits UnaryKind.splits if_splits; simp add: shape_defs)

lemma effects_arith:
  "wire_of (Arith v) arg slots = Some (c, a) \<Longrightarrow> \<not> special (Arith v) \<Longrightarrow> fall_effect (Arith v) arg = wire_effect c a"
  by (cases v; auto simp: special_def wire_of_def split: option.splits UnaryKind.splits if_splits; simp add: shape_defs)

lemma effects_calling:
  "wire_of (Calling v) arg slots = Some (c, a) \<Longrightarrow> \<not> special (Calling v) \<Longrightarrow> fall_effect (Calling v) arg = wire_effect c a"
  by (cases v; auto simp: special_def wire_of_def split: option.splits UnaryKind.splits if_splits; simp add: shape_defs)

lemma effects_flow:
  "wire_of (Flow v) arg slots = Some (c, a) \<Longrightarrow> \<not> special (Flow v) \<Longrightarrow> fall_effect (Flow v) arg = wire_effect c a"
  by (cases v; auto simp: special_def wire_of_def split: option.splits UnaryKind.splits if_splits; simp add: shape_defs)

lemma effects_container:
  "wire_of (Container v) arg slots = Some (c, a) \<Longrightarrow> \<not> special (Container v) \<Longrightarrow> fall_effect (Container v) arg = wire_effect c a"
  by (cases v; auto simp: special_def wire_of_def split: option.splits UnaryKind.splits if_splits; simp add: shape_defs)

lemma effects_func:
  "wire_of (Func v) arg slots = Some (c, a) \<Longrightarrow> \<not> special (Func v) \<Longrightarrow> fall_effect (Func v) arg = wire_effect c a"
  by (cases v; auto simp: special_def wire_of_def split: option.splits UnaryKind.splits if_splits; simp add: shape_defs)

lemma effects_exc:
  "wire_of (Exc v) arg slots = Some (c, a) \<Longrightarrow> \<not> special (Exc v) \<Longrightarrow> fall_effect (Exc v) arg = wire_effect c a"
  by (cases v; auto simp: special_def wire_of_def split: option.splits UnaryKind.splits if_splits; simp add: shape_defs)

lemma effects_import:
  "wire_of (Import v) arg slots = Some (c, a) \<Longrightarrow> \<not> special (Import v) \<Longrightarrow> fall_effect (Import v) arg = wire_effect c a"
  by (cases v; auto simp: special_def wire_of_def split: option.splits UnaryKind.splits if_splits; simp add: shape_defs)

lemma effects_gen:
  "wire_of (Gen v) arg slots = Some (c, a) \<Longrightarrow> \<not> special (Gen v) \<Longrightarrow> fall_effect (Gen v) arg = wire_effect c a"
  by (cases v; auto simp: special_def wire_of_def split: option.splits UnaryKind.splits if_splits; simp add: shape_defs)

lemma effects_pattern:
  "wire_of (Pattern v) arg slots = Some (c, a) \<Longrightarrow> \<not> special (Pattern v) \<Longrightarrow> fall_effect (Pattern v) arg = wire_effect c a"
  by (cases v; auto simp: special_def wire_of_def split: option.splits UnaryKind.splits if_splits; simp add: shape_defs)

lemma effects_added:
  "wire_of (Added v) arg slots = Some (c, a) \<Longrightarrow> \<not> special (Added v) \<Longrightarrow> fall_effect (Added v) arg = wire_effect c a"
  by (cases v; auto simp: special_def wire_of_def split: option.splits UnaryKind.splits if_splits; simp add: shape_defs)

lemma effects_refined:
  "wire_of (Refined v) arg slots = Some (c, a) \<Longrightarrow> \<not> special (Refined v) \<Longrightarrow> fall_effect (Refined v) arg = wire_effect c a"
  by (cases v; auto simp: special_def wire_of_def split: option.splits UnaryKind.splits if_splits; simp add: shape_defs)

lemma effects_pseudo:
  "wire_of (Pseudo v) arg slots = Some (c, a) \<Longrightarrow> \<not> special (Pseudo v) \<Longrightarrow> fall_effect (Pseudo v) arg = wire_effect c a"
  by (cases v; auto simp: special_def wire_of_def split: option.splits UnaryKind.splits if_splits; simp add: shape_defs)

lemmas effects_plain = effects_var effects_attr effects_arith effects_calling effects_flow effects_container effects_func effects_exc effects_import effects_gen effects_pattern effects_added effects_refined effects_pseudo

lemma effects_special:
  "fall_effect O_LoadGlobal v = wire_effect op_LOAD_GLOBAL (push_bit 1 v)"
  "fall_effect O_LoadGlobalPushNull v = wire_effect op_LOAD_GLOBAL (push_bit 1 v OR 1)"
  "fall_effect O_LoadAttr v = wire_effect op_LOAD_ATTR (push_bit 1 v)"
  "fall_effect O_LoadMethodAttr v = wire_effect op_LOAD_ATTR (push_bit 1 v OR 1)"
  "fall_effect O_UnpackEx v = wire_effect op_UNPACK_EX ((drop_bit 8 v AND 0xFF) OR push_bit 8 (v AND 0xFF))"
  "fall_effect O_LoadSuperAttr v = wire_effect op_LOAD_SUPER_ATTR v"
  "fall_effect O_BuildInterpolation v = wire_effect op_BUILD_INTERPOLATION v"
  unfolding effect_shifted effect_packed effect_low by (simp_all add: fall_effect_def Let_def)

lemma effects_calls:
  "v \<noteq> 0 \<Longrightarrow> fall_effect O_CallSelf v = wire_effect op_CALL (sat_sub v 1)"
  "fall_effect O_MakeFunction 0 = wire_effect op_MAKE_FUNCTION 0"
  using sub_one [of v] by (simp_all add: shape_defs count_ones_0 word_neq_0_conv)

theorem effects_agree:
  assumes "wire_of (ins_op ins) (ins_arg ins) slots = Some (c, a)" "\<not> own_effect ins"
  shows "fall_effect (ins_op ins) (ins_arg ins) = wire_effect c a"
proof (cases "special (ins_op ins)")
  case False
  then show ?thesis using assms(1) effects_plain by (cases "ins_op ins") (simp_all del: not_None_eq)
next
  case True
  then show ?thesis
    using assms effects_calls(1) [of "ins_arg ins"] effects_calls(2)
    by (auto simp: special_def own_effect_def wire_of_def effects_special
        simp del: One_nat_def push_bit_Suc)
qed

end
