(* ===== verification/Code_Properties.thy ===== *)
theory Code_Properties
  imports Code_Handlers Code_Sound Code_Effects
begin

text \<open>
  The properties of the wire codec (\<open>crates/weavepy-compiler/src/cpython_code.rs\<close>): what
  \<open>encode\<close> writes is well formed, \<open>decode\<close> and the table decoders read back the instructions,
  positions and handlers it was given, and the stack analysis bounds every execution.
\<close>

section \<open>A sample\<close>

text \<open>\<open>def f(x): return None if x else x\<close>, with a handler around the test.\<close>

definition sample_code :: "unit CodeObject" where
  "sample_code = \<lparr>co_name = ''f'', co_arg_count = 1, co_posonly_count = 0, co_kwonly_count = 0,
    co_has_varargs = False, co_has_varkeywords = False, co_stacksize = None,
    co_instructions = [Instr O_Resume 0, Instr O_LoadFast 0, Instr O_PopJumpIfFalse 2,
      Instr O_LoadConst 0, Instr O_ReturnValue 0, Instr O_LoadFast 0, Instr O_ReturnValue 0],
    co_constants = [C_None], co_varnames = [''x''], co_freevars = [], co_cellvars = [],
    co_exception_table = [\<lparr>eh_start = 1, eh_end = 3, eh_handler = 5, eh_depth = 0, eh_push_lasti = False\<rparr>],
    co_linetable = [1, 2, 2, 3, 3, 4, 4], co_coltable = [], co_wire_marks = [],
    co_hidden_locals = [], co_no_interrupt_jumps = []\<rparr>"

lemma sample_regular: "regular sample_code"
  by code_simp

lemma sample_ops: "\<exists>mapped zero_width. wire_ops sample_code = Some (mapped, zero_width) \<and> most_units mapped \<le> 240"
proof -
  have "case wire_ops sample_code of None \<Rightarrow> False | Some (mapped, _) \<Rightarrow> most_units mapped \<le> 240" by code_simp
  then show ?thesis by (auto split: option.splits prod.splits)
qed

lemma sample_encodes:
  obtains cp where "encode sample_code = Some cp" "layout_settles sample_code" "length (cc_co_code cp) < 2 ^ 33"
proof -
  obtain cp where "encode sample_code = Some cp"
    using encode_None [of sample_code] by (auto simp: sample_code_def is_pseudo_def)
  moreover obtain mapped zw where m: "wire_ops sample_code = Some (mapped, zw)" "most_units mapped \<le> 240"
    using sample_ops by blast
  ultimately show thesis using that short_encoding(1) [OF m] short_encoding(2) [OF m] by fastforce
qed

lemma sample_tables: "handlers_ok sample_code" "0 \<le> sint (code_firstlineno sample_code)"
  by (simp_all add: sample_code_def handlers_ok_def boundary_def fused_def wire_mark_def PLAIN_def code_firstlineno_def)

section \<open>Round trips\<close>

text \<open>
  C4. Decoding the code units the encoder writes gives back the instructions, for code whose
  instructions each survive the translation tables, whose layout has settled and whose
  units stay below \<open>2 ^ 32\<close>: the prefixes, the jump operands, the inline caches and the
  fused pairs lose nothing.
\<close>

theorem decode_encode_round_trip:
  assumes "encode code = Some cp" "regular code" "layout_settles code" "length (cc_co_code cp) < 2 ^ 33"
  shows "decode (cc_co_code cp) (slots_of code) (co_constants code) = Some (co_instructions code)"
proof -
  obtain inp la where e: "encoding code cp inp la" using encodingE [OF assms(1)] .
  from decode_encode [OF e regular_canonical [OF assms(2)] settles_settled [OF e assms(3)] assms(4)] show ?thesis .
qed

theorem decode_encode_round_trip_witness:
  "\<exists>cp. encode sample_code = Some cp \<and>
     decode (cc_co_code cp) (slots_of sample_code) (co_constants sample_code) = Some (co_instructions sample_code)"
  using decode_encode_round_trip [OF _ sample_regular] sample_encodes by metis

text \<open>
  C18. For regular code with a first line that fits an \<open>i32\<close>, every instruction read back has the
  line and the column span the table can hold of those it was compiled with: no line reads as
  0 and columns without both ends as unknown (\<open>seen_line\<close> and \<open>seen_span\<close>), and the second
  half of a fused pair has the position of the first.
\<close>

theorem lines_survive_encoding:
  assumes "encode code = Some cp" "regular code" "0 \<le> sint (code_firstlineno code)"
  shows "decode_linetable (cc_co_linetable cp) (decode_raws (cc_co_code cp)) (cc_firstlineno cp)
    = (map (\<lambda>i. seen_line (position_of_instr code i)) [0..<length (co_instructions code)],
       map (\<lambda>i. seen_span (position_of_instr code i)) [0..<length (co_instructions code)])"
proof -
  obtain inp la where "encoding code cp inp la" using encodingE [OF assms(1)] .
  from lines_survive [OF this regular_canonical [OF assms(2)] assms(3)] show ?thesis .
qed

theorem lines_survive_encoding_witness:
  "\<exists>cp. encode sample_code = Some cp \<and>
     fst (decode_linetable (cc_co_linetable cp) (decode_raws (cc_co_code cp)) (cc_firstlineno cp))
       = map (\<lambda>i. seen_line (position_of_instr sample_code i)) [0..<7]"
proof -
  obtain cp where cp: "encode sample_code = Some cp" by (rule sample_encodes)
  have "length (co_instructions sample_code) = 7" by (simp add: sample_code_def)
  with lines_survive_encoding [OF cp sample_regular sample_tables(2)] cp show ?thesis by simp
qed



text \<open>
  C21. The two translation tables invert each other on every operand a program can carry: the
  slot of a cell or free variable leads back to its index, and each operation with a wire
  operation of its own to itself.
\<close>

theorem operand_survives:
  assumes "names_fit code" "keeps_operand code ins"
  shows "\<exists>m. map_to_cpython ins (deref_slots_from_code code) = Some m \<and>
    map_from_cpython (mo_op m) (mo_arg m) (slots_of code) = Some (ins_op ins, ins_arg ins)"
  using keeps_operand_unwires [OF assms] by (auto simp: unwires_def map_to_cpython_def split: option.splits)

theorem operand_survives_witness:
  "\<exists>m. map_to_cpython (Instr O_LoadFast 0) (deref_slots_from_code sample_code) = Some m \<and>
    map_from_cpython (mo_op m) (mo_arg m) (slots_of sample_code) = Some (O_LoadFast, 0)"
  using operand_survives [of sample_code "Instr O_LoadFast 0"]
  by (simp add: names_fit_def keeps_operand_def no_operand_def is_deref_def sample_code_def)

section \<open>Well-formed output\<close>

lemma step_by_2_append: "even (length xs) \<Longrightarrow> step_by_2 (xs @ ys) = step_by_2 xs @ step_by_2 ys"
  by (induction xs rule: step_by_2.induct) simp_all

lemma step_by_2_pairs: "step_by_2 (concat (map (\<lambda>k. [f k, g k]) ks)) = map f ks"
  by (induction ks) simp_all

lemma step_by_2_units:
  "set (step_by_2 (emit_units c arg ext)) \<subseteq> {op_EXTENDED_ARG, c, op_CACHE}"
proof -
  have caches: "concat (replicate n [op_CACHE, 0 :: w8]) = concat (map (\<lambda>_. [op_CACHE, 0]) [0..<n])" for n
    by (simp add: map_replicate_const)
  have "step_by_2 (emit_units c arg ext) = step_by_2 (ext_units arg ext) @ c # step_by_2 (concat (replicate (cache_entries c) [op_CACHE, 0]))"
    by (simp add: emit_units_def step_by_2_append length_ext_units)
  then show ?thesis unfolding ext_units_def caches step_by_2_pairs by auto
qed

lemma step_by_2_wire: "set (step_by_2 (wire_bytes ws)) \<subseteq> {op_EXTENDED_ARG, op_CACHE} \<union> fst ` set ws"
proof (induction ws)
  case (Cons w ws)
  obtain c arg ext where w: "w = (c, arg, ext)" by (cases w)
  have "step_by_2 (wire_bytes (w # ws)) = step_by_2 (emit_units c arg ext) @ step_by_2 (wire_bytes ws)"
    by (simp add: wire_bytes_def w step_by_2_append length_emit_units)
  then show ?case using Cons step_by_2_units [of c arg ext] by (auto simp: w)
qed (simp add: wire_bytes_def)

lemma length_units: "length (wire_bytes ws) = 2 * sum_list (map wire_size ws)"
  by (induction ws) (auto simp: wire_bytes_def wire_size_def length_emit_units)

lemma length_concat_units:
  "length (concat (map (\<lambda>i. replicate (wire_size (wire_at inp la i)) (p i)) is))
    = sum_list (map wire_size (map (wire_at inp la) is))"
  by (induction "is") simp_all

text \<open>
  C22. Every encoding is well formed: two bytes and one position for each code unit, no opcode the
  bytecode does not have, one offset for each instruction and one kind for each local.
\<close>

theorem encoded_code_well_formed:
  assumes "encode code = Some cp"
  shows "length (cc_co_code cp) = 2 * length (cc_positions cp) \<and> first_unknown_opcode (cc_co_code cp) = None \<and>
    length (cc_inst_offsets cp) = length (co_instructions code) \<and>
    length (cc_localspluskinds cp) = length (cc_localsplusnames cp)"
proof -
  obtain inp la where e: "encoding code cp inp la" using encodingE [OF assms] .
  note facts = encoding_facts [OF e]
  have "find is_unknown_opcode (step_by_2 (cc_co_code cp)) = None"
    using step_by_2_wire [of "emitted_wire inp la"] facts(8)
    unfolding facts(1) find_None_iff by (auto simp: good_op_def is_unknown_opcode_def one_known)
  moreover have "length (cc_localspluskinds cp) = length (cc_localsplusnames cp)"
    using assms by (auto simp: encode_def build_localsplus_def Let_def split: option.splits prod.splits if_splits)
  ultimately show ?thesis
    using facts(3) by (simp add: facts(1, 2) first_unknown_opcode_def length_units length_concat_units emitted_wire_def)
qed

theorem encoded_code_well_formed_witness:
  "\<exists>cp. encode sample_code = Some cp \<and> first_unknown_opcode (cc_co_code cp) = None \<and> length (cc_inst_offsets cp) = 7"
proof -
  obtain cp where cp: "encode sample_code = Some cp" by (rule sample_encodes)
  have "length (co_instructions sample_code) = 7" by (simp add: sample_code_def)
  with encoded_code_well_formed [OF cp] cp show ?thesis by simp
qed


lemma emitted_units:
  "sum_list (map wire_size (emitted_wire inp la)) = layout_starts inp (la_ext la) ! li_len inp"
  unfolding layout_starts_nth [OF order_refl] emitted_wire_def shown_def map_map sum_list_map_filter'
  by (intro arg_cong [of _ _ sum_list] map_cong) (simp_all add: unit_size_def wire_size_def wire_at_def)

lemma encoding_length:
  "encoding code cp inp la \<Longrightarrow> length (cc_co_code cp) = 2 * layout_starts inp (la_ext la) ! li_len inp"
  by (simp add: encoding_facts(1) length_units emitted_units)

text \<open>
  C24. The layout loop reaches a fixpoint on all code that encodes to at most 255 code units,
  prefixes and caches counted.
\<close>

theorem short_code_settles:
  assumes "encode code = Some cp" "length (cc_co_code cp) \<le> 2 * 255"
  shows "layout_settles code"
proof -
  obtain mapped zw where m: "wire_ops code = Some (mapped, zw)"
    using assms(1) by (cases "wire_ops code") (auto simp: encode_def)
  let ?inp = "layout_input_of code mapped zw"
  have e: "encoding code cp ?inp (layout_of ?inp)" using m assms(1) by (simp add: encoding_def)
  note good = wire_ops_good(2, 3) [OF m]
  have send: "send \<le> li_len ?inp" if "i < li_len ?inp" "li_send ?inp ! i = Some send" for i send
    using that eaf_send_less [of code mapped i send] good by (simp add: layout_input_of_def)
  have "length (li_zero ?inp) = li_len ?inp" using good by (simp add: layout_input_of_def)
  moreover have "layout_starts ?inp (la_ext (layout_of ?inp)) ! li_len ?inp \<le> 255"
    using encoding_length [OF e] assms(2) by simp
  ultimately have "settled ?inp (layout_of ?inp)" using fits_byte_settles [of ?inp] send by blast
  then show ?thesis using m by (simp add: layout_settles_def)
qed

theorem short_code_settles_witness: "\<exists>cp. encode sample_code = Some cp \<and> length (cc_co_code cp) \<le> 480 \<and> layout_settles sample_code"
proof -
  obtain cp where cp: "encode sample_code = Some cp" by (rule sample_encodes)
  obtain mapped zw where m: "wire_ops sample_code = Some (mapped, zw)" "most_units mapped \<le> 240"
    using sample_ops by blast
  have "length (cc_co_code cp) \<le> 480" by (rule short_encoding(2) [OF m cp])
  with short_code_settles [OF cp] cp show ?thesis by simp
qed

section \<open>The stack\<close>

text \<open>
  C20. What an instruction that falls through does to the depth of the stack is what its wire form
  pushes and pops, except for \<open>ReturnValue\<close> (which the wire form leaves no stack after),
  \<open>PrintExpr\<close> and \<open>MakeFunction\<close> with flags (which the wire form does in several steps), and
  \<open>CallSelf 0\<close>.
\<close>

theorem stack_effects_agree:
  assumes "wire_of (ins_op ins) (ins_arg ins) slots = Some (c, a)" "\<not> own_effect ins"
  shows "fall_effect (ins_op ins) (ins_arg ins) = wire_effect c a"
  by (rule effects_agree [OF assms])

theorem stack_effects_agree_witness: "fall_effect O_UnpackEx 0x203 = wire_effect op_UNPACK_EX 0x302"
  using stack_effects_agree [where ins = "Instr O_UnpackEx 0x203" and c = op_UNPACK_EX and a = "0x302"]
  by (simp add: wire_of_def own_effect_def)

lemma sample_walk: "case stack_walk sample_code of (ok, budget, st) \<Rightarrow> ok"
  by code_simp

lemma sample_depth: "at_depth sample_code 2 1"
proof -
  have "at_depth sample_code 0 0" by (rule at_depth.entry) (simp add: sample_code_def)
  then have "at_depth sample_code (Suc 0) (max 0 (0 + effect_at sample_code 0))"
    by (rule at_depth.fall) (simp_all add: sample_code_def falls_def ends_block_def)
  then have "at_depth sample_code (Suc 0) 0"
    by (simp add: sample_code_def stack_effects_at_def stack_effects_def fall_effect_def Let_def)
  then have "at_depth sample_code (Suc (Suc 0)) (max 0 (0 + effect_at sample_code (Suc 0)))"
    by (rule at_depth.fall) (simp_all add: sample_code_def falls_def ends_block_def)
  then show ?thesis
    by (simp add: sample_code_def stack_effects_at_def stack_effects_def fall_effect_def Let_def numeral_2_eq_2)
qed

lemma u32_of_depth_ge: "d \<le> e \<Longrightarrow> 0 \<le> e \<Longrightarrow> min d (2 ^ 32 - 1) \<le> int (unat (u32_of_depth e))"
proof (cases "e < 2 ^ 32")
  case True
  assume "d \<le> e" "0 \<le> e"
  then have "int (unat (word_of_int e :: w32)) = e"
    using True by (simp add: uint_word_of_int)
  then show ?thesis using True \<open>d \<le> e\<close> \<open>0 \<le> e\<close> by (simp add: u32_of_depth_def)
next
  case False
  have "unat (- 1 :: w32) = 2 ^ 32 - 1" by (simp add: unsigned_minus_1_eq_mask mask_eq_exp_minus_1)
  then show ?thesis using False by (simp add: u32_of_depth_def)
qed

text \<open>
  C19. When the walk over the code ends within its budget, the depth of every execution at every
  instruction is at most the recorded one, and at most the stack size the code asks for
  (\<open>u32::MAX\<close> when it does not fit).
\<close>

theorem stacksize_sound:
  assumes "stack_walk code = (True, budget, st)" "at_depth code i d"
  shows "i < length (co_instructions code) \<and> 0 \<le> d \<and> d \<le> wk_depths st ! i \<and>
    min d (2 ^ 32 - 1) \<le> int (unat (compute_stacksize code))"
proof -
  note w = walk_sound [OF assms]
  then have "compute_stacksize code = u32_of_depth (wk_max st)"
    using assms(1) by (auto simp: compute_stacksize_def)
  then show ?thesis using w u32_of_depth_ge [of d "wk_max st"] by simp
qed

theorem stacksize_sound_witness:
  "at_depth sample_code 2 1 \<and> 1 \<le> int (unat (compute_stacksize sample_code))"
proof -
  obtain budget st where w: "stack_walk sample_code = (True, budget, st)" using sample_walk by auto
  from stacksize_sound [OF w sample_depth] sample_depth show ?thesis by simp
qed

end
