(* ===== verification/Jump_Kinds.thy ===== *)
theory Jump_Kinds
  imports WP_Prelude
begin

text \<open>
  Abstract stacks of the jump analysis (\<open>crates/weavepy-vm/src/linejump.rs\<close>): a stack of slot
  kinds packed into an \<open>i64\<close>, three bits per entry with the top entry lowest. A stack of more
  than 21 entries does not fit and becomes \<open>OVERFLOWED\<close>. Comparisons are signed unless the
  source casts to \<open>u64\<close>; shift amounts count modulo 64, as in release builds.
\<close>

unbundle bit_operations_syntax

section \<open>Kinds\<close>

datatype Kind = K_Iterator | K_Except | K_Object | K_Null | K_Lasti

text \<open>\<open>kind as i64\<close>.\<close>

fun kind_bits :: "Kind \<Rightarrow> i64" where
  "kind_bits K_Iterator = 1"
| "kind_bits K_Except = 2"
| "kind_bits K_Object = 3"
| "kind_bits K_Null = 4"
| "kind_bits K_Lasti = 5"

definition kind_of :: "i64 \<Rightarrow> Kind" where
  "kind_of raw =
    (if raw = 1 then K_Iterator else if raw = 2 then K_Except else if raw = 4 then K_Null
     else if raw = 5 then K_Lasti else K_Object)"

definition BITS_PER_BLOCK :: nat where "BITS_PER_BLOCK = 3"
definition KIND_MASK :: i64 where "KIND_MASK = 7"
definition UNINITIALIZED :: i64 where "UNINITIALIZED = - 2"
definition OVERFLOWED :: i64 where "OVERFLOWED = - 1"
definition EMPTY_STACK :: i64 where "EMPTY_STACK = 0"
definition MAX_STACK_ENTRIES :: nat where "MAX_STACK_ENTRIES = 63 div BITS_PER_BLOCK"
definition WILL_OVERFLOW :: u64 where
  "WILL_OVERFLOW = push_bit ((MAX_STACK_ENTRIES - 1) * BITS_PER_BLOCK) 1"

section \<open>Stack operations\<close>

definition push_kind :: "i64 \<Rightarrow> Kind \<Rightarrow> i64" where
  "push_kind stack kind =
    (if stack <s 0 \<or> WILL_OVERFLOW \<le> stack then OVERFLOWED
     else push_bit BITS_PER_BLOCK stack OR kind_bits kind)"

definition pop_kind :: "i64 \<Rightarrow> i64" where
  "pop_kind stack = signed_drop_bit BITS_PER_BLOCK stack"

definition top_kind :: "i64 \<Rightarrow> i64" where
  "top_kind stack = stack AND KIND_MASK"

text \<open>The shift to entry \<open>n\<close>, for \<open>n > 0\<close>.\<close>

definition kind_shift :: "nat \<Rightarrow> nat" where
  "kind_shift n = BITS_PER_BLOCK * (n - 1) mod 64"

definition peek_kind :: "i64 \<Rightarrow> nat \<Rightarrow> i64" where
  "peek_kind stack n = signed_drop_bit (kind_shift n) stack AND KIND_MASK"

text \<open>A word that is not negative reads the same signed and unsigned.\<close>

lemma uint_eq_sint: "0 \<le> sint w \<Longrightarrow> uint w = sint w" for w :: i64
proof -
  assume "0 \<le> sint w"
  moreover have "sint w < 2 ^ 64" using sint_lt [of w] by simp
  ultimately show ?thesis by (simp add: uint_sint take_bit_int_eq_self)
qed

lemma unat_eq_sint: "0 \<le> sint w \<Longrightarrow> int (unat w) = sint w" for w :: i64
  by (simp add: uint_eq_sint)

lemma sint_pop: "sint (pop_kind s) = sint s div 8"
  by (simp add: pop_kind_def BITS_PER_BLOCK_def sint_signed_drop_bit_eq drop_bit_eq_div)

text \<open>Popping makes a positive number smaller, so loops over positive stacks end.\<close>

lemma pop_kind_less [termination_simp]: "0 <s s \<Longrightarrow> unat (pop_kind s) < unat s"
proof -
  assume "0 <s s"
  then have pos: "0 < sint s" by (simp add: word_sless_alt)
  then have "int (unat (pop_kind s)) < int (unat s)"
    using unat_eq_sint [of s] unat_eq_sint [of "pop_kind s"] by (simp add: sint_pop)
  then show ?thesis by linarith
qed

function stack_depth :: "i64 \<Rightarrow> nat" where
  "stack_depth stack = (if 0 <s stack then Suc (stack_depth (pop_kind stack)) else 0)"
  by auto
termination by (relation "measure unat") (simp_all add: pop_kind_less)

declare stack_depth.simps [simp del]

definition swap_kinds :: "i64 \<Rightarrow> nat \<Rightarrow> i64" where
  "swap_kinds stack n =
    (if n < 2 then stack
     else
       let to_swap = peek_kind stack n;
           top = top_kind stack;
           shift = kind_shift n;
           replaced_low = (stack AND NOT (push_bit shift KIND_MASK)) OR push_bit shift top
       in (replaced_low AND NOT KIND_MASK) OR to_swap)"

text \<open>
  \<open>while stack > level_max_stack { stack = pop_kind(stack); }\<close>. The loop need not end: a
  negative limit is never reached by a stack that is 0 or overflowed.
\<close>

partial_function (option) pop_above :: "i64 \<Rightarrow> i64 \<Rightarrow> i64 option" where
  "pop_above limit stack =
    (if limit <s stack then pop_above limit (pop_kind stack) else Some stack)"

declare pop_above.simps [code]

definition pop_to_level :: "i64 \<Rightarrow> nat \<Rightarrow> i64 option" where
  "pop_to_level stack level =
    (if level = 0 then Some EMPTY_STACK
     else pop_above (push_bit (kind_shift level) KIND_MASK) stack)"

section \<open>Comparing stacks\<close>

definition compatible_kind :: "i64 \<Rightarrow> i64 \<Rightarrow> bool" where
  "compatible_kind k_from k_to =
    (if k_to = 0 then False
     else if k_to = kind_bits K_Object then k_from \<noteq> kind_bits K_Null
     else if k_to = kind_bits K_Null then True
     else k_from = k_to)"

text \<open>
  The loops run on stacks that are not negative, after the test at the start of
  \<open>compatible_stack\<close>; there \<open>stack != 0\<close> is \<open>stack > 0\<close>.
\<close>

function pop_down :: "i64 \<Rightarrow> i64 \<Rightarrow> i64" where
  "pop_down k_from k_to =
    (if 0 <s k_from \<and> k_to <s k_from then pop_down (pop_kind k_from) k_to else k_from)"
  by auto
termination by (relation "measure (unat \<circ> fst)") (simp_all add: pop_kind_less)

function compatible_entries :: "i64 \<Rightarrow> i64 \<Rightarrow> bool" where
  "compatible_entries k_from k_to =
    (if 0 <s k_from then
       compatible_kind (top_kind k_from) (top_kind k_to)
       \<and> compatible_entries (pop_kind k_from) (pop_kind k_to)
     else k_to = 0)"
  by auto
termination by (relation "measure (unat \<circ> fst)") (simp_all add: pop_kind_less)

declare pop_down.simps [simp del] compatible_entries.simps [simp del]

definition compatible_stack :: "i64 \<Rightarrow> i64 \<Rightarrow> bool" where
  "compatible_stack from_stack to_stack =
    (if from_stack <s 0 \<or> to_stack <s 0 then False
     else compatible_entries (pop_down from_stack to_stack) to_stack)"

text \<open>The slots of a join, top first; \<open>None\<close> is a conflict.\<close>

definition join_kind :: "i64 \<Rightarrow> i64 \<Rightarrow> i64 option" where
  "join_kind ka kb =
    (if ka = kb then Some ka
     else if ka \<in> {kind_bits K_Iterator, kind_bits K_Object} \<and> kb \<in> {kind_bits K_Iterator, kind_bits K_Object}
       then Some (kind_bits K_Object)
     else None)"

function join_slots :: "i64 \<Rightarrow> i64 \<Rightarrow> i64 list \<Rightarrow> i64 list option" where
  "join_slots a b slots =
    (if 0 <s a then
       (case join_kind (top_kind a) (top_kind b) of
          None \<Rightarrow> None
        | Some j \<Rightarrow> join_slots (pop_kind a) (pop_kind b) (slots @ [j]))
     else Some slots)"
  by auto
termination by (relation "measure (unat \<circ> fst)") (simp_all add: pop_kind_less)

declare join_slots.simps [simp del]

definition join_stacks :: "i64 \<Rightarrow> i64 \<Rightarrow> i64" where
  "join_stacks a b =
    (if a <s 0 \<or> b <s 0 \<or> stack_depth a \<noteq> stack_depth b then OVERFLOWED
     else case join_slots a b [] of
            None \<Rightarrow> OVERFLOWED
          | Some slots \<Rightarrow> fold (\<lambda>k out. push_kind out (kind_of k)) (rev slots) EMPTY_STACK)"

text \<open>Why a target cannot be reached.\<close>

definition explain_incompatible_stack :: "i64 \<Rightarrow> string" where
  "explain_incompatible_stack to_stack =
    (if to_stack = OVERFLOWED then ''stack is too deep to analyze''
     else if to_stack = UNINITIALIZED then
       ''can't jump into an exception handler, or code may be unreachable''
     else if top_kind to_stack = kind_bits K_Except then
       ''can't jump into an 'except' block as there's no exception''
     else if top_kind to_stack = kind_bits K_Iterator then ''can't jump into the body of a for loop''
     else ''incompatible stacks'')"

end
