(* ===== verification/Jump_Stacks.thy ===== *)
theory Jump_Stacks
  imports Jump_Kinds
begin

text \<open>
  The packed stacks as lists of kinds, top first. \<open>packed ks\<close> is the word for \<open>ks\<close> (or
  \<open>OVERFLOWED\<close> when it has more than 21 entries); every operation on words is the list operation.
\<close>

section \<open>One entry\<close>

lemmas sless_sint [simp] = word_sless_alt

lemma sint_OVERFLOWED [simp]: "sint OVERFLOWED = - 1"
  by (simp add: OVERFLOWED_def)

lemma sint_UNINITIALIZED [simp]: "sint UNINITIALIZED = - 2"
  by (simp add: UNINITIALIZED_def)

lemma sint_EMPTY [simp]: "sint EMPTY_STACK = 0"
  by (simp add: EMPTY_STACK_def)

lemma sint_inject: "sint a = sint b \<longleftrightarrow> a = b" for a b :: i64
  using word_eq_iff_signed by metis

lemma sint_i64_less: "sint s < 9223372036854775808" for s :: i64
  using sint_lt [of s] by simp

lemma uint_top: "uint (top_kind s) = uint s mod 8"
proof -
  have "top_kind s = take_bit 3 s"
    by (simp only: top_kind_def KIND_MASK_def take_bit_eq_mask mask_eq_exp_minus_1) simp
  then have "uint (top_kind s) = take_bit 3 (uint s)" by (simp only: unsigned_take_bit_eq)
  then show ?thesis by (simp add: take_bit_eq_mod)
qed

lemma sint_small: "uint w < 2 ^ 63 \<Longrightarrow> sint w = uint w" for w :: i64
  unfolding sint_uint by (rule signed_take_bit_int_eq_self) (simp_all add: order_trans [OF _ uint_ge_0])

lemma sint_top_bits: "0 \<le> sint s \<Longrightarrow> sint (top_kind s) = sint s mod 8"
  using sint_small [of "top_kind s"] by (simp add: uint_top uint_eq_sint)

lemma stack_eqI: "0 \<le> sint a \<Longrightarrow> 0 \<le> sint b \<Longrightarrow> top_kind a = top_kind b \<Longrightarrow> pop_kind a = pop_kind b \<Longrightarrow> a = b"
proof -
  assume nn: "0 \<le> sint a" "0 \<le> sint b" and eq: "top_kind a = top_kind b" "pop_kind a = pop_kind b"
  have "sint a mod 8 = sint b mod 8" using sint_top_bits [OF nn(1)] sint_top_bits [OF nn(2)] eq(1) by simp
  moreover have "sint a div 8 = sint b div 8" using eq(2) by (metis sint_pop)
  ultimately have "sint a = sint b" by (metis div_mult_mod_eq)
  then show ?thesis by (simp add: sint_inject)
qed

fun kind_num :: "Kind \<Rightarrow> int" where
  "kind_num K_Iterator = 1"
| "kind_num K_Except = 2"
| "kind_num K_Object = 3"
| "kind_num K_Null = 4"
| "kind_num K_Lasti = 5"

lemma uint_kind_bits [simp]: "uint (kind_bits k) = kind_num k"
  by (cases k) simp_all

lemma kind_num_range: "0 < kind_num k" "kind_num k < 8"
  by (cases k; simp)+

lemma kind_bits_inject [simp]: "kind_bits k = kind_bits l \<longleftrightarrow> k = l"
  by (cases k; cases l) simp_all

lemma kind_of_bits [simp]: "kind_of (kind_bits k) = k"
  by (cases k) (simp_all add: kind_of_def)

lemma WILL_OVERFLOW_eq: "WILL_OVERFLOW = 0x1000000000000000"
  by (simp add: WILL_OVERFLOW_def MAX_STACK_ENTRIES_def BITS_PER_BLOCK_def push_bit_eq_mult)

lemma push_fits:
  assumes "0 \<le> sint s" "sint s < 2 ^ 60"
  shows "sint (push_kind s k) = 8 * sint s + kind_num k"
proof -
  have u: "uint s = sint s" using assms(1) by (rule uint_eq_sint)
  have "\<not> WILL_OVERFLOW \<le> s"
    using assms(2) by (simp add: WILL_OVERFLOW_eq word_le_def u)
  then have p: "push_kind s k = push_bit 3 s OR kind_bits k"
    using assms(1) by (simp add: push_kind_def BITS_PER_BLOCK_def)
  have "uint (push_bit 3 s) = take_bit 64 (push_bit 3 (sint s))"
    by (simp only: unsigned_push_bit_eq u) simp
  also have "\<dots> = 8 * sint s"
    using assms by (simp only: push_bit_eq_mult take_bit_eq_mod) simp
  finally have "uint (push_bit 3 s) = 8 * sint s" .
  moreover have "(8 * sint s) OR kind_num k = 8 * sint s + kind_num k"
  proof (rule disjunctive_add_eq_or [symmetric])
    have "8 * sint s = push_bit 3 (sint s)" by (simp add: push_bit_eq_mult)
    moreover have "kind_num k = take_bit 3 (kind_num k)"
      using kind_num_range [of k] by (simp add: take_bit_int_eq_self)
    ultimately show "8 * sint s AND kind_num k = 0"
      by (metis (no_types) bit_eqI bit_0_eq bit_and_iff bit_push_bit_iff bit_take_bit_iff bot_apply bot_bool_def not_le)
  qed
  ultimately have "uint (push_kind s k) = 8 * sint s + kind_num k"
    by (simp add: p unsigned_or_eq)
  moreover have "8 * sint s + kind_num k < 2 ^ 63" using assms(2) kind_num_range(2) [of k] by simp
  ultimately show ?thesis using sint_small [of "push_kind s k"] by simp
qed

lemma push_full: "2 ^ 60 \<le> sint s \<Longrightarrow> push_kind s k = OVERFLOWED"
  by (simp add: push_kind_def WILL_OVERFLOW_eq word_le_def uint_eq_sint)

lemma push_negative [simp]: "sint s < 0 \<Longrightarrow> push_kind s k = OVERFLOWED"
  by (simp add: push_kind_def)

lemma push_OVERFLOWED [simp]: "push_kind OVERFLOWED k = OVERFLOWED"
  by simp

lemma pop_OVERFLOWED [simp]: "pop_kind OVERFLOWED = OVERFLOWED"
  by (simp add: pop_kind_def OVERFLOWED_def)

section \<open>Lists of kinds\<close>

definition packed :: "Kind list \<Rightarrow> i64" where
  "packed ks = foldr (\<lambda>k s. push_kind s k) ks EMPTY_STACK"

lemma packed_Nil [simp]: "packed [] = EMPTY_STACK"
  by (simp add: packed_def)

lemma push_packed [simp]: "push_kind (packed ks) k = packed (k # ks)"
  by (simp add: packed_def)

text \<open>The value of a list of kinds, base 8.\<close>

fun kinds_value :: "Kind list \<Rightarrow> int" where
  "kinds_value [] = 0"
| "kinds_value (k # ks) = 8 * kinds_value ks + kind_num k"

lemma kinds_value_nonneg: "0 \<le> kinds_value ks"
  using kind_num_range(1) by (induction ks) (simp_all add: order_less_imp_le)

lemma kinds_value_less: "kinds_value ks < 8 ^ length ks"
proof (induction ks)
  case (Cons k ks)
  then show ?case using kind_num_range(2) [of k] by simp
qed simp

lemma kinds_value_pos: "ks \<noteq> [] \<Longrightarrow> 8 ^ (length ks - 1) \<le> kinds_value ks"
proof (induction ks)
  case (Cons k ks)
  then show ?case using kind_num_range(1) [of k] by (cases ks) auto
qed simp

lemma kinds_value_upper: "ks \<noteq> [] \<Longrightarrow> kinds_value ks < 6 * 8 ^ (length ks - 1)"
proof (induction ks)
  case (Cons k ks)
  have "kind_num k \<le> 5" by (cases k) simp_all
  then show ?case using Cons by (cases ks) auto
qed simp

lemma sint_packed: "length ks \<le> 21 \<Longrightarrow> sint (packed ks) = kinds_value ks"
proof (induction ks)
  case (Cons k ks)
  then have "sint (packed ks) = kinds_value ks" "length ks \<le> 20" by simp_all
  moreover have "kinds_value ks < 2 ^ 60"
  proof -
    have "(8::int) ^ length ks \<le> 8 ^ 20" using \<open>length ks \<le> 20\<close> by (intro power_increasing) simp_all
    then show ?thesis using kinds_value_less [of ks] by simp
  qed
  ultimately show ?case
    using push_fits [of "packed ks" k] kinds_value_nonneg [of ks] by simp
qed simp

lemma packed_full: "21 < length ks \<Longrightarrow> packed ks = OVERFLOWED"
proof (induction ks)
  case (Cons k ks)
  show ?case
  proof (cases "21 < length ks")
    case True
    then show ?thesis using Cons.IH push_packed [of ks k] by simp
  next
    case False
    then have l: "length ks = 21" using Cons.prems by simp
    then have "2 ^ 60 \<le> sint (packed ks)"
      using kinds_value_pos [of ks] by (simp add: sint_packed) (metis kinds_value_pos l list.size(3) diff_Suc_1 numeral_eq_Suc zero_neq_numeral)
    then show ?thesis using push_full [of "packed ks" k] by simp
  qed
qed simp

lemma pop_packed: "length ks \<le> 20 \<Longrightarrow> pop_kind (packed (k # ks)) = packed ks"
  using kind_num_range [of k]
  by (subst sint_inject [symmetric]) (simp add: sint_pop sint_packed)

lemma top_packed: "length ks \<le> 20 \<Longrightarrow> top_kind (packed (k # ks)) = kind_bits k"
proof -
  assume l: "length ks \<le> 20"
  then have "0 \<le> sint (packed (k # ks))"
    using kinds_value_nonneg [of "k # ks"] sint_packed [of "k # ks"] by simp
  then have "sint (top_kind (packed (k # ks))) = kind_num k"
    using l kind_num_range [of k] sint_packed [of "k # ks"] by (simp add: sint_top_bits)
  moreover have "sint (kind_bits k) = kind_num k"
    using kind_num_range [of k] sint_small [of "kind_bits k"] by simp
  ultimately show ?thesis by (simp add: sint_inject [symmetric])
qed

lemma packed_positive: "length ks \<le> 20 \<Longrightarrow> 0 < sint (packed (k # ks))"
  using kind_num_range(1) [of k] kinds_value_nonneg [of ks] sint_packed [of "k # ks"] by simp

lemma packed_nonneg: "length ks \<le> 21 \<Longrightarrow> 0 \<le> sint (packed ks)"
  by (simp add: sint_packed kinds_value_nonneg)

text \<open>The facts about the entries of a list that fits.\<close>

lemmas packed_entry = pop_packed top_packed packed_positive

lemma stack_depth_packed: "length ks \<le> 21 \<Longrightarrow> stack_depth (packed ks) = length ks"
proof (induction ks)
  case Nil
  show ?case by (simp add: stack_depth.simps)
next
  case (Cons k ks)
  then show ?case by (subst stack_depth.simps) (simp add: packed_entry)
qed

lemma packed_inject:
  "length ks \<le> 21 \<Longrightarrow> length ls \<le> 21 \<Longrightarrow> packed ks = packed ls \<Longrightarrow> ks = ls"
proof (induction ks arbitrary: ls)
  case Nil
  show ?case
  proof (cases ls)
    case (Cons l ls')
    then have "0 < sint (packed ls)" using packed_positive [of ls' l] Nil by simp
    then show ?thesis using Nil by (metis less_irrefl packed_Nil sint_EMPTY)
  qed simp
next
  case (Cons k ks)
  then obtain l ls' where ls: "ls = l # ls'" using packed_positive [of ks k] by (cases ls) auto
  have l: "length ks \<le> 20" "length ls' \<le> 20" using Cons.prems ls by simp_all
  have "kind_bits k = kind_bits l" "packed ks = packed ls'"
    using top_packed [OF l(1), of k] top_packed [OF l(2), of l] pop_packed [OF l(1), of k]
      pop_packed [OF l(2), of l] Cons.prems(3) ls by metis+
  then show ?case using Cons.IH [of ls'] l ls by simp
qed

text \<open>Several entries.\<close>

lemma pop_EMPTY [simp]: "pop_kind EMPTY_STACK = EMPTY_STACK"
  by (simp add: pop_kind_def EMPTY_STACK_def)

lemma pops_packed: "length ks \<le> 21 \<Longrightarrow> (pop_kind ^^ m) (packed ks) = packed (drop m ks)"
proof (induction m arbitrary: ks)
  case (Suc m)
  show ?case
  proof (cases ks)
    case Nil
    then show ?thesis using Suc.IH [of "[]"] by (simp add: funpow_swap1)
  next
    case (Cons k ks')
    then have "pop_kind (packed ks) = packed ks'" using Suc.prems pop_packed by simp
    then show ?thesis using Suc.IH [of ks'] Suc.prems Cons by (simp add: funpow_swap1)
  qed
qed simp

lemma pops_OVERFLOWED [simp]: "(pop_kind ^^ m) OVERFLOWED = OVERFLOWED"
  by (induction m) simp_all

lemma pushes_packed: "((\<lambda>s. push_kind s k) ^^ m) (packed ks) = packed (replicate m k @ ks)"
  by (induction m) simp_all

lemma pushes_OVERFLOWED [simp]: "((\<lambda>s. push_kind s k) ^^ m) OVERFLOWED = OVERFLOWED"
  by (induction m) simp_all

lemma pops_shift: "(pop_kind ^^ m) s = signed_drop_bit (3 * m) s"
  by (induction m) (simp_all add: pop_kind_def BITS_PER_BLOCK_def)

lemma peek_pops: "0 < n \<Longrightarrow> n \<le> 21 \<Longrightarrow> peek_kind s n = top_kind ((pop_kind ^^ (n - 1)) s)"
  by (simp add: peek_kind_def top_kind_def pops_shift kind_shift_def BITS_PER_BLOCK_def)

lemma bit_kind_bits: "bit (kind_bits k) i \<Longrightarrow> i < 3"
proof -
  have "kind_bits k = take_bit 3 (kind_bits k)" by (cases k) simp_all
  then show "bit (kind_bits k) i \<Longrightarrow> i < 3" by (metis bit_take_bit_iff)
qed

lemma bit_packed:
  "length ks \<le> 21 \<Longrightarrow> bit (packed ks) i \<longleftrightarrow> i div 3 < length ks \<and> bit (kind_bits (ks ! (i div 3))) (i mod 3)"
proof (induction ks arbitrary: i)
  case Nil
  then show ?case by (simp add: EMPTY_STACK_def)
next
  case (Cons k ks)
  have "kinds_value ks < 8 ^ 20"
    using kinds_value_less [of ks] power_increasing [of "length ks" 20 "8 :: int"] Cons.prems by simp
  then have fits: "0 \<le> sint (packed ks)" "sint (packed ks) < 2 ^ 60"
    using Cons.prems by (simp_all add: sint_packed kinds_value_nonneg)
  then have p: "packed (k # ks) = push_bit 3 (packed ks) OR kind_bits k"
    by (simp add: packed_def push_kind_def WILL_OVERFLOW_eq BITS_PER_BLOCK_def word_le_def uint_eq_sint)
  have "bit (packed (k # ks)) i \<longleftrightarrow> 3 \<le> i \<and> i < 64 \<and> bit (packed ks) (i - 3) \<or> bit (kind_bits k) i"
    unfolding p by (simp add: bit_simps)
  also have "\<dots> \<longleftrightarrow> i div 3 < length (k # ks) \<and> bit (kind_bits ((k # ks) ! (i div 3))) (i mod 3)"
  proof (cases "i < 3")
    case False
    then obtain j where j: "i = j + 3" by (metis add.commute le_Suc_ex not_less)
    then have "j div 3 < length ks \<Longrightarrow> i < 64" using Cons.prems by simp
    moreover have "bit (packed ks) j \<longleftrightarrow> j div 3 < length ks \<and> bit (kind_bits (ks ! (j div 3))) (j mod 3)"
      using Cons by simp
    moreover have "\<not> bit (kind_bits k) i" using bit_kind_bits False by blast
    moreover have "(j + 3) div 3 = Suc (j div 3)" by simp
    ultimately show ?thesis unfolding j by auto
  qed simp
  finally show ?case .
qed

lemma bit_KIND_MASK: "bit KIND_MASK j \<longleftrightarrow> j < 3"
proof -
  have m: "KIND_MASK = mask 3" by (simp add: KIND_MASK_def mask_eq_exp_minus_1)
  show ?thesis unfolding m bit_mask_iff by auto
qed

lemma swap_packed:
  assumes "2 \<le> n" "n \<le> length ks" "length ks \<le> 21"
  shows "swap_kinds (packed ks) n = packed (ks[0 := ks ! (n - 1), n - 1 := ks ! 0])"
proof (rule bit_word_eqI)
  fix i
  assume i: "i < LENGTH(64)"
  obtain k ls where ks: "ks = k # ls" using assms by (cases ks) auto
  have peek: "peek_kind (packed ks) n = kind_bits (ks ! (n - 1))"
  proof -
    have "drop (n - 1) ks = ks ! (n - 1) # drop n ks"
      using assms Cons_nth_drop_Suc [of "n - 1" ks] by simp
    then show ?thesis using assms top_packed [of "drop n ks" "ks ! (n - 1)"]
      by (simp add: peek_pops pops_packed)
  qed
  have topk: "top_kind (packed ks) = kind_bits (ks ! 0)"
    using top_packed [of ls k] assms by (simp add: ks)
  have sh: "kind_shift n = 3 * (n - 1)" using assms by (simp add: kind_shift_def BITS_PER_BLOCK_def)
  have swap: "bit (swap_kinds (packed ks) n) i \<longleftrightarrow>
      (bit (packed ks) i \<and> \<not> (3 * (n - 1) \<le> i \<and> i - 3 * (n - 1) < 3)
       \<or> 3 * (n - 1) \<le> i \<and> bit (kind_bits (ks ! 0)) (i - 3 * (n - 1))) \<and> \<not> i < 3
      \<or> bit (kind_bits (ks ! (n - 1))) i"
    using assms(1) i by (simp add: swap_kinds_def peek topk sh Let_def bit_simps bit_KIND_MASK)
  show "bit (swap_kinds (packed ks) n) i \<longleftrightarrow> bit (packed (ks[0 := ks ! (n - 1), n - 1 := ks ! 0])) i"
  proof (cases "i < 3")
    case True
    then have "i div 3 = 0" "i mod 3 = i" by simp_all
    moreover have "ks \<noteq> []" using ks by simp
    ultimately show ?thesis using assms True by (simp add: swap bit_packed nth_list_update)
  next
    case False
    then have no_low: "\<not> bit (kind_bits l) i" for l using bit_kind_bits by blast
    show ?thesis
    proof (cases "i div 3 = n - 1")
      case True
      then have "3 * (n - 1) \<le> i" "i - 3 * (n - 1) = i mod 3"
        by (metis div_times_less_eq_dividend mult.commute, metis minus_mult_div_eq_mod)
      then show ?thesis
        using assms False True no_low by (auto simp add: swap bit_packed)
    next
      case other: False
      then have "\<not> (3 * (n - 1) \<le> i \<and> i - 3 * (n - 1) < 3)" by auto
      then show ?thesis
        using assms False other no_low bit_kind_bits by (auto simp add: swap bit_packed nth_list_update)
    qed
  qed
qed

section \<open>Bounds\<close>

text \<open>The stacks the analysis works with: overflowed, or not negative.\<close>

lemma bounded_push: "- 1 \<le> sint (push_kind s k)"
proof (cases "0 \<le> sint s \<and> sint s < 2 ^ 60")
  case True
  then show ?thesis using push_fits [of s k] kind_num_range [of k] by simp
next
  case False
  then show ?thesis by (cases "sint s < 0") (simp_all add: push_full)
qed

lemma bounded_pop: "- 1 \<le> sint s \<Longrightarrow> - 1 \<le> sint (pop_kind s)"
  by (simp add: sint_pop)

lemma bounded_pops: "- 1 \<le> sint s \<Longrightarrow> - 1 \<le> sint ((pop_kind ^^ m) s)"
  by (induction m) (simp_all add: bounded_pop)

lemma bounded_pushes: "- 1 \<le> sint s \<Longrightarrow> - 1 \<le> sint (((\<lambda>s. push_kind s k) ^^ m) s)"
  by (cases m) (simp_all add: bounded_push)

lemma sint_nonneg_iff: "0 \<le> sint s \<longleftrightarrow> \<not> bit s 63" for s :: i64
  using bit_last_iff [of s] by auto

lemma minus_one_or_nonneg: "- 1 \<le> sint s \<Longrightarrow> s = OVERFLOWED \<or> 0 \<le> sint s"
  using sint_inject [of s OVERFLOWED] by auto

lemma swap_OVERFLOWED: "swap_kinds OVERFLOWED n = OVERFLOWED"
proof (cases "n < 2")
  case False
  have "peek_kind OVERFLOWED n = KIND_MASK" "top_kind OVERFLOWED = KIND_MASK"
    by (simp_all add: peek_kind_def top_kind_def OVERFLOWED_def)
  then show ?thesis using False
    by (auto simp: swap_kinds_def Let_def OVERFLOWED_def bit_simps intro!: bit_word_eqI)
qed (simp add: swap_kinds_def)

lemma bounded_swap:
  assumes "- 1 \<le> sint s" "n \<le> 21"
  shows "- 1 \<le> sint (swap_kinds s n)"
proof (cases "n < 2 \<or> s = OVERFLOWED")
  case True
  then show ?thesis
  proof
    assume "n < 2"
    then show ?thesis using assms by (simp add: swap_kinds_def)
  qed (simp add: swap_OVERFLOWED)
next
  case False
  then have s: "\<not> bit s 63" using minus_one_or_nonneg [OF assms(1)] by (simp add: sint_nonneg_iff)
  have "\<not> bit (swap_kinds s n) 63"
    using False s assms(2)
    by (auto simp: swap_kinds_def Let_def peek_kind_def top_kind_def bit_simps bit_KIND_MASK kind_shift_def BITS_PER_BLOCK_def)
  then have "0 \<le> sint (swap_kinds s n)" by (simp add: sint_nonneg_iff)
  then show ?thesis by simp
qed

section \<open>Popping to a level\<close>

lemma pop_above_unfold:
  "pop_above l s = (if sint l < sint s then pop_above l (pop_kind s) else Some s)"
  by (subst pop_above.simps) simp

lemma pop_above_returns:
  assumes "0 \<le> sint l" "- 1 \<le> sint s"
  shows "\<exists>r. pop_above l s = Some r \<and> - 1 \<le> sint r"
  using assms(2)
proof (induction "unat s" arbitrary: s rule: less_induct)
  case less
  show ?case
  proof (cases "sint l < sint s")
    case True
    then have "0 < sint s" using assms(1) by simp
    then have "unat (pop_kind s) < unat s" by (simp add: pop_kind_less)
    then show ?thesis using less True bounded_pop by (subst pop_above_unfold) auto
  qed (use less in \<open>subst pop_above_unfold, auto\<close>)
qed

lemma pop_above_diverges:
  assumes "sint l < - 1" "- 1 \<le> sint s"
  shows "pop_above l s = None"
proof (rule ccontr)
  have "pop_above l s = Some r \<Longrightarrow> sint l < - 1 \<longrightarrow> - 1 \<le> sint s \<longrightarrow> False" for r
    by (rule pop_above.raw_induct [where P = "\<lambda>l s r. sint l < - 1 \<longrightarrow> - 1 \<le> sint s \<longrightarrow> False"])
      (auto split: if_splits dest: bounded_pop)
  then show "pop_above l s \<noteq> None \<Longrightarrow> False" using assms by blast
qed

text \<open>The limit of a level: the largest stack of that many entries.\<close>

lemma level_limit:
  assumes "0 < n" "n \<le> 21"
  shows "sint (push_bit (kind_shift n) KIND_MASK) = 7 * 8 ^ (n - 1)"
proof -
  have "(8::int) ^ (n - 1) \<le> 8 ^ 20" using assms by (intro power_increasing) simp_all
  then have b: "7 * (8::int) ^ (n - 1) < 2 ^ 63" by simp
  have sh: "kind_shift n = 3 * (n - 1)" using assms by (simp add: kind_shift_def BITS_PER_BLOCK_def)
  have "push_bit (3 * (n - 1)) 7 = 7 * (8::int) ^ (n - 1)" by (simp add: push_bit_eq_mult power_mult)
  then have "uint (push_bit (kind_shift n) KIND_MASK) = take_bit 64 (7 * 8 ^ (n - 1))"
    unfolding sh by (simp only: unsigned_push_bit_eq) (simp add: KIND_MASK_def)
  also have "\<dots> = 7 * 8 ^ (n - 1)" using b by (intro take_bit_int_eq_self) simp_all
  finally show ?thesis using b sint_small by metis
qed

lemma level_limit_22: "sint (push_bit (kind_shift 22) KIND_MASK) = - (2 ^ 63)"
  by (simp add: kind_shift_def BITS_PER_BLOCK_def KIND_MASK_def)

lemma pop_above_packed:
  assumes "0 < n" "n \<le> 21" "length ks \<le> 21"
  shows "pop_above (push_bit (kind_shift n) KIND_MASK) (packed ks) = Some (packed (drop (length ks - n) ks))"
  using assms(3)
proof (induction ks)
  case Nil
  then show ?case using level_limit [OF assms(1, 2)] by (subst pop_above_unfold) simp
next
  case (Cons k ks)
  show ?case
  proof (cases "length ks < n")
    case True
    have "(8::int) ^ length ks \<le> 8 ^ (n - 1)" using True assms(1) by (intro power_increasing) simp_all
    moreover have "sint (packed (k # ks)) < 6 * 8 ^ length ks"
      using kinds_value_upper [of "k # ks"] Cons.prems sint_packed [of "k # ks"] by simp
    moreover have "(0::int) \<le> 8 ^ (n - 1)" by simp
    ultimately have "sint (packed (k # ks)) \<le> 7 * 8 ^ (n - 1)" by linarith
    then show ?thesis using True level_limit [OF assms(1, 2)] by (subst pop_above_unfold) simp
  next
    case False
    have "(8::int) ^ n \<le> 8 ^ length ks" using False by (intro power_increasing) simp_all
    moreover have "(8::int) ^ n = 8 * 8 ^ (n - 1)" using assms(1) by (cases n) simp_all
    moreover have "(0::int) < 8 ^ (n - 1)" by simp
    moreover have "(8::int) ^ length ks \<le> sint (packed (k # ks))"
      using kinds_value_pos [of "k # ks"] Cons.prems sint_packed [of "k # ks"] by simp
    ultimately have "7 * 8 ^ (n - 1) < sint (packed (k # ks))" by linarith
    then show ?thesis using False Cons level_limit [OF assms(1, 2)] pop_packed [of ks k]
      by (subst pop_above_unfold) (simp add: Suc_diff_le)
  qed
qed

section \<open>Compatible stacks\<close>

text \<open>A slot of kind \<open>f\<close> may be used where one of kind \<open>t\<close> is expected.\<close>

definition kind_fits :: "Kind \<Rightarrow> Kind \<Rightarrow> bool" where
  "kind_fits f t \<longleftrightarrow> t = K_Null \<or> f = t \<or> t = K_Object \<and> f \<noteq> K_Null"

lemma compatible_bits: "compatible_kind (kind_bits f) (kind_bits t) \<longleftrightarrow> kind_fits f t"
  by (cases f; cases t) (simp_all add: compatible_kind_def kind_fits_def)

lemma top_EMPTY [simp]: "top_kind EMPTY_STACK = 0"
  by (simp add: top_kind_def EMPTY_STACK_def)

lemma compatible_entries_packed:
  "length f \<le> 21 \<Longrightarrow> length t \<le> 21 \<Longrightarrow> compatible_entries (packed f) (packed t) \<longleftrightarrow> list_all2 kind_fits f t"
proof (induction f arbitrary: t)
  case Nil
  show ?case
  proof (cases t)
    case (Cons k t')
    then have "0 < sint (packed t)" using Nil.prems packed_positive by simp
    then show ?thesis using Cons by (subst compatible_entries.simps) auto
  qed (subst compatible_entries.simps, simp add: EMPTY_STACK_def)
next
  case (Cons k f)
  then have pos: "0 < sint (packed (k # f))" using packed_positive by simp
  show ?case
  proof (cases t)
    case Nil
    then show ?thesis using pos
      by (subst compatible_entries.simps) (simp add: compatible_kind_def)
  next
    case (Cons l t')
    then show ?thesis using pos Cons.prems Cons.IH
      by (subst compatible_entries.simps) (simp add: packed_entry compatible_bits)
  qed
qed

lemma pop_down_packed:
  assumes "length f \<le> 21" "length t \<le> 21"
  shows "\<exists>m \<le> length f. pop_down (packed f) (packed t) = packed (drop m f)
    \<and> kinds_value (drop m f) \<le> kinds_value t \<and> (\<forall>j < m. kinds_value t < kinds_value (drop j f))"
  using assms(1)
proof (induction f)
  case Nil
  then show ?case using kinds_value_nonneg [of t] by (subst pop_down.simps) simp
next
  case (Cons k f)
  have v: "sint (packed (k # f)) = kinds_value (k # f)" "sint (packed t) = kinds_value t"
    using Cons.prems assms(2) by (simp_all only: sint_packed)
  show ?case
  proof (cases "kinds_value t < kinds_value (k # f)")
    case True
    obtain m where m: "m \<le> length f" "pop_down (packed f) (packed t) = packed (drop m f)"
      "kinds_value (drop m f) \<le> kinds_value t" "\<forall>j < m. kinds_value t < kinds_value (drop j f)"
      using Cons by auto
    have "pop_down (packed (k # f)) (packed t) = pop_down (packed f) (packed t)"
      using True Cons.prems v pop_packed [of f k] packed_positive [of f k]
      by (subst pop_down.simps) (simp del: kinds_value.simps)
    moreover have "\<forall>j < Suc m. kinds_value t < kinds_value (drop j (k # f))"
      using m(4) True by (simp add: All_less_Suc2 del: kinds_value.simps)
    ultimately show ?thesis using m by (intro exI [of _ "Suc m"]) simp
  next
    case False
    then have "pop_down (packed (k # f)) (packed t) = packed (k # f)"
      using v by (subst pop_down.simps) (simp del: kinds_value.simps)
    then show ?thesis using False by (intro exI [of _ 0]) simp
  qed
qed

text \<open>
  \<open>compatible_stack\<close> asks of the bottom entries that they fit one by one, and that their value
  is not larger.
\<close>

lemma compatible_packed:
  assumes "length f \<le> 21" "length t \<le> 21"
  shows "compatible_stack (packed f) (packed t) \<longleftrightarrow>
    length t \<le> length f \<and> list_all2 kind_fits (drop (length f - length t) f) t
    \<and> kinds_value (drop (length f - length t) f) \<le> kinds_value t"
proof -
  obtain m where m: "m \<le> length f" "pop_down (packed f) (packed t) = packed (drop m f)"
    "kinds_value (drop m f) \<le> kinds_value t" "\<forall>j < m. kinds_value t < kinds_value (drop j f)"
    using pop_down_packed [OF assms] by blast
  have nn: "0 \<le> sint (packed f)" "0 \<le> sint (packed t)" using assms by (simp_all add: packed_nonneg)
  then have c: "compatible_stack (packed f) (packed t) \<longleftrightarrow> list_all2 kind_fits (drop m f) t"
    using assms by (simp add: compatible_stack_def m(2) compatible_entries_packed)
  have a: "m = length f - length t"
    if "length t \<le> length f" "kinds_value (drop (length f - length t) f) \<le> kinds_value t"
  proof (rule ccontr)
    assume "m \<noteq> length f - length t"
    moreover have "\<not> length f - length t < m" using m(4) that(2) by auto
    ultimately have "length t < length (drop m f)" using that(1) by simp
    then have "(8::int) ^ length t \<le> 8 ^ (length (drop m f) - 1)" by (intro power_increasing) auto
    also have "\<dots> \<le> kinds_value (drop m f)" using \<open>length t < length (drop m f)\<close>
      by (intro kinds_value_pos) auto
    finally show False using m(3) kinds_value_less [of t] by simp
  qed
  have b: "m = length f - length t \<and> length t \<le> length f" if "list_all2 kind_fits (drop m f) t"
    using list_all2_lengthD [OF that] m(1) by (metis diff_diff_cancel diff_le_self length_drop)
  show ?thesis using a b c m(3) by metis
qed

text \<open>Only a list of kinds is ever found compatible.\<close>

lemma compatible_entries_is_packed:
  "length f \<le> 21 \<Longrightarrow> 0 \<le> sint t \<Longrightarrow> compatible_entries (packed f) t \<Longrightarrow> \<exists>ts. length ts = length f \<and> t = packed ts"
proof (induction f arbitrary: t)
  case Nil
  then show ?case by (simp add: compatible_entries.simps [of EMPTY_STACK]) (simp add: EMPTY_STACK_def)
next
  case (Cons k f)
  then have e: "compatible_kind (kind_bits k) (top_kind t)" "compatible_entries (packed f) (pop_kind t)"
    using packed_positive [of f k] compatible_entries.simps [of "packed (k # f)" t] by (simp_all add: packed_entry)
  moreover have "0 \<le> sint (pop_kind t)" using Cons.prems(2) by (simp add: sint_pop)
  ultimately obtain ts where ts: "length ts = length f" "pop_kind t = packed ts" using Cons by auto
  obtain l where l: "top_kind t = kind_bits l"
    using e(1) that unfolding compatible_kind_def by metis
  have len: "length ts \<le> 20" using Cons.prems(1) ts(1) by simp
  have "t = packed (l # ts)"
  proof (rule stack_eqI)
    show "0 \<le> sint t" by fact
    show "0 \<le> sint (packed (l # ts))" using len by (intro packed_nonneg) simp
    show "top_kind t = top_kind (packed (l # ts))" using l top_packed [OF len] by simp
    show "pop_kind t = pop_kind (packed (l # ts))" using ts(2) pop_packed [OF len] by simp
  qed
  then show ?case using ts(1) by (intro exI [of _ "l # ts"]) simp
qed

lemma pop_down_suffix: "length f \<le> 21 \<Longrightarrow> \<exists>m. pop_down (packed f) t = packed (drop m f)"
proof (induction f)
  case Nil
  then show ?case by (subst pop_down.simps) simp
next
  case (Cons k f)
  then obtain m where "pop_down (packed f) t = packed (drop m f)" by auto
  then have "pop_down (packed (k # f)) t = packed (drop (Suc m) (k # f)) \<or> pop_down (packed (k # f)) t = packed (drop 0 (k # f))"
    using Cons.prems pop_packed [of f k] by (subst (1 2) pop_down.simps) simp
  then show ?case by blast
qed

lemma compatible_is_packed:
  assumes "length f \<le> 21" "compatible_stack (packed f) t"
  shows "\<exists>ts. length ts \<le> 21 \<and> t = packed ts"
proof -
  obtain m where m: "pop_down (packed f) t = packed (drop m f)" using pop_down_suffix [OF assms(1)] by blast
  have "0 \<le> sint t" "compatible_entries (packed (drop m f)) t"
    using assms(2) m by (simp_all add: compatible_stack_def split: if_splits)
  moreover have len: "length (drop m f) \<le> 21" using assms(1) by simp
  ultimately obtain ts where "length ts = length (drop m f)" "t = packed ts"
    using compatible_entries_is_packed [OF len] by blast
  then show ?thesis using assms(1) by (intro exI [of _ ts]) simp
qed

section \<open>Joining stacks\<close>

lemma depth_bound: "sint s < 8 ^ m \<Longrightarrow> stack_depth s \<le> m"
proof (induction m arbitrary: s)
  case 0
  then show ?case by (subst stack_depth.simps) simp
next
  case (Suc m)
  then have "sint (pop_kind s) < 8 ^ m" by (simp add: sint_pop)
  then show ?case using Suc.IH by (subst stack_depth.simps) simp
qed

lemma depth_le_21: "stack_depth s \<le> 21"
  using depth_bound [of s 21] sint_i64_less [of s] by simp

lemma fold_push: "fold (\<lambda>k out. push_kind out (kind_of k)) (rev slots) EMPTY_STACK = packed (map kind_of slots)"
  by (simp add: packed_def foldr_map comp_def flip: foldr_conv_fold)

text \<open>The entries that a join may still change.\<close>

function unsettled :: "i64 \<Rightarrow> nat" where
  "unsettled s =
    (if 0 <s s then (if top_kind s = kind_bits K_Object then 0 else 1) + unsettled (pop_kind s) else 0)"
  by auto
termination by (relation "measure unat") (simp_all add: pop_kind_less del: sless_sint)

declare unsettled.simps [simp del]

lemma unsettled_le: "unsettled s \<le> stack_depth s"
proof (induction s rule: unsettled.induct)
  case (1 s)
  then show ?case by (subst unsettled.simps, subst stack_depth.simps) auto
qed

lemma unsettled_packed:
  "length ks \<le> 20 \<Longrightarrow> unsettled (packed (k # ks)) = (if k = K_Object then 0 else 1) + unsettled (packed ks)"
  by (subst unsettled.simps) (simp add: packed_entry del: kind_bits.simps)

lemma join_slots_settles:
  "0 \<le> sint a \<Longrightarrow> stack_depth a \<le> 21 \<Longrightarrow> join_slots a b slots = Some r \<Longrightarrow>
    \<exists>sl. r = slots @ sl \<and> length sl = stack_depth a \<and> unsettled (packed (map kind_of sl)) \<le> unsettled a
      \<and> (unsettled (packed (map kind_of sl)) = unsettled a \<longrightarrow> packed (map kind_of sl) = a)"
proof (induction a b slots arbitrary: r rule: join_slots.induct)
  case (1 a b slots)
  show ?case
  proof (cases "0 < sint a")
    case False
    then have "a = EMPTY_STACK" using 1 by (simp flip: sint_inject)
    then show ?thesis using 1 False
      by (simp add: join_slots.simps [of EMPTY_STACK] stack_depth.simps [of EMPTY_STACK])
  next
    case True
    then obtain j where j: "join_kind (top_kind a) (top_kind b) = Some j"
      "join_slots (pop_kind a) (pop_kind b) (slots @ [j]) = Some r"
      using 1(4) by (subst (asm) join_slots.simps) (auto split: option.splits)
    have d: "stack_depth a = Suc (stack_depth (pop_kind a))"
      using True by (subst stack_depth.simps) simp
    have "0 \<le> sint (pop_kind a)" using True by (simp add: sint_pop)
    then obtain sl where sl: "r = (slots @ [j]) @ sl" "length sl = stack_depth (pop_kind a)"
      "unsettled (packed (map kind_of sl)) \<le> unsettled (pop_kind a)"
      "unsettled (packed (map kind_of sl)) = unsettled (pop_kind a) \<longrightarrow> packed (map kind_of sl) = pop_kind a"
      using 1(1) [of j r] True j d 1(3) by auto
    let ?p = "packed (map kind_of (j # sl))"
    have len: "length (map kind_of sl) \<le> 20" using sl(2) d 1(3) by simp
    have ua: "unsettled a = (if top_kind a = kind_bits K_Object then 0 else 1) + unsettled (pop_kind a)"
      using True by (subst unsettled.simps) simp
    have up: "unsettled ?p = (if kind_of j = K_Object then 0 else 1) + unsettled (packed (map kind_of sl))"
      using unsettled_packed [OF len] by simp
    have kept: "kind_of j = K_Object \<and> top_kind a \<noteq> kind_bits K_Object \<or> kind_bits (kind_of j) = top_kind a"
      using j(1) by (auto simp: join_kind_def kind_of_def split: if_splits)
    have same: "?p = a" if "kind_bits (kind_of j) = top_kind a" "packed (map kind_of sl) = pop_kind a"
    proof (rule stack_eqI)
      show "0 \<le> sint ?p" using len by (intro packed_nonneg) simp
      show "0 \<le> sint a" using True by simp
      show "top_kind ?p = top_kind a" "pop_kind ?p = pop_kind a"
        using top_packed [OF len, of "kind_of j"] pop_packed [OF len, of "kind_of j"] that by simp_all
    qed
    have "unsettled ?p \<le> unsettled a \<and> (unsettled ?p = unsettled a \<longrightarrow> ?p = a)"
    proof (cases "kind_bits (kind_of j) = top_kind a")
      case True
      then have "top_kind a = kind_bits K_Object \<longleftrightarrow> kind_of j = K_Object"
        by (metis kind_bits_inject)
      then show ?thesis using sl(3, 4) ua up same [OF True] by simp
    next
      case False
      then show ?thesis using kept sl(3) ua up by simp
    qed
    then show ?thesis using sl(1, 2) d by (intro exI [of _ "j # sl"]) simp
  qed
qed

lemma join_settles:
  assumes "0 \<le> sint a" "join_stacks a b \<noteq> a"
  shows "join_stacks a b = OVERFLOWED \<or> 0 \<le> sint (join_stacks a b) \<and> unsettled (join_stacks a b) < unsettled a"
proof (cases "sint b < 0 \<or> stack_depth a \<noteq> stack_depth b \<or> join_slots a b [] = None")
  case True
  then show ?thesis using assms by (auto simp: join_stacks_def)
next
  case False
  then obtain sl where sl: "join_slots a b [] = Some sl" by auto
  then have j: "join_stacks a b = packed (map kind_of sl)"
    using False assms(1) by (simp add: join_stacks_def fold_push)
  have "length sl = stack_depth a" "unsettled (packed (map kind_of sl)) \<le> unsettled a"
    "unsettled (packed (map kind_of sl)) = unsettled a \<longrightarrow> packed (map kind_of sl) = a"
    using join_slots_settles [OF assms(1) depth_le_21 sl] by auto
  then show ?thesis using assms(2) depth_le_21 [of a] by (auto simp: j packed_nonneg le_neq_implies_less)
qed

text \<open>A slot of kind \<open>k\<close> described as \<open>l\<close>: an iterator may be described as an object.\<close>

definition kind_le :: "Kind \<Rightarrow> Kind \<Rightarrow> bool" where
  "kind_le k l \<longleftrightarrow> k = l \<or> k = K_Iterator \<and> l = K_Object"

lemma kind_le_refl [simp]: "kind_le k k"
  by (simp add: kind_le_def)

lemma kind_le_trans: "kind_le k l \<Longrightarrow> kind_le l m \<Longrightarrow> kind_le k m"
  by (auto simp: kind_le_def)

end
