(* ===== verification/Jump_Mark.thy ===== *)
theory Jump_Mark
  imports Code_Stack Jump_Kinds
begin

text \<open>
  The abstract interpretation behind \<open>frame.f_lineno\<close> assignment
  (\<open>crates/weavepy-vm/src/linejump.rs\<close>): the kinds on the operand stack and the number of
  handled exceptions at every instruction (\<open>mark_stacks\<close>), and the exit slots that are bound
  there (\<open>mark_bound_exits\<close>). Both repeat passes over the code until nothing changes.
\<close>

section \<open>Plain effects\<close>

definition callkw_names_len :: "'c CodeObject \<Rightarrow> nat \<Rightarrow> nat option" where
  "callkw_names_len code i =
    (if i = 0 then None
     else if length (co_instructions code) \<le> i - 1 then None
     else
       let prev = co_instructions code ! (i - 1)
       in if ins_op prev \<noteq> O_LoadConst then None
          else tuple_len (co_constants code) (unat (ins_arg prev)))"

text \<open>Pops and pushes, \<open>u32\<close> sums that wrap; \<open>None\<close> marks the offset unanalyzable.\<close>

definition plain_effect :: "'c CodeObject \<Rightarrow> nat \<Rightarrow> instruction \<Rightarrow> (w32 \<times> w32) option" where
  "plain_effect code i ins =
    (let opc = ins_op ins; arg = ins_arg ins in
     if opc \<in> {O_Nop, O_Resume, O_MakeCell, O_CopyFreeVars, O_SetupAnnotations} then Some (0, 0)
     else if opc = O_EndFor then Some (1, 0)
     else if opc = O_SetFunctionAttribute then Some (2, 1)
     else if opc = O_ReturnGenerator then Some (0, 1)
     else if opc = O_CleanupThrow then Some (3, 2)
     else if opc \<in> {O_StopIterationError, O_AsyncGenWrap, O_CallIntrinsic1} then Some (1, 1)
     else if opc = O_CallIntrinsic2 then Some (2, 1)
     else if opc = O_BuildInterpolation then Some (if arg AND 1 \<noteq> 0 then 3 else 2, 1)
     else if opc = O_BuildTemplate then Some (2, 1)
     else if opc \<in> {O_DeleteFast, O_DeleteGlobal, O_DeleteName, O_DeleteDeref} then Some (0, 0)
     else if opc \<in> {O_LoadConst, O_LoadName, O_LoadGlobal, O_LoadFast, O_LoadFastBorrow,
                     O_LoadFastCheck, O_LoadFastAndClear, O_LoadDeref, O_LoadClosure,
                     O_LoadClosureBorrow, O_LoadLocals, O_LoadBuildClass, O_LoadCommonConstant,
                     O_LoadSmallInt} then Some (0, 1)
     else if opc \<in> {O_LoadFastLoadFast, O_LoadFastBorrowLoadFastBorrow} then Some (0, 2)
     else if opc = O_StoreFastLoadFast then Some (1, 1)
     else if opc = O_StoreFastStoreFast then Some (2, 0)
     else if opc = O_NotTaken then Some (0, 0)
     else if opc = O_PopIter then Some (1, 0)
     else if opc = O_BinarySlice then Some (3, 1)
     else if opc = O_StoreSlice then Some (4, 0)
     else if opc \<in> {O_StoreFast, O_StoreGlobal, O_StoreName, O_StoreDeref} then Some (1, 0)
     else if opc \<in> {O_LoadClassdictOrDeref, O_LoadClassdictOrGlobal} then Some (1, 1)
     else if opc \<in> {O_LoadAttr, O_UnaryOp} then Some (1, 1)
     else if opc = O_StoreAttr then Some (2, 0)
     else if opc = O_DeleteAttr then Some (1, 0)
     else if opc \<in> {O_BinarySubscr, O_BinaryOp, O_CompareOp, O_IsOp, O_ContainsOp} then Some (2, 1)
     else if opc = O_StoreSubscr then Some (3, 0)
     else if opc = O_DeleteSubscr then Some (2, 0)
     else if opc \<in> {O_PopTop, O_PrintExpr, O_DictUpdate} then Some (1, 0)
     else if opc = O_ImportStar then Some (1, 1)
     else if opc = O_Call then Some (arg + 2, 1)
     else if opc = O_CallSelf then Some (arg + 1, 1)
     else if opc = O_CallKw then
       (case callkw_names_len code i of
          None \<Rightarrow> None
        | Some kwc \<Rightarrow> if kwc < 2 ^ 32 then Some (arg + word_of_nat kwc + 3, 1) else None)
     else if opc = O_CallEx then Some (4, 1)
     else if opc \<in> {O_BuildList, O_BuildTuple, O_BuildSet, O_BuildString} then Some (arg, 1)
     else if opc = O_BuildMap then Some (2 * arg, 1)
     else if opc \<in> {O_ListAppend, O_ListExtend, O_SetAdd, O_SetUpdate} then Some (1, 0)
     else if opc = O_ListToTuple then Some (1, 1)
     else if opc = O_MapAdd then Some (2, 0)
     else if opc = O_UnpackSequence then Some (1, arg)
     else if opc = O_UnpackEx then Some (1, drop_bit 8 arg + 1 + (arg AND 0xFF))
     else if opc = O_MakeFunction then Some (1 + word_of_nat (count_ones (arg AND 0xF)), 1)
     else if opc = O_BuildSlice then Some (arg, 1)
     else if opc = O_CheckExcMatch then Some (1, 1)
     else if opc = O_CheckEGMatch then Some (2, 2)
     else if opc = O_PrepReraiseStar then Some (2, 1)
     else if opc = O_ImportName then Some (2, 1)
     else if opc = O_ImportFrom then Some (0, 1)
     else if opc = O_FormatValue then Some (if arg AND 0x4 \<noteq> 0 then 2 else 1, 1)
     else if opc \<in> {O_ConvertValue, O_ToBool, O_YieldValue} then Some (1, 1)
     else if opc = O_EndSend then Some (2, 1)
     else if opc = O_GetAnext then Some (0, 1)
     else if opc = O_EndAsyncFor then Some (2, 0)
     else if opc \<in> {O_MatchSequence, O_MatchMapping, O_GetLen} then Some (0, 1)
     else if opc = O_MatchClass then Some (3, 1)
     else if opc = O_MatchKeys then Some (1, 1)
     else None)"

section \<open>Stack kinds\<close>

text \<open>
  \<open>Marked\<close>: for every offset the packed stack and the exception depth, \<open>UNINITIALIZED\<close> and
  \<open>-1\<close> where no flow has arrived. A depth is set once, from a shorter path, so that the
  \<open>i32\<close> of the source stays below the number of instructions; it is an integer here.
\<close>

record marked =
  mk_stacks :: "i64 list"
  mk_excs :: "int list"

text \<open>\<open>merge\<close>: the state of a successor, and whether anything changed.\<close>

definition merge_stack :: "i64 \<Rightarrow> i64 \<Rightarrow> i64" where
  "merge_stack cur stack =
    (if cur = UNINITIALIZED then stack
     else if cur \<noteq> stack \<and> cur \<noteq> OVERFLOWED then join_stacks cur stack
     else cur)"

definition merge_mark :: "nat \<Rightarrow> i64 \<Rightarrow> int \<Rightarrow> marked \<Rightarrow> bool \<times> marked" where
  "merge_mark idx stack exc m =
    (if idx < length (mk_stacks m) then
       let cur = mk_stacks m ! idx;
           changed1 = (cur = UNINITIALIZED
                       \<or> cur \<noteq> stack \<and> cur \<noteq> OVERFLOWED \<and> join_stacks cur stack \<noteq> cur);
           m1 = (if changed1 then m\<lparr>mk_stacks := (mk_stacks m)[idx := merge_stack cur stack]\<rparr> else m);
           changed2 = (mk_excs m1 ! idx = - 1);
           m2 = (if changed2 then m1\<lparr>mk_excs := (mk_excs m1)[idx := exc]\<rparr> else m1)
       in (changed1 \<or> changed2, m2)
     else (False, m))"

definition is_cond_jump :: "OpCode \<Rightarrow> bool" where
  "is_cond_jump opc \<longleftrightarrow>
    opc \<in> {O_PopJumpIfFalse, O_PopJumpIfTrue, O_PopJumpIfNone, O_PopJumpIfNotNone}"

text \<open>
  What \<open>mark_stacks\<close> merges for instruction \<open>i\<close> with stack \<open>cur\<close> and exception depth \<open>exc\<close>:
  successors, in the order of the source.
\<close>

definition mark_edges :: "'c CodeObject \<Rightarrow> nat \<Rightarrow> i64 \<Rightarrow> int \<Rightarrow> (nat \<times> i64 \<times> int) list" where
  "mark_edges code i cur exc =
    (let ins = co_instructions code ! i; opc = ins_op ins; arg = unat (ins_arg ins);
         next_i = Suc i
     in
     if is_cond_jump opc then [(next_i + arg, pop_kind cur, exc), (next_i, pop_kind cur, exc)]
     else if opc = O_JumpForward then [(next_i + arg, cur, exc)]
     else if opc = O_JumpBackward then [(next_i - arg, cur, exc)]
     else if opc \<in> {O_GetIter, O_GetAiter, O_GetYieldFromIter, O_GetAwaitable} then
       [(next_i, push_kind (pop_kind cur) K_Iterator, exc)]
     else if opc = O_ForIter then
       [(next_i, push_kind cur K_Object, exc), (next_i + arg, push_kind cur K_Object, exc)]
     else if opc = O_Send then [(next_i + arg, cur, exc), (next_i, cur, exc)]
     else if opc = O_CopyTop then [(next_i, push_kind cur (kind_of (top_kind cur)), exc)]
     else if opc = O_Swap then [(next_i, swap_kinds cur (max arg 2), exc)]
     else if opc = O_PushNull then [(next_i, push_kind cur K_Null, exc)]
     else if opc = O_LoadGlobalPushNull then
       [(next_i, push_kind (push_kind cur K_Object) K_Null, exc)]
     else if opc \<in> {O_LoadMethodAttr, O_LoadSpecial} then
       [(next_i, push_kind (push_kind (pop_kind cur) K_Object) K_Null, exc)]
     else if opc = O_LoadSuperAttr then
       let after = push_kind (pop_kind (pop_kind (pop_kind cur))) K_Object
       in [(next_i, if ins_arg ins AND 1 \<noteq> 0 then push_kind after K_Null else after, exc)]
     else if opc = O_PushExcInfo then
       [(next_i, push_kind (push_kind (pop_kind cur) K_Except) (kind_of (top_kind cur)), exc + 1)]
     else if opc = O_PopExcept then [(next_i, pop_kind cur, max 0 (exc - 1))]
     else if opc = O_WithExceptStart then [(next_i, push_kind cur K_Object, exc)]
     else if opc \<in> {O_ReturnValue, O_RaiseVarargs, O_Reraise} then []
     else
       case plain_effect code i ins of
         Some (pops, pushes) \<Rightarrow>
           [(next_i, ((\<lambda>s. push_kind s K_Object) ^^ unat pushes) ((pop_kind ^^ unat pops) cur), exc)]
       | None \<Rightarrow> [(next_i, OVERFLOWED, exc)])"

definition merge_edge :: "nat \<times> i64 \<times> int \<Rightarrow> bool \<times> marked \<Rightarrow> bool \<times> marked" where
  "merge_edge e st =
    (case e of (idx, stack, exc) \<Rightarrow>
       case merge_mark idx stack exc (snd st) of (changed, m) \<Rightarrow> (fst st \<or> changed, m))"

definition mark_instr :: "'c CodeObject \<Rightarrow> nat \<Rightarrow> bool \<times> marked \<Rightarrow> bool \<times> marked" where
  "mark_instr code i st =
    (let cur = mk_stacks (snd st) ! i in
     if cur = UNINITIALIZED then st
     else fold merge_edge (mark_edges code i cur (max 0 (mk_excs (snd st) ! i))) st)"

text \<open>The entry of a handler: the stack of its range cut to its depth, and the exception.\<close>

definition mark_handler :: "ExcHandler \<Rightarrow> bool \<times> marked \<Rightarrow> (bool \<times> marked) option" where
  "mark_handler h st =
    (let m = snd st; start = unat (eh_start h); handler = unat (eh_handler h) in
     if start < length (mk_stacks m) \<and> mk_stacks m ! start \<noteq> UNINITIALIZED
        \<and> handler < length (mk_stacks m) \<and> mk_stacks m ! handler = UNINITIALIZED
     then
       case pop_to_level (mk_stacks m ! start) (unat (eh_depth h)) of
         None \<Rightarrow> None
       | Some kept \<Rightarrow>
           let below = (if eh_push_lasti h then push_kind kept K_Lasti else kept)
           in Some (True, m\<lparr>mk_stacks := (mk_stacks m)[handler := push_kind below K_Except],
                            mk_excs := (mk_excs m)[handler := max 0 (mk_excs m ! start)]\<rparr>)
     else Some st)"

fun mark_handlers :: "ExcHandler list \<Rightarrow> bool \<times> marked \<Rightarrow> (bool \<times> marked) option" where
  "mark_handlers [] st = Some st"
| "mark_handlers (h # hs) st =
    (case mark_handler h st of None \<Rightarrow> None | Some st' \<Rightarrow> mark_handlers hs st')"

definition mark_pass :: "'c CodeObject \<Rightarrow> marked \<Rightarrow> (bool \<times> marked) option" where
  "mark_pass code m =
    mark_handlers (co_exception_table code)
      (fold (mark_instr code) [0..<length (co_instructions code)] (False, m))"

definition mark_start :: "'c CodeObject \<Rightarrow> marked" where
  "mark_start code =
    (let n = length (co_instructions code)
     in \<lparr>mk_stacks = EMPTY_STACK # replicate n UNINITIALIZED, mk_excs = 0 # replicate n (- 1)\<rparr>)"

text \<open>\<open>while todo { ... }\<close>; \<open>None\<close> is a loop that does not end.\<close>

partial_function (option) mark_loop :: "'c CodeObject \<Rightarrow> marked \<Rightarrow> marked option" where
  "mark_loop code m =
    (case mark_pass code m of
       None \<Rightarrow> None
     | Some (todo, m') \<Rightarrow> if todo then mark_loop code m' else Some m')"

definition mark_stacks :: "'c CodeObject \<Rightarrow> marked option" where
  "mark_stacks code = mark_loop code (mark_start code)"

section \<open>Bound exit slots\<close>

definition is_exit_name :: "string \<Rightarrow> bool" where
  "is_exit_name name \<longleftrightarrow> take 10 name = ''.with_exit'' \<or> take 6 name = ''.aexit''"

text \<open>A bit for each exit slot; \<open>None\<close> when there are more than 64.\<close>

fun exit_bits :: "string list \<Rightarrow> nat \<Rightarrow> u64 list option" where
  "exit_bits [] next_bit = Some []"
| "exit_bits (name # names) next_bit =
    (if is_exit_name name then
       if 64 \<le> next_bit then None
       else map_option ((#) (push_bit next_bit 1)) (exit_bits names (next_bit + 1))
     else map_option ((#) 0) (exit_bits names next_bit))"

text \<open>The value of an unreached offset.\<close>

definition BOUND_TOP :: u64 where "BOUND_TOP = - 1"

definition meet :: "nat \<Rightarrow> u64 \<Rightarrow> bool \<times> u64 list \<Rightarrow> bool \<times> u64 list" where
  "meet idx v st =
    (let bound = snd st in
     if idx < length bound \<and> bound ! idx AND v \<noteq> bound ! idx
     then (True, bound[idx := bound ! idx AND v]) else st)"

definition bound_edges :: "'c CodeObject \<Rightarrow> u64 list \<Rightarrow> nat \<Rightarrow> u64 \<Rightarrow> (nat \<times> u64) list" where
  "bound_edges code slot_bits i cur =
    (let ins = co_instructions code ! i; opc = ins_op ins; arg = unat (ins_arg ins);
         next_i = Suc i
     in
     if opc = O_StoreFast then [(next_i, cur OR get_or slot_bits arg 0)]
     else if opc = O_DeleteFast then [(next_i, cur AND NOT (get_or slot_bits arg 0))]
     else if is_cond_jump opc \<or> opc = O_ForIter \<or> opc = O_Send then
       [(next_i + arg, cur), (next_i, cur)]
     else if opc = O_JumpForward then [(next_i + arg, cur)]
     else if opc = O_JumpBackward then [(next_i - arg, cur)]
     else if opc \<in> {O_ReturnValue, O_RaiseVarargs, O_Reraise} then []
     else [(next_i, cur)])"

definition bound_instr :: "'c CodeObject \<Rightarrow> u64 list \<Rightarrow> nat \<Rightarrow> bool \<times> u64 list \<Rightarrow> bool \<times> u64 list" where
  "bound_instr code slot_bits i st =
    (let cur = snd st ! i in
     if cur = BOUND_TOP then st
     else fold (\<lambda>(idx, v). meet idx v) (bound_edges code slot_bits i cur) st)"

definition bound_raise :: "ExcHandler \<Rightarrow> nat \<Rightarrow> bool \<times> u64 list \<Rightarrow> bool \<times> u64 list" where
  "bound_raise h i st =
    (let cur = snd st ! i in
     if cur = BOUND_TOP then st else meet (unat (eh_handler h)) cur st)"

definition bound_handler :: "nat \<Rightarrow> ExcHandler \<Rightarrow> bool \<times> u64 list \<Rightarrow> bool \<times> u64 list" where
  "bound_handler n h st = fold (bound_raise h) [unat (eh_start h)..<min (unat (eh_end h)) n] st"

definition bound_pass :: "'c CodeObject \<Rightarrow> u64 list \<Rightarrow> u64 list \<Rightarrow> bool \<times> u64 list" where
  "bound_pass code slot_bits bound =
    (let n = length (co_instructions code) in
     fold (bound_handler n) (co_exception_table code)
       (fold (bound_instr code slot_bits) [0..<n] (False, bound)))"

partial_function (option) bound_loop :: "'c CodeObject \<Rightarrow> u64 list \<Rightarrow> u64 list \<Rightarrow> u64 list option" where
  "bound_loop code slot_bits bound =
    (case bound_pass code slot_bits bound of (todo, bound') \<Rightarrow>
       if todo then bound_loop code slot_bits bound' else Some bound')"

text \<open>The outer option is the loop's, the inner one the function's own.\<close>

definition mark_bound_exits :: "'c CodeObject \<Rightarrow> u64 list option option" where
  "mark_bound_exits code =
    (case exit_bits (co_varnames code) 0 of
       None \<Rightarrow> Some None
     | Some slot_bits \<Rightarrow>
         if \<not> (\<exists>name \<in> set (co_varnames code). is_exit_name name) then Some None
         else map_option Some
           (bound_loop code slot_bits (0 # replicate (length (co_instructions code)) BOUND_TOP)))"

section \<open>Passes\<close>

text \<open>What every step keeps, a pass keeps.\<close>

lemma fold_keeps_inv: "P st \<Longrightarrow> (\<And>x st. P st \<Longrightarrow> P (f x st)) \<Longrightarrow> P (fold f xs st)"
  by (induction xs arbitrary: st) simp_all

text \<open>A pass that reports no change has changed nothing at any step.\<close>

lemma fold_quiet:
  fixes f :: "'a \<Rightarrow> bool \<times> 'm \<Rightarrow> bool \<times> 'm"
  assumes q: "\<And>x st. \<not> fst (f x st) \<Longrightarrow> f x st = st"
  shows "\<not> fst (fold f xs st) \<Longrightarrow> fold f xs st = st \<and> (\<forall>x \<in> set xs. f x st = st)"
proof (induction xs arbitrary: st)
  case (Cons x xs)
  then have i: "fold f xs (f x st) = f x st" "\<forall>y \<in> set xs. f y (f x st) = f x st" by simp_all
  then have "\<not> fst (f x st)" using Cons.prems by simp
  from q [OF this] i show ?case by simp
qed simp

end
