(* ===== verification/Jump_Fixpoint.thy ===== *)
theory Jump_Fixpoint
  imports Jump_Stacks Jump_Mark
begin

text \<open>
  The passes of \<open>mark_stacks\<close> reach a fixpoint. Every merge that reports a change moves one mark
  down a finite order (unreached, then lists with ever fewer slots that a join may still
  change, then \<open>OVERFLOWED\<close>), so the loop ends; when it ends no merge changes anything.
\<close>

section \<open>Changes\<close>

definition stack_rank :: "i64 \<Rightarrow> nat" where
  "stack_rank s = (if s = UNINITIALIZED then 23 else if s = OVERFLOWED then 0 else Suc (unsettled s))"

definition mark_rank :: "marked \<Rightarrow> nat" where
  "mark_rank m = sum_list (map stack_rank (mk_stacks m)) + sum_list (map (\<lambda>e. of_bool (e = - 1)) (mk_excs m))"

definition marks_ok :: "nat \<Rightarrow> marked \<Rightarrow> bool" where
  "marks_ok n m \<longleftrightarrow> length (mk_stacks m) = Suc n \<and> length (mk_excs m) = Suc n
    \<and> (\<forall>s \<in> set (mk_stacks m). s = UNINITIALIZED \<or> - 1 \<le> sint s)"

lemma rank_less_23: "- 1 \<le> sint s \<Longrightarrow> stack_rank s < 23"
  using depth_le_21 [of s] unsettled_le [of s] by (auto simp: stack_rank_def)

lemma UNINITIALIZED_neq: "UNINITIALIZED \<noteq> OVERFLOWED" "- 1 \<le> sint s \<Longrightarrow> s \<noteq> UNINITIALIZED"
  by (simp add: UNINITIALIZED_def OVERFLOWED_def) (auto)

lemma bounded_join: "- 1 \<le> sint (join_stacks a b)"
proof -
  have "- 1 \<le> sint (packed ks)" for ks
    by (cases "length ks \<le> 21") (simp_all add: order_trans [OF _ packed_nonneg] packed_full)
  then show ?thesis by (auto simp: join_stacks_def fold_push split: option.splits)
qed

text \<open>A merge that changes a mark lowers its rank.\<close>

lemma merge_stack_rank:
  assumes "cur = UNINITIALIZED \<or> - 1 \<le> sint cur" "- 1 \<le> sint s" "merge_stack cur s \<noteq> cur"
  shows "- 1 \<le> sint (merge_stack cur s) \<and> stack_rank (merge_stack cur s) < stack_rank cur"
proof (cases "cur = UNINITIALIZED")
  case True
  then show ?thesis using assms rank_less_23 [OF assms(2)] by (simp add: merge_stack_def) (simp add: stack_rank_def)
next
  case False
  then have c: "cur \<noteq> OVERFLOWED" "0 \<le> sint cur" "merge_stack cur s = join_stacks cur s"
    using assms minus_one_or_nonneg [of cur] by (auto simp: merge_stack_def split: if_splits)
  then have "join_stacks cur s = OVERFLOWED \<or> unsettled (join_stacks cur s) < unsettled cur"
    using join_settles [of cur s] assms(3) by auto
  moreover have "join_stacks cur s \<noteq> UNINITIALIZED"
    using bounded_join [of cur s] UNINITIALIZED_neq by blast
  ultimately show ?thesis
    using c False bounded_join [of cur s] by (auto simp: stack_rank_def)
qed

lemma sum_list_lowers:
  fixes f :: "'a \<Rightarrow> nat"
  assumes "i < length xs" "f y < f (xs ! i)"
  shows "sum_list (map f (xs[i := y])) < sum_list (map f xs)"
proof -
  have "sum_list (map f xs) = sum_list (map f (take i xs)) + f (xs ! i) + sum_list (map f (drop (Suc i) xs))"
    using assms(1) by (metis append_take_drop_id Cons_nth_drop_Suc add.assoc list.simps(9) map_append sum_list.Cons sum_list_append)
  moreover have "sum_list (map f (xs[i := y])) = sum_list (map f (take i xs)) + f y + sum_list (map f (drop (Suc i) xs))"
    using assms(1) by (simp add: upd_conv_take_nth_drop)
  ultimately show ?thesis using assms(2) by simp
qed

lemma merge_mark_changes:
  assumes ok: "marks_ok n m" and s: "- 1 \<le> sint s" "0 \<le> e" and r: "merge_mark idx s e m = (changed, m')"
  shows "marks_ok n m' \<and> (\<not> changed \<longrightarrow> m' = m) \<and> (changed \<longrightarrow> mark_rank m' < mark_rank m)"
proof (cases "idx < length (mk_stacks m)")
  case False
  then show ?thesis using ok r by (simp add: merge_mark_def)
next
  case True
  define cur where "cur = mk_stacks m ! idx"
  define c1 where "c1 \<longleftrightarrow> cur = UNINITIALIZED \<or> cur \<noteq> s \<and> cur \<noteq> OVERFLOWED \<and> join_stacks cur s \<noteq> cur"
  define m1 where "m1 = (if c1 then m\<lparr>mk_stacks := (mk_stacks m)[idx := merge_stack cur s]\<rparr> else m)"
  have cur: "cur = UNINITIALIZED \<or> - 1 \<le> sint cur" using ok True by (simp add: marks_ok_def cur_def)
  have m: "changed \<longleftrightarrow> c1 \<or> mk_excs m1 ! idx = - 1"
    "m' = (if mk_excs m1 ! idx = - 1 then m1\<lparr>mk_excs := (mk_excs m1)[idx := e]\<rparr> else m1)"
    using r True by (auto simp: merge_mark_def Let_def cur_def c1_def m1_def)
  have ms: "merge_stack cur s \<noteq> cur" if c1
    using that s UNINITIALIZED_neq by (auto simp: c1_def merge_stack_def)
  have ok1: "marks_ok n m1"
    using ok merge_stack_rank [OF cur s(1) ms] by (auto simp: marks_ok_def m1_def dest!: set_update_subset_insert [THEN subsetD])
  have rank1: "mark_rank m1 \<le> mark_rank m" "c1 \<Longrightarrow> mark_rank m1 < mark_rank m"
    using merge_stack_rank [OF cur s(1) ms] sum_list_lowers [OF True, of stack_rank "merge_stack cur s"]
    by (auto simp: m1_def mark_rank_def cur_def)
  have idx1: "idx < length (mk_excs m1)" using ok True by (simp add: marks_ok_def m1_def)
  have rank2: "mark_rank (m1\<lparr>mk_excs := (mk_excs m1)[idx := e]\<rparr>) < mark_rank m1" if "mk_excs m1 ! idx = - 1"
    using sum_list_lowers [OF idx1, of "\<lambda>e. of_bool (e = - 1)" e] that s(2) by (simp add: mark_rank_def)
  have ok2: "marks_ok n (m1\<lparr>mk_excs := (mk_excs m1)[idx := e]\<rparr>)" using ok1 by (simp add: marks_ok_def)
  show ?thesis
    using ok1 ok2 rank1 rank2 by (auto simp: m m1_def)
qed

section \<open>A pass\<close>

text \<open>From \<open>m0\<close>: nothing has changed, or the rank is lower.\<close>

definition progress :: "nat \<Rightarrow> marked \<Rightarrow> bool \<times> marked \<Rightarrow> bool" where
  "progress n m0 st \<longleftrightarrow> marks_ok n (snd st)
    \<and> (if fst st then mark_rank (snd st) < mark_rank m0 else snd st = m0)"

definition edge_ok :: "nat \<times> i64 \<times> int \<Rightarrow> bool" where
  "edge_ok e \<longleftrightarrow> - 1 \<le> sint (fst (snd e)) \<and> 0 \<le> snd (snd e)"

lemma progress_edge: "progress n m0 st \<Longrightarrow> edge_ok e \<Longrightarrow> progress n m0 (merge_edge e st)"
proof -
  assume p: "progress n m0 st" and e: "edge_ok e"
  obtain idx s x where ex: "e = (idx, s, x)" by (cases e)
  obtain c m' where r: "merge_mark idx s x (snd st) = (c, m')" by force
  have ch: "marks_ok n m' \<and> (\<not> c \<longrightarrow> m' = snd st) \<and> (c \<longrightarrow> mark_rank m' < mark_rank (snd st))"
    using p e by (intro merge_mark_changes [OF _ _ _ r]) (simp_all add: progress_def edge_ok_def ex)
  have eq: "merge_edge e st = (fst st \<or> c, m')" by (simp add: merge_edge_def ex r)
  have "mark_rank (snd st) \<le> mark_rank m0" using p by (auto simp: progress_def split: if_splits)
  then show "progress n m0 (merge_edge e st)"
    using p ch by (cases c; cases "fst st") (simp_all add: progress_def eq)
qed

lemma progress_fold: "progress n m0 st \<Longrightarrow> (\<And>x st. x \<in> set xs \<Longrightarrow> progress n m0 st \<Longrightarrow> progress n m0 (f x st)) \<Longrightarrow>
    progress n m0 (fold f xs st)"
  by (induction xs arbitrary: st) simp_all

text \<open>What the analysis needs of the code: no operand of \<open>Swap\<close> and no handler deeper than 21.\<close>

definition swaps_fit :: "'c CodeObject \<Rightarrow> bool" where
  "swaps_fit code \<longleftrightarrow> (\<forall>ins \<in> set (co_instructions code). ins_op ins = O_Swap \<longrightarrow> unat (ins_arg ins) \<le> 21)"

definition handlers_fit :: "'c CodeObject \<Rightarrow> bool" where
  "handlers_fit code \<longleftrightarrow> (\<forall>h \<in> set (co_exception_table code). unat (eh_depth h) \<le> 21)"

lemmas bounded_intros = bounded_push bounded_pop bounded_pops bounded_pushes bounded_swap

lemma mark_edges_ok:
  assumes "swaps_fit code" "i < length (co_instructions code)" "- 1 \<le> sint cur" "0 \<le> exc"
    "e \<in> set (mark_edges code i cur exc)"
  shows "edge_ok e"
proof -
  have "ins_op (co_instructions code ! i) = O_Swap \<Longrightarrow> max (unat (ins_arg (co_instructions code ! i))) 2 \<le> 21"
    using assms(1, 2) by (auto simp: swaps_fit_def)
  then show ?thesis
    using assms(3, 4, 5)
    by (auto simp: mark_edges_def Let_def edge_ok_def bounded_intros split: if_splits option.splits prod.splits)
qed

lemma progress_instr:
  assumes "swaps_fit code" "i < length (co_instructions code)"
    "progress (length (co_instructions code)) m0 st"
  shows "progress (length (co_instructions code)) m0 (mark_instr code i st)"
proof (cases "mk_stacks (snd st) ! i = UNINITIALIZED")
  case False
  have "mk_stacks (snd st) ! i \<in> set (mk_stacks (snd st))"
    using assms(2, 3) by (simp add: progress_def marks_ok_def)
  then have "- 1 \<le> sint (mk_stacks (snd st) ! i)"
    using False assms(3) by (auto simp: progress_def marks_ok_def)
  then show ?thesis
    using False assms mark_edges_ok [OF assms(1, 2), of "mk_stacks (snd st) ! i" "max 0 (mk_excs (snd st) ! i)"]
    by (simp add: mark_instr_def) (intro progress_fold progress_edge, auto)
qed (use assms in \<open>simp add: mark_instr_def\<close>)

lemma pop_to_level_returns:
  "n \<le> 21 \<Longrightarrow> - 1 \<le> sint s \<Longrightarrow> \<exists>r. pop_to_level s n = Some r \<and> - 1 \<le> sint r"
  using pop_above_returns [of "push_bit (kind_shift n) KIND_MASK" s] level_limit [of n]
  by (cases "n = 0") (simp_all add: pop_to_level_def)

lemma sum_list_keeps:
  fixes f :: "'a \<Rightarrow> nat"
  assumes "i < length xs" "f y \<le> f (xs ! i)"
  shows "sum_list (map f (xs[i := y])) \<le> sum_list (map f xs)"
proof -
  have "sum_list (map f xs) = sum_list (map f (take i xs)) + f (xs ! i) + sum_list (map f (drop (Suc i) xs))"
    using assms(1) by (metis append_take_drop_id Cons_nth_drop_Suc add.assoc list.simps(9) map_append sum_list.Cons sum_list_append)
  moreover have "sum_list (map f (xs[i := y])) = sum_list (map f (take i xs)) + f y + sum_list (map f (drop (Suc i) xs))"
    using assms(1) by (simp add: upd_conv_take_nth_drop)
  ultimately show ?thesis using assms(2) by simp
qed

lemma progress_handler:
  assumes "unat (eh_depth h) \<le> 21" "progress n m0 st"
  shows "\<exists>st'. mark_handler h st = Some st' \<and> progress n m0 st'"
proof -
  define m where "m = snd st"
  define start where "start = unat (eh_start h)"
  define handler where "handler = unat (eh_handler h)"
  show ?thesis
  proof (cases "start < length (mk_stacks m) \<and> mk_stacks m ! start \<noteq> UNINITIALIZED
        \<and> handler < length (mk_stacks m) \<and> mk_stacks m ! handler = UNINITIALIZED")
    case False
    then have "mark_handler h st = Some st"
      by (auto simp: mark_handler_def Let_def m_def start_def handler_def)
    then show ?thesis using assms(2) by simp
  next
    case True
    have ok: "marks_ok n m" using assms(2) by (simp add: progress_def m_def)
    have "- 1 \<le> sint (mk_stacks m ! start)" using True ok by (auto simp: marks_ok_def)
    then obtain kept where kept: "pop_to_level (mk_stacks m ! start) (unat (eh_depth h)) = Some kept"
      using pop_to_level_returns assms(1) by blast
    define below where "below = (if eh_push_lasti h then push_kind kept K_Lasti else kept)"
    define m1 where "m1 = m\<lparr>mk_stacks := (mk_stacks m)[handler := push_kind below K_Except],
                            mk_excs := (mk_excs m)[handler := max 0 (mk_excs m ! start)]\<rparr>"
    have r: "mark_handler h st = Some (True, m1)"
      using True kept by (simp add: mark_handler_def Let_def m_def start_def handler_def m1_def below_def)
    have b: "- 1 \<le> sint (push_kind below K_Except)" by (rule bounded_push)
    have l: "handler < length (mk_stacks m)" "handler < length (mk_excs m)"
      using True ok by (simp_all add: marks_ok_def)
    have "stack_rank (push_kind below K_Except) < stack_rank (mk_stacks m ! handler)"
      using rank_less_23 [OF b] True by (simp add: stack_rank_def)
    from sum_list_lowers [OF l(1), of stack_rank, OF this]
    have s: "sum_list (map stack_rank ((mk_stacks m)[handler := push_kind below K_Except]))
        < sum_list (map stack_rank (mk_stacks m))" .
    have x: "sum_list (map (\<lambda>e. of_bool (e = - 1)) ((mk_excs m)[handler := max 0 (mk_excs m ! start)]))
        \<le> (sum_list (map (\<lambda>e. of_bool (e = - 1)) (mk_excs m)) :: nat)"
      by (rule sum_list_keeps [OF l(2)]) auto
    have "mark_rank m1 < mark_rank m"
      unfolding mark_rank_def m1_def using s x by simp
    moreover have "mark_rank m \<le> mark_rank m0" using assms(2) by (auto simp: progress_def m_def split: if_splits)
    moreover have "marks_ok n m1"
      using ok b by (auto simp: marks_ok_def m1_def dest!: set_update_subset_insert [THEN subsetD])
    ultimately show ?thesis using r by (auto simp: progress_def)
  qed
qed

lemma progress_handlers:
  "(\<forall>h \<in> set hs. unat (eh_depth h) \<le> 21) \<Longrightarrow> progress n m0 st \<Longrightarrow>
    \<exists>st'. mark_handlers hs st = Some st' \<and> progress n m0 st'"
proof (induction hs arbitrary: st)
  case (Cons h hs)
  then obtain st1 where "mark_handler h st = Some st1" "progress n m0 st1"
    using progress_handler [of h n m0 st] by auto
  then show ?case using Cons by simp
qed simp

lemma progress_pass:
  assumes "swaps_fit code" "handlers_fit code" "marks_ok (length (co_instructions code)) m"
  shows "\<exists>st. mark_pass code m = Some st \<and> progress (length (co_instructions code)) m st"
proof -
  let ?n = "length (co_instructions code)"
  have "progress ?n m (False, m)" using assms(3) by (simp add: progress_def)
  then have "progress ?n m (fold (mark_instr code) [0..<?n] (False, m))"
    by (rule progress_fold) (use assms(1) progress_instr in auto)
  then show ?thesis
    using assms(2) progress_handlers by (simp add: mark_pass_def handlers_fit_def)
qed

section \<open>The loop\<close>

lemma mark_loop_unfold:
  "mark_loop code m = (case mark_pass code m of None \<Rightarrow> None
     | Some (todo, m') \<Rightarrow> if todo then mark_loop code m' else Some m')"
  by (subst mark_loop.simps) simp

lemma mark_loop_returns:
  assumes "swaps_fit code" "handlers_fit code" "marks_ok (length (co_instructions code)) m"
  shows "\<exists>m'. mark_loop code m = Some m' \<and> marks_ok (length (co_instructions code)) m'"
  using assms(3)
proof (induction "mark_rank m" arbitrary: m rule: less_induct)
  case less
  from progress_pass [OF assms(1, 2) less.prems]
  obtain todo m' where p: "mark_pass code m = Some (todo, m')" "progress (length (co_instructions code)) m (todo, m')"
    by auto
  show ?case
  proof (cases todo)
    case True
    then show ?thesis using p less.hyps [of m'] by (subst mark_loop_unfold) (simp add: progress_def)
  next
    case False
    then show ?thesis using p by (subst mark_loop_unfold) (auto simp: progress_def)
  qed
qed

lemma marks_ok_start: "marks_ok (length (co_instructions code)) (mark_start code)"
  by (simp add: marks_ok_def mark_start_def Let_def)

lemma mark_stacks_returns:
  "swaps_fit code \<Longrightarrow> handlers_fit code \<Longrightarrow>
    \<exists>m. mark_stacks code = Some m \<and> marks_ok (length (co_instructions code)) m"
  unfolding mark_stacks_def by (rule mark_loop_returns [OF _ _ marks_ok_start])

end
