(* ===== verification/Jump_Plan.thy ===== *)
theory Jump_Plan
  imports Jump_Mark
begin

text \<open>
  Where a frame may jump (\<open>crates/weavepy-vm/src/linejump.rs\<close>): the first offsets of each line
  (\<open>marklines\<close>), the check of an \<open>f_lineno\<close> assignment (\<open>compute_jump\<close>), and the instructions
  that carry a line event (\<open>line_event_starts\<close>).
\<close>

section \<open>Lines\<close>

definition line_at :: "'c CodeObject \<Rightarrow> nat \<Rightarrow> nat" where
  "line_at code i = unat (get_or (co_linetable code) i 0)"

text \<open>One of the copies of the implicit return that follow the code.\<close>

definition is_return_stub :: "'c CodeObject \<Rightarrow> nat \<Rightarrow> bool" where
  "is_return_stub code i \<longleftrightarrow>
    (let instrs = co_instructions code in
     0 < i \<and> ins_op (instrs ! i) = O_LoadConst
     \<and> i + 1 < length instrs \<and> ins_op (instrs ! (i + 1)) = O_ReturnValue
     \<and> ins_op (instrs ! (i - 1)) \<in> {O_ReturnValue, O_Reraise})"

fun marklines_from :: "'c CodeObject \<Rightarrow> nat list \<Rightarrow> int \<Rightarrow> int list" where
  "marklines_from code [] last_line = []"
| "marklines_from code (i # is) last_line =
    (let line = int (line_at code i) in
     if line \<noteq> 0 then
       (if line \<noteq> last_line \<and> \<not> is_return_stub code i then line else - 1)
         # marklines_from code is line
     else - 1 # marklines_from code is last_line)"

definition marklines :: "'c CodeObject \<Rightarrow> int list" where
  "marklines code = marklines_from code [0..<length (co_instructions code)] (- 1)"

section \<open>The check\<close>

datatype jump_error = BeforeBlock int | AfterBlock int | Refused string

record PendingJump =
  pj_target_pc :: u32
  pj_target_depth :: u32
  pj_exc_pops :: u32

definition I64_MAX :: int where "I64_MAX = 9223372036854775807"

definition first_lineno :: "'c CodeObject \<Rightarrow> int" where
  "first_lineno code =
    (if co_name code = ''<module>'' then 1
     else case find (\<lambda>l. 0 < l) (co_linetable code) of Some l \<Rightarrow> int (unat l) | None \<Rightarrow> 1)"

text \<open>The least line at or after the one asked for that starts at a reachable offset.\<close>

definition first_line_not_before :: "int list \<Rightarrow> i64 list \<Rightarrow> int \<Rightarrow> int" where
  "first_line_not_before lines stacks new_lineno =
    fold (\<lambda>i resolved.
        if new_lineno \<le> lines ! i \<and> lines ! i < resolved \<and> stacks ! i \<noteq> UNINITIALIZED
        then lines ! i else resolved)
      [0..<length lines] I64_MAX"

text \<open>The target must not need an exit slot that the source has not bound.\<close>

definition exits_ok :: "u64 list option \<Rightarrow> u64 \<Rightarrow> nat \<Rightarrow> bool" where
  "exits_ok bound_exits start_bound i =
    (case bound_exits of
       None \<Rightarrow> True
     | Some b \<Rightarrow>
         if i < length b then b ! i = BOUND_TOP \<or> b ! i AND NOT start_bound = 0 else True)"

record jump_search =
  js_best_stack :: i64
  js_best_addr :: "nat option"
  js_err :: "string option"

definition note_err :: "string \<Rightarrow> jump_search \<Rightarrow> jump_search" where
  "note_err msg js = (case js_err js of None \<Rightarrow> js\<lparr>js_err := Some msg\<rparr> | Some _ \<Rightarrow> js)"

definition consider_target ::
    "int list \<Rightarrow> marked \<Rightarrow> u64 list option \<Rightarrow> u64 \<Rightarrow> i64 \<Rightarrow> int \<Rightarrow> int \<Rightarrow> nat \<Rightarrow> jump_search \<Rightarrow> jump_search" where
  "consider_target lines m bound_exits start_bound start_stack start_exc resolved i js =
    (if lines ! i \<noteq> resolved \<or> mk_stacks m ! i = UNINITIALIZED then js
     else
       let target_stack = mk_stacks m ! i; target_exc = max 0 (mk_excs m ! i) in
       if \<not> exits_ok bound_exits start_bound i then note_err ''incompatible stacks'' js
       else if target_exc \<le> start_exc \<and> compatible_stack start_stack target_stack then
         (if js_best_addr js = None \<or> js_best_stack js <s target_stack
          then js\<lparr>js_best_stack := target_stack, js_best_addr := Some i\<rparr> else js)
       else note_err
         (if start_stack = OVERFLOWED then ''stack to deep to analyze''
          else if start_stack = UNINITIALIZED then ''can't jump from unreachable code''
          else if start_exc < target_exc then
            ''can't jump into an 'except' block as there's no exception''
          else explain_incompatible_stack target_stack) js)"

definition u32_or_0 :: "int \<Rightarrow> u32" where
  "u32_or_0 i = (if 0 \<le> i \<and> i < 2 ^ 32 then nat i else 0)"

definition get_bound :: "u64 list option \<Rightarrow> nat \<Rightarrow> u64" where
  "get_bound bound_exits i = (case bound_exits of None \<Rightarrow> 0 | Some b \<Rightarrow> get_or b i 0)"

definition plan_jump ::
    "'c CodeObject \<Rightarrow> marked \<Rightarrow> u64 list option \<Rightarrow> u32 \<Rightarrow> int \<Rightarrow> bool \<Rightarrow> int
     \<Rightarrow> jump_error + PendingJump \<times> u32" where
  "plan_jump code m bound_exits cur_pc new_lineno suspended resolved =
    (let lines = marklines code;
         start_bound = get_bound bound_exits cur_pc;
         marked_stack = get_or (mk_stacks m) cur_pc UNINITIALIZED;
         start_exc = max 0 (get_or (mk_excs m) cur_pc (- 1));
         start_stack = (if suspended then pop_kind marked_stack else marked_stack);
         js = fold (consider_target lines m bound_exits start_bound start_stack start_exc resolved)
                [0..<length lines] \<lparr>js_best_stack = OVERFLOWED, js_best_addr = None, js_err = None\<rparr>
     in case js_best_addr js of
          None \<Rightarrow> Inl (Refused (case js_err js of Some msg \<Rightarrow> msg
                        | None \<Rightarrow> ''cannot find bytecode for specified line''))
        | Some addr \<Rightarrow>
            Inr (\<lparr>pj_target_pc = as_u32 addr, pj_target_depth = stack_depth (js_best_stack js),
                  pj_exc_pops = u32_or_0 (start_exc - max 0 (mk_excs m ! addr))\<rparr>,
                 u32_or_0 resolved))"

text \<open>\<open>None\<close> when one of the two analyses does not end.\<close>

definition compute_jump ::
    "'c CodeObject \<Rightarrow> u32 \<Rightarrow> int \<Rightarrow> bool \<Rightarrow> (jump_error + PendingJump \<times> u32) option" where
  "compute_jump code cur_pc new_lineno suspended =
    (if new_lineno < first_lineno code then Some (Inl (BeforeBlock new_lineno))
     else
       case mark_stacks code of
         None \<Rightarrow> None
       | Some m \<Rightarrow>
           let resolved = first_line_not_before (marklines code) (mk_stacks m) new_lineno in
           if resolved = I64_MAX then Some (Inl (AfterBlock new_lineno))
           else map_option (\<lambda>bound_exits. plan_jump code m bound_exits cur_pc new_lineno suspended resolved)
                  (mark_bound_exits code))"

section \<open>Line events\<close>

text \<open>The instructions that never carry a line event.\<close>

definition no_line_event :: "OpCode \<Rightarrow> bool" where
  "no_line_event opc \<longleftrightarrow> opc \<in> {O_Resume, O_EndFor, O_EndSend, O_EndAsyncFor}"

text \<open>Pass 1, with \<open>current_line\<close> the line of the previous instruction.\<close>

fun line_starts_from :: "'c CodeObject \<Rightarrow> nat list \<Rightarrow> nat \<Rightarrow> bool list" where
  "line_starts_from code [] current_line = []"
| "line_starts_from code (i # is) current_line =
    (if no_line_event (ins_op (co_instructions code ! i))
     then False # line_starts_from code is current_line
     else (line_at code i \<noteq> 0 \<and> line_at code i \<noteq> current_line)
            # line_starts_from code is (line_at code i))"

definition is_loop_end :: "OpCode \<Rightarrow> bool" where
  "is_loop_end opc \<longleftrightarrow> opc \<in> {O_EndFor, O_EndSend, O_EndAsyncFor}"

text \<open>\<open>while t < n && matches!(op[t], EndFor | EndSend | EndAsyncFor) { t += 1 }\<close>.\<close>

definition skip_ends :: "'c CodeObject \<Rightarrow> nat \<Rightarrow> nat" where
  "skip_ends code t = skip_while (\<lambda>ins. is_loop_end (ins_op ins)) (co_instructions code) t"

definition event_target :: "'c CodeObject \<Rightarrow> nat \<Rightarrow> nat option" where
  "event_target code i =
    (let ins = co_instructions code ! i; opc = ins_op ins; arg = unat (ins_arg ins) in
     if is_cond_jump opc \<or> opc \<in> {O_JumpForward, O_ForIter, O_Send} then Some (i + 1 + arg)
     else if opc = O_JumpBackward then Some (i + 1 - arg)
     else None)"

definition mark_target :: "'c CodeObject \<Rightarrow> nat \<Rightarrow> bool list \<Rightarrow> bool list" where
  "mark_target code i out =
    (case event_target code i of
       None \<Rightarrow> out
     | Some target \<Rightarrow>
         let t = skip_ends code target in
         if t < length out \<and> line_at code t \<noteq> 0 then out[t := True] else out)"

definition mark_entry :: "'c CodeObject \<Rightarrow> ExcHandler \<Rightarrow> bool list \<Rightarrow> bool list" where
  "mark_entry code h out =
    (let t = unat (eh_handler h) in
     if t < length out \<and> line_at code t \<noteq> 0 \<and> ins_op (co_instructions code ! t) \<noteq> O_EndAsyncFor
     then out[t := True] else out)"

definition line_event_starts :: "'c CodeObject \<Rightarrow> bool list" where
  "line_event_starts code =
    (let n = length (co_instructions code);
         starts = line_starts_from code [0..<n] 4294967295;
         targets = fold (mark_target code) [0..<n] starts;
         out = fold (mark_entry code) (co_exception_table code) targets
     in if True \<notin> set out \<and> (\<forall>i \<in> set [0..<n]. line_at code i = 0) then
          (case find (\<lambda>i. \<not> no_line_event (ins_op (co_instructions code ! i))) [0..<n] of
             None \<Rightarrow> out
           | Some i \<Rightarrow> out[i := True])
        else out)"

end
