(* ===== verification/Jump_Effects.thy ===== *)
theory Jump_Effects
  imports Jump_Plan
begin

text \<open>
  The virtual machine's jump analysis and the compiler's stack analysis count the same effect
  for every instruction that only pops and pushes, \<open>MatchKeys\<close> and large operands apart.
\<close>

text \<open>Operands as a compiler emits them: small enough that the \<open>u32\<close> sums do not wrap.\<close>

definition small_operand :: "'c CodeObject \<Rightarrow> nat \<Rightarrow> instruction \<Rightarrow> bool" where
  "small_operand code i ins \<longleftrightarrow> unat (ins_arg ins) + kw_names code i < 2 ^ 30
    \<and> (ins_op ins = O_MakeFunction \<longrightarrow> unat (ins_arg ins) < 16)
    \<and> (ins_op ins = O_UnpackEx \<longrightarrow> unat (ins_arg ins) < 2 ^ 16)"

lemma unat_plus_small: "unat a + unat b < 2 ^ 32 \<Longrightarrow> unat (a + b) = unat a + unat b" for a b :: w32
  using unat_add_lem [of a b] by simp

lemma low_kind_bits: "unat arg < 2 ^ n \<Longrightarrow> take_bit n arg = arg" for arg :: w32
  by (simp add: word_unat_eq_iff unsigned_take_bit_eq take_bit_nat_eq_self)

lemma low_nibble: "unat arg < 16 \<Longrightarrow> arg AND 0xF = arg" for arg :: w32
  using low_kind_bits [of arg 4] by (simp add: take_bit_eq_mask mask_numeral)

lemma high_less: "unat arg < 2 ^ 16 \<Longrightarrow> unat (drop_bit 8 arg) < 2 ^ 8" for arg :: w32
proof -
  have "unat (drop_bit 8 arg) = unat arg div 256"
    by (simp only: unat_drop_bit_eq) (simp add: drop_bit_eq_div)
  then show "unat arg < 2 ^ 16 \<Longrightarrow> unat (drop_bit 8 arg) < 2 ^ 8" by simp
qed

lemma high_byte: "unat arg < 2 ^ 16 \<Longrightarrow> drop_bit 8 arg AND 0xFF = drop_bit 8 arg" for arg :: w32
  using low_kind_bits [OF high_less] by (simp add: take_bit_eq_mask mask_numeral)

lemma count_ones_le: "count_ones w \<le> 32"
  unfolding count_ones_def by (rule order_trans [OF length_filter_le]) simp

section \<open>By operation\<close>

lemmas effect_defs = plain_effect_def fall_effect_def small_operand_def

definition counted :: "'c CodeObject \<Rightarrow> nat \<Rightarrow> OpCode \<Rightarrow> w32 \<Rightarrow> w32 \<Rightarrow> w32 \<Rightarrow> bool" where
  "counted code i opc arg p q \<longleftrightarrow> plain_effect code i (Instr opc arg) = Some (p, q)
    \<and> small_operand code i (Instr opc arg) \<and> opc \<notin> {O_CallKw, O_MatchKeys}"

lemma wide_effects:
  "unat v < 2 ^ 30 \<Longrightarrow> unat (2 * v) = 2 * unat v"
  "unat v < 2 ^ 16 \<Longrightarrow> int (unat (drop_bit 8 v + 1 + (v AND 0xFF))) =
    int (unat (drop_bit 8 v AND 0xFF)) + int (unat (v AND 0xFF)) + 1"
  "unat v < 16 \<Longrightarrow> unat (1 + word_of_nat (count_ones (v AND 0xF)) :: w32) = 1 + count_ones v"
  for v :: w32
proof -
  show "unat v < 2 ^ 30 \<Longrightarrow> unat (2 * v) = 2 * unat v"
    using unat_plus_small [of v v] by simp
  show "unat (1 + word_of_nat (count_ones (v AND 0xF)) :: w32) = 1 + count_ones v" if "unat v < 16"
    using unat_plus_small [of 1 "word_of_nat (count_ones v)"] count_ones_le [of v] low_nibble [OF that]
    by (simp add: unat_of_nat)
  show "int (unat (drop_bit 8 v + 1 + (v AND 0xFF))) =
    int (unat (drop_bit 8 v AND 0xFF)) + int (unat (v AND 0xFF)) + 1" if v: "unat v < 2 ^ 16"
  proof -
    have a: "unat (drop_bit 8 v) < 2 ^ 8" using v by (rule high_less)
    have "v AND 0xFF \<le> 0xFF" by (rule word_and_le1)
    then have b: "unat (v AND 0xFF) < 2 ^ 8" by (simp add: word_le_nat_alt)
    have "unat (drop_bit 8 v + 1) = unat (drop_bit 8 v) + 1"
      using unat_plus_small [of "drop_bit 8 v" 1] a by simp
    then have "unat (drop_bit 8 v + 1 + (v AND 0xFF)) = unat (drop_bit 8 v) + 1 + unat (v AND 0xFF)"
      using unat_plus_small [of "drop_bit 8 v + 1" "v AND 0xFF"] a b by simp
    then show ?thesis unfolding high_byte [OF v] by simp
  qed
qed

lemma counted_var: "counted code i (Var x) arg p q \<Longrightarrow> int (unat q) - int (unat p) = fall_effect (Var x) arg"
  unfolding counted_def by (cases x; simp add: effect_defs; auto)

lemma counted_attr: "counted code i (Attr x) arg p q \<Longrightarrow> int (unat q) - int (unat p) = fall_effect (Attr x) arg"
  unfolding counted_def by (cases x; simp add: effect_defs; auto)

lemma counted_arith: "counted code i (Arith x) arg p q \<Longrightarrow> int (unat q) - int (unat p) = fall_effect (Arith x) arg"
  unfolding counted_def by (cases x; simp add: effect_defs; auto)

lemma counted_calling: "counted code i (Calling x) arg p q \<Longrightarrow> int (unat q) - int (unat p) = fall_effect (Calling x) arg"
  unfolding counted_def using unat_plus_small [of arg 2] unat_plus_small [of arg 1]
  by (cases x; simp add: effect_defs; auto)

lemma counted_flow: "counted code i (Flow x) arg p q \<Longrightarrow> int (unat q) - int (unat p) = fall_effect (Flow x) arg"
  unfolding counted_def by (cases x; simp add: effect_defs; auto)

lemma counted_container: "counted code i (Container x) arg p q \<Longrightarrow> int (unat q) - int (unat p) = fall_effect (Container x) arg"
  unfolding counted_def using wide_effects(1, 2) [of arg] by (cases x; simp add: effect_defs; auto)

lemma counted_func: "counted code i (Func x) arg p q \<Longrightarrow> int (unat q) - int (unat p) = fall_effect (Func x) arg"
  unfolding counted_def using wide_effects(3) [of arg] by (cases x; simp add: effect_defs; auto)

lemma counted_exc: "counted code i (Exc x) arg p q \<Longrightarrow> int (unat q) - int (unat p) = fall_effect (Exc x) arg"
  unfolding counted_def by (cases x; simp add: effect_defs; auto)

lemma counted_import: "counted code i (Import x) arg p q \<Longrightarrow> int (unat q) - int (unat p) = fall_effect (Import x) arg"
  unfolding counted_def by (cases x; simp add: effect_defs; auto)

lemma counted_gen: "counted code i (Gen x) arg p q \<Longrightarrow> int (unat q) - int (unat p) = fall_effect (Gen x) arg"
  unfolding counted_def by (cases x; simp add: effect_defs; auto)

lemma counted_pattern: "counted code i (Pattern x) arg p q \<Longrightarrow> int (unat q) - int (unat p) = fall_effect (Pattern x) arg"
  unfolding counted_def by (cases x; simp add: effect_defs; auto)

lemma counted_added: "counted code i (Added x) arg p q \<Longrightarrow> int (unat q) - int (unat p) = fall_effect (Added x) arg"
  unfolding counted_def by (cases x; simp add: effect_defs; auto)

lemma counted_refined: "counted code i (Refined x) arg p q \<Longrightarrow> int (unat q) - int (unat p) = fall_effect (Refined x) arg"
  unfolding counted_def by (cases x; simp add: effect_defs; auto)

lemma counted_pseudo: "counted code i (Pseudo x) arg p q \<Longrightarrow> int (unat q) - int (unat p) = fall_effect (Pseudo x) arg"
  unfolding counted_def by (cases x; simp add: effect_defs; auto)

lemmas counted_all = counted_var counted_attr counted_arith counted_calling counted_flow
  counted_container counted_func counted_exc counted_import counted_gen counted_pattern
  counted_added counted_refined counted_pseudo

section \<open>Together\<close>

lemma counted_effect: "counted code i opc arg p q \<Longrightarrow> int (unat q) - int (unat p) = fall_effect opc arg"
  by (induction opc) (rule counted_all, assumption)+

lemma callkw_effect:
  assumes "plain_effect code i (Instr O_CallKw arg) = Some (p, q)" "small_operand code i (Instr O_CallKw arg)"
    "i < length (co_instructions code)"
  shows "int (unat q) - int (unat p) = fall_effect O_CallKw arg - int (kw_names code i)"
proof -
  obtain kwc where k: "callkw_names_len code i = Some kwc" "p = arg + word_of_nat kwc + 3" "q = 1" "kwc < 2 ^ 32"
    using assms(1) by (auto simp: plain_effect_def split: option.splits if_splits)
  have kw: "kw_names code i = kwc"
    using k(1) by (auto simp: callkw_names_len_def kw_names_def Let_def split: if_splits)
  have "unat arg + kwc < 2 ^ 30" using assms(2) kw by (simp add: small_operand_def)
  moreover have "unat (word_of_nat kwc :: w32) = kwc" using k(4) by (simp add: unat_of_nat)
  ultimately have "unat p = unat arg + kwc + 3"
    using unat_plus_small [of arg "word_of_nat kwc"] unat_plus_small [of "arg + word_of_nat kwc" 3] k(2) by simp
  then show ?thesis using k(3) kw by (simp add: fall_effect_def)
qed

lemma plain_effect_counts:
  assumes "plain_effect code i ins = Some (p, q)" "small_operand code i ins" "i < length (co_instructions code)"
    "ins_op ins \<noteq> O_MatchKeys"
  shows "int (unat q) - int (unat p) = fst (stack_effects_at code i ins)"
proof (cases "ins_op ins = O_CallKw")
  case True
  then obtain arg where "ins = Instr O_CallKw arg" by (cases ins) auto
  then show ?thesis
    using callkw_effect [of code i arg p q] assms by (simp add: stack_effects_at_def stack_effects_def)
next
  case False
  obtain opc arg where ins: "ins = Instr opc arg" by (cases ins)
  then have "counted code i opc arg p q"
    using assms False by (simp add: counted_def)
  then have "int (unat q) - int (unat p) = fall_effect opc arg"
    by (rule counted_effect)
  then show ?thesis using False ins by (simp add: stack_effects_at_def stack_effects_def)
qed

end
