(* ===== verification/Jump_Sound.thy ===== *)
theory Jump_Sound
  imports Jump_Fixpoint Jump_Effects Code_Sound
begin

text \<open>
  What the marks mean. \<open>runs\<close> are the depths of the operand stack on the paths through the code,
  by the effects of \<open>crates/weavepy-compiler/src/cpython_code.rs\<close> (those of \<open>at_depth\<close>), not by
  those of the jump analysis. On code whose depths do not depend on the path, an offset is marked
  just when a path reaches it, and its mark has as many entries as the path has values.
\<close>

section \<open>Paths\<close>

text \<open>
  \<open>runs code tr i d\<close>: a path over the offsets \<open>tr\<close>, the last one first, arrives at \<open>i\<close> with \<open>d\<close>
  values. An exception raised anywhere in the range of a handler leads to its entry.
\<close>

inductive runs :: "'c CodeObject \<Rightarrow> nat list \<Rightarrow> nat \<Rightarrow> int \<Rightarrow> bool" for code where
  entry: "0 < code_len code \<Longrightarrow> runs code [] 0 0"
| fall: "runs code tr i d \<Longrightarrow> falls (op_at code i) \<Longrightarrow> Suc i < code_len code \<Longrightarrow>
    runs code (i # tr) (Suc i) (max 0 (d + effect_at code i))"
| forward: "runs code tr i d \<Longrightarrow> op_at code i = O_JumpForward \<Longrightarrow> forward_at code i < code_len code \<Longrightarrow>
    runs code (i # tr) (forward_at code i) d"
| backward: "runs code tr i d \<Longrightarrow> op_at code i = O_JumpBackward \<Longrightarrow> backward_at code i < code_len code \<Longrightarrow>
    runs code (i # tr) (backward_at code i) d"
| branch: "runs code tr i d \<Longrightarrow> branches (op_at code i) \<Longrightarrow> forward_at code i < code_len code \<Longrightarrow>
    runs code (i # tr) (forward_at code i) (max 0 (d + jump_at code i))"
| raise: "runs code tr i d \<Longrightarrow> h \<in> set (co_exception_table code) \<Longrightarrow> unat (eh_start h) \<le> i \<Longrightarrow>
    i < unat (eh_end h) \<Longrightarrow> unat (eh_handler h) < code_len code \<Longrightarrow>
    runs code (i # tr) (unat (eh_handler h)) (handler_entry h)"

lemma runs_in_code: "runs code tr i d \<Longrightarrow> i < code_len code"
  by (induction rule: runs.induct) simp_all

lemma runs_nonneg: "runs code tr i d \<Longrightarrow> 0 \<le> d"
  by (induction rule: runs.induct) (simp_all add: handler_entry_def)

text \<open>How many values an instruction takes or looks at.\<close>

definition entries_used :: "'c CodeObject \<Rightarrow> nat \<Rightarrow> nat" where
  "entries_used code i =
    (let ins = co_instructions code ! i; opc = ins_op ins in
     if opc = O_Swap then max (unat (ins_arg ins)) 2
     else if opc = O_CopyTop then max (unat (ins_arg ins)) 1
     else if opc = O_LoadSuperAttr then 3
     else if is_cond_jump opc \<or> opc \<in> {O_GetIter, O_GetAiter, O_GetYieldFromIter, O_GetAwaitable,
         O_LoadMethodAttr, O_LoadSpecial, O_PushExcInfo, O_PopExcept, O_ForIter, O_WithExceptStart, O_ReturnValue} then 1
     else if opc = O_Send then 2
     else (case plain_effect code i ins of Some (pops, pushes) \<Rightarrow> unat pops | None \<Rightarrow> 0))"

text \<open>
  Code as the compiler means to emit it: the depth at an offset does not depend on the path, no
  path comes with fewer values than the instruction uses, and the range of a handler is entered
  at its start, with the values the handler keeps.
\<close>

definition well_stacked :: "'c CodeObject \<Rightarrow> bool" where
  "well_stacked code \<longleftrightarrow>
    (\<forall>i tr d tr' e. runs code tr i d \<longrightarrow> runs code tr' i e \<longrightarrow> d = e)
    \<and> (\<forall>i tr d. runs code tr i d \<longrightarrow> int (entries_used code i) \<le> d)
    \<and> (\<forall>h \<in> set (co_exception_table code). eh_start h < eh_end h \<and> unat (eh_end h) \<le> code_len code
        \<and> (\<forall>tr i d. runs code tr i d \<longrightarrow> unat (eh_start h) \<le> i \<longrightarrow> i < unat (eh_end h) \<longrightarrow>
            unat (eh_start h) \<in> set (i # tr))
        \<and> (\<forall>tr d. runs code tr (unat (eh_start h)) d \<longrightarrow> int (unat (eh_depth h)) \<le> d))"

lemma well_stackedD:
  assumes "well_stacked code"
  shows "runs code tr i d \<Longrightarrow> runs code tr' i e \<Longrightarrow> d = e"
    "runs code tr i d \<Longrightarrow> int (entries_used code i) \<le> d"
    "h \<in> set (co_exception_table code) \<Longrightarrow> eh_start h < eh_end h \<and> unat (eh_end h) \<le> code_len code"
    "h \<in> set (co_exception_table code) \<Longrightarrow> runs code tr i d \<Longrightarrow> unat (eh_start h) \<le> i \<Longrightarrow> i < unat (eh_end h) \<Longrightarrow>
      unat (eh_start h) \<in> set (i # tr)"
    "h \<in> set (co_exception_table code) \<Longrightarrow> runs code tr (unat (eh_start h)) d \<Longrightarrow> int (unat (eh_depth h)) \<le> d"
  using assms unfolding well_stacked_def by blast+

text \<open>Code of a moderate size, without the one instruction on which the two effect tables differ.\<close>

definition plain_code :: "'c CodeObject \<Rightarrow> bool" where
  "plain_code code \<longleftrightarrow> code_len code < 2 ^ 30 \<and> handlers_fit code
    \<and> (\<forall>i < code_len code. small_operand code i (co_instructions code ! i) \<and> op_at code i \<noteq> O_MatchKeys)"

section \<open>Edges\<close>

lemma forward_at_eq:
  assumes "plain_code code" "i < code_len code"
  shows "forward_at code i = Suc i + unat (ins_arg (co_instructions code ! i))"
proof -
  have "unat (ins_arg (co_instructions code ! i)) < 2 ^ 30" "i < 2 ^ 30"
    using assms by (auto simp: plain_code_def small_operand_def dest!: spec [of _ i])
  moreover from this have "unat (word_of_nat i + 1 :: w32) = Suc i"
    using unat_plus_small [of "word_of_nat i" 1] by (simp add: unat_of_nat)
  ultimately show ?thesis
    using unat_plus_small [of "word_of_nat i + 1" "ins_arg (co_instructions code ! i)"]
    by (simp add: forward_target_def)
qed

lemma backward_at_eq:
  assumes "plain_code code" "i < code_len code"
  shows "backward_at code i = Suc i - unat (ins_arg (co_instructions code ! i))"
proof -
  have "i < 2 ^ 30" using assms by (simp add: plain_code_def)
  then have "unat (word_of_nat i + 1 :: w32) = Suc i"
    using unat_plus_small [of "word_of_nat i" 1] by (simp add: unat_of_nat)
  then show ?thesis by (simp add: backward_target_def sat_sub_def word_le_nat_alt unat_sub)
qed

lemma runs_fall:
  "runs code tr i (int n) \<Longrightarrow> falls (op_at code i) \<Longrightarrow> Suc i < code_len code \<Longrightarrow> int n + effect_at code i = int k \<Longrightarrow>
    runs code (i # tr) (Suc i) (int k)"
  using runs.fall [of code tr i "int n"] by simp

lemma runs_branch:
  assumes "plain_code code" "runs code tr i (int n)" "branches (op_at code i)"
    "Suc i + unat (ins_arg (co_instructions code ! i)) < code_len code" "int n + jump_at code i = int k"
  shows "runs code (i # tr) (Suc i + unat (ins_arg (co_instructions code ! i))) (int k)"
  using runs.branch [OF assms(2, 3)] assms(4, 5) forward_at_eq [OF assms(1) runs_in_code [OF assms(2)]] by simp

lemmas effect_evals = falls_def ends_block_def branches_def stack_effects_at_def stack_effects_def
  fall_effect_def jump_effect_def Let_def

lemma low_bit: "int (unat w) AND 1 = (if w AND 1 \<noteq> 0 then 1 else 0)" for w :: w32
proof -
  have "w AND 1 = of_bool (bit w 0)" by (auto intro!: bit_word_eqI simp: bit_simps bit_1_iff)
  moreover have "int (unat w) AND 1 = of_bool (bit (uint w) 0)"
    by (auto intro!: bit_eqI simp: bit_simps bit_1_iff)
  ultimately show ?thesis by (simp add: bit_uint_iff)
qed

text \<open>What the analysis hands to a successor has the depth of a path to it.\<close>

lemma edge_runs:
  assumes plain: "plain_code code" and used: "entries_used code i \<le> length ks" and run: "runs code tr i (int (length ks))"
    and len: "length ks \<le> 21" and e: "(j, s, x) \<in> set (mark_edges code i (packed ks) exc)" "j < code_len code"
  shows "s = OVERFLOWED \<or> (\<exists>ls. s = packed ls \<and> runs code (i # tr) j (int (length ls)))"
proof -
  define ins where "ins = co_instructions code ! i"
  have i: "i < code_len code" by (rule runs_in_code [OF run])
  have small: "small_operand code i ins" "ins_op ins \<noteq> O_MatchKeys"
    using plain i by (simp_all add: plain_code_def ins_def)
  let ?goal = "s = OVERFLOWED \<or> (\<exists>ls. s = packed ls \<and> runs code (i # tr) j (int (length ls)))"
  have fallI: ?goal if "falls (ins_op ins)" "j = Suc i" "s = packed ls" "int (length ks) + effect_at code i = int (length ls)" for ls
    using runs_fall [OF run] that e(2) by (auto simp: ins_def)
  have branchI: ?goal if "branches (ins_op ins)" "j = Suc i + unat (ins_arg ins)" "s = packed ls"
      "int (length ks) + jump_at code i = int (length ls)" for ls
    using runs_branch [OF plain run] that e(2) by (auto simp: ins_def)
  have pop: "pop_kind (packed ks) = packed (drop 1 ks)" using pops_packed [OF len, of 1] by simp
  have pop3: "pop_kind (pop_kind (pop_kind (packed ks))) = packed (drop 3 ks)"
    using pops_packed [OF len, of 3] by (simp add: numeral_3_eq_3)
  note defs = mark_edges_def Let_def is_cond_jump_def
  note evals = effect_evals ins_def [symmetric]
  define A where "A = {O_GetIter, O_GetAiter, O_GetYieldFromIter, O_GetAwaitable, O_LoadMethodAttr, O_LoadSpecial, O_PushExcInfo, O_PopExcept}"
  define J where "J = {O_PopJumpIfFalse, O_PopJumpIfTrue, O_PopJumpIfNone, O_PopJumpIfNotNone}"
  define B where "B = {O_PushNull, O_LoadGlobalPushNull, O_WithExceptStart, O_CopyTop}"
  define C where "C = {O_ReturnValue, O_RaiseVarargs, O_Reraise}"
  consider (forward) "ins_op ins = O_JumpForward" | (backward) "ins_op ins = O_JumpBackward"
    | (foriter) "ins_op ins = O_ForIter" | (send) "ins_op ins = O_Send" | (super) "ins_op ins = O_LoadSuperAttr"
    | (swap) "ins_op ins = O_Swap" | (cond) "ins_op ins \<in> J" | (one) "ins_op ins \<in> A" | (push) "ins_op ins \<in> B" | (none) "ins_op ins \<in> C"
    | (plain) "ins_op ins \<notin> A \<union> B \<union> C \<union> J \<union> {O_JumpForward, O_JumpBackward, O_ForIter, O_Send, O_LoadSuperAttr, O_Swap}"
    by blast
  then show ?thesis
  proof cases
    case forward
    then have "j = Suc i + unat (ins_arg ins)" "s = packed ks" using e(1) by (auto simp: defs ins_def [symmetric])
    then show ?thesis using runs.forward [OF run] forward e(2) forward_at_eq [OF plain i] by (auto simp: ins_def)
  next
    case backward
    then have "j = Suc i - unat (ins_arg ins)" "s = packed ks" using e(1) by (auto simp: defs ins_def [symmetric])
    then show ?thesis using runs.backward [OF run] backward e(2) backward_at_eq [OF plain i] by (auto simp: ins_def)
  next
    case foriter
    then have "j \<in> {Suc i, Suc i + unat (ins_arg ins)}" "s = packed (K_Object # ks)"
      using e(1) by (auto simp: defs ins_def [symmetric])
    then show ?thesis using fallI [of "K_Object # ks"] branchI [of "K_Object # ks"] foriter by (auto simp: evals)
  next
    case send
    then have "j \<in> {Suc i, Suc i + unat (ins_arg ins)}" "s = packed ks"
      using e(1) by (auto simp: defs ins_def [symmetric])
    then show ?thesis using fallI [of ks] branchI [of ks] send by (auto simp: evals)
  next
    case super
    have "int (unat (ins_arg ins)) AND 1 = (if ins_arg ins AND 1 \<noteq> 0 then 1 else 0)"
      by (rule low_bit)
    moreover have "j = Suc i" "s = packed ((if ins_arg ins AND 1 \<noteq> 0 then [K_Null] else []) @ K_Object # drop 3 ks)"
      using super e(1) pop3 by (auto simp: defs ins_def [symmetric])
    moreover have "3 \<le> length ks" using used super by (simp add: entries_used_def Let_def ins_def)
    ultimately show ?thesis using fallI super by (simp add: evals)
  next
    case swap
    define n where "n = max (unat (ins_arg ins)) 2"
    have n: "2 \<le> n" "n \<le> length ks" using used swap by (simp_all add: n_def entries_used_def Let_def ins_def)
    have "j = Suc i" "s = swap_kinds (packed ks) n"
      using swap e(1) by (simp_all add: n_def defs ins_def [symmetric])
    then show ?thesis using fallI swap swap_packed [OF n len] by (simp add: evals)
  next
    case one
    then have ne: "1 \<le> length ks"
      using used unfolding A_def by (elim insertE emptyE) (simp_all add: entries_used_def is_cond_jump_def Let_def ins_def)
    show ?thesis using one e(1) fallI ne pop unfolding A_def
      by (elim insertE emptyE) (auto simp: defs evals)
  next
    case cond
    have c: "j \<in> {Suc i, Suc i + unat (ins_arg ins)} \<and> s = pop_kind (packed ks)
        \<and> falls (ins_op ins) \<and> branches (ins_op ins) \<and> effect_at code i = - 1 \<and> jump_at code i = - 1 \<and> 1 \<le> length ks"
      using cond e(1) used unfolding J_def
      by (elim insertE emptyE) (auto simp: defs evals entries_used_def)
    then show ?thesis using fallI [of "drop 1 ks"] branchI [of "drop 1 ks"] pop by auto
  next
    case push
    then show ?thesis using e(1) fallI unfolding B_def
      by (elim insertE emptyE) (auto simp: defs evals)
  next
    case none
    then show ?thesis using e(1) unfolding C_def
      by (elim insertE emptyE) (simp_all add: defs ins_def [symmetric])
  next
    case plain
    then have me: "mark_edges code i (packed ks) exc =
      (case plain_effect code i ins of
         Some (pops, pushes) \<Rightarrow>
           [(Suc i, ((\<lambda>s. push_kind s K_Object) ^^ unat pushes) ((pop_kind ^^ unat pops) (packed ks)), exc)]
       | None \<Rightarrow> [(Suc i, OVERFLOWED, exc)])"
      by (simp add: A_def B_def C_def J_def defs ins_def [symmetric])
    show ?thesis
    proof (cases "plain_effect code i ins")
      case (Some pq)
      obtain p q where pq: "plain_effect code i ins = Some (p, q)" using Some by (cases pq) simp
      have "unat p \<le> length ks" using used plain pq
        by (simp add: entries_used_def A_def B_def C_def J_def is_cond_jump_def Let_def ins_def)
      moreover have "int (unat q) - int (unat p) = effect_at code i"
        using plain_effect_counts [OF pq small(1) i small(2)] by (simp add: ins_def)
      moreover have "falls (ins_op ins)" using plain by (simp add: C_def falls_def ends_block_def)
      ultimately show ?thesis
        using e(1) me pq by (intro fallI [of "replicate (unat q) K_Object @ drop (unat p) ks"])
          (simp_all add: pops_packed [OF len] pushes_packed)
    qed (use e(1) me in simp)
  qed
qed

lemma edge_reached:
  assumes plain: "plain_code code" and run: "runs code tr i d"
    and e: "(j, s, x) \<in> set (mark_edges code i cur exc)" "j < code_len code"
  shows "\<exists>d'. runs code (i # tr) j d'"
proof -
  have i: "i < code_len code" by (rule runs_in_code [OF run])
  have "op_at code i = O_JumpForward \<and> j = forward_at code i \<or> op_at code i = O_JumpBackward \<and> j = backward_at code i
      \<or> branches (op_at code i) \<and> j = forward_at code i \<or> falls (op_at code i) \<and> j = Suc i"
    using e(1) unfolding forward_at_eq [OF plain i] backward_at_eq [OF plain i]
    by (auto simp: mark_edges_def Let_def is_cond_jump_def branches_def falls_def ends_block_def split: if_splits option.splits)
  then show ?thesis using runs.intros(2-5) [OF run] e(2) by metis
qed

text \<open>And it hands something to every successor but handlers.\<close>

lemma fall_edge: "falls (op_at code i) \<Longrightarrow> Suc i \<in> fst ` set (mark_edges code i cur exc)"
  by (auto simp: mark_edges_def Let_def falls_def ends_block_def split: option.splits)

lemma jump_edge:
  "op_at code i = O_JumpForward \<or> branches (op_at code i) \<Longrightarrow>
    Suc i + unat (ins_arg (co_instructions code ! i)) \<in> fst ` set (mark_edges code i cur exc)"
  "op_at code i = O_JumpBackward \<Longrightarrow>
    Suc i - unat (ins_arg (co_instructions code ! i)) \<in> fst ` set (mark_edges code i cur exc)"
  by (auto simp: mark_edges_def Let_def is_cond_jump_def branches_def)

lemma edge_overflowed: "(j, s, x) \<in> set (mark_edges code i OVERFLOWED exc) \<Longrightarrow> s = OVERFLOWED"
  by (auto simp: mark_edges_def Let_def swap_OVERFLOWED split: if_splits option.splits)

section \<open>Marks are depths of paths\<close>

definition depth_mark :: "i64 \<Rightarrow> int \<Rightarrow> bool" where
  "depth_mark s d \<longleftrightarrow> s = OVERFLOWED \<or> (\<exists>ls. length ls \<le> 21 \<and> s = packed ls \<and> int (length ls) = d)"

lemma depth_markI: "s = packed ls \<Longrightarrow> int (length ls) = d \<Longrightarrow> depth_mark s d"
  unfolding depth_mark_def by (cases "length ls \<le> 21") (auto simp: packed_full)

lemma depth_mark_set: "depth_mark s d \<Longrightarrow> s \<noteq> UNINITIALIZED"
proof -
  assume "depth_mark s d"
  then have "- 1 \<le> sint s" using packed_nonneg by (auto simp: depth_mark_def intro: order_trans [of _ 0])
  then show "s \<noteq> UNINITIALIZED" by auto
qed

definition reached_with :: "'c CodeObject \<Rightarrow> nat \<Rightarrow> i64 \<Rightarrow> bool" where
  "reached_with code j s \<longleftrightarrow> (\<exists>tr d. runs code tr j d \<and> depth_mark s d)"

lemma edge_depth:
  assumes "plain_code code" "well_stacked code" "reached_with code i cur"
    "(j, s, x) \<in> set (mark_edges code i cur exc)" "j < code_len code"
  shows "reached_with code j s"
proof -
  obtain tr d where r: "runs code tr i d" "depth_mark cur d" using assms(3) by (auto simp: reached_with_def)
  show ?thesis
  proof (cases "s = OVERFLOWED")
    case True
    then show ?thesis using edge_reached [OF assms(1) r(1) assms(4, 5)] by (auto simp: reached_with_def depth_mark_def)
  next
    case False
    then have "cur \<noteq> OVERFLOWED" using edge_overflowed assms(4) by blast
    then obtain ks where ks: "length ks \<le> 21" "cur = packed ks" "int (length ks) = d" using r(2) by (auto simp: depth_mark_def)
    have "entries_used code i \<le> length ks" using well_stackedD(2) [OF assms(2) r(1)] ks(3) by simp
    moreover have "runs code tr i (int (length ks))" "(j, s, x) \<in> set (mark_edges code i (packed ks) exc)"
      using r(1) ks(2, 3) assms(4) by simp_all
    ultimately obtain ls where "s = packed ls" "runs code (i # tr) j (int (length ls))"
      using edge_runs [OF assms(1) _ _ ks(1) _ assms(5)] False by blast
    then show ?thesis unfolding reached_with_def using depth_markI by blast
  qed
qed

lemma join_slots_left:
  "length ls \<le> 21 \<Longrightarrow> join_slots (packed ls) b slots = Some r \<Longrightarrow>
    \<exists>sl. r = slots @ sl \<and> list_all2 kind_le ls (map kind_of sl)"
proof (induction ls arbitrary: b slots r)
  case Nil
  then show ?case by (simp add: join_slots.simps [of EMPTY_STACK])
next
  case (Cons k ls)
  then have len: "length ls \<le> 20" by simp
  obtain j where j: "join_kind (kind_bits k) (top_kind b) = Some j"
      "join_slots (packed ls) (pop_kind b) (slots @ [j]) = Some r"
    using Cons.prems(2) len packed_positive [OF len, of k]
    by (subst (asm) join_slots.simps) (auto simp: packed_entry split: option.splits)
  then obtain sl where "r = (slots @ [j]) @ sl" "list_all2 kind_le ls (map kind_of sl)"
    using Cons.IH [OF _ j(2)] len by auto
  moreover have "kind_le k (kind_of j)"
    using j(1) by (cases k) (auto simp: join_kind_def kind_of_def kind_le_def split: if_splits)
  ultimately show ?case by (intro exI [of _ "j # sl"]) simp
qed

lemma join_depth: "depth_mark a d \<Longrightarrow> depth_mark (join_stacks a b) d"
proof -
  assume d: "depth_mark a d"
  show ?thesis
  proof (cases "a = OVERFLOWED \<or> sint b < 0 \<or> stack_depth a \<noteq> stack_depth b \<or> join_slots a b [] = None")
    case True
    then have "join_stacks a b = OVERFLOWED" by (auto simp: join_stacks_def)
    then show ?thesis by (simp add: depth_mark_def)
  next
    case False
    then obtain ls where ls: "length ls \<le> 21" "a = packed ls" "int (length ls) = d"
      using d by (auto simp: depth_mark_def)
    obtain sl where sl: "join_slots a b [] = Some sl" using False by auto
    then have "join_stacks a b = packed (map kind_of sl)"
      using False ls packed_nonneg [of ls] by (simp add: join_stacks_def fold_push)
    moreover have "list_all2 kind_le ls (map kind_of sl)"
      using join_slots_left [of ls b "[]" sl] sl ls by auto
    ultimately show ?thesis using ls(3) by (auto intro!: depth_markI dest: list_all2_lengthD)
  qed
qed

lemma merge_depth: "cur \<noteq> UNINITIALIZED \<Longrightarrow> reached_with code j cur \<Longrightarrow> reached_with code j (merge_stack cur s)"
  by (auto simp: merge_stack_def reached_with_def intro: join_depth)

definition marks_run :: "'c CodeObject \<Rightarrow> marked \<Rightarrow> bool" where
  "marks_run code m \<longleftrightarrow> length (mk_stacks m) = Suc (code_len code)
    \<and> (\<forall>j < code_len code. mk_stacks m ! j = UNINITIALIZED \<or> reached_with code j (mk_stacks m ! j))"

lemma marks_run_edge:
  assumes "marks_run code (snd st)" "fst e < code_len code \<Longrightarrow> reached_with code (fst e) (fst (snd e))"
  shows "marks_run code (snd (merge_edge e st))"
proof -
  obtain idx s x where e: "e = (idx, s, x)" by (cases e)
  have "snd (merge_edge e st) = snd (merge_mark idx s x (snd st))"
    by (simp add: merge_edge_def e split: prod.splits)
  moreover have "mk_stacks (snd (merge_mark idx s x m)) = (if idx < length (mk_stacks m)
      then (mk_stacks m)[idx := merge_stack (mk_stacks m ! idx) s] else mk_stacks m)" for m
    by (auto simp: merge_mark_def merge_stack_def Let_def)
  moreover have "idx < code_len code \<Longrightarrow> mk_stacks m ! idx = UNINITIALIZED \<or> reached_with code idx (mk_stacks m ! idx) \<Longrightarrow>
      reached_with code idx (merge_stack (mk_stacks m ! idx) s)" for m
    using assms(2) merge_depth
    by (cases "mk_stacks m ! idx = UNINITIALIZED") (simp add: e merge_stack_def, blast)
  ultimately show ?thesis using assms(1) by (auto simp: marks_run_def nth_list_update)
qed

lemma marks_run_instr:
  assumes "plain_code code" "well_stacked code" "i < code_len code" "marks_run code (snd st)"
  shows "marks_run code (snd (mark_instr code i st))"
proof (cases "mk_stacks (snd st) ! i = UNINITIALIZED")
  case False
  let ?cur = "mk_stacks (snd st) ! i" and ?exc = "max 0 (mk_excs (snd st) ! i)"
  have cur: "reached_with code i ?cur" using assms(3, 4) False by (auto simp: marks_run_def)
  have "marks_run code (snd (fold merge_edge es st))" if "set es \<subseteq> set (mark_edges code i ?cur ?exc)" for es
    using that
  proof (induction es rule: rev_induct)
    case (snoc e es)
    have "fst e < code_len code \<Longrightarrow> reached_with code (fst e) (fst (snd e))"
      using snoc.prems edge_depth [OF assms(1, 2) cur] by (cases e) auto
    then show ?case using snoc by (simp add: marks_run_edge)
  qed (use assms(4) in simp)
  then show ?thesis using False by (simp add: mark_instr_def Let_def)
qed (use assms(4) in \<open>simp add: mark_instr_def Let_def\<close>)

lemma kept_depth:
  assumes "depth_mark s d" "int n \<le> d" "n \<le> 21" "pop_to_level s n = Some kept"
  shows "depth_mark (if lasti then push_kind kept K_Lasti else kept) (int n + (if lasti then 1 else 0))"
proof (cases "n = 0")
  case True
  then have "kept = packed []" using assms(4) by (simp add: pop_to_level_def)
  then have "(if lasti then push_kind kept K_Lasti else kept) = packed (if lasti then [K_Lasti] else [])"
    using push_packed [of "[]" K_Lasti] by simp
  from depth_markI [OF this refl] True show ?thesis by (simp split: if_splits)
next
  case n: False
  show ?thesis
  proof (cases "s = OVERFLOWED")
    case True
    have "(0 :: int) \<le> 7 * 8 ^ (n - 1)" by simp
    then have "\<not> sint (push_bit (kind_shift n) KIND_MASK) < - 1" using assms(3) n level_limit [of n] by linarith
    then have "kept = OVERFLOWED"
      using assms(4) n True pop_above_unfold [of "push_bit (kind_shift n) KIND_MASK" OVERFLOWED]
      by (simp add: pop_to_level_def)
    then show ?thesis by (simp add: depth_mark_def)
  next
    case False
    then obtain ls where ls: "length ls \<le> 21" "s = packed ls" "int (length ls) = d"
      using assms(1) by (auto simp: depth_mark_def)
    have "kept = packed (drop (length ls - n) ls)"
      using assms(3, 4) n ls pop_above_packed [of n ls] by (simp add: pop_to_level_def)
    then show ?thesis using ls(3) assms(2)
        depth_markI [of _ "(if lasti then [K_Lasti] else []) @ drop (length ls - n) ls"] by auto
  qed
qed

lemma depth_push: "depth_mark s d \<Longrightarrow> depth_mark (push_kind s k) (d + 1)"
proof -
  assume d: "depth_mark s d"
  show ?thesis
  proof (cases "s = OVERFLOWED")
    case False
    then obtain ls where "s = packed ls" "int (length ls) = d" using d by (auto simp: depth_mark_def)
    then show ?thesis using depth_markI [of _ "k # ls"] by simp
  qed (simp add: depth_mark_def)
qed

lemma handler_depth:
  assumes "plain_code code" "well_stacked code" "h \<in> set (co_exception_table code)"
    "runs code tr (unat (eh_start h)) d" "depth_mark s d" "pop_to_level s (unat (eh_depth h)) = Some kept"
    "unat (eh_handler h) < code_len code"
  shows "reached_with code (unat (eh_handler h)) (push_kind (if eh_push_lasti h then push_kind kept K_Lasti else kept) K_Except)"
proof -
  have n: "unat (eh_depth h) \<le> 21" using assms(1, 3) by (simp add: plain_code_def handlers_fit_def)
  have "int (unat (eh_depth h)) \<le> d" using well_stackedD(5) [OF assms(2, 3, 4)] .
  from depth_push [OF kept_depth [OF assms(5) this n assms(6)]]
  have "depth_mark (push_kind (if eh_push_lasti h then push_kind kept K_Lasti else kept) K_Except) (handler_entry h)"
    by (simp add: handler_entry_def add_ac)
  moreover have "runs code (unat (eh_start h) # tr) (unat (eh_handler h)) (handler_entry h)"
    using runs.raise [OF assms(4, 3) _ _ assms(7)] well_stackedD(3) [OF assms(2, 3)] by (simp add: word_less_nat_alt)
  ultimately show ?thesis unfolding reached_with_def by blast
qed

lemma marks_run_set:
  assumes "marks_run code m" "j < code_len code \<Longrightarrow> reached_with code j s"
  shows "marks_run code (m\<lparr>mk_stacks := (mk_stacks m)[j := s], mk_excs := xs\<rparr>)"
proof -
  have "(mk_stacks m)[j := s] ! i = UNINITIALIZED \<or> reached_with code i ((mk_stacks m)[j := s] ! i)"
    if "i < code_len code" for i
    using assms that by (cases "i = j") (simp_all add: marks_run_def)
  then show ?thesis using assms(1) by (simp add: marks_run_def)
qed

lemma marks_run_handler:
  assumes "plain_code code" "well_stacked code" "h \<in> set (co_exception_table code)" "marks_run code (snd st)"
    "mark_handler h st = Some st'"
  shows "marks_run code (snd st')"
proof -
  let ?m = "snd st" and ?start = "unat (eh_start h)" and ?handler = "unat (eh_handler h)"
  let ?s = "mk_stacks ?m ! ?start"
  show ?thesis
  proof (cases "?s \<noteq> UNINITIALIZED \<and> ?handler < length (mk_stacks ?m) \<and> mk_stacks ?m ! ?handler = UNINITIALIZED")
    case True
    have "?start < unat (eh_end h)" "unat (eh_end h) \<le> code_len code"
      using well_stackedD(3) [OF assms(2, 3)] by (simp_all add: word_less_nat_alt)
    then have start: "?start < code_len code" by simp
    then obtain tr d where r: "runs code tr ?start d" "depth_mark ?s d"
      using assms(4) True by (auto simp: marks_run_def reached_with_def)
    obtain kept where k: "pop_to_level ?s (unat (eh_depth h)) = Some kept"
      "snd st' = ?m\<lparr>mk_stacks := (mk_stacks ?m)[?handler := push_kind (if eh_push_lasti h then push_kind kept K_Lasti else kept) K_Except],
        mk_excs := (mk_excs ?m)[?handler := max 0 (mk_excs ?m ! ?start)]\<rparr>"
      using assms(4, 5) True start by (auto simp: mark_handler_def Let_def marks_run_def split: option.splits)
    show ?thesis
      unfolding k(2) by (rule marks_run_set [OF assms(4) handler_depth [OF assms(1-3) r k(1)]])
  next
    case False
    then have "st' = st" using assms(5) by (auto simp: mark_handler_def Let_def split: if_splits)
    then show ?thesis using assms(4) by simp
  qed
qed

lemma marks_run_handlers:
  assumes "plain_code code" "well_stacked code"
  shows "set hs \<subseteq> set (co_exception_table code) \<Longrightarrow> marks_run code (snd st) \<Longrightarrow> mark_handlers hs st = Some st' \<Longrightarrow>
    marks_run code (snd st')"
proof (induction hs arbitrary: st)
  case (Cons h hs)
  then obtain st1 where "mark_handler h st = Some st1" "mark_handlers hs st1 = Some st'"
    by (auto split: option.splits)
  then show ?case using Cons marks_run_handler [OF assms, of h st st1] by simp
qed simp

lemma marks_run_pass:
  assumes "plain_code code" "well_stacked code" "marks_run code m" "mark_pass code m = Some (c, m')"
  shows "marks_run code m'"
proof -
  have "marks_run code (snd (fold (mark_instr code) is (False, m)))" if "set is \<subseteq> {0..<code_len code}" for "is"
    using that by (induction "is" rule: rev_induct) (use assms(3) in \<open>simp_all add: marks_run_instr [OF assms(1, 2)]\<close>)
  from this [of "[0..<code_len code]"]
  have "marks_run code (snd (fold (mark_instr code) [0..<code_len code] (False, m)))" by auto
  then show ?thesis
    using marks_run_handlers [OF assms(1, 2) order_refl] assms(4) by (fastforce simp: mark_pass_def)
qed

lemma mark_stacks_run:
  assumes "plain_code code" "well_stacked code" "mark_stacks code = Some m"
  shows "marks_run code m"
proof -
  have "mark_loop code m0 = Some r \<Longrightarrow>
      plain_code code \<longrightarrow> well_stacked code \<longrightarrow> marks_run code m0 \<longrightarrow> marks_run code r" for m0 r
    by (rule mark_loop.raw_induct
        [where P = "\<lambda>code m0 r. plain_code code \<longrightarrow> well_stacked code \<longrightarrow> marks_run code m0 \<longrightarrow> marks_run code r"])
      (auto split: option.splits prod.splits if_splits dest: marks_run_pass)
  moreover have "reached_with code 0 EMPTY_STACK" if "0 < code_len code"
    using runs.entry [OF that] depth_markI [of EMPTY_STACK "[]" 0] by (auto simp: reached_with_def)
  then have "marks_run code (mark_start code)"
    by (auto simp: marks_run_def mark_start_def Let_def nth_Cons split: nat.splits)
  ultimately show ?thesis using assms unfolding mark_stacks_def by blast
qed

section \<open>The fixpoint\<close>

text \<open>A pass that reports no change has changed nothing, and no merge of it would.\<close>

lemma merge_quiet: "\<not> fst (merge_edge e st) \<Longrightarrow> merge_edge e st = st"
proof -
  assume q: "\<not> fst (merge_edge e st)"
  obtain idx s x where e: "e = (idx, s, x)" by (cases e)
  obtain c m' where r: "merge_mark idx s x (snd st) = (c, m')" by force
  have "\<not> c \<and> \<not> fst st" using q by (simp add: merge_edge_def e r)
  moreover have "\<not> c \<Longrightarrow> m' = snd st"
    using r by (cases "idx < length (mk_stacks (snd st))") (auto simp: merge_mark_def Let_def)
  ultimately show ?thesis using r by (cases st) (auto simp: merge_edge_def e)
qed

lemma instr_quiet: "\<not> fst (mark_instr code i st) \<Longrightarrow> mark_instr code i st = st"
  unfolding mark_instr_def Let_def using fold_quiet [of merge_edge, OF merge_quiet] by (auto split: if_splits)

lemma handler_quiet: "mark_handler h st = Some st' \<Longrightarrow> \<not> fst st' \<Longrightarrow> st' = st"
  by (auto simp: mark_handler_def Let_def split: if_splits option.splits)

lemma handlers_quiet:
  "mark_handlers hs st = Some st' \<Longrightarrow> \<not> fst st' \<Longrightarrow> st' = st \<and> (\<forall>h \<in> set hs. mark_handler h st = Some st)"
proof (induction hs arbitrary: st)
  case (Cons h hs)
  then obtain st1 where s: "mark_handler h st = Some st1" "mark_handlers hs st1 = Some st'"
    by (auto split: option.splits)
  have i: "st' = st1" "\<forall>h \<in> set hs. mark_handler h st1 = Some st1"
    using Cons.IH [OF s(2) Cons.prems(2)] by auto
  then have "st1 = st" using handler_quiet [OF s(1)] Cons.prems(2) by simp
  then show ?case using i s(1) by auto
qed simp

lemma pass_quiet:
  assumes "mark_pass code m = Some (False, m')"
  shows "m' = m" "\<And>i e. i < length (co_instructions code) \<Longrightarrow> mk_stacks m ! i \<noteq> UNINITIALIZED \<Longrightarrow>
      e \<in> set (mark_edges code i (mk_stacks m ! i) (max 0 (mk_excs m ! i))) \<Longrightarrow> merge_edge e (False, m) = (False, m)"
    "\<And>h. h \<in> set (co_exception_table code) \<Longrightarrow> mark_handler h (False, m) = Some (False, m)"
proof -
  let ?st = "fold (mark_instr code) [0..<length (co_instructions code)] (False, m)"
  have h: "mark_handlers (co_exception_table code) ?st = Some (False, m')"
    using assms by (simp add: mark_pass_def)
  from handlers_quiet [OF h] have st: "?st = (False, m')" by simp
  have q: "?st = (False, m)" "\<forall>i \<in> set [0..<length (co_instructions code)]. mark_instr code i (False, m) = (False, m)"
    using fold_quiet [of "mark_instr code" "[0..<length (co_instructions code)]" "(False, m)", OF instr_quiet] st by auto
  show m': "m' = m" using st q(1) by simp
  show "mark_handler h (False, m) = Some (False, m)" if "h \<in> set (co_exception_table code)" for h
    using handlers_quiet [OF h] st m' that by auto
  show "merge_edge e (False, m) = (False, m)"
    if "i < length (co_instructions code)" "mk_stacks m ! i \<noteq> UNINITIALIZED"
      "e \<in> set (mark_edges code i (mk_stacks m ! i) (max 0 (mk_excs m ! i)))" for i e
  proof -
    let ?es = "mark_edges code i (mk_stacks m ! i) (max 0 (mk_excs m ! i))"
    have f: "fold merge_edge ?es (False, m) = (False, m)"
      using bspec [OF q(2), of i] that by (simp add: mark_instr_def)
    have "fst (fold merge_edge ?es (False, m)) = False" unfolding f by simp
    then have "\<forall>x \<in> set ?es. merge_edge x (False, m) = (False, m)"
      using fold_quiet [of merge_edge ?es "(False, m)", OF merge_quiet] by blast
    then show ?thesis using that(3) by blast
  qed
qed

lemma loop_quiet: "mark_loop code m = Some r \<Longrightarrow> mark_pass code r = Some (False, r)"
  by (rule mark_loop.raw_induct [where P = "\<lambda>code m r. mark_pass code r = Some (False, r)"])
    (use pass_quiet(1) in \<open>auto split: option.splits prod.splits if_splits\<close>)

section \<open>Every path is marked\<close>

lemma merged_set:
  assumes "merge_edge (j, s, e) (False, m) = (False, m)" "j < length (mk_stacks m)"
  shows "mk_stacks m ! j \<noteq> UNINITIALIZED"
  using assms by (auto simp: merge_edge_def merge_mark_def Let_def split: if_splits)

text \<open>The start stays marked.\<close>

definition started :: "'c CodeObject \<Rightarrow> marked \<Rightarrow> bool" where
  "started code m \<longleftrightarrow> length (mk_stacks m) = Suc (code_len code) \<and> depth_mark (mk_stacks m ! 0) 0"

lemma started_edge: "started code (snd st) \<Longrightarrow> started code (snd (merge_edge e st))"
  using depth_mark_set join_depth
  by (cases e; cases "fst e = 0") (auto simp: started_def merge_edge_def merge_mark_def merge_stack_def Let_def)

lemma started_fold: "started code (snd st) \<Longrightarrow> (\<And>x st. started code (snd st) \<Longrightarrow> started code (snd (f x st))) \<Longrightarrow>
    started code (snd (fold f xs st))"
  by (induction xs arbitrary: st) simp_all

lemma started_instr: "started code (snd st) \<Longrightarrow> started code (snd (mark_instr code i st))"
  by (simp add: mark_instr_def Let_def started_fold started_edge)

lemma started_handler: "started code (snd st) \<Longrightarrow> mark_handler h st = Some st' \<Longrightarrow> started code (snd st')"
  using depth_mark_set
  by (cases "unat (eh_handler h) = 0")
    (auto simp: mark_handler_def Let_def started_def split: if_splits option.splits)

lemma started_handlers: "started code (snd st) \<Longrightarrow> mark_handlers hs st = Some st' \<Longrightarrow> started code (snd st')"
  by (induction hs arbitrary: st) (auto split: option.splits dest: started_handler)

lemma started_pass: "started code m \<Longrightarrow> mark_pass code m = Some (c, m') \<Longrightarrow> started code m'"
  unfolding mark_pass_def by (drule started_handlers [rotated]) (simp_all add: started_fold started_instr)

lemma started_loop: "mark_loop code m = Some r \<Longrightarrow> started code m \<longrightarrow> started code r"
  by (rule mark_loop.raw_induct [where P = "\<lambda>code m r. started code m \<longrightarrow> started code r"])
    (auto split: option.splits prod.splits if_splits dest: started_pass)

lemma mark_stacks_started: "mark_stacks code = Some m \<Longrightarrow> started code m"
  unfolding mark_stacks_def
  by (drule started_loop)
    (use depth_markI [of EMPTY_STACK "[]" 0] in \<open>simp add: started_def mark_start_def Let_def\<close>)

lemma edge_marked:
  assumes "mark_stacks code = Some m" "i < code_len code" "mk_stacks m ! i \<noteq> UNINITIALIZED" "j < code_len code"
    "\<And>cur exc. j \<in> fst ` set (mark_edges code i cur exc)"
  shows "mk_stacks m ! j \<noteq> UNINITIALIZED"
proof -
  have p: "mark_pass code m = Some (False, m)" using assms(1) loop_quiet by (simp add: mark_stacks_def)
  obtain s e where e: "(j, s, e) \<in> set (mark_edges code i (mk_stacks m ! i) (max 0 (mk_excs m ! i)))"
    using assms(5) by fastforce
  have "merge_edge (j, s, e) (False, m) = (False, m)" by (rule pass_quiet(2) [OF p assms(2, 3) e])
  then show ?thesis using merged_set mark_stacks_started [OF assms(1)] assms(4) by (simp add: started_def)
qed

lemma runs_marked:
  assumes "mark_stacks code = Some m" "plain_code code" "well_stacked code" "runs code tr i d"
  shows "\<forall>j \<in> set (i # tr). mk_stacks m ! j \<noteq> UNINITIALIZED"
  using assms(4)
proof induction
  case entry
  then show ?case using mark_stacks_started [OF assms(1)] depth_mark_set by (auto simp: started_def)
next
  case (raise tr i d h)
  have len: "length (mk_stacks m) = Suc (code_len code)" using mark_stacks_started [OF assms(1)] by (simp add: started_def)
  have "unat (eh_start h) \<in> set (i # tr)"
    using well_stackedD(4) [OF assms(3) raise.hyps(2, 1, 3, 4)] .
  then have start: "mk_stacks m ! unat (eh_start h) \<noteq> UNINITIALIZED" using raise.IH by blast
  have p: "mark_handler h (False, m) = Some (False, m)"
    using pass_quiet(3) [OF loop_quiet] assms(1) raise.hyps(2) unfolding mark_stacks_def by blast
  have "unat (eh_start h) < Suc (code_len code)"
    using well_stackedD(3) [OF assms(3) raise.hyps(2)] by (simp add: word_less_nat_alt)
  then have "mk_stacks m ! unat (eh_handler h) \<noteq> UNINITIALIZED"
    using p start raise.hyps(5) len by (auto simp: mark_handler_def Let_def split: if_splits option.splits)
  then show ?case using raise.IH by auto
next
  case (fall tr i d)
  then show ?case using edge_marked [OF assms(1) runs_in_code [OF fall.hyps(1)] _ fall.hyps(3) fall_edge [OF fall.hyps(2)]] by simp
next
  case (forward tr i d)
  note i = runs_in_code [OF forward.hyps(1)]
  show ?case
    using edge_marked [OF assms(1) i _ forward.hyps(3) [unfolded forward_at_eq [OF assms(2) i]] jump_edge(1)] forward.hyps(2) forward.IH
    by (simp add: forward_at_eq [OF assms(2) i])
next
  case (backward tr i d)
  note i = runs_in_code [OF backward.hyps(1)]
  show ?case
    using edge_marked [OF assms(1) i _ backward.hyps(3) [unfolded backward_at_eq [OF assms(2) i]] jump_edge(2)] backward.hyps(2) backward.IH
    by (simp add: backward_at_eq [OF assms(2) i])
next
  case (branch tr i d)
  note i = runs_in_code [OF branch.hyps(1)]
  show ?case
    using edge_marked [OF assms(1) i _ branch.hyps(3) [unfolded forward_at_eq [OF assms(2) i]] jump_edge(1)] branch.hyps(2) branch.IH
    by (simp add: forward_at_eq [OF assms(2) i])
qed

text \<open>The two directions together.\<close>

lemma marks_are_depths:
  assumes "mark_stacks code = Some m" "plain_code code" "well_stacked code" "i < code_len code"
  shows "mk_stacks m ! i \<noteq> UNINITIALIZED \<longleftrightarrow> (\<exists>tr d. runs code tr i d)"
    "runs code tr i d \<Longrightarrow> depth_mark (mk_stacks m ! i) d"
proof -
  have r: "mk_stacks m ! i = UNINITIALIZED \<or> reached_with code i (mk_stacks m ! i)"
    using mark_stacks_run [OF assms(2, 3, 1)] assms(4) by (simp add: marks_run_def)
  show "mk_stacks m ! i \<noteq> UNINITIALIZED \<longleftrightarrow> (\<exists>tr d. runs code tr i d)"
    using r runs_marked [OF assms(1-3)] by (auto simp: reached_with_def)
  show "depth_mark (mk_stacks m ! i) d" if "runs code tr i d"
  proof -
    have "mk_stacks m ! i \<noteq> UNINITIALIZED" using runs_marked [OF assms(1-3) that] by simp
    then obtain tr' d' where "runs code tr' i d'" "depth_mark (mk_stacks m ! i) d'"
      using r by (auto simp: reached_with_def)
    then show ?thesis using well_stackedD(1) [OF assms(3) that] by blast
  qed
qed

section \<open>A table of depths\<close>

text \<open>\<open>well_stacked\<close> can be read off a table of depths that every step agrees with.\<close>

definition depth_table :: "'c CodeObject \<Rightarrow> int list \<Rightarrow> bool" where
  "depth_table code ds \<longleftrightarrow> ds ! 0 = 0
    \<and> (\<forall>i \<in> set [0..<code_len code]. int (entries_used code i) \<le> ds ! i
        \<and> (falls (op_at code i) \<and> Suc i < code_len code \<longrightarrow> ds ! Suc i = max 0 (ds ! i + effect_at code i))
        \<and> (op_at code i = O_JumpForward \<and> forward_at code i < code_len code \<longrightarrow> ds ! forward_at code i = ds ! i)
        \<and> (op_at code i = O_JumpBackward \<and> backward_at code i < code_len code \<longrightarrow> ds ! backward_at code i = ds ! i)
        \<and> (branches (op_at code i) \<and> forward_at code i < code_len code \<longrightarrow>
            ds ! forward_at code i = max 0 (ds ! i + jump_at code i)))
    \<and> (\<forall>h \<in> set (co_exception_table code). eh_start h < eh_end h \<and> unat (eh_end h) \<le> code_len code
        \<and> ds ! unat (eh_handler h) = handler_entry h \<and> int (unat (eh_depth h)) \<le> ds ! unat (eh_start h))"

lemma runs_table: "runs code tr i d \<Longrightarrow> depth_table code ds \<Longrightarrow> d = ds ! i"
proof (induction rule: runs.induct)
  case entry
  then show ?case by (simp add: depth_table_def)
next
  case (raise tr i d h)
  then show ?case by (simp add: depth_table_def)
qed (use runs_in_code in \<open>fastforce simp: depth_table_def\<close>)+

lemma runs_from_start: "runs code tr i d \<Longrightarrow> 0 \<in> set (i # tr)"
  by (induction rule: runs.induct) auto

lemma well_stackedI:
  assumes "depth_table code ds" "\<And>h. h \<in> set (co_exception_table code) \<Longrightarrow> eh_start h = 0"
  shows "well_stacked code"
proof -
  note t = runs_table [OF _ assms(1)]
  have "int (entries_used code i) \<le> d" if "runs code tr i d" for tr i d
    using t [OF that] runs_in_code [OF that] assms(1) by (simp add: depth_table_def)
  moreover have "int (unat (eh_depth h)) \<le> d" if "h \<in> set (co_exception_table code)" "runs code tr (unat (eh_start h)) d" for h tr d
    using t [OF that(2)] that(1) assms(1) by (simp add: depth_table_def)
  moreover have "unat (eh_start h) \<in> set (i # tr)" if "h \<in> set (co_exception_table code)" "runs code tr i d" for h tr i d
    using runs_from_start [OF that(2)] assms(2) [OF that(1)] by simp
  moreover have "d = e" if "runs code tr i d" "runs code tr' i e" for tr tr' i d e using t that by metis
  ultimately show ?thesis using assms(1) unfolding well_stacked_def depth_table_def by blast
qed

end
