(* ===== verification/Jump_Bound.thy ===== *)
theory Jump_Bound
  imports Jump_Plan
begin

text \<open>
  The exit slots: \<open>mark_bound_exits\<close> always returns, and an exit slot it says is bound at an
  instruction is bound on every path there, as long as there are fewer than 64 of them (with
  all 64 bound a reached offset would look unreached).
\<close>

section \<open>Termination\<close>

lemma and_less: "w AND v \<noteq> w \<Longrightarrow> unat (w AND v) < unat w" for w :: u64
proof -
  assume "w AND v \<noteq> w"
  moreover have "w AND v \<le> w" by (rule word_and_le2)
  ultimately have "w AND v < w" by simp
  then show ?thesis by (simp add: word_less_nat_alt)
qed

definition bound_progress :: "u64 list \<Rightarrow> bool \<times> u64 list \<Rightarrow> bool" where
  "bound_progress b0 st \<longleftrightarrow> length (snd st) = length b0 \<and>
    (if fst st then sum_list (map unat (snd st)) < sum_list (map unat b0) else snd st = b0)"

lemma sum_list_update_less:
  "i < length xs \<Longrightarrow> y < xs ! i \<Longrightarrow> sum_list (xs[i := y]) < sum_list xs" for xs :: "nat list"
proof (induction xs arbitrary: i)
  case (Cons x xs)
  then show ?case by (cases i) auto
qed simp

lemma meet_progress: "bound_progress b0 st \<Longrightarrow> bound_progress b0 (meet idx v st)"
proof -
  assume p: "bound_progress b0 st"
  show ?thesis
  proof (cases "idx < length (snd st) \<and> snd st ! idx AND v \<noteq> snd st ! idx")
    case True
    have "sum_list (map unat ((snd st)[idx := snd st ! idx AND v])) < sum_list (map unat (snd st))"
      using True and_less by (simp add: map_update sum_list_update_less)
    then show ?thesis using p True by (auto simp: bound_progress_def meet_def Let_def split: if_splits)
  qed (use p in \<open>auto simp: meet_def Let_def\<close>)
qed

lemma pass_progress: "bound_progress b (bound_pass code slot_bits b)"
proof -
  have i: "bound_progress b (bound_instr code slot_bits i st)" if "bound_progress b st" for i st
  proof (cases "snd st ! i = BOUND_TOP")
    case False
    have "bound_progress b (fold (\<lambda>(idx, v). meet idx v) es st)" for es
      by (rule fold_keeps_inv [of "bound_progress b", OF that]) (auto simp: meet_progress)
    then show ?thesis using False by (simp add: bound_instr_def)
  qed (use that in \<open>simp add: bound_instr_def\<close>)
  have h: "bound_progress b (bound_handler n h st)" if "bound_progress b st" for n h st
    unfolding bound_handler_def
    by (rule fold_keeps_inv [of "bound_progress b", OF that]) (simp add: bound_raise_def Let_def meet_progress)
  have "bound_progress b (False, b)" by (simp add: bound_progress_def)
  then show ?thesis
    unfolding bound_pass_def Let_def by (intro fold_keeps_inv [of "bound_progress b"] i h)
qed

lemma bound_loop_unfold:
  "bound_loop code sb b = (case bound_pass code sb b of (todo, b') \<Rightarrow> if todo then bound_loop code sb b' else Some b')"
  by (subst bound_loop.simps) simp

lemma bound_loop_returns: "\<exists>r. bound_loop code sb b = Some r"
proof (induction "sum_list (map unat b)" arbitrary: b rule: less_induct)
  case less
  obtain todo b' where p: "bound_pass code sb b = (todo, b')" by force
  show ?case
  proof (cases todo)
    case True
    then have "sum_list (map unat b') < sum_list (map unat b)"
      using pass_progress [of b code sb] p by (simp add: bound_progress_def)
    from less [OF this] show ?thesis using p True by (subst bound_loop_unfold) simp
  next
    case False
    then show ?thesis using p by (subst bound_loop_unfold) simp
  qed
qed

lemma mark_bound_exits_returns: "\<exists>r. mark_bound_exits code = Some r"
  using bound_loop_returns by (fastforce simp: mark_bound_exits_def split: option.splits)

section \<open>The bits of the slots\<close>

definition slot_no :: "string list \<Rightarrow> nat \<Rightarrow> nat" where
  "slot_no names k = length (filter is_exit_name (take k names))"

lemma exit_bits_nth:
  "exit_bits names b = Some sb \<Longrightarrow> length sb = length names \<and>
    (\<forall>k < length names. if is_exit_name (names ! k)
       then b + slot_no names k < 64 \<and> sb ! k = push_bit (b + slot_no names k) 1 else sb ! k = 0)"
proof (induction names arbitrary: b sb)
  case (Cons name names)
  define c where "c = (if is_exit_name name then b + 1 else b)"
  obtain sb' where sb: "exit_bits names c = Some sb'" "sb = (if is_exit_name name then push_bit b 1 else 0) # sb'"
    "is_exit_name name \<Longrightarrow> b < 64"
    using Cons.prems by (auto simp: c_def split: if_splits)
  have ih: "length sb' = length names" "\<And>k. k < length names \<Longrightarrow> if is_exit_name (names ! k)
      then c + slot_no names k < 64 \<and> sb' ! k = push_bit (c + slot_no names k) 1 else sb' ! k = 0"
    using Cons.IH [OF sb(1)] by auto
  have shift: "b + slot_no (name # names) (Suc k) = c + slot_no names k" for k
    by (simp add: slot_no_def c_def)
  show ?case
  proof (intro conjI allI impI)
    fix k assume k: "k < length (name # names)"
    show "if is_exit_name ((name # names) ! k)
       then b + slot_no (name # names) k < 64 \<and> sb ! k = push_bit (b + slot_no (name # names) k) 1 else sb ! k = 0"
    proof (cases k)
      case 0
      then show ?thesis using sb by (simp add: slot_no_def)
    next
      case (Suc j)
      then show ?thesis using ih(2) [of j] k by (simp add: sb(2) shift)
    qed
  qed (use ih(1) sb(2) in simp)
qed simp

lemma slot_no_inject:
  "j < length names \<Longrightarrow> k < length names \<Longrightarrow> is_exit_name (names ! j) \<Longrightarrow> is_exit_name (names ! k) \<Longrightarrow>
    slot_no names j = slot_no names k \<Longrightarrow> j = k"
proof (rule ccontr)
  have less: "slot_no names i < slot_no names l" if "i < l" "l < length names" "is_exit_name (names ! i)" for i l
  proof -
    have "take l names = take i names @ names ! i # drop (Suc i) (take l names)"
      using id_take_nth_drop [of i "take l names"] that by (simp add: min_def)
    then have "filter is_exit_name (take l names) = filter is_exit_name (take i names) @ names ! i # filter is_exit_name (drop (Suc i) (take l names))"
      using that(3) by (metis filter.simps(2) filter_append)
    then show ?thesis using that by (simp add: slot_no_def)
  qed
  assume "j < length names" "k < length names" "is_exit_name (names ! j)" "is_exit_name (names ! k)"
    "slot_no names j = slot_no names k" "j \<noteq> k"
  then show False using less [of j k] less [of k j] by (cases "j < k") auto
qed

section \<open>Executions\<close>

text \<open>
  The locals that are bound along an execution. An instruction may bind more than these rules
  say; \<open>LoadFastAndClear\<close> unbinds its local, which \<open>mark_bound_exits\<close> does not look at.
\<close>

definition local_flow :: "'c CodeObject \<Rightarrow> nat \<Rightarrow> nat set \<Rightarrow> (nat \<times> nat set) list" where
  "local_flow code i S =
    (let ins = co_instructions code ! i; opc = ins_op ins; arg = unat (ins_arg ins);
         next_i = Suc i
     in
     if opc = O_StoreFast then [(next_i, insert arg S)]
     else if opc \<in> {O_DeleteFast, O_LoadFastAndClear} then [(next_i, S - {arg})]
     else if is_cond_jump opc \<or> opc = O_ForIter \<or> opc = O_Send then [(next_i + arg, S), (next_i, S)]
     else if opc = O_JumpForward then [(next_i + arg, S)]
     else if opc = O_JumpBackward then [(next_i - arg, S)]
     else if opc \<in> {O_ReturnValue, O_RaiseVarargs, O_Reraise} then []
     else [(next_i, S)])"

inductive slots_at :: "'c CodeObject \<Rightarrow> nat \<Rightarrow> nat set \<Rightarrow> bool" for code where
    entry: "slots_at code 0 S"
  | flow: "slots_at code i S \<Longrightarrow> i < length (co_instructions code) \<Longrightarrow>
      (j, T) \<in> set (local_flow code i S) \<Longrightarrow> T \<subseteq> U \<Longrightarrow> slots_at code j U"
  | raise: "slots_at code i S \<Longrightarrow> h \<in> set (co_exception_table code) \<Longrightarrow> unat (eh_start h) \<le> i \<Longrightarrow>
      i < min (unat (eh_end h)) (length (co_instructions code)) \<Longrightarrow> slots_at code (unat (eh_handler h)) S"

definition keeps_exits :: "'c CodeObject \<Rightarrow> bool" where
  "keeps_exits code \<longleftrightarrow> (\<forall>ins \<in> set (co_instructions code). ins_op ins = O_LoadFastAndClear \<longrightarrow>
    unat (ins_arg ins) < length (co_varnames code) \<longrightarrow> \<not> is_exit_name (co_varnames code ! unat (ins_arg ins)))"

text \<open>Every slot whose bit is set is bound, and the bit that would hide a reached offset is not set.\<close>

definition slots_hold :: "string list \<Rightarrow> u64 \<Rightarrow> nat set \<Rightarrow> bool" where
  "slots_hold names w S \<longleftrightarrow> \<not> bit w 63 \<and>
    (\<forall>k < length names. is_exit_name (names ! k) \<longrightarrow> bit w (slot_no names k) \<longrightarrow> k \<in> S)"

lemma slots_hold_mono: "slots_hold names w S \<Longrightarrow> S \<subseteq> T \<Longrightarrow> slots_hold names w T"
  by (auto simp: slots_hold_def)

lemma slots_hold_and: "slots_hold names w S \<Longrightarrow> slots_hold names (v AND w) S"
  by (auto simp: slots_hold_def bit_simps)

lemma slots_hold_reached: "slots_hold names w S \<Longrightarrow> w \<noteq> BOUND_TOP"
  by (auto simp: slots_hold_def BOUND_TOP_def)

lemma slot_no_less: "k < length names \<Longrightarrow> is_exit_name (names ! k) \<Longrightarrow> slot_no names k < length (filter is_exit_name names)"
proof -
  assume k: "k < length names" "is_exit_name (names ! k)"
  then have "names = take k names @ names ! k # drop (Suc k) names" by (simp add: id_take_nth_drop)
  then have "filter is_exit_name names = filter is_exit_name (take k names) @ names ! k # filter is_exit_name (drop (Suc k) names)"
    using k(2) by (metis filter.simps(2) filter_append)
  then show ?thesis by (simp add: slot_no_def)
qed

lemma slots_hold_flow:
  assumes sb: "exit_bits (co_varnames code) 0 = Some sb"
    and few: "length (filter is_exit_name (co_varnames code)) < 64" and keep: "keeps_exits code"
    and i: "i < length (co_instructions code)" and S: "slots_hold (co_varnames code) w S"
    and j: "(j, T) \<in> set (local_flow code i S)"
  shows "\<exists>v. (j, v) \<in> set (bound_edges code sb i w) \<and> slots_hold (co_varnames code) v T"
proof -
  let ?names = "co_varnames code" and ?ins = "co_instructions code ! i"
  let ?arg = "unat (ins_arg ?ins)"
  note sbn = exit_bits_nth [OF sb]
  have bit_sb: "bit (get_or sb k 0) p \<longleftrightarrow> k < length ?names \<and> is_exit_name (?names ! k) \<and> p = slot_no ?names k"
    if "p < 64" for k p
  proof (cases "k < length ?names")
    case True
    then have "if is_exit_name (?names ! k) then slot_no ?names k < 64 \<and> sb ! k = push_bit (slot_no ?names k) 1 else sb ! k = 0"
      using sbn by auto
    then show ?thesis using True sbn that
      by (auto simp: get_or_def bit_exp_iff split: if_splits)
  qed (use sbn in \<open>simp add: get_or_def\<close>)
  have small: "slot_no ?names k < 63" if "k < length ?names" "is_exit_name (?names ! k)" for k
    using slot_no_less [OF that] few by simp
  have S1: "slots_hold ?names (w OR get_or sb ?arg 0) (insert ?arg S)"
    unfolding slots_hold_def
  proof (intro conjI allI impI)
    show "\<not> bit (w OR get_or sb ?arg 0) 63"
      using S bit_sb [of 63 ?arg] small [of ?arg] by (auto simp: slots_hold_def bit_or_iff)
    fix k assume k: "k < length ?names" "is_exit_name (?names ! k)" "bit (w OR get_or sb ?arg 0) (slot_no ?names k)"
    show "k \<in> insert ?arg S"
    proof (cases "bit w (slot_no ?names k)")
      case True
      then show ?thesis using S k by (auto simp: slots_hold_def)
    next
      case False
      then have "bit (get_or sb ?arg 0) (slot_no ?names k)" using k(3) by (simp add: bit_or_iff)
      then show ?thesis using bit_sb [of "slot_no ?names k" ?arg] small [OF k(1, 2)] slot_no_inject [of k ?names ?arg] k by simp
    qed
  qed
  have S2: "slots_hold ?names (w AND NOT (get_or sb ?arg 0)) (S - {?arg})"
    unfolding slots_hold_def
  proof (intro conjI allI impI)
    show "\<not> bit (w AND NOT (get_or sb ?arg 0)) 63"
      using S by (simp add: slots_hold_def bit_and_iff)
    fix k assume k: "k < length ?names" "is_exit_name (?names ! k)" "bit (w AND NOT (get_or sb ?arg 0)) (slot_no ?names k)"
    then have "bit w (slot_no ?names k)" "\<not> bit (get_or sb ?arg 0) (slot_no ?names k)"
      by (simp_all add: bit_and_iff bit_not_iff)
    then show "k \<in> S - {?arg}"
      using S k(1, 2) bit_sb [of "slot_no ?names k" ?arg] small [OF k(1, 2)] by (auto simp: slots_hold_def)
  qed
  have S3: "slots_hold ?names w (S - {?arg})" if "ins_op ?ins = O_LoadFastAndClear"
    using S keep i that by (auto simp: slots_hold_def keeps_exits_def)
  note defs = local_flow_def bound_edges_def Let_def
  consider (store) "ins_op ?ins = O_StoreFast" | (delete) "ins_op ?ins = O_DeleteFast"
    | (clear) "ins_op ?ins = O_LoadFastAndClear"
    | (other) "ins_op ?ins \<noteq> O_StoreFast" "ins_op ?ins \<noteq> O_DeleteFast" "ins_op ?ins \<noteq> O_LoadFastAndClear"
    by blast
  then show ?thesis
  proof cases
    case store
    then show ?thesis using j S1 by (simp add: defs)
  next
    case delete
    then show ?thesis using j S2 by (simp add: defs)
  next
    case clear
    then show ?thesis using j S3 by (simp add: defs is_cond_jump_def)
  next
    case other
    then have "bound_edges code sb i w = map (\<lambda>(j, T). (j, w)) (local_flow code i S)"
      "\<forall>e \<in> set (local_flow code i S). snd e = S"
      by (simp_all add: defs)
    then show ?thesis using j S by (intro exI [of _ w]) force
  qed
qed

section \<open>The fixpoint\<close>

lemma meet_quiet: "\<not> fst (meet idx v st) \<Longrightarrow> meet idx v st = st \<and> (idx < length (snd st) \<longrightarrow> snd st ! idx = snd st ! idx AND v)"
  by (auto simp: meet_def Let_def split: if_splits)

lemma meet_pair_quiet: "\<not> fst ((\<lambda>(idx, v). meet idx v) e st) \<Longrightarrow> (\<lambda>(idx, v). meet idx v) e st = st"
  using meet_quiet by (cases e) auto

lemma bound_instr_quiet: "\<not> fst (bound_instr code sb i st) \<Longrightarrow> bound_instr code sb i st = st"
proof (cases "snd st ! i = BOUND_TOP")
  case False
  then show "\<not> fst (bound_instr code sb i st) \<Longrightarrow> bound_instr code sb i st = st"
    using fold_quiet [of "\<lambda>(idx, v). meet idx v" "bound_edges code sb i (snd st ! i)" st, OF meet_pair_quiet]
    by (simp add: bound_instr_def)
qed (simp add: bound_instr_def)

lemma bound_raise_quiet: "\<not> fst (bound_raise h i st) \<Longrightarrow> bound_raise h i st = st"
  unfolding bound_raise_def Let_def using meet_quiet by (auto split: if_splits)

lemma bound_handler_quiet: "\<not> fst (bound_handler n h st) \<Longrightarrow> bound_handler n h st = st"
  unfolding bound_handler_def using fold_quiet [of "bound_raise h", OF bound_raise_quiet] by blast

lemma bound_pass_quiet:
  assumes "bound_pass code sb b = (False, b')"
  shows "b' = b"
    "\<And>i idx v. i < length (co_instructions code) \<Longrightarrow> b ! i \<noteq> BOUND_TOP \<Longrightarrow> (idx, v) \<in> set (bound_edges code sb i (b ! i)) \<Longrightarrow>
      idx < length b \<Longrightarrow> b ! idx = b ! idx AND v"
    "\<And>h i. h \<in> set (co_exception_table code) \<Longrightarrow> unat (eh_start h) \<le> i \<Longrightarrow>
      i < min (unat (eh_end h)) (length (co_instructions code)) \<Longrightarrow> b ! i \<noteq> BOUND_TOP \<Longrightarrow>
      unat (eh_handler h) < length b \<Longrightarrow> b ! unat (eh_handler h) = b ! unat (eh_handler h) AND b ! i"
proof -
  let ?n = "length (co_instructions code)"
  let ?st = "fold (bound_instr code sb) [0..<?n] (False, b)"
  have r: "fold (bound_handler ?n) (co_exception_table code) ?st = (False, b')"
    using assms by (simp add: bound_pass_def Let_def)
  then have hs: "?st = (False, b')" "\<forall>h \<in> set (co_exception_table code). bound_handler ?n h ?st = ?st"
    using fold_quiet [of "bound_handler ?n" "co_exception_table code" ?st, OF bound_handler_quiet] by auto
  then have isq: "?st = (False, b)" "\<forall>i \<in> set [0..<?n]. bound_instr code sb i (False, b) = (False, b)"
    using fold_quiet [of "bound_instr code sb" "[0..<?n]" "(False, b)", OF bound_instr_quiet] by auto
  show b: "b' = b" using hs(1) isq(1) by simp
  show "b ! idx = b ! idx AND v"
    if e: "i < ?n" "b ! i \<noteq> BOUND_TOP" "(idx, v) \<in> set (bound_edges code sb i (b ! i))" "idx < length b" for i idx v
  proof -
    have "fold (\<lambda>(idx, v). meet idx v) (bound_edges code sb i (b ! i)) (False, b) = (False, b)"
      using bspec [OF isq(2), of i] e by (simp add: bound_instr_def)
    then have "meet idx v (False, b) = (False, b)"
      using fold_quiet [of "\<lambda>(idx, v). meet idx v" "bound_edges code sb i (b ! i)" "(False, b)", OF meet_pair_quiet] e(3)
      by auto
    then show ?thesis using meet_quiet [of idx v "(False, b)"] e(4) by simp
  qed
  show "b ! unat (eh_handler h) = b ! unat (eh_handler h) AND b ! i"
    if e: "h \<in> set (co_exception_table code)" "unat (eh_start h) \<le> i" "i < min (unat (eh_end h)) ?n"
      "b ! i \<noteq> BOUND_TOP" "unat (eh_handler h) < length b" for h i
  proof -
    have "bound_handler ?n h (False, b) = (False, b)" using hs isq(1) e(1) by simp
    then have "bound_raise h i (False, b) = (False, b)"
      using fold_quiet [of "bound_raise h" "[unat (eh_start h)..<min (unat (eh_end h)) ?n]" "(False, b)", OF bound_raise_quiet] e(2, 3)
      by (simp add: bound_handler_def)
    then have "meet (unat (eh_handler h)) (b ! i) (False, b) = (False, b)"
      using e(4) by (simp add: bound_raise_def)
    then show ?thesis using meet_quiet [of "unat (eh_handler h)" "b ! i" "(False, b)"] e(5) by simp
  qed
qed

lemma bound_loop_quiet: "bound_loop code sb b = Some r \<Longrightarrow> bound_pass code sb r = (False, r)"
  by (rule bound_loop.raw_induct [where P = "\<lambda>code sb b r. bound_pass code sb r = (False, r)"])
    (use bound_pass_quiet(1) in \<open>auto split: prod.splits if_splits\<close>)

definition bound_started :: "'c CodeObject \<Rightarrow> u64 list \<Rightarrow> bool" where
  "bound_started code b \<longleftrightarrow> length b = Suc (length (co_instructions code)) \<and> b ! 0 = 0"

lemma started_meet: "bound_started code (snd st) \<Longrightarrow> bound_started code (snd (meet idx v st))"
  by (cases "idx = 0") (auto simp: bound_started_def meet_def Let_def)

lemma bound_started_pass: "bound_started code b \<Longrightarrow> bound_started code (snd (bound_pass code sb b))"
proof -
  let ?P = "\<lambda>st. bound_started code (snd st)"
  assume b: "bound_started code b"
  have i: "?P (bound_instr code sb i st)" if "?P st" for i st
  proof (cases "snd st ! i = BOUND_TOP")
    case False
    have "?P (fold (\<lambda>(idx, v). meet idx v) es st)" for es
      by (rule fold_keeps_inv [of ?P, OF that]) (auto simp: started_meet)
    then show ?thesis using False by (simp add: bound_instr_def)
  qed (use that in \<open>simp add: bound_instr_def\<close>)
  have h: "?P (bound_handler n h st)" if "?P st" for n h st
    unfolding bound_handler_def
    by (rule fold_keeps_inv [of ?P, OF that]) (simp add: bound_raise_def Let_def started_meet)
  show ?thesis unfolding bound_pass_def Let_def by (intro fold_keeps_inv [of ?P] i h) (simp add: b)
qed

lemma bound_started_step: "bound_pass code sb b = (c, b') \<Longrightarrow> bound_started code b \<Longrightarrow> bound_started code b'"
  using bound_started_pass [of code b sb] by simp

lemma bound_started_loop: "bound_loop code sb b = Some r \<Longrightarrow> bound_started code b \<longrightarrow> bound_started code r"
  by (rule bound_loop.raw_induct [where P = "\<lambda>code sb b r. bound_started code b \<longrightarrow> bound_started code r"])
    (auto split: prod.splits if_splits dest: bound_started_step)

lemma bound_exits_hold:
  assumes r: "mark_bound_exits code = Some (Some r)" and sb: "exit_bits (co_varnames code) 0 = Some sb"
    and few: "length (filter is_exit_name (co_varnames code)) < 64" and keep: "keeps_exits code"
    and "slots_at code i S" "i \<le> length (co_instructions code)"
  shows "slots_hold (co_varnames code) (r ! i) S"
proof -
  have loop: "bound_loop code sb (0 # replicate (length (co_instructions code)) BOUND_TOP) = Some r"
    using r sb by (auto simp: mark_bound_exits_def split: if_splits)
  have start: "bound_started code r"
    using bound_started_loop [OF loop] by (simp add: bound_started_def)
  note quiet = bound_pass_quiet(2, 3) [OF bound_loop_quiet [OF loop]]
  show ?thesis
    using assms(5, 6)
  proof (induction rule: slots_at.induct)
    case (entry S)
    then show ?case using start by (simp add: bound_started_def slots_hold_def)
  next
    case (flow i S j T U)
    then have S: "slots_hold (co_varnames code) (r ! i) S" by simp
    obtain v where v: "(j, v) \<in> set (bound_edges code sb i (r ! i))" "slots_hold (co_varnames code) v T"
      using slots_hold_flow [OF sb few keep flow.hyps(2) S flow.hyps(3)] by blast
    have "r ! j = r ! j AND v"
      using quiet(1) [OF flow.hyps(2) slots_hold_reached [OF S] v(1)] flow.prems start
      by (simp add: bound_started_def)
    then show ?case using slots_hold_and [OF v(2), of "r ! j"] slots_hold_mono flow.hyps(4) by metis
  next
    case (raise i S h)
    then have S: "slots_hold (co_varnames code) (r ! i) S" by simp
    have "r ! unat (eh_handler h) = r ! unat (eh_handler h) AND r ! i"
      using quiet(2) [OF raise.hyps(2, 3, 4) slots_hold_reached [OF S]] raise.prems start
      by (simp add: bound_started_def)
    then show ?case using slots_hold_and [OF S, of "r ! unat (eh_handler h)"] by metis
  qed
qed

end
