(* ===== verification/Jump_Search.thy ===== *)
theory Jump_Search
  imports Jump_Sound Jump_Bound
begin

text \<open>
  The choice of the target: which offsets a jump may go to, the one the search takes, and its
  line.
\<close>

section \<open>Lines\<close>

lemma length_marklines_from: "length (marklines_from code is last_line) = length is"
  by (induction "is" arbitrary: last_line) (simp_all add: Let_def)

lemma marklines_from_nth:
  "k < length is \<Longrightarrow> marklines_from code is last_line ! k \<in> {- 1, int (line_at code (is ! k))}"
proof (induction "is" arbitrary: last_line k)
  case (Cons i "is")
  then show ?case by (cases k) (auto simp: Let_def)
qed simp

lemma length_marklines [simp]: "length (marklines code) = length (co_instructions code)"
  by (simp add: marklines_def length_marklines_from)

lemma marklines_nth:
  "i < length (co_instructions code) \<Longrightarrow> marklines code ! i = - 1 \<or> marklines code ! i = int (line_at code i)"
  using marklines_from_nth [of i "[0..<length (co_instructions code)]" code "- 1"] by (simp add: marklines_def)

lemma line_at_less: "line_at code i < 2 ^ 32"
  using unsigned_less [of "get_or (co_linetable code) i 0"] by (simp add: line_at_def)

lemma first_lineno_pos: "1 \<le> first_lineno code"
proof (cases "find (\<lambda>l. 0 < l) (co_linetable code)")
  case (Some l)
  then have "0 < unat l" by (auto simp: find_Some_iff unat_gt_0 word_neq_0_conv)
  then have "1 \<le> int (unat l)" by linarith
  then show ?thesis using Some by (simp add: first_lineno_def)
qed (simp add: first_lineno_def)

text \<open>The least line of a reachable line start at or after the one asked for.\<close>

lemma first_line_fold:
  fixes f :: "nat \<Rightarrow> int \<Rightarrow> int"
  assumes "f = (\<lambda>i r. if new \<le> lines ! i \<and> lines ! i < r \<and> stacks ! i \<noteq> UNINITIALIZED then lines ! i else r)"
  shows "(fold f is r0 = r0 \<or> (\<exists>i \<in> set is. new \<le> lines ! i \<and> stacks ! i \<noteq> UNINITIALIZED \<and> lines ! i = fold f is r0))
    \<and> fold f is r0 \<le> r0
    \<and> (\<forall>i \<in> set is. new \<le> lines ! i \<longrightarrow> stacks ! i \<noteq> UNINITIALIZED \<longrightarrow> fold f is r0 \<le> lines ! i)"
proof (induction "is" rule: rev_induct)
  case (snoc j "is")
  then show ?case by (auto simp: assms)
qed simp

lemma first_line_not_before:
  assumes "first_line_not_before lines stacks new = r" "r \<noteq> I64_MAX"
  shows "new \<le> r" "\<And>i. i < length lines \<Longrightarrow> new \<le> lines ! i \<Longrightarrow> stacks ! i \<noteq> UNINITIALIZED \<Longrightarrow> r \<le> lines ! i"
  using first_line_fold [OF refl, of new lines stacks "[0..<length lines]" I64_MAX] assms
  unfolding first_line_not_before_def by auto

section \<open>The search\<close>

text \<open>An offset of the wanted line that a jump may go to.\<close>

definition may_jump ::
    "int list \<Rightarrow> marked \<Rightarrow> u64 list option \<Rightarrow> u64 \<Rightarrow> i64 \<Rightarrow> int \<Rightarrow> int \<Rightarrow> nat \<Rightarrow> bool" where
  "may_jump lines m bound_exits start_bound start_stack start_exc resolved i \<longleftrightarrow>
    lines ! i = resolved \<and> mk_stacks m ! i \<noteq> UNINITIALIZED \<and> exits_ok bound_exits start_bound i
    \<and> max 0 (mk_excs m ! i) \<le> start_exc \<and> compatible_stack start_stack (mk_stacks m ! i)"

lemma note_err_simps [simp]:
  "js_best_stack (note_err msg js) = js_best_stack js" "js_best_addr (note_err msg js) = js_best_addr js"
  by (simp_all add: note_err_def split: option.splits)

lemma consider_target_best:
  "js_best_addr (consider_target lines m be sb ss se r i js) =
    (if may_jump lines m be sb ss se r i \<and> (js_best_addr js = None \<or> js_best_stack js <s mk_stacks m ! i)
     then Some i else js_best_addr js)"
  "js_best_stack (consider_target lines m be sb ss se r i js) =
    (if may_jump lines m be sb ss se r i \<and> (js_best_addr js = None \<or> js_best_stack js <s mk_stacks m ! i)
     then mk_stacks m ! i else js_best_stack js)"
  by (auto simp: consider_target_def may_jump_def Let_def)

lemma search_best:
  assumes js: "js = fold (consider_target lines m be sb ss se r) is js0" and "js_best_addr js0 = None"
  shows "(js_best_addr js = None \<longrightarrow> (\<forall>i \<in> set is. \<not> may_jump lines m be sb ss se r i))
    \<and> (\<forall>a. js_best_addr js = Some a \<longrightarrow> a \<in> set is \<and> may_jump lines m be sb ss se r a
        \<and> js_best_stack js = mk_stacks m ! a
        \<and> (\<forall>i \<in> set is. may_jump lines m be sb ss se r i \<longrightarrow> sint (mk_stacks m ! i) \<le> sint (mk_stacks m ! a)))"
  unfolding js
proof (induction "is" rule: rev_induct)
  case Nil
  then show ?case using assms(2) by simp
next
  case (snoc j "is")
  then show ?case
    by (auto simp: consider_target_best split: if_splits; force)
qed

section \<open>The plan\<close>

text \<open>What \<open>compute_jump\<close> compares, in the order it computes it.\<close>

definition frame_stack :: "marked \<Rightarrow> nat \<Rightarrow> bool \<Rightarrow> i64" where
  "frame_stack m pc suspended =
    (let s = get_or (mk_stacks m) pc UNINITIALIZED in if suspended then pop_kind s else s)"

definition frame_exc :: "marked \<Rightarrow> nat \<Rightarrow> int" where
  "frame_exc m pc = max 0 (get_or (mk_excs m) pc (- 1))"

lemma compute_jumpE:
  assumes "compute_jump code pc line suspended = Some (Inr (plan, ln))"
  obtains m be r a where
    "mark_stacks code = Some m" "mark_bound_exits code = Some be" "first_lineno code \<le> line"
    "r = first_line_not_before (marklines code) (mk_stacks m) line" "r \<noteq> I64_MAX"
    "a < length (co_instructions code)"
    "may_jump (marklines code) m be (get_bound be pc) (frame_stack m pc suspended) (frame_exc m pc) r a"
    "\<And>i. i < length (co_instructions code) \<Longrightarrow>
        may_jump (marklines code) m be (get_bound be pc) (frame_stack m pc suspended) (frame_exc m pc) r i \<Longrightarrow>
        sint (mk_stacks m ! i) \<le> sint (mk_stacks m ! a)"
    "plan = \<lparr>pj_target_pc = as_u32 a, pj_target_depth = stack_depth (mk_stacks m ! a),
        pj_exc_pops = u32_or_0 (frame_exc m pc - max 0 (mk_excs m ! a))\<rparr>"
    "ln = u32_or_0 r"
proof -
  obtain m where m: "mark_stacks code = Some m" and line: "first_lineno code \<le> line"
    using assms by (auto simp: compute_jump_def split: if_splits option.splits)
  define r where "r = first_line_not_before (marklines code) (mk_stacks m) line"
  obtain be where be: "mark_bound_exits code = Some be" "r \<noteq> I64_MAX"
    "plan_jump code m be pc line suspended r = Inr (plan, ln)"
    using assms m by (auto simp: compute_jump_def r_def Let_def split: if_splits option.splits)
  let ?may = "may_jump (marklines code) m be (get_bound be pc) (frame_stack m pc suspended) (frame_exc m pc) r"
  define js where "js = fold (consider_target (marklines code) m be (get_bound be pc) (frame_stack m pc suspended) (frame_exc m pc) r)
      [0..<length (co_instructions code)] \<lparr>js_best_stack = OVERFLOWED, js_best_addr = None, js_err = None\<rparr>"
  obtain a where a: "js_best_addr js = Some a"
    "plan = \<lparr>pj_target_pc = as_u32 a, pj_target_depth = stack_depth (js_best_stack js),
        pj_exc_pops = u32_or_0 (frame_exc m pc - max 0 (mk_excs m ! a))\<rparr>" "ln = u32_or_0 r"
    using be(3) by (auto simp: plan_jump_def Let_def js_def frame_stack_def frame_exc_def split: option.splits)
  have "a \<in> set [0..<length (co_instructions code)] \<and> ?may a \<and> js_best_stack js = mk_stacks m ! a
      \<and> (\<forall>i \<in> set [0..<length (co_instructions code)]. ?may i \<longrightarrow> sint (mk_stacks m ! i) \<le> sint (mk_stacks m ! a))"
    using search_best [OF js_def] a(1) by simp
  then show thesis using that [OF m be(1) line r_def be(2), of a] a by auto
qed

end
