(* ===== verification/Jump_Properties.thy ===== *)
theory Jump_Properties
  imports Jump_Search Jump_Effects
begin

text \<open>
  The properties of the jump analysis (\<open>crates/weavepy-vm/src/linejump.rs\<close>): it ends, except
  on one depth of handler; its marks have the depths of the paths through the code; the jump it
  allows leaves the stack every path to the target has; and where the line events are. The
  witnesses run it on a small loop and on a handler.
\<close>

section \<open>A sample\<close>

text \<open>\<open>def f(x):\<close>, then on the following lines \<open>for i in x:\<close>, \<open>pass\<close> and the end.\<close>

definition loop_code :: "unit CodeObject" where
  "loop_code = \<lparr>co_name = ''f'', co_arg_count = 1, co_posonly_count = 0, co_kwonly_count = 0,
    co_has_varargs = False, co_has_varkeywords = False, co_stacksize = None,
    co_instructions = [Instr O_Resume 0, Instr O_LoadFast 0, Instr O_GetIter 0, Instr O_ForIter 2,
      Instr O_StoreFast 1, Instr O_JumpBackward 3, Instr O_EndFor 0, Instr O_PopIter 0,
      Instr O_LoadConst 0, Instr O_ReturnValue 0],
    co_constants = [C_None], co_varnames = [''x'', ''i''], co_freevars = [], co_cellvars = [],
    co_exception_table = [], co_linetable = [1, 2, 2, 2, 2, 3, 2, 2, 4, 4], co_coltable = [], co_wire_marks = [],
    co_hidden_locals = [], co_no_interrupt_jumps = []\<rparr>"

definition loop_marks :: marked where
  "loop_marks = \<lparr>mk_stacks = [0, 0, 3, 1, 11, 1, 11, 1, 0, 3, - 2],
     mk_excs = [0, 0, 0, 0, 0, 0, 0, 0, 0, 0, - 1]\<rparr>"

lemma overflow_1: "\<not> (0x1000000000000000 :: u64) \<le> 1"
  by (simp add: word_le_def)

lemmas stack_evals = overflow_1 push_kind_def pop_kind_def top_kind_def peek_kind_def kind_shift_def BITS_PER_BLOCK_def KIND_MASK_def
  UNINITIALIZED_def OVERFLOWED_def EMPTY_STACK_def WILL_OVERFLOW_eq kind_of_def word_sless_alt

lemmas mark_evals = mark_instr_def mark_edges_def merge_edge_def merge_mark_def merge_stack_def is_cond_jump_def plain_effect_def Let_def

lemma loop_steps:
  "mark_instr loop_code 0 (False, \<lparr>mk_stacks = [0, - 2, - 2, - 2, - 2, - 2, - 2, - 2, - 2, - 2, - 2], mk_excs = [0, - 1, - 1, - 1, - 1, - 1, - 1, - 1, - 1, - 1, - 1]\<rparr>) =
     (True, \<lparr>mk_stacks = [0, 0, - 2, - 2, - 2, - 2, - 2, - 2, - 2, - 2, - 2], mk_excs = [0, 0, - 1, - 1, - 1, - 1, - 1, - 1, - 1, - 1, - 1]\<rparr>)"
  "mark_instr loop_code 1 (True, \<lparr>mk_stacks = [0, 0, - 2, - 2, - 2, - 2, - 2, - 2, - 2, - 2, - 2], mk_excs = [0, 0, - 1, - 1, - 1, - 1, - 1, - 1, - 1, - 1, - 1]\<rparr>) =
     (True, \<lparr>mk_stacks = [0, 0, 3, - 2, - 2, - 2, - 2, - 2, - 2, - 2, - 2], mk_excs = [0, 0, 0, - 1, - 1, - 1, - 1, - 1, - 1, - 1, - 1]\<rparr>)"
  "mark_instr loop_code 2 (True, \<lparr>mk_stacks = [0, 0, 3, - 2, - 2, - 2, - 2, - 2, - 2, - 2, - 2], mk_excs = [0, 0, 0, - 1, - 1, - 1, - 1, - 1, - 1, - 1, - 1]\<rparr>) =
     (True, \<lparr>mk_stacks = [0, 0, 3, 1, - 2, - 2, - 2, - 2, - 2, - 2, - 2], mk_excs = [0, 0, 0, 0, - 1, - 1, - 1, - 1, - 1, - 1, - 1]\<rparr>)"
  "mark_instr loop_code 3 (True, \<lparr>mk_stacks = [0, 0, 3, 1, - 2, - 2, - 2, - 2, - 2, - 2, - 2], mk_excs = [0, 0, 0, 0, - 1, - 1, - 1, - 1, - 1, - 1, - 1]\<rparr>) =
     (True, \<lparr>mk_stacks = [0, 0, 3, 1, 11, - 2, 11, - 2, - 2, - 2, - 2], mk_excs = [0, 0, 0, 0, 0, - 1, 0, - 1, - 1, - 1, - 1]\<rparr>)"
  "mark_instr loop_code 4 (True, \<lparr>mk_stacks = [0, 0, 3, 1, 11, - 2, 11, - 2, - 2, - 2, - 2], mk_excs = [0, 0, 0, 0, 0, - 1, 0, - 1, - 1, - 1, - 1]\<rparr>) =
     (True, \<lparr>mk_stacks = [0, 0, 3, 1, 11, 1, 11, - 2, - 2, - 2, - 2], mk_excs = [0, 0, 0, 0, 0, 0, 0, - 1, - 1, - 1, - 1]\<rparr>)"
  "mark_instr loop_code 5 (True, \<lparr>mk_stacks = [0, 0, 3, 1, 11, 1, 11, - 2, - 2, - 2, - 2], mk_excs = [0, 0, 0, 0, 0, 0, 0, - 1, - 1, - 1, - 1]\<rparr>) =
     (True, \<lparr>mk_stacks = [0, 0, 3, 1, 11, 1, 11, - 2, - 2, - 2, - 2], mk_excs = [0, 0, 0, 0, 0, 0, 0, - 1, - 1, - 1, - 1]\<rparr>)"
  "mark_instr loop_code 6 (True, \<lparr>mk_stacks = [0, 0, 3, 1, 11, 1, 11, - 2, - 2, - 2, - 2], mk_excs = [0, 0, 0, 0, 0, 0, 0, - 1, - 1, - 1, - 1]\<rparr>) =
     (True, \<lparr>mk_stacks = [0, 0, 3, 1, 11, 1, 11, 1, - 2, - 2, - 2], mk_excs = [0, 0, 0, 0, 0, 0, 0, 0, - 1, - 1, - 1]\<rparr>)"
  "mark_instr loop_code 7 (True, \<lparr>mk_stacks = [0, 0, 3, 1, 11, 1, 11, 1, - 2, - 2, - 2], mk_excs = [0, 0, 0, 0, 0, 0, 0, 0, - 1, - 1, - 1]\<rparr>) =
     (True, \<lparr>mk_stacks = [0, 0, 3, 1, 11, 1, 11, 1, 0, - 2, - 2], mk_excs = [0, 0, 0, 0, 0, 0, 0, 0, 0, - 1, - 1]\<rparr>)"
  "mark_instr loop_code 8 (True, \<lparr>mk_stacks = [0, 0, 3, 1, 11, 1, 11, 1, 0, - 2, - 2], mk_excs = [0, 0, 0, 0, 0, 0, 0, 0, 0, - 1, - 1]\<rparr>) =
     (True, \<lparr>mk_stacks = [0, 0, 3, 1, 11, 1, 11, 1, 0, 3, - 2], mk_excs = [0, 0, 0, 0, 0, 0, 0, 0, 0, 0, - 1]\<rparr>)"
  "mark_instr loop_code 9 (True, \<lparr>mk_stacks = [0, 0, 3, 1, 11, 1, 11, 1, 0, 3, - 2], mk_excs = [0, 0, 0, 0, 0, 0, 0, 0, 0, 0, - 1]\<rparr>) =
     (True, \<lparr>mk_stacks = [0, 0, 3, 1, 11, 1, 11, 1, 0, 3, - 2], mk_excs = [0, 0, 0, 0, 0, 0, 0, 0, 0, 0, - 1]\<rparr>)"
  by (simp_all add: mark_evals stack_evals loop_code_def)

lemma loop_start: "mark_start loop_code = \<lparr>mk_stacks = [0, - 2, - 2, - 2, - 2, - 2, - 2, - 2, - 2, - 2, - 2], mk_excs = [0, - 1, - 1, - 1, - 1, - 1, - 1, - 1, - 1, - 1, - 1]\<rparr>"
  by (simp add: mark_start_def loop_code_def EMPTY_STACK_def UNINITIALIZED_def)

lemma loop_len: "length (co_instructions loop_code) = 10"
  by (simp add: loop_code_def)

lemma loop_upt: "[0..<length (co_instructions loop_code)] = [0, 1, 2, 3, 4, 5, 6, 7, 8, 9]" "co_exception_table loop_code = []"
  by (simp_all add: loop_code_def upt_rec)

lemma loop_pass: "mark_pass loop_code (mark_start loop_code) = Some (True, loop_marks)"
  unfolding mark_pass_def loop_upt loop_start by (simp add: loop_steps loop_steps(2) [simplified] loop_marks_def)

lemma loop_stays: 
  "mark_instr loop_code 0 (False, loop_marks) = (False, loop_marks)"
  "mark_instr loop_code 1 (False, loop_marks) = (False, loop_marks)"
  "mark_instr loop_code 2 (False, loop_marks) = (False, loop_marks)"
  "mark_instr loop_code 3 (False, loop_marks) = (False, loop_marks)"
  "mark_instr loop_code 4 (False, loop_marks) = (False, loop_marks)"
  "mark_instr loop_code 5 (False, loop_marks) = (False, loop_marks)"
  "mark_instr loop_code 6 (False, loop_marks) = (False, loop_marks)"
  "mark_instr loop_code 7 (False, loop_marks) = (False, loop_marks)"
  "mark_instr loop_code 8 (False, loop_marks) = (False, loop_marks)"
  "mark_instr loop_code 9 (False, loop_marks) = (False, loop_marks)"
  by (simp_all add: mark_evals stack_evals loop_code_def loop_marks_def)

lemma loop_stable: "mark_pass loop_code loop_marks = Some (False, loop_marks)"
  unfolding mark_pass_def loop_upt by (simp add: loop_stays loop_stays(2) [simplified])

lemma loop_marked: "mark_stacks loop_code = Some loop_marks"
  by (simp add: mark_stacks_def mark_loop_unfold loop_pass loop_stable)

lemma loop_exits: "mark_bound_exits loop_code = Some None"
  by code_simp

lemma loop_plan: "plan_jump loop_code loop_marks None 8 2 False 2 = Inr (\<lparr>pj_target_pc = 1, pj_target_depth = 0, pj_exc_pops = 0\<rparr>, 2)"
  by code_simp

lemma loop_line: "first_line_not_before (marklines loop_code) (mk_stacks loop_marks) 2 = 2" "first_lineno loop_code = 1"
  by code_simp+

lemma loop_jump: "compute_jump loop_code 8 2 False = Some (Inr (\<lparr>pj_target_pc = 1, pj_target_depth = 0, pj_exc_pops = 0\<rparr>, 2))"
  by (simp add: compute_jump_def loop_marked loop_exits loop_plan loop_line I64_MAX_def Let_def)

section \<open>Packed stacks\<close>

text \<open>The deepest pair of entries in which two stacks of the same height differ.\<close>

fun deepest_change :: "Kind list \<Rightarrow> Kind list \<Rightarrow> (Kind \<times> Kind) option" where
  "deepest_change (k # ks) (l # ls) =
    (case deepest_change ks ls of Some c \<Rightarrow> Some c | None \<Rightarrow> if k = l then None else Some (k, l))"
| "deepest_change _ _ = None"

lemma kind_num_inject [simp]: "kind_num k = kind_num l \<longleftrightarrow> k = l"
  by (cases k; cases l) simp_all

lemma kind_num_dist: "kind_num k - kind_num l < 8"
  using kind_num_range [of k] kind_num_range [of l] by linarith

lemma deepest_change_value:
  "list_all2 kind_fits g t \<Longrightarrow>
    (case deepest_change g t of
       None \<Rightarrow> g = t
     | Some (k, l) \<Rightarrow> kind_fits k l \<and> k \<noteq> l
         \<and> (if kind_num k < kind_num l then kinds_value g < kinds_value t else kinds_value t < kinds_value g))"
proof (induction rule: list_all2_induct)
  case (Cons k g l t)
  show ?case
  proof (cases "deepest_change g t")
    case None
    then show ?thesis using Cons by (auto dest: antisym_conv3 [THEN iffD1, rotated])
  next
    case (Some c)
    moreover have "8 * x + kind_num k < 8 * y + kind_num l" "8 * x + kind_num l < 8 * y + kind_num k" if "x < y" for x y
      by (insert that kind_num_dist [of k l] kind_num_dist [of l k], linarith+)
    ultimately show ?thesis using Cons.IH by (cases c) (auto split: if_splits)
  qed
qed simp

lemma fits_value_iff:
  "list_all2 kind_fits g t \<Longrightarrow> kinds_value g \<le> kinds_value t \<longleftrightarrow> (\<forall>l. deepest_change g t \<noteq> Some (K_Lasti, l))"
proof -
  assume f: "list_all2 kind_fits g t"
  show ?thesis
  proof (cases "deepest_change g t")
    case (Some c)
    obtain k l where c: "c = (k, l)" by (cases c)
    then have "kind_fits k l" "k \<noteq> l" "if kind_num k < kind_num l then kinds_value g < kinds_value t else kinds_value t < kinds_value g"
      using deepest_change_value [OF f] Some by simp_all
    moreover from this(1, 2) have "kind_num k < kind_num l \<longleftrightarrow> k \<noteq> K_Lasti" by (cases k; cases l) (simp_all add: kind_fits_def)
    ultimately show ?thesis using Some c by (auto split: if_splits)
  qed (use deepest_change_value [OF f] in auto)
qed

text \<open>
  C40. \<open>compatible_stack\<close> decides on packed stacks whether popping values turns the first into one
  whose entries fit those of the second, one by one. The exception: it says no when the deepest
  of the entries that differ is a \<open>lasti\<close>, which has the largest code; popping compares numbers.
\<close>

theorem compatible_stack_decides:
  assumes "length f \<le> 21" "length t \<le> 21"
  shows "compatible_stack (packed f) (packed t) \<longleftrightarrow>
    length t \<le> length f \<and> list_all2 kind_fits (drop (length f - length t) f) t
    \<and> (\<forall>k. deepest_change (drop (length f - length t) f) t \<noteq> Some (K_Lasti, k))"
  using compatible_packed [OF assms] fits_value_iff by blast

theorem compatible_stack_decides_witness:
  "compatible_stack (packed [K_Object, K_Iterator]) (packed [K_Iterator])
    \<and> \<not> compatible_stack (packed [K_Object]) (packed [K_Iterator])
    \<and> \<not> compatible_stack (packed [K_Lasti]) (packed [K_Object])
    \<and> compatible_stack (packed [K_Lasti, K_Iterator]) (packed [K_Object, K_Object])"
  using compatible_stack_decides [of "[K_Object, K_Iterator]" "[K_Iterator]"]
    compatible_stack_decides [of "[K_Object]" "[K_Iterator]"] compatible_stack_decides [of "[K_Lasti]" "[K_Object]"]
    compatible_stack_decides [of "[K_Lasti, K_Iterator]" "[K_Object, K_Object]"]
  by (simp add: kind_fits_def)

section \<open>Termination\<close>

text \<open>
  C10. The check of a jump returns, on code whose \<open>Swap\<close> operands and handler depths are at most
  21: both analyses reach their fixpoint.
\<close>

theorem compute_jump_returns:
  assumes "swaps_fit code" "handlers_fit code"
  shows "\<exists>r. compute_jump code pc line suspended = Some r"
proof -
  obtain m where "mark_stacks code = Some m" using mark_stacks_returns [OF assms] by blast
  moreover obtain be where "mark_bound_exits code = Some be" using mark_bound_exits_returns by blast
  ultimately show ?thesis by (simp add: compute_jump_def Let_def)
qed

theorem compute_jump_returns_witness: "\<exists>r. compute_jump loop_code 3 4 True = Some r"
  by (rule compute_jump_returns) (simp_all add: swaps_fit_def handlers_fit_def loop_code_def)

text \<open>
  C11. It does not return when the first entry of the exception table has depth 22 and, after the
  first pass over the instructions, the start of its range is marked and its entry is not: the
  limit of \<open>pop_to_level\<close> is then negative, and popping never gets below it. The line asked for
  is not before the first line, where the check answers at once, and \<open>Swap\<close> operands are at
  most 21.
\<close>

theorem deep_handler_diverges:
  assumes "swaps_fit code" "co_exception_table code = h # hs" "unat (eh_depth h) = 22"
    "fold (mark_instr code) [0..<length (co_instructions code)] (False, mark_start code) = (todo, m)"
    "unat (eh_start h) \<le> length (co_instructions code)" "mk_stacks m ! unat (eh_start h) \<noteq> UNINITIALIZED"
    "unat (eh_handler h) \<le> length (co_instructions code)" "mk_stacks m ! unat (eh_handler h) = UNINITIALIZED"
    "first_lineno code \<le> line"
  shows "compute_jump code pc line suspended = None"
proof -
  let ?n = "length (co_instructions code)" and ?s = "mk_stacks m ! unat (eh_start h)"
  have "progress ?n (mark_start code) (False, mark_start code)"
    by (simp add: progress_def marks_ok_start)
  then have "progress ?n (mark_start code) (fold (mark_instr code) [0..<?n] (False, mark_start code))"
    by (rule progress_fold) (use assms(1) progress_instr in auto)
  then have ok: "marks_ok ?n m" by (simp add: assms(4) progress_def)
  then have l: "length (mk_stacks m) = Suc ?n" by (simp add: marks_ok_def)
  then have "?s \<in> set (mk_stacks m)" using assms(5) by simp
  then have "- 1 \<le> sint ?s" using ok assms(6) by (auto simp: marks_ok_def)
  then have "pop_to_level ?s 22 = None"
    using pop_above_diverges level_limit_22 by (simp add: pop_to_level_def)
  then have "mark_handler h (todo, m) = None"
    using assms(3, 5, 6, 7, 8) l by (simp add: mark_handler_def Let_def)
  then have "mark_pass code (mark_start code) = None"
    by (simp add: mark_pass_def assms(2, 4))
  then show ?thesis
    using assms(9) by (simp add: compute_jump_def mark_stacks_def mark_loop_unfold [of code "mark_start code"])
qed

text \<open>A call in a handler's range below 22 values.\<close>

definition deep_code :: "unit CodeObject" where
  "deep_code = loop_code\<lparr>co_instructions := [Instr O_LoadConst 0, Instr O_ReturnValue 0, Instr O_PopTop 0, Instr O_Reraise 0],
    co_exception_table := [\<lparr>eh_start = 0, eh_end = 1, eh_handler = 2, eh_depth = 22, eh_push_lasti = False\<rparr>],
    co_linetable := [1, 1, 1, 1]\<rparr>"

lemma deep_steps:
  "mark_instr deep_code 0 (False, \<lparr>mk_stacks = [0, - 2, - 2, - 2, - 2], mk_excs = [0, - 1, - 1, - 1, - 1]\<rparr>)
    = (True, \<lparr>mk_stacks = [0, 3, - 2, - 2, - 2], mk_excs = [0, 0, - 1, - 1, - 1]\<rparr>)"
  "mark_instr deep_code 1 (True, \<lparr>mk_stacks = [0, 3, - 2, - 2, - 2], mk_excs = [0, 0, - 1, - 1, - 1]\<rparr>)
    = (True, \<lparr>mk_stacks = [0, 3, - 2, - 2, - 2], mk_excs = [0, 0, - 1, - 1, - 1]\<rparr>)"
  "mark_instr deep_code 2 (True, \<lparr>mk_stacks = [0, 3, - 2, - 2, - 2], mk_excs = [0, 0, - 1, - 1, - 1]\<rparr>)
    = (True, \<lparr>mk_stacks = [0, 3, - 2, - 2, - 2], mk_excs = [0, 0, - 1, - 1, - 1]\<rparr>)"
  "mark_instr deep_code 3 (True, \<lparr>mk_stacks = [0, 3, - 2, - 2, - 2], mk_excs = [0, 0, - 1, - 1, - 1]\<rparr>)
    = (True, \<lparr>mk_stacks = [0, 3, - 2, - 2, - 2], mk_excs = [0, 0, - 1, - 1, - 1]\<rparr>)"
  by (simp_all add: mark_evals stack_evals loop_code_def deep_code_def)

lemma deep_pass:
  "fold (mark_instr deep_code) [0..<length (co_instructions deep_code)] (False, mark_start deep_code)
    = (True, \<lparr>mk_stacks = [0, 3, - 2, - 2, - 2], mk_excs = [0, 0, - 1, - 1, - 1]\<rparr>)"
proof -
  have "[0..<length (co_instructions deep_code)] = [0, 1, 2, 3]" by (simp add: deep_code_def upt_rec)
  moreover have "mark_start deep_code = \<lparr>mk_stacks = [0, - 2, - 2, - 2, - 2], mk_excs = [0, - 1, - 1, - 1, - 1]\<rparr>"
    by (simp add: mark_start_def deep_code_def EMPTY_STACK_def UNINITIALIZED_def)
  ultimately show ?thesis by (simp add: deep_steps deep_steps(2) [simplified])
qed

theorem deep_handler_diverges_witness: "compute_jump deep_code 0 1 False = None"
  by (rule deep_handler_diverges [where hs = "[]"
        and h = "\<lparr>eh_start = 0, eh_end = 1, eh_handler = 2, eh_depth = 22, eh_push_lasti = False\<rparr>", OF _ _ _ deep_pass])
    (simp_all add: deep_code_def loop_code_def swaps_fit_def UNINITIALIZED_def first_lineno_def)

section \<open>Soundness\<close>




















text \<open>
  C37. The target of an allowed jump starts a reachable line at or after the one asked for, no
  reachable line start lies between, and it handles no more exceptions than the frame does; the
  plan pops the difference.
\<close>

theorem jump_line:
  assumes "compute_jump code pc line suspended = Some (Inr (plan, ln))" "length (co_instructions code) < 2 ^ 32"
  shows "\<exists>m. mark_stacks code = Some m \<and> pj_target_pc plan < length (co_instructions code)
    \<and> line \<le> int ln \<and> ln = line_at code (pj_target_pc plan) \<and> marklines code ! pj_target_pc plan = int ln
    \<and> mk_stacks m ! pj_target_pc plan \<noteq> UNINITIALIZED
    \<and> (\<forall>i < length (co_instructions code). line \<le> marklines code ! i \<longrightarrow> mk_stacks m ! i \<noteq> UNINITIALIZED \<longrightarrow>
        int ln \<le> marklines code ! i)
    \<and> max 0 (mk_excs m ! pj_target_pc plan) \<le> frame_exc m pc"
proof -
  obtain m be r a where j: "mark_stacks code = Some m" "first_lineno code \<le> line"
    "r = first_line_not_before (marklines code) (mk_stacks m) line" "r \<noteq> I64_MAX" "a < length (co_instructions code)"
    "may_jump (marklines code) m be (get_bound be pc) (frame_stack m pc suspended) (frame_exc m pc) r a"
    "plan = \<lparr>pj_target_pc = as_u32 a, pj_target_depth = stack_depth (mk_stacks m ! a),
        pj_exc_pops = u32_or_0 (frame_exc m pc - max 0 (mk_excs m ! a))\<rparr>" "ln = u32_or_0 r"
    using compute_jumpE [OF assms(1)] by metis
  have t: "pj_target_pc plan = a" using j(5, 7) assms(2) by (simp add: as_u32_def)
  note fl = first_line_not_before [OF j(3) [symmetric] j(4)]
  have r: "marklines code ! a = r" "1 \<le> r" using j(2, 6) fl(1) first_lineno_pos [of code] by (simp_all add: may_jump_def)
  then have "r = int (line_at code a)" using marklines_nth [OF j(5)] by auto
  then have "ln = line_at code a" "int ln = r"
    using line_at_less [of code a] j(8) r(2) by (simp_all add: u32_or_0_def)
  then show ?thesis using j t r fl by (auto simp: may_jump_def)
qed

theorem jump_line_witness: "marklines loop_code ! 1 = 2 \<and> (2::nat) = line_at loop_code 1"
  using jump_line [OF loop_jump] by (auto simp: loop_len)

section \<open>Exit slots\<close>

text \<open>
  C36. An exit slot of a \<open>with\<close> block whose bit is set at an instruction is bound on every path to
  it, through handlers too, if the code has fewer than 64 exit slots and no \<open>LoadFastAndClear\<close>
  of one (the analysis does not see that it unbinds the slot).
\<close>

theorem exit_slots_sound:
  assumes "mark_bound_exits code = Some (Some b)" "exit_bits (co_varnames code) 0 = Some bits"
    "length (filter is_exit_name (co_varnames code)) < 64" "keeps_exits code"
    "slots_at code i S" "i \<le> length (co_instructions code)"
    "k < length (co_varnames code)" "bits ! k AND b ! i \<noteq> 0"
  shows "k \<in> S"
proof -
  have h: "slots_hold (co_varnames code) (b ! i) S" by (rule bound_exits_hold [OF assms(1-6)])
  have e: "if is_exit_name (co_varnames code ! k)
      then slot_no (co_varnames code) k < 64 \<and> bits ! k = push_bit (slot_no (co_varnames code) k) 1 else bits ! k = 0"
    using exit_bits_nth [OF assms(2)] assms(7) by auto
  then have x: "is_exit_name (co_varnames code ! k)" using assms(8) by (auto split: if_splits)
  with e have bk: "bits ! k = push_bit (slot_no (co_varnames code) k) 1" by simp
  have "bit (b ! i) (slot_no (co_varnames code) k)"
  proof (rule ccontr)
    assume "\<not> bit (b ! i) (slot_no (co_varnames code) k)"
    then have "bits ! k AND b ! i = 0"
      unfolding bk by (intro bit_word_eqI) (auto simp: bit_simps)
    then show False using assms(8) by simp
  qed
  then show ?thesis using h x assms(7) by (auto simp: slots_hold_def)
qed

definition with_code :: "unit CodeObject" where
  "with_code = loop_code\<lparr>co_instructions := [Instr O_StoreFast 0, Instr O_ReturnValue 0],
    co_varnames := [''.with_exit_0''], co_linetable := [1, 1]\<rparr>"

lemma with_exits: "mark_bound_exits with_code = Some (Some [0, 1, - 1])"
proof -
  have bits: "exit_bits (co_varnames with_code) 0 = Some [1]"
    by (simp add: with_code_def is_exit_name_def)
  have p: "bound_pass with_code [1] [0, - 1, - 1] = (True, [0, 1, - 1])" "bound_pass with_code [1] [0, 1, - 1] = (False, [0, 1, - 1])"
    by (simp_all add: bound_pass_def with_code_def loop_code_def bound_instr_def bound_edges_def BOUND_TOP_def meet_def
        is_cond_jump_def get_or_def Let_def upt_rec)
  have "bound_loop with_code [1] [0, - 1, - 1] = Some [0, 1, - 1]"
    by (simp add: bound_loop_unfold p)
  then show ?thesis
    using bits by (simp add: mark_bound_exits_def BOUND_TOP_def) (simp add: with_code_def is_exit_name_def numeral_2_eq_2)
qed

theorem exit_slots_sound_witness: "{S. slots_at with_code 1 S} \<subseteq> {S. 0 \<in> S}"
proof
  fix S
  assume "S \<in> {S. slots_at with_code 1 S}"
  then have S: "slots_at with_code 1 S" by simp
  have "0 \<in> S"
    by (rule exit_slots_sound [OF with_exits _ _ _ S, where bits = "[1]"])
      (simp_all add: with_code_def is_exit_name_def keeps_exits_def)
  then show "S \<in> {S. 0 \<in> S}" by simp
qed

section \<open>Two counts of the same effect\<close>

lemma filter_below:
  assumes "\<And>i. Q i \<longleftrightarrow> P i \<and> i < k" "k \<le> n"
  shows "length (filter P [0..<n]) = length (filter Q [0..<n]) + length (filter P [k..<n])"
proof -
  have "[0..<n] = [0..<k] @ [k..<n]" using upt_add_eq_append [of 0 k "n - k"] assms(2) by simp
  moreover have "filter Q [0..<k] = filter P [0..<k]" by (rule filter_cong) (simp_all add: assms(1))
  moreover have "filter Q [k..<n] = []" by (simp add: assms(1) filter_empty_conv)
  ultimately show ?thesis by simp
qed

lemma count_ones_split: "count_ones w = count_ones (w AND 0xF) + length (filter (bit w) [4..<32])"
proof -
  have "bit (0xF :: w32) i \<longleftrightarrow> i < 4" for i
    using bit_mask_iff [of 4 i, where ?'a = w32] by (auto simp: mask_numeral)
  then have "bit (w AND 0xF) i \<longleftrightarrow> bit w i \<and> i < 4" for i by (simp only: bit_and_iff)
  from filter_below [of "bit (w AND 0xF)" "bit w" 4 32, OF this] show ?thesis by (simp only: count_ones_def)
qed

lemma flags_above_four: "16 \<le> unat w \<Longrightarrow> filter (bit w) [4..<32] \<noteq> []" for w :: w32
proof
  assume w: "16 \<le> unat w" "filter (bit w) [4..<32] = []"
  have z: "\<not> bit w i" if "4 \<le> i" "i < 32" for i
    using w(2) that unfolding filter_empty_conv by (metis atLeastLessThan_iff set_upt)
  have "bit (take_bit 4 w) i \<longleftrightarrow> bit w i" if "i < 32" for i
    using z [of i] that by (cases "4 \<le> i") (simp_all add: bit_take_bit_iff)
  then have "take_bit 4 w = w" by (intro bit_word_eqI) simp
  then have "unat w = take_bit 4 (unat w)" by (metis unsigned_take_bit_eq)
  then show False using w(1) take_bit_nat_less_exp [of 4 "unat w"] by simp
qed

lemma many_flags:
  assumes "plain_effect code i ins = Some (pops, pushes)" "ins_op ins = O_MakeFunction" "16 \<le> unat (ins_arg ins)"
  shows "int (unat pushes) - int (unat pops) \<noteq> fst (stack_effects_at code i ins)"
proof -
  define v where "v = ins_arg ins"
  have "unat (1 + word_of_nat (count_ones (v AND 0xF)) :: w32) = 1 + count_ones (v AND 0xF)"
    using unat_plus_small [of 1 "word_of_nat (count_ones (v AND 0xF))"] count_ones_le [of "v AND 0xF"]
    by (simp add: unat_of_nat)
  then have "int (unat pushes) - int (unat pops) = - int (count_ones (v AND 0xF))"
    using assms(1, 2) by (auto simp: plain_effect_def v_def)
  moreover have "fst (stack_effects_at code i ins) = - int (count_ones v)"
    using assms(2) by (simp add: stack_effects_at_def stack_effects_def fall_effect_def v_def)
  moreover have "count_ones (v AND 0xF) < count_ones v"
    using count_ones_split [of v] flags_above_four [of v] assms(3) by (simp add: v_def)
  ultimately show ?thesis by simp
qed

lemma many_before_star:
  assumes "plain_effect code i ins = Some (pops, pushes)" "ins_op ins = O_UnpackEx" "2 ^ 16 \<le> unat (ins_arg ins)"
    "unat (ins_arg ins) < 2 ^ 30"
  shows "int (unat pushes) - int (unat pops) \<noteq> fst (stack_effects_at code i ins)"
proof -
  define v where "v = ins_arg ins"
  have d: "unat (drop_bit 8 v) = unat v div 256"
    by (simp only: unat_drop_bit_eq) (simp add: drop_bit_eq_div)
  have "v AND 0xFF \<le> 0xFF" "drop_bit 8 v AND 0xFF \<le> 0xFF" by (rule word_and_le1)+
  then have low: "unat (v AND 0xFF) \<le> 255" "unat (drop_bit 8 v AND 0xFF) \<le> 255"
    by (simp_all add: word_le_nat_alt)
  have b: "unat v < 2 ^ 30" using assms(4) by (simp add: v_def)
  then have "unat (drop_bit 8 v + 1) = unat v div 256 + 1"
    using unat_plus_small [of "drop_bit 8 v" 1] d by simp
  then have "unat (drop_bit 8 v + 1 + (v AND 0xFF)) = unat v div 256 + 1 + unat (v AND 0xFF)"
    using unat_plus_small [of "drop_bit 8 v + 1" "v AND 0xFF"] b low(1) by simp
  then have "int (unat pushes) - int (unat pops) = int (unat v div 256) + int (unat (v AND 0xFF))"
    using assms(1, 2) by (auto simp: plain_effect_def v_def Let_def)
  moreover have "fst (stack_effects_at code i ins) = int (unat (drop_bit 8 v AND 0xFF)) + int (unat (v AND 0xFF))"
    using assms(2) by (simp add: stack_effects_at_def stack_effects_def fall_effect_def v_def)
  moreover have "256 \<le> unat v div 256" using assms(3) by (simp add: v_def)
  then have "int (unat v div 256) \<noteq> int (unat (drop_bit 8 v AND 0xFF))" using low(2) by linarith
  ultimately show ?thesis by simp
qed

text \<open>
  C38. The effect of an instruction the jump analysis takes for plain is the one the compiler's
  stack analysis counts, with three exceptions: \<open>MatchKeys\<close>, which leaves the subject and the
  keys on the stack and pushes the values, but here is said to replace one value by another;
  \<open>MakeFunction\<close> with a flag above the fourth; and \<open>UnpackEx\<close> with an operand of more than two
  bytes. Operands, with the keyword names of a call, are below \<open>2 ^ 30\<close>.
\<close>

theorem plain_effects_agree:
  assumes "plain_effect code i ins = Some (pops, pushes)" "i < length (co_instructions code)"
    "unat (ins_arg ins) + kw_names code i < 2 ^ 30"
  shows "int (unat pushes) - int (unat pops) = fst (stack_effects_at code i ins) \<longleftrightarrow>
    ins_op ins \<noteq> O_MatchKeys
    \<and> (ins_op ins = O_MakeFunction \<longrightarrow> unat (ins_arg ins) < 16)
    \<and> (ins_op ins = O_UnpackEx \<longrightarrow> unat (ins_arg ins) < 2 ^ 16)"
proof -
  consider (keys) "ins_op ins = O_MatchKeys" | (func) "ins_op ins = O_MakeFunction" "16 \<le> unat (ins_arg ins)"
    | (unpack) "ins_op ins = O_UnpackEx" "2 ^ 16 \<le> unat (ins_arg ins)"
    | (agree) "ins_op ins \<noteq> O_MatchKeys" "small_operand code i ins"
    using assms(3) by (fastforce simp: small_operand_def)
  then show ?thesis
  proof cases
    case keys
    then have "pops = 1" "pushes = 1" "fst (stack_effects_at code i ins) = 1"
      using assms(1) by (simp_all add: plain_effect_def stack_effects_at_def stack_effects_def fall_effect_def)
    then show ?thesis using keys by simp
  next
    case func
    then show ?thesis using many_flags [OF assms(1)] by simp
  next
    case unpack
    then show ?thesis using many_before_star [OF assms(1)] assms(3) by simp
  next
    case agree
    then show ?thesis
      using plain_effect_counts [OF assms(1) agree(2) assms(2) agree(1)] by (auto simp: small_operand_def)
  qed
qed

theorem plain_effects_agree_witness:
  "fst (stack_effects_at loop_code 4 (Instr O_UnpackEx 0x203)) = 5
    \<and> fst (stack_effects_at loop_code 4 (Instr O_MatchKeys 0)) \<noteq> 0
    \<and> fst (stack_effects_at loop_code 4 (Instr O_MakeFunction 0x10)) \<noteq> 0"
  using plain_effects_agree [of loop_code 4 "Instr O_UnpackEx 0x203"] plain_effects_agree [of loop_code 4 "Instr O_MatchKeys 0"]
    plain_effects_agree [of loop_code 4 "Instr O_MakeFunction 0x10"]
  by (simp add: plain_effect_def loop_code_def kw_names_def count_ones_def upt_rec)

section \<open>Line events\<close>

text \<open>
  The instruction before \<open>i\<close> that counts, and whether the line of \<open>i\<close> is another one. With none
  before, the source compares with the largest line number.
\<close>

definition new_line :: "'c CodeObject \<Rightarrow> nat \<Rightarrow> bool" where
  "new_line code i \<longleftrightarrow>
    (case find (\<lambda>j. \<not> no_line_event (op_at code j)) (rev [0..<i]) of
       None \<Rightarrow> line_at code i \<noteq> 4294967295
     | Some j \<Rightarrow> line_at code i \<noteq> line_at code j)"

definition pass_line :: "'c CodeObject \<Rightarrow> nat \<Rightarrow> nat \<Rightarrow> nat" where
  "pass_line code i l = (if no_line_event (op_at code i) then l else line_at code i)"

lemma line_starts_nth:
  "length (line_starts_from code is l) = length is"
  "k < length is \<Longrightarrow> line_starts_from code is l ! k \<longleftrightarrow> \<not> no_line_event (op_at code (is ! k))
    \<and> line_at code (is ! k) \<noteq> 0 \<and> line_at code (is ! k) \<noteq> fold (pass_line code) (take k is) l"
proof (induction "is" arbitrary: l k)
  case (Cons i "is")
  { case 1 then show ?case using Cons by simp }
  { case 2 then show ?case using Cons by (cases k) (auto simp: pass_line_def) }
qed simp_all

lemma pass_line_upt:
  "fold (pass_line code) [0..<i] l =
    (case find (\<lambda>j. \<not> no_line_event (op_at code j)) (rev [0..<i]) of None \<Rightarrow> l | Some j \<Rightarrow> line_at code j)"
  by (induction i) (simp_all add: pass_line_def split: option.splits)

lemma mark_target_nth:
  "length (mark_target code i out) = length out"
  "k < length out \<Longrightarrow> mark_target code i out ! k \<longleftrightarrow>
    out ! k \<or> line_at code k \<noteq> 0 \<and> (\<exists>t. event_target code i = Some t \<and> skip_ends code t = k)"
  by (auto simp: mark_target_def Let_def nth_list_update split: option.splits)

lemma mark_entry_nth:
  "length (mark_entry code h out) = length out"
  "k < length out \<Longrightarrow> mark_entry code h out ! k \<longleftrightarrow>
    out ! k \<or> line_at code k \<noteq> 0 \<and> unat (eh_handler h) = k \<and> op_at code k \<noteq> O_EndAsyncFor"
  by (auto simp: mark_entry_def Let_def nth_list_update)

lemma fold_marks:
  assumes "\<And>x out. length (f x out) = length out" "\<And>x out k. k < length out \<Longrightarrow> f x out ! k \<longleftrightarrow> out ! k \<or> P x k"
  shows "length (fold f xs out) = length out \<and> (\<forall>k < length out. fold f xs out ! k \<longleftrightarrow> out ! k \<or> (\<exists>x \<in> set xs. P x k))"
  by (induction xs arbitrary: out) (auto simp: assms)

text \<open>The three passes, before the case of code without lines.\<close>

definition event_marks :: "'c CodeObject \<Rightarrow> bool list" where
  "event_marks code = fold (mark_entry code) (co_exception_table code)
    (fold (mark_target code) [0..<code_len code] (line_starts_from code [0..<code_len code] 4294967295))"

lemma event_marks_nth:
  "length (event_marks code) = code_len code"
  "i < code_len code \<Longrightarrow> event_marks code ! i \<longleftrightarrow> line_at code i \<noteq> 0 \<and>
    (\<not> no_line_event (op_at code i) \<and> new_line code i
     \<or> (\<exists>j < code_len code. \<exists>t. event_target code j = Some t \<and> skip_ends code t = i)
     \<or> (\<exists>h \<in> set (co_exception_table code). unat (eh_handler h) = i \<and> op_at code i \<noteq> O_EndAsyncFor))"
proof -
  let ?n = "code_len code" and ?starts = "line_starts_from code [0..<code_len code] 4294967295"
  let ?targets = "fold (mark_target code) [0..<?n] ?starts"
  have s: "?starts ! i \<longleftrightarrow> line_at code i \<noteq> 0 \<and> \<not> no_line_event (op_at code i) \<and> new_line code i" if "i < ?n" for i
    using that by (auto simp: line_starts_nth(2) pass_line_upt new_line_def split: option.splits)
  have ls: "length ?starts = ?n" by (simp add: line_starts_nth(1))
  have t: "length ?targets = ?n \<and> (\<forall>i < ?n. ?targets ! i \<longleftrightarrow> ?starts ! i \<or> line_at code i \<noteq> 0 \<and>
      (\<exists>j < ?n. \<exists>t. event_target code j = Some t \<and> skip_ends code t = i))"
    using fold_marks [of "mark_target code", OF mark_target_nth, of "[0..<?n]" ?starts] unfolding ls by auto
  have o: "length (event_marks code) = ?n \<and> (\<forall>i < ?n. event_marks code ! i \<longleftrightarrow> ?targets ! i \<or> line_at code i \<noteq> 0 \<and>
      (\<exists>h \<in> set (co_exception_table code). unat (eh_handler h) = i \<and> op_at code i \<noteq> O_EndAsyncFor))"
    using fold_marks [of "mark_entry code", OF mark_entry_nth, of "co_exception_table code" ?targets] t
    unfolding event_marks_def by auto
  show "length (event_marks code) = ?n" using o by simp
  show "i < ?n \<Longrightarrow> event_marks code ! i \<longleftrightarrow> line_at code i \<noteq> 0 \<and>
    (\<not> no_line_event (op_at code i) \<and> new_line code i
     \<or> (\<exists>j < ?n. \<exists>t. event_target code j = Some t \<and> skip_ends code t = i)
     \<or> (\<exists>h \<in> set (co_exception_table code). unat (eh_handler h) = i \<and> op_at code i \<noteq> O_EndAsyncFor))"
    using o t s by auto
qed

text \<open>
  C39. Where line events are. An instruction carries one when it starts a line (it is not a
  \<open>Resume\<close> or the end of a loop, and the last such instruction before it has another line), when
  a jump lands on it (past the ends of loops), or when a handler starts there (\<open>EndAsyncFor\<close>
  apart), in each case only if it has a line; if no instruction has a line, only the first one
  that is not a \<open>Resume\<close> or the end of a loop carries an event.
\<close>

theorem line_events_placed:
  "length (line_event_starts code) = length (co_instructions code)
    \<and> (\<forall>i < length (co_instructions code). line_event_starts code ! i \<longleftrightarrow>
        line_at code i \<noteq> 0 \<and>
          (\<not> no_line_event (op_at code i) \<and> new_line code i
           \<or> (\<exists>j < length (co_instructions code). \<exists>t. event_target code j = Some t \<and> skip_ends code t = i)
           \<or> (\<exists>h \<in> set (co_exception_table code). unat (eh_handler h) = i \<and> op_at code i \<noteq> O_EndAsyncFor))
        \<or> (\<forall>j < length (co_instructions code). line_at code j = 0)
          \<and> \<not> no_line_event (op_at code i) \<and> (\<forall>j < i. no_line_event (op_at code j)))"
proof -
  let ?n = "code_len code" and ?out = "event_marks code"
  define none where "none \<longleftrightarrow> (\<forall>j < ?n. line_at code j = 0)"
  have f: "\<not> ?out ! i" if none "i < ?n" for i using that by (simp add: event_marks_nth none_def)
  then have "none \<Longrightarrow> True \<notin> set ?out" by (auto simp: in_set_conv_nth event_marks_nth(1))
  then have r: "line_event_starts code = (if none then
      (case find (\<lambda>i. \<not> no_line_event (op_at code i)) [0..<?n] of None \<Rightarrow> ?out | Some i \<Rightarrow> ?out[i := True]) else ?out)"
    unfolding line_event_starts_def Let_def event_marks_def [symmetric] by (auto simp: none_def)
  show ?thesis
  proof (cases none)
    case True
    show ?thesis
    proof (cases "find (\<lambda>i. \<not> no_line_event (op_at code i)) [0..<?n]")
      case None
      moreover from None have "no_line_event (op_at code i)" if "i < ?n" for i using that by (auto simp: find_None_iff)
      ultimately show ?thesis using True f by (simp add: r none_def event_marks_nth(1))
    next
      case (Some k)
      then have k: "k < ?n" "\<not> no_line_event (op_at code k)" "\<forall>j < k. no_line_event (op_at code j)"
        by (auto simp: find_Some_iff)
      then have "\<not> no_line_event (op_at code i) \<and> (\<forall>j < i. no_line_event (op_at code j)) \<longleftrightarrow> i = k" for i
        by (metis linorder_neqE_nat)
      moreover have "?out[k := True] ! i \<longleftrightarrow> i = k" if "i < ?n" for i
        using f [OF True that] k(1) by (cases "i = k") (auto simp: event_marks_nth(1))
      ultimately show ?thesis using True Some by (simp add: r none_def event_marks_nth(1))
    qed
  next
    case False
    then show ?thesis by (auto simp: r none_def event_marks_nth)
  qed
qed

lemma loop_lines:
  "event_target loop_code 3 = Some 6" "skip_ends loop_code 6 = 7" "line_at loop_code 7 = 2" "line_at loop_code 6 = 2"
  "line_at loop_code 3 = 2" "line_at loop_code 2 = 2" "line_at loop_code 5 = 3" "line_at loop_code 4 = 2"
  "new_line loop_code 5" "no_line_event (op_at loop_code 6)"
  by code_simp+

lemma loop_landings: "\<forall>j \<in> set [0..<10]. case event_target loop_code j of None \<Rightarrow> True | Some t \<Rightarrow> skip_ends loop_code t \<noteq> 6"
  by code_simp

theorem line_events_placed_witness:
  "line_event_starts loop_code ! 5 \<and> line_event_starts loop_code ! 7 \<and> \<not> line_event_starts loop_code ! 6"
proof -
  note placed = line_events_placed [of loop_code, THEN conjunct2, rule_format, unfolded loop_len]
  have "line_event_starts loop_code ! 5"
    unfolding placed [of 5, simplified] using loop_lines by simp (simp add: loop_code_def no_line_event_def)
  moreover have "line_event_starts loop_code ! 7"
    unfolding placed [of 7, simplified] using loop_lines by (auto intro: exI [of _ 3])
  moreover have "\<not> line_event_starts loop_code ! 6"
    unfolding placed [of 6, simplified] using loop_lines loop_landings by (fastforce simp: loop_upt(2) split: option.splits)
  ultimately show ?thesis by blast
qed

end
