(* ===== verification/Heap_Model.thy ===== *)
theory Heap_Model
  imports WP_Prelude
begin

text \<open>
  The priority queue of \<open>heapq\<close> (\<open>crates/weavepy-vm/src/stdlib/heapq_accel.rs\<close>): a list in heap
  order, as a min-heap or a max-heap. A comparison may run Python code, which may fail and
  may change the heap itself, since the list is shared: its state is the list together with
  whatever else it works on. An index out of range would be a panic, the error \<open>HeapPanic\<close>.
\<close>

datatype 'e heap_error = IndexError string | SizeChanged | Raised 'e | HeapPanic

type_synonym ('a, 's) heap_state = "'a list \<times> 's"

type_synonym ('a, 's, 'e, 'v) heap_result = "('e heap_error + 'v) \<times> ('a, 's) heap_state"

text \<open>
  What the heap asks of its elements: the comparison of two native scalars, which runs no
  code and may not apply, and the interpreter's \<open><\<close>.
\<close>

record ('a, 's, 'e) heap_ops =
  ho_native :: "'a \<Rightarrow> 'a \<Rightarrow> bool option"
  ho_less :: "'a \<Rightarrow> 'a \<Rightarrow> ('a, 's) heap_state \<Rightarrow> ('e + bool) \<times> ('a, 's) heap_state"

definition op_less :: "('a, 's, 'e) heap_ops \<Rightarrow> 'a \<Rightarrow> 'a \<Rightarrow> ('a, 's) heap_state \<Rightarrow> ('a, 's, 'e, bool) heap_result" where
  "op_less ops a b st = (case ho_less ops a b st of (Inl e, st') \<Rightarrow> (Inl (Raised e), st') | (Inr r, st') \<Rightarrow> (Inr r, st'))"

definition heap_lt :: "('a, 's, 'e) heap_ops \<Rightarrow> nat \<Rightarrow> nat \<Rightarrow> ('a, 's) heap_state \<Rightarrow> ('a, 's, 'e, bool) heap_result" where
  "heap_lt ops i j st =
    (let h = fst st in
     if length h \<le> i \<or> length h \<le> j then (Inl HeapPanic, st)
     else case ho_native ops (h ! i) (h ! j) of
            Some lt \<Rightarrow> (Inr lt, st)
          | None \<Rightarrow> op_less ops (h ! i) (h ! j) st)"

text \<open>\<open>heap.borrow_mut().swap(i, j)\<close>.\<close>

definition heap_swap :: "nat \<Rightarrow> nat \<Rightarrow> ('a, 's) heap_state \<Rightarrow> ('a, 's, 'e, unit) heap_result" where
  "heap_swap i j st =
    (case st of (h, s) \<Rightarrow>
       if length h \<le> i \<or> length h \<le> j then (Inl HeapPanic, st)
       else (Inr (), (h[i := h ! j, j := h ! i], s)))"

abbreviation parent_of :: "nat \<Rightarrow> nat" where
  "parent_of pos \<equiv> (pos - 1) div 2"

text \<open>\<open>while pos > startpos\<close>: towards the root.\<close>

function siftdown_loop ::
    "('a, 's, 'e) heap_ops \<Rightarrow> bool \<Rightarrow> nat \<Rightarrow> nat \<Rightarrow> nat \<Rightarrow> ('a, 's) heap_state \<Rightarrow> ('a, 's, 'e, unit) heap_result" where
  "siftdown_loop ops max_heap sz startpos pos st =
    (if startpos < pos then
       and_then (if max_heap then heap_lt ops (parent_of pos) pos st else heap_lt ops pos (parent_of pos) st)
         (\<lambda>cmp st1.
            if length (fst st1) \<noteq> sz then (Inl SizeChanged, st1)
            else if \<not> cmp then (Inr (), st1)
            else and_then (heap_swap pos (parent_of pos) st1)
                   (\<lambda>_ st2. siftdown_loop ops max_heap sz startpos (parent_of pos) st2))
     else (Inr (), st))"
  by auto
termination by (relation "measure (\<lambda>(ops, max_heap, sz, startpos, pos, st). pos)") auto

definition siftdown ::
    "('a, 's, 'e) heap_ops \<Rightarrow> bool \<Rightarrow> nat \<Rightarrow> nat \<Rightarrow> ('a, 's) heap_state \<Rightarrow> ('a, 's, 'e, unit) heap_result" where
  "siftdown ops max_heap startpos pos st =
    (let sz = length (fst st) in
     if sz \<le> pos then (Inl (IndexError ''index out of range''), st)
     else siftdown_loop ops max_heap sz startpos pos st)"

text \<open>
  Whether to move up the right child of two, \<open>childpos\<close> being the left one: the smaller, or the
  larger in a max-heap, and the right one on a tie. Comparing may have changed the size.
\<close>

definition pick_right ::
    "('a, 's, 'e) heap_ops \<Rightarrow> bool \<Rightarrow> nat \<Rightarrow> nat \<Rightarrow> ('a, 's) heap_state \<Rightarrow> ('a, 's, 'e, bool) heap_result" where
  "pick_right ops max_heap endpos childpos st =
    (if childpos + 1 < endpos then
       and_then (if max_heap then heap_lt ops (childpos + 1) childpos st else heap_lt ops childpos (childpos + 1) st)
         (\<lambda>cmp st1. if length (fst st1) \<noteq> endpos then (Inl SizeChanged, st1) else (Inr (\<not> cmp), st1))
     else (Inr False, st))"

text \<open>\<open>while pos < limit\<close>: towards the leaves; the position where it ends.\<close>

function siftup_loop ::
    "('a, 's, 'e) heap_ops \<Rightarrow> bool \<Rightarrow> nat \<Rightarrow> nat \<Rightarrow> ('a, 's) heap_state \<Rightarrow> ('a, 's, 'e, nat) heap_result" where
  "siftup_loop ops max_heap endpos pos st =
    (if pos < endpos div 2 then
       and_then (pick_right ops max_heap endpos (2 * pos + 1) st)
         (\<lambda>right st1.
            let childpos = 2 * pos + 1 + (if right then 1 else 0)
            in and_then (heap_swap pos childpos st1)
                 (\<lambda>_ st2. siftup_loop ops max_heap endpos childpos st2))
     else (Inr pos, st))"
  by auto
termination by (relation "measure (\<lambda>(ops, max_heap, endpos, pos, st). endpos - pos)") auto

definition siftup ::
    "('a, 's, 'e) heap_ops \<Rightarrow> bool \<Rightarrow> nat \<Rightarrow> ('a, 's) heap_state \<Rightarrow> ('a, 's, 'e, unit) heap_result" where
  "siftup ops max_heap pos st =
    (let endpos = length (fst st) in
     if endpos \<le> pos then (Inl (IndexError ''index out of range''), st)
     else and_then (siftup_loop ops max_heap endpos pos st) (\<lambda>leaf st1. siftdown ops max_heap pos leaf st1))"

declare siftdown_loop.simps [simp del] siftup_loop.simps [simp del]

section \<open>The operations\<close>

definition heappush :: "('a, 's, 'e) heap_ops \<Rightarrow> bool \<Rightarrow> 'a \<Rightarrow> ('a, 's) heap_state \<Rightarrow> ('a, 's, 'e, unit) heap_result" where
  "heappush ops max_heap item st =
    (case st of (h, s) \<Rightarrow> siftdown ops max_heap 0 (length h) (h @ [item], s))"

text \<open>
  \<open>std::mem::replace(&mut h[0], item)\<close>, a panic on an empty list, and the \<open>siftup\<close> that follows it
  in the three operations below.
\<close>

definition replace_first :: "'a \<Rightarrow> ('a, 's) heap_state \<Rightarrow> ('a, 's, 'e, 'a) heap_result" where
  "replace_first item st =
    (case st of (h, s) \<Rightarrow> if h = [] then (Inl HeapPanic, st) else (Inr (h ! 0), (h[0 := item], s)))"

definition replace_and_sift :: "('a, 's, 'e) heap_ops \<Rightarrow> bool \<Rightarrow> 'a \<Rightarrow> ('a, 's) heap_state \<Rightarrow> ('a, 's, 'e, 'a) heap_result" where
  "replace_and_sift ops max_heap item st =
    and_then (replace_first item st)
      (\<lambda>returnitem st1. and_then (siftup ops max_heap 0 st1) (\<lambda>_ st2. (Inr returnitem, st2)))"

definition heappop :: "('a, 's, 'e) heap_ops \<Rightarrow> bool \<Rightarrow> ('a, 's) heap_state \<Rightarrow> ('a, 's, 'e, 'a) heap_result" where
  "heappop ops max_heap st =
    (case st of (h, s) \<Rightarrow>
       if h = [] then (Inl (IndexError ''index out of range''), st)
       else if butlast h = [] then (Inr (last h), (butlast h, s))
       else replace_and_sift ops max_heap (last h) (butlast h, s))"

definition heapreplace :: "('a, 's, 'e) heap_ops \<Rightarrow> bool \<Rightarrow> 'a \<Rightarrow> ('a, 's) heap_state \<Rightarrow> ('a, 's, 'e, 'a) heap_result" where
  "heapreplace ops max_heap item st =
    (if fst st = [] then (Inl (IndexError ''index out of range''), st)
     else replace_and_sift ops max_heap item st)"

text \<open>
  The comparison may have run code that cleared the heap, so its size is tested again.
\<close>

definition heappushpop :: "('a, 's, 'e) heap_ops \<Rightarrow> bool \<Rightarrow> 'a \<Rightarrow> ('a, 's) heap_state \<Rightarrow> ('a, 's, 'e, 'a) heap_result" where
  "heappushpop ops max_heap item st =
    (case fst st of
       [] \<Rightarrow> (Inr item, st)
     | least # _ \<Rightarrow>
         and_then (if max_heap then op_less ops item least st else op_less ops least item st)
           (\<lambda>replace st1.
              if \<not> replace then (Inr item, st1)
              else if fst st1 = [] then (Inl (IndexError ''list index out of range''), st1)
              else replace_and_sift ops max_heap item st1))"

fun heapify_loop :: "('a, 's, 'e) heap_ops \<Rightarrow> bool \<Rightarrow> nat list \<Rightarrow> ('a, 's) heap_state \<Rightarrow> ('a, 's, 'e, unit) heap_result" where
  "heapify_loop ops max_heap [] st = (Inr (), st)"
| "heapify_loop ops max_heap (i # is) st =
    and_then (siftup ops max_heap i st) (\<lambda>_ st1. heapify_loop ops max_heap is st1)"

definition heapify :: "('a, 's, 'e) heap_ops \<Rightarrow> bool \<Rightarrow> ('a, 's) heap_state \<Rightarrow> ('a, 's, 'e, unit) heap_result" where
  "heapify ops max_heap st = heapify_loop ops max_heap (rev [0..<length (fst st) div 2]) st"

end
