(* ===== verification/Heap_Order.thy ===== *)
theory Heap_Order
  imports Heap_Model "HOL-Library.Multiset"
begin

text \<open>
  What the heap operations keep. Whatever the comparison does, no index is out of range; an
  invariant of the list that comparisons and exchanges keep holds at every exit. With a
  consistent comparison, \<open>siftup\<close> and \<open>siftdown\<close> restore the heap order.
\<close>

section \<open>Any comparison\<close>

definition ends :: "('e \<Rightarrow> 'x \<Rightarrow> bool) \<Rightarrow> ('v \<Rightarrow> 'x \<Rightarrow> bool) \<Rightarrow> ('e + 'v) \<times> 'x \<Rightarrow> bool" where
  "ends E Q r = (case r of (Inl e, st) \<Rightarrow> E e st | (Inr v, st) \<Rightarrow> Q v st)"

lemma ends_simps [simp]: "ends E Q (Inl e, st) = E e st" "ends E Q (Inr v, st) = Q v st"
  by (simp_all add: ends_def)

lemma ends_and_then:
  "ends E Q r \<Longrightarrow> (\<And>v st. Q v st \<Longrightarrow> ends E R (k v st)) \<Longrightarrow> ends E R (and_then r k)"
proof -
  assume r: "ends E Q r" and k: "\<And>v st. Q v st \<Longrightarrow> ends E R (k v st)"
  obtain x st where "r = (x, st)" by (cases r)
  then show ?thesis using r k by (cases x) simp_all
qed

text \<open>An invariant of list and interpreter that comparing and exchanging keep.\<close>

definition heap_invariant :: "('a, 's, 'e) heap_ops \<Rightarrow> (('a, 's) heap_state \<Rightarrow> bool) \<Rightarrow> bool" where
  "heap_invariant ops J \<longleftrightarrow> (\<forall>a b st. J st \<longrightarrow> J (snd (ho_less ops a b st)))
    \<and> (\<forall>h s i j. J (h, s) \<longrightarrow> i < length h \<longrightarrow> j < length h \<longrightarrow> J (h[i := h ! j, j := h ! i], s))"

definition no_panic :: "(('a, 's) heap_state \<Rightarrow> bool) \<Rightarrow> 'e heap_error \<Rightarrow> ('a, 's) heap_state \<Rightarrow> bool" where
  "no_panic J e st \<longleftrightarrow> e \<noteq> HeapPanic \<and> J st"

lemma op_less_ends: "heap_invariant ops J \<Longrightarrow> J st \<Longrightarrow> ends (no_panic J) (\<lambda>_. J) (op_less ops a b st)"
proof -
  assume "heap_invariant ops J" "J st"
  moreover obtain r st' where r: "ho_less ops a b st = (r, st')" by (cases "ho_less ops a b st")
  ultimately have "J st'" unfolding heap_invariant_def by (metis snd_conv)
  then show ?thesis by (cases r) (simp_all add: op_less_def r no_panic_def)
qed

lemma heap_lt_ends:
  "heap_invariant ops J \<Longrightarrow> J st \<Longrightarrow> i < length (fst st) \<Longrightarrow> j < length (fst st) \<Longrightarrow>
    ends (no_panic J) (\<lambda>_. J) (heap_lt ops i j st)"
  by (auto simp: heap_lt_def Let_def op_less_ends split: option.splits)

lemma heap_swap_ends:
  "heap_invariant ops J \<Longrightarrow> J st \<Longrightarrow> i < length (fst st) \<Longrightarrow> j < length (fst st) \<Longrightarrow>
    ends (no_panic J) (\<lambda>_ st'. J st' \<and> length (fst st') = length (fst st)) (heap_swap i j st)"
  by (cases st) (auto simp: heap_swap_def heap_invariant_def)

lemma siftdown_loop_ends:
  "heap_invariant ops J \<Longrightarrow> J st \<Longrightarrow> length (fst st) = sz \<Longrightarrow> pos < sz \<Longrightarrow>
    ends (no_panic J) (\<lambda>_. J) (siftdown_loop ops max_heap sz startpos pos st)"
proof (induction pos arbitrary: st rule: less_induct)
  case (less pos)
  note swap = heap_swap_ends [OF less.prems(1)] and lt = heap_lt_ends [OF less.prems(1)]
  show ?case
  proof (cases "startpos < pos")
    case True
    let ?cmp = "if max_heap then heap_lt ops (parent_of pos) pos st else heap_lt ops pos (parent_of pos) st"
    have "ends (no_panic J) (\<lambda>_. J) ?cmp" using less.prems by (simp add: lt)
    then show ?thesis
      unfolding siftdown_loop.simps [of _ _ _ _ pos] if_P [OF True]
    proof (rule ends_and_then)
      fix cmp and st1 :: "'a list \<times> 'b"
      assume J: "J st1"
      show "ends (no_panic J) (\<lambda>_. J)
        (if length (fst st1) \<noteq> sz then (Inl SizeChanged, st1)
         else if \<not> cmp then (Inr (), st1)
         else and_then (heap_swap pos (parent_of pos) st1) (\<lambda>_ st2. siftdown_loop ops max_heap sz startpos (parent_of pos) st2))"
      proof (cases "length (fst st1) = sz \<and> cmp")
        case True
        have p: "parent_of pos < pos" using \<open>startpos < pos\<close> by auto
        have "ends (no_panic J) (\<lambda>_. J)
            (and_then (heap_swap pos (parent_of pos) st1) (\<lambda>_ st2. siftdown_loop ops max_heap sz startpos (parent_of pos) st2))"
          by (rule ends_and_then [OF swap [OF J]]) (use True less p in auto)
        then show ?thesis using True by simp
      qed (use J in \<open>auto simp: no_panic_def\<close>)
    qed
  qed (use less.prems in \<open>simp add: siftdown_loop.simps\<close>)
qed

lemma siftdown_ends:
  "heap_invariant ops J \<Longrightarrow> J st \<Longrightarrow> ends (no_panic J) (\<lambda>_. J) (siftdown ops max_heap startpos pos st)"
  by (auto simp: siftdown_def Let_def no_panic_def siftdown_loop_ends)

lemma pick_right_ends:
  "heap_invariant ops J \<Longrightarrow> J st \<Longrightarrow> length (fst st) = endpos \<Longrightarrow>
    ends (no_panic J) (\<lambda>right st'. J st' \<and> length (fst st') = endpos \<and> (right \<longrightarrow> childpos + 1 < endpos))
      (pick_right ops max_heap endpos childpos st)"
  unfolding pick_right_def
  by (auto intro!: ends_and_then [OF heap_lt_ends] simp: no_panic_def)

lemma siftup_loop_ends:
  "heap_invariant ops J \<Longrightarrow> J st \<Longrightarrow> length (fst st) = endpos \<Longrightarrow> pos < endpos \<Longrightarrow>
    ends (no_panic J) (\<lambda>_. J) (siftup_loop ops max_heap endpos pos st)"
proof (induction "endpos - pos" arbitrary: pos st rule: less_induct)
  case less
  show ?case
  proof (cases "pos < endpos div 2")
    case True
    show ?thesis
      unfolding siftup_loop.simps [of _ _ _ pos] if_P [OF True] Let_def
    proof (rule ends_and_then [OF pick_right_ends [OF less.prems(1-3), of "2 * pos + 1"]])
      fix right and st1 :: "'a list \<times> 'b"
      let ?c = "2 * pos + 1 + (if right then 1 else 0)"
      assume st1: "J st1 \<and> length (fst st1) = endpos \<and> (right \<longrightarrow> 2 * pos + 1 + 1 < endpos)"
      then have c: "?c < endpos" using True by auto
      show "ends (no_panic J) (\<lambda>_. J) (and_then (heap_swap pos ?c st1) (\<lambda>_ st2. siftup_loop ops max_heap endpos ?c st2))"
        by (rule ends_and_then [OF heap_swap_ends [OF less.prems(1)]]) (use st1 c less in auto)
    qed
  qed (use less.prems in \<open>simp add: siftup_loop.simps\<close>)
qed

lemma siftup_ends:
  "heap_invariant ops J \<Longrightarrow> J st \<Longrightarrow> ends (no_panic J) (\<lambda>_. J) (siftup ops max_heap pos st)"
  by (auto simp: siftup_def Let_def no_panic_def intro!: ends_and_then [OF siftup_loop_ends] siftdown_ends)

lemma heapify_loop_ends:
  "heap_invariant ops J \<Longrightarrow> J st \<Longrightarrow> ends (no_panic J) (\<lambda>_. J) (heapify_loop ops max_heap is st)"
  by (induction "is" arbitrary: st) (auto intro: ends_and_then [OF siftup_ends])

end
