(* ===== verification/Heap_Sift.thy ===== *)
theory Heap_Sift
  imports Heap_Order Sort_Gallop
begin

text \<open>
  With a comparison that answers a strict weak order, \<open>siftup\<close> and \<open>siftdown\<close> restore the heap
  order. While an element is on its way, the order holds everywhere but at the element:
  towards the leaves also between it and its children, and always around it, from its parent
  to its children.
\<close>

section \<open>Consistent comparisons\<close>

definition consistent :: "('a, 's, 'e) heap_ops \<Rightarrow> ('a \<Rightarrow> 'a \<Rightarrow> bool) \<Rightarrow> bool" where
  "consistent ops lt \<longleftrightarrow> (\<forall>a b st. (ho_native ops a b = None \<or> ho_native ops a b = Some (lt a b))
    \<and> ho_less ops a b st = (Inr (lt a b), st))"

text \<open>The order of the heap: reversed for a max-heap.\<close>

definition heap_dir :: "bool \<Rightarrow> ('a \<Rightarrow> 'a \<Rightarrow> bool) \<Rightarrow> 'a \<Rightarrow> 'a \<Rightarrow> bool" where
  "heap_dir max_heap lt = (if max_heap then (\<lambda>x y. lt y x) else lt)"

lemma strict_weak_dir: "strict_weak lt \<Longrightarrow> strict_weak (heap_dir max_heap lt)"
proof (cases max_heap)
  case True
  assume w: "strict_weak lt"
  show ?thesis unfolding strict_weak_def heap_dir_def if_P [OF True]
    using strict_weakD(1, 2) [OF w] strict_weakD(3) [OF w] by blast
qed (simp add: heap_dir_def)

lemma op_less_consistent: "consistent ops lt \<Longrightarrow> op_less ops a b st = (Inr (lt a b), st)"
proof -
  assume "consistent ops lt"
  then have "ho_less ops a b st = (Inr (lt a b), st)" unfolding consistent_def by blast
  then show ?thesis by (simp add: op_less_def)
qed

lemma heap_lt_consistent:
  "consistent ops lt \<Longrightarrow> i < length h \<Longrightarrow> j < length h \<Longrightarrow> heap_lt ops i j (h, s) = (Inr (lt (h ! i) (h ! j)), (h, s))"
proof -
  assume c: "consistent ops lt" and l: "i < length h" "j < length h"
  have "ho_native ops (h ! i) (h ! j) = None \<or> ho_native ops (h ! i) (h ! j) = Some (lt (h ! i) (h ! j))"
    using c unfolding consistent_def by blast
  then show ?thesis using l op_less_consistent [OF c] by (auto simp: heap_lt_def)
qed

section \<open>Heap order\<close>

definition heap_from :: "('a \<Rightarrow> 'a \<Rightarrow> bool) \<Rightarrow> nat \<Rightarrow> 'a list \<Rightarrow> bool" where
  "heap_from r k xs \<longleftrightarrow> (\<forall>i < length xs. 0 < i \<longrightarrow> k \<le> parent_of i \<longrightarrow> \<not> r (xs ! i) (xs ! parent_of i))"

definition almost :: "('a \<Rightarrow> 'a \<Rightarrow> bool) \<Rightarrow> nat \<Rightarrow> nat \<Rightarrow> bool \<Rightarrow> 'a list \<Rightarrow> bool" where
  "almost r k pos kids xs \<longleftrightarrow>
    (\<forall>i < length xs. 0 < i \<longrightarrow> k \<le> parent_of i \<longrightarrow> i \<noteq> pos \<longrightarrow> kids \<or> parent_of i \<noteq> pos \<longrightarrow>
      \<not> r (xs ! i) (xs ! parent_of i))
    \<and> (\<forall>i < length xs. 0 < i \<longrightarrow> parent_of i = pos \<longrightarrow> 0 < pos \<longrightarrow> k \<le> parent_of pos \<longrightarrow>
      \<not> r (xs ! i) (xs ! parent_of pos))"

lemma almostD:
  assumes "almost r k pos kids xs" "i < length xs" "0 < i"
  shows "k \<le> parent_of i \<Longrightarrow> i \<noteq> pos \<Longrightarrow> kids \<or> parent_of i \<noteq> pos \<Longrightarrow> \<not> r (xs ! i) (xs ! parent_of i)"
    "parent_of i = pos \<Longrightarrow> 0 < pos \<Longrightarrow> k \<le> parent_of pos \<Longrightarrow> \<not> r (xs ! i) (xs ! parent_of pos)"
  using assms unfolding almost_def by blast+

text \<open>The positions of the subtree of \<open>k\<close>.\<close>

function descends :: "nat \<Rightarrow> nat \<Rightarrow> bool" where
  "descends k p = (if k < p then descends k (parent_of p) else p = k)"
  by auto
termination
proof (relation "measure snd")
  show "((k, parent_of p), k, p) \<in> measure snd" if "k < p" for k p :: nat
    using that by (auto simp: less_eq_div_iff_mult_less_eq)
qed simp

declare descends.simps [simp del]

lemma descends_self [simp]: "descends k k"
  by (simp add: descends.simps)

lemma descends_le: "descends k p \<Longrightarrow> k \<le> p"
  by (auto simp: descends.simps [of k p] split: if_splits)

lemma descends_parent: "descends k p \<Longrightarrow> k < p \<Longrightarrow> descends k (parent_of p) \<and> k \<le> parent_of p"
  using descends_le by (auto simp: descends.simps [of k p])

lemma descends_child: "descends k p \<Longrightarrow> c = 2 * p + 1 \<or> c = 2 * p + 2 \<Longrightarrow> descends k c"
  using descends_le [of k p] by (subst descends.simps) auto

abbreviation exchange :: "nat \<Rightarrow> nat \<Rightarrow> 'a list \<Rightarrow> 'a list" where
  "exchange i j xs \<equiv> xs[i := xs ! j, j := xs ! i]"

text \<open>One step towards the root.\<close>

lemma almost_up:
  assumes r: "strict_weak r" and a: "almost r k pos True xs" and k: "k \<le> parent_of pos" "0 < pos" and l: "pos < length xs"
    and x: "r (xs ! pos) (xs ! parent_of pos)"
  shows "almost r k (parent_of pos) True (exchange pos (parent_of pos) xs)"
proof -
  let ?p = "parent_of pos" and ?ys = "exchange pos (parent_of pos) xs"
  have p: "?p < pos" "?p < length xs" using k l by auto
  have y: "?ys ! pos = xs ! ?p" "?ys ! ?p = xs ! pos" "\<And>i. i \<noteq> pos \<Longrightarrow> i \<noteq> ?p \<Longrightarrow> ?ys ! i = xs ! i"
    using l p by simp_all
  have edge: "\<not> r (?ys ! i) (?ys ! parent_of i)"
    if i: "i < length xs" "0 < i" "k \<le> parent_of i" "i \<noteq> ?p" for i
  proof -
    consider "i = pos" | "i \<noteq> pos" "parent_of i = pos" | "i \<noteq> pos" "parent_of i = ?p" | "i \<noteq> pos" "parent_of i \<noteq> pos" "parent_of i \<noteq> ?p"
      by blast
    then show ?thesis
    proof cases
      case 1
      then show ?thesis using x y strict_weakD(2) [OF r] by simp
    next
      case 2
      then show ?thesis using almostD(2) [OF a i(1, 2)] y k i by simp
    next
      case 3
      then have "\<not> r (xs ! i) (xs ! ?p)" using almostD(1) [OF a i(1, 2)] i by simp
      then have "\<not> r (xs ! i) (xs ! pos)" using strict_weakD(6) [OF r] x by blast
      then show ?thesis using 3 y i by simp
    next
      case 4
      then show ?thesis using almostD(1) [OF a i(1, 2)] y i by simp
    qed
  qed
  have around: "\<not> r (?ys ! i) (?ys ! parent_of ?p)"
    if i: "i < length xs" "0 < i" "parent_of i = ?p" "0 < ?p" "k \<le> parent_of ?p" for i
  proof -
    have pp: "parent_of ?p < ?p" using i(4) by auto
    have top: "\<not> r (xs ! ?p) (xs ! parent_of ?p)" using almostD(1) [OF a p(2) i(4)] i p by simp
    have "\<not> r (?ys ! i) (xs ! parent_of ?p)"
    proof (cases "i = pos")
      case False
      have "i \<noteq> ?p" using i(2, 3) by auto
      moreover have "\<not> r (xs ! i) (xs ! ?p)" using almostD(1) [OF a i(1, 2)] i False k by simp
      ultimately show ?thesis using strict_weakD(3) [OF r _ top] y(3) False by simp
    qed (use top y in simp)
    moreover have "?ys ! parent_of ?p = xs ! parent_of ?p" using y(3) pp p by simp
    ultimately show ?thesis by simp
  qed
  show ?thesis unfolding almost_def length_list_update using edge around by blast
qed

text \<open>One step towards the leaves, with the child that is not larger than its sibling.\<close>

lemma almost_down:
  assumes r: "strict_weak r" and a: "almost r k pos False xs" and c: "c < length xs" "parent_of c = pos" "0 < c" and k: "k \<le> pos"
    and x: "\<And>i. i < length xs \<Longrightarrow> 0 < i \<Longrightarrow> parent_of i = pos \<Longrightarrow> \<not> r (xs ! i) (xs ! c)"
  shows "almost r k c False (exchange pos c xs)"
proof -
  let ?ys = "exchange pos c xs"
  have p: "pos < c" "pos < length xs" using c by auto
  have y: "?ys ! pos = xs ! c" "?ys ! c = xs ! pos" "\<And>i. i \<noteq> pos \<Longrightarrow> i \<noteq> c \<Longrightarrow> ?ys ! i = xs ! i"
    using c p by simp_all
  have edge: "\<not> r (?ys ! i) (?ys ! parent_of i)"
    if i: "i < length xs" "0 < i" "k \<le> parent_of i" "i \<noteq> c" "parent_of i \<noteq> c" for i
  proof -
    consider "i = pos" | "i \<noteq> pos" "parent_of i = pos" | "i \<noteq> pos" "parent_of i \<noteq> pos" by blast
    then show ?thesis
    proof cases
      case 1
      then have "parent_of pos < pos" using i(2) by auto
      then show ?thesis using 1 almostD(2) [OF a c(1, 3) c(2)] y i p by simp
    next
      case 2
      then show ?thesis using x [OF i(1, 2)] y i by simp
    next
      case 3
      then show ?thesis using almostD(1) [OF a i(1, 2)] y i by simp
    qed
  qed
  have around: "\<not> r (?ys ! i) (?ys ! parent_of c)"
    if i: "i < length xs" "0 < i" "parent_of i = c" for i
  proof -
    have n: "i \<noteq> c" "i \<noteq> pos" using i(2, 3) p(1) by auto
    have "\<not> r (xs ! i) (xs ! c)" using almostD(1) [OF a i(1, 2)] i n p k by simp
    then show ?thesis using y n c(2) by simp
  qed
  show ?thesis unfolding almost_def length_list_update using edge around by blast
qed

lemma almost_stop:
  assumes "almost r k pos True xs" "pos < length xs"
    "pos = k \<or> k < pos \<and> \<not> r (xs ! pos) (xs ! parent_of pos)"
  shows "heap_from r k xs"
  unfolding heap_from_def
proof (intro allI impI)
  fix i assume i: "i < length xs" "0 < i" "k \<le> parent_of i"
  show "\<not> r (xs ! i) (xs ! parent_of i)"
  proof (cases "i = pos")
    case True
    then have "k < pos" using i(2, 3) by auto
    then show ?thesis using True assms(3) by auto
  qed (use almostD(1) [OF assms(1) i(1, 2)] i(3) in simp)
qed

text \<open>
  The loops and operations of the heap under a consistent comparison: each returns, with the
  elements it should have, in heap order.
\<close>

definition settles :: "('a \<Rightarrow> 'a \<Rightarrow> bool) \<Rightarrow> nat \<Rightarrow> 'a list \<Rightarrow> 's \<Rightarrow> ('a, 's, 'e, unit) heap_result \<Rightarrow> bool" where
  "settles r k h s res \<longleftrightarrow> (\<exists>h'. res = (Inr (), (h', s)) \<and> heap_from r k h' \<and> mset h' = mset h)"

lemma settles_mset: "settles r k h s res \<Longrightarrow> mset h = mset g \<Longrightarrow> settles r k g s res"
  by (auto simp: settles_def)

lemma mset_exchange [simp]: "i < length xs \<Longrightarrow> j < length xs \<Longrightarrow> mset (exchange i j xs) = mset xs"
  using mset_swap [of j xs i] by simp

lemma heap_swap_exchange [simp]:
  "i < length h \<Longrightarrow> j < length h \<Longrightarrow> heap_swap i j (h, s) = (Inr (), (exchange i j h, s))"
  by (simp add: heap_swap_def)

lemma cmp_dir:
  assumes "consistent ops lt" "i < length h" "j < length h"
  shows "(if max_heap then heap_lt ops j i (h, s) else heap_lt ops i j (h, s)) = (Inr (heap_dir max_heap lt (h ! i) (h ! j)), (h, s))"
  using assms by (simp add: heap_lt_consistent heap_dir_def)

section \<open>Towards the root\<close>

lemma siftdown_loop_settles:
  assumes c: "consistent ops lt" "strict_weak lt"
  shows "almost (heap_dir mx lt) k pos True h \<Longrightarrow> pos < length h \<Longrightarrow> descends k pos \<Longrightarrow>
    settles (heap_dir mx lt) k h s (siftdown_loop ops mx (length h) k pos (h, s))"
proof (induction pos arbitrary: h rule: less_induct)
  case (less pos)
  let ?r = "heap_dir mx lt" and ?p = "parent_of pos"
  show ?case
  proof (cases "k < pos")
    case False
    then have "pos = k" using descends_le [OF less.prems(3)] by simp
    then show ?thesis using almost_stop [OF less.prems(1, 2)]
      by (simp add: settles_def siftdown_loop.simps)
  next
    case True
    then have p: "?p < pos" "?p < length h" using less.prems(2) by auto
    note up = descends_parent [OF less.prems(3) True]
    note cmp = cmp_dir [OF c(1) less.prems(2) p(2), of mx s]
    show ?thesis
    proof (cases "?r (h ! pos) (h ! ?p)")
      case False
      then show ?thesis using almost_stop [OF less.prems(1, 2)] True
        unfolding siftdown_loop.simps [of _ _ _ _ pos] if_P [OF True] cmp by (simp add: settles_def)
    next
      case x: True
      let ?h = "exchange pos ?p h"
      have "almost ?r k ?p True ?h"
        using almost_up [OF strict_weak_dir [OF c(2)] less.prems(1) _ _ less.prems(2) x] up p by simp
      then have "settles ?r k ?h s (siftdown_loop ops mx (length ?h) k ?p (?h, s))"
        using less.IH [OF p(1), of ?h] up p by simp
      then have "settles ?r k h s (siftdown_loop ops mx (length h) k ?p (?h, s))"
        unfolding length_list_update by (rule settles_mset) (use less.prems(2) p in simp)
      then show ?thesis unfolding siftdown_loop.simps [of _ _ _ _ pos] if_P [OF True] cmp
        using x less.prems(2) p by simp
    qed
  qed
qed

lemma siftdown_settles:
  assumes "consistent ops lt" "strict_weak lt" "almost (heap_dir mx lt) k pos True h" "pos < length h" "descends k pos"
  shows "settles (heap_dir mx lt) k h s (siftdown ops mx k pos (h, s))"
  using siftdown_loop_settles [OF assms] assms(4) by (simp add: siftdown_def)

section \<open>Towards the leaves\<close>

definition sinks :: "('a \<Rightarrow> 'a \<Rightarrow> bool) \<Rightarrow> nat \<Rightarrow> 'a list \<Rightarrow> 's \<Rightarrow> ('a, 's, 'e, nat) heap_result \<Rightarrow> bool" where
  "sinks r k h s res \<longleftrightarrow> (\<exists>leaf h'. res = (Inr leaf, (h', s)) \<and> almost r k leaf False h' \<and> descends k leaf
    \<and> leaf < length h' \<and> length h' div 2 \<le> leaf \<and> mset h' = mset h)"

lemma pick_right_consistent:
  assumes "consistent ops lt" "l < length h"
  shows "pick_right ops mx (length h) l (h, s) = (Inr (l + 1 < length h \<and> \<not> heap_dir mx lt (h ! l) (h ! (l + 1))), (h, s))"
  using cmp_dir [OF assms, of "l + 1" mx s] by (auto simp: pick_right_def)

lemma siftup_loop_sinks:
  assumes c: "consistent ops lt" "strict_weak lt"
  shows "almost (heap_dir mx lt) k pos False h \<Longrightarrow> pos < length h \<Longrightarrow> descends k pos \<Longrightarrow>
    sinks (heap_dir mx lt) k h s (siftup_loop ops mx (length h) pos (h, s))"
proof (induction "length h - pos" arbitrary: pos h rule: less_induct)
  case less
  let ?r = "heap_dir mx lt" and ?l = "2 * pos + 1"
  note r = strict_weak_dir [OF c(2), of mx]
  show ?case
  proof (cases "pos < length h div 2")
    case False
    then show ?thesis using less.prems by (auto simp: sinks_def siftup_loop.simps)
  next
    case True
    then have l: "?l < length h" by linarith
    define right where "right = (?l + 1 < length h \<and> \<not> ?r (h ! ?l) (h ! (?l + 1)))"
    define ch where "ch = ?l + (if right then 1 else 0)"
    note pick = pick_right_consistent [OF c(1) l, of mx s, folded right_def]
    have ch: "ch < length h" "parent_of ch = pos" "0 < ch" "pos < ch" "ch = ?l \<or> ch = 2 * pos + 2"
      using l by (auto simp: ch_def right_def)
    have least: "\<not> ?r (h ! i) (h ! ch)" if i: "i < length h" "0 < i" "parent_of i = pos" for i
    proof -
      have "i = ?l \<or> i = ?l + 1" using i(2, 3) by auto
      then show ?thesis using strict_weakD(1, 2) [OF r] i(1) by (auto simp: ch_def right_def)
    qed
    let ?h = "exchange pos ch h"
    have a: "almost ?r k ch False ?h"
      using almost_down [OF r less.prems(1) ch(1-3) descends_le [OF less.prems(3)] least] by simp
    have "sinks ?r k ?h s (siftup_loop ops mx (length ?h) ch (?h, s))"
      using less.hyps [of ?h ch] a descends_child [OF less.prems(3) ch(5)] ch less.prems(2) by simp
    then have "sinks ?r k h s (siftup_loop ops mx (length h) ch (?h, s))"
      using ch(1) less.prems(2) by (simp add: sinks_def)
    moreover have "siftup_loop ops mx (length h) pos (h, s)
        = and_then (heap_swap pos ch (h, s)) (\<lambda>_ st2. siftup_loop ops mx (length h) ch st2)"
      unfolding siftup_loop.simps [of _ _ _ pos] if_P [OF True] pick by (simp add: Let_def ch_def)
    ultimately show ?thesis using ch(1) less.prems(2) by simp
  qed
qed

lemma almost_leaf:
  assumes "almost r k pos False xs" "length xs div 2 \<le> pos"
  shows "almost r k pos True xs"
proof -
  have "parent_of i \<noteq> pos" if "i < length xs" "0 < i" for i
    using that assms(2) by linarith
  then show ?thesis using assms(1) unfolding almost_def by blast
qed

lemma heap_from_almost: "heap_from r (Suc k) xs \<Longrightarrow> almost r k k False xs"
  unfolding heap_from_def almost_def by (auto simp: less_eq_Suc_le)

lemma siftup_settles:
  assumes c: "consistent ops lt" "strict_weak lt" and h: "heap_from (heap_dir mx lt) (Suc k) h" "k < length h"
  shows "settles (heap_dir mx lt) k h s (siftup ops mx k (h, s))"
proof -
  obtain leaf h' where l: "siftup_loop ops mx (length h) k (h, s) = (Inr leaf, (h', s))"
      "almost (heap_dir mx lt) k leaf False h'" "descends k leaf" "leaf < length h'" "length h' div 2 \<le> leaf" "mset h' = mset h"
    using siftup_loop_sinks [OF c heap_from_almost [OF h(1)] h(2), of s] unfolding sinks_def by auto
  have "settles (heap_dir mx lt) k h' s (siftdown ops mx k leaf (h', s))"
    using siftdown_settles [OF c almost_leaf] l by blast
  then show ?thesis using l settles_mset [OF _ l(6)] h(2) by (simp add: siftup_def)
qed

section \<open>Building and reading a heap\<close>

lemma heap_from_half: "length h div 2 \<le> k \<Longrightarrow> heap_from r k h"
  unfolding heap_from_def by auto

lemma heapify_loop_settles:
  assumes c: "consistent ops lt" "strict_weak lt"
  shows "heap_from (heap_dir mx lt) n h \<Longrightarrow> n \<le> length h \<Longrightarrow>
    settles (heap_dir mx lt) 0 h s (heapify_loop ops mx (rev [0..<n]) (h, s))"
proof (induction n arbitrary: h)
  case (Suc n)
  obtain h' where h: "siftup ops mx n (h, s) = (Inr (), (h', s))" "heap_from (heap_dir mx lt) n h'" "mset h' = mset h"
    using siftup_settles [OF c Suc.prems(1), of s] Suc.prems(2) unfolding settles_def by auto
  have "length h' = length h" using h(3) by (rule mset_eq_length)
  then have "settles (heap_dir mx lt) 0 h' s (heapify_loop ops mx (rev [0..<n]) (h', s))"
    using Suc.IH [OF h(2)] Suc.prems(2) by simp
  then show ?case using settles_mset [OF _ h(3)] h(1) by simp
qed (simp add: settles_def)

lemma heapify_settles:
  "consistent ops lt \<Longrightarrow> strict_weak lt \<Longrightarrow> settles (heap_dir mx lt) 0 h s (heapify ops mx (h, s))"
  unfolding heapify_def fst_conv by (rule heapify_loop_settles [OF _ _ heap_from_half]) auto

lemma heap_from_update: "heap_from r 0 h \<Longrightarrow> heap_from r (Suc 0) (h[0 := x])"
  unfolding heap_from_def by (auto simp: nth_list_update)

lemma heap_from_butlast: "heap_from r k h \<Longrightarrow> heap_from r k (butlast h)"
  unfolding heap_from_def by (auto simp: nth_butlast)

lemma almost_push: "heap_from r 0 h \<Longrightarrow> almost r 0 (length h) True (h @ [x])"
  unfolding heap_from_def almost_def by (auto simp: nth_append)

lemma descends_root: "descends 0 p"
  by (induction p rule: less_induct) (subst descends.simps, auto)

lemma heap_least:
  assumes r: "strict_weak r" and h: "heap_from r 0 h"
  shows "i < length h \<Longrightarrow> \<not> r (h ! i) (h ! 0)"
proof (induction i rule: less_induct)
  case (less i)
  show ?case
  proof (cases i)
    case (Suc j)
    then have "parent_of i < i" "0 < i" by auto
    then show ?thesis
      using less strict_weakD(3) [OF r] h [unfolded heap_from_def, rule_format, of i] by force
  qed (simp add: strict_weakD(1) [OF r])
qed

end
