(* ===== verification/Heap_Properties.thy ===== *)
theory Heap_Properties
  imports Heap_Sift
begin

text \<open>
  The properties of the priority queue (\<open>crates/weavepy-vm/src/stdlib/heapq_accel.rs\<close>): what
  holds whatever a comparison does, what holds with a consistent one, and the contract a
  client relies on, the order of the elements popped.
\<close>

section \<open>Any comparison\<close>

lemma ends_weaken: "ends E Q r \<Longrightarrow> (\<And>e st. E e st \<Longrightarrow> E' e st) \<Longrightarrow> (\<And>v st. Q v st \<Longrightarrow> Q' v st) \<Longrightarrow> ends E' Q' r"
  by (auto simp: ends_def split: prod.splits sum.splits)

lemma replace_and_sift_eq:
  "h \<noteq> [] \<Longrightarrow> replace_and_sift ops mx x (h, s)
    = and_then (siftup ops mx 0 (h[0 := x], s)) (\<lambda>_ st1. (Inr (h ! 0), st1))"
  by (simp add: replace_and_sift_def replace_first_def)

lemma replace_and_sift_ends:
  "heap_invariant ops J \<Longrightarrow> h \<noteq> [] \<Longrightarrow> J (h[0 := x], s) \<Longrightarrow>
    ends (no_panic J) (\<lambda>v st. v = h ! 0 \<and> J st) (replace_and_sift ops mx x (h, s))"
  unfolding replace_and_sift_eq by (rule ends_and_then [OF siftup_ends]) auto

lemma heap_invariant_true: "heap_invariant ops (\<lambda>_. True)"
  by (simp add: heap_invariant_def)

lemma ends_no_panic: "ends (no_panic J) Q r \<Longrightarrow> fst r \<noteq> Inl HeapPanic"
  by (auto simp: ends_def no_panic_def split: prod.splits)

lemma heappushpop_ends: "ends (no_panic (\<lambda>_. True)) (\<lambda>_ _. True) (heappushpop ops mx x st)"
proof (cases "fst st")
  case (Cons y rest)
  note safe = replace_and_sift_ends [OF heap_invariant_true _ TrueI, THEN ends_weaken]
  have cmp: "ends (no_panic (\<lambda>_. True)) (\<lambda>_ _. True) (if mx then op_less ops x y st else op_less ops y x st)"
    using op_less_ends [OF heap_invariant_true [of ops] TrueI] by simp
  show ?thesis
    unfolding heappushpop_def Cons list.case
    by (rule ends_and_then [OF cmp], rename_tac replace st1, case_tac st1) (auto simp: no_panic_def intro: safe)
qed (simp add: heappushpop_def)

text \<open>
  C35. Whatever a comparison does, run code that changes or clears the list included, no
  operation of the queue reads or writes an index out of range: none of them panics.
\<close>
theorem heap_never_panics:
  "fst (heappush ops mx x st) \<noteq> Inl HeapPanic \<and> fst (heappop ops mx st) \<noteq> Inl HeapPanic
    \<and> fst (heapreplace ops mx x st) \<noteq> Inl HeapPanic \<and> fst (heappushpop ops mx x st) \<noteq> Inl HeapPanic
    \<and> fst (heapify ops mx st) \<noteq> Inl HeapPanic"
proof -
  obtain h s where st: "st = (h, s)" by (cases st)
  note safe = ends_no_panic [OF replace_and_sift_ends [OF heap_invariant_true _ TrueI]]
  have "fst (heappush ops mx x st) \<noteq> Inl HeapPanic"
    unfolding heappush_def st by (simp add: ends_no_panic [OF siftdown_ends [OF heap_invariant_true]])
  moreover have "fst (heapify ops mx st) \<noteq> Inl HeapPanic"
    unfolding heapify_def by (simp add: ends_no_panic [OF heapify_loop_ends [OF heap_invariant_true]])
  ultimately show ?thesis
    using ends_no_panic [OF heappushpop_ends [of ops mx x "(h, s)"]] unfolding heappop_def heapreplace_def st by (simp add: safe)
qed

text \<open>The elements of the list stay the same.\<close>

abbreviation holds :: "'a multiset \<Rightarrow> ('a, 's) heap_state \<Rightarrow> bool" where
  "holds M st \<equiv> mset (fst st) = M"

definition leaves_list :: "('a, 's, 'e) heap_ops \<Rightarrow> bool" where
  "leaves_list ops \<longleftrightarrow> (\<forall>a b st. fst (snd (ho_less ops a b st)) = fst st)"

lemma heap_invariant_mset: "leaves_list ops \<Longrightarrow> heap_invariant ops (holds M)"
  unfolding heap_invariant_def leaves_list_def by simp

lemma first_butlast: "butlast h \<noteq> [] \<Longrightarrow> h ! 0 = butlast h ! 0 \<and> butlast h ! 0 \<in># mset (butlast h)"
proof -
  assume "butlast h \<noteq> []"
  then have "0 < length (butlast h)" unfolding length_greater_0_conv .
  from nth_mem [OF this] nth_butlast [OF this, symmetric] show ?thesis unfolding set_mset_mset by (rule conjI [rotated])
qed

lemma mset_pop: "h \<noteq> [] \<Longrightarrow> butlast h \<noteq> [] \<Longrightarrow> mset ((butlast h)[0 := last h]) = mset h - {#h ! 0#}"
proof -
  assume h: "h \<noteq> []" "butlast h \<noteq> []"
  have "mset h = mset (butlast h) + {#last h#}" using arg_cong [OF append_butlast_last_id [OF h(1)], of mset] by simp
  moreover note first_butlast [OF h(2)]
  moreover have "0 < length (butlast h)" using h(2) unfolding length_greater_0_conv .
  note mset_update [OF this, of "last h"]
  ultimately show ?thesis by simp
qed

lemma ends_holds:
  "ends (no_panic (holds M)) Q r \<Longrightarrow> (\<And>v st. Q v st \<Longrightarrow> holds M st \<and> P v) \<Longrightarrow>
    mset (fst (snd r)) = M \<and> (\<forall>v. fst r = Inr v \<longrightarrow> P v)"
  by (auto simp: ends_def no_panic_def split: prod.splits sum.splits)

lemma replace_and_sift_mset:
  assumes "leaves_list ops" "h \<noteq> []" "mset (h[0 := x]) = M"
  shows "mset (fst (snd (replace_and_sift ops mx x (h, s)))) = M
    \<and> (\<forall>v. fst (replace_and_sift ops mx x (h, s)) = Inr v \<longrightarrow> v = h ! 0)"
  by (rule ends_holds [OF replace_and_sift_ends [OF heap_invariant_mset [OF assms(1)] assms(2)]]) (use assms(3) in auto)

lemma heappop_mset:
  assumes "leaves_list ops" "h \<noteq> []"
  shows "mset (fst (snd (heappop ops mx (h, s)))) = mset h - {#h ! 0#}
    \<and> (\<forall>v. fst (heappop ops mx (h, s)) = Inr v \<longrightarrow> v = h ! 0)"
proof (cases "butlast h = []")
  case True
  then have "\<exists>y. h = [y]" using append_butlast_last_id [OF assms(2)] by (metis append_Nil)
  then show ?thesis by (auto simp: heappop_def)
next
  case False
  show ?thesis
    unfolding heappop_def
    using False assms(2) replace_and_sift_mset [OF assms(1) False mset_pop [OF assms(2) False]] first_butlast [OF False]
    by simp
qed

lemma heappushpop_eq:
  "h \<noteq> [] \<Longrightarrow> heappushpop ops mx x (h, s) =
    and_then (if mx then op_less ops x (h ! 0) (h, s) else op_less ops (h ! 0) x (h, s))
      (\<lambda>replace st1. if \<not> replace then (Inr x, st1)
         else if fst st1 = [] then (Inl (IndexError ''list index out of range''), st1)
         else replace_and_sift ops mx x st1)"
  by (cases h) (simp_all only: heappushpop_def fst_conv list.case nth_Cons_0 not_Cons_self2 simp_thms)

lemma heappushpop_mset:
  assumes "leaves_list ops" "h \<noteq> []"
  shows "(\<forall>v. fst (heappushpop ops mx x (h, s)) = Inr v \<longrightarrow>
      add_mset v (mset (fst (snd (heappushpop ops mx x (h, s))))) = add_mset x (mset h))
    \<and> (\<forall>e. fst (heappushpop ops mx x (h, s)) = Inl e \<longrightarrow>
      mset (fst (snd (heappushpop ops mx x (h, s)))) \<in> {mset h, add_mset x (mset h - {#h ! 0#})})"
proof -
  let ?cmp = "if mx then op_less ops x (h ! 0) (h, s) else op_less ops (h ! 0) x (h, s)"
  have "fst (snd (op_less ops a b (h, s))) = h" for a b
    using assms(1) by (auto simp: op_less_def leaves_list_def split: prod.splits sum.splits) (metis fst_conv snd_conv)+
  then obtain r s1 where c: "?cmp = (r, (h, s1))" by (metis prod.collapse)
  note heappushpop_eq [OF assms(2), of ops mx x s, unfolded c]
  moreover have "mset (h[0 := x]) = add_mset x (mset h - {#h ! 0#})" using assms(2) by (simp add: mset_update)
  note replace_and_sift_mset [OF assms this, of mx s1]
  moreover have "add_mset (h ! 0) (add_mset x (mset h - {#h ! 0#})) = add_mset x (mset h)" using assms(2) by simp
  ultimately show ?thesis using assms(2) by (cases r) auto
qed

text \<open>
  C9. As long as a comparison does not itself change the list, it may fail or answer anything:
  pushing leaves the list with the new element added, and building the heap with all it had.
  Of a list that is not empty, popping takes out exactly the first element and replacing puts
  the new one in its place; on success it is returned, on failure it is gone. Pushing and
  popping in one step returns one of the elements and keeps the others; when it fails, the list
  is as it was or has the new element for the first. On the empty list the first two raise and
  the third returns the new element.
\<close>
theorem heap_keeps_elements:
  assumes "leaves_list ops"
  shows "mset (fst (snd (heappush ops mx x (h, s)))) = add_mset x (mset h)
    \<and> mset (fst (snd (heapify ops mx (h, s)))) = mset h
    \<and> (if h = [] then
        heappop ops mx (h, s) = (Inl (IndexError ''index out of range''), (h, s))
        \<and> heapreplace ops mx x (h, s) = (Inl (IndexError ''index out of range''), (h, s))
        \<and> heappushpop ops mx x (h, s) = (Inr x, (h, s))
      else \<exists>rest. mset h = add_mset (h ! 0) rest
        \<and> mset (fst (snd (heappop ops mx (h, s)))) = rest
        \<and> mset (fst (snd (heapreplace ops mx x (h, s)))) = add_mset x rest
        \<and> (\<forall>v. fst (heappop ops mx (h, s)) = Inr v \<or> fst (heapreplace ops mx x (h, s)) = Inr v \<longrightarrow> v = h ! 0)
        \<and> (\<forall>v. fst (heappushpop ops mx x (h, s)) = Inr v \<longrightarrow>
            add_mset v (mset (fst (snd (heappushpop ops mx x (h, s))))) = add_mset x (mset h))
        \<and> (\<forall>e. fst (heappushpop ops mx x (h, s)) = Inl e \<longrightarrow>
            mset (fst (snd (heappushpop ops mx x (h, s)))) \<in> {mset h, add_mset x rest}))"
proof (intro conjI)
  note J = heap_invariant_mset [OF assms(1)]
  show "mset (fst (snd (heappush ops mx x (h, s)))) = add_mset x (mset h)"
    unfolding heappush_def
    using ends_holds [OF siftdown_ends [OF J, of _ "add_mset x (mset h)"], of _ "\<lambda>_. True"] by simp
  show "mset (fst (snd (heapify ops mx (h, s)))) = mset h"
    unfolding heapify_def using ends_holds [OF heapify_loop_ends [OF J, of _ "mset h"], of _ "\<lambda>_. True"] by simp
  show "if h = [] then
        heappop ops mx (h, s) = (Inl (IndexError ''index out of range''), (h, s))
        \<and> heapreplace ops mx x (h, s) = (Inl (IndexError ''index out of range''), (h, s))
        \<and> heappushpop ops mx x (h, s) = (Inr x, (h, s))
      else \<exists>rest. mset h = add_mset (h ! 0) rest
        \<and> mset (fst (snd (heappop ops mx (h, s)))) = rest
        \<and> mset (fst (snd (heapreplace ops mx x (h, s)))) = add_mset x rest
        \<and> (\<forall>v. fst (heappop ops mx (h, s)) = Inr v \<or> fst (heapreplace ops mx x (h, s)) = Inr v \<longrightarrow> v = h ! 0)
        \<and> (\<forall>v. fst (heappushpop ops mx x (h, s)) = Inr v \<longrightarrow>
            add_mset v (mset (fst (snd (heappushpop ops mx x (h, s))))) = add_mset x (mset h))
        \<and> (\<forall>e. fst (heappushpop ops mx x (h, s)) = Inl e \<longrightarrow>
            mset (fst (snd (heappushpop ops mx x (h, s)))) \<in> {mset h, add_mset x rest})"
  proof (cases "h = []")
    case False
    have "mset (h[0 := x]) = add_mset x (mset h - {#h ! 0#})" using False by (simp add: mset_update)
    note r = replace_and_sift_mset [OF assms False this, of mx s]
    have "heapreplace ops mx x (h, s) = replace_and_sift ops mx x (h, s)" using False by (simp add: heapreplace_def)
    then show ?thesis
      unfolding if_not_P [OF False]
      using r heappop_mset [OF assms False, of mx s] heappushpop_mset [OF assms False, of mx x s] False
      by (intro exI [of _ "mset h - {#h ! 0#}"]) auto
  qed (simp add: heappop_def heapreplace_def heappushpop_def)
qed

text \<open>The scalars of the interpreter, compared natively, and elements whose comparison always fails.\<close>

definition scalar_heap :: "(int, unit, unit) heap_ops" where
  "scalar_heap = \<lparr>ho_native = (\<lambda>a b. Some (a < b)), ho_less = (\<lambda>a b st. (Inr (a < b), st))\<rparr>"

definition failing_heap :: "(int, unit, string) heap_ops" where
  "failing_heap = \<lparr>ho_native = (\<lambda>a b. None), ho_less = (\<lambda>a b st. (Inl ''unorderable'', st))\<rparr>"

theorem heap_keeps_elements_witness:
  "mset (fst (snd (heappush failing_heap False 1 ([2, 3], ())))) = {#1, 2, 3#}"
proof -
  have "leaves_list failing_heap" by (simp add: leaves_list_def failing_heap_def)
  from heap_keeps_elements [OF this, of False 1 "[2, 3]" "()"] show ?thesis by simp
qed

section \<open>A consistent comparison\<close>

lemma consistent_scalar: "consistent scalar_heap (<)"
  by (simp add: consistent_def scalar_heap_def)

lemma strict_weak_less: "strict_weak ((<) :: int \<Rightarrow> int \<Rightarrow> bool)"
  by (auto simp: strict_weak_def)

lemma siftup_root:
  assumes "consistent ops lt" "strict_weak lt" "heap_from (heap_dir mx lt) 0 h" "h \<noteq> []"
  shows "settles (heap_dir mx lt) 0 (h[0 := x]) s (siftup ops mx 0 (h[0 := x], s))"
  by (rule siftup_settles) (use assms heap_from_update in auto)

lemma heap_first_least:
  "strict_weak lt \<Longrightarrow> heap_from (heap_dir mx lt) 0 h \<Longrightarrow> y \<in> set h \<Longrightarrow> \<not> heap_dir mx lt y (h ! 0)"
  using heap_least [OF strict_weak_dir] by (metis in_set_conv_nth)

lemma mset_first: "h \<noteq> [] \<Longrightarrow> mset h = add_mset (h ! 0) (mset h - {#h ! 0#})"
  by simp

lemma heappush_settles:
  assumes "consistent ops lt" "strict_weak lt" "heap_from (heap_dir mx lt) 0 h"
  shows "settles (heap_dir mx lt) 0 (h @ [x]) s (heappush ops mx x (h, s))"
  unfolding heappush_def
  using siftdown_settles [OF assms(1, 2) almost_push [OF assms(3)] _ descends_root, of x s] by simp

lemma heappop_settles:
  assumes "consistent ops lt" "strict_weak lt" "heap_from (heap_dir mx lt) 0 h" "h \<noteq> []"
  shows "\<exists>h'. heappop ops mx (h, s) = (Inr (h ! 0), (h', s)) \<and> heap_from (heap_dir mx lt) 0 h' \<and> mset h = add_mset (h ! 0) (mset h')"
proof (cases "butlast h = []")
  case True
  then have "\<exists>y. h = [y]" using append_butlast_last_id [OF assms(4)] by (metis append_Nil)
  then show ?thesis by (auto simp: heappop_def heap_from_def)
next
  case False
  obtain h' where h': "siftup ops mx 0 ((butlast h)[0 := last h], s) = (Inr (), (h', s))" "heap_from (heap_dir mx lt) 0 h'"
      "mset h' = mset ((butlast h)[0 := last h])"
    using siftup_root [OF assms(1, 2) heap_from_butlast [OF assms(3)] False] unfolding settles_def by blast
  have "heappop ops mx (h, s) = (Inr (h ! 0), (h', s))"
    unfolding heappop_def using h'(1) False assms(4) first_butlast [OF False] replace_and_sift_eq [OF False, of ops mx "last h" s] by simp
  moreover have "mset h = add_mset (h ! 0) (mset h')"
    using h'(3) mset_pop [OF assms(4) False] mset_first [OF assms(4)] by simp
  ultimately show ?thesis using h'(2) by blast
qed

lemma heapreplace_settles:
  assumes "consistent ops lt" "strict_weak lt" "heap_from (heap_dir mx lt) 0 h" "h \<noteq> []"
  shows "\<exists>h'. heapreplace ops mx x (h, s) = (Inr (h ! 0), (h', s)) \<and> heap_from (heap_dir mx lt) 0 h'
    \<and> add_mset (h ! 0) (mset h') = add_mset x (mset h)"
proof -
  obtain h' where h': "siftup ops mx 0 (h[0 := x], s) = (Inr (), (h', s))" "heap_from (heap_dir mx lt) 0 h'"
      "mset h' = mset (h[0 := x])"
    using siftup_root [OF assms] unfolding settles_def by blast
  have "add_mset (h ! 0) (mset h') = add_mset x (mset h)"
    using h'(3) assms(4) mset_first [OF assms(4)] by (simp add: mset_update)
  then show ?thesis unfolding heapreplace_def using h'(1, 2) assms(4) replace_and_sift_eq [OF assms(4), of ops mx x s] by simp
qed

lemma heappushpop_settles:
  assumes "consistent ops lt" "strict_weak lt" "heap_from (heap_dir mx lt) 0 h"
  shows "\<exists>v h'. heappushpop ops mx x (h, s) = (Inr v, (h', s)) \<and> heap_from (heap_dir mx lt) 0 h'
    \<and> add_mset v (mset h') = add_mset x (mset h) \<and> (\<forall>y \<in> set h. \<not> heap_dir mx lt y v) \<and> \<not> heap_dir mx lt x v"
proof (cases "h = []")
  case True
  then show ?thesis using assms(3) strict_weakD(1) [OF strict_weak_dir [OF assms(2)]] by (auto simp: heappushpop_def)
next
  case False
  let ?r = "heap_dir mx lt"
  note r = strict_weak_dir [OF assms(2), of mx] and least = heap_first_least [OF assms(2, 3)]
  have cmp: "(if mx then op_less ops x (h ! 0) (h, s) else op_less ops (h ! 0) x (h, s)) = (Inr (?r (h ! 0) x), (h, s))"
    by (simp add: op_less_consistent [OF assms(1)] heap_dir_def)
  show ?thesis
  proof (cases "?r (h ! 0) x")
    case True
    have "heappushpop ops mx x (h, s) = heapreplace ops mx x (h, s)"
      unfolding heappushpop_eq [OF False] cmp using True False by (simp add: heapreplace_def)
    then show ?thesis using heapreplace_settles [OF assms False, of x s] least strict_weakD(2) [OF r True] by auto
  next
    case no: False
    have "heappushpop ops mx x (h, s) = (Inr x, (h, s))"
      unfolding heappushpop_eq [OF False] cmp using no by simp
    then show ?thesis using assms(3) least strict_weakD(3) [OF r _ no] strict_weakD(1) [OF r] by auto
  qed
qed

text \<open>
  C34. With a consistent comparison the four operations keep the heap order and return: pushing
  adds the element; popping and replacing give the first element back, which no element
  precedes; and pushing and popping in one step returns what no element nor the new one
  precedes. In a max-heap the order is the reverse.
\<close>
theorem heap_order_kept:
  assumes "consistent ops lt" "strict_weak lt" "heap_from (heap_dir mx lt) 0 h" "h \<noteq> []"
  shows "(\<exists>h'. heappush ops mx x (h, s) = (Inr (), (h', s)) \<and> heap_from (heap_dir mx lt) 0 h' \<and> mset h' = add_mset x (mset h))
    \<and> (\<exists>h'. heappop ops mx (h, s) = (Inr (h ! 0), (h', s)) \<and> heap_from (heap_dir mx lt) 0 h' \<and> mset h = add_mset (h ! 0) (mset h'))
    \<and> (\<exists>h'. heapreplace ops mx x (h, s) = (Inr (h ! 0), (h', s)) \<and> heap_from (heap_dir mx lt) 0 h'
      \<and> add_mset (h ! 0) (mset h') = add_mset x (mset h))
    \<and> (\<forall>y \<in> set h. \<not> heap_dir mx lt y (h ! 0))
    \<and> (\<exists>v h'. heappushpop ops mx x (h, s) = (Inr v, (h', s)) \<and> heap_from (heap_dir mx lt) 0 h'
      \<and> add_mset v (mset h') = add_mset x (mset h) \<and> (\<forall>y \<in> set h. \<not> heap_dir mx lt y v) \<and> \<not> heap_dir mx lt x v)"
  using heappush_settles [OF assms(1-3), of x s] heappop_settles [OF assms, of s] heapreplace_settles [OF assms, of x s]
    heap_first_least [OF assms(2, 3)] heappushpop_settles [OF assms(1-3), of x s]
  unfolding settles_def by (intro conjI) simp_all

theorem heap_order_kept_witness:
  "(\<exists>h'. heappush scalar_heap False 2 ([1, 5, 3], ()) = (Inr (), (h', ())) \<and> mset h' = {#1, 2, 3, 5#})
    \<and> heap_from (heap_dir False (<)) 0 [1, 5, 3 :: int]"
proof -
  have h: "heap_from (heap_dir False (<)) 0 [1, 5, 3 :: int]"
    by (auto simp: heap_from_def heap_dir_def less_Suc_eq numeral_eq_Suc)
  have "\<exists>h'. heappush scalar_heap False 2 ([1, 5, 3], ()) = (Inr (), (h', ())) \<and> heap_from (heap_dir False (<)) 0 h'
      \<and> mset h' = add_mset 2 (mset [1, 5, 3])"
    using heap_order_kept [OF consistent_scalar strict_weak_less h, of 2 "()"] by simp
  then show ?thesis using h by (auto simp: add_mset_commute)
qed

end
