(* ===== verification/Heap_Queue.thy ===== *)
theory Heap_Queue
  imports Heap_Properties
begin

text \<open>
  What a client of the queue relies on, as an interface: adding an element, and taking out one
  that no other precedes. Taking out all of them one by one gives them in order. The heap
  operations on a list in heap order provide it.
\<close>

fun drain :: "('q \<Rightarrow> ('v \<times> 'q) option) \<Rightarrow> nat \<Rightarrow> 'q \<Rightarrow> 'v list" where
  "drain pop 0 q = []"
| "drain pop (Suc n) q = (case pop q of None \<Rightarrow> [] | Some (v, q') \<Rightarrow> v # drain pop n q')"

fun put_all :: "('v \<Rightarrow> 'q \<Rightarrow> 'q option) \<Rightarrow> 'v list \<Rightarrow> 'q \<Rightarrow> 'q option" where
  "put_all put [] q = Some q"
| "put_all put (x # xs) q = Option.bind (put x q) (put_all put xs)"

locale priority_queue =
  fixes put :: "'v \<Rightarrow> 'q \<Rightarrow> 'q option" and pop :: "'q \<Rightarrow> ('v \<times> 'q) option"
    and contents :: "'q \<Rightarrow> 'v multiset" and good :: "'q \<Rightarrow> bool" and before :: "'v \<Rightarrow> 'v \<Rightarrow> bool"
  assumes put: "good q \<Longrightarrow> \<exists>q'. put x q = Some q' \<and> good q' \<and> contents q' = add_mset x (contents q)"
    and pop: "good q \<Longrightarrow> contents q \<noteq> {#} \<Longrightarrow> \<exists>v q'. pop q = Some (v, q') \<and> good q'
      \<and> contents q = add_mset v (contents q') \<and> (\<forall>y \<in># contents q. \<not> before y v)"
begin

lemma drain_sorted:
  "good q \<Longrightarrow> size (contents q) = n \<Longrightarrow>
    mset (drain pop n q) = contents q \<and> sorted_wrt (\<lambda>x y. \<not> before y x) (drain pop n q)"
proof (induction n arbitrary: q)
  case (Suc n)
  then have "contents q \<noteq> {#}" by auto
  from pop [OF Suc.prems(1) this] obtain v q' where v: "pop q = Some (v, q')" "good q'"
      "contents q = add_mset v (contents q')" "\<forall>y \<in># contents q. \<not> before y v" by blast
  then have rest: "mset (drain pop n q') = contents q' \<and> sorted_wrt (\<lambda>x y. \<not> before y x) (drain pop n q')"
    using Suc.IH Suc.prems(2) by simp
  then have "\<forall>y \<in> set (drain pop n q'). \<not> before y v" using v(3, 4) by (metis set_mset_mset union_iff add_mset_add_single)
  then show ?case using v(1, 3) rest by simp
qed simp

lemma put_all_contents:
  "good q \<Longrightarrow> \<exists>q'. put_all put xs q = Some q' \<and> good q' \<and> contents q' = mset xs + contents q"
proof (induction xs arbitrary: q)
  case (Cons x xs)
  obtain q1 where q1: "put x q = Some q1" "good q1" "contents q1 = add_mset x (contents q)"
    using put [OF Cons.prems] by blast
  then show ?case using Cons.IH [OF q1(2)] by simp
qed simp

lemma put_drain_sorted:
  "good q \<Longrightarrow> contents q = {#} \<Longrightarrow> \<exists>q'. put_all put xs q = Some q'
    \<and> mset (drain pop (length xs) q') = mset xs \<and> sorted_wrt (\<lambda>x y. \<not> before y x) (drain pop (length xs) q')"
  using put_all_contents [of q xs] drain_sorted [of _ "length xs"] by fastforce

end

section \<open>The heap provides it\<close>

definition push_of :: "('a, 's, 'e) heap_ops \<Rightarrow> bool \<Rightarrow> 'a \<Rightarrow> ('a, 's) heap_state \<Rightarrow> ('a, 's) heap_state option" where
  "push_of ops mx x st = (case heappush ops mx x st of (Inr _, st') \<Rightarrow> Some st' | (Inl _, _) \<Rightarrow> None)"

definition pop_of :: "('a, 's, 'e) heap_ops \<Rightarrow> bool \<Rightarrow> ('a, 's) heap_state \<Rightarrow> ('a \<times> ('a, 's) heap_state) option" where
  "pop_of ops mx st = (case heappop ops mx st of (Inr v, st') \<Rightarrow> Some (v, st') | (Inl _, _) \<Rightarrow> None)"

abbreviation heap_good :: "bool \<Rightarrow> ('a \<Rightarrow> 'a \<Rightarrow> bool) \<Rightarrow> ('a, 's) heap_state \<Rightarrow> bool" where
  "heap_good mx lt st \<equiv> heap_from (heap_dir mx lt) 0 (fst st)"

locale ordered_heap =
  fixes ops :: "('a, 's, 'e) heap_ops" and mx :: bool and lt :: "'a \<Rightarrow> 'a \<Rightarrow> bool"
  assumes consistent: "consistent ops lt" and order: "strict_weak lt"

sublocale ordered_heap \<subseteq> queue: priority_queue "push_of ops mx" "pop_of ops mx" "\<lambda>st. mset (fst st)" "heap_good mx lt" "heap_dir mx lt"
proof
  fix x and q :: "'a list \<times> 's"
  assume q: "heap_good mx lt q"
  show "\<exists>q'. push_of ops mx x q = Some q' \<and> heap_good mx lt q' \<and> mset (fst q') = add_mset x (mset (fst q))"
    using heappush_settles [OF consistent order q, of x "snd q"] by (auto simp: settles_def push_of_def)
next
  fix q :: "'a list \<times> 's"
  assume q: "heap_good mx lt q" and ne: "mset (fst q) \<noteq> {#}"
  then have ne: "fst q \<noteq> []" by simp
  obtain h' where h': "heappop ops mx q = (Inr (fst q ! 0), (h', snd q))" "heap_from (heap_dir mx lt) 0 h'"
      "mset (fst q) = add_mset (fst q ! 0) (mset h')"
    using heappop_settles [OF consistent order q ne, of "snd q"] by auto
  have least: "\<forall>y \<in># mset (fst q). \<not> heap_dir mx lt y (fst q ! 0)" using heap_first_least [OF order q] by simp
  show "\<exists>v q'. pop_of ops mx q = Some (v, q') \<and> heap_good mx lt q' \<and> mset (fst q) = add_mset v (mset (fst q'))
      \<and> (\<forall>y \<in># mset (fst q). \<not> heap_dir mx lt y v)"
    using h' least by (intro exI [of _ "fst q ! 0"] exI [of _ "(h', snd q)"]) (simp add: pop_of_def)
qed

context ordered_heap begin

lemma drain_heap:
  "heap_good mx lt q \<Longrightarrow> length (fst q) = n \<Longrightarrow>
    mset (drain (pop_of ops mx) n q) = mset (fst q) \<and> sorted_wrt (\<lambda>x y. \<not> heap_dir mx lt y x) (drain (pop_of ops mx) n q)"
  by (rule queue.drain_sorted) simp_all

lemma push_drain:
  "\<exists>q. put_all (push_of ops mx) xs ([], s) = Some q \<and> mset (drain (pop_of ops mx) (length xs) q) = mset xs
    \<and> sorted_wrt (\<lambda>x y. \<not> heap_dir mx lt y x) (drain (pop_of ops mx) (length xs) q)"
  by (rule queue.put_drain_sorted) (simp_all add: heap_from_def)

end

text \<open>Queues of integers, smallest and largest first.\<close>

interpretation min_ints: ordered_heap scalar_heap False "(<)"
  by unfold_locales (rule consistent_scalar strict_weak_less)+

interpretation max_ints: ordered_heap scalar_heap True "(<)"
  by unfold_locales (rule consistent_scalar strict_weak_less)+

text \<open>
  C8. Building a heap from any list returns with its elements in heap order, and popping all
  of them one by one gives them sorted, or in the reverse order from a max-heap. So does
  pushing them one by one on the empty list instead.
\<close>
theorem heap_sorts:
  assumes "consistent ops lt" "strict_weak lt"
  shows "(\<exists>h'. heapify ops mx (h, s) = (Inr (), (h', s)) \<and> heap_from (heap_dir mx lt) 0 h'
      \<and> mset (drain (pop_of ops mx) (length h) (h', s)) = mset h
      \<and> sorted_wrt (\<lambda>x y. \<not> heap_dir mx lt y x) (drain (pop_of ops mx) (length h) (h', s)))
    \<and> (\<exists>q. put_all (push_of ops mx) h ([], s) = Some q
      \<and> mset (drain (pop_of ops mx) (length h) q) = mset h
      \<and> sorted_wrt (\<lambda>x y. \<not> heap_dir mx lt y x) (drain (pop_of ops mx) (length h) q))"
proof -
  have q: "ordered_heap ops lt" using assms by (rule ordered_heap.intro)
  obtain h' where h': "heapify ops mx (h, s) = (Inr (), (h', s))" "heap_from (heap_dir mx lt) 0 h'" "mset h' = mset h"
    using heapify_settles [OF assms, of mx h s] unfolding settles_def by blast
  show ?thesis
    using h' ordered_heap.drain_heap [OF q, of mx "(h', s)" "length h"] mset_eq_length [OF h'(3)]
      ordered_heap.push_drain [OF q, of mx h s] by auto
qed

theorem heap_sorts_witness:
  "\<exists>q. put_all (push_of scalar_heap True) [2, 9, 4] ([], ()) = Some q
    \<and> mset (drain (pop_of scalar_heap True) (length [2, 9, 4 :: int]) q) = mset [2, 9, 4]"
  using heap_sorts [OF consistent_scalar strict_weak_less, of True "[2, 9, 4]" "()"] by blast

end
