(* ===== verification/Spec2Isabelle.thy ===== *)
theory Spec2Isabelle
  imports Lex_Properties Lex_Literals Dict_Properties Dict_Bytes Dict_Keys Sort_Properties
    Code_Properties Jump_Properties Heap_Queue
begin

text \<open>
  \<^bold>\<open>The program.\<close> WeavePy is a Python interpreter in Rust. \<open>weavepy-lexer\<close> turns source bytes
  into tokens, \<open>weavepy-parser\<close> tokens into a syntax tree, \<open>weavepy-compiler\<close> the tree into
  instructions (\<open>CodeObject\<close>), which its wire codec writes as and reads from CPython code units;
  \<open>weavepy-vm\<close> runs them on objects whose dicts and sets are hash tables of its own, sorts lists,
  carries the native parts of the standard library and answers a debugger that assigns
  \<open>frame.f_lineno\<close>. The development models six parts, each in a group of theories; a definition
  has the name of the Rust function it translates where Isabelle allows it. The parts meet in
  two places. The virtual machine's jump analysis works on the compiler's code objects: the
  \<open>Jump\<close> theories use the instructions of \<open>Code_Instr\<close> and compare two stack analyses, the
  compiler's and the virtual machine's. And all use \<open>WP_Prelude\<close>: the machine types, the
  operations on slices, and the operators that thread a result that may fail.

  \<^bold>\<open>Lexer\<close> (\<open>crates/weavepy-lexer/src\<close>). \<open>Lex_Token\<close> and \<open>Lex_Error\<close> are \<open>token.rs\<close> and \<open>error.rs\<close>;
  \<open>scanner.rs\<close> is \<open>Lex_Utf8\<close> (decoding), \<open>Lex_Scanner\<close> (\<open>struct Scanner\<close>, indentation, brackets,
  the queue of layout tokens), \<open>Lex_Number\<close>, \<open>Lex_Punct\<close>, \<open>Lex_String\<close> (strings and f-strings) and
  \<open>Lex_Main\<close> (\<open>next_token\<close> and the loop \<open>tokenize_partial\<close>). \<open>Lex_Frame\<close> and \<open>Lex_Contracts\<close> say
  what every routine may change, \<open>Lex_Steps\<close> makes the scanner a step relation, \<open>Lex_Invariants\<close>
  proves invariants of its reachable states, \<open>Lex_Properties\<close> states what they mean for a token
  stream, \<open>Lex_Literals\<close> what the literal scanners accept. Mutual recursion of f-strings runs on
  fuel, \<open>fstring_fuel\<close>: three units for each byte left, since at most three
  calls nest before a byte is consumed; \<open>tokenize_returns\<close> shows that it never runs out. The
  Unicode tables \<open>XID_Start\<close> and \<open>XID_Continue\<close> and the preview switch are parameters.

  \<^bold>\<open>Dicts and sets\<close> (\<open>crates/weavepy-vm/src/dictmap.rs\<close>). \<open>Dict_Slots\<close> is the packed slot word and
  linear probing, \<open>Dict_Table\<close> the struct \<open>Table\<close> with every operation, \<open>Dict_Map\<close> the entry API,
  \<open>SetMap\<close> and the comparison of key strings, \<open>Dict_Keys\<close> the native probes. \<open>Dict_Spec\<close> is the
  specification, an association list in insertion order; \<open>Dict_Inv\<close>, \<open>Dict_Ops\<close> and \<open>Dict_Bulk\<close>
  have the invariant and its preservation, \<open>Dict_Refine\<close> and \<open>Dict_Interp\<close> the refinement,
  \<open>Dict_Properties\<close> and \<open>Dict_Bytes\<close> the statements. \<open>None\<close> is a panic or a loop without end;
  results hold for tables below \<open>2 ^ 31\<close> entries, past which the packed index has no room. Hash
  and equality of keys are a parameter (\<open>key_ops\<close>) with Python's documented laws (\<open>lawful_keys\<close>).

  \<^bold>\<open>List sort\<close> (\<open>crates/weavepy-vm/src/timsort.rs\<close>). \<open>Sort_Model\<close>, \<open>Sort_Merge\<close>, \<open>Sort_MergeHi\<close> and
  \<open>Sort_Main\<close> translate the file: raw pointers are indices, block moves are moves of slices, the
  comparator has a state of its own and may fail at any call, which leaves a merge half done.
  \<open>Sort_Power\<close>, \<open>Sort_Gallop\<close>, \<open>Sort_Count\<close>, \<open>Sort_Runs\<close>, \<open>Sort_Lo\<close>, \<open>Sort_Hi\<close>, \<open>Sort_Stack\<close> and
  \<open>Sort_Correct\<close> prove each routine against \<open>Sort_Spec\<close>, the stable merge and a reference
  insertion sort; \<open>Sort_Properties\<close> has the statements. Every loop is a recursion on indices.

  \<^bold>\<open>Wire codec\<close> (\<open>crates/weavepy-compiler/src/cpython_code.rs\<close>, \<open>bytecode.rs\<close>). \<open>Code_Op\<close> and
  \<open>Code_Instr\<close> are the opcodes of both sides and \<open>CodeObject\<close>, \<open>Code_Map\<close> the two translation
  tables, \<open>Code_Stack\<close> and \<open>Code_Depth\<close> the stack analysis, \<open>Code_Varint\<close>, \<open>Code_Loc\<close> and
  \<open>Code_Exc\<close> the location and exception tables, \<open>Code_Wire\<close> the assembler \<open>encode\<close>, \<open>Code_Decode\<close> the
  decoder. \<open>Code_Table\<close> shows the tables inverse, \<open>Code_Encode\<close>, \<open>Code_Units\<close>, \<open>Code_Settled\<close>
  and \<open>Code_Back\<close> that decoding inverts encoding, \<open>Code_Lines\<close> and \<open>Code_Handlers\<close> the same for
  the side tables, \<open>Code_Sound\<close> and \<open>Code_Effects\<close> the stack analysis; \<open>Code_Properties\<close> has the
  statements. \<open>None\<close> of \<open>encode\<close> is a panic: a pseudo-operation, or an index out of range. The
  layout loop has the 16 rounds of the source; \<open>layout_settles\<close> says that the last one changed
  nothing, which the round trips assume, and which holds for code of at most 255 units. The
  worklist of the stack analysis has the budget of the source, and a flag when it ran out. The
  exception table is read back for less than \<open>2 ^ 33\<close> bytes of code, so that units fit 32 bits.

  \<^bold>\<open>Jump analysis\<close> (\<open>crates/weavepy-vm/src/linejump.rs\<close>). \<open>Jump_Kinds\<close> is the packed stacks of kinds,
  \<open>Jump_Mark\<close> the two analyses \<open>mark_stacks\<close> and \<open>mark_bound_exits\<close> and the effect table they use,
  \<open>Jump_Plan\<close> the lines, the search for a target \<open>compute_jump\<close> and the line events.
  \<open>Jump_Stacks\<close> reads packed words as lists of at most 21 kinds; \<open>Jump_Fixpoint\<close> shows that the
  marking ends, \<open>Jump_Bound\<close> the exit slots correct, \<open>Jump_Effects\<close> compares the effect tables,
  \<open>Jump_Sound\<close> relates marks to the paths through the code, \<open>Jump_Search\<close> describes the target
  found; \<open>Jump_Properties\<close> has the statements. Loops that may not end are partial functions, and
  \<open>None\<close> is a loop that does not: there is one, on a handler of depth 22. The paths
  (\<open>runs\<close>) go by the compiler's effect table, not the analysis' own; \<open>well_stacked\<close> and
  \<open>plain_code\<close> are what the compiler means to emit, and the witnesses check them on code with a
  loop and with a handler. Only the number of the entries is related to the paths: the
  kinds the analysis gives them are wrong for \<open>CopyTop\<close> with an operand above 1.

  \<^bold>\<open>Heap queue\<close> (\<open>crates/weavepy-vm/src/stdlib/heapq_accel.rs\<close>). \<open>Heap_Model\<close> translates the file; a
  comparison may run code that changes the list, which is part of its state, and may fail; an
  index out of range is the error \<open>HeapPanic\<close>. \<open>Heap_Order\<close> and \<open>Heap_Sift\<close> prove the two sifts,
  \<open>Heap_Properties\<close> and \<open>Heap_Queue\<close> have the statements.

  \<^bold>\<open>Interfaces.\<close> \<open>assoc_store\<close>, \<open>ordered_map\<close> and \<open>key_set\<close> (\<open>Dict_Spec\<close>) are what clients ask of a
  table; \<open>Dict_Interp\<close> interprets them on the dict with ordered removal, the table with
  \<open>swap_remove\<close> and the set. \<open>token_scanner\<close> (\<open>Lex_Contracts\<close>) is the contract of \<open>next_token\<close> with
  the scanners of strings, numbers and names; \<open>fs_routines\<close> (\<open>Lex_Frame\<close>) that of the routines of
  an f-string with their recursive calls, interpreted on the fuelled runner. \<open>priority_queue\<close> and
  \<open>ordered_heap\<close> (\<open>Heap_Queue\<close>) are the queue's client and its provider, any heap with a consistent
  comparison; the interpretations are the min- and the max-heap of native integers.

  \<^bold>\<open>Not modelled.\<close> The parser, the code generator and the flowgraph optimizer of the compiler
  (only their output format is); the interpreter loop, its tiers and the object model, the
  JIT (Cranelift calls) and the C interface (raw pointers), too large or without source of
  their own; the garbage collector, the GIL and other synchronisation; the other native
  modules; the command line, benchmarks and packaging (input and output). Within the parts:
  message texts, \<open>Debug\<close> and \<open>Display\<close>, iterators, two sorts of a dict's entries by the standard
  library, and caches of encodings.
\<close>

end
